(* ===== verification/Prelude.thy ===== *)
theory Prelude
  imports Main "HOL-Library.Word"
begin

unbundle bit_operations_syntax

text \<open>
  Shared vocabulary of the development: the outcome of a C++ call that may end
  the process or leave the language's defined behaviour, the machine integers
  of the sources, the bit-counting functions of the C++ header \<open>bit\<close>,
  and the list and arithmetic lemmas that several components need.
\<close>

section \<open>Outcomes\<close>

text \<open>
  \<open>Exit\<close> is the process ending through one of the macros of
  \<open>src/common/assert.h\<close> (\<open>EXIT\<close>, \<open>EXIT_IF\<close>, \<open>EXIT_NOT_IMPLEMENTED\<close>) or
  through \<open>Fatal\<close>; \<open>Undef\<close> is a step the language leaves undefined, such as an
  index outside an array or a signed addition that overflows.
\<close>

datatype 'a outcome = Ret 'a | Exit | Undef

fun obind :: "'a outcome \<Rightarrow> ('a \<Rightarrow> 'b outcome) \<Rightarrow> 'b outcome" where
  "obind (Ret x) f = f x"
| "obind Exit f = Exit"
| "obind Undef f = Undef"

definition omap :: "('a \<Rightarrow> 'b) \<Rightarrow> 'a outcome \<Rightarrow> 'b outcome" where
  "omap f m = obind m (\<lambda>x. Ret (f x))"

named_theorems outcome_simps \<open>unfolding of outcomes\<close>

lemma omap_simps [simp]:
  "omap f (Ret x) = Ret (f x)" "omap f Exit = Exit" "omap f Undef = Undef"
  by (simp_all add: omap_def)

lemma obind_Ret_iff [outcome_simps]: "obind m f = Ret y \<longleftrightarrow> (\<exists>x. m = Ret x \<and> f x = Ret y)"
  by (cases m) auto

lemma omap_Ret_iff [outcome_simps]: "omap f m = Ret y \<longleftrightarrow> (\<exists>x. m = Ret x \<and> f x = y)"
  by (cases m) auto

lemma obind_assoc: "obind (obind m f) g = obind m (\<lambda>x. obind (f x) g)"
  by (cases m) auto

text \<open>A loop over a list of items that passes the state on and may leave early.\<close>

fun ofold :: "('a \<Rightarrow> 's \<Rightarrow> 's outcome) \<Rightarrow> 'a list \<Rightarrow> 's \<Rightarrow> 's outcome" where
  "ofold f [] s = Ret s"
| "ofold f (x # xs) s = obind (f x s) (ofold f xs)"

lemma ofold_append: "ofold f (xs @ ys) s = obind (ofold f xs s) (ofold f ys)"
proof (induction xs arbitrary: s)
  case (Cons x xs)
  then show ?case by (cases "f x s") simp_all
qed simp

lemma ofold_invariant:
  assumes "\<And>x s s'. x \<in> set xs \<Longrightarrow> I s \<Longrightarrow> f x s = Ret s' \<Longrightarrow> I s'"
    and "I s" "ofold f xs s = Ret s'"
  shows "I s'"
  using assms by (induction xs arbitrary: s) (auto simp: obind_Ret_iff)

lemma ofold_total:
  assumes "\<And>x s. x \<in> set xs \<Longrightarrow> I s \<Longrightarrow> \<exists>s'. f x s = Ret s' \<and> I s'" and "I s"
  shows "\<exists>s'. ofold f xs s = Ret s' \<and> I s'"
  using assms
proof (induction xs arbitrary: s)
  case (Cons x xs)
  then obtain s1 where "f x s = Ret s1" "I s1" by (meson list.set_intros(1))
  with Cons show ?case by simp
qed simp

text \<open>
  What holds of an outcome: \<open>Q\<close> of the value returned, \<open>E\<close> where the process exits, and no
  undefined step.
\<close>

fun owp :: "'a outcome \<Rightarrow> ('a \<Rightarrow> bool) \<Rightarrow> bool \<Rightarrow> bool" where
  "owp (Ret x) Q E = Q x"
| "owp Exit Q E = E"
| "owp Undef Q E = False"

lemma owp_obind [simp]: "owp (obind m f) Q E = owp m (\<lambda>x. owp (f x) Q E) E"
  by (cases m) simp_all

lemma owp_omap [simp]: "owp (omap f m) Q E = owp m (\<lambda>x. Q (f x)) E"
  by (cases m) simp_all

lemma owp_mono:
  "owp m Q E \<Longrightarrow> (\<And>x. m = Ret x \<Longrightarrow> Q x \<Longrightarrow> Q' x) \<Longrightarrow> (E \<Longrightarrow> E') \<Longrightarrow> owp m Q' E'"
  by (cases m) auto

lemma owp_RetD: "owp m Q E \<Longrightarrow> m = Ret x \<Longrightarrow> Q x"
  by simp

lemma owp_conj: "owp m Q E \<Longrightarrow> owp m R E' \<Longrightarrow> owp m (\<lambda>x. Q x \<and> R x) (E \<and> E')"
  by (cases m) auto

lemma owp_total: "owp m Q False \<longleftrightarrow> (\<exists>x. m = Ret x \<and> Q x)"
  by (cases m) auto

lemma owp_ofold_upt:
  assumes "I a s" "a \<le> b"
    and step: "\<And>i s. a \<le> i \<Longrightarrow> i < b \<Longrightarrow> I i s \<Longrightarrow> owp (f i s) (I (Suc i)) E"
  shows "owp (ofold f [a..<b] s) (I b) E"
  using assms(2)
proof (induction b rule: dec_induct)
  case base
  show ?case using assms(1) by simp
next
  case (step n)
  then show ?case
    using assms(3) by (auto simp: ofold_append elim!: owp_mono)
qed

lemma owp_ofold:
  assumes "I s" "\<And>x s. x \<in> set xs \<Longrightarrow> I s \<Longrightarrow> owp (f x s) I E"
  shows "owp (ofold f xs s) I E"
  using assms
proof (induction xs arbitrary: s)
  case (Cons x xs)
  have "owp (f x s) I E" using Cons.prems by simp
  then show ?case
    unfolding ofold.simps owp_obind by (rule owp_mono) (use Cons in auto)
qed simp

section \<open>Machine integers\<close>

type_synonym u64 = "64 word"
type_synonym u32 = "32 word"
type_synonym u16 = "16 word"
type_synonym u8 = "8 word"

text \<open>
  Addresses, sizes and counters whose sums the sources guard are natural numbers
  with their bound written out; \<open>u64_max\<close> and \<open>u32_max\<close> are \<open>UINT64_MAX\<close> and
  \<open>UINT32_MAX\<close>.
\<close>

definition u64_max :: nat where
  "u64_max = 2 ^ 64 - 1"

definition u32_max :: nat where
  "u32_max = 2 ^ 32 - 1"

text \<open>A signed addition of two \<open>int\<close> values: overflow is undefined behaviour.\<close>

definition i32_ok :: "int \<Rightarrow> bool" where
  "i32_ok x \<longleftrightarrow> - (2 ^ 31) \<le> x \<and> x < 2 ^ 31"

definition i32_add :: "int \<Rightarrow> int \<Rightarrow> int outcome" where
  "i32_add a b = (if i32_ok (a + b) then Ret (a + b) else Undef)"

lemma i32_add_Ret [simp]: "i32_add a b = Ret c \<longleftrightarrow> i32_ok (a + b) \<and> c = a + b"
  by (auto simp: i32_add_def)

lemma i32_add_not_Exit [simp]: "i32_add a b \<noteq> Exit"
  by (simp add: i32_add_def)

lemma i32_add_Undef [simp]: "i32_add a b = Undef \<longleftrightarrow> \<not> i32_ok (a + b)"
  by (simp add: i32_add_def)

section \<open>Leading parts of an index range\<close>

text \<open>
  \<open>prefix_len P n\<close> counts how far \<open>P\<close> holds without a gap from 0, at most \<open>n\<close>.
\<close>

definition prefix_len :: "(nat \<Rightarrow> bool) \<Rightarrow> nat \<Rightarrow> nat" where
  "prefix_len P n = length (takeWhile P [0..<n])"

lemma prefix_len_le: "prefix_len P n \<le> n"
  unfolding prefix_len_def by (metis diff_zero length_takeWhile_le length_upt)

lemma prefix_len_holds: "i < prefix_len P n \<Longrightarrow> P i"
proof -
  assume i: "i < prefix_len P n"
  then have "takeWhile P [0..<n] ! i \<in> set (takeWhile P [0..<n])"
    by (simp add: prefix_len_def)
  then have "P (takeWhile P [0..<n] ! i)"
    by (rule set_takeWhileD [THEN conjunct2])
  moreover have "takeWhile P [0..<n] ! i = [0..<n] ! i"
    using i by (simp add: prefix_len_def takeWhile_nth)
  moreover have "i < n"
    using i prefix_len_le [of P n] by simp
  ultimately show "P i" by simp
qed

lemma prefix_len_stop: "prefix_len P n < n \<Longrightarrow> \<not> P (prefix_len P n)"
  unfolding prefix_len_def
  by (metis add.left_neutral diff_zero length_upt nth_length_takeWhile nth_upt)

lemma prefix_len_eqI:
  assumes "k \<le> n" "\<And>i. i < k \<Longrightarrow> P i" "k < n \<Longrightarrow> \<not> P k"
  shows "prefix_len P n = k"
proof (rule antisym)
  show "prefix_len P n \<le> k"
  proof (rule ccontr)
    assume "\<not> prefix_len P n \<le> k"
    then have "k < prefix_len P n" by simp
    with prefix_len_holds prefix_len_le [of P n] assms(3) show False
      by (meson le_trans not_le order_less_le_trans)
  qed
  show "k \<le> prefix_len P n"
    using assms prefix_len_stop [of P n] by (meson le_less_trans not_le order_less_le_trans)
qed

section \<open>Bit counts of the C++ library\<close>

definition countr_zero :: "u64 \<Rightarrow> nat" where
  "countr_zero w = prefix_len (\<lambda>i. \<not> bit w i) 64"

definition countr_one :: "u64 \<Rightarrow> nat" where
  "countr_one w = prefix_len (\<lambda>i. bit w i) 64"

definition countl_zero :: "u64 \<Rightarrow> nat" where
  "countl_zero w = prefix_len (\<lambda>i. \<not> bit w (63 - i)) 64"

definition countl_one :: "u64 \<Rightarrow> nat" where
  "countl_one w = prefix_len (\<lambda>i. bit w (63 - i)) 64"

lemma word64_eq_iff: "(v :: u64) = w \<longleftrightarrow> (\<forall>i < 64. bit v i = bit w i)"
  by (auto simp: bit_eq_iff bit_imp_le_length)

lemma word64_zero_iff: "(w :: u64) = 0 \<longleftrightarrow> (\<forall>i < 64. \<not> bit w i)"
  by (simp add: word64_eq_iff)

lemma word64_ones_iff: "(w :: u64) = NOT 0 \<longleftrightarrow> (\<forall>i < 64. bit w i)"
  by (simp add: word64_eq_iff bit_not_iff)

lemma bit64_bound: "bit (w :: u64) i \<Longrightarrow> i < 64"
  using bit_imp_le_length [of w i] by simp

lemma countr_zero_bit:
  assumes "w \<noteq> 0"
  shows "countr_zero w < 64" and "bit w (countr_zero w)"
    and "\<And>i. i < countr_zero w \<Longrightarrow> \<not> bit w i"
proof -
  have hold: "\<not> bit w i" if "i < countr_zero w" for i
    using that prefix_len_holds [of i "\<lambda>i. \<not> bit w i"] by (simp add: countr_zero_def)
  show lt: "countr_zero w < 64"
  proof (rule ccontr)
    assume "\<not> countr_zero w < 64"
    with hold have "\<forall>i < 64. \<not> bit w i" by auto
    with assms show False by (simp add: word64_zero_iff)
  qed
  then show "bit w (countr_zero w)"
    using prefix_len_stop [of "\<lambda>i. \<not> bit w i" 64] by (simp add: countr_zero_def)
  show "\<And>i. i < countr_zero w \<Longrightarrow> \<not> bit w i" by (rule hold)
qed

lemma countr_one_bit:
  shows "countr_one w \<le> 64" and "\<And>i. i < countr_one w \<Longrightarrow> bit w i"
    and "countr_one w < 64 \<Longrightarrow> \<not> bit w (countr_one w)"
  using prefix_len_le [of "bit w" 64] prefix_len_holds [of _ "bit w" 64]
    prefix_len_stop [of "bit w" 64]
  by (auto simp: countr_one_def)

lemma countl_zero_bit:
  assumes "w \<noteq> 0"
  shows "countl_zero w < 64" and "bit w (63 - countl_zero w)"
    and "\<And>i. 63 - countl_zero w < i \<Longrightarrow> \<not> bit w i"
proof -
  have hold: "\<not> bit w (63 - i)" if "i < countl_zero w" for i
    using that prefix_len_holds [of i "\<lambda>i. \<not> bit w (63 - i)"] by (simp add: countl_zero_def)
  have high: "\<not> bit w i" if "63 < i + countl_zero w" for i
  proof (cases "i < 64")
    case True
    then have "63 - i < countl_zero w" using that by simp
    from hold [OF this] True show ?thesis by simp
  qed (auto dest: bit64_bound)
  show lt: "countl_zero w < 64"
  proof (rule ccontr)
    assume "\<not> countl_zero w < 64"
    with high have "\<forall>i < 64. \<not> bit w i" by auto
    with assms show False by (simp add: word64_zero_iff)
  qed
  then show "bit w (63 - countl_zero w)"
    using prefix_len_stop [of "\<lambda>i. \<not> bit w (63 - i)" 64] by (simp add: countl_zero_def)
  show "\<And>i. 63 - countl_zero w < i \<Longrightarrow> \<not> bit w i"
    using high lt by simp
qed

lemma countl_one_bit:
  shows "countl_one w \<le> 64" and "\<And>i. i < countl_one w \<Longrightarrow> bit w (63 - i)"
    and "countl_one w < 64 \<Longrightarrow> \<not> bit w (63 - countl_one w)"
  using prefix_len_le [of "\<lambda>i. bit w (63 - i)" 64]
    prefix_len_holds [of _ "\<lambda>i. bit w (63 - i)" 64]
    prefix_len_stop [of "\<lambda>i. bit w (63 - i)" 64]
  by (auto simp: countl_one_def)

section \<open>Lists\<close>

text \<open>\<open>std::find\<close> and \<open>std::find_if\<close>: the first position that satisfies a test.\<close>

fun find_index :: "('a \<Rightarrow> bool) \<Rightarrow> 'a list \<Rightarrow> nat option" where
  "find_index P [] = None"
| "find_index P (x # xs) = (if P x then Some 0 else map_option Suc (find_index P xs))"

lemma find_index_None [simp]: "find_index P xs = None \<longleftrightarrow> (\<forall>x \<in> set xs. \<not> P x)"
  by (induction xs) auto

lemma find_index_SomeD:
  "find_index P xs = Some i \<Longrightarrow> i < length xs \<and> P (xs ! i) \<and> (\<forall>j < i. \<not> P (xs ! j))"
proof (induction xs arbitrary: i)
  case Nil
  then show ?case by simp
next
  case (Cons x xs)
  then show ?case
    by (cases "P x") (auto simp: nth_Cons split: nat.splits)
qed

text \<open>\<open>vector::erase\<close> at a position.\<close>

definition erase_at :: "nat \<Rightarrow> 'a list \<Rightarrow> 'a list" where
  "erase_at i xs = take i xs @ drop (Suc i) xs"

lemma length_erase_at [simp]: "i < length xs \<Longrightarrow> length (erase_at i xs) = length xs - 1"
  by (simp add: erase_at_def)

lemma erase_at_remove1:
  "find_index (\<lambda>y. y = x) xs = Some i \<Longrightarrow> erase_at i xs = remove1 x xs"
  by (induction xs arbitrary: i) (auto simp: erase_at_def split: if_splits)

lemma set_erase_at_subset: "set (erase_at i xs) \<subseteq> set xs"
  by (auto simp: erase_at_def dest: in_set_takeD in_set_dropD)

end
