(* ===== verification/Interfaces.thy ===== *)
theory Interfaces
  imports Prelude
begin

text \<open>
  The interfaces between the components: what a client may rely on, as locales whose
  laws the providing component proves for its model by an interpretation.
\<close>

section \<open>Sets of page positions\<close>

text \<open>
  What \<open>RegionManager\<close> and \<open>PageManager\<close> need of \<open>Common::BitArray\<close>: a fixed universe
  of positions, range updates, the restriction to a range, symmetric difference and
  complement, and the test for emptiness.
\<close>

locale page_bits =
  fixes mem :: "'b \<Rightarrow> nat \<Rightarrow> bool"
    and wid :: "'b \<Rightarrow> nat"
    and set_range :: "'b \<Rightarrow> nat \<Rightarrow> nat \<Rightarrow> 'b"
    and unset_range :: "'b \<Rightarrow> nat \<Rightarrow> nat \<Rightarrow> 'b"
    and restrict :: "'b \<Rightarrow> nat \<Rightarrow> nat \<Rightarrow> 'b"
    and diff :: "'b \<Rightarrow> 'b \<Rightarrow> 'b"
    and compl :: "'b \<Rightarrow> 'b"
    and none :: "'b \<Rightarrow> bool"
  assumes mem_wid: "mem b i \<Longrightarrow> i < wid b"
    and mem_set_range: "e \<le> wid b \<Longrightarrow> mem (set_range b s e) i \<longleftrightarrow> mem b i \<or> s \<le> i \<and> i < e"
    and mem_unset_range: "e \<le> wid b \<Longrightarrow> mem (unset_range b s e) i \<longleftrightarrow> mem b i \<and> \<not> (s \<le> i \<and> i < e)"
    and mem_restrict: "e \<le> wid b \<Longrightarrow> mem (restrict b s e) i \<longleftrightarrow> mem b i \<and> s \<le> i \<and> i < e"
    and mem_diff: "wid a = wid b \<Longrightarrow> mem (diff a b) i \<longleftrightarrow> mem a i \<noteq> mem b i"
    and mem_compl: "mem (compl b) i \<longleftrightarrow> i < wid b \<and> \<not> mem b i"
    and none_iff: "none b \<longleftrightarrow> (\<forall>i. \<not> mem b i)"
    and wid_ops: "wid (set_range b s e) = wid b" "wid (unset_range b s e) = wid b"
      "wid (compl b) = wid b" "wid a = wid b \<Longrightarrow> wid (diff a b) = wid b"
begin

text \<open>A range query: \<open>RegionBits(bits, start, end).Any()\<close>.\<close>

lemma any_in_range: "e \<le> wid b \<Longrightarrow> \<not> none (restrict b s e) \<longleftrightarrow> (\<exists>i. s \<le> i \<and> i < e \<and> mem b i)"
  by (auto simp: none_iff mem_restrict)

lemma none_in_range: "e \<le> wid b \<Longrightarrow> none (restrict b s e) \<longleftrightarrow> (\<forall>i. s \<le> i \<and> i < e \<longrightarrow> \<not> mem b i)"
  by (auto simp: none_iff mem_restrict)

text \<open>The mask of a synchronisation is empty exactly when nothing changed.\<close>

lemma none_diff: "wid a = wid b \<Longrightarrow> none (diff a b) \<longleftrightarrow> (\<forall>i. mem a i = mem b i)"
  by (auto simp: none_iff mem_diff)

text \<open>Against a synchronised copy, growing and shrinking a set give disjoint kinds of mask.\<close>

lemma mask_after_set:
  "e \<le> wid b \<Longrightarrow> mem (diff (set_range b s e) b) i \<longleftrightarrow> s \<le> i \<and> i < e \<and> \<not> mem b i"
  using mem_diff [of "set_range b s e" b] by (auto simp: mem_set_range wid_ops)

lemma mask_after_unset:
  "e \<le> wid b \<Longrightarrow> mem (diff (unset_range b s e) b) i \<longleftrightarrow> s \<le> i \<and> i < e \<and> mem b i"
  using mem_diff [of "unset_range b s e" b] by (auto simp: mem_unset_range wid_ops)

lemma mask_of_compl:
  "wid a = wid b \<Longrightarrow> mem (diff (compl a) (compl b)) i \<longleftrightarrow> mem (diff a b) i"
  using mem_wid [of a i] mem_wid [of b i] by (auto simp: mem_diff mem_compl wid_ops)

end

section \<open>Sets of byte ranges\<close>

text \<open>
  What the memory tracker's ownership checks need of \<open>RangeSet\<close>: it stands for a set of
  byte addresses, \<open>Add\<close> and \<open>Subtract\<close> change exactly the named range, and
  \<open>Contains\<close> and the intersections report that set.
\<close>

locale byte_ranges =
  fixes bytes :: "'r \<Rightarrow> nat set"
    and inv :: "'r \<Rightarrow> bool"
    and add :: "'r \<Rightarrow> nat \<Rightarrow> nat \<Rightarrow> 'r outcome"
    and sub :: "'r \<Rightarrow> nat \<Rightarrow> nat \<Rightarrow> 'r outcome"
    and contains :: "'r \<Rightarrow> nat \<Rightarrow> nat \<Rightarrow> bool outcome"
    and inter :: "'r \<Rightarrow> nat \<Rightarrow> nat \<Rightarrow> (nat \<times> nat) list outcome"
  assumes add_ok: "inv r \<Longrightarrow> 0 < a \<Longrightarrow> 0 < n \<Longrightarrow> a + n \<le> u64_max \<Longrightarrow>
      \<exists>r'. add r a n = Ret r' \<and> inv r' \<and> bytes r' = bytes r \<union> {a..<a + n}"
    and sub_ok: "inv r \<Longrightarrow> 0 < a \<Longrightarrow> 0 < n \<Longrightarrow> a + n \<le> u64_max \<Longrightarrow>
      \<exists>r'. sub r a n = Ret r' \<and> inv r' \<and> bytes r' = bytes r - {a..<a + n}"
    and contains_ok: "inv r \<Longrightarrow> 0 < a \<Longrightarrow> 0 < n \<Longrightarrow> a + n \<le> u64_max \<Longrightarrow>
      contains r a n = Ret ({a..<a + n} \<subseteq> bytes r)"
    and inter_ok: "inv r \<Longrightarrow> 0 < a \<Longrightarrow> 0 < n \<Longrightarrow> a + n \<le> u64_max \<Longrightarrow>
      \<exists>xs. inter r a n = Ret xs \<and> (\<Union>(b, l) \<in> set xs. {b..<b + l}) = bytes r \<inter> {a..<a + n} \<and>
        (\<forall>(b, l) \<in> set xs. 0 < l)"
begin

lemma add_contains:
  assumes "inv r" "0 < a" "0 < n" "a + n \<le> u64_max" "add r a n = Ret r'"
  shows "inv r' \<and> contains r' a n = Ret True"
proof -
  from add_ok [OF assms(1-4)] assms(5) have r': "inv r'" "bytes r' = bytes r \<union> {a..<a + n}"
    by auto
  from contains_ok [OF r'(1) assms(2-4)] r' show ?thesis by auto
qed

lemma sub_inter_empty:
  assumes "inv r" "0 < a" "0 < n" "a + n \<le> u64_max" "sub r a n = Ret r'"
  shows "inter r' a n = Ret []"
proof -
  from sub_ok [OF assms(1-4)] assms(5) have r': "inv r'" "bytes r' = bytes r - {a..<a + n}"
    by auto
  from inter_ok [OF r'(1) assms(2-4)] obtain xs where xs: "inter r' a n = Ret xs"
    "(\<Union>(b, l) \<in> set xs. {b..<b + l}) = bytes r' \<inter> {a..<a + n}" "\<forall>(b, l) \<in> set xs. 0 < l"
    by blast
  from xs(2) r'(2) have "(\<Union>(b, l) \<in> set xs. {b..<b + l}) = {}" by auto
  with xs(3) have "xs = []" by (cases xs) auto
  with xs(1) show ?thesis by simp
qed

text \<open>Whether a page holds any byte of the set, as the ownership checks ask it.\<close>

lemma inter_nonempty:
  assumes "inv r" "0 < a" "0 < n" "a + n \<le> u64_max" "inter r a n = Ret xs"
  shows "xs \<noteq> [] \<longleftrightarrow> bytes r \<inter> {a..<a + n} \<noteq> {}"
proof -
  from inter_ok [OF assms(1-4)] assms(5)
  have xs: "(\<Union>(b, l) \<in> set xs. {b..<b + l}) = bytes r \<inter> {a..<a + n}" "\<forall>(b, l) \<in> set xs. 0 < l"
    by auto
  show ?thesis
    using xs(2) unfolding xs(1) [symmetric] by (cases xs) auto
qed

end

section \<open>Operations made of pieces\<close>

text \<open>
  What \<open>MemoryTracker::Iterate\<close> needs of the function it calls for each region: a piece
  changes the state as the effect on a set of pages says, effects on two sets compose to
  the effect on their union, and a failure of a later piece was already a failure of the
  whole range.
\<close>

locale piecewise =
  fixes step :: "'p \<Rightarrow> 's \<Rightarrow> 's outcome"
    and pages :: "'p \<Rightarrow> nat set"
    and piece_ok :: "'p \<Rightarrow> 's \<Rightarrow> bool"
    and inv :: "'s \<Rightarrow> bool"
    and effect :: "nat set \<Rightarrow> 's \<Rightarrow> 's \<Rightarrow> bool"
    and fails :: "nat set \<Rightarrow> 's \<Rightarrow> bool"
  assumes step_ok: "inv s \<Longrightarrow> piece_ok p s \<Longrightarrow> owp (step p s) (effect (pages p) s) (fails (pages p) s)"
    and effect_inv: "inv s \<Longrightarrow> effect A s t \<Longrightarrow> inv t"
    and effect_ok: "effect A s t \<Longrightarrow> piece_ok p s \<Longrightarrow> piece_ok p t"
    and effect_refl: "inv s \<Longrightarrow> effect {} s s"
    and effect_trans: "effect A s t \<Longrightarrow> effect B t u \<Longrightarrow> effect (A \<union> B) s u"
    and fails_mono: "fails A s \<Longrightarrow> A \<subseteq> B \<Longrightarrow> fails B s"
    and fails_back: "effect A s t \<Longrightarrow> fails B t \<Longrightarrow> fails (A \<union> B) s"
begin

lemma all_pieces:
  assumes "inv s" "\<forall>p \<in> set ps. piece_ok p s"
  shows "owp (ofold step ps s) (effect (\<Union>p \<in> set ps. pages p) s) (fails (\<Union>p \<in> set ps. pages p) s)"
  using assms
proof (induction ps arbitrary: s)
  case Nil
  then show ?case by (simp add: effect_refl)
next
  case (Cons p ps)
  let ?A = "\<Union>p \<in> set ps. pages p"
  have all: "(\<Union>p \<in> set (p # ps). pages p) = pages p \<union> ?A" by simp
  have "owp (step p s) (effect (pages p) s) (fails (pages p) s)"
    using step_ok Cons.prems by simp
  then show ?case
    unfolding ofold.simps owp_obind all
  proof (rule owp_mono)
    fix t assume t: "effect (pages p) s t"
    have "owp (ofold step ps t) (effect ?A t) (fails ?A t)"
      using Cons.IH [OF effect_inv [OF Cons.prems(1) t]] Cons.prems(2) effect_ok [OF t] by simp
    then show "owp (ofold step ps t) (effect (pages p \<union> ?A) s) (fails (pages p \<union> ?A) s)"
      by (rule owp_mono) (use effect_trans [OF t] fails_back [OF t] in blast)+
  qed (use fails_mono in blast)
qed

end

end
