(* ===== verification/BitArray.thy ===== *)
theory BitArray
  imports Interfaces
begin

text \<open>
  \<open>Common::BitArray<N>\<close> of \<open>src/common/bitArray.h\<close>: a fixed array of 64-bit words
  read as a set of bit positions. The template parameter \<open>N\<close> is 64 times the
  number of words, so an array is the list of its words and \<open>BitArray_N\<close> its
  bit count. Positions (\<open>size_t\<close>) are natural numbers.
\<close>

type_synonym bit_words = "u64 list"

section \<open>The array and its operations\<close>

definition BitArray_N :: "bit_words \<Rightarrow> nat" where
  "BitArray_N bs = 64 * length bs"

definition BitArray_empty :: "nat \<Rightarrow> bit_words" where
  "BitArray_empty words = replicate words 0"

definition BitArray_Get :: "bit_words \<Rightarrow> nat \<Rightarrow> bool outcome" where
  "BitArray_Get bs index =
     (if index < BitArray_N bs
      then Ret (bs ! (index div 64) AND push_bit (index mod 64) 1 \<noteq> 0)
      else Undef)"

definition BitArray_Set :: "bit_words \<Rightarrow> nat \<Rightarrow> bit_words outcome" where
  "BitArray_Set bs index =
     (if index < BitArray_N bs
      then Ret (bs[index div 64 := bs ! (index div 64) OR push_bit (index mod 64) 1])
      else Undef)"

definition BitArray_Unset :: "bit_words \<Rightarrow> nat \<Rightarrow> bit_words outcome" where
  "BitArray_Unset bs index =
     (if index < BitArray_N bs
      then Ret (bs[index div 64 := bs ! (index div 64) AND NOT (push_bit (index mod 64) 1)])
      else Undef)"

text \<open>The two masks that the range operations compute.\<close>

definition start_mask :: "nat \<Rightarrow> u64" where
  "start_mask start_bit = push_bit start_bit (NOT 0)"

definition end_mask :: "nat \<Rightarrow> u64" where
  "end_mask end_bit =
     (if end_bit = 63 then NOT 0 else push_bit (end_bit + 1) 1 - 1)"

text \<open>The complementary masks of \<open>UnsetRange\<close>: the bits to keep.\<close>

definition below_mask :: "nat \<Rightarrow> u64" where
  "below_mask start_bit = push_bit start_bit 1 - 1"

definition above_mask :: "nat \<Rightarrow> u64" where
  "above_mask end_bit =
     (if end_bit = 63 then 0 else NOT (push_bit (end_bit + 1) 1 - 1))"

text \<open>The middle loops: \<open>word\<close> runs up to, not including, \<open>last_word\<close>.\<close>

function fill_words :: "bit_words \<Rightarrow> nat \<Rightarrow> nat \<Rightarrow> u64 \<Rightarrow> bit_words" where
  "fill_words bs word last_word v =
     (if word < last_word then fill_words (bs[word := v]) (word + 1) last_word v else bs)"
  by pat_completeness auto
termination
  by (relation "measure (\<lambda>(bs, word, last_word, v). last_word - word)") auto

function copy_words :: "bit_words \<Rightarrow> bit_words \<Rightarrow> nat \<Rightarrow> nat \<Rightarrow> bit_words" where
  "copy_words bs other word last_word =
     (if word < last_word
      then copy_words (bs[word := other ! word]) other (word + 1) last_word else bs)"
  by pat_completeness auto
termination
  by (relation "measure (\<lambda>(bs, other, word, last_word). last_word - word)") auto

declare fill_words.simps [simp del] copy_words.simps [simp del]

definition BitArray_copy_range :: "bit_words \<Rightarrow> nat \<Rightarrow> nat \<Rightarrow> bit_words" where
  "BitArray_copy_range other start fin =
     (let data = replicate (length other) 0 in
      if start \<ge> fin \<or> fin > BitArray_N other then data
      else
        let first_word = start div 64; last_word = (fin - 1) div 64;
            sm = start_mask (start mod 64); em = end_mask ((fin - 1) mod 64) in
        if first_word = last_word
        then data[first_word := other ! first_word AND sm AND em]
        else
          let data = data[first_word := other ! first_word AND sm];
              data = copy_words data other (first_word + 1) last_word in
          data[last_word := other ! last_word AND em])"

definition BitArray_SetRange :: "bit_words \<Rightarrow> nat \<Rightarrow> nat \<Rightarrow> bit_words" where
  "BitArray_SetRange bs start fin =
     (if start \<ge> fin \<or> fin > BitArray_N bs then bs
      else
        let first_word = start div 64; last_word = (fin - 1) div 64;
            sm = start_mask (start mod 64); em = end_mask ((fin - 1) mod 64) in
        if first_word = last_word
        then bs[first_word := bs ! first_word OR (sm AND em)]
        else
          let data = bs[first_word := bs ! first_word OR sm];
              data = fill_words data (first_word + 1) last_word (NOT 0) in
          data[last_word := data ! last_word OR em])"

definition BitArray_UnsetRange :: "bit_words \<Rightarrow> nat \<Rightarrow> nat \<Rightarrow> bit_words" where
  "BitArray_UnsetRange bs start fin =
     (if start \<ge> fin \<or> fin > BitArray_N bs then bs
      else
        let first_word = start div 64; last_word = (fin - 1) div 64;
            sm = below_mask (start mod 64); em = above_mask ((fin - 1) mod 64) in
        if first_word = last_word
        then bs[first_word := bs ! first_word AND (sm OR em)]
        else
          let data = bs[first_word := bs ! first_word AND sm];
              data = fill_words data (first_word + 1) last_word 0 in
          data[last_word := data ! last_word AND em])"

definition BitArray_Clear :: "bit_words \<Rightarrow> bit_words" where
  "BitArray_Clear bs = replicate (length bs) 0"

definition BitArray_Fill :: "bit_words \<Rightarrow> bit_words" where
  "BitArray_Fill bs = replicate (length bs) (NOT 0)"

definition BitArray_None :: "bit_words \<Rightarrow> bool" where
  "BitArray_None bs \<longleftrightarrow> fold (\<lambda>word combined. combined OR word) bs 0 = 0"

definition BitArray_Any :: "bit_words \<Rightarrow> bool" where
  "BitArray_Any bs \<longleftrightarrow> \<not> BitArray_None bs"

definition BitArray_xor :: "bit_words \<Rightarrow> bit_words \<Rightarrow> bit_words" where
  "BitArray_xor a b = map2 (\<lambda>v w. v XOR w) a b"

definition BitArray_not :: "bit_words \<Rightarrow> bit_words" where
  "BitArray_not a = map (\<lambda>w. NOT w) a"

section \<open>Range queries and the iterator\<close>

text \<open>
  The word loops of \<open>FirstRangeFrom\<close> walk the words after the current one and stop
  when the index reaches \<open>WORD_COUNT\<close>; those of \<open>LastRangeFrom\<close> walk the words before
  it, down to index 0. The lists hold exactly the words still ahead.
\<close>

fun first_nonzero :: "nat \<Rightarrow> u64 \<Rightarrow> u64 list \<Rightarrow> (nat \<times> u64) option" where
  "first_nonzero word_index word [] = (if word = 0 then None else Some (word_index, word))"
| "first_nonzero word_index word (w # ws) =
     (if word = 0 then first_nonzero (word_index + 1) w ws else Some (word_index, word))"

fun ones_end :: "nat \<Rightarrow> u64 list \<Rightarrow> nat option" where
  "ones_end word_index [] = None"
| "ones_end word_index (w # ws) =
     (if w \<noteq> NOT 0 then Some (word_index * 64 + countr_one w)
      else ones_end (word_index + 1) ws)"

text \<open>The second half of \<open>FirstRangeFrom\<close>: where the run that starts at \<open>first\<close> ends.\<close>

definition run_end :: "bit_words \<Rightarrow> nat \<Rightarrow> nat \<Rightarrow> nat" where
  "run_end bs word_index first =
     (let first_bit = first mod 64;
          first_ones = countr_one (drop_bit first_bit (bs ! word_index)) in
      if first_bit + first_ones < 64 then first + first_ones
      else
        case ones_end (word_index + 1) (drop (word_index + 1) bs) of
          Some e \<Rightarrow> e
        | None \<Rightarrow> BitArray_N bs)"

definition BitArray_FirstRangeFrom :: "bit_words \<Rightarrow> nat \<Rightarrow> nat \<times> nat" where
  "BitArray_FirstRangeFrom bs start =
     (let N = BitArray_N bs in
      if start \<ge> N then (N, N)
      else
        let word_index = start div 64;
            word = bs ! word_index AND start_mask (start mod 64) in
        case first_nonzero word_index word (drop (word_index + 1) bs) of
          None \<Rightarrow> (N, N)
        | Some (word_index, word) \<Rightarrow>
            let first = word_index * 64 + countr_zero word in
            (first, run_end bs word_index first))"

fun last_nonzero :: "nat \<Rightarrow> u64 \<Rightarrow> u64 list \<Rightarrow> (nat \<times> u64) option" where
  "last_nonzero word_index word [] = (if word = 0 then None else Some (word_index, word))"
| "last_nonzero word_index word (w # ws) =
     (if word = 0 then last_nonzero (word_index - 1) w ws else Some (word_index, word))"

fun ones_begin :: "nat \<Rightarrow> u64 list \<Rightarrow> nat option" where
  "ones_begin word_index [] = None"
| "ones_begin word_index (w # ws) =
     (let word_index = word_index - 1 in
      if w \<noteq> NOT 0 then Some ((word_index + 1) * 64 - countl_one w)
      else ones_begin word_index ws)"

text \<open>The second half of \<open>LastRangeFrom\<close>: where the run that ends at \<open>last_pos\<close> begins.\<close>

definition run_begin :: "bit_words \<Rightarrow> nat \<Rightarrow> u64 \<Rightarrow> nat \<Rightarrow> nat" where
  "run_begin bs word_index word last_pos =
     (let empty_bits = countl_zero word;
          ones = countl_one (push_bit empty_bits word) in
      if empty_bits + ones < 64 then last_pos - ones
      else
        case ones_begin word_index (rev (take word_index bs)) of
          Some b \<Rightarrow> b
        | None \<Rightarrow> 0)"

definition BitArray_LastRangeFrom :: "bit_words \<Rightarrow> nat \<Rightarrow> nat \<times> nat" where
  "BitArray_LastRangeFrom bs fin =
     (if fin = 0 then (0, 0)
      else
        let fin = (if fin > BitArray_N bs then BitArray_N bs else fin);
            word_index = (fin - 1) div 64;
            word = bs ! word_index AND end_mask ((fin - 1) mod 64) in
        case last_nonzero word_index word (rev (take word_index bs)) of
          None \<Rightarrow> (0, 0)
        | Some (word_index, word) \<Rightarrow>
            let last_pos = (word_index + 1) * 64 - countl_zero word in
            (run_begin bs word_index word last_pos, last_pos))"

definition BitArray_FirstRange :: "bit_words \<Rightarrow> nat \<times> nat" where
  "BitArray_FirstRange bs = BitArray_FirstRangeFrom bs 0"

definition BitArray_LastRange :: "bit_words \<Rightarrow> nat \<times> nat" where
  "BitArray_LastRange bs = BitArray_LastRangeFrom bs (BitArray_N bs)"

section \<open>The set of positions\<close>

named_theorems ba_simps \<open>the positions of the result of each operation\<close>

text \<open>What an array stands for: the set of its positions whose bit is 1.\<close>

definition ba_bit :: "bit_words \<Rightarrow> nat \<Rightarrow> bool" where
  "ba_bit bs i \<longleftrightarrow> i < BitArray_N bs \<and> bit (bs ! (i div 64)) (i mod 64)"

lemma ba_bit_word: "k < length bs \<Longrightarrow> j < 64 \<Longrightarrow> ba_bit bs (64 * k + j) \<longleftrightarrow> bit (bs ! k) j"
  by (simp add: ba_bit_def BitArray_N_def)

lemma ba_index: "i < BitArray_N bs \<longleftrightarrow> i div 64 < length bs"
  by (auto simp: BitArray_N_def less_mult_imp_div_less div_less_iff_less_mult mult.commute)

lemma ba_bit_bound: "ba_bit bs i \<Longrightarrow> i < BitArray_N bs"
  by (simp add: ba_bit_def)

text \<open>Two positions in one word compare by their bits; otherwise by their words.\<close>

lemma same_word_le: "a div 64 = b div 64 \<Longrightarrow> a \<le> b \<longleftrightarrow> a mod 64 \<le> b mod (64 :: nat)"
  by (metis add_le_cancel_left div_mult_mod_eq)

lemma word_less_less: "a div 64 < b div (64 :: nat) \<Longrightarrow> a < b"
  by (metis div_le_mono leD leI)

lemma bit_start_mask [simp]: "bit (start_mask b) i \<longleftrightarrow> b \<le> i \<and> i < 64"
  by (auto simp: start_mask_def bit_not_iff bit_mask_iff not_le)

lemma mask64: "push_bit n 1 - 1 = (mask n :: u64)"
  by (simp add: mask_eq_exp_minus_1)

lemma bit_end_mask [simp]: "b < 64 \<Longrightarrow> bit (end_mask b) i \<longleftrightarrow> i \<le> b \<and> i < 64"
  unfolding end_mask_def mask64 by (auto simp: bit_mask_iff bit_not_iff)

lemma bit_below_mask [simp]: "b < 64 \<Longrightarrow> bit (below_mask b) i \<longleftrightarrow> i < b"
  unfolding below_mask_def mask64 by (auto simp: bit_mask_iff)

lemma bit_above_mask [simp]: "b < 64 \<Longrightarrow> bit (above_mask b) i \<longleftrightarrow> b < i \<and> i < 64"
  unfolding above_mask_def mask64 by (auto simp: bit_mask_iff bit_not_iff)

lemma fill_words_props:
  "length (fill_words bs word last_word v) = length bs"
  "last_word \<le> length bs \<Longrightarrow> k < length bs \<Longrightarrow>
     fill_words bs word last_word v ! k = (if word \<le> k \<and> k < last_word then v else bs ! k)"
proof (induction bs word last_word v rule: fill_words.induct)
  case (1 bs word last_word v)
  {
    case 1
    show ?case
      using "1.IH"(1) by (subst fill_words.simps) simp
  next
    case 2
    show ?case
      using "1.IH"(2) 2 by (subst fill_words.simps) (auto simp: nth_list_update)
  }
qed

lemma copy_words_props:
  "length (copy_words bs other word last_word) = length bs"
  "last_word \<le> length bs \<Longrightarrow> k < length bs \<Longrightarrow>
     copy_words bs other word last_word ! k =
       (if word \<le> k \<and> k < last_word then other ! k else bs ! k)"
proof (induction bs other word last_word rule: copy_words.induct)
  case (1 bs other word last_word)
  {
    case 1
    show ?case
      using "1.IH"(1) by (subst copy_words.simps) simp
  next
    case 2
    show ?case
      using "1.IH"(2) 2 by (subst copy_words.simps) (auto simp: nth_list_update not_less_eq_eq le_antisym)
  }
qed

lemmas word_loops [simp] = fill_words_props copy_words_props

text \<open>
  A range inside the array, seen from one word \<open>k\<close>: in the first and the last_pos word the
  masks decide, in the words between them the whole word lies in the range.
\<close>

lemma range_bounds:
  assumes "start < fin" "fin \<le> BitArray_N bs"
  shows "start div 64 \<le> (fin - 1) div 64" "(fin - 1) div 64 < length bs"
    "start div 64 < length bs"
proof -
  show le: "start div 64 \<le> (fin - 1) div 64"
    using assms by (simp add: div_le_mono)
  have "fin - 1 < BitArray_N bs"
    using assms by linarith
  then show lt: "(fin - 1) div 64 < length bs"
    by (rule ba_index [THEN iffD1])
  from le lt show "start div 64 < length bs" by simp
qed

lemma in_range_iff:
  fixes start fin i :: nat
  assumes "start < fin"
  shows "start \<le> i \<and> i < fin \<longleftrightarrow>
    (start div 64 < i div 64 \<or> start div 64 = i div 64 \<and> start mod 64 \<le> i mod 64) \<and>
    (i div 64 < (fin - 1) div 64 \<or> i div 64 = (fin - 1) div 64 \<and> i mod 64 \<le> (fin - 1) mod 64)"
proof -
  have le_iff: "a \<le> b \<longleftrightarrow> a div 64 < b div 64 \<or> a div 64 = b div 64 \<and> a mod 64 \<le> b mod 64"
    for a b :: nat
    by (metis div_le_mono le_neq_implies_less nat_less_le not_le same_word_le word_less_less)
  have "i < fin \<longleftrightarrow> i \<le> fin - 1"
    using assms by auto
  then show ?thesis
    using le_iff [of start i] le_iff [of i "fin - 1"] by simp
qed

lemma length_range_ops [simp]:
  "length (BitArray_copy_range bs s f) = length bs"
  "length (BitArray_SetRange bs s f) = length bs"
  "length (BitArray_UnsetRange bs s f) = length bs"
  by (simp_all add: BitArray_copy_range_def BitArray_SetRange_def BitArray_UnsetRange_def Let_def)

lemma ba_N_ops [simp]:
  "BitArray_N (BitArray_copy_range bs s f) = BitArray_N bs"
  "BitArray_N (BitArray_SetRange bs s f) = BitArray_N bs"
  "BitArray_N (BitArray_UnsetRange bs s f) = BitArray_N bs"
  "BitArray_N (BitArray_Clear bs) = BitArray_N bs"
  "BitArray_N (BitArray_Fill bs) = BitArray_N bs"
  "BitArray_N (BitArray_not bs) = BitArray_N bs"
  by (simp_all add: BitArray_N_def BitArray_Clear_def BitArray_Fill_def BitArray_not_def)

lemma ba_N_xor [simp]: "BitArray_N (BitArray_xor a b) = min (BitArray_N a) (BitArray_N b)"
  by (simp add: BitArray_N_def BitArray_xor_def min_mult_distrib_left)

text \<open>
  \<open>range_word\<close> is the part of a range that lies in word \<open>k\<close>; each range operation
  combines every word with it.
\<close>

definition range_word :: "nat \<Rightarrow> nat \<Rightarrow> nat \<Rightarrow> u64" where
  "range_word start fin k =
     (if k < start div 64 \<or> (fin - 1) div 64 < k then 0
      else (if k = start div 64 then start_mask (start mod 64) else NOT 0) AND
           (if k = (fin - 1) div 64 then end_mask ((fin - 1) mod 64) else NOT 0))"

lemma bit_range_word:
  assumes "start < fin" "j < 64"
  shows "bit (range_word start fin k) j \<longleftrightarrow> start \<le> 64 * k + j \<and> 64 * k + j < fin"
proof -
  have k: "(64 * k + j) div 64 = k" "(64 * k + j) mod 64 = j"
    using assms(2) by simp_all
  show ?thesis
    unfolding in_range_iff [OF assms(1)] k range_word_def
    using assms(2) by (auto simp: bit_and_iff bit_not_iff)
qed

lemma below_above_masks: "b < 64 \<Longrightarrow> below_mask b = NOT (start_mask b)"
  "b < 64 \<Longrightarrow> above_mask b = NOT (end_mask b)"
  by (auto simp: word64_eq_iff bit_not_iff)

lemma SetRange_word:
  assumes r: "start < fin" "fin \<le> BitArray_N bs" and k: "k < length bs"
  shows "BitArray_SetRange bs start fin ! k = bs ! k OR range_word start fin k"
proof (cases "start div 64 = (fin - 1) div 64")
  case True
  then show ?thesis
    using r k range_bounds [OF r]
    by (auto simp: BitArray_SetRange_def range_word_def Let_def nth_list_update)
next
  case False
  then have "start div 64 < (fin - 1) div 64"
    using range_bounds [OF r] by simp
  then show ?thesis
    using r k range_bounds [OF r]
    by (auto simp: BitArray_SetRange_def range_word_def Let_def nth_list_update)
qed

lemma UnsetRange_word:
  assumes r: "start < fin" "fin \<le> BitArray_N bs" and k: "k < length bs"
  shows "BitArray_UnsetRange bs start fin ! k = bs ! k AND NOT (range_word start fin k)"
proof (cases "start div 64 = (fin - 1) div 64")
  case True
  then show ?thesis
    using r k range_bounds [OF r]
    by (auto simp: BitArray_UnsetRange_def range_word_def Let_def nth_list_update
        below_above_masks)
next
  case False
  then have "start div 64 < (fin - 1) div 64"
    using range_bounds [OF r] by simp
  then show ?thesis
    using r k range_bounds [OF r]
    by (auto simp: BitArray_UnsetRange_def range_word_def Let_def nth_list_update
        below_above_masks)
qed

lemma copy_range_word:
  assumes r: "start < fin" "fin \<le> BitArray_N bs" and k: "k < length bs"
  shows "BitArray_copy_range bs start fin ! k = bs ! k AND range_word start fin k"
proof (cases "start div 64 = (fin - 1) div 64")
  case True
  then show ?thesis
    using r k range_bounds [OF r]
    by (auto simp: BitArray_copy_range_def range_word_def Let_def nth_list_update and.assoc)
next
  case False
  then have "start div 64 < (fin - 1) div 64"
    using range_bounds [OF r] by simp
  then show ?thesis
    using r k range_bounds [OF r]
    by (auto simp: BitArray_copy_range_def range_word_def Let_def nth_list_update)
qed

text \<open>What the range operations do to the set of positions.\<close>

lemma ba_bit_via_words:
  assumes "length ds = length bs" "start < fin"
    and "\<And>k. k < length bs \<Longrightarrow> ds ! k = op (bs ! k) (range_word start fin k)"
    and "\<And>v w j. j < 64 \<Longrightarrow> bit (op v w) j = P (bit v j) (bit w j)"
  shows "ba_bit ds i \<longleftrightarrow> i < BitArray_N bs \<and> P (ba_bit bs i) (start \<le> i \<and> i < fin)"
proof (cases "i div 64 < length bs")
  case True
  have "64 * (i div 64) + i mod 64 = i" by simp
  with True assms bit_range_word [of start fin "i mod 64" "i div 64"] show ?thesis
    by (simp add: ba_bit_def ba_index)
next
  case False
  with assms(1) show ?thesis by (simp add: ba_bit_def ba_index)
qed

lemma ba_bit_SetRange [ba_simps]:
  "ba_bit (BitArray_SetRange bs start fin) i \<longleftrightarrow>
     ba_bit bs i \<or> start \<le> i \<and> i < fin \<and> fin \<le> BitArray_N bs"
proof (cases "start < fin \<and> fin \<le> BitArray_N bs")
  case True
  then show ?thesis
    using ba_bit_via_words [of "BitArray_SetRange bs start fin" bs start fin "(OR)" "(\<or>)" i]
    by (auto simp: SetRange_word bit_or_iff dest: ba_bit_bound)
qed (auto simp: BitArray_SetRange_def)

lemma ba_bit_UnsetRange [ba_simps]:
  "ba_bit (BitArray_UnsetRange bs start fin) i \<longleftrightarrow>
     ba_bit bs i \<and> \<not> (start \<le> i \<and> i < fin \<and> fin \<le> BitArray_N bs)"
proof (cases "start < fin \<and> fin \<le> BitArray_N bs")
  case True
  then show ?thesis
    using ba_bit_via_words [of "BitArray_UnsetRange bs start fin" bs start fin
        "\<lambda>v w. v AND NOT w" "\<lambda>a b. a \<and> \<not> b" i]
    by (auto simp: UnsetRange_word bit_and_iff bit_not_iff dest: ba_bit_bound)
qed (auto simp: BitArray_UnsetRange_def)

lemma ba_bit_zero [simp]: "\<not> ba_bit (replicate n 0) i"
  by (simp add: ba_bit_def ba_index)

lemma ba_bit_copy_range [ba_simps]:
  "ba_bit (BitArray_copy_range bs start fin) i \<longleftrightarrow>
     ba_bit bs i \<and> start \<le> i \<and> i < fin \<and> fin \<le> BitArray_N bs"
proof (cases "start < fin \<and> fin \<le> BitArray_N bs")
  case True
  then show ?thesis
    using ba_bit_via_words [of "BitArray_copy_range bs start fin" bs start fin "(AND)" "(\<and>)" i]
    by (auto simp: copy_range_word bit_and_iff dest: ba_bit_bound)
qed (auto simp: BitArray_copy_range_def Let_def)

lemma ba_bit_Clear [ba_simps]: "\<not> ba_bit (BitArray_Clear bs) i"
  by (simp add: BitArray_Clear_def)

lemma ba_bit_empty [ba_simps]: "\<not> ba_bit (BitArray_empty n) i"
  by (simp add: BitArray_empty_def)

lemma ba_bit_Fill [ba_simps]: "ba_bit (BitArray_Fill bs) i \<longleftrightarrow> i < BitArray_N bs"
  by (auto simp: ba_bit_def BitArray_Fill_def ba_index bit_not_iff)

lemma ba_bit_not [ba_simps]:
  "ba_bit (BitArray_not bs) i \<longleftrightarrow> i < BitArray_N bs \<and> \<not> ba_bit bs i"
  by (auto simp: ba_bit_def BitArray_not_def ba_index bit_not_iff)

lemma ba_bit_xor [ba_simps]:
  "length a = length b \<Longrightarrow> ba_bit (BitArray_xor a b) i \<longleftrightarrow> ba_bit a i \<noteq> ba_bit b i"
  by (auto simp: ba_bit_def BitArray_xor_def ba_index bit_xor_iff)

lemma BitArray_Get_bit: "i < BitArray_N bs \<Longrightarrow> BitArray_Get bs i = Ret (ba_bit bs i)"
proof -
  have "(w AND push_bit n 1 \<noteq> 0) = bit w n" if "n < 64" for w :: u64 and n
    using that by (auto simp: word64_zero_iff bit_simps)
  then show "i < BitArray_N bs \<Longrightarrow> ?thesis"
    by (simp add: BitArray_Get_def ba_bit_def)
qed

lemma bit_single: "n < 64 \<Longrightarrow> bit (2 ^ n :: u64) m \<longleftrightarrow> m = n"
  by (auto simp: bit_simps)

lemma same_position: "(i :: nat) div 64 = j div 64 \<Longrightarrow> i mod 64 = j mod 64 \<Longrightarrow> i = j"
  by (metis div_mult_mod_eq)

lemma ba_bit_Set:
  "BitArray_Set bs i = Ret ds \<Longrightarrow> ba_bit ds j \<longleftrightarrow> ba_bit bs j \<or> j = i"
  using same_position [of i j]
  by (auto simp: BitArray_Set_def ba_bit_def ba_index bit_or_iff bit_single nth_list_update
      split: if_splits)

lemma ba_bit_Unset:
  "BitArray_Unset bs i = Ret ds \<Longrightarrow> ba_bit ds j \<longleftrightarrow> ba_bit bs j \<and> j \<noteq> i"
  using same_position [of i j]
  by (auto simp: BitArray_Unset_def ba_bit_def ba_index bit_and_iff bit_not_iff bit_single
      nth_list_update split: if_splits)

lemma fold_or_bit: "bit (fold (\<lambda>word combined. combined OR word) bs (c :: u64)) j \<longleftrightarrow>
    bit c j \<or> (\<exists>w \<in> set bs. bit w j)"
  by (induction bs arbitrary: c) (auto simp: bit_or_iff)

lemma BitArray_None_iff: "BitArray_None bs \<longleftrightarrow> (\<forall>i. \<not> ba_bit bs i)"
proof
  assume "BitArray_None bs"
  then have "\<not> bit w j" if "w \<in> set bs" for w j
    using that fold_or_bit [of bs 0 j] by (auto simp: BitArray_None_def)
  then show "\<forall>i. \<not> ba_bit bs i"
    by (simp add: ba_bit_def ba_index)
next
  assume none: "\<forall>i. \<not> ba_bit bs i"
  have "\<not> bit w j" if "w \<in> set bs" for w j
  proof
    assume "bit w j"
    moreover from that obtain k where "k < length bs" "w = bs ! k"
      by (auto simp: in_set_conv_nth)
    ultimately have "ba_bit bs (64 * k + j)"
      using bit64_bound [of w j] by (simp add: ba_bit_word)
    with none show False by simp
  qed
  then show "BitArray_None bs"
    using fold_or_bit [of bs 0] by (auto simp: BitArray_None_def bit_eq_iff)
qed

lemma BitArray_Any_iff: "BitArray_Any bs \<longleftrightarrow> (\<exists>i. ba_bit bs i)"
  by (simp add: BitArray_Any_def BitArray_None_iff)

lemma ba_ext: "length a = length b \<Longrightarrow> (\<And>i. ba_bit a i = ba_bit b i) \<Longrightarrow> a = b"
proof (rule nth_equalityI)
  fix k assume len: "length a = length b" and eq: "\<And>i. ba_bit a i = ba_bit b i" and k: "k < length a"
  have "bit (a ! k) j = bit (b ! k) j" if "j < 64" for j
    using eq [of "64 * k + j"] len k that by (simp add: ba_bit_word)
  then show "a ! k = b ! k" by (simp add: word64_eq_iff)
qed

section \<open>Range queries find the maximal runs\<close>

lemma first_nonzero_None: "first_nonzero k w ws = None \<longleftrightarrow> w = 0 \<and> (\<forall>v \<in> set ws. v = 0)"
  by (induction k w ws rule: first_nonzero.induct) auto

lemma first_nonzero_Some:
  "first_nonzero k w ws = Some (m, v) \<Longrightarrow>
     \<exists>d \<le> length ws. m = k + d \<and> v = (w # ws) ! d \<and> v \<noteq> 0 \<and> (\<forall>e < d. (w # ws) ! e = 0)"
proof (induction k w ws rule: first_nonzero.induct)
  case (1 k w)
  then show ?case by (simp split: if_splits)
next
  case (2 k w u ws)
  show ?case
  proof (cases "w = 0")
    case True
    with 2 obtain d where "d \<le> length ws" "m = k + 1 + d" "v = (u # ws) ! d" "v \<noteq> 0"
      "\<forall>e < d. (u # ws) ! e = 0"
      by auto
    with True show ?thesis
      by (intro exI [of _ "Suc d"]) (auto simp: nth_Cons split: nat.splits)
  next
    case False
    with 2 show ?thesis by auto
  qed
qed

lemma ones_end_None: "ones_end k ws = None \<longleftrightarrow> (\<forall>v \<in> set ws. v = NOT 0)"
  by (induction k ws rule: ones_end.induct) auto

lemma ones_end_Some:
  "ones_end k ws = Some e \<Longrightarrow>
     \<exists>d < length ws. ws ! d \<noteq> NOT 0 \<and> (\<forall>c < d. ws ! c = NOT 0) \<and> e = (k + d) * 64 + countr_one (ws ! d)"
proof (induction k ws rule: ones_end.induct)
  case (1 k)
  then show ?case by simp
next
  case (2 k w ws)
  show ?case
  proof (cases "w = NOT 0")
    case True
    with 2 obtain d where "d < length ws" "ws ! d \<noteq> NOT 0" "\<forall>c < d. ws ! c = NOT 0"
      "e = (k + 1 + d) * 64 + countr_one (ws ! d)"
      by auto
    with True show ?thesis
      by (intro exI [of _ "Suc d"]) (auto simp: nth_Cons split: nat.splits)
  next
    case False
    with 2 show ?thesis by (intro exI [of _ 0]) auto
  qed
qed

text \<open>A run of ones: it lies in the array, is not empty, and cannot be extended upwards.\<close>

definition is_run :: "bit_words \<Rightarrow> nat \<Rightarrow> nat \<Rightarrow> bool" where
  "is_run bs f l \<longleftrightarrow> f < l \<and> l \<le> BitArray_N bs \<and> (\<forall>i. f \<le> i \<and> i < l \<longrightarrow> ba_bit bs i)"

lemma split_pos: "64 * (i div 64) + i mod 64 = (i :: nat)"
  by simp

lemma ones_ahead:
  assumes "k < length bs" "c < 64" "\<And>j. c \<le> j \<Longrightarrow> j < 64 \<Longrightarrow> bit (bs ! k) j"
    and "k \<le> m" "m \<le> length bs" "\<And>n. k < n \<Longrightarrow> n < m \<Longrightarrow> bs ! n = NOT 0"
    and "64 * k + c \<le> i" "i < 64 * m \<or> m = k \<and> i < 64 * k + 64"
  shows "ba_bit bs i"
proof -
  have n: "i div 64 < length bs" "i mod 64 < 64" "k \<le> i div 64"
    using assms by auto
  show ?thesis
  proof (cases "i div 64 = k")
    case True
    then have "c \<le> i mod 64" using assms(7) split_pos [of i] by linarith
    with True n assms(3) show ?thesis by (auto simp: ba_bit_def ba_index)
  next
    case False
    then have "bs ! (i div 64) = NOT 0"
      using n assms(6,8) by auto
    with n show ?thesis by (simp add: ba_bit_def ba_index bit_not_iff)
  qed
qed

lemma run_end_is_run:
  assumes k: "k < length bs" and c: "c < 64" and one: "bit (bs ! k) c"
  shows "is_run bs (k * 64 + c) (run_end bs k (k * 64 + c)) \<and>
    \<not> ba_bit bs (run_end bs k (k * 64 + c))"
proof -
  let ?o = "countr_one (drop_bit c (bs ! k))"
  have ones: "bit (bs ! k) (c + j)" if "j < ?o" for j
    using countr_one_bit(2) [OF that] by (simp add: bit_drop_bit_eq)
  have pos: "0 < ?o"
    using countr_one_bit(3) [of "drop_bit c (bs ! k)"] one by (cases "?o") (auto simp: bit_drop_bit_eq)
  show ?thesis
  proof (cases "c + ?o < 64")
    case True
    have stop: "\<not> bit (bs ! k) (c + ?o)"
      using countr_one_bit(3) [of "drop_bit c (bs ! k)"] True by (simp add: bit_drop_bit_eq)
    have r: "run_end bs k (k * 64 + c) = 64 * k + (c + ?o)"
      using True c by (simp add: run_end_def Let_def)
    have "ba_bit bs i" if "k * 64 + c \<le> i" "i < 64 * k + (c + ?o)" for i
      using that True k ones [of "i - (k * 64 + c)"] ba_bit_word [of k bs "i - k * 64"] by simp
    with stop True k pos show ?thesis
      unfolding r by (auto simp: is_run_def ba_bit_word BitArray_N_def)
  next
    case False
    have all: "bit (bs ! k) j" if "c \<le> j" "j < 64" for j
      using ones [of "j - c"] that False by simp
    show ?thesis
    proof (cases "ones_end (k + 1) (drop (k + 1) bs)")
      case None
      then have r: "run_end bs k (k * 64 + c) = 64 * length bs"
        using False c by (simp add: run_end_def Let_def BitArray_N_def)
      have "bs ! n = NOT 0" if "k < n" "n < length bs" for n
      proof -
        have "drop (k + 1) bs ! (n - (k + 1)) \<in> set (drop (k + 1) bs)"
          using that by (intro nth_mem) simp
        with None that show ?thesis by (simp add: ones_end_None)
      qed
      then have "ba_bit bs i" if "k * 64 + c \<le> i" "i < 64 * length bs" for i
        using ones_ahead [of k bs c "length bs" i] that k c all by simp
      with k c show ?thesis unfolding r by (auto simp: is_run_def BitArray_N_def ba_bit_def)
    next
      case (Some e)
      then obtain d where d: "d < length (drop (k + 1) bs)" "drop (k + 1) bs ! d \<noteq> NOT 0"
        "\<forall>c < d. drop (k + 1) bs ! c = NOT 0" "e = (k + 1 + d) * 64 + countr_one (drop (k + 1) bs ! d)"
        using ones_end_Some by blast
      define n where "n = k + 1 + d"
      have n: "k < n" "n < length bs" "bs ! n \<noteq> NOT 0" "\<And>m. k < m \<Longrightarrow> m < n \<Longrightarrow> bs ! m = NOT 0"
        and e: "e = 64 * n + countr_one (bs ! n)"
      proof -
        show "k < n" "n < length bs" "bs ! n \<noteq> NOT 0" "e = 64 * n + countr_one (bs ! n)"
          using d by (simp_all add: n_def)
        show "bs ! m = NOT 0" if "k < m" "m < n" for m
        proof -
          have "drop (k + 1) bs ! (m - (k + 1)) = NOT 0"
            using d(3) that by (simp add: n_def)
          with d(1) that show ?thesis by (simp add: n_def)
        qed
      qed
      have r: "run_end bs k (k * 64 + c) = e"
        using False Some c by (simp add: run_end_def Let_def)
      have lt: "countr_one (bs ! n) < 64"
        using n(3) countr_one_bit(1) [of "bs ! n"] countr_one_bit(2) [of _ "bs ! n"]
        by (metis le_neq_implies_less word64_ones_iff)
      have "ba_bit bs i" if "k * 64 + c \<le> i" "i < e" for i
      proof (cases "i < 64 * n")
        case True
        then show ?thesis
          using ones_ahead [of k bs c n i] that k c all n by simp
      next
        case False
        then show ?thesis
          using that n(2) lt countr_one_bit(2) [of "i - 64 * n" "bs ! n"]
            ba_bit_word [of n bs "i - 64 * n"] by (simp add: e)
      qed
      moreover have "\<not> ba_bit bs e"
        using n(2) lt countr_one_bit(3) [of "bs ! n"] by (simp add: e ba_bit_word)
      ultimately show ?thesis
        unfolding r using n(1,2) lt c by (auto simp: is_run_def BitArray_N_def e)
    qed
  qed
qed

text \<open>
  \<open>FirstRangeFrom start\<close>: the first set position at or after \<open>start\<close> with the rest of its
  run, or \<open>(N, N)\<close> when there is none.
\<close>

definition words_from :: "bit_words \<Rightarrow> nat \<Rightarrow> u64 list" where
  "words_from bs start =
     (bs ! (start div 64) AND start_mask (start mod 64)) # drop (start div 64 + 1) bs"

lemma length_words_from: "start < BitArray_N bs \<Longrightarrow> length (words_from bs start) = length bs - start div 64"
  by (simp add: words_from_def ba_index Suc_diff_Suc)

lemma bit_words_from:
  assumes "k < length bs" "start div 64 \<le> k" "j < 64"
  shows "bit (words_from bs start ! (k - start div 64)) j \<longleftrightarrow>
    ba_bit bs (64 * k + j) \<and> start \<le> 64 * k + j"
proof (cases "k = start div 64")
  case True
  then have w: "words_from bs start ! (k - start div 64) = bs ! k AND start_mask (start mod 64)"
    by (simp add: words_from_def)
  have le: "start \<le> 64 * k + j \<longleftrightarrow> start mod 64 \<le> j"
    using split_pos [of start] True by (metis add_le_cancel_left)
  show ?thesis
    unfolding w le using assms by (simp add: ba_bit_word bit_and_iff)
next
  case False
  with assms have "start div 64 < (64 * k + j) div 64" by simp
  then have "start < 64 * k + j" by (rule word_less_less)
  moreover have "words_from bs start ! (k - start div 64) = bs ! k"
    using False assms by (simp add: words_from_def nth_Cons')
  ultimately show ?thesis
    using assms by (simp add: ba_bit_word)
qed

lemma FirstRangeFrom_words:
  "start < BitArray_N bs \<Longrightarrow>
     BitArray_FirstRangeFrom bs start =
       (case first_nonzero (start div 64) (hd (words_from bs start)) (tl (words_from bs start)) of
          None \<Rightarrow> (BitArray_N bs, BitArray_N bs)
        | Some (k, w) \<Rightarrow> (64 * k + countr_zero w, run_end bs k (64 * k + countr_zero w)))"
  by (simp add: BitArray_FirstRangeFrom_def words_from_def Let_def mult.commute
      split: option.split)

lemma FirstRangeFrom_none:
  assumes none: "\<forall>i. start \<le> i \<longrightarrow> \<not> ba_bit bs i"
  shows "BitArray_FirstRangeFrom bs start = (BitArray_N bs, BitArray_N bs)"
proof (cases "start < BitArray_N bs")
  case True
  have zero: "words_from bs start ! d = 0" if d: "d < length (words_from bs start)" for d
  proof -
    have "start div 64 + d < length bs"
      using d by (simp add: length_words_from [OF True])
    then have "\<not> bit (words_from bs start ! d) j" if "j < 64" for j
      using bit_words_from [of "start div 64 + d" bs start j] that none by auto
    then show ?thesis by (simp add: word64_zero_iff)
  qed
  have "words_from bs start \<noteq> []" by (simp add: words_from_def)
  then have "first_nonzero (start div 64) (hd (words_from bs start)) (tl (words_from bs start)) = None"
    using zero by (auto simp: first_nonzero_None in_set_conv_nth hd_conv_nth nth_tl)
  with True show ?thesis by (simp add: FirstRangeFrom_words)
qed (simp add: BitArray_FirstRangeFrom_def Let_def)

lemma first_nonzero_words:
  assumes i: "start \<le> i" "ba_bit bs i"
  obtains m v where
    "first_nonzero (start div 64) (hd (words_from bs start)) (tl (words_from bs start)) = Some (m, v)"
    "start div 64 \<le> m" "m < length bs" "v \<noteq> 0"
    "\<And>j. j < 64 \<Longrightarrow> bit v j \<longleftrightarrow> ba_bit bs (64 * m + j) \<and> start \<le> 64 * m + j"
    "\<And>j. start \<le> j \<Longrightarrow> j div 64 < m \<Longrightarrow> \<not> ba_bit bs j"
proof -
  let ?s = "start div 64" and ?ws = "words_from bs start"
  have idx: "i div 64 < length bs" "?s \<le> i div 64" and start: "start < BitArray_N bs"
    using i ba_bit_bound [OF i(2)] by (simp_all add: ba_index [symmetric] div_le_mono)
  have ws: "hd ?ws # tl ?ws = ?ws" by (simp add: words_from_def)
  have "bit (?ws ! (i div 64 - ?s)) (i mod 64)"
    using bit_words_from [of "i div 64" bs start "i mod 64"] idx i by simp
  then have "?ws ! (i div 64 - ?s) \<noteq> 0" by auto
  moreover have "i div 64 - ?s < length ?ws"
    using idx by (simp add: length_words_from [OF start])
  then have "?ws ! (i div 64 - ?s) \<in> set (hd ?ws # tl ?ws)"
    by (simp add: ws)
  ultimately have "first_nonzero ?s (hd ?ws) (tl ?ws) \<noteq> None"
    by (auto simp: first_nonzero_None)
  then obtain m v where mv: "first_nonzero ?s (hd ?ws) (tl ?ws) = Some (m, v)"
    by (cases "first_nonzero ?s (hd ?ws) (tl ?ws)") auto
  then obtain d where d: "d \<le> length (tl ?ws)" "m = ?s + d" "v = ?ws ! d" "v \<noteq> 0" "\<forall>e < d. ?ws ! e = 0"
    using first_nonzero_Some [OF mv] unfolding ws by blast
  have "d < length ?ws" using d(1) ws by (metis length_Cons less_Suc_eq_le)
  then have m: "?s \<le> m" "m < length bs"
    using d(2) idx by (simp_all add: length_words_from [OF start])
  have bits: "bit v j \<longleftrightarrow> ba_bit bs (64 * m + j) \<and> start \<le> 64 * m + j" if "j < 64" for j
    using bit_words_from [OF m(2,1) that] d by simp
  have below: "\<not> ba_bit bs j" if "start \<le> j" "j div 64 < m" for j
  proof -
    have "?s \<le> j div 64" using that by (simp add: div_le_mono)
    moreover from this have "?ws ! (j div 64 - ?s) = 0" using that d by simp
    ultimately show ?thesis
      using bit_words_from [of "j div 64" bs start "j mod 64"] that m by simp
  qed
  show thesis using that [OF mv m d(4) bits below] .
qed

lemma FirstRangeFrom_some:
  assumes "start \<le> i" "ba_bit bs i"
  obtains f l where "BitArray_FirstRangeFrom bs start = (f, l)" "start \<le> f" "f \<le> i" "is_run bs f l"
    "\<forall>j. start \<le> j \<and> j < f \<longrightarrow> \<not> ba_bit bs j" "\<not> ba_bit bs l"
proof -
  from assms obtain m v where mv:
    "first_nonzero (start div 64) (hd (words_from bs start)) (tl (words_from bs start)) = Some (m, v)"
    and m: "start div 64 \<le> m" "m < length bs" and v: "v \<noteq> 0"
    and bits: "\<And>j. j < 64 \<Longrightarrow> bit v j \<longleftrightarrow> ba_bit bs (64 * m + j) \<and> start \<le> 64 * m + j"
    and below: "\<And>j. start \<le> j \<Longrightarrow> j div 64 < m \<Longrightarrow> \<not> ba_bit bs j"
    by (rule first_nonzero_words) blast
  define c where "c = countr_zero v"
  note cz = countr_zero_bit [OF v, folded c_def]
  have first: "ba_bit bs (64 * m + c)" "start \<le> 64 * m + c"
    using bits [OF cz(1)] cz(2) by simp_all
  have min: "\<not> ba_bit bs j" if j: "start \<le> j" "j < 64 * m + c" for j
  proof (cases "j div 64 < m")
    case False
    with j cz(1) have "j div 64 = m" by auto
    then have "64 * m + j mod 64 = j" using split_pos [of j] by simp
    with bits [of "j mod 64"] cz(3) j show ?thesis by auto
  qed (use below j in blast)
  have "bit (bs ! m) c" using first cz(1) m by (simp add: ba_bit_word)
  from run_end_is_run [OF m(2) cz(1) this]
  have run: "is_run bs (64 * m + c) (run_end bs m (64 * m + c))"
    "\<not> ba_bit bs (run_end bs m (64 * m + c))"
    by (simp_all add: mult.commute)
  have "start < BitArray_N bs" using assms ba_bit_bound [OF assms(2)] by simp
  then have eq: "BitArray_FirstRangeFrom bs start = (64 * m + c, run_end bs m (64 * m + c))"
    using mv by (simp add: FirstRangeFrom_words c_def)
  have "64 * m + c \<le> i" using min [of i] assms by (meson not_le)
  then show thesis
    using min by (intro that [OF eq first(2) _ run(1) _ run(2)]) auto
qed

text \<open>
  \<open>LastRangeFrom fin\<close> mirrors it: the last set position below \<open>fin\<close> with the run below
  it, or \<open>(0, 0)\<close>. The words before the current one are met in reverse order.
\<close>

lemma last_nonzero_None: "last_nonzero k w ws = None \<longleftrightarrow> w = 0 \<and> (\<forall>v \<in> set ws. v = 0)"
  by (induction k w ws rule: last_nonzero.induct) auto

lemma last_nonzero_Some:
  "last_nonzero k w ws = Some (m, v) \<Longrightarrow>
     \<exists>d \<le> length ws. m = k - d \<and> v = (w # ws) ! d \<and> v \<noteq> 0 \<and> (\<forall>e < d. (w # ws) ! e = 0)"
proof (induction k w ws rule: last_nonzero.induct)
  case (1 k w)
  then show ?case by (simp split: if_splits)
next
  case (2 k w u ws)
  show ?case
  proof (cases "w = 0")
    case True
    with 2 obtain d where "d \<le> length ws" "m = k - 1 - d" "v = (u # ws) ! d" "v \<noteq> 0"
      "\<forall>e < d. (u # ws) ! e = 0"
      by auto
    with True show ?thesis
      by (intro exI [of _ "Suc d"]) (auto simp: nth_Cons split: nat.splits)
  next
    case False
    with 2 show ?thesis by auto
  qed
qed

lemma ones_begin_None: "ones_begin k ws = None \<longleftrightarrow> (\<forall>v \<in> set ws. v = NOT 0)"
  by (induction k ws rule: ones_begin.induct) (auto simp: Let_def)

lemma ones_begin_Some:
  "ones_begin k ws = Some b \<Longrightarrow>
     \<exists>d < length ws. ws ! d \<noteq> NOT 0 \<and> (\<forall>c < d. ws ! c = NOT 0) \<and>
       b = (k - 1 - d + 1) * 64 - countl_one (ws ! d)"
proof (induction k ws rule: ones_begin.induct)
  case (1 k)
  then show ?case by simp
next
  case (2 k w ws)
  show ?case
  proof (cases "w = NOT 0")
    case True
    with 2 obtain d where "d < length ws" "ws ! d \<noteq> NOT 0" "\<forall>c < d. ws ! c = NOT 0"
      "b = (k - 1 - 1 - d + 1) * 64 - countl_one (ws ! d)"
      by (auto simp: Let_def)
    with True show ?thesis
      by (intro exI [of _ "Suc d"]) (auto simp: nth_Cons split: nat.splits)
  next
    case False
    with 2 show ?thesis by (intro exI [of _ 0]) (auto simp: Let_def)
  qed
qed

lemma ones_behind:
  assumes "k < length bs" "c < 64" "\<And>j. j \<le> c \<Longrightarrow> bit (bs ! k) j"
    and "m \<le> k" "\<And>n. m \<le> n \<Longrightarrow> n < k \<Longrightarrow> bs ! n = NOT 0"
    and "i \<le> 64 * k + c" "64 * m \<le> i"
  shows "ba_bit bs i"
proof -
  have "i div 64 \<le> (64 * k + c) div 64" using assms(6) by (rule div_le_mono)
  then have n: "i div 64 \<le> k" "i div 64 < length bs" "i mod 64 < 64"
    using assms(1,2) by simp_all
  have m: "m \<le> i div 64" using assms(7) by (metis div_le_mono nonzero_mult_div_cancel_left zero_neq_numeral)
  show ?thesis
  proof (cases "i div 64 = k")
    case True
    then have "i mod 64 \<le> c" using assms(6) split_pos [of i] by (metis add_le_cancel_left)
    with True n assms(3) show ?thesis by (auto simp: ba_bit_def ba_index)
  next
    case False
    then have "bs ! (i div 64) = NOT 0"
      using n m assms(5) by auto
    with n show ?thesis by (simp add: ba_bit_def ba_index bit_not_iff)
  qed
qed

lemma countl_one_shift:
  assumes "w \<noteq> 0" and c: "c = 63 - countl_zero w"
  defines "ones \<equiv> countl_one (push_bit (countl_zero w) w)"
  shows "c < 64" "0 < ones"
    and "\<And>j. j < ones \<Longrightarrow> j \<le> c \<Longrightarrow> bit w (c - j)"
    and "countl_zero w + ones < 64 \<Longrightarrow> ones \<le> c \<and> \<not> bit w (c - ones)"
proof -
  note cz = countl_zero_bit [OF assms(1)]
  have sh: "bit (push_bit (countl_zero w) w) (63 - j) \<longleftrightarrow> j \<le> c \<and> bit w (c - j)" if "j < 64" for j
    using that cz(1) unfolding c by (auto simp: bit_push_bit_iff algebra_simps)
  note co = countl_one_bit [where w = "push_bit (countl_zero w) w", folded ones_def]
  show "c < 64" using cz(1) c by simp
  show "0 < ones"
  proof (rule ccontr)
    assume "\<not> 0 < ones"
    with co(3) sh [of 0] have "\<not> bit w c" by simp
    with cz(2) c show False by simp
  qed
  show "\<And>j. j < ones \<Longrightarrow> j \<le> c \<Longrightarrow> bit w (c - j)"
    using co(1,2) sh by (meson order_less_le_trans)
  show "ones \<le> c \<and> \<not> bit w (c - ones)" if "countl_zero w + ones < 64"
  proof -
    from that have "ones \<le> c" "ones < 64" using c by simp_all
    with co(3) sh [of ones] show ?thesis by simp
  qed
qed

lemma nth_rev_take: "k \<le> length bs \<Longrightarrow> d < k \<Longrightarrow> rev (take k bs) ! d = bs ! (k - 1 - d)"
  by (simp add: rev_nth)

lemma run_begin_is_run:
  assumes k: "k < length bs" and w: "w \<noteq> 0"
    and bits: "\<And>j. j \<le> 63 - countl_zero w \<Longrightarrow> bit w j = bit (bs ! k) j"
  defines "c \<equiv> 63 - countl_zero w"
  shows "is_run bs (run_begin bs k w (64 * k + c + 1)) (64 * k + c + 1) \<and>
    (\<forall>i. Suc i = run_begin bs k w (64 * k + c + 1) \<longrightarrow> \<not> ba_bit bs i)"
proof -
  let ?o = "countl_one (push_bit (countl_zero w) w)" and ?L = "64 * k + c + 1"
  note sh = countl_one_shift [OF w c_def [THEN meta_eq_to_obj_eq]]
  have ones: "bit (bs ! k) (c - j)" if "j < ?o" "j \<le> c" for j
    using sh(3) [OF that] bits [of "c - j"] by (simp add: c_def)
  have len: "?L \<le> BitArray_N bs" using k sh(1) by (simp add: BitArray_N_def)
  show ?thesis
  proof (cases "countl_zero w + ?o < 64")
    case True
    with sh(4) have o: "?o \<le> c" "\<not> bit (bs ! k) (c - ?o)"
      using bits [of "c - ?o"] by (simp_all add: c_def)
    have r: "run_begin bs k w ?L = ?L - ?o"
      using True by (simp add: run_begin_def Let_def)
    have "ba_bit bs i" if "?L - ?o \<le> i" "i < ?L" for i
    proof -
      have "i = 64 * k + (c - (?L - 1 - i))" "?L - 1 - i < ?o" "?L - 1 - i \<le> c"
        using that o(1) by auto
      then show ?thesis
        using ones [of "?L - 1 - i"] ba_bit_word [OF k, of "c - (?L - 1 - i)"] sh(1) by simp
    qed
    moreover have "\<not> ba_bit bs i" if "Suc i = ?L - ?o" for i
    proof -
      have "i = 64 * k + (c - ?o)" using that o(1) by simp
      with o(2) sh(1) k show ?thesis by (simp add: ba_bit_word)
    qed
    ultimately show ?thesis
      unfolding r using sh(2) len o by (auto simp: is_run_def)
  next
    case False
    have all: "bit (bs ! k) j" if "j \<le> c" for j
    proof -
      have "c < ?o" using False countl_zero_bit(1) [OF w] unfolding c_def by linarith
      then have "c - j < ?o" by simp
      from ones [OF this] that show ?thesis by simp
    qed
    show ?thesis
    proof (cases "ones_begin k (rev (take k bs))")
      case None
      then have r: "run_begin bs k w ?L = 0"
        using False by (simp add: run_begin_def Let_def)
      have "bs ! n = NOT 0" if "n < k" for n
      proof -
        have "bs ! n \<in> set (rev (take k bs))"
          using that k by (auto simp: in_set_conv_nth)
        with None show ?thesis by (simp add: ones_begin_None)
      qed
      then have "ba_bit bs i" if "i < ?L" for i
        using ones_behind [of k bs c 0 i] that k sh(1) all by simp
      with len show ?thesis unfolding r by (auto simp: is_run_def)
    next
      case (Some b)
      then obtain d where d: "d < k" "rev (take k bs) ! d \<noteq> NOT 0"
        "\<forall>c < d. rev (take k bs) ! c = NOT 0" "b = (k - 1 - d + 1) * 64 - countl_one (rev (take k bs) ! d)"
        using ones_begin_Some [OF Some] k by auto
      define n where "n = k - 1 - d"
      have n: "n < k" "n < length bs" "bs ! n \<noteq> NOT 0" and b: "b = 64 * n + 64 - countl_one (bs ! n)"
        using d k by (simp_all add: n_def nth_rev_take)
      have full: "bs ! m = NOT 0" if "n + 1 \<le> m" "m < k" for m
      proof -
        have "rev (take k bs) ! (k - 1 - m) = NOT 0"
          using d(1,3) that by (simp add: n_def)
        with that k show ?thesis by (simp add: nth_rev_take)
      qed
      have r: "run_begin bs k w ?L = b"
        using False Some by (simp add: run_begin_def Let_def)
      note co = countl_one_bit [where w = "bs ! n"]
      have lt: "countl_one (bs ! n) < 64"
      proof (rule ccontr)
        assume "\<not> countl_one (bs ! n) < 64"
        then have "bit (bs ! n) j" if "j < 64" for j
          using co(2) [of "63 - j"] that by simp
        with n(3) word64_ones_iff [of "bs ! n"] show False by blast
      qed
      have "ba_bit bs i" if i: "b \<le> i" "i < ?L" for i
      proof (cases "64 * (n + 1) \<le> i")
        case True
        then show ?thesis
          using ones_behind [of k bs c "n + 1" i] i k sh(1) all full n by simp
      next
        case False
        define j where "j = i - 64 * n"
        have j: "i = 64 * n + j" "j < 64" "63 - j < countl_one (bs ! n)"
          using i(1) False lt by (auto simp: b j_def)
        then have "bit (bs ! n) j" using co(2) [of "63 - j"] by simp
        with j n show ?thesis by (simp add: ba_bit_word)
      qed
      moreover have "\<not> ba_bit bs i" if "Suc i = b" for i
      proof -
        have i: "i = 64 * n + (63 - countl_one (bs ! n))" using that lt by (simp add: b)
        have "63 - countl_one (bs ! n) < 64" by simp
        with co(3) [OF lt] ba_bit_word [OF n(2)] show ?thesis unfolding i by blast
      qed
      moreover have "b < ?L" using n(1) lt by (auto simp: b)
      ultimately show ?thesis
        unfolding r using len by (auto simp: is_run_def)
    qed
  qed
qed

definition words_upto :: "bit_words \<Rightarrow> nat \<Rightarrow> u64 list" where
  "words_upto bs fin =
     (bs ! ((fin - 1) div 64) AND end_mask ((fin - 1) mod 64)) # rev (take ((fin - 1) div 64) bs)"

lemma last_word_index:
  assumes "0 < fin" "fin \<le> BitArray_N bs"
  shows "(fin - 1) div 64 < length bs"
proof -
  have "fin - 1 < BitArray_N bs" using assms by linarith
  then show ?thesis by (rule ba_index [THEN iffD1])
qed

lemma bit_words_upto:
  assumes "0 < fin" "fin \<le> BitArray_N bs" "k \<le> (fin - 1) div 64" "j < 64"
  shows "bit (words_upto bs fin ! ((fin - 1) div 64 - k)) j \<longleftrightarrow>
    ba_bit bs (64 * k + j) \<and> 64 * k + j < fin"
proof -
  have s: "(fin - 1) div 64 < length bs"
    using assms(1,2) by (rule last_word_index)
  show ?thesis
  proof (cases "k = (fin - 1) div 64")
    case True
    then have w: "words_upto bs fin ! ((fin - 1) div 64 - k) = bs ! k AND end_mask ((fin - 1) mod 64)"
      by (simp add: words_upto_def)
    have "64 * k + j \<le> fin - 1 \<longleftrightarrow> j \<le> (fin - 1) mod 64"
      using split_pos [of "fin - 1"] True by (metis add_le_cancel_left)
    moreover have "64 * k + j \<le> fin - 1 \<longleftrightarrow> 64 * k + j < fin"
      using assms(1) by linarith
    ultimately show ?thesis
      unfolding w using assms s True by (simp add: ba_bit_word bit_and_iff)
  next
    case False
    with assms have "(64 * k + j) div 64 < (fin - 1) div 64" by simp
    then have "64 * k + j < fin - 1" by (rule word_less_less)
    then have "64 * k + j < fin" by linarith
    moreover have "words_upto bs fin ! ((fin - 1) div 64 - k) = bs ! k"
      using False assms s by (auto simp: words_upto_def nth_Cons' nth_rev_take)
    ultimately show ?thesis
      using assms s by (simp add: ba_bit_word)
  qed
qed

lemma LastRangeFrom_words:
  "0 < fin \<Longrightarrow> fin \<le> BitArray_N bs \<Longrightarrow>
     BitArray_LastRangeFrom bs fin =
       (case last_nonzero ((fin - 1) div 64) (hd (words_upto bs fin)) (tl (words_upto bs fin)) of
          None \<Rightarrow> (0, 0)
        | Some (k, w) \<Rightarrow> (run_begin bs k w ((k + 1) * 64 - countl_zero w), (k + 1) * 64 - countl_zero w))"
  by (simp add: BitArray_LastRangeFrom_def words_upto_def Let_def split: option.split)

lemma LastRangeFrom_clip:
  "BitArray_N bs < fin \<Longrightarrow> 0 < BitArray_N bs \<Longrightarrow>
     BitArray_LastRangeFrom bs fin = BitArray_LastRangeFrom bs (BitArray_N bs)"
  by (simp add: BitArray_LastRangeFrom_def Let_def)

lemma length_words_upto: "0 < fin \<Longrightarrow> fin \<le> BitArray_N bs \<Longrightarrow>
    length (words_upto bs fin) = (fin - 1) div 64 + 1"
  using last_word_index [of fin bs] by (simp add: words_upto_def)

lemma LastRangeFrom_none:
  assumes none: "\<forall>i < fin. \<not> ba_bit bs i" and fin: "0 < fin" "fin \<le> BitArray_N bs"
  shows "BitArray_LastRangeFrom bs fin = (0, 0)"
proof -
  have zero: "words_upto bs fin ! d = 0" if d: "d < length (words_upto bs fin)" for d
  proof -
    let ?k = "(fin - 1) div 64 - d"
    have "(fin - 1) div 64 - ?k = d"
      using d by (simp add: length_words_upto [OF fin])
    then have "\<not> bit (words_upto bs fin ! d) j" if "j < 64" for j
      using bit_words_upto [OF fin, of ?k j] that none by auto
    then show ?thesis by (simp add: word64_zero_iff)
  qed
  have "words_upto bs fin \<noteq> []" by (simp add: words_upto_def)
  then have "last_nonzero ((fin - 1) div 64) (hd (words_upto bs fin)) (tl (words_upto bs fin)) = None"
    using zero by (auto simp: last_nonzero_None in_set_conv_nth hd_conv_nth nth_tl)
  with fin show ?thesis by (simp add: LastRangeFrom_words)
qed

lemma last_nonzero_words:
  assumes fin: "0 < fin" "fin \<le> BitArray_N bs" and i: "i < fin" "ba_bit bs i"
  obtains m v where
    "last_nonzero ((fin - 1) div 64) (hd (words_upto bs fin)) (tl (words_upto bs fin)) = Some (m, v)"
    "m \<le> (fin - 1) div 64" "m < length bs" "v \<noteq> 0"
    "\<And>j. j < 64 \<Longrightarrow> bit v j \<longleftrightarrow> ba_bit bs (64 * m + j) \<and> 64 * m + j < fin"
    "\<And>j. j < fin \<Longrightarrow> m < j div 64 \<Longrightarrow> \<not> ba_bit bs j"
proof -
  let ?s = "(fin - 1) div 64" and ?ws = "words_upto bs fin"
  have idx: "i div 64 \<le> ?s" "?s < length bs"
    using i last_word_index [OF fin] by (simp_all add: div_le_mono)
  have ws: "hd ?ws # tl ?ws = ?ws" by (simp add: words_upto_def)
  have "bit (?ws ! (?s - i div 64)) (i mod 64)"
    using bit_words_upto [OF fin idx(1), of "i mod 64"] i by simp
  then have "?ws ! (?s - i div 64) \<noteq> 0" by auto
  moreover have "?s - i div 64 < length ?ws"
    by (simp add: length_words_upto [OF fin])
  then have "?ws ! (?s - i div 64) \<in> set (hd ?ws # tl ?ws)"
    by (simp add: ws)
  ultimately have "last_nonzero ?s (hd ?ws) (tl ?ws) \<noteq> None"
    by (auto simp: last_nonzero_None)
  then obtain m v where mv: "last_nonzero ?s (hd ?ws) (tl ?ws) = Some (m, v)"
    by (cases "last_nonzero ?s (hd ?ws) (tl ?ws)") auto
  obtain d where d: "d \<le> length (tl ?ws)" "m = ?s - d" "v = ?ws ! d" "v \<noteq> 0" "\<forall>e < d. ?ws ! e = 0"
    using last_nonzero_Some [OF mv] unfolding ws by blast
  have ds: "d \<le> ?s" using d(1) by (simp add: length_words_upto [OF fin])
  have m: "m \<le> ?s" "m < length bs" "?s - m = d"
    using d(2) ds idx(2) by linarith+
  have bits: "bit v j \<longleftrightarrow> ba_bit bs (64 * m + j) \<and> 64 * m + j < fin" if "j < 64" for j
    using bit_words_upto [OF fin m(1) that] d m(3) by simp
  have above: "\<not> ba_bit bs j" if "j < fin" "m < j div 64" for j
  proof -
    have le: "j div 64 \<le> ?s" using that(1) by (simp add: div_le_mono)
    have "?s - j div 64 < d" using that(2) le m(3) by linarith
    then have "?ws ! (?s - j div 64) = 0" using d(5) by blast
    then show ?thesis
      using bit_words_upto [OF fin le, of "j mod 64"] that by simp
  qed
  show thesis using that [OF mv m(1,2) d(4) bits above] .
qed

lemma LastRangeFrom_some:
  assumes fin: "0 < fin" "fin \<le> BitArray_N bs" and i: "i < fin" "ba_bit bs i"
  obtains f l where "BitArray_LastRangeFrom bs fin = (f, l)" "i < l" "l \<le> fin" "is_run bs f l"
    "\<forall>j. l \<le> j \<and> j < fin \<longrightarrow> \<not> ba_bit bs j" "\<forall>j. Suc j = f \<longrightarrow> \<not> ba_bit bs j"
proof -
  from last_nonzero_words [OF fin i] obtain m v where mv:
    "last_nonzero ((fin - 1) div 64) (hd (words_upto bs fin)) (tl (words_upto bs fin)) = Some (m, v)"
    and m: "m \<le> (fin - 1) div 64" "m < length bs" and v: "v \<noteq> 0"
    and bits: "\<And>j. j < 64 \<Longrightarrow> bit v j \<longleftrightarrow> ba_bit bs (64 * m + j) \<and> 64 * m + j < fin"
    and above: "\<And>j. j < fin \<Longrightarrow> m < j div 64 \<Longrightarrow> \<not> ba_bit bs j"
    by blast
  define c where "c = 63 - countl_zero v"
  note cz = countl_zero_bit [OF v, folded c_def]
  have c: "c < 64" "(m + 1) * 64 - countl_zero v = 64 * m + c + 1" using cz(1) by (auto simp: c_def)
  have here: "ba_bit bs (64 * m + c)" "64 * m + c < fin"
    using bits [OF c(1)] cz(2) by simp_all
  have max: "\<not> ba_bit bs j" if j: "64 * m + c + 1 \<le> j" "j < fin" for j
  proof (cases "m < j div 64")
    case False
    have "m \<le> j div 64" using j(1) by (simp add: less_eq_div_iff_mult_less_eq)
    with False have "64 * m + j mod 64 = j" using split_pos [of j] by simp
    moreover from this j(1) have "c < j mod 64" by linarith
    ultimately show ?thesis using bits [of "j mod 64"] cz(3) j by auto
  qed (use above j in blast)
  have low: "bit v j = bit (bs ! m) j" if "j \<le> 63 - countl_zero v" for j
    using bits [of j] here(2) that c(1) m(2) by (auto simp: ba_bit_word c_def)
  note run = run_begin_is_run [OF m(2) v low, folded c_def]
  have eq: "BitArray_LastRangeFrom bs fin = (run_begin bs m v (64 * m + c + 1), 64 * m + c + 1)"
    unfolding LastRangeFrom_words [OF fin] mv by (simp only: c(2) option.case prod.case)
  have "i < 64 * m + c + 1" using max [of i] i by (meson not_le)
  then show thesis
    using max here(2) run by (intro that [OF eq]) auto
qed

section \<open>The iterator\<close>

text \<open>
  \<open>begin()\<close> is \<open>FirstRangeFrom(0)\<close>, \<open>operator++\<close> is \<open>FirstRangeFrom\<close> of the current end and
  \<open>end()\<close> is \<open>FirstRangeFrom(N)\<close>; a range-based \<open>for\<close> visits the ranges of
  \<open>BitArray_ranges\<close> in order.
\<close>

lemma FirstRangeFrom_cases:
  obtains (none) "\<forall>i. start \<le> i \<longrightarrow> \<not> ba_bit bs i"
      "BitArray_FirstRangeFrom bs start = (BitArray_N bs, BitArray_N bs)"
  | (some) f l where "BitArray_FirstRangeFrom bs start = (f, l)" "start \<le> f" "is_run bs f l"
      "\<forall>j. start \<le> j \<and> j < f \<longrightarrow> \<not> ba_bit bs j" "\<not> ba_bit bs l"
proof (cases "\<forall>i. start \<le> i \<longrightarrow> \<not> ba_bit bs i")
  case True
  from none [OF this FirstRangeFrom_none [OF this]] show thesis .
next
  case False
  then obtain i where "start \<le> i" "ba_bit bs i" by auto
  then show thesis by (rule FirstRangeFrom_some) (rule some)
qed

function iterate_ranges :: "bit_words \<Rightarrow> nat \<times> nat \<Rightarrow> (nat \<times> nat) list" where
  "iterate_ranges bs r =
     (if r = BitArray_FirstRangeFrom bs (BitArray_N bs) then []
      else r # iterate_ranges bs (BitArray_FirstRangeFrom bs (snd r)))"
  by pat_completeness auto
termination
proof (relation "measure (\<lambda>(bs, r). if r = BitArray_FirstRangeFrom bs (BitArray_N bs) then 0
    else Suc (BitArray_N bs - snd r))", goal_cases)
  case 1
  show ?case by simp
next
  case (2 bs r)
  have fin: "BitArray_FirstRangeFrom bs (BitArray_N bs) = (BitArray_N bs, BitArray_N bs)"
    by (rule FirstRangeFrom_none) (auto dest: ba_bit_bound)
  show ?case
  proof (cases rule: FirstRangeFrom_cases [of "snd r" bs])
    case none
    with 2 fin show ?thesis by simp
  next
    case (some f l)
    then show ?thesis using 2 by (auto simp: is_run_def)
  qed
qed

declare iterate_ranges.simps [simp del]

definition BitArray_ranges :: "bit_words \<Rightarrow> (nat \<times> nat) list" where
  "BitArray_ranges bs = iterate_ranges bs (BitArray_FirstRangeFrom bs 0)"

definition in_ranges :: "(nat \<times> nat) list \<Rightarrow> nat \<Rightarrow> bool" where
  "in_ranges rs i \<longleftrightarrow> (\<exists>(a, b) \<in> set rs. a \<le> i \<and> i < b)"

lemma FirstRangeFrom_N: "BitArray_FirstRangeFrom bs (BitArray_N bs) = (BitArray_N bs, BitArray_N bs)"
  by (rule FirstRangeFrom_none) (auto dest: ba_bit_bound)

lemma iterate_ranges_from:
  assumes "r = BitArray_FirstRangeFrom bs start"
  shows "in_ranges (iterate_ranges bs r) i \<longleftrightarrow> start \<le> i \<and> ba_bit bs i"
    and "\<forall>(a, b) \<in> set (iterate_ranges bs r). start \<le> a \<and> is_run bs a b \<and> \<not> ba_bit bs b"
    and "sorted_wrt (\<lambda>p q. snd p < fst q) (iterate_ranges bs r)"
  using assms
proof (induction bs r arbitrary: start rule: iterate_ranges.induct)
  case (1 bs r)
  note IH = "1.IH" [where start = "snd r"]
  have main: "(in_ranges (iterate_ranges bs r) i \<longleftrightarrow> start \<le> i \<and> ba_bit bs i) \<and>
    (\<forall>(a, b) \<in> set (iterate_ranges bs r). start \<le> a \<and> is_run bs a b \<and> \<not> ba_bit bs b) \<and>
    sorted_wrt (\<lambda>p q. snd p < fst q) (iterate_ranges bs r)"
    if r: "r = BitArray_FirstRangeFrom bs start" for start
  proof (cases rule: FirstRangeFrom_cases [of start bs])
    case none
    then show ?thesis
      using r by (subst (1 2 3) iterate_ranges.simps) (auto simp: FirstRangeFrom_N in_ranges_def)
  next
    case (some f l)
    then have neq: "r \<noteq> BitArray_FirstRangeFrom bs (BitArray_N bs)" and rfl: "r = (f, l)"
      using r by (auto simp: FirstRangeFrom_N is_run_def)
    have step: "iterate_ranges bs r = (f, l) # iterate_ranges bs (BitArray_FirstRangeFrom bs l)"
      using neq rfl by (subst iterate_ranges.simps) simp
    note IH' = IH [OF neq, unfolded rfl snd_conv, OF refl]
    have gap: "l < a" if "(a, b) \<in> set (iterate_ranges bs (BitArray_FirstRangeFrom bs l))" for a b
      using IH'(2) that some(5) by (fastforce simp: is_run_def le_less)
    show ?thesis
      unfolding step using IH' some gap
      by (auto simp: in_ranges_def is_run_def)
  qed
  {
    case 1
    then show ?case using main by blast
  next
    case 2
    then show ?case using main by blast
  next
    case 3
    then show ?case using main by blast
  }
qed

section \<open>The array provides sets of page positions\<close>

interpretation bits: page_bits ba_bit BitArray_N BitArray_SetRange BitArray_UnsetRange
  BitArray_copy_range BitArray_xor BitArray_not BitArray_None
proof (unfold_locales, goal_cases)
  case (5 a b i)
  then show ?case by (simp add: ba_bit_xor BitArray_N_def)
qed (auto simp: ba_simps BitArray_None_iff dest: ba_bit_bound)

section \<open>Properties\<close>

text \<open>
  C19: \<open>FirstRangeFrom(start)\<close> returns the first maximal run of set positions at or after
  \<open>start\<close>: the run is contained in the array, no set position lies between \<open>start\<close> and
  its first one, and the position after its last one is not set. When no position at or
  after \<open>start\<close> is set, and so also when \<open>start\<close> is out of range, it returns
  \<open>{N, N}\<close>, the value that ends an iteration.
\<close>

theorem FirstRangeFrom_finds_run:
  "if {start..} \<inter> Collect (ba_bit bs) = {}
   then BitArray_FirstRangeFrom bs start = (BitArray_N bs, BitArray_N bs)
   else \<exists>f l. BitArray_FirstRangeFrom bs start = (f, l) \<and> start \<le> f \<and> is_run bs f l \<and>
     {start..<f} \<inter> Collect (ba_bit bs) = {} \<and> l \<in> - Collect (ba_bit bs)"
proof (cases rule: FirstRangeFrom_cases [of start bs])
  case none
  then have "{start..} \<inter> Collect (ba_bit bs) = {}" by auto
  with none show ?thesis by simp
next
  case (some f l)
  have "f \<in> {start..} \<inter> Collect (ba_bit bs)" using some(2,3) by (simp add: is_run_def)
  then have "{start..} \<inter> Collect (ba_bit bs) \<noteq> {}" by blast
  moreover have "{start..<f} \<inter> Collect (ba_bit bs) = {}" using some(4) by auto
  ultimately show ?thesis using some by simp
qed

text \<open>
  \<open>LastRangeFrom(end)\<close> returns the last maximal run of set positions below \<open>end\<close>,
  cut off at \<open>end\<close>, where an \<open>end\<close> beyond the array counts as \<open>N\<close>; \<open>{0, 0}\<close> when there
  is none.
\<close>

theorem LastRangeFrom_finds_run:
  assumes "bs \<noteq> []"
  shows "if {..<min fin (BitArray_N bs)} \<inter> Collect (ba_bit bs) = {}
   then BitArray_LastRangeFrom bs fin = (0, 0)
   else \<exists>f l. BitArray_LastRangeFrom bs fin = (f, l) \<and> l \<le> min fin (BitArray_N bs) \<and>
     is_run bs f l \<and> {l..<min fin (BitArray_N bs)} \<inter> Collect (ba_bit bs) = {} \<and>
     (f = 0 \<or> f - 1 \<in> - Collect (ba_bit bs))"
proof -
  define e where "e = min fin (BitArray_N bs)"
  show ?thesis
  proof (cases "e = 0")
    case True
    then have "BitArray_LastRangeFrom bs fin = (0, 0)"
      using assms by (auto simp: e_def BitArray_LastRangeFrom_def BitArray_N_def min_def split: if_splits)
    then show ?thesis using True by (simp add: e_def)
  next
    case e: False
    then have b: "0 < e" "e \<le> BitArray_N bs" by (auto simp: e_def)
    have clip: "BitArray_LastRangeFrom bs fin = BitArray_LastRangeFrom bs e"
      using LastRangeFrom_clip [of bs fin] assms by (auto simp: e_def min_def not_le BitArray_N_def)
    show ?thesis
    proof (cases "{..<e} \<inter> Collect (ba_bit bs) = {}")
      case True
      then have "BitArray_LastRangeFrom bs e = (0, 0)" using b by (intro LastRangeFrom_none) auto
      with True clip show ?thesis by (simp add: e_def)
    next
      case False
      then obtain i where i: "i < e" "ba_bit bs i" by auto
      obtain f l where fl: "BitArray_LastRangeFrom bs e = (f, l)" "l \<le> e" "is_run bs f l"
        "\<forall>j. l \<le> j \<and> j < e \<longrightarrow> \<not> ba_bit bs j" "\<forall>j. Suc j = f \<longrightarrow> \<not> ba_bit bs j"
        using LastRangeFrom_some [OF b i] .
      have "{l..<e} \<inter> Collect (ba_bit bs) = {}" using fl(4) by auto
      moreover have "f = 0 \<or> f - 1 \<in> - Collect (ba_bit bs)" using fl(5) by (cases f) simp_all
      ultimately have "\<exists>f l. BitArray_LastRangeFrom bs fin = (f, l) \<and> l \<le> e \<and> is_run bs f l \<and>
          {l..<e} \<inter> Collect (ba_bit bs) = {} \<and> (f = 0 \<or> f - 1 \<in> - Collect (ba_bit bs))"
        using fl(1-3) clip by metis
      with False show ?thesis unfolding e_def by (simp only: if_False)
    qed
  qed
qed

theorem LastRangeFrom_finds_run_witness:
  "fst (BitArray_LastRangeFrom [6, 0] 100) = 1 \<and> snd (BitArray_LastRangeFrom [6, 0] 100) = 3"
proof -
  have "BitArray_LastRangeFrom [6, 0] 100 = (1, 3)" by code_simp
  with LastRangeFrom_finds_run [of "[6, 0]" 100] show ?thesis by simp
qed

text \<open>
  C20: a range-based \<open>for\<close> over the array ends and visits exactly the set positions: the
  visited ranges are runs, they are visited in increasing order, two of them are
  separated by a position that is not set, and together they cover the set positions.
\<close>

theorem ranges_visit_set_bits:
  "(\<Union>(a, b) \<in> set (BitArray_ranges bs). {a..<b}) = Collect (ba_bit bs) \<and>
   list_all (\<lambda>(a, b). is_run bs a b) (BitArray_ranges bs) \<and>
   sorted_wrt (\<lambda>p q. snd p < fst q) (BitArray_ranges bs)"
proof -
  note it = iterate_ranges_from [OF refl, of bs 0, folded BitArray_ranges_def]
  have "x \<in> (\<Union>(a, b) \<in> set (BitArray_ranges bs). {a..<b}) \<longleftrightarrow> ba_bit bs x" for x
    using it(1) [of x] by (fastforce simp: in_ranges_def)
  then show ?thesis using it(2,3) by (auto simp: list_all_iff)
qed

end
