(* ===== verification/RangeSet.thy ===== *)
theory RangeSet
  imports Interfaces
begin

text \<open>
  \<open>RangeSet\<close> of \<open>src/graphics/host_gpu/rangeSet.h\<close>: a set of bytes kept as a
  \<open>std::map\<close> from the begin to the end of each range. The map is the list of its
  entries in key order; an iterator is the rest of that list. Addresses are natural
  numbers below \<open>2 ^ 64\<close>: the only sum the class forms is guarded by \<open>End\<close>.
\<close>

type_synonym range_map = "(nat \<times> nat) list"

section \<open>The map and the operations\<close>

definition RangeSet_End :: "nat \<Rightarrow> nat \<Rightarrow> nat outcome" where
  "RangeSet_End address sz =
     (if address = 0 \<or> sz = 0 \<or> sz > u64_max - address then Exit else Ret (address + sz))"

text \<open>\<open>std::map::emplace\<close>: in key order, an existing key stays as it is.\<close>

fun map_emplace :: "nat \<Rightarrow> 'v \<Rightarrow> (nat \<times> 'v) list \<Rightarrow> (nat \<times> 'v) list" where
  "map_emplace k v [] = [(k, v)]"
| "map_emplace k v ((a, b) # m) =
     (if k < a then (k, v) # (a, b) # m
      else if k = a then (a, b) # m
      else (a, b) # map_emplace k v m)"

text \<open>
  Splitting a map at an iterator: \<open>lower_bound\<close> is the first key not below
  \<open>address\<close>, \<open>upper_bound\<close> the first key above it; \<open>std::prev\<close> moves the last entry
  before the iterator behind it.
\<close>

definition lower_split :: "nat \<Rightarrow> (nat \<times> 'v) list \<Rightarrow> (nat \<times> 'v) list \<times> (nat \<times> 'v) list" where
  "lower_split address m =
     (takeWhile (\<lambda>p. fst p < address) m, dropWhile (\<lambda>p. fst p < address) m)"

definition upper_split :: "nat \<Rightarrow> (nat \<times> 'v) list \<Rightarrow> (nat \<times> 'v) list \<times> (nat \<times> 'v) list" where
  "upper_split address m =
     (takeWhile (\<lambda>p. fst p \<le> address) m, dropWhile (\<lambda>p. fst p \<le> address) m)"

fun step_back :: "('a \<Rightarrow> bool) \<Rightarrow> 'a list \<times> 'a list \<Rightarrow> 'a list \<times> 'a list" where
  "step_back P (before, it) =
     (if before \<noteq> [] \<and> P (last before) then (butlast before, last before # it) else (before, it))"

fun merge_loop :: "nat \<Rightarrow> nat \<Rightarrow> range_map \<Rightarrow> nat \<times> nat \<times> range_map" where
  "merge_loop begin last' [] = (begin, last', [])"
| "merge_loop begin last' ((b, l) # it) =
     (if b \<le> last' then merge_loop (min begin b) (max last' l) it
      else (begin, last', (b, l) # it))"

definition RangeSet_Add :: "range_map \<Rightarrow> nat \<Rightarrow> nat \<Rightarrow> range_map outcome" where
  "RangeSet_Add m address sz =
     obind (RangeSet_End address sz) (\<lambda>fin.
       let (before, it) = step_back (\<lambda>p. snd p \<ge> address) (lower_split address m);
           (begin, last', rest) = merge_loop address fin it in
       Ret (map_emplace begin last' (before @ rest)))"

text \<open>In the loop of \<open>Subtract\<close>, \<open>kept\<close> are the entries before the iterator.\<close>

fun subtract_loop :: "nat \<Rightarrow> nat \<Rightarrow> range_map \<Rightarrow> range_map \<Rightarrow> range_map" where
  "subtract_loop address fin kept [] = kept"
| "subtract_loop address fin kept ((begin, last') # it) =
     (if begin < fin then
        let kept = (if begin < address then map_emplace begin address kept else kept) in
        if last' > fin then map_emplace fin last' (kept @ it)
        else subtract_loop address fin kept it
      else kept @ (begin, last') # it)"

definition RangeSet_Subtract :: "range_map \<Rightarrow> nat \<Rightarrow> nat \<Rightarrow> range_map outcome" where
  "RangeSet_Subtract m address sz =
     obind (RangeSet_End address sz) (\<lambda>fin.
       let (before, it) = step_back (\<lambda>p. snd p > address) (lower_split address m) in
       Ret (subtract_loop address fin before it))"

definition RangeSet_Contains :: "range_map \<Rightarrow> nat \<Rightarrow> nat \<Rightarrow> bool outcome" where
  "RangeSet_Contains m address sz =
     obind (RangeSet_End address sz) (\<lambda>fin.
       let (before, it) = upper_split address m in
       if before = [] then Ret False
       else Ret (fst (last before) \<le> address \<and> snd (last before) \<ge> fin))"

fun intersect_loop :: "nat \<Rightarrow> nat \<Rightarrow> range_map \<Rightarrow> (nat \<times> nat) list" where
  "intersect_loop address fin [] = []"
| "intersect_loop address fin ((b, l) # it) =
     (if b < fin then
        let begin = max address b; last' = min fin l in
        (if begin < last' then [(begin, last' - begin)] else []) @ intersect_loop address fin it
      else [])"

text \<open>
  \<open>ForEachIntersection\<close> calls its function on these ranges, each a pair of address and
  size, in this order; \<open>Intersections\<close> collects them.
\<close>

definition RangeSet_Intersections :: "range_map \<Rightarrow> nat \<Rightarrow> nat \<Rightarrow> (nat \<times> nat) list outcome" where
  "RangeSet_Intersections m address sz =
     obind (RangeSet_End address sz) (\<lambda>fin.
       let (before, it) = step_back (\<lambda>p. True) (upper_split address m) in
       Ret (intersect_loop address fin it))"

definition RangeSet_Empty :: "range_map \<Rightarrow> bool" where
  "RangeSet_Empty m \<longleftrightarrow> m = []"

section \<open>The invariant and the set of bytes\<close>

text \<open>
  Every stored range is non-empty, and between two neighbours at least one byte is
  missing: the representation of a set of bytes is unique.
\<close>

definition range_bytes :: "range_map \<Rightarrow> nat set" where
  "range_bytes m = (\<Union>(b, l) \<in> set m. {b..<l})"

definition range_inv :: "range_map \<Rightarrow> bool" where
  "range_inv m \<longleftrightarrow> (\<forall>(b, l) \<in> set m. b < l) \<and> sorted_wrt (\<lambda>p q. snd p < fst q) m"

lemma range_bytes_simps [simp]:
  "range_bytes [] = {}" "range_bytes ((b, l) # m) = {b..<l} \<union> range_bytes m"
  "range_bytes (m @ n) = range_bytes m \<union> range_bytes n"
  by (auto simp: range_bytes_def)

lemma range_inv_Nil [simp]: "range_inv []"
  by (simp add: range_inv_def)

lemma range_inv_Cons [simp]:
  "range_inv ((b, l) # m) \<longleftrightarrow> b < l \<and> (\<forall>(c, d) \<in> set m. l < c) \<and> range_inv m"
  by (auto simp: range_inv_def)

lemma range_inv_append [simp]:
  "range_inv (m @ n) \<longleftrightarrow> range_inv m \<and> range_inv n \<and> (\<forall>p \<in> set m. \<forall>q \<in> set n. snd p < fst q)"
  by (auto simp: range_inv_def sorted_wrt_append)

lemma range_inv_nonempty: "range_inv m \<Longrightarrow> (b, l) \<in> set m \<Longrightarrow> b < l"
  by (auto simp: range_inv_def)

text \<open>Emplacing a range that fits between its neighbours keeps the invariant.\<close>

lemma map_emplace_between:
  assumes "\<forall>p \<in> set before. snd p < k \<and> fst p < k" "\<forall>p \<in> set rest. k < fst p"
  shows "map_emplace k v (before @ rest) = before @ (k, v) # rest"
  using assms
proof (induction before)
  case Nil
  then show ?case by (cases rest) auto
qed auto

text \<open>Where the invariant holds, the splits cut the map between two ranges.\<close>

lemma range_inv_sorted: "range_inv m \<Longrightarrow> sorted_wrt (\<lambda>p q. fst p < fst q) m"
  unfolding range_inv_def by (auto elim!: sorted_wrt_mono_rel [rotated])

lemma split_at:
  assumes "range_inv m" and mono: "\<And>x y. x < y \<Longrightarrow> P y \<Longrightarrow> P x"
  shows "\<forall>p \<in> set (takeWhile (\<lambda>p. P (fst p)) m). P (fst p)"
    and "\<forall>p \<in> set (dropWhile (\<lambda>p. P (fst p)) m). \<not> P (fst p)"
proof -
  show "\<forall>p \<in> set (takeWhile (\<lambda>p. P (fst p)) m). P (fst p)"
    by (auto dest: set_takeWhileD)
  show "\<forall>p \<in> set (dropWhile (\<lambda>p. P (fst p)) m). \<not> P (fst p)"
    using range_inv_sorted [OF assms(1)]
  proof (induction m)
    case (Cons x m)
    show ?case
    proof (cases "P (fst x)")
      case False
      then have "\<not> P (fst y)" if "y \<in> set m" for y
        using Cons.prems mono that by auto
      with False show ?thesis by auto
    next
      case True
      then have "dropWhile (\<lambda>p. P (fst p)) (x # m) = dropWhile (\<lambda>p. P (fst p)) m" by simp
      moreover have "sorted_wrt (\<lambda>p q. fst p < fst q) m" using Cons.prems by simp
      ultimately show ?thesis using Cons.IH by metis
    qed
  qed simp
qed

definition cut :: "range_map \<Rightarrow> range_map \<times> range_map \<Rightarrow> bool" where
  "cut m s \<longleftrightarrow> m = fst s @ snd s"

lemma cut_splits [simp]: "cut m (lower_split a m)" "cut m (upper_split a m)"
  by (simp_all add: cut_def lower_split_def upper_split_def)

lemma cut_step_back [simp]: "cut m s \<Longrightarrow> cut m (step_back P s)"
  by (cases s) (auto simp: cut_def)

text \<open>After \<open>lower_bound\<close> and one step back, the entries before end before the address.\<close>

lemma butlast_before:
  assumes "range_inv m" "p \<in> set (butlast m)"
  shows "snd p < fst (last m)"
proof -
  have "m \<noteq> []" using assms(2) by auto
  then have "range_inv (butlast m @ [last m])" using assms(1) by simp
  with assms(2) show ?thesis unfolding range_inv_append by simp
qed

lemma last_is_greatest:
  assumes "range_inv m" "p \<in> set m"
  shows "snd p \<le> snd (last m)"
proof -
  have ne: "m \<noteq> []" using assms(2) by auto
  then have "m = butlast m @ [last m]" by simp
  with assms(2) have "p \<in> set (butlast m) \<or> p = last m"
    by (metis Un_iff empty_iff empty_set set_ConsD set_append)
  moreover have "fst (last m) < snd (last m)"
    using range_inv_nonempty [OF assms(1), of "fst (last m)" "snd (last m)"] ne by simp
  ultimately show ?thesis using butlast_before [OF assms(1)] by fastforce
qed

lemma lower_back:
  assumes inv: "range_inv m" and s: "step_back P (lower_split a m) = (before, it)"
    and P: "\<And>p. P p \<longleftrightarrow> Q (snd p)" and Q: "\<And>x y. x < y \<Longrightarrow> Q x \<Longrightarrow> Q y" "\<And>x. x < a \<Longrightarrow> \<not> Q x"
  shows "m = before @ it" "\<forall>p \<in> set before. \<not> Q (snd p) \<and> fst p < a"
    "it \<noteq> [] \<Longrightarrow> fst (hd it) < a \<Longrightarrow> Q (snd (hd it))"
    "\<forall>p \<in> set (tl it). a \<le> fst p"
proof -
  obtain xs ys where xy: "lower_split a m = (xs, ys)" by (cases "lower_split a m")
  have m: "m = xs @ ys" using xy by (auto simp: lower_split_def)
  have tw: "takeWhile (\<lambda>p. fst p < a) m = xs" "dropWhile (\<lambda>p. fst p < a) m = ys"
    using xy by (simp_all add: lower_split_def)
  have xs: "\<forall>p \<in> set xs. fst p < a" and ys: "\<forall>p \<in> set ys. \<not> fst p < a"
    using split_at [OF inv, of "\<lambda>x. x < a"] unfolding tw by simp_all
  show "m = before @ it" using s xy m by (auto split: if_splits)
  from inv have invx: "range_inv xs" by (simp add: m)
  have all: "\<not> Q (snd p)" if "\<not> Q (snd (last xs))" "p \<in> set xs" for p
    using last_is_greatest [OF invx that(2)] that Q(1) by (metis le_neq_implies_less)
  show "\<forall>p \<in> set before. \<not> Q (snd p) \<and> fst p < a"
  proof (cases "xs \<noteq> [] \<and> Q (snd (last xs))")
    case True
    then have b: "before = butlast xs" using s xy P by auto
    show ?thesis
    proof
      fix p assume "p \<in> set before"
      with b have p: "p \<in> set (butlast xs)" "p \<in> set xs" by (auto dest: in_set_butlastD)
      have "snd p < fst (last xs)" using butlast_before [OF invx p(1)] .
      also have "fst (last xs) < a" using True xs by simp
      finally show "\<not> Q (snd p) \<and> fst p < a" using Q(2) xs p by blast
    qed
  qed (use s xy P xs all in \<open>auto split: if_splits\<close>)
  show "it \<noteq> [] \<Longrightarrow> fst (hd it) < a \<Longrightarrow> Q (snd (hd it))"
    using s xy P ys by (auto split: if_splits)
  have "\<forall>p \<in> set ys. a \<le> fst p" using ys by (simp add: not_less)
  then show "\<forall>p \<in> set (tl it). a \<le> fst p"
    using s xy by (cases ys) (auto split: if_splits)
qed

section \<open>Add\<close>

lemma merge_loop_props:
  assumes "lo < hi" "range_inv it" "\<forall>p \<in> set (tl it). lo \<le> fst p"
    "it \<noteq> [] \<Longrightarrow> fst (hd it) < lo \<Longrightarrow> lo \<le> snd (hd it)"
    "merge_loop lo hi it = (b, l, rest)"
  shows "b < l \<and> b = (if it \<noteq> [] \<and> fst (hd it) \<le> hi then min lo (fst (hd it)) else lo) \<and>
    {b..<l} \<union> range_bytes rest = {lo..<hi} \<union> range_bytes it \<and>
    range_inv rest \<and> (\<forall>p \<in> set rest. l < fst p)"
  using assms
proof (induction lo hi it rule: merge_loop.induct)
  case (1 lo hi)
  then show ?case by simp
next
  case (2 lo hi c d it)
  show ?case
  proof (cases "c \<le> hi")
    case True
    from 2 have it: "range_inv it" "\<forall>p \<in> set it. d < fst p" "\<forall>p \<in> set it. lo \<le> fst p" "c < d"
      by auto
    have "min lo c < max hi d" using 2(2) it(4) by auto
    moreover have "\<forall>p \<in> set (tl it). min lo c \<le> fst p"
      using it(3) by (cases it) (auto simp: min_def intro: le_trans)
    moreover have "merge_loop (min lo c) (max hi d) it = (b, l, rest)"
      using 2(6) True by simp
    moreover have "min lo c \<le> snd (hd it)" if "it \<noteq> []"
      using it(1,3) that by (cases it) (auto simp: min_def)
    ultimately have IH: "b < l \<and>
      b = (if it \<noteq> [] \<and> fst (hd it) \<le> max hi d then min (min lo c) (fst (hd it)) else min lo c) \<and>
      {b..<l} \<union> range_bytes rest = {min lo c..<max hi d} \<union> range_bytes it \<and>
      range_inv rest \<and> (\<forall>p \<in> set rest. l < fst p)"
      using 2(1) [OF True _ it(1)] by blast
    have "lo \<le> fst (hd it)" if "it \<noteq> []" using it(3) that by simp
    with IH have b: "b = min lo c" by (auto split: if_splits)
    have u: "{min lo c..<max hi d} = {lo..<hi} \<union> {c..<d}"
      using True 2(2) 2(5) it(4) by (auto simp: min_def max_def split: if_splits)
    have "{b..<l} \<union> range_bytes rest = {lo..<hi} \<union> range_bytes ((c, d) # it)"
    proof -
      have "{b..<l} \<union> range_bytes rest = {min lo c..<max hi d} \<union> range_bytes it"
        using IH by blast
      then show ?thesis by (simp only: u Un_assoc range_bytes_simps)
    qed
    moreover have "b = (if (c, d) # it \<noteq> [] \<and> fst (hd ((c, d) # it)) \<le> hi
        then min lo (fst (hd ((c, d) # it))) else lo)"
      using b True by simp
    ultimately show ?thesis using IH by blast
  next
    case False
    then have r: "b = lo" "l = hi" "rest = (c, d) # it" using 2(6) by auto
    have "\<forall>p \<in> set ((c, d) # it). hi < fst p"
      using False 2(3) by (auto intro: less_trans)
    with 2(2,3) False show ?thesis unfolding r by simp
  qed
qed

lemma range_inv_disjoint_before:
  "range_inv m \<Longrightarrow> \<forall>p \<in> set m. snd p \<le> a \<Longrightarrow> range_bytes m \<inter> {a..} = {}"
  by (auto simp: range_bytes_def)

lemma range_inv_disjoint_after:
  "\<forall>p \<in> set m. a \<le> fst p \<Longrightarrow> range_bytes m \<inter> {..<a} = {}"
  by (auto simp: range_bytes_def)

lemma RangeSet_End_ok:
  "0 < a \<Longrightarrow> 0 < n \<Longrightarrow> a + n \<le> u64_max \<Longrightarrow> RangeSet_End a n = Ret (a + n)"
  by (simp add: RangeSet_End_def)

lemma RangeSet_Add_ok:
  assumes inv: "range_inv m" and ok: "0 < a" "0 < n" "a + n \<le> u64_max"
  shows "\<exists>m'. RangeSet_Add m a n = Ret m' \<and> range_inv m' \<and> range_bytes m' = range_bytes m \<union> {a..<a + n}"
proof -
  obtain before it where s: "step_back (\<lambda>p. snd p \<ge> a) (lower_split a m) = (before, it)"
    by (cases "step_back (\<lambda>p. snd p \<ge> a) (lower_split a m)")
  obtain b l rest where ml: "merge_loop a (a + n) it = (b, l, rest)"
    by (cases "merge_loop a (a + n) it") auto
  have Q: "\<And>p. a \<le> snd p \<longleftrightarrow> a \<le> snd p" "\<And>x y. x < y \<Longrightarrow> a \<le> x \<Longrightarrow> a \<le> y"
    "\<And>x. x < a \<Longrightarrow> \<not> a \<le> x" by simp_all
  note lb = lower_back [OF inv s, where Q = "\<lambda>x. a \<le> x", OF Q]
  have m: "m = before @ it" and bef: "\<forall>p \<in> set before. snd p < a \<and> fst p < a"
    and tl: "\<forall>p \<in> set (tl it). a \<le> fst p"
    and hd: "it \<noteq> [] \<Longrightarrow> fst (hd it) < a \<Longrightarrow> a \<le> snd (hd it)"
    using lb by (simp_all add: not_le)
  have "range_inv it" using inv m by simp
  moreover have "a < a + n" using ok(2) by simp
  ultimately have mp: "b < l \<and> b = (if it \<noteq> [] \<and> fst (hd it) \<le> a + n then min a (fst (hd it)) else a) \<and>
    {b..<l} \<union> range_bytes rest = {a..<a + n} \<union> range_bytes it \<and>
    range_inv rest \<and> (\<forall>p \<in> set rest. l < fst p)"
    using merge_loop_props [OF _ _ tl hd ml] by blast
  then have r: "b < l"
    "b = (if it \<noteq> [] \<and> fst (hd it) \<le> a + n then min a (fst (hd it)) else a)"
    "{b..<l} \<union> range_bytes rest = {a..<a + n} \<union> range_bytes it"
    "range_inv rest" "\<forall>p \<in> set rest. l < fst p"
    by blast+
  have gap: "snd p < b" if "p \<in> set before" for p
  proof -
    have "snd p < fst (hd it)" if "it \<noteq> []"
      using inv \<open>p \<in> set before\<close> that unfolding m range_inv_append by simp
    with r(2) bef \<open>p \<in> set before\<close> show ?thesis by (auto simp: min_def)
  qed
  have nb: "fst p < snd p" if "p \<in> set before" for p
    using range_inv_nonempty [of before "fst p" "snd p"] inv m that by simp
  have em: "map_emplace b l (before @ rest) = before @ (b, l) # rest"
  proof (rule map_emplace_between)
    show "\<forall>p \<in> set before. snd p < b \<and> fst p < b" using gap nb less_trans by blast
    show "\<forall>p \<in> set rest. b < fst p" using r(1,5) less_trans by blast
  qed
  have "RangeSet_Add m a n = Ret (before @ (b, l) # rest)"
    using RangeSet_End_ok [OF ok] s ml em by (simp add: RangeSet_Add_def)
  moreover have "range_inv (before @ (b, l) # rest)"
    using inv gap r(1,4,5) unfolding m by (fastforce intro: less_trans)
  moreover have "range_bytes (before @ (b, l) # rest) = range_bytes m \<union> {a..<a + n}"
    using r(3) unfolding m by auto
  ultimately show ?thesis by blast
qed

section \<open>Subtract\<close>

lemma subtract_loop_props:
  assumes "a < fin" "range_inv (kept @ it)" "\<forall>p \<in> set kept. fst p < a \<and> snd p \<le> a"
    "\<forall>p \<in> set (tl it). a \<le> fst p" "it \<noteq> [] \<Longrightarrow> fst (hd it) < a \<Longrightarrow> a < snd (hd it)"
  shows "range_inv (subtract_loop a fin kept it) \<and>
    range_bytes (subtract_loop a fin kept it) = range_bytes kept \<union> (range_bytes it - {a..<fin})"
  using assms
proof (induction a fin kept it rule: subtract_loop.induct)
  case (1 a fin kept)
  then show ?case by simp
next
  case (2 a fin kept c d it)
  have it: "c < d" "\<forall>p \<in> set it. d < fst p" "range_inv it" "\<forall>p \<in> set it. a \<le> fst p"
    "\<forall>p \<in> set kept. snd p < c" "range_inv kept" "c < a \<Longrightarrow> a < d"
    using 2(3,5,6) by auto
  have sep: "\<forall>p \<in> set kept. \<forall>q \<in> set it. snd p < fst q"
    using it(1,2,5) by (meson less_trans)
  have nb: "\<forall>p \<in> set kept. fst p < c"
    using it(5,6) range_inv_nonempty by (metis less_trans prod.collapse)
  define kept' where "kept' = (if c < a then map_emplace c a kept else kept)"
  have k': "kept' = kept @ (if c < a then [(c, a)] else [])"
    using map_emplace_between [of kept c "[]" a] it(5) nb by (simp add: kept'_def)
  have kb: "\<forall>p \<in> set kept'. fst p < a \<and> snd p \<le> a" using 2(4) k' by auto
  have ki: "range_inv (kept' @ it)" using it sep k' by (auto intro: less_trans)
  show ?case
  proof (cases "c < fin")
    case False
    have "range_bytes it \<inter> {..<fin} = {}"
      by (rule range_inv_disjoint_after) (use it(1,2) False in \<open>auto intro: less_imp_le dest: less_trans\<close>)
    with False 2(3) show ?thesis by auto
  next
    case c: True
    show ?thesis
    proof (cases "d > fin")
      case d: True
      have "map_emplace fin d (kept' @ it) = kept' @ (fin, d) # it"
        by (rule map_emplace_between) (use kb 2(2) it(2) d in \<open>auto intro: less_trans le_less_trans\<close>)
      then have l: "subtract_loop a fin kept ((c, d) # it) = kept' @ (fin, d) # it"
        using c d by (simp add: kept'_def Let_def)
      have "range_bytes it \<inter> {..<fin} = {}"
        by (rule range_inv_disjoint_after) (use it(2) d in \<open>auto intro: less_imp_le dest: less_trans\<close>)
      then have "range_bytes (kept' @ (fin, d) # it) =
          range_bytes kept \<union> (range_bytes ((c, d) # it) - {a..<fin})"
        using k' c d it(7) 2(2) by auto
      moreover have "range_inv (kept' @ (fin, d) # it)"
        using ki kb it(2) d 2(2) by (auto intro: le_less_trans)
      ultimately show ?thesis unfolding l by blast
    next
      case d: False
      have l: "subtract_loop a fin kept ((c, d) # it) = subtract_loop a fin kept' it"
        using c d by (simp add: kept'_def Let_def)
      have tl: "\<forall>p \<in> set (tl it). a \<le> fst p" using it(4) by (cases it) auto
      have hd: "it \<noteq> [] \<Longrightarrow> fst (hd it) < a \<Longrightarrow> a < snd (hd it)" using it(4) by (cases it) auto
      have IH: "range_inv (subtract_loop a fin kept' it) \<and>
          range_bytes (subtract_loop a fin kept' it) = range_bytes kept' \<union> (range_bytes it - {a..<fin})"
        using 2(1) [OF c kept'_def d 2(2) ki kb tl hd] by blast
      have "range_bytes kept' \<union> (range_bytes it - {a..<fin}) =
          range_bytes kept \<union> (range_bytes ((c, d) # it) - {a..<fin})"
        using k' it(7) d c by auto
      with IH show ?thesis unfolding l by simp
    qed
  qed
qed

lemma RangeSet_Subtract_ok:
  assumes inv: "range_inv m" and ok: "0 < a" "0 < n" "a + n \<le> u64_max"
  shows "\<exists>m'. RangeSet_Subtract m a n = Ret m' \<and> range_inv m' \<and> range_bytes m' = range_bytes m - {a..<a + n}"
proof -
  obtain before it where s: "step_back (\<lambda>p. snd p > a) (lower_split a m) = (before, it)"
    by (cases "step_back (\<lambda>p. snd p > a) (lower_split a m)")
  have Q: "\<And>p. a < snd p \<longleftrightarrow> a < snd p" "\<And>x y. x < y \<Longrightarrow> a < x \<Longrightarrow> a < y"
    "\<And>x. x < a \<Longrightarrow> \<not> a < x" by simp_all
  note lb = lower_back [OF inv s, where Q = "\<lambda>x. a < x", OF Q]
  have m: "m = before @ it" and bef: "\<forall>p \<in> set before. fst p < a \<and> snd p \<le> a"
    and tl: "\<forall>p \<in> set (tl it). a \<le> fst p"
    and hd: "it \<noteq> [] \<Longrightarrow> fst (hd it) < a \<Longrightarrow> a < snd (hd it)"
    using lb by (simp_all add: not_less)
  have "range_inv (before @ it)" using inv m by simp
  from subtract_loop_props [OF _ this bef tl hd, of "a + n"] ok(2)
  have r: "range_inv (subtract_loop a (a + n) before it)"
    "range_bytes (subtract_loop a (a + n) before it) = range_bytes before \<union> (range_bytes it - {a..<a + n})"
    by auto
  have "range_bytes before \<inter> {a..} = {}"
    by (rule range_inv_disjoint_before) (use inv bef m in auto)
  then have "range_bytes before \<union> (range_bytes it - {a..<a + n}) = range_bytes m - {a..<a + n}"
    unfolding m by auto
  moreover have "RangeSet_Subtract m a n = Ret (subtract_loop a (a + n) before it)"
    using RangeSet_End_ok [OF ok] s by (simp add: RangeSet_Subtract_def)
  ultimately show ?thesis using r by simp
qed

section \<open>Contains and the intersections\<close>

lemma upper_split_props:
  assumes inv: "range_inv m" and s: "upper_split a m = (before, it)"
  shows "m = before @ it" "\<forall>p \<in> set before. fst p \<le> a" "\<forall>p \<in> set it. a < fst p"
proof -
  have tw: "takeWhile (\<lambda>p. fst p \<le> a) m = before" "dropWhile (\<lambda>p. fst p \<le> a) m = it"
    using s by (simp_all add: upper_split_def)
  show "m = before @ it" using takeWhile_dropWhile_id [of "\<lambda>p. fst p \<le> a" m] tw by simp
  show "\<forall>p \<in> set before. fst p \<le> a" "\<forall>p \<in> set it. a < fst p"
    using split_at [OF inv, of "\<lambda>x. x \<le> a"] unfolding tw by (simp_all add: not_le)
qed

text \<open>A range inside the set is inside one entry: between two entries a byte is missing.\<close>

lemma range_in_one_entry:
  assumes "range_inv m" "{a..<fin} \<subseteq> range_bytes m" "a < fin"
  shows "\<exists>(b, l) \<in> set m. b \<le> a \<and> fin \<le> l"
  using assms
proof (induction m)
  case (Cons p m)
  obtain c d where p: "p = (c, d)" by (cases p)
  have m: "c < d" "\<forall>q \<in> set m. d < fst q" "range_inv m" using Cons.prems(1) p by auto
  have d: "d \<notin> range_bytes m" using m(2) by (auto simp: range_bytes_def)
  show ?case
  proof (cases "a < d")
    case True
    have "a \<notin> range_bytes m" using m(2) True by (auto simp: range_bytes_def)
    then have "c \<le> a" using Cons.prems(2,3) p by auto
    moreover have "fin \<le> d"
    proof (rule ccontr)
      assume "\<not> fin \<le> d"
      with True have "d \<in> {a..<fin}" by simp
      then have "d \<in> {c..<d} \<union> range_bytes m" using Cons.prems(2) p by auto
      with d show False by simp
    qed
    ultimately show ?thesis using p by auto
  next
    case False
    then have "{a..<fin} \<subseteq> range_bytes m" using Cons.prems(2) p by auto
    with Cons.IH [OF m(3) _ Cons.prems(3)] show ?thesis by auto
  qed
qed simp

lemma RangeSet_Contains_ok:
  assumes inv: "range_inv m" and ok: "0 < a" "0 < n" "a + n \<le> u64_max"
  shows "RangeSet_Contains m a n = Ret ({a..<a + n} \<subseteq> range_bytes m)"
proof -
  obtain before it where s: "upper_split a m = (before, it)" by (cases "upper_split a m")
  note up = upper_split_props [OF inv s]
  have iff: "{a..<a + n} \<subseteq> range_bytes m \<longleftrightarrow>
      before \<noteq> [] \<and> fst (last before) \<le> a \<and> a + n \<le> snd (last before)"
  proof
    assume "{a..<a + n} \<subseteq> range_bytes m"
    with range_in_one_entry [OF inv this] ok(2) obtain b l where
      e: "(b, l) \<in> set m" "b \<le> a" "a + n \<le> l" by auto
    then have p: "(b, l) \<in> set before" using up by fastforce
    have invb: "range_inv before" using inv unfolding up(1) by simp
    have "l \<le> snd (last before)" using last_is_greatest [OF invb p] by simp
    moreover have ne: "before \<noteq> []" using p by auto
    moreover have "fst (last before) \<le> a" using up(2) last_in_set [OF ne] by blast
    ultimately show "before \<noteq> [] \<and> fst (last before) \<le> a \<and> a + n \<le> snd (last before)"
      using e(3) by linarith
  next
    assume b: "before \<noteq> [] \<and> fst (last before) \<le> a \<and> a + n \<le> snd (last before)"
    then have "last before \<in> set m" using up(1) by simp
    then have "{fst (last before)..<snd (last before)} \<subseteq> range_bytes m"
      unfolding range_bytes_def by (metis (mono_tags, lifting) UN_upper case_prod_beta)
    moreover have "{a..<a + n} \<subseteq> {fst (last before)..<snd (last before)}" using b by simp
    ultimately show "{a..<a + n} \<subseteq> range_bytes m" by blast
  qed
  show ?thesis
    using RangeSet_End_ok [OF ok] s iff by (simp add: RangeSet_Contains_def)
qed

lemma intersect_loop_props:
  assumes "range_inv it" "a < fin"
  shows "(\<Union>(b, l) \<in> set (intersect_loop a fin it). {b..<b + l}) = range_bytes it \<inter> {a..<fin} \<and>
    (\<forall>(b, l) \<in> set (intersect_loop a fin it). 0 < l)"
  using assms
proof (induction a fin it rule: intersect_loop.induct)
  case (2 a fin c d it)
  show ?case
  proof (cases "c < fin")
    case False
    have "range_bytes ((c, d) # it) \<inter> {..<fin} = {}"
      by (rule range_inv_disjoint_after)
        (use 2(2) False in \<open>auto intro: less_imp_le dest: less_trans\<close>)
    then have "range_bytes ((c, d) # it) \<inter> {a..<fin} = {}" by auto
    with False show ?thesis by simp
  next
    case True
    have "range_bytes ((c, d) # it) \<inter> {a..<fin} =
        {max a c..<min fin d} \<union> (range_bytes it \<inter> {a..<fin})"
      by auto
    with 2 True show ?thesis by (auto simp: Let_def)
  qed
qed simp

lemma RangeSet_Intersections_ok:
  assumes inv: "range_inv m" and ok: "0 < a" "0 < n" "a + n \<le> u64_max"
  shows "\<exists>xs. RangeSet_Intersections m a n = Ret xs \<and>
    (\<Union>(b, l) \<in> set xs. {b..<b + l}) = range_bytes m \<inter> {a..<a + n} \<and> (\<forall>(b, l) \<in> set xs. 0 < l)"
proof -
  obtain before it where s: "upper_split a m = (before, it)" by (cases "upper_split a m")
  note up = upper_split_props [OF inv s]
  obtain bef it' where sb: "step_back (\<lambda>p. True) (before, it) = (bef, it')"
    by (cases "step_back (\<lambda>p. True) (before, it)")
  have m: "m = bef @ it'" using up(1) sb by (auto split: if_splits)
  have bef: "bef = butlast before" using sb by (auto split: if_splits)
  have "range_inv before" using inv unfolding up(1) by simp
  have "range_inv it'" "range_inv bef" using inv unfolding m by simp_all
  have "snd p \<le> a" if "p \<in> set bef" for p
  proof -
    from that bef have "before \<noteq> []" by auto
    with up(2) have "fst (last before) \<le> a" by simp
    with butlast_before [OF \<open>range_inv before\<close>] that bef show ?thesis by fastforce
  qed
  with range_inv_disjoint_before [OF \<open>range_inv bef\<close>] have "range_bytes bef \<inter> {a..} = {}" by blast
  then have "range_bytes m \<inter> {a..<a + n} = range_bytes it' \<inter> {a..<a + n}" unfolding m by auto
  moreover have "RangeSet_Intersections m a n = Ret (intersect_loop a (a + n) it')"
    unfolding RangeSet_Intersections_def RangeSet_End_ok [OF ok] s sb by simp
  ultimately show ?thesis
    using intersect_loop_props [OF \<open>range_inv it'\<close>, of a "a + n"] ok(2) by simp
qed

section \<open>The interface\<close>

interpretation rs: byte_ranges range_bytes range_inv
  RangeSet_Add RangeSet_Subtract RangeSet_Contains RangeSet_Intersections
proof unfold_locales
qed (rule RangeSet_Add_ok RangeSet_Subtract_ok RangeSet_Contains_ok RangeSet_Intersections_ok; assumption)+

section \<open>Properties\<close>

text \<open>A history of the set: the calls made on it, from the empty set on.\<close>

datatype range_op = Op_Add nat nat | Op_Subtract nat nat

fun range_op_valid :: "range_op \<Rightarrow> bool" where
  "range_op_valid (Op_Add a n) = (0 < a \<and> 0 < n \<and> a + n \<le> u64_max)"
| "range_op_valid (Op_Subtract a n) = (0 < a \<and> 0 < n \<and> a + n \<le> u64_max)"

fun range_op_run :: "range_map \<Rightarrow> range_op list \<Rightarrow> range_map outcome" where
  "range_op_run m [] = Ret m"
| "range_op_run m (Op_Add a n # ops) = obind (RangeSet_Add m a n) (\<lambda>m. range_op_run m ops)"
| "range_op_run m (Op_Subtract a n # ops) = obind (RangeSet_Subtract m a n) (\<lambda>m. range_op_run m ops)"

fun range_op_bytes :: "nat set \<Rightarrow> range_op list \<Rightarrow> nat set" where
  "range_op_bytes B [] = B"
| "range_op_bytes B (Op_Add a n # ops) = range_op_bytes (B \<union> {a..<a + n}) ops"
| "range_op_bytes B (Op_Subtract a n # ops) = range_op_bytes (B - {a..<a + n}) ops"

lemma RangeSet_End_invalid:
  "\<not> (0 < a \<and> 0 < n \<and> a + n \<le> u64_max) \<Longrightarrow> RangeSet_End a n = Exit"
  by (auto simp: RangeSet_End_def)

lemma RangeSet_invalid:
  assumes "\<not> (0 < a \<and> 0 < n \<and> a + n \<le> u64_max)"
  shows "RangeSet_Add m a n = Exit" "RangeSet_Subtract m a n = Exit"
    "RangeSet_Contains m a n = Exit" "RangeSet_Intersections m a n = Exit"
  by (simp_all add: RangeSet_Add_def RangeSet_Subtract_def RangeSet_Contains_def
      RangeSet_Intersections_def RangeSet_End_invalid [OF assms])

lemma range_op_run_from:
  "range_inv m \<Longrightarrow>
   (case range_op_run m ops of
      Ret m' \<Rightarrow> list_all range_op_valid ops \<and> range_inv m' \<and>
        range_bytes m' = range_op_bytes (range_bytes m) ops
    | Exit \<Rightarrow> \<not> list_all range_op_valid ops
    | Undef \<Rightarrow> False)"
proof (induction ops arbitrary: m)
  case (Cons op ops)
  show ?case
  proof (cases op)
    case (Op_Add a n)
    show ?thesis
    proof (cases "0 < a \<and> 0 < n \<and> a + n \<le> u64_max")
      case True
      with RangeSet_Add_ok [OF Cons.prems] obtain m' where m': "RangeSet_Add m a n = Ret m'"
        "range_inv m'" "range_bytes m' = range_bytes m \<union> {a..<a + n}" by blast
      show ?thesis
        using Cons.IH [OF m'(2)] m'(1,3) True Op_Add by (simp split: outcome.splits)
    qed (auto simp: Op_Add RangeSet_invalid)
  next
    case (Op_Subtract a n)
    show ?thesis
    proof (cases "0 < a \<and> 0 < n \<and> a + n \<le> u64_max")
      case True
      with RangeSet_Subtract_ok [OF Cons.prems] obtain m' where m': "RangeSet_Subtract m a n = Ret m'"
        "range_inv m'" "range_bytes m' = range_bytes m - {a..<a + n}" by blast
      show ?thesis
        using Cons.IH [OF m'(2)] m'(1,3) True Op_Subtract by (simp split: outcome.splits)
    qed (auto simp: Op_Subtract RangeSet_invalid)
  qed
qed simp

text \<open>
  C18: after any history of \<open>Add\<close> and \<open>Subtract\<close> calls the set stands for exactly the
  bytes that the calls added and did not subtract later, kept as non-empty ranges in
  increasing order with a gap between any two of them; the process exits exactly when a
  call names the zero address, no byte, or a range beyond the address space.
\<close>

theorem range_set_history:
  "case range_op_run [] ops of
     Ret m \<Rightarrow> list_all range_op_valid ops \<and> range_inv m \<and> range_bytes m = range_op_bytes {} ops
   | Exit \<Rightarrow> \<not> list_all range_op_valid ops
   | Undef \<Rightarrow> False"
  using range_op_run_from [of "[]" ops] by (simp split: outcome.splits)

text \<open>
  On a well-formed set \<open>Contains\<close> answers whether every byte of the range is in the
  set, and \<open>Intersections\<close> returns non-empty ranges that together are the bytes of the
  set inside the range.
\<close>

theorem range_set_queries:
  assumes "range_inv m" "0 < a" "0 < n" "a + n \<le> u64_max"
  shows "RangeSet_Contains m a n = Ret ({a..<a + n} \<subseteq> range_bytes m) \<and>
    (\<exists>xs. RangeSet_Intersections m a n = Ret xs \<and> list_all (\<lambda>(b, l). 0 < l) xs \<and>
      (\<Union>(b, l) \<in> set xs. {b..<b + l}) = range_bytes m \<inter> {a..<a + n})"
proof -
  obtain xs where "RangeSet_Intersections m a n = Ret xs"
    "(\<Union>(b, l) \<in> set xs. {b..<b + l}) = range_bytes m \<inter> {a..<a + n}" "\<forall>(b, l) \<in> set xs. 0 < l"
    using rs.inter_ok [OF assms] by blast
  then show ?thesis using rs.contains_ok [OF assms] by (simp add: list_all_iff)
qed

theorem range_set_queries_witness:
  "RangeSet_Contains [(4, 8), (12, 20)] 13 5 = Ret True \<and>
   RangeSet_Intersections [(4, 8), (12, 20)] 6 8 = Ret [(6, 2), (12, 2)]"
proof
  have inv: "range_inv [(4, 8), (12, 20)]" by simp
  have "{13..<13 + 5} \<subseteq> {12..<20 :: nat}" by simp
  also have "\<dots> \<subseteq> range_bytes [(4, 8), (12, 20)]"
    unfolding range_bytes_simps by (rule subset_trans [OF Un_upper1 Un_upper2])
  finally have "({13..<13 + 5} \<subseteq> range_bytes [(4, 8), (12, 20)]) = True"
    by (simp only: simp_thms)
  moreover have "13 + 5 \<le> u64_max" by (simp add: u64_max_def)
  ultimately show "RangeSet_Contains [(4, 8), (12, 20)] 13 5 = Ret True"
    using range_set_queries [OF inv, of 13 5] by (simp only: zero_less_numeral simp_thms)
  show "RangeSet_Intersections [(4, 8), (12, 20)] 6 8 = Ret [(6, 2), (12, 2)]"
    by (simp add: RangeSet_Intersections_def RangeSet_End_def upper_split_def u64_max_def)
qed

end
