(* ===== verification/TrackingSpinLock.thy ===== *)
theory TrackingSpinLock
  imports Prelude
begin

text \<open>
  \<open>TrackingSpinLock\<close> of \<open>src/graphics/host_gpu/regionManager.h\<close>, one step for each of its
  atomic accesses: a failed \<open>test_and_set\<close> and the load of the owner after it are two steps,
  and so are the load and the store of the owner in \<open>unlock\<close>. Between any two of them other
  threads run. The owner is accessed with \<open>memory_order_relaxed\<close>, so a load need not find the
  last value stored: the state keeps the modification order of the owner and how far each
  thread has seen it, a load takes any value from there on, and a store goes to any later
  place. What a thread has seen travels with the flag, which is cleared with release and taken
  with acquire. A thread identity is a non-zero number; 0 is the "no owner" value of the code.
\<close>

section \<open>The accesses of \<open>lock\<close> and \<open>unlock\<close>\<close>

text \<open>
  Where a thread is: outside; in \<open>lock\<close> before a \<open>test_and_set\<close>, after one that failed, after
  the one that succeeded; holding; in \<open>unlock\<close> after the check and after the owner is cleared.
\<close>

datatype lock_pc = Outside | Spinning | Contended | Taken | Holding | Releasing | Leaving

text \<open>The flag, what its last clear has released, the values of the owner, what each thread has seen.\<close>

record spin_lock =
  sl_lock :: bool
  sl_released :: nat
  sl_owner :: "nat list"
  sl_view :: "nat \<Rightarrow> nat"
  sl_pc :: "nat \<Rightarrow> lock_pc"

definition spin_init :: spin_lock where
  "spin_init = \<lparr>sl_lock = False, sl_released = 0, sl_owner = [0], sl_view = (\<lambda>_. 0), sl_pc = (\<lambda>_. Outside)\<rparr>"

abbreviation goto :: "nat \<Rightarrow> lock_pc \<Rightarrow> spin_lock \<Rightarrow> spin_lock" where
  "goto thread pc s \<equiv> s\<lparr>sl_pc := (sl_pc s)(thread := pc)\<rparr>"

text \<open>The place \<open>k\<close> in the modification order that a relaxed load may read, or a store may take.\<close>

definition may_load :: "nat \<Rightarrow> nat \<Rightarrow> spin_lock \<Rightarrow> bool" where
  "may_load thread k s \<longleftrightarrow> sl_view s thread \<le> k \<and> k < length (sl_owner s)"

definition may_store :: "nat \<Rightarrow> nat \<Rightarrow> spin_lock \<Rightarrow> bool" where
  "may_store thread k s \<longleftrightarrow> sl_view s thread < k \<and> k \<le> length (sl_owner s)"

definition see :: "nat \<Rightarrow> nat \<Rightarrow> spin_lock \<Rightarrow> spin_lock" where
  "see thread k s = s\<lparr>sl_view := (sl_view s)(thread := k)\<rparr>"

definition store_owner :: "nat \<Rightarrow> nat \<Rightarrow> nat \<Rightarrow> spin_lock \<Rightarrow> spin_lock" where
  "store_owner thread k v s =
     s\<lparr>sl_owner := take k (sl_owner s) @ v # drop k (sl_owner s),
       sl_view := (\<lambda>u. if u = thread then k else if sl_view s u < k then sl_view s u else sl_view s u + 1),
       sl_released := (if sl_released s < k then sl_released s else sl_released s + 1)\<rparr>"

definition lock_enter :: "nat \<Rightarrow> nat \<Rightarrow> spin_lock \<Rightarrow> spin_lock outcome" where
  "lock_enter thread k s = (if sl_owner s ! k = thread then Exit else Ret (goto thread Spinning (see thread k s)))"

definition lock_test_and_set :: "nat \<Rightarrow> spin_lock \<Rightarrow> spin_lock outcome" where
  "lock_test_and_set thread s =
     (let s' = see thread (max (sl_view s thread) (sl_released s)) s in
      if sl_lock s then Ret (goto thread Contended s') else Ret (goto thread Taken (s'\<lparr>sl_lock := True\<rparr>)))"

definition lock_contended :: "nat \<Rightarrow> nat \<Rightarrow> spin_lock \<Rightarrow> spin_lock outcome" where
  "lock_contended thread k s = (if sl_owner s ! k = thread then Exit else Ret (goto thread Spinning (see thread k s)))"

definition lock_store_owner :: "nat \<Rightarrow> nat \<Rightarrow> spin_lock \<Rightarrow> spin_lock outcome" where
  "lock_store_owner thread k s = Ret (goto thread Holding (store_owner thread k thread s))"

definition unlock_check :: "nat \<Rightarrow> nat \<Rightarrow> spin_lock \<Rightarrow> spin_lock outcome" where
  "unlock_check thread k s = (if sl_owner s ! k \<noteq> thread then Exit else Ret (goto thread Releasing (see thread k s)))"

definition unlock_clear_owner :: "nat \<Rightarrow> nat \<Rightarrow> spin_lock \<Rightarrow> spin_lock outcome" where
  "unlock_clear_owner thread k s = Ret (goto thread Leaving (store_owner thread k 0 s))"

definition unlock_clear_lock :: "nat \<Rightarrow> spin_lock \<Rightarrow> spin_lock outcome" where
  "unlock_clear_lock thread s =
     Ret (goto thread Outside (s\<lparr>sl_lock := False, sl_released := sl_view s thread\<rparr>))"

text \<open>
  A thread that locks and unlocks in turn takes the access its position asks for; \<open>k\<close> is the
  place the memory system picks for an access of the owner.
\<close>

definition spin_choice :: "nat \<Rightarrow> nat \<Rightarrow> spin_lock \<Rightarrow> bool" where
  "spin_choice thread k s =
     (case sl_pc s thread of
        Outside \<Rightarrow> may_load thread k s
      | Contended \<Rightarrow> may_load thread k s
      | Taken \<Rightarrow> may_store thread k s
      | Holding \<Rightarrow> may_load thread k s
      | Releasing \<Rightarrow> may_store thread k s
      | _ \<Rightarrow> True)"

definition spin_step :: "nat \<Rightarrow> nat \<Rightarrow> spin_lock \<Rightarrow> spin_lock outcome" where
  "spin_step thread k s =
     (case sl_pc s thread of
        Outside \<Rightarrow> lock_enter thread k s
      | Spinning \<Rightarrow> lock_test_and_set thread s
      | Contended \<Rightarrow> lock_contended thread k s
      | Taken \<Rightarrow> lock_store_owner thread k s
      | Holding \<Rightarrow> unlock_check thread k s
      | Releasing \<Rightarrow> unlock_clear_owner thread k s
      | Leaving \<Rightarrow> unlock_clear_lock thread s)"

inductive spin_reach :: "spin_lock \<Rightarrow> bool" where
  start: "spin_reach spin_init"
| step: "spin_reach s \<Longrightarrow> thread \<noteq> 0 \<Longrightarrow> spin_choice thread k s \<Longrightarrow> spin_step thread k s = Ret s' \<Longrightarrow> spin_reach s'"

section \<open>Invariant\<close>

definition inside :: "spin_lock \<Rightarrow> nat set" where
  "inside s = {t. sl_pc s t \<in> {Taken, Holding, Releasing, Leaving}}"

definition owning :: "spin_lock \<Rightarrow> nat \<Rightarrow> bool" where
  "owning s t \<longleftrightarrow> sl_pc s t \<in> {Holding, Releasing}"

text \<open>The last place of the modification order.\<close>

abbreviation newest :: "spin_lock \<Rightarrow> nat" where
  "newest s \<equiv> length (sl_owner s) - 1"

definition views_ok :: "spin_lock \<Rightarrow> bool" where
  "views_ok s \<longleftrightarrow> sl_released s < length (sl_owner s) \<and> (\<forall>u. sl_view s u < length (sl_owner s))"

text \<open>A thread that does not own the lock can no longer read its own identity.\<close>

definition own_gone :: "spin_lock \<Rightarrow> nat \<Rightarrow> bool" where
  "own_gone s u \<longleftrightarrow> owning s u \<or> (\<forall>k. may_load u k s \<longrightarrow> sl_owner s ! k \<noteq> u)"

definition flag_ok :: "spin_lock \<Rightarrow> bool" where
  "flag_ok s \<longleftrightarrow>
     (if sl_lock s then \<exists>t. t \<noteq> 0 \<and> inside s = {t} \<and> sl_view s t = newest s \<and>
        sl_owner s ! newest s = (if owning s t then t else 0)
      else inside s = {} \<and> sl_released s = newest s \<and> sl_owner s ! newest s = 0)"

definition spin_inv :: "spin_lock \<Rightarrow> bool" where
  "spin_inv s \<longleftrightarrow> views_ok s \<and> (\<forall>u. u \<noteq> 0 \<longrightarrow> own_gone s u) \<and> flag_ok s"

lemma spin_inv_init: "spin_inv spin_init"
  by (simp add: spin_inv_def spin_init_def inside_def views_ok_def own_gone_def flag_ok_def may_load_def)

lemma in_inside:
  "t \<in> inside s \<longleftrightarrow> sl_pc s t = Taken \<or> sl_pc s t = Holding \<or> sl_pc s t = Releasing \<or> sl_pc s t = Leaving"
  by (simp add: inside_def)

lemma owning_inside: "owning s t \<Longrightarrow> t \<in> inside s"
  by (auto simp: owning_def inside_def)

lemma inside_goto:
  "sl_pc s' = (sl_pc s)(t := pc) \<Longrightarrow>
   inside s' = (if pc \<in> {Taken, Holding, Releasing, Leaving} then insert t (inside s) else inside s - {t})"
  by (auto simp: inside_def)

lemma spin_inv_cases:
  assumes "spin_inv s"
  obtains (free) "\<not> sl_lock s" "inside s = {}" "sl_released s = newest s" "sl_owner s ! newest s = 0"
  | (held) t where "sl_lock s" "t \<noteq> 0" "inside s = {t}" "sl_view s t = newest s"
      "sl_owner s ! newest s = (if owning s t then t else 0)"
proof (cases "sl_lock s")
  case True
  then show ?thesis using assms held unfolding spin_inv_def flag_ok_def by (simp only: if_True) blast
next
  case False
  then show ?thesis using assms free unfolding spin_inv_def flag_ok_def by (simp only: if_False) blast
qed

text \<open>A thread reads its own identity exactly while it owns the lock.\<close>

lemma owner_read:
  assumes inv: "spin_inv s" and t: "t \<noteq> 0" and k: "may_load t k s"
  shows "sl_owner s ! k = t \<longleftrightarrow> owning s t"
proof (cases "owning s t")
  case True
  show ?thesis
    using inv
  proof (cases rule: spin_inv_cases)
    case free
    then show ?thesis using owning_inside [OF True] by simp
  next
    case (held u)
    then have u: "u = t" using owning_inside [OF True] by simp
    then have "k = newest s" using k held(4) by (auto simp: may_load_def)
    then show ?thesis using held(5) u True by simp
  qed
next
  case False
  moreover have "own_gone s t" using inv t by (simp add: spin_inv_def)
  ultimately show ?thesis using k by (simp add: own_gone_def)
qed

text \<open>A step that only moves a thread's view forward.\<close>

lemma see_goto_inv:
  assumes inv: "spin_inv s" and k: "may_load t k s"
    and pc: "sl_pc s t \<in> {Outside, Spinning, Contended} \<and> pc \<in> {Outside, Spinning, Contended} \<or>
      sl_pc s t = Holding \<and> pc = Releasing"
  shows "spin_inv (goto t pc (see t k s))"
proof -
  let ?s = "goto t pc (see t k s)"
  have v: "views_ok ?s" using inv k by (auto simp: spin_inv_def views_ok_def see_def may_load_def)
  have o: "owning ?s u = owning s u" for u using pc by (auto simp: owning_def see_def)
  have i: "inside ?s = inside s" using pc by (auto simp: inside_def see_def)
  have "own_gone ?s u" if "own_gone s u" for u
    using that k by (auto simp: own_gone_def o) (auto simp: may_load_def see_def split: if_splits)
  moreover have "flag_ok ?s"
  proof (cases "sl_lock s")
    case True
    from inv True obtain u where u: "u \<noteq> 0" "inside s = {u}" "sl_view s u = newest s"
      "sl_owner s ! newest s = (if owning s u then u else 0)" by (cases rule: spin_inv_cases) auto
    moreover have "sl_view ?s u = newest s" using u(3) k by (auto simp: see_def may_load_def)
    ultimately show ?thesis using True by (simp add: flag_ok_def i o) (simp add: see_def)
  next
    case False
    then show ?thesis using inv i by (auto simp: spin_inv_def flag_ok_def see_def)
  qed
  ultimately show ?thesis using inv v by (simp add: spin_inv_def)
qed

text \<open>The thread that has the flag stores at the end of the modification order.\<close>

lemma store_goto_inv:
  assumes inv: "spin_inv s" and t: "t \<noteq> 0" "t \<in> inside s" and k: "may_store t k s"
    and pc: "pc = Holding \<and> v = t \<or> pc = Leaving \<and> v = 0"
  shows "spin_inv (goto t pc (store_owner t k v s))"
proof -
  let ?s = "goto t pc (store_owner t k v s)"
  have lock: "sl_lock s" "inside s = {t}" "sl_view s t = newest s"
    using inv t by (cases rule: spin_inv_cases; auto)+
  have vs: "views_ok s" using inv by (simp add: spin_inv_def)
  then have kl: "k = length (sl_owner s)" using k lock(3) by (auto simp: may_store_def views_ok_def)
  have st: "sl_owner ?s = sl_owner s @ [v]" "sl_view ?s = (sl_view s)(t := k)" "sl_released ?s = sl_released s"
    "sl_lock ?s" "sl_pc ?s = (sl_pc s)(t := pc)"
    using vs kl lock(1) by (auto simp: store_owner_def views_ok_def)
  have i: "inside ?s = {t}" using inside_goto [OF st(5)] pc lock(2) by auto
  have "views_ok ?s" using vs st kl by (auto simp: views_ok_def less_Suc_eq)
  moreover have "own_gone ?s u" if u: "u \<noteq> 0" for u
  proof (cases "u = t")
    case True
    show ?thesis
    proof (cases "pc = Holding")
      case False
      then have "v = 0" using pc by auto
      then show ?thesis using True t(1) kl unfolding own_gone_def may_load_def st by (auto simp: nth_append)
    qed (use True st(5) in \<open>simp add: own_gone_def owning_def\<close>)
  next
    case False
    have "u \<notin> inside s" using False lock(2) by simp
    then have "\<not> owning s u" using owning_inside by blast
    moreover have "own_gone s u" using inv u by (simp add: spin_inv_def)
    ultimately have "\<forall>k. may_load u k s \<longrightarrow> sl_owner s ! k \<noteq> u" by (simp add: own_gone_def)
    moreover have "v \<noteq> u" using pc False u by auto
    ultimately show ?thesis using False
      unfolding own_gone_def may_load_def st by (auto simp: nth_append less_Suc_eq)
  qed
  moreover have "owning ?s t = (pc = Holding)" using pc st(5) by (auto simp: owning_def)
  then have "flag_ok ?s" using t(1) i st kl pc by (auto simp: flag_ok_def nth_append)
  ultimately show ?thesis by (simp add: spin_inv_def)
qed

text \<open>Taking the flag brings the view of its last clear; clearing it passes the view on.\<close>

lemma take_flag_inv:
  assumes inv: "spin_inv s" and t: "t \<noteq> 0" "sl_pc s t = Spinning" and free: "\<not> sl_lock s"
  shows "spin_inv (goto t Taken ((see t (max (sl_view s t) (sl_released s)) s)\<lparr>sl_lock := True\<rparr>))"
proof -
  let ?s = "goto t Taken ((see t (max (sl_view s t) (sl_released s)) s)\<lparr>sl_lock := True\<rparr>)"
  from inv free have f: "inside s = {}" "sl_released s = newest s" "sl_owner s ! newest s = 0"
    by (cases rule: spin_inv_cases; auto)+
  have vs: "views_ok s" using inv by (simp add: spin_inv_def)
  then have mx: "max (sl_view s t) (sl_released s) = newest s"
    using f(2) by (auto simp: views_ok_def max_def dest!: spec [of _ t])
  have st: "sl_owner ?s = sl_owner s" "sl_view ?s = (sl_view s)(t := newest s)" "sl_released ?s = sl_released s"
    "sl_lock ?s" "sl_pc ?s = (sl_pc s)(t := Taken)" by (simp_all add: see_def mx)
  have i: "inside ?s = {t}" using inside_goto [OF st(5)] f(1) by auto
  have o: "\<not> owning s u" "\<not> owning ?s u" for u
    using owning_inside f(1) st(5) by (auto simp: owning_def inside_def)
  have "views_ok ?s" using vs st by (auto simp: views_ok_def)
  moreover have "own_gone ?s u" if u: "u \<noteq> 0" for u
  proof -
    have "own_gone s u" using inv u by (simp add: spin_inv_def)
    then have "\<forall>k. sl_view s u \<le> k \<and> k < length (sl_owner s) \<longrightarrow> sl_owner s ! k \<noteq> u"
      using o(1) by (simp add: own_gone_def may_load_def)
    moreover have "sl_view s u \<le> sl_view ?s u"
      using vs st(2) by (auto simp: views_ok_def dest!: spec [of _ t])
    ultimately show ?thesis unfolding own_gone_def may_load_def st(1) by auto
  qed
  moreover have "flag_ok ?s" using t(1) i st o f(3) by (simp add: flag_ok_def)
  ultimately show ?thesis by (simp add: spin_inv_def)
qed

lemma clear_flag_inv:
  assumes inv: "spin_inv s" and t: "t \<noteq> 0" "sl_pc s t = Leaving"
  shows "spin_inv (goto t Outside (s\<lparr>sl_lock := False, sl_released := sl_view s t\<rparr>))"
proof -
  let ?s = "goto t Outside (s\<lparr>sl_lock := False, sl_released := sl_view s t\<rparr>)"
  have ti: "t \<in> inside s" using t(2) by (simp add: in_inside)
  have no: "\<not> owning s t" using t(2) by (simp add: owning_def)
  have h: "inside s = {t}" "sl_view s t = newest s" "sl_owner s ! newest s = 0"
    using inv ti no by (cases rule: spin_inv_cases; auto)+
  have i: "inside ?s = {}" using inside_goto [of ?s s t Outside] h(1) by simp
  have o: "owning ?s u = owning s u" for u using no t(2) by (auto simp: owning_def)
  have "views_ok ?s" using inv by (simp add: spin_inv_def views_ok_def)
  moreover have "own_gone ?s u" if "u \<noteq> 0" for u
    using inv that o by (simp add: spin_inv_def own_gone_def may_load_def)
  moreover have "flag_ok ?s" using i h by (simp add: flag_ok_def)
  ultimately show ?thesis by (simp add: spin_inv_def)
qed

lemma spin_step_props:
  assumes inv: "spin_inv s" and t: "t \<noteq> 0" and k: "spin_choice t k s"
  shows "owp (spin_step t k s) spin_inv False"
proof (cases "sl_pc s t")
  case Outside
  then have ml: "may_load t k s" using k by (simp add: spin_choice_def)
  have "sl_owner s ! k \<noteq> t" using owner_read [OF inv t ml] Outside by (simp add: owning_def)
  then show ?thesis using see_goto_inv [OF inv ml, of Spinning] Outside by (simp add: spin_step_def lock_enter_def)
next
  case Spinning
  let ?k = "max (sl_view s t) (sl_released s)"
  have "may_load t ?k s" using inv by (auto simp: may_load_def spin_inv_def views_ok_def)
  from see_goto_inv [OF inv this, of Contended] take_flag_inv [OF inv t] Spinning
  show ?thesis by (simp add: spin_step_def lock_test_and_set_def Let_def)
next
  case Contended
  then have ml: "may_load t k s" using k by (simp add: spin_choice_def)
  have "sl_owner s ! k \<noteq> t" using owner_read [OF inv t ml] Contended by (simp add: owning_def)
  then show ?thesis using see_goto_inv [OF inv ml, of Spinning] Contended
    by (simp add: spin_step_def lock_contended_def)
next
  case Taken
  then have "may_store t k s" using k by (simp add: spin_choice_def)
  with store_goto_inv [OF inv t _ this, of Holding t] Taken show ?thesis
    by (simp add: spin_step_def lock_store_owner_def in_inside)
next
  case Holding
  then have ml: "may_load t k s" using k by (simp add: spin_choice_def)
  have "sl_owner s ! k = t" using owner_read [OF inv t ml] Holding by (simp add: owning_def)
  then show ?thesis using see_goto_inv [OF inv ml, of Releasing] Holding by (simp add: spin_step_def unlock_check_def)
next
  case Releasing
  then have "may_store t k s" using k by (simp add: spin_choice_def)
  with store_goto_inv [OF inv t _ this, of Leaving 0] Releasing show ?thesis
    by (simp add: spin_step_def unlock_clear_owner_def in_inside)
next
  case Leaving
  with clear_flag_inv [OF inv t Leaving] show ?thesis by (simp add: spin_step_def unlock_clear_lock_def)
qed

lemma spin_reach_inv: "spin_reach s \<Longrightarrow> spin_inv s"
proof (induction rule: spin_reach.induct)
  case start
  show ?case by (rule spin_inv_init)
next
  case (step s thread k s')
  from owp_RetD [OF spin_step_props [OF step.IH step.hyps(2,3)] step.hyps(4)] show ?case .
qed

text \<open>A thread is never stuck: the memory system always has a place to offer.\<close>

lemma spin_choice_exists:
  assumes "spin_reach s"
  shows "\<exists>k. spin_choice t k s"
proof -
  have "sl_view s t < length (sl_owner s)"
    using spin_reach_inv [OF assms] by (simp add: spin_inv_def views_ok_def)
  then have "may_load t (sl_view s t) s" "may_store t (length (sl_owner s)) s"
    by (simp_all add: may_load_def may_store_def)
  then show ?thesis by (cases "sl_pc s t") (auto simp: spin_choice_def)
qed

section \<open>Properties\<close>

text \<open>
  C8: the tracking lock excludes: in every interleaving of its atomic accesses, and whatever
  values the relaxed loads of the owner find, at most one thread is between taking the flag and
  giving it back, and that thread has seen every store of the owner made before. A thread that
  takes and releases the lock in turn never runs into one of the two recursion exits or the
  non-owner exit; a thread that locks again while it owns the lock always exits, and so does a
  thread that unlocks without owning it.
\<close>

theorem spin_lock_excludes:
  assumes "spin_reach s" "t \<noteq> 0" "spin_choice t k s"
  shows "spin_step t k s \<noteq> Exit \<and> (\<exists>u. inside s \<subseteq> {u}) \<and>
    (t \<in> inside s \<longrightarrow> sl_view s t = newest s) \<and>
    (\<forall>j. may_load t j s \<longrightarrow> (lock_enter t j s = Exit \<longleftrightarrow> owning s t) \<and> (unlock_check t j s = Exit \<longleftrightarrow> \<not> owning s t))"
proof -
  have inv: "spin_inv s" by (rule spin_reach_inv [OF assms(1)])
  have "spin_step t k s \<noteq> Exit" using spin_step_props [OF inv assms(2,3)] by auto
  moreover have "\<exists>u. inside s \<subseteq> {u}" using inv by (cases rule: spin_inv_cases) auto
  moreover have "t \<in> inside s \<longrightarrow> sl_view s t = newest s" using inv by (cases rule: spin_inv_cases) auto
  ultimately show ?thesis using owner_read [OF inv assms(2)] by (simp add: lock_enter_def unlock_check_def)
qed

theorem spin_lock_excludes_witness:
  "spin_step 2 0 \<lparr>sl_lock = True, sl_released = 0, sl_owner = [0, 1],
     sl_view = (\<lambda>t. if t = 1 then 1 else 0),
     sl_pc = (\<lambda>t. if t = 1 then Holding else if t = 2 then Contended else Outside)\<rparr> \<noteq> Exit"
proof -
  let ?s1 = "\<lparr>sl_lock = False, sl_released = 0, sl_owner = [0], sl_view = (\<lambda>_. 0),
    sl_pc = (\<lambda>_. Outside)(1 := Spinning)\<rparr>"
  let ?s2 = "?s1\<lparr>sl_lock := True, sl_pc := (\<lambda>_. Outside)(1 := Taken)\<rparr>"
  let ?s3 = "?s2\<lparr>sl_pc := (\<lambda>_. Outside)(1 := Taken, 2 := Spinning)\<rparr>"
  let ?s4 = "?s2\<lparr>sl_pc := (\<lambda>_. Outside)(1 := Taken, 2 := Contended)\<rparr>"
  let ?s5 = "\<lparr>sl_lock = True, sl_released = 0, sl_owner = [0, 1],
     sl_view = (\<lambda>t. if t = 1 then 1 else 0), sl_pc = (\<lambda>t. if t = 1 then Holding else if t = 2 then Contended else Outside)\<rparr>"
  note defs = spin_step_def spin_choice_def may_load_def may_store_def see_def spin_init_def fun_eq_iff
  have "spin_reach ?s1"
    by (rule spin_reach.step [OF spin_reach.start, of 1 0]) (simp_all add: defs lock_enter_def)
  then have "spin_reach ?s2"
    by (rule spin_reach.step [of _ 1 0]) (simp_all add: defs lock_test_and_set_def)
  then have "spin_reach ?s3"
    by (rule spin_reach.step [of _ 2 0]) (simp_all add: defs lock_enter_def)
  then have "spin_reach ?s4"
    by (rule spin_reach.step [of _ 2 0]) (simp_all add: defs lock_test_and_set_def)
  then have "spin_reach ?s5"
    by (rule spin_reach.step [of _ 1 1]) (auto simp: defs lock_store_owner_def store_owner_def)
  moreover have "spin_choice 2 0 ?s5" by (simp add: defs)
  ultimately show ?thesis using spin_lock_excludes [of ?s5 2 0] by simp
qed

end
