(* ===== verification/PageManager.thy ===== *)
theory PageManager
  imports BitArray
begin

text \<open>
  \<open>PageManager\<close> of \<open>src/graphics/host_gpu/pageManager.cpp\<close>: per guest page, how many
  clients watch it for writes and whether one watches it for reads; the host protection
  of the page follows from the two counts. The model holds the region table of
  \<open>PageManager::Impl\<close> and the host protection of every page; a region's spin lock makes
  each operation on it one step. Two parameters are outside the component: \<open>hot\<close>, the
  environment switch \<open>g_hot_page_escape\<close>, and \<open>pok\<close>, whether the address space accepts
  a protection request (\<open>ProtectGuestHostMemory\<close>).
\<close>

section \<open>Constants of \<open>regionDefinitions.h\<close>\<close>

abbreviation TRACKER_PAGE_SIZE :: nat where "TRACKER_PAGE_SIZE \<equiv> 4096"
abbreviation TRACKER_REGION_SIZE :: nat where "TRACKER_REGION_SIZE \<equiv> 4194304"
abbreviation TRACKER_ADDRESS_SIZE :: nat where "TRACKER_ADDRESS_SIZE \<equiv> 1099511627776"
abbreviation TRACKER_REGION_PAGES :: nat where "TRACKER_REGION_PAGES \<equiv> 1024"

section \<open>The state of a page\<close>

datatype mode = Mode_NoAccess | Mode_Read | Mode_ReadWrite

record page_state =
  write_watchers :: "7 word"
  access_watchers :: "1 word"
  managed :: bool
  faults :: u8

definition PageState_init :: page_state where
  "PageState_init = \<lparr>write_watchers = 0, access_watchers = 0, managed = False, faults = 0\<rparr>"

abbreviation NO_ACCESS_PROTECTION :: u32 where "NO_ACCESS_PROTECTION \<equiv> 1"
abbreviation READ_ONLY_PROTECTION :: u32 where "READ_ONLY_PROTECTION \<equiv> 2"
abbreviation READ_WRITE_PROTECTION :: u32 where "READ_WRITE_PROTECTION \<equiv> 4"

definition ToMemoryMode :: "u32 \<Rightarrow> mode outcome" where
  "ToMemoryMode protection =
     (if protection = NO_ACCESS_PROTECTION then Ret Mode_NoAccess
      else if protection = READ_ONLY_PROTECTION then Ret Mode_Read
      else if protection = READ_WRITE_PROTECTION then Ret Mode_ReadWrite
      else Exit)"

definition Perms :: "bool \<Rightarrow> page_state \<Rightarrow> u32" where
  "Perms hot p =
     (if hot \<and> faults p \<ge> 3 then READ_WRITE_PROTECTION
      else if access_watchers p \<noteq> 0 then NO_ACCESS_PROTECTION
      else if write_watchers p \<noteq> 0 then READ_ONLY_PROTECTION
      else READ_WRITE_PROTECTION)"

text \<open>
  \<open>AddDelta<delta, is_read>\<close> returns the new count; the changed page is the state after
  the call.
\<close>

definition AddDelta :: "int \<Rightarrow> bool \<Rightarrow> page_state \<Rightarrow> (page_state \<times> u32) outcome" where
  "AddDelta delta is_read p =
     (if is_read then
        if delta = 1 then
          if access_watchers p \<noteq> 0 then Exit
          else let n = access_watchers p + 1 in Ret (p\<lparr>access_watchers := n\<rparr>, ucast n)
        else if delta = -1 then
          if access_watchers p = 0 then Exit
          else let n = access_watchers p - 1 in Ret (p\<lparr>access_watchers := n\<rparr>, ucast n)
        else Ret (p, ucast (access_watchers p))
      else
        if delta = 1 then
          if write_watchers p = 0x7f then Exit
          else let n = write_watchers p + 1 in Ret (p\<lparr>write_watchers := n\<rparr>, ucast n)
        else if delta = -1 then
          if write_watchers p = 0 then Exit
          else let n = write_watchers p - 1 in Ret (p\<lparr>write_watchers := n\<rparr>, ucast n)
        else Ret (p, ucast (write_watchers p)))"

section \<open>Ranges, regions and host protection\<close>

definition PM_ValidateRange :: "nat \<Rightarrow> nat \<Rightarrow> unit outcome" where
  "PM_ValidateRange vaddr sz =
     (if vaddr = 0 \<or> sz = 0 \<or> vaddr \<ge> TRACKER_ADDRESS_SIZE \<or> sz > TRACKER_ADDRESS_SIZE - vaddr
      then Exit else Ret ())"

definition PageStart :: "nat \<Rightarrow> nat" where
  "PageStart vaddr = vaddr - vaddr mod TRACKER_PAGE_SIZE"

definition PageEnd :: "nat \<Rightarrow> nat \<Rightarrow> nat outcome" where
  "PageEnd vaddr sz =
     obind (PM_ValidateRange vaddr sz) (\<lambda>_.
       Ret (PageStart (vaddr + sz - 1) + TRACKER_PAGE_SIZE))"

text \<open>
  The region table: an index without a region is a null pointer. \<open>pm_storage\<close> lists the
  indices in creation order, \<open>pm_host\<close> gives the protection of every host page by its
  page number.
\<close>

record page_manager =
  pm_regions :: "nat \<Rightarrow> page_state list option"
  pm_storage :: "nat list"
  pm_host :: "nat \<Rightarrow> mode"

definition PageManager_init :: "(nat \<Rightarrow> mode) \<Rightarrow> page_manager" where
  "PageManager_init host = \<lparr>pm_regions = (\<lambda>_. None), pm_storage = [], pm_host = host\<rparr>"

definition PM_FindRegion :: "page_manager \<Rightarrow> nat \<Rightarrow> page_state list option" where
  "PM_FindRegion pm vaddr =
     (if vaddr < TRACKER_ADDRESS_SIZE then pm_regions pm (vaddr div TRACKER_REGION_SIZE) else None)"

definition set_region :: "nat \<Rightarrow> page_state list \<Rightarrow> page_manager \<Rightarrow> page_manager" where
  "set_region index pages pm = pm\<lparr>pm_regions := (pm_regions pm)(index := Some pages)\<rparr>"

definition PM_GetOrCreateRegion :: "page_manager \<Rightarrow> nat \<Rightarrow> page_manager \<times> page_state list" where
  "PM_GetOrCreateRegion pm vaddr =
     (let index = vaddr div TRACKER_REGION_SIZE in
      case pm_regions pm index of
        Some pages \<Rightarrow> (pm, pages)
      | None \<Rightarrow>
          let pages = replicate TRACKER_REGION_PAGES PageState_init in
          (set_region index pages pm\<lparr>pm_storage := pm_storage pm @ [index]\<rparr>, pages))"

text \<open>A successful request changes the protection of the host pages inside the range.\<close>

definition Protect ::
    "(nat \<Rightarrow> nat \<Rightarrow> mode \<Rightarrow> bool) \<Rightarrow> nat \<Rightarrow> nat \<Rightarrow> u32 \<Rightarrow> (nat \<Rightarrow> mode) \<Rightarrow> (nat \<Rightarrow> mode) outcome" where
  "Protect pok vaddr sz protection host =
     obind (ToMemoryMode protection) (\<lambda>m.
       if pok vaddr sz m
       then Ret (\<lambda>n. if vaddr \<le> TRACKER_PAGE_SIZE * n \<and> TRACKER_PAGE_SIZE * n < vaddr + sz
                     then m else host n)
       else Exit)"

section \<open>Watcher updates\<close>

record watch_loop =
  wl_pages :: "page_state list"
  wl_host :: "nat \<Rightarrow> mode"
  wl_perms :: u32
  wl_begin :: nat
  wl_bytes :: nat
  wl_potential :: nat

definition release_pending ::
    "(nat \<Rightarrow> nat \<Rightarrow> mode \<Rightarrow> bool) \<Rightarrow> nat \<Rightarrow> watch_loop \<Rightarrow> watch_loop outcome" where
  "release_pending pok base_addr st =
     (if wl_bytes st \<noteq> 0 then
        obind (Protect pok (base_addr + wl_begin st * TRACKER_PAGE_SIZE) (wl_bytes st)
            (wl_perms st) (wl_host st)) (\<lambda>host.
          Ret (st\<lparr>wl_host := host, wl_bytes := 0, wl_potential := 0\<rparr>))
      else Ret st)"

text \<open>The body of the loop; \<open>sel\<close>, the pointer to the mask, is \<open>None\<close> in the instances that are not masked.\<close>

definition watch_select :: "bit_words option \<Rightarrow> nat \<Rightarrow> bool outcome" where
  "watch_select sel page_index =
     (case sel of None \<Rightarrow> Ret True | Some m \<Rightarrow> BitArray_Get m page_index)"

definition advance_perms ::
    "(nat \<Rightarrow> nat \<Rightarrow> mode \<Rightarrow> bool) \<Rightarrow> nat \<Rightarrow> u32 \<Rightarrow> watch_loop \<Rightarrow> watch_loop outcome" where
  "advance_perms pok base_addr new_perms st =
     (if new_perms \<noteq> wl_perms st
      then omap (\<lambda>st. st\<lparr>wl_perms := new_perms\<rparr>) (release_pending pok base_addr st)
      else if wl_bytes st \<noteq> 0
      then Ret (st\<lparr>wl_potential := wl_potential st + TRACKER_PAGE_SIZE\<rparr>)
      else Ret st)"

definition mark_changed :: "nat \<Rightarrow> watch_loop \<Rightarrow> watch_loop" where
  "mark_changed page_index st =
     (let st = (if wl_bytes st = 0
                then st\<lparr>wl_begin := page_index, wl_potential := TRACKER_PAGE_SIZE\<rparr> else st) in
      st\<lparr>wl_bytes := wl_potential st\<rparr>)"

definition watch_step ::
    "bool \<Rightarrow> (nat \<Rightarrow> nat \<Rightarrow> mode \<Rightarrow> bool) \<Rightarrow> bool \<Rightarrow> bool \<Rightarrow> bit_words option \<Rightarrow> nat \<Rightarrow>
     nat \<Rightarrow> watch_loop \<Rightarrow> watch_loop outcome" where
  "watch_step hot pok track is_read sel base_addr page_index st =
     (if page_index \<ge> length (wl_pages st) then Undef
      else
        obind (watch_select sel page_index) (\<lambda>update.
        let page = wl_pages st ! page_index;
            page = (if track then page\<lparr>managed := managed page \<or> update\<rparr> else page);
            old_perms = Perms hot page in
        obind (AddDelta (if update then if track then 1 else -1 else 0) is_read page)
          (\<lambda>(page, new_count).
        let new_perms = Perms hot page;
            st = st\<lparr>wl_pages := (wl_pages st)[page_index := page]\<rparr> in
        obind (advance_perms pok base_addr new_perms st) (\<lambda>st.
        let watcher_edge = (track \<and> new_count = 1 \<or> \<not> track \<and> new_count = 0) in
        if \<not> update then Ret st
        else if watcher_edge \<and> old_perms \<noteq> new_perms then Ret (mark_changed page_index st)
        else Ret st))))"

definition UpdateRegionWatchers ::
    "bool \<Rightarrow> (nat \<Rightarrow> nat \<Rightarrow> mode \<Rightarrow> bool) \<Rightarrow> bool \<Rightarrow> bool \<Rightarrow> bit_words option \<Rightarrow> nat \<Rightarrow>
     nat \<Rightarrow> nat \<Rightarrow> page_state list \<Rightarrow> (nat \<Rightarrow> mode) \<Rightarrow> (page_state list \<times> (nat \<Rightarrow> mode)) outcome" where
  "UpdateRegionWatchers hot pok track is_read sel base_addr first_page last_page pages host =
     (if first_page \<ge> length pages then Undef
      else
        obind (ofold (watch_step hot pok track is_read sel base_addr) [first_page..<last_page]
            \<lparr>wl_pages = pages, wl_host = host, wl_perms = Perms hot (pages ! first_page),
             wl_begin = 0, wl_bytes = 0, wl_potential = 0\<rparr>) (\<lambda>st.
        omap (\<lambda>st. (wl_pages st, wl_host st)) (release_pending pok base_addr st)))"

text \<open>The pieces of a range that lie in one region each, in the order of the loop.\<close>

function region_chunks :: "nat \<Rightarrow> nat \<Rightarrow> (nat \<times> nat) list" where
  "region_chunks chunk_begin fin =
     (if chunk_begin < fin then
        let chunk_end = min fin ((chunk_begin div TRACKER_REGION_SIZE + 1) * TRACKER_REGION_SIZE) in
        (chunk_begin, chunk_end) # region_chunks chunk_end fin
      else [])"
  by pat_completeness auto
termination
proof (relation "measure (\<lambda>(b, e). e - b)", goal_cases)
  case (2 b e x)
  have "b < (b div TRACKER_REGION_SIZE + 1) * TRACKER_REGION_SIZE"
    by (metis Suc_eq_plus1 dividend_less_times_div mult.commute mult_Suc_right zero_less_numeral add.commute)
  with 2 show ?case by auto
qed simp

declare region_chunks.simps [simp del]

definition update_chunk ::
    "bool \<Rightarrow> (nat \<Rightarrow> nat \<Rightarrow> mode \<Rightarrow> bool) \<Rightarrow> bool \<Rightarrow> bool \<Rightarrow> nat \<times> nat \<Rightarrow> page_manager \<Rightarrow>
     page_manager outcome" where
  "update_chunk hot pok track is_read chunk pm =
     (let (chunk_begin, chunk_end) = chunk;
          region_base = chunk_begin div TRACKER_REGION_SIZE * TRACKER_REGION_SIZE;
          (pm, region) =
            (if track then map_prod id Some (PM_GetOrCreateRegion pm chunk_begin)
             else (pm, PM_FindRegion pm chunk_begin)) in
      case region of
        None \<Rightarrow> Exit
      | Some pages \<Rightarrow>
          obind (UpdateRegionWatchers hot pok track is_read None region_base
              ((chunk_begin - region_base) div TRACKER_PAGE_SIZE)
              ((chunk_end - region_base) div TRACKER_PAGE_SIZE) pages (pm_host pm))
            (\<lambda>(pages, host).
              Ret (set_region (chunk_begin div TRACKER_REGION_SIZE) pages pm\<lparr>pm_host := host\<rparr>)))"

definition UpdatePageWatchers ::
    "bool \<Rightarrow> (nat \<Rightarrow> nat \<Rightarrow> mode \<Rightarrow> bool) \<Rightarrow> bool \<Rightarrow> bool \<Rightarrow> nat \<Rightarrow> nat \<Rightarrow> page_manager \<Rightarrow>
     page_manager outcome" where
  "UpdatePageWatchers hot pok track is_read vaddr sz pm =
     obind (PageEnd vaddr sz) (\<lambda>fin.
       ofold (update_chunk hot pok track is_read) (region_chunks (PageStart vaddr) fin) pm)"

definition UpdatePageWatchersForRegion ::
    "bool \<Rightarrow> (nat \<Rightarrow> nat \<Rightarrow> mode \<Rightarrow> bool) \<Rightarrow> bool \<Rightarrow> bool \<Rightarrow> nat \<Rightarrow> bit_words \<Rightarrow> page_manager \<Rightarrow>
     page_manager outcome" where
  "UpdatePageWatchersForRegion hot pok track is_read base_addr sel pm =
     (if base_addr mod TRACKER_REGION_SIZE \<noteq> 0 \<or> base_addr \<ge> TRACKER_ADDRESS_SIZE \<or>
         TRACKER_REGION_SIZE > TRACKER_ADDRESS_SIZE - base_addr then Exit
      else
        let start_range = BitArray_FirstRange sel; end_range = BitArray_LastRange sel in
        if fst start_range = TRACKER_REGION_PAGES then Exit
        else
          let first_page = fst start_range; last_page = snd end_range in
          if snd start_range = snd end_range then
            UpdatePageWatchers hot pok track is_read (base_addr + first_page * TRACKER_PAGE_SIZE)
              ((last_page - first_page) * TRACKER_PAGE_SIZE) pm
          else
            let (pm, region) =
              (if track then map_prod id Some (PM_GetOrCreateRegion pm base_addr)
               else (pm, PM_FindRegion pm base_addr)) in
            case region of
              None \<Rightarrow> Exit
            | Some pages \<Rightarrow>
                obind (UpdateRegionWatchers hot pok track is_read (Some sel) base_addr
                    first_page last_page pages (pm_host pm))
                  (\<lambda>(pages, host).
                    Ret (set_region (base_addr div TRACKER_REGION_SIZE) pages pm\<lparr>pm_host := host\<rparr>)))"

section \<open>Queries and faults\<close>

abbreviation page_index :: "nat \<Rightarrow> nat" where
  "page_index vaddr \<equiv> vaddr mod TRACKER_REGION_SIZE div TRACKER_PAGE_SIZE"

definition WatcherState :: "bool \<Rightarrow> page_manager \<Rightarrow> nat \<Rightarrow> u32" where
  "WatcherState hot pm vaddr =
     (case PM_FindRegion pm vaddr of
        None \<Rightarrow> 0
      | Some pages \<Rightarrow>
          let state = pages ! page_index vaddr in
          ucast (write_watchers state) OR push_bit 8 (ucast (access_watchers state)) OR
            push_bit 16 (Perms hot state) OR push_bit 24 (if managed state then 1 else 0))"

definition RestoreProtection ::
    "bool \<Rightarrow> (nat \<Rightarrow> nat \<Rightarrow> mode \<Rightarrow> bool) \<Rightarrow> nat \<Rightarrow> page_manager \<Rightarrow> (page_manager \<times> bool) outcome" where
  "RestoreProtection hot pok vaddr pm =
     (case PM_FindRegion pm vaddr of
        None \<Rightarrow> Ret (pm, False)
      | Some pages \<Rightarrow>
          let state = pages ! page_index vaddr in
          if \<not> managed state then Ret (pm, False)
          else
            obind (Protect pok (PageStart vaddr) TRACKER_PAGE_SIZE (Perms hot state) (pm_host pm))
              (\<lambda>host. Ret (pm\<lparr>pm_host := host\<rparr>, True)))"

definition NoteFault ::
    "bool \<Rightarrow> (nat \<Rightarrow> nat \<Rightarrow> mode \<Rightarrow> bool) \<Rightarrow> nat \<Rightarrow> page_manager \<Rightarrow> (page_manager \<times> bool) outcome" where
  "NoteFault hot pok vaddr pm =
     (case PM_FindRegion pm vaddr of
        None \<Rightarrow> Ret (pm, False)
      | Some pages \<Rightarrow>
          let state = pages ! page_index vaddr in
          if \<not> managed state then Ret (pm, False)
          else
            let state = (if faults state \<noteq> 255 then state\<lparr>faults := faults state + 1\<rparr> else state);
                pm = set_region (vaddr div TRACKER_REGION_SIZE) (pages[page_index vaddr := state]) pm in
            obind
              (if hot \<and> faults state = 3
               then obind (Protect pok (PageStart vaddr) TRACKER_PAGE_SIZE READ_WRITE_PROTECTION
                     (pm_host pm)) (\<lambda>host. Ret (pm\<lparr>pm_host := host\<rparr>))
               else Ret pm)
              (\<lambda>pm. Ret (pm, hot \<and> faults state \<ge> 3)))"

definition hot_page :: "page_manager \<Rightarrow> nat \<Rightarrow> bool" where
  "hot_page pm page =
     (case PM_FindRegion pm page of
        None \<Rightarrow> False
      | Some pages \<Rightarrow> faults (pages ! page_index page) \<ge> 3)"

definition page_addresses :: "nat \<Rightarrow> nat \<Rightarrow> nat list" where
  "page_addresses start fin =
     map (\<lambda>k. start + TRACKER_PAGE_SIZE * k) [0..<(fin - start + 4095) div TRACKER_PAGE_SIZE]"

definition HasHotPage :: "bool \<Rightarrow> page_manager \<Rightarrow> nat \<Rightarrow> nat \<Rightarrow> bool outcome" where
  "HasHotPage hot pm vaddr sz =
     (if \<not> hot then Ret False
      else if vaddr = 0 \<or> sz = 0 \<or> vaddr \<ge> TRACKER_ADDRESS_SIZE \<or> sz > TRACKER_ADDRESS_SIZE - vaddr
      then Ret False
      else
        obind (PageEnd vaddr sz) (\<lambda>fin.
          Ret (list_ex (hot_page pm) (page_addresses (PageStart vaddr) fin))))"

text \<open>The destructor: no page may be watched any more.\<close>

definition PageManager_destroy :: "page_manager \<Rightarrow> unit outcome" where
  "PageManager_destroy pm =
     (if list_ex (\<lambda>index. case pm_regions pm index of
            None \<Rightarrow> False
          | Some pages \<Rightarrow> list_ex (\<lambda>p. write_watchers p \<noteq> 0 \<or> access_watchers p \<noteq> 0) pages)
         (pm_storage pm)
      then Exit else Ret ())"

section \<open>What an update does to one page\<close>

text \<open>The effect of a selected page of an update, and when the counters allow it.\<close>

definition page_upd :: "bool \<Rightarrow> bool \<Rightarrow> page_state \<Rightarrow> page_state" where
  "page_upd track is_read p =
     (if track then
        if is_read then p\<lparr>managed := True, access_watchers := access_watchers p + 1\<rparr>
        else p\<lparr>managed := True, write_watchers := write_watchers p + 1\<rparr>
      else
        if is_read then p\<lparr>access_watchers := access_watchers p - 1\<rparr>
        else p\<lparr>write_watchers := write_watchers p - 1\<rparr>)"

definition delta_ok :: "bool \<Rightarrow> bool \<Rightarrow> page_state \<Rightarrow> bool" where
  "delta_ok track is_read p \<longleftrightarrow>
     (if is_read then (access_watchers p = 0) = track
      else if track then write_watchers p \<noteq> 0x7f else write_watchers p \<noteq> 0)"

text \<open>The protection a page's counters ask for.\<close>

definition page_mode :: "bool \<Rightarrow> page_state \<Rightarrow> mode" where
  "page_mode hot p =
     (if hot \<and> faults p \<ge> 3 then Mode_ReadWrite
      else if access_watchers p \<noteq> 0 then Mode_NoAccess
      else if write_watchers p \<noteq> 0 then Mode_Read else Mode_ReadWrite)"

lemma ToMemoryMode_Perms [simp]: "ToMemoryMode (Perms hot p) = Ret (page_mode hot p)"
  by (simp add: ToMemoryMode_def Perms_def page_mode_def)

lemma Perms_eq_iff [simp]: "Perms hot p = Perms hot q \<longleftrightarrow> page_mode hot p = page_mode hot q"
  by (simp add: Perms_def page_mode_def)

lemma Perms_managed [simp]:
  "Perms hot (p\<lparr>managed := b\<rparr>) = Perms hot p" "page_mode hot (p\<lparr>managed := b\<rparr>) = page_mode hot p"
  by (simp_all add: Perms_def page_mode_def)

lemma word1_cases: "w = 0 \<or> w = (1 :: 1 word)"
proof -
  have "unat w < 2" using unsigned_less [of w, where 'a = nat] by simp
  then have "unat w = 0 \<or> unat w = 1" by linarith
  then show ?thesis by (metis unat_0 unat_1 unat_eq_zero word_unat_eq_iff)
qed

lemma add7_nonzero: "(w :: 7 word) \<noteq> 0x7f \<Longrightarrow> w + 1 \<noteq> 0"
proof
  assume w: "w \<noteq> 0x7f" and z: "w + 1 = 0"
  then have "w = - 1" by (simp add: eq_neg_iff_add_eq_0)
  also have "(- 1 :: 7 word) = 0x7f" by simp
  finally show False using w by simp
qed

lemma ucast_count [simp]:
  "(ucast (w :: 7 word) :: u32) = 0 \<longleftrightarrow> w = 0" "(ucast (w :: 7 word) :: u32) = 1 \<longleftrightarrow> w = 1"
  "(ucast (v :: 1 word) :: u32) = 0 \<longleftrightarrow> v = 0" "(ucast (v :: 1 word) :: u32) = 1 \<longleftrightarrow> v = 1"
proof -
  have a: "unat (ucast (w :: 7 word) :: u32) = unat w"
    using unsigned_less [of w, where 'a = nat]
    by (simp add: unsigned_ucast_eq take_bit_nat_eq_self)
  have b: "unat (ucast (v :: 1 word) :: u32) = unat v"
    using unsigned_less [of v, where 'a = nat]
    by (simp add: unsigned_ucast_eq take_bit_nat_eq_self)
  show "(ucast (w :: 7 word) :: u32) = 0 \<longleftrightarrow> w = 0" using a by (metis unat_eq_zero)
  show "(ucast (w :: 7 word) :: u32) = 1 \<longleftrightarrow> w = 1" using a by (metis unat_1 word_unat_eq_iff)
  show "(ucast (v :: 1 word) :: u32) = 0 \<longleftrightarrow> v = 0" using b by (metis unat_eq_zero)
  show "(ucast (v :: 1 word) :: u32) = 1 \<longleftrightarrow> v = 1" using b by (metis unat_1 word_unat_eq_iff)
qed

text \<open>One selected page: the code's two steps together, and the edge test is exact.\<close>

lemma AddDelta_selected:
  "obind (AddDelta (if track then 1 else -1) is_read (if track then p\<lparr>managed := True\<rparr> else p)) f =
   (if delta_ok track is_read p
    then f (page_upd track is_read p,
      if is_read then ucast (access_watchers (page_upd track is_read p))
      else ucast (write_watchers (page_upd track is_read p)))
    else Exit)"
  using word1_cases [of "access_watchers p"]
  by (auto simp: AddDelta_def delta_ok_def page_upd_def Let_def)

lemma AddDelta_unselected:
  "AddDelta 0 is_read p = Ret (p, if is_read then ucast (access_watchers p) else ucast (write_watchers p))"
  by (simp add: AddDelta_def)

lemma mode_change_is_edge:
  assumes "delta_ok track is_read p" "page_mode hot p \<noteq> page_mode hot (page_upd track is_read p)"
  shows "if track
    then (if is_read then access_watchers (page_upd track is_read p) = 1
          else write_watchers (page_upd track is_read p) = 1)
    else (if is_read then access_watchers (page_upd track is_read p) = 0
          else write_watchers (page_upd track is_read p) = 0)"
  using assms word1_cases [of "access_watchers p"] add7_nonzero [of "write_watchers p"]
  by (auto simp: delta_ok_def page_upd_def page_mode_def split: if_splits)

section \<open>The loop over the pages of a region\<close>

lemma watch_step_unselected:
  assumes "j < length (wl_pages st)" "watch_select sel j = Ret False"
  shows "watch_step hot pok track is_read sel base j st =
    advance_perms pok base (Perms hot (wl_pages st ! j)) st"
proof -
  have eq: "(if track then p\<lparr>managed := managed p \<or> False\<rparr> else p) = p" for p :: page_state
    by simp
  have "st\<lparr>wl_pages := (wl_pages st)[j := wl_pages st ! j]\<rparr> = st" by simp
  then show ?thesis
    using assms by (cases "advance_perms pok base (Perms hot (wl_pages st ! j)) st")
      (simp_all add: watch_step_def eq AddDelta_unselected Let_def)
qed

lemma watch_step_selected:
  assumes j: "j < length (wl_pages st)" and sel: "watch_select sel j = Ret True"
    and p: "p = wl_pages st ! j" and q: "q = page_upd track is_read p"
  shows "watch_step hot pok track is_read sel base j st =
    (if delta_ok track is_read p then
       obind (advance_perms pok base (Perms hot q) (st\<lparr>wl_pages := (wl_pages st)[j := q]\<rparr>))
         (\<lambda>st. Ret (if page_mode hot p \<noteq> page_mode hot q then mark_changed j st else st))
     else Exit)"
proof -
  have pm: "Perms hot (if track then p\<lparr>managed := True\<rparr> else p) = Perms hot p" by simp
  have main: "watch_step hot pok track is_read sel base j st =
    obind (AddDelta (if track then 1 else -1) is_read (if track then p\<lparr>managed := True\<rparr> else p))
      (\<lambda>(page, new_count).
        obind (advance_perms pok base (Perms hot page) (st\<lparr>wl_pages := (wl_pages st)[j := page]\<rparr>))
          (\<lambda>st'. Ret (if (track \<and> new_count = 1 \<or> \<not> track \<and> new_count = 0) \<and>
              Perms hot p \<noteq> Perms hot page then mark_changed j st' else st')))"
    using j sel unfolding watch_step_def p by (simp add: Let_def if_distrib pm [unfolded p] cong: if_cong)
  show ?thesis
  proof (cases "delta_ok track is_read p")
    case False
    then show ?thesis unfolding main AddDelta_selected by simp
  next
    case True
    note edge = mode_change_is_edge [OF True, of hot, folded q]
    have cond: "((track \<and> n = 1 \<or> \<not> track \<and> n = 0) \<and> Perms hot p \<noteq> Perms hot q) =
        (page_mode hot p \<noteq> page_mode hot q)"
      if "n = (if is_read then ucast (access_watchers q) else ucast (write_watchers q) :: u32)" for n
      using edge that by (cases track; cases is_read) auto
    show ?thesis
      unfolding main AddDelta_selected q [symmetric] by (simp only: True if_True prod.case cond)
  qed
qed

text \<open>
  The loop keeps a pending range that starts at a changed page and ends at the last changed
  page; all its pages, and the pages up to the current one, ask for \<open>wl_perms\<close>. Pages
  behind the current one have either the protection they ask for, or were never changed,
  or are pending.
\<close>

definition pending :: "watch_loop \<Rightarrow> nat \<Rightarrow> bool" where
  "pending st j \<longleftrightarrow> wl_begin st \<le> j \<and> j < wl_begin st + wl_bytes st div 4096"

definition settled ::
    "bool \<Rightarrow> (nat \<Rightarrow> mode) \<Rightarrow> page_state \<Rightarrow> page_state \<Rightarrow> (nat \<Rightarrow> mode) \<Rightarrow> nat \<Rightarrow> bool" where
  "settled hot host0 p q host n \<longleftrightarrow>
     host n = page_mode hot q \<or> host n = host0 n \<and> page_mode hot q = page_mode hot p"

definition pend_inv ::
    "bool \<Rightarrow> nat \<Rightarrow> nat \<Rightarrow> (nat \<Rightarrow> page_state) \<Rightarrow> (nat \<Rightarrow> page_state) \<Rightarrow> (nat \<Rightarrow> mode) \<Rightarrow>
     nat \<Rightarrow> nat \<Rightarrow> watch_loop \<Rightarrow> bool" where
  "pend_inv hot b a p q host0 i pi st \<longleftrightarrow>
     (wl_bytes st \<noteq> 0 \<longrightarrow>
        (\<exists>k. 0 < k \<and> wl_bytes st = 4096 * k \<and> a \<le> wl_begin st \<and> wl_begin st + k \<le> i) \<and>
        wl_potential st = 4096 * (pi - wl_begin st) \<and>
        (\<forall>j. wl_begin st \<le> j \<and> j < pi \<longrightarrow> Perms hot (q j) = wl_perms st)) \<and>
     (\<forall>n. n < b + a \<or> b + i \<le> n \<longrightarrow> wl_host st n = host0 n) \<and>
     (\<forall>j. a \<le> j \<and> j < i \<longrightarrow> pending st j \<or> settled hot host0 (p j) (q j) (wl_host st) (b + j))"

lemma pend_invD:
  assumes "pend_inv hot b a p q host0 i pi st"
  shows "wl_bytes st \<noteq> 0 \<Longrightarrow>
      \<exists>k. 0 < k \<and> wl_bytes st = 4096 * k \<and> a \<le> wl_begin st \<and> wl_begin st + k \<le> i"
    "wl_bytes st \<noteq> 0 \<Longrightarrow> wl_potential st = 4096 * (pi - wl_begin st)"
    "wl_bytes st \<noteq> 0 \<Longrightarrow> wl_begin st \<le> j \<Longrightarrow> j < pi \<Longrightarrow> Perms hot (q j) = wl_perms st"
    "n < b + a \<or> b + i \<le> n \<Longrightarrow> wl_host st n = host0 n"
    "a \<le> j \<Longrightarrow> j < i \<Longrightarrow> pending st j \<or> settled hot host0 (p j) (q j) (wl_host st) (b + j)"
  using assms unfolding pend_inv_def by blast+

lemma release_pending_props:
  assumes inv: "pend_inv hot b a p q host0 i i st"
  shows "owp (release_pending pok (4096 * b) st)
    (\<lambda>st'. pend_inv hot b a p q host0 i i' st' \<and> wl_bytes st' = 0 \<and>
       wl_pages st' = wl_pages st \<and> wl_perms st' = wl_perms st)
    (\<exists>v s m. \<not> pok v s m)"
proof (cases "wl_bytes st = 0")
  case True
  then have "pend_inv hot b a p q host0 i i' st" using inv by (simp add: pend_inv_def)
  with True show ?thesis by (simp add: release_pending_def)
next
  case False
  from pend_invD(1) [OF inv this] obtain k where
    k: "0 < k" "wl_bytes st = 4096 * k" "a \<le> wl_begin st" "wl_begin st + k \<le> i" by blast
  have perms: "Perms hot (q j) = wl_perms st" if "wl_begin st \<le> j" "j < i" for j
    using pend_invD(3) [OF inv False that] .
  then have first: "Perms hot (q (wl_begin st)) = wl_perms st" using k by simp
  define m where "m = page_mode hot (q (wl_begin st))"
  have tm: "ToMemoryMode (wl_perms st) = Ret m" unfolding first [symmetric] m_def by simp
  define host where "host = (\<lambda>n. if 4096 * b + wl_begin st * 4096 \<le> 4096 * n \<and>
    4096 * n < 4096 * b + wl_begin st * 4096 + wl_bytes st then m else wl_host st n)"
  have host: "host n = (if b + wl_begin st \<le> n \<and> n < b + wl_begin st + k then m else wl_host st n)" for n
    unfolding host_def k(2) by auto
  have "pend_inv hot b a p q host0 i i' (st\<lparr>wl_host := host, wl_bytes := 0, wl_potential := 0\<rparr>)"
  proof -
    have "settled hot host0 (p j) (q j) host (b + j)" if j: "a \<le> j" "j < i" for j
    proof (cases "pending st j")
      case True
      then have "wl_begin st \<le> j" "j < wl_begin st + k" by (auto simp: pending_def k(2))
      moreover from this k(4) have "page_mode hot (q j) = m"
        using perms [of j] first unfolding m_def by (metis Perms_eq_iff order_less_le_trans)
      ultimately show ?thesis by (simp add: settled_def host)
    next
      case np: False
      then have "host (b + j) = wl_host st (b + j)" unfolding host by (auto simp: pending_def k(2))
      with pend_invD(5) [OF inv j] np show ?thesis by (simp add: settled_def)
    qed
    moreover have "host n = host0 n" if "n < b + a \<or> b + i \<le> n" for n
      using pend_invD(4) [OF inv that] that k(3,4) unfolding host by auto
    ultimately show ?thesis by (simp add: pend_inv_def)
  qed
  moreover have "release_pending pok (4096 * b) st =
      (if pok (4096 * b + wl_begin st * 4096) (wl_bytes st) m
       then Ret (st\<lparr>wl_host := host, wl_bytes := 0, wl_potential := 0\<rparr>) else Exit)"
    using False by (simp add: release_pending_def Protect_def tm host_def)
  ultimately show ?thesis by (simp only: split: if_split) auto
qed

lemma advance_perms_props:
  assumes inv: "pend_inv hot b a p q host0 i i st"
  shows "owp (advance_perms pok (4096 * b) (Perms hot (q i)) st)
    (\<lambda>st'. pend_inv hot b a p q host0 i (Suc i) st' \<and>
       wl_pages st' = wl_pages st \<and> wl_perms st' = Perms hot (q i))
    (\<exists>v s m. \<not> pok v s m)"
proof (cases "Perms hot (q i) = wl_perms st")
  case False
  then show ?thesis
    unfolding advance_perms_def
    by (simp del: Perms_eq_iff)
      (rule owp_mono [OF release_pending_props [OF inv, of pok "Suc i"]], auto simp: pend_inv_def pending_def)
next
  case True
  show ?thesis
  proof (cases "wl_bytes st = 0")
    case b0: True
    then show ?thesis using inv True by (simp add: advance_perms_def pend_inv_def)
  next
    case b1: False
    from pend_invD(1) [OF inv b1] obtain k where
      k: "0 < k" "wl_bytes st = 4096 * k" "a \<le> wl_begin st" "wl_begin st + k \<le> i" by blast
    have "wl_potential st + 4096 = 4096 * (Suc i - wl_begin st)"
      using pend_invD(2) [OF inv b1] k(4) by (simp add: Suc_diff_le)
    moreover have "Perms hot (q j) = wl_perms st" if "wl_begin st \<le> j" "j < Suc i" for j
      using pend_invD(3) [OF inv b1 that(1)] True that(2) by (metis less_antisym)
    moreover have "wl_begin st \<le> i" using k(4) by simp
    ultimately have "pend_inv hot b a p q host0 i (Suc i) (st\<lparr>wl_potential := wl_potential st + 4096\<rparr>)"
      using inv unfolding pend_inv_def by (simp add: pending_def Suc_diff_le)
    then show ?thesis using True b1 by (simp add: advance_perms_def del: Perms_eq_iff)
  qed
qed

text \<open>The end of an iteration: a changed page opens or extends the pending range.\<close>

lemma pend_inv_unchanged:
  assumes "pend_inv hot b a p q host0 i (Suc i) st" "page_mode hot (p i) = page_mode hot (q i)"
  shows "pend_inv hot b a p q host0 (Suc i) (Suc i) st"
  unfolding pend_inv_def
proof (intro conjI impI allI)
  note D = pend_invD [OF assms(1)]
  show "\<exists>k. 0 < k \<and> wl_bytes st = 4096 * k \<and> a \<le> wl_begin st \<and> wl_begin st + k \<le> Suc i"
    if "wl_bytes st \<noteq> 0" using D(1) [OF that] le_SucI by blast
  show "wl_potential st = 4096 * (Suc i - wl_begin st)" if "wl_bytes st \<noteq> 0" using D(2) [OF that] .
  show "Perms hot (q j) = wl_perms st" if "wl_bytes st \<noteq> 0" "wl_begin st \<le> j \<and> j < Suc i" for j
    using D(3) that by blast
  show "wl_host st n = host0 n" if "n < b + a \<or> b + Suc i \<le> n" for n
    using D(4) that by auto
  show "pending st j \<or> settled hot host0 (p j) (q j) (wl_host st) (b + j)" if "a \<le> j \<and> j < Suc i" for j
  proof (cases "j = i")
    case True
    then have "wl_host st (b + j) = host0 (b + j)" using D(4) by simp
    then show ?thesis using assms(2) True by (simp add: settled_def)
  next
    case False
    then show ?thesis using D(5) that by simp
  qed
qed

lemma pend_inv_changed:
  assumes inv: "pend_inv hot b a p q host0 i (Suc i) st" and perms: "wl_perms st = Perms hot (q i)"
    and "a \<le> i"
  shows "pend_inv hot b a p q host0 (Suc i) (Suc i) (mark_changed i st)"
proof (cases "wl_bytes st = 0")
  case True
  then have m: "mark_changed i st = st\<lparr>wl_begin := i, wl_potential := 4096, wl_bytes := 4096\<rparr>"
    by (simp add: mark_changed_def)
  note D = pend_invD [OF inv]
  have np: "\<not> pending st j" for j using True by (simp add: pending_def)
  show ?thesis
    unfolding pend_inv_def m
  proof (intro conjI impI allI)
    show "\<exists>k. 0 < k \<and> wl_bytes (st\<lparr>wl_begin := i, wl_potential := 4096, wl_bytes := 4096\<rparr>) = 4096 * k \<and>
        a \<le> wl_begin (st\<lparr>wl_begin := i, wl_potential := 4096, wl_bytes := 4096\<rparr>) \<and>
        wl_begin (st\<lparr>wl_begin := i, wl_potential := 4096, wl_bytes := 4096\<rparr>) + k \<le> Suc i"
      using \<open>a \<le> i\<close> by (intro exI [of _ 1]) simp
  next
    fix j
    assume j: "a \<le> j \<and> j < Suc i"
    show "pending (st\<lparr>wl_begin := i, wl_potential := 4096, wl_bytes := 4096\<rparr>) j \<or>
        settled hot host0 (p j) (q j) (wl_host (st\<lparr>wl_begin := i, wl_potential := 4096, wl_bytes := 4096\<rparr>))
          (b + j)"
      using D(5) [of j] np j by (cases "j = i") (auto simp: pending_def)
  qed (use perms D(4) in \<open>auto dest: le_less_Suc_eq simp: le_less_Suc_eq\<close>)
next
  case False
  then have m: "mark_changed i st = st\<lparr>wl_bytes := wl_potential st\<rparr>"
    by (simp add: mark_changed_def)
  note D = pend_invD [OF inv]
  obtain k where k: "0 < k" "wl_bytes st = 4096 * k" "a \<le> wl_begin st" "wl_begin st + k \<le> i"
    using D(1) [OF False] by blast
  have pot: "wl_potential st = 4096 * (Suc i - wl_begin st)" using D(2) [OF False] .
  have p: "pending (st\<lparr>wl_bytes := wl_potential st\<rparr>) j \<longleftrightarrow> wl_begin st \<le> j \<and> j < Suc i" for j
    using k(4) by (auto simp: pending_def pot)
  show ?thesis
    unfolding pend_inv_def m
  proof (intro conjI impI allI)
    show "\<exists>l. 0 < l \<and> wl_bytes (st\<lparr>wl_bytes := wl_potential st\<rparr>) = 4096 * l \<and>
        a \<le> wl_begin (st\<lparr>wl_bytes := wl_potential st\<rparr>) \<and>
        wl_begin (st\<lparr>wl_bytes := wl_potential st\<rparr>) + l \<le> Suc i"
      using k pot by (intro exI [of _ "Suc i - wl_begin st"]) simp
  next
    fix j
    assume j: "a \<le> j \<and> j < Suc i"
    show "pending (st\<lparr>wl_bytes := wl_potential st\<rparr>) j \<or>
        settled hot host0 (p j) (q j) (wl_host (st\<lparr>wl_bytes := wl_potential st\<rparr>)) (b + j)"
    proof (cases "wl_begin st \<le> j")
      case False
      with j k have "j < i" "\<not> pending st j" by (auto simp: pending_def)
      with D(5) [of j] j show ?thesis by simp
    qed (use p j in simp)
  qed (use pot D(3) [OF False] D(4) in auto)
qed

definition selected :: "bit_words option \<Rightarrow> nat \<Rightarrow> bool" where
  "selected sel j \<longleftrightarrow> (case sel of None \<Rightarrow> True | Some m \<Rightarrow> ba_bit m j)"

definition sel_ok :: "bit_words option \<Rightarrow> nat \<Rightarrow> bool" where
  "sel_ok sel l \<longleftrightarrow> (case sel of None \<Rightarrow> True | Some m \<Rightarrow> l \<le> BitArray_N m)"

definition watch_upd :: "bool \<Rightarrow> bool \<Rightarrow> bool \<Rightarrow> page_state \<Rightarrow> page_state" where
  "watch_upd track is_read update p = (if update then page_upd track is_read p else p)"

lemma watch_select_ok: "sel_ok sel l \<Longrightarrow> j < l \<Longrightarrow> watch_select sel j = Ret (selected sel j)"
  by (auto simp: sel_ok_def watch_select_def selected_def BitArray_Get_bit split: option.splits)

definition loop_inv ::
    "bool \<Rightarrow> bool \<Rightarrow> bool \<Rightarrow> bit_words option \<Rightarrow> nat \<Rightarrow> nat \<Rightarrow> page_state list \<Rightarrow> (nat \<Rightarrow> mode) \<Rightarrow>
     nat \<Rightarrow> watch_loop \<Rightarrow> bool" where
  "loop_inv hot track is_read sel b a pages0 host0 i st \<longleftrightarrow>
     length (wl_pages st) = length pages0 \<and>
     (\<forall>j < length pages0. wl_pages st ! j =
        watch_upd track is_read (a \<le> j \<and> j < i \<and> selected sel j) (pages0 ! j)) \<and>
     (\<forall>j. a \<le> j \<and> j < i \<and> selected sel j \<longrightarrow> delta_ok track is_read (pages0 ! j)) \<and>
     pend_inv hot b a (\<lambda>j. pages0 ! j) (\<lambda>j. watch_upd track is_read (selected sel j) (pages0 ! j))
       host0 i i st"

lemma loop_inv_step:
  assumes inv: "loop_inv hot track is_read sel b a pages0 host0 i st"
    and i: "a \<le> i" "i < length pages0" and sel: "watch_select sel i = Ret (selected sel i)"
  shows "owp (watch_step hot pok track is_read sel (4096 * b) i st)
    (loop_inv hot track is_read sel b a pages0 host0 (Suc i))
    ((\<exists>v s m. \<not> pok v s m) \<or> selected sel i \<and> \<not> delta_ok track is_read (pages0 ! i))"
proof -
  let ?q = "\<lambda>j. watch_upd track is_read (selected sel j) (pages0 ! j)"
  have len: "length (wl_pages st) = length pages0"
    and cont: "\<And>j. j < length pages0 \<Longrightarrow> wl_pages st ! j =
        watch_upd track is_read (a \<le> j \<and> j < i \<and> selected sel j) (pages0 ! j)"
    and dok: "\<And>j. a \<le> j \<Longrightarrow> j < i \<Longrightarrow> selected sel j \<Longrightarrow> delta_ok track is_read (pages0 ! j)"
    and pend: "pend_inv hot b a (\<lambda>j. pages0 ! j) ?q host0 i i st"
    using inv unfolding loop_inv_def by auto
  have here: "wl_pages st ! i = pages0 ! i" using cont [OF i(2)] by (simp add: watch_upd_def)
  have il: "i < length (wl_pages st)" using i len by simp
  show ?thesis
  proof (cases "selected sel i")
    case False
    have cont': "wl_pages st ! j = watch_upd track is_read (a \<le> j \<and> j < Suc i \<and> selected sel j) (pages0 ! j)"
      if "j < length pages0" for j
      using cont [OF that] False by (cases "j = i") (auto simp: less_Suc_eq)
    have eq: "?q i = pages0 ! i" using False by (simp add: watch_upd_def)
    have "watch_step hot pok track is_read sel (4096 * b) i st =
        advance_perms pok (4096 * b) (Perms hot (?q i)) st"
      using watch_step_unselected [OF il] sel False here eq by simp
    moreover have "owp (advance_perms pok (4096 * b) (Perms hot (?q i)) st)
        (loop_inv hot track is_read sel b a pages0 host0 (Suc i)) (\<exists>v s m. \<not> pok v s m)"
    proof (rule owp_mono [OF advance_perms_props [OF pend]])
      fix st' assume st': "pend_inv hot b a (\<lambda>j. pages0 ! j) ?q host0 i (Suc i) st' \<and>
          wl_pages st' = wl_pages st \<and> wl_perms st' = Perms hot (?q i)"
      then have "pend_inv hot b a (\<lambda>j. pages0 ! j) ?q host0 (Suc i) (Suc i) st'"
        using pend_inv_unchanged [of hot b a "\<lambda>j. pages0 ! j" ?q] eq by simp
      then show "loop_inv hot track is_read sel b a pages0 host0 (Suc i) st'"
        using st' len cont' dok False unfolding loop_inv_def by (auto simp: less_Suc_eq)
    qed simp
    ultimately show ?thesis by (auto elim: owp_mono)
  next
    case True
    then have q: "?q i = page_upd track is_read (pages0 ! i)" by (simp add: watch_upd_def)
    let ?st = "st\<lparr>wl_pages := (wl_pages st)[i := ?q i]\<rparr>"
    have step: "watch_step hot pok track is_read sel (4096 * b) i st =
        (if delta_ok track is_read (pages0 ! i) then
           obind (advance_perms pok (4096 * b) (Perms hot (?q i)) ?st)
             (\<lambda>st. Ret (if page_mode hot (pages0 ! i) \<noteq> page_mode hot (?q i) then mark_changed i st else st))
         else Exit)"
      using watch_step_selected [OF il _ here [symmetric] q] sel True by simp
    have pend': "pend_inv hot b a (\<lambda>j. pages0 ! j) ?q host0 i i ?st"
      using pend by (simp add: pend_inv_def pending_def)
    show ?thesis
    proof (cases "delta_ok track is_read (pages0 ! i)")
      case False
      with step True show ?thesis by simp
    next
      case ok: True
      have cont': "(wl_pages st)[i := ?q i] ! j =
          watch_upd track is_read (a \<le> j \<and> j < Suc i \<and> selected sel j) (pages0 ! j)"
        if "j < length pages0" for j
        using cont [OF that] True i(1) len that by (cases "j = i") (auto simp: less_Suc_eq watch_upd_def)
      have "owp (advance_perms pok (4096 * b) (Perms hot (?q i)) ?st)
          (\<lambda>st. loop_inv hot track is_read sel b a pages0 host0 (Suc i)
            (if page_mode hot (pages0 ! i) \<noteq> page_mode hot (?q i) then mark_changed i st else st))
          (\<exists>v s m. \<not> pok v s m)"
      proof (rule owp_mono [OF advance_perms_props [OF pend']])
        fix st' assume st': "pend_inv hot b a (\<lambda>j. pages0 ! j) ?q host0 i (Suc i) st' \<and>
            wl_pages st' = wl_pages ?st \<and> wl_perms st' = Perms hot (?q i)"
        let ?st' = "if page_mode hot (pages0 ! i) \<noteq> page_mode hot (?q i) then mark_changed i st' else st'"
        have "pend_inv hot b a (\<lambda>j. pages0 ! j) ?q host0 (Suc i) (Suc i) ?st'"
          using pend_inv_unchanged [of hot b a "\<lambda>j. pages0 ! j" ?q host0 i st']
            pend_inv_changed [of hot b a "\<lambda>j. pages0 ! j" ?q host0 i st'] st' i(1)
          by (simp only: split: if_split) blast
        moreover have "wl_pages ?st' = (wl_pages st)[i := ?q i]"
          using st' by (simp add: mark_changed_def Let_def)
        ultimately show "loop_inv hot track is_read sel b a pages0 host0 (Suc i) ?st'"
          using len cont' dok ok unfolding loop_inv_def by (simp only: length_list_update) (auto simp: less_Suc_eq)
      qed simp
      then show ?thesis unfolding step using ok by (auto elim: owp_mono)
    qed
  qed
qed

definition region_updated ::
    "bool \<Rightarrow> bool \<Rightarrow> bool \<Rightarrow> bit_words option \<Rightarrow> nat \<Rightarrow> nat \<Rightarrow> nat \<Rightarrow> page_state list \<Rightarrow> (nat \<Rightarrow> mode) \<Rightarrow>
     page_state list \<times> (nat \<Rightarrow> mode) \<Rightarrow> bool" where
  "region_updated hot track is_read sel b a l pages host r \<longleftrightarrow>
     length (fst r) = length pages \<and>
     (\<forall>j < length pages. fst r ! j = watch_upd track is_read (a \<le> j \<and> j < l \<and> selected sel j) (pages ! j)) \<and>
     (\<forall>j. a \<le> j \<and> j < l \<and> selected sel j \<longrightarrow> delta_ok track is_read (pages ! j)) \<and>
     (\<forall>n. n < b + a \<or> b + l \<le> n \<longrightarrow> snd r n = host n) \<and>
     (\<forall>j. a \<le> j \<and> j < l \<longrightarrow> settled hot host (pages ! j) (fst r ! j) (snd r) (b + j))"

definition update_fails ::
    "(nat \<Rightarrow> nat \<Rightarrow> mode \<Rightarrow> bool) \<Rightarrow> bool \<Rightarrow> bool \<Rightarrow> page_state set \<Rightarrow> bool" where
  "update_fails pok track is_read P \<longleftrightarrow>
     (\<exists>v s m. \<not> pok v s m) \<or> (\<exists>p \<in> P. \<not> delta_ok track is_read p)"

lemma UpdateRegionWatchers_props:
  assumes l: "a < l" "l \<le> length pages" and sel: "sel_ok sel l"
  shows "owp (UpdateRegionWatchers hot pok track is_read sel (4096 * b) a l pages host)
    (region_updated hot track is_read sel b a l pages host)
    (update_fails pok track is_read {pages ! j | j. a \<le> j \<and> j < l \<and> selected sel j})"
    (is "owp _ _ ?E")
proof -
  let ?st = "\<lparr>wl_pages = pages, wl_host = host, wl_perms = Perms hot (pages ! a),
    wl_begin = 0, wl_bytes = 0, wl_potential = 0\<rparr>"
  have init: "loop_inv hot track is_read sel b a pages host a ?st"
    by (auto simp: loop_inv_def pend_inv_def watch_upd_def)
  have "owp (ofold (watch_step hot pok track is_read sel (4096 * b)) [a..<l] ?st)
      (loop_inv hot track is_read sel b a pages host l) ?E"
  proof (rule owp_ofold_upt [where I = "loop_inv hot track is_read sel b a pages host", OF init])
    fix i st assume i: "a \<le> i" "i < l" and inv: "loop_inv hot track is_read sel b a pages host i st"
    have "i < length pages" using i(2) l(2) by simp
    from loop_inv_step [OF inv i(1) this watch_select_ok [OF sel i(2)]]
    show "owp (watch_step hot pok track is_read sel (4096 * b) i st)
        (loop_inv hot track is_read sel b a pages host (Suc i)) ?E"
      by (rule owp_mono) (use i in \<open>auto simp: update_fails_def\<close>)
  qed (use l in simp)
  then show ?thesis
    unfolding UpdateRegionWatchers_def
    using l
  proof (simp, elim owp_mono)
    fix st assume inv: "loop_inv hot track is_read sel b a pages host l st"
    then have pend: "pend_inv hot b a (\<lambda>j. pages ! j)
        (\<lambda>j. watch_upd track is_read (selected sel j) (pages ! j)) host l l st"
      by (simp add: loop_inv_def)
    show "owp (release_pending pok (4096 * b) st)
        (\<lambda>x. region_updated hot track is_read sel b a l pages host (wl_pages x, wl_host x)) ?E"
    proof (rule owp_mono [OF release_pending_props [OF pend, of pok l]])
      fix st' assume st': "pend_inv hot b a (\<lambda>j. pages ! j)
          (\<lambda>j. watch_upd track is_read (selected sel j) (pages ! j)) host l l st' \<and>
          wl_bytes st' = 0 \<and> wl_pages st' = wl_pages st \<and> wl_perms st' = wl_perms st"
      have np: "\<not> pending st' j" for j using st' by (simp add: pending_def)
      have p: "wl_pages st' ! j = watch_upd track is_read (a \<le> j \<and> j < l \<and> selected sel j) (pages ! j)"
        if "j < length pages" for j
        using inv st' that by (simp add: loop_inv_def)
      have "settled hot host (pages ! j) (wl_pages st' ! j) (wl_host st') (b + j)" if "a \<le> j \<and> j < l" for j
      proof -
        have "j < length pages" using that l(2) by simp
        from p [OF this] that have
          "wl_pages st' ! j = watch_upd track is_read (selected sel j) (pages ! j)" by simp
        then show ?thesis using pend_invD(5) [OF conjunct1 [OF st'], of j] that np by simp
      qed
      then show "region_updated hot track is_read sel b a l pages host (wl_pages st', wl_host st')"
        using p inv st' pend_invD(4) [OF conjunct1 [OF st']]
        unfolding region_updated_def loop_inv_def by simp
    qed (simp add: update_fails_def)
  qed
qed

section \<open>The pages of the manager\<close>

text \<open>The page with a given number, whichever region holds it.\<close>

definition pm_page :: "page_manager \<Rightarrow> nat \<Rightarrow> page_state" where
  "pm_page pm n =
     (case pm_regions pm (n div 1024) of None \<Rightarrow> PageState_init | Some pages \<Rightarrow> pages ! (n mod 1024))"

definition pm_wf :: "page_manager \<Rightarrow> bool" where
  "pm_wf pm \<longleftrightarrow> (\<forall>i pages. pm_regions pm i = Some pages \<longrightarrow> length pages = 1024) \<and>
     set (pm_storage pm) = dom (pm_regions pm)"

lemma pm_host_irrelevant [simp]:
  "pm_page (pm\<lparr>pm_host := h\<rparr>) n = pm_page pm n" "pm_wf (pm\<lparr>pm_host := h\<rparr>) = pm_wf pm"
  by (simp_all add: pm_page_def pm_wf_def)

text \<open>An update of the pages of \<open>S\<close>.\<close>

definition pm_updated ::
    "bool \<Rightarrow> bool \<Rightarrow> bool \<Rightarrow> nat set \<Rightarrow> page_manager \<Rightarrow> page_manager \<Rightarrow> bool" where
  "pm_updated hot track is_read S pm pm' \<longleftrightarrow>
     pm_wf pm' \<and>
     (\<forall>n. pm_page pm' n = watch_upd track is_read (n \<in> S) (pm_page pm n)) \<and>
     (\<forall>n \<in> S. delta_ok track is_read (pm_page pm n)) \<and>
     (\<forall>n. settled hot (pm_host pm) (pm_page pm n) (pm_page pm' n) (pm_host pm') n)"

lemma settled_trans:
  "settled hot h0 p q h1 n \<Longrightarrow> settled hot h1 q r h2 n \<Longrightarrow> settled hot h0 p r h2 n"
  by (auto simp: settled_def)

lemma settled_refl [simp]: "settled hot h p p h n"
  by (simp add: settled_def)

lemma pm_updated_trans:
  assumes "pm_updated hot track is_read S pm pm1" "pm_updated hot track is_read T pm1 pm2"
    and "S \<inter> T = {}"
  shows "pm_updated hot track is_read (S \<union> T) pm pm2"
proof -
  have p1: "pm_page pm1 n = watch_upd track is_read (n \<in> S) (pm_page pm n)" for n
    using assms(1) by (simp add: pm_updated_def)
  have p2: "pm_page pm2 n = watch_upd track is_read (n \<in> T) (pm_page pm1 n)" for n
    using assms(2) by (simp add: pm_updated_def)
  have "pm_page pm2 n = watch_upd track is_read (n \<in> S \<union> T) (pm_page pm n)" for n
    using p1 [of n] p2 [of n] assms(3) by (auto simp: watch_upd_def)
  moreover have "delta_ok track is_read (pm_page pm n)" if "n \<in> S \<union> T" for n
  proof (cases "n \<in> S")
    case False
    then have "delta_ok track is_read (pm_page pm1 n)" using that assms(2) by (simp add: pm_updated_def)
    with False p1 [of n] show ?thesis by (simp add: watch_upd_def)
  qed (use assms(1) in \<open>simp add: pm_updated_def\<close>)
  ultimately show ?thesis
    using assms settled_trans unfolding pm_updated_def by blast
qed

lemma pm_updated_refl: "pm_wf pm \<Longrightarrow> pm_updated hot track is_read {} pm pm"
  by (simp add: pm_updated_def watch_upd_def)

text \<open>A region that was written back, and a region that is created.\<close>

lemma pm_page_set_region:
  "pm_page (set_region r pages pm\<lparr>pm_host := h\<rparr>) n =
     (if n div 1024 = r then pages ! (n mod 1024) else pm_page pm n)"
  by (simp add: pm_page_def set_region_def)

lemma GetOrCreate_props:
  assumes wf: "pm_wf pm" and g: "PM_GetOrCreateRegion pm v = (pm', pages)"
  shows "pm_wf pm'" "pm_regions pm' (v div 4194304) = Some pages" "pm_page pm' n = pm_page pm n"
    "pm_host pm' = pm_host pm" "length pages = 1024"
  using assms
  by (auto simp: PM_GetOrCreateRegion_def pm_wf_def pm_page_def set_region_def Let_def
      split: option.splits if_splits)

lemma pm_wf_set_region:
  "pm_wf pm \<Longrightarrow> pm_regions pm r = Some pages \<Longrightarrow> length pages' = 1024 \<Longrightarrow>
   pm_wf (set_region r pages' pm\<lparr>pm_host := h\<rparr>)"
  by (auto simp: pm_wf_def set_region_def)

lemma pm_updated_write_back:
  assumes wf: "pm_wf pm" and r: "pm_regions pm r = Some pages"
    and upd: "region_updated hot track is_read sel (1024 * r) a l pages (pm_host pm) (pages', host')"
    and l: "l \<le> 1024"
  shows "pm_updated hot track is_read {1024 * r + j | j. a \<le> j \<and> j < l \<and> selected sel j} pm
    (set_region r pages' pm\<lparr>pm_host := host'\<rparr>)" (is "pm_updated hot track is_read ?S pm ?pm")
proof -
  have len: "length pages = 1024" using wf r by (auto simp: pm_wf_def)
  note u = upd [unfolded region_updated_def fst_conv snd_conv len]
  have here: "pm_page pm n = pages ! (n mod 1024)" if "n div 1024 = r" for n
    using r that by (simp add: pm_page_def)
  have page: "pm_page ?pm n = (if n div 1024 = r then pages' ! (n mod 1024) else pm_page pm n)" for n
    by (rule pm_page_set_region)
  have inS: "n \<in> ?S \<longleftrightarrow> n div 1024 = r \<and> a \<le> n mod 1024 \<and> n mod 1024 < l \<and> selected sel (n mod 1024)" for n
  proof
    assume "n \<in> ?S"
    then obtain j where "n = 1024 * r + j" "a \<le> j" "j < l" "selected sel j" by blast
    then show "n div 1024 = r \<and> a \<le> n mod 1024 \<and> n mod 1024 < l \<and> selected sel (n mod 1024)"
      using l by simp
  next
    assume "n div 1024 = r \<and> a \<le> n mod 1024 \<and> n mod 1024 < l \<and> selected sel (n mod 1024)"
    moreover have "n = 1024 * (n div 1024) + n mod 1024" by simp
    ultimately have "n = 1024 * r + n mod 1024" "a \<le> n mod 1024" "n mod 1024 < l"
      "selected sel (n mod 1024)" by auto
    then show "n \<in> ?S" by blast
  qed
  have pages': "pm_page ?pm n = watch_upd track is_read (n \<in> ?S) (pm_page pm n)" for n
    using u here [of n] unfolding inS page by (auto simp: watch_upd_def)
  have set: "settled hot (pm_host pm) (pm_page pm n) (pm_page ?pm n) (pm_host ?pm) n" for n
  proof (cases "n div 1024 = r \<and> a \<le> n mod 1024 \<and> n mod 1024 < l")
    case True
    then have "settled hot (pm_host pm) (pages ! (n mod 1024)) (pages' ! (n mod 1024)) host'
        (1024 * r + n mod 1024)" using u by blast
    moreover have "1024 * r + n mod 1024 = n" using True by (metis mult_div_mod_eq)
    ultimately show ?thesis using True here [of n] page [of n] by simp
  next
    case False
    have "n < 1024 * r + a \<or> 1024 * r + l \<le> n"
    proof (rule ccontr)
      assume c: "\<not> (n < 1024 * r + a \<or> 1024 * r + l \<le> n)"
      then have "n = 1024 * r + (n - 1024 * r)" "n - 1024 * r < 1024" using l by auto
      then have "n div 1024 = r" "n mod 1024 = n - 1024 * r"
        by (metis div_mult_self4 div_less add_0_right add.commute mult.commute zero_neq_numeral)
          (metis \<open>n = 1024 * r + (n - 1024 * r)\<close> \<open>n - 1024 * r < 1024\<close> mod_mult_self4 mod_less)
      with False c show False by linarith
    qed
    then have "host' n = pm_host pm n" using u by blast
    moreover have "n \<notin> ?S" using False unfolding inS by blast
    then have "pm_page ?pm n = pm_page pm n"
      using pages' [of n] unfolding watch_upd_def by (simp only: if_False)
    ultimately show ?thesis by (simp add: settled_def)
  qed
  have wf': "pm_wf ?pm" using pm_wf_set_region [OF wf r] u by blast
  have ok: "delta_ok track is_read (pm_page pm n)" if "n \<in> ?S" for n
    using that u here [of n] unfolding inS by auto
  show ?thesis unfolding pm_updated_def using wf' pages' ok set by blast
qed

section \<open>Updates of ranges and of regions\<close>

lemma page_split: "j < 1024 \<Longrightarrow> (1024 * r + j) div 1024 = r \<and> (1024 * r + j) mod 1024 = (j :: nat)"
  by simp

lemma delta_ok_init: "\<not> delta_ok False is_read PageState_init"
  by (simp add: delta_ok_def PageState_init_def)

lemma fetch_region_props:
  assumes wf: "pm_wf pm" and v: "v < 1099511627776"
    and f: "(if track then map_prod id Some (PM_GetOrCreateRegion pm v)
             else (pm, PM_FindRegion pm v)) = (pm1, region)"
  shows "case region of
      None \<Rightarrow> \<not> track \<and> pm_regions pm (v div 4194304) = None
    | Some pages \<Rightarrow> pm_wf pm1 \<and> pm_regions pm1 (v div 4194304) = Some pages \<and>
        (\<forall>n. pm_page pm1 n = pm_page pm n) \<and> pm_host pm1 = pm_host pm \<and> length pages = 1024"
proof (cases track)
  case True
  with f obtain pages where g: "PM_GetOrCreateRegion pm v = (pm1, pages)" "region = Some pages"
    by (cases "PM_GetOrCreateRegion pm v") auto
  with GetOrCreate_props [OF wf g(1)] show ?thesis by simp
next
  case False
  with f v have e: "pm1 = pm" "region = pm_regions pm (v div 4194304)"
    by (auto simp: PM_FindRegion_def)
  show ?thesis
  proof (cases region)
    case None
    with False e show ?thesis by simp
  next
    case (Some pages)
    then have "length pages = 1024" using wf e unfolding pm_wf_def by metis
    with Some e wf show ?thesis by simp
  qed
qed

text \<open>The common end of both callers of the loop: fetch the region, run the loop, write back.\<close>

lemma region_update_props:
  assumes wf: "pm_wf pm" and v: "v < 1099511627776" "v div 4194304 = r"
    and f: "(if track then map_prod id Some (PM_GetOrCreateRegion pm v)
             else (pm, PM_FindRegion pm v)) = (pm1, region)"
    and l: "a < l" "l \<le> 1024" and sel: "sel_ok sel l" "\<exists>j. a \<le> j \<and> j < l \<and> selected sel j"
    and S: "S = {1024 * r + j | j. a \<le> j \<and> j < l \<and> selected sel j}"
    and base: "base = 4096 * (1024 * r)"
  shows "owp (case region of
        None \<Rightarrow> Exit
      | Some pages \<Rightarrow>
          obind (UpdateRegionWatchers hot pok track is_read sel base a l pages (pm_host pm1))
            (\<lambda>(pages, host). Ret (set_region r pages pm1\<lparr>pm_host := host\<rparr>)))
    (pm_updated hot track is_read S pm)
    (update_fails pok track is_read (pm_page pm ` S))"
proof -
  note fr = fetch_region_props [OF wf v(1) f, unfolded v(2)]
  have pg: "pm_page pm (1024 * r + j) = (case pm_regions pm r of None \<Rightarrow> PageState_init | Some ps \<Rightarrow> ps ! j)"
    if "j < l" for j
  proof -
    have "j < 1024" using that l(2) by simp
    then show ?thesis using page_split [of j r] by (simp only: pm_page_def)
  qed
  show ?thesis
  proof (cases region)
    case None
    from sel(2) obtain j where j: "a \<le> j" "j < l" "selected sel j" by blast
    have "pm_page pm (1024 * r + j) = PageState_init" using pg [OF j(2)] fr None by simp
    moreover have "1024 * r + j \<in> S" using j S by blast
    ultimately have "\<not> delta_ok track is_read (pm_page pm (1024 * r + j))"
      using fr None delta_ok_init by simp
    then have "update_fails pok track is_read (pm_page pm ` S)"
      using \<open>1024 * r + j \<in> S\<close> unfolding update_fails_def by blast
    with None show ?thesis by simp
  next
    case (Some pages)
    with fr have p1: "pm_wf pm1" "pm_regions pm1 r = Some pages" "\<And>n. pm_page pm1 n = pm_page pm n"
      "pm_host pm1 = pm_host pm" "length pages = 1024" by auto
    have pgs: "{pages ! j | j. a \<le> j \<and> j < l \<and> selected sel j} = pm_page pm ` S"
    proof -
      have "pm_page pm (1024 * r + j) = pages ! j" if "j < l" for j
      proof -
        have "j < 1024" using that l(2) by simp
        then have "pm_page pm1 (1024 * r + j) = pages ! j"
          using p1(2) page_split [of j r] by (simp only: pm_page_def option.case)
        then show ?thesis using p1(3) by simp
      qed
      then have "(\<lambda>j. pm_page pm (1024 * r + j)) ` {j. a \<le> j \<and> j < l \<and> selected sel j} =
          (\<lambda>j. pages ! j) ` {j. a \<le> j \<and> j < l \<and> selected sel j}"
        by (intro image_cong) simp_all
      moreover have "S = (\<lambda>j. 1024 * r + j) ` {j. a \<le> j \<and> j < l \<and> selected sel j}"
        unfolding S by (rule setcompr_eq_image)
      ultimately show ?thesis by (simp only: setcompr_eq_image image_image)
    qed
    have "owp (UpdateRegionWatchers hot pok track is_read sel base a l pages (pm_host pm1))
        (region_updated hot track is_read sel (1024 * r) a l pages (pm_host pm1))
        (update_fails pok track is_read (pm_page pm ` S))"
      using UpdateRegionWatchers_props [OF l(1) _ sel(1), of pages hot pok track is_read "1024 * r"] l(2) p1(5)
      unfolding base pgs by simp
    moreover have "pm_updated hot track is_read S pm (set_region r pages' pm1\<lparr>pm_host := host'\<rparr>)"
      if "region_updated hot track is_read sel (1024 * r) a l pages (pm_host pm1) (pages', host')"
      for pages' host'
    proof -
      have "pm_updated hot track is_read S pm1 (set_region r pages' pm1\<lparr>pm_host := host'\<rparr>)"
        using pm_updated_write_back [OF p1(1,2) that l(2), folded S] .
      then show ?thesis unfolding pm_updated_def p1(3,4) .
    qed
    ultimately show ?thesis using Some by (auto elim: owp_mono)
  qed
qed

lemma region_div: "(v :: nat) div 4194304 = v div 4096 div 1024"
  by (simp add: div_mult2_eq [symmetric])

lemma chunk_of_region:
  fixes v e :: nat
  assumes "v < e" "v mod 4096 = 0" "e mod 4096 = 0" "e \<le> (v div 4194304 + 1) * 4194304"
  defines "r \<equiv> v div 4194304"
  shows "(v - r * 4194304) div 4096 < (e - r * 4194304) div 4096" "(e - r * 4194304) div 4096 \<le> 1024"
    "{1024 * r + j | j. (v - r * 4194304) div 4096 \<le> j \<and> j < (e - r * 4194304) div 4096 \<and> selected None j} =
      {v div 4096..<e div 4096}"
proof -
  obtain x y where xy: "v = 4096 * x" "e = 4096 * y" using assms(2,3) by (metis mod_0_imp_dvd dvdE)
  have r: "r = x div 1024" unfolding r_def xy by (simp add: region_div)
  have x: "1024 * r \<le> x" "x < y" "y \<le> 1024 * r + 1024"
    using assms(1,4) unfolding r [symmetric] r_def [symmetric] xy
    by (simp_all add: r)
  have a: "(v - r * 4194304) div 4096 = x - 1024 * r" "(e - r * 4194304) div 4096 = y - 1024 * r"
  proof -
    have "v - r * 4194304 = 4096 * (x - 1024 * r)" "e - r * 4194304 = 4096 * (y - 1024 * r)"
      unfolding xy by (simp_all add: diff_mult_distrib2)
    then show "(v - r * 4194304) div 4096 = x - 1024 * r" "(e - r * 4194304) div 4096 = y - 1024 * r"
      by simp_all
  qed
  show "(v - r * 4194304) div 4096 < (e - r * 4194304) div 4096" "(e - r * 4194304) div 4096 \<le> 1024"
    unfolding a using x by simp_all
  have "n \<in> {1024 * r + j | j. x - 1024 * r \<le> j \<and> j < y - 1024 * r \<and> selected None j} \<longleftrightarrow> n \<in> {x..<y}" for n
  proof
    assume "n \<in> {x..<y}"
    then have "n = 1024 * r + (n - 1024 * r)" "x - 1024 * r \<le> n - 1024 * r" "n - 1024 * r < y - 1024 * r"
      using x by auto
    then show "n \<in> {1024 * r + j | j. x - 1024 * r \<le> j \<and> j < y - 1024 * r \<and> selected None j}"
      by (auto simp: selected_def)
  qed (use x in auto)
  then show "{1024 * r + j | j. (v - r * 4194304) div 4096 \<le> j \<and> j < (e - r * 4194304) div 4096 \<and> selected None j} =
      {v div 4096..<e div 4096}"
    unfolding a unfolding xy by auto
qed

lemma next_region: "(v :: nat) < (v div 4194304 + 1) * 4194304"
  by (metis add.commute dividend_less_times_div mult.commute mult_Suc_right plus_1_eq_Suc zero_less_numeral)

lemma update_chunk_props:
  assumes wf: "pm_wf pm" and v: "v < e" "v mod 4096 = 0" "e mod 4096 = 0" "e \<le> 1099511627776"
    "e \<le> (v div 4194304 + 1) * 4194304"
  shows "owp (update_chunk hot pok track is_read (v, e) pm)
    (pm_updated hot track is_read {v div 4096..<e div 4096} pm)
    (update_fails pok track is_read (pm_page pm ` {v div 4096..<e div 4096}))"
proof -
  define r where "r = v div 4194304"
  obtain pm1 region where f: "(if track then map_prod id Some (PM_GetOrCreateRegion pm v)
      else (pm, PM_FindRegion pm v)) = (pm1, region)"
    by (cases "if track then map_prod id Some (PM_GetOrCreateRegion pm v) else (pm, PM_FindRegion pm v)")
  note c = chunk_of_region [OF v(1,2,3,5), folded r_def]
  have v': "v < 1099511627776" using v(1,4) by simp
  have "\<exists>j. (v - r * 4194304) div 4096 \<le> j \<and> j < (e - r * 4194304) div 4096 \<and> selected None j"
    using c(1) by (auto simp: selected_def)
  from region_update_props [OF wf v' r_def [symmetric] f c(1,2) _ this c(3) [symmetric], of "r * 4194304" hot pok]
  show ?thesis
    using f unfolding update_chunk_def Let_def prod.case r_def [symmetric] by (simp add: sel_ok_def)
qed

lemma update_fails_union:
  "update_fails pok track is_read (P \<union> Q) \<longleftrightarrow>
   update_fails pok track is_read P \<or> update_fails pok track is_read Q"
  by (auto simp: update_fails_def)

lemma update_fails_later:
  assumes "pm_updated hot track is_read S pm pm1" "S \<inter> T = {}"
  shows "pm_page pm1 ` T = pm_page pm ` T"
proof (rule image_cong [OF refl])
  fix n assume "n \<in> T"
  then have "n \<notin> S" using assms(2) by auto
  then show "pm_page pm1 n = pm_page pm n"
    using assms(1) unfolding pm_updated_def watch_upd_def by simp
qed

lemma region_chunks_props:
  assumes "v mod 4096 = 0" "e mod 4096 = 0" "e \<le> 1099511627776" "pm_wf pm"
  shows "owp (ofold (update_chunk hot pok track is_read) (region_chunks v e) pm)
    (pm_updated hot track is_read {v div 4096..<e div 4096} pm)
    (update_fails pok track is_read (pm_page pm ` {v div 4096..<e div 4096}))"
  using assms
proof (induction v e arbitrary: pm rule: region_chunks.induct)
  case (1 v e)
  show ?case
  proof (cases "v < e")
    case False
    then have "e div 4096 \<le> v div 4096" by (simp add: div_le_mono)
    with False 1 show ?thesis by (simp add: region_chunks.simps pm_updated_refl)
  next
    case True
    define m where "m = min e ((v div 4194304 + 1) * 4194304)"
    have m: "v < m" "m \<le> e" "m mod 4096 = 0" "m \<le> (v div 4194304 + 1) * 4194304" "m \<le> 1099511627776"
    proof -
      have "(v div 4194304 + 1) * 4194304 = 4096 * ((v div 4194304 + 1) * 1024)" by simp
      then have "(v div 4194304 + 1) * 4194304 mod 4096 = 0" by (metis mod_mult_self1_is_0)
      then show "m mod 4096 = 0" using 1(3) by (auto simp: m_def min_def)
      show "v < m" using True next_region [of v] unfolding m_def by (simp only: min_less_iff_conj)
      show "m \<le> e" "m \<le> (v div 4194304 + 1) * 4194304" unfolding m_def by (rule min.cobounded1 min.cobounded2)+
      then show "m \<le> 1099511627776" using 1(4) by (simp only: order_trans)
    qed
    have split: "{v div 4096..<m div 4096} \<union> {m div 4096..<e div 4096} = {v div 4096..<e div 4096}"
      using m(1,2) by (intro ivl_disj_un_two div_le_mono) auto
    have disj: "{v div 4096..<m div 4096} \<inter> {m div 4096..<e div 4096} = {}" by auto
    have chunks: "region_chunks v e = (v, m) # region_chunks m e"
      using True by (subst region_chunks.simps) (simp add: m_def Let_def)
    show ?thesis
      unfolding chunks ofold.simps owp_obind
    proof (rule owp_mono [OF update_chunk_props [OF 1(5) m(1) 1(2) m(3,5,4)]])
      fix pm1
      assume u: "pm_updated hot track is_read {v div 4096..<m div 4096} pm pm1"
      then have "pm_wf pm1" by (simp add: pm_updated_def)
      from 1(1) [OF True m_def m(3) 1(3,4) this]
      show "owp (ofold (update_chunk hot pok track is_read) (region_chunks m e) pm1)
        (pm_updated hot track is_read {v div 4096..<e div 4096} pm)
        (update_fails pok track is_read (pm_page pm ` {v div 4096..<e div 4096}))"
        unfolding update_fails_later [OF u disj]
        by (rule owp_mono)
          (use pm_updated_trans [OF u _ disj] in \<open>auto simp: split [symmetric] update_fails_union image_Un\<close>)
    qed (auto simp: split [symmetric] update_fails_union image_Un)
  qed
qed

text \<open>\<open>UpdatePageWatchers\<close>: exactly the pages that the range touches.\<close>

definition range_pages :: "nat \<Rightarrow> nat \<Rightarrow> nat set" where
  "range_pages vaddr sz = {vaddr div 4096..(vaddr + sz - 1) div 4096}"

definition range_ok :: "nat \<Rightarrow> nat \<Rightarrow> bool" where
  "range_ok vaddr sz \<longleftrightarrow> 0 < vaddr \<and> 0 < sz \<and> vaddr + sz \<le> TRACKER_ADDRESS_SIZE"

lemma PM_ValidateRange_ok: "PM_ValidateRange vaddr sz = (if range_ok vaddr sz then Ret () else Exit)"
  by (auto simp: PM_ValidateRange_def range_ok_def)

lemma PageStart_div: "PageStart v = 4096 * (v div 4096)"
  by (simp add: PageStart_def minus_mod_eq_mult_div)

lemma PageEnd_ok: "PageEnd vaddr sz =
    (if range_ok vaddr sz then Ret (4096 * ((vaddr + sz - 1) div 4096 + 1)) else Exit)"
  by (simp add: PageEnd_def PM_ValidateRange_ok PageStart_div)

lemma UpdatePageWatchers_props:
  assumes wf: "pm_wf pm" and ok: "range_ok vaddr sz"
  shows "owp (UpdatePageWatchers hot pok track is_read vaddr sz pm)
    (pm_updated hot track is_read (range_pages vaddr sz) pm)
    (update_fails pok track is_read (pm_page pm ` range_pages vaddr sz))"
proof -
  have "(vaddr + sz - 1) div 4096 < 268435456"
    using ok by (intro div_less_iff_less_mult [THEN iffD2]) (auto simp: range_ok_def)
  then have e: "4096 * ((vaddr + sz - 1) div 4096 + 1) \<le> 1099511627776" by simp
  have S: "{4096 * (vaddr div 4096) div 4096..<4096 * ((vaddr + sz - 1) div 4096 + 1) div 4096} =
      range_pages vaddr sz"
    unfolding range_pages_def nonzero_mult_div_cancel_left [OF zero_neq_numeral [symmetric]]
    by auto
  show ?thesis
    using region_chunks_props [of "4096 * (vaddr div 4096)", OF _ _ e wf, of hot pok track is_read] ok
    unfolding S by (simp add: UpdatePageWatchers_def PageEnd_ok PageStart_div)
qed

text \<open>\<open>UpdatePageWatchersForRegion\<close>: exactly the pages of the mask.\<close>

definition mask_pages :: "nat \<Rightarrow> bit_words \<Rightarrow> nat set" where
  "mask_pages base_addr sel = {base_addr div 4096 + j | j. ba_bit sel j}"

definition region_base_ok :: "nat \<Rightarrow> bool" where
  "region_base_ok base_addr \<longleftrightarrow> base_addr mod TRACKER_REGION_SIZE = 0 \<and> base_addr < TRACKER_ADDRESS_SIZE"

lemma region_base_fits:
  assumes "region_base_ok base"
  obtains r where "base = 4194304 * r" "base + 4194304 \<le> 1099511627776"
proof -
  from assms obtain r where r: "base = 4194304 * r"
    unfolding region_base_ok_def by (metis mod_0_imp_dvd dvdE)
  moreover have "r < 262144" using assms r unfolding region_base_ok_def by simp
  ultimately show thesis using that [of r] by simp
qed

lemma first_last_ranges:
  assumes N: "BitArray_N m = 1024" and any: "ba_bit m i"
  obtains f e f' l where "BitArray_FirstRange m = (f, e)" "BitArray_LastRange m = (f', l)"
    "f < 1024" "f < l" "l \<le> 1024" "is_run m f e" "is_run m f' l" "ba_bit m f"
    "\<And>j. ba_bit m j \<Longrightarrow> f \<le> j \<and> j < l"
proof -
  from FirstRangeFrom_some [OF _ any, of 0] obtain f e where
    fe: "BitArray_FirstRangeFrom m 0 = (f, e)" "is_run m f e" "\<forall>j. 0 \<le> j \<and> j < f \<longrightarrow> \<not> ba_bit m j"
    by (metis zero_le)
  have i: "i < 1024" using ba_bit_bound [OF any] N by simp
  from LastRangeFrom_some [of 1024 m i] i any N obtain f' l where
    fl: "BitArray_LastRangeFrom m 1024 = (f', l)" "l \<le> 1024" "is_run m f' l"
      "\<forall>j. l \<le> j \<and> j < 1024 \<longrightarrow> \<not> ba_bit m j"
    by (metis order_refl zero_less_numeral)
  have f: "ba_bit m f" "f < 1024"
    using fe(2) N ba_bit_bound [of m f] by (auto simp: is_run_def)
  have b: "f \<le> j \<and> j < l" if "ba_bit m j" for j
    using fe(3) fl(4) ba_bit_bound [OF that] N that by (metis not_le zero_le)
  show thesis
    using that [of f e f' l] fe fl f b [OF f(1)] b N by (simp add: BitArray_FirstRange_def BitArray_LastRange_def)
qed

lemma runs_same_end:
  assumes "is_run m f e" "is_run m f' e" "\<And>j. ba_bit m j \<Longrightarrow> f \<le> j \<and> j < e"
  shows "ba_bit m j \<longleftrightarrow> f \<le> j \<and> j < e"
  using assms(1,3) unfolding is_run_def by blast

lemma ForRegion_props:
  assumes wf: "pm_wf pm" and base: "region_base_ok base" and N: "BitArray_N m = 1024"
    and any: "BitArray_Any m"
  shows "owp (UpdatePageWatchersForRegion hot pok track is_read base m pm)
    (pm_updated hot track is_read (mask_pages base m) pm)
    (update_fails pok track is_read (pm_page pm ` mask_pages base m) \<or> base = 0 \<and> ba_bit m 0)"
proof -
  from base obtain r where r: "base = 4194304 * r" "base + 4194304 \<le> 1099511627776"
    by (rule region_base_fits)
  from any obtain i where i: "ba_bit m i" by (auto simp: BitArray_Any_iff)
  obtain f e f' l where fl: "BitArray_FirstRange m = (f, e)" "BitArray_LastRange m = (f', l)"
    "f < 1024" "f < l" "l \<le> 1024" "is_run m f e" "is_run m f' l" "ba_bit m f"
    "\<And>j. ba_bit m j \<Longrightarrow> f \<le> j \<and> j < l"
    using first_last_ranges [OF N i] by metis
  have chk: "\<not> (base mod 4194304 \<noteq> 0 \<or> base \<ge> 1099511627776 \<or> 4194304 > 1099511627776 - base)"
    using r by auto
  have pn: "base div 4096 = 1024 * r" using r(1) by simp
  show ?thesis
  proof (cases "e = l")
    case True
    have run: "ba_bit m j \<longleftrightarrow> f \<le> j \<and> j < l" for j
      using runs_same_end [of m f l f' j] fl True by blast
    have upd: "UpdatePageWatchersForRegion hot pok track is_read base m pm =
        UpdatePageWatchers hot pok track is_read (base + f * 4096) ((l - f) * 4096) pm"
      using chk fl(1-3) True unfolding UpdatePageWatchersForRegion_def Let_def by simp
    show ?thesis
    proof (cases "base + f * 4096 = 0")
      case True
      then have "base = 0 \<and> ba_bit m 0" using fl(8) by simp
      moreover from True have "UpdatePageWatchers hot pok track is_read (base + f * 4096) ((l - f) * 4096) pm = Exit"
        by (simp add: UpdatePageWatchers_def PageEnd_ok range_ok_def)
      ultimately show ?thesis unfolding upd by simp
    next
    case nz: False
    have ok: "range_ok (base + f * 4096) ((l - f) * 4096)"
    proof -
      have "base + f * 4096 + (l - f) * 4096 \<le> 1099511627776"
        using r(2) fl(4,5) by (simp add: add.assoc distrib_right [symmetric])
      then show ?thesis using fl(4) nz by (simp add: range_ok_def)
    qed
    have "range_pages (base + f * 4096) ((l - f) * 4096) = mask_pages base m"
    proof -
      have d: "(base + f * 4096) div 4096 = 1024 * r + f"
        unfolding r(1) by simp
      have "base + f * 4096 + (l - f) * 4096 = 4096 * (1024 * r + l)"
        unfolding r(1) using fl(4) by (simp add: diff_mult_distrib)
      then have "(base + f * 4096 + (l - f) * 4096 - 1) div 4096 = 1024 * r + l - 1"
        using fl(4) by (simp add: div_nat_eqI)
      then have "range_pages (base + f * 4096) ((l - f) * 4096) = {1024 * r + f..1024 * r + l - 1}"
        unfolding range_pages_def d by simp
      also have "\<dots> = mask_pages base m"
      proof (intro set_eqI iffI)
        fix n assume "n \<in> {1024 * r + f..1024 * r + l - 1}"
        then have n: "1024 * r + f \<le> n" "n < 1024 * r + l" using fl(4) by auto
        then have "n = 1024 * r + (n - 1024 * r)" "f \<le> n - 1024 * r" "n - 1024 * r < l" by auto
        then have "n = 1024 * r + (n - 1024 * r)" "ba_bit m (n - 1024 * r)"
          using run [of "n - 1024 * r"] by blast+
        then show "n \<in> mask_pages base m" unfolding mask_pages_def pn by blast
      next
        fix n assume "n \<in> mask_pages base m"
        then obtain j where "n = 1024 * r + j" "ba_bit m j" unfolding mask_pages_def pn by blast
        then show "n \<in> {1024 * r + f..1024 * r + l - 1}" using run [of j] by auto
      qed
      finally show ?thesis .
    qed
    then show ?thesis
      using UpdatePageWatchers_props [OF wf ok, of hot pok track is_read] upd by (auto elim: owp_mono)
    qed
  next
    case False
    obtain pm1 region where g: "(if track then map_prod id Some (PM_GetOrCreateRegion pm base)
        else (pm, PM_FindRegion pm base)) = (pm1, region)"
      by (cases "if track then map_prod id Some (PM_GetOrCreateRegion pm base) else (pm, PM_FindRegion pm base)")
    have S: "mask_pages base m = {1024 * r + j | j. f \<le> j \<and> j < l \<and> selected (Some m) j}"
      unfolding mask_pages_def pn selected_def using fl(9) by auto
    have "\<exists>j. f \<le> j \<and> j < l \<and> selected (Some m) j" using fl(4,8) by (auto simp: selected_def)
    moreover have "sel_ok (Some m) l" using N fl(5) by (simp add: sel_ok_def)
    moreover have "base < 1099511627776" using r(2) by simp
    moreover have "base div 4194304 = r" "base = 4096 * (1024 * r)" using r(1) by simp_all
    ultimately have "owp (case region of
          None \<Rightarrow> Exit
        | Some pages \<Rightarrow>
            obind (UpdateRegionWatchers hot pok track is_read (Some m) base f l pages (pm_host pm1))
              (\<lambda>(pages, host). Ret (set_region r pages pm1\<lparr>pm_host := host\<rparr>)))
        (pm_updated hot track is_read (mask_pages base m) pm)
        (update_fails pok track is_read (pm_page pm ` mask_pages base m))"
      using region_update_props [OF wf _ _ g fl(4,5) _ _ S] by metis
    moreover have "UpdatePageWatchersForRegion hot pok track is_read base m pm = (case region of
          None \<Rightarrow> Exit
        | Some pages \<Rightarrow>
            obind (UpdateRegionWatchers hot pok track is_read (Some m) base f l pages (pm_host pm1))
              (\<lambda>(pages, host). Ret (set_region r pages pm1\<lparr>pm_host := host\<rparr>)))"
      using chk fl(1-3) False g \<open>base div 4194304 = r\<close>
      unfolding UpdatePageWatchersForRegion_def Let_def by simp
    ultimately show ?thesis by (auto elim: owp_mono)
  qed
qed

lemma ForRegion_Ret:
  assumes wf: "pm_wf pm" and N: "BitArray_N m = 1024"
    and ret: "UpdatePageWatchersForRegion hot pok track is_read base m pm = Ret pm'"
  shows "pm_updated hot track is_read (mask_pages base m) pm pm'"
proof -
  have base: "region_base_ok base"
    using ret by (auto simp: UpdatePageWatchersForRegion_def region_base_ok_def split: if_splits)
  have "BitArray_Any m"
  proof (rule ccontr)
    assume "\<not> BitArray_Any m"
    then have "BitArray_FirstRange m = (1024, 1024)"
      using FirstRangeFrom_none [of 0 m] N by (simp add: BitArray_Any_iff BitArray_FirstRange_def)
    with ret show False by (simp add: UpdatePageWatchersForRegion_def split: if_splits)
  qed
  from ForRegion_props [OF wf base N this] ret show ?thesis by (rule owp_RetD)
qed

lemma UpdatePageWatchers_Ret:
  assumes "pm_wf pm" "UpdatePageWatchers hot pok track is_read v n pm = Ret pm'"
  shows "pm_updated hot track is_read (range_pages v n) pm pm'"
proof -
  have "range_ok v n" using assms(2) by (auto simp: UpdatePageWatchers_def PageEnd_ok split: if_splits)
  from UpdatePageWatchers_props [OF assms(1) this] assms(2) show ?thesis by (rule owp_RetD)
qed

section \<open>The host protection follows the counters\<close>

text \<open>
  A page no update ever selected is in its initial state; every other page has exactly the
  host protection that its counters ask for.
\<close>

definition pm_inv :: "bool \<Rightarrow> page_manager \<Rightarrow> bool" where
  "pm_inv hot pm \<longleftrightarrow> pm_wf pm \<and>
     (\<forall>n. if managed (pm_page pm n) then pm_host pm n = page_mode hot (pm_page pm n)
          else pm_page pm n = PageState_init)"

lemma pm_inv_init: "pm_inv hot (PageManager_init host)"
  by (simp add: pm_inv_def pm_wf_def PageManager_init_def pm_page_def PageState_init_def)

lemma page_upd_managed [simp]:
  "managed (page_upd track is_read p) \<longleftrightarrow> track \<or> managed p"
  by (simp add: page_upd_def)

lemma page_upd_faults [simp]: "faults (page_upd track is_read p) = faults p"
  by (simp add: page_upd_def)

lemma pm_inv_updated:
  assumes inv: "pm_inv hot pm" and upd: "pm_updated hot track is_read S pm pm'"
  shows "pm_inv hot pm'"
proof -
  have "if managed (pm_page pm' n) then pm_host pm' n = page_mode hot (pm_page pm' n)
      else pm_page pm' n = PageState_init" for n
  proof -
    have old: "if managed (pm_page pm n) then pm_host pm n = page_mode hot (pm_page pm n)
        else pm_page pm n = PageState_init" using inv by (simp add: pm_inv_def)
    have new: "pm_page pm' n = watch_upd track is_read (n \<in> S) (pm_page pm n)"
      and ok: "n \<in> S \<Longrightarrow> delta_ok track is_read (pm_page pm n)"
      and set: "settled hot (pm_host pm) (pm_page pm n) (pm_page pm' n) (pm_host pm') n"
      using upd unfolding pm_updated_def by blast+
    show ?thesis
    proof (cases "managed (pm_page pm n)")
      case True
      then have "managed (pm_page pm' n)" using new by (simp add: watch_upd_def)
      with True old set show ?thesis by (auto simp: settled_def)
    next
      case False
      then have p: "pm_page pm n = PageState_init" using old by simp
      show ?thesis
      proof (cases "n \<in> S")
        case False
        with p new show ?thesis by (simp add: watch_upd_def PageState_init_def)
      next
        case True
        with ok p have track using delta_ok_init by (cases track) auto
        have q: "pm_page pm' n = page_upd True is_read PageState_init"
          using new True p \<open>track\<close> by (simp add: watch_upd_def)
        then have "page_mode hot (pm_page pm' n) \<noteq> page_mode hot (pm_page pm n)"
          unfolding p by (simp add: page_mode_def page_upd_def PageState_init_def)
        with set q show ?thesis by (simp add: settled_def)
      qed
    qed
  qed
  moreover have "pm_wf pm'" using upd by (simp add: pm_updated_def)
  ultimately show ?thesis by (simp add: pm_inv_def)
qed

lemma FindRegion_page:
  assumes "pm_wf pm" "PM_FindRegion pm v = Some pages"
  shows "pages ! page_index v = pm_page pm (v div 4096)" "page_index v < length pages"
    "pm_regions pm (v div 4194304) = Some pages" "page_index v = v div 4096 mod 1024"
proof -
  show r: "pm_regions pm (v div 4194304) = Some pages"
    using assms(2) by (auto simp: PM_FindRegion_def split: if_splits)
  show i: "page_index v = v div 4096 mod 1024"
    using mod_mult2_eq [of v 4096 1024] by simp
  show "pages ! page_index v = pm_page pm (v div 4096)"
    unfolding i pm_page_def using r by (simp add: region_div)
  show "page_index v < length pages" using assms(1) r unfolding i pm_wf_def by auto
qed

lemma Protect_page:
  "Protect pok (PageStart v) 4096 p h = Ret h' \<Longrightarrow> ToMemoryMode p = Ret m \<Longrightarrow> h' = h(v div 4096 := m)"
  by (auto simp: Protect_def PageStart_div split: if_splits)

lemma pm_inv_RestoreProtection:
  assumes inv: "pm_inv hot pm" and ret: "RestoreProtection hot pok v pm = Ret (pm', b)"
  shows "pm_inv hot pm'"
proof (cases "PM_FindRegion pm v")
  case None
  with ret inv show ?thesis by (simp add: RestoreProtection_def)
next
  case (Some pages)
  have wf: "pm_wf pm" using inv by (simp add: pm_inv_def)
  note fr = FindRegion_page [OF wf Some]
  show ?thesis
  proof (cases "managed (pm_page pm (v div 4096))")
    case False
    with ret inv Some fr show ?thesis by (simp add: RestoreProtection_def Let_def)
  next
    case True
    with ret Some fr obtain h where h: "Protect pok (PageStart v) 4096
        (Perms hot (pm_page pm (v div 4096))) (pm_host pm) = Ret h" "pm' = pm\<lparr>pm_host := h\<rparr>"
      by (auto simp: RestoreProtection_def Let_def obind_Ret_iff)
    have "h = (pm_host pm)(v div 4096 := page_mode hot (pm_page pm (v div 4096)))"
      using Protect_page [OF h(1)] by simp
    with inv True show ?thesis by (simp add: pm_inv_def h(2))
  qed
qed

lemma unat_succ_u8: "(x :: u8) \<noteq> 255 \<Longrightarrow> unat (x + 1) = unat x + 1"
proof -
  assume x: "x \<noteq> 255"
  have "unat x < 256" using unsigned_less [of x, where 'a = nat] by simp
  moreover have "unat x \<noteq> 255" using x by (auto simp: word_unat_eq_iff)
  ultimately show "unat (x + 1) = unat x + 1" by (simp add: unat_word_ariths)
qed

lemma pm_inv_NoteFault:
  assumes inv: "pm_inv hot pm" and ret: "NoteFault hot pok v pm = Ret (pm', b)"
  shows "pm_inv hot pm'"
proof (cases "PM_FindRegion pm v")
  case None
  with ret inv show ?thesis by (simp add: NoteFault_def)
next
  case (Some pages)
  have wf: "pm_wf pm" using inv by (simp add: pm_inv_def)
  note fr = FindRegion_page [OF wf Some]
  define n where "n = v div 4096"
  define p where "p = pm_page pm n"
  have rn: "v div 4194304 = n div 1024" "page_index v = n mod 1024"
    by (simp_all add: n_def region_div fr(4))
  have pp: "pages ! (n mod 1024) = p" using fr(1) unfolding fr(4) p_def n_def .
  show ?thesis
  proof (cases "managed p")
    case False
    with ret inv Some pp rn show ?thesis by (simp add: NoteFault_def Let_def)
  next
    case True
    define q where "q = (if faults p \<noteq> 255 then p\<lparr>faults := faults p + 1\<rparr> else p)"
    define pm1 where "pm1 = set_region (n div 1024) (pages[n mod 1024 := q]) pm"
    have len: "n mod 1024 < length pages" using fr(2) unfolding fr(4) n_def .
    have pg: "pm_page pm1 k = (if k = n then q else pm_page pm k)" for k
    proof (cases "k = n")
      case False
      then have "k div 1024 = n div 1024 \<Longrightarrow> k mod 1024 \<noteq> n mod 1024" by (metis mult_div_mod_eq)
      with False fr(3) rn(1) show ?thesis by (auto simp: pm1_def pm_page_def set_region_def)
    qed (use len in \<open>simp add: pm1_def pm_page_def set_region_def\<close>)
    have wf1: "pm_wf pm1"
      using pm_wf_set_region [OF wf fr(3), of "pages[n mod 1024 := q]" "pm_host pm"] wf fr(3)
      unfolding pm1_def rn(1) by (auto simp: pm_wf_def set_region_def)
    have ret': "(if hot \<and> faults q = 3
        then obind (Protect pok (PageStart v) 4096 READ_WRITE_PROTECTION (pm_host pm1))
          (\<lambda>h. Ret (pm1\<lparr>pm_host := h\<rparr>)) else Ret pm1) = Ret pm'"
      using ret Some True pp
      unfolding NoteFault_def Let_def rn q_def [symmetric] pm1_def [symmetric]
      by (auto simp: q_def pm1_def obind_Ret_iff split: if_splits)
    have mode: "page_mode hot q = (if hot \<and> faults q = 3 then Mode_ReadWrite else page_mode hot p)"
    proof -
      have "faults q \<ge> 3 \<longleftrightarrow> faults q = 3 \<or> faults p \<ge> 3"
      proof (cases "faults p = 255")
        case False
        then have "unat (faults p + 1) = unat (faults p) + 1"
          using unat_succ_u8 by blast
        with False show ?thesis by (auto simp: q_def word_le_nat_alt word_unat_eq_iff)
      qed (simp add: q_def)
      then show ?thesis by (auto simp: page_mode_def q_def)
    qed
    have inv_n: "pm_host pm n = page_mode hot p" using inv True by (simp add: pm_inv_def p_def)
    have "managed q" using True by (simp add: q_def)
    have old: "if managed (pm_page pm k) then pm_host pm k = page_mode hot (pm_page pm k)
        else pm_page pm k = PageState_init" for k
      using inv by (simp add: pm_inv_def)
    show ?thesis
    proof (cases "hot \<and> faults q = 3")
      case True
      with ret' obtain h where h: "Protect pok (PageStart v) 4096 READ_WRITE_PROTECTION (pm_host pm1) = Ret h"
        "pm' = pm1\<lparr>pm_host := h\<rparr>" by (auto simp: obind_Ret_iff)
      have "h = (pm_host pm1)(n := Mode_ReadWrite)"
        using Protect_page [OF h(1), of Mode_ReadWrite] by (simp add: ToMemoryMode_def n_def)
      moreover have "pm_host pm1 = pm_host pm" by (simp add: pm1_def set_region_def)
      ultimately show ?thesis
        using wf1 old mode True \<open>managed q\<close> unfolding pm_inv_def h(2) by (auto simp: pg)
    next
      case False
      with ret' have "pm' = pm1" by (auto split: if_splits)
      moreover have "pm_host pm1 = pm_host pm" by (simp add: pm1_def set_region_def)
      ultimately show ?thesis
        using wf1 old mode False \<open>managed q\<close> inv_n unfolding pm_inv_def by (auto simp: pg)
    qed
  qed
qed

section \<open>Properties\<close>

text \<open>The states a manager can reach: every call of its interface that returns.\<close>

inductive pm_reach :: "bool \<Rightarrow> (nat \<Rightarrow> nat \<Rightarrow> mode \<Rightarrow> bool) \<Rightarrow> page_manager \<Rightarrow> bool"
  for hot pok where
  init: "pm_reach hot pok (PageManager_init host)"
| watchers: "pm_reach hot pok pm \<Longrightarrow> UpdatePageWatchers hot pok track False v n pm = Ret pm' \<Longrightarrow>
    pm_reach hot pok pm'"
| region: "pm_reach hot pok pm \<Longrightarrow> length m = 16 \<Longrightarrow>
    UpdatePageWatchersForRegion hot pok track is_read base m pm = Ret pm' \<Longrightarrow> pm_reach hot pok pm'"
| fault: "pm_reach hot pok pm \<Longrightarrow> NoteFault hot pok v pm = Ret (pm', b) \<Longrightarrow> pm_reach hot pok pm'"
| restore: "pm_reach hot pok pm \<Longrightarrow> RestoreProtection hot pok v pm = Ret (pm', b) \<Longrightarrow>
    pm_reach hot pok pm'"

inductive_cases pm_reachE: "pm_reach hot pok pm"

lemma pm_reach_inv: "pm_reach hot pok pm \<Longrightarrow> pm_inv hot pm"
proof (induction rule: pm_reach.induct)
  case (init host)
  show ?case by (rule pm_inv_init)
next
  case (watchers pm track v n pm')
  have "pm_wf pm" using watchers(3) by (simp add: pm_inv_def)
  from pm_inv_updated [OF watchers(3) UpdatePageWatchers_Ret [OF this watchers(2)]] show ?case .
next
  case (region pm m track is_read base pm')
  then have "BitArray_N m = 1024" "pm_wf pm" by (simp_all add: BitArray_N_def pm_inv_def)
  from pm_inv_updated [OF region(4) ForRegion_Ret [OF this(2,1) region(3)]] show ?case .
next
  case (fault pm v pm' b)
  then show ?case using pm_inv_NoteFault by blast
next
  case (restore pm v pm' b)
  then show ?case using pm_inv_RestoreProtection by blast
qed

text \<open>
  C2: in every state the page manager reaches, whatever calls led to it and however the
  loop grouped the pages into protection requests, the host protection of each page that
  was ever watched is the one its counters ask for (no access while it is watched for
  reads, else read-only while it is watched for writes, else read and write; always read
  and write once it took three faults with the hot-page switch on), and a page no call
  selected still has zero counters.
\<close>

theorem host_protection_follows_watchers:
  assumes "pm_reach hot pok pm"
  shows "if managed (pm_page pm n) then pm_host pm n = page_mode hot (pm_page pm n)
    else pm_page pm n = PageState_init"
  using pm_reach_inv [OF assms] by (simp add: pm_inv_def)

lemma watch_one_page:
  "\<exists>pm. UpdatePageWatchers False (\<lambda>_ _ _. True) True False 4096 4096
     (PageManager_init (\<lambda>_. Mode_ReadWrite)) = Ret pm \<and>
     pm_page pm 1 = page_upd True False PageState_init"
proof -
  let ?pm = "PageManager_init (\<lambda>_. Mode_ReadWrite)"
  have pg: "pm_page ?pm n = PageState_init" for n by (simp add: pm_page_def PageManager_init_def)
  have wf: "pm_wf ?pm" using pm_inv_init [of False] by (simp add: pm_inv_def)
  have ok: "\<not> update_fails (\<lambda>_ _ _. True) True False (pm_page ?pm ` range_pages 4096 4096)"
    by (auto simp: update_fails_def delta_ok_def pg PageState_init_def)
  have "owp (UpdatePageWatchers False (\<lambda>_ _ _. True) True False 4096 4096 ?pm)
      (pm_updated False True False (range_pages 4096 4096) ?pm) False"
    using UpdatePageWatchers_props [OF wf, of 4096 4096 False "\<lambda>_ _ _. True" True False] ok
    by (simp add: range_ok_def)
  then obtain pm where pm: "UpdatePageWatchers False (\<lambda>_ _ _. True) True False 4096 4096 ?pm = Ret pm"
    "pm_updated False True False (range_pages 4096 4096) ?pm pm"
    unfolding owp_total by blast
  have "1 \<in> range_pages 4096 4096" by (simp add: range_pages_def)
  then have "pm_page pm 1 = page_upd True False PageState_init"
    using pm(2) pg unfolding pm_updated_def watch_upd_def by metis
  with pm(1) show ?thesis by blast
qed

theorem host_protection_follows_watchers_witness:
  "\<exists>pm. UpdatePageWatchers False (\<lambda>_ _ _. True) True False 4096 4096
     (PageManager_init (\<lambda>_. Mode_ReadWrite)) = Ret pm \<and> pm_host pm 1 = Mode_Read"
proof -
  obtain pm where pm: "UpdatePageWatchers False (\<lambda>_ _ _. True) True False 4096 4096
     (PageManager_init (\<lambda>_. Mode_ReadWrite)) = Ret pm" "pm_page pm 1 = page_upd True False PageState_init"
    using watch_one_page by blast
  have "pm_reach False (\<lambda>_ _ _. True) pm" by (rule pm_reach.watchers [OF pm_reach.init pm(1)])
  from host_protection_follows_watchers [OF this, of 1] pm show ?thesis
    by (simp add: page_upd_def page_mode_def PageState_init_def)
qed

text \<open>
  C7: \<open>UpdatePageWatchersForRegion\<close> on a reachable manager changes exactly the pages of its
  mask, by one step of the chosen counter each, whether the mask is one range (then it goes
  through the page range) or several. It ends the process only if the mask's counters
  would overflow or underflow, the address space refuses a request, or the page at address
  zero is selected; then and only then it returns no state.
\<close>

theorem region_update_is_exact:
  assumes "pm_reach hot pok pm" "region_base_ok base" "length m = 16" "BitArray_Any m"
  shows "owp (UpdatePageWatchersForRegion hot pok track is_read base m pm)
    (pm_updated hot track is_read (mask_pages base m) pm)
    (update_fails pok track is_read (pm_page pm ` mask_pages base m) \<or> base = 0 \<and> ba_bit m 0)"
  using ForRegion_props [OF _ assms(2) _ assms(4)] pm_reach_inv [OF assms(1)] assms(3)
  by (simp add: pm_inv_def BitArray_N_def)

theorem region_update_is_exact_witness:
  "owp (UpdatePageWatchersForRegion False (\<lambda>_ _ _. True) True True 4194304
       (BitArray_SetRange (BitArray_SetRange (BitArray_empty 16) 3 5) 9 10)
       (PageManager_init (\<lambda>_. Mode_ReadWrite)))
     (\<lambda>pm. pm_host pm 1033 = Mode_NoAccess) False"
proof -
  let ?m = "BitArray_SetRange (BitArray_SetRange (BitArray_empty 16) 3 5) 9 10"
  let ?pm = "PageManager_init (\<lambda>_. Mode_ReadWrite)"
  have pg: "pm_page ?pm n = PageState_init" for n by (simp add: pm_page_def PageManager_init_def)
  have b: "ba_bit ?m i \<longleftrightarrow> 3 \<le> i \<and> i < 5 \<or> i = 9" for i
    by (auto simp: ba_simps BitArray_N_def BitArray_empty_def)
  have "region_base_ok 4194304" "length ?m = 16" "BitArray_Any ?m"
    using b [of 9] by (auto simp: region_base_ok_def BitArray_empty_def BitArray_Any_iff simp del: One_nat_def)
  note r = region_update_is_exact [OF pm_reach.init [of False "\<lambda>_ _ _. True" "\<lambda>_. Mode_ReadWrite"] this,
      of True True]
  have nf: "\<not> update_fails (\<lambda>_ _ _. True) True True (pm_page ?pm ` mask_pages 4194304 ?m)"
    by (auto simp: update_fails_def delta_ok_def pg PageState_init_def)
  have "1024 + 9 \<in> mask_pages 4194304 ?m" using b [of 9] unfolding mask_pages_def by auto
  then have in9: "1033 \<in> mask_pages 4194304 ?m" by simp
  show ?thesis
  proof (rule owp_mono [OF r])
    fix pm assume u: "pm_updated False True True (mask_pages 4194304 ?m) ?pm pm"
    then have "pm_page pm 1033 = page_upd True True PageState_init"
      using in9 pg unfolding pm_updated_def watch_upd_def by metis
    moreover have "settled False (pm_host ?pm) (pm_page ?pm 1033) (pm_page pm 1033) (pm_host pm) 1033"
      using u unfolding pm_updated_def by blast
    ultimately show "pm_host pm 1033 = Mode_NoAccess"
      by (simp add: settled_def pg page_mode_def page_upd_def PageState_init_def)
  qed (use nf in simp)
qed

end
