(* ===== verification/RegionManager.thy ===== *)
theory RegionManager
  imports PageManager
begin

text \<open>
  \<open>RegionManager\<close> and \<open>TrackingSpinLock\<close> of \<open>src/graphics/host_gpu/regionManager.h\<close>: for one
  region of 1024 guest pages, which pages the CPU and which pages the GPU has modified
  last, and the copies of those sets that the page protection was last brought in line
  with. An operation works on the manager together with the page manager it refers to.
\<close>

section \<open>The manager and its operations\<close>

datatype dirty_source = Cpu | Gpu

record region_manager =
  rm_addr :: nat
  rm_cpu_dirty :: bit_words
  rm_gpu_dirty :: bit_words
  rm_writable :: bit_words
  rm_readable :: bit_words

abbreviation no_pages :: bit_words where
  "no_pages \<equiv> BitArray_empty 16"

definition RegionManager_new :: "nat \<Rightarrow> region_manager outcome" where
  "RegionManager_new cpu_addr =
     (if cpu_addr mod TRACKER_REGION_SIZE \<noteq> 0 then Exit
      else Ret \<lparr>rm_addr = cpu_addr, rm_cpu_dirty = BitArray_Fill no_pages, rm_gpu_dirty = no_pages,
        rm_writable = BitArray_Fill no_pages, rm_readable = BitArray_Fill no_pages\<rparr>)"

definition GetPageRange :: "region_manager \<Rightarrow> nat \<Rightarrow> nat \<Rightarrow> (nat \<times> nat) outcome" where
  "GetPageRange rm vaddr sz =
     (if sz = 0 \<or> vaddr < rm_addr rm \<or> vaddr \<ge> rm_addr rm + TRACKER_REGION_SIZE \<or>
         sz > rm_addr rm + TRACKER_REGION_SIZE - vaddr then Exit
      else
        let offset = vaddr - rm_addr rm in
        Ret (offset div TRACKER_PAGE_SIZE,
             (offset + sz + TRACKER_PAGE_SIZE - 1) div TRACKER_PAGE_SIZE))"

fun GetBits :: "dirty_source \<Rightarrow> region_manager \<Rightarrow> bit_words" where
  "GetBits Cpu rm = rm_cpu_dirty rm"
| "GetBits Gpu rm = rm_gpu_dirty rm"

fun SetBits :: "dirty_source \<Rightarrow> bit_words \<Rightarrow> region_manager \<Rightarrow> region_manager" where
  "SetBits Cpu b rm = rm\<lparr>rm_cpu_dirty := b\<rparr>"
| "SetBits Gpu b rm = rm\<lparr>rm_gpu_dirty := b\<rparr>"

definition RM_IsModified :: "dirty_source \<Rightarrow> nat \<Rightarrow> nat \<Rightarrow> region_manager \<Rightarrow> bool outcome" where
  "RM_IsModified src offset sz rm =
     obind (GetPageRange rm (rm_addr rm + offset) sz) (\<lambda>(start, fin).
       Ret (BitArray_Any (BitArray_copy_range (GetBits src rm) start fin)))"

type_synonym rm_state = "page_manager \<times> region_manager"

definition UpdateCpuProtection ::
    "bool \<Rightarrow> (nat \<Rightarrow> nat \<Rightarrow> mode \<Rightarrow> bool) \<Rightarrow> bool \<Rightarrow> rm_state \<Rightarrow> rm_state outcome" where
  "UpdateCpuProtection hot pok track s =
     (let (pm, rm) = s;
          sel = BitArray_xor (rm_cpu_dirty rm) (rm_writable rm);
          rm = rm\<lparr>rm_writable := rm_cpu_dirty rm\<rparr> in
      if BitArray_None sel then Ret (pm, rm)
      else omap (\<lambda>pm. (pm, rm))
        (UpdatePageWatchersForRegion hot pok track False (rm_addr rm) sel pm))"

definition UpdateGpuProtection ::
    "bool \<Rightarrow> (nat \<Rightarrow> nat \<Rightarrow> mode \<Rightarrow> bool) \<Rightarrow> bool \<Rightarrow> rm_state \<Rightarrow> rm_state outcome" where
  "UpdateGpuProtection hot pok track s =
     (let (pm, rm) = s;
          readable = BitArray_not (rm_gpu_dirty rm);
          sel = BitArray_xor readable (rm_readable rm);
          rm = rm\<lparr>rm_readable := readable\<rparr> in
      if BitArray_None sel then Ret (pm, rm)
      else omap (\<lambda>pm. (pm, rm))
        (UpdatePageWatchersForRegion hot pok track True (rm_addr rm) sel pm))"

definition ChangeState ::
    "bool \<Rightarrow> (nat \<Rightarrow> nat \<Rightarrow> mode \<Rightarrow> bool) \<Rightarrow> dirty_source \<Rightarrow> bool \<Rightarrow> nat \<Rightarrow> nat \<Rightarrow> rm_state \<Rightarrow>
     rm_state outcome" where
  "ChangeState hot pok src enable vaddr sz s =
     (let (pm, rm) = s in
      obind (GetPageRange rm vaddr sz) (\<lambda>(start, fin).
        if src = Cpu \<and> enable \<and> BitArray_Any (BitArray_copy_range (rm_gpu_dirty rm) start fin)
        then Exit
        else if src = Gpu \<and> enable \<and> BitArray_Any (BitArray_copy_range (rm_cpu_dirty rm) start fin)
        then Exit
        else
          let bits = GetBits src rm;
              bits = (if enable then BitArray_SetRange bits start fin
                      else BitArray_UnsetRange bits start fin);
              rm = SetBits src bits rm in
          case src of
            Cpu \<Rightarrow> UpdateCpuProtection hot pok (\<not> enable) (pm, rm)
          | Gpu \<Rightarrow> UpdateGpuProtection hot pok enable (pm, rm)))"

text \<open>The calls \<open>func(address, size)\<close> of \<open>ForEachRange\<close>, in order.\<close>

definition RM_ForEachRange :: "region_manager \<Rightarrow> bit_words \<Rightarrow> (nat \<times> nat) list" where
  "RM_ForEachRange rm bits =
     map (\<lambda>(start, fin). (rm_addr rm + start * TRACKER_PAGE_SIZE, (fin - start) * TRACKER_PAGE_SIZE))
       (BitArray_ranges bits)"

definition ForEachModifiedRange ::
    "bool \<Rightarrow> (nat \<Rightarrow> nat \<Rightarrow> mode \<Rightarrow> bool) \<Rightarrow> dirty_source \<Rightarrow> bool \<Rightarrow> nat \<Rightarrow> nat \<Rightarrow> rm_state \<Rightarrow>
     (rm_state \<times> (nat \<times> nat) list) outcome" where
  "ForEachModifiedRange hot pok src clear vaddr sz s =
     (let (pm, rm) = s in
      obind (GetPageRange rm vaddr sz) (\<lambda>(start, fin).
        let sel = BitArray_copy_range (GetBits src rm) start fin;
            rm = (if clear then SetBits src (BitArray_UnsetRange (GetBits src rm) start fin) rm else rm) in
        obind
          (if src = Cpu \<and> clear then UpdateCpuProtection hot pok True (pm, rm)
           else if src = Gpu \<and> clear then UpdateGpuProtection hot pok False (pm, rm)
           else Ret (pm, rm))
          (\<lambda>(pm, rm). Ret ((pm, rm), RM_ForEachRange rm sel))))"

section \<open>Invariant\<close>

text \<open>
  Between two operations the protection is in line with both sets, and no page is modified
  by both sides.
\<close>

definition rm_inv :: "region_manager \<Rightarrow> bool" where
  "rm_inv rm \<longleftrightarrow>
     region_base_ok (rm_addr rm) \<and> length (rm_cpu_dirty rm) = 16 \<and> length (rm_gpu_dirty rm) = 16 \<and>
     rm_writable rm = rm_cpu_dirty rm \<and> rm_readable rm = BitArray_not (rm_gpu_dirty rm) \<and>
     (\<forall>j. \<not> (ba_bit (rm_cpu_dirty rm) j \<and> ba_bit (rm_gpu_dirty rm) j))"

text \<open>
  The counters of the region's pages: one write watcher of this manager for every page the
  CPU has not modified, on top of the \<open>others\<close> that further clients hold, and the read
  watcher exactly on the pages the GPU has modified.
\<close>

definition counters_ok :: "(nat \<Rightarrow> nat) \<Rightarrow> bool \<Rightarrow> bool \<Rightarrow> nat \<Rightarrow> page_state \<Rightarrow> bool" where
  "counters_ok others c g n p \<longleftrightarrow>
     unat (write_watchers p) = others n + (if c then 0 else 1) \<and> (access_watchers p \<noteq> 0) = g"

definition rm_page :: "region_manager \<Rightarrow> nat \<Rightarrow> nat" where
  "rm_page rm j = rm_addr rm div 4096 + j"

definition watch_inv :: "(nat \<Rightarrow> nat) \<Rightarrow> rm_state \<Rightarrow> bool" where
  "watch_inv others s \<longleftrightarrow>
     (\<forall>j < 1024. counters_ok others (ba_bit (rm_cpu_dirty (snd s)) j) (ba_bit (rm_gpu_dirty (snd s)) j)
        (rm_page (snd s) j) (pm_page (fst s) (rm_page (snd s) j)))"

section \<open>Bringing the protection in line\<close>

text \<open>What an operation leaves of the page manager.\<close>

definition pm_frame :: "bool \<Rightarrow> nat \<Rightarrow> page_manager \<Rightarrow> page_manager \<Rightarrow> bool" where
  "pm_frame hot r pm pm' \<longleftrightarrow> pm_inv hot pm' \<and> (\<forall>n. n div 1024 \<noteq> r \<longrightarrow> pm_page pm' n = pm_page pm n)"

lemma pm_frame_refl: "pm_inv hot pm \<Longrightarrow> pm_frame hot r pm pm"
  by (simp add: pm_frame_def)

lemma pm_frame_updated:
  assumes "pm_inv hot pm" "pm_updated hot track is_read S pm pm'" "\<forall>n \<in> S. n div 1024 = r"
  shows "pm_frame hot r pm pm'"
proof -
  have "pm_page pm' n = pm_page pm n" if "n div 1024 \<noteq> r" for n
  proof -
    have "n \<notin> S" using assms(3) that by blast
    then show ?thesis using assms(2) unfolding pm_updated_def watch_upd_def by simp
  qed
  then show ?thesis using pm_inv_updated [OF assms(1,2)] by (simp add: pm_frame_def)
qed

lemma unat_succ7: "(w :: 7 word) \<noteq> 0x7f \<Longrightarrow> unat (w + 1) = unat w + 1"
proof -
  assume w: "w \<noteq> 0x7f"
  have "unat w < 128" using unsigned_less [of w, where 'a = nat] by simp
  moreover have "unat w \<noteq> 127" using w by (auto simp: word_unat_eq_iff)
  ultimately show "unat (w + 1) = unat w + 1" by (simp add: unat_word_ariths)
qed

lemma unat_pred7: "(w :: 7 word) \<noteq> 0 \<Longrightarrow> unat (w - 1) = unat w - 1"
  by (rule unat_minus_one)

text \<open>The counters after a step that changes one set at a page.\<close>

lemma counters_track_write:
  "counters_ok others True g n p \<Longrightarrow> delta_ok True False p \<Longrightarrow>
   counters_ok others False g n (page_upd True False p)"
  by (simp add: counters_ok_def page_upd_def delta_ok_def unat_succ7)

lemma counters_untrack_write:
  "counters_ok others False g n p \<Longrightarrow> delta_ok False False p \<Longrightarrow>
   counters_ok others True g n (page_upd False False p)"
  by (auto simp: counters_ok_def page_upd_def delta_ok_def unat_pred7)

lemma counters_track_read:
  "counters_ok others c False n p \<Longrightarrow> counters_ok others c True n (page_upd True True p)"
  by (simp add: counters_ok_def page_upd_def)

lemma counters_untrack_read:
  "counters_ok others c True n p \<Longrightarrow> counters_ok others c False n (page_upd False True p)"
  using word1_cases [of "access_watchers p"] by (auto simp: counters_ok_def page_upd_def)

lemma delta_ok_write:
  assumes "counters_ok others c g n p"
  shows "delta_ok True False p \<longleftrightarrow> others n + (if c then 0 else 1) \<noteq> 127"
    "\<not> c \<Longrightarrow> delta_ok False False p" "delta_ok True True p \<longleftrightarrow> \<not> g" "delta_ok False True p \<longleftrightarrow> g"
proof -
  have "write_watchers p = 0x7f \<longleftrightarrow> unat (write_watchers p) = 127"
    by (auto simp: word_unat_eq_iff)
  then show "delta_ok True False p \<longleftrightarrow> others n + (if c then 0 else 1) \<noteq> 127"
    using assms by (simp add: counters_ok_def delta_ok_def)
  show "\<not> c \<Longrightarrow> delta_ok False False p"
    using assms by (auto simp: counters_ok_def delta_ok_def)
  show "delta_ok True True p \<longleftrightarrow> \<not> g" "delta_ok False True p \<longleftrightarrow> g"
    using assms by (auto simp: counters_ok_def delta_ok_def)
qed

text \<open>
  The pages a synchronisation selects: for the set \<open>old\<close> the protection was in line with and
  the new set, the pages where they differ.
\<close>

lemma xor_bits: "length a = length b \<Longrightarrow> ba_bit (BitArray_xor a b) j \<longleftrightarrow> ba_bit a j \<noteq> ba_bit b j"
  by (rule bits.mem_diff) (simp add: BitArray_N_def)

lemma length_xor [simp]: "length a = length b \<Longrightarrow> length (BitArray_xor a b) = length b"
  by (simp add: BitArray_xor_def)

lemma not_bits: "length a = 16 \<Longrightarrow> ba_bit (BitArray_not a) j \<longleftrightarrow> j < 1024 \<and> \<not> ba_bit a j"
  by (simp add: bits.mem_compl BitArray_N_def)

lemma bit_bound16: "length a = 16 \<Longrightarrow> ba_bit a j \<Longrightarrow> j < 1024"
  using ba_bit_bound [of a j] by (simp add: BitArray_N_def)

lemma rm_page_inj [simp]: "rm_page rm i = rm_page rm j \<longleftrightarrow> i = j"
  by (simp add: rm_page_def)

lemma rm_page_region:
  assumes "region_base_ok (rm_addr rm)" "j < 1024"
  shows "rm_page rm j div 1024 = rm_addr rm div 4194304" "rm_page rm j mod 1024 = j"
proof -
  obtain r where "rm_addr rm = 4194304 * r" using assms(1) by (rule region_base_fits)
  then show "rm_page rm j div 1024 = rm_addr rm div 4194304" "rm_page rm j mod 1024 = j"
    using assms(2) by (simp_all add: rm_page_def)
qed

text \<open>
  The common argument of both protections: the pages that differ are selected, each of them
  takes the step \<open>upd\<close> asks for, no other page changes.
\<close>

lemma sync_props:
  assumes inv: "pm_inv hot pm" and base: "region_base_ok (rm_addr rm)" and len: "length sel = 16"
    and any: "BitArray_Any sel"
    and ok: "\<And>j. ba_bit sel j \<Longrightarrow> delta_ok track is_read (pm_page pm (rm_page rm j)) \<or> E"
    and e: "(\<exists>v s m. \<not> pok v s m) \<Longrightarrow> E" "rm_addr rm = 0 \<Longrightarrow> ba_bit sel 0 \<Longrightarrow> E"
  shows "owp (UpdatePageWatchersForRegion hot pok track is_read (rm_addr rm) sel pm)
    (\<lambda>pm'. pm_frame hot (rm_addr rm div 4194304) pm pm' \<and>
       (\<forall>j < 1024. pm_page pm' (rm_page rm j) =
          watch_upd track is_read (ba_bit sel j) (pm_page pm (rm_page rm j))) \<and>
       (\<forall>j. ba_bit sel j \<longrightarrow> delta_ok track is_read (pm_page pm (rm_page rm j)))) E"
proof -
  have N: "BitArray_N sel = 1024" using len by (simp add: BitArray_N_def)
  have wf: "pm_wf pm" using inv by (simp add: pm_inv_def)
  show ?thesis
  proof (rule owp_mono [OF ForRegion_props [OF wf base N any]])
    fix pm'
    let ?S = "mask_pages (rm_addr rm) sel"
    assume u: "pm_updated hot track is_read ?S pm pm'"
    have S: "rm_page rm j \<in> ?S \<longleftrightarrow> ba_bit sel j" for j
      by (auto simp: mask_pages_def rm_page_def)
    have "\<forall>n \<in> ?S. n div 1024 = rm_addr rm div 4194304"
    proof
      fix n assume "n \<in> ?S"
      then obtain j where "n = rm_page rm j" "ba_bit sel j" by (auto simp: mask_pages_def rm_page_def)
      then show "n div 1024 = rm_addr rm div 4194304"
        using rm_page_region(1) [OF base] bit_bound16 [OF len] by blast
    qed
    then have "pm_frame hot (rm_addr rm div 4194304) pm pm'" using pm_frame_updated [OF inv u] by blast
    moreover have "pm_page pm' (rm_page rm j) =
        watch_upd track is_read (ba_bit sel j) (pm_page pm (rm_page rm j))" for j
      using u unfolding pm_updated_def S [symmetric] by blast
    moreover have "delta_ok track is_read (pm_page pm (rm_page rm j))" if "ba_bit sel j" for j
      using u S that unfolding pm_updated_def by blast
    ultimately show "pm_frame hot (rm_addr rm div 4194304) pm pm' \<and>
       (\<forall>j < 1024. pm_page pm' (rm_page rm j) =
          watch_upd track is_read (ba_bit sel j) (pm_page pm (rm_page rm j))) \<and>
       (\<forall>j. ba_bit sel j \<longrightarrow> delta_ok track is_read (pm_page pm (rm_page rm j)))"
      by blast
  next
    assume "update_fails pok track is_read (pm_page pm ` mask_pages (rm_addr rm) sel) \<or>
      rm_addr rm = 0 \<and> ba_bit sel 0"
    then show E
      using ok e unfolding update_fails_def mask_pages_def rm_page_def by blast
  qed
qed

text \<open>When a step of a manager may end the process.\<close>

definition sync_fails ::
    "(nat \<Rightarrow> nat) \<Rightarrow> (nat \<Rightarrow> nat \<Rightarrow> mode \<Rightarrow> bool) \<Rightarrow> region_manager \<Rightarrow> nat set \<Rightarrow> bool" where
  "sync_fails others pok rm J \<longleftrightarrow>
     (\<exists>v s m. \<not> pok v s m) \<or> rm_addr rm = 0 \<and> 0 \<in> J \<or> (\<exists>j \<in> J. 127 \<le> others (rm_page rm j))"

lemma CpuProtection_props:
  assumes pmi: "pm_inv hot pm" and rmi: "rm_inv rm" and wi: "watch_inv others (pm, rm)"
    and len: "length b = 16" and dis: "\<And>j. \<not> (ba_bit b j \<and> ba_bit (rm_gpu_dirty rm) j)"
    and mono: "\<And>j. if track then ba_bit b j \<longrightarrow> ba_bit (rm_cpu_dirty rm) j
      else ba_bit (rm_cpu_dirty rm) j \<longrightarrow> ba_bit b j"
    and J: "{j. ba_bit (rm_cpu_dirty rm) j \<noteq> ba_bit b j} \<subseteq> J"
  defines "rm' \<equiv> rm\<lparr>rm_cpu_dirty := b, rm_writable := b\<rparr>"
  shows "owp (UpdateCpuProtection hot pok track (pm, rm\<lparr>rm_cpu_dirty := b\<rparr>))
    (\<lambda>(pm', rm1). rm1 = rm' \<and> rm_inv rm' \<and> watch_inv others (pm', rm') \<and>
       pm_frame hot (rm_addr rm div 4194304) pm pm')
    (sync_fails others pok rm J)"
proof -
  let ?sel = "BitArray_xor b (rm_writable rm)"
  note ri = rmi [unfolded rm_inv_def]
  have sel: "ba_bit ?sel j \<longleftrightarrow> ba_bit b j \<noteq> ba_bit (rm_cpu_dirty rm) j" for j
    using xor_bits [of b "rm_writable rm" j] ri len by simp
  have lsel: "length ?sel = 16" using ri len by simp
  have rm'i: "rm_inv rm'" using ri len dis by (simp add: rm_inv_def rm'_def)
  have old: "counters_ok others (ba_bit (rm_cpu_dirty rm) j) (ba_bit (rm_gpu_dirty rm) j)
      (rm_page rm j) (pm_page pm (rm_page rm j))" if "j < 1024" for j
    using wi that by (simp add: watch_inv_def)
  have pg: "rm_page rm' j = rm_page rm j" for j by (simp add: rm'_def rm_page_def)
  have def_: "UpdateCpuProtection hot pok track (pm, rm\<lparr>rm_cpu_dirty := b\<rparr>) =
      (if BitArray_None ?sel then Ret (pm, rm')
       else omap (\<lambda>pm. (pm, rm')) (UpdatePageWatchersForRegion hot pok track False (rm_addr rm) ?sel pm))"
    by (simp add: UpdateCpuProtection_def rm'_def Let_def)
  show ?thesis
  proof (cases "BitArray_None ?sel")
    case True
    then have eq: "ba_bit b j = ba_bit (rm_cpu_dirty rm) j" for j
      using sel [of j] unfolding BitArray_None_iff by blast
    have "watch_inv others (pm, rm')"
      using wi eq pg by (simp add: watch_inv_def rm'_def)
    with True def_ rm'i pm_frame_refl [OF pmi] show ?thesis by simp
  next
    case False
    have step: "if track then ba_bit (rm_cpu_dirty rm) j \<and> \<not> ba_bit b j else \<not> ba_bit (rm_cpu_dirty rm) j \<and> ba_bit b j"
      if "ba_bit ?sel j" for j
      using mono [of j] that unfolding sel by (auto split: if_splits)
    have any: "BitArray_Any ?sel" using False by (simp add: BitArray_Any_def)
    have base: "region_base_ok (rm_addr rm)" using ri by blast
    have ok': "delta_ok track False (pm_page pm (rm_page rm j)) \<or> sync_fails others pok rm J"
      if j: "ba_bit ?sel j" for j
    proof -
      have jl: "j < 1024" using bit_bound16 [OF lsel j] .
      have "j \<in> J" using j sel J by blast
      then show ?thesis
        using delta_ok_write(1,2) [OF old [OF jl]] step [OF j]
        by (cases track) (fastforce simp: sync_fails_def)+
    qed
    have z': "rm_addr rm = 0 \<Longrightarrow> ba_bit ?sel 0 \<Longrightarrow> sync_fails others pok rm J"
      using sel J by (auto simp: sync_fails_def)
    have p': "(\<exists>v s m. \<not> pok v s m) \<Longrightarrow> sync_fails others pok rm J" by (simp add: sync_fails_def)
    have "owp (UpdatePageWatchersForRegion hot pok track False (rm_addr rm) ?sel pm)
      (\<lambda>pm'. pm_frame hot (rm_addr rm div 4194304) pm pm' \<and>
         (\<forall>j < 1024. pm_page pm' (rm_page rm j) =
            watch_upd track False (ba_bit ?sel j) (pm_page pm (rm_page rm j))) \<and>
         (\<forall>j. ba_bit ?sel j \<longrightarrow> delta_ok track False (pm_page pm (rm_page rm j))))
      (sync_fails others pok rm J)"
      by (rule sync_props [OF pmi base lsel any ok' p' z'])
    moreover have "watch_inv others (pm', rm')"
      if pm': "\<forall>j < 1024. pm_page pm' (rm_page rm j) =
          watch_upd track False (ba_bit ?sel j) (pm_page pm (rm_page rm j))"
        and ok: "\<forall>j. ba_bit ?sel j \<longrightarrow> delta_ok track False (pm_page pm (rm_page rm j))" for pm'
      unfolding watch_inv_def fst_conv snd_conv pg
    proof (intro allI impI)
      fix j :: nat assume j: "j < 1024"
      have bits': "rm_cpu_dirty rm' = b" "rm_gpu_dirty rm' = rm_gpu_dirty rm" by (simp_all add: rm'_def)
      show "counters_ok others (ba_bit (rm_cpu_dirty rm') j) (ba_bit (rm_gpu_dirty rm') j) (rm_page rm j)
          (pm_page pm' (rm_page rm j))"
      proof (cases "ba_bit ?sel j")
        case False
        then have "pm_page pm' (rm_page rm j) = pm_page pm (rm_page rm j)" "ba_bit b j = ba_bit (rm_cpu_dirty rm) j"
          using pm' j sel by (auto simp: watch_upd_def)
        with old [OF j] show ?thesis unfolding bits' by simp
      next
        case True
        then have p: "pm_page pm' (rm_page rm j) = page_upd track False (pm_page pm (rm_page rm j))"
          and d: "delta_ok track False (pm_page pm (rm_page rm j))"
          using pm' ok j by (auto simp: watch_upd_def)
        show ?thesis
          using counters_track_write [of others _ "rm_page rm j"] counters_untrack_write [of others _ "rm_page rm j"]
            old [OF j] d step [OF True]
          unfolding p bits' by (cases track) auto
      qed
    qed
    ultimately show ?thesis
      unfolding def_ using False rm'i by (auto elim!: owp_mono)
  qed
qed

lemma GpuProtection_props:
  assumes pmi: "pm_inv hot pm" and rmi: "rm_inv rm" and wi: "watch_inv others (pm, rm)"
    and len: "length b = 16" and dis: "\<And>j. \<not> (ba_bit (rm_cpu_dirty rm) j \<and> ba_bit b j)"
    and mono: "\<And>j. if track then ba_bit (rm_gpu_dirty rm) j \<longrightarrow> ba_bit b j
      else ba_bit b j \<longrightarrow> ba_bit (rm_gpu_dirty rm) j"
    and J: "{j. ba_bit (rm_gpu_dirty rm) j \<noteq> ba_bit b j} \<subseteq> J"
  defines "rm' \<equiv> rm\<lparr>rm_gpu_dirty := b, rm_readable := BitArray_not b\<rparr>"
  shows "owp (UpdateGpuProtection hot pok track (pm, rm\<lparr>rm_gpu_dirty := b\<rparr>))
    (\<lambda>(pm', rm1). rm1 = rm' \<and> rm_inv rm' \<and> watch_inv others (pm', rm') \<and>
       pm_frame hot (rm_addr rm div 4194304) pm pm')
    (sync_fails others pok rm J)"
proof -
  let ?sel = "BitArray_xor (BitArray_not b) (rm_readable rm)"
  note ri = rmi [unfolded rm_inv_def]
  have lens: "length (BitArray_not b) = 16" "length (rm_readable rm) = 16"
    using ri len by (simp_all add: BitArray_not_def)
  have sel: "ba_bit ?sel j \<longleftrightarrow> ba_bit b j \<noteq> ba_bit (rm_gpu_dirty rm) j" for j
    using bits.mask_of_compl [of b "rm_gpu_dirty rm" j] xor_bits [of b "rm_gpu_dirty rm" j] ri len
    by (simp add: BitArray_N_def)
  have lsel: "length ?sel = 16" using lens by simp
  have rm'i: "rm_inv rm'" using ri len dis by (simp add: rm_inv_def rm'_def)
  have old: "counters_ok others (ba_bit (rm_cpu_dirty rm) j) (ba_bit (rm_gpu_dirty rm) j)
      (rm_page rm j) (pm_page pm (rm_page rm j))" if "j < 1024" for j
    using wi that by (simp add: watch_inv_def)
  have pg: "rm_page rm' j = rm_page rm j" for j by (simp add: rm'_def rm_page_def)
  have def_: "UpdateGpuProtection hot pok track (pm, rm\<lparr>rm_gpu_dirty := b\<rparr>) =
      (if BitArray_None ?sel then Ret (pm, rm')
       else omap (\<lambda>pm. (pm, rm')) (UpdatePageWatchersForRegion hot pok track True (rm_addr rm) ?sel pm))"
    by (simp add: UpdateGpuProtection_def rm'_def Let_def)
  show ?thesis
  proof (cases "BitArray_None ?sel")
    case True
    then have eq: "ba_bit b j = ba_bit (rm_gpu_dirty rm) j" for j
      using sel [of j] unfolding BitArray_None_iff by blast
    have "watch_inv others (pm, rm')"
      using wi eq pg by (simp add: watch_inv_def rm'_def)
    with True def_ rm'i pm_frame_refl [OF pmi] show ?thesis by simp
  next
    case False
    have step: "if track then \<not> ba_bit (rm_gpu_dirty rm) j \<and> ba_bit b j else ba_bit (rm_gpu_dirty rm) j \<and> \<not> ba_bit b j"
      if "ba_bit ?sel j" for j
      using mono [of j] that unfolding sel by (auto split: if_splits)
    have any: "BitArray_Any ?sel" using False by (simp add: BitArray_Any_def)
    have base: "region_base_ok (rm_addr rm)" using ri by blast
    have ok': "delta_ok track True (pm_page pm (rm_page rm j)) \<or> sync_fails others pok rm J"
      if j: "ba_bit ?sel j" for j
    proof -
      have "counters_ok others (ba_bit (rm_cpu_dirty rm) j) (ba_bit (rm_gpu_dirty rm) j)
          (rm_page rm j) (pm_page pm (rm_page rm j))" using old [OF bit_bound16 [OF lsel j]] .
      note d = delta_ok_write(3,4) [OF this]
      show ?thesis using d step [OF j] by (cases track) simp_all
    qed
    have z': "rm_addr rm = 0 \<Longrightarrow> ba_bit ?sel 0 \<Longrightarrow> sync_fails others pok rm J"
      using sel J by (auto simp: sync_fails_def)
    have p': "(\<exists>v s m. \<not> pok v s m) \<Longrightarrow> sync_fails others pok rm J" by (simp add: sync_fails_def)
    have "owp (UpdatePageWatchersForRegion hot pok track True (rm_addr rm) ?sel pm)
      (\<lambda>pm'. pm_frame hot (rm_addr rm div 4194304) pm pm' \<and>
         (\<forall>j < 1024. pm_page pm' (rm_page rm j) =
            watch_upd track True (ba_bit ?sel j) (pm_page pm (rm_page rm j))) \<and>
         (\<forall>j. ba_bit ?sel j \<longrightarrow> delta_ok track True (pm_page pm (rm_page rm j))))
      (sync_fails others pok rm J)"
      by (rule sync_props [OF pmi base lsel any ok' p' z'])
    moreover have "watch_inv others (pm', rm')"
      if pm': "\<forall>j < 1024. pm_page pm' (rm_page rm j) =
          watch_upd track True (ba_bit ?sel j) (pm_page pm (rm_page rm j))" for pm'
      unfolding watch_inv_def fst_conv snd_conv pg
    proof (intro allI impI)
      fix j :: nat assume j: "j < 1024"
      have bits': "rm_gpu_dirty rm' = b" "rm_cpu_dirty rm' = rm_cpu_dirty rm" by (simp_all add: rm'_def)
      show "counters_ok others (ba_bit (rm_cpu_dirty rm') j) (ba_bit (rm_gpu_dirty rm') j) (rm_page rm j)
          (pm_page pm' (rm_page rm j))"
      proof (cases "ba_bit ?sel j")
        case False
        then have "pm_page pm' (rm_page rm j) = pm_page pm (rm_page rm j)" "ba_bit b j = ba_bit (rm_gpu_dirty rm) j"
          using pm' j sel by (auto simp: watch_upd_def)
        with old [OF j] show ?thesis unfolding bits' by simp
      next
        case True
        then have p: "pm_page pm' (rm_page rm j) = page_upd track True (pm_page pm (rm_page rm j))"
          using pm' j by (auto simp: watch_upd_def)
        show ?thesis
          using counters_track_read [of others _ "rm_page rm j"] counters_untrack_read [of others _ "rm_page rm j"]
            old [OF j] step [OF True]
          unfolding p bits' by (cases track) auto
      qed
    qed
    ultimately show ?thesis
      unfolding def_ using False rm'i by (auto elim!: owp_mono)
  qed
qed

section \<open>The operations\<close>

definition in_region :: "region_manager \<Rightarrow> nat \<Rightarrow> nat \<Rightarrow> bool" where
  "in_region rm vaddr sz \<longleftrightarrow> 0 < sz \<and> rm_addr rm \<le> vaddr \<and> vaddr + sz \<le> rm_addr rm + TRACKER_REGION_SIZE"

definition touched :: "region_manager \<Rightarrow> nat \<Rightarrow> nat \<Rightarrow> nat set" where
  "touched rm vaddr sz = {j. rm_page rm j \<in> range_pages vaddr sz}"

lemma GetPageRange_Ret:
  assumes "region_base_ok (rm_addr rm)" "in_region rm vaddr sz"
  obtains a e where "GetPageRange rm vaddr sz = Ret (a, e)" "a < e" "e \<le> 1024"
    "touched rm vaddr sz = {a..<e}"
proof -
  obtain r where r: "rm_addr rm = 4194304 * r" using assms(1) by (rule region_base_fits)
  define off where "off = vaddr - rm_addr rm"
  from assms(2) have v: "vaddr = 4096 * (1024 * r) + off" "0 < sz" "off + sz \<le> 4194304"
    by (auto simp: in_region_def off_def r)
  define a e where "a = off div 4096" and "e = (off + sz + 4096 - 1) div 4096"
  have last': "(off + sz - 1) div 4096 + 1 = e"
  proof -
    have "off + sz + 4096 - 1 = (off + sz - 1) + 1 * 4096" using v(2) by simp
    then show ?thesis unfolding e_def by (simp only: div_mult_self1 [OF zero_neq_numeral [symmetric]])
  qed
  have "off div 4096 \<le> (off + sz - 1) div 4096" using v(2) by (intro div_le_mono) simp
  with last' have ae: "a < e" by (simp add: a_def)
  have "(off + sz - 1) div 4096 < 1024" using v(2,3) by (intro div_less_iff_less_mult [THEN iffD2]) simp_all
  with last' have e: "e \<le> 1024" by simp
  have "vaddr div 4096 = 1024 * r + a" unfolding v(1) a_def by simp
  moreover have "(vaddr + sz - 1) div 4096 = 1024 * r + (e - 1)"
  proof -
    have "vaddr + sz - 1 = 4096 * (1024 * r) + (off + sz - 1)" using v(1,2) by simp
    then have "(vaddr + sz - 1) div 4096 = 1024 * r + (off + sz - 1) div 4096"
      by (simp only: div_mult_self4 [OF zero_neq_numeral [symmetric]])
    then show ?thesis using last' by (metis add_diff_cancel_right')
  qed
  ultimately have "touched rm vaddr sz = {a..<e}"
    using ae unfolding touched_def range_pages_def rm_page_def r by auto
  moreover have "GetPageRange rm vaddr sz = Ret (a, e)"
    using assms(2) unfolding in_region_def GetPageRange_def Let_def off_def [symmetric] a_def [symmetric] e_def [symmetric]
    by auto
  ultimately show thesis using that ae e by blast
qed

lemma GetPageRange_in_region: "GetPageRange rm vaddr sz = Ret x \<Longrightarrow> in_region rm vaddr sz"
  by (auto simp: GetPageRange_def in_region_def split: if_splits)

fun other_side :: "dirty_source \<Rightarrow> dirty_source" where
  "other_side Cpu = Gpu"
| "other_side Gpu = Cpu"

definition rm_changed ::
    "dirty_source \<Rightarrow> bool \<Rightarrow> nat set \<Rightarrow> region_manager \<Rightarrow> region_manager \<Rightarrow> bool" where
  "rm_changed src enable J rm rm' \<longleftrightarrow> rm_addr rm' = rm_addr rm \<and>
     (\<forall>j. ba_bit (GetBits src rm') j = (if j \<in> J then enable else ba_bit (GetBits src rm) j)) \<and>
     GetBits (other_side src) rm' = GetBits (other_side src) rm"

definition conflict :: "dirty_source \<Rightarrow> bool \<Rightarrow> nat set \<Rightarrow> region_manager \<Rightarrow> bool" where
  "conflict src enable J rm \<longleftrightarrow> enable \<and> (\<exists>j \<in> J. ba_bit (GetBits (other_side src) rm) j)"

text \<open>What an operation that returns establishes.\<close>

definition rm_step_ok ::
    "bool \<Rightarrow> (nat \<Rightarrow> nat) \<Rightarrow> dirty_source \<Rightarrow> bool \<Rightarrow> nat set \<Rightarrow> rm_state \<Rightarrow> rm_state \<Rightarrow> bool" where
  "rm_step_ok hot others src enable J s s' \<longleftrightarrow>
     rm_changed src enable J (snd s) (snd s') \<and> rm_inv (snd s') \<and> watch_inv others s' \<and>
     pm_frame hot (rm_addr (snd s) div 4194304) (fst s) (fst s')"

lemma range_bits:
  assumes "length b = 16" "e \<le> 1024"
  shows "ba_bit (BitArray_SetRange b a e) j \<longleftrightarrow> ba_bit b j \<or> j \<in> {a..<e}"
    "ba_bit (BitArray_UnsetRange b a e) j \<longleftrightarrow> ba_bit b j \<and> j \<notin> {a..<e}"
    "BitArray_Any (BitArray_copy_range b a e) \<longleftrightarrow> (\<exists>j \<in> {a..<e}. ba_bit b j)"
  using bits.mem_set_range [of e b a j] bits.mem_unset_range [of e b a j] bits.any_in_range [of e b a] assms
  by (auto simp: BitArray_N_def BitArray_Any_def)

lemma rm_inv_bits: "rm_inv rm \<Longrightarrow> length (GetBits src rm) = 16"
  by (cases src) (simp_all add: rm_inv_def)

lemma rm_changed_Cpu:
  assumes "\<And>j. ba_bit b j = (if j \<in> J then enable else ba_bit (rm_cpu_dirty rm) j)"
  shows "rm_changed Cpu enable J rm (rm\<lparr>rm_cpu_dirty := b, rm_writable := w\<rparr>)"
  using assms by (simp add: rm_changed_def)

lemma rm_changed_Gpu:
  assumes "\<And>j. ba_bit b j = (if j \<in> J then enable else ba_bit (rm_gpu_dirty rm) j)"
  shows "rm_changed Gpu enable J rm (rm\<lparr>rm_gpu_dirty := b, rm_readable := w\<rparr>)"
  using assms by (simp add: rm_changed_def)

text \<open>Both kinds of change, as \<open>ChangeState\<close> and \<open>ForEachModifiedRange\<close> make them.\<close>

lemma change_props:
  assumes pmi: "pm_inv hot pm" and rmi: "rm_inv rm" and wi: "watch_inv others (pm, rm)"
    and e: "e \<le> 1024" and nc: "\<not> conflict src enable {a..<e} rm"
    and b: "b = (if enable then BitArray_SetRange (GetBits src rm) a e
      else BitArray_UnsetRange (GetBits src rm) a e)"
  shows "owp (case src of
        Cpu \<Rightarrow> UpdateCpuProtection hot pok (\<not> enable) (pm, SetBits src b rm)
      | Gpu \<Rightarrow> UpdateGpuProtection hot pok enable (pm, SetBits src b rm))
    (rm_step_ok hot others src enable {a..<e} (pm, rm)) (sync_fails others pok rm {a..<e})"
proof -
  have len: "length b = 16" using rm_inv_bits [OF rmi] b by simp
  have bb: "ba_bit b j = (if j \<in> {a..<e} then enable else ba_bit (GetBits src rm) j)" for j
    using range_bits(1,2) [OF rm_inv_bits [OF rmi, of src] e, of a j] b by auto
  have dis: "\<not> (ba_bit (rm_cpu_dirty rm) j \<and> ba_bit (rm_gpu_dirty rm) j)" for j
    using rmi by (simp add: rm_inv_def)
  show ?thesis
  proof (cases src)
    case Cpu
    have d: "\<not> (ba_bit b j \<and> ba_bit (rm_gpu_dirty rm) j)" for j
      using bb [of j] nc dis [of j] Cpu by (auto simp: conflict_def split: if_splits)
    have m: "if \<not> enable then ba_bit b j \<longrightarrow> ba_bit (rm_cpu_dirty rm) j
        else ba_bit (rm_cpu_dirty rm) j \<longrightarrow> ba_bit b j" for j
      using bb [of j] Cpu by auto
    have J: "{j. ba_bit (rm_cpu_dirty rm) j \<noteq> ba_bit b j} \<subseteq> {a..<e}"
      using bb Cpu by (auto split: if_splits)
    have ch: "rm_changed Cpu enable {a..<e} rm (rm\<lparr>rm_cpu_dirty := b, rm_writable := b\<rparr>)"
      by (rule rm_changed_Cpu) (use bb Cpu in simp)
    show ?thesis
      using CpuProtection_props [OF pmi rmi wi len d m J, of pok] ch Cpu
      by (auto simp: rm_step_ok_def elim!: owp_mono)
  next
    case Gpu
    have d: "\<not> (ba_bit (rm_cpu_dirty rm) j \<and> ba_bit b j)" for j
      using bb [of j] nc dis [of j] Gpu by (auto simp: conflict_def split: if_splits)
    have m: "if enable then ba_bit (rm_gpu_dirty rm) j \<longrightarrow> ba_bit b j
        else ba_bit b j \<longrightarrow> ba_bit (rm_gpu_dirty rm) j" for j
      using bb [of j] Gpu by auto
    have J: "{j. ba_bit (rm_gpu_dirty rm) j \<noteq> ba_bit b j} \<subseteq> {a..<e}"
      using bb Gpu by (auto split: if_splits)
    have ch: "rm_changed Gpu enable {a..<e} rm (rm\<lparr>rm_gpu_dirty := b, rm_readable := BitArray_not b\<rparr>)"
      by (rule rm_changed_Gpu) (use bb Gpu in simp)
    show ?thesis
      using GpuProtection_props [OF pmi rmi wi len d m J, of pok] ch Gpu
      by (auto simp: rm_step_ok_def elim!: owp_mono)
  qed
qed

lemma ChangeState_props:
  assumes pmi: "pm_inv hot pm" and rmi: "rm_inv rm" and wi: "watch_inv others (pm, rm)"
    and reg: "in_region rm vaddr sz"
  shows "owp (ChangeState hot pok src enable vaddr sz (pm, rm))
    (rm_step_ok hot others src enable (touched rm vaddr sz) (pm, rm))
    (sync_fails others pok rm (touched rm vaddr sz) \<or> conflict src enable (touched rm vaddr sz) rm)"
proof -
  have base: "region_base_ok (rm_addr rm)" using rmi by (simp add: rm_inv_def)
  obtain a e where g: "GetPageRange rm vaddr sz = Ret (a, e)" "a < e" "e \<le> 1024"
    "touched rm vaddr sz = {a..<e}"
    using GetPageRange_Ret [OF base reg] .
  note any = range_bits(3) [OF rm_inv_bits [OF rmi] g(3), of _ a]
  show ?thesis
  proof (cases "conflict src enable {a..<e} rm")
    case True
    then have "ChangeState hot pok src enable vaddr sz (pm, rm) = Exit"
      using g(1) any [of Cpu] any [of Gpu] by (cases src) (auto simp: ChangeState_def conflict_def)
    with True g(4) show ?thesis by simp
  next
    case False
    then have guards: "\<not> (src = Cpu \<and> enable \<and> BitArray_Any (BitArray_copy_range (rm_gpu_dirty rm) a e))"
      "\<not> (src = Gpu \<and> enable \<and> BitArray_Any (BitArray_copy_range (rm_cpu_dirty rm) a e))"
      using any [of Cpu] any [of Gpu] by (auto simp: conflict_def)
    let ?b = "if enable then BitArray_SetRange (GetBits src rm) a e
      else BitArray_UnsetRange (GetBits src rm) a e"
    have "ChangeState hot pok src enable vaddr sz (pm, rm) =
        (case src of
          Cpu \<Rightarrow> UpdateCpuProtection hot pok (\<not> enable) (pm, SetBits src ?b rm)
        | Gpu \<Rightarrow> UpdateGpuProtection hot pok enable (pm, SetBits src ?b rm))"
      unfolding ChangeState_def Let_def prod.case g(1) obind.simps using guards by (simp only: if_False)
    with change_props [OF pmi rmi wi g(3) False refl, of pok] show ?thesis
      unfolding g(4) by (simp only:) (erule owp_mono, simp_all)
  qed
qed

lemma RM_IsModified_ok:
  assumes rmi: "rm_inv rm" and reg: "in_region rm (rm_addr rm + offset) sz"
  shows "RM_IsModified src offset sz rm =
    Ret (\<exists>j \<in> touched rm (rm_addr rm + offset) sz. ba_bit (GetBits src rm) j)"
proof -
  have base: "region_base_ok (rm_addr rm)" using rmi by (simp add: rm_inv_def)
  obtain a e where g: "GetPageRange rm (rm_addr rm + offset) sz = Ret (a, e)" "a < e" "e \<le> 1024"
    "touched rm (rm_addr rm + offset) sz = {a..<e}"
    using GetPageRange_Ret [OF base reg] .
  then show ?thesis
    using range_bits(3) [OF rm_inv_bits [OF rmi] g(3), of src a] by (simp add: RM_IsModified_def)
qed

text \<open>The reported ranges: whole pages that are exactly the modified pages of the range.\<close>

definition call_pages :: "(nat \<times> nat) list \<Rightarrow> nat set" where
  "call_pages calls = (\<Union>(v, n) \<in> set calls. {v div 4096..<(v + n) div 4096})"

definition calls_aligned :: "(nat \<times> nat) list \<Rightarrow> bool" where
  "calls_aligned calls \<longleftrightarrow> list_all (\<lambda>(v, n). v mod 4096 = 0 \<and> n mod 4096 = 0 \<and> 0 < n) calls"

lemma ForEachRange_pages:
  assumes base: "region_base_ok (rm_addr rm)" and N: "length b = 16"
  shows "call_pages (RM_ForEachRange rm b) = {rm_page rm j | j. ba_bit b j}"
    "calls_aligned (RM_ForEachRange rm b)"
proof -
  obtain r where r: "rm_addr rm = 4194304 * r" using base by (rule region_base_fits)
  note it = iterate_ranges_from [OF refl, of b 0, folded BitArray_ranges_def]
  have run: "a < e" if "(a, e) \<in> set (BitArray_ranges b)" for a e
    using it(2) that by (auto simp: is_run_def)
  have one: "{(rm_addr rm + a * 4096) div 4096..<(rm_addr rm + a * 4096 + (e - a) * 4096) div 4096} =
      {rm_page rm j | j. a \<le> j \<and> j < e}" if "a < e" for a e
  proof -
    have "rm_addr rm + a * 4096 = 4096 * (1024 * r + a)"
      "rm_addr rm + a * 4096 + (e - a) * 4096 = 4096 * (1024 * r + e)"
      using that unfolding r by (simp_all add: diff_mult_distrib)
    then have "{(rm_addr rm + a * 4096) div 4096..<(rm_addr rm + a * 4096 + (e - a) * 4096) div 4096} =
        {1024 * r + a..<1024 * r + e}"
      by (simp only: nonzero_mult_div_cancel_left [OF zero_neq_numeral [symmetric]])
    also have "\<dots> = {rm_page rm j | j. a \<le> j \<and> j < e}"
    proof (intro set_eqI iffI)
      fix n assume "n \<in> {1024 * r + a..<1024 * r + e}"
      then have "n = rm_page rm (n - 1024 * r)" "a \<le> n - 1024 * r \<and> n - 1024 * r < e"
        by (auto simp: rm_page_def r)
      then show "n \<in> {rm_page rm j | j. a \<le> j \<and> j < e}" by blast
    qed (auto simp: rm_page_def r)
    finally show ?thesis .
  qed
  have "call_pages (RM_ForEachRange rm b) = (\<Union>p \<in> set (BitArray_ranges b).
      {(rm_addr rm + fst p * 4096) div 4096..<(rm_addr rm + fst p * 4096 + (snd p - fst p) * 4096) div 4096})"
    by (simp add: call_pages_def RM_ForEachRange_def case_prod_unfold)
  also have "\<dots> = (\<Union>p \<in> set (BitArray_ranges b). {rm_page rm j | j. fst p \<le> j \<and> j < snd p})"
  proof (rule SUP_cong [OF refl])
    fix p assume "p \<in> set (BitArray_ranges b)"
    then have "fst p < snd p" using run [of "fst p" "snd p"] by simp
    from one [OF this]
    show "{(rm_addr rm + fst p * 4096) div 4096..<(rm_addr rm + fst p * 4096 + (snd p - fst p) * 4096) div 4096} =
      {rm_page rm j | j. fst p \<le> j \<and> j < snd p}" .
  qed
  also have "\<dots> = {rm_page rm j | j. ba_bit b j}"
  proof -
    have "ba_bit b j \<longleftrightarrow> (\<exists>p \<in> set (BitArray_ranges b). fst p \<le> j \<and> j < snd p)" for j
      using it(1) [of j] unfolding in_ranges_def case_prod_unfold by blast
    then show ?thesis by blast
  qed
  finally show "call_pages (RM_ForEachRange rm b) = {rm_page rm j | j. ba_bit b j}" .
  have "(rm_addr rm + a * 4096) mod 4096 = 0" for a unfolding r by simp
  then show "calls_aligned (RM_ForEachRange rm b)"
    using run by (auto simp: calls_aligned_def RM_ForEachRange_def list_all_iff)
qed

lemma ForEachModifiedRange_props:
  assumes pmi: "pm_inv hot pm" and rmi: "rm_inv rm" and wi: "watch_inv others (pm, rm)"
    and reg: "in_region rm vaddr sz"
  shows "owp (ForEachModifiedRange hot pok src clear vaddr sz (pm, rm))
    (\<lambda>(s', calls).
       (if clear then rm_step_ok hot others src False (touched rm vaddr sz) (pm, rm) s' else s' = (pm, rm)) \<and>
       calls_aligned calls \<and>
       call_pages calls = {rm_page rm j | j. j \<in> touched rm vaddr sz \<and> ba_bit (GetBits src rm) j})
    (clear \<and> sync_fails others pok rm (touched rm vaddr sz))"
proof -
  have base: "region_base_ok (rm_addr rm)" using rmi by (simp add: rm_inv_def)
  obtain a e where g: "GetPageRange rm vaddr sz = Ret (a, e)" "a < e" "e \<le> 1024"
    "touched rm vaddr sz = {a..<e}"
    using GetPageRange_Ret [OF base reg] .
  let ?sel = "BitArray_copy_range (GetBits src rm) a e"
  have len: "length ?sel = 16" using rm_inv_bits [OF rmi] by simp
  have sel: "ba_bit ?sel j \<longleftrightarrow> j \<in> {a..<e} \<and> ba_bit (GetBits src rm) j" for j
    using bits.mem_restrict [of e "GetBits src rm" a j] rm_inv_bits [OF rmi, of src] g(3)
    by (auto simp: BitArray_N_def)
  have calls: "calls_aligned (RM_ForEachRange rm' ?sel)"
    "call_pages (RM_ForEachRange rm' ?sel) = {rm_page rm j | j. j \<in> {a..<e} \<and> ba_bit (GetBits src rm) j}"
    if "rm_addr rm' = rm_addr rm" for rm'
  proof -
    have "RM_ForEachRange rm' ?sel = RM_ForEachRange rm ?sel" using that by (simp add: RM_ForEachRange_def)
    then show "calls_aligned (RM_ForEachRange rm' ?sel)"
      "call_pages (RM_ForEachRange rm' ?sel) = {rm_page rm j | j. j \<in> {a..<e} \<and> ba_bit (GetBits src rm) j}"
      using ForEachRange_pages [OF base len] unfolding sel by simp_all
  qed
  show ?thesis
  proof (cases clear)
    case False
    then show ?thesis
      using g(1,4) calls [OF refl] by (simp add: ForEachModifiedRange_def Let_def)
  next
    case True
    have nc: "\<not> conflict src False {a..<e} rm" by (simp add: conflict_def)
    let ?b = "BitArray_UnsetRange (GetBits src rm) a e"
    have eq: "ForEachModifiedRange hot pok src clear vaddr sz (pm, rm) =
        obind (case src of
            Cpu \<Rightarrow> UpdateCpuProtection hot pok (\<not> False) (pm, SetBits src ?b rm)
          | Gpu \<Rightarrow> UpdateGpuProtection hot pok False (pm, SetBits src ?b rm))
        (\<lambda>(pm, rm). Ret ((pm, rm), RM_ForEachRange rm ?sel))"
      using True by (cases src) (simp_all add: ForEachModifiedRange_def Let_def g(1))
    have "owp (case src of
          Cpu \<Rightarrow> UpdateCpuProtection hot pok (\<not> False) (pm, SetBits src ?b rm)
        | Gpu \<Rightarrow> UpdateGpuProtection hot pok False (pm, SetBits src ?b rm))
      (rm_step_ok hot others src False {a..<e} (pm, rm)) (sync_fails others pok rm {a..<e})"
      by (rule change_props [OF pmi rmi wi g(3) nc]) simp
    then show ?thesis
      unfolding eq owp_obind g(4)
    proof (rule owp_mono)
      fix s' assume s': "rm_step_ok hot others src False {a..<e} (pm, rm) s'"
      obtain pm' rm' where p: "s' = (pm', rm')" by (cases s')
      have "rm_addr rm' = rm_addr rm" using s' by (simp add: p rm_step_ok_def rm_changed_def)
      from calls [OF this] s' True show "owp (case s' of (pm, rm) \<Rightarrow> Ret ((pm, rm), RM_ForEachRange rm ?sel))
        (\<lambda>(s', calls).
           (if clear then rm_step_ok hot others src False {a..<e} (pm, rm) s' else s' = (pm, rm)) \<and>
           calls_aligned calls \<and>
           call_pages calls = {rm_page rm j | j. j \<in> {a..<e} \<and> ba_bit (GetBits src rm) j})
        (clear \<and> sync_fails others pok rm {a..<e})"
        by (simp add: p)
    qed (use True in simp)
  qed
qed

end
