(* ===== verification/MemoryTracker.thy ===== *)
theory MemoryTracker
  imports RegionManager RangeSet
begin

text \<open>
  \<open>MemoryTracker\<close> of \<open>src/graphics/host_gpu/memoryTracker.h\<close> and \<open>memoryTracker.cpp\<close>: the
  region managers of the 2^40-byte guest address space, created on demand, and the
  operations that walk a byte range region by region. The state is the page manager
  together with the tracker. The region locks order the calls of different threads; one
  call at a time is modelled. \<open>mt_in_upload\<close> stands for \<open>s_upload_owner == this\<close>. Callbacks
  that only report ranges are the lists of their calls; \<open>on_flush\<close> is a parameter.
\<close>

section \<open>The tracker and its iteration\<close>

record memory_tracker =
  mt_regions :: "nat \<Rightarrow> region_manager option"
  mt_storage :: "nat list"
  mt_in_upload :: bool

type_synonym mt_state = "page_manager \<times> memory_tracker"

definition MemoryTracker_new :: memory_tracker where
  "MemoryTracker_new = \<lparr>mt_regions = (\<lambda>_. None), mt_storage = [], mt_in_upload = False\<rparr>"

definition CheckNotInUploadCallback :: "memory_tracker \<Rightarrow> unit outcome" where
  "CheckNotInUploadCallback mt = (if mt_in_upload mt then Exit else Ret ())"

definition MT_ValidateRange :: "nat \<Rightarrow> nat \<Rightarrow> unit outcome" where
  "MT_ValidateRange vaddr sz =
     (if vaddr = 0 \<or> sz = 0 \<or> vaddr \<ge> TRACKER_ADDRESS_SIZE \<or> sz > TRACKER_ADDRESS_SIZE - vaddr
      then Exit else Ret ())"

definition MT_store :: "nat \<Rightarrow> region_manager \<Rightarrow> memory_tracker \<Rightarrow> memory_tracker" where
  "MT_store index rm mt = mt\<lparr>mt_regions := (mt_regions mt)(index := Some rm)\<rparr>"

definition MT_GetOrCreateRegion :: "nat \<Rightarrow> memory_tracker \<Rightarrow> memory_tracker outcome" where
  "MT_GetOrCreateRegion index mt =
     (case mt_regions mt index of
        Some rm \<Rightarrow> Ret mt
      | None \<Rightarrow>
          obind (RegionManager_new (index * TRACKER_REGION_SIZE)) (\<lambda>rm.
            Ret (MT_store index rm mt\<lparr>mt_storage := mt_storage mt @ [index]\<rparr>)))"

text \<open>
  The loop of \<open>Iterate\<close>: its pieces (index, offset, bytes). The offset is the rest of an
  address modulo the region size, so it is always below it.
\<close>

function region_pieces :: "nat \<Rightarrow> nat \<Rightarrow> nat \<Rightarrow> (nat \<times> nat \<times> nat) list" where
  "region_pieces index offset remaining =
     (if remaining \<noteq> 0 \<and> offset < TRACKER_REGION_SIZE then
        let bytes = min (TRACKER_REGION_SIZE - offset) remaining in
        (index, offset, bytes) # region_pieces (index + 1) 0 (remaining - bytes)
      else [])"
  by pat_completeness auto
termination
  by (relation "measure (\<lambda>(index, offset, remaining). remaining)") auto

declare region_pieces.simps [simp del]

type_synonym 'a visitor = "nat \<Rightarrow> region_manager \<Rightarrow> nat \<Rightarrow> nat \<Rightarrow> mt_state \<times> 'a \<Rightarrow> (mt_state \<times> 'a) outcome"

definition MT_visit :: "bool \<Rightarrow> 'a visitor \<Rightarrow> nat \<times> nat \<times> nat \<Rightarrow> mt_state \<times> 'a \<Rightarrow> (mt_state \<times> 'a) outcome" where
  "MT_visit create func piece s =
     (let (index, offset, bytes) = piece; ((pm, mt), acc) = s in
      obind (if create then MT_GetOrCreateRegion index mt else Ret mt) (\<lambda>mt.
        case mt_regions mt index of
          None \<Rightarrow> Ret ((pm, mt), acc)
        | Some manager \<Rightarrow> func index manager offset bytes ((pm, mt), acc)))"

definition MT_Iterate :: "bool \<Rightarrow> 'a visitor \<Rightarrow> nat \<Rightarrow> nat \<Rightarrow> mt_state \<times> 'a \<Rightarrow> (mt_state \<times> 'a) outcome" where
  "MT_Iterate create func vaddr sz s =
     obind (MT_ValidateRange vaddr sz) (\<lambda>_.
       ofold (MT_visit create func)
         (region_pieces (vaddr div TRACKER_REGION_SIZE) (vaddr mod TRACKER_REGION_SIZE) sz) s)"

text \<open>\<open>Iterate\<close> with a function that returns \<open>bool\<close>: it stops at the first true result.\<close>

fun any_piece ::
    "bool \<Rightarrow> (region_manager \<Rightarrow> nat \<Rightarrow> nat \<Rightarrow> bool outcome) \<Rightarrow> (nat \<times> nat \<times> nat) list \<Rightarrow>
     memory_tracker \<Rightarrow> (memory_tracker \<times> bool) outcome" where
  "any_piece create func [] mt = Ret (mt, False)"
| "any_piece create func ((index, offset, bytes) # ps) mt =
     obind (if create then MT_GetOrCreateRegion index mt else Ret mt) (\<lambda>mt.
       obind (case mt_regions mt index of None \<Rightarrow> Ret False | Some manager \<Rightarrow> func manager offset bytes)
         (\<lambda>found. if found then Ret (mt, True) else any_piece create func ps mt))"

definition MT_IterateAny ::
    "bool \<Rightarrow> (region_manager \<Rightarrow> nat \<Rightarrow> nat \<Rightarrow> bool outcome) \<Rightarrow> nat \<Rightarrow> nat \<Rightarrow>
     memory_tracker \<Rightarrow> (memory_tracker \<times> bool) outcome" where
  "MT_IterateAny create func vaddr sz mt =
     obind (MT_ValidateRange vaddr sz) (\<lambda>_.
       any_piece create func
         (region_pieces (vaddr div TRACKER_REGION_SIZE) (vaddr mod TRACKER_REGION_SIZE) sz) mt)"

section \<open>The operations\<close>

definition change_visitor ::
    "bool \<Rightarrow> (nat \<Rightarrow> nat \<Rightarrow> mode \<Rightarrow> bool) \<Rightarrow> dirty_source \<Rightarrow> bool \<Rightarrow> 'a visitor" where
  "change_visitor hot pok src enable index manager offset bytes s =
     (let ((pm, mt), acc) = s in
      obind (ChangeState hot pok src enable (rm_addr manager + offset) bytes (pm, manager)) (\<lambda>(pm, manager).
        Ret ((pm, MT_store index manager mt), acc)))"

definition modified_visitor ::
    "bool \<Rightarrow> (nat \<Rightarrow> nat \<Rightarrow> mode \<Rightarrow> bool) \<Rightarrow> dirty_source \<Rightarrow> bool \<Rightarrow> (nat \<times> nat) list visitor" where
  "modified_visitor hot pok src clear index manager offset bytes s =
     (let ((pm, mt), calls) = s in
      obind (ForEachModifiedRange hot pok src clear (rm_addr manager + offset) bytes (pm, manager))
        (\<lambda>((pm, manager), more). Ret ((pm, MT_store index manager mt), calls @ more)))"

definition IsRegionCpuModified :: "nat \<Rightarrow> nat \<Rightarrow> mt_state \<Rightarrow> (mt_state \<times> bool) outcome" where
  "IsRegionCpuModified vaddr sz s =
     (let (pm, mt) = s in
      obind (CheckNotInUploadCallback mt) (\<lambda>_.
      omap (\<lambda>(mt, b). ((pm, mt), b))
        (MT_IterateAny True (\<lambda>rm offset bytes. RM_IsModified Cpu offset bytes rm) vaddr sz mt)))"

definition IsRegionGpuModified :: "nat \<Rightarrow> nat \<Rightarrow> mt_state \<Rightarrow> (mt_state \<times> bool) outcome" where
  "IsRegionGpuModified vaddr sz s =
     (let (pm, mt) = s in
      obind (CheckNotInUploadCallback mt) (\<lambda>_.
      omap (\<lambda>(mt, b). ((pm, mt), b))
        (MT_IterateAny False (\<lambda>rm offset bytes. RM_IsModified Gpu offset bytes rm) vaddr sz mt)))"

definition MT_change ::
    "bool \<Rightarrow> (nat \<Rightarrow> nat \<Rightarrow> mode \<Rightarrow> bool) \<Rightarrow> bool \<Rightarrow> dirty_source \<Rightarrow> bool \<Rightarrow> nat \<Rightarrow> nat \<Rightarrow> mt_state \<Rightarrow>
     mt_state outcome" where
  "MT_change hot pok create src enable vaddr sz s =
     omap fst (MT_Iterate create (change_visitor hot pok src enable) vaddr sz (s, ()))"

definition MarkRegionAsCpuModified ::
    "bool \<Rightarrow> (nat \<Rightarrow> nat \<Rightarrow> mode \<Rightarrow> bool) \<Rightarrow> nat \<Rightarrow> nat \<Rightarrow> mt_state \<Rightarrow> mt_state outcome" where
  "MarkRegionAsCpuModified hot pok vaddr sz s =
     obind (CheckNotInUploadCallback (snd s)) (\<lambda>_. MT_change hot pok True Cpu True vaddr sz s)"

definition MarkRegionAsGpuModified ::
    "bool \<Rightarrow> (nat \<Rightarrow> nat \<Rightarrow> mode \<Rightarrow> bool) \<Rightarrow> nat \<Rightarrow> nat \<Rightarrow> mt_state \<Rightarrow> mt_state outcome" where
  "MarkRegionAsGpuModified hot pok vaddr sz s =
     obind (CheckNotInUploadCallback (snd s)) (\<lambda>_. MT_change hot pok True Gpu True vaddr sz s)"

definition UnmarkRegionAsGpuModified ::
    "bool \<Rightarrow> (nat \<Rightarrow> nat \<Rightarrow> mode \<Rightarrow> bool) \<Rightarrow> nat \<Rightarrow> nat \<Rightarrow> mt_state \<Rightarrow> mt_state outcome" where
  "UnmarkRegionAsGpuModified hot pok vaddr sz s =
     obind (CheckNotInUploadCallback (snd s)) (\<lambda>_. MT_change hot pok False Gpu False vaddr sz s)"

definition UntrackMemory ::
    "bool \<Rightarrow> (nat \<Rightarrow> nat \<Rightarrow> mode \<Rightarrow> bool) \<Rightarrow> nat \<Rightarrow> nat \<Rightarrow> mt_state \<Rightarrow> mt_state outcome" where
  "UntrackMemory hot pok vaddr sz s =
     obind (CheckNotInUploadCallback (snd s)) (\<lambda>_.
     obind (MT_IterateAny False (\<lambda>rm offset bytes. RM_IsModified Gpu offset bytes rm) vaddr sz (snd s))
       (\<lambda>(mt, dirty).
         if dirty then Exit else MT_change hot pok False Cpu True vaddr sz (fst s, mt)))"

text \<open>
  \<open>InvalidateRegion\<close>: per region, the GPU test and the CPU change happen under one lock;
  \<open>on_flush\<close> runs after the lock is released.
\<close>

definition invalidate_visitor ::
    "bool \<Rightarrow> (nat \<Rightarrow> nat \<Rightarrow> mode \<Rightarrow> bool) \<Rightarrow> (mt_state \<Rightarrow> mt_state outcome) \<Rightarrow> nat visitor" where
  "invalidate_visitor hot pok on_flush index manager offset bytes s =
     obind (RM_IsModified Gpu offset bytes manager) (\<lambda>should_flush.
       if should_flush then omap (\<lambda>t. (t, snd s + 1)) (on_flush (fst s))
       else change_visitor hot pok Cpu True index manager offset bytes s)"

definition InvalidateRegion ::
    "bool \<Rightarrow> (nat \<Rightarrow> nat \<Rightarrow> mode \<Rightarrow> bool) \<Rightarrow> (mt_state \<Rightarrow> mt_state outcome) \<Rightarrow> nat \<Rightarrow> nat \<Rightarrow> mt_state \<Rightarrow>
     (mt_state \<times> nat) outcome" where
  "InvalidateRegion hot pok on_flush vaddr sz s =
     obind (CheckNotInUploadCallback (snd s)) (\<lambda>_.
     obind (MT_ValidateRange vaddr sz) (\<lambda>_.
       MT_Iterate False (invalidate_visitor hot pok on_flush) vaddr sz (s, 0)))"

text \<open>The result holds the calls of \<open>preflight\<close> and those of \<open>func\<close>.\<close>

definition ForEachDownloadRange ::
    "bool \<Rightarrow> (nat \<Rightarrow> nat \<Rightarrow> mode \<Rightarrow> bool) \<Rightarrow> bool \<Rightarrow> nat \<Rightarrow> nat \<Rightarrow> mt_state \<Rightarrow>
     (mt_state \<times> (nat \<times> nat) list \<times> (nat \<times> nat) list) outcome" where
  "ForEachDownloadRange hot pok clear vaddr sz s =
     obind (CheckNotInUploadCallback (snd s)) (\<lambda>_.
     obind (MT_Iterate False (modified_visitor hot pok Gpu False) vaddr sz (s, [])) (\<lambda>(s, preflight).
     obind (MT_Iterate False (modified_visitor hot pok Gpu False) vaddr sz (s, [])) (\<lambda>(s, calls).
       if clear
       then omap (\<lambda>(s, _). (s, preflight, calls))
         (MT_Iterate False (modified_visitor hot pok Gpu True) vaddr sz (s, []))
       else Ret (s, preflight, calls))))"

definition set_upload :: "bool \<Rightarrow> mt_state \<Rightarrow> mt_state" where
  "set_upload b s = (fst s, snd s\<lparr>mt_in_upload := b\<rparr>)"

definition ForEachUploadRange ::
    "bool \<Rightarrow> (nat \<Rightarrow> nat \<Rightarrow> mode \<Rightarrow> bool) \<Rightarrow> bool \<Rightarrow> nat \<Rightarrow> nat \<Rightarrow> mt_state \<Rightarrow>
     (mt_state \<times> (nat \<times> nat) list) outcome" where
  "ForEachUploadRange hot pok is_written vaddr sz s =
     obind (CheckNotInUploadCallback (snd s)) (\<lambda>_.
     obind
       (if is_written then Ret s
        else obind (HasHotPage hot (fst s) vaddr sz) (\<lambda>has_hot.
          if \<not> has_hot then Ret s
          else obind (IsRegionGpuModified vaddr sz s) (\<lambda>(s, modified).
            if modified then Ret s else MarkRegionAsCpuModified hot pok vaddr sz s))) (\<lambda>s.
     obind (MT_Iterate True (\<lambda>_ _ _ _ s. Ret s) vaddr sz (s, ())) (\<lambda>(s, _).
     let previous = mt_in_upload (snd s); s = set_upload True s in
     obind (MT_Iterate False (modified_visitor hot pok Cpu True) vaddr sz (s, [])) (\<lambda>(s, calls).
     obind (if is_written then MT_change hot pok False Gpu True vaddr sz s else Ret s) (\<lambda>s.
       Ret (set_upload previous s, calls))))))"

section \<open>The debug checks against the byte sets\<close>

fun check_pages :: "(nat \<Rightarrow> unit outcome) \<Rightarrow> nat list \<Rightarrow> unit outcome" where
  "check_pages check [] = Ret ()"
| "check_pages check (page # pages) = obind (check page) (\<lambda>_. check_pages check pages)"

definition ValidateGpuDirtyPages :: "range_map \<Rightarrow> nat \<Rightarrow> nat \<Rightarrow> unit outcome" where
  "ValidateGpuDirtyPages dirty vaddr sz =
     (if vaddr = 0 \<or> sz = 0 \<or> sz > u64_max - vaddr \<or> vaddr mod TRACKER_PAGE_SIZE \<noteq> 0 \<or>
         sz mod TRACKER_PAGE_SIZE \<noteq> 0 then Exit
      else
        check_pages (\<lambda>page.
            obind (RangeSet_Intersections dirty page TRACKER_PAGE_SIZE) (\<lambda>ranges.
              if ranges = [] then Exit else Ret ()))
          (page_addresses vaddr (vaddr + sz)))"

definition ValidateGpuDirtyOwnership :: "range_map \<Rightarrow> nat \<Rightarrow> nat \<Rightarrow> mt_state \<Rightarrow> unit outcome" where
  "ValidateGpuDirtyOwnership dirty vaddr sz s =
     obind (MT_ValidateRange vaddr sz) (\<lambda>_.
     if vaddr + sz > u64_max - (TRACKER_PAGE_SIZE - 1) then Exit
     else
       let start = PageStart vaddr; fin = PageStart (vaddr + sz + TRACKER_PAGE_SIZE - 1) in
       check_pages (\<lambda>page.
           obind (RangeSet_Intersections dirty page TRACKER_PAGE_SIZE) (\<lambda>ranges.
           obind (IsRegionGpuModified page TRACKER_PAGE_SIZE s) (\<lambda>(_, modified).
             if modified \<noteq> (ranges \<noteq> []) then Exit else Ret ())))
         (page_addresses start fin))"

section \<open>The abstract state: two sets of pages\<close>

text \<open>
  A page of a region without a manager counts as modified by the CPU and not by the GPU, as
  the constructor of a manager would have it.
\<close>

definition mt_bits :: "dirty_source \<Rightarrow> memory_tracker \<Rightarrow> nat \<Rightarrow> bool" where
  "mt_bits src mt n =
     (case mt_regions mt (n div 1024) of
        None \<Rightarrow> src = Cpu
      | Some rm \<Rightarrow> ba_bit (GetBits src rm) (n mod 1024))"

definition mt_inv :: "bool \<Rightarrow> (nat \<Rightarrow> nat) \<Rightarrow> mt_state \<Rightarrow> bool" where
  "mt_inv hot others s \<longleftrightarrow>
     pm_inv hot (fst s) \<and>
     (\<forall>i rm. mt_regions (snd s) i = Some rm \<longrightarrow>
        i < 262144 \<and> rm_addr rm = i * TRACKER_REGION_SIZE \<and> rm_inv rm) \<and>
     set (mt_storage (snd s)) = dom (mt_regions (snd s)) \<and>
     (\<forall>n < 268435456. counters_ok others (mt_bits Cpu (snd s) n) (mt_bits Gpu (snd s) n) n (pm_page (fst s) n))"

definition mt_same :: "memory_tracker \<Rightarrow> memory_tracker \<Rightarrow> bool" where
  "mt_same mt mt' \<longleftrightarrow> (\<forall>src n. mt_bits src mt' n = mt_bits src mt n) \<and>
     mt_in_upload mt' = mt_in_upload mt \<and>
     (\<forall>k. mt_regions mt k \<noteq> None \<longrightarrow> mt_regions mt' k \<noteq> None)"

lemma mt_same_refl [simp]: "mt_same mt mt"
  by (simp add: mt_same_def)

lemma mt_same_trans: "mt_same a b \<Longrightarrow> mt_same b c \<Longrightarrow> mt_same a c"
  unfolding mt_same_def by blast

lemma mt_invD:
  assumes "mt_inv hot others (pm, mt)" "mt_regions mt i = Some rm"
  shows "i < 262144" "rm_addr rm = i * 4194304" "rm_inv rm" "pm_inv hot pm"
  using assms unfolding mt_inv_def by auto

lemma region_page:
  assumes "rm_addr rm = i * 4194304"
  shows "rm_page rm j = 1024 * i + j"
  using assms by (simp add: rm_page_def)

lemma page_parts: "(1024 * i + j) div 1024 = i" "(1024 * i + j) mod 1024 = j" if "j < (1024 :: nat)"
  using page_split [OF that, of i] by simp_all

lemma page_of_region: "(n :: nat) div 1024 = i \<Longrightarrow> n = 1024 * i + n mod 1024"
  by (metis mult_div_mod_eq)

lemma page_bound: "i < 262144 \<Longrightarrow> j < 1024 \<Longrightarrow> 1024 * i + j < (268435456 :: nat)"
  by linarith

lemma region_of_page: "(n :: nat) < 268435456 \<longleftrightarrow> n div 1024 < 262144"
  by (simp add: div_less_iff_less_mult)

lemma mt_inv_watch:
  assumes inv: "mt_inv hot others (pm, mt)" and r: "mt_regions mt i = Some rm"
  shows "watch_inv others (pm, rm)"
  unfolding watch_inv_def fst_conv snd_conv region_page [OF mt_invD(2) [OF assms]]
proof (intro allI impI)
  fix j :: nat assume j: "j < 1024"
  have "1024 * i + j < 268435456" using page_bound mt_invD(1) [OF assms] j by blast
  then have "counters_ok others (mt_bits Cpu mt (1024 * i + j)) (mt_bits Gpu mt (1024 * i + j))
      (1024 * i + j) (pm_page pm (1024 * i + j))"
    using inv by (simp add: mt_inv_def)
  then show "counters_ok others (ba_bit (rm_cpu_dirty rm) j) (ba_bit (rm_gpu_dirty rm) j)
      (1024 * i + j) (pm_page pm (1024 * i + j))"
    unfolding mt_bits_def page_parts [OF j] r by simp
qed

lemma Fill_bits [simp]: "ba_bit (BitArray_Fill no_pages) j \<longleftrightarrow> j < 1024"
  by (simp add: ba_bit_Fill BitArray_N_def BitArray_empty_def)

lemma new_manager:
  assumes "i < 262144"
  obtains rm where "RegionManager_new (i * 4194304) = Ret rm" "rm_addr rm = i * 4194304" "rm_inv rm"
    "\<And>j. ba_bit (rm_cpu_dirty rm) j \<longleftrightarrow> j < 1024" "\<And>j. \<not> ba_bit (rm_gpu_dirty rm) j"
proof -
  define rm where "rm = \<lparr>rm_addr = i * 4194304, rm_cpu_dirty = BitArray_Fill no_pages, rm_gpu_dirty = no_pages,
        rm_writable = BitArray_Fill no_pages, rm_readable = BitArray_Fill no_pages\<rparr>"
  have new: "RegionManager_new (i * 4194304) = Ret rm" by (simp add: RegionManager_new_def rm_def)
  have "BitArray_Fill no_pages = BitArray_not no_pages"
    by (simp add: BitArray_Fill_def BitArray_not_def BitArray_empty_def)
  moreover have "region_base_ok (i * 4194304)" using assms by (simp add: region_base_ok_def)
  moreover have "length (BitArray_Fill no_pages) = 16" "length no_pages = 16"
    by (simp_all add: BitArray_Fill_def BitArray_empty_def)
  ultimately have "rm_inv rm" by (simp add: rm_inv_def rm_def ba_bit_empty)
  then show thesis using that [OF new] by (simp add: rm_def ba_bit_empty)
qed

lemma GetOrCreateRegion_ok:
  assumes inv: "mt_inv hot others (pm, mt)" and i: "i < 262144"
  obtains mt1 rm where "MT_GetOrCreateRegion i mt = Ret mt1" "mt_regions mt1 i = Some rm"
    "mt_inv hot others (pm, mt1)" "mt_same mt mt1"
proof (cases "mt_regions mt i")
  case (Some rm)
  with that [of mt rm] inv show thesis by (simp add: MT_GetOrCreateRegion_def)
next
  case None
  obtain rm where rm: "RegionManager_new (i * 4194304) = Ret rm" "rm_addr rm = i * 4194304" "rm_inv rm"
    "\<And>j. ba_bit (rm_cpu_dirty rm) j \<longleftrightarrow> j < 1024" "\<And>j. \<not> ba_bit (rm_gpu_dirty rm) j"
    using new_manager [OF i] by blast
  define mt1 where "mt1 = MT_store i rm mt\<lparr>mt_storage := mt_storage mt @ [i]\<rparr>"
  have regs: "mt_regions mt1 = (mt_regions mt)(i := Some rm)" by (simp add: mt1_def MT_store_def)
  have bits: "mt_bits src mt1 n = mt_bits src mt n" for src n
  proof (cases "n div 1024 = i")
    case True
    then show ?thesis using rm(4,5) None by (cases src) (simp_all add: mt_bits_def regs)
  qed (simp add: mt_bits_def regs)
  have "mt_same mt mt1" using bits by (simp add: mt_same_def mt1_def MT_store_def)
  moreover have "set (mt_storage mt1) = dom (mt_regions mt1)"
    using inv by (simp add: mt1_def MT_store_def mt_inv_def)
  then have "mt_inv hot others (pm, mt1)"
    using inv rm(2,3) i unfolding mt_inv_def by (simp add: bits regs)
  moreover have "MT_GetOrCreateRegion i mt = Ret mt1"
    using None rm(1) by (simp add: MT_GetOrCreateRegion_def mt1_def)
  ultimately show thesis using that [of mt1 rm] by (simp add: regs)
qed

section \<open>The effect of an update on one piece\<close>

definition piece_pages :: "nat \<times> nat \<times> nat \<Rightarrow> nat set" where
  "piece_pages p = range_pages (fst p * TRACKER_REGION_SIZE + fst (snd p)) (snd (snd p))"

definition piece_bounds :: "nat \<times> nat \<times> nat \<Rightarrow> bool" where
  "piece_bounds p \<longleftrightarrow> fst p < 262144 \<and> 0 < snd (snd p) \<and> fst (snd p) + snd (snd p) \<le> TRACKER_REGION_SIZE"

lemma piece_in_region:
  assumes "piece_bounds (i, off, n)" "k \<in> piece_pages (i, off, n)"
  shows "k div 1024 = i"
proof -
  have b: "i * 4194304 = 4096 * (1024 * i)" by simp
  have "(i * 4194304 + off) div 4096 = 1024 * i + off div 4096" unfolding b by simp
  moreover have "(i * 4194304 + off + n - 1) div 4096 = 1024 * i + (off + n - 1) div 4096"
  proof -
    have "i * 4194304 + off + n - 1 = 4096 * (1024 * i) + (off + n - 1)"
      using assms(1) by (simp add: piece_bounds_def)
    then show ?thesis by simp
  qed
  moreover have "(off + n - 1) div 4096 < 1024"
    using assms(1) by (intro div_less_iff_less_mult [THEN iffD2]) (auto simp: piece_bounds_def)
  ultimately have "1024 * i \<le> k" "k < 1024 * i + 1024"
    using assms(2) unfolding piece_pages_def range_pages_def fst_conv snd_conv by auto
  then show ?thesis by (intro div_nat_eqI) simp_all
qed

definition mt_effect ::
    "bool \<Rightarrow> (nat \<Rightarrow> nat) \<Rightarrow> dirty_source \<Rightarrow> bool \<Rightarrow> nat set \<Rightarrow> mt_state \<Rightarrow> mt_state \<Rightarrow> bool" where
  "mt_effect hot others src enable A s t \<longleftrightarrow>
     mt_inv hot others t \<and> mt_in_upload (snd t) = mt_in_upload (snd s) \<and>
     (\<forall>k. mt_regions (snd s) k \<noteq> None \<longrightarrow> mt_regions (snd t) k \<noteq> None) \<and>
     (\<forall>n. mt_bits src (snd t) n = (if n \<in> A then enable else mt_bits src (snd s) n)) \<and>
     (\<forall>n. mt_bits (other_side src) (snd t) n = mt_bits (other_side src) (snd s) n)"

definition mt_fails ::
    "(nat \<Rightarrow> nat) \<Rightarrow> (nat \<Rightarrow> nat \<Rightarrow> mode \<Rightarrow> bool) \<Rightarrow> dirty_source \<Rightarrow> bool \<Rightarrow> nat set \<Rightarrow> mt_state \<Rightarrow> bool" where
  "mt_fails others pok src enable A s \<longleftrightarrow>
     (\<exists>v n m. \<not> pok v n m) \<or> 0 \<in> A \<or> (\<exists>n \<in> A. 127 \<le> others n) \<or>
     enable \<and> (\<exists>n \<in> A. mt_bits (other_side src) (snd s) n)"

lemma mt_effect_trans:
  "mt_effect hot others src enable A s t \<Longrightarrow> mt_effect hot others src enable B t u \<Longrightarrow>
   mt_effect hot others src enable (A \<union> B) s u"
  unfolding mt_effect_def by auto

lemma mt_effect_same:
  "mt_same mt mt1 \<Longrightarrow> mt_effect hot others src enable A (pm, mt1) t \<Longrightarrow>
   mt_effect hot others src enable A (pm, mt) t"
  unfolding mt_effect_def mt_same_def by auto

text \<open>Storing a manager that made a legal step.\<close>

lemma store_effect:
  assumes inv: "mt_inv hot others (pm, mt)" and r: "mt_regions mt i = Some rm"
    and b: "piece_bounds (i, off, n)"
    and st: "rm_step_ok hot others src enable (touched rm (rm_addr rm + off) n) (pm, rm) (pm', rm')"
  shows "mt_effect hot others src enable (piece_pages (i, off, n)) (pm, mt) (pm', MT_store i rm' mt)"
proof -
  let ?P = "piece_pages (i, off, n)" and ?J = "touched rm (rm_addr rm + off) n"
  note D = mt_invD [OF inv r]
  have J: "j \<in> ?J \<longleftrightarrow> 1024 * i + j \<in> ?P" for j
    unfolding touched_def piece_pages_def region_page [OF D(2)] D(2) by simp
  have ch: "rm_changed src enable ?J rm rm'" "rm_inv rm'" "watch_inv others (pm', rm')"
    "pm_frame hot (rm_addr rm div 4194304) pm pm'"
    using st by (simp_all add: rm_step_ok_def)
  have addr: "rm_addr rm' = i * 4194304" using ch(1) D(2) by (simp add: rm_changed_def)
  have regs: "mt_regions (MT_store i rm' mt) = (mt_regions mt)(i := Some rm')" by (simp add: MT_store_def)
  have bits: "mt_bits src (MT_store i rm' mt) k = (if k \<in> ?P then enable else mt_bits src mt k)" for k
  proof (cases "k div 1024 = i")
    case True
    then have "k \<in> ?P \<longleftrightarrow> k mod 1024 \<in> ?J" unfolding J using page_of_region by metis
    then show ?thesis using ch(1) True r by (simp add: mt_bits_def regs rm_changed_def)
  next
    case False
    then have "k \<notin> ?P" using piece_in_region [OF b] by blast
    with False show ?thesis by (simp add: mt_bits_def regs)
  qed
  have other: "mt_bits (other_side src) (MT_store i rm' mt) k = mt_bits (other_side src) mt k" for k
    using ch(1) r by (simp add: mt_bits_def regs rm_changed_def)
  have counters: "counters_ok others (mt_bits Cpu (MT_store i rm' mt) k) (mt_bits Gpu (MT_store i rm' mt) k) k
      (pm_page pm' k)" if k: "k < 268435456" for k
  proof (cases "k div 1024 = i")
    case True
    have "counters_ok others (ba_bit (rm_cpu_dirty rm') (k mod 1024)) (ba_bit (rm_gpu_dirty rm') (k mod 1024))
        (rm_page rm' (k mod 1024)) (pm_page pm' (rm_page rm' (k mod 1024)))"
      using ch(3) by (simp add: watch_inv_def)
    moreover have "rm_page rm' (k mod 1024) = k"
      unfolding region_page [OF addr] using True page_of_region by metis
    ultimately show ?thesis using True by (simp add: mt_bits_def regs)
  next
    case False
    have "rm_addr rm div 4194304 = i" unfolding D(2) by simp
    with False ch(4) have "pm_page pm' k = pm_page pm k" by (simp add: pm_frame_def)
    moreover have "mt_bits s (MT_store i rm' mt) k = mt_bits s mt k" for s
      using False by (simp add: mt_bits_def regs)
    ultimately show ?thesis using inv k by (simp add: mt_inv_def)
  qed
  have "mt_inv hot others (pm', MT_store i rm' mt)"
  proof -
    have "set (mt_storage mt) = dom (mt_regions mt)" using inv by (simp add: mt_inv_def)
    moreover have "i \<in> dom (mt_regions mt)" using r by blast
    ultimately have "set (mt_storage mt) = dom (mt_regions (MT_store i rm' mt))"
      unfolding regs by auto
    moreover have "mt_storage (MT_store i rm' mt) = mt_storage mt" by (simp add: MT_store_def)
    ultimately show ?thesis
      using inv counters ch(2,4) addr D(1) unfolding mt_inv_def
      by (auto simp: regs pm_frame_def)
  qed
  then show ?thesis
    using bits other unfolding mt_effect_def by (simp add: MT_store_def)
qed

lemma piece_region:
  assumes inv: "mt_inv hot others (pm, mt)" and r: "mt_regions mt i = Some rm"
    and b: "piece_bounds (i, off, n)"
  shows "in_region rm (rm_addr rm + off) n"
    "sync_fails others pok rm (touched rm (rm_addr rm + off) n) \<or>
       conflict src enable (touched rm (rm_addr rm + off) n) rm \<Longrightarrow>
     mt_fails others pok src enable (piece_pages (i, off, n)) (pm, mt)"
    "k \<in> piece_pages (i, off, n) \<longleftrightarrow> k div 1024 = i \<and> k mod 1024 \<in> touched rm (rm_addr rm + off) n"
proof -
  let ?P = "piece_pages (i, off, n)" and ?J = "touched rm (rm_addr rm + off) n"
  note D = mt_invD [OF inv r]
  show "in_region rm (rm_addr rm + off) n" using b by (simp add: in_region_def piece_bounds_def)
  have J: "j \<in> ?J \<longleftrightarrow> 1024 * i + j \<in> ?P" for j
    unfolding touched_def piece_pages_def region_page [OF D(2)] D(2) by simp
  have jl: "j < 1024" if "j \<in> ?J" for j
    using piece_in_region [OF b, of "1024 * i + j"] that unfolding J by simp
  show "k \<in> ?P \<longleftrightarrow> k div 1024 = i \<and> k mod 1024 \<in> ?J"
    using J piece_in_region [OF b, of k] page_of_region by metis
  assume f: "sync_fails others pok rm ?J \<or> conflict src enable ?J rm"
  have z: "rm_addr rm = 0 \<and> 0 \<in> ?J \<Longrightarrow> 0 \<in> ?P"
  proof -
    assume z: "rm_addr rm = 0 \<and> 0 \<in> ?J"
    then have "i = 0" using D(2) by simp
    with z J [of 0] show "0 \<in> ?P" by (simp only: mult_0_right add_0)
  qed
  have o: "\<exists>k \<in> ?P. 127 \<le> others k" if "\<exists>j \<in> ?J. 127 \<le> others (rm_page rm j)"
    using that J unfolding region_page [OF D(2)] by blast
  have c: "\<exists>k \<in> ?P. mt_bits (other_side src) mt k" if j: "j \<in> ?J" "ba_bit (GetBits (other_side src) rm) j" for j
  proof
    show "1024 * i + j \<in> ?P" using j(1) J by blast
    show "mt_bits (other_side src) mt (1024 * i + j)"
      unfolding mt_bits_def page_parts [OF jl [OF j(1)]] r using j(2) by simp
  qed
  show "mt_fails others pok src enable ?P (pm, mt)"
    using f z o c unfolding sync_fails_def conflict_def mt_fails_def by auto
qed

lemma change_visitor_props:
  assumes inv: "mt_inv hot others (pm, mt)" and r: "mt_regions mt i = Some rm"
    and b: "piece_bounds (i, off, n)"
  shows "owp (change_visitor hot pok src enable i rm off n ((pm, mt), u))
    (\<lambda>t. snd t = u \<and> mt_effect hot others src enable (piece_pages (i, off, n)) (pm, mt) (fst t))
    (mt_fails others pok src enable (piece_pages (i, off, n)) (pm, mt))"
proof -
  note D = mt_invD [OF inv r]
  have wi: "watch_inv others (pm, rm)" by (rule mt_inv_watch [OF inv r])
  note reg = piece_region(1) [OF inv r b]
  show ?thesis
    using ChangeState_props [OF D(4,3) wi reg, of pok src enable] store_effect [OF inv r b]
      piece_region(2) [OF inv r b, of pok src enable]
    by (auto simp: change_visitor_def Let_def elim!: owp_mono)
qed

text \<open>A piece may be visited without creating its manager when the default agrees.\<close>

definition visit_ok :: "bool \<Rightarrow> dirty_source \<Rightarrow> bool \<Rightarrow> nat \<times> nat \<times> nat \<Rightarrow> mt_state \<Rightarrow> bool" where
  "visit_ok create src enable p s \<longleftrightarrow> piece_bounds p \<and>
     (create \<or> (src = Cpu) = enable \<or> mt_regions (snd s) (fst p) \<noteq> None)"

text \<open>
  The shape of every visit: fetch or create the manager, then the visitor. \<open>Q\<close> is what the
  visitor establishes on top of the effect.
\<close>

lemma visit_props:
  assumes inv: "mt_inv hot others s" and ok: "visit_ok create src enable p s"
    and vis: "\<And>mt rm. mt_same (snd s) mt \<Longrightarrow> mt_inv hot others (fst s, mt) \<Longrightarrow> mt_regions mt (fst p) = Some rm \<Longrightarrow>
      owp (func (fst p) rm (fst (snd p)) (snd (snd p)) ((fst s, mt), acc))
        (\<lambda>t. Q (snd t) \<and> mt_effect hot others src enable (piece_pages p) (fst s, mt) (fst t)) (E mt)"
    and E: "\<And>mt. mt_same (snd s) mt \<Longrightarrow> E mt \<Longrightarrow> F"
    and none: "mt_regions (snd s) (fst p) = None \<Longrightarrow> \<not> create \<Longrightarrow> Q acc"
  shows "owp (MT_visit create func p (s, acc))
    (\<lambda>t. Q (snd t) \<and> mt_effect hot others src enable (piece_pages p) s (fst t)) F"
proof -
  obtain pm mt where s: "s = (pm, mt)" by (cases s)
  obtain i off n where p: "p = (i, off, n)" by (metis prod_cases3)
  have b: "piece_bounds (i, off, n)" and i: "i < 262144"
    using ok by (auto simp: visit_ok_def p piece_bounds_def)
  have inv': "mt_inv hot others (pm, mt)" using inv s by simp
  have go: "owp (func i rm off n ((pm, mt1), acc))
      (\<lambda>t. Q (snd t) \<and> mt_effect hot others src enable (piece_pages p) s (fst t)) F"
    if "mt_same mt mt1" "mt_inv hot others (pm, mt1)" "mt_regions mt1 i = Some rm" for mt1 rm
    using vis [of mt1 rm] E [of mt1] that mt_effect_same [OF that(1)]
    by (auto simp: s p elim!: owp_mono)
  show ?thesis
  proof (cases create)
    case True
    obtain mt1 rm where "MT_GetOrCreateRegion i mt = Ret mt1" "mt_regions mt1 i = Some rm"
      "mt_inv hot others (pm, mt1)" "mt_same mt mt1"
      using GetOrCreateRegion_ok [OF inv' i] by blast
    with go True show ?thesis by (simp add: MT_visit_def s p)
  next
    case False
    show ?thesis
    proof (cases "mt_regions mt i")
      case (Some rm)
      with go [of mt rm] inv' False show ?thesis by (simp add: MT_visit_def s p)
    next
      case None
      then have en: "(src = Cpu) = enable" using ok False by (simp add: visit_ok_def s p)
      have "mt_bits src mt k = enable" if "k \<in> piece_pages (i, off, n)" for k
        using piece_in_region [OF b that] None en by (simp add: mt_bits_def)
      then have "mt_effect hot others src enable (piece_pages p) s s"
        using inv' unfolding mt_effect_def s p by auto
      moreover have "MT_visit create func p (s, acc) = Ret (s, acc)"
        using False None by (simp add: MT_visit_def s p)
      moreover have "Q acc" using none None False by (simp add: s p)
      ultimately show ?thesis by simp
    qed
  qed
qed

lemma mt_effect_refl: "mt_inv hot others s \<Longrightarrow> mt_effect hot others src enable {} s s"
  by (simp add: mt_effect_def)

lemma mt_fails_mono: "mt_fails others pok src enable A s \<Longrightarrow> A \<subseteq> B \<Longrightarrow> mt_fails others pok src enable B s"
  unfolding mt_fails_def by blast

lemma mt_fails_back:
  "mt_effect hot others src enable A s t \<Longrightarrow> mt_fails others pok src enable B t \<Longrightarrow>
   mt_fails others pok src enable (A \<union> B) s"
  unfolding mt_fails_def mt_effect_def by blast

lemma mt_fails_same:
  "mt_same (snd s) mt \<Longrightarrow> mt_fails others pok src enable A (pm, mt) \<Longrightarrow> mt_fails others pok src enable A s"
  unfolding mt_fails_def mt_same_def by auto

lemma visit_ok_effect:
  "mt_effect hot others src enable A s t \<Longrightarrow> visit_ok create src enable p s \<Longrightarrow> visit_ok create src enable p t"
  unfolding visit_ok_def mt_effect_def by blast

interpretation change: piecewise
  "MT_visit create (change_visitor hot pok src enable)"
  piece_pages "\<lambda>p s. visit_ok create src enable p (fst s)"
  "\<lambda>s :: mt_state \<times> unit. mt_inv hot others (fst s)"
  "\<lambda>A s t. mt_effect hot others src enable A (fst s) (fst t)"
  "\<lambda>A s. mt_fails others pok src enable A (fst s)"
  for create hot pok src enable others
proof (unfold_locales, goal_cases)
  case (1 s p)
  obtain st where s: "s = (st, ())" by (cases s) simp
  have "owp (MT_visit create (change_visitor hot pok src enable) p (st, ()))
      (\<lambda>t. True \<and> mt_effect hot others src enable (piece_pages p) st (fst t))
      (mt_fails others pok src enable (piece_pages p) st)"
  proof (rule visit_props [where E = "\<lambda>mt. mt_fails others pok src enable (piece_pages p) (fst st, mt)"])
    show "mt_inv hot others st" "visit_ok create src enable p st" using 1 s by simp_all
    show "owp (change_visitor hot pok src enable (fst p) rm (fst (snd p)) (snd (snd p)) ((fst st, mt), ()))
        (\<lambda>t. True \<and> mt_effect hot others src enable (piece_pages p) (fst st, mt) (fst t))
        (mt_fails others pok src enable (piece_pages p) (fst st, mt))"
      if "mt_inv hot others (fst st, mt)" "mt_regions mt (fst p) = Some rm" for mt rm
      using change_visitor_props [OF that, of "fst (snd p)" "snd (snd p)" pok src enable "()"] 1
      by (auto simp: visit_ok_def elim!: owp_mono)
  qed (use mt_fails_same in blast)+
  then show ?case by (simp add: s)
next
  case (2 s A t)
  then show ?case by (simp add: mt_effect_def)
qed (rule visit_ok_effect mt_effect_refl mt_effect_trans mt_fails_mono mt_fails_back; assumption)+

section \<open>The pieces of a range\<close>

lemma range_pages_split:
  assumes "0 < n" "0 < k" "(a + n) mod 4096 = 0"
  shows "range_pages a n \<union> range_pages (a + n) k = range_pages a (n + k)"
proof -
  obtain q where q: "a + n = 4096 * q" using assms(3) by (metis mod_0_imp_dvd dvdE)
  then have "0 < q" using assms(1) by (cases q) auto
  then have l: "(a + n - 1) div 4096 = q - 1" unfolding q by (intro div_nat_eqI) (auto simp: algebra_simps)
  have m: "(a + n) div 4096 = q" unfolding q by simp
  have "a div 4096 \<le> q - 1" using l assms(1) by (metis Nat.add_diff_assoc Suc_leI div_le_mono One_nat_def le_add1)
  moreover have "q \<le> (a + (n + k) - 1) div 4096" using m assms(2) by (metis Nat.add_diff_assoc Suc_leI add.assoc div_le_mono One_nat_def le_add1)
  ultimately show ?thesis
    unfolding range_pages_def l m using \<open>0 < q\<close> by (auto simp: add.assoc)
qed

lemma region_pieces_props:
  assumes "0 < rem" "off < 4194304" "i * 4194304 + off + rem \<le> 1099511627776"
  shows "(\<forall>p \<in> set (region_pieces i off rem). piece_bounds p) \<and>
    (\<Union>p \<in> set (region_pieces i off rem). piece_pages p) = range_pages (i * 4194304 + off) rem"
  using assms
proof (induction i off rem rule: region_pieces.induct)
  case (1 i off rem)
  define n where "n = min (4194304 - off) rem"
  have n: "0 < n" "n \<le> rem" "off + n \<le> 4194304" using 1(2,3) by (auto simp: n_def)
  have unf: "region_pieces i off rem = (i, off, n) # region_pieces (i + 1) 0 (rem - n)"
    using 1(2,3) by (subst region_pieces.simps) (simp add: n_def Let_def)
  have "i * 4194304 < 1099511627776" using 1(2,4) by linarith
  then have b: "piece_bounds (i, off, n)" using n by (simp add: piece_bounds_def)
  have pp: "piece_pages (i, off, n) = range_pages (i * 4194304 + off) n" by (simp add: piece_pages_def)
  show ?case
  proof (cases "rem = n")
    case True
    have "region_pieces (i + 1) 0 0 = []" by (subst region_pieces.simps) simp
    with True unf b pp show ?thesis by simp
  next
    case False
    then have on: "off + n = 4194304" using n(2) unfolding n_def by (simp add: min_def split: if_splits) (use 1(3) in simp)
    have a: "i * 4194304 + off + n = (i + 1) * 4194304 + 0" using on by simp
    have IH: "(\<forall>p \<in> set (region_pieces (i + 1) 0 (rem - n)). piece_bounds p) \<and>
        (\<Union>p \<in> set (region_pieces (i + 1) 0 (rem - n)). piece_pages p) =
        range_pages ((i + 1) * 4194304 + 0) (rem - n)"
      by (rule 1(1) [OF _ n_def]) (use 1 False n a in \<open>auto\<close>)
    have "(i * 4194304 + off + n) mod 4096 = 0" unfolding a by simp
    from range_pages_split [OF n(1) _ this, of "rem - n"] False n(2)
    have "range_pages (i * 4194304 + off) n \<union> range_pages ((i + 1) * 4194304 + 0) (rem - n) =
        range_pages (i * 4194304 + off) rem"
      unfolding a by simp
    with IH b pp show ?thesis unfolding unf by simp
  qed
qed

lemma pieces_of_range:
  assumes "range_ok vaddr sz"
  shows "\<forall>p \<in> set (region_pieces (vaddr div 4194304) (vaddr mod 4194304) sz). piece_bounds p"
    "(\<Union>p \<in> set (region_pieces (vaddr div 4194304) (vaddr mod 4194304) sz). piece_pages p) = range_pages vaddr sz"
proof -
  have "vaddr div 4194304 * 4194304 + vaddr mod 4194304 = vaddr" by (rule div_mult_mod_eq)
  then show "\<forall>p \<in> set (region_pieces (vaddr div 4194304) (vaddr mod 4194304) sz). piece_bounds p"
    "(\<Union>p \<in> set (region_pieces (vaddr div 4194304) (vaddr mod 4194304) sz). piece_pages p) = range_pages vaddr sz"
    using region_pieces_props [of sz "vaddr mod 4194304" "vaddr div 4194304"] assms
    by (simp_all add: range_ok_def)
qed

lemma MT_ValidateRange_ok: "MT_ValidateRange vaddr sz = (if range_ok vaddr sz then Ret () else Exit)"
  by (auto simp: MT_ValidateRange_def range_ok_def)

lemma MT_Iterate_ok: "MT_Iterate create func vaddr sz s =
    (if range_ok vaddr sz
     then ofold (MT_visit create func) (region_pieces (vaddr div 4194304) (vaddr mod 4194304) sz) s
     else Exit)"
  by (simp add: MT_Iterate_def MT_ValidateRange_ok)

text \<open>A whole update.\<close>

lemma MT_change_props:
  assumes inv: "mt_inv hot others s" and ok: "range_ok vaddr sz"
    and vis: "create \<or> (src = Cpu) = enable \<or>
      (\<forall>n \<in> range_pages vaddr sz. mt_regions (snd s) (n div 1024) \<noteq> None)"
  shows "owp (MT_change hot pok create src enable vaddr sz s)
    (mt_effect hot others src enable (range_pages vaddr sz) s)
    (mt_fails others pok src enable (range_pages vaddr sz) s)"
proof -
  let ?ps = "region_pieces (vaddr div 4194304) (vaddr mod 4194304) sz"
  have "visit_ok create src enable p s" if p: "p \<in> set ?ps" for p
  proof -
    obtain i off n where q: "p = (i, off, n)" by (metis prod_cases3)
    have b: "piece_bounds (i, off, n)" using pieces_of_range(1) [OF ok] p q by blast
    have "(i * 4194304 + off) div 4096 \<le> (i * 4194304 + off + n - 1) div 4096"
    proof (rule div_le_mono)
      have "0 < n" using b by (simp add: piece_bounds_def)
      then show "i * 4194304 + off \<le> i * 4194304 + off + n - 1" by linarith
    qed
    then have k: "(i * 4194304 + off) div 4096 \<in> piece_pages (i, off, n)"
      by (simp add: piece_pages_def range_pages_def)
    then have "(i * 4194304 + off) div 4096 \<in> range_pages vaddr sz"
      using pieces_of_range(2) [OF ok] p q by blast
    with vis piece_in_region [OF b k] b show ?thesis unfolding q visit_ok_def by fastforce
  qed
  then have "\<forall>p \<in> set ?ps. visit_ok create src enable p (fst (s, ()))" by simp
  from change.all_pieces [of hot others "(s, ())", OF _ this, of pok] inv
  show ?thesis
    unfolding MT_change_def MT_Iterate_ok using ok by (simp add: pieces_of_range(2) [OF ok])
qed

section \<open>Queries\<close>

lemma IsModified_piece:
  assumes inv: "mt_inv hot others (pm, mt)" and r: "mt_regions mt i = Some rm"
    and b: "piece_bounds (i, off, n)"
  shows "RM_IsModified src off n rm = Ret (\<exists>k \<in> piece_pages (i, off, n). mt_bits src mt k)"
proof -
  note D = mt_invD [OF inv r]
  have jl: "j < 1024 \<and> 1024 * i + j \<in> piece_pages (i, off, n)" if "j \<in> touched rm (rm_addr rm + off) n" for j
  proof -
    have m: "1024 * i + j \<in> piece_pages (i, off, n)"
      using that unfolding touched_def piece_pages_def region_page [OF D(2)] D(2) by simp
    with piece_in_region [OF b m] show ?thesis by simp
  qed
  have "(\<exists>j \<in> touched rm (rm_addr rm + off) n. ba_bit (GetBits src rm) j) \<longleftrightarrow>
      (\<exists>k \<in> piece_pages (i, off, n). mt_bits src mt k)"
  proof
    assume "\<exists>j \<in> touched rm (rm_addr rm + off) n. ba_bit (GetBits src rm) j"
    then obtain j where j: "j \<in> touched rm (rm_addr rm + off) n" "ba_bit (GetBits src rm) j" by blast
    have "mt_bits src mt (1024 * i + j)"
      unfolding mt_bits_def page_parts [OF conjunct1 [OF jl [OF j(1)]]] r using j(2) by simp
    with jl [OF j(1)] show "\<exists>k \<in> piece_pages (i, off, n). mt_bits src mt k" by blast
  next
    assume "\<exists>k \<in> piece_pages (i, off, n). mt_bits src mt k"
    then obtain k where k: "k \<in> piece_pages (i, off, n)" "mt_bits src mt k" by blast
    with piece_region(3) [OF inv r b, of k] r
    show "\<exists>j \<in> touched rm (rm_addr rm + off) n. ba_bit (GetBits src rm) j"
      by (auto simp: mt_bits_def)
  qed
  then show ?thesis
    using RM_IsModified_ok [OF D(3) piece_region(1) [OF inv r b], of src] by simp
qed

lemma any_piece_ok:
  assumes "mt_inv hot others (pm, mt)" "\<forall>p \<in> set ps. piece_bounds p" "create \<or> src = Gpu"
  shows "\<exists>mt'. any_piece create (\<lambda>rm offset bytes. RM_IsModified src offset bytes rm) ps mt =
      Ret (mt', \<exists>n \<in> (\<Union>p \<in> set ps. piece_pages p). mt_bits src mt n) \<and>
    mt_same mt mt' \<and> mt_inv hot others (pm, mt')"
  using assms(1,2)
proof (induction ps arbitrary: mt)
  case (Cons p ps)
  obtain i off n where p: "p = (i, off, n)" by (metis prod_cases3)
  have b: "piece_bounds (i, off, n)" using Cons.prems p by simp
  have i: "i < 262144" using b by (simp add: piece_bounds_def)
  have split: "(\<exists>k \<in> (\<Union>p \<in> set (p # ps). piece_pages p). mt_bits src mt k) \<longleftrightarrow>
      (\<exists>k \<in> piece_pages (i, off, n). mt_bits src mt k) \<or>
      (\<exists>k \<in> (\<Union>p \<in> set ps. piece_pages p). mt_bits src mt k)" by (auto simp: p)
  obtain mt1 where m1: "(if create then MT_GetOrCreateRegion i mt else Ret mt) = Ret mt1"
    "mt_inv hot others (pm, mt1)" "mt_same mt mt1"
    using GetOrCreateRegion_ok [OF Cons.prems(1) i] Cons.prems(1) by (metis mt_same_refl)
  have found: "(case mt_regions mt1 i of None \<Rightarrow> Ret False | Some rm \<Rightarrow> RM_IsModified src off n rm) =
      Ret (\<exists>k \<in> piece_pages (i, off, n). mt_bits src mt k)"
  proof (cases "mt_regions mt1 i")
    case None
    then have "\<not> create"
      using m1(1) GetOrCreateRegion_ok [OF Cons.prems(1) i] by (metis option.distinct(1) outcome.inject)
    then have "src = Gpu" using assms(3) by simp
    moreover have "mt_bits src mt1 k = (src = Cpu)" if "k \<in> piece_pages (i, off, n)" for k
      using piece_in_region [OF b that] None by (simp add: mt_bits_def)
    ultimately show ?thesis using None m1(3) by (auto simp: mt_same_def)
  next
    case (Some rm)
    then show ?thesis using IsModified_piece [OF m1(2) Some b, of src] m1(3) by (simp add: mt_same_def)
  qed
  show ?case
  proof (cases "\<exists>k \<in> piece_pages (i, off, n). mt_bits src mt k")
    case True
    then show ?thesis using m1 found unfolding p by auto
  next
    case False
    obtain mt' where "any_piece create (\<lambda>rm offset bytes. RM_IsModified src offset bytes rm) ps mt1 =
        Ret (mt', \<exists>n \<in> (\<Union>p \<in> set ps. piece_pages p). mt_bits src mt1 n)"
      "mt_same mt1 mt'" "mt_inv hot others (pm, mt')"
      using Cons.IH [OF m1(2)] Cons.prems(2) by auto
    moreover have "mt_bits src mt1 k = mt_bits src mt k" for k using m1(3) by (simp add: mt_same_def)
    ultimately show ?thesis
      using False m1 found mt_same_trans [OF m1(3)] unfolding p by auto
  qed
qed simp

lemma MT_IterateAny_ok:
  assumes inv: "mt_inv hot others (pm, mt)" and ok: "range_ok vaddr sz" and "create \<or> src = Gpu"
  obtains mt' where "MT_IterateAny create (\<lambda>rm offset bytes. RM_IsModified src offset bytes rm) vaddr sz mt =
      Ret (mt', \<exists>n \<in> range_pages vaddr sz. mt_bits src mt n)"
    "mt_same mt mt'" "mt_inv hot others (pm, mt')"
  using any_piece_ok [OF inv pieces_of_range(1) [OF ok] assms(3)] pieces_of_range(2) [OF ok] ok that
  by (auto simp: MT_IterateAny_def MT_ValidateRange_ok)

section \<open>Reporting ranges\<close>

definition calls_effect ::
    "dirty_source \<Rightarrow> nat set \<Rightarrow> memory_tracker \<Rightarrow> (nat \<times> nat) list \<Rightarrow> (nat \<times> nat) list \<Rightarrow> bool" where
  "calls_effect src A mt acc calls \<longleftrightarrow>
     (calls_aligned acc \<longrightarrow> calls_aligned calls) \<and>
     call_pages calls = call_pages acc \<union> {n \<in> A. mt_bits src mt n}"

lemma call_pages_append [simp]: "call_pages (a @ b) = call_pages a \<union> call_pages b"
  by (auto simp: call_pages_def)

lemma calls_aligned_append [simp]: "calls_aligned (a @ b) \<longleftrightarrow> calls_aligned a \<and> calls_aligned b"
  by (auto simp: calls_aligned_def)

lemma call_pages_Nil [simp]: "call_pages [] = {}" "calls_aligned []"
  by (simp_all add: call_pages_def calls_aligned_def)

lemma modified_visitor_props:
  assumes inv: "mt_inv hot others (pm, mt)" and r: "mt_regions mt i = Some rm"
    and b: "piece_bounds (i, off, n)"
  shows "owp (modified_visitor hot pok src clear i rm off n ((pm, mt), acc))
    (\<lambda>t. calls_effect src (piece_pages (i, off, n)) mt acc (snd t) \<and>
       (if clear then mt_effect hot others src False (piece_pages (i, off, n)) (pm, mt) (fst t)
        else fst t = (pm, mt)))
    (clear \<and> mt_fails others pok src False (piece_pages (i, off, n)) (pm, mt))"
proof -
  note D = mt_invD [OF inv r]
  have wi: "watch_inv others (pm, rm)" by (rule mt_inv_watch [OF inv r])
  note reg = piece_region(1) [OF inv r b]
  have pgs: "{rm_page rm j | j. j \<in> touched rm (rm_addr rm + off) n \<and> ba_bit (GetBits src rm) j} =
      {k \<in> piece_pages (i, off, n). mt_bits src mt k}"
  proof (intro set_eqI iffI)
    fix k assume "k \<in> {rm_page rm j | j. j \<in> touched rm (rm_addr rm + off) n \<and> ba_bit (GetBits src rm) j}"
    then obtain j where j: "k = 1024 * i + j" "j \<in> touched rm (rm_addr rm + off) n" "ba_bit (GetBits src rm) j"
      unfolding region_page [OF D(2)] by blast
    have m: "k \<in> piece_pages (i, off, n)"
      using j(1,2) unfolding touched_def piece_pages_def region_page [OF D(2)] D(2) by simp
    have "j < 1024" using piece_in_region [OF b m] j(1) by simp
    from page_parts [OF this, of i] m j r show "k \<in> {k \<in> piece_pages (i, off, n). mt_bits src mt k}"
      by (simp add: mt_bits_def)
  next
    fix k assume "k \<in> {k \<in> piece_pages (i, off, n). mt_bits src mt k}"
    then have k: "k div 1024 = i" "k mod 1024 \<in> touched rm (rm_addr rm + off) n" "mt_bits src mt k"
      using piece_region(3) [OF inv r b, of k] by auto
    then have "ba_bit (GetBits src rm) (k mod 1024)" using r by (simp add: mt_bits_def)
    moreover have "k = rm_page rm (k mod 1024)"
      unfolding region_page [OF D(2)] using page_of_region [OF k(1)] .
    ultimately show "k \<in> {rm_page rm j | j. j \<in> touched rm (rm_addr rm + off) n \<and> ba_bit (GetBits src rm) j}"
      using k(2) by blast
  qed
  have st: "MT_store i rm mt = mt" using r by (simp add: MT_store_def fun_upd_idem)
  show ?thesis
    using ForEachModifiedRange_props [OF D(4,3) wi reg, of pok src clear, unfolded pgs]
      store_effect [OF inv r b] piece_region(2) [OF inv r b, of pok src False] st
    by (auto simp: modified_visitor_def Let_def calls_effect_def elim!: owp_mono split: if_splits)
qed

interpretation clearing: piecewise
  "MT_visit False (modified_visitor hot pok src True)"
  piece_pages "\<lambda>p s. visit_ok False src False p (fst s)"
  "\<lambda>s. mt_inv hot others (fst s)"
  "\<lambda>A s t. calls_effect src A (snd (fst s)) (snd s) (snd t) \<and> mt_effect hot others src False A (fst s) (fst t)"
  "\<lambda>A s. mt_fails others pok src False A (fst s)"
  for hot pok src others
proof (unfold_locales, goal_cases)
  case (1 s p)
  obtain st acc where s: "s = (st, acc)" by (cases s)
  have "owp (MT_visit False (modified_visitor hot pok src True) p (st, acc))
      (\<lambda>t. calls_effect src (piece_pages p) (snd st) acc (snd t) \<and>
         mt_effect hot others src False (piece_pages p) st (fst t))
      (mt_fails others pok src False (piece_pages p) st)"
  proof (rule visit_props [where E = "\<lambda>mt. mt_fails others pok src False (piece_pages p) (fst st, mt)"])
    show "mt_inv hot others st" "visit_ok False src False p st" using 1 s by simp_all
    show "owp (modified_visitor hot pok src True (fst p) rm (fst (snd p)) (snd (snd p)) ((fst st, mt), acc))
        (\<lambda>t. calls_effect src (piece_pages p) (snd st) acc (snd t) \<and>
           mt_effect hot others src False (piece_pages p) (fst st, mt) (fst t))
        (mt_fails others pok src False (piece_pages p) (fst st, mt))"
      if same: "mt_same (snd st) mt" and "mt_inv hot others (fst st, mt)" "mt_regions mt (fst p) = Some rm" for mt rm
    proof -
      have "calls_effect src A mt = calls_effect src A (snd st)" for A
        using same by (auto simp: calls_effect_def mt_same_def fun_eq_iff)
      then show ?thesis
        using modified_visitor_props [OF that(2,3), of "fst (snd p)" "snd (snd p)" pok src True acc] 1
        by (auto simp: visit_ok_def elim!: owp_mono)
    qed
    show "calls_effect src (piece_pages p) (snd st) acc acc" if none: "mt_regions (snd st) (fst p) = None"
    proof -
      have "src \<noteq> Cpu" using 1 none s by (auto simp: visit_ok_def)
      moreover have "mt_bits src (snd st) n = (src = Cpu)" if "n \<in> piece_pages p" for n
        using piece_in_region [of "fst p" "fst (snd p)" "snd (snd p)" n] that none 1 s
        by (simp add: mt_bits_def visit_ok_def)
      ultimately show ?thesis by (auto simp: calls_effect_def)
    qed
  qed (use mt_fails_same in blast)+
  then show ?case by (simp add: s)
next
  case (2 s A t)
  then show ?case by (simp add: mt_effect_def)
next
  case (3 A s t p)
  then show ?case using visit_ok_effect by blast
next
  case (4 s)
  then show ?case by (simp add: mt_effect_refl calls_effect_def)
next
  case (5 A s t B u)
  then have e: "mt_effect hot others src False (A \<union> B) (fst s) (fst u)" using mt_effect_trans by blast
  have "mt_bits src (snd (fst t)) n \<longleftrightarrow> n \<notin> A \<and> mt_bits src (snd (fst s)) n" for n
    using 5 by (auto simp: mt_effect_def)
  with 5 e show ?case by (auto simp: calls_effect_def)
next
  case (6 A s B)
  then show ?case by (rule mt_fails_mono)
next
  case (7 A s t B)
  then show ?case using mt_fails_back by blast
qed

interpretation reporting: piecewise
  "MT_visit False (modified_visitor hot pok Gpu False)"
  piece_pages "\<lambda>p s. piece_bounds p"
  "\<lambda>s. mt_inv hot others (fst s)"
  "\<lambda>A s t. calls_effect Gpu A (snd (fst s)) (snd s) (snd t) \<and> fst t = fst s"
  "\<lambda>A s. False"
  for hot pok others
proof (unfold_locales, goal_cases)
  case (1 s p)
  obtain pm mt acc where s: "s = ((pm, mt), acc)" by (metis prod.collapse)
  obtain i off n where p: "p = (i, off, n)" by (metis prod_cases3)
  show ?case
  proof (cases "mt_regions mt i")
    case None
    then have "\<not> mt_bits Gpu mt k" if "k \<in> piece_pages (i, off, n)" for k
      using piece_in_region [OF _ that] 1 p by (simp add: mt_bits_def)
    with None show ?thesis by (auto simp: MT_visit_def s p calls_effect_def)
  next
    case (Some rm)
    with modified_visitor_props [of hot others pm mt i rm off n pok Gpu False acc] 1 show ?thesis
      by (simp add: MT_visit_def s p)
  qed
qed (auto simp: calls_effect_def)

text \<open>\<open>Iterate<true>\<close> with an empty function creates the managers of the range.\<close>

lemma create_all:
  assumes "mt_inv hot others (pm, mt)" "\<forall>p \<in> set ps. piece_bounds p"
  shows "\<exists>mt'. ofold (MT_visit True (\<lambda>_ _ _ _ s. Ret s)) ps ((pm, mt), ()) = Ret ((pm, mt'), ()) \<and>
    mt_same mt mt' \<and> mt_inv hot others (pm, mt') \<and> (\<forall>p \<in> set ps. mt_regions mt' (fst p) \<noteq> None)"
  using assms
proof (induction ps arbitrary: mt)
  case (Cons p ps)
  obtain i off n where p: "p = (i, off, n)" by (metis prod_cases3)
  have i: "i < 262144" using Cons.prems p by (simp add: piece_bounds_def)
  obtain mt1 rm where m: "MT_GetOrCreateRegion i mt = Ret mt1" "mt_regions mt1 i = Some rm"
    "mt_inv hot others (pm, mt1)" "mt_same mt mt1"
    using GetOrCreateRegion_ok [OF Cons.prems(1) i] .
  then have "MT_visit True (\<lambda>_ _ _ _ s. Ret s) p ((pm, mt), ()) = Ret ((pm, mt1), ())"
    by (simp add: MT_visit_def p)
  moreover obtain mt' where mt': "ofold (MT_visit True (\<lambda>_ _ _ _ s. Ret s)) ps ((pm, mt1), ()) = Ret ((pm, mt'), ())"
    "mt_same mt1 mt'" "mt_inv hot others (pm, mt')" "\<forall>p \<in> set ps. mt_regions mt' (fst p) \<noteq> None"
    using Cons.IH [OF m(3)] Cons.prems(2) by auto
  moreover have "mt_regions mt' i \<noteq> None" using mt'(2) m(2) by (simp add: mt_same_def)
  ultimately show ?case using mt_same_trans [OF m(4) mt'(2)] p by auto
qed simp

section \<open>The operations on the abstract state\<close>

lemma Mark_props:
  assumes inv: "mt_inv hot others s" and up: "\<not> mt_in_upload (snd s)" and ok: "range_ok vaddr sz"
  shows "owp (MarkRegionAsCpuModified hot pok vaddr sz s)
      (mt_effect hot others Cpu True (range_pages vaddr sz) s)
      (mt_fails others pok Cpu True (range_pages vaddr sz) s)"
    "owp (MarkRegionAsGpuModified hot pok vaddr sz s)
      (mt_effect hot others Gpu True (range_pages vaddr sz) s)
      (mt_fails others pok Gpu True (range_pages vaddr sz) s)"
    "owp (UnmarkRegionAsGpuModified hot pok vaddr sz s)
      (mt_effect hot others Gpu False (range_pages vaddr sz) s)
      (mt_fails others pok Gpu False (range_pages vaddr sz) s)"
  using MT_change_props [OF inv ok, of True Cpu True pok] MT_change_props [OF inv ok, of True Gpu True pok]
    MT_change_props [OF inv ok, of False Gpu False pok] up
  by (simp_all add: MarkRegionAsCpuModified_def MarkRegionAsGpuModified_def UnmarkRegionAsGpuModified_def
      CheckNotInUploadCallback_def)

lemma IsRegionModified_props:
  assumes inv: "mt_inv hot others s" and up: "\<not> mt_in_upload (snd s)" and ok: "range_ok vaddr sz"
  shows "\<exists>mt'. IsRegionCpuModified vaddr sz s =
      Ret ((fst s, mt'), \<exists>n \<in> range_pages vaddr sz. mt_bits Cpu (snd s) n) \<and>
      mt_same (snd s) mt' \<and> mt_inv hot others (fst s, mt')"
    "\<exists>mt'. IsRegionGpuModified vaddr sz s =
      Ret ((fst s, mt'), \<exists>n \<in> range_pages vaddr sz. mt_bits Gpu (snd s) n) \<and>
      mt_same (snd s) mt' \<and> mt_inv hot others (fst s, mt')"
proof -
  have inv': "mt_inv hot others (fst s, snd s)" using inv by simp
  obtain mt' where "MT_IterateAny True (\<lambda>rm offset bytes. RM_IsModified Cpu offset bytes rm) vaddr sz (snd s) =
      Ret (mt', \<exists>n \<in> range_pages vaddr sz. mt_bits Cpu (snd s) n)"
    "mt_same (snd s) mt'" "mt_inv hot others (fst s, mt')"
    using MT_IterateAny_ok [OF inv' ok, of True Cpu] by blast
  then show "\<exists>mt'. IsRegionCpuModified vaddr sz s =
      Ret ((fst s, mt'), \<exists>n \<in> range_pages vaddr sz. mt_bits Cpu (snd s) n) \<and>
      mt_same (snd s) mt' \<and> mt_inv hot others (fst s, mt')"
    using up by (simp add: IsRegionCpuModified_def CheckNotInUploadCallback_def case_prod_unfold)
  obtain mt' where "MT_IterateAny False (\<lambda>rm offset bytes. RM_IsModified Gpu offset bytes rm) vaddr sz (snd s) =
      Ret (mt', \<exists>n \<in> range_pages vaddr sz. mt_bits Gpu (snd s) n)"
    "mt_same (snd s) mt'" "mt_inv hot others (fst s, mt')"
    using MT_IterateAny_ok [OF inv' ok, of False Gpu] by blast
  then show "\<exists>mt'. IsRegionGpuModified vaddr sz s =
      Ret ((fst s, mt'), \<exists>n \<in> range_pages vaddr sz. mt_bits Gpu (snd s) n) \<and>
      mt_same (snd s) mt' \<and> mt_inv hot others (fst s, mt')"
    using up by (simp add: IsRegionGpuModified_def CheckNotInUploadCallback_def case_prod_unfold)
qed

lemma Untrack_props:
  assumes inv: "mt_inv hot others s" and up: "\<not> mt_in_upload (snd s)" and ok: "range_ok vaddr sz"
  shows "owp (UntrackMemory hot pok vaddr sz s)
      (mt_effect hot others Cpu True (range_pages vaddr sz) s)
      (mt_fails others pok Cpu True (range_pages vaddr sz) s)"
proof -
  have inv': "mt_inv hot others (fst s, snd s)" using inv by simp
  obtain mt' where q: "MT_IterateAny False (\<lambda>rm offset bytes. RM_IsModified Gpu offset bytes rm) vaddr sz (snd s) =
      Ret (mt', \<exists>n \<in> range_pages vaddr sz. mt_bits Gpu (snd s) n)"
    "mt_same (snd s) mt'" "mt_inv hot others (fst s, mt')"
    using MT_IterateAny_ok [OF inv' ok, of False Gpu] by blast
  show ?thesis
  proof (cases "\<exists>n \<in> range_pages vaddr sz. mt_bits Gpu (snd s) n")
    case True
    then show ?thesis using q up
      by (simp add: UntrackMemory_def CheckNotInUploadCallback_def mt_fails_def)
  next
    case False
    have "owp (MT_change hot pok False Cpu True vaddr sz (fst s, mt'))
        (mt_effect hot others Cpu True (range_pages vaddr sz) (fst s, mt'))
        (mt_fails others pok Cpu True (range_pages vaddr sz) (fst s, mt'))"
      using MT_change_props [OF q(3) ok, of False Cpu True pok] by simp
    then have "owp (MT_change hot pok False Cpu True vaddr sz (fst s, mt'))
        (mt_effect hot others Cpu True (range_pages vaddr sz) s)
        (mt_fails others pok Cpu True (range_pages vaddr sz) s)"
    proof (rule owp_mono)
      show "mt_effect hot others Cpu True (range_pages vaddr sz) s t"
        if "mt_effect hot others Cpu True (range_pages vaddr sz) (fst s, mt') t" for t
        using mt_effect_same [OF q(2) that] by simp
    qed (use mt_fails_same [OF q(2)] in blast)
    then show ?thesis using q(1) up False
      by (simp add: UntrackMemory_def CheckNotInUploadCallback_def)
  qed
qed

text \<open>Downloads: both callbacks see exactly the pages the GPU modified.\<close>

lemma report_props:
  assumes inv: "mt_inv hot others s" and ok: "range_ok vaddr sz"
  obtains calls where "MT_Iterate False (modified_visitor hot pok Gpu False) vaddr sz (s, []) = Ret (s, calls)"
    "calls_aligned calls" "call_pages calls = {n \<in> range_pages vaddr sz. mt_bits Gpu (snd s) n}"
proof -
  let ?ps = "region_pieces (vaddr div 4194304) (vaddr mod 4194304) sz"
  have "owp (ofold (MT_visit False (modified_visitor hot pok Gpu False)) ?ps (s, []))
      (\<lambda>t. calls_effect Gpu (range_pages vaddr sz) (snd s) [] (snd t) \<and> fst t = s) False"
    using reporting.all_pieces [of hot others "(s, [])" ?ps pok] inv pieces_of_range [OF ok] by simp
  then obtain t where "ofold (MT_visit False (modified_visitor hot pok Gpu False)) ?ps (s, []) = Ret t"
    "calls_effect Gpu (range_pages vaddr sz) (snd s) [] (snd t)" "fst t = s"
    unfolding owp_total by blast
  then show thesis using that [of "snd t"] ok by (simp add: MT_Iterate_ok calls_effect_def) (metis prod.collapse)
qed

lemma clear_props:
  assumes inv: "mt_inv hot others s" and ok: "range_ok vaddr sz"
    and vis: "\<forall>p \<in> set (region_pieces (vaddr div 4194304) (vaddr mod 4194304) sz). visit_ok False src False p s"
  shows "owp (MT_Iterate False (modified_visitor hot pok src True) vaddr sz (s, []))
    (\<lambda>t. calls_aligned (snd t) \<and> call_pages (snd t) = {n \<in> range_pages vaddr sz. mt_bits src (snd s) n} \<and>
       mt_effect hot others src False (range_pages vaddr sz) s (fst t))
    (mt_fails others pok src False (range_pages vaddr sz) s)"
  using clearing.all_pieces [of hot others "(s, [])" "region_pieces (vaddr div 4194304) (vaddr mod 4194304) sz" src pok]
    inv ok vis pieces_of_range(2) [OF ok]
  by (auto simp: MT_Iterate_ok calls_effect_def elim!: owp_mono)

lemma Download_props:
  assumes inv: "mt_inv hot others s" and up: "\<not> mt_in_upload (snd s)" and ok: "range_ok vaddr sz"
  defines "D \<equiv> {n \<in> range_pages vaddr sz. mt_bits Gpu (snd s) n}"
  shows "owp (ForEachDownloadRange hot pok clear vaddr sz s)
    (\<lambda>(t, preflight, calls). calls_aligned preflight \<and> calls_aligned calls \<and>
       call_pages preflight = D \<and> call_pages calls = D \<and>
       (if clear then mt_effect hot others Gpu False (range_pages vaddr sz) s t else t = s))
    (clear \<and> mt_fails others pok Gpu False (range_pages vaddr sz) s)"
proof -
  obtain calls where r: "MT_Iterate False (modified_visitor hot pok Gpu False) vaddr sz (s, []) = Ret (s, calls)"
    "calls_aligned calls" "call_pages calls = D"
    using report_props [OF inv ok] unfolding D_def by blast
  have chk: "CheckNotInUploadCallback (snd s) = Ret ()" using up by (simp add: CheckNotInUploadCallback_def)
  show ?thesis
  proof (cases clear)
    case False
    then show ?thesis by (simp add: ForEachDownloadRange_def chk r)
  next
    case True
    have "\<forall>p \<in> set (region_pieces (vaddr div 4194304) (vaddr mod 4194304) sz). visit_ok False Gpu False p s"
      using pieces_of_range(1) [OF ok] by (simp add: visit_ok_def)
    from clear_props [OF inv ok this, of pok] True r show ?thesis
      by (auto simp: ForEachDownloadRange_def chk elim!: owp_mono)
  qed
qed

text \<open>Uploads.\<close>

lemma set_upload_simps [simp]:
  "fst (set_upload b s) = fst s" "mt_bits src (snd (set_upload b s)) = mt_bits src (snd s)"
  "mt_regions (snd (set_upload b s)) = mt_regions (snd s)" "mt_in_upload (snd (set_upload b s)) = b"
  "mt_inv hot others (set_upload b s) = mt_inv hot others s"
  by (auto simp: set_upload_def mt_inv_def mt_bits_def fun_eq_iff)

definition upload_pages :: "bool \<Rightarrow> bool \<Rightarrow> nat \<Rightarrow> nat \<Rightarrow> mt_state \<Rightarrow> nat set" where
  "upload_pages hot is_written vaddr sz s =
     (if \<not> is_written \<and> HasHotPage hot (fst s) vaddr sz = Ret True \<and>
         (\<forall>n \<in> range_pages vaddr sz. \<not> mt_bits Gpu (snd s) n)
      then range_pages vaddr sz else {n \<in> range_pages vaddr sz. mt_bits Cpu (snd s) n})"

definition upload_effect ::
    "bool \<Rightarrow> (nat \<Rightarrow> nat) \<Rightarrow> bool \<Rightarrow> nat set \<Rightarrow> mt_state \<Rightarrow> mt_state \<Rightarrow> bool" where
  "upload_effect hot others is_written R s t \<longleftrightarrow>
     mt_inv hot others t \<and> mt_in_upload (snd t) = mt_in_upload (snd s) \<and>
     (\<forall>n. mt_bits Cpu (snd t) n \<longleftrightarrow> mt_bits Cpu (snd s) n \<and> n \<notin> R) \<and>
     (\<forall>n. mt_bits Gpu (snd t) n \<longleftrightarrow> mt_bits Gpu (snd s) n \<or> is_written \<and> n \<in> R)"

lemma HasHotPage_Ret: "range_ok vaddr sz \<Longrightarrow> \<exists>b. HasHotPage hot pm vaddr sz = Ret b"
  by (auto simp: HasHotPage_def PageEnd_ok)

text \<open>The optional step at the start: a hot page of an upload for reading counts as modified.\<close>

lemma upload_first_step:
  assumes inv: "mt_inv hot others s" and up: "\<not> mt_in_upload (snd s)" and ok: "range_ok vaddr sz"
  defines "R \<equiv> range_pages vaddr sz"
  shows "owp (if is_written then Ret s
        else obind (HasHotPage hot (fst s) vaddr sz) (\<lambda>has_hot.
          if \<not> has_hot then Ret s
          else obind (IsRegionGpuModified vaddr sz s) (\<lambda>(s, modified).
            if modified then Ret s else MarkRegionAsCpuModified hot pok vaddr sz s)))
    (\<lambda>t. mt_inv hot others t \<and> \<not> mt_in_upload (snd t) \<and>
       {n \<in> R. mt_bits Cpu (snd t) n} = upload_pages hot is_written vaddr sz s \<and>
       (\<forall>n. n \<notin> R \<longrightarrow> mt_bits Cpu (snd t) n = mt_bits Cpu (snd s) n) \<and>
       (\<forall>n. mt_bits Gpu (snd t) n = mt_bits Gpu (snd s) n))
    (mt_fails others pok Cpu False R s)"
proof (cases is_written)
  case True
  then show ?thesis using inv up by (simp add: upload_pages_def R_def)
next
  case False
  obtain hh where hh: "HasHotPage hot (fst s) vaddr sz = Ret hh" using HasHotPage_Ret [OF ok] by blast
  obtain mt' where q: "IsRegionGpuModified vaddr sz s =
      Ret ((fst s, mt'), \<exists>n \<in> R. mt_bits Gpu (snd s) n)"
    "mt_same (snd s) mt'" "mt_inv hot others (fst s, mt')"
    using IsRegionModified_props(2) [OF inv up ok] unfolding R_def by blast
  have same: "mt_bits src mt' n = mt_bits src (snd s) n" "mt_in_upload mt' = mt_in_upload (snd s)" for src n
    using q(2) by (simp_all add: mt_same_def)
  show ?thesis
  proof (cases "hh \<and> (\<forall>n \<in> R. \<not> mt_bits Gpu (snd s) n)")
    case False
    then have "upload_pages hot is_written vaddr sz s = {n \<in> R. mt_bits Cpu (snd s) n}"
      using hh by (auto simp: upload_pages_def R_def)
    then show ?thesis using False \<open>\<not> is_written\<close> hh q same inv up by auto
  next
    case True
    then have U: "upload_pages hot is_written vaddr sz s = R"
      using hh \<open>\<not> is_written\<close> by (simp add: upload_pages_def R_def)
    have "owp (MarkRegionAsCpuModified hot pok vaddr sz (fst s, mt'))
        (mt_effect hot others Cpu True R (fst s, mt')) (mt_fails others pok Cpu True R (fst s, mt'))"
      using Mark_props(1) [OF q(3) _ ok, of pok] same up by (simp add: R_def)
    then have "owp (MarkRegionAsCpuModified hot pok vaddr sz (fst s, mt'))
        (\<lambda>t. mt_inv hot others t \<and> \<not> mt_in_upload (snd t) \<and> {n \<in> R. mt_bits Cpu (snd t) n} = R \<and>
          (\<forall>n. n \<notin> R \<longrightarrow> mt_bits Cpu (snd t) n = mt_bits Cpu (snd s) n) \<and>
          (\<forall>n. mt_bits Gpu (snd t) n = mt_bits Gpu (snd s) n))
        (mt_fails others pok Cpu False R s)"
      by (rule owp_mono) (use same up True in \<open>auto simp: mt_effect_def mt_fails_def\<close>)
    moreover have "\<not> (\<exists>n \<in> R. mt_bits Gpu (snd s) n)" using True by blast
    ultimately show ?thesis using True \<open>\<not> is_written\<close> hh q(1) U by simp
  qed
qed

lemma Upload_props:
  assumes inv: "mt_inv hot others s" and up: "\<not> mt_in_upload (snd s)" and ok: "range_ok vaddr sz"
  defines "R \<equiv> range_pages vaddr sz"
  shows "owp (ForEachUploadRange hot pok is_written vaddr sz s)
    (\<lambda>(t, calls). calls_aligned calls \<and> call_pages calls = upload_pages hot is_written vaddr sz s \<and>
       upload_effect hot others is_written R s t)
    (mt_fails others pok Cpu False R s)"
proof -
  let ?ps = "region_pieces (vaddr div 4194304) (vaddr mod 4194304) sz"
  have chk: "CheckNotInUploadCallback (snd s) = Ret ()" using up by (simp add: CheckNotInUploadCallback_def)
  have fails: "mt_fails others pok Cpu False R t = mt_fails others pok Cpu False R s" for t
    by (simp add: mt_fails_def)
  show ?thesis
    unfolding ForEachUploadRange_def chk obind.simps owp_obind
  proof (rule owp_mono [OF upload_first_step [OF inv up ok, where pok = pok and is_written = is_written, folded R_def]])
    fix s1
    assume s1: "mt_inv hot others s1 \<and> \<not> mt_in_upload (snd s1) \<and>
       {n \<in> R. mt_bits Cpu (snd s1) n} = upload_pages hot is_written vaddr sz s \<and>
       (\<forall>n. n \<notin> R \<longrightarrow> mt_bits Cpu (snd s1) n = mt_bits Cpu (snd s) n) \<and>
       (\<forall>n. mt_bits Gpu (snd s1) n = mt_bits Gpu (snd s) n)"
    have inv1: "mt_inv hot others (fst s1, snd s1)" using s1 by simp
    obtain mt2 where c: "ofold (MT_visit True (\<lambda>_ _ _ _ s. Ret s)) ?ps (s1, ()) = Ret ((fst s1, mt2), ())"
      "mt_same (snd s1) mt2" "mt_inv hot others (fst s1, mt2)" "\<forall>p \<in> set ?ps. mt_regions mt2 (fst p) \<noteq> None"
      using create_all [OF inv1 pieces_of_range(1) [OF ok]] by auto
    have same: "mt_bits src mt2 n = mt_bits src (snd s1) n" "mt_in_upload mt2 = mt_in_upload (snd s1)" for src n
      using c(2) by (simp_all add: mt_same_def)
    let ?s2 = "set_upload True (fst s1, mt2)"
    have vis: "\<forall>p \<in> set ?ps. visit_ok False Cpu False p ?s2"
      using c(4) pieces_of_range(1) [OF ok] by (simp add: visit_ok_def)
    have inv2: "mt_inv hot others ?s2" using c(3) by simp
    have "owp (obind (MT_Iterate False (modified_visitor hot pok Cpu True) vaddr sz (?s2, []))
        (\<lambda>(s, calls). obind (if is_written then MT_change hot pok False Gpu True vaddr sz s else Ret s)
          (\<lambda>s. Ret (set_upload False s, calls))))
      (\<lambda>(t, calls). calls_aligned calls \<and> call_pages calls = upload_pages hot is_written vaddr sz s \<and>
         upload_effect hot others is_written R s t)
      (mt_fails others pok Cpu False R s)"
      unfolding owp_obind
    proof (rule owp_mono [OF clear_props [OF inv2 ok vis, of pok, folded R_def]])
      fix t
      assume t: "calls_aligned (snd t) \<and> call_pages (snd t) = {n \<in> R. mt_bits Cpu (snd ?s2) n} \<and>
         mt_effect hot others Cpu False R ?s2 (fst t)"
      obtain s3 calls where st: "t = (s3, calls)" by (cases t)
      have pages: "call_pages calls = upload_pages hot is_written vaddr sz s"
        using t s1 same by (simp add: st)
      have e: "mt_inv hot others s3" "mt_in_upload (snd s3)"
        "\<And>n. mt_bits Cpu (snd s3) n \<longleftrightarrow> mt_bits Cpu (snd s) n \<and> n \<notin> R"
        "\<And>n. mt_bits Gpu (snd s3) n = mt_bits Gpu (snd s) n"
        "\<forall>p \<in> set ?ps. mt_regions (snd s3) (fst p) \<noteq> None"
        using t s1 same c(4) by (auto simp: st mt_effect_def)
      show "owp (case t of (s, calls) \<Rightarrow> obind (if is_written then MT_change hot pok False Gpu True vaddr sz s else Ret s)
          (\<lambda>s. Ret (set_upload False s, calls)))
        (\<lambda>(t, calls). calls_aligned calls \<and> call_pages calls = upload_pages hot is_written vaddr sz s \<and>
           upload_effect hot others is_written R s t)
        (mt_fails others pok Cpu False R s)"
      proof (cases is_written)
        case False
        then show ?thesis using t pages e up by (simp add: st upload_effect_def)
      next
        case True
        have "\<forall>n \<in> R. mt_regions (snd s3) (n div 1024) \<noteq> None"
        proof
          fix n assume "n \<in> R"
          then obtain p where p: "p \<in> set ?ps" "n \<in> piece_pages p"
            unfolding R_def using pieces_of_range(2) [OF ok] by blast
          then have "n div 1024 = fst p"
            using piece_in_region [of "fst p" "fst (snd p)" "snd (snd p)" n] pieces_of_range(1) [OF ok] by simp
          with e(5) p show "mt_regions (snd s3) (n div 1024) \<noteq> None" by simp
        qed
        then have "owp (MT_change hot pok False Gpu True vaddr sz s3)
            (mt_effect hot others Gpu True R s3) (mt_fails others pok Gpu True R s3)"
          using MT_change_props [OF e(1) ok, of False Gpu True pok] by (simp add: R_def)
        then have "owp (MT_change hot pok False Gpu True vaddr sz s3)
            (\<lambda>t. upload_effect hot others is_written R s (set_upload False t)) (mt_fails others pok Cpu False R s)"
        proof (rule owp_mono)
          show "upload_effect hot others is_written R s (set_upload False t)"
            if "mt_effect hot others Gpu True R s3 t" for t
            using that e True up by (simp add: mt_effect_def upload_effect_def)
          show "mt_fails others pok Cpu False R s" if "mt_fails others pok Gpu True R s3"
            using that e(3) by (auto simp: mt_fails_def)
        qed
        then show ?thesis using True t pages by (auto simp: st elim!: owp_mono)
      qed
    qed (use fails in blast)
    moreover have "mt_in_upload mt2 = False" using same s1 by simp
    ultimately show "owp (MT_Iterate True (\<lambda>_ _ _ _ s. Ret s) vaddr sz (s1, ()))
        (\<lambda>x. owp (case x of (s, _) \<Rightarrow>
            let previous = mt_in_upload (snd s); s = set_upload True s
            in obind (MT_Iterate False (modified_visitor hot pok Cpu True) vaddr sz (s, []))
              (\<lambda>(s, calls). obind (if is_written then MT_change hot pok False Gpu True vaddr sz s else Ret s)
                (\<lambda>s. Ret (set_upload previous s, calls))))
          (\<lambda>(t, calls). calls_aligned calls \<and> call_pages calls = upload_pages hot is_written vaddr sz s \<and>
             upload_effect hot others is_written R s t)
          (mt_fails others pok Cpu False R s))
        (mt_fails others pok Cpu False R s)"
      using c(1) ok by (simp add: MT_Iterate_ok Let_def)
  qed
qed

text \<open>Invalidations.\<close>

lemma invalidate_visitor_inv:
  assumes inv: "mt_inv hot others (pm, mt)" and r: "mt_regions mt i = Some rm"
    and b: "piece_bounds (i, off, n)"
    and flush: "\<And>s t. mt_inv hot others s \<Longrightarrow> on_flush s = Ret t \<Longrightarrow>
      mt_inv hot others t \<and> mt_in_upload (snd t) = mt_in_upload (snd s)"
    and ret: "invalidate_visitor hot pok on_flush i rm off n ((pm, mt), k) = Ret t"
  shows "mt_inv hot others (fst t) \<and> mt_in_upload (snd (fst t)) = mt_in_upload mt"
proof (cases "\<exists>k \<in> piece_pages (i, off, n). mt_bits Gpu mt k")
  case True
  with ret IsModified_piece [OF inv r b, of Gpu] flush [OF inv] show ?thesis
    by (auto simp: invalidate_visitor_def omap_Ret_iff)
next
  case False
  with ret IsModified_piece [OF inv r b, of Gpu]
  have "change_visitor hot pok Cpu True i rm off n ((pm, mt), k) = Ret t"
    by (simp add: invalidate_visitor_def)
  from owp_RetD [OF change_visitor_props [OF inv r b] this] show ?thesis by (simp add: mt_effect_def)
qed

lemma Invalidate_inv:
  assumes inv: "mt_inv hot others s"
    and flush: "\<And>s t. mt_inv hot others s \<Longrightarrow> on_flush s = Ret t \<Longrightarrow>
      mt_inv hot others t \<and> mt_in_upload (snd t) = mt_in_upload (snd s)"
    and ret: "InvalidateRegion hot pok on_flush vaddr sz s = Ret (t, k)"
  shows "mt_inv hot others t \<and> mt_in_upload (snd t) = mt_in_upload (snd s)"
proof -
  have ok: "range_ok vaddr sz"
    using ret by (auto simp: InvalidateRegion_def obind_Ret_iff MT_Iterate_ok split: if_splits)
  let ?ps = "region_pieces (vaddr div 4194304) (vaddr mod 4194304) sz"
  have "ofold (MT_visit False (invalidate_visitor hot pok on_flush)) ?ps (s, 0) = Ret (t, k)"
    using ret ok by (auto simp: InvalidateRegion_def obind_Ret_iff MT_Iterate_ok)
  then have "mt_inv hot others (fst (t, k)) \<and> mt_in_upload (snd (fst (t, k))) = mt_in_upload (snd s)"
  proof (rule ofold_invariant [where
        I = "\<lambda>x. mt_inv hot others (fst x) \<and> mt_in_upload (snd (fst x)) = mt_in_upload (snd s)", rotated -1])
    fix p x y
    assume p: "p \<in> set ?ps"
      and x: "mt_inv hot others (fst x) \<and> mt_in_upload (snd (fst x)) = mt_in_upload (snd s)"
      and v: "MT_visit False (invalidate_visitor hot pok on_flush) p x = Ret y"
    obtain i off n where q: "p = (i, off, n)" by (metis prod_cases3)
    obtain pm mt c where xx: "x = ((pm, mt), c)" by (metis prod.collapse)
    have b: "piece_bounds (i, off, n)" using pieces_of_range(1) [OF ok] p q by blast
    show "mt_inv hot others (fst y) \<and> mt_in_upload (snd (fst y)) = mt_in_upload (snd s)"
    proof (cases "mt_regions mt i")
      case None
      then show ?thesis using v x xx by (auto simp: MT_visit_def q)
    next
      case (Some rm)
      then have "invalidate_visitor hot pok on_flush i rm off n ((pm, mt), c) = Ret y"
        using v by (simp add: MT_visit_def q xx)
      from invalidate_visitor_inv [where on_flush = on_flush, OF _ Some b flush this] x xx
      show ?thesis by simp
    qed
  qed (use inv in simp)
  then show ?thesis by simp
qed

lemma Invalidate_clean:
  assumes inv: "mt_inv hot others s" and up: "\<not> mt_in_upload (snd s)" and ok: "range_ok vaddr sz"
    and clean: "\<forall>n \<in> range_pages vaddr sz. \<not> mt_bits Gpu (snd s) n"
  shows "owp (InvalidateRegion hot pok on_flush vaddr sz s)
    (\<lambda>(t, flushes). flushes = 0 \<and> mt_effect hot others Cpu True (range_pages vaddr sz) s t)
    (mt_fails others pok Cpu True (range_pages vaddr sz) s)"
proof -
  let ?ps = "region_pieces (vaddr div 4194304) (vaddr mod 4194304) sz"
  have same: "owp (ofold (MT_visit False (invalidate_visitor hot pok on_flush)) ps (t, 0))
      (\<lambda>x. snd x = 0 \<and> mt_effect hot others Cpu True (\<Union>p \<in> set ps. piece_pages p) t (fst x))
      (mt_fails others pok Cpu True (\<Union>p \<in> set ps. piece_pages p) t)"
    if "mt_inv hot others t" "\<forall>p \<in> set ps. piece_bounds p"
      "\<forall>n \<in> (\<Union>p \<in> set ps. piece_pages p). \<not> mt_bits Gpu (snd t) n" for ps t
    using that
  proof (induction ps arbitrary: t)
    case Nil
    then show ?case by (simp add: mt_effect_refl)
  next
    case (Cons p ps)
    obtain i off n where q: "p = (i, off, n)" by (metis prod_cases3)
    have b: "piece_bounds (i, off, n)" using Cons.prems(2) q by simp
    let ?A = "\<Union>p \<in> set ps. piece_pages p"
    have all: "(\<Union>p \<in> set (p # ps). piece_pages p) = piece_pages p \<union> ?A" by simp
    have "owp (MT_visit False (invalidate_visitor hot pok on_flush) p (t, 0))
        (\<lambda>x. snd x = 0 \<and> mt_effect hot others Cpu True (piece_pages p) t (fst x))
        (mt_fails others pok Cpu True (piece_pages p) t)"
    proof (rule visit_props [where Q = "\<lambda>k. k = 0" and E = "\<lambda>mt. mt_fails others pok Cpu True (piece_pages p) (fst t, mt)"])
      show "visit_ok False Cpu True p t" using b q by (simp add: visit_ok_def)
      fix mt rm
      assume m: "mt_same (snd t) mt" "mt_inv hot others (fst t, mt)" "mt_regions mt (fst p) = Some rm"
      have r: "mt_regions mt i = Some rm" using m(3) q by simp
      have "\<not> (\<exists>k \<in> piece_pages (i, off, n). mt_bits Gpu mt k)"
        using Cons.prems(3) m(1) q by (simp add: mt_same_def)
      then have "invalidate_visitor hot pok on_flush i rm off n ((fst t, mt), 0) =
          change_visitor hot pok Cpu True i rm off n ((fst t, mt), 0)"
        using IsModified_piece [OF m(2) r b, of Gpu] by (simp add: invalidate_visitor_def)
      with change_visitor_props [OF m(2) r b, of pok Cpu True 0]
      show "owp (invalidate_visitor hot pok on_flush (fst p) rm (fst (snd p)) (snd (snd p)) ((fst t, mt), 0))
          (\<lambda>x. snd x = 0 \<and> mt_effect hot others Cpu True (piece_pages p) (fst t, mt) (fst x))
          (mt_fails others pok Cpu True (piece_pages p) (fst t, mt))"
        by (simp add: q)
    qed (use Cons.prems(1) mt_fails_same in blast)+
    then show ?case
      unfolding ofold.simps owp_obind all
    proof (rule owp_mono)
      fix x :: "mt_state \<times> nat"
      assume x: "snd x = 0 \<and> mt_effect hot others Cpu True (piece_pages p) t (fst x)"
      then obtain st where st: "x = (st, 0)" by (cases x) auto
      then have e: "mt_effect hot others Cpu True (piece_pages p) t st" using x by simp
      have "owp (ofold (MT_visit False (invalidate_visitor hot pok on_flush)) ps (st, 0))
          (\<lambda>y. snd y = 0 \<and> mt_effect hot others Cpu True ?A st (fst y))
          (mt_fails others pok Cpu True ?A st)"
        using Cons.prems(2,3) e by (intro Cons.IH) (auto simp: mt_effect_def)
      then show "owp (ofold (MT_visit False (invalidate_visitor hot pok on_flush)) ps x)
          (\<lambda>y. snd y = 0 \<and> mt_effect hot others Cpu True (piece_pages p \<union> ?A) t (fst y))
          (mt_fails others pok Cpu True (piece_pages p \<union> ?A) t)"
        unfolding st by (rule owp_mono) (use mt_effect_trans [OF e] mt_fails_back [OF e] in blast)+
    qed (use mt_fails_mono in blast)
  qed
  show ?thesis
    using same [OF inv pieces_of_range(1) [OF ok]] clean pieces_of_range(2) [OF ok] up ok
    by (simp add: InvalidateRegion_def CheckNotInUploadCallback_def MT_ValidateRange_ok MT_Iterate_ok case_prod_unfold)
qed

section \<open>The byte sets and the pages\<close>

lemma check_pages_Ret: "check_pages check pages = Ret () \<longleftrightarrow> (\<forall>p \<in> set pages. check p = Ret ())"
  by (induction pages) (auto simp: obind_Ret_iff)

lemma set_page_addresses:
  "set (page_addresses (4096 * a) (4096 * b)) = {4096 * n | n. a \<le> n \<and> n < b}"
proof -
  have "(4096 * b - 4096 * a + 4095) div 4096 = b - a"
  proof -
    have "4096 * b - 4096 * a + 4095 = 4096 * (b - a) + 4095" by (simp add: diff_mult_distrib2)
    then show ?thesis by simp
  qed
  then have "set (page_addresses (4096 * a) (4096 * b)) = {4096 * (a + k) | k. k < b - a}"
    by (auto simp: page_addresses_def image_iff)
  also have "\<dots> = {4096 * n | n. a \<le> n \<and> n < b}"
  proof (intro set_eqI iffI)
    fix x assume "x \<in> {4096 * n | n. a \<le> n \<and> n < b}"
    then obtain n where n: "x = 4096 * n" "a \<le> n" "n < b" by blast
    then have "x = 4096 * (a + (n - a))" "n - a < b - a" by auto
    then show "x \<in> {4096 * (a + k) | k. k < b - a}" by blast
  next
    fix x assume "x \<in> {4096 * (a + k) | k. k < b - a}"
    then obtain k where "x = 4096 * (a + k)" "a \<le> a + k" "a + k < b" by auto
    then show "x \<in> {4096 * n | n. a \<le> n \<and> n < b}" by blast
  qed
  finally show ?thesis .
qed

definition page_bytes :: "nat \<Rightarrow> nat set" where
  "page_bytes n = {4096 * n..<4096 * n + 4096}"

lemma Ownership_props:
  assumes inv: "mt_inv hot others s" and up: "\<not> mt_in_upload (snd s)" and ok: "range_ok vaddr sz"
    and d: "range_inv dirty" and v: "4096 \<le> vaddr"
  shows "ValidateGpuDirtyOwnership dirty vaddr sz s = Ret () \<longleftrightarrow>
    (\<forall>n \<in> range_pages vaddr sz. mt_bits Gpu (snd s) n \<longleftrightarrow> range_bytes dirty \<inter> page_bytes n \<noteq> {})"
proof -
  have ends: "PageStart vaddr = 4096 * (vaddr div 4096)"
    "PageStart (vaddr + sz + 4096 - 1) = 4096 * ((vaddr + sz - 1) div 4096 + 1)"
  proof -
    have "vaddr + sz + 4096 - 1 = vaddr + sz - 1 + 1 * 4096" using ok by (simp add: range_ok_def)
    then have "(vaddr + sz + 4096 - 1) div 4096 = 1 + (vaddr + sz - 1) div 4096"
      by (simp only: div_mult_self1 [OF zero_neq_numeral [symmetric]])
    then show "PageStart (vaddr + sz + 4096 - 1) = 4096 * ((vaddr + sz - 1) div 4096 + 1)"
      by (simp only: PageStart_div add.commute)
  qed (rule PageStart_div)
  have pages: "set (page_addresses (PageStart vaddr) (PageStart (vaddr + sz + 4096 - 1))) =
      {4096 * n | n. n \<in> range_pages vaddr sz}"
    unfolding ends set_page_addresses range_pages_def by auto
  have lim: "vaddr + sz \<le> u64_max - (4096 - 1)" using ok by (simp add: range_ok_def u64_max_def)
  have one: "obind (RangeSet_Intersections dirty (4096 * n) 4096) (\<lambda>ranges.
        obind (IsRegionGpuModified (4096 * n) 4096 s) (\<lambda>(_, modified).
          if modified \<noteq> (ranges \<noteq> []) then Exit else Ret ())) = Ret () \<longleftrightarrow>
      (mt_bits Gpu (snd s) n \<longleftrightarrow> range_bytes dirty \<inter> page_bytes n \<noteq> {})"
    if n: "n \<in> range_pages vaddr sz" for n
  proof -
    have "vaddr div 4096 \<le> n" "n \<le> (vaddr + sz - 1) div 4096" using n by (simp_all add: range_pages_def)
    moreover have "1 \<le> vaddr div 4096" using v by (simp add: div_greater_zero_iff Suc_le_eq)
    moreover have "(vaddr + sz - 1) div 4096 < 268435456"
      using ok by (intro div_less_iff_less_mult [THEN iffD2]) (auto simp: range_ok_def)
    ultimately have b: "1 \<le> n" "n < 268435456" by linarith+
    have rok: "range_ok (4096 * n) 4096" using b by (simp add: range_ok_def)
    have rp: "range_pages (4096 * n) 4096 = {n}" using b by (simp add: range_pages_def div_nat_eqI)
    have bounds: "0 < 4096 * n" "0 < (4096 :: nat)" "4096 * n + 4096 \<le> u64_max"
      using b by (simp_all add: u64_max_def)
    obtain xs where xs: "RangeSet_Intersections dirty (4096 * n) 4096 = Ret xs"
      using rs.inter_ok [OF d bounds] by blast
    have ne: "xs \<noteq> [] \<longleftrightarrow> range_bytes dirty \<inter> page_bytes n \<noteq> {}"
      using rs.inter_nonempty [OF d bounds xs] by (simp add: page_bytes_def)
    obtain t where "IsRegionGpuModified (4096 * n) 4096 s = Ret (t, mt_bits Gpu (snd s) n)"
      using IsRegionModified_props(2) [OF inv up rok] unfolding rp by auto
    then show ?thesis using xs ne by simp
  qed
  show ?thesis
    using ok lim one pages
    by (simp add: ValidateGpuDirtyOwnership_def MT_ValidateRange_ok Let_def check_pages_Ret) blast
qed

section \<open>Histories\<close>

text \<open>
  The states that the tracker and its page manager reach together. The index \<open>others\<close>
  counts, page by page, the write watchers that further clients of the page manager (the
  texture cache) hold; a client only gives back what it took. The flush of an invalidation is
  a callback: any that keeps the invariant of the tracker, as each step here does.
\<close>

definition add_watch :: "nat set \<Rightarrow> (nat \<Rightarrow> nat) \<Rightarrow> nat \<Rightarrow> nat" where
  "add_watch S others n = (if n \<in> S then others n + 1 else others n)"

definition sub_watch :: "nat set \<Rightarrow> (nat \<Rightarrow> nat) \<Rightarrow> nat \<Rightarrow> nat" where
  "sub_watch S others n = (if n \<in> S then others n - 1 else others n)"

inductive mt_reach ::
    "bool \<Rightarrow> (nat \<Rightarrow> nat \<Rightarrow> mode \<Rightarrow> bool) \<Rightarrow> (nat \<Rightarrow> nat) \<Rightarrow> mt_state \<Rightarrow> bool"
  for hot pok where
  start: "mt_reach hot pok (\<lambda>_. 0) (PageManager_init host, MemoryTracker_new)"
| watch: "mt_reach hot pok others (pm, mt) \<Longrightarrow> UpdatePageWatchers hot pok True False v n pm = Ret pm' \<Longrightarrow>
    mt_reach hot pok (add_watch (range_pages v n) others) (pm', mt)"
| unwatch: "mt_reach hot pok others (pm, mt) \<Longrightarrow> \<forall>k \<in> range_pages v n. 0 < others k \<Longrightarrow>
    UpdatePageWatchers hot pok False False v n pm = Ret pm' \<Longrightarrow>
    mt_reach hot pok (sub_watch (range_pages v n) others) (pm', mt)"
| restore: "mt_reach hot pok others (pm, mt) \<Longrightarrow> RestoreProtection hot pok v pm = Ret (pm', b) \<Longrightarrow>
    mt_reach hot pok others (pm', mt)"
| fault: "mt_reach hot pok others (pm, mt) \<Longrightarrow> NoteFault hot pok v pm = Ret (pm', b) \<Longrightarrow>
    mt_reach hot pok others (pm', mt)"
| cpu: "mt_reach hot pok others s \<Longrightarrow> MarkRegionAsCpuModified hot pok v n s = Ret t \<Longrightarrow> mt_reach hot pok others t"
| gpu: "mt_reach hot pok others s \<Longrightarrow> MarkRegionAsGpuModified hot pok v n s = Ret t \<Longrightarrow> mt_reach hot pok others t"
| ungpu: "mt_reach hot pok others s \<Longrightarrow> UnmarkRegionAsGpuModified hot pok v n s = Ret t \<Longrightarrow>
    mt_reach hot pok others t"
| untrack: "mt_reach hot pok others s \<Longrightarrow> UntrackMemory hot pok v n s = Ret t \<Longrightarrow> mt_reach hot pok others t"
| query: "mt_reach hot pok others s \<Longrightarrow> IsRegionCpuModified v n s = Ret (t, b) \<Longrightarrow> mt_reach hot pok others t"
| download: "mt_reach hot pok others s \<Longrightarrow> ForEachDownloadRange hot pok clear v n s = Ret (t, c) \<Longrightarrow>
    mt_reach hot pok others t"
| upload: "mt_reach hot pok others s \<Longrightarrow> ForEachUploadRange hot pok w v n s = Ret (t, c) \<Longrightarrow>
    mt_reach hot pok others t"
| invalidate: "mt_reach hot pok others s \<Longrightarrow>
    (\<And>s t. mt_inv hot others s \<Longrightarrow> flush s = Ret t \<Longrightarrow>
       mt_inv hot others t \<and> mt_in_upload (snd t) = mt_in_upload (snd s)) \<Longrightarrow>
    InvalidateRegion hot pok flush v n s = Ret (t, c) \<Longrightarrow> mt_reach hot pok others t"

inductive_cases mt_reachE: "mt_reach hot pok others s"

definition mt_idle :: "bool \<Rightarrow> (nat \<Rightarrow> nat) \<Rightarrow> mt_state \<Rightarrow> bool" where
  "mt_idle hot others s \<longleftrightarrow> mt_inv hot others s \<and> \<not> mt_in_upload (snd s)"

lemma mt_idle_effect:
  "mt_idle hot others s \<Longrightarrow> mt_effect hot others' src enable A s t \<Longrightarrow> others' = others \<Longrightarrow> mt_idle hot others t"
  by (simp add: mt_idle_def mt_effect_def)

text \<open>Calls that return were legal.\<close>

lemma Ret_legal:
  "MarkRegionAsCpuModified hot pok v n s = Ret t \<Longrightarrow> range_ok v n"
  "MarkRegionAsGpuModified hot pok v n s = Ret t \<Longrightarrow> range_ok v n"
  "UnmarkRegionAsGpuModified hot pok v n s = Ret t \<Longrightarrow> range_ok v n"
  "UntrackMemory hot pok v n s = Ret t \<Longrightarrow> range_ok v n"
  "IsRegionCpuModified v n s = Ret x \<Longrightarrow> range_ok v n"
  "ForEachDownloadRange hot pok c v n s = Ret y \<Longrightarrow> range_ok v n"
  by (auto simp: MarkRegionAsCpuModified_def MarkRegionAsGpuModified_def UnmarkRegionAsGpuModified_def
      UntrackMemory_def IsRegionCpuModified_def ForEachDownloadRange_def MT_change_def MT_IterateAny_def
      MT_ValidateRange_ok MT_Iterate_ok obind_Ret_iff omap_Ret_iff split: if_splits prod.splits)

lemma Upload_legal: "ForEachUploadRange hot pok w v n s = Ret z \<Longrightarrow> range_ok v n"
  by (auto simp: ForEachUploadRange_def MT_Iterate_ok obind_Ret_iff split: if_splits)

lemma counters_client:
  assumes "counters_ok others c g n p"
  shows "delta_ok True False p \<Longrightarrow> others' n = others n + 1 \<Longrightarrow> counters_ok others' c g n (page_upd True False p)"
    "delta_ok False False p \<Longrightarrow> 0 < others n \<Longrightarrow> others' n = others n - 1 \<Longrightarrow>
     counters_ok others' c g n (page_upd False False p)"
  using assms by (auto simp: counters_ok_def page_upd_def delta_ok_def unat_succ7 unat_pred7)

lemma client_step:
  assumes inv: "mt_inv hot others (pm, mt)" and ret: "UpdatePageWatchers hot pok track False v n pm = Ret pm'"
    and give: "\<not> track \<Longrightarrow> \<forall>k \<in> range_pages v n. 0 < others k"
    and o: "others' = (if track then add_watch else sub_watch) (range_pages v n) others"
  shows "mt_inv hot others' (pm', mt)"
proof -
  let ?S = "range_pages v n"
  have pmi: "pm_inv hot pm" using inv by (simp add: mt_inv_def)
  then have wf: "pm_wf pm" by (simp add: pm_inv_def)
  note u = UpdatePageWatchers_Ret [OF wf ret]
  have "counters_ok others' (mt_bits Cpu mt k) (mt_bits Gpu mt k) k (pm_page pm' k)" if k: "k < 268435456" for k
  proof -
    have old: "counters_ok others (mt_bits Cpu mt k) (mt_bits Gpu mt k) k (pm_page pm k)"
      using inv k by (simp add: mt_inv_def)
    have new: "pm_page pm' k = watch_upd track False (k \<in> ?S) (pm_page pm k)"
      "k \<in> ?S \<Longrightarrow> delta_ok track False (pm_page pm k)"
      using u unfolding pm_updated_def by blast+
    show ?thesis
    proof (cases "k \<in> ?S")
      case False
      then have "others' k = others k" using o by (simp add: add_watch_def sub_watch_def)
      with old new(1) False show ?thesis by (simp add: watch_upd_def counters_ok_def)
    next
      case True
      then show ?thesis
        using counters_client [OF old, of others'] new give o
        by (cases track) (simp_all add: watch_upd_def add_watch_def sub_watch_def)
    qed
  qed
  then show ?thesis using inv pm_inv_updated [OF pmi u] by (simp add: mt_inv_def)
qed

lemma restore_step:
  assumes inv: "mt_inv hot others (pm, mt)" and ret: "RestoreProtection hot pok v pm = Ret (pm', b)"
  shows "mt_inv hot others (pm', mt)"
proof -
  have pmi: "pm_inv hot pm" using inv by (simp add: mt_inv_def)
  obtain h where "pm' = pm\<lparr>pm_host := h\<rparr>"
    using ret by (auto simp: RestoreProtection_def Let_def obind_Ret_iff split: option.splits if_splits)
      (metis page_manager.surjective page_manager.update_convs(3))+
  then have "pm_page pm' k = pm_page pm k" for k by simp
  then show ?thesis using inv pm_inv_RestoreProtection [OF pmi ret] by (simp add: mt_inv_def)
qed

lemma same_faults: "\<exists>f. p = p\<lparr>faults := f\<rparr>" for p :: page_state
  by (rule exI [of _ "faults p"]) simp

text \<open>Noting a fault steps the fault counter of one page and leaves the watchers alone.\<close>

lemma NoteFault_page:
  assumes wf: "pm_wf pm" and ret: "NoteFault hot pok v pm = Ret (pm', b)"
  shows "\<exists>f. pm_page pm' k = (pm_page pm k)\<lparr>faults := f\<rparr>"
proof (cases "PM_FindRegion pm v")
  case None
  with ret have "pm' = pm" by (simp add: NoteFault_def)
  then show ?thesis using same_faults by blast
next
  case (Some pages)
  note fr = FindRegion_page [OF wf Some]
  define n where "n = v div 4096"
  define p where "p = pm_page pm n"
  have rn: "v div 4194304 = n div 1024" "page_index v = n mod 1024"
    by (simp_all add: n_def region_div fr(4))
  have pp: "pages ! (n mod 1024) = p" using fr(1) unfolding fr(4) p_def n_def .
  have len: "n mod 1024 < length pages" using fr(2) unfolding fr(4) n_def .
  define q where "q = (if faults p \<noteq> 255 then p\<lparr>faults := faults p + 1\<rparr> else p)"
  define pm1 where "pm1 = set_region (n div 1024) (pages[n mod 1024 := q]) pm"
  have pg: "pm_page pm1 k = (if k = n then q else pm_page pm k)"
  proof (cases "k = n")
    case False
    then have "k div 1024 = n div 1024 \<Longrightarrow> k mod 1024 \<noteq> n mod 1024" by (metis mult_div_mod_eq)
    with False fr(3) rn(1) show ?thesis by (auto simp: pm1_def pm_page_def set_region_def)
  qed (use len in \<open>simp add: pm1_def pm_page_def set_region_def\<close>)
  have "pm' = pm \<or> (\<exists>h. pm' = pm1\<lparr>pm_host := h\<rparr>) \<or> pm' = pm1"
    using ret Some pp unfolding NoteFault_def Let_def rn q_def [symmetric] pm1_def [symmetric]
    by (auto simp: q_def pm1_def obind_Ret_iff split: if_splits)
  then have "pm_page pm' k = pm_page pm k \<or> pm_page pm' k = pm_page pm1 k" by auto
  moreover have "\<exists>f. q = p\<lparr>faults := f\<rparr>"
    unfolding q_def using same_faults by (cases "faults p = 255") auto
  moreover have "\<exists>f. pm_page pm k = (pm_page pm k)\<lparr>faults := f\<rparr>" by (rule same_faults)
  ultimately show ?thesis unfolding pg p_def by (cases "k = n") auto
qed

lemma fault_step:
  assumes inv: "mt_inv hot others (pm, mt)" and ret: "NoteFault hot pok v pm = Ret (pm', b)"
  shows "mt_inv hot others (pm', mt)"
proof -
  have pmi: "pm_inv hot pm" using inv by (simp add: mt_inv_def)
  then have wf: "pm_wf pm" by (simp add: pm_inv_def)
  have "counters_ok others (mt_bits Cpu mt k) (mt_bits Gpu mt k) k (pm_page pm' k)" if "k < 268435456" for k
  proof -
    obtain f where "pm_page pm' k = (pm_page pm k)\<lparr>faults := f\<rparr>" using NoteFault_page [OF wf ret] by blast
    then show ?thesis using inv that by (simp add: mt_inv_def counters_ok_def)
  qed
  then show ?thesis using inv pm_inv_NoteFault [OF pmi ret] by (simp add: mt_inv_def)
qed

lemma start_inv: "mt_inv hot (\<lambda>_. 0) (PageManager_init host, MemoryTracker_new)"
proof -
  have "pm_page (PageManager_init host) n = PageState_init" for n
    by (simp add: pm_page_def PageManager_init_def)
  then show ?thesis
    using pm_inv_init [of hot host]
    by (simp add: mt_inv_def MemoryTracker_new_def mt_bits_def counters_ok_def PageState_init_def)
qed

lemma mt_reach_idle: "mt_reach hot pok others s \<Longrightarrow> mt_idle hot others s"
proof (induction rule: mt_reach.induct)
  case (start host)
  show ?case using start_inv [of hot host] by (simp add: mt_idle_def MemoryTracker_new_def)
next
  case (watch others pm mt v n pm')
  then show ?case using client_step [of hot others pm mt pok True v n pm'] by (simp add: mt_idle_def)
next
  case (unwatch others pm mt v n pm')
  then show ?case using client_step [of hot others pm mt pok False v n pm'] by (simp add: mt_idle_def)
next
  case (restore others pm mt v pm' b)
  then show ?case using restore_step by (auto simp: mt_idle_def)
next
  case (fault others pm mt v pm' b)
  then show ?case using fault_step by (auto simp: mt_idle_def)
next
  case (cpu others s v n t)
  have i: "mt_inv hot others s" "\<not> mt_in_upload (snd s)" using cpu(3) by (simp_all add: mt_idle_def)
  from owp_RetD [OF Mark_props(1) [OF i Ret_legal(1) [OF cpu(2)]] cpu(2)] cpu(3) show ?case
    using mt_idle_effect by blast
next
  case (gpu others s v n t)
  have i: "mt_inv hot others s" "\<not> mt_in_upload (snd s)" using gpu(3) by (simp_all add: mt_idle_def)
  from owp_RetD [OF Mark_props(2) [OF i Ret_legal(2) [OF gpu(2)]] gpu(2)] gpu(3) show ?case
    using mt_idle_effect by blast
next
  case (ungpu others s v n t)
  have i: "mt_inv hot others s" "\<not> mt_in_upload (snd s)" using ungpu(3) by (simp_all add: mt_idle_def)
  from owp_RetD [OF Mark_props(3) [OF i Ret_legal(3) [OF ungpu(2)]] ungpu(2)] ungpu(3) show ?case
    using mt_idle_effect by blast
next
  case (untrack others s v n t)
  have i: "mt_inv hot others s" "\<not> mt_in_upload (snd s)" using untrack(3) by (simp_all add: mt_idle_def)
  from owp_RetD [OF Untrack_props [OF i Ret_legal(4) [OF untrack(2)]] untrack(2)] untrack(3) show ?case
    using mt_idle_effect by blast
next
  case (query others s v n t b)
  have i: "mt_inv hot others s" "\<not> mt_in_upload (snd s)" using query(3) by (simp_all add: mt_idle_def)
  obtain mt' where "t = (fst s, mt')" "mt_same (snd s) mt'" "mt_inv hot others (fst s, mt')"
    using IsRegionModified_props(1) [OF i Ret_legal(5) [OF query(2)]] query(2) by auto
  then show ?case using i by (simp add: mt_idle_def mt_same_def)
next
  case (download others s clear v n t c)
  have i: "mt_inv hot others s" "\<not> mt_in_upload (snd s)" using download(3) by (simp_all add: mt_idle_def)
  from owp_RetD [OF Download_props [OF i Ret_legal(6) [OF download(2)]] download(2)] i
  show ?case by (cases c) (auto simp: mt_idle_def mt_effect_def split: if_splits)
next
  case (upload others s w v n t c)
  have i: "mt_inv hot others s" "\<not> mt_in_upload (snd s)" using upload(3) by (simp_all add: mt_idle_def)
  from owp_RetD [OF Upload_props [OF i Upload_legal [OF upload(2)]] upload(2)] i
  show ?case by (auto simp: mt_idle_def upload_effect_def)
next
  case (invalidate others s flush v n t c)
  then show ?case using Invalidate_inv [of hot others s flush pok v n t c] by (auto simp: mt_idle_def)
qed

section \<open>Properties\<close>

lemma sides_disjoint:
  assumes "mt_inv hot others s"
  shows "\<not> (mt_bits Cpu (snd s) n \<and> mt_bits Gpu (snd s) n)"
proof (cases "mt_regions (snd s) (n div 1024)")
  case None
  then show ?thesis by (simp add: mt_bits_def)
next
  case (Some rm)
  then have "rm_inv rm" using assms by (auto simp: mt_inv_def)
  then show ?thesis using Some by (simp add: mt_bits_def rm_inv_def)
qed

text \<open>
  C1: with the environment switch \<open>MAGNUS_HOT_PAGE\<close> off, after any history of tracker calls,
  mixed with watches of other clients and with noted and repaired faults, and provided that the
  flush callback of an invalidation keeps the tracker's invariant, no page is modified by both sides, and the protection of every page the page
  manager has ever watched is decided by the two sets: no access exactly when the GPU
  modified the page last; otherwise writable exactly when the CPU modified it and no other
  client watches it; otherwise read-only. Pages it never watched are modified by the CPU
  and nobody watches them.
\<close>

theorem protection_is_decided_by_ownership:
  assumes "mt_reach False pok others s" "n < 268435456"
  shows "\<not> (mt_bits Cpu (snd s) n \<and> mt_bits Gpu (snd s) n) \<and>
    (if managed (pm_page (fst s) n)
     then pm_host (fst s) n =
       (if mt_bits Gpu (snd s) n then Mode_NoAccess
        else if mt_bits Cpu (snd s) n \<and> others n = 0 then Mode_ReadWrite else Mode_Read)
     else mt_bits Cpu (snd s) n \<and> others n = 0)"
proof -
  have inv: "mt_inv False others s" using mt_reach_idle [OF assms(1)] by (simp add: mt_idle_def)
  have c: "counters_ok others (mt_bits Cpu (snd s) n) (mt_bits Gpu (snd s) n) n (pm_page (fst s) n)"
    and p: "if managed (pm_page (fst s) n) then pm_host (fst s) n = page_mode False (pm_page (fst s) n)
      else pm_page (fst s) n = PageState_init"
    using inv assms(2) by (simp_all add: mt_inv_def pm_inv_def)
  have "write_watchers (pm_page (fst s) n) = 0 \<longleftrightarrow> others n = 0 \<and> mt_bits Cpu (snd s) n"
    using c unat_eq_zero [of "write_watchers (pm_page (fst s) n)"] by (auto simp: counters_ok_def split: if_splits)
  then show ?thesis
    using sides_disjoint [OF inv, of n] c p
    by (auto simp: counters_ok_def page_mode_def PageState_init_def split: if_splits)
qed

abbreviation start_state :: mt_state where
  "start_state \<equiv> (PageManager_init (\<lambda>_. Mode_ReadWrite), MemoryTracker_new)"

lemma start_idle: "mt_inv False (\<lambda>_. 0) start_state" "\<not> mt_in_upload (snd start_state)"
  using start_inv by (simp_all add: MemoryTracker_new_def)

lemma start_reach: "mt_reach False (\<lambda>_ _ _. True) (\<lambda>_. 0) start_state"
  by (rule mt_reach.start)

lemma page2: "range_pages 8192 4096 = {2}" "range_ok 8192 4096"
  by (simp_all add: range_pages_def range_ok_def)

lemma start_bits: "mt_bits src (snd start_state) n \<longleftrightarrow> src = Cpu"
  by (simp add: mt_bits_def MemoryTracker_new_def)

lemma upload_start: "\<exists>t calls. ForEachUploadRange False (\<lambda>_ _ _. True) True 8192 4096 start_state = Ret (t, calls) \<and>
  upload_effect False (\<lambda>_. 0) True {2} start_state t"
proof -
  have "\<not> mt_fails (\<lambda>_. 0) (\<lambda>_ _ _. True) Cpu False {2} start_state" by (simp add: mt_fails_def)
  then have "owp (ForEachUploadRange False (\<lambda>_ _ _. True) True 8192 4096 start_state)
      (\<lambda>(t, calls). calls_aligned calls \<and> call_pages calls = upload_pages False True 8192 4096 start_state \<and>
         upload_effect False (\<lambda>_. 0) True {2} start_state t) False"
    using Upload_props [OF start_idle page2(2), of "\<lambda>_ _ _. True" True] unfolding page2(1) by simp
  then show ?thesis unfolding owp_total by auto
qed

theorem protection_is_decided_by_ownership_witness:
  "\<exists>t calls. ForEachUploadRange False (\<lambda>_ _ _. True) True 8192 4096 start_state = Ret (t, calls) \<and>
     pm_host (fst t) 2 = Mode_NoAccess"
proof -
  obtain t calls where t: "ForEachUploadRange False (\<lambda>_ _ _. True) True 8192 4096 start_state = Ret (t, calls)"
    "upload_effect False (\<lambda>_. 0) True {2} start_state t"
    using upload_start by blast
  have "mt_bits Gpu (snd t) 2" using t(2) by (simp add: upload_effect_def)
  moreover have "mt_reach False (\<lambda>_ _ _. True) (\<lambda>_. 0) t" by (rule mt_reach.upload [OF start_reach t(1)])
  ultimately have "pm_host (fst t) 2 = Mode_NoAccess"
    using protection_is_decided_by_ownership [of "\<lambda>_ _ _. True" "\<lambda>_. 0" t 2] by (auto split: if_splits)
  with t(1) show ?thesis by blast
qed

text \<open>
  C3: the calls that mark, unmark and untrack a range change the one set by exactly the
  pages the range touches and leave the other set alone, across region borders and whether
  or not the managers existed. They end the process only for a page both sides would own, a
  page with 127 further watchers, the page at address zero, or a refused protection request.
\<close>

theorem tracker_updates_are_exact:
  assumes "mt_reach hot pok others s" "range_ok vaddr sz"
  shows "owp (MarkRegionAsCpuModified hot pok vaddr sz s)
      (mt_effect hot others Cpu True (range_pages vaddr sz) s) (mt_fails others pok Cpu True (range_pages vaddr sz) s) \<and>
    owp (MarkRegionAsGpuModified hot pok vaddr sz s)
      (mt_effect hot others Gpu True (range_pages vaddr sz) s) (mt_fails others pok Gpu True (range_pages vaddr sz) s) \<and>
    owp (UnmarkRegionAsGpuModified hot pok vaddr sz s)
      (mt_effect hot others Gpu False (range_pages vaddr sz) s) (mt_fails others pok Gpu False (range_pages vaddr sz) s) \<and>
    owp (UntrackMemory hot pok vaddr sz s)
      (mt_effect hot others Cpu True (range_pages vaddr sz) s) (mt_fails others pok Cpu True (range_pages vaddr sz) s)"
proof -
  have i: "mt_inv hot others s" "\<not> mt_in_upload (snd s)"
    using mt_reach_idle [OF assms(1)] by (simp_all add: mt_idle_def)
  show ?thesis using Mark_props [OF i assms(2)] Untrack_props [OF i assms(2)] by blast
qed

theorem tracker_updates_are_exact_witness:
  "owp (UntrackMemory False (\<lambda>_ _ _. True) 8192 4096 start_state) (\<lambda>t. mt_bits Cpu (snd t) 2) False"
proof -
  have "\<not> mt_fails (\<lambda>_. 0) (\<lambda>_ _ _. True) Cpu True {2} start_state"
    using start_bits by (simp add: mt_fails_def)
  then show ?thesis
    using tracker_updates_are_exact [OF start_reach page2(2)] unfolding page2(1)
    by (auto simp: mt_effect_def elim!: owp_mono)
qed

text \<open>
  \<open>IsRegionCpuModified\<close> and \<open>IsRegionGpuModified\<close> answer whether some page the range
  touches is in the set, also across regions and before any manager exists, and change
  neither set.
\<close>

theorem tracker_queries_are_exact:
  assumes "mt_reach hot pok others s" "range_ok vaddr sz"
  shows "(\<exists>mt. IsRegionCpuModified vaddr sz s = Ret ((fst s, mt), \<exists>n \<in> range_pages vaddr sz. mt_bits Cpu (snd s) n) \<and>
      mt_same (snd s) mt) \<and>
    (\<exists>mt. IsRegionGpuModified vaddr sz s = Ret ((fst s, mt), \<exists>n \<in> range_pages vaddr sz. mt_bits Gpu (snd s) n) \<and>
      mt_same (snd s) mt)"
proof -
  have i: "mt_inv hot others s" "\<not> mt_in_upload (snd s)"
    using mt_reach_idle [OF assms(1)] by (simp_all add: mt_idle_def)
  show ?thesis using IsRegionModified_props [OF i assms(2)] by blast
qed

theorem tracker_queries_are_exact_witness:
  "omap snd (IsRegionCpuModified 8192 4096 start_state) = Ret True \<and>
   omap snd (IsRegionGpuModified 8192 4096 start_state) = Ret False"
  using tracker_queries_are_exact [OF start_reach page2(2)] start_bits unfolding page2(1) by auto

text \<open>
  C4: an upload hands out, as whole pages, exactly the pages of the range the CPU modified
  (for a read-only upload of a range with a hot page the GPU does not own: all of them);
  afterwards the CPU owns no page of the range, and the GPU owns all of it when the
  upload is for writing and what it owned before otherwise.
\<close>

theorem upload_hands_over_the_range:
  assumes "mt_reach hot pok others s" "range_ok vaddr sz"
  shows "owp (ForEachUploadRange hot pok is_written vaddr sz s)
    (\<lambda>(t, calls). calls_aligned calls \<and> call_pages calls = upload_pages hot is_written vaddr sz s \<and>
       upload_effect hot others is_written (range_pages vaddr sz) s t)
    (mt_fails others pok Cpu False (range_pages vaddr sz) s)"
proof -
  have i: "mt_inv hot others s" "\<not> mt_in_upload (snd s)"
    using mt_reach_idle [OF assms(1)] by (simp_all add: mt_idle_def)
  show ?thesis by (rule Upload_props [OF i assms(2)])
qed

theorem upload_hands_over_the_range_witness:
  "owp (ForEachUploadRange False (\<lambda>_ _ _. True) True 8192 4096 start_state)
     (\<lambda>(t, calls). call_pages calls = {2} \<and> mt_bits Gpu (snd t) 2) False"
proof -
  have "\<not> mt_fails (\<lambda>_. 0) (\<lambda>_ _ _. True) Cpu False {2} start_state" by (simp add: mt_fails_def)
  moreover have "upload_pages False True 8192 4096 start_state = {2}"
    using start_bits by (auto simp: upload_pages_def page2)
  ultimately show ?thesis
    using upload_hands_over_the_range [OF start_reach page2(2), of True] unfolding page2(1)
    by (auto simp: upload_effect_def elim!: owp_mono)
qed

text \<open>
  C5: a download calls both of its callbacks on exactly the pages of the range that the GPU
  modified, as whole pages; with \<open>clear\<close> the GPU owns no page of the range afterwards,
  without it nothing changes.
\<close>

theorem download_reports_gpu_pages:
  assumes "mt_reach hot pok others s" "range_ok vaddr sz"
  shows "owp (ForEachDownloadRange hot pok clear vaddr sz s)
    (\<lambda>(t, preflight, calls). calls_aligned preflight \<and> calls_aligned calls \<and>
       call_pages preflight = {n \<in> range_pages vaddr sz. mt_bits Gpu (snd s) n} \<and>
       call_pages calls = {n \<in> range_pages vaddr sz. mt_bits Gpu (snd s) n} \<and>
       (if clear then mt_effect hot others Gpu False (range_pages vaddr sz) s t else t = s))
    (clear \<and> mt_fails others pok Gpu False (range_pages vaddr sz) s)"
proof -
  have i: "mt_inv hot others s" "\<not> mt_in_upload (snd s)"
    using mt_reach_idle [OF assms(1)] by (simp_all add: mt_idle_def)
  show ?thesis by (rule Download_props [OF i assms(2)])
qed

theorem download_reports_gpu_pages_witness:
  "\<exists>t calls. ForEachUploadRange False (\<lambda>_ _ _. True) True 8192 4096 start_state = Ret (t, calls) \<and>
     owp (ForEachDownloadRange False (\<lambda>_ _ _. True) False 8192 4096 t)
       (\<lambda>(_, _, calls). call_pages calls = {2}) False"
proof -
  obtain t calls where t: "ForEachUploadRange False (\<lambda>_ _ _. True) True 8192 4096 start_state = Ret (t, calls)"
    "upload_effect False (\<lambda>_. 0) True {2} start_state t"
    using upload_start by blast
  have g: "mt_bits Gpu (snd t) 2" using t(2) by (simp add: upload_effect_def)
  have r: "mt_reach False (\<lambda>_ _ _. True) (\<lambda>_. 0) t" by (rule mt_reach.upload [OF start_reach t(1)])
  have "owp (ForEachDownloadRange False (\<lambda>_ _ _. True) False 8192 4096 t)
      (\<lambda>(_, _, calls). call_pages calls = {2}) False"
  proof -
    have "{n \<in> {2}. mt_bits Gpu (snd t) n} = {2}" using g by auto
    note d = download_reports_gpu_pages [OF r page2(2), of False, unfolded page2(1) this]
    show ?thesis by (rule owp_mono [OF d]) (simp_all add: case_prod_unfold)
  qed
  with t(1) show ?thesis by blast
qed

text \<open>
  Invalidating a range the GPU modified nothing of never flushes and gives every page
  the range touches to the CPU.
\<close>

theorem invalidate_clean_range:
  assumes "mt_reach hot pok others s" "range_ok vaddr sz"
    and "range_pages vaddr sz \<inter> {n. mt_bits Gpu (snd s) n} = {}"
  shows "owp (InvalidateRegion hot pok on_flush vaddr sz s)
    (\<lambda>(t, flushes). flushes = 0 \<and> mt_effect hot others Cpu True (range_pages vaddr sz) s t)
    (mt_fails others pok Cpu True (range_pages vaddr sz) s)"
proof -
  have i: "mt_inv hot others s" "\<not> mt_in_upload (snd s)"
    using mt_reach_idle [OF assms(1)] by (simp_all add: mt_idle_def)
  show ?thesis by (rule Invalidate_clean [OF i assms(2)]) (use assms(3) in auto)
qed

theorem invalidate_clean_range_witness:
  "owp (InvalidateRegion False (\<lambda>_ _ _. True) (\<lambda>_. Exit) 8192 4096 start_state)
     (\<lambda>(t, flushes). flushes = 0 \<and> mt_bits Cpu (snd t) 2) False"
proof -
  have "\<not> mt_fails (\<lambda>_. 0) (\<lambda>_ _ _. True) Cpu True {2} start_state"
    using start_bits by (simp add: mt_fails_def)
  moreover have "range_pages 8192 4096 \<inter> {n. mt_bits Gpu (snd start_state) n} = {}"
    using start_bits by simp
  ultimately show ?thesis
    using invalidate_clean_range [OF start_reach page2(2), of "\<lambda>_. Exit"] unfolding page2(1)
    by (auto simp: mt_effect_def elim!: owp_mono)
qed

text \<open>
  C6: the debug check of a range passes exactly when, page by page, the tracker says the
  GPU modified the page if and only if the byte set holds some byte of the page.
\<close>

theorem ownership_check_is_exact:
  assumes "mt_reach hot pok others s" "range_ok vaddr sz" "range_inv dirty" "4096 \<le> vaddr"
  shows "ValidateGpuDirtyOwnership dirty vaddr sz s = Ret () \<longleftrightarrow>
    (\<forall>n \<in> range_pages vaddr sz. mt_bits Gpu (snd s) n \<longleftrightarrow> range_bytes dirty \<inter> page_bytes n \<noteq> {})"
proof -
  have i: "mt_inv hot others s" "\<not> mt_in_upload (snd s)"
    using mt_reach_idle [OF assms(1)] by (simp_all add: mt_idle_def)
  show ?thesis by (rule Ownership_props [OF i assms(2-4)])
qed

theorem ownership_check_is_exact_witness:
  "ValidateGpuDirtyOwnership [(12288, 12300)] 8192 4096 start_state = Ret ()"
proof -
  have "range_inv [(12288, 12300)]" by simp
  note chk = ownership_check_is_exact [OF start_reach page2(2) this, unfolded page2(1)]
  have "x \<notin> page_bytes 2" if "12288 \<le> x" for x using that by (simp add: page_bytes_def)
  moreover have "12288 \<le> x" if "x \<in> range_bytes [(12288, 12300)]" for x
    using that unfolding range_bytes_simps by simp
  ultimately have "range_bytes [(12288, 12300)] \<inter> page_bytes 2 = {}" by blast
  with chk start_bits show ?thesis by simp
qed

end
