(* ===== verification/LruCache.thy ===== *)
theory LruCache
  imports Prelude
begin

text \<open>
  \<open>Common::LeastRecentlyUsedCache\<close> of \<open>src/common/lruCache.h\<close>: objects in a deque of
  items, linked by pointers in the order of their last use, with a queue of free slots. An
  item is its index in the deque (a deque keeps the addresses of its elements), so the
  deque is the store and a pointer an optional index. Ticks are natural numbers.
\<close>

section \<open>The cache and its operations\<close>

record 'a lru_item =
  it_object :: 'a
  it_tick :: nat
  it_next :: "nat option"
  it_prev :: "nat option"

record 'a lru_cache =
  lru_items :: "'a lru_item list"
  lru_free :: "nat list"
  lru_first :: "nat option"
  lru_last :: "nat option"

definition Lru_empty :: "'a lru_cache" where
  "Lru_empty = \<lparr>lru_items = [], lru_free = [], lru_first = None, lru_last = None\<rparr>"

abbreviation upd_item :: "nat \<Rightarrow> ('a lru_item \<Rightarrow> 'a lru_item) \<Rightarrow> 'a lru_item list \<Rightarrow> 'a lru_item list" where
  "upd_item i f items \<equiv> items[i := f (items ! i)]"

definition Lru_Build :: "'a \<Rightarrow> 'a lru_cache \<Rightarrow> nat \<times> 'a lru_cache" where
  "Lru_Build dflt c =
     (case lru_free c of
        [] \<Rightarrow> (length (lru_items c),
          c\<lparr>lru_items := lru_items c @ [\<lparr>it_object = dflt, it_tick = 0, it_next = None, it_prev = None\<rparr>]\<rparr>)
      | slot # rest \<Rightarrow> (slot, c\<lparr>lru_free := rest\<rparr>))"

definition Lru_Attach :: "nat \<Rightarrow> 'a lru_cache \<Rightarrow> 'a lru_cache" where
  "Lru_Attach item c =
     (let c = (if lru_first c = None then c\<lparr>lru_first := Some item\<rparr> else c) in
      case lru_last c of
        None \<Rightarrow> c\<lparr>lru_last := Some item\<rparr>
      | Some l \<Rightarrow>
          let items = upd_item item (\<lambda>i. i\<lparr>it_prev := Some l\<rparr>) (lru_items c);
              items = upd_item l (\<lambda>i. i\<lparr>it_next := Some item\<rparr>) items;
              items = upd_item item (\<lambda>i. i\<lparr>it_next := None\<rparr>) items in
          c\<lparr>lru_items := items, lru_last := Some item\<rparr>)"

definition Lru_Detach :: "nat \<Rightarrow> 'a lru_cache \<Rightarrow> 'a lru_cache" where
  "Lru_Detach item c =
     (let n = it_next (lru_items c ! item); p = it_prev (lru_items c ! item);
          items = lru_items c;
          items = (case p of None \<Rightarrow> items | Some j \<Rightarrow> upd_item j (\<lambda>i. i\<lparr>it_next := n\<rparr>) items);
          items = (case n of None \<Rightarrow> items | Some j \<Rightarrow> upd_item j (\<lambda>i. i\<lparr>it_prev := p\<rparr>) items) in
      c\<lparr>lru_items := items,
        lru_first := (if lru_first c = Some item then n else lru_first c),
        lru_last := (if lru_last c = Some item then p else lru_last c)\<rparr>)"

definition Lru_Insert :: "'a \<Rightarrow> 'a \<Rightarrow> nat \<Rightarrow> 'a lru_cache \<Rightarrow> nat \<times> 'a lru_cache" where
  "Lru_Insert dflt object tick c =
     (let (slot, c) = Lru_Build dflt c;
          c = c\<lparr>lru_items := upd_item slot (\<lambda>i. i\<lparr>it_object := object, it_tick := tick\<rparr>) (lru_items c)\<rparr> in
      (slot, Lru_Attach slot c))"

definition Lru_Touch :: "nat \<Rightarrow> nat \<Rightarrow> 'a lru_cache \<Rightarrow> 'a lru_cache outcome" where
  "Lru_Touch slot tick c =
     (if slot \<ge> length (lru_items c) then Undef
      else if it_tick (lru_items c ! slot) \<ge> tick then Ret c
      else
        let c = c\<lparr>lru_items := upd_item slot (\<lambda>i. i\<lparr>it_tick := tick\<rparr>) (lru_items c)\<rparr> in
        if lru_last c \<noteq> Some slot then Ret (Lru_Attach slot (Lru_Detach slot c)) else Ret c)"

definition Lru_Free :: "nat \<Rightarrow> 'a lru_cache \<Rightarrow> 'a lru_cache outcome" where
  "Lru_Free slot c =
     (if slot \<ge> length (lru_items c) then Undef
      else
        let c = Lru_Detach slot c;
            c = c\<lparr>lru_items := upd_item slot (\<lambda>i. i\<lparr>it_next := None, it_prev := None\<rparr>) (lru_items c)\<rparr> in
        Ret (c\<lparr>lru_free := lru_free c @ [slot]\<rparr>))"

text \<open>
  \<open>ForEachItemBelow\<close> with a function that stops the walk by returning true: the objects it
  is called on. The walk follows \<open>next\<close> from item to item, at most one step per slot.
\<close>

fun below_walk :: "nat \<Rightarrow> 'a lru_item list \<Rightarrow> ('a \<Rightarrow> bool) \<Rightarrow> nat \<Rightarrow> nat option \<Rightarrow> 'a list outcome" where
  "below_walk tick items stop fuel None = Ret []"
| "below_walk tick items stop 0 (Some i) = Undef"
| "below_walk tick items stop (Suc fuel) (Some i) =
     (if it_tick (items ! i) > tick then Ret []
      else if stop (it_object (items ! i)) then Ret [it_object (items ! i)]
      else omap ((#) (it_object (items ! i))) (below_walk tick items stop fuel (it_next (items ! i))))"

definition Lru_ForEachItemBelow :: "nat \<Rightarrow> ('a \<Rightarrow> bool) \<Rightarrow> 'a lru_cache \<Rightarrow> 'a list outcome" where
  "Lru_ForEachItemBelow tick stop c =
     below_walk tick (lru_items c) stop (length (lru_items c)) (lru_first c)"

section \<open>Linked segments\<close>

lemma upd_nth: "(xs[i := v]) ! j = (if i = j \<and> j < length xs then v else xs ! j)"
  by (cases "i = j"; cases "j < length xs") (simp_all add: list_update_beyond)

definition hd_opt :: "nat list \<Rightarrow> nat option \<Rightarrow> nat option" where
  "hd_opt xs n = (case xs of [] \<Rightarrow> n | x # _ \<Rightarrow> Some x)"

definition last_opt :: "nat list \<Rightarrow> nat option \<Rightarrow> nat option" where
  "last_opt xs p = (if xs = [] then p else Some (last xs))"

lemma opt_simps [simp]:
  "hd_opt [] n = n" "hd_opt (x # xs) n = Some x" "last_opt [] p = p" "last_opt (xs @ [x]) p = Some x"
  "hd_opt (xs @ ys) n = hd_opt xs (hd_opt ys n)" "last_opt (x # xs) p = last_opt xs (Some x)"
  "last_opt (xs @ ys) p = last_opt ys (last_opt xs p)"
  by (auto simp: hd_opt_def last_opt_def split: list.split)

lemma opt_mem: "hd_opt xs None = Some i \<Longrightarrow> i \<in> set xs" "last_opt xs None = Some i \<Longrightarrow> i \<in> set xs"
  by (auto simp: hd_opt_def last_opt_def split: list.splits if_splits)

text \<open>\<open>links\<close>: the items of the list point to their neighbours; \<open>p\<close> and \<open>n\<close> are outside.\<close>

fun links :: "'a lru_item list \<Rightarrow> nat option \<Rightarrow> nat list \<Rightarrow> nat option \<Rightarrow> bool" where
  "links items p [] n = True"
| "links items p (i # is) n =
     (i < length items \<and> it_prev (items ! i) = p \<and> it_next (items ! i) = hd_opt is n \<and>
      links items (Some i) is n)"

lemma links_append [simp]:
  "links items p (xs @ ys) n \<longleftrightarrow> links items p xs (hd_opt ys n) \<and> links items (last_opt xs p) ys n"
  by (induction xs arbitrary: p) auto

lemma links_bound: "links items p xs n \<Longrightarrow> i \<in> set xs \<Longrightarrow> i < length items"
  by (induction xs arbitrary: p) auto

lemma links_frame:
  "length items' = length items \<Longrightarrow>
   (\<And>i. i \<in> set xs \<Longrightarrow> it_next (items' ! i) = it_next (items ! i) \<and> it_prev (items' ! i) = it_prev (items ! i)) \<Longrightarrow>
   links items p xs n \<Longrightarrow> links items' p xs n"
  by (induction xs arbitrary: p) auto

lemma links_upd_other:
  "i \<notin> set xs \<Longrightarrow> links items p xs n \<Longrightarrow> links (items[i := v]) p xs n"
  by (rule links_frame) (simp, metis nth_list_update_neq)

text \<open>Redirecting the outer pointer of the last and of the first item.\<close>

lemma links_set_next:
  "distinct (xs @ [j]) \<Longrightarrow> links items p (xs @ [j]) n \<Longrightarrow>
   links (upd_item j (\<lambda>i. i\<lparr>it_next := n'\<rparr>) items) p (xs @ [j]) n'"
  by (auto intro: links_upd_other)

lemma links_set_prev:
  "distinct (j # ys) \<Longrightarrow> links items p (j # ys) n \<Longrightarrow>
   links (upd_item j (\<lambda>i. i\<lparr>it_prev := p'\<rparr>) items) p' (j # ys) n"
  by (auto intro: links_upd_other)

section \<open>Invariant\<close>

text \<open>\<open>ids\<close> is the abstract state: the used slots from least to most recently used.\<close>

definition lru_inv :: "'a lru_cache \<Rightarrow> nat list \<Rightarrow> bool" where
  "lru_inv c ids \<longleftrightarrow>
     links (lru_items c) None ids None \<and> lru_first c = hd_opt ids None \<and> lru_last c = last_opt ids None \<and>
     distinct ids \<and> distinct (lru_free c) \<and> set ids \<inter> set (lru_free c) = {} \<and>
     set ids \<union> set (lru_free c) = {..<length (lru_items c)} \<and>
     (\<forall>i \<in> set (lru_free c). it_next (lru_items c ! i) = None \<and> it_prev (lru_items c ! i) = None)"

lemma lru_inv_empty: "lru_inv Lru_empty []"
  by (simp add: lru_inv_def Lru_empty_def)

text \<open>A detached item is in neither list; its own pointers are what they were.\<close>

definition lru_detached :: "'a lru_cache \<Rightarrow> nat list \<Rightarrow> nat \<Rightarrow> bool" where
  "lru_detached c ids d \<longleftrightarrow>
     links (lru_items c) None ids None \<and> lru_first c = hd_opt ids None \<and> lru_last c = last_opt ids None \<and>
     distinct ids \<and> distinct (lru_free c) \<and> set ids \<inter> set (lru_free c) = {} \<and>
     d < length (lru_items c) \<and> d \<notin> set ids \<and> d \<notin> set (lru_free c) \<and>
     insert d (set ids \<union> set (lru_free c)) = {..<length (lru_items c)} \<and>
     (\<forall>i \<in> set (lru_free c). it_next (lru_items c ! i) = None \<and> it_prev (lru_items c ! i) = None)"

lemma Lru_Attach_inv:
  assumes d: "lru_detached c ids d"
    and fresh: "ids = [] \<Longrightarrow> it_next (lru_items c ! d) = None \<and> it_prev (lru_items c ! d) = None"
  shows "lru_inv (Lru_Attach d c) (ids @ [d])"
    "length (lru_items (Lru_Attach d c)) = length (lru_items c)"
    "\<And>i. it_object (lru_items (Lru_Attach d c) ! i) = it_object (lru_items c ! i) \<and>
       it_tick (lru_items (Lru_Attach d c) ! i) = it_tick (lru_items c ! i)"
proof -
  note D = d [unfolded lru_detached_def]
  show "lru_inv (Lru_Attach d c) (ids @ [d])"
  proof (cases ids rule: rev_cases)
    case Nil
    with D fresh show ?thesis by (auto simp: lru_inv_def Lru_Attach_def)
  next
    case (snoc as l)
    let ?i1 = "upd_item d (\<lambda>i. i\<lparr>it_prev := Some l\<rparr>) (lru_items c)"
    let ?i2 = "upd_item l (\<lambda>i. i\<lparr>it_next := Some d\<rparr>) ?i1"
    let ?i3 = "upd_item d (\<lambda>i. i\<lparr>it_next := None\<rparr>) ?i2"
    have ne: "d \<noteq> l" "d \<notin> set as" using D snoc by auto
    have l: "l < length (lru_items c)" using D links_bound [of "lru_items c" None ids None l] snoc by auto
    have "links ?i1 None (as @ [l]) None"
      using D snoc ne by (intro links_upd_other) auto
    then have "links ?i2 None (as @ [l]) (Some d)" using D snoc by (intro links_set_next) auto
    then have "links ?i3 None (as @ [l]) (Some d)" by (rule links_upd_other [rotated]) (use ne in simp)
    moreover have "it_prev (?i3 ! d) = Some l" "it_next (?i3 ! d) = None"
      using D ne by (simp_all add: nth_list_update)
    moreover have "lru_first c \<noteq> None" using D snoc by (cases as) auto
    moreover have "it_next (?i3 ! i) = None \<and> it_prev (?i3 ! i) = None" if "i \<in> set (lru_free c)" for i
    proof -
      have "i \<noteq> d" "i \<noteq> l" using that D snoc by auto
      with that D show ?thesis by simp
    qed
    moreover have "Lru_Attach d c = c\<lparr>lru_items := ?i3, lru_last := Some d\<rparr>"
      using D snoc \<open>lru_first c \<noteq> None\<close> by (simp add: Lru_Attach_def Let_def)
    moreover have "set ids \<union> set (lru_free c) \<union> {d} = {..<length ?i3}" using D by auto
    moreover have "d < length ?i3" "length ?i3 = length (lru_items c)" using D by auto
    moreover define i3 where "i3 = ?i3"
    ultimately show ?thesis
      unfolding lru_inv_def i3_def [symmetric]
      using D snoc by auto
  qed
  show "length (lru_items (Lru_Attach d c)) = length (lru_items c)"
    by (simp add: Lru_Attach_def Let_def split: option.split)
  show "it_object (lru_items (Lru_Attach d c) ! i) = it_object (lru_items c ! i) \<and>
       it_tick (lru_items (Lru_Attach d c) ! i) = it_tick (lru_items c ! i)" for i
    by (auto simp: Lru_Attach_def Let_def upd_nth split: option.split)
qed

lemma Lru_Detach_inv:
  assumes inv: "lru_inv c ids" and d: "d \<in> set ids"
  shows "lru_detached (Lru_Detach d c) (remove1 d ids) d"
    "length (lru_items (Lru_Detach d c)) = length (lru_items c)"
    "\<And>i. it_object (lru_items (Lru_Detach d c) ! i) = it_object (lru_items c ! i) \<and>
       it_tick (lru_items (Lru_Detach d c) ! i) = it_tick (lru_items c ! i)"
proof -
  note D = inv [unfolded lru_inv_def]
  from d obtain as bs where ids: "ids = as @ d # bs" "d \<notin> set as" by (meson split_list_first)
  have db: "d \<notin> set bs" "distinct (as @ bs)" using D ids by auto
  have rem: "remove1 d ids = as @ bs" using ids by (simp add: remove1_append)
  have pn: "it_prev (lru_items c ! d) = last_opt as None" "it_next (lru_items c ! d) = hd_opt bs None"
    using D ids by auto
  let ?p = "last_opt as None" and ?n = "hd_opt bs None"
  define i1 where "i1 = (case ?p of None \<Rightarrow> lru_items c | Some j \<Rightarrow> upd_item j (\<lambda>i. i\<lparr>it_next := ?n\<rparr>) (lru_items c))"
  define i2 where "i2 = (case ?n of None \<Rightarrow> i1 | Some j \<Rightarrow> upd_item j (\<lambda>i. i\<lparr>it_prev := ?p\<rparr>) i1)"
  have det: "Lru_Detach d c = c\<lparr>lru_items := i2,
      lru_first := (if lru_first c = Some d then ?n else lru_first c),
      lru_last := (if lru_last c = Some d then ?p else lru_last c)\<rparr>"
    unfolding Lru_Detach_def Let_def pn i1_def i2_def by (rule refl)
  have L: "links (lru_items c) None as (Some d)" "links (lru_items c) (Some d) bs None"
    using D ids by auto
  have as1: "links i1 None as ?n \<and> links i1 (Some d) bs None"
  proof (cases as rule: rev_cases)
    case Nil
    then show ?thesis using L by (simp add: i1_def)
  next
    case (snoc as' j)
    have i1: "i1 = upd_item j (\<lambda>i. i\<lparr>it_next := ?n\<rparr>) (lru_items c)"
      using snoc by (simp add: i1_def)
    have "links i1 None (as' @ [j]) ?n"
      unfolding i1 using L(1) snoc D ids by (intro links_set_next) auto
    moreover have "links i1 (Some d) bs None"
      unfolding i1 using L(2) snoc D ids by (intro links_upd_other) auto
    ultimately show ?thesis unfolding snoc by blast
  qed
  have as2: "links i2 None as ?n \<and> links i2 ?p bs None"
  proof (cases bs)
    case Nil
    then show ?thesis using as1 by (simp add: i2_def)
  next
    case (Cons j bs')
    have i2: "i2 = upd_item j (\<lambda>i. i\<lparr>it_prev := ?p\<rparr>) i1" using Cons by (simp add: i2_def)
    have "links i2 ?p (j # bs') None"
      unfolding i2 using as1 Cons D ids by (intro links_set_prev) auto
    moreover have "links i2 None as (Some j)"
      unfolding i2 using as1 Cons D ids by (intro links_upd_other) auto
    ultimately show ?thesis unfolding Cons by simp
  qed
  have len: "length i1 = length (lru_items c)" "length i2 = length (lru_items c)"
    by (simp_all add: i1_def i2_def split: option.split)
  have free: "it_next (i2 ! i) = None \<and> it_prev (i2 ! i) = None" if "i \<in> set (lru_free c)" for i
  proof -
    have "?p \<noteq> Some i" "?n \<noteq> Some i"
      using that D ids by (auto dest: opt_mem)
    then have "i2 ! i = lru_items c ! i"
      by (auto simp: i1_def i2_def nth_list_update split: option.split)
    with that D show ?thesis by simp
  qed
  have fl: "(if lru_first c = Some d then ?n else lru_first c) = hd_opt (as @ bs) None"
    "(if lru_last c = Some d then ?p else lru_last c) = last_opt (as @ bs) None"
  proof -
    show "(if lru_first c = Some d then ?n else lru_first c) = hd_opt (as @ bs) None"
      using D ids by (cases as) auto
    show "(if lru_last c = Some d then ?p else lru_last c) = last_opt (as @ bs) None"
      using D ids db by (cases bs rule: rev_cases) auto
  qed
  show "lru_detached (Lru_Detach d c) (remove1 d ids) d"
    unfolding lru_detached_def rem det
    using as2 fl db D ids len free links_bound [of "lru_items c" None ids None d] d by auto
  show "length (lru_items (Lru_Detach d c)) = length (lru_items c)" by (simp add: det len)
  show "it_object (lru_items (Lru_Detach d c) ! i) = it_object (lru_items c ! i) \<and>
       it_tick (lru_items (Lru_Detach d c) ! i) = it_tick (lru_items c ! i)" for i
    by (auto simp: det i1_def i2_def upd_nth split: option.split)
qed

section \<open>The operations on the abstract list\<close>

text \<open>
  The abstract cache is the list of used entries (slot, object, tick), least recently used
  first. The slot of an insertion is the longest free one, or a new one.
\<close>

type_synonym 'a entry = "nat \<times> 'a \<times> nat"

definition e_tick :: "'a entry \<Rightarrow> nat" where "e_tick e = snd (snd e)"
definition e_object :: "'a entry \<Rightarrow> 'a" where "e_object e = fst (snd e)"

definition lru_rep :: "'a lru_cache \<Rightarrow> 'a entry list \<Rightarrow> bool" where
  "lru_rep c es \<longleftrightarrow> lru_inv c (map fst es) \<and>
     (\<forall>e \<in> set es. it_object (lru_items c ! fst e) = e_object e \<and> it_tick (lru_items c ! fst e) = e_tick e)"

datatype 'a lru_op = OpInsert 'a nat | OpTouch nat nat | OpFree nat

fun lru_step :: "'a \<Rightarrow> 'a lru_op \<Rightarrow> 'a lru_cache \<Rightarrow> 'a lru_cache outcome" where
  "lru_step dflt (OpInsert x t) c = Ret (snd (Lru_Insert dflt x t c))"
| "lru_step dflt (OpTouch i t) c = Lru_Touch i t c"
| "lru_step dflt (OpFree i) c = Lru_Free i c"

type_synonym 'a lru_spec = "'a entry list \<times> nat list \<times> nat"

fun spec_step :: "'a lru_op \<Rightarrow> 'a lru_spec \<Rightarrow> 'a lru_spec option" where
  "spec_step (OpInsert x t) (es, [], n) = Some (es @ [(n, x, t)], [], Suc n)"
| "spec_step (OpInsert x t) (es, i # fr, n) = Some (es @ [(i, x, t)], fr, n)"
| "spec_step (OpTouch i t) (es, fr, n) =
     (case filter (\<lambda>e. fst e = i) es of
        [] \<Rightarrow> None
      | e # _ \<Rightarrow> Some (if e_tick e \<ge> t then es else filter (\<lambda>e. fst e \<noteq> i) es @ [(i, e_object e, t)], fr, n))"
| "spec_step (OpFree i) (es, fr, n) =
     (if i \<in> fst ` set es then Some (filter (\<lambda>e. fst e \<noteq> i) es, fr @ [i], n) else None)"

fun spec_run :: "'a lru_op list \<Rightarrow> 'a lru_spec \<Rightarrow> 'a lru_spec option" where
  "spec_run [] s = Some s"
| "spec_run (x # xs) s = Option.bind (spec_step x s) (spec_run xs)"

text \<open>The objects handed to the function until it returns true, that one included.\<close>

fun up_to :: "('a \<Rightarrow> bool) \<Rightarrow> 'a list \<Rightarrow> 'a list" where
  "up_to stop [] = []"
| "up_to stop (x # xs) = (if stop x then [x] else x # up_to stop xs)"

definition spec_of :: "'a lru_cache \<Rightarrow> 'a lru_spec \<Rightarrow> bool" where
  "spec_of c s \<longleftrightarrow> lru_rep c (fst s) \<and> lru_free c = fst (snd s) \<and> length (lru_items c) = snd (snd s)"

lemma rep_ids: "lru_rep c es \<Longrightarrow> distinct (map fst es)"
  by (simp add: lru_rep_def lru_inv_def)

lemma filter_fst_single:
  "distinct (map fst es) \<Longrightarrow> e \<in> set es \<Longrightarrow> filter (\<lambda>x. fst x = fst e) es = [e]"
proof (induction es)
  case (Cons a es)
  then show ?case
  proof (cases "e = a")
    case True
    with Cons.prems have "\<forall>x \<in> set es. fst x \<noteq> fst e" by (auto simp: image_iff)
    with True show ?thesis by simp
  next
    case False
    with Cons.prems have "fst a \<noteq> fst e" by (auto simp: image_iff)
    with Cons False show ?thesis by simp
  qed
qed simp

lemma remove1_ids:
  "distinct (map fst es) \<Longrightarrow> remove1 i (map fst es) = map fst (filter (\<lambda>e. fst e \<noteq> i) es)"
  by (simp add: distinct_remove1_removeAll removeAll_filter_not_eq filter_map o_def eq_commute)

lemma Lru_Insert_rep:
  assumes rep: "lru_rep c es" and r: "Lru_Insert dflt x t c = (slot, c')"
  shows "lru_rep c' (es @ [(slot, x, t)])"
    "slot = (case lru_free c of [] \<Rightarrow> length (lru_items c) | i # _ \<Rightarrow> i)"
    "lru_free c' = tl (lru_free c)"
    "length (lru_items c') = length (lru_items c) + (if lru_free c = [] then 1 else 0)"
proof -
  obtain c0 where b: "Lru_Build dflt c = (slot, c0)"
    "c' = Lru_Attach slot (c0\<lparr>lru_items := upd_item slot (\<lambda>i. i\<lparr>it_object := x, it_tick := t\<rparr>) (lru_items c0)\<rparr>)"
    using r by (cases "Lru_Build dflt c") (auto simp: Lru_Insert_def Let_def)
  let ?c1 = "c0\<lparr>lru_items := upd_item slot (\<lambda>i. i\<lparr>it_object := x, it_tick := t\<rparr>) (lru_items c0)\<rparr>"
  have inv: "lru_inv c (map fst es)" and
    vals: "\<And>e. e \<in> set es \<Longrightarrow> it_object (lru_items c ! fst e) = e_object e \<and> it_tick (lru_items c ! fst e) = e_tick e"
    using rep by (auto simp: lru_rep_def)
  note I = inv [unfolded lru_inv_def]
  have "lru_detached ?c1 (map fst es) slot \<and> it_next (lru_items ?c1 ! slot) = None \<and>
      it_prev (lru_items ?c1 ! slot) = None \<and> slot < length (lru_items ?c1) \<and>
      (\<forall>i < length (lru_items c). i \<noteq> slot \<longrightarrow> lru_items ?c1 ! i = lru_items c ! i) \<and> slot \<notin> set (map fst es) \<and>
      slot = (case lru_free c of [] \<Rightarrow> length (lru_items c) | i # _ \<Rightarrow> i) \<and> lru_free ?c1 = tl (lru_free c) \<and>
      length (lru_items ?c1) = length (lru_items c) + (if lru_free c = [] then 1 else 0)"
  proof (cases "lru_free c")
    case Nil
    let ?new = "\<lparr>it_object = dflt, it_tick = 0, it_next = None, it_prev = None\<rparr>"
    have c0: "slot = length (lru_items c)" "c0 = c\<lparr>lru_items := lru_items c @ [?new]\<rparr>"
      using b(1) Nil by (auto simp: Lru_Build_def)
    have out: "slot \<notin> set (map fst es)" using I Nil c0 by auto
    have it1: "lru_items ?c1 = lru_items c @ [?new\<lparr>it_object := x, it_tick := t\<rparr>]"
      using c0 by simp
    have L0: "links (lru_items c) None (map fst es) None" using I by blast
    have ids: "set (map fst es) = {..<length (lru_items c)}" using I Nil by simp
    have "links (lru_items c @ [v]) p xs n" if "links (lru_items c) p xs n" for v p xs n
      using that by (induction xs arbitrary: p) (auto simp: nth_append)
    with L0 have "links (lru_items ?c1) None (map fst es) None" unfolding it1 by blast
    then show ?thesis
      unfolding lru_detached_def
      using I Nil c0 out ids it1 by (auto simp: nth_append)
  next
    case (Cons i fr)
    have c0: "slot = i" "c0 = c\<lparr>lru_free := fr\<rparr>" using b(1) Cons by (auto simp: Lru_Build_def)
    have out: "i \<notin> set (map fst es)" "i \<notin> set fr" using I Cons by auto
    have lt: "i < length (lru_items c)" using I Cons by auto
    have "links (lru_items ?c1) None (map fst es) None"
      using I c0 out by (auto intro: links_upd_other)
    moreover have "\<forall>j \<in> set fr. it_next (lru_items ?c1 ! j) = None \<and> it_prev (lru_items ?c1 ! j) = None"
      using I Cons c0 out by (auto simp: upd_nth)
    moreover have "insert i (set (map fst es) \<union> set fr) = {..<length (lru_items c)}" using I Cons by auto
    ultimately show ?thesis
      unfolding lru_detached_def
      using I Cons c0 out lt by auto
  qed
  then have D: "lru_detached ?c1 (map fst es) slot"
    "it_next (lru_items ?c1 ! slot) = None \<and> it_prev (lru_items ?c1 ! slot) = None"
    "slot < length (lru_items ?c1)"
    "\<And>i. i < length (lru_items c) \<Longrightarrow> i \<noteq> slot \<Longrightarrow> lru_items ?c1 ! i = lru_items c ! i"
    "slot \<notin> set (map fst es)"
    and res: "slot = (case lru_free c of [] \<Rightarrow> length (lru_items c) | i # _ \<Rightarrow> i)"
      "lru_free ?c1 = tl (lru_free c)"
      "length (lru_items ?c1) = length (lru_items c) + (if lru_free c = [] then 1 else 0)"
    by blast+
  note A = Lru_Attach_inv [OF D(1) D(2), folded b(2)]
  have fr: "lru_free c' = lru_free ?c1"
    unfolding b(2) by (simp add: Lru_Attach_def Let_def split: option.split)
  have val: "it_object (lru_items c' ! fst e) = e_object e \<and> it_tick (lru_items c' ! fst e) = e_tick e"
    if "e \<in> set es" for e
  proof -
    have "fst e < length (lru_items c)" using that I links_bound by fastforce
    moreover have "fst e \<noteq> slot" using that D(5) by auto
    ultimately have "lru_items ?c1 ! fst e = lru_items c ! fst e" by (rule D(4))
    with A(3) [of "fst e"] vals [OF that] show ?thesis by simp
  qed
  show "lru_rep c' (es @ [(slot, x, t)])"
    using A(1) A(3) [of slot] val D(3) by (auto simp: lru_rep_def e_object_def e_tick_def)
  show "slot = (case lru_free c of [] \<Rightarrow> length (lru_items c) | i # _ \<Rightarrow> i)" by (rule res(1))
  show "lru_free c' = tl (lru_free c)" using fr res(2) by simp
  show "length (lru_items c') = length (lru_items c) + (if lru_free c = [] then 1 else 0)"
    using A(2) res(3) by simp
qed

lemma Lru_Touch_rep:
  assumes rep: "lru_rep c es" and e: "e \<in> set es"
  shows "\<exists>c'. Lru_Touch (fst e) t c = Ret c' \<and>
    lru_rep c' (if e_tick e \<ge> t then es else filter (\<lambda>x. fst x \<noteq> fst e) es @ [(fst e, e_object e, t)]) \<and>
    lru_free c' = lru_free c \<and> length (lru_items c') = length (lru_items c)"
proof -
  have inv: "lru_inv c (map fst es)" and
    vals: "\<And>x. x \<in> set es \<Longrightarrow> it_object (lru_items c ! fst x) = e_object x \<and> it_tick (lru_items c ! fst x) = e_tick x"
    using rep by (auto simp: lru_rep_def)
  note I = inv [unfolded lru_inv_def]
  have mem: "fst e \<in> set (map fst es)" using e by simp
  have lt: "fst e < length (lru_items c)" using mem I links_bound by fastforce
  show ?thesis
  proof (cases "e_tick e \<ge> t")
    case True
    then show ?thesis using lt rep vals [OF e] by (simp add: Lru_Touch_def)
  next
    case False
    let ?c1 = "c\<lparr>lru_items := upd_item (fst e) (\<lambda>i. i\<lparr>it_tick := t\<rparr>) (lru_items c)\<rparr>"
    have inv1: "lru_inv ?c1 (map fst es)"
    proof -
      have "links (lru_items ?c1) None (map fst es) None"
        by (rule links_frame [of _ "lru_items c"]) (use I lt in \<open>auto simp: nth_list_update\<close>)
      moreover have "it_next (lru_items ?c1 ! i) = None \<and> it_prev (lru_items ?c1 ! i) = None"
        if "i \<in> set (lru_free c)" for i
        using I that lt by (auto simp: nth_list_update)
      ultimately show ?thesis using I by (simp add: lru_inv_def)
    qed
    have v1: "it_object (lru_items ?c1 ! fst x) = e_object x \<and>
        it_tick (lru_items ?c1 ! fst x) = (if fst x = fst e then t else e_tick x)" if "x \<in> set es" for x
      using vals [OF that] lt by (auto simp: nth_list_update)
    have single: "x = e" if "x \<in> set es" "fst x = fst e" for x
      using rep_ids [OF rep] e that by (meson eq_key_imp_eq_value prod.expand prod.exhaust_sel inj_onD distinct_map)
    let ?es = "filter (\<lambda>x. fst x \<noteq> fst e) es @ [(fst e, e_object e, t)]"
    show ?thesis
    proof (cases "lru_last c = Some (fst e)")
      case True
      have "es \<noteq> []" using e by auto
      then obtain as l where es: "es = as @ [l]" by (meson rev_exhaust)
      have "fst l = fst e" using True I es by simp
      then have l: "l = e" using es single by simp
      have ni: "fst x \<noteq> fst e" if "x \<in> set as" for x
        using rep_ids [OF rep] es l that by (auto simp: image_iff)
      have "filter (\<lambda>x. fst x \<noteq> fst e) as = as" using ni by (intro filter_True) auto
      then have "?es = as @ [(fst e, e_object e, t)]" using es l by simp
      moreover have "lru_rep ?c1 (as @ [(fst e, e_object e, t)])"
        unfolding lru_rep_def
      proof (intro conjI ballI)
        show "lru_inv ?c1 (map fst (as @ [(fst e, e_object e, t)]))" using inv1 es l by simp
        show "it_object (lru_items ?c1 ! fst x) = e_object x" "it_tick (lru_items ?c1 ! fst x) = e_tick x"
          if "x \<in> set (as @ [(fst e, e_object e, t)])" for x
        proof -
          from that consider "x \<in> set as" | "x = (fst e, e_object e, t)" by auto
          then have "it_object (lru_items ?c1 ! fst x) = e_object x \<and> it_tick (lru_items ?c1 ! fst x) = e_tick x"
          proof cases
            case 1
            then show ?thesis using v1 [of x] ni es by simp
          next
            case 2
            then show ?thesis using v1 [OF e] by (simp add: e_object_def e_tick_def)
          qed
          then show "it_object (lru_items ?c1 ! fst x) = e_object x" "it_tick (lru_items ?c1 ! fst x) = e_tick x"
            by blast+
        qed
      qed
      ultimately show ?thesis
        using False lt True vals [OF e] by (simp add: Lru_Touch_def)
    next
      case notlast: False
      note D = Lru_Detach_inv [OF inv1 mem]
      let ?c2 = "Lru_Detach (fst e) ?c1"
      have ne: "remove1 (fst e) (map fst es) \<noteq> []"
      proof
        assume "remove1 (fst e) (map fst es) = []"
        with mem have "map fst es = [fst e]"
          by (cases es) (auto split: if_splits)
        with I notlast show False by simp
      qed
      note A = Lru_Attach_inv [OF D(1)]
      have inv3: "lru_inv (Lru_Attach (fst e) ?c2) (map fst ?es)"
        using A(1) ne remove1_ids [OF rep_ids [OF rep]] by simp
      have len: "length (lru_items (Lru_Attach (fst e) ?c2)) = length (lru_items c)"
        using A(2) ne D(2) by simp
      have val: "it_object (lru_items (Lru_Attach (fst e) ?c2) ! i) = it_object (lru_items ?c1 ! i) \<and>
          it_tick (lru_items (Lru_Attach (fst e) ?c2) ! i) = it_tick (lru_items ?c1 ! i)" for i
        using A(3) [of i] ne D(3) [of i] by simp
      have fr: "lru_free (Lru_Attach (fst e) ?c2) = lru_free c"
        by (simp add: Lru_Attach_def Lru_Detach_def Let_def split: option.split)
      have "it_object (lru_items (Lru_Attach (fst e) ?c2) ! fst x) = e_object x \<and>
          it_tick (lru_items (Lru_Attach (fst e) ?c2) ! fst x) = e_tick x" if "x \<in> set ?es" for x
      proof (cases "x \<in> set es \<and> fst x \<noteq> fst e")
        case True
        then show ?thesis using val [of "fst x"] v1 [of x] by simp
      next
        case False
        with that have "x = (fst e, e_object e, t)" by auto
        then show ?thesis using val [of "fst e"] v1 [OF e] by (simp add: e_object_def e_tick_def)
      qed
      then have rep3: "lru_rep (Lru_Attach (fst e) ?c2) ?es" using inv3 by (simp add: lru_rep_def)
      have run: "Lru_Touch (fst e) t c = Ret (Lru_Attach (fst e) ?c2)"
        using False lt notlast vals [OF e] by (simp add: Lru_Touch_def)
      show ?thesis using run rep3 fr len False by auto
    qed
  qed
qed

lemma Lru_Free_rep:
  assumes rep: "lru_rep c es" and e: "i \<in> fst ` set es"
  shows "\<exists>c'. Lru_Free i c = Ret c' \<and> lru_rep c' (filter (\<lambda>x. fst x \<noteq> i) es) \<and>
    lru_free c' = lru_free c @ [i] \<and> length (lru_items c') = length (lru_items c)"
proof -
  have inv: "lru_inv c (map fst es)" and
    vals: "\<And>x. x \<in> set es \<Longrightarrow> it_object (lru_items c ! fst x) = e_object x \<and> it_tick (lru_items c ! fst x) = e_tick x"
    using rep by (auto simp: lru_rep_def)
  have mem: "i \<in> set (map fst es)" using e by simp
  have lt: "i < length (lru_items c)" using mem inv links_bound unfolding lru_inv_def by fastforce
  note D = Lru_Detach_inv [OF inv mem]
  let ?ids = "remove1 i (map fst es)"
  let ?c1 = "Lru_Detach i c"
  let ?it = "upd_item i (\<lambda>i. i\<lparr>it_next := None, it_prev := None\<rparr>) (lru_items ?c1)"
  let ?c2 = "?c1\<lparr>lru_items := ?it, lru_free := lru_free ?c1 @ [i]\<rparr>"
  note L = D(1) [unfolded lru_detached_def]
  have fr: "lru_free ?c1 = lru_free c" by (simp add: Lru_Detach_def Let_def)
  have "links ?it None ?ids None" using L by (intro links_upd_other) auto
  moreover have "it_next (?it ! j) = None \<and> it_prev (?it ! j) = None" if "j \<in> set (lru_free ?c1) \<or> j = i" for j
    using that L by (auto simp: nth_list_update)
  moreover have "set ?ids \<union> set (lru_free ?c1 @ [i]) = {..<length ?it}" using L by auto
  ultimately have inv2: "lru_inv ?c2 ?ids" using L unfolding lru_inv_def by auto
  have "lru_rep ?c2 (filter (\<lambda>x. fst x \<noteq> i) es)"
    using inv2 vals D(3) remove1_ids [OF rep_ids [OF rep], of i] by (simp add: lru_rep_def)
  moreover have "Lru_Free i c = Ret ?c2" using lt by (simp add: Lru_Free_def Let_def)
  ultimately show ?thesis using fr D(2) by auto
qed

section \<open>Walking the list\<close>

definition rep_below :: "nat \<Rightarrow> ('a \<Rightarrow> bool) \<Rightarrow> 'a entry list \<Rightarrow> 'a list" where
  "rep_below t stop es = up_to stop (map e_object (takeWhile (\<lambda>e. e_tick e \<le> t) es))"

lemma below_walk_links:
  assumes "links items p (map fst es) None" "length es \<le> fuel"
    and "\<And>e. e \<in> set es \<Longrightarrow> it_object (items ! fst e) = e_object e \<and> it_tick (items ! fst e) = e_tick e"
  shows "below_walk t items stop fuel (hd_opt (map fst es) None) = Ret (rep_below t stop es)"
  using assms
proof (induction es arbitrary: p fuel)
  case Nil
  then show ?case by (simp add: rep_below_def)
next
  case (Cons e es)
  then obtain f where f: "fuel = Suc f" by (cases fuel) auto
  have "below_walk t items stop f (hd_opt (map fst es) None) = Ret (rep_below t stop es)"
    using Cons.prems f by (intro Cons.IH [of "Some (fst e)"]) auto
  then show ?case using Cons.prems f by (simp add: rep_below_def)
qed

lemma rep_length: "lru_rep c es \<Longrightarrow> length es \<le> length (lru_items c)"
proof -
  assume rep: "lru_rep c es"
  then have "set (map fst es) \<subseteq> {..<length (lru_items c)}" by (auto simp: lru_rep_def lru_inv_def)
  from card_mono [OF finite_lessThan this] rep_ids [OF rep] distinct_card show ?thesis by fastforce
qed

lemma below_rep: "lru_rep c es \<Longrightarrow> Lru_ForEachItemBelow t stop c = Ret (rep_below t stop es)"
  using below_walk_links [of "lru_items c" None es "length (lru_items c)" t stop] rep_length [of c es]
  by (simp add: Lru_ForEachItemBelow_def lru_rep_def lru_inv_def)

section \<open>Histories\<close>

lemma step_simulates:
  assumes "spec_of c s" "spec_step x s = Some s'"
  shows "\<exists>c'. lru_step dflt x c = Ret c' \<and> spec_of c' s'"
proof -
  obtain es fr n where s: "s = (es, fr, n)" by (cases s)
  with assms(1) have rep: "lru_rep c es" and fr: "lru_free c = fr" "length (lru_items c) = n"
    by (simp_all add: spec_of_def)
  show ?thesis
  proof (cases x)
    case (OpInsert v t)
    obtain slot c' where r: "Lru_Insert dflt v t c = (slot, c')" by fastforce
    from Lru_Insert_rep [OF rep r] OpInsert r assms(2) s fr show ?thesis
      by (cases fr) (auto simp: spec_of_def)
  next
    case (OpTouch i t)
    with assms(2) s obtain e rest where e: "filter (\<lambda>e. fst e = i) es = e # rest"
      by (cases "filter (\<lambda>e. fst e = i) es") auto
    then have "e \<in> set (filter (\<lambda>e. fst e = i) es)" by simp
    then have "e \<in> set es" "fst e = i" by auto
    with Lru_Touch_rep [OF rep, of e t] OpTouch e assms(2) s fr show ?thesis
      by (auto simp: spec_of_def)
  next
    case (OpFree i)
    with assms(2) s have "i \<in> fst ` set es" by (auto split: if_splits)
    with Lru_Free_rep [OF rep, of i] OpFree assms(2) s fr show ?thesis
      by (auto simp: spec_of_def)
  qed
qed

lemma run_simulates:
  "spec_of c s \<Longrightarrow> spec_run xs s = Some s' \<Longrightarrow> \<exists>c'. ofold (lru_step dflt) xs c = Ret c' \<and> spec_of c' s'"
proof (induction xs arbitrary: c s)
  case Nil
  then show ?case by simp
next
  case (Cons x xs)
  from Cons.prems(2) obtain s1 where s1: "spec_step x s = Some s1" "spec_run xs s1 = Some s'"
    by (auto split: Option.bind_splits)
  from step_simulates [OF Cons.prems(1) s1(1)] obtain c1 where
    "lru_step dflt x c = Ret c1" "spec_of c1 s1" by blast
  with Cons.IH [OF this(2) s1(2)] show ?case by simp
qed

lemma spec_of_empty: "spec_of Lru_empty ([], [], 0)"
  by (simp add: spec_of_def lru_rep_def lru_inv_empty) (simp add: Lru_empty_def)

text \<open>
  C32: after any history of insertions, touches and frees of slots in use, started on the
  empty cache, no step was undefined, the cache hands out the slots the specification
  predicts (the longest free one first), and the walk over the items below a tick calls
  its function on the objects of the abstract list in order of use, up to the first newer
  item or the first true answer.
\<close>

theorem lru_cache_refines_list:
  assumes "spec_run ops ([], [], 0) = Some (es, fr, n)"
  shows "\<exists>c. ofold (lru_step dflt) ops Lru_empty = Ret c \<and>
    (\<forall>t stop. Lru_ForEachItemBelow t stop c = Ret (up_to stop (map e_object (takeWhile (\<lambda>e. e_tick e \<le> t) es)))) \<and>
    (\<forall>x t. fst (Lru_Insert dflt x t c) = (if fr = [] then n else hd fr))"
proof -
  from run_simulates [OF spec_of_empty assms] obtain c where
    c: "ofold (lru_step dflt) ops Lru_empty = Ret c" "spec_of c (es, fr, n)" by blast
  then have rep: "lru_rep c es" "lru_free c = fr" "length (lru_items c) = n"
    by (simp_all add: spec_of_def)
  have "fst (Lru_Insert dflt x t c) = (if fr = [] then n else hd fr)" for x t
    using Lru_Insert_rep(2) [OF rep(1), of dflt x t] rep(2,3)
    by (cases "Lru_Insert dflt x t c") (auto split: list.split)
  with c(1) below_rep [OF rep(1)] show ?thesis by (auto simp: rep_below_def)
qed

theorem lru_cache_refines_list_witness:
  "\<exists>c. ofold (lru_step 0) [OpInsert 10 1, OpInsert 20 2, OpTouch 0 3, OpFree 1, OpInsert (30 :: nat) 4] Lru_empty = Ret c \<and>
    Lru_ForEachItemBelow 3 (\<lambda>_. False) c = Ret [10]"
proof -
  have "spec_run [OpInsert 10 1, OpInsert 20 2, OpTouch 0 3, OpFree 1, OpInsert (30 :: nat) 4] ([], [], 0) =
    Some ([(0, 10, 3), (1, 30, 4)], [], 2)"
    by (simp add: e_tick_def e_object_def)
  from lru_cache_refines_list [OF this, of 0] show ?thesis
    by (auto simp: e_tick_def e_object_def)
qed

text \<open>
  Where the ticks of the calls never decrease (the clock of the cache's owner), the list
  is sorted by tick and the walk reaches every item that was last used at or before it.
\<close>

fun op_tick :: "'a lru_op \<Rightarrow> nat \<Rightarrow> nat" where
  "op_tick (OpInsert x t) now = t"
| "op_tick (OpTouch i t) now = t"
| "op_tick (OpFree i) now = now"

fun clocked :: "nat \<Rightarrow> 'a lru_op list \<Rightarrow> bool" where
  "clocked now [] = True"
| "clocked now (x # xs) = (now \<le> op_tick x now \<and> clocked (op_tick x now) xs)"

definition es_sorted :: "nat \<Rightarrow> 'a entry list \<Rightarrow> bool" where
  "es_sorted now es \<longleftrightarrow> sorted (map e_tick es) \<and> (\<forall>e \<in> set es. e_tick e \<le> now)"

lemma sorted_filter_map: "sorted (map f xs) \<Longrightarrow> sorted (map f (filter P xs))"
  by (induction xs) auto

lemma spec_step_sorted:
  assumes "es_sorted now es" "now \<le> op_tick x now" "spec_step x (es, fr, n) = Some (es', fr', n')"
  shows "es_sorted (op_tick x now) es'"
proof (cases x)
  case (OpInsert v t)
  have le: "\<forall>e \<in> set es. e_tick e \<le> t" using assms OpInsert by (auto simp: es_sorted_def)
  have tick: "e_tick (i, v, t) = t" for i by (simp add: e_tick_def)
  from assms OpInsert le show ?thesis
    by (cases fr) (auto simp: es_sorted_def sorted_append tick)
next
  case (OpTouch i t)
  with assms(3) obtain e rest where e: "filter (\<lambda>e. fst e = i) es = e # rest"
    by (cases "filter (\<lambda>e. fst e = i) es") auto
  have le: "\<forall>e \<in> set es. e_tick e \<le> t" using assms OpTouch by (auto simp: es_sorted_def)
  have tick: "e_tick (i, e_object e, t) = t" by (simp add: e_tick_def)
  from e assms(1) assms(3) OpTouch le show ?thesis
    by (auto simp: es_sorted_def sorted_append sorted_filter_map tick split: if_splits)
next
  case (OpFree i)
  with assms show ?thesis by (auto simp: es_sorted_def sorted_filter_map split: if_splits)
qed

lemma spec_run_sorted:
  "es_sorted now (fst s) \<Longrightarrow> clocked now ops \<Longrightarrow> spec_run ops s = Some s' \<Longrightarrow> \<exists>now'. es_sorted now' (fst s')"
proof (induction ops arbitrary: now s)
  case Nil
  then show ?case by auto
next
  case (Cons x xs)
  from Cons.prems(3) obtain s1 where s1: "spec_step x s = Some s1" "spec_run xs s1 = Some s'"
    by (auto split: Option.bind_splits)
  have "es_sorted (op_tick x now) (fst s1)"
    using spec_step_sorted [of now "fst s" x "fst (snd s)" "snd (snd s)" "fst s1" "fst (snd s1)" "snd (snd s1)"]
      Cons.prems s1(1) by simp
  with Cons.IH s1(2) Cons.prems(2) show ?case by auto
qed

lemma takeWhile_sorted: "sorted (map f xs) \<Longrightarrow> takeWhile (\<lambda>x. f x \<le> t) xs = filter (\<lambda>x. f x \<le> t) xs"
proof (induction xs)
  case (Cons x xs)
  show ?case
  proof (cases "f x \<le> t")
    case False
    with Cons.prems have "\<not> f y \<le> t" if "y \<in> set xs" for y using that order_trans by fastforce
    with False show ?thesis by simp
  qed (use Cons in simp)
qed simp

text \<open>
  Where the ticks of the calls never decrease, collecting the items below a tick
  yields exactly the objects whose last use was at or before that tick.
\<close>

theorem lru_collects_stale_items:
  assumes "spec_run ops ([], [], 0) = Some (es, fr, n)" "clocked 0 ops"
  shows "obind (ofold (lru_step dflt) ops Lru_empty) (Lru_ForEachItemBelow t (\<lambda>_. False)) =
    Ret (map e_object (filter (\<lambda>e. e_tick e \<le> t) es))"
proof -
  from run_simulates [OF spec_of_empty assms(1)] obtain c where
    c: "ofold (lru_step dflt) ops Lru_empty = Ret c" "spec_of c (es, fr, n)" by blast
  then have rep: "lru_rep c es" by (simp add: spec_of_def)
  have "es_sorted 0 (fst ([], [], 0))" by (simp add: es_sorted_def)
  from spec_run_sorted [OF this assms(2,1)] have "sorted (map e_tick es)" by (auto simp: es_sorted_def)
  moreover have "up_to (\<lambda>_. False) xs = xs" for xs :: "'a list" by (induction xs) auto
  ultimately show ?thesis using c(1) below_rep [OF rep] by (simp add: rep_below_def takeWhile_sorted)
qed

theorem lru_collects_stale_items_witness:
  "obind (ofold (lru_step 0) [OpInsert 10 1, OpInsert 20 2, OpInsert 30 2, OpTouch 0 5, OpInsert (40 :: nat) 7] Lru_empty)
     (Lru_ForEachItemBelow 5 (\<lambda>_. False)) = Ret [20, 30, 10]"
proof -
  have "spec_run [OpInsert 10 1, OpInsert 20 2, OpInsert 30 2, OpTouch 0 5, OpInsert (40 :: nat) 7] ([], [], 0) =
    Some ([(1, 20, 2), (2, 30, 2), (0, 10, 5), (3, 40, 7)], [], 4)"
    by (simp add: e_tick_def e_object_def)
  moreover have "clocked 0 [OpInsert 10 1, OpInsert 20 2, OpInsert 30 2, OpTouch 0 5, OpInsert (40 :: nat) 7]" by simp
  ultimately show ?thesis
    using lru_collects_stale_items [of "[OpInsert 10 1, OpInsert 20 2, OpInsert 30 2, OpTouch 0 5, OpInsert (40 :: nat) 7]"
        _ _ _ 0 5] by (simp add: e_tick_def e_object_def)
qed

end
