(* ===== verification/PageTable.thy ===== *)
theory PageTable
  imports Prelude
begin

unbundle bit_operations_syntax

text \<open>
  \<open>src/graphics/host_gpu/renderer/cache/multiLevelPageTable.h\<close>: the sparse two-level page
  table of the texture cache and the owner list stored in its entries, which keeps up to
  \<open>InlineCapacity\<close> packed owners in place and moves them to a heap vector beyond that.
  The template parameters are fields of \<open>pt_dims\<close>; an entry reached through the reference
  that \<open>GetOrCreate\<close> returns is written with \<open>PT_store\<close>. An owner is its object
  representation, a list of bytes.
\<close>

section \<open>The two-level table\<close>

record pt_dims =
  PageBits :: nat
  AddressSpaceBits :: nat
  FirstLevelBits :: nat

definition pt_dims_ok :: "pt_dims \<Rightarrow> bool" where
  "pt_dims_ok d \<longleftrightarrow> AddressSpaceBits d < 64 \<and> PageBits d < AddressSpaceBits d \<and>
     0 < FirstLevelBits d \<and> FirstLevelBits d \<le> AddressSpaceBits d - PageBits d"

definition kSecondLevelBits :: "pt_dims \<Rightarrow> nat" where
  "kSecondLevelBits d = AddressSpaceBits d - FirstLevelBits d - PageBits d"

definition kFirstLevelEntries :: "pt_dims \<Rightarrow> nat" where
  "kFirstLevelEntries d = push_bit (FirstLevelBits d) 1"

definition kBucketEntries :: "pt_dims \<Rightarrow> nat" where
  "kBucketEntries d = push_bit (kSecondLevelBits d) 1"

definition kPageCount :: "pt_dims \<Rightarrow> nat" where
  "kPageCount d = push_bit (AddressSpaceBits d - PageBits d) 1"

definition kAddressSpaceSize :: "pt_dims \<Rightarrow> nat" where
  "kAddressSpaceSize d = push_bit (AddressSpaceBits d) 1"

record 'e page_table =
  pt_first_level :: "'e list option list"
  pt_allocated :: nat

definition PT_new :: "pt_dims \<Rightarrow> 'e page_table" where
  "PT_new d = \<lparr>pt_first_level = replicate (kFirstLevelEntries d) None, pt_allocated = 0\<rparr>"

definition PT_IsValidPage :: "pt_dims \<Rightarrow> nat \<Rightarrow> bool" where
  "PT_IsValidPage d page \<longleftrightarrow> page < kPageCount d"

definition FirstLevelIndex :: "pt_dims \<Rightarrow> nat \<Rightarrow> nat" where
  "FirstLevelIndex d page = drop_bit (kSecondLevelBits d) page"

definition SecondLevelIndex :: "pt_dims \<Rightarrow> nat \<Rightarrow> nat" where
  "SecondLevelIndex d page = page AND (kBucketEntries d - 1)"

text \<open>A null result is \<open>None\<close>; an index outside the vector or the bucket is undefined.\<close>

definition PT_Find :: "pt_dims \<Rightarrow> nat \<Rightarrow> 'e page_table \<Rightarrow> 'e option outcome" where
  "PT_Find d page t =
     (if \<not> PT_IsValidPage d page then Ret None
      else if FirstLevelIndex d page \<ge> length (pt_first_level t) then Undef
      else case pt_first_level t ! FirstLevelIndex d page of
          None \<Rightarrow> Ret None
        | Some bucket \<Rightarrow>
            if SecondLevelIndex d page < length bucket then Ret (Some (bucket ! SecondLevelIndex d page)) else Undef)"

definition PT_GetOrCreate :: "pt_dims \<Rightarrow> 'e \<Rightarrow> nat \<Rightarrow> 'e page_table \<Rightarrow> ('e \<times> 'e page_table) outcome" where
  "PT_GetOrCreate d dflt page t =
     (if \<not> PT_IsValidPage d page then Exit
      else if FirstLevelIndex d page \<ge> length (pt_first_level t) then Undef
      else
        let t = (if pt_first_level t ! FirstLevelIndex d page = None
                 then t\<lparr>pt_first_level := (pt_first_level t)[FirstLevelIndex d page := Some (replicate (kBucketEntries d) dflt)],
                        pt_allocated := pt_allocated t + 1\<rparr>
                 else t) in
        case pt_first_level t ! FirstLevelIndex d page of
          None \<Rightarrow> Undef
        | Some bucket \<Rightarrow>
            if SecondLevelIndex d page < length bucket then Ret (bucket ! SecondLevelIndex d page, t) else Undef)"

definition PT_store :: "pt_dims \<Rightarrow> nat \<Rightarrow> 'e \<Rightarrow> 'e page_table \<Rightarrow> 'e page_table" where
  "PT_store d page e t =
     (case pt_first_level t ! FirstLevelIndex d page of
        None \<Rightarrow> t
      | Some bucket \<Rightarrow>
          t\<lparr>pt_first_level := (pt_first_level t)[FirstLevelIndex d page := Some (bucket[SecondLevelIndex d page := e])]\<rparr>)"

text \<open>\<open>table[page]\<close> changed in place by a function.\<close>

definition PT_update :: "pt_dims \<Rightarrow> 'e \<Rightarrow> nat \<times> ('e \<Rightarrow> 'e) \<Rightarrow> 'e page_table \<Rightarrow> 'e page_table outcome" where
  "PT_update d dflt u t =
     obind (PT_GetOrCreate d dflt (fst u) t) (\<lambda>(e, t). Ret (PT_store d (fst u) (snd u e) t))"

definition PT_AllocatedBucketCount :: "'e page_table \<Rightarrow> nat" where
  "PT_AllocatedBucketCount t = pt_allocated t"

definition PT_TryGetPageRange :: "pt_dims \<Rightarrow> u64 \<Rightarrow> u64 \<Rightarrow> (nat \<times> nat) option" where
  "PT_TryGetPageRange d address sz =
     (if sz = 0 \<or> address \<ge> of_nat (kAddressSpaceSize d) \<or> sz > of_nat (kAddressSpaceSize d) - address then None
      else
        let fin = address + sz in
        Some (unat (drop_bit (PageBits d) address), unat (drop_bit (PageBits d) (fin - 1) + 1)))"

section \<open>The owner list\<close>

text \<open>
  \<open>memcpy\<close> of the owner's bytes over a zero \<open>uint64_t\<close> and back, on a little-endian host.
\<close>

fun Pack :: "u8 list \<Rightarrow> u64" where
  "Pack [] = 0"
| "Pack (b # bs) = ucast b OR push_bit 8 (Pack bs)"

definition Unpack :: "nat \<Rightarrow> u64 \<Rightarrow> u8 list" where
  "Unpack n w = map (\<lambda>i. ucast (drop_bit (8 * i) w)) [0..<n]"

text \<open>A cell of the inline array is \<open>None\<close> until it is written: the constructor leaves it indeterminate.\<close>

record owner_list =
  ol_inline :: "u64 option list"
  ol_overflow :: "u64 list option"
  ol_inline_size :: nat

definition OwnerList_new :: "nat \<Rightarrow> owner_list" where
  "OwnerList_new cap = \<lparr>ol_inline = replicate cap None, ol_overflow = None, ol_inline_size = 0\<rparr>"

fun read_cells :: "u64 option list \<Rightarrow> u64 list outcome" where
  "read_cells [] = Ret []"
| "read_cells (None # cs) = Undef"
| "read_cells (Some w # cs) = omap ((#) w) (read_cells cs)"

definition OwnerList_size :: "owner_list \<Rightarrow> nat" where
  "OwnerList_size l = (case ol_overflow l of None \<Rightarrow> ol_inline_size l | Some v \<Rightarrow> length v)"

definition OwnerList_empty :: "owner_list \<Rightarrow> bool" where
  "OwnerList_empty l \<longleftrightarrow> OwnerList_size l = 0"

definition OwnerList_At :: "nat \<Rightarrow> nat \<Rightarrow> owner_list \<Rightarrow> u8 list outcome" where
  "OwnerList_At n index l =
     (case ol_overflow l of
        None \<Rightarrow>
          if index < length (ol_inline l)
          then (case ol_inline l ! index of None \<Rightarrow> Undef | Some w \<Rightarrow> Ret (Unpack n w)) else Undef
      | Some v \<Rightarrow> if index < length v then Ret (Unpack n (v ! index)) else Undef)"

definition OwnerList_push_back :: "nat \<Rightarrow> u8 list \<Rightarrow> owner_list \<Rightarrow> owner_list outcome" where
  "OwnerList_push_back cap owner l =
     (let packed = Pack owner in
      case ol_overflow l of
        Some v \<Rightarrow> Ret (l\<lparr>ol_overflow := Some (v @ [packed])\<rparr>)
      | None \<Rightarrow>
          if ol_inline_size l < cap
          then Ret (l\<lparr>ol_inline := (ol_inline l)[ol_inline_size l := Some packed], ol_inline_size := ol_inline_size l + 1\<rparr>)
          else obind (read_cells (ol_inline l)) (\<lambda>v. Ret (l\<lparr>ol_overflow := Some (v @ [packed])\<rparr>)))"

definition OwnerList_Contains :: "u8 list \<Rightarrow> owner_list \<Rightarrow> bool outcome" where
  "OwnerList_Contains owner l =
     (let packed = Pack owner in
      case ol_overflow l of
        Some v \<Rightarrow> Ret (find_index (\<lambda>w. w = packed) v \<noteq> None)
      | None \<Rightarrow> obind (read_cells (take (ol_inline_size l) (ol_inline l)))
          (\<lambda>v. Ret (find_index (\<lambda>w. w = packed) v \<noteq> None)))"

definition OwnerList_Erase :: "nat \<Rightarrow> u8 list \<Rightarrow> owner_list \<Rightarrow> (bool \<times> owner_list) outcome" where
  "OwnerList_Erase cap owner l =
     (let packed = Pack owner in
      case ol_overflow l of
        Some v \<Rightarrow>
          (case find_index (\<lambda>w. w = packed) v of
             None \<Rightarrow> Ret (False, l)
           | Some found \<Rightarrow>
               let v = erase_at found v in
               if length v = cap
               then Ret (True, l\<lparr>ol_inline := map Some v, ol_inline_size := cap, ol_overflow := None\<rparr>)
               else Ret (True, l\<lparr>ol_overflow := Some v\<rparr>))
      | None \<Rightarrow>
          obind (read_cells (take (ol_inline_size l) (ol_inline l))) (\<lambda>v.
          case find_index (\<lambda>w. w = packed) v of
            None \<Rightarrow> Ret (False, l)
          | Some found \<Rightarrow>
              let moved = take (ol_inline_size l - found - 1) (drop (found + 1) (ol_inline l)) in
              Ret (True, l\<lparr>ol_inline := take found (ol_inline l) @ moved @ drop (found + length moved) (ol_inline l),
                           ol_inline_size := ol_inline_size l - 1\<rparr>)))"

text \<open>The owners that \<open>ForEach\<close> calls its function on, in order.\<close>

definition OwnerList_ForEach :: "nat \<Rightarrow> owner_list \<Rightarrow> u8 list list outcome" where
  "OwnerList_ForEach n l =
     (case ol_overflow l of
        Some v \<Rightarrow> Ret (map (Unpack n) v)
      | None \<Rightarrow> omap (map (Unpack n)) (read_cells (take (ol_inline_size l) (ol_inline l))))"

text \<open>The moving constructor: the new list and what is left of the other.\<close>

definition OwnerList_move :: "nat \<Rightarrow> owner_list \<Rightarrow> (owner_list \<times> owner_list) outcome" where
  "OwnerList_move cap other =
     (let new = \<lparr>ol_inline = replicate cap None, ol_overflow = ol_overflow other, ol_inline_size = ol_inline_size other\<rparr>;
          left = other\<lparr>ol_overflow := None, ol_inline_size := 0\<rparr> in
      if ol_overflow new = None
      then obind (read_cells (take (ol_inline_size new) (ol_inline other))) (\<lambda>v.
           Ret (new\<lparr>ol_inline := map Some v @ drop (length v) (ol_inline new)\<rparr>, left))
      else Ret (new, left))"

definition OwnerList_move_assign :: "owner_list \<Rightarrow> owner_list \<Rightarrow> (owner_list \<times> owner_list) outcome" where
  "OwnerList_move_assign self other =
     (let new = self\<lparr>ol_overflow := ol_overflow other, ol_inline_size := ol_inline_size other\<rparr>;
          left = other\<lparr>ol_overflow := None, ol_inline_size := 0\<rparr> in
      if ol_overflow new = None
      then obind (read_cells (take (ol_inline_size new) (ol_inline other))) (\<lambda>v.
           Ret (new\<lparr>ol_inline := map Some v @ drop (length v) (ol_inline new)\<rparr>, left))
      else Ret (new, left))"

definition EraseExact :: "'a \<Rightarrow> 'a list \<Rightarrow> bool \<times> 'a list" where
  "EraseExact owner owners =
     (case find_index (\<lambda>x. x = owner) owners of
        None \<Rightarrow> (False, owners)
      | Some it \<Rightarrow> (True, erase_at it owners))"

section \<open>Page indices\<close>

named_theorems dims \<open>the constants derived from the template parameters\<close>

lemma dims_pow [dims]:
  "kFirstLevelEntries d = 2 ^ FirstLevelBits d" "kBucketEntries d = 2 ^ kSecondLevelBits d"
  "kPageCount d = 2 ^ (AddressSpaceBits d - PageBits d)" "kAddressSpaceSize d = 2 ^ AddressSpaceBits d"
  by (simp_all add: kFirstLevelEntries_def kBucketEntries_def kPageCount_def kAddressSpaceSize_def push_bit_eq_mult)

lemma index_arith [dims]:
  "FirstLevelIndex d page = page div 2 ^ kSecondLevelBits d"
  "SecondLevelIndex d page = page mod 2 ^ kSecondLevelBits d"
proof -
  show "FirstLevelIndex d page = page div 2 ^ kSecondLevelBits d"
    by (simp add: FirstLevelIndex_def drop_bit_eq_div)
  have "page AND mask (kSecondLevelBits d) = page mod 2 ^ kSecondLevelBits d"
    by (simp add: take_bit_eq_mask [symmetric] take_bit_eq_mod)
  then show "SecondLevelIndex d page = page mod 2 ^ kSecondLevelBits d"
    by (simp add: SecondLevelIndex_def dims_pow mask_eq_exp_minus_1)
qed

lemma valid_first_level:
  assumes "pt_dims_ok d" "PT_IsValidPage d page"
  shows "FirstLevelIndex d page < kFirstLevelEntries d"
proof -
  have "AddressSpaceBits d - PageBits d = FirstLevelBits d + kSecondLevelBits d"
    using assms(1) by (auto simp: pt_dims_ok_def kSecondLevelBits_def)
  with assms(2) have "page < 2 ^ FirstLevelBits d * 2 ^ kSecondLevelBits d"
    by (simp add: PT_IsValidPage_def dims_pow power_add)
  then show ?thesis by (simp add: index_arith dims_pow less_mult_imp_div_less)
qed

lemma second_level_bound: "SecondLevelIndex d page < kBucketEntries d"
  by (simp add: index_arith dims_pow)

lemma page_index_inj:
  "FirstLevelIndex d p = FirstLevelIndex d q \<Longrightarrow> SecondLevelIndex d p = SecondLevelIndex d q \<Longrightarrow> p = q"
  unfolding index_arith by (metis div_mult_mod_eq)

section \<open>Invariant and view of the table\<close>

definition pt_buckets :: "'e page_table \<Rightarrow> nat set" where
  "pt_buckets t = {i. i < length (pt_first_level t) \<and> pt_first_level t ! i \<noteq> None}"

definition pt_ok :: "pt_dims \<Rightarrow> 'e page_table \<Rightarrow> bool" where
  "pt_ok d t \<longleftrightarrow> length (pt_first_level t) = kFirstLevelEntries d \<and>
     (\<forall>b. Some b \<in> set (pt_first_level t) \<longrightarrow> length b = kBucketEntries d) \<and>
     pt_allocated t = card (pt_buckets t)"

definition pt_view :: "pt_dims \<Rightarrow> 'e page_table \<Rightarrow> nat \<Rightarrow> 'e option" where
  "pt_view d t page =
     (if PT_IsValidPage d page then
        map_option (\<lambda>b. b ! SecondLevelIndex d page) (pt_first_level t ! FirstLevelIndex d page) else None)"

lemma pt_new_ok: "pt_ok d (PT_new d)" "pt_buckets (PT_new d) = {}"
  by (auto simp: pt_ok_def PT_new_def pt_buckets_def)

lemma pt_find_view:
  assumes "pt_dims_ok d" "pt_ok d t"
  shows "PT_Find d page t = Ret (pt_view d t page)"
proof (cases "PT_IsValidPage d page")
  case True
  with valid_first_level [OF assms(1)] assms(2) have lt: "FirstLevelIndex d page < length (pt_first_level t)"
    by (simp add: pt_ok_def)
  show ?thesis
  proof (cases "pt_first_level t ! FirstLevelIndex d page")
    case (Some b)
    with lt assms(2) have "length b = kBucketEntries d" by (metis nth_mem pt_ok_def)
    with True lt Some second_level_bound [of d page] show ?thesis by (simp add: PT_Find_def pt_view_def)
  qed (use True lt in \<open>simp add: PT_Find_def pt_view_def\<close>)
qed (simp add: PT_Find_def pt_view_def)

lemma pt_update_view:
  assumes d: "pt_dims_ok d" and ok: "pt_ok d t" and v: "PT_IsValidPage d page"
  shows "\<exists>t'. PT_update d dflt (page, f) t = Ret t' \<and> pt_ok d t' \<and>
    pt_buckets t' = insert (FirstLevelIndex d page) (pt_buckets t) \<and>
    (\<forall>p. pt_view d t' p =
      (if PT_IsValidPage d p \<and> FirstLevelIndex d p = FirstLevelIndex d page
       then Some ((if p = page then f else id) (case pt_view d t p of None \<Rightarrow> dflt | Some e \<Rightarrow> e))
       else pt_view d t p))"
proof -
  let ?i = "FirstLevelIndex d page" and ?j = "SecondLevelIndex d page" and ?fl = "pt_first_level t"
  have lt: "?i < length ?fl" using valid_first_level [OF d v] ok by (simp add: pt_ok_def)
  have jb: "?j < kBucketEntries d" by (rule second_level_bound)
  have blen: "length b = kBucketEntries d" if "k < length ?fl" "?fl ! k = Some b" for k b
    using that ok by (metis nth_mem pt_ok_def)
  define b where "b = (case ?fl ! ?i of None \<Rightarrow> replicate (kBucketEntries d) dflt | Some b \<Rightarrow> b)"
  define n where "n = (if ?fl ! ?i = None then pt_allocated t + 1 else pt_allocated t)"
  let ?fl' = "?fl[?i := Some (b[?j := f (b ! ?j)])]"
  let ?t' = "\<lparr>pt_first_level = ?fl', pt_allocated = n\<rparr>"
  have lb: "length b = kBucketEntries d"
    using blen [OF lt] by (auto simp: b_def split: option.split)
  have run: "PT_update d dflt (page, f) t = Ret ?t'"
    using v lt lb jb
    by (cases "?fl ! ?i") (simp_all add: PT_update_def PT_GetOrCreate_def PT_store_def b_def n_def)
  have nb: "pt_buckets ?t' = insert ?i (pt_buckets t)"
    using lt by (auto simp: pt_buckets_def nth_list_update)
  have fin: "finite (pt_buckets t)" by (simp add: pt_buckets_def)
  have "n = card (insert ?i (pt_buckets t))"
    using ok lt fin by (auto simp: n_def pt_ok_def pt_buckets_def insert_absorb)
  moreover have "length c = kBucketEntries d" if "Some c \<in> set ?fl'" for c
    using that ok lb set_update_subset_insert [of ?fl ?i] by (fastforce simp: pt_ok_def)
  ultimately have ok': "pt_ok d ?t'"
    using ok nb by (simp add: pt_ok_def)
  have view: "pt_view d ?t' p = (if PT_IsValidPage d p \<and> FirstLevelIndex d p = ?i
       then Some ((if p = page then f else id) (case pt_view d t p of None \<Rightarrow> dflt | Some e \<Rightarrow> e))
       else pt_view d t p)" for p
  proof (cases "PT_IsValidPage d p \<and> FirstLevelIndex d p = ?i")
    case True
    have "b ! SecondLevelIndex d p = (case pt_view d t p of None \<Rightarrow> dflt | Some e \<Rightarrow> e)"
      using True second_level_bound [of d p] by (auto simp: b_def pt_view_def split: option.split)
    moreover have "SecondLevelIndex d p = ?j \<longleftrightarrow> p = page" using True page_index_inj [of d p page] by auto
    moreover have "b[?j := f (b ! ?j)] ! SecondLevelIndex d p = (if SecondLevelIndex d p = ?j then f else id) (b ! SecondLevelIndex d p)"
      using lb jb by auto
    moreover have "pt_view d ?t' p = Some (b[?j := f (b ! ?j)] ! SecondLevelIndex d p)"
      using True lt by (simp add: pt_view_def)
    ultimately show ?thesis using True by simp
  next
    case False
    then show ?thesis by (auto simp: pt_view_def)
  qed
  show ?thesis using run ok' nb view by blast
qed

section \<open>Properties of the table\<close>

definition entry_value :: "'e \<Rightarrow> (nat \<times> ('e \<Rightarrow> 'e)) list \<Rightarrow> nat \<Rightarrow> 'e" where
  "entry_value dflt us p = fold (\<lambda>u. snd u) (filter (\<lambda>u. fst u = p) us) dflt"

definition same_bucket :: "pt_dims \<Rightarrow> (nat \<times> ('e \<Rightarrow> 'e)) list \<Rightarrow> nat \<Rightarrow> bool" where
  "same_bucket d us p \<longleftrightarrow> PT_IsValidPage d p \<and> FirstLevelIndex d p \<in> FirstLevelIndex d ` fst ` set us"

lemma entry_untouched: "p \<notin> fst ` set us \<Longrightarrow> entry_value dflt us p = dflt"
  by (induction us) (auto simp: entry_value_def)

lemma pt_updates_view:
  fixes dflt :: 'e
  assumes d: "pt_dims_ok d" and v: "list_all (\<lambda>u. PT_IsValidPage d (fst u)) us"
  shows "\<exists>t. ofold (PT_update d dflt) us (PT_new d) = Ret t \<and> pt_ok d t \<and>
    pt_buckets t = FirstLevelIndex d ` fst ` set us \<and>
    (\<forall>p. pt_view d t p = (if same_bucket d us p then Some (entry_value dflt us p) else None))"
  using v
proof (induction us rule: rev_induct)
  case Nil
  have "pt_view d (PT_new d :: 'e page_table) p = None" for p
    using valid_first_level [OF d] by (auto simp: pt_view_def PT_new_def)
  then show ?case by (simp add: pt_new_ok same_bucket_def)
next
  case (snoc u us)
  then obtain t where t: "ofold (PT_update d dflt) us (PT_new d) = Ret t" "pt_ok d t"
    "pt_buckets t = FirstLevelIndex d ` fst ` set us"
    "\<And>p. pt_view d t p = (if same_bucket d us p then Some (entry_value dflt us p) else None)"
    by auto
  from pt_update_view [OF d t(2), of "fst u" dflt "snd u"] snoc.prems obtain t' where
    t': "PT_update d dflt u t = Ret t'" "pt_ok d t'"
      "pt_buckets t' = insert (FirstLevelIndex d (fst u)) (pt_buckets t)"
      "\<And>p. pt_view d t' p = (if PT_IsValidPage d p \<and> FirstLevelIndex d p = FirstLevelIndex d (fst u)
         then Some ((if p = fst u then snd u else id) (case pt_view d t p of None \<Rightarrow> dflt | Some e \<Rightarrow> e))
         else pt_view d t p)"
    by auto
  have old: "(case pt_view d t p of None \<Rightarrow> dflt | Some e \<Rightarrow> e) = entry_value dflt us p"
    if "PT_IsValidPage d p" for p
  proof (cases "same_bucket d us p")
    case False
    with that have "p \<notin> fst ` set us" by (auto simp: same_bucket_def)
    with False t(4) show ?thesis by (simp add: entry_untouched)
  qed (simp add: t(4))
  have new: "entry_value dflt (us @ [u]) p = (if p = fst u then snd u else id) (entry_value dflt us p)" for p
    by (simp add: entry_value_def)
  have "pt_view d t' p = (if same_bucket d (us @ [u]) p then Some (entry_value dflt (us @ [u]) p) else None)" for p
  proof (cases "PT_IsValidPage d p \<and> FirstLevelIndex d p = FirstLevelIndex d (fst u)")
    case True
    then show ?thesis using t'(4) old new by (simp add: same_bucket_def)
  next
    case False
    then have "same_bucket d (us @ [u]) p = same_bucket d us p"
      "same_bucket d us p \<Longrightarrow> p \<noteq> fst u" by (auto simp: same_bucket_def)
    with False show ?thesis using t'(4) t(4) new by auto
  qed
  moreover have "ofold (PT_update d dflt) (us @ [u]) (PT_new d) = Ret t'"
    using t(1) t'(1) by (simp add: ofold_append)
  ultimately show ?case using t'(2,3) t(3) by auto
qed

text \<open>
  C33: after any sequence of accesses \<open>table[page]\<close> to valid pages that each change the
  entry, a lookup finds, for every page whose bucket was touched, the default entry with
  exactly that page's changes applied in order, and nothing for every other page and for a
  page outside the address space; the buckets counted are the touched ones, each once, and
  creating an entry outside the address space ends the process.
\<close>

theorem page_table_is_a_map:
  fixes dflt :: 'e
  assumes "pt_dims_ok d" "list_all (\<lambda>u. PT_IsValidPage d (fst u)) us"
  shows "\<exists>t. ofold (PT_update d dflt) us (PT_new d) = Ret t \<and>
    (\<forall>p. PT_Find d p t = Ret (if same_bucket d us p then Some (entry_value dflt us p) else None)) \<and>
    PT_AllocatedBucketCount t = card (FirstLevelIndex d ` fst ` set us) \<and>
    (\<forall>u. PT_IsValidPage d (fst u) \<or> PT_update d dflt u t = Exit)"
proof -
  have "PT_IsValidPage d (fst u) \<or> PT_update d dflt u t = Exit" for u and t :: "'e page_table"
    by (simp add: PT_update_def PT_GetOrCreate_def)
  moreover have "PT_AllocatedBucketCount t = card (pt_buckets t)" if "pt_ok d t" for t :: "'e page_table"
    using that by (simp add: PT_AllocatedBucketCount_def pt_ok_def)
  ultimately show ?thesis
    using pt_updates_view [OF assms, of dflt] by (elim exE conjE) (auto simp: pt_find_view [OF assms(1)])
qed

theorem page_table_is_a_map_witness:
  "\<exists>t. ofold (PT_update \<lparr>PageBits = 20, AddressSpaceBits = 40, FirstLevelBits = 10\<rparr> []) [(5, (#) 1), (1029, (#) 2), (5, (#) (3 :: nat))]
      (PT_new \<lparr>PageBits = 20, AddressSpaceBits = 40, FirstLevelBits = 10\<rparr>) = Ret t \<and>
    PT_Find \<lparr>PageBits = 20, AddressSpaceBits = 40, FirstLevelBits = 10\<rparr> 5 t = Ret (Some [3, 1]) \<and>
    PT_Find \<lparr>PageBits = 20, AddressSpaceBits = 40, FirstLevelBits = 10\<rparr> 2048 t = Ret None"
proof -
  let ?d = "\<lparr>PageBits = 20, AddressSpaceBits = 40, FirstLevelBits = 10\<rparr>"
  have d: "pt_dims_ok ?d" by (simp add: pt_dims_ok_def)
  have "list_all (\<lambda>u. PT_IsValidPage ?d (fst u)) [(5, (#) 1), (1029, (#) 2), (5, (#) (3 :: nat))]"
    by (simp add: PT_IsValidPage_def dims_pow)
  from page_table_is_a_map [OF d this, of "[]"] obtain t where
    "ofold (PT_update ?d []) [(5, (#) 1), (1029, (#) 2), (5, (#) (3 :: nat))] (PT_new ?d) = Ret t"
    "\<And>p. PT_Find ?d p t = Ret (if same_bucket ?d [(5, (#) 1), (1029, (#) 2), (5, (#) (3 :: nat))] p
        then Some (entry_value [] [(5, (#) 1), (1029, (#) 2), (5, (#) (3 :: nat))] p) else None)" by blast
  then show ?thesis
    by (intro exI [of _ t])
      (simp add: same_bucket_def PT_IsValidPage_def dims_pow index_arith kSecondLevelBits_def entry_value_def)
qed

text \<open>The pages under a non-empty interval of bytes.\<close>

lemma pages_of_interval:
  fixes a n P :: nat
  assumes n: "0 < n"
  shows "{a div 2 ^ P..<(a + n - 1) div 2 ^ P + 1} = (\<lambda>x. x div 2 ^ P) ` {a..<a + n}"
proof (intro equalityI subsetI)
  fix p assume p: "p \<in> {a div 2 ^ P..<(a + n - 1) div 2 ^ P + 1}"
  have pp: "(0 :: nat) < 2 ^ P" by simp
  show "p \<in> (\<lambda>x. x div 2 ^ P) ` {a..<a + n}"
  proof (cases "p = a div 2 ^ P")
    case True
    with n show ?thesis by auto
  next
    case f: False
    have "a < p * 2 ^ P" using f p by (simp add: div_less_iff_less_mult [OF pp, symmetric])
    moreover have "p * 2 ^ P \<le> a + n - 1"
      using p by (simp add: less_eq_div_iff_mult_less_eq [OF pp, symmetric])
    moreover have "p = p * 2 ^ P div 2 ^ P" by simp
    ultimately show ?thesis using n by (intro image_eqI [of _ _ "p * 2 ^ P"]) auto
  qed
next
  fix p assume "p \<in> (\<lambda>x. x div 2 ^ P) ` {a..<a + n}"
  then obtain x where "p = x div 2 ^ P" "a \<le> x" "x \<le> a + n - 1" by auto
  then show "p \<in> {a div 2 ^ P..<(a + n - 1) div 2 ^ P + 1}" by (simp add: div_le_mono less_Suc_eq_le)
qed

text \<open>The guards of the range check, and the shifts of an accepted range, on naturals.\<close>

lemma TryGetPageRange_cases:
  assumes "pt_dims_ok d"
  shows "n = 0 \<or> unat a + unat n > 2 ^ AddressSpaceBits d \<Longrightarrow> PT_TryGetPageRange d a n = None"
    "n \<noteq> 0 \<Longrightarrow> unat a + unat n \<le> 2 ^ AddressSpaceBits d \<Longrightarrow> PT_TryGetPageRange d a n =
      Some (unat a div 2 ^ PageBits d, (unat a + unat n - 1) div 2 ^ PageBits d + 1)"
proof -
  let ?A = "AddressSpaceBits d" and ?P = "PageBits d"
  have dd: "?A < 64" using assms by (auto simp: pt_dims_ok_def)
  have lt: "(2 :: nat) ^ ?A < 2 ^ 64" using dd by (intro power_strict_increasing) auto
  have A: "unat (of_nat (kAddressSpaceSize d) :: u64) = 2 ^ ?A"
    using lt by (simp add: dims_pow unat_of_nat del: of_nat_power)
  have c1: "a \<ge> of_nat (kAddressSpaceSize d) \<longleftrightarrow> unat a \<ge> 2 ^ ?A"
    using A by (simp add: word_le_nat_alt)
  have c2: "n > of_nat (kAddressSpaceSize d) - a \<longleftrightarrow> unat a + unat n > 2 ^ ?A" if "unat a < 2 ^ ?A"
  proof -
    have "unat (of_nat (kAddressSpaceSize d) - a) = 2 ^ ?A - unat a"
      using A that by (simp add: unat_sub word_le_nat_alt)
    then show ?thesis using that by (auto simp: word_less_nat_alt)
  qed
  show "n = 0 \<or> unat a + unat n > 2 ^ ?A \<Longrightarrow> PT_TryGetPageRange d a n = None"
    using c1 c2 by (auto simp: PT_TryGetPageRange_def not_le)
  assume nz: "n \<noteq> 0" and le: "unat a + unat n \<le> 2 ^ ?A"
  then have n: "unat n > 0" by (simp add: unat_gt_0)
  have sum: "unat (a + n) = unat a + unat n" using le lt by (simp add: unat_word_ariths)
  have pos: "a + n \<noteq> 0" using sum n by (metis add_is_0 less_not_refl unat_0)
  have m1: "unat (a + n - 1) = unat a + unat n - 1" using sum unat_minus_one [OF pos] by simp
  let ?l = "(unat a + unat n - 1) div 2 ^ ?P"
  have "?l \<le> unat a + unat n - 1" by simp
  then have l64: "?l + 1 < 2 ^ 64" using le n lt by linarith
  have "unat (drop_bit ?P (a + n - 1)) = ?l"
    using m1 by (simp add: unat_drop_bit_eq drop_bit_eq_div [where 'a = nat])
  then have fin: "unat (drop_bit ?P (a + n - 1) + 1) = ?l + 1" using l64 by (simp add: unat_word_ariths)
  have lo: "unat (drop_bit ?P a) = unat a div 2 ^ ?P" by (simp add: unat_drop_bit_eq drop_bit_eq_div [where 'a = nat])
  show "PT_TryGetPageRange d a n = Some (unat a div 2 ^ ?P, ?l + 1)"
    using nz c1 c2 fin lo n le by (auto simp: PT_TryGetPageRange_def Let_def not_le not_less)
qed

text \<open>
  C34: \<open>TryGetPageRange\<close> accepts exactly the non-empty ranges that end inside the address
  space, an end at its very top included, and the half-open page interval it returns is the
  set of pages that the bytes of the range lie on, all of them valid; no 64-bit sum wraps.
\<close>

theorem TryGetPageRange_covers_range:
  assumes "pt_dims_ok d"
  shows "case PT_TryGetPageRange d a n of
      None \<Rightarrow> n = 0 \<or> unat a + unat n > kAddressSpaceSize d
    | Some (lo, fin) \<Rightarrow> n \<noteq> 0 \<and> unat a + unat n \<le> kAddressSpaceSize d \<and> fin \<le> kPageCount d \<and>
        {lo..<fin} = (\<lambda>x. x div 2 ^ PageBits d) ` {unat a..<unat a + unat n}"
proof (cases "n = 0 \<or> unat a + unat n > 2 ^ AddressSpaceBits d")
  case True
  then show ?thesis using TryGetPageRange_cases(1) [OF assms] by (simp add: dims_pow)
next
  case False
  let ?A = "AddressSpaceBits d" and ?P = "PageBits d"
  have n: "unat n > 0" and le: "unat a + unat n \<le> 2 ^ ?A" using False by (simp_all add: unat_gt_0)
  have "?P < ?A" using assms by (auto simp: pt_dims_ok_def)
  then have "unat a + unat n - 1 < 2 ^ (?A - ?P) * 2 ^ ?P"
    using le n by (simp add: power_add [symmetric])
  then have "(unat a + unat n - 1) div 2 ^ ?P < 2 ^ (?A - ?P)" by (rule less_mult_imp_div_less)
  with False TryGetPageRange_cases(2) [OF assms, of n a] pages_of_interval [OF n, of "unat a" ?P]
  show ?thesis by (simp add: dims_pow not_less)
qed

theorem TryGetPageRange_covers_range_witness:
  "pt_dims_ok \<lparr>PageBits = 20, AddressSpaceBits = 40, FirstLevelBits = 10\<rparr> \<and>
   (case PT_TryGetPageRange \<lparr>PageBits = 20, AddressSpaceBits = 40, FirstLevelBits = 10\<rparr> 0xFFFFF00000 0x100000 of
      None \<Rightarrow> False
    | Some (lo, fin) \<Rightarrow> fin \<le> kPageCount \<lparr>PageBits = 20, AddressSpaceBits = 40, FirstLevelBits = 10\<rparr>)"
proof -
  have d: "pt_dims_ok \<lparr>PageBits = 20, AddressSpaceBits = 40, FirstLevelBits = 10\<rparr>" by (simp add: pt_dims_ok_def)
  show ?thesis
    using d TryGetPageRange_covers_range [OF d, where a = "0xFFFFF00000" and n = "0x100000"]
    by (auto simp: dims_pow split: option.splits prod.splits)
qed

section \<open>Packed owners\<close>

lemma bit_Pack: "bit (Pack bs) i \<longleftrightarrow> i < 64 \<and> i div 8 < length bs \<and> bit (bs ! (i div 8)) (i mod 8)"
proof (induction bs arbitrary: i)
  case Nil
  then show ?case by simp
next
  case (Cons b bs)
  show ?case
  proof (cases "i < 8")
    case True
    then show ?thesis by (simp add: bit_or_iff bit_push_bit_iff bit_ucast_iff)
  next
    case False
    then have d: "i div 8 = Suc ((i - 8) div 8)" "(i - 8) mod 8 = i mod 8"
      by (simp_all add: le_div_geq le_mod_geq)
    have "\<not> bit b i" using False bit_imp_le_length [of b i] by auto
    then show ?thesis using False Cons.IH [of "i - 8"] d
      by (auto simp: bit_or_iff bit_push_bit_iff bit_ucast_iff)
  qed
qed

lemma Unpack_Pack: "length bs = n \<Longrightarrow> n \<le> 8 \<Longrightarrow> Unpack n (Pack bs) = bs"
proof (rule nth_equalityI)
  fix j assume n: "length bs = n" "n \<le> 8" and "j < length (Unpack n (Pack bs))"
  then have j: "j < n" by (simp add: Unpack_def)
  show "Unpack n (Pack bs) ! j = bs ! j"
  proof (rule bit_eqI)
    fix k assume "possible_bit TYPE(8 word) k"
    then have "k < 8" by simp
    moreover have "8 * j + k < 64" if "k < 8" using n j that by auto
    ultimately show "bit (Unpack n (Pack bs) ! j) k = bit (bs ! j) k"
      using j n by (simp add: Unpack_def bit_ucast_iff bit_drop_bit_eq bit_Pack)
  qed
qed (simp add: Unpack_def)

lemma Pack_inj: "length a = n \<Longrightarrow> length b = n \<Longrightarrow> n \<le> 8 \<Longrightarrow> Pack a = Pack b \<longleftrightarrow> a = b"
  by (metis Unpack_Pack)

section \<open>The owner list refines a list\<close>

lemma read_cells_Some [simp]: "read_cells (map Some ws) = Ret ws"
  by (induction ws) auto

definition ol_rep :: "nat \<Rightarrow> owner_list \<Rightarrow> u64 list \<Rightarrow> bool" where
  "ol_rep cap l ws \<longleftrightarrow> length (ol_inline l) = cap \<and>
     (case ol_overflow l of
        None \<Rightarrow> ol_inline_size l = length ws \<and> length ws \<le> cap \<and> take (length ws) (ol_inline l) = map Some ws
      | Some v \<Rightarrow> v = ws \<and> cap < length ws)"

lemma ol_rep_new: "ol_rep cap (OwnerList_new cap) []"
  by (simp add: ol_rep_def OwnerList_new_def)

lemma push_back_rep:
  assumes "ol_rep cap l ws"
  shows "\<exists>l'. OwnerList_push_back cap owner l = Ret l' \<and> ol_rep cap l' (ws @ [Pack owner])"
proof (cases "ol_overflow l")
  case (Some v)
  with assms show ?thesis by (auto simp: ol_rep_def OwnerList_push_back_def)
next
  case None
  with assms have r: "length (ol_inline l) = cap" "ol_inline_size l = length ws" "length ws \<le> cap"
    "take (length ws) (ol_inline l) = map Some ws" by (auto simp: ol_rep_def)
  show ?thesis
  proof (cases "length ws < cap")
    case True
    with None r show ?thesis
      by (simp add: ol_rep_def OwnerList_push_back_def take_Suc_conv_app_nth)
  next
    case False
    with r have "ol_inline l = map Some ws" by simp
    with None r False show ?thesis by (simp add: ol_rep_def OwnerList_push_back_def)
  qed
qed

lemma find_index_member: "(\<exists>i. find_index (\<lambda>w. w = x) ws = Some i) \<longleftrightarrow> x \<in> set ws"
proof (cases "find_index (\<lambda>w. w = x) ws")
  case (Some i)
  with find_index_SomeD [OF Some] show ?thesis by (metis nth_mem)
qed (use find_index_None [of "\<lambda>w. w = x" ws] in \<open>simp del: find_index_None, blast\<close>)

lemma Erase_rep:
  assumes "ol_rep cap l ws"
  shows "\<exists>l'. OwnerList_Erase cap owner l = Ret (Pack owner \<in> set ws, l') \<and> ol_rep cap l' (remove1 (Pack owner) ws)"
proof (cases "find_index (\<lambda>w. w = Pack owner) ws")
  case None
  then have "Pack owner \<notin> set ws" by auto
  with None assms have "OwnerList_Erase cap owner l = Ret (False, l)"
    by (cases "ol_overflow l") (auto simp: ol_rep_def OwnerList_Erase_def simp del: find_index_None)
  with assms \<open>Pack owner \<notin> set ws\<close> show ?thesis by (simp add: remove1_idem)
next
  case (Some i)
  have mem: "Pack owner \<in> set ws" using Some find_index_member by metis
  have ilt: "i < length ws" using find_index_SomeD [OF Some] by blast
  have er: "erase_at i ws = remove1 (Pack owner) ws" by (rule erase_at_remove1 [OF Some])
  show ?thesis
  proof (cases "ol_overflow l")
    case v: (Some v)
    with assms have "v = ws" "cap < length ws" "length (ol_inline l) = cap" by (auto simp: ol_rep_def)
    with v Some mem ilt show ?thesis
      by (auto simp: OwnerList_Erase_def ol_rep_def er [symmetric] Let_def)
  next
    case n: None
    with assms have r: "length (ol_inline l) = cap" "ol_inline_size l = length ws" "length ws \<le> cap"
      "take (length ws) (ol_inline l) = map Some ws" by (auto simp: ol_rep_def)
    have split: "ol_inline l = map Some ws @ drop (length ws) (ol_inline l)"
      using r(4) by (metis append_take_drop_id)
    let ?moved = "take (length ws - i - 1) (drop (i + 1) (ol_inline l))"
    have moved: "?moved = map Some (drop (Suc i) ws)"
    proof -
      have "?moved = drop (i + 1) (take (length ws) (ol_inline l))" by (simp add: drop_take)
      then show ?thesis unfolding r(4) by (simp add: drop_map)
    qed
    have ti: "take i (ol_inline l) = map Some (take i ws)"
    proof -
      have "take i (ol_inline l) = take i (take (length ws) (ol_inline l))" using ilt by (simp add: min_def)
      then show ?thesis unfolding r(4) by (simp add: take_map)
    qed
    let ?l' = "l\<lparr>ol_inline := take i (ol_inline l) @ ?moved @ drop (i + length ?moved) (ol_inline l),
                 ol_inline_size := ol_inline_size l - 1\<rparr>"
    have "OwnerList_Erase cap owner l = Ret (True, ?l')"
      using n Some r by (simp add: OwnerList_Erase_def Let_def)
    moreover have "ol_rep cap ?l' (erase_at i ws)"
      using n r ilt unfolding moved ti ol_rep_def erase_at_def by auto
    ultimately show ?thesis using mem er by auto
  qed
qed

lemma Contains_rep:
  assumes "ol_rep cap l ws"
  shows "OwnerList_Contains owner l = Ret (Pack owner \<in> set ws)"
  using assms find_index_member [of "Pack owner" ws]
  by (cases "ol_overflow l") (auto simp: ol_rep_def OwnerList_Contains_def Let_def)

lemma ForEach_rep: "ol_rep cap l ws \<Longrightarrow> OwnerList_ForEach n l = Ret (map (Unpack n) ws)"
  by (cases "ol_overflow l") (auto simp: ol_rep_def OwnerList_ForEach_def)

lemma size_rep: "ol_rep cap l ws \<Longrightarrow> OwnerList_size l = length ws"
  by (auto simp: ol_rep_def OwnerList_size_def split: option.splits)

lemma At_rep:
  assumes "ol_rep cap l ws" "i < length ws"
  shows "OwnerList_At n i l = Ret (Unpack n (ws ! i))"
proof (cases "ol_overflow l")
  case None
  with assms have r: "i < length (ol_inline l)" "take (length ws) (ol_inline l) = map Some ws"
    by (auto simp: ol_rep_def)
  have "ol_inline l ! i = take (length ws) (ol_inline l) ! i" using assms(2) by simp
  then have "ol_inline l ! i = Some (ws ! i)" unfolding r(2) using assms(2) by simp
  with None r show ?thesis by (simp add: OwnerList_At_def)
qed (use assms in \<open>auto simp: ol_rep_def OwnerList_At_def\<close>)

lemma move_rep:
  assumes "ol_rep cap l ws"
  shows "\<exists>a b. OwnerList_move cap l = Ret (a, b) \<and> ol_rep cap a ws \<and> ol_rep cap b []"
  using assms by (cases "ol_overflow l") (auto simp: ol_rep_def OwnerList_move_def Let_def)

lemma move_assign_rep:
  assumes "ol_rep cap l ws" "ol_rep cap self vs"
  shows "\<exists>a b. OwnerList_move_assign self l = Ret (a, b) \<and> ol_rep cap a ws \<and> ol_rep cap b []"
  using assms
  by (cases "ol_overflow l"; cases "ol_overflow self") (auto simp: ol_rep_def OwnerList_move_assign_def Let_def)

section \<open>Histories of an owner list\<close>

datatype ol_op = PushOwner "u8 list" | EraseOwner "u8 list" | MoveOwners

fun ol_step :: "nat \<Rightarrow> ol_op \<Rightarrow> bool list \<times> owner_list \<Rightarrow> (bool list \<times> owner_list) outcome" where
  "ol_step cap (PushOwner x) (rs, l) = omap (\<lambda>l. (rs, l)) (OwnerList_push_back cap x l)"
| "ol_step cap (EraseOwner x) (rs, l) = omap (\<lambda>(r, l). (rs @ [r], l)) (OwnerList_Erase cap x l)"
| "ol_step cap MoveOwners (rs, l) = omap (\<lambda>(new, left). (rs, new)) (OwnerList_move cap l)"

fun owners_step :: "ol_op \<Rightarrow> bool list \<times> u8 list list \<Rightarrow> bool list \<times> u8 list list" where
  "owners_step (PushOwner x) (rs, xs) = (rs, xs @ [x])"
| "owners_step (EraseOwner x) (rs, xs) = (rs @ [x \<in> set xs], remove1 x xs)"
| "owners_step MoveOwners (rs, xs) = (rs, xs)"

fun op_bytes :: "ol_op \<Rightarrow> u8 list option" where
  "op_bytes (PushOwner x) = Some x"
| "op_bytes (EraseOwner x) = Some x"
| "op_bytes MoveOwners = None"

lemma remove1_map_inj:
  "inj_on f (insert x (set xs)) \<Longrightarrow> remove1 (f x) (map f xs) = map f (remove1 x xs)"
proof (induction xs)
  case (Cons a xs)
  then have "f a = f x \<longleftrightarrow> a = x" by (meson inj_onD insertI1 insertI2 list.set_intros(1))
  moreover have "inj_on f (insert x (set xs))" using Cons.prems by (rule inj_on_subset) auto
  ultimately show ?case using Cons.IH by auto
qed simp

lemma Pack_inj_on: "n \<le> 8 \<Longrightarrow> \<forall>x \<in> A. length x = n \<Longrightarrow> inj_on Pack A"
  by (rule inj_onI) (metis Pack_inj)

lemma ol_run_rep:
  assumes "n \<le> 8" "ol_rep cap l (map Pack xs)" "\<forall>x \<in> set xs. length x = n"
    and "list_all (\<lambda>op. case op_bytes op of None \<Rightarrow> True | Some x \<Rightarrow> length x = n) ops"
    and "fold owners_step ops (rs, xs) = (rs', xs')"
  shows "\<exists>l'. ofold (ol_step cap) ops (rs, l) = Ret (rs', l') \<and> ol_rep cap l' (map Pack xs') \<and>
    (\<forall>x \<in> set xs'. length x = n)"
  using assms(2-)
proof (induction ops arbitrary: l xs rs)
  case Nil
  then show ?case by auto
next
  case (Cons x ops)
  obtain rs1 xs1 where one: "owners_step x (rs, xs) = (rs1, xs1)" by fastforce
  have "\<exists>l1. ol_step cap x (rs, l) = Ret (rs1, l1) \<and> ol_rep cap l1 (map Pack xs1) \<and> (\<forall>y \<in> set xs1. length y = n)"
  proof (cases x)
    case (PushOwner y)
    with push_back_rep [OF Cons.prems(1), of y] one Cons.prems show ?thesis by auto
  next
    case (EraseOwner y)
    with Cons.prems have "inj_on Pack (insert y (set xs))" by (intro Pack_inj_on [OF assms(1)]) auto
    then have "remove1 (Pack y) (map Pack xs) = map Pack (remove1 y xs)"
      "Pack y \<in> set (map Pack xs) \<longleftrightarrow> y \<in> set xs"
      by (auto simp: remove1_map_inj dest: inj_onD)
    with Erase_rep [OF Cons.prems(1), of y] obtain l1 where
      "OwnerList_Erase cap y l = Ret (y \<in> set xs, l1)" "ol_rep cap l1 (map Pack (remove1 y xs))" by auto
    moreover have "\<forall>z \<in> set (remove1 y xs). length z = n" using Cons.prems(2) set_remove1_subset by fast
    moreover have "rs1 = rs @ [y \<in> set xs]" "xs1 = remove1 y xs" using EraseOwner one by simp_all
    ultimately show ?thesis using EraseOwner by simp
  next
    case MoveOwners
    with move_rep [OF Cons.prems(1)] one Cons.prems(2) show ?thesis by auto
  qed
  then obtain l1 where l1: "ol_step cap x (rs, l) = Ret (rs1, l1)" "ol_rep cap l1 (map Pack xs1)"
    "\<forall>y \<in> set xs1. length y = n" by blast
  with Cons.IH [OF l1(2,3)] Cons.prems one show ?case by simp
qed

text \<open>
  C35: after any history of appending, erasing and moving, for owners of at most eight
  bytes and whatever the inline capacity, the list holds the same owners in the same order
  as a plain list with the same history: \<open>Erase\<close> removes the first equal owner only and
  says whether there was one, \<open>ForEach\<close>, \<open>At\<close>, \<open>Contains\<close> and \<open>size\<close> agree with that list,
  and no cell is read before it is written.
\<close>

theorem owner_list_refines_list:
  assumes "n \<le> 8" "list_all (\<lambda>op. case op_bytes op of None \<Rightarrow> True | Some x \<Rightarrow> length x = n) ops"
    and "fold owners_step ops ([], []) = (rs, xs)"
  shows "\<exists>l. ofold (ol_step cap) ops ([], OwnerList_new cap) = Ret (rs, l) \<and>
    OwnerList_ForEach n l = Ret xs \<and> OwnerList_size l = length xs \<and>
    list_all (\<lambda>i. OwnerList_At n i l = Ret (xs ! i)) [0..<length xs] \<and>
    (\<forall>x. length x \<noteq> n \<or> OwnerList_Contains x l = Ret (x \<in> set xs))"
proof -
  have "ol_rep cap (OwnerList_new cap) (map Pack [])" by (simp add: ol_rep_new)
  from ol_run_rep [OF assms(1) this _ assms(2,3)] obtain l where
    l: "ofold (ol_step cap) ops ([], OwnerList_new cap) = Ret (rs, l)" "ol_rep cap l (map Pack xs)"
      "\<forall>x \<in> set xs. length x = n" by auto
  have up: "Unpack n (Pack x) = x" if "x \<in> set xs" for x using l(3) assms(1) that by (simp add: Unpack_Pack)
  have each: "OwnerList_ForEach n l = Ret xs"
    using ForEach_rep [OF l(2)] up by (simp add: map_idI)
  have at: "list_all (\<lambda>i. OwnerList_At n i l = Ret (xs ! i)) [0..<length xs]"
    using At_rep [OF l(2), of _ n] up by (auto simp: list_all_iff)
  have "OwnerList_Contains x l = Ret (x \<in> set xs)" if "length x = n" for x
  proof -
    have "inj_on Pack (insert x (set xs))" using l(3) that by (intro Pack_inj_on [OF assms(1)]) auto
    then have "Pack x \<in> set (map Pack xs) \<longleftrightarrow> x \<in> set xs" by (auto dest: inj_onD)
    with Contains_rep [OF l(2)] show ?thesis by simp
  qed
  then show ?thesis using l(1) each at size_rep [OF l(2)] by auto
qed

theorem owner_list_refines_list_witness:
  "\<exists>l. ofold (ol_step 2) [PushOwner [1, 0], PushOwner [2, 0], PushOwner [3, 0], EraseOwner [2, 0], EraseOwner [9, 9]]
      ([], OwnerList_new 2) = Ret ([True, False], l) \<and> OwnerList_ForEach 2 l = Ret [[1, 0], [3, 0]]"
proof -
  have "fold owners_step [PushOwner [1, 0], PushOwner [2, 0], PushOwner [3, 0], EraseOwner [2, 0], EraseOwner [9, 9]] ([], []) =
    ([True, False], [[1, 0], [3, 0]])" by simp
  from owner_list_refines_list [OF _ _ this, of 2 2] show ?thesis by auto
qed

lemma EraseExact_spec: "EraseExact x xs = (x \<in> set xs, remove1 x xs)"
proof (cases "find_index (\<lambda>y. y = x) xs")
  case None
  then have "x \<notin> set xs" by auto
  with None show ?thesis by (simp add: EraseExact_def remove1_idem del: find_index_None)
next
  case (Some i)
  with find_index_member [of x xs] show ?thesis by (auto simp: EraseExact_def erase_at_remove1)
qed

end
