(* ===== verification/KernelErrors.thy ===== *)
theory KernelErrors
  imports Prelude
begin

text \<open>
  The status codes of \<open>src/libs/errno.h\<close> that the modelled kernel calls return, and the
  checks of 32-bit signed arithmetic they share.
\<close>

definition OK :: int where "OK = 0"

definition POSIX_EPERM :: int where "POSIX_EPERM = 1"
definition POSIX_EDEADLK :: int where "POSIX_EDEADLK = 11"
definition POSIX_EBUSY :: int where "POSIX_EBUSY = 16"
definition POSIX_EINVAL :: int where "POSIX_EINVAL = 22"
definition POSIX_EAGAIN :: int where "POSIX_EAGAIN = 35"
definition POSIX_ETIMEDOUT :: int where "POSIX_ETIMEDOUT = 60"
definition POSIX_EOVERFLOW :: int where "POSIX_EOVERFLOW = 84"

definition KERNEL_ERROR_EPERM :: int where "KERNEL_ERROR_EPERM = -2147352575"
definition KERNEL_ERROR_ENOENT :: int where "KERNEL_ERROR_ENOENT = -2147352574"
definition KERNEL_ERROR_ESRCH :: int where "KERNEL_ERROR_ESRCH = -2147352573"
definition KERNEL_ERROR_EBADF :: int where "KERNEL_ERROR_EBADF = -2147352567"
definition KERNEL_ERROR_ENOMEM :: int where "KERNEL_ERROR_ENOMEM = -2147352564"
definition KERNEL_ERROR_EACCES :: int where "KERNEL_ERROR_EACCES = -2147352563"
definition KERNEL_ERROR_EFAULT :: int where "KERNEL_ERROR_EFAULT = -2147352562"
definition KERNEL_ERROR_EBUSY :: int where "KERNEL_ERROR_EBUSY = -2147352560"
definition KERNEL_ERROR_EINVAL :: int where "KERNEL_ERROR_EINVAL = -2147352554"
definition KERNEL_ERROR_ETIMEDOUT :: int where "KERNEL_ERROR_ETIMEDOUT = -2147352516"
definition KERNEL_ERROR_ECANCELED :: int where "KERNEL_ERROR_ECANCELED = -2147352491"

lemmas error_codes = OK_def POSIX_EPERM_def POSIX_EDEADLK_def POSIX_EBUSY_def POSIX_EINVAL_def
  POSIX_EAGAIN_def POSIX_ETIMEDOUT_def POSIX_EOVERFLOW_def KERNEL_ERROR_EPERM_def
  KERNEL_ERROR_ENOENT_def KERNEL_ERROR_ESRCH_def KERNEL_ERROR_EBADF_def KERNEL_ERROR_ENOMEM_def
  KERNEL_ERROR_EACCES_def KERNEL_ERROR_EFAULT_def KERNEL_ERROR_EBUSY_def KERNEL_ERROR_EINVAL_def
  KERNEL_ERROR_ETIMEDOUT_def KERNEL_ERROR_ECANCELED_def

text \<open>
  The elapsed microseconds that the wait loops keep in a \<open>uint32_t\<close>: the conversion of a
  larger floating-point value is undefined.
\<close>

definition to_micros :: "nat \<Rightarrow> nat outcome" where
  "to_micros usecs = (if usecs \<le> u32_max then Ret usecs else Undef)"

lemma to_micros_Ret [simp]: "to_micros u = Ret v \<longleftrightarrow> u \<le> u32_max \<and> v = u"
  by (auto simp: to_micros_def)

lemma owp_to_micros [simp]: "owp (to_micros u) Q E \<longleftrightarrow> u \<le> u32_max \<and> Q u"
  by (simp add: to_micros_def)

lemma owp_i32_add [simp]: "owp (i32_add a b) Q E \<longleftrightarrow> i32_ok (a + b) \<and> Q (a + b)"
  by (simp add: i32_add_def)

text \<open>The time that is left of a timeout, as the wait functions report it.\<close>

definition remaining :: "nat \<Rightarrow> nat \<Rightarrow> nat" where
  "remaining elapsed micros = (if elapsed \<ge> micros then 0 else micros - elapsed)"

lemma remaining_diff: "remaining elapsed micros = micros - elapsed"
  by (simp add: remaining_def)

end
