(* ===== verification/EventFlag.thy ===== *)
theory EventFlag
  imports KernelErrors
begin

unbundle bit_operations_syntax

text \<open>
  Event flags of \<open>src/kernel/eventFlag.cpp\<close>: the lock-atomic segments of
  \<open>KernelEventFlagPrivate\<close>, the system calls around them and a step relation in which any
  number of guest threads interleave those segments. A thread that waits on the condition
  variable may be woken at any moment, as the language allows and as the polling of
  \<open>CondVar::Wait\<close> does; whether \<open>SignalAll\<close> has reached it is recorded.
\<close>

section \<open>The object and its atomic segments\<close>

datatype ef_result = EfOk | EfAlreadyWaiting | EfTimedOut | EfCanceled | EfDeleted
datatype clear_mode = ClearNone | ClearAll | ClearBits
datatype wait_mode = WaitAnd | WaitOr
datatype ef_status = StSet | StCanceled | StDeleted

record ef_core =
  ef_status :: ef_status
  ef_waiting :: int
  ef_name :: string
  ef_single :: bool
  ef_bits :: u64

definition EventFlag_new :: "string \<Rightarrow> bool \<Rightarrow> bool \<Rightarrow> u64 \<Rightarrow> ef_core" where
  "EventFlag_new name single fifo bits =
     \<lparr>ef_status = StSet, ef_waiting = 0, ef_name = name, ef_single = single, ef_bits = bits\<rparr>"

text \<open>
  The arguments of a wait: \<open>wc_micros\<close> is the time behind \<open>ptr_micros\<close>, \<open>None\<close> for a null
  pointer, and \<open>wc_result\<close> says whether \<open>result\<close> points anywhere. The reply lists what
  is written through the two pointers.
\<close>

record wait_call =
  wc_bits :: u64
  wc_mode :: wait_mode
  wc_clear :: clear_mode
  wc_result :: bool
  wc_micros :: "nat option"

record wait_reply =
  wr_result :: ef_result
  wr_pattern :: "u64 option"
  wr_timeout :: "nat option"

datatype wait_outcome = WDone wait_reply ef_core | WSleep ef_core

definition wait_holds :: "wait_call \<Rightarrow> u64 \<Rightarrow> bool" where
  "wait_holds c bits \<longleftrightarrow>
     (wc_mode c = WaitAnd \<and> (bits AND wc_bits c) = wc_bits c) \<or>
     (wc_mode c = WaitOr \<and> (bits AND wc_bits c) \<noteq> 0)"

definition wait_reply_of :: "wait_call \<Rightarrow> nat \<Rightarrow> ef_core \<Rightarrow> ef_result \<Rightarrow> wait_reply" where
  "wait_reply_of c elapsed f r =
     \<lparr>wr_result = r, wr_pattern = (if wc_result c then Some (ef_bits f) else None),
      wr_timeout = map_option (remaining elapsed) (wc_micros c)\<rparr>"

definition clear_bits :: "wait_call \<Rightarrow> u64 \<Rightarrow> u64" where
  "clear_bits c bits = (case wc_clear c of ClearAll \<Rightarrow> 0 | ClearBits \<Rightarrow> bits AND NOT (wc_bits c) | ClearNone \<Rightarrow> bits)"

text \<open>The head of the loop: leave it, time out, or count the thread in and wait.\<close>

definition Wait_check :: "wait_call \<Rightarrow> nat \<Rightarrow> ef_core \<Rightarrow> wait_outcome outcome" where
  "Wait_check c elapsed f =
     (if wait_holds c (ef_bits f)
      then Ret (WDone (wait_reply_of c elapsed f EfOk) (f\<lparr>ef_bits := clear_bits c (ef_bits f)\<rparr>))
      else if (case wc_micros c of None \<Rightarrow> False | Some micros \<Rightarrow> elapsed \<ge> micros)
      then Ret (WDone (wait_reply_of c elapsed f EfTimedOut) f)
      else obind (i32_add (ef_waiting f) 1) (\<lambda>n. Ret (WSleep (f\<lparr>ef_waiting := n\<rparr>))))"

definition Wait_begin :: "wait_call \<Rightarrow> ef_core \<Rightarrow> wait_outcome outcome" where
  "Wait_begin c f =
     (if ef_single f \<and> ef_waiting f > 0
      then Ret (WDone \<lparr>wr_result = EfAlreadyWaiting, wr_pattern = None, wr_timeout = wc_micros c\<rparr> f)
      else Wait_check c 0 f)"

text \<open>After the condition variable: \<open>usecs\<close> is what the timer measured since the call.\<close>

definition Wait_wake :: "wait_call \<Rightarrow> nat \<Rightarrow> ef_core \<Rightarrow> wait_outcome outcome" where
  "Wait_wake c usecs f =
     obind (i32_add (ef_waiting f) (- 1)) (\<lambda>n.
     let f = f\<lparr>ef_waiting := n\<rparr> in
     obind (to_micros usecs) (\<lambda>elapsed.
     case ef_status f of
       StCanceled \<Rightarrow> Ret (WDone (wait_reply_of c elapsed f EfCanceled) f)
     | StDeleted \<Rightarrow> Ret (WDone (wait_reply_of c elapsed f EfDeleted) f)
     | StSet \<Rightarrow> Wait_check c elapsed f))"

text \<open>
  The other operations first spin, releasing the lock, until the status is \<open>Set\<close>; the
  result is \<open>None\<close> where the thread has to look again. \<open>Cancel\<close> and the destructor then
  wait for the waiting threads to leave.
\<close>

definition Set_enter :: "ef_core \<Rightarrow> unit outcome" where
  "Set_enter f = (if ef_status f = StDeleted then Exit else Ret ())"

definition EventFlag_Set :: "u64 \<Rightarrow> ef_core \<Rightarrow> ef_core option" where
  "EventFlag_Set bits f =
     (if ef_status f \<noteq> StSet then None else Some (f\<lparr>ef_bits := ef_bits f OR bits\<rparr>))"

definition EventFlag_Clear :: "u64 \<Rightarrow> ef_core \<Rightarrow> ef_core option" where
  "EventFlag_Clear bits f =
     (if ef_status f \<noteq> StSet then None else Some (f\<lparr>ef_bits := ef_bits f AND bits\<rparr>))"

definition EventFlag_Cancel :: "u64 \<Rightarrow> ef_core \<Rightarrow> (int \<times> ef_core) option" where
  "EventFlag_Cancel bits f =
     (if ef_status f \<noteq> StSet then None
      else Some (ef_waiting f, f\<lparr>ef_status := StCanceled, ef_bits := bits\<rparr>))"

definition Cancel_drain :: "ef_core \<Rightarrow> ef_core option" where
  "Cancel_drain f = (if ef_waiting f > 0 then None else Some (f\<lparr>ef_status := StSet\<rparr>))"

definition EventFlag_delete :: "ef_core \<Rightarrow> ef_core option" where
  "EventFlag_delete f = (if ef_status f \<noteq> StSet then None else Some (f\<lparr>ef_status := StDeleted\<rparr>))"

definition delete_drain :: "ef_core \<Rightarrow> bool" where
  "delete_drain f \<longleftrightarrow> \<not> ef_waiting f > 0"

section \<open>System calls\<close>

definition DecodeEventFlagWaitMode :: "u32 \<Rightarrow> (wait_mode \<times> clear_mode) outcome" where
  "DecodeEventFlagWaitMode m =
     obind (if m AND 0xf = 0x01 then Ret WaitAnd else if m AND 0xf = 0x02 then Ret WaitOr else Exit) (\<lambda>w.
     obind (if m AND 0xf0 = 0x00 then Ret ClearNone else if m AND 0xf0 = 0x10 then Ret ClearAll
            else if m AND 0xf0 = 0x20 then Ret ClearBits else Exit) (\<lambda>cl. Ret (w, cl)))"

text \<open>Creation returns the error code or the new object.\<close>

definition KernelCreateEventFlag :: "bool \<Rightarrow> string option \<Rightarrow> u32 \<Rightarrow> u64 \<Rightarrow> bool \<Rightarrow> int + ef_core" where
  "KernelCreateEventFlag ef_null name attr init_pattern param_null =
     (case name of
        None \<Rightarrow> Inl KERNEL_ERROR_EINVAL
      | Some nm \<Rightarrow>
          if ef_null then Inl KERNEL_ERROR_EINVAL
          else if \<not> param_null \<or> (attr AND NOT 0x33) \<noteq> 0 then Inl KERNEL_ERROR_EINVAL
          else if attr AND 0x0f \<noteq> 0x00 \<and> attr AND 0x0f \<noteq> 0x01 \<and> attr AND 0x0f \<noteq> 0x02 then Inl KERNEL_ERROR_EINVAL
          else if attr AND 0xf0 \<noteq> 0x00 \<and> attr AND 0xf0 \<noteq> 0x10 \<and> attr AND 0xf0 \<noteq> 0x20 then Inl KERNEL_ERROR_EINVAL
          else Inr (EventFlag_new nm (attr AND 0xf0 \<noteq> 0x20) (attr AND 0x0f \<noteq> 0x02) init_pattern))"

text \<open>The waiting calls: an error code at once, or the wait they start.\<close>

definition KernelWaitEventFlag :: "bool \<Rightarrow> u64 \<Rightarrow> u32 \<Rightarrow> bool \<Rightarrow> nat option \<Rightarrow> (int + wait_call) outcome" where
  "KernelWaitEventFlag ef_null pattern m want timeout =
     (if ef_null then Ret (Inl KERNEL_ERROR_ESRCH)
      else if pattern = 0 then Ret (Inl KERNEL_ERROR_EINVAL)
      else obind (DecodeEventFlagWaitMode m) (\<lambda>(w, cl).
        Ret (Inr \<lparr>wc_bits = pattern, wc_mode = w, wc_clear = cl, wc_result = want, wc_micros = timeout\<rparr>)))"

definition wait_ret :: "ef_result \<Rightarrow> int" where
  "wait_ret r =
     (case r of
        EfOk \<Rightarrow> OK
      | EfAlreadyWaiting \<Rightarrow> KERNEL_ERROR_EPERM
      | EfTimedOut \<Rightarrow> KERNEL_ERROR_ETIMEDOUT
      | EfCanceled \<Rightarrow> KERNEL_ERROR_ECANCELED
      | EfDeleted \<Rightarrow> KERNEL_ERROR_EACCES)"

definition KernelPollEventFlag :: "bool \<Rightarrow> u64 \<Rightarrow> u32 \<Rightarrow> bool \<Rightarrow> (int + wait_call) outcome" where
  "KernelPollEventFlag ef_null pattern m want =
     (if ef_null then Ret (Inl KERNEL_ERROR_ESRCH)
      else if pattern = 0 then Ret (Inl KERNEL_ERROR_EINVAL)
      else obind (DecodeEventFlagWaitMode m) (\<lambda>(w, cl).
        Ret (Inr \<lparr>wc_bits = pattern, wc_mode = w, wc_clear = cl, wc_result = want, wc_micros = Some 0\<rparr>)))"

definition poll_ret :: "ef_result \<Rightarrow> int" where
  "poll_ret r =
     (case r of
        EfOk \<Rightarrow> OK
      | EfAlreadyWaiting \<Rightarrow> KERNEL_ERROR_EPERM
      | EfTimedOut \<Rightarrow> KERNEL_ERROR_EBUSY
      | EfCanceled \<Rightarrow> KERNEL_ERROR_EBUSY
      | EfDeleted \<Rightarrow> KERNEL_ERROR_EBUSY)"

section \<open>Interleaving\<close>

text \<open>
  What each thread is doing: nothing in this object, asleep in \<open>Wait\<close> (the flag says
  whether it has been signalled since), spinning at the start of an operation, or waiting
  for the waiters to leave. The first look of an operation is a step of its own here, which
  only adds interleavings.
\<close>

datatype ef_op = OpSet u64 | OpClear u64 | OpCancel u64 | OpDelete

text \<open>The other system calls: an error at once, or the operation they run before returning \<open>OK\<close>.\<close>

definition KernelSetEventFlag :: "bool \<Rightarrow> u64 \<Rightarrow> int + ef_op" where
  "KernelSetEventFlag ef_null pattern = (if ef_null then Inl KERNEL_ERROR_ESRCH else Inr (OpSet pattern))"

definition KernelClearEventFlag :: "bool \<Rightarrow> u64 \<Rightarrow> int + ef_op" where
  "KernelClearEventFlag ef_null pattern = (if ef_null then Inl KERNEL_ERROR_ESRCH else Inr (OpClear pattern))"

definition KernelCancelEventFlag :: "bool \<Rightarrow> u64 \<Rightarrow> int + ef_op" where
  "KernelCancelEventFlag ef_null pattern = (if ef_null then Inl KERNEL_ERROR_ESRCH else Inr (OpCancel pattern))"

definition KernelDeleteEventFlag :: "bool \<Rightarrow> int + ef_op" where
  "KernelDeleteEventFlag ef_null = (if ef_null then Inl KERNEL_ERROR_ESRCH else Inr OpDelete)"

datatype ef_pc = Idle | Asleep wait_call bool | Spinning ef_op | Draining bool

record ef_sys =
  es_flag :: ef_core
  es_pcs :: "nat \<Rightarrow> ef_pc"
  es_freed :: bool

definition ef_start :: "ef_core \<Rightarrow> ef_sys" where
  "ef_start f = \<lparr>es_flag = f, es_pcs = (\<lambda>_. Idle), es_freed = False\<rparr>"

definition SignalAll :: "(nat \<Rightarrow> ef_pc) \<Rightarrow> nat \<Rightarrow> ef_pc" where
  "SignalAll pcs t = (case pcs t of Asleep c n \<Rightarrow> Asleep c True | p \<Rightarrow> p)"

datatype ef_event =
    EvCall nat
  | EvSleep nat
  | EvWaitReturns nat wait_call wait_reply
  | EvDone nat
  | EvCancelStarts nat int
  | EvFreed nat

text \<open>One look of a thread at the start of an operation: \<open>None\<close> where it keeps spinning.\<close>

definition op_attempt :: "nat \<Rightarrow> ef_op \<Rightarrow> ef_sys \<Rightarrow> (ef_event \<times> ef_sys) option" where
  "op_attempt t op s =
     (case op of
        OpSet bits \<Rightarrow> map_option (\<lambda>f. (EvDone t, s\<lparr>es_flag := f, es_pcs := SignalAll ((es_pcs s)(t := Idle))\<rparr>))
          (EventFlag_Set bits (es_flag s))
      | OpClear bits \<Rightarrow> map_option (\<lambda>f. (EvDone t, s\<lparr>es_flag := f, es_pcs := (es_pcs s)(t := Idle)\<rparr>))
          (EventFlag_Clear bits (es_flag s))
      | OpCancel bits \<Rightarrow> map_option (\<lambda>(n, f). (EvCancelStarts t n,
            s\<lparr>es_flag := f, es_pcs := SignalAll ((es_pcs s)(t := Draining False))\<rparr>))
          (EventFlag_Cancel bits (es_flag s))
      | OpDelete \<Rightarrow> map_option (\<lambda>f. (EvDone t, s\<lparr>es_flag := f, es_pcs := SignalAll ((es_pcs s)(t := Draining True))\<rparr>))
          (EventFlag_delete (es_flag s)))"

inductive ef_step :: "ef_sys \<Rightarrow> ef_event \<Rightarrow> ef_sys \<Rightarrow> bool" where
  begin_returns: "es_pcs s t = Idle \<Longrightarrow> \<not> es_freed s \<Longrightarrow> Wait_begin c (es_flag s) = Ret (WDone r f) \<Longrightarrow>
    ef_step s (EvWaitReturns t c r) (s\<lparr>es_flag := f\<rparr>)"
| begin_sleeps: "es_pcs s t = Idle \<Longrightarrow> \<not> es_freed s \<Longrightarrow> Wait_begin c (es_flag s) = Ret (WSleep f) \<Longrightarrow>
    ef_step s (EvSleep t) (s\<lparr>es_flag := f, es_pcs := (es_pcs s)(t := Asleep c False)\<rparr>)"
| wake_returns: "es_pcs s t = Asleep c n \<Longrightarrow> Wait_wake c usecs (es_flag s) = Ret (WDone r f) \<Longrightarrow>
    ef_step s (EvWaitReturns t c r) (s\<lparr>es_flag := f, es_pcs := (es_pcs s)(t := Idle)\<rparr>)"
| wake_sleeps: "es_pcs s t = Asleep c n \<Longrightarrow> Wait_wake c usecs (es_flag s) = Ret (WSleep f) \<Longrightarrow>
    ef_step s (EvSleep t) (s\<lparr>es_flag := f, es_pcs := (es_pcs s)(t := Asleep c False)\<rparr>)"
| call: "es_pcs s t = Idle \<Longrightarrow> \<not> es_freed s \<Longrightarrow> op = OpDelete \<or> Set_enter (es_flag s) = Ret () \<Longrightarrow>
    ef_step s (EvCall t) (s\<lparr>es_pcs := (es_pcs s)(t := Spinning op)\<rparr>)"
| attempt: "es_pcs s t = Spinning op \<Longrightarrow> \<not> es_freed s \<Longrightarrow> op_attempt t op s = Some (e, s') \<Longrightarrow> ef_step s e s'"
| drained: "es_pcs s t = Draining False \<Longrightarrow> Cancel_drain (es_flag s) = Some f \<Longrightarrow>
    ef_step s (EvDone t) (s\<lparr>es_flag := f, es_pcs := (es_pcs s)(t := Idle)\<rparr>)"
| freed: "es_pcs s t = Draining True \<Longrightarrow> delete_drain (es_flag s) \<Longrightarrow>
    ef_step s (EvFreed t) (s\<lparr>es_pcs := (es_pcs s)(t := Idle), es_freed := True\<rparr>)"

inductive ef_reach :: "ef_core \<Rightarrow> ef_sys \<Rightarrow> bool" for f0 where
  start: "ef_reach f0 (ef_start f0)"
| step: "ef_reach f0 s \<Longrightarrow> ef_step s e s' \<Longrightarrow> ef_reach f0 s'"

inductive_cases ef_stepE: "ef_step s e s'"

section \<open>Invariant\<close>

definition sleepers :: "ef_sys \<Rightarrow> nat set" where
  "sleepers s = {t. \<exists>c n. es_pcs s t = Asleep c n}"

text \<open>Who is waiting for the waiters to leave, for each status.\<close>

definition drain_ok :: "ef_sys \<Rightarrow> bool" where
  "drain_ok s \<longleftrightarrow>
     (case ef_status (es_flag s) of
        StSet \<Rightarrow> (\<forall>u b. es_pcs s u \<noteq> Draining b) \<and> \<not> es_freed s
      | StCanceled \<Rightarrow> (\<exists>t. \<forall>u b. es_pcs s u = Draining b \<longleftrightarrow> u = t \<and> \<not> b) \<and> \<not> es_freed s
      | StDeleted \<Rightarrow>
          if es_freed s then (\<forall>u b. es_pcs s u \<noteq> Draining b) \<and> sleepers s = {}
          else (\<exists>t. \<forall>u b. es_pcs s u = Draining b \<longleftrightarrow> u = t \<and> b))"

definition ef_inv :: "ef_sys \<Rightarrow> bool" where
  "ef_inv s \<longleftrightarrow> finite (sleepers s) \<and> ef_waiting (es_flag s) = int (card (sleepers s)) \<and>
     i32_ok (ef_waiting (es_flag s)) \<and> (ef_single (es_flag s) \<longrightarrow> ef_waiting (es_flag s) \<le> 1) \<and> drain_ok s \<and>
     (\<forall>t c. es_pcs s t = Asleep c False \<longrightarrow> \<not> wait_holds c (ef_bits (es_flag s)))"

named_theorems ef_defs \<open>definitions of the segments\<close>
declare Wait_begin_def [ef_defs] Wait_check_def [ef_defs] Wait_wake_def [ef_defs] Let_def [ef_defs]
  EventFlag_Set_def [ef_defs] EventFlag_Clear_def [ef_defs] EventFlag_Cancel_def [ef_defs]
  EventFlag_delete_def [ef_defs] Cancel_drain_def [ef_defs] delete_drain_def [ef_defs]

text \<open>Fewer bits never make a wait condition true.\<close>

lemma wait_holds_mono:
  assumes "a AND b = a" "wait_holds c a"
  shows "wait_holds c (b :: u64)"
proof -
  have bits: "bit a i \<Longrightarrow> bit b i" for i
    using assms(1) by (metis bit_and_iff)
  from assms(2) consider "wc_mode c = WaitAnd" "a AND wc_bits c = wc_bits c"
    | "wc_mode c = WaitOr" "a AND wc_bits c \<noteq> 0" by (auto simp: wait_holds_def)
  then show ?thesis
  proof cases
    case 1
    then have "bit (wc_bits c) i \<Longrightarrow> bit a i" for i by (metis bit_and_iff)
    with bits have "b AND wc_bits c = wc_bits c" by (intro bit_eqI) (auto simp: bit_and_iff)
    with 1 show ?thesis by (simp add: wait_holds_def)
  next
    case 2
    then obtain i where "bit (a AND wc_bits c) i" by (metis bit_eqI bit_0_eq bot_apply bot_bool_def)
    with bits have "bit (b AND wc_bits c) i" by (simp add: bit_and_iff)
    then have "b AND wc_bits c \<noteq> 0" by auto
    with 2 show ?thesis by (simp add: wait_holds_def)
  qed
qed

lemma clear_bits_less: "clear_bits c a AND a = clear_bits c a"
  by (auto simp: clear_bits_def bit_eq_iff bit_and_iff bit_not_iff split: clear_mode.split)

lemma not_holds_clear: "\<not> wait_holds d a \<Longrightarrow> \<not> wait_holds d (clear_bits c a)"
  using wait_holds_mono [OF clear_bits_less] by blast

lemma not_holds_and: "\<not> wait_holds d a \<Longrightarrow> \<not> wait_holds d (a AND b)"
proof -
  have "(a AND b) AND a = a AND b" by (auto simp: bit_eq_iff bit_and_iff)
  then show "\<not> wait_holds d a \<Longrightarrow> \<not> wait_holds d (a AND b)" using wait_holds_mono by blast
qed

lemma SignalAll_simps [simp]:
  "SignalAll p t = Asleep c n \<longleftrightarrow> n \<and> (\<exists>m. p t = Asleep c m)"
  "SignalAll p t = Draining b \<longleftrightarrow> p t = Draining b"
  "SignalAll p t = Idle \<longleftrightarrow> p t = Idle"
  "SignalAll p t = Spinning w \<longleftrightarrow> p t = Spinning w"
  by (auto simp: SignalAll_def split: ef_pc.splits)

lemma sleepers_upd:
  assumes "es_pcs s' = (es_pcs s)(t := p)"
  shows "sleepers s' = (if \<exists>c n. p = Asleep c n then insert t (sleepers s) else sleepers s - {t})"
  using assms by (auto simp: sleepers_def split: if_splits)

lemma sleepers_signal:
  assumes "es_pcs s' = SignalAll ((es_pcs s)(t := p))" "\<forall>c n. p \<noteq> Asleep c n"
  shows "sleepers s' = sleepers s - {t}"
  using assms by (auto simp: sleepers_def)

lemma inv_start: "ef_status f = StSet \<Longrightarrow> ef_waiting f = 0 \<Longrightarrow> ef_inv (ef_start f)"
  by (simp add: ef_inv_def ef_start_def sleepers_def drain_ok_def i32_ok_def)

section \<open>Preservation\<close>

text \<open>A wait that goes to sleep or returns changes the count and the sleepers together.\<close>

lemma begin_sleep_facts:
  assumes "Wait_begin c f = Ret (WSleep f')"
  shows "f' = f\<lparr>ef_waiting := ef_waiting f + 1\<rparr>" "i32_ok (ef_waiting f + 1)" "\<not> wait_holds c (ef_bits f)"
    "ef_single f \<Longrightarrow> ef_waiting f \<le> 0"
  using assms by (auto simp: ef_defs obind_Ret_iff split: if_splits)

lemma begin_done_facts:
  assumes "Wait_begin c f = Ret (WDone r f')"
  shows "ef_status f' = ef_status f \<and> ef_waiting f' = ef_waiting f \<and> ef_single f' = ef_single f \<and>
    (ef_bits f' = ef_bits f \<or> ef_bits f' = clear_bits c (ef_bits f))"
  using assms by (auto simp: ef_defs obind_Ret_iff split: if_splits)

lemma wake_sleep_facts:
  assumes "Wait_wake c usecs f = Ret (WSleep f')"
  shows "f' = f \<and> \<not> wait_holds c (ef_bits f)"
  using assms by (cases "ef_status f") (auto simp: ef_defs obind_Ret_iff split: if_splits)

lemma wake_done_facts:
  assumes "Wait_wake c usecs f = Ret (WDone r f')"
  shows "ef_status f' = ef_status f \<and> ef_waiting f' = ef_waiting f - 1 \<and> ef_single f' = ef_single f \<and>
    i32_ok (ef_waiting f - 1) \<and> (ef_bits f' = ef_bits f \<or> ef_bits f' = clear_bits c (ef_bits f))"
  using assms by (cases "ef_status f") (auto simp: ef_defs obind_Ret_iff split: if_splits)

lemma drain_ok_frame:
  assumes "drain_ok s" "ef_status (es_flag s') = ef_status (es_flag s)" "es_freed s' = es_freed s"
    "\<And>u b. es_pcs s' u = Draining b \<longleftrightarrow> es_pcs s u = Draining b" "es_freed s \<Longrightarrow> sleepers s' \<subseteq> sleepers s"
  shows "drain_ok s'"
  using assms by (cases "ef_status (es_flag s)") (auto simp: drain_ok_def split: if_splits)

lemma inv_sleepers:
  assumes "ef_inv s" "es_pcs s t = Asleep c n"
  shows "t \<in> sleepers s" "ef_waiting (es_flag s) \<ge> 1" "\<not> es_freed s"
proof -
  show t: "t \<in> sleepers s" using assms(2) by (auto simp: sleepers_def)
  have "card (sleepers s) > 0" using t assms(1) by (auto simp: ef_inv_def card_gt_0_iff)
  then show "ef_waiting (es_flag s) \<ge> 1" using assms(1) by (simp add: ef_inv_def)
  show "\<not> es_freed s"
    using t assms(1) by (auto simp: ef_inv_def drain_ok_def split: ef_status.splits if_splits)
qed

lemma inv_begin_sleeps:
  assumes inv: "ef_inv s" and pc: "es_pcs s t = Idle" "\<not> es_freed s"
    and b: "Wait_begin c (es_flag s) = Ret (WSleep f)"
  shows "ef_inv (s\<lparr>es_flag := f, es_pcs := (es_pcs s)(t := Asleep c False)\<rparr>)"
proof -
  note F = begin_sleep_facts [OF b]
  let ?s = "s\<lparr>es_flag := f, es_pcs := (es_pcs s)(t := Asleep c False)\<rparr>"
  have sl: "sleepers ?s = insert t (sleepers s)" by (auto simp: sleepers_def)
  have "t \<notin> sleepers s" using pc by (auto simp: sleepers_def)
  moreover have "drain_ok ?s"
    by (rule drain_ok_frame [of s]) (use inv pc F(1) in \<open>auto simp: ef_inv_def\<close>)
  ultimately show ?thesis
    using inv F unfolding ef_inv_def sl by auto
qed

lemma inv_wake_sleeps:
  assumes inv: "ef_inv s" and pc: "es_pcs s t = Asleep c n"
    and w: "Wait_wake c usecs (es_flag s) = Ret (WSleep f)"
  shows "ef_inv (s\<lparr>es_flag := f, es_pcs := (es_pcs s)(t := Asleep c False)\<rparr>)"
proof -
  note F = wake_sleep_facts [OF w]
  let ?s = "s\<lparr>es_flag := f, es_pcs := (es_pcs s)(t := Asleep c False)\<rparr>"
  have sl: "sleepers ?s = sleepers s" using pc by (auto simp: sleepers_def)
  have "drain_ok ?s"
    by (rule drain_ok_frame [of s]) (use inv pc F inv_sleepers [OF inv pc] in \<open>auto simp: ef_inv_def\<close>)
  then show ?thesis using inv F unfolding ef_inv_def sl by auto
qed

lemma inv_begin_returns:
  assumes inv: "ef_inv s" and b: "Wait_begin c (es_flag s) = Ret (WDone r f)"
  shows "ef_inv (s\<lparr>es_flag := f\<rparr>)"
proof -
  note F = begin_done_facts [OF b]
  have sl: "sleepers (s\<lparr>es_flag := f\<rparr>) = sleepers s" by (auto simp: sleepers_def)
  have "drain_ok (s\<lparr>es_flag := f\<rparr>)"
    by (rule drain_ok_frame [of s]) (use inv F in \<open>auto simp: ef_inv_def sl\<close>)
  then show ?thesis using inv F not_holds_clear unfolding ef_inv_def sl by auto
qed

lemma inv_wake_returns:
  assumes inv: "ef_inv s" and pc: "es_pcs s t = Asleep c n"
    and w: "Wait_wake c usecs (es_flag s) = Ret (WDone r f)"
  shows "ef_inv (s\<lparr>es_flag := f, es_pcs := (es_pcs s)(t := Idle)\<rparr>)"
proof -
  note F = wake_done_facts [OF w]
  let ?s = "s\<lparr>es_flag := f, es_pcs := (es_pcs s)(t := Idle)\<rparr>"
  have sl: "sleepers ?s = sleepers s - {t}" by (auto simp: sleepers_def)
  have t: "t \<in> sleepers s" using inv_sleepers [OF inv pc] by blast
  have fin: "finite (sleepers s)" using inv by (simp add: ef_inv_def)
  have "card (sleepers s - {t}) = card (sleepers s) - 1" "card (sleepers s) > 0"
    using t fin by (auto simp: card_gt_0_iff)
  then have card: "int (card (sleepers s - {t})) = int (card (sleepers s)) - 1" by simp
  have "drain_ok ?s"
    by (rule drain_ok_frame [of s]) (use inv pc F in \<open>auto simp: ef_inv_def sl\<close>)
  then show ?thesis using inv F not_holds_clear fin card unfolding ef_inv_def sl by auto
qed

lemma inv_attempt:
  assumes inv: "ef_inv s" and pc: "es_pcs s t = Spinning op" "\<not> es_freed s"
    and a: "op_attempt t op s = Some (e, s')"
  shows "ef_inv s'"
proof -
  have t: "t \<notin> sleepers s" using pc by (auto simp: sleepers_def)
  have st: "ef_status (es_flag s) = StSet"
    using a by (auto simp: op_attempt_def ef_defs split: ef_op.splits if_splits)
  have nd: "es_pcs s u \<noteq> Draining b" for u b
    using inv st by (auto simp: ef_inv_def drain_ok_def)
  note I = inv [unfolded ef_inv_def]
  show ?thesis
  proof (cases op)
    case (OpSet bits)
    with a st have s': "s' = s\<lparr>es_flag := (es_flag s)\<lparr>ef_bits := ef_bits (es_flag s) OR bits\<rparr>,
        es_pcs := SignalAll ((es_pcs s)(t := Idle))\<rparr>" by (auto simp: op_attempt_def ef_defs)
    have sl: "sleepers s' = sleepers s" using t by (auto simp: s' sleepers_def)
    have "drain_ok s'" using st nd pc(2) by (simp add: drain_ok_def s')
    then show ?thesis using I unfolding ef_inv_def sl by (auto simp: s')
  next
    case (OpClear bits)
    with a st have s': "s' = s\<lparr>es_flag := (es_flag s)\<lparr>ef_bits := ef_bits (es_flag s) AND bits\<rparr>,
        es_pcs := (es_pcs s)(t := Idle)\<rparr>" by (auto simp: op_attempt_def ef_defs)
    have sl: "sleepers s' = sleepers s" using t by (auto simp: s' sleepers_def)
    have "drain_ok s'" using st nd pc(2) by (simp add: drain_ok_def s')
    then show ?thesis using I not_holds_and unfolding ef_inv_def sl by (auto simp: s')
  next
    case (OpCancel bits)
    with a st have s': "s' = s\<lparr>es_flag := (es_flag s)\<lparr>ef_status := StCanceled, ef_bits := bits\<rparr>,
        es_pcs := SignalAll ((es_pcs s)(t := Draining False))\<rparr>" by (auto simp: op_attempt_def ef_defs)
    have sl: "sleepers s' = sleepers s" using t by (auto simp: s' sleepers_def)
    have "drain_ok s'" using st nd pc(2) by (auto simp: drain_ok_def s')
    then show ?thesis using I unfolding ef_inv_def sl by (auto simp: s')
  next
    case OpDelete
    with a st have s': "s' = s\<lparr>es_flag := (es_flag s)\<lparr>ef_status := StDeleted\<rparr>,
        es_pcs := SignalAll ((es_pcs s)(t := Draining True))\<rparr>" by (auto simp: op_attempt_def ef_defs)
    have sl: "sleepers s' = sleepers s" using t by (auto simp: s' sleepers_def)
    have "drain_ok s'" using st nd pc(2) by (auto simp: drain_ok_def s')
    then show ?thesis using I unfolding ef_inv_def sl by (auto simp: s')
  qed
qed

lemma drain_status:
  assumes "ef_inv s" "es_pcs s t = Draining b"
  shows "ef_status (es_flag s) = (if b then StDeleted else StCanceled)" "\<not> es_freed s"
    "\<And>u b'. es_pcs s u = Draining b' \<longleftrightarrow> u = t \<and> b' = b"
  using assms by (auto simp: ef_inv_def drain_ok_def split: ef_status.splits if_splits)

lemma inv_step:
  assumes "ef_inv s" "ef_step s e s'"
  shows "ef_inv s'"
  using assms(2)
proof cases
  case (call t op)
  have sl: "sleepers s' = sleepers s" using call by (auto simp: sleepers_def)
  have "drain_ok s'"
    by (rule drain_ok_frame [of s]) (use assms(1) call sl in \<open>auto simp: ef_inv_def\<close>)
  then show ?thesis using assms(1) call unfolding ef_inv_def sl by auto
next
  case (drained t f)
  note D = drain_status [OF assms(1) drained(3)]
  have f: "f = (es_flag s)\<lparr>ef_status := StSet\<rparr>"
    using drained by (auto simp: ef_defs split: if_splits)
  have sl: "sleepers s' = sleepers s" using drained by (auto simp: sleepers_def)
  have "drain_ok s'" using drained f D by (auto simp: drain_ok_def)
  then show ?thesis using assms(1) drained f unfolding ef_inv_def sl by auto
next
  case (freed t)
  note D = drain_status [OF assms(1) freed(3)]
  have sl: "sleepers s' = sleepers s" using freed by (auto simp: sleepers_def)
  have "sleepers s = {}" using freed assms(1) by (auto simp: ef_inv_def ef_defs)
  then have "drain_ok s'" using freed D sl by (auto simp: drain_ok_def)
  then show ?thesis using assms(1) freed unfolding ef_inv_def sl by auto
next
  case begin_returns
  then show ?thesis using inv_begin_returns [OF assms(1)] by simp
next
  case begin_sleeps
  then show ?thesis using inv_begin_sleeps [OF assms(1)] by simp
next
  case wake_returns
  then show ?thesis using inv_wake_returns [OF assms(1)] by simp
next
  case wake_sleeps
  then show ?thesis using inv_wake_sleeps [OF assms(1)] by simp
next
  case attempt
  then show ?thesis using inv_attempt [OF assms(1)] by simp
qed

lemma reach_inv: "ef_reach f s \<Longrightarrow> ef_status f = StSet \<Longrightarrow> ef_waiting f = 0 \<Longrightarrow> ef_inv s"
  by (induction rule: ef_reach.induct) (auto intro: inv_start inv_step)

lemma new_inv: "ef_reach (EventFlag_new name single fifo bits) s \<Longrightarrow> ef_inv s"
  using reach_inv [of "EventFlag_new name single fifo bits" s] by (simp add: EventFlag_new_def)

section \<open>Properties\<close>

text \<open>
  C24: in every reachable state the count of waiting threads is the number of threads that
  are asleep in \<open>Wait\<close>, at most one where the flag is for a single thread, so that a
  cancellation reports exactly the threads it wakes; the status is \<open>Canceled\<close> exactly while
  one thread, and no other, waits in \<open>Cancel\<close> for the waiters to leave; and a deleted flag is
  freed only when nobody sleeps on it.
\<close>

theorem event_flag_accounts_waiters:
  assumes "ef_reach (EventFlag_new name single fifo bits) s"
  shows "finite (sleepers s) \<and> ef_waiting (es_flag s) = int (card (sleepers s)) \<and>
    (if ef_single (es_flag s) then card (sleepers s) \<le> 1 else True) \<and>
    (ef_status (es_flag s) = StCanceled \<longleftrightarrow> (\<exists>t. es_pcs s t = Draining False)) \<and>
    (\<forall>t u. {t, u} \<subseteq> {v. \<exists>b. es_pcs s v = Draining b} \<longleftrightarrow> t = u \<and> (\<exists>b. es_pcs s t = Draining b)) \<and>
    (if es_freed s then sleepers s = {} else True) \<and>
    (\<forall>t n s'. ef_step s (EvCancelStarts t n) s' \<longrightarrow> n = int (card (sleepers s)) \<and> sleepers s' = sleepers s \<and>
       (\<forall>u \<in> sleepers s. \<exists>c. es_pcs s' u = Asleep c True))"
proof -
  note inv = new_inv [OF assms]
  note I = inv [unfolded ef_inv_def]
  have "n = int (card (sleepers s)) \<and> sleepers s' = sleepers s \<and> (\<forall>u \<in> sleepers s. \<exists>c. es_pcs s' u = Asleep c True)"
    if "ef_step s (EvCancelStarts t n) s'" for t n s'
    using that
  proof cases
    case (attempt t' op)
    then obtain b where st: "op = OpCancel b" "t' = t" "n = ef_waiting (es_flag s)"
      "es_pcs s' = SignalAll ((es_pcs s)(t := Draining False))"
      by (auto simp: op_attempt_def ef_defs split: ef_op.splits if_splits)
    then show ?thesis using attempt I by (auto simp: sleepers_def)
  qed
  moreover have "ef_status (es_flag s) = StCanceled \<longleftrightarrow> (\<exists>t. es_pcs s t = Draining False)"
    using drain_status [OF inv] I by (auto simp: drain_ok_def)
  moreover have "{t, u} \<subseteq> {v. \<exists>b. es_pcs s v = Draining b} \<longleftrightarrow> t = u \<and> (\<exists>b. es_pcs s t = Draining b)" for t u
    using drain_status(3) [OF inv] by auto
  moreover have "if es_freed s then sleepers s = {} else True"
    using I by (auto simp: drain_ok_def split: ef_status.splits if_splits)
  moreover have "if ef_single (es_flag s) then card (sleepers s) \<le> 1 else True" using I by auto
  ultimately show ?thesis using I by blast
qed

lemma reach_example:
  defines "c \<equiv> \<lparr>wc_bits = 1, wc_mode = WaitAnd, wc_clear = ClearAll, wc_result = True, wc_micros = None\<rparr>"
  shows "ef_reach (EventFlag_new ''f'' False True 0)
    \<lparr>es_flag = (EventFlag_new ''f'' False True 0)\<lparr>ef_waiting := 1\<rparr>, es_pcs = (\<lambda>_. Idle)(7 := Asleep c False), es_freed = False\<rparr>"
proof -
  let ?f = "EventFlag_new ''f'' False True 0"
  have "ef_step (ef_start ?f) (EvSleep 7) ((ef_start ?f)\<lparr>es_flag := ?f\<lparr>ef_waiting := 1\<rparr>, es_pcs := (es_pcs (ef_start ?f))(7 := Asleep c False)\<rparr>)"
    by (rule ef_step.begin_sleeps)
      (simp_all add: ef_start_def EventFlag_new_def ef_defs wait_holds_def c_def i32_add_def i32_ok_def)
  with ef_reach.start [of ?f] show ?thesis
    by (auto simp: ef_start_def intro: ef_reach.step)
qed

theorem event_flag_accounts_waiters_witness:
  "\<exists>s. ef_reach (EventFlag_new ''f'' False True 0) s \<and> sleepers s = {7} \<and> ef_waiting (es_flag s) = int (card {7 :: nat})"
proof -
  let ?s = "\<lparr>es_flag = (EventFlag_new ''f'' False True 0)\<lparr>ef_waiting := 1\<rparr>,
    es_pcs = (\<lambda>_. Idle)(7 := Asleep \<lparr>wc_bits = 1, wc_mode = WaitAnd, wc_clear = ClearAll, wc_result = True, wc_micros = None\<rparr> False),
    es_freed = False\<rparr>"
  have "sleepers ?s = {7}" by (auto simp: sleepers_def split: if_splits)
  with event_flag_accounts_waiters [OF reach_example] reach_example show ?thesis by (metis (no_types, lifting))
qed

text \<open>
  C25: no wake-up is lost: in every reachable state a thread that is asleep and has not been
  signalled waits for bits that are not there, whichever operations of other threads came
  in between.
\<close>

theorem event_flag_no_lost_wakeup:
  assumes "ef_reach (EventFlag_new name single fifo bits) s" "es_pcs s t = Asleep c False"
  shows "\<not> wait_holds c (ef_bits (es_flag s))"
  using new_inv [OF assms(1)] assms(2) by (auto simp: ef_inv_def)

theorem event_flag_no_lost_wakeup_witness:
  "\<not> wait_holds \<lparr>wc_bits = 1, wc_mode = WaitAnd, wc_clear = ClearAll, wc_result = True, wc_micros = None\<rparr>
     (ef_bits ((EventFlag_new ''f'' False True 0)\<lparr>ef_waiting := 1\<rparr>))"
  using event_flag_no_lost_wakeup [OF reach_example, of 7] by simp

text \<open>
  C26: what a returning wait says is true of the moment it returns: \<open>Ok\<close> means the awaited
  bits were there, the pattern reported is the one before the bits asked for were cleared,
  and exactly those are cleared; a time-out means that the condition is false and the time
  is used up; \<open>Canceled\<close> and \<open>Deleted\<close> are only told to a thread that was asleep while the
  flag was cancelled or deleted; \<open>AlreadyWaiting\<close> means another thread sleeps on a
  single-thread flag. No wait changes the status, and all but \<open>Ok\<close> leave the bits alone.
\<close>

theorem event_flag_wait_results:
  assumes "ef_reach (EventFlag_new name single fifo bits) s" "ef_step s (EvWaitReturns t c r) s'"
  shows "ef_status (es_flag s') = ef_status (es_flag s) \<and>
    (case wr_result r of
      EfOk \<Rightarrow> wait_holds c (ef_bits (es_flag s)) \<and> ef_bits (es_flag s') = clear_bits c (ef_bits (es_flag s))
    | EfTimedOut \<Rightarrow> \<not> wait_holds c (ef_bits (es_flag s)) \<and> wr_timeout r = Some 0
    | EfCanceled \<Rightarrow> t \<in> sleepers s \<and> ef_status (es_flag s) = StCanceled
    | EfDeleted \<Rightarrow> t \<in> sleepers s \<and> ef_status (es_flag s) = StDeleted
    | EfAlreadyWaiting \<Rightarrow> ef_single (es_flag s) \<and> sleepers s \<noteq> {} \<and> wr_timeout r = wc_micros c) \<and>
    (wr_result r = EfOk \<or> ef_bits (es_flag s') = ef_bits (es_flag s)) \<and>
    wr_pattern r = (if wc_result c \<and> wr_result r \<noteq> EfAlreadyWaiting then Some (ef_bits (es_flag s)) else None)"
  using assms(2)
proof cases
  case (begin_returns f)
  note I = new_inv [OF assms(1), unfolded ef_inv_def]
  have "sleepers s \<noteq> {}" if "ef_waiting (es_flag s) > 0" using I that by auto
  then show ?thesis using begin_returns
    by (auto simp: ef_defs obind_Ret_iff wait_reply_of_def remaining_def split: if_splits option.splits)
next
  case (wake_returns n usecs f)
  then have "t \<in> sleepers s" by (auto simp: sleepers_def)
  then show ?thesis using wake_returns
    by (cases "ef_status (es_flag s)")
      (auto simp: ef_defs obind_Ret_iff wait_reply_of_def remaining_def split: if_splits option.splits)
next
  case (attempt t' op)
  then show ?thesis by (auto simp: op_attempt_def split: ef_op.splits)
qed

theorem event_flag_wait_results_witness:
  "\<exists>s s' r. ef_reach (EventFlag_new ''f'' True True 6) s \<and>
    ef_step s (EvWaitReturns 3 \<lparr>wc_bits = 2, wc_mode = WaitOr, wc_clear = ClearBits, wc_result = True, wc_micros = None\<rparr> r) s' \<and>
    wr_result r = EfOk \<and> wr_pattern r = Some 6 \<and> ef_bits (es_flag s') = 4"
proof -
  let ?c = "\<lparr>wc_bits = 2, wc_mode = WaitOr, wc_clear = ClearBits, wc_result = True, wc_micros = None\<rparr>"
  let ?f = "EventFlag_new ''f'' True True 6"
  let ?r = "\<lparr>wr_result = EfOk, wr_pattern = Some 6, wr_timeout = None\<rparr>"
  have st: "ef_step (ef_start ?f) (EvWaitReturns 3 ?c ?r) ((ef_start ?f)\<lparr>es_flag := ?f\<lparr>ef_bits := clear_bits ?c 6\<rparr>\<rparr>)"
    by (rule ef_step.begin_returns)
      (simp_all add: ef_start_def EventFlag_new_def ef_defs wait_holds_def wait_reply_of_def)
  have "clear_bits ?c 6 = 4" by (simp add: clear_bits_def)
  with event_flag_wait_results [OF ef_reach.start st] st ef_reach.start show ?thesis
    by (intro exI [of _ "ef_start ?f"] exI [of _ "(ef_start ?f)\<lparr>es_flag := ?f\<lparr>ef_bits := clear_bits ?c 6\<rparr>\<rparr>"] exI [of _ ?r]) simp
qed

text \<open>A run in which sleeping threads wake and are told \<open>Canceled\<close>.\<close>

inductive canceled_run :: "ef_sys \<Rightarrow> nat list \<Rightarrow> ef_sys \<Rightarrow> bool" where
  none: "canceled_run s [] s"
| one: "ef_step s (EvWaitReturns t c r) s1 \<Longrightarrow> wr_result r = EfCanceled \<Longrightarrow> canceled_run s1 ts s2 \<Longrightarrow>
    canceled_run s (t # ts) s2"

lemma wake_canceled:
  assumes inv: "ef_inv s" and st: "ef_status (es_flag s) = StCanceled" and pc: "es_pcs s u = Asleep c n"
  shows "\<exists>r. ef_step s (EvWaitReturns u c r)
      (s\<lparr>es_flag := (es_flag s)\<lparr>ef_waiting := ef_waiting (es_flag s) - 1\<rparr>, es_pcs := (es_pcs s)(u := Idle)\<rparr>) \<and>
    wr_result r = EfCanceled"
proof -
  let ?f = "(es_flag s)\<lparr>ef_waiting := ef_waiting (es_flag s) - 1\<rparr>"
  have ok: "i32_ok (ef_waiting (es_flag s) - 1)"
    using inv inv_sleepers(2) [OF inv pc] by (auto simp: ef_inv_def i32_ok_def)
  have w: "Wait_wake c 0 (es_flag s) = Ret (WDone (wait_reply_of c 0 ?f EfCanceled) ?f)"
    using st ok by (simp add: Wait_wake_def i32_add_def to_micros_def Let_def)
  show ?thesis
    by (rule exI [of _ "wait_reply_of c 0 ?f EfCanceled"])
      (use ef_step.wake_returns [OF pc w] in \<open>simp add: wait_reply_of_def\<close>)
qed

lemma cancel_drains:
  assumes "ef_inv s" "es_pcs s t = Draining False" "distinct ts" "set ts = sleepers s"
  shows "\<exists>s1. canceled_run s ts s1 \<and> ef_inv s1 \<and> es_pcs s1 t = Draining False \<and> sleepers s1 = {} \<and>
    ef_bits (es_flag s1) = ef_bits (es_flag s)"
  using assms
proof (induction ts arbitrary: s)
  case Nil
  then show ?case by (auto intro: canceled_run.none)
next
  case (Cons u ts)
  from Cons.prems(4) have "u \<in> sleepers s" by auto
  then obtain c n where u: "es_pcs s u = Asleep c n" by (auto simp: sleepers_def)
  have st: "ef_status (es_flag s) = StCanceled" using drain_status(1) [OF Cons.prems(1,2)] by simp
  let ?s1 = "s\<lparr>es_flag := (es_flag s)\<lparr>ef_waiting := ef_waiting (es_flag s) - 1\<rparr>, es_pcs := (es_pcs s)(u := Idle)\<rparr>"
  from wake_canceled [OF Cons.prems(1) st u] obtain r where
    r: "ef_step s (EvWaitReturns u c r) ?s1" "wr_result r = EfCanceled" by blast
  have inv1: "ef_inv ?s1" by (rule inv_step [OF Cons.prems(1) r(1)])
  have t1: "es_pcs ?s1 t = Draining False" using Cons.prems(2) u by auto
  have sl: "sleepers ?s1 = sleepers s - {u}" by (auto simp: sleepers_def)
  then have "set ts = sleepers ?s1" using Cons.prems(3,4) by auto
  from Cons.IH [OF inv1 t1 _ this] Cons.prems(3) obtain s2 where s2: "canceled_run ?s1 ts s2" "ef_inv s2"
    "es_pcs s2 t = Draining False" "sleepers s2 = {}" "ef_bits (es_flag s2) = ef_bits (es_flag ?s1)" by auto
  then show ?case using canceled_run.one [OF r s2(1)] by auto
qed

text \<open>
  C27: a cancellation can always finish: from every reachable state in which a thread waits
  in \<open>Cancel\<close>, waking the sleeping threads in any order makes each of their waits return
  \<open>Canceled\<close>, after which \<open>Cancel\<close> returns, leaving the bits and the flag ready for use.
\<close>

theorem event_flag_cancel_completes:
  assumes "ef_reach (EventFlag_new name single fifo bits) s" "es_pcs s t = Draining False"
    and "distinct ts" "set ts = sleepers s"
  shows "\<exists>s1 s2. canceled_run s ts s1 \<and> ef_step s1 (EvDone t) s2 \<and>
    ef_status (es_flag s2) = StSet \<and> ef_bits (es_flag s2) = ef_bits (es_flag s) \<and> ef_waiting (es_flag s2) = 0 \<and>
    es_pcs s2 t = Idle"
proof -
  from cancel_drains [OF new_inv [OF assms(1)] assms(2-4)] obtain s1 where
    s1: "canceled_run s ts s1" "ef_inv s1" "es_pcs s1 t = Draining False" "sleepers s1 = {}"
      "ef_bits (es_flag s1) = ef_bits (es_flag s)" by blast
  have w: "ef_waiting (es_flag s1) = 0" using s1(2,4) by (simp add: ef_inv_def)
  then have d: "Cancel_drain (es_flag s1) = Some ((es_flag s1)\<lparr>ef_status := StSet\<rparr>)" by (simp add: Cancel_drain_def)
  from ef_step.drained [OF s1(3) d] s1(1,5) w show ?thesis
    by (intro exI [of _ s1] exI [of _ "s1\<lparr>es_flag := (es_flag s1)\<lparr>ef_status := StSet\<rparr>, es_pcs := (es_pcs s1)(t := Idle)\<rparr>"]) simp
qed

lemma cancel_example:
  defines "c \<equiv> \<lparr>wc_bits = 1, wc_mode = WaitAnd, wc_clear = ClearAll, wc_result = True, wc_micros = None\<rparr>"
  shows "\<exists>s. ef_reach (EventFlag_new ''f'' False True 0) s \<and> es_pcs s 2 = Draining False \<and> sleepers s = {7}"
proof -
  let ?f = "(EventFlag_new ''f'' False True 0)\<lparr>ef_waiting := 1\<rparr>"
  let ?s = "\<lparr>es_flag = ?f, es_pcs = (\<lambda>_. Idle)(7 := Asleep c False), es_freed = False\<rparr>"
  let ?s1 = "?s\<lparr>es_pcs := (es_pcs ?s)(2 := Spinning (OpCancel 5))\<rparr>"
  let ?s2 = "?s1\<lparr>es_flag := ?f\<lparr>ef_status := StCanceled, ef_bits := 5\<rparr>, es_pcs := SignalAll ((es_pcs ?s1)(2 := Draining False))\<rparr>"
  have "ef_step ?s (EvCall 2) ?s1"
    by (rule ef_step.call) (simp_all add: Set_enter_def EventFlag_new_def)
  moreover have "ef_step ?s1 (EvCancelStarts 2 1) ?s2"
  proof (rule ef_step.attempt [where t = 2 and op = "OpCancel 5"])
    show "es_pcs ?s1 2 = Spinning (OpCancel 5)" "\<not> es_freed ?s1" by simp_all
    have "EventFlag_Cancel 5 (es_flag ?s1) = Some (1, ?f\<lparr>ef_status := StCanceled, ef_bits := 5\<rparr>)"
      by (simp add: EventFlag_Cancel_def EventFlag_new_def)
    then show "op_attempt 2 (OpCancel 5) ?s1 = Some (EvCancelStarts 2 1, ?s2)" by (simp add: op_attempt_def)
  qed
  ultimately have "ef_reach (EventFlag_new ''f'' False True 0) ?s2"
    using reach_example [folded c_def] by (blast intro: ef_reach.step)
  moreover have "sleepers ?s2 = {7}" by (auto simp: sleepers_def)
  ultimately show ?thesis by (intro exI [of _ ?s2]) simp
qed

theorem event_flag_cancel_completes_witness:
  "\<exists>s s1 s2. ef_reach (EventFlag_new ''f'' False True 0) s \<and> canceled_run s [7] s1 \<and> ef_step s1 (EvDone 2) s2 \<and>
    ef_status (es_flag s2) = StSet"
proof -
  from cancel_example obtain s where s: "ef_reach (EventFlag_new ''f'' False True 0) s" "es_pcs s 2 = Draining False"
    "sleepers s = {7}" by blast
  from event_flag_cancel_completes [OF s(1,2), of "[7]"] s show ?thesis by auto
qed

end
