(* ===== verification/KernelSema.thy ===== *)
theory KernelSema
  imports KernelErrors
begin

text \<open>
  Kernel semaphores, the first half of \<open>src/kernel/semaphore.cpp\<close>: a counter with a queue
  of waiting threads in order of arrival or of priority. A waiting thread is its entry on
  the queue, identified by the thread; each call is split into the segments it runs under
  the lock, and a step relation interleaves the segments of any number of threads.
\<close>

section \<open>The object and its segments\<close>

datatype sema_result = SOk | STimedOut | SCanceled | SDeleted | SInvalCount
datatype sema_status = SemaSet | SemaDeleted

record waiting_thread =
  wt_id :: nat
  wt_priority :: int
  wt_need :: int
  wt_result :: sema_result
  wt_ready :: bool

record ksema =
  ks_name :: string
  ks_status :: sema_status
  ks_waiters :: "waiting_thread list"
  ks_fifo :: bool
  ks_count :: int
  ks_init :: int
  ks_max :: int

definition Sema_new :: "string \<Rightarrow> bool \<Rightarrow> int \<Rightarrow> int \<Rightarrow> ksema" where
  "Sema_new name fifo init mx =
     \<lparr>ks_name = name, ks_status = SemaSet, ks_waiters = [], ks_fifo = fifo, ks_count = init, ks_init = init, ks_max = mx\<rparr>"

text \<open>Before the first entry of a lower priority, a larger number, or at the end.\<close>

fun insert_waiter :: "waiting_thread \<Rightarrow> waiting_thread list \<Rightarrow> waiting_thread list" where
  "insert_waiter w [] = [w]"
| "insert_waiter w (x # xs) = (if wt_priority x \<le> wt_priority w then x # insert_waiter w xs else w # x # xs)"

definition AddWaiter :: "waiting_thread \<Rightarrow> ksema \<Rightarrow> ksema" where
  "AddWaiter w s = s\<lparr>ks_waiters := (if ks_fifo s then ks_waiters s @ [w] else insert_waiter w (ks_waiters s))\<rparr>"

definition RemoveWaiter :: "nat \<Rightarrow> ksema \<Rightarrow> ksema" where
  "RemoveWaiter t s =
     (case find_index (\<lambda>w. wt_id w = t) (ks_waiters s) of
        None \<Rightarrow> s
      | Some i \<Rightarrow> s\<lparr>ks_waiters := erase_at i (ks_waiters s)\<rparr>)"

fun WakeWaiters :: "waiting_thread list \<Rightarrow> int \<Rightarrow> waiting_thread list \<times> int" where
  "WakeWaiters [] count = ([], count)"
| "WakeWaiters (w # ws) count =
     (if \<not> wt_ready w \<and> wt_need w \<le> count
      then (let (ws', c) = WakeWaiters ws (count - wt_need w) in (w\<lparr>wt_result := SOk, wt_ready := True\<rparr> # ws', c))
      else (let (ws', c) = WakeWaiters ws count in (w # ws', c)))"

text \<open>What \<open>Cancel\<close> and the destructor tell every waiter that is not served yet.\<close>

definition finish_all :: "sema_result \<Rightarrow> waiting_thread list \<Rightarrow> waiting_thread list" where
  "finish_all r ws = map (\<lambda>w. if wt_ready w then w else w\<lparr>wt_result := r, wt_ready := True\<rparr>) ws"

definition Sema_Cancel :: "int \<Rightarrow> ksema \<Rightarrow> sema_result \<times> int option \<times> ksema" where
  "Sema_Cancel set_count s =
     (if set_count > ks_max s then (SInvalCount, None, s)
      else if ks_status s = SemaDeleted then (SDeleted, None, s)
      else (SOk, Some (int (length (filter (\<lambda>w. \<not> wt_ready w) (ks_waiters s)))),
        s\<lparr>ks_count := (if set_count < 0 then ks_init s else set_count),
          ks_waiters := finish_all SCanceled (ks_waiters s)\<rparr>))"

definition Sema_Signal :: "int \<Rightarrow> ksema \<Rightarrow> (sema_result \<times> ksema) outcome" where
  "Sema_Signal signal_count s =
     (if ks_status s = SemaDeleted then Ret (SDeleted, s)
      else obind (i32_add (ks_count s) signal_count) (\<lambda>sum.
        if sum > ks_max s then Ret (SInvalCount, s)
        else let (ws, c) = WakeWaiters (ks_waiters s) sum in
          Ret (SOk, s\<lparr>ks_count := c, ks_waiters := ws\<rparr>)))"

definition Sema_delete :: "ksema \<Rightarrow> ksema option" where
  "Sema_delete s =
     (if ks_status s \<noteq> SemaSet then None
      else Some (s\<lparr>ks_status := SemaDeleted, ks_waiters := finish_all SDeleted (ks_waiters s)\<rparr>))"

text \<open>
  \<open>Wait\<close> up to the condition variable, and each turn of its loop after it: a result with
  the time left, or the thread sleeps.
\<close>

datatype sema_wait = WaitDone sema_result "nat option" ksema | WaitSleeps ksema

definition Sema_Wait_begin :: "nat \<Rightarrow> int \<Rightarrow> int \<Rightarrow> nat option \<Rightarrow> ksema \<Rightarrow> sema_wait" where
  "Sema_Wait_begin t prio need micros s =
     (if need < 1 \<or> need > ks_max s then WaitDone SInvalCount micros s
      else if ks_status s = SemaDeleted then WaitDone SDeleted micros s
      else if ks_count s \<ge> need then WaitDone SOk micros (s\<lparr>ks_count := ks_count s - need\<rparr>)
      else if micros = Some 0 then WaitDone STimedOut micros s
      else WaitSleeps (AddWaiter \<lparr>wt_id = t, wt_priority = (if ks_fifo s then 0 else prio), wt_need = need,
        wt_result = STimedOut, wt_ready = False\<rparr> s))"

definition Sema_Wait_wake :: "nat \<Rightarrow> nat option \<Rightarrow> nat \<Rightarrow> ksema \<Rightarrow> sema_wait outcome" where
  "Sema_Wait_wake t micros usecs s =
     obind (to_micros usecs) (\<lambda>elapsed.
     case find (\<lambda>w. wt_id w = t) (ks_waiters s) of
       None \<Rightarrow> Undef
     | Some w \<Rightarrow>
         if wt_ready w then Ret (WaitDone (wt_result w) (map_option (remaining elapsed) micros) (RemoveWaiter t s))
         else if (case micros of None \<Rightarrow> False | Some m \<Rightarrow> elapsed \<ge> m)
         then Ret (WaitDone STimedOut (Some 0) (RemoveWaiter t s))
         else Ret (WaitSleeps s))"

section \<open>System calls\<close>

definition KernelCreateSema :: "bool \<Rightarrow> string option \<Rightarrow> u32 \<Rightarrow> int \<Rightarrow> int \<Rightarrow> (int + ksema) outcome" where
  "KernelCreateSema sem_null name attr init mx =
     (if sem_null then Exit
      else case name of
        None \<Rightarrow> Ret (Inl KERNEL_ERROR_EINVAL)
      | Some nm \<Rightarrow>
          if attr > 2 \<or> init < 0 \<or> mx \<le> 0 \<or> init > mx then Ret (Inl KERNEL_ERROR_EINVAL)
          else Ret (Inr (Sema_new nm (attr = 1) init mx)))"

definition sema_wait_ret :: "sema_result \<Rightarrow> int" where
  "sema_wait_ret r =
     (case r of
        SOk \<Rightarrow> OK
      | SInvalCount \<Rightarrow> KERNEL_ERROR_EINVAL
      | STimedOut \<Rightarrow> KERNEL_ERROR_ETIMEDOUT
      | SCanceled \<Rightarrow> KERNEL_ERROR_ECANCELED
      | SDeleted \<Rightarrow> KERNEL_ERROR_EACCES)"

definition sema_poll_ret :: "sema_result \<Rightarrow> int" where
  "sema_poll_ret r =
     (case r of SOk \<Rightarrow> OK | SInvalCount \<Rightarrow> KERNEL_ERROR_EINVAL | _ \<Rightarrow> KERNEL_ERROR_EBUSY)"

definition sema_signal_ret :: "sema_result \<Rightarrow> int" where
  "sema_signal_ret r = (case r of SOk \<Rightarrow> OK | _ \<Rightarrow> KERNEL_ERROR_EINVAL)"

definition KernelWaitSema :: "nat \<Rightarrow> int \<Rightarrow> ksema option \<Rightarrow> int \<Rightarrow> nat option \<Rightarrow> int + sema_wait" where
  "KernelWaitSema t prio sem need micros =
     (case sem of None \<Rightarrow> Inl KERNEL_ERROR_ESRCH | Some s \<Rightarrow> Inr (Sema_Wait_begin t prio need micros s))"

text \<open>A poll has no time to wait, so it never sleeps.\<close>

definition KernelPollSema :: "ksema option \<Rightarrow> int \<Rightarrow> (int \<times> ksema option) outcome" where
  "KernelPollSema sem need =
     (case sem of
        None \<Rightarrow> Ret (KERNEL_ERROR_ESRCH, None)
      | Some s \<Rightarrow> (case Sema_Wait_begin 0 0 need (Some 0) s of
            WaitDone r _ s' \<Rightarrow> Ret (sema_poll_ret r, Some s')
          | WaitSleeps _ \<Rightarrow> Undef))"

definition KernelSignalSema :: "ksema option \<Rightarrow> int \<Rightarrow> (int \<times> ksema option) outcome" where
  "KernelSignalSema sem count =
     (case sem of
        None \<Rightarrow> Ret (KERNEL_ERROR_ESRCH, None)
      | Some s \<Rightarrow> omap (\<lambda>(r, s'). (sema_signal_ret r, Some s')) (Sema_Signal count s))"

definition KernelCancelSema :: "ksema option \<Rightarrow> int \<Rightarrow> int \<times> int option \<times> ksema option" where
  "KernelCancelSema sem count =
     (case sem of
        None \<Rightarrow> (KERNEL_ERROR_ESRCH, None, None)
      | Some s \<Rightarrow> (let (r, n, s') = Sema_Cancel count s in (sema_signal_ret r, n, Some s')))"

definition KernelDeleteSema :: "ksema option \<Rightarrow> int + ksema option" where
  "KernelDeleteSema sem = (case sem of None \<Rightarrow> Inl KERNEL_ERROR_ESRCH | Some s \<Rightarrow> Inr (Sema_delete s))"

section \<open>Interleaving\<close>

datatype sema_pc = SemaIdle | SemaWaiting int "nat option" | SemaDeleting

record sema_sys =
  ss_sema :: ksema
  ss_pcs :: "nat \<Rightarrow> sema_pc"
  ss_freed :: bool

definition sema_start :: "ksema \<Rightarrow> sema_sys" where
  "sema_start s = \<lparr>ss_sema = s, ss_pcs = (\<lambda>_. SemaIdle), ss_freed = False\<rparr>"

text \<open>Results carry the thread and the count it asked for; a cancellation the change of the counter.\<close>

datatype sema_event =
    EvReturns nat int sema_result
  | EvSleeps nat
  | EvSignal int sema_result
  | EvCancel int sema_result "int option"
  | EvDelete nat
  | EvFree

inductive sema_step :: "sema_sys \<Rightarrow> sema_event \<Rightarrow> sema_sys \<Rightarrow> bool" where
  begin_returns: "ss_pcs s t = SemaIdle \<Longrightarrow> \<not> ss_freed s \<Longrightarrow>
    Sema_Wait_begin t prio need micros (ss_sema s) = WaitDone r left k \<Longrightarrow>
    sema_step s (EvReturns t need r) (s\<lparr>ss_sema := k\<rparr>)"
| begin_sleeps: "ss_pcs s t = SemaIdle \<Longrightarrow> \<not> ss_freed s \<Longrightarrow>
    Sema_Wait_begin t prio need micros (ss_sema s) = WaitSleeps k \<Longrightarrow>
    sema_step s (EvSleeps t) (s\<lparr>ss_sema := k, ss_pcs := (ss_pcs s)(t := SemaWaiting need micros)\<rparr>)"
| wake_returns: "ss_pcs s t = SemaWaiting need micros \<Longrightarrow>
    Sema_Wait_wake t micros usecs (ss_sema s) = Ret (WaitDone r left k) \<Longrightarrow>
    sema_step s (EvReturns t need r) (s\<lparr>ss_sema := k, ss_pcs := (ss_pcs s)(t := SemaIdle)\<rparr>)"
| wake_sleeps: "ss_pcs s t = SemaWaiting need micros \<Longrightarrow>
    Sema_Wait_wake t micros usecs (ss_sema s) = Ret (WaitSleeps k) \<Longrightarrow>
    sema_step s (EvSleeps t) (s\<lparr>ss_sema := k\<rparr>)"
| signal: "\<not> ss_freed s \<Longrightarrow> Sema_Signal n (ss_sema s) = Ret (r, k) \<Longrightarrow>
    sema_step s (EvSignal n r) (s\<lparr>ss_sema := k\<rparr>)"
| cancel: "\<not> ss_freed s \<Longrightarrow> Sema_Cancel n (ss_sema s) = (r, told, k) \<Longrightarrow>
    sema_step s (EvCancel (ks_count k - ks_count (ss_sema s)) r told) (s\<lparr>ss_sema := k\<rparr>)"
| delete: "ss_pcs s t = SemaIdle \<Longrightarrow> \<not> ss_freed s \<Longrightarrow> Sema_delete (ss_sema s) = Some k \<Longrightarrow>
    sema_step s (EvDelete t) (s\<lparr>ss_sema := k, ss_pcs := (ss_pcs s)(t := SemaDeleting)\<rparr>)"
| free: "ss_pcs s t = SemaDeleting \<Longrightarrow> ks_waiters (ss_sema s) = [] \<Longrightarrow>
    sema_step s EvFree (s\<lparr>ss_pcs := (ss_pcs s)(t := SemaIdle), ss_freed := True\<rparr>)"

inductive sema_run :: "sema_sys \<Rightarrow> sema_event list \<Rightarrow> sema_sys \<Rightarrow> bool" where
  refl: "sema_run s [] s"
| snoc: "sema_run s es s1 \<Longrightarrow> sema_step s1 e s2 \<Longrightarrow> sema_run s (es @ [e]) s2"

section \<open>The queue\<close>

lemma set_insert_waiter [simp]: "set (insert_waiter w ws) = insert w (set ws)"
  by (induction ws) auto

lemma insert_waiter_sorted:
  assumes "sorted (map wt_priority ws)"
  shows "insert_waiter w ws =
    filter (\<lambda>x. wt_priority x \<le> wt_priority w) ws @ w # filter (\<lambda>x. wt_priority w < wt_priority x) ws"
  using assms
proof (induction ws)
  case (Cons x xs)
  show ?case
  proof (cases "wt_priority x \<le> wt_priority w")
    case False
    with Cons.prems have "wt_priority w < wt_priority y" if "y \<in> set xs" for y using that by fastforce
    then have "filter (\<lambda>x. wt_priority x \<le> wt_priority w) xs = []" "filter (\<lambda>x. wt_priority w < wt_priority x) xs = xs"
      unfolding filter_empty_conv filter_id_conv by (meson not_le)+
    with False show ?thesis by simp
  qed (use Cons in simp)
qed simp

lemma sorted_insert_waiter: "sorted (map wt_priority ws) \<Longrightarrow> sorted (map wt_priority (insert_waiter w ws))"
  by (induction ws) auto

lemma ids_insert_waiter: "distinct (map wt_id ws) \<Longrightarrow> wt_id w \<notin> wt_id ` set ws \<Longrightarrow> distinct (map wt_id (insert_waiter w ws))"
  by (induction ws) auto

lemma erase_id:
  assumes "distinct (map wt_id ws)"
  shows "(case find_index (\<lambda>w. wt_id w = t) ws of None \<Rightarrow> ws | Some i \<Rightarrow> erase_at i ws) = filter (\<lambda>w. wt_id w \<noteq> t) ws"
  using assms
proof (induction ws)
  case (Cons w ws)
  show ?case
  proof (cases "wt_id w = t")
    case True
    with Cons.prems have "wt_id x \<noteq> t" if "x \<in> set ws" for x using that by (auto simp: image_iff)
    then have "filter (\<lambda>w. wt_id w \<noteq> t) ws = ws" by (simp add: filter_id_conv)
    with True show ?thesis by (simp add: erase_at_def)
  next
    case False
    with Cons show ?thesis
      by (cases "find_index (\<lambda>w. wt_id w = t) ws") (auto simp: erase_at_def simp del: find_index_None)
  qed
qed simp

lemma RemoveWaiter_filter:
  "distinct (map wt_id (ks_waiters s)) \<Longrightarrow>
   RemoveWaiter t s = s\<lparr>ks_waiters := filter (\<lambda>w. wt_id w \<noteq> t) (ks_waiters s)\<rparr>"
  using erase_id [of "ks_waiters s" t]
  by (simp add: RemoveWaiter_def split: option.splits del: find_index_None)

text \<open>What a scan of the queue does to each waiter, and to the counter.\<close>

lemma WakeWaiters_spec:
  assumes "WakeWaiters ws c = (ws', c')"
  shows "length ws' = length ws" "map wt_id ws' = map wt_id ws" "map wt_priority ws' = map wt_priority ws"
    "map wt_need ws' = map wt_need ws"
  using assms by (induction ws arbitrary: c ws' c') (auto split: if_splits prod.splits)

lemma WakeWaiters_ConsE:
  assumes "WakeWaiters (x # xs) c = (ws', c')"
  obtains (served) xs' where "\<not> wt_ready x" "wt_need x \<le> c" "WakeWaiters xs (c - wt_need x) = (xs', c')"
      "ws' = x\<lparr>wt_result := SOk, wt_ready := True\<rparr> # xs'"
  | (passed) xs' where "wt_ready x \<or> c < wt_need x" "WakeWaiters xs c = (xs', c')" "ws' = x # xs'"
  using assms by (auto split: if_splits prod.splits)

lemma WakeWaiters_count:
  assumes "WakeWaiters ws c = (ws', c')" "\<forall>w \<in> set ws. 1 \<le> wt_need w"
  shows "c' \<le> c \<and> (if 0 \<le> c then 0 \<le> c' else c' = c)"
  using assms
proof (induction ws arbitrary: c ws' c')
  case (Cons x xs)
  from Cons.prems(1) show ?case
  proof (cases rule: WakeWaiters_ConsE)
    case (served xs')
    with Cons.IH [OF served(3)] Cons.prems(2) show ?thesis by (auto split: if_splits)
  next
    case (passed xs')
    with Cons.IH [OF passed(2)] Cons.prems(2) show ?thesis by simp
  qed
qed simp

text \<open>Served waiters have paid what they asked for.\<close>

definition granted :: "waiting_thread list \<Rightarrow> int" where
  "granted ws = sum_list (map wt_need (filter (\<lambda>w. wt_ready w \<and> wt_result w = SOk) ws))"

lemma granted_simps [simp]:
  "granted [] = 0"
  "granted (w # ws) = (if wt_ready w \<and> wt_result w = SOk then wt_need w else 0) + granted ws"
  "granted (ws @ vs) = granted ws + granted vs"
  by (simp_all add: granted_def)

lemma WakeWaiters_granted: "WakeWaiters ws c = (ws', c') \<Longrightarrow> c' + granted ws' = c + granted ws"
proof (induction ws arbitrary: c ws' c')
  case (Cons x xs)
  from Cons.prems show ?case
  proof (cases rule: WakeWaiters_ConsE)
    case (served xs')
    with Cons.IH [OF served(3)] show ?thesis by simp
  next
    case (passed xs')
    with Cons.IH [OF passed(2)] show ?thesis by simp
  qed
qed simp

lemma WakeWaiters_nth:
  assumes "WakeWaiters ws c = (ws', c')" "i < length ws"
  shows "ws' ! i = ws ! i \<or> (\<not> wt_ready (ws ! i) \<and> ws' ! i = (ws ! i)\<lparr>wt_result := SOk, wt_ready := True\<rparr>)"
  using assms
proof (induction ws arbitrary: c ws' c' i)
  case (Cons x xs)
  from Cons.prems(1) show ?case
  proof (cases rule: WakeWaiters_ConsE)
    case (served xs')
    with Cons.IH [OF served(3), of "i - 1"] Cons.prems(2) show ?thesis by (cases i) auto
  next
    case (passed xs')
    with Cons.IH [OF passed(2), of "i - 1"] Cons.prems(2) show ?thesis by (cases i) auto
  qed
qed simp

lemma WakeWaiters_unserved:
  assumes "WakeWaiters ws c = (ws', c')" "\<forall>w \<in> set ws. 1 \<le> wt_need w"
  shows "w \<in> set ws' \<Longrightarrow> \<not> wt_ready w \<Longrightarrow> c' < wt_need w \<and> w \<in> set ws"
  using assms
proof (induction ws arbitrary: c ws' c')
  case (Cons x xs)
  from Cons.prems(3) show ?case
  proof (cases rule: WakeWaiters_ConsE)
    case (served xs')
    with Cons.IH [OF _ _ served(3)] Cons.prems show ?thesis by auto
  next
    case (passed xs')
    have "c' \<le> c" using WakeWaiters_count [OF passed(2)] Cons.prems(4) by simp
    with passed Cons.IH [OF _ _ passed(2)] Cons.prems show ?thesis by auto
  qed
qed simp

text \<open>A waiter is passed over only for one that asks for less.\<close>

lemma WakeWaiters_order:
  assumes "WakeWaiters ws c = (ws', c')" "\<forall>w \<in> set ws. 1 \<le> wt_need w"
    and "i < j" "j < length ws" "\<not> wt_ready (ws' ! i)" "\<not> wt_ready (ws ! j)" "wt_ready (ws' ! j)"
  shows "wt_need (ws ! j) < wt_need (ws ! i)"
  using assms
proof (induction ws arbitrary: c ws' c' i j)
  case (Cons x xs)
  have served_le: "wt_need (xs ! k) \<le> d"
    if "WakeWaiters xs d = (xs', c')" "k < length xs" "\<not> wt_ready (xs ! k)" "wt_ready (xs' ! k)" for d xs' k
    using that Cons.prems(2)
  proof (induction xs arbitrary: d xs' k)
    case (Cons y ys)
    from Cons.prems(1) show ?case
    proof (cases rule: WakeWaiters_ConsE)
      case (served ys')
      with Cons.IH [OF served(3), of "k - 1"] Cons.prems show ?thesis by (cases k) force+
    next
      case (passed ys')
      with Cons.IH [OF passed(2), of "k - 1"] Cons.prems show ?thesis by (cases k) auto
    qed
  qed simp
  from Cons.prems(1) show ?case
  proof (cases rule: WakeWaiters_ConsE)
    case (served xs')
    with Cons.prems have "i \<noteq> 0" by (cases i) auto
    with Cons.IH [OF served(3), of "i - 1" "j - 1"] Cons.prems served show ?thesis by (cases i; cases j) auto
  next
    case (passed xs')
    show ?thesis
    proof (cases i)
      case 0
      with passed Cons.prems have "c < wt_need x" by auto
      with 0 served_le [OF passed(2), of "j - 1"] Cons.prems passed show ?thesis by (cases j) auto
    next
      case (Suc k)
      with Cons.IH [OF passed(2), of k "j - 1"] Cons.prems passed show ?thesis by (cases j) auto
    qed
  qed
qed simp

section \<open>Invariant\<close>

definition wt_key :: "waiting_thread \<Rightarrow> nat \<times> int \<times> int" where
  "wt_key w = (wt_id w, wt_need w, wt_priority w)"

definition queue_ok :: "(nat \<Rightarrow> sema_pc) \<Rightarrow> bool \<Rightarrow> waiting_thread list \<Rightarrow> bool" where
  "queue_ok pcs fifo ws \<longleftrightarrow> distinct (map wt_id ws) \<and>
     (\<forall>t. t \<in> wt_id ` set ws \<longleftrightarrow> (\<exists>n m. pcs t = SemaWaiting n m)) \<and>
     (\<forall>w \<in> set ws. 1 \<le> wt_need w \<and> (\<exists>m. pcs (wt_id w) = SemaWaiting (wt_need w) m)) \<and>
     (fifo \<or> sorted (map wt_priority ws))"

definition sema_inv :: "sema_sys \<Rightarrow> bool" where
  "sema_inv s \<longleftrightarrow> queue_ok (ss_pcs s) (ks_fifo (ss_sema s)) (ks_waiters (ss_sema s)) \<and>
     (\<forall>w \<in> set (ks_waiters (ss_sema s)). wt_ready w \<or> ks_count (ss_sema s) < wt_need w \<and> ks_status (ss_sema s) = SemaSet) \<and>
     ks_count (ss_sema s) \<le> ks_max (ss_sema s) \<and> ks_init (ss_sema s) \<le> ks_max (ss_sema s) \<and> (ss_freed s \<longrightarrow> ks_waiters (ss_sema s) = [])"

lemma queue_ok_keys:
  assumes "queue_ok pcs fifo ws" "map wt_key vs = map wt_key ws"
  shows "queue_ok pcs fifo vs"
proof -
  have m: "map wt_id vs = map wt_id ws" "map wt_priority vs = map wt_priority ws" "map wt_need vs = map wt_need ws"
    using arg_cong [OF assms(2), of "map fst"] arg_cong [OF assms(2), of "map (snd \<circ> snd)"]
      arg_cong [OF assms(2), of "map (fst \<circ> snd)"] by (simp_all add: wt_key_def o_def)
  have ids: "wt_id ` set vs = wt_id ` set ws" using m(1) by (metis list.set_map)
  have "\<exists>v \<in> set ws. wt_id v = wt_id w \<and> wt_need v = wt_need w" if "w \<in> set vs" for w
  proof -
    from that have "wt_key w \<in> wt_key ` set ws" using assms(2) by (metis image_eqI list.set_map)
    then show ?thesis by (auto simp: wt_key_def)
  qed
  with assms(1) show ?thesis unfolding queue_ok_def ids m by metis
qed

lemma finish_all_keys: "map wt_key (finish_all r ws) = map wt_key ws"
  by (induction ws) (auto simp: finish_all_def wt_key_def)

lemma finish_all_ready: "w \<in> set (finish_all r ws) \<Longrightarrow> wt_ready w"
  by (auto simp: finish_all_def)

lemma WakeWaiters_keys: "WakeWaiters ws c = (ws', c') \<Longrightarrow> map wt_key ws' = map wt_key ws"
proof (induction ws arbitrary: c ws' c')
  case (Cons x xs)
  from Cons.prems show ?case
    by (cases rule: WakeWaiters_ConsE) (use Cons.IH in \<open>auto simp: wt_key_def\<close>)
qed simp

lemma queue_ok_add:
  assumes "queue_ok pcs fifo ws" "pcs t = SemaIdle" "wt_id w = t" "1 \<le> wt_need w"
  shows "queue_ok (pcs(t := SemaWaiting (wt_need w) m)) fifo (if fifo then ws @ [w] else insert_waiter w ws)"
proof -
  have t: "t \<notin> wt_id ` set ws" using assms(1,2) by (auto simp: queue_ok_def)
  have set: "set (if fifo then ws @ [w] else insert_waiter w ws) = insert w (set ws)" by auto
  have dist: "distinct (map wt_id (if fifo then ws @ [w] else insert_waiter w ws))"
    using assms(1,3) t ids_insert_waiter [of ws w] by (auto simp: queue_ok_def)
  have srt: "fifo \<or> sorted (map wt_priority (if fifo then ws @ [w] else insert_waiter w ws))"
    using assms(1) sorted_insert_waiter by (auto simp: queue_ok_def)
  have other: "wt_id v \<noteq> t" if "v \<in> set ws" for v using t that by auto
  show ?thesis
    unfolding queue_ok_def set
    using dist srt assms other by (auto simp: queue_ok_def)
qed

lemma queue_ok_remove:
  assumes "queue_ok pcs fifo ws"
  shows "queue_ok (pcs(t := SemaIdle)) fifo (filter (\<lambda>w. wt_id w \<noteq> t) ws)"
proof -
  have "sorted (map wt_priority ws) \<Longrightarrow> sorted (map wt_priority (filter (\<lambda>w. wt_id w \<noteq> t) ws))"
    by (induction ws) auto
  moreover have "distinct (map wt_id (filter (\<lambda>w. wt_id w \<noteq> t) ws))"
    using assms by (simp add: queue_ok_def distinct_map_filter)
  ultimately show ?thesis using assms by (auto simp: queue_ok_def)
qed

lemma queue_ok_pcs:
  "queue_ok pcs fifo ws \<Longrightarrow> pcs t = SemaIdle \<or> pcs t = SemaDeleting \<Longrightarrow> p = SemaIdle \<or> p = SemaDeleting \<Longrightarrow>
   queue_ok (pcs(t := p)) fifo ws"
proof -
  assume q: "queue_ok pcs fifo ws" and t: "pcs t = SemaIdle \<or> pcs t = SemaDeleting" "p = SemaIdle \<or> p = SemaDeleting"
  have "t \<notin> wt_id ` set ws" using q t(1) by (auto simp: queue_ok_def)
  then have "wt_id w \<noteq> t" if "w \<in> set ws" for w using that by auto
  with q t show ?thesis by (auto simp: queue_ok_def)
qed

lemma sema_inv_start: "ks_waiters k = [] \<Longrightarrow> ks_count k \<le> ks_max k \<Longrightarrow> ks_init k \<le> ks_max k \<Longrightarrow> sema_inv (sema_start k)"
  by (simp add: sema_inv_def sema_start_def queue_ok_def)

section \<open>Preservation and the token balance\<close>

definition ledger :: "sema_event \<Rightarrow> int" where
  "ledger e =
     (case e of
        EvReturns t need r \<Rightarrow> if r = SOk then - need else 0
      | EvSignal n r \<Rightarrow> if r = SOk then n else 0
      | EvCancel d r told \<Rightarrow> d
      | _ \<Rightarrow> 0)"

definition tokens :: "sema_sys \<Rightarrow> int" where
  "tokens s = ks_count (ss_sema s) + granted (ks_waiters (ss_sema s))"

lemma begin_returns_facts:
  assumes "Sema_Wait_begin t prio need micros k = WaitDone r left k'"
  shows "ks_waiters k' = ks_waiters k \<and> ks_status k' = ks_status k \<and> ks_fifo k' = ks_fifo k \<and> ks_max k' = ks_max k \<and>
    ks_init k' = ks_init k \<and> ks_count k' = ks_count k - (if r = SOk then need else 0) \<and> (r = SOk \<longrightarrow> 1 \<le> need \<and> need \<le> ks_count k)"
  using assms by (auto simp: Sema_Wait_begin_def split: if_splits)

lemma begin_sleeps_facts:
  assumes "Sema_Wait_begin t prio need micros k = WaitSleeps k'"
  obtains w where "k' = AddWaiter w k" "wt_id w = t" "wt_need w = need" "\<not> wt_ready w"
    "1 \<le> need" "ks_count k < need" "ks_status k = SemaSet"
  using assms by (cases "ks_status k") (auto simp: Sema_Wait_begin_def split: if_splits)

lemma wake_returns_facts:
  assumes "Sema_Wait_wake t micros usecs k = Ret (WaitDone r left k')"
  obtains w where "w \<in> set (ks_waiters k)" "wt_id w = t" "k' = RemoveWaiter t k"
    "if wt_ready w then r = wt_result w else r = STimedOut"
proof -
  from assms obtain w where f: "find (\<lambda>w. wt_id w = t) (ks_waiters k) = Some w"
    and r: "k' = RemoveWaiter t k" "if wt_ready w then r = wt_result w else r = STimedOut"
    by (auto simp: Sema_Wait_wake_def to_micros_def split: option.splits if_splits)
  from f have "w \<in> set (ks_waiters k)" "wt_id w = t" by (auto simp: find_Some_iff)
  with r that show ?thesis by blast
qed

lemma granted_remove:
  assumes "distinct (map wt_id ws)" "w \<in> set ws" "wt_id w = t"
  shows "granted (filter (\<lambda>v. wt_id v \<noteq> t) ws) = granted ws - (if wt_ready w \<and> wt_result w = SOk then wt_need w else 0)"
  using assms
proof (induction ws)
  case (Cons x xs)
  show ?case
  proof (cases "wt_id x = t")
    case True
    with Cons.prems have o: "wt_id v \<noteq> t" if "v \<in> set xs" for v using that by (auto simp: image_iff)
    then have "filter (\<lambda>v. wt_id v \<noteq> t) xs = xs" by (simp add: filter_id_conv)
    moreover have "w = x" using Cons.prems o by auto
    ultimately show ?thesis using True by simp
  next
    case False
    with Cons show ?thesis by auto
  qed
qed simp

lemma granted_finish: "r \<noteq> SOk \<Longrightarrow> granted (finish_all r ws) = granted ws"
  by (induction ws) (auto simp: finish_all_def)

lemma granted_unready: "\<not> wt_ready w \<Longrightarrow> granted (insert_waiter w ws) = granted ws"
  by (induction ws) auto

lemma sema_step_inv:
  assumes inv: "sema_inv s" and st: "sema_step s e s'"
  shows "sema_inv s' \<and> tokens s' = tokens s + ledger e \<and> ks_max (ss_sema s') = ks_max (ss_sema s) \<and>
    ks_fifo (ss_sema s') = ks_fifo (ss_sema s)"
proof -
  note I = inv [unfolded sema_inv_def]
  from I have q: "queue_ok (ss_pcs s) (ks_fifo (ss_sema s)) (ks_waiters (ss_sema s))" by blast
  have need1: "\<forall>w \<in> set (ks_waiters (ss_sema s)). 1 \<le> wt_need w" using q by (auto simp: queue_ok_def)
  from st show ?thesis
  proof cases
    case (begin_returns t prio need micros r left k)
    note F = begin_returns_facts [OF begin_returns(5)]
    have "ks_count k \<le> ks_count (ss_sema s)" using F by auto
    then have "sema_inv s'" using I F begin_returns(2) unfolding sema_inv_def by force
    then show ?thesis using F begin_returns by (simp add: tokens_def ledger_def)
  next
    case (begin_sleeps t prio need micros k)
    from begin_sleeps_facts [OF begin_sleeps(5)] obtain w where
      w: "k = AddWaiter w (ss_sema s)" "wt_id w = t" "wt_need w = need" "\<not> wt_ready w"
        "1 \<le> need" "ks_count (ss_sema s) < need" "ks_status (ss_sema s) = SemaSet" by blast
    have "queue_ok ((ss_pcs s)(t := SemaWaiting need micros)) (ks_fifo k) (ks_waiters k)"
      using queue_ok_add [OF q begin_sleeps(3) w(2)] w(3,5) w(1) by (simp add: AddWaiter_def)
    moreover have "set (ks_waiters k) = insert w (set (ks_waiters (ss_sema s)))"
      using w(1) by (auto simp: AddWaiter_def)
    ultimately have "sema_inv s'" using I w begin_sleeps unfolding sema_inv_def by (auto simp: AddWaiter_def)
    moreover have "granted (ks_waiters k) = granted (ks_waiters (ss_sema s))"
      using w by (simp add: AddWaiter_def granted_unready)
    ultimately show ?thesis using w(1) begin_sleeps by (simp add: tokens_def ledger_def AddWaiter_def)
  next
    case (wake_returns t need micros usecs r left k)
    from wake_returns_facts [OF wake_returns(4)] obtain w where
      w: "w \<in> set (ks_waiters (ss_sema s))" "wt_id w = t" "k = RemoveWaiter t (ss_sema s)"
        "if wt_ready w then r = wt_result w else r = STimedOut" by blast
    have d: "distinct (map wt_id (ks_waiters (ss_sema s)))" using q by (simp add: queue_ok_def)
    note k = w(3) [unfolded RemoveWaiter_filter [OF d]]
    have n: "wt_need w = need" using q w(1,2) wake_returns(3) by (force simp: queue_ok_def)
    have "sema_inv s'" using I queue_ok_remove [OF q, of t] wake_returns k unfolding sema_inv_def by auto
    moreover have "granted (ks_waiters k) = granted (ks_waiters (ss_sema s)) - (if r = SOk then need else 0)"
      using granted_remove [OF d w(1,2)] k w(4) n by (auto split: if_splits)
    ultimately show ?thesis using k wake_returns by (simp add: tokens_def ledger_def)
  next
    case (wake_sleeps t need micros usecs k)
    then have "k = ss_sema s"
      by (auto simp: Sema_Wait_wake_def to_micros_def split: option.splits if_splits)
    then show ?thesis using inv wake_sleeps by (simp add: tokens_def ledger_def)
  next
    case (signal n r k)
    show ?thesis
    proof (cases "ks_status (ss_sema s) = SemaDeleted \<or> ks_count (ss_sema s) + n > ks_max (ss_sema s)")
      case True
      then have "k = ss_sema s" "r \<noteq> SOk"
        using signal by (auto simp: Sema_Signal_def i32_add_def split: if_splits)
      then show ?thesis using inv signal by (simp add: tokens_def ledger_def)
    next
      case False
      obtain ws c where wk: "WakeWaiters (ks_waiters (ss_sema s)) (ks_count (ss_sema s) + n) = (ws, c)" by fastforce
      have k: "k = (ss_sema s)\<lparr>ks_count := c, ks_waiters := ws\<rparr>" "r = SOk"
        using False signal wk by (auto simp: Sema_Signal_def i32_add_def split: if_splits)
      have set: "ks_status (ss_sema s) = SemaSet" using False by (cases "ks_status (ss_sema s)") auto
      have "queue_ok (ss_pcs s) (ks_fifo (ss_sema s)) ws" by (rule queue_ok_keys [OF q WakeWaiters_keys [OF wk]])
      moreover have "ss_freed s \<longrightarrow> ws = []" using signal by simp
      ultimately have "sema_inv s'"
        using I signal k False WakeWaiters_count [OF wk need1] WakeWaiters_unserved [OF wk need1] set
        unfolding sema_inv_def by auto
      then show ?thesis using signal k WakeWaiters_granted [OF wk] by (simp add: tokens_def ledger_def)
    qed
  next
    case (cancel n r told k)
    show ?thesis
    proof (cases "r = SOk")
      case False
      then have "k = ss_sema s" using cancel by (auto simp: Sema_Cancel_def split: if_splits)
      then show ?thesis using inv cancel by (simp add: tokens_def ledger_def)
    next
      case True
      then have k: "k = (ss_sema s)\<lparr>ks_count := (if n < 0 then ks_init (ss_sema s) else n),
          ks_waiters := finish_all SCanceled (ks_waiters (ss_sema s))\<rparr>" "n \<le> ks_max (ss_sema s)"
        using cancel by (auto simp: Sema_Cancel_def split: if_splits)
      have "queue_ok (ss_pcs s) (ks_fifo (ss_sema s)) (finish_all SCanceled (ks_waiters (ss_sema s)))"
        by (rule queue_ok_keys [OF q finish_all_keys])
      moreover have "(if n < 0 then ks_init (ss_sema s) else n) \<le> ks_max (ss_sema s)" using k(2) I by simp
      moreover have "\<forall>w \<in> set (finish_all SCanceled (ks_waiters (ss_sema s))). wt_ready w"
        using finish_all_ready by blast
      ultimately have "sema_inv s'" using I cancel(1-3) k(1) unfolding sema_inv_def by simp
      then show ?thesis using cancel k(1) by (simp add: tokens_def ledger_def granted_finish)
    qed
  next
    case (delete t k)
    then have k: "k = (ss_sema s)\<lparr>ks_status := SemaDeleted, ks_waiters := finish_all SDeleted (ks_waiters (ss_sema s))\<rparr>"
      by (auto simp: Sema_delete_def split: if_splits)
    have "queue_ok ((ss_pcs s)(t := SemaDeleting)) (ks_fifo (ss_sema s)) (finish_all SDeleted (ks_waiters (ss_sema s)))"
      by (rule queue_ok_keys [OF queue_ok_pcs [OF q] finish_all_keys]) (use delete in auto)
    moreover have "\<forall>w \<in> set (finish_all SDeleted (ks_waiters (ss_sema s))). wt_ready w"
      using finish_all_ready by blast
    ultimately have "sema_inv s'" using I delete(1-4) k unfolding sema_inv_def by simp
    then show ?thesis using delete k by (simp add: tokens_def ledger_def granted_finish)
  next
    case (free t)
    have "queue_ok ((ss_pcs s)(t := SemaIdle)) (ks_fifo (ss_sema s)) (ks_waiters (ss_sema s))"
      by (rule queue_ok_pcs [OF q]) (use free in auto)
    then have "sema_inv s'" using I free unfolding sema_inv_def by auto
    then show ?thesis using free by (simp add: tokens_def ledger_def)
  qed
qed

lemma sema_run_inv:
  assumes "sema_run s0 es s" "sema_inv s0"
  shows "sema_inv s \<and> tokens s = tokens s0 + sum_list (map ledger es) \<and> ks_max (ss_sema s) = ks_max (ss_sema s0) \<and>
    ks_fifo (ss_sema s) = ks_fifo (ss_sema s0)"
  using assms
proof (induction rule: sema_run.induct)
  case (snoc s es s1 e s2)
  with sema_step_inv [OF _ snoc.hyps(2)] show ?case by auto
qed simp

definition sema_run_from :: "string \<Rightarrow> bool \<Rightarrow> int \<Rightarrow> int \<Rightarrow> sema_event list \<Rightarrow> sema_sys \<Rightarrow> bool" where
  "sema_run_from name fifo init mx es s \<longleftrightarrow> init \<le> mx \<and> sema_run (sema_start (Sema_new name fifo init mx)) es s"

lemma run_from_inv:
  assumes "sema_run_from name fifo init mx es s"
  shows "sema_inv s \<and> tokens s = init + sum_list (map ledger es) \<and> ks_max (ss_sema s) = mx \<and> ks_fifo (ss_sema s) = fifo"
proof -
  let ?k = "Sema_new name fifo init mx"
  have "sema_inv (sema_start ?k)" using assms by (intro sema_inv_start) (simp_all add: Sema_new_def sema_run_from_def)
  from sema_run_inv [OF _ this] assms show ?thesis
    by (auto simp: sema_run_from_def tokens_def sema_start_def Sema_new_def)
qed

section \<open>Properties\<close>

text \<open>
  C28: tokens are conserved: after any interleaving of calls, the counter together with what
  was granted to waiters that have not returned yet is the initial count, plus what the
  successful signals added, minus what the successful waits took, adjusted by the
  cancellations that reset it; and the counter never exceeds its maximum.
\<close>

theorem sema_conserves_tokens:
  assumes "sema_run_from name fifo init mx es s"
  shows "ks_count (ss_sema s) + granted (ks_waiters (ss_sema s)) = init + sum_list (map ledger es) \<and>
    ks_count (ss_sema s) \<le> mx"
  using run_from_inv [OF assms] by (auto simp: tokens_def sema_inv_def)

text \<open>
  C29: no token is left lying while somebody could take it: in every reachable state each
  thread that sleeps in \<open>Wait\<close> has exactly one entry on the queue, with the count it asked
  for, and an entry that has not been served asks for more than the counter holds, on a
  semaphore that was not deleted; a freed semaphore has no waiter.
\<close>

theorem sema_serves_waiters:
  assumes "sema_run_from name fifo init mx es s"
  shows "distinct (map wt_id (ks_waiters (ss_sema s))) \<and>
    (\<forall>t. t \<in> wt_id ` set (ks_waiters (ss_sema s)) \<longleftrightarrow> (\<exists>n m. ss_pcs s t = SemaWaiting n m)) \<and>
    list_all (\<lambda>w. (\<exists>m. ss_pcs s (wt_id w) = SemaWaiting (wt_need w) m) \<and>
      (wt_ready w \<or> ks_count (ss_sema s) < wt_need w \<and> ks_status (ss_sema s) = SemaSet)) (ks_waiters (ss_sema s)) \<and>
    (if ss_freed s then ks_waiters (ss_sema s) = [] else True)"
  using run_from_inv [OF assms] by (auto simp: sema_inv_def queue_ok_def list_all_iff)

text \<open>
  C30: the queue is fair: a thread that goes to sleep queues behind every waiter of the same
  or a better priority and before the others, or at the end of a first-in-first-out queue,
  and a signal that serves a waiter while an earlier one stays unserved only does so when
  the earlier one asks for more.
\<close>

theorem sema_queue_order:
  assumes "sema_run_from name fifo init mx es s"
  shows "ks_waiters (AddWaiter w (ss_sema s)) =
      (if fifo then ks_waiters (ss_sema s) @ [w]
       else filter (\<lambda>x. wt_priority x \<le> wt_priority w) (ks_waiters (ss_sema s)) @ w #
         filter (\<lambda>x. wt_priority w < wt_priority x) (ks_waiters (ss_sema s))) \<and>
    (\<forall>i j. i < j \<and> j < length (ks_waiters (ss_sema s)) \<and>
       \<not> wt_ready (fst (WakeWaiters (ks_waiters (ss_sema s)) c) ! i) \<and> \<not> wt_ready (ks_waiters (ss_sema s) ! j) \<and>
       wt_ready (fst (WakeWaiters (ks_waiters (ss_sema s)) c) ! j) \<longrightarrow>
       wt_need (ks_waiters (ss_sema s) ! j) < wt_need (ks_waiters (ss_sema s) ! i))"
proof -
  from run_from_inv [OF assms] have q: "queue_ok (ss_pcs s) fifo (ks_waiters (ss_sema s))" "ks_fifo (ss_sema s) = fifo"
    by (auto simp: sema_inv_def)
  obtain ws' c' where wk: "WakeWaiters (ks_waiters (ss_sema s)) c = (ws', c')" by fastforce
  have "\<forall>w \<in> set (ks_waiters (ss_sema s)). 1 \<le> wt_need w" using q(1) by (auto simp: queue_ok_def)
  from WakeWaiters_order [OF wk this] insert_waiter_sorted [of "ks_waiters (ss_sema s)" w] q wk show ?thesis
    by (auto simp: AddWaiter_def queue_ok_def)
qed

text \<open>A run for the witnesses: one thread sleeps, a signal serves it, it returns.\<close>

lemma sema_example:
  "\<exists>s. sema_run_from ''s'' False 1 4 [EvSleeps 5, EvSignal 2 SOk] s \<and>
     ks_waiters (ss_sema s) = [\<lparr>wt_id = 5, wt_priority = 700, wt_need = 3, wt_result = SOk, wt_ready = True\<rparr>] \<and>
     ks_count (ss_sema s) = 0"
proof -
  let ?k = "Sema_new ''s'' False 1 4"
  let ?w = "\<lparr>wt_id = 5, wt_priority = 700, wt_need = 3, wt_result = STimedOut, wt_ready = False\<rparr>"
  let ?s1 = "(sema_start ?k)\<lparr>ss_sema := ?k\<lparr>ks_waiters := [?w]\<rparr>, ss_pcs := (\<lambda>_. SemaIdle)(5 := SemaWaiting 3 None)\<rparr>"
  let ?s2 = "?s1\<lparr>ss_sema := ?k\<lparr>ks_count := 0, ks_waiters := [?w\<lparr>wt_result := SOk, wt_ready := True\<rparr>]\<rparr>\<rparr>"
  have "Sema_Wait_begin 5 700 3 None ?k = WaitSleeps (?k\<lparr>ks_waiters := [?w]\<rparr>)"
    by (simp add: Sema_Wait_begin_def Sema_new_def AddWaiter_def)
  then have "sema_step (sema_start ?k) (EvSleeps 5) ?s1"
    using sema_step.begin_sleeps [of "sema_start ?k" 5 700 3 None "?k\<lparr>ks_waiters := [?w]\<rparr>"]
    by (simp add: sema_start_def)
  moreover have "Sema_Signal 2 (ss_sema ?s1) = Ret (SOk, ?k\<lparr>ks_count := 0, ks_waiters := [?w\<lparr>wt_result := SOk, wt_ready := True\<rparr>]\<rparr>)"
    by (simp add: Sema_Signal_def Sema_new_def i32_add_def i32_ok_def)
  then have "sema_step ?s1 (EvSignal 2 SOk) ?s2"
    using sema_step.signal [of ?s1 2 SOk "?k\<lparr>ks_count := 0, ks_waiters := [?w\<lparr>wt_result := SOk, wt_ready := True\<rparr>]\<rparr>"]
    by (simp add: sema_start_def)
  ultimately have "sema_run (sema_start ?k) ([] @ [EvSleeps 5] @ [EvSignal 2 SOk]) ?s2"
    using sema_run.snoc [OF sema_run.snoc [OF sema_run.refl]] by fastforce
  then show ?thesis by (intro exI [of _ ?s2]) (simp add: sema_run_from_def)
qed

theorem sema_conserves_tokens_witness:
  "\<exists>s. sema_run_from ''s'' False 1 4 [EvSleeps 5, EvSignal 2 SOk] s \<and>
     ks_count (ss_sema s) + granted (ks_waiters (ss_sema s)) = 3"
  using sema_example sema_conserves_tokens [of "''s''" False 1 4 "[EvSleeps 5, EvSignal 2 SOk]"]
  by (auto simp: ledger_def)

theorem sema_serves_waiters_witness:
  "\<exists>s. sema_run_from ''s'' False 1 4 [EvSleeps 5, EvSignal 2 SOk] s \<and> (\<exists>n m. ss_pcs s 5 = SemaWaiting n m)"
proof -
  from sema_example obtain s where s: "sema_run_from ''s'' False 1 4 [EvSleeps 5, EvSignal 2 SOk] s"
    "wt_id ` set (ks_waiters (ss_sema s)) = {5}" by auto
  with sema_serves_waiters [OF s(1)] show ?thesis by (metis insertI1)
qed

theorem sema_queue_order_witness:
  "\<exists>s. sema_run_from ''s'' False 1 4 [EvSleeps 5, EvSignal 2 SOk] s \<and>
     ks_waiters (AddWaiter \<lparr>wt_id = 6, wt_priority = 256, wt_need = 1, wt_result = STimedOut, wt_ready = False\<rparr> (ss_sema s)) =
       \<lparr>wt_id = 6, wt_priority = 256, wt_need = 1, wt_result = STimedOut, wt_ready = False\<rparr> # ks_waiters (ss_sema s)"
proof -
  from sema_example obtain s where s: "sema_run_from ''s'' False 1 4 [EvSleeps 5, EvSignal 2 SOk] s"
    "ks_waiters (ss_sema s) = [\<lparr>wt_id = 5, wt_priority = 700, wt_need = 3, wt_result = SOk, wt_ready = True\<rparr>]" by auto
  from sema_queue_order [OF s(1), of "\<lparr>wt_id = 6, wt_priority = 256, wt_need = 1, wt_result = STimedOut, wt_ready = False\<rparr>" 0]
  show ?thesis using s by (intro exI [of _ s]) simp
qed

text \<open>
  \<open>Signal\<close> does not refuse a negative count: it takes tokens away, below zero as well.
\<close>

lemma sema_signal_negative:
  "\<exists>s'. sema_step (sema_start (Sema_new name fifo 0 4)) (EvSignal (-3) SOk) s' \<and> ks_count (ss_sema s') = -3"
proof -
  let ?k = "Sema_new name fifo 0 4"
  have "Sema_Signal (-3) (ss_sema (sema_start ?k)) = Ret (SOk, ?k\<lparr>ks_count := -3\<rparr>)"
    by (simp add: Sema_Signal_def sema_start_def Sema_new_def i32_add_def i32_ok_def)
  from sema_step.signal [OF _ this] show ?thesis
    by (intro exI conjI) (auto simp: sema_start_def)
qed

end
