(* ===== verification/PosixSem.thy ===== *)
theory PosixSem
  imports KernelErrors
begin

text \<open>
  POSIX semaphores, the second half of \<open>src/kernel/semaphore.cpp\<close>: objects found by the
  address of the guest's structure, which is kept in step with the object after every
  operation. The world holds the registry, the objects by identity, the guest structures
  by address and the calling thread's \<open>errno\<close>. A thread that sleeps in a wait keeps the
  identity of its object, as the frame of the C++ call keeps its \<open>this\<close> pointer: the
  registry is not asked again, and an object that is deleted meanwhile is a dangling one.
\<close>

section \<open>State\<close>

definition POSIX_SEM_MAGIC :: u16 where "POSIX_SEM_MAGIC = 0x09fa"
definition POSIX_SEM_VALUE_MAX :: int where "POSIX_SEM_VALUE_MAX = 0x7fffffff"

record psem_guest =
  pg_magic :: u16
  pg_nameid :: u16
  pg_has_waiters :: u32
  pg_count :: u32
  pg_flags :: u32

record psem =
  ps_guest :: nat
  ps_count :: int
  ps_waiters :: u32

record psem_world =
  pw_sems :: "nat \<rightharpoonup> nat"
  pw_objs :: "nat \<rightharpoonup> psem"
  pw_next :: nat
  pw_mem :: "nat \<Rightarrow> psem_guest"
  pw_errno :: int

definition psem_start :: "(nat \<Rightarrow> psem_guest) \<Rightarrow> psem_world" where
  "psem_start mem = \<lparr>pw_sems = Map.empty, pw_objs = Map.empty, pw_next = 0, pw_mem = mem, pw_errno = 0\<rparr>"

text \<open>\<open>SyncGuest\<close>: all ones for the flags means that they are left alone.\<close>

definition SyncGuest :: "psem \<Rightarrow> u32 \<Rightarrow> (nat \<Rightarrow> psem_guest) \<Rightarrow> nat \<Rightarrow> psem_guest" where
  "SyncGuest p flags mem =
     (let g = (mem (ps_guest p))\<lparr>pg_magic := POSIX_SEM_MAGIC, pg_nameid := 0,
                pg_has_waiters := (if ps_waiters p > 0 then 1 else 0), pg_count := word_of_int (ps_count p)\<rparr>;
          g = (if flags \<noteq> -1 then g\<lparr>pg_flags := flags\<rparr> else g) in
      mem(ps_guest p := g))"

text \<open>The end of each locked operation: the object is stored and the guest brought up to date.\<close>

definition put_sem :: "nat \<Rightarrow> psem \<Rightarrow> psem_world \<Rightarrow> psem_world" where
  "put_sem ob p w = w\<lparr>pw_objs := (pw_objs w)(ob \<mapsto> p), pw_mem := SyncGuest p (-1) (pw_mem w)\<rparr>"

definition GetSem :: "nat option \<Rightarrow> psem_world \<Rightarrow> nat option" where
  "GetSem sem w = (case sem of None \<Rightarrow> None | Some a \<Rightarrow> pw_sems w a)"

definition SetErrnoReturn :: "int \<Rightarrow> psem_world \<Rightarrow> int \<times> psem_world" where
  "SetErrnoReturn posix_errno w = (-1, w\<lparr>pw_errno := posix_errno\<rparr>)"

definition PosixToKernel :: "int \<Rightarrow> int" where
  "PosixToKernel posix_errno =
     (if posix_errno \<ge> 0 \<and> posix_errno \<le> 102 then posix_errno - 2147352576 else KERNEL_ERROR_EINVAL)"

section \<open>Operations of the object\<close>

text \<open>
  \<open>Wait\<close>: one turn of the loop. It returns, or the thread sleeps with the object and the
  timeout in its frame.
\<close>

datatype psem_wait = Woken int | Asleep nat "nat option"

definition PosixSem_Wait_turn :: "nat \<Rightarrow> psem \<Rightarrow> nat option \<Rightarrow> nat \<Rightarrow> psem_world \<Rightarrow> psem_wait \<times> psem_world" where
  "PosixSem_Wait_turn ob p micros elapsed w =
     (if ps_count p \<le> 0 then
        if (case micros of None \<Rightarrow> False | Some m \<Rightarrow> elapsed \<ge> m) then (Woken POSIX_ETIMEDOUT, put_sem ob p w)
        else (Asleep ob micros, put_sem ob (p\<lparr>ps_waiters := ps_waiters p + 1\<rparr>) w)
      else (Woken OK, put_sem ob (p\<lparr>ps_count := ps_count p - 1\<rparr>) w))"

definition PosixSem_Wait :: "nat \<Rightarrow> nat option \<Rightarrow> psem_world \<Rightarrow> (psem_wait \<times> psem_world) outcome" where
  "PosixSem_Wait ob micros w =
     (case pw_objs w ob of None \<Rightarrow> Undef | Some p \<Rightarrow> Ret (PosixSem_Wait_turn ob p micros 0 w))"

definition PosixSem_Wait_wake :: "nat \<Rightarrow> nat option \<Rightarrow> nat \<Rightarrow> psem_world \<Rightarrow> (psem_wait \<times> psem_world) outcome" where
  "PosixSem_Wait_wake ob micros usecs w =
     (case pw_objs w ob of
        None \<Rightarrow> Undef
      | Some p \<Rightarrow>
          obind (to_micros usecs) (\<lambda>elapsed.
          Ret (PosixSem_Wait_turn ob (p\<lparr>ps_waiters := ps_waiters p - 1\<rparr>) micros elapsed w)))"

definition PosixSem_TryWait :: "nat \<Rightarrow> psem_world \<Rightarrow> (int \<times> psem_world) outcome" where
  "PosixSem_TryWait ob w =
     (case pw_objs w ob of
        None \<Rightarrow> Undef
      | Some p \<Rightarrow>
          if ps_count p \<le> 0 then Ret (POSIX_EAGAIN, put_sem ob p w)
          else Ret (OK, put_sem ob (p\<lparr>ps_count := ps_count p - 1\<rparr>) w))"

definition PosixSem_Post :: "nat \<Rightarrow> psem_world \<Rightarrow> (int \<times> psem_world) outcome" where
  "PosixSem_Post ob w =
     (case pw_objs w ob of
        None \<Rightarrow> Undef
      | Some p \<Rightarrow>
          if ps_count p = POSIX_SEM_VALUE_MAX then Ret (POSIX_EOVERFLOW, w)
          else Ret (OK, put_sem ob (p\<lparr>ps_count := ps_count p + 1\<rparr>) w))"

definition PosixSem_GetValue :: "nat \<Rightarrow> psem_world \<Rightarrow> int outcome" where
  "PosixSem_GetValue ob w = (case pw_objs w ob of None \<Rightarrow> Undef | Some p \<Rightarrow> Ret (ps_count p))"

section \<open>The registry and the calls\<close>

definition SemInitImpl :: "nat option \<Rightarrow> int \<Rightarrow> u32 \<Rightarrow> psem_world \<Rightarrow> int \<times> psem_world" where
  "SemInitImpl sem pshared value w =
     (case sem of
        None \<Rightarrow> (POSIX_EINVAL, w)
      | Some a \<Rightarrow>
          if uint value > POSIX_SEM_VALUE_MAX then (POSIX_EINVAL, w)
          else
            let obj = pw_next w;
                p = \<lparr>ps_guest = a, ps_count = uint value, ps_waiters = 0\<rparr>;
                w = w\<lparr>pw_next := obj + 1, pw_mem := SyncGuest p (word_of_int pshared) (pw_mem w)\<rparr>;
                objs = (case pw_sems w a of None \<Rightarrow> pw_objs w | Some old \<Rightarrow> (pw_objs w)(old := None)) in
            (OK, w\<lparr>pw_objs := objs(obj \<mapsto> p), pw_sems := (pw_sems w)(a \<mapsto> obj)\<rparr>))"

definition SemDestroyImpl :: "nat option \<Rightarrow> psem_world \<Rightarrow> int \<times> psem_world" where
  "SemDestroyImpl sem w =
     (case sem of
        None \<Rightarrow> (POSIX_EINVAL, w)
      | Some a \<Rightarrow>
          (case pw_sems w a of
             None \<Rightarrow> (POSIX_EINVAL, w)
           | Some obj \<Rightarrow>
               (OK, w\<lparr>pw_sems := (pw_sems w)(a := None), pw_objs := (pw_objs w)(obj := None),
                  pw_mem := (pw_mem w)(a := (pw_mem w a)\<lparr>pg_magic := 0, pg_has_waiters := 0, pg_count := 0, pg_flags := 0\<rparr>)\<rparr>)))"

definition SemTimedwaitImpl :: "nat option \<Rightarrow> nat option \<Rightarrow> psem_world \<Rightarrow> (psem_wait \<times> psem_world) outcome" where
  "SemTimedwaitImpl sem micros w =
     (case GetSem sem w of None \<Rightarrow> Ret (Woken POSIX_EINVAL, w) | Some obj \<Rightarrow> PosixSem_Wait obj micros w)"

definition posix_ret :: "int \<times> psem_world \<Rightarrow> int \<times> psem_world" where
  "posix_ret rw = (if fst rw = OK then (0, snd rw) else SetErrnoReturn (fst rw) (snd rw))"

definition sem_init :: "nat option \<Rightarrow> int \<Rightarrow> u32 \<Rightarrow> psem_world \<Rightarrow> int \<times> psem_world" where
  "sem_init sem pshared value w = posix_ret (SemInitImpl sem pshared value w)"

definition sem_destroy :: "nat option \<Rightarrow> psem_world \<Rightarrow> int \<times> psem_world" where
  "sem_destroy sem w = posix_ret (SemDestroyImpl sem w)"

text \<open>The end of a waiting call; a sleeping thread has not returned yet.\<close>

definition wait_result :: "psem_wait \<times> psem_world \<Rightarrow> psem_wait \<times> psem_world" where
  "wait_result rw = (case fst rw of Asleep ob m \<Rightarrow> rw
      | Woken r \<Rightarrow> (let (v, w) = posix_ret (r, snd rw) in (Woken v, w)))"

definition sem_wait :: "nat option \<Rightarrow> psem_world \<Rightarrow> (psem_wait \<times> psem_world) outcome" where
  "sem_wait sem w = omap wait_result (SemTimedwaitImpl sem None w)"

definition sem_reltimedwait_np :: "nat option \<Rightarrow> u32 \<Rightarrow> psem_world \<Rightarrow> (psem_wait \<times> psem_world) outcome" where
  "sem_reltimedwait_np sem usec w = omap wait_result (SemTimedwaitImpl sem (Some (unat usec)) w)"

definition sem_trywait :: "nat option \<Rightarrow> psem_world \<Rightarrow> (int \<times> psem_world) outcome" where
  "sem_trywait sem w =
     (case GetSem sem w of
        None \<Rightarrow> Ret (SetErrnoReturn POSIX_EINVAL w)
      | Some obj \<Rightarrow> omap posix_ret (PosixSem_TryWait obj w))"

definition sem_post :: "nat option \<Rightarrow> psem_world \<Rightarrow> (int \<times> psem_world) outcome" where
  "sem_post sem w =
     (case GetSem sem w of
        None \<Rightarrow> Ret (SetErrnoReturn POSIX_EINVAL w)
      | Some obj \<Rightarrow> omap posix_ret (PosixSem_Post obj w))"

text \<open>The value is what is stored through the pointer.\<close>

definition sem_getvalue :: "nat option \<Rightarrow> bool \<Rightarrow> psem_world \<Rightarrow> (int \<times> int option \<times> psem_world) outcome" where
  "sem_getvalue sem value_null w =
     (case GetSem sem w of
        None \<Rightarrow> (let (r, w) = SetErrnoReturn POSIX_EINVAL w in Ret (r, None, w))
      | Some obj \<Rightarrow>
          if value_null then (let (r, w) = SetErrnoReturn POSIX_EINVAL w in Ret (r, None, w))
          else omap (\<lambda>v. (0, Some v, w)) (PosixSem_GetValue obj w))"

section \<open>Absolute times\<close>

definition i64_ok :: "int \<Rightarrow> bool" where
  "i64_ok x \<longleftrightarrow> - (2 ^ 63) \<le> x \<and> x < 2 ^ 63"

text \<open>C++ division, which rounds towards zero.\<close>

definition quot :: "int \<Rightarrow> int \<Rightarrow> int" where
  "quot a b = (if 0 \<le> a then a div b else - ((- a) div b))"

text \<open>The clock is a parameter: its reading, or nothing where the call fails.\<close>

definition AbsTimespecToMicros :: "(int \<times> int) option \<Rightarrow> (int \<times> int) option \<Rightarrow> nat option outcome" where
  "AbsTimespecToMicros abstime now =
     (case abstime of
        None \<Rightarrow> Ret None
      | Some (sec, nsec) \<Rightarrow>
          if sec < 0 \<or> nsec < 0 \<or> nsec \<ge> 1000000000 then Ret None
          else case now of
            None \<Rightarrow> Ret None
          | Some (nsec_now, nnsec_now) \<Rightarrow>
              let sec_delta = sec - nsec_now; nsec_delta = nsec - nnsec_now;
                  usec_delta = sec_delta * 1000000 + quot nsec_delta 1000 in
              if \<not> (i64_ok sec_delta \<and> i64_ok nsec_delta \<and> i64_ok (sec_delta * 1000000) \<and> i64_ok usec_delta) then Undef
              else if usec_delta \<le> 0 then Ret (Some 0)
              else if usec_delta > int u32_max then Ret (Some u32_max)
              else Ret (Some (nat usec_delta)))"

definition sem_timedwait :: "nat option \<Rightarrow> (int \<times> int) option \<Rightarrow> (int \<times> int) option \<Rightarrow> psem_world \<Rightarrow> (psem_wait \<times> psem_world) outcome" where
  "sem_timedwait sem abstime now w =
     obind (AbsTimespecToMicros abstime now) (\<lambda>m.
     case m of
       None \<Rightarrow> (let (r, w) = SetErrnoReturn POSIX_EINVAL w in Ret (Woken r, w))
     | Some micros \<Rightarrow> omap wait_result (SemTimedwaitImpl sem (Some micros) w))"

section \<open>The kernel's names for the same calls\<close>

definition kernel_ret :: "int \<Rightarrow> int" where
  "kernel_ret r = (if r = OK then OK else PosixToKernel r)"

definition kernel_wait_result :: "psem_wait \<times> psem_world \<Rightarrow> psem_wait \<times> psem_world" where
  "kernel_wait_result rw = (case fst rw of Asleep ob m \<Rightarrow> rw | Woken r \<Rightarrow> (Woken (kernel_ret r), snd rw))"

definition PthreadSemInit :: "nat option \<Rightarrow> int \<Rightarrow> u32 \<Rightarrow> psem_world \<Rightarrow> int \<times> psem_world" where
  "PthreadSemInit sem flag value w =
     (if flag \<noteq> 0 then (KERNEL_ERROR_EINVAL, w)
      else (let (r, w) = SemInitImpl sem 0 value w in (kernel_ret r, w)))"

definition PthreadSemDestroy :: "nat option \<Rightarrow> psem_world \<Rightarrow> int \<times> psem_world" where
  "PthreadSemDestroy sem w = (let (r, w) = SemDestroyImpl sem w in (kernel_ret r, w))"

definition PthreadSemWait :: "nat option \<Rightarrow> psem_world \<Rightarrow> (psem_wait \<times> psem_world) outcome" where
  "PthreadSemWait sem w = omap kernel_wait_result (SemTimedwaitImpl sem None w)"

definition PthreadSemTimedwait :: "nat option \<Rightarrow> u32 \<Rightarrow> psem_world \<Rightarrow> (psem_wait \<times> psem_world) outcome" where
  "PthreadSemTimedwait sem usec w =
     omap kernel_wait_result (SemTimedwaitImpl sem (Some (unat usec)) w)"

definition PthreadSemTrywait :: "nat option \<Rightarrow> psem_world \<Rightarrow> (int \<times> psem_world) outcome" where
  "PthreadSemTrywait sem w =
     (case GetSem sem w of
        None \<Rightarrow> Ret (KERNEL_ERROR_EINVAL, w)
      | Some obj \<Rightarrow> omap (\<lambda>(r, w). (kernel_ret r, w)) (PosixSem_TryWait obj w))"

definition PthreadSemPost :: "nat option \<Rightarrow> psem_world \<Rightarrow> (int \<times> psem_world) outcome" where
  "PthreadSemPost sem w =
     (case GetSem sem w of
        None \<Rightarrow> Ret (KERNEL_ERROR_EINVAL, w)
      | Some obj \<Rightarrow> omap (\<lambda>(r, w). (kernel_ret r, w)) (PosixSem_Post obj w))"

definition PthreadSemGetvalue :: "nat option \<Rightarrow> bool \<Rightarrow> psem_world \<Rightarrow> (int \<times> int option) outcome" where
  "PthreadSemGetvalue sem value_null w =
     (case GetSem sem w of
        None \<Rightarrow> Ret (KERNEL_ERROR_EINVAL, None)
      | Some obj \<Rightarrow>
          if value_null then Ret (KERNEL_ERROR_EINVAL, None)
          else omap (\<lambda>v. (OK, Some v)) (PosixSem_GetValue obj w))"

section \<open>Calls of several threads\<close>

text \<open>
  The POSIX calls and the kernel's names for them. \<open>sem_timedwait\<close> comes with its time and
  the reading of the clock. A call runs as one step, or as several when it sleeps: the
  histories below interleave the calls of all threads at these points. A call that overlaps
  a \<open>sem_init\<close> or \<open>sem_destroy\<close> of the same address between its lookup and its work on the
  object is not among them.
\<close>

datatype sem_api = Posix | Kernel

datatype psem_call =
  SInit sem_api "nat option" int u32
| SDestroy sem_api "nat option"
| SWait sem_api "nat option"
| SRelTimedwait sem_api "nat option" u32
| STimedwait "nat option" "(int \<times> int) option" "(int \<times> int) option"
| STryWait sem_api "nat option"
| SPost sem_api "nat option"
| SGetValue sem_api "nat option" bool

fun call_api :: "psem_call \<Rightarrow> sem_api" where
  "call_api (SWait api sem) = api"
| "call_api (SRelTimedwait api sem usec) = api"
| "call_api _ = Posix"

text \<open>The end of a waiting call, now or after a sleep.\<close>

definition api_result :: "sem_api \<Rightarrow> psem_wait \<times> psem_world \<Rightarrow> psem_wait \<times> psem_world" where
  "api_result api = (case api of Posix \<Rightarrow> wait_result | Kernel \<Rightarrow> kernel_wait_result)"

definition returns :: "int \<times> psem_world \<Rightarrow> (psem_wait \<times> int option) \<times> psem_world" where
  "returns rw = ((Woken (fst rw), None), snd rw)"

definition waits :: "psem_wait \<times> psem_world \<Rightarrow> (psem_wait \<times> int option) \<times> psem_world" where
  "waits rw = ((fst rw, None), snd rw)"

fun psem_do :: "psem_call \<Rightarrow> psem_world \<Rightarrow> ((psem_wait \<times> int option) \<times> psem_world) outcome" where
  "psem_do (SInit Posix sem pshared v) w = Ret (returns (sem_init sem pshared v w))"
| "psem_do (SInit Kernel sem flag v) w = Ret (returns (PthreadSemInit sem flag v w))"
| "psem_do (SDestroy Posix sem) w = Ret (returns (sem_destroy sem w))"
| "psem_do (SDestroy Kernel sem) w = Ret (returns (PthreadSemDestroy sem w))"
| "psem_do (SWait Posix sem) w = omap waits (sem_wait sem w)"
| "psem_do (SWait Kernel sem) w = omap waits (PthreadSemWait sem w)"
| "psem_do (SRelTimedwait Posix sem usec) w = omap waits (sem_reltimedwait_np sem usec w)"
| "psem_do (SRelTimedwait Kernel sem usec) w = omap waits (PthreadSemTimedwait sem usec w)"
| "psem_do (STimedwait sem abstime now) w = omap waits (sem_timedwait sem abstime now w)"
| "psem_do (STryWait Posix sem) w = omap returns (sem_trywait sem w)"
| "psem_do (STryWait Kernel sem) w = omap returns (PthreadSemTrywait sem w)"
| "psem_do (SPost Posix sem) w = omap returns (sem_post sem w)"
| "psem_do (SPost Kernel sem) w = omap returns (PthreadSemPost sem w)"
| "psem_do (SGetValue Posix sem null) w = omap (\<lambda>(r, v, w). ((Woken r, v), w)) (sem_getvalue sem null w)"
| "psem_do (SGetValue Kernel sem null) w = omap (\<lambda>(r, v). ((Woken r, v), w)) (PthreadSemGetvalue sem null w)"

text \<open>
  The threads: what their \<open>errno\<close> holds, which is a thread-local variable, and the frames of
  those that sleep.
\<close>

type_synonym sleeper = "nat \<times> nat option \<times> sem_api"

record psem_sys =
  sy_world :: psem_world
  sy_errno :: "nat \<Rightarrow> int"
  sy_sleep :: "nat \<rightharpoonup> sleeper"

definition psem_sys_start :: "(nat \<Rightarrow> psem_guest) \<Rightarrow> psem_sys" where
  "psem_sys_start mem = \<lparr>sy_world = psem_start mem, sy_errno = (\<lambda>_. 0), sy_sleep = Map.empty\<rparr>"

definition world_of :: "nat \<Rightarrow> psem_sys \<Rightarrow> psem_world" where
  "world_of t y = (sy_world y)\<lparr>pw_errno := sy_errno y t\<rparr>"

text \<open>
  A step of a history: a thread makes a call, or a sleeping thread leaves the condition
  variable after so many microseconds since its call began. What is not enabled is skipped:
  a sleeping thread makes no call, and a thread that does not sleep is not woken.
\<close>

datatype psem_op = PCall nat psem_call | PWake nat nat
datatype psem_reply = Skipped | Sleeps | Returns int "int option"

definition psem_done :: "nat \<Rightarrow> sem_api \<Rightarrow> psem_sys \<Rightarrow> (psem_wait \<times> int option) \<times> psem_world \<Rightarrow> psem_reply \<times> psem_sys" where
  "psem_done t api y rw =
     (case rw of ((r, v), w) \<Rightarrow>
        (case r of Woken code \<Rightarrow> Returns code v | Asleep ob m \<Rightarrow> Sleeps,
         \<lparr>sy_world = w, sy_errno = (sy_errno y)(t := pw_errno w),
          sy_sleep = (sy_sleep y)(t := (case r of Woken code \<Rightarrow> None | Asleep ob m \<Rightarrow> Some (ob, m, api)))\<rparr>))"

definition psem_exec :: "psem_op \<Rightarrow> psem_sys \<Rightarrow> (psem_reply \<times> psem_sys) outcome" where
  "psem_exec c y =
     (case c of
        PCall t call \<Rightarrow>
          if sy_sleep y t \<noteq> None then Ret (Skipped, y)
          else omap (psem_done t (call_api call) y) (psem_do call (world_of t y))
      | PWake t usecs \<Rightarrow>
          (case sy_sleep y t of
             None \<Rightarrow> Ret (Skipped, y)
           | Some (ob, m, api) \<Rightarrow>
               omap (\<lambda>rw. psem_done t api y (waits (api_result api rw)))
                 (PosixSem_Wait_wake ob m usecs (world_of t y))))"

section \<open>Specification\<close>

text \<open>
  What the guest can rely on: a partial map from addresses to values, each thread's
  \<open>errno\<close>, and for each sleeping thread the address it waits for, its timeout and the kind of
  its call. The address is gone once the semaphore is destroyed or initialised again; waking
  such a thread is undefined.
\<close>

record psem_spec =
  sv_values :: "nat \<rightharpoonup> int"
  sv_errno :: "nat \<Rightarrow> int"
  sv_sleep :: "nat \<rightharpoonup> nat option \<times> nat option \<times> sem_api"

definition spec_start :: psem_spec where
  "spec_start = \<lparr>sv_values = Map.empty, sv_errno = (\<lambda>_. 0), sv_sleep = Map.empty\<rparr>"

text \<open>The kernel's names return the error, as \<open>0x80020000\<close> plus its POSIX code.\<close>

definition spec_fail :: "sem_api \<Rightarrow> nat \<Rightarrow> int \<Rightarrow> psem_spec \<Rightarrow> psem_reply \<times> psem_spec" where
  "spec_fail api t e s =
     (case api of
        Posix \<Rightarrow> (Returns (-1) None, s\<lparr>sv_errno := (sv_errno s)(t := e)\<rparr>)
      | Kernel \<Rightarrow> (Returns (e + 0x80020000 - 2 ^ 32) None, s))"

definition spec_put :: "nat \<Rightarrow> int \<Rightarrow> psem_spec \<Rightarrow> psem_reply \<times> psem_spec" where
  "spec_put a v s = (Returns 0 None, s\<lparr>sv_values := (sv_values s)(a \<mapsto> v)\<rparr>)"

definition spec_lookup :: "nat option \<Rightarrow> psem_spec \<Rightarrow> (nat \<times> int) option" where
  "spec_lookup sem s = Option.bind sem (\<lambda>a. map_option (Pair a) (sv_values s a))"

text \<open>The threads that wait for \<open>a\<close> lose their semaphore.\<close>

definition drop_sleepers ::
    "nat \<Rightarrow> (nat \<rightharpoonup> nat option \<times> nat option \<times> sem_api) \<Rightarrow> nat \<rightharpoonup> nat option \<times> nat option \<times> sem_api" where
  "drop_sleepers a sl = (\<lambda>t. map_option (\<lambda>(b, x). (if b = Some a then None else b, x)) (sl t))"

definition spec_turn :: "sem_api \<Rightarrow> nat \<Rightarrow> nat \<Rightarrow> int \<Rightarrow> nat option \<Rightarrow> nat \<Rightarrow> psem_spec \<Rightarrow> psem_reply \<times> psem_spec" where
  "spec_turn api t a v m elapsed s =
     (let awake = s\<lparr>sv_sleep := (sv_sleep s)(t := None)\<rparr> in
      if v > 0 then spec_put a (v - 1) awake
      else if (case m of None \<Rightarrow> False | Some k \<Rightarrow> k \<le> elapsed) then spec_fail api t POSIX_ETIMEDOUT awake
      else (Sleeps, s\<lparr>sv_sleep := (sv_sleep s)(t \<mapsto> (Some a, m, api))\<rparr>))"

definition spec_wait :: "sem_api \<Rightarrow> nat \<Rightarrow> nat option \<Rightarrow> nat option \<Rightarrow> psem_spec \<Rightarrow> psem_reply \<times> psem_spec" where
  "spec_wait api t sem m s =
     (case spec_lookup sem s of
        None \<Rightarrow> spec_fail api t POSIX_EINVAL s
      | Some (a, v) \<Rightarrow> spec_turn api t a v m 0 s)"

fun spec_do :: "nat \<Rightarrow> psem_call \<Rightarrow> psem_spec \<Rightarrow> (psem_reply \<times> psem_spec) outcome" where
  "spec_do t (SInit api sem ps v) s = Ret (case sem of
        None \<Rightarrow> spec_fail api t POSIX_EINVAL s
      | Some a \<Rightarrow>
          if uint v > POSIX_SEM_VALUE_MAX \<or> (api = Kernel \<and> ps \<noteq> 0) then spec_fail api t POSIX_EINVAL s
          else spec_put a (uint v) (s\<lparr>sv_sleep := drop_sleepers a (sv_sleep s)\<rparr>))"
| "spec_do t (SDestroy api sem) s = Ret (case spec_lookup sem s of
        None \<Rightarrow> spec_fail api t POSIX_EINVAL s
      | Some (a, v) \<Rightarrow>
          (Returns 0 None, s\<lparr>sv_values := (sv_values s)(a := None), sv_sleep := drop_sleepers a (sv_sleep s)\<rparr>))"
| "spec_do t (SWait api sem) s = Ret (spec_wait api t sem None s)"
| "spec_do t (SRelTimedwait api sem usec) s = Ret (spec_wait api t sem (Some (unat usec)) s)"
| "spec_do t (STimedwait sem abstime now) s = omap (\<lambda>m. case m of
        None \<Rightarrow> spec_fail Posix t POSIX_EINVAL s
      | Some micros \<Rightarrow> spec_wait Posix t sem (Some micros) s) (AbsTimespecToMicros abstime now)"
| "spec_do t (STryWait api sem) s = Ret (case spec_lookup sem s of
        None \<Rightarrow> spec_fail api t POSIX_EINVAL s
      | Some (a, v) \<Rightarrow> if v > 0 then spec_put a (v - 1) s else spec_fail api t POSIX_EAGAIN s)"
| "spec_do t (SPost api sem) s = Ret (case spec_lookup sem s of
        None \<Rightarrow> spec_fail api t POSIX_EINVAL s
      | Some (a, v) \<Rightarrow> if v = POSIX_SEM_VALUE_MAX then spec_fail api t POSIX_EOVERFLOW s else spec_put a (v + 1) s)"
| "spec_do t (SGetValue api sem null) s = Ret (case spec_lookup sem s of
        None \<Rightarrow> spec_fail api t POSIX_EINVAL s
      | Some (a, v) \<Rightarrow> if null then spec_fail api t POSIX_EINVAL s else (Returns 0 (Some v), s))"

definition spec_exec :: "psem_op \<Rightarrow> psem_spec \<Rightarrow> (psem_reply \<times> psem_spec) outcome" where
  "spec_exec c s =
     (case c of
        PCall t call \<Rightarrow> if sv_sleep s t \<noteq> None then Ret (Skipped, s) else spec_do t call s
      | PWake t usecs \<Rightarrow>
          (case sv_sleep s t of
             None \<Rightarrow> Ret (Skipped, s)
           | Some (None, m, api) \<Rightarrow> Undef
           | Some (Some a, m, api) \<Rightarrow>
               if usecs > u32_max then Undef else Ret (spec_turn api t a (the (sv_values s a)) m usecs s)))"

section \<open>Invariant\<close>

definition mirrors :: "psem \<Rightarrow> psem_guest \<Rightarrow> bool" where
  "mirrors p g \<longleftrightarrow> pg_magic g = POSIX_SEM_MAGIC \<and> pg_nameid g = 0 \<and>
     pg_has_waiters g = (if ps_waiters p > 0 then 1 else 0) \<and> pg_count g = word_of_int (ps_count p)"

definition psem_ok :: "psem_world \<Rightarrow> bool" where
  "psem_ok w \<longleftrightarrow>
     (\<forall>a ob. pw_sems w a = Some ob \<longrightarrow> (\<exists>p. pw_objs w ob = Some p \<and> ps_guest p = a)) \<and>
     (\<forall>ob p. pw_objs w ob = Some p \<longrightarrow> pw_sems w (ps_guest p) = Some ob \<and> ob < pw_next w \<and>
       0 \<le> ps_count p \<and> ps_count p \<le> POSIX_SEM_VALUE_MAX \<and> mirrors p (pw_mem w (ps_guest p)))"

definition sem_values :: "psem_world \<Rightarrow> nat \<rightharpoonup> int" where
  "sem_values w a = Option.bind (pw_sems w a) (\<lambda>ob. map_option ps_count (pw_objs w ob))"

lemma psem_lookup:
  assumes "psem_ok w" "pw_sems w a = Some ob"
  obtains p where "pw_objs w ob = Some p" "ps_guest p = a" "0 \<le> ps_count p" "ps_count p \<le> POSIX_SEM_VALUE_MAX"
    "sem_values w a = Some (ps_count p)"
  using assms unfolding psem_ok_def sem_values_def by fastforce

lemma sync_mirrors: "mirrors p (SyncGuest p flags mem (ps_guest p))"
  by (simp add: SyncGuest_def mirrors_def Let_def)

lemma sync_other: "a \<noteq> ps_guest p \<Longrightarrow> SyncGuest p flags mem a = mem a"
  by (simp add: SyncGuest_def Let_def)

lemma put_sem_ok:
  assumes ok: "psem_ok w" and ob: "pw_sems w a = Some ob" "ps_guest p = a"
    and c: "0 \<le> ps_count p" "ps_count p \<le> POSIX_SEM_VALUE_MAX"
  shows "psem_ok (put_sem ob p w)" "sem_values (put_sem ob p w) = (sem_values w)(a \<mapsto> ps_count p)"
    "pw_errno (put_sem ob p w) = pw_errno w"
proof -
  have uniq: "ps_guest q = a \<Longrightarrow> pw_objs w o' = Some q \<Longrightarrow> o' = ob" for o' q
    using ok ob(1) unfolding psem_ok_def by (metis option.inject)
  have reg: "pw_sems w b = Some ob \<Longrightarrow> b = a" for b
    using ok ob(1) unfolding psem_ok_def by (metis option.inject)
  have lt: "ob < pw_next w" using ok ob(1) unfolding psem_ok_def by blast
  show "psem_ok (put_sem ob p w)"
    unfolding psem_ok_def
  proof (intro conjI allI impI)
    fix b o' assume "pw_sems (put_sem ob p w) b = Some o'"
    then show "\<exists>q. pw_objs (put_sem ob p w) o' = Some q \<and> ps_guest q = b"
      using ok reg ob(2) by (cases "o' = ob") (auto simp: put_sem_def psem_ok_def)
  next
    fix o' q assume q: "pw_objs (put_sem ob p w) o' = Some q"
    show "pw_sems (put_sem ob p w) (ps_guest q) = Some o'" "o' < pw_next (put_sem ob p w)"
      "0 \<le> ps_count q" "ps_count q \<le> POSIX_SEM_VALUE_MAX"
      using q ok ob c lt by (cases "o' = ob"; auto simp: put_sem_def psem_ok_def)+
    show "mirrors q (pw_mem (put_sem ob p w) (ps_guest q))"
    proof (cases "o' = ob")
      case True
      with q show ?thesis by (simp add: put_sem_def sync_mirrors)
    next
      case False
      with q have "pw_objs w o' = Some q" by (simp add: put_sem_def)
      with False uniq ob(2) have "ps_guest q \<noteq> ps_guest p" by blast
      with \<open>pw_objs w o' = Some q\<close> ok show ?thesis by (simp add: put_sem_def sync_other psem_ok_def)
    qed
  qed
  show "sem_values (put_sem ob p w) = (sem_values w)(a \<mapsto> ps_count p)"
  proof
    fix b show "sem_values (put_sem ob p w) b = ((sem_values w)(a \<mapsto> ps_count p)) b"
    proof (cases "b = a")
      case True
      with ob show ?thesis by (simp add: sem_values_def put_sem_def)
    next
      case False
      then have "pw_sems w b \<noteq> Some ob" using reg by blast
      with False show ?thesis by (cases "pw_sems w b") (simp_all add: sem_values_def put_sem_def)
    qed
  qed
  show "pw_errno (put_sem ob p w) = pw_errno w" by (simp add: put_sem_def)
qed


lemma psem_ok_errno [simp]: "psem_ok (w\<lparr>pw_errno := e\<rparr>) = psem_ok w"
  by (simp add: psem_ok_def)

lemma sem_values_errno [simp]: "sem_values (w\<lparr>pw_errno := e\<rparr>) = sem_values w"
  by (rule ext) (simp add: sem_values_def)

text \<open>The threads that sleep on an object, and what the specification sees of them.\<close>

definition waiters_on :: "(nat \<rightharpoonup> sleeper) \<Rightarrow> nat \<Rightarrow> nat set" where
  "waiters_on sl ob = {t. \<exists>x. sl t = Some (ob, x)}"

definition abs_sleep :: "psem_world \<Rightarrow> (nat \<rightharpoonup> sleeper) \<Rightarrow> nat \<rightharpoonup> nat option \<times> nat option \<times> sem_api" where
  "abs_sleep w sl = (\<lambda>t. map_option (\<lambda>(ob, x). (map_option ps_guest (pw_objs w ob), x)) (sl t))"

definition abs_psem :: "psem_world \<Rightarrow> (nat \<Rightarrow> int) \<Rightarrow> (nat \<rightharpoonup> sleeper) \<Rightarrow> psem_spec" where
  "abs_psem w err sl = \<lparr>sv_values = sem_values w, sv_errno = err, sv_sleep = abs_sleep w sl\<rparr>"

definition threads_ok :: "psem_world \<Rightarrow> (nat \<rightharpoonup> sleeper) \<Rightarrow> bool" where
  "threads_ok w sl \<longleftrightarrow> psem_ok w \<and> finite (dom sl) \<and>
     (\<forall>t f. sl t = Some f \<longrightarrow> fst f < pw_next w) \<and>
     (\<forall>ob p. pw_objs w ob = Some p \<longrightarrow> ps_waiters p = of_nat (card (waiters_on sl ob)))"

definition sys_ok :: "psem_sys \<Rightarrow> bool" where
  "sys_ok y \<longleftrightarrow> threads_ok (sy_world y) (sy_sleep y)"

definition abs_sys :: "psem_sys \<Rightarrow> psem_spec" where
  "abs_sys y = abs_psem (sy_world y) (sy_errno y) (sy_sleep y)"

lemma abs_sleep_errno [simp]: "abs_sleep (w\<lparr>pw_errno := e\<rparr>) sl = abs_sleep w sl"
  by (simp add: abs_sleep_def)

lemma threads_ok_errno [simp]: "threads_ok (w\<lparr>pw_errno := e\<rparr>) sl = threads_ok w sl"
  by (simp add: threads_ok_def)

lemma abs_psem_errno [simp]: "abs_psem (w\<lparr>pw_errno := e\<rparr>) err sl = abs_psem w err sl"
  by (simp add: abs_psem_def)

lemma sleeper_lt: "threads_ok w sl \<Longrightarrow> sl t = Some f \<Longrightarrow> fst f < pw_next w"
  unfolding threads_ok_def by blast

lemma waiters_finite: "finite (dom sl) \<Longrightarrow> finite (waiters_on sl ob)"
  by (rule finite_subset [of _ "dom sl"]) (auto simp: waiters_on_def)

lemma waiters_sleep:
  assumes "finite (dom sl)"
  shows "card (waiters_on (sl(t \<mapsto> (ob, x))) ob) = Suc (card (waiters_on (sl(t := None)) ob))"
proof -
  have "waiters_on (sl(t \<mapsto> (ob, x))) ob = insert t (waiters_on (sl(t := None)) ob)"
    by (auto simp: waiters_on_def)
  moreover have "t \<notin> waiters_on (sl(t := None)) ob" by (simp add: waiters_on_def)
  moreover have "finite (waiters_on (sl(t := None)) ob)" using assms by (intro waiters_finite) simp
  ultimately show ?thesis by simp
qed

lemma abs_sleep_upd:
  "abs_sleep w (sl(t := None)) = (abs_sleep w sl)(t := None)"
  "abs_sleep w (sl(t \<mapsto> (ob, x))) = (abs_sleep w sl)(t \<mapsto> (map_option ps_guest (pw_objs w ob), x))"
  by (auto simp: abs_sleep_def)

lemma put_threads:
  assumes ok: "threads_ok w sl" and ob: "pw_sems w a = Some ob" "ps_guest p = a"
    and c: "0 \<le> ps_count p" "ps_count p \<le> POSIX_SEM_VALUE_MAX"
    and n: "ps_waiters p = of_nat (card (waiters_on sl' ob))"
    and t: "sl' = sl(t := x)" "case sl t of None \<Rightarrow> True | Some f \<Rightarrow> fst f = ob" "case x of None \<Rightarrow> True | Some f \<Rightarrow> fst f = ob"
  shows "threads_ok (put_sem ob p w) sl'"
    "abs_psem (put_sem ob p w) err sl' =
       \<lparr>sv_values = (sem_values w)(a \<mapsto> ps_count p), sv_errno = err, sv_sleep = abs_sleep w sl'\<rparr>"
proof -
  have pok: "psem_ok w" using ok by (simp add: threads_ok_def)
  note put = put_sem_ok [OF pok ob c]
  obtain q where q: "pw_objs w ob = Some q" "ps_guest q = a" using psem_lookup [OF pok ob(1)] by metis
  have lt: "ob < pw_next w" using pok q(1) unfolding psem_ok_def by blast
  have eq: "waiters_on sl' o' = waiters_on sl o'" if "o' \<noteq> ob" for o'
    using that t(2,3) unfolding t(1) by (auto simp: waiters_on_def split: option.splits)
  have fields: "pw_next (put_sem ob p w) = pw_next w" "pw_objs (put_sem ob p w) = (pw_objs w)(ob \<mapsto> p)"
    by (simp_all add: put_sem_def)
  have "finite (dom sl')" using ok unfolding t(1) threads_ok_def by (cases x) (simp_all add: dom_if)
  moreover have "fst f < pw_next w" if "sl' u = Some f" for u f
    using that t(3) lt sleeper_lt [OF ok] unfolding t(1) by (cases "u = t") auto
  moreover have "ps_waiters r = of_nat (card (waiters_on sl' o'))"
    if "((pw_objs w)(ob \<mapsto> p)) o' = Some r" for o' r
    using that n eq ok unfolding threads_ok_def by (cases "o' = ob") auto
  ultimately show "threads_ok (put_sem ob p w) sl'"
    using put(1) unfolding threads_ok_def fields by blast
  have "map_option ps_guest (((pw_objs w)(ob \<mapsto> p)) o') = map_option ps_guest (pw_objs w o')" for o'
    using q ob(2) by simp
  then have "abs_sleep (put_sem ob p w) sl' = abs_sleep w sl'"
    unfolding abs_sleep_def fields by presburger
  then show "abs_psem (put_sem ob p w) err sl' =
       \<lparr>sv_values = (sem_values w)(a \<mapsto> ps_count p), sv_errno = err, sv_sleep = abs_sleep w sl'\<rparr>"
    using put(2) by (simp add: abs_psem_def)
qed

section \<open>The two calls that delete objects\<close>

lemma drop_sleepers_abs:
  assumes ok: "psem_ok w" and sl: "\<And>t f. sl t = Some f \<Longrightarrow> fst f < pw_next w"
    and objs: "\<And>ob. ob < pw_next w \<Longrightarrow> pw_objs w' ob = (case pw_objs w ob of None \<Rightarrow> None
      | Some p \<Rightarrow> if ps_guest p = a then None else Some p)"
  shows "abs_sleep w' sl = drop_sleepers a (abs_sleep w sl)"
proof
  fix t
  show "abs_sleep w' sl t = drop_sleepers a (abs_sleep w sl) t"
  proof (cases "sl t")
    case (Some f)
    obtain ob x where f: "f = (ob, x)" by (cases f)
    have "ob < pw_next w" using sl [OF Some] f by simp
    from objs [OF this] Some f show ?thesis
      by (simp add: abs_sleep_def drop_sleepers_def split: option.splits)
  qed (simp add: abs_sleep_def drop_sleepers_def)
qed

lemma init_threads:
  fixes a pshared
  assumes ok: "threads_ok w sl" and v: "uint value \<le> POSIX_SEM_VALUE_MAX"
  defines "w' \<equiv> snd (SemInitImpl (Some a) pshared value w)"
  shows "threads_ok w' sl" "fst (SemInitImpl (Some a) pshared value w) = OK" "pw_errno w' = pw_errno w"
    "abs_psem w' err sl = \<lparr>sv_values = (sem_values w)(a \<mapsto> uint value), sv_errno = err,
       sv_sleep = drop_sleepers a (abs_sleep w sl)\<rparr>"
proof -
  have pok: "psem_ok w" using ok by (simp add: threads_ok_def)
  let ?p = "\<lparr>ps_guest = a, ps_count = uint value, ps_waiters = 0\<rparr>" and ?ob = "pw_next w"
  have w: "pw_sems w' = (pw_sems w)(a \<mapsto> ?ob)" "pw_next w' = Suc ?ob" "pw_errno w' = pw_errno w"
    "pw_mem w' = SyncGuest ?p (word_of_int pshared) (pw_mem w)"
    "pw_objs w' = (case pw_sems w a of None \<Rightarrow> pw_objs w | Some old \<Rightarrow> (pw_objs w)(old := None))(?ob \<mapsto> ?p)"
    using v unfolding w'_def by (cases "pw_sems w a"; simp add: SemInitImpl_def Let_def)+
  have fresh: "pw_objs w ?ob = None" using pok unfolding psem_ok_def by (metis less_irrefl not_None_eq)
  have old: "pw_objs w' o' = (if o' = ?ob then Some ?p else case pw_objs w o' of None \<Rightarrow> None
      | Some q \<Rightarrow> if ps_guest q = a then None else Some q)" for o'
  proof (cases "pw_objs w o'")
    case None
    then show ?thesis by (cases "pw_sems w a") (simp_all add: w(5))
  next
    case (Some q)
    then have "pw_sems w (ps_guest q) = Some o'" "o' < ?ob" using pok unfolding psem_ok_def by blast+
    moreover have "pw_sems w a = Some o' \<Longrightarrow> ps_guest q = a"
      using pok Some unfolding psem_ok_def by (metis option.inject)
    ultimately show ?thesis using Some by (cases "pw_sems w a") (auto simp: w(5))
  qed
  have obj: "o' = ?ob \<and> q = ?p \<or> pw_objs w o' = Some q \<and> ps_guest q \<noteq> a" if "pw_objs w' o' = Some q" for o' q
    using that by (auto simp: old split: if_splits option.splits)
  have ps: "psem_ok w'"
    unfolding psem_ok_def
  proof (intro conjI allI impI)
    fix b o' assume b: "pw_sems w' b = Some o'"
    show "\<exists>q. pw_objs w' o' = Some q \<and> ps_guest q = b"
    proof (cases "b = a")
      case False
      then obtain q where "pw_objs w o' = Some q" "ps_guest q = b" "o' < ?ob"
        using b pok unfolding w(1) psem_ok_def by (metis fun_upd_other)
      with False show ?thesis by (simp add: old)
    qed (use b in \<open>simp add: w(1) old\<close>)
  next
    fix o' q assume q: "pw_objs w' o' = Some q"
    show "pw_sems w' (ps_guest q) = Some o'" "o' < pw_next w'" "0 \<le> ps_count q" "ps_count q \<le> POSIX_SEM_VALUE_MAX"
      using obj [OF q] pok v unfolding w(1,2) psem_ok_def by (auto intro: less_SucI)
    show "mirrors q (pw_mem w' (ps_guest q))"
      using obj [OF q] pok sync_mirrors [of ?p] sync_other [of "ps_guest q" ?p] unfolding w(4) psem_ok_def by auto
  qed
  have lt: "sl t = Some f \<Longrightarrow> fst f < ?ob" for t f by (rule sleeper_lt [OF ok])
  then have "waiters_on sl ?ob = {}" by (fastforce simp: waiters_on_def)
  then have "ps_waiters q = of_nat (card (waiters_on sl o'))" if "pw_objs w' o' = Some q" for o' q
    using obj [OF that] ok unfolding threads_ok_def by auto
  then show "threads_ok w' sl" using ps ok lt unfolding threads_ok_def w(2) by (blast intro: less_SucI)
  show "fst (SemInitImpl (Some a) pshared value w) = OK" using v by (simp add: SemInitImpl_def Let_def)
  show "pw_errno w' = pw_errno w" by (rule w(3))
  have "sem_values w' b = ((sem_values w)(a \<mapsto> uint value)) b" for b
  proof (cases "b = a")
    case False
    show ?thesis
    proof (cases "pw_sems w b")
      case (Some o')
      from psem_lookup [OF pok this] obtain q where "pw_objs w o' = Some q" "ps_guest q = b" by metis
      moreover have "o' \<noteq> ?ob" using calculation(1) fresh by auto
      ultimately have "pw_objs w' o' = Some q" using False by (simp add: old)
      with \<open>pw_objs w o' = Some q\<close> Some False show ?thesis by (simp add: sem_values_def w(1))
    qed (use False in \<open>simp add: sem_values_def w(1)\<close>)
  qed (simp add: sem_values_def w(1) old)
  moreover have "abs_sleep w' sl = drop_sleepers a (abs_sleep w sl)"
    by (rule drop_sleepers_abs [OF pok lt]) (simp_all add: old)
  ultimately show "abs_psem w' err sl = \<lparr>sv_values = (sem_values w)(a \<mapsto> uint value), sv_errno = err,
       sv_sleep = drop_sleepers a (abs_sleep w sl)\<rparr>" by (auto simp: abs_psem_def)
qed

lemma destroy_threads:
  assumes ok: "threads_ok w sl" and ob: "pw_sems w a = Some ob"
  defines "w' \<equiv> snd (SemDestroyImpl (Some a) w)"
  shows "threads_ok w' sl" "fst (SemDestroyImpl (Some a) w) = OK" "pw_errno w' = pw_errno w"
    "abs_psem w' err sl = \<lparr>sv_values = (sem_values w)(a := None), sv_errno = err,
       sv_sleep = drop_sleepers a (abs_sleep w sl)\<rparr>"
proof -
  have pok: "psem_ok w" using ok by (simp add: threads_ok_def)
  have w: "pw_sems w' = (pw_sems w)(a := None)" "pw_objs w' = (pw_objs w)(ob := None)" "pw_next w' = pw_next w"
    "pw_errno w' = pw_errno w" "b \<noteq> a \<Longrightarrow> pw_mem w' b = pw_mem w b" for b
    using ob unfolding w'_def by (simp_all add: SemDestroyImpl_def)
  have guest: "pw_objs w o' = Some q \<Longrightarrow> ps_guest q = a \<longleftrightarrow> o' = ob" for o' q
    using pok ob unfolding psem_ok_def by (metis option.inject)
  have other: "b \<noteq> a \<Longrightarrow> pw_sems w b = Some o' \<Longrightarrow> o' \<noteq> ob" for b o'
    using pok ob unfolding psem_ok_def by (metis option.inject)
  have "psem_ok w'" using pok guest other unfolding psem_ok_def w(1-3) by (auto simp: w(5))
  then show "threads_ok w' sl" using ok unfolding threads_ok_def w(2,3) by (auto split: if_splits)
  show "fst (SemDestroyImpl (Some a) w) = OK" using ob by (simp add: SemDestroyImpl_def)
  show "pw_errno w' = pw_errno w" by (rule w(4))
  have "sem_values w' b = ((sem_values w)(a := None)) b" for b
    using other by (cases "pw_sems w b") (auto simp: sem_values_def w)
  moreover have "abs_sleep w' sl = drop_sleepers a (abs_sleep w sl)"
    by (rule drop_sleepers_abs [OF pok sleeper_lt [OF ok]]) (use guest in \<open>auto simp: w(2) split: option.splits\<close>)
  ultimately show "abs_psem w' err sl = \<lparr>sv_values = (sem_values w)(a := None), sv_errno = err,
       sv_sleep = drop_sleepers a (abs_sleep w sl)\<rparr>" by (auto simp: abs_psem_def)
qed

section \<open>Each call does what the specification says\<close>

text \<open>The code of a call, as the two kinds of calls return it.\<close>

definition code_result :: "sem_api \<Rightarrow> int \<times> psem_world \<Rightarrow> int \<times> psem_world" where
  "code_result api rw = (case api of Posix \<Rightarrow> posix_ret rw | Kernel \<Rightarrow> (kernel_ret (fst rw), snd rw))"

lemma code_result_simps:
  "code_result Posix = posix_ret" "code_result Kernel = (\<lambda>(r, w). (kernel_ret r, w))"
  by (auto simp: code_result_def)

text \<open>A reply and the state after it, as the specification has them.\<close>

definition as_specified :: "'r \<times> psem_sys \<Rightarrow> 'r \<times> psem_spec \<Rightarrow> bool" where
  "as_specified ry sp \<longleftrightarrow> sys_ok (snd ry) \<and> sp = (fst ry, abs_sys (snd ry))"

definition agrees :: "nat \<Rightarrow> sem_api \<Rightarrow> psem_sys \<Rightarrow> (psem_wait \<times> int option) \<times> psem_world \<Rightarrow> psem_reply \<times> psem_spec \<Rightarrow> bool" where
  "agrees t k y rw sp \<longleftrightarrow> as_specified (psem_done t k y rw) sp"

text \<open>Two outcomes of the same kind, with related results.\<close>

fun both :: "('a \<Rightarrow> 'b \<Rightarrow> bool) \<Rightarrow> 'a outcome \<Rightarrow> 'b outcome \<Rightarrow> bool" where
  "both R (Ret x) (Ret y) \<longleftrightarrow> R x y"
| "both R Undef Undef \<longleftrightarrow> True"
| "both R _ _ \<longleftrightarrow> False"

lemma both_omap1 [simp]: "both R (omap f m) n = both (\<lambda>x. R (f x)) m n"
  by (cases m; cases n; simp)

lemma both_omap2 [simp]: "both R m (omap g n) = both (\<lambda>x y. R x (g y)) m n"
  by (cases m; cases n; simp)

lemma agrees_woken:
  "threads_ok w' ((sy_sleep y)(t := None)) \<Longrightarrow>
   agrees t k y ((Woken r, v), w')
     (Returns r v, abs_psem w' ((sy_errno y)(t := pw_errno w')) ((sy_sleep y)(t := None)))"
  by (simp add: agrees_def as_specified_def psem_done_def sys_ok_def abs_sys_def)

lemma agrees_asleep:
  "threads_ok w' ((sy_sleep y)(t \<mapsto> (ob, m, k))) \<Longrightarrow>
   agrees t k y ((Asleep ob m, v), w')
     (Sleeps, abs_psem w' ((sy_errno y)(t := pw_errno w')) ((sy_sleep y)(t \<mapsto> (ob, m, k))))"
  by (simp add: agrees_def as_specified_def psem_done_def sys_ok_def abs_sys_def)

lemma agrees_code:
  assumes ok: "threads_ok w' ((sy_sleep y)(t := None))" "pw_errno w' = sy_errno y t"
    and s': "abs_psem w' (sy_errno y) ((sy_sleep y)(t := None)) = s'" and r: "0 \<le> r" "r \<le> 102"
  shows "agrees t k y (returns (code_result api (r, w')))
    (if r = OK then (Returns 0 None, s') else spec_fail api t r s')"
proof (cases "r = OK")
  case True
  have "agrees t k y ((Woken OK, None), w') (Returns OK None, s')"
    using agrees_woken [OF ok(1), of k OK None] ok(2) s' by simp
  then show ?thesis using True
    by (cases api) (simp_all add: returns_def code_result_simps posix_ret_def kernel_ret_def error_codes)
next
  case False
  show ?thesis
  proof (cases api)
    case Posix
    have "abs_psem w' ((sy_errno y)(t := r)) ((sy_sleep y)(t := None)) = s'\<lparr>sv_errno := (sv_errno s')(t := r)\<rparr>"
      using s' by (auto simp: abs_psem_def)
    with Posix False agrees_woken [of "w'\<lparr>pw_errno := r\<rparr>" y t k "-1" None] ok(1) show ?thesis
      by (simp add: returns_def code_result_simps posix_ret_def SetErrnoReturn_def spec_fail_def)
  next
    case Kernel
    with False agrees_woken [OF ok(1), of k "PosixToKernel r" None] ok(2) s' r show ?thesis
      by (simp add: returns_def code_result_simps kernel_ret_def spec_fail_def PosixToKernel_def)
  qed
qed

lemma waits_api: "waits (api_result api (Woken r, w)) = returns (code_result api (r, w))"
  "waits (api_result api (Asleep ob m, w)) = ((Asleep ob m, None), w)"
  by (cases api; simp add: waits_def returns_def api_result_def code_result_simps wait_result_def
      kernel_wait_result_def Let_def split: prod.split)+

lemma put_errno: "pw_errno (put_sem ob p w) = pw_errno w"
  by (simp add: put_sem_def)

text \<open>The three results of a turn of the waiting loop, for a thread that sleeps or not.\<close>

lemma turn_agrees:
  assumes ok: "threads_ok w sl" "sl = sy_sleep y" "pw_errno w = sy_errno y t"
    and ob: "pw_sems w a = Some ob" "pw_objs w ob = Some q"
    and n: "n = of_nat (card (waiters_on (sl(t := None)) ob))" and f: "case sl t of None \<Rightarrow> True | Some f \<Rightarrow> fst f = ob"
  shows "agrees t api y (waits (api_result api (PosixSem_Wait_turn ob (q\<lparr>ps_waiters := n\<rparr>) m e w)))
    (spec_turn api t a (ps_count q) m e (abs_psem w (sy_errno y) sl))"
proof -
  have pok: "psem_ok w" using ok(1) by (simp add: threads_ok_def)
  from psem_lookup [OF pok ob(1)] ob(2) have q: "ps_guest q = a" "0 \<le> ps_count q" "ps_count q \<le> POSIX_SEM_VALUE_MAX"
    "sem_values w a = Some (ps_count q)" by auto
  have same: "(sem_values w)(a \<mapsto> ps_count q) = sem_values w" using q(4) by (simp add: fun_upd_idem)
  note put1 = put_threads(1) [OF ok(1) ob(1) _ _ _ _ _ f]
  note put2 = put_threads(2) [OF ok(1) ob(1) _ _ _ _ _ f]
  show ?thesis
  proof (cases "ps_count q > 0")
    case True
    let ?p = "q\<lparr>ps_waiters := n, ps_count := ps_count q - 1\<rparr>"
    have "threads_ok (put_sem ob ?p w) (sl(t := None))"
      "abs_psem (put_sem ob ?p w) (sy_errno y) (sl(t := None)) =
        \<lparr>sv_values = (sem_values w)(a \<mapsto> ps_count q - 1), sv_errno = sy_errno y, sv_sleep = abs_sleep w (sl(t := None))\<rparr>"
      using put1 [of ?p "sl(t := None)" None] put2 [of ?p "sl(t := None)" None "sy_errno y"] q True n by simp_all
    from agrees_code [OF this(1) [unfolded ok(2)] _ this(2) [unfolded ok(2)], of OK api api] True ok(2,3)
    show ?thesis
      by (simp add: PosixSem_Wait_turn_def waits_api put_errno spec_turn_def spec_put_def abs_psem_def
          abs_sleep_upd error_codes)
  next
    case False
    then have z: "\<not> 0 < ps_count q" by simp
    show ?thesis
    proof (cases "case m of None \<Rightarrow> False | Some k \<Rightarrow> k \<le> e")
      case True
      let ?p = "q\<lparr>ps_waiters := n\<rparr>"
      have "threads_ok (put_sem ob ?p w) (sl(t := None))"
        "abs_psem (put_sem ob ?p w) (sy_errno y) (sl(t := None)) =
          \<lparr>sv_values = sem_values w, sv_errno = sy_errno y, sv_sleep = abs_sleep w (sl(t := None))\<rparr>"
        using put1 [of ?p "sl(t := None)" None] put2 [of ?p "sl(t := None)" None "sy_errno y"] q n same by simp_all
      from agrees_code [OF this(1) [unfolded ok(2)] _ this(2) [unfolded ok(2)], of POSIX_ETIMEDOUT api api]
        True z ok(2,3) show ?thesis
        by (simp add: PosixSem_Wait_turn_def waits_api put_errno spec_turn_def abs_psem_def
            abs_sleep_upd error_codes)
    next
      case no: False
      let ?p = "q\<lparr>ps_waiters := n + 1\<rparr>" and ?sl = "sl(t \<mapsto> (ob, m, api))"
      have fin: "finite (dom sl)" using ok(1) by (simp add: threads_ok_def)
      have "threads_ok (put_sem ob ?p w) ?sl"
        "abs_psem (put_sem ob ?p w) (sy_errno y) ?sl =
          \<lparr>sv_values = sem_values w, sv_errno = sy_errno y, sv_sleep = abs_sleep w ?sl\<rparr>"
        using put1 [of ?p ?sl "Some (ob, m, api)"] put2 [of ?p ?sl "Some (ob, m, api)" "sy_errno y"] q n same waiters_sleep [OF fin] by simp_all
      with agrees_asleep [of "put_sem ob ?p w" y t ob m api None] no z ok(2,3) ob(2) q(1) show ?thesis
        by (simp add: PosixSem_Wait_turn_def waits_api put_errno spec_turn_def abs_psem_def abs_sleep_upd)
    qed
  qed
qed

section \<open>Every call\<close>

text \<open>What is known at a call of a thread that does not sleep.\<close>

definition calling :: "nat \<Rightarrow> psem_sys \<Rightarrow> psem_world \<Rightarrow> bool" where
  "calling t y w \<longleftrightarrow> threads_ok w (sy_sleep y) \<and> sy_sleep y t = None \<and> pw_errno w = sy_errno y t \<and>
     abs_psem w (sy_errno y) (sy_sleep y) = abs_sys y"

lemma calling_code:
  assumes c: "calling t y w" and r: "0 < r" "r \<le> 102"
  shows "agrees t k y (returns (code_result api (r, w))) (spec_fail api t r (abs_sys y))"
  using agrees_code [of w y t "abs_sys y" r k api] c r by (simp add: calling_def fun_upd_idem error_codes)

lemma lookup_rel:
  assumes "psem_ok w" "sv_values s = sem_values w"
  shows "case spec_lookup sem s of None \<Rightarrow> GetSem sem w = None
    | Some (a, v) \<Rightarrow> sem = Some a \<and> sem_values w a = Some v \<and>
        (\<exists>ob p. GetSem sem w = Some ob \<and> pw_sems w a = Some ob \<and> pw_objs w ob = Some p \<and> ps_guest p = a \<and>
          ps_count p = v \<and> 0 \<le> v \<and> v \<le> POSIX_SEM_VALUE_MAX)"
proof (cases sem)
  case None
  then show ?thesis by (simp add: spec_lookup_def GetSem_def)
next
  case (Some a)
  show ?thesis
  proof (cases "pw_sems w a")
    case None
    then have "sv_values s a = None" using assms(2) by (simp add: sem_values_def)
    with Some None show ?thesis by (simp add: spec_lookup_def GetSem_def)
  next
    case ob: (Some ob)
    from psem_lookup [OF assms(1) ob] obtain p where "pw_objs w ob = Some p" "ps_guest p = a" "0 \<le> ps_count p"
      "ps_count p \<le> POSIX_SEM_VALUE_MAX" "sem_values w a = Some (ps_count p)" by metis
    with Some ob assms(2) show ?thesis by (simp add: spec_lookup_def GetSem_def)
  qed
qed

lemma calling_cases [consumes 1, case_names missing found]:
  assumes "calling t y w"
  obtains (missing) "spec_lookup sem (abs_sys y) = None" "GetSem sem w = None"
  | (found) a ob p where "spec_lookup sem (abs_sys y) = Some (a, ps_count p)" "GetSem sem w = Some ob" "sem = Some a"
      "pw_sems w a = Some ob" "pw_objs w ob = Some p" "ps_guest p = a" "0 \<le> ps_count p"
      "ps_count p \<le> POSIX_SEM_VALUE_MAX" "sem_values w a = Some (ps_count p)"
      "ps_waiters p = of_nat (card (waiters_on (sy_sleep y) ob))"
proof -
  have w: "psem_ok w" "sv_values (abs_sys y) = sem_values w"
    using assms by (auto simp: calling_def threads_ok_def abs_psem_def dest: sym)
  have cnt: "pw_objs w ob = Some p \<Longrightarrow> ps_waiters p = of_nat (card (waiters_on (sy_sleep y) ob))" for ob p
    using assms by (simp add: calling_def threads_ok_def)
  show ?thesis
  proof (cases "spec_lookup sem (abs_sys y)")
    case None
    then show ?thesis using lookup_rel [OF w, of sem] missing by simp
  next
    case (Some av)
    obtain a v where av: "av = (a, v)" by (cases av)
    with Some lookup_rel [OF w, of sem] obtain ob p where "GetSem sem w = Some ob" "sem = Some a" "pw_sems w a = Some ob"
      "pw_objs w ob = Some p" "ps_guest p = a" "ps_count p = v" "0 \<le> v" "v \<le> POSIX_SEM_VALUE_MAX"
      "sem_values w a = Some v" by auto
    with found [of a p ob] Some av cnt show ?thesis by simp
  qed
qed

text \<open>Storing a new value of the object that was found.\<close>

lemma calling_put:
  assumes c: "calling t y w" and ob: "pw_sems w a = Some ob" "pw_objs w ob = Some p" "ps_guest p = a"
    and v: "0 \<le> v" "v \<le> POSIX_SEM_VALUE_MAX"
  shows "agrees t k y (returns (code_result api (OK, put_sem ob (p\<lparr>ps_count := v\<rparr>) w))) (spec_put a v (abs_sys y))"
    "v = ps_count p \<Longrightarrow> sem_values w a = Some v \<Longrightarrow> calling t y (put_sem ob p w)"
proof -
  have w: "threads_ok w (sy_sleep y)" "sy_sleep y t = None" "pw_errno w = sy_errno y t"
    "abs_psem w (sy_errno y) (sy_sleep y) = abs_sys y" using c by (simp_all add: calling_def)
  have cnt: "ps_waiters p = of_nat (card (waiters_on (sy_sleep y) ob))"
    using w(1) ob(2) by (simp add: threads_ok_def)
  have put: "threads_ok (put_sem ob (p\<lparr>ps_count := u\<rparr>) w) (sy_sleep y)"
    "abs_psem (put_sem ob (p\<lparr>ps_count := u\<rparr>) w) (sy_errno y) (sy_sleep y) =
      (abs_sys y)\<lparr>sv_values := (sv_values (abs_sys y))(a \<mapsto> u)\<rparr>" if "0 \<le> u" "u \<le> POSIX_SEM_VALUE_MAX" for u
    using put_threads(1) [OF w(1) ob(1), of "p\<lparr>ps_count := u\<rparr>" "sy_sleep y" t None]
      put_threads(2) [OF w(1) ob(1), of "p\<lparr>ps_count := u\<rparr>" "sy_sleep y" t None "sy_errno y"] ob(3) that cnt w(2)
    unfolding w(4) [symmetric] by (simp_all add: fun_upd_idem abs_psem_def)
  show "agrees t k y (returns (code_result api (OK, put_sem ob (p\<lparr>ps_count := v\<rparr>) w))) (spec_put a v (abs_sys y))"
    using agrees_code [OF _ _ _, of "put_sem ob (p\<lparr>ps_count := v\<rparr>) w" y t _ OK k api] put [OF v] w(2,3)
    by (simp add: fun_upd_idem put_errno spec_put_def error_codes)
  show "calling t y (put_sem ob p w)" if "v = ps_count p" "sem_values w a = Some v"
  proof -
    have "(sv_values (abs_sys y))(a \<mapsto> v) = sv_values (abs_sys y)"
      using that(2) unfolding w(4) [symmetric] by (simp add: abs_psem_def fun_upd_idem)
    then show ?thesis using put [OF v] that(1) w(2,3) by (simp add: calling_def put_errno)
  qed
qed

lemma init_call:
  assumes c: "calling t y w"
  shows "agrees t k y (returns (code_result api (SemInitImpl sem ps v w)))
    (case sem of None \<Rightarrow> spec_fail api t POSIX_EINVAL (abs_sys y)
      | Some a \<Rightarrow> if uint v > POSIX_SEM_VALUE_MAX then spec_fail api t POSIX_EINVAL (abs_sys y)
          else spec_put a (uint v) ((abs_sys y)\<lparr>sv_sleep := drop_sleepers a (sv_sleep (abs_sys y))\<rparr>))"
proof (cases sem)
  case None
  then show ?thesis using calling_code [OF c, of POSIX_EINVAL k api] by (simp add: SemInitImpl_def error_codes)
next
  case (Some a)
  show ?thesis
  proof (cases "uint v > POSIX_SEM_VALUE_MAX")
    case True
    then show ?thesis using Some calling_code [OF c, of POSIX_EINVAL k api] by (simp add: SemInitImpl_def error_codes)
  next
    case False
    then have v: "uint v \<le> POSIX_SEM_VALUE_MAX" by simp
    have w: "threads_ok w (sy_sleep y)" "sy_sleep y t = None" "pw_errno w = sy_errno y t"
      "abs_sys y = abs_psem w (sy_errno y) (sy_sleep y)" using c by (simp_all add: calling_def)
    obtain r w1 where pair: "SemInitImpl (Some a) ps v w = (r, w1)" by fastforce
    have i: "threads_ok w1 (sy_sleep y)" "pw_errno w1 = sy_errno y t" "r = OK"
      "abs_psem w1 (sy_errno y) (sy_sleep y) = \<lparr>sv_values = (sem_values w)(a \<mapsto> uint v), sv_errno = sy_errno y,
        sv_sleep = drop_sleepers a (abs_sleep w (sy_sleep y))\<rparr>"
      using init_threads [OF w(1) v, of a ps] w(3) unfolding pair by simp_all
    have "agrees t k y (returns (code_result api (OK, w1)))
        (Returns 0 None, abs_psem w1 (sy_errno y) (sy_sleep y))"
      using agrees_code [of w1 y t _ OK k api] i(1,2) w(2) by (simp add: fun_upd_idem error_codes)
    then show ?thesis unfolding Some pair i(3,4) using False by (simp add: w(4) spec_put_def abs_psem_def)
  qed
qed

lemma destroy_call:
  assumes c: "calling t y w"
  shows "agrees t k y (returns (code_result api (SemDestroyImpl sem w)))
    (case spec_lookup sem (abs_sys y) of None \<Rightarrow> spec_fail api t POSIX_EINVAL (abs_sys y)
      | Some (a, v) \<Rightarrow> (Returns 0 None, (abs_sys y)\<lparr>sv_values := (sv_values (abs_sys y))(a := None),
          sv_sleep := drop_sleepers a (sv_sleep (abs_sys y))\<rparr>))"
  using c
proof (cases rule: calling_cases [where sem = sem])
  case missing
  then have "SemDestroyImpl sem w = (POSIX_EINVAL, w)"
    by (cases sem) (simp_all add: SemDestroyImpl_def GetSem_def)
  with missing calling_code [OF c, of POSIX_EINVAL k api] show ?thesis by (simp add: error_codes)
next
  case (found a ob p)
  have w: "threads_ok w (sy_sleep y)" "sy_sleep y t = None" "pw_errno w = sy_errno y t"
    "abs_sys y = abs_psem w (sy_errno y) (sy_sleep y)" using c by (simp_all add: calling_def)
  obtain r w1 where pair: "SemDestroyImpl (Some a) w = (r, w1)" by fastforce
  have i: "threads_ok w1 (sy_sleep y)" "pw_errno w1 = sy_errno y t" "r = OK"
    "abs_psem w1 (sy_errno y) (sy_sleep y) = \<lparr>sv_values = (sem_values w)(a := None), sv_errno = sy_errno y,
        sv_sleep = drop_sleepers a (abs_sleep w (sy_sleep y))\<rparr>"
    using destroy_threads [OF w(1) found(4)] w(3) unfolding pair by simp_all
  have "agrees t k y (returns (code_result api (OK, w1))) (Returns 0 None, abs_psem w1 (sy_errno y) (sy_sleep y))"
    using agrees_code [of w1 y t _ OK k api] i(1,2) w(2) by (simp add: fun_upd_idem error_codes)
  then show ?thesis unfolding found(3) pair i(3,4) using found(1,3) by (simp add: w(4) abs_psem_def)
qed

lemma wait_call:
  assumes c: "calling t y w"
  shows "both (agrees t api y) (omap waits (omap (api_result api) (SemTimedwaitImpl sem m w)))
    (Ret (spec_wait api t sem m (abs_sys y)))"
  using c
proof (cases rule: calling_cases [where sem = sem])
  case missing
  with calling_code [OF c, of POSIX_EINVAL api api] show ?thesis
    by (simp add: SemTimedwaitImpl_def waits_api spec_wait_def error_codes)
next
  case (found a ob p)
  have w: "threads_ok w (sy_sleep y)" "sy_sleep y t = None" "pw_errno w = sy_errno y t"
    "abs_psem w (sy_errno y) (sy_sleep y) = abs_sys y" using c by (simp_all add: calling_def)
  have same: "p\<lparr>ps_waiters := ps_waiters p\<rparr> = p" by simp
  have n: "ps_waiters p = of_nat (card (waiters_on ((sy_sleep y)(t := None)) ob))"
    using found(10) w(2) by (simp add: fun_upd_idem)
  have "agrees t api y (waits (api_result api (PosixSem_Wait_turn ob p m 0 w)))
      (spec_turn api t a (ps_count p) m 0 (abs_sys y))"
    using turn_agrees [OF w(1) refl w(3) found(4,5) n, of api m 0] w(2) unfolding w(4) same by simp
  then show ?thesis using found by (simp add: SemTimedwaitImpl_def PosixSem_Wait_def spec_wait_def)
qed

lemma wait_calls:
  "psem_do (SWait api sem) w = omap waits (omap (api_result api) (SemTimedwaitImpl sem None w))"
  "psem_do (SRelTimedwait api sem usec) w = omap waits (omap (api_result api) (SemTimedwaitImpl sem (Some (unat usec)) w))"
  by (cases api; simp add: api_result_def sem_wait_def PthreadSemWait_def sem_reltimedwait_np_def PthreadSemTimedwait_def)+

lemma timedwait_call:
  assumes c: "calling t y w"
  shows "both (agrees t Posix y) (psem_do (STimedwait sem abstime now) w) (spec_do t (STimedwait sem abstime now) (abs_sys y))"
proof (cases "AbsTimespecToMicros abstime now")
  case (Ret x)
  show ?thesis
  proof (cases x)
    case None
    with Ret calling_code [OF c, of POSIX_EINVAL Posix Posix] show ?thesis
      by (simp add: sem_timedwait_def SetErrnoReturn_def waits_def returns_def code_result_simps posix_ret_def error_codes)
  next
    case (Some micros)
    with Ret wait_call [OF c, of Posix sem x] show ?thesis by (simp add: sem_timedwait_def api_result_def)
  qed
qed (auto simp: AbsTimespecToMicros_def Let_def sem_timedwait_def split: option.splits if_splits)

lemma EINVAL_result:
  "code_result Posix (POSIX_EINVAL, w) = SetErrnoReturn POSIX_EINVAL w"
  "code_result Kernel (POSIX_EINVAL, w) = (KERNEL_ERROR_EINVAL, w)"
  by (simp_all add: code_result_simps posix_ret_def kernel_ret_def PosixToKernel_def error_codes)

lemma object_calls:
  "psem_do (STryWait api sem) w = omap returns (case GetSem sem w of None \<Rightarrow> Ret (code_result api (POSIX_EINVAL, w))
     | Some obj \<Rightarrow> omap (code_result api) (PosixSem_TryWait obj w))"
  "psem_do (SPost api sem) w = omap returns (case GetSem sem w of None \<Rightarrow> Ret (code_result api (POSIX_EINVAL, w))
     | Some obj \<Rightarrow> omap (code_result api) (PosixSem_Post obj w))"
proof -
  show "psem_do (STryWait api sem) w = omap returns (case GetSem sem w of None \<Rightarrow> Ret (code_result api (POSIX_EINVAL, w))
     | Some obj \<Rightarrow> omap (code_result api) (PosixSem_TryWait obj w))"
    by (cases api) (simp_all only: psem_do.simps EINVAL_result sem_trywait_def PthreadSemTrywait_def, simp_all only: code_result_simps)
  show "psem_do (SPost api sem) w = omap returns (case GetSem sem w of None \<Rightarrow> Ret (code_result api (POSIX_EINVAL, w))
     | Some obj \<Rightarrow> omap (code_result api) (PosixSem_Post obj w))"
    by (cases api) (simp_all only: psem_do.simps EINVAL_result sem_post_def PthreadSemPost_def, simp_all only: code_result_simps)
qed

lemma registry_calls:
  "psem_do (SDestroy api sem) w = Ret (returns (code_result api (SemDestroyImpl sem w)))"
  "psem_do (SInit Posix sem ps v) w = Ret (returns (code_result Posix (SemInitImpl sem ps v w)))"
  "psem_do (SInit Kernel sem ps v) w = Ret (returns (code_result Kernel
     (if ps \<noteq> 0 then (POSIX_EINVAL, w) else SemInitImpl sem 0 v w)))"
proof -
  show "psem_do (SDestroy api sem) w = Ret (returns (code_result api (SemDestroyImpl sem w)))"
    by (cases api) (simp_all only: psem_do.simps sem_destroy_def PthreadSemDestroy_def code_result_simps Let_def)
  show "psem_do (SInit Posix sem ps v) w = Ret (returns (code_result Posix (SemInitImpl sem ps v w)))"
    by (simp only: psem_do.simps sem_init_def code_result_simps)
  show "psem_do (SInit Kernel sem ps v) w = Ret (returns (code_result Kernel
     (if ps \<noteq> 0 then (POSIX_EINVAL, w) else SemInitImpl sem 0 v w)))"
    by (cases "ps = 0") (simp_all only: psem_do.simps PthreadSemInit_def EINVAL_result code_result_simps(2)
        Let_def if_True if_False simp_thms, simp_all add: EINVAL_result code_result_simps [symmetric])
qed

lemma call_agrees:
  assumes c: "calling t y w"
  shows "both (agrees t (call_api call) y) (psem_do call w) (spec_do t call (abs_sys y))"
proof (cases call)
  case (SInit api sem ps v)
  show ?thesis
  proof (cases api)
    case Posix
    with SInit init_call [OF c, of Posix Posix sem ps v] show ?thesis
      by (simp only: registry_calls spec_do.simps both.simps call_api.simps) (simp cong: option.case_cong)
  next
    case Kernel
    show ?thesis
    proof (cases "ps = 0")
      case True
      with SInit Kernel init_call [OF c, of Posix Kernel sem 0 v] show ?thesis
        by (simp only: registry_calls spec_do.simps both.simps call_api.simps) (simp cong: option.case_cong)
    next
      case False
      with SInit Kernel calling_code [OF c, of POSIX_EINVAL Posix Kernel] show ?thesis
        by (simp only: registry_calls spec_do.simps both.simps call_api.simps) (simp add: error_codes split: option.split)
    qed
  qed
next
  case (SDestroy api sem)
  with destroy_call [OF c, of Posix api sem] show ?thesis by (simp add: registry_calls del: psem_do.simps)
next
  case (SWait api sem)
  with wait_call [OF c, of api sem None] show ?thesis by (simp only: wait_calls spec_do.simps call_api.simps)
next
  case (SRelTimedwait api sem usec)
  with wait_call [OF c, of api sem "Some (unat usec)"] show ?thesis
    by (simp only: wait_calls spec_do.simps call_api.simps)
next
  case (STimedwait sem abstime now)
  with timedwait_call [OF c] show ?thesis by (simp only: call_api.simps)
next
  case (STryWait api sem)
  show ?thesis
    using c
  proof (cases rule: calling_cases [where sem = sem])
    case missing
    with STryWait calling_code [OF c, of POSIX_EINVAL Posix api] show ?thesis
      by (simp add: object_calls error_codes del: psem_do.simps)
  next
    case (found a ob p)
    note put = calling_put [OF c found(4,5,6)]
    show ?thesis
    proof (cases "ps_count p > 0")
      case True
      with found put(1) [of "ps_count p - 1" Posix api] STryWait show ?thesis
        by (simp add: object_calls PosixSem_TryWait_def del: psem_do.simps)
    next
      case False
      have "calling t y (put_sem ob p w)" using put(2) [of "ps_count p"] found by simp
      from calling_code [OF this, of POSIX_EAGAIN Posix api] found False STryWait show ?thesis
        by (simp add: object_calls PosixSem_TryWait_def error_codes del: psem_do.simps)
    qed
  qed
next
  case (SPost api sem)
  show ?thesis
    using c
  proof (cases rule: calling_cases [where sem = sem])
    case missing
    with SPost calling_code [OF c, of POSIX_EINVAL Posix api] show ?thesis
      by (simp add: object_calls error_codes del: psem_do.simps)
  next
    case (found a ob p)
    show ?thesis
    proof (cases "ps_count p = POSIX_SEM_VALUE_MAX")
      case True
      with found calling_code [OF c, of POSIX_EOVERFLOW Posix api] SPost show ?thesis
        by (simp add: object_calls PosixSem_Post_def error_codes del: psem_do.simps)
    next
      case False
      with found calling_put(1) [OF c found(4,5,6), of "ps_count p + 1" Posix api] SPost show ?thesis
        by (simp add: object_calls PosixSem_Post_def del: psem_do.simps)
    qed
  qed
next
  case (SGetValue api sem null)
  have w: "threads_ok w ((sy_sleep y)(t := None))"
    "abs_psem w ((sy_errno y)(t := pw_errno w)) ((sy_sleep y)(t := None)) = abs_sys y"
    using c by (simp_all add: calling_def fun_upd_idem)
  have gives: "agrees t Posix y ((Woken 0, Some v), w) (Returns 0 (Some v), abs_sys y)" for v
    using agrees_woken [OF w(1), of Posix 0 "Some v"] w(2) by simp
  have fail: "agrees t Posix y ((Woken (fst (code_result api (POSIX_EINVAL, w))), None), snd (code_result api (POSIX_EINVAL, w)))
      (spec_fail api t POSIX_EINVAL (abs_sys y))"
    using calling_code [OF c, of POSIX_EINVAL Posix api] by (simp add: returns_def error_codes)
  show ?thesis
    using c
  proof (cases rule: calling_cases [where sem = sem])
    case missing
    with SGetValue fail show ?thesis
      by (cases api) (simp_all add: sem_getvalue_def PthreadSemGetvalue_def SetErrnoReturn_def code_result_simps
          posix_ret_def kernel_ret_def PosixToKernel_def error_codes)
  next
    case (found a ob p)
    with SGetValue fail gives show ?thesis
      by (cases api; cases null) (simp_all add: sem_getvalue_def PthreadSemGetvalue_def SetErrnoReturn_def code_result_simps
          posix_ret_def kernel_ret_def PosixToKernel_def PosixSem_GetValue_def error_codes)
  qed
qed

text \<open>A thread wakes on the object in its frame: the one of its address, or one that was deleted.\<close>

lemma wake_agrees:
  assumes ok: "sys_ok y" and f: "sy_sleep y t = Some (ob, m, api)"
  shows "both (\<lambda>rw. agrees t api y (waits (api_result api rw))) (PosixSem_Wait_wake ob m usecs (world_of t y))
    (spec_exec (PWake t usecs) (abs_sys y))"
proof -
  let ?w = "world_of t y"
  have w: "threads_ok ?w (sy_sleep y)" "pw_errno ?w = sy_errno y t"
    "abs_psem ?w (sy_errno y) (sy_sleep y) = abs_sys y" "pw_objs ?w = pw_objs (sy_world y)"
    using ok by (simp_all add: world_of_def sys_ok_def abs_sys_def)
  have pok: "psem_ok ?w" using w(1) by (simp add: threads_ok_def)
  have sl: "sv_sleep (abs_sys y) t = Some (map_option ps_guest (pw_objs ?w ob), m, api)"
    using f w(4) by (simp add: abs_sys_def abs_psem_def abs_sleep_def)
  show ?thesis
  proof (cases "pw_objs ?w ob")
    case None
    then show ?thesis using sl by (simp add: PosixSem_Wait_wake_def spec_exec_def)
  next
    case (Some p)
    let ?a = "ps_guest p"
    have reg: "pw_sems ?w ?a = Some ob" using pok Some unfolding psem_ok_def by blast
    have v: "sv_values (abs_sys y) ?a = Some (ps_count p)"
      using reg Some unfolding w(3) [symmetric] by (simp add: abs_psem_def sem_values_def)
    have fin: "finite (dom (sy_sleep y))" using w(1) by (simp add: threads_ok_def)
    have "ps_waiters p = of_nat (card (waiters_on (sy_sleep y) ob))" using w(1) Some by (simp add: threads_ok_def)
    moreover have "sy_sleep y = (sy_sleep y)(t \<mapsto> (ob, m, api))" using f by (simp add: fun_upd_idem)
    ultimately have "ps_waiters p = of_nat (card (waiters_on ((sy_sleep y)(t := None)) ob)) + 1"
      using waiters_sleep [OF fin, of t ob "(m, api)"] by simp
    then have n: "ps_waiters p - 1 = of_nat (card (waiters_on ((sy_sleep y)(t := None)) ob))" by simp
    from turn_agrees [OF w(1) refl w(2) reg Some n, of api m usecs] f w(3)
    have "agrees t api y (waits (api_result api (PosixSem_Wait_turn ob (p\<lparr>ps_waiters := ps_waiters p - 1\<rparr>) m usecs ?w)))
        (spec_turn api t ?a (ps_count p) m usecs (abs_sys y))" by simp
    then show ?thesis using sl v Some by (simp add: PosixSem_Wait_wake_def spec_exec_def to_micros_def)
  qed
qed

lemma psem_exec_agrees:
  assumes ok: "sys_ok y"
  shows "both as_specified (psem_exec c y) (spec_exec c (abs_sys y))"
proof (cases c)
  case (PCall t call)
  have none: "sv_sleep (abs_sys y) t = None \<longleftrightarrow> sy_sleep y t = None"
    by (simp add: abs_sys_def abs_psem_def abs_sleep_def)
  show ?thesis
  proof (cases "sy_sleep y t = None")
    case True
    have "calling t y (world_of t y)"
      using ok True by (simp add: calling_def world_of_def sys_ok_def abs_sys_def)
    from call_agrees [OF this, of call] True none PCall show ?thesis
      by (simp add: psem_exec_def spec_exec_def agrees_def [abs_def])
  qed (use PCall ok none in \<open>simp add: psem_exec_def spec_exec_def as_specified_def\<close>)
next
  case (PWake t usecs)
  show ?thesis
  proof (cases "sy_sleep y t")
    case None
    then have "sv_sleep (abs_sys y) t = None" by (simp add: abs_sys_def abs_psem_def abs_sleep_def)
    with None PWake ok show ?thesis by (simp add: psem_exec_def spec_exec_def as_specified_def)
  next
    case (Some f)
    obtain ob m api where f: "f = (ob, m, api)" by (cases f)
    from wake_agrees [OF ok Some [unfolded f], of usecs] Some f PWake show ?thesis
      by (simp add: psem_exec_def agrees_def [abs_def])
  qed
qed

section \<open>Histories\<close>

fun psem_run :: "psem_op list \<Rightarrow> psem_sys \<Rightarrow> (psem_reply list \<times> psem_sys) outcome" where
  "psem_run [] y = Ret ([], y)"
| "psem_run (c # cs) y =
     obind (psem_exec c y) (\<lambda>(r, y). omap (\<lambda>(rs, y). (r # rs, y)) (psem_run cs y))"

fun spec_run :: "psem_op list \<Rightarrow> psem_spec \<Rightarrow> (psem_reply list \<times> psem_spec) outcome" where
  "spec_run [] s = Ret ([], s)"
| "spec_run (c # cs) s =
     obind (spec_exec c s) (\<lambda>(r, s). omap (\<lambda>(rs, s). (r # rs, s)) (spec_run cs s))"

lemma psem_run_agrees:
  "sys_ok y \<Longrightarrow> both as_specified (psem_run cs y) (spec_run cs (abs_sys y))"
proof (induction cs arbitrary: y)
  case (Cons c cs)
  note e = psem_exec_agrees [OF Cons.prems, of c]
  show ?case
  proof (cases "psem_exec c y")
    case (Ret x)
    obtain r y1 where x: "x = (r, y1)" by (cases x)
    with e Ret have s: "sys_ok y1" "spec_exec c (abs_sys y) = Ret (r, abs_sys y1)"
      by (cases "spec_exec c (abs_sys y)"; simp add: as_specified_def)+
    have "as_specified (r # fst ry, snd ry) (r # fst sp, snd sp) = as_specified ry sp" for ry sp
      by (auto simp: as_specified_def prod_eq_iff)
    with Cons.IH [OF s(1)] Ret x s(2) show ?thesis by (simp add: case_prod_beta)
  qed (use e in \<open>cases "spec_exec c (abs_sys y)"; simp\<close>)+
qed (simp add: as_specified_def)

lemma psem_start_ok: "sys_ok (psem_sys_start mem)" "abs_sys (psem_sys_start mem) = spec_start"
  by (auto simp: sys_ok_def threads_ok_def psem_sys_start_def psem_start_def psem_ok_def abs_sys_def abs_psem_def
      abs_sleep_def sem_values_def spec_start_def)

text \<open>The threads that wait for an address, in the specification.\<close>

definition spec_waiters :: "psem_spec \<Rightarrow> nat \<Rightarrow> nat set" where
  "spec_waiters s a = {t. \<exists>x. sv_sleep s t = Some (Some a, x)}"

lemma spec_waiters_abs:
  assumes "psem_ok (sy_world y)" "pw_sems (sy_world y) a = Some ob"
  shows "spec_waiters (abs_sys y) a = waiters_on (sy_sleep y) ob"
proof -
  from psem_lookup [OF assms] obtain p where p: "pw_objs (sy_world y) ob = Some p" "ps_guest p = a" by metis
  have uniq: "o' = ob" if "pw_objs (sy_world y) o' = Some q" "ps_guest q = a" for o' q
    using assms that unfolding psem_ok_def by (metis option.inject)
  have o: "map_option ps_guest (pw_objs (sy_world y) o') = Some a \<longleftrightarrow> o' = ob" for o'
  proof
    assume "map_option ps_guest (pw_objs (sy_world y) o') = Some a"
    then obtain q where "pw_objs (sy_world y) o' = Some q" "ps_guest q = a" by blast
    then show "o' = ob" by (rule uniq)
  qed (simp add: p)
  have "(\<exists>x. sv_sleep (abs_sys y) t = Some (Some a, x)) \<longleftrightarrow> (\<exists>x. sy_sleep y t = Some (ob, x))" for t
  proof (cases "sy_sleep y t")
    case None
    then show ?thesis by (simp add: abs_sys_def abs_psem_def abs_sleep_def)
  next
    case (Some f)
    then have "sv_sleep (abs_sys y) t = Some (map_option ps_guest (pw_objs (sy_world y) (fst f)), snd f)"
      by (simp add: abs_sys_def abs_psem_def abs_sleep_def case_prod_beta)
    then show ?thesis using o [of "fst f"] Some by (cases f) (simp del: split_paired_Ex)
  qed
  then show ?thesis unfolding spec_waiters_def waiters_on_def by blast
qed

text \<open>
  C31: the calls of POSIX semaphores, and the kernel's names for them, made by any number of
  threads: run one after the other, with a thread that sleeps in a wait overtaken by the calls of
  other threads and woken at any later time. Every call of every such history returns, and sets
  its thread's \<open>errno\<close>, as the map from addresses to values says, and the history is undefined
  exactly when the map says so: when a thread wakes after its semaphore was destroyed or
  initialised again, whose object the code has deleted, or when a time does not fit its type.
  Values stay between 0 and \<open>SEM_VALUE_MAX\<close>, and the guest structure of every live semaphore
  shows the magic number, its current value and whether threads sleep on it.
\<close>

theorem posix_sem_refines_values:
  "case psem_run cs (psem_sys_start mem) of
     Exit \<Rightarrow> False
   | Undef \<Rightarrow> spec_run cs spec_start = Undef
   | Ret (rs, y) \<Rightarrow> \<exists>s. spec_run cs spec_start = Ret (rs, s) \<and> sy_errno y = sv_errno s \<and>
       (\<forall>a. case sv_values s a of None \<Rightarrow> pw_sems (sy_world y) a = None
         | Some v \<Rightarrow> 0 \<le> v \<and> v \<le> POSIX_SEM_VALUE_MAX \<and>
             pg_magic (pw_mem (sy_world y) a) = POSIX_SEM_MAGIC \<and> pg_count (pw_mem (sy_world y) a) = word_of_int v \<and>
             pg_has_waiters (pw_mem (sy_world y) a) =
               (if (of_nat (card (spec_waiters s a)) :: u32) > 0 then 1 else 0))"
proof (cases "psem_run cs (psem_sys_start mem)")
  case (Ret x)
  obtain rs y where x: "x = (rs, y)" by (cases x)
  have run: "sys_ok y" "spec_run cs spec_start = Ret (rs, abs_sys y)"
    using psem_run_agrees [OF psem_start_ok(1), of cs mem] Ret x unfolding psem_start_ok(2)
    by (cases "spec_run cs spec_start"; simp add: as_specified_def)+
  have pok: "psem_ok (sy_world y)" using run(1) by (simp add: sys_ok_def threads_ok_def)
  have vals: "sv_values (abs_sys y) = sem_values (sy_world y)" "sv_errno (abs_sys y) = sy_errno y"
    by (simp_all add: abs_sys_def abs_psem_def)
  have "case sem_values (sy_world y) a of None \<Rightarrow> pw_sems (sy_world y) a = None
      | Some v \<Rightarrow> 0 \<le> v \<and> v \<le> POSIX_SEM_VALUE_MAX \<and>
          pg_magic (pw_mem (sy_world y) a) = POSIX_SEM_MAGIC \<and> pg_count (pw_mem (sy_world y) a) = word_of_int v \<and>
          pg_has_waiters (pw_mem (sy_world y) a) =
            (if (of_nat (card (spec_waiters (abs_sys y) a)) :: u32) > 0 then 1 else 0)" for a
  proof (cases "pw_sems (sy_world y) a")
    case (Some ob)
    from psem_lookup [OF pok Some] obtain p where p: "pw_objs (sy_world y) ob = Some p" "ps_guest p = a"
      "sem_values (sy_world y) a = Some (ps_count p)" "0 \<le> ps_count p" "ps_count p \<le> POSIX_SEM_VALUE_MAX" by metis
    then have "mirrors p (pw_mem (sy_world y) a)" using pok unfolding psem_ok_def by blast
    moreover have "ps_waiters p = of_nat (card (spec_waiters (abs_sys y) a))"
      using run(1) p(1) spec_waiters_abs [OF pok Some] by (simp add: sys_ok_def threads_ok_def)
    ultimately show ?thesis using p by (simp add: mirrors_def)
  qed (simp add: sem_values_def)
  then show ?thesis using Ret x run(2) vals by simp
qed (use psem_run_agrees [OF psem_start_ok(1), of cs mem] in
    \<open>cases "spec_run cs spec_start"; simp add: psem_start_ok(2)\<close>)+

theorem posix_sem_refines_values_witness:
  "\<exists>y. psem_run [PCall 1 (SInit Posix (Some 16) 0 0), PCall 1 (SRelTimedwait Posix (Some 16) 500),
     PCall 2 (SGetValue Posix (Some 16) True), PCall 2 (SWait Kernel (Some 16)), PWake 1 400, PWake 1 500,
     PCall 3 (SPost Kernel (Some 16)), PWake 2 700, PCall 3 (STryWait Kernel (Some 16))]
     (psem_sys_start (\<lambda>_. \<lparr>pg_magic = 0, pg_nameid = 0, pg_has_waiters = 0, pg_count = 0, pg_flags = 0\<rparr>)) =
   Ret ([Returns 0 None, Sleeps, Returns (-1) None, Sleeps, Sleeps, Returns (-1) None, Returns 0 None, Returns 0 None,
     Returns (-2147352541) None], y) \<and>
   sy_errno y 1 = POSIX_ETIMEDOUT \<and> sy_errno y 2 = POSIX_EINVAL \<and> pg_magic (pw_mem (sy_world y) 16) = POSIX_SEM_MAGIC \<and>
   pg_count (pw_mem (sy_world y) 16) = 0 \<and> pg_has_waiters (pw_mem (sy_world y) 16) = 0"
proof -
  let ?cs = "[PCall 1 (SInit Posix (Some 16) 0 0), PCall 1 (SRelTimedwait Posix (Some 16) 500),
     PCall 2 (SGetValue Posix (Some 16) True), PCall 2 (SWait Kernel (Some 16)), PWake 1 400, PWake 1 500,
     PCall 3 (SPost Kernel (Some 16)), PWake 2 700, PCall 3 (STryWait Kernel (Some 16))]"
  let ?mem = "\<lambda>_. \<lparr>pg_magic = 0, pg_nameid = 0, pg_has_waiters = 0, pg_count = 0, pg_flags = 0\<rparr>"
  obtain s where s: "spec_run ?cs spec_start = Ret ([Returns 0 None, Sleeps, Returns (-1) None, Sleeps, Sleeps,
      Returns (-1) None, Returns 0 None, Returns 0 None, Returns (-2147352541) None], s)"
    "sv_errno s 1 = POSIX_ETIMEDOUT" "sv_errno s 2 = POSIX_EINVAL" "sv_values s 16 = Some 0" "\<forall>t. sv_sleep s t = None"
    by (simp add: spec_exec_def spec_start_def spec_put_def spec_lookup_def drop_sleepers_def spec_wait_def spec_turn_def
        spec_fail_def POSIX_SEM_VALUE_MAX_def u32_max_def error_codes)
  have none: "spec_waiters s 16 = {}" using s(5) by (simp add: spec_waiters_def)
  note refines = posix_sem_refines_values [of ?cs ?mem]
  obtain y where y: "psem_run ?cs (psem_sys_start ?mem) = Ret ([Returns 0 None, Sleeps, Returns (-1) None, Sleeps, Sleeps,
      Returns (-1) None, Returns 0 None, Returns 0 None, Returns (-2147352541) None], y)"
    using refines s(1) by (cases "psem_run ?cs (psem_sys_start ?mem)") (auto simp del: psem_run.simps spec_run.simps)
  from refines s none show ?thesis unfolding y
    by (intro exI [of _ y]) (auto simp del: psem_run.simps spec_run.simps dest!: spec [of _ 16])
qed

text \<open>
  A use after free: a thread sleeps, the semaphore is destroyed or initialised again, the
  thread wakes up.
\<close>

lemma deleted_while_sleeping:
  "psem_run [PCall 1 (SInit Posix (Some 16) 0 0), PCall 1 (SWait Posix (Some 16)), PCall 2 (SDestroy Posix (Some 16)),
     PWake 1 10000] (psem_sys_start mem) = Undef"
  "psem_run [PCall 1 (SInit Posix (Some 16) 0 0), PCall 1 (SWait Posix (Some 16)), PCall 2 (SInit Posix (Some 16) 0 1),
     PWake 1 10000] (psem_sys_start mem) = Undef"
  by (simp_all add: psem_exec_def psem_done_def world_of_def psem_sys_start_def psem_start_def sem_init_def
      SemInitImpl_def posix_ret_def returns_def waits_def sem_wait_def SemTimedwaitImpl_def GetSem_def PosixSem_Wait_def
      PosixSem_Wait_turn_def wait_result_def put_sem_def sem_destroy_def SemDestroyImpl_def PosixSem_Wait_wake_def
      POSIX_SEM_VALUE_MAX_def error_codes Let_def)

lemma PosixToKernel_errors:
  "PosixToKernel POSIX_EPERM = KERNEL_ERROR_EPERM" "PosixToKernel POSIX_EBUSY = KERNEL_ERROR_EBUSY"
  "PosixToKernel POSIX_EINVAL = KERNEL_ERROR_EINVAL" "PosixToKernel POSIX_ETIMEDOUT = KERNEL_ERROR_ETIMEDOUT"
  by (simp_all add: PosixToKernel_def error_codes)

lemma AbsTimespecToMicros_bound:
  "AbsTimespecToMicros abstime now = Ret (Some m) \<Longrightarrow> m \<le> u32_max"
  by (auto simp: AbsTimespecToMicros_def Let_def split: option.splits if_splits)

end
