(* ===== verification/EventQueue.thy ===== *)
theory EventQueue
  imports KernelErrors
begin

unbundle bit_operations_syntax

text \<open>
  Kernel event queues of \<open>src/kernel/eventQueue.cpp\<close> with the callbacks that are registered
  on them there, in \<open>src/graphics/host_gpu/renderer/sync.cpp\<close> and in
  \<open>src/graphics/presentation/videoOut.cpp\<close>. A queue is a list of registered events, each
  with the notification it will deliver and those that wait behind it; the registry maps
  handles to queues. A closed queue stays with the threads that hold it.
\<close>

section \<open>Events and callbacks\<close>

definition EV_ADD :: u16 where "EV_ADD = 0x01"
definition EV_ONESHOT :: u16 where "EV_ONESHOT = 0x10"
definition EV_CLEAR :: u16 where "EV_CLEAR = 0x20"
definition EV_ERROR :: u16 where "EV_ERROR = 0x4000"

definition KERNEL_EVFILT_USER :: int where "KERNEL_EVFILT_USER = -11"
definition KERNEL_EVFILT_HRTIMER :: int where "KERNEL_EVFILT_HRTIMER = -15"

record kernel_event =
  kv_ident :: u64
  kv_filter :: int
  kv_flags :: u16
  kv_fflags :: u32
  kv_data :: u64
  kv_udata :: u64

datatype trigger_func = TriggerNone | UserEventTriggerFunc | AmprEventTriggerFunc | EopEventTriggerFunc | TriggerVideoOutEvent
datatype reset_func = ResetNone | UserEventResetFunc | EopEventResetFunc | ResetVideoOutEvent
datatype delete_func = DeleteNone | EopEventDeleteFunc | RemoveVideoOutEventQueue

record equeue_event =
  qe_triggered :: bool
  qe_deadline_ns :: nat
  qe_event :: kernel_event
  qe_trigger :: trigger_func
  qe_reset :: reset_func
  qe_delete :: delete_func
  qe_pending :: "kernel_event list"

definition clear_event :: "equeue_event \<Rightarrow> equeue_event" where
  "clear_event e = e\<lparr>qe_triggered := False, qe_event := (qe_event e)\<lparr>kv_fflags := 0, kv_data := 0\<rparr>\<rparr>"

definition queue_event :: "kernel_event \<Rightarrow> equeue_event \<Rightarrow> equeue_event" where
  "queue_event x e =
     (if qe_triggered e then e\<lparr>qe_pending := qe_pending e @ [x]\<rparr>
      else e\<lparr>qe_event := x, qe_triggered := True\<rparr>)"

text \<open>The low bits are taken from the time stamp counter.\<close>

definition MakeVideoOutEventData :: "u64 \<Rightarrow> u64 \<Rightarrow> u64 \<Rightarrow> u64" where
  "MakeVideoOutEventData tsc current_data trigger_data =
     (let counter = drop_bit 12 current_data AND 0xf;
          counter = (if counter \<noteq> 0xf then counter + 1 else counter);
          time = tsc AND 0xfff in
      time OR push_bit 12 counter OR push_bit 16 (trigger_data AND 0x0000ffffffffffff))"

definition run_trigger :: "u64 \<Rightarrow> trigger_func \<Rightarrow> u64 \<Rightarrow> equeue_event \<Rightarrow> equeue_event" where
  "run_trigger tsc f data e =
     (case f of
        TriggerNone \<Rightarrow> e\<lparr>qe_triggered := True\<rparr>
      | UserEventTriggerFunc \<Rightarrow> e\<lparr>qe_triggered := True, qe_event := (qe_event e)\<lparr>kv_data := data, kv_udata := data\<rparr>\<rparr>
      | AmprEventTriggerFunc \<Rightarrow> queue_event ((qe_event e)\<lparr>kv_data := data\<rparr>) e
      | EopEventTriggerFunc \<Rightarrow> queue_event ((qe_event e)\<lparr>kv_fflags := kv_fflags (qe_event e) + 1, kv_data := data\<rparr>) e
      | TriggerVideoOutEvent \<Rightarrow>
          queue_event ((qe_event e)\<lparr>kv_fflags := (if kv_fflags (qe_event e) < 0xf then kv_fflags (qe_event e) + 1 else kv_fflags (qe_event e)),
            kv_data := MakeVideoOutEventData tsc (kv_data (qe_event e)) data\<rparr>) e)"

definition run_reset :: "equeue_event \<Rightarrow> equeue_event" where
  "run_reset e =
     (case qe_reset e of
        ResetNone \<Rightarrow> if kv_flags (qe_event e) AND EV_CLEAR \<noteq> 0 then clear_event e else e
      | UserEventResetFunc \<Rightarrow> if kv_flags (qe_event e) AND EV_CLEAR \<noteq> 0 then clear_event e else e
      | EopEventResetFunc \<Rightarrow> clear_event e
      | ResetVideoOutEvent \<Rightarrow> clear_event e)"

section \<open>The queue\<close>

record equeue =
  eq_events :: "equeue_event list"
  eq_name :: string
  eq_handle :: nat
  eq_closed :: bool

definition TriggerExpiredTimers :: "nat \<Rightarrow> equeue_event list \<Rightarrow> equeue_event list" where
  "TriggerExpiredTimers now_ns es =
     map (\<lambda>e. if \<not> qe_triggered e \<and> qe_deadline_ns e \<noteq> 0 \<and> qe_deadline_ns e \<le> now_ns then e\<lparr>qe_triggered := True\<rparr> else e) es"

definition next_pending :: "equeue_event \<Rightarrow> equeue_event" where
  "next_pending e =
     (case qe_pending e of
        [] \<Rightarrow> e
      | x # xs \<Rightarrow> e\<lparr>qe_event := x, qe_pending := xs, qe_triggered := True\<rparr>)"

text \<open>
  The inner loop of \<open>GetTriggeredEvents\<close> over one event with room for \<open>room\<close> notifications:
  those written, and the event afterwards unless it is erased.
\<close>

fun deliver :: "nat \<Rightarrow> equeue_event \<Rightarrow> kernel_event list \<times> equeue_event option" where
  "deliver 0 e = ([], Some e)"
| "deliver (Suc room) e =
     (if \<not> qe_triggered e then ([], Some e)
      else if kv_flags (qe_event e) AND EV_ONESHOT \<noteq> 0 then ([qe_event e], None)
      else
        let (out, e') = deliver room (next_pending (run_reset e)) in
        (qe_event e # out, e'))"

fun deliver_all :: "nat \<Rightarrow> equeue_event list \<Rightarrow> kernel_event list \<times> equeue_event list" where
  "deliver_all room [] = ([], [])"
| "deliver_all room (e # es) =
     (let (out, e') = deliver room e;
          keep = (case e' of None \<Rightarrow> [] | Some x \<Rightarrow> [x]) in
      if length out \<ge> room then (out, keep @ es)
      else (let (out', es') = deliver_all (room - length out) es in (out @ out', keep @ es')))"

text \<open>The result is an error code or the notifications, whose number the code returns.\<close>

definition GetTriggeredEvents :: "nat \<Rightarrow> int \<Rightarrow> equeue \<Rightarrow> ((int + kernel_event list) \<times> equeue) outcome" where
  "GetTriggeredEvents now_ns num q =
     (if num < 1 then Exit
      else if eq_closed q then Ret (Inl KERNEL_ERROR_EBADF, q)
      else
        let (out, es) = deliver_all (nat num) (TriggerExpiredTimers now_ns (eq_events q)) in
        Ret (Inr out, q\<lparr>eq_events := es\<rparr>))"

definition nearest_deadline :: "nat \<Rightarrow> equeue_event list \<Rightarrow> nat" where
  "nearest_deadline start es =
     foldl (\<lambda>d e. if \<not> qe_triggered e \<and> qe_deadline_ns e \<noteq> 0 then min d (qe_deadline_ns e) else d) start es"

definition GetNextTimerWaitMicros :: "nat \<Rightarrow> equeue_event list \<Rightarrow> nat option" where
  "GetNextTimerWaitMicros now_ns es =
     (let nearest = nearest_deadline u64_max es in
      if nearest = u64_max then None
      else
        let remaining_ns = (if nearest > now_ns then nearest - now_ns else 0);
            rounded_us = max 1 ((remaining_ns + 999) mod 2 ^ 64 div 1000) in
        Some (min rounded_us u32_max))"

text \<open>
  One turn of the loop of \<open>WaitForEvents\<close>, after \<open>elapsed\<close> microseconds; a sleeping thread
  waits for the given time, or without a limit. \<open>micros = 0\<close> waits forever. The clock is
  read twice.
\<close>

datatype eq_wait = EqReturns "int + kernel_event list" | EqSleeps "nat option"

definition WaitForEvents_turn :: "nat \<Rightarrow> nat \<Rightarrow> int \<Rightarrow> nat \<Rightarrow> nat \<Rightarrow> equeue \<Rightarrow> (eq_wait \<times> equeue) outcome" where
  "WaitForEvents_turn now_ns later_ns num micros elapsed q =
     obind (GetTriggeredEvents now_ns num q) (\<lambda>(r, q).
     if r \<noteq> Inr [] \<or> (elapsed \<ge> micros \<and> micros \<noteq> 0) then Ret (EqReturns r, q)
     else
       let timer = GetNextTimerWaitMicros later_ns (eq_events q) in
       if micros = 0 \<and> timer = None then Ret (EqSleeps None, q)
       else
         let external_wait = (if micros \<noteq> 0 then micros - elapsed else u32_max) in
         Ret (EqSleeps (Some (case timer of None \<Rightarrow> external_wait | Some w \<Rightarrow> min external_wait w)), q))"

definition same_key :: "u64 \<Rightarrow> int \<Rightarrow> equeue_event \<Rightarrow> bool" where
  "same_key ident filt e \<longleftrightarrow> kv_ident (qe_event e) = ident \<and> kv_filter (qe_event e) = filt"

definition AddEvent :: "equeue_event \<Rightarrow> equeue \<Rightarrow> int \<times> equeue" where
  "AddEvent event q =
     (if eq_closed q then (KERNEL_ERROR_EBADF, q)
      else case find_index (same_key (kv_ident (qe_event event)) (kv_filter (qe_event event))) (eq_events q) of
          Some i \<Rightarrow>
            (let it = eq_events q ! i; u = kv_udata (qe_event event) in
             (OK, q\<lparr>eq_events := (eq_events q)[i := it\<lparr>qe_deadline_ns := qe_deadline_ns event,
                 qe_event := (qe_event it)\<lparr>kv_udata := u\<rparr>, qe_pending := map (\<lambda>p. p\<lparr>kv_udata := u\<rparr>) (qe_pending it)\<rparr>]\<rparr>))
        | None \<Rightarrow> (OK, q\<lparr>eq_events := eq_events q @ [event]\<rparr>))"

definition TriggerEvent :: "u64 \<Rightarrow> u64 \<Rightarrow> int \<Rightarrow> u64 \<Rightarrow> equeue \<Rightarrow> int \<times> equeue" where
  "TriggerEvent tsc ident filt trigger_data q =
     (if eq_closed q then (KERNEL_ERROR_EBADF, q)
      else case find_index (same_key ident filt) (eq_events q) of
          Some i \<Rightarrow>
            (let it = eq_events q ! i in
             (OK, q\<lparr>eq_events := (eq_events q)[i := run_trigger tsc (qe_trigger it) trigger_data it]\<rparr>))
        | None \<Rightarrow> (KERNEL_ERROR_ENOENT, q))"

text \<open>The callbacks run on deletion are reported: the handle, the callback and the event.\<close>

type_synonym delete_call = "nat \<times> delete_func \<times> equeue_event"

definition delete_calls :: "nat \<Rightarrow> equeue_event list \<Rightarrow> delete_call list" where
  "delete_calls h es = map (\<lambda>e. (h, qe_delete e, e)) (filter (\<lambda>e. qe_delete e \<noteq> DeleteNone) es)"

definition DeleteEvent :: "u64 \<Rightarrow> int \<Rightarrow> equeue \<Rightarrow> int \<times> delete_call list \<times> equeue" where
  "DeleteEvent ident filt q =
     (if eq_closed q then (KERNEL_ERROR_EBADF, [], q)
      else case find_index (same_key ident filt) (eq_events q) of
          Some i \<Rightarrow> (OK, delete_calls (eq_handle q) [eq_events q ! i], q\<lparr>eq_events := erase_at i (eq_events q)\<rparr>)
        | None \<Rightarrow> (KERNEL_ERROR_ENOENT, [], q))"

definition Equeue_Close :: "equeue \<Rightarrow> delete_call list \<times> equeue" where
  "Equeue_Close q =
     (if eq_closed q then ([], q)
      else (delete_calls (eq_handle q) (eq_events q), q\<lparr>eq_closed := True, eq_events := []\<rparr>))"

section \<open>The registry and the system calls\<close>

text \<open>\<open>ew_queues\<close> holds every queue made, \<open>ew_live\<close> the handles that are still registered.\<close>

record eq_world =
  ew_queues :: "nat \<Rightarrow> equeue"
  ew_live :: "nat list"
  ew_next :: nat

definition KernelPinEqueue :: "nat \<Rightarrow> eq_world \<Rightarrow> equeue option" where
  "KernelPinEqueue h w = (if h = 0 then None else if h \<in> set (ew_live w) then Some (ew_queues w h) else None)"

definition KernelCreateEqueue :: "bool \<Rightarrow> string option \<Rightarrow> eq_world \<Rightarrow> ((int + nat) \<times> eq_world) outcome" where
  "KernelCreateEqueue eq_null name w =
     (case name of
        None \<Rightarrow> Ret (Inl KERNEL_ERROR_EINVAL, w)
      | Some nm \<Rightarrow>
          if eq_null then Ret (Inl KERNEL_ERROR_EINVAL, w)
          else if ew_next w > 2 ^ 63 - 1 then Exit
          else
            let h = ew_next w in
            Ret (Inr h, w\<lparr>ew_next := h + 1, ew_live := h # ew_live w,
              ew_queues := (ew_queues w)(h := \<lparr>eq_events = [], eq_name = nm, eq_handle = h, eq_closed = False\<rparr>)\<rparr>))"

definition put_queue :: "nat \<Rightarrow> equeue \<Rightarrow> eq_world \<Rightarrow> eq_world" where
  "put_queue h q w = w\<lparr>ew_queues := (ew_queues w)(h := q)\<rparr>"

definition KernelAddEvent :: "nat \<Rightarrow> equeue_event \<Rightarrow> eq_world \<Rightarrow> int \<times> eq_world" where
  "KernelAddEvent h event w =
     (case KernelPinEqueue h w of
        None \<Rightarrow> (KERNEL_ERROR_EBADF, w)
      | Some q \<Rightarrow> (let (r, q) = AddEvent event q in (r, put_queue h q w)))"

definition KernelTriggerEvent :: "u64 \<Rightarrow> nat \<Rightarrow> u64 \<Rightarrow> int \<Rightarrow> u64 \<Rightarrow> eq_world \<Rightarrow> int \<times> eq_world" where
  "KernelTriggerEvent tsc h ident filt data w =
     (case KernelPinEqueue h w of
        None \<Rightarrow> (KERNEL_ERROR_EBADF, w)
      | Some q \<Rightarrow> (let (r, q) = TriggerEvent tsc ident filt data q in (r, put_queue h q w)))"

definition KernelDeleteEvent :: "nat \<Rightarrow> u64 \<Rightarrow> int \<Rightarrow> eq_world \<Rightarrow> int \<times> delete_call list \<times> eq_world" where
  "KernelDeleteEvent h ident filt w =
     (case KernelPinEqueue h w of
        None \<Rightarrow> (KERNEL_ERROR_EBADF, [], w)
      | Some q \<Rightarrow> (let (r, c, q) = DeleteEvent ident filt q in (r, c, put_queue h q w)))"

definition KernelDeleteEqueue :: "nat \<Rightarrow> eq_world \<Rightarrow> int \<times> delete_call list \<times> eq_world" where
  "KernelDeleteEqueue h w =
     (if h \<notin> set (ew_live w) then (KERNEL_ERROR_EBADF, [], w)
      else (let (c, q) = Equeue_Close (ew_queues w h) in
        (OK, c, (put_queue h q w)\<lparr>ew_live := remove1 h (ew_live w)\<rparr>)))"

text \<open>
  \<open>KernelWaitEqueue\<close> up to its first look at the queue: \<open>timo\<close> is a time limit, zero for a
  poll; \<open>wait_ret\<close> is the code it returns once there is a result.
\<close>

definition eq_wait_ret :: "int + kernel_event list \<Rightarrow> int" where
  "eq_wait_ret r = (case r of Inl e \<Rightarrow> KERNEL_ERROR_EBADF | Inr [] \<Rightarrow> KERNEL_ERROR_ETIMEDOUT | Inr _ \<Rightarrow> OK)"

definition KernelWaitEqueue :: "nat \<Rightarrow> nat \<Rightarrow> nat \<Rightarrow> bool \<Rightarrow> int \<Rightarrow> bool \<Rightarrow> nat option \<Rightarrow> eq_world \<Rightarrow> (int \<times> kernel_event list \<times> eq_world + nat option \<times> eq_world) outcome" where
  "KernelWaitEqueue now_ns later_ns h ev_null num out_null timo w =
     (case KernelPinEqueue h w of
        None \<Rightarrow> Ret (Inl (KERNEL_ERROR_EBADF, [], w))
      | Some q \<Rightarrow>
          if ev_null then Ret (Inl (KERNEL_ERROR_EFAULT, [], w))
          else if num < 1 then Ret (Inl (KERNEL_ERROR_EINVAL, [], w))
          else if out_null then Exit
          else
            let finish = (\<lambda>(r, q). Ret (Inl (eq_wait_ret r, (case r of Inl _ \<Rightarrow> [] | Inr xs \<Rightarrow> xs), put_queue h q w))) in
            if timo = Some 0 then obind (GetTriggeredEvents now_ns num q) finish
            else obind (WaitForEvents_turn now_ns later_ns num (case timo of None \<Rightarrow> 0 | Some m \<Rightarrow> m) 0 q) (\<lambda>(r, q).
              case r of EqReturns x \<Rightarrow> finish (x, q) | EqSleeps t \<Rightarrow> Ret (Inr (t, put_queue h q w))))"

definition user_event :: "u64 \<Rightarrow> u16 \<Rightarrow> equeue_event" where
  "user_event ident flags =
     \<lparr>qe_triggered = False, qe_deadline_ns = 0,
      qe_event = \<lparr>kv_ident = ident, kv_filter = KERNEL_EVFILT_USER, kv_flags = flags, kv_fflags = 0, kv_data = 0, kv_udata = 0\<rparr>,
      qe_trigger = UserEventTriggerFunc, qe_reset = UserEventResetFunc, qe_delete = DeleteNone, qe_pending = []\<rparr>"

text \<open>An \<open>int\<close> converted to \<open>uintptr_t\<close>.\<close>

definition as_ident :: "int \<Rightarrow> u64" where
  "as_ident n = word_of_int n"

definition KernelAddUserEvent :: "nat \<Rightarrow> int \<Rightarrow> eq_world \<Rightarrow> int \<times> eq_world" where
  "KernelAddUserEvent h n w = KernelAddEvent h (user_event (as_ident n) EV_ADD) w"

definition KernelAddUserEventEdge :: "nat \<Rightarrow> int \<Rightarrow> eq_world \<Rightarrow> int \<times> eq_world" where
  "KernelAddUserEventEdge h n w = KernelAddEvent h (user_event (as_ident n) (EV_ADD OR EV_CLEAR)) w"

definition KernelTriggerUserEvent :: "u64 \<Rightarrow> nat \<Rightarrow> int \<Rightarrow> u64 \<Rightarrow> eq_world \<Rightarrow> int \<times> eq_world" where
  "KernelTriggerUserEvent tsc h n udata w = KernelTriggerEvent tsc h (as_ident n) KERNEL_EVFILT_USER udata w"

fun trigger_each :: "u64 \<Rightarrow> u64 \<Rightarrow> u64 \<Rightarrow> nat list \<Rightarrow> eq_world \<Rightarrow> nat \<times> eq_world" where
  "trigger_each tsc ident udata [] w = (0, w)"
| "trigger_each tsc ident udata (h # hs) w =
     (let (r, q) = TriggerEvent tsc ident KERNEL_EVFILT_USER udata (ew_queues w h);
          (n, w) = trigger_each tsc ident udata hs (put_queue h q w) in
      (if r = OK then n + 1 else n, w))"

definition KernelTriggerUserEventForAll :: "u64 \<Rightarrow> int \<Rightarrow> u64 \<Rightarrow> eq_world \<Rightarrow> int \<times> eq_world" where
  "KernelTriggerUserEventForAll tsc n udata w =
     (let (triggered, w) = trigger_each tsc (as_ident n) udata (ew_live w) w in
      (if triggered > 0 then OK else KERNEL_ERROR_ENOENT, w))"

definition KernelDeleteUserEvent :: "nat \<Rightarrow> int \<Rightarrow> eq_world \<Rightarrow> int \<times> delete_call list \<times> eq_world" where
  "KernelDeleteUserEvent h n w = KernelDeleteEvent h (as_ident n) KERNEL_EVFILT_USER w"

text \<open>A time specification is its seconds and nanoseconds; \<open>None\<close> is a null pointer.\<close>

definition KernelAddHRTimerEvent :: "nat \<Rightarrow> nat \<Rightarrow> int \<Rightarrow> (int \<times> int) option \<Rightarrow> u64 \<Rightarrow> eq_world \<Rightarrow> int \<times> eq_world" where
  "KernelAddHRTimerEvent now_ns h n ts udata w =
     (case ts of
        None \<Rightarrow> (KERNEL_ERROR_EFAULT, w)
      | Some (sec, nsec) \<Rightarrow>
          if sec < 0 \<or> nsec < 0 \<or> nsec \<ge> 1000000000 \<or> nat sec > (u64_max - nat nsec) div 1000000000
          then (KERNEL_ERROR_EINVAL, w)
          else
            let delay_ns = nat sec * 1000000000 + nat nsec;
                deadline = (if delay_ns \<le> u64_max - now_ns then now_ns + delay_ns else u64_max) in
            KernelAddEvent h
              \<lparr>qe_triggered = False, qe_deadline_ns = deadline,
               qe_event = \<lparr>kv_ident = as_ident n, kv_filter = KERNEL_EVFILT_HRTIMER, kv_flags = EV_ADD OR EV_ONESHOT,
                 kv_fflags = 0, kv_data = 0, kv_udata = udata\<rparr>,
               qe_trigger = TriggerNone, qe_reset = ResetNone, qe_delete = DeleteNone, qe_pending = []\<rparr> w)"

definition KernelDeleteHRTimerEvent :: "nat \<Rightarrow> int \<Rightarrow> eq_world \<Rightarrow> int \<times> delete_call list \<times> eq_world" where
  "KernelDeleteHRTimerEvent h n w = KernelDeleteEvent h (as_ident n) KERNEL_EVFILT_HRTIMER w"

definition ampr_event :: "u64 \<Rightarrow> u64 \<Rightarrow> equeue_event" where
  "ampr_event ident udata =
     \<lparr>qe_triggered = False, qe_deadline_ns = 0,
      qe_event = \<lparr>kv_ident = ident, kv_filter = KERNEL_EVFILT_USER, kv_flags = EV_ADD OR EV_CLEAR, kv_fflags = 0, kv_data = 0, kv_udata = udata\<rparr>,
      qe_trigger = AmprEventTriggerFunc, qe_reset = UserEventResetFunc, qe_delete = DeleteNone, qe_pending = []\<rparr>"

definition KernelAddAmprEvent :: "nat \<Rightarrow> int \<Rightarrow> u64 \<Rightarrow> eq_world \<Rightarrow> int \<times> eq_world" where
  "KernelAddAmprEvent h n udata w =
     (OK, if h \<noteq> 0 then snd (KernelAddEvent h (ampr_event (as_ident n) udata) w) else w)"

definition KernelAddAmprSystemEvent :: "nat \<Rightarrow> int \<Rightarrow> u64 \<Rightarrow> eq_world \<Rightarrow> int \<times> eq_world" where
  "KernelAddAmprSystemEvent h n udata w = KernelAddAmprEvent h n udata w"

definition KernelDeleteAmprEvent :: "nat \<Rightarrow> int \<Rightarrow> eq_world \<Rightarrow> int \<times> delete_call list \<times> eq_world" where
  "KernelDeleteAmprEvent h n w =
     (if h \<noteq> 0 then (let (r, c, w) = KernelDeleteEvent h (as_ident n) KERNEL_EVFILT_USER w in (OK, c, w)) else (OK, [], w))"

definition KernelDeleteAmprSystemEvent :: "nat \<Rightarrow> int \<Rightarrow> eq_world \<Rightarrow> int \<times> delete_call list \<times> eq_world" where
  "KernelDeleteAmprSystemEvent h n w = KernelDeleteAmprEvent h n w"

definition KernelGetEventData :: "kernel_event option \<Rightarrow> u64" where
  "KernelGetEventData ev = (case ev of None \<Rightarrow> 0 | Some e \<Rightarrow> kv_data e)"

definition KernelGetEventFflags :: "kernel_event option \<Rightarrow> u64" where
  "KernelGetEventFflags ev = (case ev of None \<Rightarrow> 0 | Some e \<Rightarrow> ucast (kv_fflags e))"

definition KernelGetEventFilter :: "kernel_event option \<Rightarrow> int" where
  "KernelGetEventFilter ev = (case ev of None \<Rightarrow> 0 | Some e \<Rightarrow> kv_filter e)"

definition KernelGetEventId :: "kernel_event option \<Rightarrow> u64" where
  "KernelGetEventId ev = (case ev of None \<Rightarrow> 0 | Some e \<Rightarrow> kv_ident e)"

definition KernelGetEventUserData :: "kernel_event option \<Rightarrow> u64" where
  "KernelGetEventUserData ev = (case ev of None \<Rightarrow> 0 | Some e \<Rightarrow> kv_udata e)"

definition KernelGetEventError :: "kernel_event option \<Rightarrow> int" where
  "KernelGetEventError ev =
     (case ev of None \<Rightarrow> 0 | Some e \<Rightarrow> if kv_flags e AND EV_ERROR \<noteq> 0 then sint (ucast (kv_data e) :: 32 word) else 0)"

section \<open>Well-formed queues\<close>

type_synonym eq_key = "u64 \<times> int"

definition ev_key :: "kernel_event \<Rightarrow> eq_key" where
  "ev_key x = (kv_ident x, kv_filter x)"

definition qe_key :: "equeue_event \<Rightarrow> eq_key" where
  "qe_key e = ev_key (qe_event e)"

definition eq_ok :: "equeue_event list \<Rightarrow> bool" where
  "eq_ok es \<longleftrightarrow> distinct (map qe_key es) \<and> (\<forall>e \<in> set es. \<forall>p \<in> set (qe_pending e). ev_key p = qe_key e)"

lemma same_key_iff: "same_key ident filt e \<longleftrightarrow> qe_key e = (ident, filt)"
  by (auto simp: same_key_def qe_key_def ev_key_def)

lemma reset_frame [simp]:
  "qe_key (run_reset e) = qe_key e" "qe_pending (run_reset e) = qe_pending e"
  "kv_flags (qe_event (run_reset e)) = kv_flags (qe_event e)" "qe_trigger (run_reset e) = qe_trigger e"
  "qe_reset (run_reset e) = qe_reset e" "qe_deadline_ns (run_reset e) = qe_deadline_ns e"
  by (auto simp: run_reset_def clear_event_def qe_key_def ev_key_def split: reset_func.split)

lemma trigger_frame:
  "qe_key (run_trigger tsc f d e) = qe_key e"
  "\<forall>p \<in> set (qe_pending e). ev_key p = qe_key e \<Longrightarrow> p \<in> set (qe_pending (run_trigger tsc f d e)) \<Longrightarrow> ev_key p = qe_key e"
  by (auto simp: run_trigger_def queue_event_def qe_key_def ev_key_def split: trigger_func.splits if_splits)

text \<open>The notifications an event stands for: the one shown and those behind it.\<close>

definition queue_of :: "equeue_event \<Rightarrow> kernel_event list" where
  "queue_of e = (if qe_triggered e then [qe_event e] else []) @ qe_pending e"

definition pending_ok :: "equeue_event \<Rightarrow> bool" where
  "pending_ok e \<longleftrightarrow> (\<forall>p \<in> set (qe_pending e). ev_key p = qe_key e)"

lemma next_pending_frame:
  assumes "pending_ok e"
  shows "qe_key (next_pending (run_reset e)) = qe_key e \<and> pending_ok (next_pending (run_reset e))"
proof (cases "qe_pending e")
  case Nil
  with assms show ?thesis by (simp add: next_pending_def pending_ok_def)
next
  case (Cons x xs)
  then have "next_pending (run_reset e) = (run_reset e)\<lparr>qe_event := x, qe_pending := xs, qe_triggered := True\<rparr>"
    by (simp add: next_pending_def)
  with assms Cons show ?thesis by (auto simp: pending_ok_def qe_key_def)
qed

lemma deliver_SucE:
  assumes "deliver (Suc room) e = (out, e')"
  obtains (idle) "\<not> qe_triggered e" "out = []" "e' = Some e"
  | (oneshot) "qe_triggered e" "kv_flags (qe_event e) AND EV_ONESHOT \<noteq> 0" "out = [qe_event e]" "e' = None"
  | (more) out1 where "qe_triggered e" "kv_flags (qe_event e) AND EV_ONESHOT = 0"
      "deliver room (next_pending (run_reset e)) = (out1, e')" "out = qe_event e # out1"
  using assms by (auto split: if_splits prod.splits)

lemma deliver_frame:
  assumes "deliver room e = (out, e')" "pending_ok e"
  shows "length out \<le> room \<and> (\<forall>x \<in> set out. ev_key x = qe_key e) \<and>
    (case e' of None \<Rightarrow> True | Some x \<Rightarrow> qe_key x = qe_key e \<and> pending_ok x)"
  using assms
proof (induction room arbitrary: e out e')
  case 0
  then show ?case by auto
next
  case (Suc room)
  from Suc.prems(1) show ?case
  proof (cases rule: deliver_SucE)
    case (more out1)
    note N = next_pending_frame [OF Suc.prems(2)]
    from Suc.IH [OF more(3)] N more(4) show ?thesis by (auto simp: qe_key_def split: option.splits)
  qed (use Suc.prems in \<open>auto simp: qe_key_def\<close>)
qed

section \<open>Queueing events deliver in order\<close>

text \<open>
  The events of AMPR and of the graphics end of pipe queue every trigger: they are cleared
  when read, are not one-shot and have no deadline.
\<close>

definition fifo_event :: "equeue_event \<Rightarrow> bool" where
  "fifo_event e \<longleftrightarrow>
     (qe_trigger e = AmprEventTriggerFunc \<and> qe_reset e = UserEventResetFunc \<and> kv_flags (qe_event e) AND EV_CLEAR \<noteq> 0 \<or>
      qe_trigger e = EopEventTriggerFunc \<and> qe_reset e = EopEventResetFunc) \<and>
     kv_flags (qe_event e) AND EV_ONESHOT = 0 \<and> qe_deadline_ns e = 0 \<and>
     (\<forall>p \<in> set (qe_pending e). kv_flags p = kv_flags (qe_event e)) \<and> (qe_pending e \<noteq> [] \<longrightarrow> qe_triggered e)"

lemma fifo_reset:
  assumes "fifo_event e" "qe_triggered e"
  shows "queue_of (next_pending (run_reset e)) = tl (queue_of e) \<and> fifo_event (next_pending (run_reset e))"
proof -
  have r: "run_reset e = clear_event e" using assms(1) by (auto simp: fifo_event_def run_reset_def)
  show ?thesis
    using assms by (cases "qe_pending e") (auto simp: r next_pending_def clear_event_def queue_of_def fifo_event_def)
qed

lemma deliver_fifo:
  assumes "fifo_event e"
  shows "\<exists>e'. deliver room e = (take room (queue_of e), Some e') \<and> queue_of e' = drop room (queue_of e) \<and> fifo_event e'"
  using assms
proof (induction room arbitrary: e)
  case 0
  then show ?case by simp
next
  case (Suc room)
  show ?case
  proof (cases "qe_triggered e")
    case False
    then have "queue_of e = []" using Suc.prems by (auto simp: fifo_event_def queue_of_def)
    with False Suc.prems show ?thesis by simp
  next
    case True
    note R = fifo_reset [OF Suc.prems True]
    from Suc.IH [OF R [THEN conjunct2]] obtain e' where
      "deliver room (next_pending (run_reset e)) = (take room (tl (queue_of e)), Some e')"
      "queue_of e' = drop room (tl (queue_of e))" "fifo_event e'" using R by auto
    moreover have "queue_of e = qe_event e # tl (queue_of e)" using True by (simp add: queue_of_def)
    moreover have "kv_flags (qe_event e) AND EV_ONESHOT = 0" using Suc.prems by (simp add: fifo_event_def)
    ultimately show ?thesis using True by (metis (no_types, lifting) deliver.simps(2) case_prod_conv drop_Suc take_Suc_Cons)
  qed
qed

definition find_key :: "eq_key \<Rightarrow> equeue_event list \<Rightarrow> equeue_event option" where
  "find_key k es = find (\<lambda>e. qe_key e = k) es"

lemma find_key_simps [simp]:
  "find_key k [] = None" "find_key k (e # es) = (if qe_key e = k then Some e else find_key k es)"
  by (simp_all add: find_key_def)

lemma find_key_None: "find_key k es = None \<longleftrightarrow> k \<notin> qe_key ` set es"
  by (induction es) auto

lemma find_key_mem: "find_key k es = Some e \<Longrightarrow> e \<in> set es \<and> qe_key e = k"
  by (induction es) (auto split: if_splits)

lemma filter_key_none: "k \<notin> ev_key ` set out \<Longrightarrow> filter (\<lambda>x. ev_key x = k) out = []"
  by (auto simp: filter_empty_conv)

lemma filter_key_all: "\<forall>x \<in> set out. ev_key x = k \<Longrightarrow> filter (\<lambda>x. ev_key x = k) out = out"
  by (simp add: filter_id_conv)

lemma eq_ok_Cons: "eq_ok (e # es) \<longleftrightarrow> qe_key e \<notin> qe_key ` set es \<and> pending_ok e \<and> eq_ok es"
  by (auto simp: eq_ok_def pending_ok_def)

lemma deliver_all_frame:
  assumes "deliver_all room es = (out, es')" "eq_ok es"
  shows "eq_ok es' \<and> qe_key ` set es' \<subseteq> qe_key ` set es \<and> ev_key ` set out \<subseteq> qe_key ` set es"
  using assms
proof (induction es arbitrary: room out es')
  case Nil
  then show ?case by simp
next
  case (Cons e es)
  obtain o1 e1 where d: "deliver room e = (o1, e1)" by fastforce
  obtain o2 es2 where r: "deliver_all (room - length o1) es = (o2, es2)" by fastforce
  have ok: "pending_ok e" "eq_ok es" "qe_key e \<notin> qe_key ` set es" using Cons.prems(2) by (auto simp: eq_ok_Cons)
  note D = deliver_frame [OF d ok(1)]
  note R = Cons.IH [OF r ok(2)]
  have "out = o1 \<and> es' = (case e1 of None \<Rightarrow> [] | Some x \<Rightarrow> [x]) @ es \<or>
      out = o1 @ o2 \<and> es' = (case e1 of None \<Rightarrow> [] | Some x \<Rightarrow> [x]) @ es2"
    using Cons.prems(1) d r by (auto simp: Let_def split: if_splits)
  then show ?case using D R ok unfolding image_subset_iff by (cases e1) (auto simp: eq_ok_Cons)
qed

lemma deliver_all_fifo:
  assumes "deliver_all room es = (out, es')" "eq_ok es" "find_key k es = Some e" "fifo_event e"
  shows "\<exists>e'. find_key k es' = Some e' \<and> fifo_event e' \<and>
    filter (\<lambda>x. ev_key x = k) out @ queue_of e' = queue_of e"
  using assms
proof (induction es arbitrary: room out es')
  case Nil
  then show ?case by simp
next
  case (Cons a es)
  obtain o1 a1 where d: "deliver room a = (o1, a1)" by fastforce
  obtain o2 es2 where r: "deliver_all (room - length o1) es = (o2, es2)" by fastforce
  have ok: "pending_ok a" "eq_ok es" "qe_key a \<notin> qe_key ` set es" using Cons.prems(2) by (auto simp: eq_ok_Cons)
  note D = deliver_frame [OF d ok(1)]
  note R = deliver_all_frame [OF r ok(2)]
  have res: "out = o1 \<and> es' = (case a1 of None \<Rightarrow> [] | Some x \<Rightarrow> [x]) @ es \<or>
      out = o1 @ o2 \<and> es' = (case a1 of None \<Rightarrow> [] | Some x \<Rightarrow> [x]) @ es2"
    using Cons.prems(1) d r by (auto simp: Let_def split: if_splits)
  show ?case
  proof (cases "qe_key a = k")
    case True
    then have "e = a" using Cons.prems(3) by simp
    then obtain e' where e': "o1 = take room (queue_of e)" "a1 = Some e'" "queue_of e' = drop room (queue_of e)" "fifo_event e'"
      using deliver_fifo [OF Cons.prems(4), of room] d by auto
    have "qe_key e' = k" using D e'(2) True by simp
    moreover have "filter (\<lambda>x. ev_key x = k) o1 = o1" using D True by (intro filter_key_all) auto
    moreover have "filter (\<lambda>x. ev_key x = k) o2 = []" using R ok(3) True by (intro filter_key_none) auto
    ultimately show ?thesis using res e' by (auto intro!: exI [of _ e'])
  next
    case False
    then have f: "find_key k es = Some e" using Cons.prems(3) by simp
    have "filter (\<lambda>x. ev_key x = k) o1 = []" using D False by (intro filter_key_none) auto
    moreover have "find_key k ((case a1 of None \<Rightarrow> [] | Some x \<Rightarrow> [x]) @ xs) = find_key k xs" for xs
      using D False by (cases a1) auto
    moreover from Cons.IH [OF r ok(2) f Cons.prems(4)] obtain e' where "find_key k es2 = Some e'" "fifo_event e'"
      "filter (\<lambda>x. ev_key x = k) o2 @ queue_of e' = queue_of e" by blast
    ultimately show ?thesis using res f Cons.prems(4) by auto
  qed
qed

section \<open>Histories\<close>

datatype eq_op =
    QAdd equeue_event
  | QTrigger u64 u64 int u64
  | QDelete u64 int
  | QGet nat int

text \<open>An operation on an open queue: the notifications it reads and the queue afterwards.\<close>

fun eq_exec :: "eq_op \<Rightarrow> equeue \<Rightarrow> (kernel_event list \<times> equeue) outcome" where
  "eq_exec (QAdd e) q = Ret ([], snd (AddEvent e q))"
| "eq_exec (QTrigger tsc ident filt d) q = Ret ([], snd (TriggerEvent tsc ident filt d q))"
| "eq_exec (QDelete ident filt) q = Ret ([], snd (snd (DeleteEvent ident filt q)))"
| "eq_exec (QGet now num) q =
     omap (\<lambda>(r, q). (case r of Inl _ \<Rightarrow> [] | Inr xs \<Rightarrow> xs, q)) (GetTriggeredEvents now num q)"

fun eq_run :: "eq_op list \<Rightarrow> equeue \<Rightarrow> (kernel_event list \<times> equeue) outcome" where
  "eq_run [] q = Ret ([], q)"
| "eq_run (x # xs) q = obind (eq_exec x q) (\<lambda>(out, q). omap (\<lambda>(out', q). (out @ out', q)) (eq_run xs q))"

text \<open>Operations that leave the registration of \<open>k\<close> alone; new events are well formed.\<close>

fun eq_allowed :: "eq_key \<Rightarrow> eq_op \<Rightarrow> bool" where
  "eq_allowed k (QAdd e) = (pending_ok e \<and> (qe_key e \<noteq> k \<or> qe_deadline_ns e = 0))"
| "eq_allowed k (QTrigger tsc ident filt d) = True"
| "eq_allowed k (QDelete ident filt) = ((ident, filt) \<noteq> k)"
| "eq_allowed k (QGet now num) = (1 \<le> num)"

fun eq_triggers :: "eq_key \<Rightarrow> eq_op \<Rightarrow> u64 list" where
  "eq_triggers k (QTrigger tsc ident filt d) = (if (ident, filt) = k then [d] else [])"
| "eq_triggers k _ = []"

definition fifo_at :: "eq_key \<Rightarrow> equeue \<Rightarrow> u64 list \<Rightarrow> bool" where
  "fifo_at k q ds \<longleftrightarrow> eq_ok (eq_events q) \<and> \<not> eq_closed q \<and>
     (\<exists>e. find_key k (eq_events q) = Some e \<and> fifo_event e \<and> map kv_data (queue_of e) = ds)"

lemma find_key_update:
  assumes "eq_ok es" "i < length es" "qe_key e' = qe_key (es ! i)"
  shows "find_key k (es[i := e']) = (if qe_key (es ! i) = k then Some e' else find_key k es)"
  using assms
proof (induction es arbitrary: i)
  case (Cons e es)
  show ?case
  proof (cases i)
    case (Suc n)
    with Cons.prems have "qe_key e \<noteq> qe_key (es ! n)" by (auto simp: eq_ok_Cons)
    with Suc Cons show ?thesis by (auto simp: eq_ok_Cons)
  qed (use Cons in auto)
qed simp

lemma find_key_append: "find_key k (xs @ ys) = (case find_key k xs of None \<Rightarrow> find_key k ys | Some e \<Rightarrow> Some e)"
  by (induction xs) auto

lemma distinct_erase_at: "distinct xs \<Longrightarrow> distinct (erase_at i xs)"
  by (simp add: erase_at_def set_take_disj_set_drop_if_distinct)

lemma map_erase_at: "map f (erase_at i xs) = erase_at i (map f xs)"
  by (simp add: erase_at_def take_map drop_map)

lemma eq_ok_update:
  assumes "eq_ok es" "i < length es" "qe_key e' = qe_key (es ! i)" "pending_ok e'"
  shows "eq_ok (es[i := e'])"
proof -
  have "map qe_key (es[i := e']) = map qe_key es" using assms(2,3) by (simp add: map_update list_update_same_conv)
  moreover have "pending_ok x" if "x \<in> set (es[i := e'])" for x
    using that assms(1,4) set_update_subset_insert [of es i e'] by (auto simp: eq_ok_def pending_ok_def)
  ultimately show ?thesis using assms(1) by (simp add: eq_ok_def pending_ok_def)
qed

lemma find_key_index:
  assumes "find_index (same_key ident filt) es = Some i"
  shows "i < length es" "qe_key (es ! i) = (ident, filt)" "find_key (ident, filt) es = Some (es ! i)"
proof -
  from find_index_SomeD [OF assms] show "i < length es" "qe_key (es ! i) = (ident, filt)"
    by (auto simp: same_key_iff)
  show "find_key (ident, filt) es = Some (es ! i)"
    using assms by (induction es arbitrary: i) (auto simp: same_key_iff split: if_splits)
qed

lemma find_key_no_index: "find_index (same_key ident filt) es = None \<longleftrightarrow> (ident, filt) \<notin> qe_key ` set es"
  by (auto simp: same_key_iff image_iff)

lemma nth_pending_ok: "eq_ok es \<Longrightarrow> i < length es \<Longrightarrow> pending_ok (es ! i)"
  by (auto simp: eq_ok_def pending_ok_def)

text \<open>One operation of each kind.\<close>

lemma queue_trigger:
  assumes "fifo_event e"
  shows "fifo_event (run_trigger tsc (qe_trigger e) d e) \<and>
    map kv_data (queue_of (run_trigger tsc (qe_trigger e) d e)) = map kv_data (queue_of e) @ [d]"
proof -
  have "\<exists>x. run_trigger tsc (qe_trigger e) d e = queue_event x e \<and> kv_flags x = kv_flags (qe_event e) \<and> kv_data x = d"
  proof (cases "qe_trigger e = AmprEventTriggerFunc")
    case True
    then show ?thesis by (intro exI [of _ "(qe_event e)\<lparr>kv_data := d\<rparr>"]) (simp add: run_trigger_def)
  next
    case False
    with assms have "qe_trigger e = EopEventTriggerFunc" by (auto simp: fifo_event_def)
    then show ?thesis
      by (intro exI [of _ "(qe_event e)\<lparr>kv_fflags := kv_fflags (qe_event e) + 1, kv_data := d\<rparr>"]) (simp add: run_trigger_def)
  qed
  then obtain x where x: "run_trigger tsc (qe_trigger e) d e = queue_event x e" "kv_flags x = kv_flags (qe_event e)" "kv_data x = d"
    by blast
  show ?thesis
  proof (cases "qe_triggered e")
    case True
    with assms x(2,3) show ?thesis by (auto simp: x(1) queue_event_def fifo_event_def queue_of_def)
  next
    case False
    with assms have "qe_pending e = []" by (auto simp: fifo_event_def)
    with False assms x(2,3) show ?thesis by (auto simp: x(1) queue_event_def fifo_event_def queue_of_def)
  qed
qed

lemma fifo_trigger:
  assumes "fifo_at k q ds"
  shows "fifo_at k (snd (TriggerEvent tsc ident filt d q)) (ds @ (if (ident, filt) = k then [d] else []))"
proof -
  from assms obtain e where e: "eq_ok (eq_events q)" "\<not> eq_closed q" "find_key k (eq_events q) = Some e" "fifo_event e"
    "map kv_data (queue_of e) = ds" by (auto simp: fifo_at_def)
  show ?thesis
  proof (cases "find_index (same_key ident filt) (eq_events q)")
    case None
    then have "(ident, filt) \<noteq> k" using e(3) find_key_mem [OF e(3)] by (auto simp: find_key_no_index simp del: find_index_None)
    with None assms e(2) show ?thesis by (simp add: TriggerEvent_def del: find_index_None)
  next
    case (Some i)
    note X = find_key_index [OF Some]
    let ?e' = "run_trigger tsc (qe_trigger (eq_events q ! i)) d (eq_events q ! i)"
    have p: "pending_ok ?e'"
      using trigger_frame(2) [OF nth_pending_ok [OF e(1) X(1), unfolded pending_ok_def]]
      unfolding pending_ok_def trigger_frame(1) by blast
    have ok: "eq_ok ((eq_events q)[i := ?e'])" by (rule eq_ok_update [OF e(1) X(1) trigger_frame(1) p])
    have fk: "find_key k ((eq_events q)[i := ?e']) = (if (ident, filt) = k then Some ?e' else Some e)"
      using find_key_update [OF e(1) X(1) trigger_frame(1)] X(2) e(3) by simp
    have "fifo_event ?e' \<and> map kv_data (queue_of ?e') = ds @ [d]" if "(ident, filt) = k"
    proof -
      have "eq_events q ! i = e" using X(3) e(3) that by simp
      with queue_trigger [OF e(4)] e(5) show ?thesis by simp
    qed
    moreover have "snd (TriggerEvent tsc ident filt d q) = q\<lparr>eq_events := (eq_events q)[i := ?e']\<rparr>"
      using Some e(2) by (simp add: TriggerEvent_def Let_def)
    ultimately show ?thesis using ok fk e(2,4,5) by (simp add: fifo_at_def)
  qed
qed

lemma fifo_add:
  assumes "fifo_at k q ds" "eq_allowed k (QAdd x)"
  shows "fifo_at k (snd (AddEvent x q)) ds"
proof -
  from assms obtain e where e: "eq_ok (eq_events q)" "\<not> eq_closed q" "find_key k (eq_events q) = Some e" "fifo_event e"
    "map kv_data (queue_of e) = ds" by (auto simp: fifo_at_def)
  let ?id = "kv_ident (qe_event x)" and ?fl = "kv_filter (qe_event x)"
  have kx: "qe_key x = (?id, ?fl)" by (simp add: qe_key_def ev_key_def)
  show ?thesis
  proof (cases "find_index (same_key ?id ?fl) (eq_events q)")
    case None
    then have new: "(?id, ?fl) \<notin> qe_key ` set (eq_events q)" by (simp add: find_key_no_index del: find_index_None)
    have "eq_ok (eq_events q @ [x])" using e(1) new assms(2) kx by (auto simp: eq_ok_def pending_ok_def)
    moreover have "find_key k (eq_events q @ [x]) = Some e" using e(3) by (simp add: find_key_append)
    ultimately show ?thesis using None e by (simp add: AddEvent_def fifo_at_def del: find_index_None)
  next
    case (Some i)
    note X = find_key_index [OF Some]
    let ?it = "eq_events q ! i" and ?u = "kv_udata (qe_event x)"
    let ?e' = "?it\<lparr>qe_deadline_ns := qe_deadline_ns x, qe_event := (qe_event ?it)\<lparr>kv_udata := ?u\<rparr>,
      qe_pending := map (\<lambda>p. p\<lparr>kv_udata := ?u\<rparr>) (qe_pending ?it)\<rparr>"
    have ke: "qe_key ?e' = qe_key ?it" by (simp add: qe_key_def ev_key_def)
    have p: "pending_ok ?e'" using nth_pending_ok [OF e(1) X(1)] by (auto simp: pending_ok_def ev_key_def qe_key_def)
    have fk: "find_key k ((eq_events q)[i := ?e']) = (if (?id, ?fl) = k then Some ?e' else Some e)"
      using find_key_update [OF e(1) X(1) ke] X(2) e(3) by simp
    have "fifo_event ?e' \<and> map kv_data (queue_of ?e') = ds" if "(?id, ?fl) = k"
    proof -
      have "?it = e" using X(3) e(3) that by simp
      moreover have "qe_deadline_ns x = 0" using assms(2) kx that by simp
      ultimately show ?thesis using e(4,5) by (auto simp: fifo_event_def queue_of_def)
    qed
    with fk e Some eq_ok_update [OF e(1) X(1) ke p] show ?thesis by (auto simp: AddEvent_def fifo_at_def Let_def)
  qed
qed

lemma fifo_delete:
  assumes "fifo_at k q ds" "(ident, filt) \<noteq> k"
  shows "fifo_at k (snd (snd (DeleteEvent ident filt q))) ds"
proof -
  from assms obtain e where e: "eq_ok (eq_events q)" "\<not> eq_closed q" "find_key k (eq_events q) = Some e" "fifo_event e"
    "map kv_data (queue_of e) = ds" by (auto simp: fifo_at_def)
  show ?thesis
  proof (cases "find_index (same_key ident filt) (eq_events q)")
    case None
    with assms e(2) show ?thesis by (simp add: DeleteEvent_def del: find_index_None)
  next
    case (Some i)
    note X = find_key_index [OF Some]
    have "find_key k (erase_at i es) = find_key k es" if "i < length es" "qe_key (es ! i) \<noteq> k" for es i
      using that
    proof (induction es arbitrary: i)
      case (Cons a es)
      then show ?case by (cases i) (auto simp: erase_at_def)
    qed simp
    moreover have "eq_ok (erase_at i es)" if "eq_ok es" for es i
    proof -
      have "distinct (map qe_key (erase_at i es))"
        using that by (simp add: eq_ok_def map_erase_at distinct_erase_at)
      with that set_erase_at_subset [of i es] show ?thesis by (auto simp: eq_ok_def)
    qed
    ultimately show ?thesis using e X assms(2) Some by (auto simp: DeleteEvent_def fifo_at_def)
  qed
qed

lemma fifo_get:
  assumes "fifo_at k q ds" "1 \<le> num"
  shows "\<exists>out q'. GetTriggeredEvents now num q = Ret (Inr out, q') \<and>
    (\<exists>ds'. fifo_at k q' ds' \<and> map kv_data (filter (\<lambda>x. ev_key x = k) out) @ ds' = ds)"
proof -
  from assms obtain e where e: "eq_ok (eq_events q)" "\<not> eq_closed q" "find_key k (eq_events q) = Some e" "fifo_event e"
    "map kv_data (queue_of e) = ds" by (auto simp: fifo_at_def)
  let ?es = "TriggerExpiredTimers now (eq_events q)"
  have key: "map qe_key ?es = map qe_key (eq_events q)" by (auto simp: TriggerExpiredTimers_def qe_key_def)
  have "qe_pending x = qe_pending y \<and> qe_key x = qe_key y" if "x = (if b then y\<lparr>qe_triggered := True\<rparr> else y)" for x y b
    using that by (simp add: qe_key_def)
  then have ok: "eq_ok ?es"
    using e(1) unfolding eq_ok_def key by (auto simp: TriggerExpiredTimers_def qe_key_def)
  have fk: "find_key k ?es = Some e"
  proof -
    have "find_key k (TriggerExpiredTimers now es) = map_option (\<lambda>e. hd (TriggerExpiredTimers now [e])) (find_key k es)" for es
      by (induction es) (auto simp: TriggerExpiredTimers_def qe_key_def)
    moreover have "TriggerExpiredTimers now [e] = [e]" using e(4) by (simp add: TriggerExpiredTimers_def fifo_event_def)
    ultimately show ?thesis using e(3) by simp
  qed
  obtain out es' where d: "deliver_all (nat num) ?es = (out, es')" by fastforce
  from deliver_all_fifo [OF d ok fk e(4)] deliver_all_frame [OF d ok] obtain e' where
    e': "find_key k es' = Some e'" "fifo_event e'" "filter (\<lambda>x. ev_key x = k) out @ queue_of e' = queue_of e" "eq_ok es'"
    by blast
  have "map kv_data (filter (\<lambda>x. ev_key x = k) out) @ map kv_data (queue_of e') = ds"
    using e(5) e'(3) by (metis map_append)
  then show ?thesis
    using assms(2) e(2) d e' by (auto simp: GetTriggeredEvents_def fifo_at_def)
qed

text \<open>
  C21: an event that queues its triggers (AMPR completions and the graphics end of pipe)
  delivers every trigger exactly once and in order. Whatever other threads do in between
  (triggering it or other events, adding or deleting others, re-registering it, reading with
  any room), what has been read from it followed by what it still holds is what it held at
  the start followed by what was triggered; no read fails.
\<close>

theorem fifo_event_delivers_once_in_order:
  assumes "fifo_at k q ds" "list_all (eq_allowed k) xs"
  shows "\<exists>out q' ds'. eq_run xs q = Ret (out, q') \<and> fifo_at k q' ds' \<and>
    map kv_data (filter (\<lambda>x. ev_key x = k) out) @ ds' = ds @ concat (map (eq_triggers k) xs)"
  using assms
proof (induction xs arbitrary: q ds)
  case Nil
  then show ?case by auto
next
  case (Cons x xs)
  have "\<exists>o1 q1 d1. eq_exec x q = Ret (o1, q1) \<and> fifo_at k q1 d1 \<and>
      map kv_data (filter (\<lambda>x. ev_key x = k) o1) @ d1 = ds @ eq_triggers k x"
  proof (cases x)
    case (QAdd e)
    with fifo_add [OF Cons.prems(1)] Cons.prems(2) show ?thesis by auto
  next
    case (QTrigger tsc ident filt d)
    with fifo_trigger [OF Cons.prems(1)] show ?thesis by auto
  next
    case (QDelete ident filt)
    with fifo_delete [OF Cons.prems(1)] Cons.prems(2) show ?thesis by auto
  next
    case (QGet now num)
    with fifo_get [OF Cons.prems(1), of num now] Cons.prems(2) show ?thesis by auto
  qed
  then obtain o1 q1 d1 where 1: "eq_exec x q = Ret (o1, q1)" "fifo_at k q1 d1"
    "map kv_data (filter (\<lambda>x. ev_key x = k) o1) @ d1 = ds @ eq_triggers k x" by blast
  from Cons.IH [OF 1(2)] Cons.prems(2) obtain o2 q2 d2 where 2: "eq_run xs q1 = Ret (o2, q2)" "fifo_at k q2 d2"
    "map kv_data (filter (\<lambda>x. ev_key x = k) o2) @ d2 = d1 @ concat (map (eq_triggers k) xs)" by auto
  have "map kv_data (filter (\<lambda>x. ev_key x = k) (o1 @ o2)) @ d2 = ds @ concat (map (eq_triggers k) (x # xs))"
    using 1(3) 2(3) by simp
  with 1(1) 2(1,2) show ?case by auto
qed

lemma fifo_event_delivers_once_in_order_witness:
  defines "q \<equiv> \<lparr>eq_events = [user_event 3 EV_ADD, ampr_event 7 9], eq_name = ''q'', eq_handle = 1, eq_closed = False\<rparr>"
    and "xs \<equiv> [QTrigger 0 7 KERNEL_EVFILT_USER 10, QTrigger 0 7 KERNEL_EVFILT_USER 11, QGet 5 1,
      QTrigger 0 7 KERNEL_EVFILT_USER 12, QDelete 3 KERNEL_EVFILT_USER, QGet 6 8]"
  shows "\<exists>out q' ds'. eq_run xs q = Ret (out, q') \<and> fifo_at (7, KERNEL_EVFILT_USER) q' ds' \<and>
    map kv_data (filter (\<lambda>x. ev_key x = (7, KERNEL_EVFILT_USER)) out) @ ds' = [10, 11, 12]"
proof -
  have "fifo_at (7, KERNEL_EVFILT_USER) q []"
    by (simp add: fifo_at_def q_def eq_ok_def qe_key_def ev_key_def user_event_def ampr_event_def fifo_event_def
      queue_of_def EV_ADD_def EV_CLEAR_def EV_ONESHOT_def)
  moreover have "list_all (eq_allowed (7, KERNEL_EVFILT_USER)) xs" by (simp add: xs_def)
  moreover have "concat (map (eq_triggers (7, KERNEL_EVFILT_USER)) xs) = [10, 11, 12]" by (simp add: xs_def)
  ultimately show ?thesis using fifo_event_delivers_once_in_order [of "(7, KERNEL_EVFILT_USER)" q "[]" xs] by simp
qed

section \<open>Level events\<close>

text \<open>
  A triggered event none of whose notifications is cleared or one-shot, as a user event that was
  added without \<open>EV_CLEAR\<close>.
\<close>

definition level_event :: "equeue_event \<Rightarrow> bool" where
  "level_event e \<longleftrightarrow> qe_triggered e \<and> (qe_reset e = ResetNone \<or> qe_reset e = UserEventResetFunc) \<and>
     (\<forall>x \<in> set (queue_of e). kv_flags x AND EV_CLEAR = 0 \<and> kv_flags x AND EV_ONESHOT = 0)"

definition last_notification :: "equeue_event \<Rightarrow> kernel_event" where
  "last_notification e = List.last (queue_of e)"

lemma level_next:
  assumes "level_event e"
  shows "run_reset e = e" "level_event (next_pending e)" "last_notification (next_pending e) = last_notification e"
    "queue_of e = qe_event e # (if qe_pending e = [] then [] else queue_of (next_pending e))"
    "qe_pending e = [] \<Longrightarrow> next_pending e = e"
  using assms by (auto simp: level_event_def run_reset_def next_pending_def last_notification_def queue_of_def split: list.splits)

lemma deliver_level:
  assumes "level_event e"
  shows "\<exists>e'. deliver room e = (take room (queue_of e @ replicate room (last_notification e)), Some e') \<and>
    level_event e' \<and> last_notification e' = last_notification e"
  using assms
proof (induction room arbitrary: e)
  case (Suc room)
  note n = level_next [OF Suc.prems]
  obtain e' where e': "deliver room (next_pending e) = (take room (queue_of (next_pending e) @ replicate room (last_notification e)), Some e')"
    "level_event e'" "last_notification e' = last_notification e"
    using Suc.IH [OF n(2)] n(3) by auto
  have flags: "qe_triggered e" "kv_flags (qe_event e) AND EV_ONESHOT = 0" using Suc.prems n(4) by (auto simp: level_event_def)
  have "take room (queue_of (next_pending e) @ replicate room (last_notification e)) =
      take room ((if qe_pending e = [] then [] else queue_of (next_pending e)) @ replicate (Suc room) (last_notification e))"
  proof (cases "qe_pending e = []")
    case True
    then have "queue_of e = [qe_event e]" "last_notification e = qe_event e" using n(4) by (simp_all add: last_notification_def)
    then show ?thesis using n(5) True by (simp flip: replicate_Suc)
  next
    case False
    then show ?thesis by (simp add: take_replicate min_def del: replicate_Suc)
  qed
  then show ?case using e' n(1,4) flags by auto
qed simp

lemma deliver_room: "length (fst (deliver room e)) \<le> room"
  by (induction room arbitrary: e) (auto simp: Let_def split: prod.splits, metis fst_conv)

lemma deliver_all_room: "length (fst (deliver_all room es)) \<le> room"
proof (induction es arbitrary: room)
  case (Cons e es)
  show ?case using Cons [of "room - length (fst (deliver room e))"] deliver_room [of room e]
    by (auto simp: Let_def split: prod.splits)
qed simp

lemma deliver_all_append:
  "deliver_all room (xs @ ys) = (case deliver_all room xs of (out, xs') \<Rightarrow>
     case deliver_all (room - length out) ys of (out', ys') \<Rightarrow> (out @ out', xs' @ ys'))"
proof (induction xs arbitrary: room)
  case (Cons x xs)
  have "deliver_all 0 ys = ([], ys)" by (cases ys) simp_all
  then show ?case using Cons by (auto simp: Let_def split: prod.splits)
qed (simp split: prod.splits)

text \<open>
  C23: once a level event is triggered, a read that has room left when it comes to it is filled to
  the last place: behind what the events registered before it deliver come the notifications that
  the level event has waiting, and then copies of the last of them, however large the output is.
  The loop that hands out queued notifications does not leave a level event after one copy.  The
  event stays as it is for the next read, and the events registered after it are neither
  reported nor changed.
\<close>

theorem level_event_fills_the_output:
  assumes "1 \<le> num" "\<not> eq_closed q" "TriggerExpiredTimers now_ns (eq_events q) = before @ e # after" "level_event e"
  shows "\<exists>before' e'. GetTriggeredEvents now_ns num q =
      Ret (Inr (take (nat num) (fst (deliver_all (nat num) before) @ queue_of e @ replicate (nat num) (last_notification e))),
        q\<lparr>eq_events := before' @ e' # after\<rparr>) \<and>
    level_event e' \<and> last_notification e' = last_notification e"
proof -
  obtain out before' where pre: "deliver_all (nat num) before = (out, before')" by fastforce
  let ?room = "nat num - length out"
  obtain e' where e': "deliver ?room e = (take ?room (queue_of e @ replicate ?room (last_notification e)), Some e')"
    "level_event e'" "last_notification e' = last_notification e" using deliver_level [OF assms(4)] by blast
  let ?notes = "queue_of e @ replicate ?room (last_notification e)"
  have "length (take ?room ?notes) = ?room" by simp
  then have "deliver_all ?room (e # after) = (take ?room ?notes, e' # after)" using e'(1) by simp
  then have "deliver_all (nat num) (before @ e # after) = (out @ take ?room ?notes, before' @ e' # after)"
    by (simp only: deliver_all_append pre prod.case)
  moreover have "length out \<le> nat num" using deliver_all_room [of "nat num" before] pre by simp
  moreover have "take ?room ?notes = take ?room (queue_of e @ replicate (nat num) (last_notification e))"
    by (simp add: take_replicate min_def)
  ultimately have "deliver_all (nat num) (before @ e # after) =
      (take (nat num) (out @ queue_of e @ replicate (nat num) (last_notification e)), before' @ e' # after)" by simp
  then show ?thesis using assms(1-3) e'(2,3) by (intro exI [of _ before'] exI [of _ e']) (simp add: GetTriggeredEvents_def pre)
qed

text \<open>A level event with nothing waiting behind an AMPR event with one notification.\<close>

lemma level_event_fills_the_output_witness:
  defines "e \<equiv> run_trigger 0 UserEventTriggerFunc 42 (user_event 3 EV_ADD)"
    and "a \<equiv> run_trigger 0 AmprEventTriggerFunc 9 (ampr_event 7 1)"
    and "q \<equiv> \<lparr>eq_events = [run_trigger 0 AmprEventTriggerFunc 9 (ampr_event 7 1),
        run_trigger 0 UserEventTriggerFunc 42 (user_event 3 EV_ADD), user_event 4 EV_ADD],
      eq_name = ''q'', eq_handle = 1, eq_closed = False\<rparr>"
  shows "\<exists>q'. GetTriggeredEvents 100 5 q = Ret (Inr (qe_event a # replicate 4 (qe_event e)), q')"
proof -
  have level: "level_event e" "queue_of e = [qe_event e]" "last_notification e = qe_event e"
    by (simp_all add: level_event_def last_notification_def queue_of_def e_def run_trigger_def user_event_def EV_ADD_def EV_CLEAR_def EV_ONESHOT_def)
  have "TriggerExpiredTimers 100 (eq_events q) = [a] @ e # [user_event 4 EV_ADD]"
    by (simp add: TriggerExpiredTimers_def q_def a_def e_def user_event_def run_trigger_def ampr_event_def queue_event_def)
  moreover have "deliver_all 5 [a] = ([qe_event a], [clear_event a])"
    unfolding a_def by code_simp
  moreover have "take (nat 5) ([qe_event a] @ queue_of e @ replicate (nat 5) (last_notification e)) = qe_event a # replicate 4 (qe_event e)"
    by (simp add: level eval_nat_numeral)
  moreover have "\<not> eq_closed q" by (simp add: q_def)
  ultimately show ?thesis using level_event_fills_the_output [OF _ _ _ level(1), of 5 q 100 "[a]" "[user_event 4 EV_ADD]"] by fastforce
qed

section \<open>Timers\<close>

text \<open>The nearest deadline of the armed timers, with the largest value standing for none.\<close>

definition armed :: "equeue_event \<Rightarrow> bool" where
  "armed e \<longleftrightarrow> \<not> qe_triggered e \<and> qe_deadline_ns e \<noteq> 0"

lemma nearest_le:
  "nearest_deadline d es \<le> d \<and> (\<forall>e \<in> set es. armed e \<longrightarrow> nearest_deadline d es \<le> qe_deadline_ns e)"
proof (induction es arbitrary: d)
  case (Cons e es)
  from Cons [of "if armed e then min d (qe_deadline_ns e) else d"] show ?case
    unfolding armed_def nearest_deadline_def by (auto split: if_splits)
qed (simp add: nearest_deadline_def)

text \<open>
  A sleep ends before it is a microsecond late for the nearest timer; no sleep is empty.
  The sum that rounds up does not wrap as long as deadlines stay below the largest values.
\<close>

lemma timer_wait_not_late:
  assumes "GetNextTimerWaitMicros now_ns es = Some w" "e \<in> set es" "armed e" "now_ns \<le> qe_deadline_ns e"
    "qe_deadline_ns e < 2 ^ 64 - 1000"
  shows "1 \<le> w \<and> w \<le> u32_max \<and> w * 1000 \<le> qe_deadline_ns e - now_ns + 1000"
proof -
  define n where "n = nearest_deadline u64_max es"
  define r where "r = (if n > now_ns then n - now_ns else 0)"
  have n: "n \<le> qe_deadline_ns e" using nearest_le [of u64_max es] assms(2,3) by (simp add: n_def)
  then have r: "r \<le> qe_deadline_ns e - now_ns" "r + 999 < 2 ^ 64" using assms(5) by (auto simp: r_def)
  have "Some w = (if n = u64_max then None else Some (min (max 1 ((r + 999) mod 2 ^ 64 div 1000)) u32_max))"
    using assms(1) by (simp only: GetNextTimerWaitMicros_def Let_def n_def r_def)
  then have w: "w = min (max 1 ((r + 999) div 1000)) u32_max"
    using r(2) by (simp only: mod_less option.inject option.distinct split: if_splits)
  then have "w \<le> max 1 ((r + 999) div 1000)" by linarith
  then have "w * 1000 \<le> max 1 ((r + 999) div 1000) * 1000" by simp
  moreover have "(r + 999) div 1000 * 1000 \<le> r + 999" by simp
  ultimately have "w * 1000 \<le> r + 1000" by (auto simp: max_def split: if_splits)
  with r(1) w show ?thesis by (simp add: u32_max_def)
qed

section \<open>Handles\<close>

text \<open>Every system call that changes the registry or a queue, as one step of the world.\<close>

datatype eq_call =
    CCreate bool "string option"
  | CAdd nat equeue_event
  | CTrigger u64 nat u64 int u64
  | CTriggerAll u64 int u64
  | CDelete nat u64 int
  | CDestroy nat
  | CWait nat nat nat bool int bool "nat option"

fun eq_call_step :: "eq_call \<Rightarrow> eq_world \<Rightarrow> eq_world outcome" where
  "eq_call_step (CCreate eq_null name) w = omap snd (KernelCreateEqueue eq_null name w)"
| "eq_call_step (CAdd h e) w = Ret (snd (KernelAddEvent h e w))"
| "eq_call_step (CTrigger tsc h ident filt d) w = Ret (snd (KernelTriggerEvent tsc h ident filt d w))"
| "eq_call_step (CTriggerAll tsc n udata) w = Ret (snd (KernelTriggerUserEventForAll tsc n udata w))"
| "eq_call_step (CDelete h ident filt) w = Ret (snd (snd (KernelDeleteEvent h ident filt w)))"
| "eq_call_step (CDestroy h) w = Ret (snd (snd (KernelDeleteEqueue h w)))"
| "eq_call_step (CWait now later h ev_null num out_null timo) w =
     omap (\<lambda>r. case r of Inl (c, xs, w) \<Rightarrow> w | Inr (t, w) \<Rightarrow> w)
       (KernelWaitEqueue now later h ev_null num out_null timo w)"

fun eq_calls :: "eq_call list \<Rightarrow> eq_world \<Rightarrow> eq_world outcome" where
  "eq_calls [] w = Ret w"
| "eq_calls (c # cs) w = obind (eq_call_step c w) (eq_calls cs)"

definition eq_world_new :: eq_world where
  "eq_world_new = \<lparr>ew_queues = (\<lambda>h. \<lparr>eq_events = [], eq_name = [], eq_handle = h, eq_closed = True\<rparr>), ew_live = [], ew_next = 1\<rparr>"

text \<open>
  Handles are issued once; a registered queue is open and knows its handle, an issued
  handle that is not registered belongs to a closed and empty queue.
\<close>

definition eq_world_ok :: "eq_world \<Rightarrow> bool" where
  "eq_world_ok w \<longleftrightarrow> distinct (ew_live w) \<and> 1 \<le> ew_next w \<and>
     (\<forall>h \<in> set (ew_live w). 0 < h \<and> h < ew_next w \<and> \<not> eq_closed (ew_queues w h) \<and> eq_handle (ew_queues w h) = h) \<and>
     (\<forall>h. h \<notin> set (ew_live w) \<longrightarrow> eq_closed (ew_queues w h) \<and> eq_events (ew_queues w h) = [])"

text \<open>What a queue operation keeps of the registry's view.\<close>

definition eq_frame :: "equeue \<Rightarrow> equeue \<Rightarrow> bool" where
  "eq_frame q q' \<longleftrightarrow> eq_closed q' = eq_closed q \<and> eq_handle q' = eq_handle q \<and> (eq_closed q \<longrightarrow> q' = q)"

definition same_handles :: "eq_world \<Rightarrow> eq_world \<Rightarrow> bool" where
  "same_handles w w' \<longleftrightarrow> ew_live w' = ew_live w \<and> ew_next w' = ew_next w \<and> (\<forall>h. eq_frame (ew_queues w h) (ew_queues w' h))"

lemma eq_frame_ops:
  "eq_frame q (snd (AddEvent e q))"
  "eq_frame q (snd (TriggerEvent tsc ident filt d q))"
  "eq_frame q (snd (snd (DeleteEvent ident filt q)))"
  by (simp_all add: eq_frame_def AddEvent_def TriggerEvent_def DeleteEvent_def Let_def split: option.split)

lemma get_frame: "GetTriggeredEvents now num q = Ret (r, q') \<Longrightarrow> eq_frame q q'"
  by (auto simp: eq_frame_def GetTriggeredEvents_def Let_def split: if_splits prod.splits)

lemma turn_frame: "WaitForEvents_turn now later num m el q = Ret (r, q') \<Longrightarrow> eq_frame q q'"
  by (auto simp: WaitForEvents_turn_def obind_Ret_iff Let_def dest!: get_frame split: if_splits)

lemma eq_frame_refl [simp]: "eq_frame q q"
  by (simp add: eq_frame_def)

lemma same_handles_refl [simp]: "same_handles w w"
  by (simp add: same_handles_def)

lemma same_handles_trans: "same_handles u v \<Longrightarrow> same_handles v w \<Longrightarrow> same_handles u w"
  unfolding same_handles_def eq_frame_def by (metis)

lemma same_handles_put: "eq_frame (ew_queues w h) q \<Longrightarrow> same_handles w (put_queue h q w)"
  by (simp add: same_handles_def put_queue_def)

lemma pin_Some: "KernelPinEqueue h w = Some q \<longleftrightarrow> h \<noteq> 0 \<and> h \<in> set (ew_live w) \<and> q = ew_queues w h"
  by (auto simp: KernelPinEqueue_def)

lemma trigger_each_frame: "same_handles w (snd (trigger_each tsc ident udata hs w))"
proof (induction hs arbitrary: w)
  case (Cons h hs)
  let ?q = "snd (TriggerEvent tsc ident KERNEL_EVFILT_USER udata (ew_queues w h))"
  have "same_handles w (put_queue h ?q w)" by (intro same_handles_put eq_frame_ops)
  with Cons [of "put_queue h ?q w"] show ?case
    by (auto simp: Let_def split: prod.split intro: same_handles_trans)
qed simp

lemma wait_frame:
  assumes "KernelWaitEqueue now later h ev_null num out_null timo w = Ret r"
  shows "same_handles w (case r of Inl (c, xs, w') \<Rightarrow> w' | Inr (t, w') \<Rightarrow> w')"
proof (cases "KernelPinEqueue h w")
  case None
  with assms show ?thesis by (auto simp: KernelWaitEqueue_def)
next
  case (Some q)
  then have q: "q = ew_queues w h" by (simp add: pin_Some)
  show ?thesis
  proof (cases "ev_null \<or> num < 1 \<or> out_null")
    case True
    with assms Some show ?thesis by (auto simp: KernelWaitEqueue_def split: if_splits)
  next
    case False
    show ?thesis
    proof (cases "timo = Some 0")
      case True
      with assms Some False show ?thesis
        by (auto simp: KernelWaitEqueue_def obind_Ret_iff q intro!: same_handles_put dest: get_frame)
    next
      case poll: False
      with assms Some False obtain x q' where
        x: "WaitForEvents_turn now later num (case timo of None \<Rightarrow> 0 | Some m \<Rightarrow> m) 0 q = Ret (x, q')"
        and r: "(case x of EqReturns y \<Rightarrow> Ret (Inl (eq_wait_ret y, (case y of Inl _ \<Rightarrow> [] | Inr xs \<Rightarrow> xs), put_queue h q' w))
          | EqSleeps t \<Rightarrow> Ret (Inr (t, put_queue h q' w))) = Ret r"
        by (auto simp: KernelWaitEqueue_def obind_Ret_iff)
      have "same_handles w (put_queue h q' w)" using turn_frame [OF x] q by (intro same_handles_put) simp
      with r show ?thesis by (cases x) auto
    qed
  qed
qed

lemma call_frame:
  assumes "eq_call_step c w = Ret w'" "\<forall>n nm. c \<noteq> CCreate n nm" "\<forall>h. c \<noteq> CDestroy h"
  shows "same_handles w w'"
proof (cases c)
  case (CAdd h e)
  with assms(1) show ?thesis
    by (auto simp: KernelAddEvent_def pin_Some split: option.splits prod.splits intro!: same_handles_put)
      (metis eq_frame_ops(1) snd_conv)
next
  case (CTrigger tsc h ident filt d)
  with assms(1) show ?thesis
    by (auto simp: KernelTriggerEvent_def pin_Some split: option.splits prod.splits intro!: same_handles_put)
      (metis eq_frame_ops(2) snd_conv)
next
  case (CTriggerAll tsc n udata)
  with assms(1) trigger_each_frame [of w tsc "as_ident n" udata "ew_live w"] show ?thesis
    by (auto simp: KernelTriggerUserEventForAll_def split: prod.splits)
next
  case (CDelete h ident filt)
  with assms(1) show ?thesis
    by (auto simp: KernelDeleteEvent_def pin_Some split: option.splits prod.splits intro!: same_handles_put)
      (metis eq_frame_ops(3) snd_conv)
next
  case (CWait now later h ev_null num out_null timo)
  with assms(1) show ?thesis by (auto simp: omap_Ret_iff dest: wait_frame)
qed (use assms in auto)

lemma same_handles_ok:
  assumes "same_handles w w'" "eq_world_ok w"
  shows "eq_world_ok w'"
proof -
  from assms(1) have l: "ew_live w' = ew_live w" "ew_next w' = ew_next w" by (simp_all add: same_handles_def)
  have "eq_closed (ew_queues w' h) = eq_closed (ew_queues w h) \<and> eq_handle (ew_queues w' h) = eq_handle (ew_queues w h) \<and>
      (eq_closed (ew_queues w h) \<longrightarrow> eq_events (ew_queues w' h) = eq_events (ew_queues w h))" for h
    using assms(1) by (simp add: same_handles_def eq_frame_def)
  then have q: "eq_closed (ew_queues w' h) = eq_closed (ew_queues w h)" "eq_handle (ew_queues w' h) = eq_handle (ew_queues w h)"
    "eq_closed (ew_queues w h) \<Longrightarrow> eq_events (ew_queues w' h) = eq_events (ew_queues w h)" for h by blast+
  from assms(2) show ?thesis unfolding eq_world_ok_def l q(1,2) using q(3) by simp
qed

lemma create_ok:
  assumes "KernelCreateEqueue eq_null name w = Ret (r, w')" "eq_world_ok w"
  shows "eq_world_ok w' \<and> set (ew_live w') \<subseteq> insert (ew_next w) (set (ew_live w)) \<and> ew_next w \<le> ew_next w'"
proof -
  let ?h = "ew_next w"
  have h: "?h \<notin> set (ew_live w)" "1 \<le> ?h" using assms(2) by (auto simp: eq_world_ok_def)
  from assms(1) consider "w' = w" | nm where "w' = w\<lparr>ew_next := ?h + 1, ew_live := ?h # ew_live w,
      ew_queues := (ew_queues w)(?h := \<lparr>eq_events = [], eq_name = nm, eq_handle = ?h, eq_closed = False\<rparr>)\<rparr>"
    by (auto simp: KernelCreateEqueue_def Let_def split: option.splits if_splits)
  then show ?thesis
  proof cases
    case 2
    have "eq_world_ok w'" using assms(2) h unfolding 2 eq_world_ok_def by (simp add: less_SucI)
    then show ?thesis by (simp add: 2)
  qed (use assms(2) in auto)
qed

lemma destroy_ok:
  assumes "eq_world_ok w"
  shows "eq_world_ok (snd (snd (KernelDeleteEqueue h w))) \<and>
    set (ew_live (snd (snd (KernelDeleteEqueue h w)))) = set (ew_live w) - {h} \<and>
    ew_next (snd (snd (KernelDeleteEqueue h w))) = ew_next w"
proof (cases "h \<in> set (ew_live w)")
  case True
  then have "\<not> eq_closed (ew_queues w h)" "distinct (ew_live w)" using assms by (auto simp: eq_world_ok_def)
  with True assms show ?thesis
    by (auto simp: KernelDeleteEqueue_def Equeue_Close_def put_queue_def eq_world_ok_def)
qed (use assms in \<open>auto simp: KernelDeleteEqueue_def\<close>)

lemma call_ok:
  assumes "eq_call_step c w = Ret w'" "eq_world_ok w"
  shows "eq_world_ok w' \<and> set (ew_live w') \<subseteq> set (ew_live w) \<union> {ew_next w} \<and> ew_next w \<le> ew_next w'"
proof (cases c)
  case (CCreate eq_null name)
  with assms(1) obtain r where "KernelCreateEqueue eq_null name w = Ret (r, w')" by (auto simp: omap_Ret_iff)
  from create_ok [OF this assms(2)] show ?thesis by auto
next
  case (CDestroy h)
  with assms(1) destroy_ok [OF assms(2), of h] show ?thesis by auto
next
  case (CWait now later h ev_null num out_null timo)
  with call_frame [OF assms(1)] have "same_handles w w'" by simp
  with same_handles_ok [OF this assms(2)] show ?thesis by (auto simp: same_handles_def)
qed (use call_frame [OF assms(1)] same_handles_ok [OF _ assms(2)] in \<open>simp_all add: same_handles_def subset_insertI\<close>)

lemma calls_ok:
  assumes "eq_calls cs w = Ret w'" "eq_world_ok w" "h < ew_next w" "h \<notin> set (ew_live w)"
  shows "eq_world_ok w' \<and> h < ew_next w' \<and> h \<notin> set (ew_live w')"
  using assms
proof (induction cs arbitrary: w)
  case (Cons c cs)
  from Cons.prems(1) obtain w1 where 1: "eq_call_step c w = Ret w1" "eq_calls cs w1 = Ret w'" by (auto simp: obind_Ret_iff)
  from call_ok [OF 1(1) Cons.prems(2)] Cons.prems(3,4) have "eq_world_ok w1" "h < ew_next w1" "h \<notin> set (ew_live w1)" by auto
  from Cons.IH [OF 1(2) this] show ?case .
qed simp

lemma eq_world_new_ok: "eq_world_ok eq_world_new"
  by (simp add: eq_world_ok_def eq_world_new_def)

text \<open>
  C22: deleting an event queue runs the delete callback of each of its events that has one,
  once and in registration order, and the handle is dead from then on: after any further
  system calls of any thread it is not found, it is never issued again and the queue behind
  it stays closed and empty. Every world reached keeps handles unique and registered queues open.
\<close>

theorem deleted_queue_stays_dead:
  assumes "eq_calls cs eq_world_new = Ret w" "KernelDeleteEqueue h w = (OK, calls, w1)" "eq_calls cs' w1 = Ret w2"
  shows "calls = map (\<lambda>e. (h, qe_delete e, e)) (filter (\<lambda>e. qe_delete e \<noteq> DeleteNone) (eq_events (ew_queues w h))) \<and>
    eq_world_ok w2 \<and> h < ew_next w2 \<and> KernelPinEqueue h w2 = None \<and>
    eq_closed (ew_queues w2 h) \<and> eq_events (ew_queues w2 h) = []"
proof -
  have ok: "eq_world_ok w" if "eq_calls cs v = Ret w" "eq_world_ok v" for cs v
    using that
  proof (induction cs arbitrary: v)
    case (Cons c cs)
    then show ?case by (auto simp: obind_Ret_iff dest: call_ok)
  qed simp
  from ok [OF assms(1) eq_world_new_ok] have w: "eq_world_ok w" .
  from assms(2) have h: "h \<in> set (ew_live w)" by (auto simp: KernelDeleteEqueue_def error_codes split: if_splits)
  then have c: "\<not> eq_closed (ew_queues w h)" "eq_handle (ew_queues w h) = h" "h < ew_next w" using w by (auto simp: eq_world_ok_def)
  from destroy_ok [OF w, of h] assms(2) c(3) have 1: "eq_world_ok w1" "h < ew_next w1" "h \<notin> set (ew_live w1)" by auto
  from calls_ok [OF assms(3) 1] have 2: "eq_world_ok w2" "h < ew_next w2" "h \<notin> set (ew_live w2)" by auto
  then have "eq_closed (ew_queues w2 h)" "eq_events (ew_queues w2 h) = []" by (auto simp: eq_world_ok_def)
  moreover have "KernelPinEqueue h w2 = None" using 2(3) by (simp add: KernelPinEqueue_def)
  moreover have "calls = delete_calls h (eq_events (ew_queues w h))"
    using assms(2) h c by (auto simp: KernelDeleteEqueue_def Equeue_Close_def)
  ultimately show ?thesis using 2 by (simp add: delete_calls_def)
qed

lemma deleted_queue_stays_dead_witness:
  "\<exists>w calls w1 w2. eq_calls [CCreate False (Some ''a''), CAdd 1 ((user_event 5 EV_ADD)\<lparr>qe_delete := EopEventDeleteFunc\<rparr>)] eq_world_new = Ret w \<and>
     KernelDeleteEqueue 1 w = (OK, calls, w1) \<and> length calls = 1 \<and>
     eq_calls [CCreate False (Some ''b''), CAdd 1 (user_event 5 EV_ADD)] w1 = Ret w2 \<and> KernelPinEqueue 1 w2 = None"
proof -
  let ?e = "(user_event 5 EV_ADD)\<lparr>qe_delete := EopEventDeleteFunc\<rparr>"
  let ?q = "\<lparr>eq_events = [?e], eq_name = ''a'', eq_handle = 1, eq_closed = False\<rparr>"
  obtain w where w: "eq_calls [CCreate False (Some ''a''), CAdd 1 ?e] eq_world_new = Ret w"
    "ew_live w = [1]" "ew_next w = 2" "ew_queues w 1 = ?q"
    by (simp add: KernelCreateEqueue_def eq_world_new_def KernelAddEvent_def KernelPinEqueue_def AddEvent_def put_queue_def)
  obtain calls w1 where d: "KernelDeleteEqueue 1 w = (OK, calls, w1)" "ew_next w1 = 2"
    using w by (simp add: KernelDeleteEqueue_def Equeue_Close_def put_queue_def)
  obtain w2 where w2: "eq_calls [CCreate False (Some ''b''), CAdd 1 (user_event 5 EV_ADD)] w1 = Ret w2"
    using d by (simp add: KernelCreateEqueue_def KernelAddEvent_def split: prod.split option.split)
  from deleted_queue_stays_dead [OF w(1) d(1) w2] w(1) d(1) w2 w(4) show ?thesis
    by (intro exI [of _ w] exI [of _ calls] exI [of _ w1] exI [of _ w2]) simp
qed

end
