(* ===== verification/StringUtils.thy ===== *)
theory StringUtils
  imports Prelude "HOL-Library.Char_ord" "HOL-Library.Sublist"
begin

unbundle bit_operations_syntax

text \<open>
  The string helpers of \<open>src/common/stringUtils.h\<close> over strings of bytes: searching, slicing,
  trimming, replacing, splitting and joining, path pieces, numbers and hexadecimal dumps.
  Character classes are those of the "C" locale. \<open>sv_find\<close>, \<open>sv_rfind\<close> and the like are the
  members of \<open>std::string_view\<close>; a size is a \<open>nat\<close>, \<open>None\<close> is \<open>npos\<close>.
\<close>

section \<open>The standard library\<close>

fun find_sub :: "string \<Rightarrow> string \<Rightarrow> nat option" where
  "find_sub needle [] = (if needle = [] then Some 0 else None)"
| "find_sub needle (c # cs) = (if prefix needle (c # cs) then Some 0 else map_option Suc (find_sub needle cs))"

definition sv_find :: "string \<Rightarrow> string \<Rightarrow> nat \<Rightarrow> nat option" where
  "sv_find tx needle start = (if start > length tx then None else map_option ((+) start) (find_sub needle (drop start tx)))"

definition sv_rfind :: "string \<Rightarrow> string \<Rightarrow> nat \<Rightarrow> nat option" where
  "sv_rfind tx needle start =
     (if length needle > length tx then None
      else find (\<lambda>p. prefix needle (drop p tx)) (rev [0..<min start (length tx - length needle) + 1]))"

text \<open>\<open>substr\<close> with a start inside the text.\<close>

definition sv_substr :: "string \<Rightarrow> nat \<Rightarrow> nat option \<Rightarrow> string" where
  "sv_substr tx start count = (case count of None \<Rightarrow> drop start tx | Some n \<Rightarrow> take n (drop start tx))"

definition char_code :: "char \<Rightarrow> nat" where
  "char_code c = of_char c"

definition tolower :: "nat \<Rightarrow> nat" where
  "tolower c = (if 65 \<le> c \<and> c \<le> 90 then c + 32 else c)"

text \<open>The value of a character as a digit; \<open>from_chars\<close> takes the digits of its base.\<close>

definition digit_value :: "char \<Rightarrow> nat option" where
  "digit_value c =
     (let n = char_code c in
      if 48 \<le> n \<and> n \<le> 57 then Some (n - 48)
      else if 65 \<le> n \<and> n \<le> 90 then Some (n - 55)
      else if 97 \<le> n \<and> n \<le> 122 then Some (n - 87)
      else None)"

definition is_digit :: "nat \<Rightarrow> char \<Rightarrow> bool" where
  "is_digit base c = (case digit_value c of None \<Rightarrow> False | Some d \<Rightarrow> d < base)"

definition number :: "nat \<Rightarrow> string \<Rightarrow> nat" where
  "number base ds = foldl (\<lambda>n c. n * base + the (digit_value c)) 0 ds"

definition from_chars_unsigned :: "nat \<Rightarrow> string \<Rightarrow> nat \<Rightarrow> nat option" where
  "from_chars_unsigned w tx base =
     (let ds = takeWhile (is_digit base) tx in
      if ds = [] \<or> number base ds \<ge> 2 ^ w then None else Some (number base ds))"

definition from_chars_signed :: "nat \<Rightarrow> string \<Rightarrow> nat \<Rightarrow> int option" where
  "from_chars_signed w tx base =
     (let neg = (tx \<noteq> [] \<and> hd tx = CHR ''-'');
          ds = takeWhile (is_digit base) (if neg then tl tx else tx);
          v = (if neg then - int (number base ds) else int (number base ds)) in
      if ds = [] \<or> v < - (2 ^ (w - 1)) \<or> v \<ge> 2 ^ (w - 1) then None else Some v)"

section \<open>Searching and comparing\<close>

definition FIND_INVALID_INDEX :: nat where
  "FIND_INVALID_INDEX = 2 ^ 32 - 1"

definition IsSpace :: "char \<Rightarrow> bool" where
  "IsSpace c \<longleftrightarrow> char_code c \<in> {9, 10, 11, 12, 13, 32}"

definition EqualNoCase :: "string \<Rightarrow> string \<Rightarrow> bool" where
  "EqualNoCase lhs rhs \<longleftrightarrow>
     length lhs = length rhs \<and>
     list_all2 (\<lambda>l r. tolower (char_code l) = tolower (char_code r)) lhs rhs"

definition ToLower :: "string \<Rightarrow> string" where
  "ToLower tx = map (\<lambda>c. char_of (tolower (char_code c))) tx"

definition ContainsStr :: "string \<Rightarrow> string \<Rightarrow> bool" where
  "ContainsStr tx needle \<longleftrightarrow> sv_find tx needle 0 \<noteq> None"

definition StartsWith :: "string \<Rightarrow> string \<Rightarrow> bool" where
  "StartsWith tx p \<longleftrightarrow> prefix p tx"

definition StartsWithChar :: "string \<Rightarrow> char \<Rightarrow> bool" where
  "StartsWithChar tx c \<longleftrightarrow> tx \<noteq> [] \<and> hd tx = c"

definition EndsWith :: "string \<Rightarrow> string \<Rightarrow> bool" where
  "EndsWith tx p \<longleftrightarrow> suffix p tx"

definition EndsWithChar :: "string \<Rightarrow> char \<Rightarrow> bool" where
  "EndsWithChar tx c \<longleftrightarrow> tx \<noteq> [] \<and> last tx = c"

definition ContainsChar :: "string \<Rightarrow> char \<Rightarrow> bool" where
  "ContainsChar tx c \<longleftrightarrow> sv_find tx [c] 0 \<noteq> None"

definition IndexValid :: "string \<Rightarrow> nat \<Rightarrow> bool" where
  "IndexValid tx index \<longleftrightarrow> index < length tx"

definition pos_index :: "nat option \<Rightarrow> nat" where
  "pos_index pos = (case pos of None \<Rightarrow> FIND_INVALID_INDEX | Some p \<Rightarrow> p mod 2 ^ 32)"

definition FindIndex :: "string \<Rightarrow> string \<Rightarrow> nat \<Rightarrow> nat" where
  "FindIndex tx needle start = pos_index (sv_find tx needle start)"

definition FindIndexChar :: "string \<Rightarrow> char \<Rightarrow> nat \<Rightarrow> nat" where
  "FindIndexChar tx c start = pos_index (sv_find tx [c] start)"

definition rfind_start :: "string \<Rightarrow> nat \<Rightarrow> nat" where
  "rfind_start tx start = (if start = FIND_INVALID_INDEX \<or> start > length tx then length tx else start)"

definition FindLastIndex :: "string \<Rightarrow> string \<Rightarrow> nat \<Rightarrow> nat" where
  "FindLastIndex tx needle start =
     (if needle = [] then 0 else pos_index (sv_rfind tx needle (rfind_start tx start)))"

definition FindLastIndexChar :: "string \<Rightarrow> char \<Rightarrow> nat \<Rightarrow> nat" where
  "FindLastIndexChar tx c start = pos_index (sv_rfind tx [c] (rfind_start tx start))"

section \<open>Slicing and trimming\<close>

definition Mid :: "string \<Rightarrow> nat \<Rightarrow> nat option \<Rightarrow> string" where
  "Mid tx first count = (if first \<ge> length tx then [] else sv_substr tx first count)"

definition Left :: "string \<Rightarrow> nat \<Rightarrow> string" where
  "Left tx count = Mid tx 0 (Some count)"

definition Right :: "string \<Rightarrow> nat \<Rightarrow> string" where
  "Right tx count = (if count \<ge> length tx then tx else Mid tx (length tx - count) (Some count))"

definition RemoveLast :: "string \<Rightarrow> nat \<Rightarrow> string" where
  "RemoveLast tx count = (if count \<ge> length tx then [] else Left tx (length tx - count))"

definition RemoveFirst :: "string \<Rightarrow> nat \<Rightarrow> string" where
  "RemoveFirst tx count = (if count \<ge> length tx then [] else Right tx (length tx - count))"

fun trim_end :: "string \<Rightarrow> nat \<Rightarrow> nat" where
  "trim_end tx 0 = 0"
| "trim_end tx (Suc n) = (if IsSpace (tx ! n) then trim_end tx n else Suc n)"

definition TrimRight :: "string \<Rightarrow> string" where
  "TrimRight tx = sv_substr tx 0 (Some (trim_end tx (length tx)))"

definition trim_first :: "string \<Rightarrow> nat" where
  "trim_first tx = prefix_len (\<lambda>i. IsSpace (tx ! i)) (length tx)"

definition TrimLeft :: "string \<Rightarrow> string" where
  "TrimLeft tx = sv_substr tx (trim_first tx) None"

definition Trim :: "string \<Rightarrow> string" where
  "Trim tx = TrimRight (TrimLeft tx)"

section \<open>Replacing, splitting and joining\<close>

definition ReplaceChar :: "string \<Rightarrow> char \<Rightarrow> char \<Rightarrow> string" where
  "ReplaceChar tx old_char new_char = map (\<lambda>c. if c = old_char then new_char else c) tx"

lemma find_sub_le: "find_sub needle tx = Some p \<Longrightarrow> p + length needle \<le> length tx"
  by (induction tx arbitrary: p) (auto split: if_splits dest: prefix_length_le)

lemma sv_find_bounds: "sv_find tx needle start = Some p \<Longrightarrow> start \<le> p \<and> p + length needle \<le> length tx"
  by (auto simp: sv_find_def split: if_splits dest!: find_sub_le)

text \<open>The loop of \<open>ReplaceStr\<close>; an empty pattern does not reach it.\<close>

function replace_loop :: "string \<Rightarrow> string \<Rightarrow> string \<Rightarrow> nat \<Rightarrow> string" where
  "replace_loop tx old_str new_str pos =
     (if old_str = [] then tx
      else case sv_find tx old_str pos of
        None \<Rightarrow> tx
      | Some p \<Rightarrow> replace_loop (take p tx @ new_str @ drop (p + length old_str) tx) old_str new_str (p + length new_str))"
  by auto
termination
proof (relation "measure (\<lambda>(tx, old_str, new_str, pos). length tx - pos)", goal_cases)
  case (2 tx old_str new_str pos p)
  then show ?case using sv_find_bounds [of tx old_str pos p] by (cases old_str) auto
qed auto

declare replace_loop.simps [simp del]

definition ReplaceStr :: "string \<Rightarrow> string \<Rightarrow> string \<Rightarrow> string" where
  "ReplaceStr tx old_str new_str = (if old_str = [] then tx else replace_loop tx old_str new_str 0)"

function split_loop :: "string \<Rightarrow> string \<Rightarrow> bool \<Rightarrow> nat \<Rightarrow> string list" where
  "split_loop tx sep keep_empty start =
     (if sep = [] then []
      else case sv_find tx sep start of
        None \<Rightarrow> (if keep_empty \<or> start \<noteq> length tx then [sv_substr tx start None] else [])
      | Some pos \<Rightarrow>
          (if keep_empty \<or> pos \<noteq> start then [sv_substr tx start (Some (pos - start))] else []) @
          split_loop tx sep keep_empty (pos + length sep))"
  by auto
termination
proof (relation "measure (\<lambda>(tx, sep, keep_empty, start). length tx - start)", goal_cases)
  case (2 tx sep keep_empty start pos)
  then show ?case using sv_find_bounds [of tx sep start pos] by (cases sep) auto
qed auto

declare split_loop.simps [simp del]

definition Split :: "string \<Rightarrow> string \<Rightarrow> bool \<Rightarrow> string list" where
  "Split tx sep keep_empty = (if sep = [] then map (\<lambda>c. [c]) tx else split_loop tx sep keep_empty 0)"

definition SplitChar :: "string \<Rightarrow> char \<Rightarrow> bool \<Rightarrow> string list" where
  "SplitChar tx sep keep_empty = Split tx [sep] keep_empty"

definition Concat :: "string list \<Rightarrow> string \<Rightarrow> string" where
  "Concat xs sep = concat (map (\<lambda>i. (if i \<noteq> 0 then sep else []) @ xs ! i) [0..<length xs])"

definition ConcatChar :: "string list \<Rightarrow> char \<Rightarrow> string" where
  "ConcatChar xs sep = Concat xs [sep]"

section \<open>Paths\<close>

definition find_last_of :: "string \<Rightarrow> char \<Rightarrow> nat option" where
  "find_last_of tx c = find (\<lambda>i. tx ! i = c) (rev [0..<length tx])"

definition DirectoryWithoutFilename :: "string \<Rightarrow> string" where
  "DirectoryWithoutFilename tx =
     (case find_last_of tx (CHR ''/'') of None \<Rightarrow> [] | Some pos \<Rightarrow> sv_substr tx 0 (Some (pos + 1)))"

definition FilenameWithoutDirectory :: "string \<Rightarrow> string" where
  "FilenameWithoutDirectory tx =
     (case find_last_of tx (CHR ''/'') of None \<Rightarrow> tx | Some pos \<Rightarrow> sv_substr tx (pos + 1) None)"

definition FilenameWithoutExtension :: "string \<Rightarrow> string" where
  "FilenameWithoutExtension tx =
     (case find_last_of tx (CHR ''.'') of None \<Rightarrow> tx | Some pos \<Rightarrow> sv_substr tx 0 (Some pos))"

definition ExtensionWithoutFilename :: "string \<Rightarrow> string" where
  "ExtensionWithoutFilename tx =
     (case find_last_of tx (CHR ''.'') of None \<Rightarrow> [] | Some pos \<Rightarrow> sv_substr tx pos None)"

definition FixFilenameSlash :: "string \<Rightarrow> string" where
  "FixFilenameSlash tx = ReplaceChar tx (CHR 0x5C) (CHR ''/'')"

definition FixDirectorySlash :: "string \<Rightarrow> string" where
  "FixDirectorySlash tx =
     (let ret = FixFilenameSlash tx in
      if \<not> EndsWithChar ret (CHR ''/'') then ret @ ''/'' else ret)"

section \<open>Numbers\<close>

definition ToUint32 :: "string \<Rightarrow> nat \<Rightarrow> nat" where
  "ToUint32 tx base = (case from_chars_unsigned 32 tx base of None \<Rightarrow> 0 | Some v \<Rightarrow> v)"

definition ToUint64 :: "string \<Rightarrow> nat \<Rightarrow> nat" where
  "ToUint64 tx base = (case from_chars_unsigned 64 tx base of None \<Rightarrow> 0 | Some v \<Rightarrow> v)"

definition ToInt32 :: "string \<Rightarrow> nat \<Rightarrow> int" where
  "ToInt32 tx base = (case from_chars_signed 32 tx base of None \<Rightarrow> 0 | Some v \<Rightarrow> v)"

definition ToInt64 :: "string \<Rightarrow> nat \<Rightarrow> int" where
  "ToInt64 tx base = (case from_chars_signed 64 tx base of None \<Rightarrow> 0 | Some v \<Rightarrow> v)"

definition SafeCsv :: "string \<Rightarrow> string" where
  "SafeCsv tx =
     (let add_space = (tx \<noteq> [] \<and> (hd tx = CHR ''+'' \<or> hd tx = CHR ''='' \<or> hd tx = CHR ''-'')) in
      if ContainsChar tx (CHR 0x22) \<or> ContainsChar tx (CHR '';'') \<or> ContainsChar tx (CHR ''+'') \<or>
         ContainsChar tx (CHR ''='') \<or> ContainsChar tx (CHR ''-'')
      then [CHR 0x22] @ (if add_space then '' '' else []) @ ReplaceStr tx [CHR 0x22] [CHR 0x22, CHR 0x22] @ [CHR 0x22]
      else tx)"

fun HexToBin :: "string \<Rightarrow> u8 list" where
  "HexToBin (a # b # tx) = (of_nat (ToUint32 [a, b] 16) AND 0xff) # HexToBin tx"
| "HexToBin tx = []"

text \<open>The formatting of a byte as two hexadecimal digits is the library's: \<open>fmt_02X\<close>.\<close>

definition HexFromBin :: "(nat \<Rightarrow> string) \<Rightarrow> u8 list \<Rightarrow> string" where
  "HexFromBin fmt_02X bin = concat (map (\<lambda>b. fmt_02X (unat b)) bin)"

section \<open>Decimal numerals\<close>

text \<open>A number in decimal, and padded with zeros to a width, as the printing functions write it.\<close>

definition digit :: "nat \<Rightarrow> char" where
  "digit n = char_of (48 + n)"

fun dec :: "nat \<Rightarrow> string" where
  "dec n = (if n < 10 then [digit n] else dec (n div 10) @ [digit (n mod 10)])"

declare dec.simps [simp del]

definition pad_dec :: "nat \<Rightarrow> nat \<Rightarrow> string" where
  "pad_dec w n = replicate (w - length (dec n)) (digit 0) @ dec n"

lemma digit_chars:
  "digit 0 = CHR ''0''" "digit 1 = CHR ''1''" "digit 2 = CHR ''2''" "digit 3 = CHR ''3''" "digit 4 = CHR ''4''"
  "digit 5 = CHR ''5''" "digit 6 = CHR ''6''" "digit 7 = CHR ''7''" "digit 8 = CHR ''8''" "digit 9 = CHR ''9''"
  by (simp_all add: digit_def char_of_def bit_iff_odd)

lemma char_code_digit: "n < 10 \<Longrightarrow> char_code (digit n) = 48 + n"
  by (simp add: char_code_def digit_def)

lemma digit_value_digit: "n < 10 \<Longrightarrow> digit_value (digit n) = Some n"
  by (simp add: digit_value_def char_code_digit)

lemma is_digit_digit: "n < 10 \<Longrightarrow> is_digit 10 (digit n)"
  by (simp add: is_digit_def digit_value_digit)

lemma dec_digits: "c \<in> set (dec n) \<Longrightarrow> is_digit 10 c"
  by (induction n rule: dec.induct) (subst (asm) (2) dec.simps, auto simp: is_digit_digit split: if_splits)

lemma dec_not_Nil: "dec n \<noteq> []"
  by (subst dec.simps) simp

lemma number_append: "number b (xs @ [c]) = number b xs * b + the (digit_value c)"
  by (simp add: number_def)

lemma number_dec: "number 10 (dec n) = n"
proof (induction n rule: dec.induct)
  case (1 n)
  show ?case
  proof (cases "n < 10")
    case True
    then show ?thesis by (subst dec.simps) (simp add: number_def digit_value_digit)
  next
    case False
    with 1 show ?thesis by (subst dec.simps) (simp add: number_append digit_value_digit)
  qed
qed

lemma length_dec: "n < 10 ^ w \<Longrightarrow> 0 < w \<Longrightarrow> length (dec n) \<le> w"
proof (induction n arbitrary: w rule: dec.induct)
  case (1 n)
  show ?case
  proof (cases "n < 10")
    case True
    with 1(3) show ?thesis by (subst dec.simps) simp
  next
    case False
    then obtain v where v: "w = Suc v" "0 < v" using 1(2,3) by (cases w; cases "w - 1") auto
    then have "n div 10 < 10 ^ v" using 1(2) by (simp add: less_mult_imp_div_less mult.commute)
    from 1(1) [OF False this v(2)] False v(1) show ?thesis by (subst dec.simps) simp
  qed
qed

lemma number_zeros: "number 10 (replicate k (digit 0) @ xs) = number 10 xs"
  by (induction k) (simp_all add: number_def digit_value_digit)

lemma pad_dec_facts:
  "number 10 (pad_dec w n) = n" "pad_dec w n \<noteq> []" "c \<in> set (pad_dec w n) \<Longrightarrow> is_digit 10 c"
  "n < 10 ^ w \<Longrightarrow> 0 < w \<Longrightarrow> length (pad_dec w n) = w"
  using length_dec [of n w] by (auto simp: pad_dec_def number_zeros number_dec dec_not_Nil dec_digits is_digit_digit)

lemma takeWhile_digits:
  assumes "\<forall>c \<in> set ds. P c" "rest = [] \<or> \<not> P (hd rest)"
  shows "takeWhile P (ds @ rest) = ds" "dropWhile P (ds @ rest) = rest"
  using assms by (cases rest; auto simp: takeWhile_append2 dropWhile_append2)+

text \<open>Parsing a printed number.\<close>

lemma ToInt32_pad_dec:
  assumes "n < 2 ^ 31"
  shows "ToInt32 (pad_dec w n) 10 = int n"
proof -
  have d: "takeWhile (is_digit 10) (pad_dec w n) = pad_dec w n"
    using pad_dec_facts(3) takeWhile_eq_all_conv by blast
  have "\<not> is_digit 10 (CHR ''-'')" by (simp add: is_digit_def digit_value_def char_code_def)
  then have "hd (pad_dec w n) \<noteq> CHR ''-''" using pad_dec_facts(2,3) by (metis list.set_sel(1))
  then have "from_chars_signed 32 (pad_dec w n) 10 = Some (int n)"
    using pad_dec_facts(1,2) [of w n] assms unfolding from_chars_signed_def by (simp add: Let_def d del: takeWhile_eq_all_conv)
  then show ?thesis by (simp add: ToInt32_def)
qed

section \<open>Splitting and joining\<close>

text \<open>The reference: the pieces between the leftmost occurrences that do not overlap.\<close>

lemma find_sub_prefix: "find_sub needle r = Some p \<Longrightarrow> prefix needle (drop p r)"
  by (induction r arbitrary: p) (auto split: if_splits)

lemma find_sub_decomp:
  assumes "find_sub needle r = Some p"
  shows "r = take p r @ needle @ drop (p + length needle) r"
proof -
  from find_sub_prefix [OF assms] obtain z where z: "drop p r = needle @ z" by (auto simp: prefix_def)
  then have "drop (p + length needle) r = z" by (metis add.commute append_eq_conv_conj drop_drop)
  with z show ?thesis by (metis append_take_drop_id)
qed

function pieces :: "string \<Rightarrow> string \<Rightarrow> string list" where
  "pieces sep r =
     (if sep = [] then [r]
      else case find_sub sep r of
        None \<Rightarrow> [r]
      | Some p \<Rightarrow> take p r # pieces sep (drop (p + length sep) r))"
  by auto
termination
proof (relation "measure (\<lambda>(sep, r). length r)", goal_cases)
  case (2 sep r p)
  then show ?case using find_sub_le [of sep r p] by (cases sep) auto
qed auto

declare pieces.simps [simp del]

definition joined :: "string \<Rightarrow> string list \<Rightarrow> string" where
  "joined sep xs = (case xs of [] \<Rightarrow> [] | y # ys \<Rightarrow> y @ concat (map (\<lambda>z. sep @ z) ys))"

lemma Concat_joined: "Concat xs sep = joined sep xs"
proof (cases xs)
  case (Cons y ys)
  have "map (\<lambda>i. sep @ ys ! i) [0..<length ys] = map (\<lambda>z. sep @ z) ys"
    by (rule nth_equalityI) simp_all
  moreover have "[0..<length xs] = 0 # map Suc [0..<length ys]" 
    by (simp add: Cons map_Suc_upt upt_conv_Cons del: upt_Suc)
  ultimately show ?thesis by (simp add: Concat_def joined_def Cons comp_def)
qed (simp add: Concat_def joined_def)

lemma pieces_not_Nil: "pieces sep r \<noteq> []"
  by (subst pieces.simps) (simp split: option.split)

lemma joined_Cons: "xs \<noteq> [] \<Longrightarrow> joined sep (y # xs) = y @ sep @ joined sep xs"
  by (cases xs) (simp_all add: joined_def)

lemma pieces_Some: "sep \<noteq> [] \<Longrightarrow> find_sub sep r = Some p \<Longrightarrow> pieces sep r = take p r # pieces sep (drop (p + length sep) r)"
  by (subst pieces.simps) simp

lemma pieces_None: "find_sub sep r = None \<Longrightarrow> pieces sep r = [r]"
  by (subst pieces.simps) simp

lemma joined_pieces:
  assumes "sep \<noteq> []"
  shows "joined sep (pieces sep r) = r"
  using assms
proof (induction sep r rule: pieces.induct)
  case (1 sep r)
  show ?case
  proof (cases "find_sub sep r")
    case None
    then show ?thesis by (simp add: pieces_None joined_def)
  next
    case (Some p)
    from 1 Some have "joined sep (pieces sep (drop (p + length sep) r)) = drop (p + length sep) r" by simp
    with Some 1(2) find_sub_decomp [OF Some] show ?thesis
      by (simp add: pieces_Some joined_Cons pieces_not_Nil)
  qed
qed

lemma sv_find_None: "start \<le> length r \<Longrightarrow> sv_find r needle start = None \<longleftrightarrow> find_sub needle (drop start r) = None"
  by (simp add: sv_find_def)

lemma sv_find_Some:
  "start \<le> length r \<Longrightarrow> sv_find r needle start = Some p \<longleftrightarrow> start \<le> p \<and> find_sub needle (drop start r) = Some (p - start)"
  by (auto simp: sv_find_def)

lemma split_loop_pieces:
  assumes "sep \<noteq> []" "start \<le> length r"
  shows "split_loop r sep keep start = (if keep then pieces sep (drop start r) else filter (\<lambda>x. x \<noteq> []) (pieces sep (drop start r)))"
  using assms
proof (induction r sep keep start rule: split_loop.induct)
  case (1 r sep keep start)
  show ?case
  proof (cases "sv_find r sep start")
    case None
    then have "find_sub sep (drop start r) = None" using 1(3) by (simp add: sv_find_None)
    with None 1(2,3) show ?thesis
      by (subst split_loop.simps) (simp add: pieces_None sv_substr_def)
  next
    case (Some p)
    note B = sv_find_bounds [OF Some]
    from Some 1(3) have f: "find_sub sep (drop start r) = Some (p - start)" by (simp add: sv_find_Some)
    have d: "drop (p - start + length sep) (drop start r) = drop (p + length sep) r" using B by (simp add: add.commute)
    from 1(1) [OF 1(2) Some 1(2)] B have IH: "split_loop r sep keep (p + length sep) =
        (if keep then pieces sep (drop (p + length sep) r) else filter (\<lambda>x. x \<noteq> []) (pieces sep (drop (p + length sep) r)))"
      by simp
    have "take (p - start) (drop start r) = [] \<longleftrightarrow> p = start" using B 1(2) by (cases sep) auto
    with Some 1(2) f IH d show ?thesis
      by (subst split_loop.simps) (simp add: pieces_Some sv_substr_def)
  qed
qed

lemma replace_loop_pieces:
  assumes "old_str \<noteq> []" "pos \<le> length r"
  shows "replace_loop r old_str new_str pos = take pos r @ joined new_str (pieces old_str (drop pos r))"
  using assms
proof (induction r old_str new_str pos rule: replace_loop.induct)
  case (1 r old_str new_str pos)
  show ?case
  proof (cases "sv_find r old_str pos")
    case None
    then have "find_sub old_str (drop pos r) = None" using 1(3) by (simp add: sv_find_None)
    with None 1(2,3) show ?thesis
      by (subst replace_loop.simps) (simp add: pieces_None joined_def)
  next
    case (Some p)
    note B = sv_find_bounds [OF Some]
    from Some 1(3) have f: "find_sub old_str (drop pos r) = Some (p - pos)" by (simp add: sv_find_Some)
    let ?r = "take p r @ new_str @ drop (p + length old_str) r"
    have d: "drop (p - pos + length old_str) (drop pos r) = drop (p + length old_str) r" using B by (simp add: add.commute)
    have l: "p + length new_str \<le> length ?r" using B by simp linarith
    have "drop (p + length new_str) ?r = drop (p + length old_str) r" "take (p + length new_str) ?r = take p r @ new_str"
      using B by simp_all
    with 1(1) [OF 1(2) Some 1(2) l] have
      "replace_loop ?r old_str new_str (p + length new_str) = (take p r @ new_str) @ joined new_str (pieces old_str (drop (p + length old_str) r))"
      by simp
    moreover have "take p r = take pos r @ take (p - pos) (drop pos r)" using B by (metis le_add_diff_inverse take_add)
    ultimately show ?thesis using Some 1(2) f d
      by (subst replace_loop.simps) (simp add: pieces_Some joined_Cons pieces_not_Nil)
  qed
qed

text \<open>
  C40: splitting is undone by joining: the pieces that \<open>Split\<close> returns when it keeps empty
  pieces, joined with the separator, are the text; without empty pieces it returns the
  others; and \<open>ReplaceStr\<close> replaces exactly the leftmost occurrences that do not overlap, so
  its result is the pieces around the pattern joined with the replacement.
\<close>

theorem Split_Concat_ReplaceStr:
  assumes "sep \<noteq> []"
  shows "Concat (Split r sep True) sep = r \<and>
    Split r sep False = filter (\<lambda>x. x \<noteq> []) (Split r sep True) \<and>
    ReplaceStr r sep new_str = Concat (Split r sep True) new_str"
  using assms split_loop_pieces [OF assms, of 0 r] replace_loop_pieces [OF assms, of 0 r new_str]
  by (simp add: Split_def ReplaceStr_def Concat_joined joined_pieces)

lemma Split_Concat_ReplaceStr_witness:
  "Concat (Split ''a,,b,'' '','' True) '','' = ''a,,b,'' \<and> Split ''a,,b,'' '','' False = [''a'', ''b''] \<and>
   ReplaceStr ''a,,b,'' '','' '';;'' = ''a;;;;b;;''"
proof -
  have *: "Concat (Split ''a,,b,'' '','' True) '','' = ''a,,b,'' \<and>
      Split ''a,,b,'' '','' False = filter (\<lambda>x. x \<noteq> []) (Split ''a,,b,'' '','' True) \<and>
      ReplaceStr ''a,,b,'' '','' '';;'' = Concat (Split ''a,,b,'' '','' True) '';;''"
    by (rule Split_Concat_ReplaceStr) simp
  have "Split ''a,,b,'' '','' True = [''a'', [], ''b'', []]"
    by (simp add: Split_def split_loop.simps sv_find_def sv_substr_def)
  with * show ?thesis by (simp add: Concat_joined joined_def)
qed

text \<open>Splitting at a character that does not occur in the first piece.\<close>

lemma find_sub_char: "c \<notin> set w \<Longrightarrow> find_sub [c] (w @ c # r) = Some (length w)" "c \<notin> set w \<Longrightarrow> find_sub [c] w = None"
  by (induction w) auto

lemma pieces_char: "c \<notin> set w \<Longrightarrow> pieces [c] (w @ c # r) = w # pieces [c] r" "c \<notin> set w \<Longrightarrow> pieces [c] w = [w]"
  by (simp_all add: pieces_Some pieces_None find_sub_char)

lemma SplitChar_words: "SplitChar s c False = filter (\<lambda>x. x \<noteq> []) (pieces [c] s)"
  using split_loop_pieces [of "[c]" 0 s False] by (simp add: SplitChar_def Split_def)

lemma digits_no_char: "c \<in> set (dec n) \<Longrightarrow> c \<noteq> CHR '' ''"
  using dec_digits by (fastforce simp: is_digit_def digit_value_def char_code_def)

end
