(* ===== verification/Calendar.thy ===== *)
theory Calendar
  imports Prelude
begin

text \<open>
  The proleptic Gregorian calendar as a reference for the date code of
  \<open>src/common/dateTime.cpp\<close> and \<open>src/libs/libRtc.cpp\<close>: a date is a year, a month and a day,
  with a year 0, and the calendar is the successor function \<open>next_day\<close>. Both programs compute
  with years that begin in March; the arithmetic they share is proved here once against the
  successor function.
\<close>

section \<open>The calendar\<close>

type_synonym ymd = "int \<times> int \<times> int"

definition leap :: "int \<Rightarrow> bool" where
  "leap y \<longleftrightarrow> y mod 4 = 0 \<and> (y mod 100 \<noteq> 0 \<or> y mod 400 = 0)"

definition month_len :: "int \<Rightarrow> int \<Rightarrow> int" where
  "month_len y m = (if m = 2 then (if leap y then 29 else 28) else if m = 4 \<or> m = 6 \<or> m = 9 \<or> m = 11 then 30 else 31)"

definition ymd_ok :: "ymd \<Rightarrow> bool" where
  "ymd_ok t \<longleftrightarrow> (case t of (y, m, d) \<Rightarrow> 1 \<le> m \<and> m \<le> 12 \<and> 1 \<le> d \<and> d \<le> month_len y m)"

definition next_day :: "ymd \<Rightarrow> ymd" where
  "next_day t = (case t of (y, m, d) \<Rightarrow>
     if d < month_len y m then (y, m, d + 1)
     else if m < 12 then (y, m + 1, 1)
     else (y + 1, 1, 1))"

lemma next_day_ok: "ymd_ok t \<Longrightarrow> ymd_ok (next_day t)"
  by (auto simp: ymd_ok_def next_day_def month_len_def split: if_splits)

section \<open>Years that begin in March\<close>

text \<open>The days before a year that begins in March, and before a month of it.\<close>

definition march_days :: "int \<Rightarrow> int" where
  "march_days y = 365 * y + y div 4 - y div 100 + y div 400"

definition month_start :: "int \<Rightarrow> int" where
  "month_start m = (153 * m + 2) div 5"

text \<open>Days since March 1 of the year 0.\<close>

definition day_number :: "ymd \<Rightarrow> int" where
  "day_number t = (case t of (y, m, d) \<Rightarrow>
     if m \<le> 2 then march_days (y - 1) + month_start (m + 9) + d - 1
     else march_days y + month_start (m - 3) + d - 1)"

lemma march_days_step: "march_days y - march_days (y - 1) = (if leap y then 366 else 365)"
proof -
  have *: "y div k - (y - 1) div k = (if y mod k = 0 then 1 else 0)" if "0 < k" for k :: int
  proof (cases "y mod k = 0")
    case True
    then obtain q where "y = k * q" by auto
    moreover have "(k * q - 1) div k = q - 1"
      using that by (intro div_pos_pos_trivial [THEN trans] int_div_pos_eq [of _ k "q - 1" "k - 1"]) (auto simp: algebra_simps)
    ultimately show ?thesis using that by simp
  next
    case False
    have "(y - 1) div k = y div k"
      using False that pos_mod_sign [OF that, of y] pos_mod_bound [OF that, of y] div_mult_mod_eq [of y k]
      by (intro int_div_pos_eq [of _ k "y div k" "y mod k - 1"]) (auto simp: algebra_simps)
    with False show ?thesis by simp
  qed
  have diff: "365 * y + p - q + r - (365 * (y - 1) + p' - q' + r') = 365 + (p - p') - (q - q') + (r - r')" for p q r p' q' r' :: int
    by (simp add: algebra_simps)
  have "march_days y - march_days (y - 1) =
      365 + (y div 4 - (y - 1) div 4) - (y div 100 - (y - 1) div 100) + (y div 400 - (y - 1) div 400)"
    unfolding march_days_def by (rule diff)
  also have "\<dots> = 365 + (if y mod 4 = 0 then 1 else 0) - (if y mod 100 = 0 then 1 else 0) + (if y mod 400 = 0 then 1 else 0)"
    unfolding * [OF zero_less_numeral] by (rule refl)
  finally have eq: "march_days y - march_days (y - 1) =
      365 + (if y mod 4 = 0 then 1 else 0) - (if y mod 100 = 0 then 1 else 0) + (if y mod 400 = 0 then 1 else 0)" .
  have sub: "y mod k = 0" if "y mod (j * k) = 0" for j k :: int
    using that dvd_trans [of k "j * k" y] by (simp only: mod_eq_0_iff_dvd dvd_triv_right)
  have "y mod 400 = 0 \<Longrightarrow> y mod 100 = 0" using sub [of 4 100] by (simp only: numeral_times_numeral semiring_norm)
  moreover have "y mod 100 = 0 \<Longrightarrow> y mod 4 = 0" using sub [of 25 4] by (simp only: numeral_times_numeral semiring_norm)
  ultimately show ?thesis unfolding eq leap_def by presburger
qed

lemma month_cases:
  fixes m :: int
  assumes "1 \<le> m" "m \<le> 12"
  obtains "m = 1" | "m = 2" | "m = 3" | "m = 4" | "m = 5" | "m = 6" | "m = 7" | "m = 8" | "m = 9" | "m = 10" | "m = 11" | "m = 12"
proof -
  have "m = 1 \<or> m = 2 \<or> m = 3 \<or> m = 4 \<or> m = 5 \<or> m = 6 \<or> m = 7 \<or> m = 8 \<or> m = 9 \<or> m = 10 \<or> m = 11 \<or> m = 12"
    using assms by presburger
  with that show ?thesis by blast
qed

lemma day_number_next:
  assumes "ymd_ok t"
  shows "day_number (next_day t) = day_number t + 1"
proof -
  obtain y m d where t: "t = (y, m, d)" by (cases t)
  have ok: "1 \<le> m" "m \<le> 12" "1 \<le> d" "d \<le> month_len y m" using assms by (auto simp: t ymd_ok_def)
  show ?thesis
  proof (cases "d < month_len y m")
    case True
    then show ?thesis by (simp add: t next_day_def day_number_def)
  next
    case False
    with ok have d: "d = month_len y m" by simp
    from ok(1,2) show ?thesis
      by (cases rule: month_cases)
        (use march_days_step [of y] d in \<open>simp_all add: t next_day_def day_number_def month_len_def month_start_def split: if_splits\<close>)
  qed
qed

section \<open>From a day number to a date\<close>

text \<open>
  A year that begins in March is a century \<open>b\<close> and a year \<open>c\<close> of it; both offsets are
  quotients by four of a multiple of the length of four of them.
\<close>

definition century :: "int \<Rightarrow> int" where
  "century n = (4 * n + 3) div 146097"

definition century_day :: "int \<Rightarrow> int" where
  "century_day n = n - 146097 * century n div 4"

definition century_year :: "int \<Rightarrow> int" where
  "century_year n = (4 * century_day n + 3) div 1461"

definition year_day :: "int \<Rightarrow> int" where
  "year_day n = century_day n - 1461 * century_year n div 4"

definition month_index :: "int \<Rightarrow> int" where
  "month_index n = (5 * year_day n + 2) div 153"

definition ymd_of :: "int \<Rightarrow> ymd" where
  "ymd_of n =
     (100 * century n + century_year n + month_index n div 10,
      month_index n + 3 - 12 * (month_index n div 10),
      year_day n - month_start (month_index n) + 1)"

lemma march_days_split:
  assumes "0 \<le> c" "c \<le> 99"
  shows "march_days (100 * b + c) = 146097 * b div 4 + 1461 * c div 4"
proof -
  have 4: "(100 * b + c) div 4 = 25 * b + c div 4"
    using div_mult_self1 [of 4 c "25 * b"] by (simp add: algebra_simps)
  have 100: "(100 * b + c) div 100 = b" using assms by simp
  have "(100 * b + c) div 400 = (100 * b + c) div 100 div 4" using zdiv_zmult2_eq [of 4 "100 * b + c" 100] by simp
  then have 400: "(100 * b + c) div 400 = b div 4" by (simp only: 100)
  have b: "146097 * b div 4 = 36524 * b + b div 4"
    using div_mult_self1 [of 4 b "36524 * b"] by (simp add: algebra_simps)
  have c: "1461 * c div 4 = 365 * c + c div 4"
    using div_mult_self1 [of 4 c "365 * c"] by (simp add: algebra_simps)
  show ?thesis unfolding march_days_def 4 100 400 b c by (simp add: algebra_simps)
qed

lemma leap_split:
  assumes "0 \<le> c" "c \<le> 99"
  shows "leap (100 * b + c + 1) \<longleftrightarrow> c mod 4 = 3 \<and> (c = 99 \<longrightarrow> b mod 4 = 3)"
proof -
  have "(100 * b + c + 1) mod 4 = (c + 1) mod 4"
    using mod_mult_self1 [of "c + 1" "25 * b" 4] by (simp add: algebra_simps)
  then have 4: "(100 * b + c + 1) mod 4 = 0 \<longleftrightarrow> c mod 4 = 3" by presburger
  have "(100 * b + c + 1) mod 100 = (c + 1) mod 100"
    using mod_mult_self1 [of "c + 1" b 100] by (simp add: algebra_simps)
  then have 100: "(100 * b + c + 1) mod 100 = 0 \<longleftrightarrow> c = 99" using assms by (cases "c = 99") auto
  have "(100 * b + 99 + 1) mod 400 = 100 * ((b + 1) mod 4)"
    using mult_mod_right [of 100 "b + 1" 4] by (simp add: algebra_simps)
  moreover have "(b + 1) mod 4 = 0 \<longleftrightarrow> b mod 4 = 3" by presburger
  ultimately have "(100 * b + 99 + 1) mod 400 = 0 \<longleftrightarrow> b mod 4 = 3" by simp
  then show ?thesis unfolding leap_def using 4 100 by auto
qed

text \<open>The quotients recover the century, the year of it and the day of the year.\<close>

lemma four_quotient: "4 * (k * x div 4) = k * x - (k * x) mod 4" for k x :: int
  by (simp add: minus_mod_eq_mult_div [symmetric])

lemma quotients:
  assumes "0 \<le> c" "c \<le> 99" "0 \<le> e" "e \<le> 365" "e = 365 \<Longrightarrow> c mod 4 = 3 \<and> (c = 99 \<longrightarrow> b mod 4 = 3)"
  defines "n \<equiv> 146097 * b div 4 + 1461 * c div 4 + e"
  shows "century n = b" "century_day n = 1461 * c div 4 + e" "century_year n = c" "year_day n = e"
proof -
  have rb: "4 * (146097 * b div 4) = 146097 * b - b mod 4" "0 \<le> b mod 4" "b mod 4 \<le> 3"
    using four_quotient [of 146097 b] by (simp_all add: mod_mult_left_eq [of 146097 4 b, symmetric])
  have rc: "4 * (1461 * c div 4) = 1461 * c - c mod 4" "0 \<le> c mod 4" "c mod 4 \<le> 3"
    using four_quotient [of 1461 c] by (simp_all add: mod_mult_left_eq [of 1461 4 c, symmetric])
  have e: "4 * e \<le> 1457 + c mod 4" "c = 99 \<Longrightarrow> 4 * e \<le> 1457 + b mod 4"
    using assms(4,5) rb(2) rc(2) by (cases "e = 365"; auto)+
  have n: "4 * n + 3 = 146097 * b + (3 - b mod 4 + (1461 * c - c mod 4) + 4 * e)"
    unfolding n_def distrib_left rb(1) rc(1) by (simp only: algebra_simps)
  have lt: "3 - b mod 4 + (1461 * c - c mod 4) + 4 * e < 146097"
  proof (cases "c = 99")
    case True
    with e(2) show ?thesis by simp
  next
    case False
    with assms(2) e(1) rb(2) show ?thesis by linarith
  qed
  have pos: "0 \<le> 1461 * c div 4" using assms(1) by simp
  have "0 \<le> 3 - b mod 4 + (1461 * c - c mod 4) + 4 * e" using rb(3) rc(1) assms(3) pos by linarith
  with lt show 1: "century n = b" unfolding century_def n
    by (intro int_div_pos_eq [of _ 146097 b, OF refl])
  show 2: "century_day n = 1461 * c div 4 + e" unfolding century_day_def 1 by (simp add: n_def)
  have eq: "4 * century_day n + 3 = 1461 * c + (3 - c mod 4 + 4 * e)" unfolding 2 distrib_left rc(1) by (simp only: algebra_simps)
  have "0 \<le> 3 - c mod 4 + 4 * e" "3 - c mod 4 + 4 * e < 1461" using e(1) rc(3) assms(3) by linarith+
  from int_div_pos_eq [OF eq this] show 3: "century_year n = c" unfolding century_year_def .
  show "year_day n = e" unfolding year_day_def 2 3 by simp
qed

lemma quotient_bounds:
  "0 \<le> century_year n" "century_year n \<le> 99" "0 \<le> year_day n" "year_day n \<le> 365"
  "year_day n = 365 \<Longrightarrow> century_year n mod 4 = 3 \<and> (century_year n = 99 \<longrightarrow> century n mod 4 = 3)"
  "n = 146097 * century n div 4 + 1461 * century_year n div 4 + year_day n"
proof -
  define b where "b = century n"
  define c where "c = century_year n"
  define k where "k = century_day n"
  define e where "e = year_day n"
  have b: "146097 * b \<le> 4 * n + 3" "4 * n + 3 \<le> 146097 * b + 146096"
    unfolding b_def century_def using pos_mod_bound [of 146097 "4 * n + 3"] pos_mod_sign [of 146097 "4 * n + 3"]
      div_mult_mod_eq [of "4 * n + 3" 146097] by linarith+
  have rb: "4 * (146097 * b div 4) = 146097 * b - b mod 4" "0 \<le> b mod 4" "b mod 4 \<le> 3"
    using four_quotient [of 146097 b] by (simp_all add: mod_mult_left_eq [of 146097 4 b, symmetric])
  have k: "k = n - 146097 * b div 4" by (simp add: k_def century_day_def b_def)
  have k4: "0 \<le> k" "4 * k \<le> 146093 + b mod 4" using k b rb by linarith+
  have c: "1461 * c \<le> 4 * k + 3" "4 * k + 3 \<le> 1461 * c + 1460"
    unfolding c_def century_year_def k_def [symmetric] using pos_mod_bound [of 1461 "4 * k + 3"] pos_mod_sign [of 1461 "4 * k + 3"]
      div_mult_mod_eq [of "4 * k + 3" 1461] by linarith+
  have rc: "4 * (1461 * c div 4) = 1461 * c - c mod 4" "0 \<le> c mod 4" "c mod 4 \<le> 3"
    using four_quotient [of 1461 c] by (simp_all add: mod_mult_left_eq [of 1461 4 c, symmetric])
  have e: "e = k - 1461 * c div 4" by (simp add: e_def year_day_def k_def c_def)
  have c2: "0 \<le> c" "c \<le> 99" using c k4 rb by linarith+
  have e2: "0 \<le> e" "4 * e \<le> 1457 + c mod 4" using e c rc by linarith+
  have "e \<le> 365" using e2 rc by linarith
  have "c mod 4 = 3 \<and> (c = 99 \<longrightarrow> b mod 4 = 3)" if "e = 365"
  proof -
    have 3: "c mod 4 = 3" using that e2 rc by linarith
    moreover have "b mod 4 = 3" if "c = 99"
    proof -
      have "4 * k = 1461 * 99 - 3 + 4 * 365" using e rc(1) 3 that \<open>e = 365\<close> by linarith
      with k4 rb show ?thesis by linarith
    qed
    ultimately show ?thesis by simp
  qed
  with c2 e2(1) \<open>e \<le> 365\<close> k e show "0 \<le> century_year n" "century_year n \<le> 99" "0 \<le> year_day n" "year_day n \<le> 365"
    "year_day n = 365 \<Longrightarrow> century_year n mod 4 = 3 \<and> (century_year n = 99 \<longrightarrow> century n mod 4 = 3)"
    "n = 146097 * century n div 4 + 1461 * century_year n div 4 + year_day n"
    by (simp_all add: b_def [symmetric] c_def [symmetric] e_def [symmetric])
qed

text \<open>The month of a day of a year that begins in March.\<close>

lemma month_of_day:
  assumes "0 \<le> m" "m \<le> 11" "0 \<le> d" "month_start m + d < month_start (m + 1)"
  shows "(5 * (month_start m + d) + 2) div 153 = m"
proof -
  have "5 * month_start m \<le> 153 * m + 2" "153 * m - 2 \<le> 5 * month_start m" "5 * month_start (m + 1) \<le> 153 * (m + 1) + 2"
    unfolding month_start_def using pos_mod_bound [of 5 "153 * m + 2"] pos_mod_sign [of 5 "153 * m + 2"]
      pos_mod_sign [of 5 "153 * (m + 1) + 2"] div_mult_mod_eq [of "153 * m + 2" 5] div_mult_mod_eq [of "153 * (m + 1) + 2" 5]
    by (simp_all only: mult.commute [of _ 5])
  then have "0 \<le> 5 * (month_start m + d) + 2 - 153 * m" "5 * (month_start m + d) + 2 - 153 * m < 153"
    using assms(3,4) by (simp_all add: algebra_simps)
  moreover have "5 * (month_start m + d) + 2 = 153 * m + (5 * (month_start m + d) + 2 - 153 * m)" by simp
  ultimately show ?thesis by (metis int_div_pos_eq)
qed

lemma month_start_values:
  "month_start 0 = 0" "month_start 1 = 31" "month_start 2 = 61" "month_start 3 = 92" "month_start 4 = 122" "month_start 5 = 153"
  "month_start 6 = 184" "month_start 7 = 214" "month_start 8 = 245" "month_start 9 = 275" "month_start 10 = 306" "month_start 11 = 337"
  "month_start 12 = 367"
  by (simp_all add: month_start_def)

lemma ymd_of_day_number:
  assumes "ymd_ok t"
  shows "ymd_of (day_number t) = t"
proof -
  obtain y m d where t: "t = (y, m, d)" by (cases t)
  have ok: "1 \<le> m" "m \<le> 12" "1 \<le> d" "d \<le> month_len y m" using assms by (auto simp: t ymd_ok_def)
  define Y where "Y = (if m \<le> 2 then y - 1 else y)"
  define k where "k = (if m \<le> 2 then m + 9 else m - 3)"
  define e where "e = month_start k + (d - 1)"
  define b where "b = Y div 100"
  define c where "c = Y mod 100"
  have Y: "Y = 100 * b + c" "0 \<le> c" "c \<le> 99" by (simp_all add: b_def c_def)
  have n: "day_number t = march_days Y + e" by (simp add: t day_number_def Y_def k_def e_def)
  have k: "0 \<le> k" "k \<le> 11" "m = k + 3 - 12 * (k div 10)" "y = Y + k div 10"
    using ok(1,2) by (cases rule: month_cases; simp add: k_def Y_def)+
  have lp: "leap y \<longleftrightarrow> c mod 4 = 3 \<and> (c = 99 \<longrightarrow> b mod 4 = 3)" if "k = 11"
    using leap_split [OF Y(2,3), of b] Y(1) k(4) that by (simp add: algebra_simps)
  have len: "month_start k + d \<le> month_start (k + 1)" "k = 11 \<Longrightarrow> d \<le> (if leap y then 29 else 28)" "0 \<le> month_start k"
    "k \<noteq> 11 \<Longrightarrow> month_start k + d \<le> 337"
    using ok by (cases rule: month_cases; simp add: k_def month_len_def month_start_values split: if_splits)+
  have e: "0 \<le> e" "e \<le> 365" using len ok(3) by (cases "k = 11"; simp add: e_def month_start_values split: if_splits)+
  have lc: "c mod 4 = 3 \<and> (c = 99 \<longrightarrow> b mod 4 = 3)" if "e = 365"
  proof -
    have "k = 11" using that len(4) by (cases "k = 11") (auto simp: e_def)
    with that len(2) lp show ?thesis by (simp add: e_def month_start_values split: if_splits)
  qed
  have D: "day_number t = 146097 * b div 4 + 1461 * c div 4 + e"
    using n march_days_split [OF Y(2,3), of b] Y(1) by simp
  note Q = quotients [OF Y(2,3) e lc]
  have mi: "month_index (day_number t) = k"
  proof -
    have "month_index (day_number t) = (5 * e + 2) div 153" by (simp only: month_index_def D Q(4))
    also have "\<dots> = k" unfolding e_def by (rule month_of_day [OF k(1,2)]) (use ok(3) len(1) in auto)
    finally show ?thesis .
  qed
  have "ymd_of (day_number t) = (100 * b + c + k div 10, k + 3 - 12 * (k div 10), e - month_start k + 1)"
    by (simp only: ymd_of_def mi) (simp only: D Q)
  with k(3,4) Y(1) show ?thesis by (simp add: t e_def)
qed

lemma ymd_of_correct: "ymd_ok (ymd_of n)" "day_number (ymd_of n) = n"
proof -
  define b where "b = century n"
  define c where "c = century_year n"
  define e where "e = year_day n"
  define k where "k = month_index n"
  have B: "0 \<le> c" "c \<le> 99" "0 \<le> e" "e \<le> 365" "e = 365 \<Longrightarrow> c mod 4 = 3 \<and> (c = 99 \<longrightarrow> b mod 4 = 3)"
    "n = 146097 * b div 4 + 1461 * c div 4 + e"
    unfolding b_def c_def e_def using quotient_bounds [of n] by auto
  have k: "k = (5 * e + 2) div 153" by (simp add: k_def month_index_def e_def)
  have k1: "153 * k \<le> 5 * e + 2" "5 * e + 2 \<le> 153 * k + 152"
    unfolding k using pos_mod_bound [of 153 "5 * e + 2"] pos_mod_sign [of 153 "5 * e + 2"] div_mult_mod_eq [of "5 * e + 2" 153]
    by linarith+
  have "0 \<le> k" "k \<le> 11" using k1 B(3,4) by linarith+
  then have "k = 0 \<or> k = 1 \<or> k = 2 \<or> k = 3 \<or> k = 4 \<or> k = 5 \<or> k = 6 \<or> k = 7 \<or> k = 8 \<or> k = 9 \<or> k = 10 \<or> k = 11" by presburger
  have t: "ymd_of n = (100 * b + c + k div 10, k + 3 - 12 * (k div 10), e - month_start k + 1)"
    by (simp add: ymd_of_def b_def c_def e_def k_def)
  have D: "march_days (100 * b + c) + e = n" using march_days_split [OF B(1,2), of b] B(6) by simp
  note K = \<open>k = 0 \<or> _\<close>
  have lp: "leap (100 * b + c + 1) \<longleftrightarrow> c mod 4 = 3 \<and> (c = 99 \<longrightarrow> b mod 4 = 3)" by (rule leap_split [OF B(1,2)])
  show "day_number (ymd_of n) = n"
    unfolding t using K D by (elim disjE) (simp_all add: day_number_def)
  have F: "e \<le> 364 \<or> leap (100 * b + c + 1)" unfolding lp using B(4,5) by linarith
  have "month_start k \<le> e \<and> e - month_start k + 1 \<le> month_len (100 * b + c + k div 10) (k + 3 - 12 * (k div 10))"
  proof (cases "k = 11")
    case True
    have "e \<le> 365" "337 \<le> e" using k1 B(4) True by linarith+
    with F show ?thesis by (auto simp: True month_start_values month_len_def)
  next
    case False
    with K k1 show ?thesis by (elim disjE) (simp_all add: month_start_values month_len_def)
  qed
  then show "ymd_ok (ymd_of n)"
    unfolding t ymd_ok_def using K by (elim disjE) simp_all
qed

text \<open>The conversion follows the calendar day by day.\<close>

lemma ymd_of_next: "ymd_of (n + 1) = next_day (ymd_of n)"
  using ymd_of_day_number [OF next_day_ok [OF ymd_of_correct(1)], of n] day_number_next [OF ymd_of_correct(1), of n]
    ymd_of_correct(2) [of n] by simp

lemma ymd_of_iter: "ymd_of (n + int k) = (next_day ^^ k) (ymd_of n)"
proof (induction k)
  case (Suc k)
  then show ?case using ymd_of_next [of "n + int k"] by (simp add: algebra_simps)
qed simp

end
