(* ===== verification/DateTime.thy ===== *)
theory DateTime
  imports Calendar StringUtils "HOL-Library.Signed_Division"
begin

text \<open>
  Dates and times of day of \<open>src/common/dateTime.h\<close> and \<open>dateTime.cpp\<close>: a date is a Julian day
  number in a signed 32-bit integer, a time the milliseconds since midnight. Signed overflow
  is undefined behaviour (\<open>Undef\<close>), \<open>EXIT_IF\<close> is \<open>Exit\<close>. Integer formatting of the \<open>fmt\<close>
  library is the parameter \<open>fmt_d\<close>: width of zero padding and value.
\<close>

section \<open>Conversions\<close>

definition DATE_JD_INVALID :: int where "DATE_JD_INVALID = - (2 ^ 31)"
definition TIME_MS_INVALID :: int where "TIME_MS_INVALID = -1"
definition TIME_MS_IN_DAY :: int where "TIME_MS_IN_DAY = 24 * 3600 * 1000"

text \<open>A result computed through the given intermediate values.\<close>

definition checked :: "int list \<Rightarrow> 'a \<Rightarrow> 'a outcome" where
  "checked vs x = (if list_all i32_ok vs then Ret x else Undef)"

definition FloorDiv :: "int \<Rightarrow> int \<Rightarrow> int outcome" where
  "FloorDiv a b =
     (if b = 0 then Undef
      else if b < 0 \<and> a < 0 then checked [a sdiv b] (a sdiv b)
      else
        let b' = (if b < 0 then - b else b);
            a' = (if b < 0 then - a else a);
            s = a' - (if a' < 0 then b' - 1 else 0) in
        checked [a', b', s] (s sdiv b'))"

definition YmdToJd :: "int \<Rightarrow> int \<Rightarrow> int \<Rightarrow> int outcome" where
  "YmdToJd year month day =
     (let t_year = (if year < 0 then year + 1 else year) in
      obind (checked [14 - month] (14 - month)) (\<lambda>v.
      obind (FloorDiv v 12) (\<lambda>a.
      let y = t_year + 4800 - a;
          m = month + 12 * a - 3 in
      obind (checked [t_year + 4800, y, 12 * a, month + 12 * a, m, 153 * m, 153 * m + 2] (153 * m + 2)) (\<lambda>v.
      obind (FloorDiv v 5) (\<lambda>m5.
      obind (FloorDiv y 4) (\<lambda>y4.
      obind (FloorDiv y 100) (\<lambda>y100.
      obind (FloorDiv y 400) (\<lambda>y400.
      let s1 = day + m5; s2 = s1 + 365 * y; s3 = s2 + y4; s4 = s3 - y100; s5 = s4 + y400 in
      checked [s1, 365 * y, s2, s3, s4, s5, s5 - 32045] (s5 - 32045)))))))))"

definition JdToYmd :: "int \<Rightarrow> ymd outcome" where
  "JdToYmd jd =
     (let a = jd + 32044 in
      obind (checked [a, 4 * a, 4 * a + 3] (4 * a + 3)) (\<lambda>v.
      obind (FloorDiv v 146097) (\<lambda>b.
      obind (checked [146097 * b] (146097 * b)) (\<lambda>v.
      obind (FloorDiv v 4) (\<lambda>b4.
      let c = a - b4 in
      obind (checked [c, 4 * c, 4 * c + 3] (4 * c + 3)) (\<lambda>v.
      obind (FloorDiv v 1461) (\<lambda>d.
      obind (checked [1461 * d] (1461 * d)) (\<lambda>v.
      obind (FloorDiv v 4) (\<lambda>d4.
      let e = c - d4 in
      obind (checked [e, 5 * e, 5 * e + 2] (5 * e + 2)) (\<lambda>v.
      obind (FloorDiv v 153) (\<lambda>m.
      obind (checked [153 * m, 153 * m + 2] (153 * m + 2)) (\<lambda>v.
      obind (FloorDiv v 5) (\<lambda>m5.
      obind (FloorDiv m 10) (\<lambda>m10.
      let t_day = e - m5 + 1;
          t_month = m + 3 - 12 * m10;
          t_year = 100 * b + d - 4800 + m10 in
      checked [e - m5, t_day, m + 3, 12 * m10, t_month, 100 * b, 100 * b + d, 100 * b + d - 4800, t_year]
        (if t_year \<le> 0 then t_year - 1 else t_year, t_month, t_day)))))))))))))))"

definition HmsToMs :: "int \<Rightarrow> int \<Rightarrow> int \<Rightarrow> int \<Rightarrow> int outcome" where
  "HmsToMs hour minute second msec =
     (let h = hour * 60 * 60 * 1000; m = minute * 60 * 1000; s = second * 1000 in
      checked [hour * 60, hour * 60 * 60, h, minute * 60, m, h + m, s, h + m + s, h + m + s + msec] (h + m + s + msec))"

definition MsToHms :: "int \<Rightarrow> int \<times> int \<times> int \<times> int" where
  "MsToHms ms =
     (ms sdiv (60 * 60 * 1000),
      (ms smod (60 * 60 * 1000)) sdiv (60 * 1000),
      (ms sdiv 1000) smod 60,
      ms smod 1000)"

section \<open>Dates\<close>

datatype date = Date (m_jd: int)

definition IsLeapYear :: "int \<Rightarrow> bool" where
  "IsLeapYear year =
     (let year = (if year < 1 then year + 1 else year) in
      (year smod 4 = 0 \<and> year smod 100 \<noteq> 0) \<or> year smod 400 = 0)"

definition DaysInMonth :: "int \<Rightarrow> int" where
  "DaysInMonth month =
     (let month = (if month < 1 \<or> month > 12 then 0 else month) in
      [0, 31, 28, 31, 30, 31, 30, 31, 31, 30, 31, 30, 31] ! nat month)"

definition DaysInYear :: "int \<Rightarrow> int" where
  "DaysInYear year = (if IsLeapYear year then 366 else 365)"

definition Date_IsValid :: "int \<Rightarrow> int \<Rightarrow> int \<Rightarrow> bool" where
  "Date_IsValid year month day \<longleftrightarrow>
     year \<noteq> 0 \<and> day \<ge> 1 \<and> (day \<le> DaysInMonth month \<or> (day = 29 \<and> month = 2 \<and> IsLeapYear year))"

definition Date_IsInvalid :: "date \<Rightarrow> bool" where
  "Date_IsInvalid d \<longleftrightarrow> m_jd d = DATE_JD_INVALID"

definition Date_default :: date where
  "Date_default = Date DATE_JD_INVALID"

text \<open>\<open>Set\<close>, which is also the constructor from a year, a month and a day.\<close>

definition Date_Set :: "int \<Rightarrow> int \<Rightarrow> int \<Rightarrow> date outcome" where
  "Date_Set year month day =
     (if Date_IsValid year month day then omap Date (YmdToJd year month day) else Ret (Date DATE_JD_INVALID))"

definition Date_Get :: "date \<Rightarrow> ymd outcome" where
  "Date_Get d = (if Date_IsInvalid d then Ret (0, 0, 0) else JdToYmd (m_jd d))"

definition Date_Year :: "date \<Rightarrow> int outcome" where
  "Date_Year d = (if Date_IsInvalid d then Ret 0 else omap fst (JdToYmd (m_jd d)))"

definition Date_Month :: "date \<Rightarrow> int outcome" where
  "Date_Month d = (if Date_IsInvalid d then Ret 0 else omap (\<lambda>(y, m, dd). m) (JdToYmd (m_jd d)))"

definition Date_Day :: "date \<Rightarrow> int outcome" where
  "Date_Day d = (if Date_IsInvalid d then Ret 0 else omap (\<lambda>(y, m, dd). dd) (JdToYmd (m_jd d)))"

definition Date_IsLeapYear :: "date \<Rightarrow> bool outcome" where
  "Date_IsLeapYear d = (if Date_IsInvalid d then Ret False else omap (\<lambda>(y, m, dd). IsLeapYear y) (JdToYmd (m_jd d)))"

definition Date_DaysInMonth :: "date \<Rightarrow> int outcome" where
  "Date_DaysInMonth d =
     (if Date_IsInvalid d then Ret 0
      else omap (\<lambda>(year, month, _). if month = 2 \<and> IsLeapYear year then 29 else DaysInMonth month) (JdToYmd (m_jd d)))"

definition Date_DaysInYear :: "date \<Rightarrow> int outcome" where
  "Date_DaysInYear d = (if Date_IsInvalid d then Ret 0 else omap (\<lambda>l. if l then 366 else 365) (Date_IsLeapYear d))"

definition Date_DayOfWeek :: "date \<Rightarrow> int outcome" where
  "Date_DayOfWeek d =
     (if Date_IsInvalid d then Ret 0
      else if m_jd d \<ge> 0 then Ret ((m_jd d smod 7) + 1)
      else Ret (((m_jd d + 1) smod 7) + 7))"

definition Date_DayOfYear :: "date \<Rightarrow> int outcome" where
  "Date_DayOfYear d =
     (if Date_IsInvalid d then Ret 0
      else obind (Date_Year d) (\<lambda>y. obind (YmdToJd y 1 1) (\<lambda>j. checked [m_jd d - j, m_jd d - j + 1] (m_jd d - j + 1))))"

definition Date_QuarterOfYear :: "date \<Rightarrow> int outcome" where
  "Date_QuarterOfYear d = (if Date_IsInvalid d then Ret 0 else omap (\<lambda>m. (m - 1) sdiv 3 + 1) (Date_Month d))"

definition Date_plus :: "date \<Rightarrow> int \<Rightarrow> date outcome" where
  "Date_plus d days = checked [m_jd d + days] (Date (m_jd d + days))"

definition Date_minus :: "date \<Rightarrow> int \<Rightarrow> date outcome" where
  "Date_minus d days = checked [m_jd d - days] (Date (m_jd d - days))"

definition Date_less :: "date \<Rightarrow> date \<Rightarrow> bool" where
  "Date_less a b \<longleftrightarrow> m_jd a < m_jd b"

definition Date_less_eq :: "date \<Rightarrow> date \<Rightarrow> bool" where
  "Date_less_eq a b \<longleftrightarrow> m_jd a \<le> m_jd b"

instantiation date :: linorder
begin
definition "less_date = Date_less"
definition "less_eq_date = Date_less_eq"
instance
  by standard (auto simp: less_date_def less_eq_date_def Date_less_def Date_less_eq_def date.expand)
end

section \<open>Formatting dates\<close>

text \<open>\<open>compare\<close> with a part of the format starting at \<open>i\<close>.\<close>

definition at :: "string \<Rightarrow> nat \<Rightarrow> string \<Rightarrow> bool" where
  "at f i s \<longleftrightarrow> take (length s) (drop i f) = s"

definition month_short :: "string list" where
  "month_short = [''Jan'', ''Feb'', ''Mar'', ''Apr'', ''May'', ''Jun'', ''Jul'', ''Aug'', ''Sep'', ''Oct'', ''Nov'', ''Dec'']"

definition month_long :: "string list" where
  "month_long = [''January'', ''February'', ''March'', ''April'', ''May'', ''June'', ''July'', ''August'',
     ''September'', ''October'', ''November'', ''December'']"

definition day_short :: "string list" where
  "day_short = [''Mon'', ''Tue'', ''Wed'', ''Thu'', ''Fri'', ''Sat'', ''Sun'']"

definition day_long :: "string list" where
  "day_long = [''Monday'', ''Tuesday'', ''Wednesday'', ''Thursday'', ''Friday'', ''Saturday'', ''Sunday'']"

definition table_at :: "string list \<Rightarrow> int \<Rightarrow> string outcome" where
  "table_at t i = (if 0 \<le> i \<and> i < int (length t) then Ret (t ! nat i) else Undef)"

text \<open>
  One step of the format at index \<open>i\<close>: \<open>None\<close> when no item starts there, otherwise the
  number of further characters it takes and what it adds to the result.
\<close>

definition format_year :: "(nat \<Rightarrow> int \<Rightarrow> string) \<Rightarrow> date \<Rightarrow> string outcome" where
  "format_year fmt_d d = obind (Date_Year d) (\<lambda>y. if y < 0 \<or> y > 9999 then Exit else Ret (fmt_d 4 y))"

definition FormatDate :: "(nat \<Rightarrow> int \<Rightarrow> string) \<Rightarrow> date \<Rightarrow> string \<Rightarrow> nat \<Rightarrow> (nat \<times> string) option outcome" where
  "FormatDate fmt_d d f i =
     (let item = (\<lambda>k s. omap (\<lambda>x. Some (k, x)) s) in
      if at f i ''YYYY'' then item 3 (format_year fmt_d d)
      else if at f i ''YYY'' then item 2 (omap (\<lambda>s. Mid s 1 None) (format_year fmt_d d))
      else if at f i ''YY'' then item 1 (omap (\<lambda>s. Mid s 2 None) (format_year fmt_d d))
      else if at f i ''Y'' then item 0 (omap (\<lambda>s. Mid s 3 None) (format_year fmt_d d))
      else if at f i ''Q'' then item 0 (omap (fmt_d 0) (Date_QuarterOfYear d))
      else if at f i ''MM'' then item 1 (omap (fmt_d 2) (Date_Month d))
      else if at f i ''MONTH'' then item 4 (obind (Date_Month d) (\<lambda>m. table_at month_long (m - 1)))
      else if at f i ''MON'' then item 2 (obind (Date_Month d) (\<lambda>m. table_at month_short (m - 1)))
      else if at f i ''DDD'' then item 2 (omap (fmt_d 3) (Date_DayOfYear d))
      else if at f i ''DD'' then item 1 (omap (fmt_d 2) (Date_Day d))
      else if at f i ''DY'' then item 1 (obind (Date_DayOfWeek d) (\<lambda>w. table_at day_short (w - 1)))
      else if at f i ''DAY'' then item 2 (obind (Date_DayOfWeek d) (\<lambda>w. table_at day_long (w - 1)))
      else if at f i ''D'' then item 0 (omap (fmt_d 0) (Date_DayOfWeek d))
      else if at f i ''J'' then item 0 (Ret (fmt_d 0 (m_jd d)))
      else Ret None)"

text \<open>The loop of the three \<open>ToString\<close>: what no step takes is copied.\<close>

function format_loop :: "(nat \<Rightarrow> (nat \<times> string) option outcome) \<Rightarrow> string \<Rightarrow> nat \<Rightarrow> string outcome" where
  "format_loop item f i =
     (if i \<ge> length f then Ret []
      else obind (item i) (\<lambda>r.
        case r of
          Some (k, s) \<Rightarrow> omap (\<lambda>z. s @ z) (format_loop item f (i + k + 1))
        | None \<Rightarrow> omap (\<lambda>z. f ! i # z) (format_loop item f (i + 1))))"
  by auto
termination
  by (relation "measure (\<lambda>(item, f, i). length f - i)") auto

declare format_loop.simps [simp del]

definition Date_ToString :: "(nat \<Rightarrow> int \<Rightarrow> string) \<Rightarrow> string \<Rightarrow> date \<Rightarrow> string outcome" where
  "Date_ToString fmt_d f d = (if Date_IsInvalid d then Ret [] else format_loop (FormatDate fmt_d d f) f 0)"

definition FromMacros :: "string \<Rightarrow> date outcome" where
  "FromMacros s =
     (let lst = SplitChar s (CHR '' '') False in
      if length lst \<noteq> 3 then Ret Date_default
      else case find_index (\<lambda>m. lst ! 0 = m) month_short of
          None \<Rightarrow> Ret Date_default
        | Some i \<Rightarrow> Date_Set (ToInt32 (lst ! 2) 10) (int i + 1) (ToInt32 (lst ! 1) 10))"

section \<open>Times of day\<close>

datatype tod = Time (m_ms: int)

definition Time_IsInvalid :: "tod \<Rightarrow> bool" where
  "Time_IsInvalid t \<longleftrightarrow> m_ms t < 0 \<or> m_ms t \<ge> TIME_MS_IN_DAY"

definition Time_default :: tod where
  "Time_default = Time TIME_MS_INVALID"

definition Time_of_ms :: "int \<Rightarrow> tod" where
  "Time_of_ms msec = (if msec < 0 \<or> msec \<ge> TIME_MS_IN_DAY then Time TIME_MS_INVALID else Time msec)"

definition Time_IsValid :: "int \<Rightarrow> int \<Rightarrow> int \<Rightarrow> int \<Rightarrow> bool" where
  "Time_IsValid hour minute second msec \<longleftrightarrow>
     (hour \<ge> 0 \<and> hour \<le> 23) \<and> (minute \<ge> 0 \<and> minute \<le> 59) \<and> (second \<ge> 0 \<and> second \<le> 59) \<and> (msec \<ge> 0 \<and> msec \<le> 999)"

definition Time_Set :: "int \<Rightarrow> int \<Rightarrow> int \<Rightarrow> int \<Rightarrow> tod outcome" where
  "Time_Set hour minute second msec =
     (if Time_IsValid hour minute second msec then omap Time (HmsToMs hour minute second msec) else Ret (Time TIME_MS_INVALID))"

definition Time_Get :: "tod \<Rightarrow> int \<times> int \<times> int \<times> int" where
  "Time_Get t = (if Time_IsInvalid t then (-1, -1, -1, -1) else MsToHms (m_ms t))"

definition Time_Hour24 :: "tod \<Rightarrow> int" where
  "Time_Hour24 t = (if Time_IsInvalid t then -1 else fst (MsToHms (m_ms t)))"

definition Time_Hour12 :: "tod \<Rightarrow> int" where
  "Time_Hour12 t = (if Time_IsInvalid t then -1 else let h = fst (MsToHms (m_ms t)) smod 12 in if h = 0 then 12 else h)"

definition Time_Minute :: "tod \<Rightarrow> int" where
  "Time_Minute t = (if Time_IsInvalid t then -1 else (case MsToHms (m_ms t) of (h, m, s, ms) \<Rightarrow> m))"

definition Time_Second :: "tod \<Rightarrow> int" where
  "Time_Second t = (if Time_IsInvalid t then -1 else (case MsToHms (m_ms t) of (h, m, s, ms) \<Rightarrow> s))"

definition Time_Msec :: "tod \<Rightarrow> int" where
  "Time_Msec t = (if Time_IsInvalid t then -1 else (case MsToHms (m_ms t) of (h, m, s, ms) \<Rightarrow> ms))"

definition Time_IsAM :: "tod \<Rightarrow> bool" where
  "Time_IsAM t \<longleftrightarrow> (if Time_IsInvalid t then False else fst (MsToHms (m_ms t)) < 12)"

definition Time_IsPM :: "tod \<Rightarrow> bool" where
  "Time_IsPM t \<longleftrightarrow> (if Time_IsInvalid t then False else fst (MsToHms (m_ms t)) \<ge> 12)"

definition FormatTime :: "(nat \<Rightarrow> int \<Rightarrow> string) \<Rightarrow> tod \<Rightarrow> string \<Rightarrow> nat \<Rightarrow> (nat \<times> string) option" where
  "FormatTime fmt_d t f i =
     (if at f i ''HH24'' then Some (3, fmt_d 2 (Time_Hour24 t))
      else if at f i ''HH12'' then Some (3, fmt_d 2 (Time_Hour12 t))
      else if at f i ''HH'' then Some (1, fmt_d 2 (Time_Hour12 t))
      else if at f i ''MI'' then Some (1, fmt_d 2 (Time_Minute t))
      else if at f i ''SSSSS'' then Some (4, fmt_d 5 (m_ms t sdiv 1000))
      else if at f i ''SS'' then Some (1, fmt_d 2 (Time_Second t))
      else if at f i ''FFF'' then Some (2, fmt_d 3 (Time_Msec t))
      else if at f i ''AM'' then Some (1, if Time_IsAM t then ''AM'' else ''PM'')
      else if at f i ''A.M.'' then Some (3, if Time_IsAM t then ''A.M.'' else ''P.M.'')
      else None)"

definition Time_ToString :: "(nat \<Rightarrow> int \<Rightarrow> string) \<Rightarrow> string \<Rightarrow> tod \<Rightarrow> string outcome" where
  "Time_ToString fmt_d f t = (if Time_IsInvalid t then Ret [] else format_loop (\<lambda>i. Ret (FormatTime fmt_d t f i)) f 0)"

text \<open>The four operators compute the same; \<open>+=\<close> and \<open>-=\<close> keep an invalid time as it is.\<close>

definition wrap_day :: "int \<Rightarrow> int" where
  "wrap_day r =
     (let r = (if r < 0 then r + TIME_MS_IN_DAY else r) in
      if r \<ge> TIME_MS_IN_DAY then r - TIME_MS_IN_DAY else r)"

definition Time_plus :: "tod \<Rightarrow> int \<Rightarrow> tod outcome" where
  "Time_plus t secs =
     obind (checked [secs * 1000] (secs * 1000)) (\<lambda>ms_secs.
     if ms_secs > TIME_MS_IN_DAY \<or> ms_secs < - TIME_MS_IN_DAY then Exit
     else if Time_IsInvalid t then Ret Time_default
     else Ret (Time_of_ms (wrap_day (m_ms t + ms_secs))))"

definition Time_minus :: "tod \<Rightarrow> int \<Rightarrow> tod outcome" where
  "Time_minus t secs =
     obind (checked [secs * 1000] (secs * 1000)) (\<lambda>ms_secs.
     if ms_secs > TIME_MS_IN_DAY \<or> ms_secs < - TIME_MS_IN_DAY then Exit
     else if Time_IsInvalid t then Ret Time_default
     else Ret (Time_of_ms (wrap_day (m_ms t - ms_secs))))"

definition Time_plus_assign :: "tod \<Rightarrow> int \<Rightarrow> tod outcome" where
  "Time_plus_assign t secs =
     obind (checked [secs * 1000] (secs * 1000)) (\<lambda>ms_secs.
     if ms_secs > TIME_MS_IN_DAY \<or> ms_secs < - TIME_MS_IN_DAY then Exit
     else if \<not> Time_IsInvalid t then Ret (Time (wrap_day (m_ms t + ms_secs))) else Ret t)"

definition Time_minus_assign :: "tod \<Rightarrow> int \<Rightarrow> tod outcome" where
  "Time_minus_assign t secs =
     obind (checked [secs * 1000] (secs * 1000)) (\<lambda>ms_secs.
     if ms_secs > TIME_MS_IN_DAY \<or> ms_secs < - TIME_MS_IN_DAY then Exit
     else if \<not> Time_IsInvalid t then Ret (Time (wrap_day (m_ms t - ms_secs))) else Ret t)"

definition Time_less :: "tod \<Rightarrow> tod \<Rightarrow> bool" where
  "Time_less a b \<longleftrightarrow> m_ms a < m_ms b"

definition Time_less_eq :: "tod \<Rightarrow> tod \<Rightarrow> bool" where
  "Time_less_eq a b \<longleftrightarrow> m_ms a \<le> m_ms b"

instantiation tod :: linorder
begin
definition "less_tod = Time_less"
definition "less_eq_tod = Time_less_eq"
instance
  by standard (auto simp: less_tod_def less_eq_tod_def Time_less_def Time_less_eq_def tod.expand)
end

section \<open>A date with a time\<close>

datatype datetime = DateTime (m_date: date) (m_time: tod)

definition DateTime_IsInvalid :: "datetime \<Rightarrow> bool" where
  "DateTime_IsInvalid dt \<longleftrightarrow> Date_IsInvalid (m_date dt) \<or> Time_IsInvalid (m_time dt)"

record sys_time =
  Year :: u16
  Month :: u16
  Day :: u16
  Hour :: u16
  Minute :: u16
  Second :: u16
  Milliseconds :: u16
  is_invalid :: bool

text \<open>\<open>FromSystem\<close> and \<open>FromSystemUTC\<close>, which read the local time and UTC.\<close>

definition DateTime_FromSystem :: "sys_time \<Rightarrow> datetime outcome" where
  "DateTime_FromSystem t =
     (if is_invalid t then Ret (DateTime Date_default Time_default)
      else
        obind (Date_Set (uint (Year t)) (uint (Month t)) (uint (Day t))) (\<lambda>d.
        obind (Time_Set (uint (Hour t)) (uint (Minute t)) (uint (Second t)) (uint (Milliseconds t))) (\<lambda>tm.
        Ret (DateTime d tm))))"

definition DateTime_ToString :: "(nat \<Rightarrow> int \<Rightarrow> string) \<Rightarrow> string \<Rightarrow> datetime \<Rightarrow> string outcome" where
  "DateTime_ToString fmt_d f dt =
     (if DateTime_IsInvalid dt then Ret []
      else format_loop (\<lambda>i. obind (FormatDate fmt_d (m_date dt) f i) (\<lambda>r.
        case r of Some x \<Rightarrow> Ret (Some x) | None \<Rightarrow> Ret (FormatTime fmt_d (m_time dt) f i))) f 0)"

definition DateTime_less :: "datetime \<Rightarrow> datetime \<Rightarrow> bool" where
  "DateTime_less a b \<longleftrightarrow> m_date a < m_date b \<or> (m_date a = m_date b \<and> m_time a < m_time b)"

definition DateTime_less_eq :: "datetime \<Rightarrow> datetime \<Rightarrow> bool" where
  "DateTime_less_eq a b \<longleftrightarrow> \<not> DateTime_less b a"

instantiation datetime :: linorder
begin
definition "less_datetime = DateTime_less"
definition "less_eq_datetime = DateTime_less_eq"
instance
  by standard (auto simp: less_datetime_def less_eq_datetime_def DateTime_less_def DateTime_less_eq_def datetime.expand)
end

section \<open>Dates follow the calendar\<close>

text \<open>The code has no year 0: it counts the years before 1 from -1 down.\<close>

definition civil :: "ymd \<Rightarrow> ymd" where
  "civil t = (case t of (y, m, d) \<Rightarrow> (if y \<le> 0 then y - 1 else y, m, d))"

definition astro :: "int \<Rightarrow> int" where
  "astro y = (if y < 0 then y + 1 else y)"

lemma sdiv_nonneg: "0 \<le> a \<Longrightarrow> 0 < b \<Longrightarrow> a sdiv b = a div b" for a b :: int
  by (cases "a = 0") (auto simp: signed_divide_int_def sgn_if)

lemma FloorDiv_Ret:
  assumes "0 < b" "i32_ok b" "i32_ok a" "a < 0 \<Longrightarrow> i32_ok (a - (b - 1))"
  shows "FloorDiv a b = Ret (a div b)"
proof -
  have "(a - (b - 1)) sdiv b = a div b" if "a < 0"
  proof -
    have "a - (b - 1) < 0 \<or> a - (b - 1) = 0" using that assms(1) by linarith
    moreover have "(b - 1 - a) div b = - (a div b)"
    proof (rule int_div_pos_eq)
      show "b - 1 - a = b * - (a div b) + (b - 1 - a mod b)"
        using div_mult_mod_eq [of a b] by (simp add: algebra_simps)
    qed (use pos_mod_bound [OF assms(1), of a] pos_mod_sign [OF assms(1), of a] in linarith)+
    ultimately show ?thesis using assms(1) by (auto simp: signed_divide_int_def sgn_if algebra_simps)
  qed
  moreover have "a sdiv b = a div b" if "0 \<le> a" using sdiv_nonneg that assms(1) by blast
  ultimately show ?thesis using assms by (auto simp: FloorDiv_def checked_def Let_def)
qed

lemma march_days_shift: "march_days (y + 4800) = march_days y + 1753164"
  using div_mult_self1 [of 4 y 1200] div_mult_self1 [of 100 y 48] div_mult_self1 [of 400 y 12]
  by (simp add: march_days_def)

lemma leap_shift: "leap (y + 4800) \<longleftrightarrow> leap y"
  using mod_mult_self1 [of y 1200 4] mod_mult_self1 [of y 48 100] mod_mult_self1 [of y 12 400]
  by (simp add: leap_def)

lemma ymd_of_shift: "ymd_of (n + 1753164) = (case ymd_of n of (y, m, d) \<Rightarrow> (y + 4800, m, d))"
proof -
  obtain y m d where t: "ymd_of n = (y, m, d)" by (cases "ymd_of n")
  have ok: "ymd_ok (y + 4800, m, d)"
    using ymd_of_correct(1) [of n] by (simp only: t ymd_ok_def prod.case month_len_def leap_shift)
  have "march_days (y + 4800 - 1) = march_days (y - 1) + 1753164" using march_days_shift [of "y - 1"] by (simp add: algebra_simps)
  moreover have "(if m \<le> 2 then march_days (y - 1) + month_start (m + 9) + d - 1 else march_days y + month_start (m - 3) + d - 1) = n"
    using ymd_of_correct(2) [of n] by (simp only: t day_number_def prod.case)
  ultimately have "day_number (y + 4800, m, d) = n + 1753164"
    using march_days_shift [of y] unfolding day_number_def prod.case by (cases "m \<le> 2") simp_all
  with ymd_of_day_number [OF ok] show ?thesis by (simp add: t)
qed

lemma march_days_bounds:
  fixes y :: int
  assumes "\<bar>y\<bar> \<le> 1100000"
  shows "\<bar>y div 4\<bar> \<le> 1100000" "\<bar>y div 100\<bar> \<le> 1100000" "\<bar>y div 400\<bar> \<le> 1100000"
proof -
  have "\<bar>y div k\<bar> \<le> 1100000" if "0 < k" for k :: int
  proof (cases "0 \<le> y")
    case True
    then have "0 \<le> y div k" "y div k \<le> y" using that zdiv_mono2 [of y 1 k] by (simp_all add: pos_imp_zdiv_nonneg_iff)
    with assms show ?thesis by linarith
  next
    case False
    then have "y div k < 0" "y \<le> y div k" using that zdiv_mono2_neg [of y 1 k] by (simp_all add: pos_imp_zdiv_neg_iff)
    with assms show ?thesis by linarith
  qed
  from this [of 4] this [of 100] this [of 400] show
    "\<bar>y div 4\<bar> \<le> 1100000" "\<bar>y div 100\<bar> \<le> 1100000" "\<bar>y div 400\<bar> \<le> 1100000" by simp_all
qed

lemma YmdToJd_Ret:
  assumes "1 \<le> month" "month \<le> 12" "1 \<le> day" "day \<le> 31" "\<bar>year\<bar> \<le> 1000000"
  shows "YmdToJd year month day = Ret (day_number (astro year, month, day) + 1721120)"
proof -
  define a where "a = (if month \<le> 2 then 1 else 0 :: int)"
  define Y where "Y = astro year - a"
  define m where "m = month + 12 * a - 3"
  have a: "(14 - month) div 12 = a" using assms(1,2) by (cases rule: month_cases; simp add: a_def)+
  have m: "0 \<le> m" "m \<le> 11" "m = (if month \<le> 2 then month + 9 else month - 3)" using assms(1,2) by (auto simp: m_def a_def)
  have Y: "\<bar>Y + 4800\<bar> \<le> 1100000" "astro year + 4800 - a = Y + 4800" "-1000000 \<le> astro year" "astro year \<le> 1000000"
    using assms(5) by (auto simp: Y_def a_def astro_def)
  define P where "P = Y + 4800"
  define q4 where "q4 = P div 4"
  define q100 where "q100 = P div 100"
  define q400 where "q400 = P div 400"
  have P: "-1100000 \<le> P" "P \<le> 1100000" using Y(1) by (auto simp: P_def)
  have B: "-1100000 \<le> q4" "q4 \<le> 1100000" "-1100000 \<le> q100" "q100 \<le> 1100000" "-1100000 \<le> q400" "q400 \<le> 1100000"
    using march_days_bounds [OF Y(1)] by (auto simp: P_def q4_def q100_def q400_def)
  have s: "month_start m = (153 * m + 2) div 5" "0 \<le> month_start m" "month_start m \<le> 337"
    using m(1,2) by (auto simp: month_start_def)
  have n: "day_number (astro year, month, day) = march_days Y + month_start m + day - 1"
    using m(3) by (simp add: day_number_def Y_def a_def)
  have md: "march_days Y + 1753164 = 365 * P + q4 - q100 + q400"
    using march_days_shift [of Y] by (simp add: march_days_def P_def q4_def q100_def q400_def)
  have 1: "FloorDiv (14 - month) 12 = Ret a" using assms(1,2) a by (subst FloorDiv_Ret) (auto simp: i32_ok_def)
  have 2: "FloorDiv (153 * m + 2) 5 = Ret (month_start m)" using m(1,2) s(1) by (subst FloorDiv_Ret) (auto simp: i32_ok_def)
  have F: "FloorDiv P k = Ret (P div k)" if "0 < k" "k \<le> 400" for k
    using that P by (intro FloorDiv_Ret) (auto simp: i32_ok_def)
  have 3: "FloorDiv P 4 = Ret q4" "FloorDiv P 100 = Ret q100" "FloorDiv P 400 = Ret q400"
    by (simp_all add: F q4_def q100_def q400_def)
  have c1: "checked [14 - month] v = Ret v" for v :: int
    using assms(1,2) by (simp add: checked_def i32_ok_def)
  have c2: "checked [astro year + 4800, P, 12 * a, month + 12 * a, m, 153 * m, 153 * m + 2] v = Ret v" for v :: int
    using assms(1,2) m(1,2) P Y(3,4) by (simp add: checked_def i32_ok_def a_def)
  have c3: "checked [day + month_start m, 365 * P, day + month_start m + 365 * P, day + month_start m + 365 * P + q4,
      day + month_start m + 365 * P + q4 - q100, day + month_start m + 365 * P + q4 - q100 + q400,
      day + month_start m + 365 * P + q4 - q100 + q400 - 32045] v = Ret v" for v :: int
    using assms(3,4) s(2,3) P B by (simp add: checked_def i32_ok_def)
  have y: "astro year + 4800 - a = P" "month + 12 * a - 3 = m" by (simp_all add: P_def Y_def m_def)
  have "YmdToJd year month day = Ret (day + month_start m + 365 * P + q4 - q100 + q400 - 32045)"
    unfolding YmdToJd_def Let_def astro_def [symmetric] c1 obind.simps 1 y c2 2 3 c3 ..
  then show ?thesis using n md by simp
qed

lemma JdToYmd_Ret:
  assumes "\<bar>jd\<bar> \<le> 500000000"
  shows "JdToYmd jd = Ret (civil (ymd_of (jd - 1721120)))"
proof -
  define a where "a = jd + 32044"
  define b where "b = century a"
  define c where "c = century_day a"
  define d where "d = century_year a"
  define e where "e = year_day a"
  define m where "m = month_index a"
  have a: "-500000000 \<le> a" "a \<le> 500032044" using assms by (auto simp: a_def)
  have b: "146097 * b \<le> 4 * a + 3" "4 * a + 3 \<le> 146097 * b + 146096"
    unfolding b_def century_def using pos_mod_bound [of 146097 "4 * a + 3"] pos_mod_sign [of 146097 "4 * a + 3"]
      div_mult_mod_eq [of "4 * a + 3" 146097] by linarith+
  have c: "c = a - 146097 * b div 4" "0 \<le> c" "c \<le> 36524"
  proof -
    show 1: "c = a - 146097 * b div 4" by (simp add: c_def century_day_def b_def)
    have "4 * (146097 * b div 4) = 146097 * b - b mod 4" "0 \<le> b mod 4" "b mod 4 \<le> 3"
      using four_quotient [of 146097 b] by (simp_all add: mod_mult_left_eq [of 146097 4 b, symmetric])
    with 1 b show "0 \<le> c" "c \<le> 36524" by linarith+
  qed
  have Q: "0 \<le> d" "d \<le> 99" "0 \<le> e" "e \<le> 365" unfolding d_def e_def using quotient_bounds [of a] by auto
  have e: "e = c - 1461 * d div 4" by (simp add: e_def year_day_def c_def d_def)
  have m: "m = (5 * e + 2) div 153" "0 \<le> m" "m \<le> 11" using Q(3,4) by (auto simp: m_def month_index_def e_def)
  have ms: "month_start m = (153 * m + 2) div 5" "0 \<le> month_start m" "month_start m \<le> 337" using m by (auto simp: month_start_def)
  have m10: "0 \<le> m div 10" "m div 10 \<le> 1" using m by auto
  have bb: "-14000 \<le> b" "b \<le> 14000" using a b by linarith+
  have b4: "-500100000 \<le> 146097 * b div 4" "146097 * b div 4 \<le> 500100000" using a c by linarith+
  have F1: "FloorDiv (4 * a + 3) 146097 = Ret b" unfolding b_def century_def
    using a by (intro FloorDiv_Ret) (auto simp: i32_ok_def)
  have F2: "FloorDiv (146097 * b) 4 = Ret (146097 * b div 4)"
    using bb by (intro FloorDiv_Ret) (auto simp: i32_ok_def)
  have F3: "FloorDiv (4 * c + 3) 1461 = Ret d" unfolding d_def century_year_def c_def [symmetric]
    using c by (intro FloorDiv_Ret) (auto simp: i32_ok_def)
  have F4: "FloorDiv (1461 * d) 4 = Ret (1461 * d div 4)" using Q by (intro FloorDiv_Ret) (auto simp: i32_ok_def)
  have F5: "FloorDiv (5 * e + 2) 153 = Ret m" unfolding m(1) using Q by (intro FloorDiv_Ret) (auto simp: i32_ok_def)
  have F6: "FloorDiv (153 * m + 2) 5 = Ret (month_start m)" unfolding ms(1) using m(2,3) by (intro FloorDiv_Ret) (auto simp: i32_ok_def)
  have F7: "FloorDiv m 10 = Ret (m div 10)" using m(2,3) by (intro FloorDiv_Ret) (auto simp: i32_ok_def)
  have c1: "checked [a, 4 * a, 4 * a + 3] v = Ret v" for v :: int using a by (simp add: checked_def i32_ok_def)
  have c2: "checked [146097 * b] v = Ret v" for v :: int using bb by (simp add: checked_def i32_ok_def)
  have c3: "checked [c, 4 * c, 4 * c + 3] v = Ret v" for v :: int using c(2,3) by (simp add: checked_def i32_ok_def)
  have c4: "checked [1461 * d] v = Ret v" for v :: int using Q by (simp add: checked_def i32_ok_def)
  have c5: "checked [e, 5 * e, 5 * e + 2] v = Ret v" for v :: int using Q by (simp add: checked_def i32_ok_def)
  have c6: "checked [153 * m, 153 * m + 2] v = Ret v" for v :: int using m(2,3) by (simp add: checked_def i32_ok_def)
  have c7: "checked [e - month_start m, e - month_start m + 1, m + 3, 12 * (m div 10), m + 3 - 12 * (m div 10), 100 * b, 100 * b + d,
      100 * b + d - 4800, 100 * b + d - 4800 + m div 10] v = Ret v" for v :: ymd
    using Q m(2,3) ms(2,3) m10 bb by (simp add: checked_def i32_ok_def)
  have "JdToYmd jd = Ret (civil (100 * b + d - 4800 + m div 10, m + 3 - 12 * (m div 10), e - month_start m + 1))"
    unfolding JdToYmd_def Let_def a_def [symmetric] c1 obind.simps F1 c2 F2 c(1) [symmetric] c3 F3 c4 F4 e [symmetric] c5 F5 c6 F6 F7 c7
    by (simp add: civil_def)
  moreover have "ymd_of a = (100 * b + d + m div 10, m + 3 - 12 * (m div 10), e - month_start m + 1)"
    by (simp add: ymd_of_def b_def d_def e_def m_def)
  moreover obtain y' m' d' where t: "ymd_of (jd - 1721120) = (y', m', d')" by (cases "ymd_of (jd - 1721120)")
  moreover have "ymd_of a = (y' + 4800, m', d')" using ymd_of_shift [of "jd - 1721120"] by (simp add: t a_def add.commute)
  ultimately have "y' = 100 * b + d - 4800 + m div 10" "m' = m + 3 - 12 * (m div 10)" "d' = e - month_start m + 1" by simp_all
  with \<open>JdToYmd jd = _\<close> t show ?thesis by simp
qed

lemma smod_zero_iff: "y smod k = 0 \<longleftrightarrow> y mod k = 0" if "0 < k" for y k :: int
proof -
  have "y smod k = 0 \<longleftrightarrow> \<bar>y\<bar> mod k = 0" using that by (auto simp: signed_modulo_int_def sgn_if)
  also have "\<dots> \<longleftrightarrow> y mod k = 0" by (simp add: mod_eq_0_iff_dvd)
  finally show ?thesis .
qed

lemma IsLeapYear_leap: "y \<noteq> 0 \<Longrightarrow> IsLeapYear y \<longleftrightarrow> leap (astro y)"
  by (auto simp: IsLeapYear_def Let_def smod_zero_iff leap_def astro_def)

lemma DaysInMonth_values:
  assumes "1 \<le> m" "m \<le> 12"
  shows "DaysInMonth m = (if m = 2 then 28 else month_len y m)"
  using assms by (cases rule: month_cases; simp add: DaysInMonth_def month_len_def)

lemma Date_IsValid_iff:
  "Date_IsValid y m d \<longleftrightarrow> y \<noteq> 0 \<and> ymd_ok (astro y, m, d)"
proof (cases "1 \<le> m \<and> m \<le> 12 \<and> y \<noteq> 0")
  case True
  then have "Date_IsValid y m d \<longleftrightarrow> 1 \<le> d \<and> (d \<le> DaysInMonth m \<or> d = 29 \<and> m = 2 \<and> leap (astro y))"
    using IsLeapYear_leap [of y] by (auto simp: Date_IsValid_def)
  also have "\<dots> \<longleftrightarrow> 1 \<le> d \<and> d \<le> month_len (astro y) m"
    using True DaysInMonth_values [of m "astro y"] by (auto simp: month_len_def)
  finally show ?thesis using True by (simp add: ymd_ok_def)
next
  case False
  then show ?thesis by (auto simp: Date_IsValid_def ymd_ok_def DaysInMonth_def)
qed

lemma civil_astro: "(case civil t of (y, m, d) \<Rightarrow> y \<noteq> 0 \<and> (astro y, m, d) = t)"
  by (cases t) (simp add: civil_def astro_def)

lemma astro_civil: "y \<noteq> 0 \<Longrightarrow> civil (astro y, m, d) = (y, m, d)"
  by (auto simp: civil_def astro_def)

lemma jd_valid: "\<bar>jd\<bar> \<le> 500000000 \<Longrightarrow> \<not> Date_IsInvalid (Date jd)"
  by (auto simp: Date_IsInvalid_def DATE_JD_INVALID_def)

lemma month_len_le: "month_len y m \<le> 31"
  by (simp add: month_len_def)

text \<open>A day number is in the range of years that the conversions are proved for.\<close>

lemma year_of_day_number:
  assumes "day_number (y, m, d) = n" "ymd_ok (y, m, d)" "\<bar>n\<bar> \<le> 360000000"
  shows "\<bar>y\<bar> \<le> 1000000 - 1"
proof -
  have q: "y div k * k \<le> y" "y < y div k * k + k" if "0 < k" for k y :: int
    using pos_mod_bound [OF that, of y] pos_mod_sign [OF that, of y] div_mult_mod_eq [of y k] by linarith+
  note q' = q [of 4, simplified] q [of 100, simplified] q [of 400, simplified]
  obtain z where z: "n = march_days z + (n - march_days z)" "0 \<le> n - march_days z" "n - march_days z \<le> 400" "y - 1 \<le> z" "z \<le> y"
  proof (cases "m \<le> 2")
    case True
    have "0 \<le> month_start (m + 9) \<and> month_start (m + 9) \<le> 367" using assms(2) True by (auto simp: ymd_ok_def month_start_def)
    with assms(1,2) True month_len_le [of y m] show ?thesis by (intro that [of "y - 1"]) (auto simp: day_number_def ymd_ok_def)
  next
    case False
    have "0 \<le> month_start (m - 3) \<and> month_start (m - 3) \<le> 337" using assms(2) False by (auto simp: ymd_ok_def month_start_def)
    with assms(1,2) False month_len_le [of y m] show ?thesis by (intro that [of y]) (auto simp: day_number_def ymd_ok_def)
  qed
  have lin: "z \<le> 999990 \<and> -999990 \<le> z" if "A * 4 \<le> z" "z < A * 4 + 4" "B * 100 \<le> z" "z < B * 100 + 100" "C * 400 \<le> z" "z < C * 400 + 400"
    "n = 365 * z + A - B + C + r" "0 \<le> r" "r \<le> 400" "n \<le> 360000000" "-360000000 \<le> n" for A B C r :: int
    using that by (intro conjI) linarith+
  have "z \<le> 999990 \<and> -999990 \<le> z"
    by (rule lin [of "z div 4" "z div 100" "z div 400" "n - march_days z"])
      (use q' z assms(3) in \<open>simp_all add: march_days_def\<close>)
  with z show ?thesis by linarith
qed

lemma day_number_bounds:
  assumes "ymd_ok (y, m, d)" "\<bar>y\<bar> \<le> 900001"
  shows "\<bar>day_number (y, m, d)\<bar> \<le> 340000000"
proof -
  obtain z k where zk: "day_number (y, m, d) = march_days z + month_start k + d - 1" "z = y \<or> z = y - 1" "0 \<le> k" "k \<le> 11"
  proof (cases "m \<le> 2")
    case True
    with assms(1) show ?thesis by (intro that [of "y - 1" "m + 9"]) (auto simp: day_number_def ymd_ok_def)
  next
    case False
    with assms(1) show ?thesis by (intro that [of y "m - 3"]) (auto simp: day_number_def ymd_ok_def)
  qed
  have s: "0 \<le> month_start k" "month_start k \<le> 337" using zk(3,4) by (auto simp: month_start_def)
  have d: "1 \<le> d" "d \<le> 31" using assms(1) month_len_le [of y m] by (auto simp: ymd_ok_def)
  have q: "u div k * k \<le> u" "u < u div k * k + k" if "0 < k" for k u :: int
    using pos_mod_bound [OF that, of u] pos_mod_sign [OF that, of u] div_mult_mod_eq [of u k] by linarith+
  have lin: "r \<le> 339999000 \<and> -339999000 \<le> r" if "A * 4 \<le> z" "z < A * 4 + 4" "B * 100 \<le> z" "z < B * 100 + 100" "C * 400 \<le> z" "z < C * 400 + 400"
    "r = 365 * z + A - B + C" "z \<le> 900002" "-900002 \<le> z" for A B C r :: int
    using that by (intro conjI) linarith+
  have "march_days z \<le> 339999000 \<and> -339999000 \<le> march_days z"
    by (rule lin [of "z div 4" "z div 100" "z div 400" "march_days z"])
      (use q [of 4 z] q [of 100 z] q [of 400 z] zk(2) assms(2) in \<open>auto simp: march_days_def\<close>)
  with zk(1) s d show ?thesis by linarith
qed

lemma Date_Set_Ret:
  assumes "Date_IsValid y m d" "\<bar>y\<bar> \<le> 1000000"
  shows "Date_Set y m d = Ret (Date (day_number (astro y, m, d) + 1721120))"
proof -
  have "ymd_ok (astro y, m, d)" using assms(1) by (simp add: Date_IsValid_iff)
  with month_len_le [of "astro y" m] have "1 \<le> m" "m \<le> 12" "1 \<le> d" "d \<le> 31" by (auto simp: ymd_ok_def)
  with assms show ?thesis by (simp add: Date_Set_def YmdToJd_Ret)
qed

lemma Date_Get_Ret:
  assumes "\<bar>n\<bar> \<le> 400000000"
  shows "Date_Get (Date (n + 1721120)) = Ret (civil (ymd_of n))"
proof -
  have "\<bar>n + 1721120\<bar> \<le> 500000000" using assms by linarith
  then show ?thesis using jd_valid by (simp add: Date_Get_def JdToYmd_Ret)
qed

text \<open>
  C39: dates follow the Gregorian calendar: for every valid year, month and day within
  900000 years of year 1, \<open>Set\<close> gives a Julian day from which \<open>Get\<close> returns the same year,
  month and day, and the Julian day after it is the next day of the calendar, leap years,
  the ends of months and years and the missing year 0 included; none of the 32-bit
  computations overflows.
\<close>

theorem Date_follows_calendar:
  assumes "Date_IsValid y m d" "\<bar>y\<bar> \<le> 900000"
  shows "\<exists>jd y' m' d'. Date_Set y m d = Ret (Date jd) \<and> Date_Get (Date jd) = Ret (y, m, d) \<and>
    next_day (astro y, m, d) = (astro y', m', d') \<and> Date_IsValid y' m' d' \<and>
    Date_Set y' m' d' = Ret (Date (jd + 1)) \<and> Date_Get (Date (jd + 1)) = Ret (y', m', d')"
proof -
  let ?t = "(astro y, m, d)"
  have y: "y \<noteq> 0" and ok: "ymd_ok ?t" using assms(1) by (auto simp: Date_IsValid_iff)
  have "\<bar>astro y\<bar> \<le> 900001" using assms(2) by (auto simp: astro_def)
  with day_number_bounds [OF ok] have n: "\<bar>day_number ?t\<bar> \<le> 340000000" by blast
  then have n1: "\<bar>day_number ?t\<bar> \<le> 400000000" "\<bar>day_number ?t + 1\<bar> \<le> 400000000" by linarith+
  obtain y' m' d' where c: "civil (next_day ?t) = (y', m', d')" by (cases "civil (next_day ?t)")
  from civil_astro [of "next_day ?t"] c have nx: "y' \<noteq> 0" "(astro y', m', d') = next_day ?t" by auto
  have v: "Date_IsValid y' m' d'" using nx next_day_ok [OF ok] by (simp add: Date_IsValid_iff)
  have "\<bar>y'\<bar> \<le> 1000000" using nx assms(2) by (auto simp: next_day_def astro_def split: if_splits)
  from Date_Set_Ret [OF v this] have S': "Date_Set y' m' d' = Ret (Date (day_number ?t + 1 + 1721120))"
    by (simp add: nx(2) day_number_next [OF ok])
  have S: "Date_Set y m d = Ret (Date (day_number ?t + 1721120))" using Date_Set_Ret [OF assms(1)] assms(2) by simp
  have G: "Date_Get (Date (day_number ?t + 1721120)) = Ret (y, m, d)"
    using Date_Get_Ret [OF n1(1)] ymd_of_day_number [OF ok] astro_civil [OF y] by simp
  have "Date_Get (Date (day_number ?t + 1 + 1721120)) = Ret (civil (next_day ?t))"
    using Date_Get_Ret [OF n1(2)] ymd_of_next [of "day_number ?t"] ymd_of_day_number [OF ok] by simp
  with S S' G v nx(2) c show ?thesis
    by (intro exI [of _ "day_number ?t + 1721120"] exI [of _ y'] exI [of _ m'] exI [of _ d']) (simp add: add.assoc add.commute)
qed

lemma Date_follows_calendar_witness:
  "\<exists>jd y' m' d'. Date_Set (-1) 12 31 = Ret (Date jd) \<and> Date_Get (Date jd) = Ret (-1, 12, 31) \<and>
    next_day (0, 12, 31) = (astro y', m', d') \<and> Date_Get (Date (jd + 1)) = Ret (y', m', d') \<and> (y', m', d') = (1, 1, 1)"
proof -
  have "Date_IsValid (-1) 12 31" by (simp add: Date_IsValid_def DaysInMonth_def)
  from Date_follows_calendar [OF this] obtain jd y' m' d' where *:
    "Date_Set (-1) 12 31 = Ret (Date jd)" "Date_Get (Date jd) = Ret (-1, 12, 31)" "next_day (0, 12, 31) = (astro y', m', d')"
    "Date_IsValid y' m' d'" "Date_Get (Date (jd + 1)) = Ret (y', m', d')"
    by (auto simp: astro_def)
  then have "(y', m', d') = (1, 1, 1)" by (auto simp: next_day_def month_len_def astro_def Date_IsValid_def split: if_splits)
  with * show ?thesis by blast
qed

text \<open>The day of the week and of the year.\<close>

lemma Date_DayOfWeek_mod:
  assumes "\<not> Date_IsInvalid d"
  shows "Date_DayOfWeek d = Ret (m_jd d mod 7 + 1)"
proof (cases "0 \<le> m_jd d")
  case True
  then show ?thesis using assms by (simp add: Date_DayOfWeek_def signed_modulo_int_def sgn_if)
next
  case False
  have "(m_jd d + 1) smod 7 + 7 = m_jd d mod 7 + 1"
    using False by (simp add: signed_modulo_int_def sgn_if) presburger
  with False assms show ?thesis by (simp add: Date_DayOfWeek_def)
qed

lemma Date_DayOfYear_count:
  assumes "Date_IsValid y m d" "\<bar>y\<bar> \<le> 900000" "Date_Set y m d = Ret dt"
  shows "Date_DayOfYear dt = Ret (day_number (astro y, m, d) - day_number (astro y, 1, 1) + 1)"
proof -
  have y: "y \<noteq> 0" and ok: "ymd_ok (astro y, m, d)" using assms(1) by (auto simp: Date_IsValid_iff)
  have a: "\<bar>astro y\<bar> \<le> 900001" using assms(2) by (auto simp: astro_def)
  note n = day_number_bounds [OF ok a]
  have ok1: "ymd_ok (astro y, 1, 1)" by (simp add: ymd_ok_def month_len_def)
  note n1 = day_number_bounds [OF ok1 a]
  have dt: "dt = Date (day_number (astro y, m, d) + 1721120)" using Date_Set_Ret [OF assms(1)] assms(2,3) by simp
  have j: "\<bar>day_number (astro y, m, d) + 1721120\<bar> \<le> 500000000" using n by linarith
  have "Date_Year dt = Ret y"
    using jd_valid [OF j] JdToYmd_Ret [OF j] ymd_of_day_number [OF ok] astro_civil [OF y] by (simp add: dt Date_Year_def)
  moreover have "YmdToJd y 1 1 = Ret (day_number (astro y, 1, 1) + 1721120)" using assms(2) by (intro YmdToJd_Ret) auto
  moreover define k where "k = day_number (astro y, m, d) - day_number (astro y, 1, 1)"
  moreover have "-700000000 \<le> k" "k \<le> 700000000" using n n1 unfolding k_def by linarith+
  ultimately show ?thesis using jd_valid [OF j] by (simp add: Date_DayOfYear_def dt checked_def i32_ok_def)
qed

section \<open>Times wrap within the day\<close>

lemma smod_nonneg: "0 \<le> a \<Longrightarrow> 0 < b \<Longrightarrow> a smod b = a mod b" for a b :: int
  by (simp add: signed_modulo_int_def sgn_if)

lemma MsToHms_fields:
  assumes "0 \<le> ms"
  shows "MsToHms ms = (ms div 3600000, ms mod 3600000 div 60000, ms div 1000 mod 60, ms mod 1000)"
  using assms by (simp add: MsToHms_def sdiv_nonneg smod_nonneg)

lemma HmsToMs_MsToHms:
  fixes ms :: int
  assumes "0 \<le> ms"
  shows "ms div 3600000 * 60 * 60 * 1000 + ms mod 3600000 div 60000 * 60 * 1000 + ms div 1000 mod 60 * 1000 + ms mod 1000 = ms"
proof -
  define a where "a = ms div 1000"
  have 1: "ms div 3600000 = a div 3600" "ms mod 1000 = ms - 1000 * a"
    using assms zdiv_zmult2_eq [of 3600 ms 1000] by (simp_all add: a_def minus_mult_div_eq_mod [symmetric])
  have 2: "ms mod 3600000 div 60000 = a mod 3600 div 60"
  proof -
    have "ms mod 3600000 = 1000 * (a mod 3600) + ms mod 1000" using zmod_zmult2_eq [of 3600 ms 1000] by (simp add: a_def)
    moreover have "(1000 * (a mod 3600) + ms mod 1000) div 60000 = (1000 * (a mod 3600) + ms mod 1000) div 1000 div 60"
      using zdiv_zmult2_eq [of 60 _ 1000] by simp
    moreover have "(1000 * (a mod 3600) + ms mod 1000) div 1000 = a mod 3600" by simp
    ultimately show ?thesis by simp
  qed
  have 3: "a mod 3600 div 60 = a div 60 - 60 * (a div 3600)" "a mod 60 = a - 60 * (a div 60)"
    using zmod_zmult2_eq [of 60 a 60] zdiv_zmult2_eq [of 60 a 60] by (simp_all add: minus_mult_div_eq_mod [symmetric] algebra_simps)
  show ?thesis unfolding 1 2 a_def [symmetric] 3 by simp
qed

lemma wrap_day_mod:
  assumes "- TIME_MS_IN_DAY \<le> r" "r \<le> 2 * TIME_MS_IN_DAY - 1"
  shows "wrap_day r = r mod TIME_MS_IN_DAY"
proof -
  have "r < 0 \<Longrightarrow> r mod TIME_MS_IN_DAY = r + TIME_MS_IN_DAY" "0 \<le> r \<Longrightarrow> r < TIME_MS_IN_DAY \<Longrightarrow> r mod TIME_MS_IN_DAY = r"
    "TIME_MS_IN_DAY \<le> r \<Longrightarrow> r mod TIME_MS_IN_DAY = r - TIME_MS_IN_DAY"
    using assms mod_pos_pos_trivial [of "r + TIME_MS_IN_DAY" TIME_MS_IN_DAY] mod_pos_pos_trivial [of "r - TIME_MS_IN_DAY" TIME_MS_IN_DAY]
    by (simp_all add: TIME_MS_IN_DAY_def)
  then show ?thesis using assms by (auto simp: wrap_day_def Let_def TIME_MS_IN_DAY_def)
qed

text \<open>
  Adding up to a day of seconds to a time of day is addition modulo a day, and
  subtracting them again gives the time back, whichever of the four operators is used;
  a time is the one that \<open>Set\<close> makes of its hour, minute, second and millisecond.
\<close>

theorem Time_arithmetic_wraps:
  assumes "\<not> Time_IsInvalid t" "\<bar>secs\<bar> \<le> 86400"
  shows "\<exists>t'. Time_plus t secs = Ret t' \<and> Time_plus_assign t secs = Ret t' \<and>
    m_ms t' = (m_ms t + 1000 * secs) mod TIME_MS_IN_DAY \<and> \<not> Time_IsInvalid t' \<and>
    Time_minus t' secs = Ret t \<and> Time_minus_assign t' secs = Ret t \<and>
    (case Time_Get t of (h, m, s, u) \<Rightarrow> Time_Set h m s u = Ret t)"
proof -
  let ?D = TIME_MS_IN_DAY
  let ?r = "(m_ms t + 1000 * secs) mod ?D"
  have D: "?D = 86400000" by (simp add: TIME_MS_IN_DAY_def)
  have t: "0 \<le> m_ms t" "m_ms t < ?D" using assms(1) by (auto simp: Time_IsInvalid_def)
  have r: "0 \<le> ?r" "?r < ?D" by (simp_all add: D)
  have ms: "secs * 1000 \<le> ?D" "- ?D \<le> secs * 1000" "i32_ok (secs * 1000)" using assms(2) by (auto simp: D i32_ok_def)
  have p: "wrap_day (m_ms t + secs * 1000) = ?r"
    using wrap_day_mod [of "m_ms t + secs * 1000"] t ms(1,2) by (simp add: mult.commute)
  have "(?r - secs * 1000) mod ?D = m_ms t"
    using t by (simp add: mod_diff_left_eq mult.commute)
  then have m: "wrap_day (?r - secs * 1000) = m_ms t" using wrap_day_mod [of "?r - secs * 1000"] r ms(1,2) by simp
  have "\<not> Time_IsInvalid (Time ?r)" using r by (simp add: Time_IsInvalid_def)
  moreover have "Time_plus t secs = Ret (Time ?r)" "Time_plus_assign t secs = Ret (Time ?r)"
    using ms assms(1) r by (simp_all add: Time_plus_def Time_plus_assign_def checked_def p Time_of_ms_def)
  moreover have "Time_minus (Time ?r) secs = Ret t" "Time_minus_assign (Time ?r) secs = Ret t"
    using ms calculation(1) t by (simp_all add: Time_minus_def Time_minus_assign_def checked_def m Time_of_ms_def)
  moreover have "case Time_Get t of (h, m, s, u) \<Rightarrow> Time_Set h m s u = Ret t"
  proof -
    define h where "h = m_ms t div 3600000"
    define mi where "mi = m_ms t mod 3600000 div 60000"
    define s where "s = m_ms t div 1000 mod 60"
    define u where "u = m_ms t mod 1000"
    have G: "Time_Get t = (h, mi, s, u)"
      using assms(1) t MsToHms_fields by (simp add: Time_Get_def h_def mi_def s_def u_def)
    have b: "0 \<le> h" "h \<le> 23" "0 \<le> mi" "mi \<le> 59" "0 \<le> s" "s \<le> 59" "0 \<le> u" "u \<le> 999"
      using t zdiv_mono1 [of "m_ms t" 86399999 3600000] zdiv_mono1 [of "m_ms t mod 3600000" 3599999 60000]
      unfolding D h_def mi_def s_def u_def by (simp_all add: pos_imp_zdiv_nonneg_iff)
    have "h * 60 * 60 * 1000 + mi * 60 * 1000 + s * 1000 + u = m_ms t"
      using HmsToMs_MsToHms [OF t(1)] by (simp add: h_def mi_def s_def u_def)
    with b G show ?thesis by (simp add: Time_Set_def Time_IsValid_def HmsToMs_def checked_def i32_ok_def Let_def)
  qed
  ultimately show ?thesis by (intro exI [of _ "Time ?r"]) simp
qed

lemma Time_arithmetic_wraps_witness:
  "\<exists>t'. Time_plus (Time 86399000) 2 = Ret t' \<and> m_ms t' = 1000 \<and> Time_minus t' 2 = Ret (Time 86399000) \<and>
    Time_Set 23 59 59 0 = Ret (Time 86399000)"
proof -
  have "\<not> Time_IsInvalid (Time 86399000)" by (simp add: Time_IsInvalid_def TIME_MS_IN_DAY_def)
  from Time_arithmetic_wraps [OF this, of 2] show ?thesis
    by (auto simp: TIME_MS_IN_DAY_def Time_Get_def Time_IsInvalid_def MsToHms_fields)
qed

section \<open>The build date\<close>

text \<open>The date as a compiler writes it: the day is padded with a blank.\<close>

definition macro_date :: "nat \<Rightarrow> nat \<Rightarrow> nat \<Rightarrow> string" where
  "macro_date y m d = month_short ! (m - 1) @ CHR '' '' # (if d < 10 then '' '' else []) @ dec d @ CHR '' '' # dec y"

lemma pad_dec_0: "pad_dec 0 n = dec n"
  by (simp add: pad_dec_def)

lemma month_short_nth:
  assumes "1 \<le> m" "m \<le> 12"
  shows "CHR '' '' \<notin> set (month_short ! (m - 1))" "month_short ! (m - 1) \<noteq> []"
    "find_index (\<lambda>s. month_short ! (m - 1) = s) month_short = Some (m - 1)"
proof -
  have "m = 1 \<or> m = 2 \<or> m = 3 \<or> m = 4 \<or> m = 5 \<or> m = 6 \<or> m = 7 \<or> m = 8 \<or> m = 9 \<or> m = 10 \<or> m = 11 \<or> m = 12"
    using assms by presburger
  then show "CHR '' '' \<notin> set (month_short ! (m - 1))" "month_short ! (m - 1) \<noteq> []"
    "find_index (\<lambda>s. month_short ! (m - 1) = s) month_short = Some (m - 1)"
    by (elim disjE; simp add: month_short_def)+
qed

text \<open>
  \<open>FromMacros\<close> reads the date that a compiler puts into \<open>__DATE__\<close>, with the blank that
  pads a day below ten, as the date of its year, month and day.
\<close>

theorem FromMacros_reads_the_build_date:
  assumes "1 \<le> m" "m \<le> 12" "d \<le> 31" "y \<le> 9999"
  shows "FromMacros (macro_date y m d) = Date_Set (int y) (int m) (int d)"
proof -
  note M = month_short_nth [OF assms(1,2)]
  have sp: "CHR '' '' \<notin> set (dec n)" for n using digits_no_char by blast
  have "SplitChar (macro_date y m d) (CHR '' '') False = [month_short ! (m - 1), dec d, dec y]"
    using M(1,2) sp pieces_char(1) [of "CHR '' ''" "[]"]
    by (simp add: SplitChar_words macro_date_def pieces_char dec_not_Nil)
  moreover have "ToInt32 (dec n) 10 = int n" if "n \<le> 9999" for n
    using ToInt32_pad_dec [of n 0] that by (simp add: pad_dec_0)
  ultimately show ?thesis using M(3) assms by (simp add: FromMacros_def of_nat_diff)
qed

lemma FromMacros_reads_the_build_date_witness:
  "FromMacros ''Mar  5 2024'' = Date_Set 2024 3 5"
proof -
  have "FromMacros (macro_date 2024 3 5) = Date_Set (int 2024) (int 3) (int 5)"
    by (rule FromMacros_reads_the_build_date) simp_all
  moreover have "macro_date 2024 3 5 = ''Mar  5 2024''"
    by (simp add: macro_date_def month_short_def dec.simps digit_chars)
  ultimately show ?thesis by simp
qed

end
