(* ===== verification/Rtc.thy ===== *)
theory Rtc
  imports DateTime KernelErrors
begin

unbundle bit_operations_syntax

text \<open>
  The real-time clock library of \<open>src/libs/libRtc.cpp\<close>: a date and time as a structure of
  unsigned fields, a tick as the microseconds since the start of year 1 in an unsigned 64-bit
  integer. A pointer argument is an option of what it points to and a call returns what it
  writes; the host clock is an argument. \<open>sscanf\<close> and \<open>snprintf\<close> are modelled for the formats
  used; a scanned number that its type cannot hold is undefined.
\<close>

section \<open>Dates and ticks\<close>

definition RTC_ERROR_DATETIME_UNINITIALIZED :: int where "RTC_ERROR_DATETIME_UNINITIALIZED = 0x7ffef9fe"
definition RTC_ERROR_INVALID_POINTER :: int where "RTC_ERROR_INVALID_POINTER = -2135621630"
definition RTC_ERROR_INVALID_VALUE :: int where "RTC_ERROR_INVALID_VALUE = -2135621629"
definition RTC_ERROR_INVALID_YEAR :: int where "RTC_ERROR_INVALID_YEAR = -2135621624"
definition RTC_ERROR_INVALID_MONTH :: int where "RTC_ERROR_INVALID_MONTH = -2135621623"
definition RTC_ERROR_INVALID_DAY :: int where "RTC_ERROR_INVALID_DAY = -2135621622"
definition RTC_ERROR_INVALID_HOUR :: int where "RTC_ERROR_INVALID_HOUR = -2135621621"
definition RTC_ERROR_INVALID_MINUTE :: int where "RTC_ERROR_INVALID_MINUTE = -2135621620"
definition RTC_ERROR_INVALID_SECOND :: int where "RTC_ERROR_INVALID_SECOND = -2135621619"
definition RTC_ERROR_INVALID_MICROSECOND :: int where "RTC_ERROR_INVALID_MICROSECOND = -2135621618"

definition RTC_UNIX_EPOCH_TICKS :: u64 where "RTC_UNIX_EPOCH_TICKS = 0xdcbffeff2bc000"
definition RTC_WIN32_FILETIME_EPOCH_TICKS :: u64 where "RTC_WIN32_FILETIME_EPOCH_TICKS = 0xb36168b6a58000"

lemmas rtc_codes =
  RTC_ERROR_DATETIME_UNINITIALIZED_def RTC_ERROR_INVALID_POINTER_def RTC_ERROR_INVALID_VALUE_def RTC_ERROR_INVALID_YEAR_def
  RTC_ERROR_INVALID_MONTH_def RTC_ERROR_INVALID_DAY_def RTC_ERROR_INVALID_HOUR_def RTC_ERROR_INVALID_MINUTE_def
  RTC_ERROR_INVALID_SECOND_def RTC_ERROR_INVALID_MICROSECOND_def

record rtc_date_time =
  r_year :: u16
  r_month :: u16
  r_day :: u16
  r_hour :: u16
  r_minute :: u16
  r_second :: u16
  r_microsecond :: u32

definition RtcCheckValid :: "rtc_date_time option \<Rightarrow> int" where
  "RtcCheckValid p =
     (case p of
        None \<Rightarrow> RTC_ERROR_INVALID_POINTER
      | Some time \<Rightarrow>
          if r_year time = 0 \<or> r_year time > 9999 then RTC_ERROR_INVALID_YEAR
          else if r_month time = 0 \<or> r_month time > 12 then RTC_ERROR_INVALID_MONTH
          else if r_day time = 0 \<or> \<not> Date_IsValid (uint (r_year time)) (uint (r_month time)) (uint (r_day time)) then RTC_ERROR_INVALID_DAY
          else if r_hour time \<ge> 24 then RTC_ERROR_INVALID_HOUR
          else if r_minute time \<ge> 60 then RTC_ERROR_INVALID_MINUTE
          else if r_second time \<ge> 60 then RTC_ERROR_INVALID_SECOND
          else if r_microsecond time \<ge> 1000000 then RTC_ERROR_INVALID_MICROSECOND
          else OK)"

definition RtcGetDaysInMonth :: "int \<Rightarrow> int \<Rightarrow> int" where
  "RtcGetDaysInMonth year month =
     (if year \<le> 0 \<or> year > 9999 then RTC_ERROR_INVALID_YEAR
      else if month \<le> 0 \<or> month > 12 then RTC_ERROR_INVALID_MONTH
      else if month = 2 \<and> IsLeapYear year then 29
      else DaysInMonth month)"

definition RtcIsLeapYear :: "int \<Rightarrow> int" where
  "RtcIsLeapYear year =
     (if year \<le> 0 \<or> year > 9999 then RTC_ERROR_INVALID_YEAR else if IsLeapYear year then 1 else 0)"

definition RtcGetDayOfWeek :: "int \<Rightarrow> int \<Rightarrow> int \<Rightarrow> int outcome" where
  "RtcGetDayOfWeek year month day =
     (let days = RtcGetDaysInMonth year month in
      if days < 0 then Ret days
      else if day \<le> 0 \<or> day > days then Ret RTC_ERROR_INVALID_DAY
      else
        obind (Date_Set year month day) (\<lambda>d.
        omap (\<lambda>dow. if dow = 7 then 0 else dow) (Date_DayOfWeek d)))"

definition RtcGetTickResolution :: int where
  "RtcGetTickResolution = 1000000"

definition RtcGetCurrentClockLocalTime :: "datetime \<Rightarrow> rtc_date_time option \<Rightarrow> (int \<times> rtc_date_time option) outcome" where
  "RtcGetCurrentClockLocalTime now p =
     (case p of
        None \<Rightarrow> Ret (RTC_ERROR_DATETIME_UNINITIALIZED, None)
      | Some time \<Rightarrow>
          obind (Date_Year (m_date now)) (\<lambda>y.
          obind (Date_Month (m_date now)) (\<lambda>m.
          obind (Date_Day (m_date now)) (\<lambda>d.
          let t = m_time now in
          Ret (OK, Some \<lparr>r_year = word_of_int y, r_month = word_of_int m, r_day = word_of_int d,
            r_hour = word_of_int (Time_Hour24 t), r_minute = word_of_int (Time_Minute t),
            r_second = word_of_int (Time_Second t), r_microsecond = word_of_int (Time_Msec t * 1000)\<rparr>)))))"

text \<open>\<open>days\<close> counts from the start of year 1; the year and the month begin in March.\<close>

definition RtcSetTick :: "rtc_date_time option \<Rightarrow> u64 option \<Rightarrow> int \<times> rtc_date_time option" where
  "RtcSetTick p q =
     (case (p, q) of
        (Some time, Some tick) \<Rightarrow>
          let days = tick div 86400000000 + 307;
              usec = tick mod 86400000000;
              j = push_bit 2 days - 1;
              ly = j div 146097;
              j = j - 146097 * ly;
              ld = drop_bit 2 j;
              j = (push_bit 2 ld + 3) div 1461;
              ld = drop_bit 2 (push_bit 2 ld + 7 - 1461 * j);
              lm = (5 * ld - 3) div 153;
              ld = (5 * ld + 2 - 153 * lm) div 5;
              ly = 100 * ly + j;
              (lm, ly) = (if lm < 10 then (lm + 3, ly) else (lm - 9, ly + 1)) in
          if ly = 0 \<or> ly > 9999 then (RTC_ERROR_INVALID_VALUE, Some time)
          else
            let usec1 = usec mod 3600000000; usec2 = usec1 mod 60000000;
                t = \<lparr>r_year = ucast ly, r_month = ucast lm, r_day = ucast ld,
                  r_hour = ucast (usec div 3600000000), r_minute = ucast (usec1 div 60000000),
                  r_second = ucast (usec2 div 1000000), r_microsecond = ucast (usec2 mod 1000000)\<rparr> in
            (RtcCheckValid (Some t), Some t)
      | _ \<Rightarrow> (RTC_ERROR_INVALID_POINTER, p))"

definition RtcGetTick :: "rtc_date_time option \<Rightarrow> u64 option \<Rightarrow> int \<times> u64 option" where
  "RtcGetTick p q =
     (case (p, q) of
        (Some time, Some tick) \<Rightarrow>
          let valid = RtcCheckValid (Some time) in
          if valid \<noteq> OK then (valid, q)
          else
            let year = ucast (r_year time) :: u64; month = ucast (r_month time) :: u64;
                (month, year) = (if month > 2 then (month - 3, year) else (month + 9, year - 1));
                c = year div 100;
                ya = year - 100 * c;
                days = drop_bit 2 (146097 * c) + drop_bit 2 (1461 * ya) + (153 * month + 2) div 5 + ucast (r_day time);
                days = (days - 307) * 86400000000;
                usec = ucast (r_hour time) * 3600000000 + ucast (r_minute time) * 60000000 +
                  ucast (r_second time) * 1000000 + ucast (r_microsecond time) in
            (OK, Some (days + usec))
      | _ \<Rightarrow> (RTC_ERROR_INVALID_POINTER, q))"

text \<open>The clock is the microseconds since 1970.\<close>

definition RtcGetCurrentTick :: "u64 \<Rightarrow> u64 option \<Rightarrow> int \<times> u64 option" where
  "RtcGetCurrentTick now_us q =
     (case q of None \<Rightarrow> (RTC_ERROR_DATETIME_UNINITIALIZED, None) | Some _ \<Rightarrow> (OK, Some (RTC_UNIX_EPOCH_TICKS + now_us)))"

definition RtcGetCurrentNetworkTick :: "u64 \<Rightarrow> u64 option \<Rightarrow> int \<times> u64 option" where
  "RtcGetCurrentNetworkTick now_us q = RtcGetCurrentTick now_us q"

definition RtcGetCurrentClock :: "u64 \<Rightarrow> rtc_date_time option \<Rightarrow> int \<Rightarrow> int \<times> rtc_date_time option" where
  "RtcGetCurrentClock now_us p time_zone_minutes =
     (case p of
        None \<Rightarrow> (RTC_ERROR_DATETIME_UNINITIALIZED, None)
      | Some time \<Rightarrow>
          case RtcGetCurrentTick now_us (Some 0) of
            (ret, Some tick) \<Rightarrow>
              if ret \<noteq> OK then (ret, p) else RtcSetTick p (Some (tick + word_of_int (time_zone_minutes * 60000000)))
          | (ret, None) \<Rightarrow> (ret, p))"

definition RtcConvertUtcToLocalTime :: "u64 option \<Rightarrow> u64 option \<Rightarrow> int \<times> u64 option" where
  "RtcConvertUtcToLocalTime utc local_time =
     (if utc = None \<or> local_time = None then (RTC_ERROR_INVALID_POINTER, local_time) else (OK, utc))"

definition RtcConvertLocalTimeToUtc :: "u64 option \<Rightarrow> u64 option \<Rightarrow> int \<times> u64 option" where
  "RtcConvertLocalTimeToUtc local_time utc =
     (if local_time = None \<or> utc = None then (RTC_ERROR_INVALID_POINTER, utc) else (OK, local_time))"

section \<open>Conversions of a tick\<close>

definition i64_ok :: "int \<Rightarrow> bool" where
  "i64_ok x \<longleftrightarrow> - (2 ^ 63) \<le> x \<and> x < 2 ^ 63"

definition checked64 :: "int \<Rightarrow> int outcome" where
  "checked64 x = (if i64_ok x then Ret x else Undef)"

definition RtcGetTime_t :: "rtc_date_time option \<Rightarrow> int option \<Rightarrow> int \<times> int option" where
  "RtcGetTime_t p q =
     (if p = None \<or> q = None then (RTC_ERROR_INVALID_POINTER, q)
      else case RtcGetTick p (Some 0) of
          (ret, Some tick) \<Rightarrow>
            if ret \<noteq> OK then (ret, q)
            else (OK, Some (if tick < RTC_UNIX_EPOCH_TICKS then 0 else sint ((tick - RTC_UNIX_EPOCH_TICKS) div 1000000)))
        | (ret, None) \<Rightarrow> (ret, q))"

definition RtcGetWin32FileTime :: "rtc_date_time option \<Rightarrow> u64 option \<Rightarrow> int \<times> u64 option" where
  "RtcGetWin32FileTime p q =
     (if p = None \<or> q = None then (RTC_ERROR_INVALID_POINTER, q)
      else case RtcGetTick p (Some 0) of
          (ret, Some tick) \<Rightarrow>
            if ret \<noteq> OK then (ret, q)
            else (OK, Some (if tick < RTC_WIN32_FILETIME_EPOCH_TICKS then 0 else (tick - RTC_WIN32_FILETIME_EPOCH_TICKS) * 10))
        | (ret, None) \<Rightarrow> (ret, q))"

definition RtcSetWin32FileTime :: "rtc_date_time option \<Rightarrow> u64 \<Rightarrow> int \<times> rtc_date_time option" where
  "RtcSetWin32FileTime p win32_time =
     (if p = None then (RTC_ERROR_INVALID_POINTER, p)
      else if win32_time div 10 > NOT 0 - RTC_WIN32_FILETIME_EPOCH_TICKS then (RTC_ERROR_INVALID_VALUE, p)
      else RtcSetTick p (Some (win32_time div 10 + RTC_WIN32_FILETIME_EPOCH_TICKS)))"

definition RtcSetTime_t :: "rtc_date_time option \<Rightarrow> int \<Rightarrow> int \<times> rtc_date_time option" where
  "RtcSetTime_t p seconds =
     (if p = None then (RTC_ERROR_INVALID_POINTER, p)
      else if seconds < 0 then (RTC_ERROR_INVALID_VALUE, p)
      else
        let sec = word_of_int seconds in
        if sec > (NOT 0 - RTC_UNIX_EPOCH_TICKS) div 1000000 then (RTC_ERROR_INVALID_VALUE, p)
        else RtcSetTick p (Some (sec * 1000000 + RTC_UNIX_EPOCH_TICKS)))"

text \<open>The destination and the source of the additions; the products are signed.\<close>

definition RtcTickAddTicks :: "u64 option \<Rightarrow> u64 option \<Rightarrow> int \<Rightarrow> int \<times> u64 option" where
  "RtcTickAddTicks dst src ticks =
     (case (dst, src) of (Some _, Some s) \<Rightarrow> (OK, Some (s + word_of_int ticks)) | _ \<Rightarrow> (RTC_ERROR_INVALID_POINTER, dst))"

definition RtcTickAddMicroseconds :: "u64 option \<Rightarrow> u64 option \<Rightarrow> int \<Rightarrow> int \<times> u64 option" where
  "RtcTickAddMicroseconds dst src usec = RtcTickAddTicks dst src usec"

definition RtcTickAddSeconds :: "u64 option \<Rightarrow> u64 option \<Rightarrow> int \<Rightarrow> (int \<times> u64 option) outcome" where
  "RtcTickAddSeconds dst src seconds = omap (RtcTickAddTicks dst src) (checked64 (seconds * 1000000))"

definition RtcTickAddMinutes :: "u64 option \<Rightarrow> u64 option \<Rightarrow> int \<Rightarrow> (int \<times> u64 option) outcome" where
  "RtcTickAddMinutes dst src minutes = omap (RtcTickAddTicks dst src) (checked64 (minutes * 60000000))"

definition RtcTickAddHours :: "u64 option \<Rightarrow> u64 option \<Rightarrow> int \<Rightarrow> (int \<times> u64 option) outcome" where
  "RtcTickAddHours dst src hours = omap (RtcTickAddTicks dst src) (checked64 (hours * 3600000000))"

definition RtcTickAddDays :: "u64 option \<Rightarrow> u64 option \<Rightarrow> int \<Rightarrow> (int \<times> u64 option) outcome" where
  "RtcTickAddDays dst src days = omap (RtcTickAddTicks dst src) (checked64 (days * 86400000000))"

definition RtcTickAddWeeks :: "u64 option \<Rightarrow> u64 option \<Rightarrow> int \<Rightarrow> (int \<times> u64 option) outcome" where
  "RtcTickAddWeeks dst src weeks = omap (RtcTickAddTicks dst src) (checked64 (weeks * 604800000000))"

section \<open>RFC 3339\<close>

text \<open>The zone is cut to the seven characters its buffer holds, the date to 31.\<close>

definition rfc3339_zone :: "int \<Rightarrow> string" where
  "rfc3339_zone time_zone_minutes =
     (if time_zone_minutes = 0 then ''Z''
      else
        let sign = (if time_zone_minutes < 0 then CHR ''-'' else CHR ''+'');
            minutes = nat \<bar>time_zone_minutes\<bar> in
        take 7 (sign # pad_dec 2 (minutes div 60) @ CHR '':'' # pad_dec 2 (minutes mod 60)))"

definition rfc3339_text :: "rtc_date_time \<Rightarrow> string \<Rightarrow> string" where
  "rfc3339_text time zone =
     take 31 (pad_dec 4 (unat (r_year time)) @ CHR ''-'' # pad_dec 2 (unat (r_month time)) @ CHR ''-'' # pad_dec 2 (unat (r_day time)) @
       CHR ''T'' # pad_dec 2 (unat (r_hour time)) @ CHR '':'' # pad_dec 2 (unat (r_minute time)) @ CHR '':'' #
       pad_dec 2 (unat (r_second time)) @ CHR ''.'' # pad_dec 2 (unat (r_microsecond time div 10000)) @ zone)"

definition RtcFormatRFC3339 :: "u64 \<Rightarrow> string option \<Rightarrow> u64 option \<Rightarrow> int \<Rightarrow> (int \<times> string option) outcome" where
  "RtcFormatRFC3339 now_us date_time utc time_zone_minutes =
     (if date_time = None then Ret (RTC_ERROR_INVALID_POINTER, None)
      else
        let tick = (case utc of None \<Rightarrow> RTC_UNIX_EPOCH_TICKS + now_us | Some t \<Rightarrow> t);
            offset_ticks = time_zone_minutes * 60000000 in
        if offset_ticks < 0 \<and> tick < word_of_int (- offset_ticks) then Ret (RTC_ERROR_INVALID_VALUE, date_time)
        else
          obind (checked64 (sint tick + offset_ticks)) (\<lambda>v.
          case RtcSetTick (Some \<lparr>r_year = 0, r_month = 0, r_day = 0, r_hour = 0, r_minute = 0, r_second = 0, r_microsecond = 0\<rparr>)
              (Some (word_of_int v)) of
            (ret, None) \<Rightarrow> Ret (ret, date_time)
          | (ret, Some time) \<Rightarrow>
              if ret \<noteq> OK then Ret (ret, date_time)
              else if time_zone_minutes = - (2 ^ 31) then Undef
              else Ret (OK, Some (rfc3339_text time (rfc3339_zone time_zone_minutes)))))"

text \<open>\<open>%hu\<close>: blanks, a sign and digits; and two characters of \<open>%d\<close>.\<close>

definition scan_hu :: "string \<Rightarrow> (u16 \<times> string) option outcome" where
  "scan_hu s =
     (let s = dropWhile IsSpace s;
          neg = (s \<noteq> [] \<and> hd s = CHR ''-'');
          s = (if s \<noteq> [] \<and> (hd s = CHR ''-'' \<or> hd s = CHR ''+'') then tl s else s);
          ds = takeWhile (is_digit 10) s;
          v = number 10 ds in
      if ds = [] then Ret None
      else if v > 65535 \<or> (neg \<and> v \<noteq> 0) then Undef
      else Ret (Some (of_nat v, dropWhile (is_digit 10) s)))"

definition scan_char :: "char \<Rightarrow> string \<Rightarrow> string option" where
  "scan_char c s = (if s \<noteq> [] \<and> hd s = c then Some (tl s) else None)"

definition scan_d2 :: "string \<Rightarrow> (int \<times> string) option" where
  "scan_d2 s =
     (let s = dropWhile IsSpace s;
          sign = (s \<noteq> [] \<and> (hd s = CHR ''-'' \<or> hd s = CHR ''+''));
          neg = (s \<noteq> [] \<and> hd s = CHR ''-'');
          s = (if sign then tl s else s);
          ds = takeWhile (is_digit 10) (take (if sign then 1 else 2) s) in
      if ds = [] then None
      else Some (if neg then - int (number 10 ds) else int (number 10 ds), drop (length ds) s))"

text \<open>One field and the character before it, which the first field has not.\<close>

definition scan_field :: "char option \<Rightarrow> string \<Rightarrow> (u16 \<times> string) option outcome" where
  "scan_field c s =
     (case (case c of None \<Rightarrow> Some s | Some k \<Rightarrow> scan_char k s) of
        None \<Rightarrow> Ret None
      | Some s \<Rightarrow> scan_hu s)"

fun scan_fields :: "char option list \<Rightarrow> string \<Rightarrow> (u16 list \<times> string) option outcome" where
  "scan_fields [] s = Ret (Some ([], s))"
| "scan_fields (c # cs) s =
     obind (scan_field c s) (\<lambda>r.
     case r of
       None \<Rightarrow> Ret None
     | Some (v, s) \<Rightarrow> omap (map_option (\<lambda>(vs, s). (v # vs, s))) (scan_fields cs s))"

definition rfc3339_fields :: "char option list" where
  "rfc3339_fields = [None, Some (CHR ''-''), Some (CHR ''-''), Some (CHR ''T''), Some (CHR '':''), Some (CHR '':'')]"

text \<open>The digits of a fraction: the first six, padded on the right to six.\<close>

definition fraction :: "string \<Rightarrow> u32 \<times> string" where
  "fraction s =
     (let ds = takeWhile (is_digit 10) s in
      (if ds = [] then 0 else of_nat (number 10 (take 6 ds) * 10 ^ (6 - length (take 6 ds))), dropWhile (is_digit 10) s))"

definition RtcParseRFC3339 :: "u64 option \<Rightarrow> string option \<Rightarrow> (int \<times> u64 option) outcome" where
  "RtcParseRFC3339 utc date_time =
     (case (utc, date_time) of
        (Some _, Some txt) \<Rightarrow>
          obind (scan_fields rfc3339_fields txt) (\<lambda>r.
          case r of
            None \<Rightarrow> Ret (RTC_ERROR_INVALID_VALUE, utc)
          | Some (vs, pos) \<Rightarrow>
              let (us, pos) = (if pos \<noteq> [] \<and> hd pos = CHR ''.'' then fraction (tl pos) else (0, pos));
                  time = \<lparr>r_year = vs ! 0, r_month = vs ! 1, r_day = vs ! 2, r_hour = vs ! 3, r_minute = vs ! 4, r_second = vs ! 5,
                    r_microsecond = us\<rparr> in
              case RtcGetTick (Some time) utc of
                (ret, utc) \<Rightarrow>
                  if ret \<noteq> OK then Ret (ret, utc)
                  else if pos = [] \<or> hd pos = CHR ''Z'' then Ret (OK, utc)
                  else if hd pos \<noteq> CHR ''+'' \<and> hd pos \<noteq> CHR ''-'' then Ret (RTC_ERROR_INVALID_VALUE, utc)
                  else
                    case (case scan_d2 (tl pos) of
                        None \<Rightarrow> None
                      | Some (h, s) \<Rightarrow> (case scan_char (CHR '':'') s of None \<Rightarrow> None
                          | Some s \<Rightarrow> (case scan_d2 s of None \<Rightarrow> None | Some (m, _) \<Rightarrow> Some (h, m)))) of
                      None \<Rightarrow> Ret (RTC_ERROR_INVALID_VALUE, utc)
                    | Some (zone_hour, zone_min) \<Rightarrow>
                        let zone_minutes = zone_hour * 60 + zone_min;
                            zone_minutes = (if hd pos = CHR ''-'' then - zone_minutes else zone_minutes);
                            offset_ticks = zone_minutes * 60000000;
                            tick = the utc in
                        if offset_ticks > 0 \<and> tick < word_of_int offset_ticks then Ret (RTC_ERROR_INVALID_VALUE, utc)
                        else omap (\<lambda>v. (OK, Some (word_of_int v))) (checked64 (sint tick - offset_ticks)))
      | _ \<Rightarrow> Ret (RTC_ERROR_INVALID_POINTER, utc))"

section \<open>Ticks follow the calendar\<close>

text \<open>Operations on 64-bit values that do not wrap.\<close>

lemma u64_exact:
  fixes x y :: u64
  shows "uint x + uint y < 2 ^ 64 \<Longrightarrow> uint (x + y) = uint x + uint y"
    "uint y \<le> uint x \<Longrightarrow> uint (x - y) = uint x - uint y"
    "uint x * uint y < 2 ^ 64 \<Longrightarrow> uint (x * y) = uint x * uint y"
    "uint (x div y) = uint x div uint y"
    "uint (x mod y) = uint x mod uint y"
    "uint (drop_bit 2 x) = uint x div 4"
    "4 * uint x < 2 ^ 64 \<Longrightarrow> uint (push_bit 2 x) = 4 * uint x"
proof -
  have r: "0 \<le> uint x" "uint x < 2 ^ 64" "0 \<le> uint y" "uint y < 2 ^ 64" using uint_lt2p [of x] uint_lt2p [of y] by simp_all
  show "uint x + uint y < 2 ^ 64 \<Longrightarrow> uint (x + y) = uint x + uint y" using r by (simp add: uint_word_ariths)
  show "uint y \<le> uint x \<Longrightarrow> uint (x - y) = uint x - uint y"
  proof -
    assume "uint y \<le> uint x"
    moreover have "uint x - uint y < 2 ^ 64" using r by linarith
    ultimately show ?thesis by (simp only: uint_word_ariths) (intro mod_pos_pos_trivial, simp_all)
  qed
  show m: "uint x * uint y < 2 ^ 64 \<Longrightarrow> uint (x * y) = uint x * uint y" for x y :: u64 by (simp add: uint_word_ariths)
  show "uint (x div y) = uint x div uint y" by (rule uint_div_distrib)
  show "uint (x mod y) = uint x mod uint y" by (rule uint_mod_distrib)
  show "uint (drop_bit 2 x) = uint x div 4" by (simp add: drop_bit_eq_div uint_div_distrib)
  show "4 * uint x < 2 ^ 64 \<Longrightarrow> uint (push_bit 2 x) = 4 * uint x"
    using m [of x 4] by (simp add: push_bit_eq_mult mult.commute)
qed

lemma uint_numeral_64: "k < 2 ^ 64 \<Longrightarrow> 0 \<le> k \<Longrightarrow> uint (word_of_int k :: u64) = k"
  by (simp add: uint_word_of_int)

text \<open>The day of a tick, counted from March 1 of the year 0.\<close>

definition tick_day :: "u64 \<Rightarrow> int" where
  "tick_day tick = uint tick div 86400000000 + 306"

lemma mod_bounds: "0 < k \<Longrightarrow> 0 \<le> x mod k \<and> x mod k < k" for k x :: int
  by simp

lemma shift_century: "(4 * a + 3 - 146097 * century a) div 4 = century_day a"
proof -
  have "4 * (146097 * century a div 4) = 146097 * century a - century a mod 4"
    using four_quotient [of 146097 "century a"] by (simp add: mod_mult_left_eq [of 146097 4 "century a", symmetric])
  then have "4 * a + 3 - 146097 * century a = 4 * century_day a + (3 - century a mod 4)"
    by (simp add: century_day_def)
  moreover have "0 \<le> 3 - century a mod 4 \<and> 3 - century a mod 4 < 4" using mod_bounds [of 4 "century a"] by linarith
  ultimately show ?thesis using int_div_pos_eq by blast
qed

lemma shift_year: "(4 * century_day a + 7 - 1461 * century_year a) div 4 = year_day a + 1"
proof -
  have "4 * (1461 * century_year a div 4) = 1461 * century_year a - century_year a mod 4"
    using four_quotient [of 1461 "century_year a"] by (simp add: mod_mult_left_eq [of 1461 4 "century_year a", symmetric])
  then have "4 * century_day a + 7 - 1461 * century_year a = 4 * (year_day a + 1) + (3 - century_year a mod 4)"
    by (simp add: year_day_def)
  moreover have "0 \<le> 3 - century_year a mod 4 \<and> 3 - century_year a mod 4 < 4" using mod_bounds [of 4 "century_year a"] by linarith
  ultimately show ?thesis using int_div_pos_eq by blast
qed

lemma shift_day: "(5 * (e + 1) + 2 - 153 * m) div 5 = e - month_start m + 1" for e m :: int
proof -
  define r where "r = (153 * m + 2) mod 5"
  have "5 * month_start m = 153 * m + 2 - r" unfolding month_start_def r_def by (simp add: minus_mod_eq_mult_div [symmetric])
  then have "5 * (e + 1) + 2 - 153 * m = 5 * (e - month_start m + 1) + (4 - r)" by (simp add: algebra_simps)
  moreover have "0 \<le> 4 - r \<and> 4 - r < 5" using mod_bounds [of 5 "153 * m + 2"] unfolding r_def by linarith
  ultimately show ?thesis using int_div_pos_eq by blast
qed

lemma next_day_year: "fst t \<le> fst (next_day t)"
  by (cases t) (simp add: next_day_def)

lemma tick_day_iter: "ymd_of (tick_day tick) = (next_day ^^ nat (uint tick div 86400000000)) (1, 1, 1)"
proof -
  have "ymd_ok (1, 1, 1)" by (simp add: ymd_ok_def month_len_def)
  moreover have "day_number (1, 1, 1) = 306" by (simp add: day_number_def march_days_def month_start_def)
  ultimately have "ymd_of 306 = (1, 1, 1)" using ymd_of_day_number by metis
  then show ?thesis using ymd_of_iter [of 306 "nat (uint tick div 86400000000)"]
    by (simp add: tick_day_def add.commute pos_imp_zdiv_nonneg_iff)
qed

lemma tick_day_year: "1 \<le> fst (ymd_of (tick_day tick))"
proof -
  have "1 \<le> fst ((next_day ^^ n) (1, 1, 1))" for n
    by (induction n) (auto intro: order_trans [OF _ next_day_year])
  then show ?thesis by (simp add: tick_day_iter)
qed

text \<open>The fields that the calendar and the clock give for a tick.\<close>

definition rtc_fields :: "ymd \<Rightarrow> int \<Rightarrow> rtc_date_time" where
  "rtc_fields t usec = (case t of (y, m, d) \<Rightarrow>
     \<lparr>r_year = word_of_int y, r_month = word_of_int m, r_day = word_of_int d,
      r_hour = word_of_int (usec div 3600000000), r_minute = word_of_int (usec mod 3600000000 div 60000000),
      r_second = word_of_int (usec mod 3600000000 mod 60000000 div 1000000),
      r_microsecond = word_of_int (usec mod 3600000000 mod 60000000 mod 1000000)\<rparr>)"

lemma rtc_fields_valid:
  assumes "ymd_ok (y, m, d)" "1 \<le> y" "y \<le> 9999" "0 \<le> u" "u < 86400000000"
  shows "RtcCheckValid (Some (rtc_fields (y, m, d) u)) = OK"
proof -
  have md: "1 \<le> m" "m \<le> 12" "1 \<le> d" "d \<le> 31" using assms(1) month_len_le [of y m] by (auto simp: ymd_ok_def)
  have h: "0 \<le> u div 3600000000" "u div 3600000000 \<le> 23" using assms(4,5) zdiv_mono1 [of u 86399999999 3600000000] by (simp_all add: pos_imp_zdiv_nonneg_iff)
  define v where "v = u mod 3600000000"
  have v: "0 \<le> v" "v \<le> 3599999999" unfolding v_def using mod_bounds [of 3600000000 u] by simp_all
  have mi: "0 \<le> v div 60000000" "v div 60000000 \<le> 59" using v zdiv_mono1 [of v 3599999999 60000000] by (simp_all add: pos_imp_zdiv_nonneg_iff)
  define w where "w = v mod 60000000"
  have w: "0 \<le> w" "w \<le> 59999999" unfolding w_def using mod_bounds [of 60000000 v] by simp_all
  have se: "0 \<le> w div 1000000" "w div 1000000 \<le> 59" using w zdiv_mono1 [of w 59999999 1000000] by (simp_all add: pos_imp_zdiv_nonneg_iff)
  have us: "0 \<le> w mod 1000000" "w mod 1000000 < 1000000" using mod_bounds [of 1000000 w] by simp_all
  then have us': "\<not> 1000000 \<le> w mod 1000000" by linarith
  have U: "uint (word_of_int k :: u16) = k" if "0 \<le> k" "k \<le> 9999" for k using that by (simp add: uint_word_of_int)
  have U32: "uint (word_of_int k :: u32) = k" if "0 \<le> k" "k < 1000000" for k using that by (simp add: uint_word_of_int)
  have valid: "Date_IsValid y m d" using assms(1,2) by (simp add: Date_IsValid_iff astro_def)
  show ?thesis
    using U [of y] U [of m] U [of d] U [of "u div 3600000000"] U [of "v div 60000000"] U [of "w div 1000000"] U32 [of "w mod 1000000"]
      assms(2,3) md h mi se us valid
    by (simp add: us' RtcCheckValid_def rtc_fields_def v_def [symmetric] w_def [symmetric] word_less_def word_le_def word_uint_eq_iff)
qed

text \<open>The chain of \<open>RtcSetTick\<close> in integers.\<close>

lemma word_of_ucast: "ucast (x :: u64) = word_of_int (uint x)"
  by (simp add: word_uint_eq_iff uint_word_of_int unsigned_ucast_eq take_bit_eq_mod)

lemma RtcSetTick_eq:
  fixes tick :: u64
  defines "t \<equiv> ymd_of (tick_day tick)" and "u \<equiv> uint tick mod 86400000000"
  shows "RtcSetTick (Some time) (Some tick) =
    (if fst t > 9999 then (RTC_ERROR_INVALID_VALUE, Some time) else (OK, Some (rtc_fields t u)))"
proof -
  define a where "a = tick_day tick"
  define N where "N = uint tick div 86400000000"
  have "uint tick < 18446744073709551616" using uint_lt2p [of tick] by simp
  then have N: "0 \<le> N" "N \<le> 213503982"
    using zdiv_mono1 [of "uint tick" 18446744073709551615 86400000000] by (simp_all add: N_def pos_imp_zdiv_nonneg_iff)
  have a: "a = N + 306" by (simp add: a_def tick_day_def N_def)
  note Q = quotient_bounds [of a]
  define b where "b = century a"
  define c where "c = century_day a"
  define d where "d = century_year a"
  define e where "e = year_day a"
  define m where "m = month_index a"
  have b: "146097 * b \<le> 4 * a + 3" "4 * a + 3 \<le> 146097 * b + 146096" "0 \<le> b"
    using N unfolding b_def century_def a using pos_mod_bound [of 146097 "4 * (N + 306) + 3"] pos_mod_sign [of 146097 "4 * (N + 306) + 3"]
      div_mult_mod_eq [of "4 * (N + 306) + 3" 146097] by (simp_all add: pos_imp_zdiv_nonneg_iff)
  have b': "b \<le> 10000" using b(1) N(2) a by linarith
  have c: "4 * c + 3 \<ge> 1461 * d" "4 * c + 3 \<le> 1461 * d + 1460"
    unfolding d_def century_year_def c_def using pos_mod_bound [of 1461 "4 * century_day a + 3"] pos_mod_sign [of 1461 "4 * century_day a + 3"]
      div_mult_mod_eq [of "4 * century_day a + 3" 1461] by linarith+
  have dd: "0 \<le> d" "d \<le> 99" "0 \<le> e" "e \<le> 365" using Q by (simp_all add: d_def e_def)
  have cc: "0 \<le> c" "c \<le> 36600"
    using c dd shift_century [of a] b by (simp_all add: c_def [symmetric] b_def [symmetric] pos_imp_zdiv_nonneg_iff) 
  have m: "m = (5 * e + 2) div 153" "0 \<le> m" "m \<le> 11" "153 * m \<le> 5 * e + 2" 
  proof -
    show 1: "m = (5 * e + 2) div 153" by (simp add: m_def month_index_def e_def)
    show "0 \<le> m" "m \<le> 11" unfolding 1 using dd by auto
    show "153 * m \<le> 5 * e + 2" unfolding 1 using mod_bounds [of 153 "5 * e + 2"] div_mult_mod_eq [of "5 * e + 2" 153] by linarith
  qed
  define w1 where "w1 = tick div 86400000000 + 307"
  have w1: "uint w1 = a + 1" unfolding w1_def using N by (subst u64_exact) (simp_all add: u64_exact a N_def [symmetric])
  define w2 where "w2 = push_bit 2 w1 - 1"
  have p1: "uint (push_bit 2 w1) = 4 * (a + 1)" using w1 N a by (subst u64_exact) simp_all
  have w2: "uint w2 = 4 * a + 3" unfolding w2_def using p1 N a by (subst u64_exact) simp_all
  define w3 where "w3 = w2 div 146097"
  have w3: "uint w3 = b" unfolding w3_def using w2 by (simp add: u64_exact b_def century_def)
  define w4 where "w4 = w2 - 146097 * w3"
  have p2: "uint (146097 * w3) = 146097 * b" using w3 b' by (subst u64_exact) simp_all
  have w4: "uint w4 = 4 * a + 3 - 146097 * b" unfolding w4_def using p2 w2 b by (subst u64_exact) simp_all
  define w5 where "w5 = drop_bit 2 w4"
  have w5: "uint w5 = c" unfolding w5_def using w4 shift_century [of a] by (simp add: u64_exact b_def c_def)
  have p3: "uint (push_bit 2 w5) = 4 * c" using w5 cc by (subst u64_exact) simp_all
  define w6 where "w6 = (push_bit 2 w5 + 3) div 1461"
  have "uint (push_bit 2 w5 + 3) = 4 * c + 3" using p3 cc by (subst u64_exact) simp_all
  then have w6: "uint w6 = d" unfolding w6_def by (simp add: u64_exact d_def century_year_def c_def)
  define w7 where "w7 = drop_bit 2 (push_bit 2 w5 + 7 - 1461 * w6)"
  have p4: "uint (1461 * w6) = 1461 * d" using w6 dd by (subst u64_exact) simp_all
  have p5: "uint (push_bit 2 w5 + 7) = 4 * c + 7" using p3 cc by (subst u64_exact) simp_all
  have "uint (push_bit 2 w5 + 7 - 1461 * w6) = 4 * c + 7 - 1461 * d" using p4 p5 c by (subst u64_exact) simp_all
  then have w7: "uint w7 = e + 1" unfolding w7_def using shift_year [of a] by (simp add: u64_exact c_def d_def e_def)
  define w8 where "w8 = (5 * w7 - 3) div 153"
  have p6: "uint (5 * w7) = 5 * (e + 1)" using w7 dd by (subst u64_exact) simp_all
  have "uint (5 * w7 - 3) = 5 * e + 2" using p6 dd by (subst u64_exact) simp_all
  then have w8: "uint w8 = m" unfolding w8_def by (simp add: u64_exact m(1))
  define w9 where "w9 = (5 * w7 + 2 - 153 * w8) div 5"
  have p7: "uint (153 * w8) = 153 * m" using w8 m by (subst u64_exact) simp_all
  have p8: "uint (5 * w7 + 2) = 5 * (e + 1) + 2" using p6 dd by (subst u64_exact) simp_all
  have "uint (5 * w7 + 2 - 153 * w8) = 5 * (e + 1) + 2 - 153 * m" using p7 p8 m(4) by (subst u64_exact) simp_all
  then have w9: "uint w9 = e - month_start m + 1" unfolding w9_def using shift_day [of e m] by (simp add: u64_exact)
  define wy where "wy = 100 * w3 + w6"
  have p9: "uint (100 * w3) = 100 * b" using w3 b' by (subst u64_exact) simp_all
  have wy: "uint wy = 100 * b + d" unfolding wy_def using p9 w6 b' dd by (subst u64_exact) simp_all
  define ml where "ml = (if w8 < 10 then (w8 + 3, wy) else (w8 - 9, wy + 1))"
  have cmp: "w8 < 10 \<longleftrightarrow> m < 10" by (simp add: word_less_def w8)
  have ml: "uint (fst ml) = m + 3 - 12 * (m div 10)" "uint (snd ml) = 100 * b + d + m div 10"
  proof -
    have "uint (w8 + 3) = m + 3" "m \<ge> 10 \<Longrightarrow> uint (w8 - 9) = m - 9" "uint (wy + 1) = 100 * b + d + 1"
      using w8 wy m b' dd by (subst u64_exact; simp)+
    moreover have "m < 10 \<Longrightarrow> m div 10 = 0" "m \<ge> 10 \<Longrightarrow> m div 10 = 1" using m(2,3) by auto
    ultimately show "uint (fst ml) = m + 3 - 12 * (m div 10)" "uint (snd ml) = 100 * b + d + m div 10"
      using cmp wy by (auto simp: ml_def)
  qed
  have t: "t = (100 * b + d + m div 10, m + 3 - 12 * (m div 10), e - month_start m + 1)"
    by (simp add: t_def ymd_of_def a_def [symmetric] b_def d_def e_def m_def)
  have t1: "1 \<le> fst t" using tick_day_year by (simp add: t_def)
  have yr: "(snd ml = 0 \<or> snd ml > 9999) \<longleftrightarrow> fst t > 9999"
    using t1 ml(2) t by (auto simp: word_less_def word_uint_eq_iff)
  have f: "\<lparr>r_year = ucast (snd ml), r_month = ucast (fst ml), r_day = ucast w9,
        r_hour = ucast (tick mod 86400000000 div 3600000000), r_minute = ucast (tick mod 86400000000 mod 3600000000 div 60000000),
        r_second = ucast (tick mod 86400000000 mod 3600000000 mod 60000000 div 1000000),
        r_microsecond = ucast (tick mod 86400000000 mod 3600000000 mod 60000000 mod 1000000)\<rparr> = rtc_fields t u"
    by (simp add: rtc_fields_def t u_def word_of_ucast ml w9 u64_exact)
  have ok: "RtcCheckValid (Some (rtc_fields t u)) = OK" if "fst t \<le> 9999"
  proof -
    obtain y mm dd where "t = (y, mm, dd)" by (cases t)
    with ymd_of_correct(1) [of a] t1 that mod_bounds [of 86400000000 "uint tick"] show ?thesis
      using rtc_fields_valid [of y mm dd u] by (simp add: t_def a_def u_def)
  qed
  have "RtcSetTick (Some time) (Some tick) =
      (if snd ml = 0 \<or> snd ml > 9999 then (RTC_ERROR_INVALID_VALUE, Some time)
       else (RtcCheckValid (Some (rtc_fields t u)), Some (rtc_fields t u)))"
    unfolding f [symmetric]
    by (simp only: RtcSetTick_def Let_def prod.case option.case w1_def [symmetric] w2_def [symmetric] w3_def [symmetric] w4_def [symmetric]
      w5_def [symmetric] w6_def [symmetric] w7_def [symmetric] w8_def [symmetric] w9_def [symmetric] wy_def [symmetric] ml_def [symmetric]
      case_prod_unfold fst_conv snd_conv)
  then show ?thesis using yr ok by auto
qed

text \<open>What a valid structure holds, in integers.\<close>

definition rtc_ymd :: "rtc_date_time \<Rightarrow> ymd" where
  "rtc_ymd time = (uint (r_year time), uint (r_month time), uint (r_day time))"

definition rtc_usec :: "rtc_date_time \<Rightarrow> int" where
  "rtc_usec time = uint (r_hour time) * 3600000000 + uint (r_minute time) * 60000000 + uint (r_second time) * 1000000 + uint (r_microsecond time)"

lemma RtcCheckValid_iff:
  "RtcCheckValid (Some time) = OK \<longleftrightarrow>
     1 \<le> uint (r_year time) \<and> uint (r_year time) \<le> 9999 \<and> ymd_ok (rtc_ymd time) \<and> uint (r_hour time) < 24 \<and>
     uint (r_minute time) < 60 \<and> uint (r_second time) < 60 \<and> uint (r_microsecond time) < 1000000"
proof -
  have nz: "uint x \<noteq> 0 \<longleftrightarrow> 1 \<le> uint x" for x :: u16 using uint_lt2p [of x] by (auto simp: int_one_le_iff_zero_less less_le)
  have "RtcCheckValid (Some time) = OK \<longleftrightarrow>
      (uint (r_year time) \<noteq> 0 \<and> uint (r_year time) \<le> 9999) \<and> (uint (r_month time) \<noteq> 0 \<and> uint (r_month time) \<le> 12) \<and>
      (uint (r_day time) \<noteq> 0 \<and> Date_IsValid (uint (r_year time)) (uint (r_month time)) (uint (r_day time))) \<and>
      uint (r_hour time) < 24 \<and> uint (r_minute time) < 60 \<and> uint (r_second time) < 60 \<and> uint (r_microsecond time) < 1000000"
    by (simp add: RtcCheckValid_def rtc_codes OK_def word_less_def word_le_def word_uint_eq_iff not_less not_le)
  also have "\<dots> \<longleftrightarrow> 1 \<le> uint (r_year time) \<and> uint (r_year time) \<le> 9999 \<and> ymd_ok (rtc_ymd time) \<and> uint (r_hour time) < 24 \<and>
     uint (r_minute time) < 60 \<and> uint (r_second time) < 60 \<and> uint (r_microsecond time) < 1000000"
    unfolding nz by (auto simp: Date_IsValid_iff rtc_ymd_def ymd_ok_def astro_def)
  finally show ?thesis .
qed

lemma march_days_nonneg:
  assumes "0 \<le> y" "y \<le> 9999"
  shows "365 * y \<le> march_days y" "march_days y \<le> 366 * y"
proof -
  have "y div 100 \<le> y div 4" "0 \<le> y div 400" "0 \<le> y div 100" "y div 4 + y div 400 \<le> y"
    using assms zdiv_mono2 [of y 4 100] zdiv_mono2 [of y 4 400] div_mult_mod_eq [of y 4] mod_bounds [of 4 y]
    by (simp_all add: pos_imp_zdiv_nonneg_iff)
  then show "365 * y \<le> march_days y" "march_days y \<le> 366 * y" by (simp_all add: march_days_def)
qed

lemma uint_ucast_64: "uint (ucast (x :: u16) :: u64) = uint x" "uint (ucast (z :: u32) :: u64) = uint z"
  by (simp_all add: unsigned_ucast_eq take_bit_eq_mod order_less_trans [OF uint_lt2p])

lemma day_number_range:
  assumes "ymd_ok (y, m, d)" "1 \<le> y" "y \<le> 9999"
  shows "306 \<le> day_number (y, m, d) \<and> day_number (y, m, d) \<le> 3700000"
proof -
  have md: "1 \<le> m" "m \<le> 12" "1 \<le> d" "d \<le> 31" using assms(1) month_len_le [of y m] by (auto simp: ymd_ok_def)
  show ?thesis
  proof (cases "m \<le> 2")
    case True
    have "306 \<le> month_start (m + 9)" "month_start (m + 9) \<le> 337" using True md(1) by (auto simp: month_start_def)
    with True md march_days_nonneg [of "y - 1"] assms(2,3) show ?thesis by (simp add: day_number_def)
  next
    case False
    have "0 \<le> month_start (m - 3)" "month_start (m - 3) \<le> 337" using False md(2) by (auto simp: month_start_def)
    with False md march_days_nonneg [of y] assms(2,3) show ?thesis by (simp add: day_number_def)
  qed
qed

lemma RtcGetTick_eq:
  assumes "RtcCheckValid (Some time) = OK"
  shows "RtcGetTick (Some time) (Some t0) = (OK, Some (word_of_int ((day_number (rtc_ymd time) - 306) * 86400000000 + rtc_usec time)))"
proof -
  define y where "y = uint (r_year time)"
  define m where "m = uint (r_month time)"
  define d where "d = uint (r_day time)"
  have v: "1 \<le> y" "y \<le> 9999" "ymd_ok (y, m, d)" "uint (r_hour time) < 24" "uint (r_minute time) < 60" "uint (r_second time) < 60"
    "uint (r_microsecond time) < 1000000"
    using assms unfolding RtcCheckValid_iff by (simp_all add: rtc_ymd_def y_def m_def d_def)
  have md: "1 \<le> m" "m \<le> 12" "1 \<le> d" "d \<le> 31" using v(3) month_len_le [of y m] by (auto simp: ymd_ok_def)
  define M where "M = (if m > 2 then m - 3 else m + 9)"
  define Y where "Y = (if m > 2 then y else y - 1)"
  have MY: "0 \<le> M" "M \<le> 11" "0 \<le> Y" "Y \<le> 9999" using md v(1,2) by (auto simp: M_def Y_def)
  define my where "my = (if (ucast (r_month time) :: u64) > 2 then (ucast (r_month time) - 3, ucast (r_year time))
    else (ucast (r_month time) + 9, ucast (r_year time) - 1) :: u64 \<times> u64)"
  have cmp: "(ucast (r_month time) :: u64) > 2 \<longleftrightarrow> m > 2" by (simp add: word_less_def uint_ucast_64 m_def)
  have "m > 2 \<Longrightarrow> uint (ucast (r_month time) - 3 :: u64) = m - 3" "uint (ucast (r_month time) + 9 :: u64) = m + 9"
    "uint (ucast (r_year time) - 1 :: u64) = y - 1"
    using md v(1,2) by (subst u64_exact; simp add: uint_ucast_64 m_def y_def)+
  then have my: "uint (fst my) = M" "uint (snd my) = Y" using cmp by (auto simp: my_def M_def Y_def uint_ucast_64 y_def)
  define c where "c = snd my div 100"
  have c: "uint c = Y div 100" by (simp add: c_def u64_exact my)
  have cb: "0 \<le> Y div 100" "Y div 100 \<le> 99" using MY zdiv_mono1 [of Y 9999 100] by (simp_all add: pos_imp_zdiv_nonneg_iff)
  have p1: "uint (100 * c) = 100 * (Y div 100)" using cb c by (subst u64_exact) simp_all
  define ya where "ya = snd my - 100 * c"
  have ya: "uint ya = Y mod 100"
    unfolding ya_def using p1 my(2) mod_bounds [of 100 Y] div_mult_mod_eq [of Y 100] by (subst u64_exact) (simp_all add: minus_mult_div_eq_mod)
  have yb: "0 \<le> Y mod 100" "Y mod 100 \<le> 99" using mod_bounds [of 100 Y] by simp_all
  have p2: "uint (146097 * c) = 146097 * (Y div 100)" using cb c by (subst u64_exact) simp_all
  have p3: "uint (1461 * ya) = 1461 * (Y mod 100)" using yb ya by (subst u64_exact) simp_all
  have ms: "0 \<le> month_start M" "month_start M \<le> 337" using MY(1,2) by (auto simp: month_start_def)
  have p4: "uint ((153 * fst my + 2) div 5) = month_start M"
  proof -
    have "uint (153 * fst my) = 153 * M" using MY my by (subst u64_exact) simp_all
    then have "uint (153 * fst my + 2) = 153 * M + 2" using MY by (subst u64_exact) simp_all
    then show ?thesis by (simp add: u64_exact month_start_def)
  qed
  have q: "0 \<le> 146097 * (Y div 100) div 4" "146097 * (Y div 100) div 4 \<le> 3700000" "0 \<le> 1461 * (Y mod 100) div 4" "1461 * (Y mod 100) div 4 \<le> 37000"
    using cb yb zdiv_mono1 [of "146097 * (Y div 100)" "146097 * 99" 4] zdiv_mono1 [of "1461 * (Y mod 100)" "1461 * 99" 4]
    by (simp_all add: pos_imp_zdiv_nonneg_iff)
  define K where "K = 146097 * (Y div 100) div 4"
  define J where "J = 1461 * (Y mod 100) div 4"
  have kj: "0 \<le> K" "K \<le> 3700000" "0 \<le> J" "J \<le> 37000" using q by (simp_all only: K_def J_def)
  have md': "march_days Y = K + J"
    using march_days_split [OF yb, of "Y div 100"] by (simp add: K_def J_def)
  have u: "uint (drop_bit 2 (146097 * c)) = K" "uint (drop_bit 2 (1461 * ya)) = J"
    by (simp_all only: u64_exact p2 p3 K_def J_def)
  have dn: "day_number (y, m, d) = march_days Y + month_start M + d - 1" by (simp add: day_number_def Y_def M_def)
  define w where "w = drop_bit 2 (146097 * c) + drop_bit 2 (1461 * ya) + (153 * fst my + 2) div 5 + ucast (r_day time)"
  have w: "uint w = day_number (y, m, d) + 1"
  proof -
    have 1: "uint (drop_bit 2 (146097 * c) + drop_bit 2 (1461 * ya)) = K + J"
      using kj u by (subst u64_exact) simp_all
    have 2: "uint (drop_bit 2 (146097 * c) + drop_bit 2 (1461 * ya) + (153 * fst my + 2) div 5) = K + J + month_start M"
      using 1 p4 kj ms by (subst u64_exact) simp_all
    have "uint w = K + J + month_start M + d"
      unfolding w_def using 2 kj ms md by (subst u64_exact) (simp_all add: uint_ucast_64 d_def)
    with dn md' show ?thesis by simp
  qed
  note R = day_number_range [OF v(3,1,2)]
  have w1: "uint (w - 307) = day_number (y, m, d) - 306" using w R by (subst u64_exact) simp_all
  have w2: "uint ((w - 307) * 86400000000) = (day_number (y, m, d) - 306) * 86400000000" using w1 R by (subst u64_exact) simp_all
  define us where "us = ucast (r_hour time) * 3600000000 + ucast (r_minute time) * 60000000 + ucast (r_second time) * 1000000 + (ucast (r_microsecond time) :: u64)"
  have us: "uint us = rtc_usec time"
  proof -
    have 0: "0 \<le> uint (r_hour time)" "0 \<le> uint (r_minute time)" "0 \<le> uint (r_second time)" "0 \<le> uint (r_microsecond time)" by simp_all
    have a: "uint (ucast (r_hour time) * 3600000000 :: u64) = uint (r_hour time) * 3600000000"
      "uint (ucast (r_minute time) * 60000000 :: u64) = uint (r_minute time) * 60000000"
      "uint (ucast (r_second time) * 1000000 :: u64) = uint (r_second time) * 1000000"
      using v by (subst u64_exact; simp add: uint_ucast_64)+
    have b: "uint (ucast (r_hour time) * 3600000000 + ucast (r_minute time) * 60000000 :: u64) =
        uint (r_hour time) * 3600000000 + uint (r_minute time) * 60000000"
      using v a by (subst u64_exact) simp_all
    have c: "uint (ucast (r_hour time) * 3600000000 + ucast (r_minute time) * 60000000 + ucast (r_second time) * 1000000 :: u64) =
        uint (r_hour time) * 3600000000 + uint (r_minute time) * 60000000 + uint (r_second time) * 1000000"
      using v a b by (subst u64_exact) simp_all
    show ?thesis unfolding us_def rtc_usec_def using v c by (subst u64_exact) (simp_all add: uint_ucast_64)
  qed
  have ub: "0 \<le> rtc_usec time" "rtc_usec time < 86400000000" using v unfolding rtc_usec_def by simp_all
  have r: "uint ((w - 307) * 86400000000 + us) = (day_number (y, m, d) - 306) * 86400000000 + rtc_usec time"
    using w2 us ub R by (subst u64_exact) simp_all
  have "RtcGetTick (Some time) (Some t0) = (OK, Some ((w - 307) * 86400000000 + us))"
    using assms by (simp only: RtcGetTick_def Let_def prod.case option.case fst_conv snd_conv my_def [symmetric] c_def [symmetric] ya_def [symmetric]
      w_def [symmetric] us_def [symmetric] case_prod_unfold) simp
  moreover have "(w - 307) * 86400000000 + us = word_of_int (uint ((w - 307) * 86400000000 + us))" by (simp only: word_of_int_uint)
  ultimately show ?thesis unfolding r by (simp add: rtc_ymd_def y_def m_def d_def)
qed

lemma rtc_fields_values:
  assumes "ymd_ok t" "1 \<le> fst t" "fst t \<le> 9999" "0 \<le> u" "u < 86400000000"
  shows "rtc_ymd (rtc_fields t u) = t" "rtc_usec (rtc_fields t u) = u"
proof -
  obtain y m d where t: "t = (y, m, d)" by (cases t)
  have md: "1 \<le> m" "m \<le> 12" "1 \<le> d" "d \<le> 31" using assms(1) month_len_le [of y m] by (auto simp: ymd_ok_def t)
  have U: "uint (word_of_int k :: u16) = k" if "0 \<le> k" "k \<le> 9999" for k using that by (simp add: uint_word_of_int)
  show "rtc_ymd (rtc_fields t u) = t" using assms(2,3) md by (simp add: rtc_ymd_def rtc_fields_def t U)
  have h: "0 \<le> u div 3600000000" "u div 3600000000 \<le> 9999" using assms(4,5) zdiv_mono1 [of u 86399999999 3600000000] by (simp_all add: pos_imp_zdiv_nonneg_iff)
  define v where "v = u mod 3600000000"
  have v: "0 \<le> v" "v \<le> 3599999999" unfolding v_def using mod_bounds [of 3600000000 u] by simp_all
  have mi: "0 \<le> v div 60000000" "v div 60000000 \<le> 9999" using v zdiv_mono1 [of v 3599999999 60000000] by (simp_all add: pos_imp_zdiv_nonneg_iff)
  define w where "w = v mod 60000000"
  have w: "0 \<le> w" "w \<le> 59999999" unfolding w_def using mod_bounds [of 60000000 v] by simp_all
  have se: "0 \<le> w div 1000000" "w div 1000000 \<le> 9999" using w zdiv_mono1 [of w 59999999 1000000] by (simp_all add: pos_imp_zdiv_nonneg_iff)
  have us: "0 \<le> w mod 1000000" "w mod 1000000 < 4294967296" using mod_bounds [of 1000000 w] by simp_all
  have e: "u = u div 3600000000 * 3600000000 + v" "v = v div 60000000 * 60000000 + w" "w = w div 1000000 * 1000000 + w mod 1000000"
    by (simp_all add: v_def w_def)
  have U32: "uint (word_of_int (w mod 1000000) :: u32) = w mod 1000000" using us by (simp add: uint_word_of_int)
  have "rtc_usec (rtc_fields t u) = u div 3600000000 * 3600000000 + v div 60000000 * 60000000 + w div 1000000 * 1000000 + w mod 1000000"
    using U [OF h] U [OF mi] U [OF se] U32 by (simp only: rtc_usec_def rtc_fields_def t prod.case rtc_date_time.simps v_def [symmetric] w_def [symmetric])
  with e show "rtc_usec (rtc_fields t u) = u" by linarith
qed

lemma rtc_fields_of:
  assumes "RtcCheckValid (Some time) = OK"
  shows "rtc_fields (rtc_ymd time) (rtc_usec time) = time" "0 \<le> rtc_usec time" "rtc_usec time < 86400000000"
proof -
  define h where "h = uint (r_hour time)"
  define mi where "mi = uint (r_minute time)"
  define s where "s = uint (r_second time)"
  define u where "u = uint (r_microsecond time)"
  have b: "0 \<le> h" "h < 24" "0 \<le> mi" "mi < 60" "0 \<le> s" "s < 60" "0 \<le> u" "u < 1000000"
    using assms unfolding RtcCheckValid_iff by (simp_all add: h_def mi_def s_def u_def)
  have c: "rtc_usec time = 3600000000 * h + (60000000 * mi + (1000000 * s + u))"
    by (simp add: rtc_usec_def h_def mi_def s_def u_def)
  show "0 \<le> rtc_usec time" "rtc_usec time < 86400000000" unfolding c using b by linarith+
  have 1: "rtc_usec time div 3600000000 = h" "rtc_usec time mod 3600000000 = 60000000 * mi + (1000000 * s + u)"
    unfolding c using b by (simp_all add: div_pos_pos_trivial mod_pos_pos_trivial)
  have 2: "(60000000 * mi + (1000000 * s + u)) div 60000000 = mi" "(60000000 * mi + (1000000 * s + u)) mod 60000000 = 1000000 * s + u"
    using b by (simp_all add: div_pos_pos_trivial mod_pos_pos_trivial)
  have 3: "(1000000 * s + u) div 1000000 = s" "(1000000 * s + u) mod 1000000 = u"
    using b by (simp_all add: div_pos_pos_trivial mod_pos_pos_trivial)
  show "rtc_fields (rtc_ymd time) (rtc_usec time) = time"
    unfolding rtc_fields_def rtc_ymd_def prod.case 1 2 3 by (simp add: h_def mi_def s_def u_def)
qed

text \<open>
  C36: \<open>RtcSetTick\<close> follows the calendar: a tick of \<open>n\<close> whole days and \<open>u\<close> microseconds
  becomes the date \<open>n\<close> days after January 1 of year 1, day by day of the Gregorian calendar,
  with the hours, minutes, seconds and microseconds that make up \<open>u\<close>, and is reported valid;
  when that date lies after year 9999 the call fails and leaves its output alone.
\<close>

theorem RtcSetTick_follows_calendar:
  "let t = (next_day ^^ nat (uint tick div 86400000000)) (1, 1, 1) in
   if fst t > 9999 then RtcSetTick (Some time) (Some tick) = (RTC_ERROR_INVALID_VALUE, Some time)
   else \<exists>r. RtcSetTick (Some time) (Some tick) = (OK, Some r) \<and> RtcCheckValid (Some r) = OK \<and>
     rtc_ymd r = t \<and> rtc_usec r = uint tick mod 86400000000"
proof -
  define t where "t = ymd_of (tick_day tick)"
  have t: "t = (next_day ^^ nat (uint tick div 86400000000)) (1, 1, 1)" by (simp add: t_def tick_day_iter)
  note S = RtcSetTick_eq [of time tick, folded t_def]
  have u: "0 \<le> uint tick mod 86400000000" "uint tick mod 86400000000 < 86400000000" using mod_bounds [of 86400000000 "uint tick"] by simp_all
  have ok: "ymd_ok t" "1 \<le> fst t" using ymd_of_correct(1) tick_day_year by (simp_all add: t_def)
  show ?thesis
  proof (cases "fst t > 9999")
    case True
    with S show ?thesis by (simp add: t Let_def)
  next
    case False
    then have "fst t \<le> 9999" by simp
    note F = rtc_fields_values [OF ok this u]
    obtain y m d where "t = (y, m, d)" by (cases t)
    with ok False u have "RtcCheckValid (Some (rtc_fields t (uint tick mod 86400000000))) = OK"
      using rtc_fields_valid [of y m d "uint tick mod 86400000000"] by simp
    with S F False show ?thesis unfolding Let_def t [symmetric] by simp
  qed
qed

text \<open>
  C37: dates and ticks are inverse: every valid date and time has a tick from which
  \<open>RtcSetTick\<close> restores it field by field, and a tick that \<open>RtcSetTick\<close> accepts is the one
  that \<open>RtcGetTick\<close> returns for the date it wrote.
\<close>

theorem RtcTick_roundtrip:
  assumes "RtcCheckValid (Some time) = OK" "RtcSetTick (Some old) (Some tick) = (OK, Some time')"
  shows "(\<exists>tk. RtcGetTick (Some time) (Some t0) = (OK, Some tk) \<and> RtcSetTick (Some old) (Some tk) = (OK, Some time)) \<and>
    RtcGetTick (Some time') (Some t0) = (OK, Some tick)"
proof
  have v: "ymd_ok (rtc_ymd time)" "1 \<le> fst (rtc_ymd time)" "fst (rtc_ymd time) \<le> 9999"
    using assms(1) unfolding RtcCheckValid_iff by (simp_all add: rtc_ymd_def)
  note F = rtc_fields_of [OF assms(1)]
  obtain y m d where ymd: "rtc_ymd time = (y, m, d)" by (cases "rtc_ymd time")
  define N where "N = day_number (rtc_ymd time) - 306"
  have N: "0 \<le> N" "N \<le> 3700000" using day_number_range [of y m d] v by (simp_all add: N_def ymd)
  define tk where "tk = (word_of_int (N * 86400000000 + rtc_usec time) :: u64)"
  have "0 \<le> N * 86400000000 + rtc_usec time" "N * 86400000000 + rtc_usec time < 2 ^ 64" using N F(2,3) by simp_all
  then have tk: "uint tk = N * 86400000000 + rtc_usec time" using uint_numeral_64 by (simp only: tk_def)
  have "uint tk div 86400000000 = N" "uint tk mod 86400000000 = rtc_usec time"
    unfolding tk using F(2,3) by (simp_all add: div_pos_pos_trivial mod_pos_pos_trivial)
  then have "ymd_of (tick_day tk) = rtc_ymd time" "uint tk mod 86400000000 = rtc_usec time"
    using ymd_of_day_number [OF v(1)] by (simp_all add: tick_day_def N_def)
  with RtcSetTick_eq [of old tk] F(1) v(3) have "RtcSetTick (Some old) (Some tk) = (OK, Some time)" by simp
  moreover have "RtcGetTick (Some time) (Some t0) = (OK, Some tk)" using RtcGetTick_eq [OF assms(1)] by (simp add: tk_def N_def)
  ultimately show "\<exists>tk. RtcGetTick (Some time) (Some t0) = (OK, Some tk) \<and> RtcSetTick (Some old) (Some tk) = (OK, Some time)" by blast
  define t where "t = ymd_of (tick_day tick)"
  define u where "u = uint tick mod 86400000000"
  have u: "0 \<le> u" "u < 86400000000" unfolding u_def using mod_bounds [of 86400000000 "uint tick"] by simp_all
  have S: "fst t \<le> 9999" "time' = rtc_fields t u"
    using assms(2) RtcSetTick_eq [of old tick] by (auto simp: t_def u_def rtc_codes OK_def split: if_splits)
  have ok: "ymd_ok t" "1 \<le> fst t" using ymd_of_correct(1) tick_day_year by (simp_all add: t_def)
  note V = rtc_fields_values [OF ok S(1) u]
  obtain y' m' d' where t': "t = (y', m', d')" by (cases t)
  then have "RtcCheckValid (Some time') = OK" using rtc_fields_valid [of y' m' d' u] ok S u by simp
  from RtcGetTick_eq [OF this, of t0] V S(2) have
    "RtcGetTick (Some time') (Some t0) = (OK, Some (word_of_int ((day_number t - 306) * 86400000000 + u)))" by simp
  moreover have "(day_number t - 306) * 86400000000 + u = uint tick"
    using ymd_of_correct(2) [of "tick_day tick"] by (simp add: t_def tick_day_def u_def)
  ultimately show "RtcGetTick (Some time') (Some t0) = (OK, Some tick)" by (simp only: word_of_int_uint)
qed

lemma RtcTick_roundtrip_witness:
  defines "leap_day \<equiv> \<lparr>r_year = 2024, r_month = 2, r_day = 29, r_hour = 23, r_minute = 59, r_second = 59, r_microsecond = 999999\<rparr>"
  shows "(\<exists>tk. RtcGetTick (Some leap_day) (Some 0) = (OK, Some tk) \<and> RtcSetTick (Some leap_day) (Some tk) = (OK, Some leap_day)) \<and>
    RtcGetTick (Some \<lparr>r_year = 1, r_month = 1, r_day = 1, r_hour = 0, r_minute = 0, r_second = 0, r_microsecond = 7\<rparr>) (Some 0) = (OK, Some 7)"
proof -
  have "RtcCheckValid (Some leap_day) = OK"
    by (simp add: leap_day_def RtcCheckValid_def Date_IsValid_def DaysInMonth_def IsLeapYear_def smod_zero_iff)
  moreover have "RtcSetTick (Some leap_day) (Some 7) =
      (OK, Some \<lparr>r_year = 1, r_month = 1, r_day = 1, r_hour = 0, r_minute = 0, r_second = 0, r_microsecond = 7\<rparr>)"
    using RtcSetTick_eq [of leap_day 7] tick_day_iter [of 7] by (simp add: rtc_fields_def)
  ultimately show ?thesis by (rule RtcTick_roundtrip)
qed

section \<open>RFC 3339 text reads back\<close>

lemma digit_not_blank: "is_digit 10 c \<Longrightarrow> \<not> IsSpace c \<and> c \<noteq> CHR ''-'' \<and> c \<noteq> CHR ''+''"
  by (auto simp: is_digit_def digit_value_def IsSpace_def char_code_def Let_def split: if_splits)

lemma scan_hu_pad_dec:
  assumes "v \<le> 65535" "rest = [] \<or> \<not> is_digit 10 (hd rest)"
  shows "scan_hu (pad_dec w v @ rest) = Ret (Some (of_nat v, rest))"
proof -
  obtain c cs where p: "pad_dec w v = c # cs" using pad_dec_facts(2) by (cases "pad_dec w v") auto
  then have c: "is_digit 10 c" using pad_dec_facts(3) [of c w v] by simp
  have "\<forall>x \<in> set (pad_dec w v). is_digit 10 x" using pad_dec_facts(3) by blast
  from takeWhile_digits [OF this assms(2)]
  have "takeWhile (is_digit 10) (c # cs @ rest) = pad_dec w v" "dropWhile (is_digit 10) (c # cs @ rest) = rest" by (simp_all add: p)
  with digit_not_blank [OF c] assms(1) pad_dec_facts(1,2) [of w v] show ?thesis
    unfolding p scan_hu_def by (simp add: Let_def p del: takeWhile.simps dropWhile.simps(2)) (use p in simp)
qed

lemma pad_dec_2:
  assumes "v < 100"
  obtains a b where "pad_dec 2 v = [a, b]" "is_digit 10 a" "is_digit 10 b" "number 10 [a, b] = v"
proof -
  have l: "length (pad_dec 2 v) = 2" using pad_dec_facts(4) [of v 2] assms by simp
  then obtain a b where p: "pad_dec 2 v = [a, b]" by (auto simp: length_Suc_conv numeral_2_eq_2)
  have "is_digit 10 a" "is_digit 10 b" using pad_dec_facts(3) [of _ 2 v] by (simp_all add: p)
  with p pad_dec_facts(1) [of 2 v] show ?thesis by (intro that [of a b]) auto
qed

lemma scan_d2_pad_dec:
  assumes "v < 100"
  shows "scan_d2 (pad_dec 2 v @ rest) = Some (int v, rest)"
proof -
  obtain a b where p: "pad_dec 2 v = [a, b]" "is_digit 10 a" "is_digit 10 b" "number 10 [a, b] = v" using pad_dec_2 [OF assms] by blast
  with digit_not_blank [OF p(2)] show ?thesis by (simp add: scan_d2_def Let_def)
qed

lemma fraction_pad_dec:
  assumes "v < 100" "rest = [] \<or> \<not> is_digit 10 (hd rest)"
  shows "fraction (pad_dec 2 v @ rest) = (of_nat (v * 10000), rest)"
proof -
  obtain a b where p: "pad_dec 2 v = [a, b]" "is_digit 10 a" "is_digit 10 b" "number 10 [a, b] = v" using pad_dec_2 [OF assms(1)] by blast
  have "\<forall>x \<in> set [a, b]. is_digit 10 x" using p by simp
  from takeWhile_digits [OF this assms(2)] p show ?thesis by (simp add: fraction_def Let_def)
qed

lemma not_digit_seps:
  "\<not> is_digit 10 (CHR ''-'')" "\<not> is_digit 10 (CHR ''T'')" "\<not> is_digit 10 (CHR '':'')" "\<not> is_digit 10 (CHR ''.'')"
  "\<not> is_digit 10 (CHR ''+'')" "\<not> is_digit 10 (CHR ''Z'')"
  by (simp_all add: is_digit_def digit_value_def char_code_def)

lemma u16_pad: "of_nat (unat (x :: u16)) = x" "unat (x :: u16) \<le> 65535"
proof -
  have "unat x < 2 ^ LENGTH(16)" by (rule unsigned_less)
  then show "unat (x :: u16) \<le> 65535" by simp
qed simp

lemma scan_rfc3339_fields:
  assumes "rest = [] \<or> \<not> is_digit 10 (hd rest)"
  shows "scan_fields rfc3339_fields (pad_dec 4 (unat (r_year r)) @ CHR ''-'' # pad_dec 2 (unat (r_month r)) @ CHR ''-'' # pad_dec 2 (unat (r_day r)) @
       CHR ''T'' # pad_dec 2 (unat (r_hour r)) @ CHR '':'' # pad_dec 2 (unat (r_minute r)) @ CHR '':'' # pad_dec 2 (unat (r_second r)) @ rest) =
    Ret (Some ([r_year r, r_month r, r_day r, r_hour r, r_minute r, r_second r], rest))"
  using assms by (simp add: rfc3339_fields_def scan_field_def scan_char_def scan_hu_pad_dec u16_pad not_digit_seps)

text \<open>The zone is a blank zone or a sign with two numbers of two digits.\<close>

lemma rfc3339_zone_text:
  assumes "\<bar>tz\<bar> < 6000" "tz \<noteq> 0"
  shows "rfc3339_zone tz = (if tz < 0 then CHR ''-'' else CHR ''+'') # pad_dec 2 (nat \<bar>tz\<bar> div 60) @ CHR '':'' # pad_dec 2 (nat \<bar>tz\<bar> mod 60)"
proof -
  have l: "nat \<bar>tz\<bar> div 60 < 100" "nat \<bar>tz\<bar> mod 60 < 100" using assms(1) by (simp_all add: less_mult_imp_div_less)
  then have "length (pad_dec 2 (nat \<bar>tz\<bar> div 60)) = 2" "length (pad_dec 2 (nat \<bar>tz\<bar> mod 60)) = 2"
    using pad_dec_facts(4) [of _ 2] by simp_all
  with assms(2) show ?thesis by (simp add: rfc3339_zone_def Let_def)
qed

lemma parse_zone:
  assumes "\<bar>tz\<bar> < 6000" "tz \<noteq> 0"
  shows "\<exists>c rest h m. rfc3339_zone tz = c # rest \<and> (c = CHR ''-'' \<longleftrightarrow> tz < 0) \<and> (c = CHR ''-'' \<or> c = CHR ''+'') \<and>
    (case scan_d2 rest of None \<Rightarrow> None
      | Some (h, s) \<Rightarrow> (case scan_char (CHR '':'') s of None \<Rightarrow> None
          | Some s \<Rightarrow> (case scan_d2 s of None \<Rightarrow> None | Some (m, _) \<Rightarrow> Some (h, m)))) = Some (h, m) \<and>
    (if c = CHR ''-'' then - (h * 60 + m) else h * 60 + m) = tz"
proof -
  let ?n = "nat \<bar>tz\<bar>"
  have l: "?n div 60 < 100" "?n mod 60 < 100" using assms(1) by (simp_all add: less_mult_imp_div_less)
  have "scan_d2 (pad_dec 2 (?n mod 60)) = Some (int (?n mod 60), [])" using scan_d2_pad_dec [OF l(2), of "[]"] by simp
  moreover have "int (?n div 60) * 60 + int (?n mod 60) = \<bar>tz\<bar>"
    by (metis div_mult_mod_eq int_nat_eq abs_ge_zero of_nat_add of_nat_mult of_nat_numeral)
  ultimately show ?thesis
    by (intro exI [of _ "if tz < 0 then CHR ''-'' else CHR ''+''"] exI conjI)
      (auto simp: rfc3339_zone_text [OF assms] scan_d2_pad_dec [OF l(1)] scan_char_def)
qed

lemma rfc3339_lengths:
  assumes "RtcCheckValid (Some r) = OK"
  shows "length (pad_dec 4 (unat (r_year r))) = 4" "length (pad_dec 2 (unat (r_month r))) = 2" "length (pad_dec 2 (unat (r_day r))) = 2"
    "length (pad_dec 2 (unat (r_hour r))) = 2" "length (pad_dec 2 (unat (r_minute r))) = 2" "length (pad_dec 2 (unat (r_second r))) = 2"
proof -
  have v: "uint (r_year r) < 10 ^ 4" "uint (r_month r) < 10 ^ 2" "uint (r_day r) < 10 ^ 2" "uint (r_hour r) < 10 ^ 2"
    "uint (r_minute r) < 10 ^ 2" "uint (r_second r) < 10 ^ 2"
  proof -
    have "uint (r_month r) \<le> 12" "uint (r_day r) \<le> month_len (uint (r_year r)) (uint (r_month r))"
      using assms unfolding RtcCheckValid_iff rtc_ymd_def ymd_ok_def by simp_all
    moreover note month_len_le [of "uint (r_year r)" "uint (r_month r)"]
    ultimately show "uint (r_month r) < 10 ^ 2" "uint (r_day r) < 10 ^ 2" by simp_all
  qed (use assms in \<open>simp_all add: RtcCheckValid_iff\<close>)
  have n: "length (pad_dec w (unat x)) = w" if "uint x < 10 ^ w" "0 < w" for w and x :: u16
  proof -
    have "int (unat x) < int (10 ^ w)" using that(1) by simp
    then have "unat x < 10 ^ w" by (simp only: of_nat_less_iff)
    with that(2) show ?thesis by (intro pad_dec_facts(4))
  qed
  show "length (pad_dec 4 (unat (r_year r))) = 4" "length (pad_dec 2 (unat (r_month r))) = 2" "length (pad_dec 2 (unat (r_day r))) = 2"
    "length (pad_dec 2 (unat (r_hour r))) = 2" "length (pad_dec 2 (unat (r_minute r))) = 2" "length (pad_dec 2 (unat (r_second r))) = 2"
    using n v by simp_all
qed

text \<open>The parse after its fields and fraction have been read, without and with a zone offset.\<close>

lemma parse_steps:
  assumes "scan_fields rfc3339_fields txt = Ret (Some ([y, m, d, h, mi, s], CHR ''.'' # fr))" "fraction fr = (us, z)"
    "RtcGetTick (Some \<lparr>r_year = y, r_month = m, r_day = d, r_hour = h, r_minute = mi, r_second = s, r_microsecond = us\<rparr>) (Some t0) = (OK, Some tk)"
  shows "z = ''Z'' \<Longrightarrow> RtcParseRFC3339 (Some t0) (Some txt) = Ret (OK, Some tk)"
    "z = c # rest \<Longrightarrow> c = CHR ''-'' \<or> c = CHR ''+'' \<Longrightarrow>
      (case scan_d2 rest of None \<Rightarrow> None
      | Some (h, s) \<Rightarrow> (case scan_char (CHR '':'') s of None \<Rightarrow> None
          | Some s \<Rightarrow> (case scan_d2 s of None \<Rightarrow> None | Some (m, _) \<Rightarrow> Some (h, m)))) = Some (zh, zm) \<Longrightarrow>
      (if c = CHR ''-'' then - (zh * 60 + zm) else zh * 60 + zm) = tz \<Longrightarrow>
      \<not> (tz * 60000000 > 0 \<and> tk < word_of_int (tz * 60000000)) \<Longrightarrow> checked64 (sint tk - tz * 60000000) = Ret v \<Longrightarrow>
      RtcParseRFC3339 (Some t0) (Some txt) = Ret (OK, Some (word_of_int v))"
proof -
  let ?zone = "\<lambda>pos. (case scan_d2 (tl pos) of None \<Rightarrow> None
      | Some (h, s) \<Rightarrow> (case scan_char (CHR '':'') s of None \<Rightarrow> None
          | Some s \<Rightarrow> (case scan_d2 s of None \<Rightarrow> None | Some (m, _) \<Rightarrow> Some (h, m))))"
  have p: "RtcParseRFC3339 (Some t0) (Some txt) =
      (if z = [] \<or> hd z = CHR ''Z'' then Ret (OK, Some tk)
       else if hd z \<noteq> CHR ''+'' \<and> hd z \<noteq> CHR ''-'' then Ret (RTC_ERROR_INVALID_VALUE, Some tk)
       else case ?zone z of
           None \<Rightarrow> Ret (RTC_ERROR_INVALID_VALUE, Some tk)
         | Some (zone_hour, zone_min) \<Rightarrow>
             let zone_minutes = zone_hour * 60 + zone_min;
                 zone_minutes = (if hd z = CHR ''-'' then - zone_minutes else zone_minutes);
                 offset_ticks = zone_minutes * 60000000;
                 tick = the (Some tk) in
             if offset_ticks > 0 \<and> tick < word_of_int offset_ticks then Ret (RTC_ERROR_INVALID_VALUE, Some tk)
             else omap (\<lambda>v. (OK, Some (word_of_int v))) (checked64 (sint tick - offset_ticks)))"
    using assms by (simp add: RtcParseRFC3339_def)
  show "z = ''Z'' \<Longrightarrow> RtcParseRFC3339 (Some t0) (Some txt) = Ret (OK, Some tk)" unfolding p by simp
  assume z: "z = c # rest" "c = CHR ''-'' \<or> c = CHR ''+''" and
    zone: "(case scan_d2 rest of None \<Rightarrow> None
      | Some (h, s) \<Rightarrow> (case scan_char (CHR '':'') s of None \<Rightarrow> None
          | Some s \<Rightarrow> (case scan_d2 s of None \<Rightarrow> None | Some (m, _) \<Rightarrow> Some (h, m)))) = Some (zh, zm)" and
    tz: "(if c = CHR ''-'' then - (zh * 60 + zm) else zh * 60 + zm) = tz" and
    n: "\<not> (tz * 60000000 > 0 \<and> tk < word_of_int (tz * 60000000))" and ck: "checked64 (sint tk - tz * 60000000) = Ret v"
  have zn: "?zone z = Some (zh, zm)" using zone z(1) by simp
  have hz: "hd z = c" "z \<noteq> []" "c \<noteq> CHR ''Z''" "(c \<noteq> CHR ''+'' \<and> c \<noteq> CHR ''-'') = False" using z by auto
  show "RtcParseRFC3339 (Some t0) (Some txt) = Ret (OK, Some (word_of_int v))"
    unfolding p zn option.case prod.case Let_def option.sel hz(1,4) tz if_not_P [OF n] ck using hz(2,3) by simp
qed

text \<open>The microseconds that the text keeps.\<close>

lemma centiseconds:
  fixes r :: rtc_date_time
  assumes "RtcCheckValid (Some r) = OK"
  defines "r' \<equiv> r\<lparr>r_microsecond := of_nat (unat (r_microsecond r div 10000) * 10000)\<rparr>"
  shows "RtcCheckValid (Some r') = OK" "rtc_ymd r' = rtc_ymd r" "rtc_usec r' = rtc_usec r - rtc_usec r mod 10000"
    "unat (r_microsecond r div 10000) < 100"
proof -
  define u where "u = uint (r_microsecond r)"
  have u: "0 \<le> u" "u < 1000000" using assms(1) unfolding RtcCheckValid_iff by (simp_all add: u_def)
  have d: "0 \<le> u div 10000" "u div 10000 \<le> 99" using u zdiv_mono1 [of u 999999 10000] by (simp_all add: pos_imp_zdiv_nonneg_iff)
  have n: "int (unat (r_microsecond r div 10000)) = u div 10000"
  proof -
    have "uint (r_microsecond r div 10000) = uint (r_microsecond r) div uint (10000 :: u32)" by (rule uint_div_distrib)
    also have "\<dots> = u div 10000" by (simp add: u_def)
    finally show ?thesis by (simp only: uint_nat)
  qed
  then show "unat (r_microsecond r div 10000) < 100" using d by linarith
  have "int (unat (r_microsecond r div 10000) * 10000) = u div 10000 * 10000" unfolding of_nat_mult n by simp
  moreover have "(of_nat (unat (r_microsecond r div 10000) * 10000) :: u32) = word_of_int (int (unat (r_microsecond r div 10000) * 10000))"
    by simp
  moreover have "r_microsecond r' = of_nat (unat (r_microsecond r div 10000) * 10000)" by (simp add: r'_def)
  ultimately have "r_microsecond r' = word_of_int (u div 10000 * 10000)" by (simp only:)
  moreover have "uint (word_of_int z :: u32) = z" if "0 \<le> z" "z < 4294967296" for z using that by (simp add: uint_word_of_int)
  from this [of "u div 10000 * 10000"] have "uint (word_of_int (u div 10000 * 10000) :: u32) = u div 10000 * 10000" using d by linarith
  ultimately have w: "uint (r_microsecond r') = u div 10000 * 10000" by (simp only:)
  have le: "u div 10000 * 10000 \<le> u" using div_mult_mod_eq [of u 10000] mod_bounds [of 10000 u] by linarith
  show "rtc_ymd r' = rtc_ymd r" by (simp add: r'_def rtc_ymd_def)
  then show "RtcCheckValid (Some r') = OK"
    using assms(1) w le u unfolding RtcCheckValid_iff by (simp add: r'_def)
  have "rtc_usec r = 10000 * (uint (r_hour r) * 360000 + uint (r_minute r) * 6000 + uint (r_second r) * 100) + u"
    by (simp add: rtc_usec_def u_def)
  then have "rtc_usec r mod 10000 = u mod 10000" by (simp only: mod_mult_self4)
  moreover have "rtc_usec r' = rtc_usec r - u + u div 10000 * 10000" by (simp add: rtc_usec_def w u_def) (simp add: r'_def)
  ultimately show "rtc_usec r' = rtc_usec r - rtc_usec r mod 10000" using div_mult_mod_eq [of u 10000] by linarith
qed

text \<open>The tick of the fields that are left when the microseconds are cut.\<close>

lemma cut_ticks:
  assumes "RtcSetTick (Some r0) (Some (word_of_int lt)) = (OK, Some r)" "uint (word_of_int lt :: u64) = lt"
  shows "RtcCheckValid (Some r) = OK"
    "RtcGetTick (Some (r\<lparr>r_microsecond := of_nat (unat (r_microsecond r div 10000) * 10000)\<rparr>)) (Some t0) =
      (OK, Some (word_of_int (lt - lt mod 10000)))"
proof -
  define t where "t = ymd_of (tick_day (word_of_int lt))"
  define u where "u = lt mod 86400000000"
  have u: "0 \<le> u" "u < 86400000000" unfolding u_def using mod_bounds [of 86400000000 lt] by simp_all
  have R: "fst t \<le> 9999" "r = rtc_fields t u"
    using assms RtcSetTick_eq [of r0 "word_of_int lt"] by (auto simp: t_def u_def rtc_codes OK_def split: if_splits)
  have ok: "ymd_ok t" "1 \<le> fst t" using ymd_of_correct(1) tick_day_year by (simp_all add: t_def)
  note V = rtc_fields_values [OF ok R(1) u, folded R(2)]
  obtain y m d where tt: "t = (y, m, d)" by (cases t)
  show valid: "RtcCheckValid (Some r) = OK" using rtc_fields_valid [of y m d u] ok R u tt by simp
  note C = centiseconds [OF valid]
  have ud: "u mod 10000 = lt mod 10000" using mod_mult_right_eq by (simp add: u_def mod_mod_cancel)
  have dn: "(day_number t - 306) * 86400000000 + u = lt"
    using ymd_of_correct(2) [of "tick_day (word_of_int lt)"] by (simp add: t_def tick_day_def assms(2) u_def)
  let ?r = "r\<lparr>r_microsecond := of_nat (unat (r_microsecond r div 10000) * 10000)\<rparr>"
  have "(day_number (rtc_ymd ?r) - 306) * 86400000000 + rtc_usec ?r = lt - lt mod 10000" unfolding C(2,3) V ud using dn by linarith
  with RtcGetTick_eq [OF C(1), of t0] show "RtcGetTick (Some ?r) (Some t0) = (OK, Some (word_of_int (lt - lt mod 10000)))" by (simp only:)
qed

lemma format_text:
  fixes tick :: u64
  assumes "\<bar>tz\<bar> < 6000" "0 \<le> lt" "uint tick < 4611686018427387904" "lt = uint tick + tz * 60000000"
    "RtcSetTick (Some \<lparr>r_year = 0, r_month = 0, r_day = 0, r_hour = 0, r_minute = 0, r_second = 0, r_microsecond = 0\<rparr>)
      (Some (word_of_int lt)) = (OK, Some r)"
  shows "RtcFormatRFC3339 now_us (Some buf) (Some tick) tz = Ret (OK, Some (rfc3339_text r (rfc3339_zone tz)))"
proof -
  define off where "off = tz * 60000000"
  have off: "-360000000000 < off" "off < 360000000000" using assms(1) by (simp_all add: off_def)
  have T: "0 \<le> uint tick" by simp
  have lo: "lt = uint tick + off" using assms(4) by (simp add: off_def)
  then have lt: "lt < 9223372036854775808" using off assms(3) by linarith
  have "-9223372036854775808 \<le> uint tick" "uint tick < 9223372036854775808" using T assms(3) by linarith+
  then have st: "sint tick = uint tick" using signed_take_bit_int_eq_self [of 63 "uint tick"] by (simp add: sint_uint)
  have "\<not> (off < 0 \<and> tick < word_of_int (- off))"
  proof
    assume a: "off < 0 \<and> tick < word_of_int (- off)"
    then have "uint (word_of_int (- off) :: u64) = - off" using off by (intro uint_numeral_64) simp_all
    with a show False using assms(2) by (simp add: word_less_def lo)
  qed
  moreover have "checked64 (sint tick + off) = Ret lt" using lt assms(2) by (simp add: checked64_def i64_ok_def st lo)
  moreover have "tz \<noteq> - 2147483648" using assms(1) by auto
  ultimately show ?thesis using assms(5) unfolding RtcFormatRFC3339_def Let_def off_def [symmetric] by (cases "off < 0") simp_all
qed

text \<open>What the parser reads of a formatted text.\<close>

lemma scan_text:
  assumes "RtcCheckValid (Some r) = OK" "length z \<le> 6"
  shows "scan_fields rfc3339_fields (rfc3339_text r z) =
      Ret (Some ([r_year r, r_month r, r_day r, r_hour r, r_minute r, r_second r],
        CHR ''.'' # pad_dec 2 (unat (r_microsecond r div 10000)) @ z))"
proof -
  let ?cs = "unat (r_microsecond r div 10000)"
  have "length (pad_dec 2 ?cs) = 2" using centiseconds(4) [OF assms(1)] pad_dec_facts(4) [of ?cs 2] by simp
  with rfc3339_lengths [OF assms(1)] assms(2)
  have "rfc3339_text r z = pad_dec 4 (unat (r_year r)) @ CHR ''-'' # pad_dec 2 (unat (r_month r)) @ CHR ''-'' # pad_dec 2 (unat (r_day r)) @
     CHR ''T'' # pad_dec 2 (unat (r_hour r)) @ CHR '':'' # pad_dec 2 (unat (r_minute r)) @ CHR '':'' # pad_dec 2 (unat (r_second r)) @
     CHR ''.'' # pad_dec 2 ?cs @ z"
    unfolding rfc3339_text_def by (intro take_all) simp
  then show ?thesis using scan_rfc3339_fields [of "CHR ''.'' # pad_dec 2 ?cs @ z" r] not_digit_seps by simp
qed

text \<open>A zone offset of the text is subtracted again.\<close>

lemma parse_text_zone:
  assumes tz: "\<bar>tz\<bar> < 6000" "tz \<noteq> 0" and valid: "RtcCheckValid (Some r) = OK"
    and tick: "0 \<le> lo" "lo < 4611686018427387904" "0 \<le> lo + tz * 60000000"
    and G: "RtcGetTick (Some \<lparr>r_year = r_year r, r_month = r_month r, r_day = r_day r, r_hour = r_hour r, r_minute = r_minute r,
        r_second = r_second r, r_microsecond = of_nat (unat (r_microsecond r div 10000) * 10000)\<rparr>) (Some t0) =
      (OK, Some (word_of_int (lo + tz * 60000000)))"
  shows "RtcParseRFC3339 (Some t0) (Some (rfc3339_text r (rfc3339_zone tz))) = Ret (OK, Some (word_of_int lo))"
proof -
  define off where "off = tz * 60000000"
  have off: "-360000000000 < off" "off < 360000000000" using tz(1) by (simp_all add: off_def)
  have ul: "uint (word_of_int (lo + off) :: u64) = lo + off" using tick off unfolding off_def [symmetric] by (intro uint_numeral_64) simp_all
  obtain c rest h m where z: "rfc3339_zone tz = c # rest" "c = CHR ''-'' \<longleftrightarrow> tz < 0"
    "c = CHR ''-'' \<or> c = CHR ''+''"
    "(case scan_d2 rest of None \<Rightarrow> None
    | Some (h, s) \<Rightarrow> (case scan_char (CHR '':'') s of None \<Rightarrow> None
        | Some s \<Rightarrow> (case scan_d2 s of None \<Rightarrow> None | Some (m, _) \<Rightarrow> Some (h, m)))) = Some (h, m)"
    "(if c = CHR ''-'' then - (h * 60 + m) else h * 60 + m) = tz" using parse_zone [OF tz] by blast
  have len: "length (c # rest) \<le> 6"
  proof -
    have "length (pad_dec 2 k) = 2" if "k < 100" for k using that by (intro pad_dec_facts(4)) simp_all
    moreover have "nat \<bar>tz\<bar> div 60 < 100" "nat \<bar>tz\<bar> mod 60 < 100" using tz(1) by (simp_all add: less_mult_imp_div_less)
    ultimately show ?thesis unfolding z(1) [symmetric] by (simp add: rfc3339_zone_text [OF tz])
  qed
  have fr: "fraction (pad_dec 2 (unat (r_microsecond r div 10000)) @ c # rest) = (of_nat (unat (r_microsecond r div 10000) * 10000), c # rest)"
    by (rule fraction_pad_dec [OF centiseconds(4) [OF valid]]) (use z(3) not_digit_seps in auto)
  have "off > 0 \<Longrightarrow> uint (word_of_int off :: u64) = off" using off by (intro uint_numeral_64) simp_all
  with ul tick(1) have ck1: "\<not> (tz * 60000000 > 0 \<and> (word_of_int (lo + off) :: u64) < word_of_int (tz * 60000000))"
    unfolding off_def [symmetric] by (auto simp: word_less_def)
  have "-9223372036854775808 \<le> lo + off" "lo + off < 9223372036854775808" using tick off by linarith+
  then have "sint (word_of_int (lo + off) :: u64) = lo + off" using ul signed_take_bit_int_eq_self [of 63 "lo + off"] by (simp only: sint_uint) simp
  then have ck2: "checked64 (sint (word_of_int (lo + off) :: u64) - tz * 60000000) = Ret lo"
    unfolding off_def [symmetric] using tick by (simp add: checked64_def i64_ok_def)
  from parse_steps(2) [OF scan_text [OF valid len] fr G [folded off_def] refl z(3,4,5) ck1 ck2] show ?thesis unfolding z(1) .
qed

lemma parse_text_utc:
  assumes "RtcCheckValid (Some r) = OK"
    "RtcGetTick (Some \<lparr>r_year = r_year r, r_month = r_month r, r_day = r_day r, r_hour = r_hour r, r_minute = r_minute r,
        r_second = r_second r, r_microsecond = of_nat (unat (r_microsecond r div 10000) * 10000)\<rparr>) (Some t0) = (OK, Some tk)"
  shows "RtcParseRFC3339 (Some t0) (Some (rfc3339_text r (rfc3339_zone 0))) = Ret (OK, Some tk)"
proof -
  have z: "rfc3339_zone 0 = ''Z''" by (simp add: rfc3339_zone_def)
  have fr: "fraction (pad_dec 2 (unat (r_microsecond r div 10000)) @ ''Z'') = (of_nat (unat (r_microsecond r div 10000) * 10000), ''Z'')"
    by (rule fraction_pad_dec [OF centiseconds(4) [OF assms(1)]]) (simp add: not_digit_seps)
  have "length ''Z'' \<le> 6" by simp
  from parse_steps(1) [OF scan_text [OF assms(1) this] fr assms(2) refl] show ?thesis unfolding z .
qed

text \<open>
  C38: a tick formatted as RFC 3339 text in any zone of less than a hundred hours reads back
  as the tick, cut to the hundredths of a second that the text has, whenever the local time
  is not before year 1 and not after year 9999.
\<close>

theorem Rfc3339_roundtrip:
  assumes "\<bar>tz\<bar> < 6000" "uint tick < 2 ^ 62" "0 \<le> uint tick + tz * 60000000"
    "RtcSetTick (Some \<lparr>r_year = 0, r_month = 0, r_day = 0, r_hour = 0, r_minute = 0, r_second = 0, r_microsecond = 0\<rparr>)
      (Some (word_of_int (uint tick + tz * 60000000))) = (OK, Some r)"
  shows "\<exists>txt. RtcFormatRFC3339 now_us (Some buf) (Some tick) tz = Ret (OK, Some txt) \<and>
    RtcParseRFC3339 (Some t0) (Some txt) = Ret (OK, Some (word_of_int (uint tick - uint tick mod 10000)))"
proof -
  define off where "off = tz * 60000000"
  have off: "-360000000000 < off" "off < 360000000000" "off mod 10000 = 0" using assms(1) by (simp_all add: off_def)
  have T: "0 \<le> uint tick" "uint tick < 4611686018427387904" using assms(2) by simp_all
  define lt where "lt = uint tick + off"
  have lt: "0 \<le> lt" "lt < 9223372036854775808" using assms(3) T off by (simp_all add: lt_def off_def)
  have ult: "uint (word_of_int lt :: u64) = lt" using lt by (simp add: uint_word_of_int)
  note S = assms(4) [folded off_def, folded lt_def]
  note valid = cut_ticks(1) [OF S ult]
  define lo where "lo = uint tick - uint tick mod 10000"
  have "lt mod 10000 = uint tick mod 10000" using off(3) unfolding lt_def by (metis add.right_neutral mod_add_right_eq)
  then have cut: "lt - lt mod 10000 = lo + off" by (simp add: lt_def lo_def)
  have "lt mod 10000 \<le> lt" "uint tick mod 10000 \<le> uint tick" "0 \<le> uint tick mod 10000"
    using lt T zmod_le_nonneg_dividend [of lt 10000] zmod_le_nonneg_dividend [of "uint tick" 10000] by simp_all
  then have lo: "0 \<le> lo" "lo < 4611686018427387904" "0 \<le> lo + off" using T cut unfolding lo_def by linarith+
  have "r\<lparr>r_microsecond := ms\<rparr> = \<lparr>r_year = r_year r, r_month = r_month r, r_day = r_day r, r_hour = r_hour r, r_minute = r_minute r,
      r_second = r_second r, r_microsecond = ms\<rparr>" for ms by simp
  note G = cut_ticks(2) [OF S ult, of t0, unfolded cut this]
  have "RtcParseRFC3339 (Some t0) (Some (rfc3339_text r (rfc3339_zone tz))) = Ret (OK, Some (word_of_int lo))"
  proof (cases "tz = 0")
    case True
    then have "off = 0" by (simp add: off_def)
    with parse_text_utc [OF valid G] True show ?thesis by simp
  next
    case False
    show ?thesis by (rule parse_text_zone [OF assms(1) False valid lo(1,2)]) (use lo(3) G in \<open>simp_all only: off_def\<close>)
  qed
  moreover have "RtcFormatRFC3339 now_us (Some buf) (Some tick) tz = Ret (OK, Some (rfc3339_text r (rfc3339_zone tz)))"
    using format_text [OF assms(1) lt(1) T(2) _ S] by (simp add: lt_def off_def)
  ultimately show ?thesis unfolding lo_def by blast
qed

lemma Rfc3339_roundtrip_witness:
  "\<exists>txt. RtcFormatRFC3339 0 (Some []) (Some 1234567) (-30 + 150) = Ret (OK, Some txt) \<and>
    RtcParseRFC3339 (Some 0) (Some txt) = Ret (OK, Some 1230000)"
proof -
  let ?z = "\<lparr>r_year = 0, r_month = 0, r_day = 0, r_hour = 0, r_minute = 0, r_second = 0, r_microsecond = 0\<rparr>"
  have "uint (7201234567 :: u64) div 86400000000 = 0" by simp
  then have "ymd_of (tick_day 7201234567) = (1, 1, 1)" unfolding tick_day_iter by simp
  then have "RtcSetTick (Some ?z) (Some 7201234567) = (OK, Some (rtc_fields (1, 1, 1) 7201234567))"
    using RtcSetTick_eq [of ?z 7201234567] by simp
  then have "RtcSetTick (Some ?z) (Some (word_of_int (uint (1234567 :: u64) + 120 * 60000000))) =
      (OK, Some (rtc_fields (1, 1, 1) 7201234567))" by simp
  from Rfc3339_roundtrip [OF _ _ _ this, of 0 "[]" 0] show ?thesis by simp
qed

section \<open>Days of the week and products out of range\<close>

text \<open>Sunday is 0; January 1 of year 1 was a Monday.\<close>

lemma RtcGetDayOfWeek_mod:
  assumes "1 \<le> y" "y \<le> 9999" "ymd_ok (y, m, d)"
  shows "RtcGetDayOfWeek y m d = Ret ((day_number (y, m, d) - 306 + 1) mod 7)"
proof -
  have md: "1 \<le> m" "m \<le> 12" "1 \<le> d" "d \<le> month_len y m" using assms(3) by (auto simp: ymd_ok_def)
  have v: "Date_IsValid y m d" using assms by (simp add: Date_IsValid_iff astro_def)
  have "RtcGetDaysInMonth y m = month_len y m"
    using assms(1,2) md DaysInMonth_values [OF md(1,2), of y] IsLeapYear_leap [of y]
    by (auto simp: RtcGetDaysInMonth_def month_len_def astro_def)
  moreover have "Date_Set y m d = Ret (Date (day_number (y, m, d) + 1721120))" using Date_Set_Ret [OF v] assms(1,2) by (simp add: astro_def)
  moreover have "Date_DayOfWeek (Date (day_number (y, m, d) + 1721120)) = Ret ((day_number (y, m, d) + 1721120) mod 7 + 1)"
    using day_number_range [OF assms(3,1,2)] by (subst Date_DayOfWeek_mod) (auto simp: Date_IsInvalid_def DATE_JD_INVALID_def)
  moreover have "(if x mod 7 + 1 = 7 then 0 else x mod 7 + 1) = (x + 1) mod 7" for x :: int by presburger
  moreover have "(day_number (y, m, d) + 1721120 + 1) mod 7 = (day_number (y, m, d) - 306 + 1) mod 7"
    using mod_mult_self1 [of "day_number (y, m, d) - 306 + 1" 245918 7] by (simp add: algebra_simps)
  ultimately show ?thesis using md month_len_le [of y m] by (simp add: RtcGetDayOfWeek_def Let_def)
qed

text \<open>The product of \<open>RtcTickAddWeeks\<close> and \<open>RtcTickAddDays\<close> leaves the signed 64 bits for large arguments.\<close>

lemma rtc_add_overflow:
  "RtcTickAddWeeks (Some 0) (Some 0) (2 ^ 31 - 1) = Undef" "RtcTickAddDays (Some 0) (Some 0) (2 ^ 31 - 1) = Undef"
  by (simp_all add: RtcTickAddWeeks_def RtcTickAddDays_def checked64_def i64_ok_def)

end
