(* ===== verification/ShaderTypes.thy ===== *)
theory ShaderTypes
  imports Prelude
begin

text \<open>
  The type lattice and the opcode table of the shader recompiler's intermediate
  representation: \<open>Type.h\<close>, \<open>Type.cpp\<close> and \<open>opcodes/ValueOpcodes.*\<close> under
  \<open>src/graphics/shader/recompiler/ir\<close>.  A type is a set of flags in a 32-bit word.  The enum
  \<open>ValueOpcode\<close> is split along the comments of its table into groups, each a datatype with
  the source's constructors.
\<close>

section \<open>Types\<close>

type_synonym ir_type = u32

named_theorems type_defs \<open>the flag of each type\<close>

definition T_Void :: ir_type where "T_Void = 0"
definition T_Opaque :: ir_type where "T_Opaque = 1"
definition T_ScalarReg :: ir_type where "T_ScalarReg = 2"
definition T_VectorReg :: ir_type where "T_VectorReg = 4"
definition T_U1 :: ir_type where "T_U1 = 8"
definition T_U8 :: ir_type where "T_U8 = 16"
definition T_U16 :: ir_type where "T_U16 = 32"
definition T_U32 :: ir_type where "T_U32 = 64"
definition T_U64 :: ir_type where "T_U64 = 128"
definition T_F16 :: ir_type where "T_F16 = 256"
definition T_F32 :: ir_type where "T_F32 = 512"
definition T_U32x2 :: ir_type where "T_U32x2 = 1024"
definition T_U32x3 :: ir_type where "T_U32x3 = 2048"
definition T_U32x4 :: ir_type where "T_U32x4 = 4096"
definition T_F32x2 :: ir_type where "T_F32x2 = 8192"
definition T_F32x3 :: ir_type where "T_F32x3 = 16384"
definition T_F32x4 :: ir_type where "T_F32x4 = 32768"
definition T_SrtResource :: ir_type where "T_SrtResource = 65536"
definition T_BufferResource :: ir_type where "T_BufferResource = 131072"
definition T_AddressResource :: ir_type where "T_AddressResource = 262144"
definition T_ImageResource :: ir_type where "T_ImageResource = 524288"
definition T_SamplerResource :: ir_type where "T_SamplerResource = 1048576"
definition T_LdsResource :: ir_type where "T_LdsResource = 2097152"
definition T_GdsResource :: ir_type where "T_GdsResource = 4194304"
definition T_ImageAddress :: ir_type where "T_ImageAddress = 8388608"

lemmas T_defs [type_defs] = T_Void_def T_Opaque_def T_ScalarReg_def T_VectorReg_def T_U1_def T_U8_def T_U16_def T_U32_def T_U64_def T_F16_def T_F32_def T_U32x2_def T_U32x3_def T_U32x4_def T_F32x2_def T_F32x3_def T_F32x4_def T_SrtResource_def T_BufferResource_def T_AddressResource_def T_ImageResource_def T_SamplerResource_def T_LdsResource_def T_GdsResource_def T_ImageAddress_def

definition TypesOverlap :: "ir_type \<Rightarrow> ir_type \<Rightarrow> bool" where
  "TypesOverlap l r \<longleftrightarrow> l AND r \<noteq> T_Void"

definition AreTypesCompatible :: "ir_type \<Rightarrow> ir_type \<Rightarrow> bool" where
  "AreTypesCompatible l r \<longleftrightarrow> l = r \<or> l = T_Opaque \<or> r = T_Opaque \<or> TypesOverlap l r"

definition type_names :: "string list" where
  "type_names = [''Opaque'', ''ScalarReg'', ''VectorReg'', ''U1'', ''U8'', ''U16'', ''U32'', ''U64'', ''F16'', ''F32'', ''U32x2'', ''U32x3'', ''U32x4'', ''F32x2'', ''F32x3'', ''F32x4'', ''SrtResource'', ''BufferResource'', ''AddressResource'', ''ImageResource'', ''SamplerResource'', ''LdsResource'', ''GdsResource'', ''ImageAddress'']"

fun type_name_loop :: "nat \<Rightarrow> string list \<Rightarrow> ir_type \<Rightarrow> string \<Rightarrow> string" where
  "type_name_loop index [] bits result = result"
| "type_name_loop index (name # names) bits result =
     (if bits AND push_bit index 1 = 0 then type_name_loop (Suc index) names bits result
      else type_name_loop (Suc index) names bits ((if result \<noteq> [] then result @ ''|'' else result) @ name))"

definition TypeName :: "ir_type \<Rightarrow> string" where
  "TypeName t = (if t = 0 then ''Void'' else type_name_loop 0 type_names t [])"

section \<open>Opcodes\<close>

text \<open>Structure of the value graph.\<close>

datatype (plugins only: code size) base_op =
    Phi | Identity | Void | ConditionRef | Reference | ReferenceU32

text \<open>Translation and register-state pseudo operations.\<close>

datatype (plugins only: code size) reg_op =
    Prologue | Epilogue | GetUserData | GetShaderBase | GetBuiltin | GetThreadBitScalarRegister |
    SetThreadBitScalarRegister | GetScalarRegister | SetScalarRegister | GetVectorRegister |
    SetVectorRegister | GetGotoVariable | SetGotoVariable | GetScc | SetScc | GetExec | SetExec | GetExecLo |
    SetExecLo | GetExecHi | SetExecHi | GetVcc | SetVcc | GetVccLo | SetVccLo | GetVccHi | SetVccHi | GetM0 |
    SetM0 | UndefU1 | UndefU8 | UndefU16 | UndefU32 | UndefU64

text \<open>Value construction and bit-preserving conversion.\<close>

datatype (plugins only: code size) cast_op =
    BitCastU16F16 | BitCastF16U16 | BitCastU32F32 | BitCastF32U32 | ConvertU16U32 | ConvertU32U16 |
    ConvertU8U32 | ConvertU32U8 | ConvertF32F16 | ConvertF16F32 | ConvertS32F32 | ConvertU32F32 |
    ConvertF32S32 | ConvertF32U32 | CompositeConstructU32x2 | CompositeConstructF32x2 |
    CompositeConstructU32x4 | CompositeExtractU32x2 | CompositeExtractU32x4 | PackUint2x32 | UnpackUint2x32 |
    PackHalf2x16 | PackSnorm2x16 | PackUnorm2x16 | PackFloat2x16Rtz

text \<open>Source and destination modifiers made explicit by translation.\<close>

datatype (plugins only: code size) modifier_op =
    FPAbs32 | FPNeg32 | FPSaturate32 | BitFieldInsert | BitFieldUExtract | BitFieldSExtract | DppMoveU32 |
    DppUpdateU32 | WqmMask

text \<open>Integer operations and selection.\<close>

datatype (plugins only: code size) alu_op =
    SelectU1 | SelectF32 | IAdd32 | IAdd64 | IAddCarry32 | ISub32 | ISub64 | IMul32 | IMul64 | UDiv32 |
    SMulHi | UMulHi | IAbs32 | ShiftLeftLogical32 | ShiftLeftLogical64 | ShiftRightLogical32 |
    ShiftRightLogical64 | ShiftRightArithmetic32 | ShiftRightArithmetic64 | BitwiseAnd32 | BitwiseAnd64 |
    BitwiseOr32 | BitwiseOr64 | BitwiseXor32 | BitwiseNot32 | BitReverse32 | BitCount32 | BitCount64 |
    FindUMsb32 | FindUMsb64 | FindSMsb32 | FindILsb32 | SMin32 | UMin32 | SMax32 | UMax32 | SMinTri32 |
    UMinTri32 | SMaxTri32 | UMaxTri32 | SMedTri32 | UMedTri32

text \<open>Integer comparisons and logic.\<close>

datatype (plugins only: code size) compare_op =
    SLessThan32 | SLessThan64 | ULessThan32 | ULessThan64 | IEqual32 | IEqual64 | SLessThanEqual32 |
    SLessThanEqual64 | ULessThanEqual32 | ULessThanEqual64 | SGreaterThan32 | SGreaterThan64 |
    UGreaterThan32 | UGreaterThan64 | INotEqual32 | INotEqual64 | SGreaterThanEqual32 | SGreaterThanEqual64 |
    UGreaterThanEqual32 | UGreaterThanEqual64 | LogicalOr | LogicalAnd | LogicalXor | LogicalNot

text \<open>Floating-point operations.\<close>

datatype (plugins only: code size) fp_op =
    FPOrdEqual32 | FPUnordEqual32 | FPOrdNotEqual32 | FPUnordNotEqual32 | FPOrdLessThan32 |
    FPUnordLessThan32 | FPOrdGreaterThan32 | FPUnordGreaterThan32 | FPOrdLessThanEqual32 |
    FPUnordLessThanEqual32 | FPOrdGreaterThanEqual32 | FPUnordGreaterThanEqual32 | FPIsNan32 | FPCmpClass32 |
    FPAdd32 | FPSub32 | FPFma32 | FPMul32 | FPMin32 | FPMax32 | FPMinTri32 | FPMaxTri32 | FPMedTri32 |
    FPRecip32 | FPRecipIFlag32 | FPRecipSqrt32 | FPSqrt | FPSin | FPCos | FPExp2 | FPLog2 | FPLdexp |
    FPRoundEven32 | FPFloor32 | FPCeil32 | FPTrunc32 | FPFract32

text \<open>Operations across the lanes of a wave.\<close>

datatype (plugins only: code size) lane_op =
    LaneId | Ballot | ReadFirstLane | ReadLane | WriteLane | Permlane16U32

text \<open>Resources, addresses and buffers.\<close>

datatype (plugins only: code size) memory_op =
    GetSrtResource | GetBufferResource | GetAddressResource | GetImageResource | GetSamplerResource |
    GetLdsResource | GetGdsResource | MakeImageAddress | ReadConst | ReadConstBuffer | LoadAddressU8 |
    LoadAddressU16 | LoadAddressU32 | StoreAddressU8 | StoreAddressU16 | StoreAddressU32 | LoadBufferU8 |
    LoadBufferU16 | LoadBufferU32 | StoreBufferU8 | StoreBufferU16 | StoreBufferU32 | BufferAtomicSwap32 |
    BufferAtomicIAdd32 | BufferAtomicISub32 | BufferAtomicSMin32 | BufferAtomicUMin32 | BufferAtomicSMax32 |
    BufferAtomicUMax32 | BufferAtomicAnd32 | BufferAtomicOr32 | BufferAtomicXor32 | BufferAtomicFMin32 |
    BufferAtomicFMax32

text \<open>Local and global data share.\<close>

datatype (plugins only: code size) shared_op =
    LoadSharedU8 | LoadSharedU16 | LoadSharedU32 | WriteSharedU8 | WriteSharedU16 | WriteSharedU32 |
    LoadGdsU8 | LoadGdsU16 | LoadGdsU32 | WriteGdsU8 | WriteGdsU16 | WriteGdsU32 | SharedAtomicFMin32 |
    SharedAtomicFMax32 | GdsAtomicFMin32 | GdsAtomicFMax32 | SharedAtomicSwap32 | SharedAtomicIAdd32 |
    SharedAtomicISub32 | SharedAtomicSMin32 | SharedAtomicUMin32 | SharedAtomicSMax32 | SharedAtomicUMax32 |
    SharedAtomicAnd32 | SharedAtomicOr32 | SharedAtomicXor32 | GdsAtomicSwap32 | GdsAtomicIAdd32 |
    GdsAtomicISub32 | GdsAtomicSMin32 | GdsAtomicUMin32 | GdsAtomicSMax32 | GdsAtomicUMax32 | GdsAtomicAnd32 |
    GdsAtomicOr32 | GdsAtomicXor32 | DataAppend | DataConsume | GdsDataAppend | GdsDataConsume | SwizzleU32

text \<open>Images and attributes.\<close>

datatype (plugins only: code size) image_op =
    ImageQueryDimensions | ImageQueryLod | ImageRead | ImageWrite | ImageSampleRaw | ImageGatherRaw |
    ImageAtomicIAdd32 | ImageAtomicUMin32 | ImageAtomicUMax32 | ImageAtomicAnd32 | ImageAtomicOr32 |
    ImageAtomicXor32 | GetAttribute | SetAttribute

text \<open>Control, and the 32-bit selection at the end of the table.\<close>

datatype (plugins only: code size) control_op =
    ControlNop | Waitcnt | Barrier | Sendmsg | TtraceData | InstPrefetch | SelectU32

datatype (plugins only: code size) value_opcode =
    Base base_op | Regs reg_op | Cast cast_op | Modifier modifier_op | Alu alu_op | Compare compare_op |
    Fp fp_op | Lane lane_op | Memory memory_op | Shared shared_op | Image image_op | Control control_op

text \<open>The rows of the table: the result type and the argument types.\<close>

primrec meta_base_op :: "base_op \<Rightarrow> ir_type \<times> ir_type list" where
  "meta_base_op Phi = (T_Opaque, [])"
| "meta_base_op Identity = (T_Opaque, [T_Opaque])"
| "meta_base_op Void = (T_Void, [])"
| "meta_base_op ConditionRef = (T_U1, [T_U1])"
| "meta_base_op Reference = (T_Void, [T_U1])"
| "meta_base_op ReferenceU32 = (T_Void, [T_U32])"

primrec meta_reg_op :: "reg_op \<Rightarrow> ir_type \<times> ir_type list" where
  "meta_reg_op Prologue = (T_Void, [])"
| "meta_reg_op Epilogue = (T_Void, [])"
| "meta_reg_op GetUserData = (T_U32, [T_ScalarReg])"
| "meta_reg_op GetShaderBase = (T_U64, [])"
| "meta_reg_op GetBuiltin = (T_U32, [T_U32, T_U32])"
| "meta_reg_op GetThreadBitScalarRegister = (T_U1, [T_ScalarReg])"
| "meta_reg_op SetThreadBitScalarRegister = (T_Void, [T_ScalarReg, T_U1])"
| "meta_reg_op GetScalarRegister = (T_U32, [T_ScalarReg])"
| "meta_reg_op SetScalarRegister = (T_Void, [T_ScalarReg, T_U32])"
| "meta_reg_op GetVectorRegister = (T_U32, [T_VectorReg])"
| "meta_reg_op SetVectorRegister = (T_Void, [T_VectorReg, T_U32])"
| "meta_reg_op GetGotoVariable = (T_U1, [T_U32])"
| "meta_reg_op SetGotoVariable = (T_Void, [T_U32, T_U1])"
| "meta_reg_op GetScc = (T_U1, [])"
| "meta_reg_op SetScc = (T_Void, [T_U1])"
| "meta_reg_op GetExec = (T_U1, [])"
| "meta_reg_op SetExec = (T_Void, [T_U1])"
| "meta_reg_op GetExecLo = (T_U32, [])"
| "meta_reg_op SetExecLo = (T_Void, [T_U32])"
| "meta_reg_op GetExecHi = (T_U32, [])"
| "meta_reg_op SetExecHi = (T_Void, [T_U32])"
| "meta_reg_op GetVcc = (T_U1, [])"
| "meta_reg_op SetVcc = (T_Void, [T_U1])"
| "meta_reg_op GetVccLo = (T_U32, [])"
| "meta_reg_op SetVccLo = (T_Void, [T_U32])"
| "meta_reg_op GetVccHi = (T_U32, [])"
| "meta_reg_op SetVccHi = (T_Void, [T_U32])"
| "meta_reg_op GetM0 = (T_U32, [])"
| "meta_reg_op SetM0 = (T_Void, [T_U32])"
| "meta_reg_op UndefU1 = (T_U1, [])"
| "meta_reg_op UndefU8 = (T_U8, [])"
| "meta_reg_op UndefU16 = (T_U16, [])"
| "meta_reg_op UndefU32 = (T_U32, [])"
| "meta_reg_op UndefU64 = (T_U64, [])"

primrec meta_cast_op :: "cast_op \<Rightarrow> ir_type \<times> ir_type list" where
  "meta_cast_op BitCastU16F16 = (T_U16, [T_F16])"
| "meta_cast_op BitCastF16U16 = (T_F16, [T_U16])"
| "meta_cast_op BitCastU32F32 = (T_U32, [T_F32])"
| "meta_cast_op BitCastF32U32 = (T_F32, [T_U32])"
| "meta_cast_op ConvertU16U32 = (T_U16, [T_U32])"
| "meta_cast_op ConvertU32U16 = (T_U32, [T_U16])"
| "meta_cast_op ConvertU8U32 = (T_U8, [T_U32])"
| "meta_cast_op ConvertU32U8 = (T_U32, [T_U8])"
| "meta_cast_op ConvertF32F16 = (T_F32, [T_F16])"
| "meta_cast_op ConvertF16F32 = (T_F16, [T_F32])"
| "meta_cast_op ConvertS32F32 = (T_U32, [T_F32])"
| "meta_cast_op ConvertU32F32 = (T_U32, [T_F32])"
| "meta_cast_op ConvertF32S32 = (T_F32, [T_U32])"
| "meta_cast_op ConvertF32U32 = (T_F32, [T_U32])"
| "meta_cast_op CompositeConstructU32x2 = (T_U32x2, [T_U32, T_U32])"
| "meta_cast_op CompositeConstructF32x2 = (T_F32x2, [T_F32, T_F32])"
| "meta_cast_op CompositeConstructU32x4 = (T_U32x4, [T_U32, T_U32, T_U32, T_U32])"
| "meta_cast_op CompositeExtractU32x2 = (T_U32, [T_U32x2, T_U32])"
| "meta_cast_op CompositeExtractU32x4 = (T_U32, [T_U32x4, T_U32])"
| "meta_cast_op PackUint2x32 = (T_U64, [T_U32x2])"
| "meta_cast_op UnpackUint2x32 = (T_U32x2, [T_U64])"
| "meta_cast_op PackHalf2x16 = (T_U32, [T_F32x2])"
| "meta_cast_op PackSnorm2x16 = (T_U32, [T_F32x2])"
| "meta_cast_op PackUnorm2x16 = (T_U32, [T_F32x2])"
| "meta_cast_op PackFloat2x16Rtz = (T_U32, [T_F32, T_F32])"

primrec meta_modifier_op :: "modifier_op \<Rightarrow> ir_type \<times> ir_type list" where
  "meta_modifier_op FPAbs32 = (T_F32, [T_F32])"
| "meta_modifier_op FPNeg32 = (T_F32, [T_F32])"
| "meta_modifier_op FPSaturate32 = (T_F32, [T_F32])"
| "meta_modifier_op BitFieldInsert = (T_U32, [T_U32, T_U32, T_U32, T_U32])"
| "meta_modifier_op BitFieldUExtract = (T_U32, [T_U32, T_U32, T_U32])"
| "meta_modifier_op BitFieldSExtract = (T_U32, [T_U32, T_U32, T_U32])"
| "meta_modifier_op DppMoveU32 = (T_U32, [T_U32, T_U1])"
| "meta_modifier_op DppUpdateU32 = (T_U32, [T_U32, T_U32, T_U1])"
| "meta_modifier_op WqmMask = (T_U1, [T_U1])"

primrec meta_alu_op :: "alu_op \<Rightarrow> ir_type \<times> ir_type list" where
  "meta_alu_op SelectU1 = (T_U1, [T_U1, T_U1, T_U1])"
| "meta_alu_op SelectF32 = (T_F32, [T_U1, T_F32, T_F32])"
| "meta_alu_op IAdd32 = (T_U32, [T_U32, T_U32])"
| "meta_alu_op IAdd64 = (T_U64, [T_U64, T_U64])"
| "meta_alu_op IAddCarry32 = (T_U32x2, [T_U32, T_U32])"
| "meta_alu_op ISub32 = (T_U32, [T_U32, T_U32])"
| "meta_alu_op ISub64 = (T_U64, [T_U64, T_U64])"
| "meta_alu_op IMul32 = (T_U32, [T_U32, T_U32])"
| "meta_alu_op IMul64 = (T_U64, [T_U64, T_U64])"
| "meta_alu_op UDiv32 = (T_U32, [T_U32, T_U32])"
| "meta_alu_op SMulHi = (T_U32, [T_U32, T_U32])"
| "meta_alu_op UMulHi = (T_U32, [T_U32, T_U32])"
| "meta_alu_op IAbs32 = (T_U32, [T_U32])"
| "meta_alu_op ShiftLeftLogical32 = (T_U32, [T_U32, T_U32])"
| "meta_alu_op ShiftLeftLogical64 = (T_U64, [T_U64, T_U32])"
| "meta_alu_op ShiftRightLogical32 = (T_U32, [T_U32, T_U32])"
| "meta_alu_op ShiftRightLogical64 = (T_U64, [T_U64, T_U32])"
| "meta_alu_op ShiftRightArithmetic32 = (T_U32, [T_U32, T_U32])"
| "meta_alu_op ShiftRightArithmetic64 = (T_U64, [T_U64, T_U32])"
| "meta_alu_op BitwiseAnd32 = (T_U32, [T_U32, T_U32])"
| "meta_alu_op BitwiseAnd64 = (T_U64, [T_U64, T_U64])"
| "meta_alu_op BitwiseOr32 = (T_U32, [T_U32, T_U32])"
| "meta_alu_op BitwiseOr64 = (T_U64, [T_U64, T_U64])"
| "meta_alu_op BitwiseXor32 = (T_U32, [T_U32, T_U32])"
| "meta_alu_op BitwiseNot32 = (T_U32, [T_U32])"
| "meta_alu_op BitReverse32 = (T_U32, [T_U32])"
| "meta_alu_op BitCount32 = (T_U32, [T_U32])"
| "meta_alu_op BitCount64 = (T_U32, [T_U64])"
| "meta_alu_op FindUMsb32 = (T_U32, [T_U32])"
| "meta_alu_op FindUMsb64 = (T_U32, [T_U64])"
| "meta_alu_op FindSMsb32 = (T_U32, [T_U32])"
| "meta_alu_op FindILsb32 = (T_U32, [T_U32])"
| "meta_alu_op SMin32 = (T_U32, [T_U32, T_U32])"
| "meta_alu_op UMin32 = (T_U32, [T_U32, T_U32])"
| "meta_alu_op SMax32 = (T_U32, [T_U32, T_U32])"
| "meta_alu_op UMax32 = (T_U32, [T_U32, T_U32])"
| "meta_alu_op SMinTri32 = (T_U32, [T_U32, T_U32, T_U32])"
| "meta_alu_op UMinTri32 = (T_U32, [T_U32, T_U32, T_U32])"
| "meta_alu_op SMaxTri32 = (T_U32, [T_U32, T_U32, T_U32])"
| "meta_alu_op UMaxTri32 = (T_U32, [T_U32, T_U32, T_U32])"
| "meta_alu_op SMedTri32 = (T_U32, [T_U32, T_U32, T_U32])"
| "meta_alu_op UMedTri32 = (T_U32, [T_U32, T_U32, T_U32])"

primrec meta_compare_op :: "compare_op \<Rightarrow> ir_type \<times> ir_type list" where
  "meta_compare_op SLessThan32 = (T_U1, [T_U32, T_U32])"
| "meta_compare_op SLessThan64 = (T_U1, [T_U64, T_U64])"
| "meta_compare_op ULessThan32 = (T_U1, [T_U32, T_U32])"
| "meta_compare_op ULessThan64 = (T_U1, [T_U64, T_U64])"
| "meta_compare_op IEqual32 = (T_U1, [T_U32, T_U32])"
| "meta_compare_op IEqual64 = (T_U1, [T_U64, T_U64])"
| "meta_compare_op SLessThanEqual32 = (T_U1, [T_U32, T_U32])"
| "meta_compare_op SLessThanEqual64 = (T_U1, [T_U64, T_U64])"
| "meta_compare_op ULessThanEqual32 = (T_U1, [T_U32, T_U32])"
| "meta_compare_op ULessThanEqual64 = (T_U1, [T_U64, T_U64])"
| "meta_compare_op SGreaterThan32 = (T_U1, [T_U32, T_U32])"
| "meta_compare_op SGreaterThan64 = (T_U1, [T_U64, T_U64])"
| "meta_compare_op UGreaterThan32 = (T_U1, [T_U32, T_U32])"
| "meta_compare_op UGreaterThan64 = (T_U1, [T_U64, T_U64])"
| "meta_compare_op INotEqual32 = (T_U1, [T_U32, T_U32])"
| "meta_compare_op INotEqual64 = (T_U1, [T_U64, T_U64])"
| "meta_compare_op SGreaterThanEqual32 = (T_U1, [T_U32, T_U32])"
| "meta_compare_op SGreaterThanEqual64 = (T_U1, [T_U64, T_U64])"
| "meta_compare_op UGreaterThanEqual32 = (T_U1, [T_U32, T_U32])"
| "meta_compare_op UGreaterThanEqual64 = (T_U1, [T_U64, T_U64])"
| "meta_compare_op LogicalOr = (T_U1, [T_U1, T_U1])"
| "meta_compare_op LogicalAnd = (T_U1, [T_U1, T_U1])"
| "meta_compare_op LogicalXor = (T_U1, [T_U1, T_U1])"
| "meta_compare_op LogicalNot = (T_U1, [T_U1])"

primrec meta_fp_op :: "fp_op \<Rightarrow> ir_type \<times> ir_type list" where
  "meta_fp_op FPOrdEqual32 = (T_U1, [T_F32, T_F32])"
| "meta_fp_op FPUnordEqual32 = (T_U1, [T_F32, T_F32])"
| "meta_fp_op FPOrdNotEqual32 = (T_U1, [T_F32, T_F32])"
| "meta_fp_op FPUnordNotEqual32 = (T_U1, [T_F32, T_F32])"
| "meta_fp_op FPOrdLessThan32 = (T_U1, [T_F32, T_F32])"
| "meta_fp_op FPUnordLessThan32 = (T_U1, [T_F32, T_F32])"
| "meta_fp_op FPOrdGreaterThan32 = (T_U1, [T_F32, T_F32])"
| "meta_fp_op FPUnordGreaterThan32 = (T_U1, [T_F32, T_F32])"
| "meta_fp_op FPOrdLessThanEqual32 = (T_U1, [T_F32, T_F32])"
| "meta_fp_op FPUnordLessThanEqual32 = (T_U1, [T_F32, T_F32])"
| "meta_fp_op FPOrdGreaterThanEqual32 = (T_U1, [T_F32, T_F32])"
| "meta_fp_op FPUnordGreaterThanEqual32 = (T_U1, [T_F32, T_F32])"
| "meta_fp_op FPIsNan32 = (T_U1, [T_F32])"
| "meta_fp_op FPCmpClass32 = (T_U1, [T_F32, T_U32])"
| "meta_fp_op FPAdd32 = (T_F32, [T_F32, T_F32])"
| "meta_fp_op FPSub32 = (T_F32, [T_F32, T_F32])"
| "meta_fp_op FPFma32 = (T_F32, [T_F32, T_F32, T_F32])"
| "meta_fp_op FPMul32 = (T_F32, [T_F32, T_F32])"
| "meta_fp_op FPMin32 = (T_F32, [T_F32, T_F32])"
| "meta_fp_op FPMax32 = (T_F32, [T_F32, T_F32])"
| "meta_fp_op FPMinTri32 = (T_F32, [T_F32, T_F32, T_F32])"
| "meta_fp_op FPMaxTri32 = (T_F32, [T_F32, T_F32, T_F32])"
| "meta_fp_op FPMedTri32 = (T_F32, [T_F32, T_F32, T_F32])"
| "meta_fp_op FPRecip32 = (T_F32, [T_F32])"
| "meta_fp_op FPRecipIFlag32 = (T_F32, [T_F32])"
| "meta_fp_op FPRecipSqrt32 = (T_F32, [T_F32])"
| "meta_fp_op FPSqrt = (T_F32, [T_F32])"
| "meta_fp_op FPSin = (T_F32, [T_F32])"
| "meta_fp_op FPCos = (T_F32, [T_F32])"
| "meta_fp_op FPExp2 = (T_F32, [T_F32])"
| "meta_fp_op FPLog2 = (T_F32, [T_F32])"
| "meta_fp_op FPLdexp = (T_F32, [T_F32, T_U32])"
| "meta_fp_op FPRoundEven32 = (T_F32, [T_F32])"
| "meta_fp_op FPFloor32 = (T_F32, [T_F32])"
| "meta_fp_op FPCeil32 = (T_F32, [T_F32])"
| "meta_fp_op FPTrunc32 = (T_F32, [T_F32])"
| "meta_fp_op FPFract32 = (T_F32, [T_F32])"

primrec meta_lane_op :: "lane_op \<Rightarrow> ir_type \<times> ir_type list" where
  "meta_lane_op LaneId = (T_U32, [])"
| "meta_lane_op Ballot = (T_U32x4, [T_U1])"
| "meta_lane_op ReadFirstLane = (T_U32, [T_U32, T_U1])"
| "meta_lane_op ReadLane = (T_U32, [T_U32, T_U32])"
| "meta_lane_op WriteLane = (T_U32, [T_U32, T_U32, T_U32])"
| "meta_lane_op Permlane16U32 = (T_U32, [T_U32, T_U32, T_U32, T_U1])"

primrec meta_memory_op :: "memory_op \<Rightarrow> ir_type \<times> ir_type list" where
  "meta_memory_op GetSrtResource = (T_SrtResource, [])"
| "meta_memory_op GetBufferResource = (T_BufferResource, [T_U32, T_U32, T_U32, T_U32])"
| "meta_memory_op GetAddressResource = (T_AddressResource, [T_U32, T_U32])"
| "meta_memory_op GetImageResource = (T_ImageResource, [T_U32, T_U32, T_U32, T_U32, T_U32, T_U32, T_U32, T_U32])"
| "meta_memory_op GetSamplerResource = (T_SamplerResource, [T_U32, T_U32, T_U32, T_U32])"
| "meta_memory_op GetLdsResource = (T_LdsResource, [])"
| "meta_memory_op GetGdsResource = (T_GdsResource, [])"
| "meta_memory_op MakeImageAddress = (T_ImageAddress, [T_U32, T_U32, T_U32, T_U32, T_U32, T_U32, T_U32, T_U32, T_U32, T_U32, T_U32, T_U32, T_U32])"
| "meta_memory_op ReadConst = (T_U32, [T_SrtResource, T_U32])"
| "meta_memory_op ReadConstBuffer = (T_U32, [T_BufferResource, T_U32])"
| "meta_memory_op LoadAddressU8 = (T_U8, [T_AddressResource, T_U32, T_U32, T_U1])"
| "meta_memory_op LoadAddressU16 = (T_U16, [T_AddressResource, T_U32, T_U32, T_U1])"
| "meta_memory_op LoadAddressU32 = (T_U32, [T_AddressResource, T_U32, T_U32, T_U1])"
| "meta_memory_op StoreAddressU8 = (T_Void, [T_AddressResource, T_U32, T_U32, T_U8, T_U1])"
| "meta_memory_op StoreAddressU16 = (T_Void, [T_AddressResource, T_U32, T_U32, T_U16, T_U1])"
| "meta_memory_op StoreAddressU32 = (T_Void, [T_AddressResource, T_U32, T_U32, T_U32, T_U1])"
| "meta_memory_op LoadBufferU8 = (T_U8, [T_BufferResource, T_U32, T_U32, T_U32, T_U1])"
| "meta_memory_op LoadBufferU16 = (T_U16, [T_BufferResource, T_U32, T_U32, T_U32, T_U1])"
| "meta_memory_op LoadBufferU32 = (T_U32, [T_BufferResource, T_U32, T_U32, T_U32, T_U1])"
| "meta_memory_op StoreBufferU8 = (T_Void, [T_BufferResource, T_U32, T_U32, T_U32, T_U8, T_U1])"
| "meta_memory_op StoreBufferU16 = (T_Void, [T_BufferResource, T_U32, T_U32, T_U32, T_U16, T_U1])"
| "meta_memory_op StoreBufferU32 = (T_Void, [T_BufferResource, T_U32, T_U32, T_U32, T_U32, T_U1])"
| "meta_memory_op BufferAtomicSwap32 = (T_U32, [T_BufferResource, T_U32, T_U32, T_U32, T_U32, T_U1])"
| "meta_memory_op BufferAtomicIAdd32 = (T_U32, [T_BufferResource, T_U32, T_U32, T_U32, T_U32, T_U1])"
| "meta_memory_op BufferAtomicISub32 = (T_U32, [T_BufferResource, T_U32, T_U32, T_U32, T_U32, T_U1])"
| "meta_memory_op BufferAtomicSMin32 = (T_U32, [T_BufferResource, T_U32, T_U32, T_U32, T_U32, T_U1])"
| "meta_memory_op BufferAtomicUMin32 = (T_U32, [T_BufferResource, T_U32, T_U32, T_U32, T_U32, T_U1])"
| "meta_memory_op BufferAtomicSMax32 = (T_U32, [T_BufferResource, T_U32, T_U32, T_U32, T_U32, T_U1])"
| "meta_memory_op BufferAtomicUMax32 = (T_U32, [T_BufferResource, T_U32, T_U32, T_U32, T_U32, T_U1])"
| "meta_memory_op BufferAtomicAnd32 = (T_U32, [T_BufferResource, T_U32, T_U32, T_U32, T_U32, T_U1])"
| "meta_memory_op BufferAtomicOr32 = (T_U32, [T_BufferResource, T_U32, T_U32, T_U32, T_U32, T_U1])"
| "meta_memory_op BufferAtomicXor32 = (T_U32, [T_BufferResource, T_U32, T_U32, T_U32, T_U32, T_U1])"
| "meta_memory_op BufferAtomicFMin32 = (T_U32, [T_BufferResource, T_U32, T_U32, T_U32, T_U32, T_U1])"
| "meta_memory_op BufferAtomicFMax32 = (T_U32, [T_BufferResource, T_U32, T_U32, T_U32, T_U32, T_U1])"

primrec meta_shared_op :: "shared_op \<Rightarrow> ir_type \<times> ir_type list" where
  "meta_shared_op LoadSharedU8 = (T_U8, [T_LdsResource, T_U32, T_U1])"
| "meta_shared_op LoadSharedU16 = (T_U16, [T_LdsResource, T_U32, T_U1])"
| "meta_shared_op LoadSharedU32 = (T_U32, [T_LdsResource, T_U32, T_U1])"
| "meta_shared_op WriteSharedU8 = (T_Void, [T_LdsResource, T_U32, T_U8, T_U1])"
| "meta_shared_op WriteSharedU16 = (T_Void, [T_LdsResource, T_U32, T_U16, T_U1])"
| "meta_shared_op WriteSharedU32 = (T_Void, [T_LdsResource, T_U32, T_U32, T_U1])"
| "meta_shared_op LoadGdsU8 = (T_U8, [T_GdsResource, T_U32, T_U1])"
| "meta_shared_op LoadGdsU16 = (T_U16, [T_GdsResource, T_U32, T_U1])"
| "meta_shared_op LoadGdsU32 = (T_U32, [T_GdsResource, T_U32, T_U1])"
| "meta_shared_op WriteGdsU8 = (T_Void, [T_GdsResource, T_U32, T_U8, T_U1])"
| "meta_shared_op WriteGdsU16 = (T_Void, [T_GdsResource, T_U32, T_U16, T_U1])"
| "meta_shared_op WriteGdsU32 = (T_Void, [T_GdsResource, T_U32, T_U32, T_U1])"
| "meta_shared_op SharedAtomicFMin32 = (T_Void, [T_LdsResource, T_U32, T_U32, T_U32, T_U1])"
| "meta_shared_op SharedAtomicFMax32 = (T_Void, [T_LdsResource, T_U32, T_U32, T_U32, T_U1])"
| "meta_shared_op GdsAtomicFMin32 = (T_Void, [T_GdsResource, T_U32, T_U32, T_U32, T_U1])"
| "meta_shared_op GdsAtomicFMax32 = (T_Void, [T_GdsResource, T_U32, T_U32, T_U32, T_U1])"
| "meta_shared_op SharedAtomicSwap32 = (T_U32, [T_LdsResource, T_U32, T_U32, T_U1])"
| "meta_shared_op SharedAtomicIAdd32 = (T_U32, [T_LdsResource, T_U32, T_U32, T_U1])"
| "meta_shared_op SharedAtomicISub32 = (T_U32, [T_LdsResource, T_U32, T_U32, T_U1])"
| "meta_shared_op SharedAtomicSMin32 = (T_U32, [T_LdsResource, T_U32, T_U32, T_U1])"
| "meta_shared_op SharedAtomicUMin32 = (T_U32, [T_LdsResource, T_U32, T_U32, T_U1])"
| "meta_shared_op SharedAtomicSMax32 = (T_U32, [T_LdsResource, T_U32, T_U32, T_U1])"
| "meta_shared_op SharedAtomicUMax32 = (T_U32, [T_LdsResource, T_U32, T_U32, T_U1])"
| "meta_shared_op SharedAtomicAnd32 = (T_U32, [T_LdsResource, T_U32, T_U32, T_U1])"
| "meta_shared_op SharedAtomicOr32 = (T_U32, [T_LdsResource, T_U32, T_U32, T_U1])"
| "meta_shared_op SharedAtomicXor32 = (T_U32, [T_LdsResource, T_U32, T_U32, T_U1])"
| "meta_shared_op GdsAtomicSwap32 = (T_U32, [T_GdsResource, T_U32, T_U32, T_U1])"
| "meta_shared_op GdsAtomicIAdd32 = (T_U32, [T_GdsResource, T_U32, T_U32, T_U1])"
| "meta_shared_op GdsAtomicISub32 = (T_U32, [T_GdsResource, T_U32, T_U32, T_U1])"
| "meta_shared_op GdsAtomicSMin32 = (T_U32, [T_GdsResource, T_U32, T_U32, T_U1])"
| "meta_shared_op GdsAtomicUMin32 = (T_U32, [T_GdsResource, T_U32, T_U32, T_U1])"
| "meta_shared_op GdsAtomicSMax32 = (T_U32, [T_GdsResource, T_U32, T_U32, T_U1])"
| "meta_shared_op GdsAtomicUMax32 = (T_U32, [T_GdsResource, T_U32, T_U32, T_U1])"
| "meta_shared_op GdsAtomicAnd32 = (T_U32, [T_GdsResource, T_U32, T_U32, T_U1])"
| "meta_shared_op GdsAtomicOr32 = (T_U32, [T_GdsResource, T_U32, T_U32, T_U1])"
| "meta_shared_op GdsAtomicXor32 = (T_U32, [T_GdsResource, T_U32, T_U32, T_U1])"
| "meta_shared_op DataAppend = (T_U32, [T_LdsResource, T_U32, T_U1, T_U32, T_U32])"
| "meta_shared_op DataConsume = (T_U32, [T_LdsResource, T_U32, T_U1, T_U32, T_U32])"
| "meta_shared_op GdsDataAppend = (T_U32, [T_GdsResource, T_U32, T_U1, T_U32, T_U32])"
| "meta_shared_op GdsDataConsume = (T_U32, [T_GdsResource, T_U32, T_U1, T_U32, T_U32])"
| "meta_shared_op SwizzleU32 = (T_U32, [T_U32, T_U32, T_U1])"

primrec meta_image_op :: "image_op \<Rightarrow> ir_type \<times> ir_type list" where
  "meta_image_op ImageQueryDimensions = (T_U32x4, [T_ImageResource, T_ImageAddress])"
| "meta_image_op ImageQueryLod = (T_U32x4, [T_ImageResource, T_SamplerResource, T_ImageAddress])"
| "meta_image_op ImageRead = (T_U32x4, [T_ImageResource, T_ImageAddress, T_U1])"
| "meta_image_op ImageWrite = (T_Void, [T_ImageResource, T_ImageAddress, T_U32x4, T_U1])"
| "meta_image_op ImageSampleRaw = (T_U32x4, [T_ImageResource, T_SamplerResource, T_ImageAddress])"
| "meta_image_op ImageGatherRaw = (T_U32x4, [T_ImageResource, T_SamplerResource, T_ImageAddress])"
| "meta_image_op ImageAtomicIAdd32 = (T_U32, [T_ImageResource, T_ImageAddress, T_U32, T_U1])"
| "meta_image_op ImageAtomicUMin32 = (T_U32, [T_ImageResource, T_ImageAddress, T_U32, T_U1])"
| "meta_image_op ImageAtomicUMax32 = (T_U32, [T_ImageResource, T_ImageAddress, T_U32, T_U1])"
| "meta_image_op ImageAtomicAnd32 = (T_U32, [T_ImageResource, T_ImageAddress, T_U32, T_U1])"
| "meta_image_op ImageAtomicOr32 = (T_U32, [T_ImageResource, T_ImageAddress, T_U32, T_U1])"
| "meta_image_op ImageAtomicXor32 = (T_U32, [T_ImageResource, T_ImageAddress, T_U32, T_U1])"
| "meta_image_op GetAttribute = (T_U32, [T_U32, T_U32])"
| "meta_image_op SetAttribute = (T_Void, [T_U32x4, T_U1])"

primrec meta_control_op :: "control_op \<Rightarrow> ir_type \<times> ir_type list" where
  "meta_control_op ControlNop = (T_Void, [])"
| "meta_control_op Waitcnt = (T_Void, [])"
| "meta_control_op Barrier = (T_Void, [])"
| "meta_control_op Sendmsg = (T_Void, [])"
| "meta_control_op TtraceData = (T_Void, [])"
| "meta_control_op InstPrefetch = (T_Void, [])"
| "meta_control_op SelectU32 = (T_U32, [T_U1, T_U32, T_U32])"

primrec MetaTable :: "value_opcode \<Rightarrow> ir_type \<times> ir_type list" where
  "MetaTable (Base x) = meta_base_op x"
| "MetaTable (Regs x) = meta_reg_op x"
| "MetaTable (Cast x) = meta_cast_op x"
| "MetaTable (Modifier x) = meta_modifier_op x"
| "MetaTable (Alu x) = meta_alu_op x"
| "MetaTable (Compare x) = meta_compare_op x"
| "MetaTable (Fp x) = meta_fp_op x"
| "MetaTable (Lane x) = meta_lane_op x"
| "MetaTable (Memory x) = meta_memory_op x"
| "MetaTable (Shared x) = meta_shared_op x"
| "MetaTable (Image x) = meta_image_op x"
| "MetaTable (Control x) = meta_control_op x"

definition TypeOf :: "value_opcode \<Rightarrow> ir_type" where
  "TypeOf opcode = fst (MetaTable opcode)"

definition NumArgsOf :: "value_opcode \<Rightarrow> nat" where
  "NumArgsOf opcode = length (snd (MetaTable opcode))"

text \<open>The argument types fill an array of 16 entries; \<open>at\<close> throws beyond it.\<close>

definition ArgTypeOf :: "value_opcode \<Rightarrow> nat \<Rightarrow> ir_type outcome" where
  "ArgTypeOf opcode index =
     (let args = snd (MetaTable opcode) in
      if index < length args then Ret (args ! index) else if index < 16 then Ret T_Void else Exit)"

definition HasSideEffects :: "value_opcode \<Rightarrow> bool" where
  "HasSideEffects opcode = (case opcode of
       Base x \<Rightarrow> x \<in> {Reference, ReferenceU32}
     | Regs x \<Rightarrow> x \<in> {Prologue, Epilogue}
     | Memory x \<Rightarrow> x \<in> {StoreAddressU8, StoreAddressU16, StoreAddressU32, StoreBufferU8, StoreBufferU16, StoreBufferU32,
          BufferAtomicSwap32, BufferAtomicIAdd32, BufferAtomicISub32, BufferAtomicSMin32, BufferAtomicUMin32,
          BufferAtomicSMax32, BufferAtomicUMax32, BufferAtomicAnd32, BufferAtomicOr32, BufferAtomicXor32,
          BufferAtomicFMin32, BufferAtomicFMax32}
     | Shared x \<Rightarrow> x \<in> {WriteSharedU8, WriteSharedU16, WriteSharedU32, WriteGdsU8, WriteGdsU16, WriteGdsU32,
          SharedAtomicFMin32, SharedAtomicFMax32, GdsAtomicFMin32, GdsAtomicFMax32, SharedAtomicSwap32,
          SharedAtomicIAdd32, SharedAtomicISub32, SharedAtomicSMin32, SharedAtomicUMin32, SharedAtomicSMax32,
          SharedAtomicUMax32, SharedAtomicAnd32, SharedAtomicOr32, SharedAtomicXor32, GdsAtomicSwap32,
          GdsAtomicIAdd32, GdsAtomicISub32, GdsAtomicSMin32, GdsAtomicUMin32, GdsAtomicSMax32,
          GdsAtomicUMax32, GdsAtomicAnd32, GdsAtomicOr32, GdsAtomicXor32, DataAppend, DataConsume,
          GdsDataAppend, GdsDataConsume}
     | Image x \<Rightarrow> x \<in> {ImageAtomicIAdd32, ImageAtomicUMin32, ImageAtomicUMax32, ImageAtomicAnd32, ImageAtomicOr32,
          ImageAtomicXor32, ImageWrite, SetAttribute}
     | Control x \<Rightarrow> x \<in> {Barrier}
     | _ \<Rightarrow> False)"

text \<open>
  The sentinel \<open>std::numeric_limits<size_t>::max()\<close> stands for any number of arguments.  No
  operation has it, not even a phi, whose row of the table has no arguments.
\<close>

definition variadic :: "value_opcode \<Rightarrow> bool" where
  "variadic opcode \<longleftrightarrow> (of_nat (NumArgsOf opcode) :: u64) = - 1"

lemma NumArgsOf_le: "NumArgsOf opcode \<le> 16"
proof (cases opcode)
  case (Base x)
  then show ?thesis by (cases x) (simp_all add: NumArgsOf_def)
next
  case (Regs x)
  then show ?thesis by (cases x) (simp_all add: NumArgsOf_def)
next
  case (Cast x)
  then show ?thesis by (cases x) (simp_all add: NumArgsOf_def)
next
  case (Modifier x)
  then show ?thesis by (cases x) (simp_all add: NumArgsOf_def)
next
  case (Alu x)
  then show ?thesis by (cases x) (simp_all add: NumArgsOf_def)
next
  case (Compare x)
  then show ?thesis by (cases x) (simp_all add: NumArgsOf_def)
next
  case (Fp x)
  then show ?thesis by (cases x) (simp_all add: NumArgsOf_def)
next
  case (Lane x)
  then show ?thesis by (cases x) (simp_all add: NumArgsOf_def)
next
  case (Memory x)
  then show ?thesis by (cases x) (simp_all add: NumArgsOf_def)
next
  case (Shared x)
  then show ?thesis by (cases x) (simp_all add: NumArgsOf_def)
next
  case (Image x)
  then show ?thesis by (cases x) (simp_all add: NumArgsOf_def)
next
  case (Control x)
  then show ?thesis by (cases x) (simp_all add: NumArgsOf_def)
qed

lemma not_variadic [simp, code]: "variadic opcode = False"
proof -
  have False if "(of_nat (NumArgsOf opcode) :: u64) = - 1"
  proof -
    have "bit (of_nat (NumArgsOf opcode) :: u64) 63" using that by simp
    then have "bit (NumArgsOf opcode) 63" by transfer (simp add: bit_simps)
    moreover have "NumArgsOf opcode div 2 ^ 63 = 0" using NumArgsOf_le [of opcode] by simp
    ultimately show False by (simp only: bit_iff_odd) simp
  qed
  then show ?thesis unfolding variadic_def by blast
qed

end
