(* ===== verification/ShaderValues.thy ===== *)
theory ShaderValues
  imports ShaderTypes
begin

text \<open>
  Values, instructions and blocks of the shader recompiler's intermediate representation:
  \<open>Value.h\<close>, \<open>Value.cpp\<close>, \<open>Block.h\<close>, \<open>Block.cpp\<close> and \<open>IREmitter.cpp\<close> under
  \<open>src/graphics/shader/recompiler/ir\<close>.  Instructions live in an explicit store, since
  the source links them by pointers in both directions: an instruction names the instructions
  it uses in its arguments, and each of those lists its users.
\<close>

section \<open>Values\<close>

text \<open>
  \<open>VInst\<close> holds the position of an instruction in the store, where the source has a pointer;
  \<open>VF16\<close> and \<open>VF32\<close> hold the bits of the number.
\<close>

datatype ir_value =
    VVoid
  | VInst nat
  | VScalarReg u16
  | VVectorReg u16
  | VU1 bool
  | VU8 u8
  | VU16 u16
  | VU32 u32
  | VU64 u64
  | VF16 u16
  | VF32 u32

text \<open>The member \<open>type\<close> of a value.\<close>

primrec value_tag :: "ir_value \<Rightarrow> ir_type" where
  "value_tag VVoid = T_Void"
| "value_tag (VInst i) = T_Opaque"
| "value_tag (VScalarReg r) = T_ScalarReg"
| "value_tag (VVectorReg r) = T_VectorReg"
| "value_tag (VU1 b) = T_U1"
| "value_tag (VU8 x) = T_U8"
| "value_tag (VU16 x) = T_U16"
| "value_tag (VU32 x) = T_U32"
| "value_tag (VU64 x) = T_U64"
| "value_tag (VF16 x) = T_F16"
| "value_tag (VF32 x) = T_F32"

definition Value_IsEmpty :: "ir_value \<Rightarrow> bool" where
  "Value_IsEmpty v \<longleftrightarrow> value_tag v = T_Void"

definition Value_IsImmediate :: "ir_value \<Rightarrow> bool" where
  "Value_IsImmediate v \<longleftrightarrow> value_tag v \<noteq> T_Opaque"

fun TryInstruction :: "ir_value \<Rightarrow> nat option" where
  "TryInstruction (VInst i) = Some i"
| "TryInstruction v = None"

fun Value_U32 :: "ir_value \<Rightarrow> u32 outcome" where
  "Value_U32 (VU32 x) = Ret x"
| "Value_U32 v = Exit"

section \<open>The store\<close>

text \<open>A use names the user and the number of its argument.\<close>

record ir_inst =
  n_opcode :: value_opcode
  n_flags :: u64
  n_parent :: "nat option"
  n_args :: "ir_value list"
  n_phi_blocks :: "nat list"
  n_uses :: "(nat \<times> nat) list"

record ir_block =
  b_insts :: "nat list"
  b_preds :: "nat list"
  b_succs :: "nat list"
  b_sealed :: bool

text \<open>An erased instruction leaves \<open>None\<close> behind; following a pointer to it is undefined.\<close>

record ir_store =
  st_insts :: "ir_inst option list"
  st_blocks :: "ir_block list"

definition inst_at :: "ir_store \<Rightarrow> nat \<Rightarrow> ir_inst option" where
  "inst_at st i = (if i < length (st_insts st) then st_insts st ! i else None)"

definition get_inst :: "ir_store \<Rightarrow> nat \<Rightarrow> ir_inst outcome" where
  "get_inst st i = (case inst_at st i of None \<Rightarrow> Undef | Some n \<Rightarrow> Ret n)"

definition put_inst :: "nat \<Rightarrow> ir_inst \<Rightarrow> ir_store \<Rightarrow> ir_store" where
  "put_inst i n st = st\<lparr>st_insts := (st_insts st)[i := Some n]\<rparr>"

definition get_block :: "ir_store \<Rightarrow> nat \<Rightarrow> ir_block outcome" where
  "get_block st b = (if b < length (st_blocks st) then Ret (st_blocks st ! b) else Undef)"

definition put_block :: "nat \<Rightarrow> ir_block \<Rightarrow> ir_store \<Rightarrow> ir_store" where
  "put_block b x st = st\<lparr>st_blocks := (st_blocks st)[b := x]\<rparr>"

definition Inst_Arg :: "ir_inst \<Rightarrow> nat \<Rightarrow> ir_value outcome" where
  "Inst_Arg n index = (if index \<ge> length (n_args n) then Exit else Ret (n_args n ! index))"

definition Inst_PhiBlock :: "ir_inst \<Rightarrow> nat \<Rightarrow> nat outcome" where
  "Inst_PhiBlock n index =
     (if n_opcode n \<noteq> Base Phi \<or> index \<ge> length (n_phi_blocks n) then Exit else Ret (n_phi_blocks n ! index))"

definition Inst_HasUses :: "ir_inst \<Rightarrow> bool" where
  "Inst_HasUses n \<longleftrightarrow> n_uses n \<noteq> []"

definition Inst_MayHaveSideEffects :: "ir_inst \<Rightarrow> bool" where
  "Inst_MayHaveSideEffects n \<longleftrightarrow> HasSideEffects (n_opcode n)"

text \<open>
  \<open>Resolve\<close> and \<open>GetType\<close> follow a chain of \<open>Identity\<close> instructions.  The fuel is one more
  than the number of instructions: a longer chain visits an instruction twice and never ends.
\<close>

fun Resolve_fuel :: "nat \<Rightarrow> ir_store \<Rightarrow> ir_value \<Rightarrow> ir_value outcome" where
  "Resolve_fuel 0 st v = Undef"
| "Resolve_fuel (Suc f) st v =
     (case v of
        VInst i \<Rightarrow> obind (get_inst st i) (\<lambda>n.
          if n_opcode n = Base Identity then obind (Inst_Arg n 0) (Resolve_fuel f st) else Ret v)
      | _ \<Rightarrow> Ret v)"

definition Resolve :: "ir_store \<Rightarrow> ir_value \<Rightarrow> ir_value outcome" where
  "Resolve st v = Resolve_fuel (Suc (length (st_insts st))) st v"

fun GetType_fuel :: "nat \<Rightarrow> ir_store \<Rightarrow> ir_value \<Rightarrow> ir_type outcome" where
  "GetType_fuel 0 st v = Undef"
| "GetType_fuel (Suc f) st v =
     (case v of
        VInst i \<Rightarrow> obind (get_inst st i) (\<lambda>n.
          if n_opcode n = Base Phi then Ret (ucast (n_flags n))
          else if n_opcode n = Base Identity then obind (Inst_Arg n 0) (GetType_fuel f st)
          else Ret (TypeOf (n_opcode n)))
      | _ \<Rightarrow> Ret (value_tag v))"

definition Value_GetType :: "ir_store \<Rightarrow> ir_value \<Rightarrow> ir_type outcome" where
  "Value_GetType st v = GetType_fuel (Suc (length (st_insts st))) st v"

definition Inst_GetType :: "ir_store \<Rightarrow> ir_inst \<Rightarrow> ir_type outcome" where
  "Inst_GetType st n =
     (if n_opcode n = Base Phi then Ret (ucast (n_flags n))
      else if n_opcode n = Base Identity \<and> n_args n \<noteq> [] then Value_GetType st (hd (n_args n))
      else Ret (TypeOf (n_opcode n)))"

section \<open>Editing the graph\<close>

text \<open>\<open>std::vector::resize\<close>.\<close>

definition resize_args :: "nat \<Rightarrow> ir_value list \<Rightarrow> ir_value list" where
  "resize_args k xs = take k xs @ replicate (k - length xs) VVoid"

definition Inst_new :: "value_opcode \<Rightarrow> u64 \<Rightarrow> ir_inst" where
  "Inst_new opcode flags =
     \<lparr>n_opcode = opcode, n_flags = flags, n_parent = None,
      n_args = (if \<not> variadic opcode then resize_args (NumArgsOf opcode) [] else []),
      n_phi_blocks = [], n_uses = []\<rparr>"

definition AddUse :: "nat \<Rightarrow> nat \<Rightarrow> nat \<Rightarrow> ir_store \<Rightarrow> ir_store outcome" where
  "AddUse this used operand st = obind (get_inst st used) (\<lambda>u.
     if (this, operand) \<in> set (n_uses u) then Exit
     else Ret (put_inst used (u\<lparr>n_uses := n_uses u @ [(this, operand)]\<rparr>) st))"

definition RemoveUse :: "nat \<Rightarrow> nat \<Rightarrow> nat \<Rightarrow> ir_store \<Rightarrow> ir_store outcome" where
  "RemoveUse this used operand st = obind (get_inst st used) (\<lambda>u.
     if (this, operand) \<notin> set (n_uses u) then Exit
     else Ret (put_inst used (u\<lparr>n_uses := remove1 (this, operand) (n_uses u)\<rparr>) st))"

definition link_use :: "nat \<Rightarrow> ir_value \<Rightarrow> nat \<Rightarrow> ir_store \<Rightarrow> ir_store outcome" where
  "link_use this v operand st = (case TryInstruction v of Some d \<Rightarrow> AddUse this d operand st | None \<Rightarrow> Ret st)"

definition unlink_use :: "nat \<Rightarrow> ir_value \<Rightarrow> nat \<Rightarrow> ir_store \<Rightarrow> ir_store outcome" where
  "unlink_use this v operand st = (case TryInstruction v of Some d \<Rightarrow> RemoveUse this d operand st | None \<Rightarrow> Ret st)"

definition set_args :: "nat \<Rightarrow> ir_value list \<Rightarrow> ir_store \<Rightarrow> ir_store outcome" where
  "set_args this xs st = omap (\<lambda>n. put_inst this (n\<lparr>n_args := xs\<rparr>) st) (get_inst st this)"

definition SetArg :: "nat \<Rightarrow> nat \<Rightarrow> ir_value \<Rightarrow> ir_store \<Rightarrow> ir_store outcome" where
  "SetArg this index v st = obind (get_inst st this) (\<lambda>n.
     if index \<ge> length (n_args n) \<and> \<not> variadic (n_opcode n) then Exit
     else let xs = (if index \<ge> length (n_args n) then resize_args (index + 1) (n_args n) else n_args n) in
       obind (set_args this xs st) (\<lambda>st.
       obind (unlink_use this (xs ! index) index st) (\<lambda>st.
       obind (set_args this (xs[index := v]) st) (link_use this v index))))"

definition AddPhiOperand :: "nat \<Rightarrow> nat \<Rightarrow> ir_value \<Rightarrow> ir_store \<Rightarrow> ir_store outcome" where
  "AddPhiOperand this predecessor v st = obind (get_inst st this) (\<lambda>n.
     if n_opcode n \<noteq> Base Phi then Exit
     else link_use this v (length (n_args n))
       (put_inst this (n\<lparr>n_args := n_args n @ [v], n_phi_blocks := n_phi_blocks n @ [predecessor]\<rparr>) st))"

definition ClearArgs :: "nat \<Rightarrow> ir_store \<Rightarrow> ir_store outcome" where
  "ClearArgs this st = obind (get_inst st this) (\<lambda>n.
     obind (ofold (\<lambda>index. unlink_use this (n_args n ! index) index) [0..<length (n_args n)] st) (\<lambda>st.
       omap (\<lambda>n. put_inst this (n\<lparr>n_args := [], n_phi_blocks := []\<rparr>) st) (get_inst st this)))"

definition Invalidate :: "nat \<Rightarrow> ir_store \<Rightarrow> ir_store outcome" where
  "Invalidate this st = obind (ClearArgs this st) (\<lambda>st.
     omap (\<lambda>n. put_inst this (n\<lparr>n_opcode := Base Void\<rparr>) st) (get_inst st this))"

definition ReplaceOpcode :: "nat \<Rightarrow> value_opcode \<Rightarrow> ir_store \<Rightarrow> ir_store outcome" where
  "ReplaceOpcode this opcode st = obind (get_inst st this) (\<lambda>n.
     if variadic opcode then Ret (put_inst this (n\<lparr>n_opcode := opcode\<rparr>) st)
     else if n_args n \<noteq> [] \<and> length (n_args n) \<noteq> NumArgsOf opcode then Exit
     else Ret (put_inst this (n\<lparr>n_opcode := opcode, n_args := resize_args (NumArgsOf opcode) (n_args n)\<rparr>) st))"

definition ReplaceUsesWith :: "nat \<Rightarrow> ir_value \<Rightarrow> bool \<Rightarrow> ir_store \<Rightarrow> ir_store outcome" where
  "ReplaceUsesWith this replacement preserve st = obind (get_inst st this) (\<lambda>n.
     obind (ofold (\<lambda>(user, operand). SetArg user operand replacement) (n_uses n) st) (\<lambda>st.
     obind (Invalidate this st) (\<lambda>st.
       if preserve then
         obind (ReplaceOpcode this (Base Identity) st) (\<lambda>st.
         obind (get_inst st this) (\<lambda>n.
         obind (set_args this (resize_args 1 (n_args n)) st) (SetArg this 0 replacement)))
       else Ret st)))"

section \<open>Blocks\<close>

text \<open>
  \<open>PrependNewInst\<close> inserts before the position \<open>at\<close> of the block's list and returns the
  position of the new instruction in the store.
\<close>

definition PrependNewInst ::
  "nat \<Rightarrow> nat \<Rightarrow> value_opcode \<Rightarrow> ir_value list \<Rightarrow> u64 \<Rightarrow> ir_store \<Rightarrow> (nat \<times> ir_store) outcome" where
  "PrependNewInst block at opcode xs flags st = obind (get_block st block) (\<lambda>b.
     if \<not> variadic opcode \<and> NumArgsOf opcode \<noteq> length xs then Exit
     else let i = length (st_insts st);
            n = (Inst_new opcode flags)\<lparr>n_parent := Some block\<rparr>;
            st = put_block block (b\<lparr>b_insts := take at (b_insts b) @ i # drop at (b_insts b)\<rparr>)
              (st\<lparr>st_insts := st_insts st @ [Some n]\<rparr>) in
       omap (Pair i) (ofold (\<lambda>index. SetArg i index (xs ! index)) [0..<length xs] st))"

definition AppendNewInst ::
  "nat \<Rightarrow> value_opcode \<Rightarrow> ir_value list \<Rightarrow> u64 \<Rightarrow> ir_store \<Rightarrow> (nat \<times> ir_store) outcome" where
  "AppendNewInst block opcode xs flags st = obind (get_block st block) (\<lambda>b.
     PrependNewInst block (length (b_insts b)) opcode xs flags st)"

definition AddBranch :: "nat \<Rightarrow> nat \<Rightarrow> ir_store \<Rightarrow> ir_store outcome" where
  "AddBranch this block st = obind (get_block st this) (\<lambda>b. obind (get_block st block) (\<lambda>c.
     if block \<in> set (b_succs b) then Exit
     else if this \<in> set (b_preds c) then Exit
     else let st = put_block this (b\<lparr>b_succs := b_succs b @ [block]\<rparr>) st in
       omap (\<lambda>c. put_block block (c\<lparr>b_preds := b_preds c @ [this]\<rparr>) st) (get_block st block)))"

definition SsaSeal :: "nat \<Rightarrow> ir_store \<Rightarrow> ir_store outcome" where
  "SsaSeal this st = omap (\<lambda>b. put_block this (b\<lparr>b_sealed := True\<rparr>) st) (get_block st this)"

text \<open>Erasing an instruction from a block's list destroys it, which clears its arguments.\<close>

definition erase_inst :: "nat \<Rightarrow> nat \<Rightarrow> ir_store \<Rightarrow> ir_store outcome" where
  "erase_inst block i st = obind (ClearArgs i st) (\<lambda>st. obind (get_block st block) (\<lambda>b.
     Ret (put_block block (b\<lparr>b_insts := remove1 i (b_insts b)\<rparr>)
       (st\<lparr>st_insts := (st_insts st)[i := None]\<rparr>))))"

end
