(* ===== verification/ShaderGraph.thy ===== *)
theory ShaderGraph
  imports ShaderValues
begin

text \<open>
  The links between instructions: every operation that edits the value graph keeps the use
  lists in step with the arguments, so that the checks of \<open>AddUse\<close> and \<open>RemoveUse\<close> never end
  the process.  What an operation does is stated on the graph without the use lists.
\<close>

section \<open>The graph without its use lists\<close>

type_synonym ir_graph = "nat \<Rightarrow> ir_inst option"

definition core :: "ir_store \<Rightarrow> ir_graph" where
  "core st i = map_option (\<lambda>n. n\<lparr>n_uses := []\<rparr>) (inst_at st i)"

definition refs :: "ir_graph \<Rightarrow> (nat \<times> nat \<times> nat) set" where
  "refs g = {(i, k, d). \<exists>n. g i = Some n \<and> k < length (n_args n) \<and> n_args n ! k = VInst d}"

text \<open>\<open>links st R\<close>: the use lists hold exactly the uses of \<open>R\<close>, each once.\<close>

definition links :: "ir_store \<Rightarrow> (nat \<times> nat \<times> nat) set \<Rightarrow> bool" where
  "links st R \<longleftrightarrow>
     (\<forall>d u. inst_at st d = Some u \<longrightarrow> distinct (n_uses u) \<and> (\<forall>i k. (i, k) \<in> set (n_uses u) \<longleftrightarrow> (i, k, d) \<in> R)) \<and>
     (\<forall>i k d. (i, k, d) \<in> R \<longrightarrow> inst_at st d \<noteq> None)"

definition uses_ok :: "ir_store \<Rightarrow> bool" where
  "uses_ok st \<longleftrightarrow> links st (refs (core st))"

definition frame :: "ir_store \<Rightarrow> ir_store \<Rightarrow> bool" where
  "frame st st' \<longleftrightarrow> st_blocks st' = st_blocks st \<and> length (st_insts st') = length (st_insts st)"

lemma frame_refl [simp]: "frame st st"
  by (simp add: frame_def)

lemma frame_trans: "frame st st1 \<Longrightarrow> frame st1 st2 \<Longrightarrow> frame st st2"
  by (simp add: frame_def)

lemma inst_at_put [simp]:
  "inst_at (put_inst i n st) j = (if j = i \<and> i < length (st_insts st) then Some n else inst_at st j)"
  by (auto simp: inst_at_def put_inst_def)

lemma put_inst_simps [simp]: "st_blocks (put_inst i n st) = st_blocks st"
  "length (st_insts (put_inst i n st)) = length (st_insts st)" "frame st (put_inst i n st)"
  by (simp_all add: put_inst_def frame_def)

lemma inst_at_bound: "inst_at st i = Some n \<Longrightarrow> i < length (st_insts st)"
  by (simp add: inst_at_def split: if_splits)

lemma get_inst_Some: "inst_at st i = Some n \<Longrightarrow> get_inst st i = Ret n"
  by (simp add: get_inst_def)

lemma get_inst_Ret: "get_inst st i = Ret n \<longleftrightarrow> inst_at st i = Some n"
  by (simp add: get_inst_def split: option.splits)

lemma uses_upd_args: "n\<lparr>n_args := xs, n_uses := us\<rparr> = n\<lparr>n_uses := us, n_args := xs\<rparr>"
  by (cases n) simp

lemma core_Some: "core st i = Some m \<longleftrightarrow> (\<exists>n. inst_at st i = Some n \<and> m = n\<lparr>n_uses := []\<rparr>)"
  by (auto simp: core_def)

lemma core_None [simp]: "core st i = None \<longleftrightarrow> inst_at st i = None"
  by (simp add: core_def)

lemma core_put: "inst_at st i = Some m \<Longrightarrow> core (put_inst i n st) = (core st)(i \<mapsto> n\<lparr>n_uses := []\<rparr>)"
  by (auto simp: fun_eq_iff core_def dest: inst_at_bound)

lemma refs_core: "refs (core st) = refs (inst_at st)"
  by (auto simp: refs_def core_def)

section \<open>Adding and removing uses\<close>

text \<open>The use that an argument makes.\<close>

definition arg_refs :: "nat \<Rightarrow> nat \<Rightarrow> ir_value \<Rightarrow> (nat \<times> nat \<times> nat) set" where
  "arg_refs i k v = (case v of VInst d \<Rightarrow> {(i, k, d)} | _ \<Rightarrow> {})"

definition live_value :: "ir_store \<Rightarrow> ir_value \<Rightarrow> bool" where
  "live_value st v \<longleftrightarrow> (case v of VInst d \<Rightarrow> inst_at st d \<noteq> None | _ \<Rightarrow> True)"

lemma links_put:
  assumes "links st R" "inst_at st i = Some m" "n_uses n = n_uses m"
  shows "links (put_inst i n st) R"
  using assms inst_at_bound [OF assms(2)] by (auto simp: links_def)

lemma AddUse_ok:
  assumes "links st R" "inst_at st d \<noteq> None" "(i, k, d) \<notin> R"
  shows "\<exists>st'. AddUse i d k st = Ret st' \<and> links st' (insert (i, k, d) R) \<and> core st' = core st \<and> frame st st'"
proof -
  obtain u where u: "inst_at st d = Some u" using assms(2) by auto
  note b = inst_at_bound [OF u]
  have n: "(i, k) \<notin> set (n_uses u)" using assms u by (auto simp: links_def)
  let ?st = "put_inst d (u\<lparr>n_uses := n_uses u @ [(i, k)]\<rparr>) st"
  have "links ?st (insert (i, k, d) R)" using assms u b n by (auto simp: links_def)
  moreover have "core ?st = core st" using b u by (auto simp: fun_eq_iff core_def)
  ultimately show ?thesis using n by (auto simp: AddUse_def get_inst_Some [OF u])
qed

lemma RemoveUse_ok:
  assumes "links st R" "(i, k, d) \<in> R"
  shows "\<exists>st'. RemoveUse i d k st = Ret st' \<and> links st' (R - {(i, k, d)}) \<and> core st' = core st \<and> frame st st'"
proof -
  obtain u where u: "inst_at st d = Some u" using assms by (fastforce simp: links_def)
  note b = inst_at_bound [OF u]
  have n: "(i, k) \<in> set (n_uses u)" "distinct (n_uses u)" using assms u by (auto simp: links_def)
  let ?st = "put_inst d (u\<lparr>n_uses := remove1 (i, k) (n_uses u)\<rparr>) st"
  have "links ?st (R - {(i, k, d)})" using assms u b n by (auto simp: links_def)
  moreover have "core ?st = core st" using b u by (auto simp: fun_eq_iff core_def)
  ultimately show ?thesis using n by (auto simp: RemoveUse_def get_inst_Some [OF u])
qed

lemma link_use_ok:
  assumes "links st R" "live_value st v" "arg_refs i k v \<inter> R = {}"
  shows "\<exists>st'. link_use i v k st = Ret st' \<and> links st' (R \<union> arg_refs i k v) \<and> core st' = core st \<and> frame st st'"
proof (cases v)
  case (VInst d)
  with assms AddUse_ok [of st R d i k] show ?thesis by (auto simp: link_use_def arg_refs_def live_value_def)
qed (use assms in \<open>auto simp: link_use_def arg_refs_def\<close>)

lemma unlink_use_ok:
  assumes "links st R" "arg_refs i k v \<subseteq> R"
  shows "\<exists>st'. unlink_use i v k st = Ret st' \<and> links st' (R - arg_refs i k v) \<and> core st' = core st \<and> frame st st'"
proof (cases v)
  case (VInst d)
  with assms RemoveUse_ok [of st R i k d] show ?thesis by (auto simp: unlink_use_def arg_refs_def)
qed (use assms in \<open>auto simp: unlink_use_def arg_refs_def\<close>)

lemma set_args_ok:
  assumes "links st R" "core st i = Some n"
  shows "\<exists>st'. set_args i xs st = Ret st' \<and> links st' R \<and> core st' = (core st)(i \<mapsto> n\<lparr>n_args := xs\<rparr>) \<and> frame st st'"
proof -
  obtain m where m: "inst_at st i = Some m" "n = m\<lparr>n_uses := []\<rparr>" using assms(2) by (auto simp: core_Some)
  have "set_args i xs st = Ret (put_inst i (m\<lparr>n_args := xs\<rparr>) st)" by (simp add: set_args_def get_inst_Some [OF m(1)])
  then show ?thesis using links_put [OF assms(1) m(1), of "m\<lparr>n_args := xs\<rparr>"] by (simp add: core_put [OF m(1)] m(2) uses_upd_args)
qed

lemma inst_at_core: "core st' = core st \<Longrightarrow> inst_at st' i = None \<longleftrightarrow> inst_at st i = None"
  by (metis core_None)

lemma live_value_core: "(\<And>i. core st' i = None \<longleftrightarrow> core st i = None) \<Longrightarrow> live_value st' v \<longleftrightarrow> live_value st v"
  by (simp add: live_value_def split: ir_value.split)

lemma live_value_upd:
  assumes "live_value st v" "core st i = Some n" "core st' = (core st)(i \<mapsto> m)"
  shows "live_value st' v"
proof -
  have "core st' j = None \<longleftrightarrow> core st j = None" for j unfolding assms(3) using assms(2) by (metis fun_upd_apply option.distinct(1))
  then show ?thesis using assms(1) live_value_core by blast
qed

lemma refs_upd_arg:
  assumes "g i = Some n" "k < length (n_args n)"
  shows "refs (g(i \<mapsto> n\<lparr>n_args := (n_args n)[k := v]\<rparr>)) = refs g - arg_refs i k (n_args n ! k) \<union> arg_refs i k v"
  using assms by (auto simp: refs_def arg_refs_def nth_list_update split: ir_value.splits if_splits)

lemma arg_refs_refs: "g i = Some n \<Longrightarrow> k < length (n_args n) \<Longrightarrow> arg_refs i k (n_args n ! k) \<subseteq> refs g"
  by (auto simp: refs_def arg_refs_def split: ir_value.splits)

text \<open>\<open>SetArg\<close> for an argument that exists; the other case is the process ending.\<close>

lemma SetArg_ok:
  assumes "uses_ok st" "core st i = Some n" "k < length (n_args n)" "live_value st v"
  shows "\<exists>st'. SetArg i k v st = Ret st' \<and> uses_ok st' \<and> core st' = (core st)(i \<mapsto> n\<lparr>n_args := (n_args n)[k := v]\<rparr>) \<and> frame st st'"
proof -
  let ?R = "refs (core st)" and ?old = "n_args n ! k"
  obtain m where m: "inst_at st i = Some m" "n = m\<lparr>n_uses := []\<rparr>" using assms(2) by (auto simp: core_Some)
  obtain s1 where s1: "set_args i (n_args n) st = Ret s1" "links s1 ?R" "core s1 = core st" "frame st s1"
    using set_args_ok [OF assms(1) [unfolded uses_ok_def] assms(2), of "n_args n"] fun_upd_triv [of "core st" i] assms(2) by auto
  obtain s2 where s2: "unlink_use i ?old k s1 = Ret s2" "links s2 (?R - arg_refs i k ?old)" "core s2 = core st" "frame s1 s2"
    using unlink_use_ok [OF s1(2) arg_refs_refs [where g = "core st", OF assms(2,3)]] s1(3) by auto
  obtain s3 where s3: "set_args i ((n_args n)[k := v]) s2 = Ret s3" "links s3 (?R - arg_refs i k ?old)"
      "core s3 = (core st)(i \<mapsto> n\<lparr>n_args := (n_args n)[k := v]\<rparr>)" "frame s2 s3"
    using set_args_ok [OF s2(2), of i n] s2(3) assms(2) by auto
  note live_value_upd [OF assms(4,2) s3(3)]
  moreover have "arg_refs i k v \<inter> (?R - arg_refs i k ?old) = {}"
    using assms(2) by (auto simp: refs_def arg_refs_def split: ir_value.splits)
  ultimately obtain s4 where s4: "link_use i v k s3 = Ret s4" "links s4 (?R - arg_refs i k ?old \<union> arg_refs i k v)"
      "core s4 = core s3" "frame s3 s4" using link_use_ok [OF s3(2)] by blast
  have "SetArg i k v st = Ret s4"
    using assms(3) s1(1) s2(1) s3(1) s4(1) by (simp add: SetArg_def get_inst_Some [OF m(1)] m(2))
  moreover have "uses_ok s4" using s4(2,3) s3(3) refs_upd_arg [of "core st" i n k v] assms(2,3) by (simp add: uses_ok_def)
  moreover have "frame st s4" using s1(4) s2(4) s3(4) s4(4) frame_trans by blast
  ultimately show ?thesis using s3(3) s4(3) by auto
qed

lemma SetArg_Exit: "core st i = Some n \<Longrightarrow> length (n_args n) \<le> k \<Longrightarrow> SetArg i k v st = Exit"
  by (auto simp: SetArg_def get_inst_Some core_Some)

section \<open>Replacing the uses of an instruction\<close>

definition subst_value :: "nat \<Rightarrow> ir_value \<Rightarrow> ir_value \<Rightarrow> ir_value" where
  "subst_value i v a = (if a = VInst i then v else a)"

definition subst_inst :: "nat \<Rightarrow> ir_value \<Rightarrow> ir_inst \<Rightarrow> ir_inst" where
  "subst_inst i v n = n\<lparr>n_args := map (subst_value i v) (n_args n)\<rparr>"

text \<open>The graph in which the uses of \<open>P\<close> name \<open>v\<close>.\<close>

definition subst_at :: "(nat \<times> nat) set \<Rightarrow> ir_value \<Rightarrow> ir_graph \<Rightarrow> ir_graph" where
  "subst_at P v g j = map_option (\<lambda>n. n\<lparr>n_args :=
     map (\<lambda>k. if (j, k) \<in> P then v else n_args n ! k) [0..<length (n_args n)]\<rparr>) (g j)"

lemma subst_at_empty [simp]: "subst_at {} v g = g"
  by (auto simp: fun_eq_iff subst_at_def map_nth option.map_ident intro: option.map_ident_strong)

lemma subst_at_insert:
  assumes "subst_at P v g i = Some n" "k < length (n_args n)"
  shows "(subst_at P v g)(i \<mapsto> n\<lparr>n_args := (n_args n)[k := v]\<rparr>) = subst_at (insert (i, k) P) v g"
proof
  fix j
  show "((subst_at P v g)(i \<mapsto> n\<lparr>n_args := (n_args n)[k := v]\<rparr>)) j = subst_at (insert (i, k) P) v g j"
  proof (cases "j = i")
    case True
    obtain z where z: "g i = Some z"
        "n = z\<lparr>n_args := map (\<lambda>k. if (i, k) \<in> P then v else n_args z ! k) [0..<length (n_args z)]\<rparr>"
      using assms(1) by (auto simp: subst_at_def)
    have "(n_args n)[k := v] = map (\<lambda>ka. if (i, ka) \<in> insert (i, k) P then v else n_args z ! ka) [0..<length (n_args z)]"
      using assms(2) by (auto simp: z(2) nth_list_update intro!: nth_equalityI)
    with True show ?thesis by (simp add: subst_at_def z)
  next
    case False
    then show ?thesis by (auto simp: subst_at_def intro!: option.map_cong)
  qed
qed

lemma set_uses_ok:
  assumes "uses_ok st" "live_value st v" "\<forall>(u, k) \<in> set us. \<exists>n. core st u = Some n \<and> k < length (n_args n)"
    "core st = subst_at P v g"
  shows "\<exists>st'. ofold (\<lambda>(user, operand). SetArg user operand v) us st = Ret st' \<and> uses_ok st' \<and>
    core st' = subst_at (P \<union> set us) v g \<and> frame st st'"
  using assms
proof (induction us arbitrary: st P)
  case Nil
  then show ?case by auto
next
  case (Cons x us)
  obtain u k where x: "x = (u, k)" by (cases x)
  obtain n where n: "core st u = Some n" "k < length (n_args n)" using Cons.prems(3) x by auto
  obtain s1 where s1: "SetArg u k v st = Ret s1" "uses_ok s1"
      "core s1 = (core st)(u \<mapsto> n\<lparr>n_args := (n_args n)[k := v]\<rparr>)" "frame st s1"
    using SetArg_ok [OF Cons.prems(1) n Cons.prems(2)] by blast
  have c: "core s1 = subst_at (insert (u, k) P) v g"
    using s1(3) n Cons.prems(4) subst_at_insert [of P v g u n k] by simp
  note live_value_upd [OF Cons.prems(2) n(1) s1(3)]
  moreover have "\<forall>(u, k) \<in> set us. \<exists>n. core s1 u = Some n \<and> k < length (n_args n)"
    using Cons.prems(3) s1(3) n by fastforce
  ultimately obtain s2 where "ofold (\<lambda>(user, operand). SetArg user operand v) us s1 = Ret s2" "uses_ok s2"
      "core s2 = subst_at (insert (u, k) P \<union> set us) v g" "frame s1 s2"
    using Cons.IH [OF s1(2) _ _ c] by blast
  then show ?case using s1(1,4) x frame_trans by auto
qed

lemma subst_at_all:
  assumes "P = {(j, k). (j, k, i) \<in> refs g}"
  shows "subst_at P v g = (\<lambda>j. map_option (subst_inst i v) (g j))"
proof
  fix j
  show "subst_at P v g j = map_option (subst_inst i v) (g j)"
    using assms by (cases "g j")
      (auto simp: subst_at_def subst_inst_def subst_value_def refs_def intro!: arg_cong [of _ _ "\<lambda>xs. _\<lparr>n_args := xs\<rparr>"] nth_equalityI)
qed

section \<open>Clearing the arguments\<close>

lemma unlink_all_ok:
  assumes "links st R" "core st i = Some n" "a \<le> length (n_args n)"
    "R = refs g - (\<Union>k < a. arg_refs i k (n_args n ! k))" "g i = Some n"
  shows "\<exists>st'. ofold (\<lambda>index. unlink_use i (n_args n ! index) index) [a..<length (n_args n)] st = Ret st' \<and>
    links st' (refs g - (\<Union>k < length (n_args n). arg_refs i k (n_args n ! k))) \<and> core st' = core st \<and> frame st st'"
  using assms
proof (induction "length (n_args n) - a" arbitrary: a st R)
  case 0
  then show ?case by auto
next
  case (Suc x)
  then have a: "a < length (n_args n)" by simp
  have "arg_refs i a (n_args n ! a) \<subseteq> refs g" by (rule arg_refs_refs) (use Suc.prems(5) a in auto)
  moreover have "arg_refs i a (n_args n ! a) \<inter> (\<Union>k < a. arg_refs i k (n_args n ! k)) = {}"
    by (auto simp: arg_refs_def split: ir_value.splits)
  ultimately have "arg_refs i a (n_args n ! a) \<subseteq> R" using Suc.prems(4) by auto
  then obtain s1 where s1: "unlink_use i (n_args n ! a) a st = Ret s1" "links s1 (R - arg_refs i a (n_args n ! a))"
      "core s1 = core st" "frame st s1" using unlink_use_ok [OF Suc.prems(1)] by blast
  have "R - arg_refs i a (n_args n ! a) = refs g - (\<Union>k < Suc a. arg_refs i k (n_args n ! k))"
    using Suc.prems(4) by (auto simp: lessThan_Suc)
  moreover have "x = length (n_args n) - Suc a" using Suc.hyps(2) by simp
  ultimately obtain s2 where
    "ofold (\<lambda>index. unlink_use i (n_args n ! index) index) [Suc a..<length (n_args n)] s1 = Ret s2"
    "links s2 (refs g - (\<Union>k < length (n_args n). arg_refs i k (n_args n ! k)))" "core s2 = core st" "frame s1 s2"
    using Suc.hyps(1) [of "Suc a" s1 "R - arg_refs i a (n_args n ! a)"] Suc.prems a s1 by auto
  then show ?case using a s1(1,4) frame_trans by (auto simp: upt_conv_Cons)
qed

lemma refs_cleared:
  assumes "g i = Some n" "n_args m = []"
  shows "refs (g(i \<mapsto> m)) = refs g - (\<Union>k < length (n_args n). arg_refs i k (n_args n ! k))"
  using assms by (auto simp: refs_def arg_refs_def split: ir_value.splits if_splits)

lemma put_core:
  assumes "links st R" "core st i = Some n" "f = (\<lambda>m. h m)" "\<And>m. n_uses (h m) = n_uses m"
    "\<And>m us. (h m)\<lparr>n_uses := us\<rparr> = h (m\<lparr>n_uses := us\<rparr>)"
  shows "\<exists>st'. omap (\<lambda>m. put_inst i (f m) st) (get_inst st i) = Ret st' \<and> links st' R \<and>
    core st' = (core st)(i \<mapsto> h n) \<and> frame st st'"
proof -
  obtain m where m: "inst_at st i = Some m" "n = m\<lparr>n_uses := []\<rparr>" using assms(2) by (auto simp: core_Some)
  then show ?thesis using links_put [OF assms(1) m(1), of "h m"] assms(3-5)
    by (simp add: get_inst_Some [OF m(1)] core_put [OF m(1)])
qed

lemma ClearArgs_ok:
  assumes "uses_ok st" "core st i = Some n"
  shows "\<exists>st'. ClearArgs i st = Ret st' \<and> uses_ok st' \<and>
    core st' = (core st)(i \<mapsto> n\<lparr>n_args := [], n_phi_blocks := []\<rparr>) \<and> frame st st'"
proof -
  obtain m where m: "inst_at st i = Some m" "n = m\<lparr>n_uses := []\<rparr>" using assms(2) by (auto simp: core_Some)
  let ?R = "refs (core st) - (\<Union>k < length (n_args n). arg_refs i k (n_args n ! k))"
  obtain s1 where s1: "ofold (\<lambda>index. unlink_use i (n_args n ! index) index) [0..<length (n_args n)] st = Ret s1"
      "links s1 ?R" "core s1 = core st" "frame st s1"
    using unlink_all_ok [of st "refs (core st)" i n 0 "core st"] assms by (auto simp: uses_ok_def)
  let ?h = "\<lambda>n. n\<lparr>n_args := [], n_phi_blocks := []\<rparr>"
  obtain s2 where s2: "omap (\<lambda>n. put_inst i (?h n) s1) (get_inst s1 i) = Ret s2" "links s2 ?R"
      "core s2 = (core st)(i \<mapsto> ?h n)" "frame s1 s2"
    using put_core [OF s1(2), of i n "?h" ?h] s1(3) assms(2) by auto
  have "ClearArgs i st = Ret s2" using s1(1) s2(1) by (simp add: ClearArgs_def get_inst_Some [OF m(1)] m(2))
  moreover have "uses_ok s2" using s2(2,3) refs_cleared [where g = "core st", OF assms(2), of "?h n"] by (simp add: uses_ok_def)
  ultimately show ?thesis using s1(4) s2(3,4) frame_trans by blast
qed

lemma Invalidate_ok:
  assumes "uses_ok st" "core st i = Some n"
  shows "\<exists>st'. Invalidate i st = Ret st' \<and> uses_ok st' \<and>
    core st' = (core st)(i \<mapsto> n\<lparr>n_opcode := Base Void, n_args := [], n_phi_blocks := []\<rparr>) \<and> frame st st'"
proof -
  obtain s1 where s1: "ClearArgs i st = Ret s1" "uses_ok s1"
      "core s1 = (core st)(i \<mapsto> n\<lparr>n_args := [], n_phi_blocks := []\<rparr>)" "frame st s1"
    using ClearArgs_ok [OF assms] by blast
  let ?h = "\<lambda>n. n\<lparr>n_opcode := Base Void\<rparr>"
  obtain s2 where s2: "omap (\<lambda>n. put_inst i (?h n) s1) (get_inst s1 i) = Ret s2" "links s2 (refs (core s1))"
      "core s2 = (core s1)(i \<mapsto> ?h (n\<lparr>n_args := [], n_phi_blocks := []\<rparr>))" "frame s1 s2"
    using put_core [OF s1(2) [unfolded uses_ok_def], of i "n\<lparr>n_args := [], n_phi_blocks := []\<rparr>" ?h ?h] s1(3) by auto
  have "refs (core s2) = refs (core s1)" unfolding s2(3) s1(3) by (auto simp: refs_def)
  then have "uses_ok s2" using s2(2) by (simp add: uses_ok_def)
  then show ?thesis using s1 s2 frame_trans by (auto simp: Invalidate_def)
qed

text \<open>What is left of an instruction whose uses have been replaced.\<close>

definition replaced :: "bool \<Rightarrow> ir_value \<Rightarrow> ir_inst \<Rightarrow> ir_inst" where
  "replaced preserve v n = n\<lparr>n_opcode := Base (if preserve then Identity else Void),
     n_args := (if preserve then [v] else []), n_phi_blocks := []\<rparr>"

definition replace_graph :: "bool \<Rightarrow> nat \<Rightarrow> ir_value \<Rightarrow> ir_graph \<Rightarrow> ir_graph" where
  "replace_graph preserve i v g j =
     (if j = i then map_option (replaced preserve v) (g i) else map_option (subst_inst i v) (g j))"

lemma NumArgs_base [simp]: "NumArgsOf (Base Identity) = 1" "NumArgsOf (Base Phi) = 0" "NumArgsOf (Base Void) = 0"
  by (simp_all add: NumArgsOf_def)

lemma make_identity_ok:
  assumes "uses_ok st" "core st i = Some n" "n_args n = []" "live_value st v"
  shows "\<exists>st'. obind (ReplaceOpcode i (Base Identity) st) (\<lambda>st. obind (get_inst st i) (\<lambda>n.
      obind (set_args i (resize_args 1 (n_args n)) st) (SetArg i 0 v))) = Ret st' \<and> uses_ok st' \<and>
    core st' = (core st)(i \<mapsto> n\<lparr>n_opcode := Base Identity, n_args := [v]\<rparr>) \<and> frame st st'"
proof -
  obtain m where m: "inst_at st i = Some m" "n = m\<lparr>n_uses := []\<rparr>" using assms(2) by (auto simp: core_Some)
  let ?n1 = "n\<lparr>n_opcode := Base Identity, n_args := [VVoid]\<rparr>"
  let ?s1 = "put_inst i (m\<lparr>n_opcode := Base Identity, n_args := [VVoid]\<rparr>) st"
  have s1: "ReplaceOpcode i (Base Identity) st = Ret ?s1"
    using assms(3) by (simp add: ReplaceOpcode_def get_inst_Some [OF m(1)] m(2) resize_args_def)
  have c1: "core ?s1 = (core st)(i \<mapsto> ?n1)" using core_put [OF m(1)] m(2) by (cases m) simp
  have l1: "links ?s1 (refs (core st))" using links_put [OF assms(1) [unfolded uses_ok_def] m(1)] by simp
  obtain s2 where s2: "set_args i [VVoid] ?s1 = Ret s2" "links s2 (refs (core st))" "core s2 = core ?s1" "frame ?s1 s2"
    using set_args_ok [OF l1, of i ?n1 "[VVoid]"] c1 by auto
  have "refs (core s2) = refs (core st)" using assms(2,3) unfolding s2(3) c1
    by (auto simp: refs_def split: if_splits)
  then have u2: "uses_ok s2" using s2(2) by (simp add: uses_ok_def)
  note lv = live_value_upd [OF assms(4,2) s2(3) [unfolded c1]]
  have n2: "core s2 i = Some ?n1" unfolding s2(3) c1 by simp
  obtain s3 where s3: "SetArg i 0 v s2 = Ret s3" "uses_ok s3" "core s3 = (core s2)(i \<mapsto> ?n1\<lparr>n_args := [v]\<rparr>)" "frame s2 s3"
    using SetArg_ok [OF u2 n2 _ lv, of 0] by auto
  have "get_inst ?s1 i = Ret (m\<lparr>n_opcode := Base Identity, n_args := [VVoid]\<rparr>)"
    using inst_at_bound [OF m(1)] by (simp add: get_inst_Ret)
  then have "obind (get_inst ?s1 i) (\<lambda>n. obind (set_args i (resize_args 1 (n_args n)) ?s1) (SetArg i 0 v)) = Ret s3"
    using s2(1) s3(1) by (simp add: resize_args_def)
  moreover have "core s3 = (core st)(i \<mapsto> n\<lparr>n_opcode := Base Identity, n_args := [v]\<rparr>)" unfolding s3(3) s2(3) c1 by simp
  moreover have "frame st s3" using s2(4) s3(4) by (simp add: frame_def)
  ultimately show ?thesis using s1 s3(2) by auto
qed

lemma ReplaceUsesWith_ok:
  assumes "uses_ok st" "core st i = Some n" "live_value st v" "v \<noteq> VInst i"
  shows "\<exists>st'. ReplaceUsesWith i v preserve st = Ret st' \<and> uses_ok st' \<and>
    core st' = replace_graph preserve i v (core st) \<and> frame st st'"
proof -
  let ?g = "core st"
  obtain m where m: "inst_at st i = Some m" "n = m\<lparr>n_uses := []\<rparr>" using assms(2) by (auto simp: core_Some)
  have P: "set (n_uses m) = {(j, k). (j, k, i) \<in> refs ?g}"
    using assms(1) m(1) by (auto simp: uses_ok_def links_def)
  have "\<forall>(u, k) \<in> set (n_uses m). \<exists>n. core st u = Some n \<and> k < length (n_args n)"
    unfolding P by (auto simp: refs_def)
  from set_uses_ok [OF assms(1,3) this, of "{}" ?g] subst_at_all [OF P] obtain s1 where
    s1: "ofold (\<lambda>(user, operand). SetArg user operand v) (n_uses m) st = Ret s1" "uses_ok s1"
      "core s1 = (\<lambda>j. map_option (subst_inst i v) (?g j))" "frame st s1" by auto
  have n1: "core s1 i = Some (subst_inst i v n)" using assms(2) unfolding s1(3) by simp
  let ?n2 = "n\<lparr>n_opcode := Base Void, n_args := [], n_phi_blocks := []\<rparr>"
  obtain s2 where s2: "Invalidate i s1 = Ret s2" "uses_ok s2" "core s2 = (core s1)(i \<mapsto> ?n2)" "frame s1 s2"
    using Invalidate_ok [OF s1(2) n1] by (auto simp: subst_inst_def)
  have f2: "frame st s2" using s1(4) s2(4) frame_trans by blast
  have c2: "core s2 = replace_graph False i v ?g"
    using assms(2) unfolding s2(3) s1(3) by (auto simp: fun_eq_iff replace_graph_def replaced_def)
  show ?thesis
  proof (cases preserve)
    case False
    then show ?thesis using s1(1) s2(1,2) c2 f2 by (simp add: ReplaceUsesWith_def get_inst_Some [OF m(1)])
  next
    case True
    have "core s2 j = None \<longleftrightarrow> core st j = None" for j unfolding c2 by (simp add: replace_graph_def del: core_None)
    then have lv: "live_value s2 v" using live_value_core assms(3) by blast
    have n2: "core s2 i = Some ?n2" unfolding s2(3) by simp
    from make_identity_ok [OF s2(2) n2 _ lv] obtain s3 where
      s3: "obind (ReplaceOpcode i (Base Identity) s2) (\<lambda>st. obind (get_inst st i) (\<lambda>n.
        obind (set_args i (resize_args 1 (n_args n)) st) (SetArg i 0 v))) = Ret s3" "uses_ok s3"
      "core s3 = (core s2)(i \<mapsto> ?n2\<lparr>n_opcode := Base Identity, n_args := [v]\<rparr>)" "frame s2 s3" by auto
    have "ReplaceUsesWith i v preserve st = Ret s3"
      using s1(1) s2(1) s3(1) True by (simp add: ReplaceUsesWith_def get_inst_Some [OF m(1)])
    moreover have "core s3 = replace_graph preserve i v ?g"
      using assms(2) True unfolding s3(3) c2 by (cases n) (auto simp: fun_eq_iff replace_graph_def replaced_def)
    ultimately show ?thesis using s3(2,4) f2 frame_trans by blast
  qed
qed

section \<open>Adding and erasing instructions\<close>

lemma AddPhiOperand_ok:
  assumes "uses_ok st" "core st i = Some n" "live_value st v" "n_opcode n = Base Phi"
  shows "\<exists>st'. AddPhiOperand i p v st = Ret st' \<and> uses_ok st' \<and> frame st st' \<and>
    core st' = (core st)(i \<mapsto> n\<lparr>n_args := n_args n @ [v], n_phi_blocks := n_phi_blocks n @ [p]\<rparr>)"
proof -
  obtain m where m: "inst_at st i = Some m" "n = m\<lparr>n_uses := []\<rparr>" using assms(2) by (auto simp: core_Some)
  let ?n1 = "n\<lparr>n_args := n_args n @ [v], n_phi_blocks := n_phi_blocks n @ [p]\<rparr>"
  let ?s1 = "put_inst i (m\<lparr>n_args := n_args m @ [v], n_phi_blocks := n_phi_blocks m @ [p]\<rparr>) st"
  have c1: "core ?s1 = (core st)(i \<mapsto> ?n1)" using core_put [OF m(1)] m(2) by (cases m) simp
  have l1: "links ?s1 (refs (core st))" using links_put [OF assms(1) [unfolded uses_ok_def] m(1)] by simp
  note lv = live_value_upd [OF assms(3,2) c1]
  have "arg_refs i (length (n_args n)) v \<inter> refs (core st) = {}"
    using assms(2) by (auto simp: arg_refs_def refs_def split: ir_value.splits)
  from link_use_ok [OF l1 lv this] obtain s2 where
    s2: "link_use i v (length (n_args n)) ?s1 = Ret s2" "links s2 (refs (core st) \<union> arg_refs i (length (n_args n)) v)"
      "core s2 = core ?s1" "frame ?s1 s2" by blast
  have "refs (core ?s1) = refs (core st) \<union> arg_refs i (length (n_args n)) v"
    using assms(2) unfolding c1 by (auto simp: refs_def arg_refs_def nth_append less_Suc_eq split: ir_value.splits if_splits)
  then have "uses_ok s2" using s2(2,3) by (simp add: uses_ok_def)
  moreover have "AddPhiOperand i p v st = Ret s2"
    using s2(1) assms(4) by (simp add: AddPhiOperand_def get_inst_Some [OF m(1)] m(2))
  ultimately show ?thesis using c1 s2(3,4) by (auto simp: frame_def)
qed

lemma set_all_ok:
  assumes "uses_ok st" "core st i = Some (n\<lparr>n_args := take a xs @ replicate (length xs - a) VVoid\<rparr>)" "a \<le> length xs"
    "\<forall>v \<in> set xs. live_value st v"
  shows "\<exists>st'. ofold (\<lambda>index. SetArg i index (xs ! index)) [a..<length xs] st = Ret st' \<and> uses_ok st' \<and>
    core st' = (core st)(i \<mapsto> n\<lparr>n_args := xs\<rparr>) \<and> frame st st'"
  using assms
proof (induction "length xs - a" arbitrary: a st)
  case 0
  then show ?case by (auto simp: fun_eq_iff)
next
  case (Suc x)
  then have a: "a < length xs" by simp
  let ?n = "\<lambda>a. n\<lparr>n_args := take a xs @ replicate (length xs - a) VVoid\<rparr>"
  have "(take a xs @ replicate (length xs - a) VVoid)[a := xs ! a] = take (Suc a) xs @ replicate (length xs - Suc a) VVoid"
    using a by (intro nth_equalityI) (auto simp: nth_append nth_list_update less_Suc_eq)
  moreover have "live_value st (xs ! a)" using Suc.prems(4) a by simp
  ultimately obtain s1 where s1: "SetArg i a (xs ! a) st = Ret s1" "uses_ok s1" "core s1 = (core st)(i \<mapsto> ?n (Suc a))" "frame st s1"
    using SetArg_ok [OF Suc.prems(1,2), of a "xs ! a"] a by auto
  have "\<forall>v \<in> set xs. live_value s1 v" using Suc.prems(4) live_value_upd [OF _ Suc.prems(2) s1(3)] by blast
  moreover have "x = length xs - Suc a" using Suc.hyps(2) by simp
  ultimately obtain s2 where "ofold (\<lambda>index. SetArg i index (xs ! index)) [Suc a..<length xs] s1 = Ret s2" "uses_ok s2"
      "core s2 = (core s1)(i \<mapsto> n\<lparr>n_args := xs\<rparr>)" "frame s1 s2"
    using Suc.hyps(1) [of "Suc a" s1] s1 a by auto
  then show ?case using s1 a frame_trans by (auto simp: upt_conv_Cons)
qed

lemma refs_upd_new:
  assumes "g i = None" "\<And>d. VInst d \<notin> set (n_args m)"
  shows "refs (g(i \<mapsto> m)) = refs g"
  using assms unfolding refs_def by (auto split: if_splits) (metis nth_mem)

definition insert_at :: "nat \<Rightarrow> nat \<Rightarrow> ir_block \<Rightarrow> ir_block" where
  "insert_at at i b = b\<lparr>b_insts := take at (b_insts b) @ i # drop at (b_insts b)\<rparr>"

lemma PrependNewInst_ok:
  assumes "uses_ok st" "b < length (st_blocks st)" "NumArgsOf opcode = length xs" "\<forall>v \<in> set xs. live_value st v"
  shows "\<exists>st'. PrependNewInst b at opcode xs flags st = Ret (length (st_insts st), st') \<and> uses_ok st' \<and>
    core st' = (core st)(length (st_insts st) \<mapsto> \<lparr>n_opcode = opcode, n_flags = flags, n_parent = Some b, n_args = xs, n_phi_blocks = [], n_uses = []\<rparr>) \<and>
    st_blocks st' = (st_blocks st)[b := insert_at at (length (st_insts st)) (st_blocks st ! b)] \<and>
    length (st_insts st') = Suc (length (st_insts st))"
proof -
  let ?i = "length (st_insts st)" and ?b = "insert_at at (length (st_insts st)) (st_blocks st ! b)"
  let ?n = "\<lparr>n_opcode = opcode, n_flags = flags, n_parent = Some b, n_args = xs, n_phi_blocks = [], n_uses = []\<rparr>"
  define n0 where "n0 = ?n\<lparr>n_args := replicate (length xs) VVoid\<rparr>"
  define s0 where "s0 = put_block b ?b (st\<lparr>st_insts := st_insts st @ [Some n0]\<rparr>)"
  have at: "inst_at s0 j = (if j = ?i then Some n0 else inst_at st j)" for j
    by (auto simp: inst_at_def put_block_def nth_append s0_def)
  have z: "n_uses n0 = []" "n0\<lparr>n_uses := []\<rparr> = n0" "\<And>d. VInst d \<notin> set (n_args n0)" by (auto simp: n0_def)
  have c0: "core s0 = (core st)(?i \<mapsto> n0)" unfolding fun_eq_iff core_def at using z(2) by simp
  have new: "inst_at st ?i = None" by (simp add: inst_at_def)
  have R: "refs (core s0) = refs (core st)"
    unfolding c0 using new z(3) by (intro refs_upd_new) auto
  have nd: "(j, k, ?i) \<notin> refs (core st)" for j k using assms(1) new unfolding uses_ok_def links_def by blast
  have u0: "uses_ok s0" using assms(1) nd z(1) unfolding uses_ok_def R by (auto simp: links_def at)
  have n: "core s0 ?i = Some (?n\<lparr>n_args := take 0 xs @ replicate (length xs - 0) VVoid\<rparr>)" unfolding c0 by (simp add: n0_def)
  have "\<forall>v \<in> set xs. live_value s0 v" using assms(4) by (auto simp: live_value_def at split: ir_value.splits)
  from set_all_ok [OF u0 n le0 this] c0 obtain s1 where
    s1: "ofold (\<lambda>index. SetArg ?i index (xs ! index)) [0..<length xs] s0 = Ret s1" "uses_ok s1"
      "core s1 = (core st)(?i \<mapsto> ?n)" "frame s0 s1" by auto
  have "(Inst_new opcode flags)\<lparr>n_parent := Some b\<rparr> = n0" using assms(3) by (simp add: Inst_new_def resize_args_def n0_def)
  then have "PrependNewInst b at opcode xs flags st = Ret (?i, s1)"
    using s1(1) assms(2,3) by (simp add: PrependNewInst_def get_block_def insert_at_def Let_def s0_def)
  then show ?thesis using s1 by (simp add: frame_def put_block_def s0_def)
qed

lemma PrependNewInst_Exit:
  "b < length (st_blocks st) \<Longrightarrow> NumArgsOf opcode \<noteq> length xs \<Longrightarrow> PrependNewInst b at opcode xs flags st = Exit"
  by (simp add: PrependNewInst_def get_block_def)

text \<open>An instruction without uses can be erased.\<close>

lemma erase_inst_ok:
  assumes "uses_ok st" "core st i = Some n" "b < length (st_blocks st)" "\<forall>j k. (j, k, i) \<in> refs (core st) \<longrightarrow> j = i"
  shows "\<exists>st'. erase_inst b i st = Ret st' \<and> uses_ok st' \<and> core st' = (core st)(i := None) \<and>
    st_blocks st' = (st_blocks st)[b := (st_blocks st ! b)\<lparr>b_insts := remove1 i (b_insts (st_blocks st ! b))\<rparr>] \<and>
    length (st_insts st') = length (st_insts st)"
proof -
  obtain s1 where s1: "ClearArgs i st = Ret s1" "uses_ok s1" "core s1 = (core st)(i \<mapsto> n\<lparr>n_args := [], n_phi_blocks := []\<rparr>)" "frame st s1"
    using ClearArgs_ok [OF assms(1,2)] by blast
  let ?b = "(st_blocks st ! b)\<lparr>b_insts := remove1 i (b_insts (st_blocks st ! b))\<rparr>"
  let ?s2 = "put_block b ?b (s1\<lparr>st_insts := (st_insts s1)[i := None]\<rparr>)"
  have at: "inst_at ?s2 j = (if j = i then None else inst_at s1 j)" for j
    by (auto simp: inst_at_def put_block_def)
  have c2: "core ?s2 = (core st)(i := None)" using s1(3) by (auto simp: fun_eq_iff core_def at)
  have R: "refs (core s1) = refs (core ?s2)" unfolding c2 s1(3) by (auto simp: refs_def split: if_splits)
  have nd: "(j, k, i) \<notin> refs (core s1)" for j k using assms(4) unfolding R c2 by (auto simp: refs_def split: if_splits)
  have "uses_ok ?s2" using s1(2) nd unfolding uses_ok_def R [symmetric] by (auto simp: links_def at)
  moreover have "erase_inst b i st = Ret ?s2"
    using s1(1,4) assms(3) by (simp add: erase_inst_def get_block_def frame_def)
  ultimately show ?thesis using c2 s1(4) by (simp add: put_block_def frame_def)
qed

section \<open>Editing histories\<close>

text \<open>
  The calls of \<open>Inst\<close> and \<open>Block\<close> that edit the graph.  \<open>edit_pre\<close> is what a caller has to
  ensure: pointers are to live instructions and blocks, an instruction is not replaced by itself,
  and an instruction that is erased has no uses by others.
\<close>

datatype ir_edit =
    EditPrepend nat nat value_opcode "ir_value list" u64
  | EditAppend nat value_opcode "ir_value list" u64
  | EditSetArg nat nat ir_value
  | EditPhiOperand nat nat ir_value
  | EditReplace nat ir_value bool
  | EditInvalidate nat
  | EditErase nat nat
  | EditBranch nat nat
  | EditSeal nat

fun ir_edit_exec :: "ir_edit \<Rightarrow> ir_store \<Rightarrow> ir_store outcome" where
  "ir_edit_exec (EditPrepend b at opcode xs flags) st = omap snd (PrependNewInst b at opcode xs flags st)"
| "ir_edit_exec (EditAppend b opcode xs flags) st = omap snd (AppendNewInst b opcode xs flags st)"
| "ir_edit_exec (EditSetArg i k v) st = SetArg i k v st"
| "ir_edit_exec (EditPhiOperand i p v) st = AddPhiOperand i p v st"
| "ir_edit_exec (EditReplace i v preserve) st = ReplaceUsesWith i v preserve st"
| "ir_edit_exec (EditInvalidate i) st = Invalidate i st"
| "ir_edit_exec (EditErase b i) st = erase_inst b i st"
| "ir_edit_exec (EditBranch b c) st = AddBranch b c st"
| "ir_edit_exec (EditSeal b) st = SsaSeal b st"

definition live_block :: "ir_store \<Rightarrow> nat \<Rightarrow> bool" where
  "live_block st b \<longleftrightarrow> b < length (st_blocks st)"

fun edit_pre :: "ir_edit \<Rightarrow> ir_store \<Rightarrow> bool" where
  "edit_pre (EditPrepend b at opcode xs flags) st \<longleftrightarrow> live_block st b \<and> list_all (live_value st) xs"
| "edit_pre (EditAppend b opcode xs flags) st \<longleftrightarrow> live_block st b \<and> list_all (live_value st) xs"
| "edit_pre (EditSetArg i k v) st \<longleftrightarrow> inst_at st i \<noteq> None \<and> live_value st v"
| "edit_pre (EditPhiOperand i p v) st \<longleftrightarrow> inst_at st i \<noteq> None \<and> live_value st v"
| "edit_pre (EditReplace i v preserve) st \<longleftrightarrow> inst_at st i \<noteq> None \<and> live_value st v \<and> v \<noteq> VInst i"
| "edit_pre (EditInvalidate i) st \<longleftrightarrow> inst_at st i \<noteq> None"
| "edit_pre (EditErase b i) st \<longleftrightarrow> live_block st b \<and>
     (case inst_at st i of Some n \<Rightarrow> list_all (\<lambda>u. fst u = i) (n_uses n) | None \<Rightarrow> False)"
| "edit_pre (EditBranch b c) st \<longleftrightarrow> live_block st b \<and> live_block st c"
| "edit_pre (EditSeal b) st \<longleftrightarrow> live_block st b"

text \<open>The checks of the source that a call may fail.\<close>

fun edit_rejected :: "ir_edit \<Rightarrow> ir_store \<Rightarrow> bool" where
  "edit_rejected (EditPrepend b at opcode xs flags) st \<longleftrightarrow> length xs \<noteq> NumArgsOf opcode"
| "edit_rejected (EditAppend b opcode xs flags) st \<longleftrightarrow> length xs \<noteq> NumArgsOf opcode"
| "edit_rejected (EditSetArg i k v) st \<longleftrightarrow> k \<ge> length (n_args (the (inst_at st i)))"
| "edit_rejected (EditPhiOperand i p v) st \<longleftrightarrow> n_opcode (the (inst_at st i)) \<noteq> Base Phi"
| "edit_rejected (EditBranch b c) st \<longleftrightarrow> c \<in> set (b_succs (st_blocks st ! b)) \<or> b \<in> set (b_preds (st_blocks st ! c))"
| "edit_rejected _ st \<longleftrightarrow> False"

lemma links_blocks:
  "st_insts st' = st_insts st \<Longrightarrow> uses_ok st' \<longleftrightarrow> uses_ok st"
proof -
  assume "st_insts st' = st_insts st"
  then have "inst_at st' = inst_at st" by (simp add: fun_eq_iff inst_at_def)
  then show ?thesis by (simp add: uses_ok_def links_def refs_core)
qed

lemma uses_ok_put_block [simp]: "uses_ok (put_block b x st) \<longleftrightarrow> uses_ok st"
  by (rule links_blocks) (simp add: put_block_def)

lemma AddBranch_ok:
  assumes "live_block st b" "live_block st c"
  shows "AddBranch b c st = (if edit_rejected (EditBranch b c) st then Exit else
    let st1 = put_block b ((st_blocks st ! b)\<lparr>b_succs := b_succs (st_blocks st ! b) @ [c]\<rparr>) st in
    Ret (put_block c ((st_blocks st1 ! c)\<lparr>b_preds := b_preds (st_blocks st1 ! c) @ [b]\<rparr>) st1))"
  using assms by (simp add: AddBranch_def get_block_def live_block_def put_block_def)

lemma edit_step_ok:
  assumes "uses_ok st" "edit_pre e st"
  shows "if edit_rejected e st then ir_edit_exec e st = Exit else \<exists>st'. ir_edit_exec e st = Ret st' \<and> uses_ok st'"
proof (cases e)
  case (EditPrepend b at opcode xs flags)
  with assms PrependNewInst_Exit [of b st opcode xs at flags] PrependNewInst_ok [OF assms(1), of b opcode xs at flags]
  show ?thesis by (auto simp: live_block_def list_all_iff)
next
  case (EditAppend b opcode xs flags)
  let ?at = "length (b_insts (st_blocks st ! b))"
  from EditAppend assms PrependNewInst_Exit [of b st opcode xs ?at flags] PrependNewInst_ok [OF assms(1), of b opcode xs ?at flags]
  show ?thesis by (auto simp: live_block_def list_all_iff AppendNewInst_def get_block_def)
next
  case (EditSetArg i k v)
  then obtain n where n: "inst_at st i = Some n" "core st i = Some (n\<lparr>n_uses := []\<rparr>)" using assms(2) by (auto simp: core_Some)
  with EditSetArg assms SetArg_ok [OF assms(1) n(2), of k v] SetArg_Exit [OF n(2), of k v] show ?thesis by (auto simp: not_le)
next
  case (EditPhiOperand i p v)
  then obtain n where n: "inst_at st i = Some n" "core st i = Some (n\<lparr>n_uses := []\<rparr>)" using assms(2) by (auto simp: core_Some)
  with EditPhiOperand assms AddPhiOperand_ok [OF assms(1) n(2), of v p] show ?thesis
    by (auto simp: AddPhiOperand_def get_inst_Some [OF n(1)])
next
  case (EditReplace i v preserve)
  then obtain n where n: "core st i = Some n" using assms(2) by (auto simp: core_Some)
  with EditReplace assms ReplaceUsesWith_ok [OF assms(1) n, of v preserve] show ?thesis by auto
next
  case (EditInvalidate i)
  then obtain n where n: "core st i = Some n" using assms(2) by (auto simp: core_Some)
  with EditInvalidate Invalidate_ok [OF assms(1) n] show ?thesis by auto
next
  case (EditErase b i)
  then obtain n where n: "inst_at st i = Some n" "core st i = Some (n\<lparr>n_uses := []\<rparr>)" "\<forall>u \<in> set (n_uses n). fst u = i"
    using assms(2) by (auto simp: core_Some list_all_iff split: option.splits)
  have "\<forall>j k. (j, k, i) \<in> refs (core st) \<longrightarrow> j = i" using assms(1) n(1,3) by (fastforce simp: uses_ok_def links_def)
  with EditErase assms erase_inst_ok [OF assms(1) n(2), of b] show ?thesis by (auto simp: live_block_def)
next
  case (EditBranch b c)
  then have "live_block st b" "live_block st c" using assms(2) by simp_all
  note b = AddBranch_ok [OF this, unfolded Let_def]
  have "uses_ok (put_block x y (put_block z w st))" for x y z w using assms(1) by simp
  then show ?thesis unfolding EditBranch ir_edit_exec.simps b by (cases "edit_rejected (EditBranch b c) st") simp_all
next
  case (EditSeal b)
  with assms show ?thesis by (auto simp: SsaSeal_def get_block_def live_block_def)
qed

text \<open>A caller that ensures \<open>edit_pre\<close> at each call.\<close>

fun edits_ok :: "ir_edit list \<Rightarrow> ir_store \<Rightarrow> bool" where
  "edits_ok [] st \<longleftrightarrow> True"
| "edits_ok (e # es) st \<longleftrightarrow> edit_pre e st \<and> (case ir_edit_exec e st of Ret st' \<Rightarrow> edits_ok es st' | _ \<Rightarrow> True)"

definition ir_empty :: "nat \<Rightarrow> ir_store" where
  "ir_empty blocks = \<lparr>st_insts = [], st_blocks = replicate blocks \<lparr>b_insts = [], b_preds = [], b_succs = [], b_sealed = False\<rparr>\<rparr>"

lemma uses_ok_empty: "uses_ok (ir_empty blocks)"
  by (simp add: uses_ok_def links_def ir_empty_def inst_at_def core_def refs_def)

lemma edits_keep_uses:
  assumes "uses_ok st" "edits_ok es st"
  shows "owp (ofold ir_edit_exec es st) uses_ok True"
  using assms
proof (induction es arbitrary: st)
  case (Cons e es)
  then have "edit_pre e st" by simp
  note step = edit_step_ok [OF Cons.prems(1) this]
  show ?case
  proof (cases "edit_rejected e st")
    case True
    with step show ?thesis by simp
  next
    case False
    with step obtain st' where "ir_edit_exec e st = Ret st'" "uses_ok st'" by auto
    with Cons show ?thesis by simp
  qed
qed simp

text \<open>
  C12: along any history of edits from an empty graph whose caller passes live pointers, no step is
  undefined, the process ends exactly at the first call that a documented check of \<open>SetArg\<close>,
  \<open>AddPhiOperand\<close>, \<open>PrependNewInst\<close> or \<open>AddBranch\<close> rejects (the checks on the use lists never
  fail), and otherwise every instruction's use list holds each argument that names it, once.
\<close>

theorem graph_edits_keep_use_lists:
  assumes "edits_ok es (ir_empty blocks)" "edits_ok [e] st" "ofold ir_edit_exec es (ir_empty blocks) = Ret st"
  shows "(ir_edit_exec e st = Exit \<longleftrightarrow> edit_rejected e st) \<and> ir_edit_exec e st \<noteq> Undef \<and>
    (\<forall>d u. inst_at st d = Some u \<longrightarrow> distinct (n_uses u) \<and>
       (\<forall>i k. (i, k) \<in> set (n_uses u) \<longleftrightarrow> (\<exists>n. inst_at st i = Some n \<and> k < length (n_args n) \<and> n_args n ! k = VInst d)))"
proof -
  have u: "uses_ok st" using edits_keep_uses [OF uses_ok_empty assms(1)] assms(3) by simp
  have "edit_pre e st" using assms(2) by simp
  from edit_step_ok [OF u this] have "(ir_edit_exec e st = Exit \<longleftrightarrow> edit_rejected e st) \<and> ir_edit_exec e st \<noteq> Undef"
    by (auto split: if_splits)
  moreover have "\<forall>d u. inst_at st d = Some u \<longrightarrow> distinct (n_uses u) \<and>
       (\<forall>i k. (i, k) \<in> set (n_uses u) \<longleftrightarrow> (\<exists>n. inst_at st i = Some n \<and> k < length (n_args n) \<and> n_args n ! k = VInst d))"
    using u by (auto simp: uses_ok_def links_def refs_core) (auto simp: refs_def)
  ultimately show ?thesis by blast
qed

lemma graph_edits_keep_use_lists_witness:
  "\<exists>st. ofold ir_edit_exec
     [EditAppend 0 (Regs GetExecLo) [] 0, EditAppend 0 (Alu IAdd32) [VInst 0, VInst 0] 0,
      EditReplace 0 (VU32 7) True] (ir_empty 1) = Ret st \<and>
    ir_edit_exec (EditSetArg 1 2 (VU32 1)) st = Exit"
proof -
  let ?es = "[EditAppend 0 (Regs GetExecLo) [] 0, EditAppend 0 (Alu IAdd32) [VInst 0, VInst 0] 0,
      EditReplace 0 (VU32 7) True]"
  have "case ofold ir_edit_exec ?es (ir_empty 1) of Ret st \<Rightarrow> (case inst_at st 1 of Some n \<Rightarrow> length (n_args n) = 2 | None \<Rightarrow> False) | _ \<Rightarrow> False"
    by code_simp
  then obtain st where st: "ofold ir_edit_exec ?es (ir_empty 1) = Ret st" "inst_at st 1 \<noteq> None" "length (n_args (the (inst_at st 1))) = 2"
    by (auto split: outcome.splits option.splits)
  have "edits_ok ?es (ir_empty 1)" by code_simp
  moreover have "edits_ok [EditSetArg 1 2 (VU32 1)] st" using st(2) by (simp add: live_value_def split: outcome.split)
  moreover have "edit_rejected (EditSetArg 1 2 (VU32 1)) st" using st(3) by simp
  ultimately show ?thesis using graph_edits_keep_use_lists [of ?es 1 "EditSetArg 1 2 (VU32 1)" st] st(1) by blast
qed

end
