(* ===== verification/ShaderRuns.thy ===== *)
theory ShaderRuns
  imports ShaderGraph
begin

text \<open>
  What a value graph computes.  A run of a shader walks the blocks along their branches and
  gives each instruction a value when it is reached; dominance is availability on every path
  from the entry.  The main result is a condition under which \<open>ReplaceUsesWith\<close> keeps every run.
\<close>

section \<open>Paths and availability\<close>

definition insts_of :: "ir_block list \<Rightarrow> nat \<Rightarrow> nat list" where
  "insts_of bl b = (if b < length bl then b_insts (bl ! b) else [])"

definition edge :: "ir_block list \<Rightarrow> nat \<Rightarrow> nat \<Rightarrow> bool" where
  "edge bl p b \<longleftrightarrow> p < length bl \<and> b < length bl \<and> b \<in> set (b_succs (bl ! p))"

text \<open>Paths from the entry block 0, latest block first.\<close>

inductive cfg_path :: "ir_block list \<Rightarrow> nat list \<Rightarrow> bool" for bl where
  path_entry: "0 < length bl \<Longrightarrow> cfg_path bl [0]"
| path_step: "cfg_path bl (p # ps) \<Longrightarrow> edge bl p b \<Longrightarrow> cfg_path bl (b # p # ps)"

inductive_cases cfg_path_NilE: "cfg_path bl []"
inductive_cases cfg_path_ConsE: "cfg_path bl (b # ps)"

definition avail :: "ir_block list \<Rightarrow> nat \<Rightarrow> nat \<Rightarrow> bool" where
  "avail bl b i \<longleftrightarrow> (\<forall>ps. cfg_path bl (b # ps) \<longrightarrow> (\<exists>c \<in> set ps. i \<in> set (insts_of bl c)))"

definition avail_end :: "ir_block list \<Rightarrow> nat \<Rightarrow> nat \<Rightarrow> bool" where
  "avail_end bl b i \<longleftrightarrow> avail bl b i \<or> i \<in> set (insts_of bl b)"

definition before :: "nat list \<Rightarrow> nat \<Rightarrow> nat set" where
  "before xs i = set (takeWhile (\<lambda>j. j \<noteq> i) xs)"

text \<open>\<open>sdom bl a i\<close>: the value of \<open>a\<close> is available where \<open>i\<close> is computed.\<close>

definition sdom :: "ir_block list \<Rightarrow> nat \<Rightarrow> nat \<Rightarrow> bool" where
  "sdom bl a i \<longleftrightarrow> (\<exists>b. i \<in> set (insts_of bl b) \<and> (avail bl b a \<or> a \<in> before (insts_of bl b) i))"

definition cfg_ok :: "ir_block list \<Rightarrow> bool" where
  "cfg_ok bl \<longleftrightarrow> distinct (concat (map b_insts bl)) \<and> (\<forall>b < length bl. \<exists>ps. cfg_path bl (b # ps))"

lemma before_split: "distinct (xs @ i # ys) \<Longrightarrow> before (xs @ i # ys) i = set xs"
  unfolding before_def by (subst takeWhile_append2) auto

lemma before_subset: "before xs i \<subseteq> set xs"
  by (auto simp: before_def dest: set_takeWhileD)

lemma before_irrefl: "i \<notin> before xs i"
  by (auto simp: before_def dest: set_takeWhileD)

lemma before_trans: "a \<in> before xs i \<Longrightarrow> i \<in> before xs j \<Longrightarrow> a \<in> before xs j"
  by (induction xs) (auto simp: before_def split: if_splits)

lemma before_asym: "a \<in> before xs i \<Longrightarrow> i \<in> before xs a \<Longrightarrow> False"
  using before_trans before_irrefl by blast

lemma insts_of_bound: "i \<in> set (insts_of bl b) \<Longrightarrow> b < length bl"
  by (simp add: insts_of_def split: if_splits)

lemma block_unique:
  assumes "cfg_ok bl" "i \<in> set (insts_of bl b)" "i \<in> set (insts_of bl c)"
  shows "b = c"
proof (rule ccontr)
  assume "b \<noteq> c"
  have d: "distinct (concat (map b_insts bl))" using assms(1) by (simp add: cfg_ok_def)
  have n: "i \<in> set (b_insts (bl ! x))" "x < length bl" if "x \<in> {b, c}" for x
    using assms(2,3) that by (auto simp: insts_of_def split: if_splits)
  have "x = y" if "x < length bl" "y < length bl" "i \<in> set (b_insts (bl ! x))" "i \<in> set (b_insts (bl ! y))" for x y
    using d that
  proof (induction bl arbitrary: x y)
    case (Cons z zs)
    have "i \<in> (\<Union>a \<in> set zs. set (b_insts a))" if "k < length zs" "i \<in> set (b_insts (zs ! k))" for k
      using that nth_mem by blast
    with Cons show ?case by (cases x; cases y) auto
  qed simp
  with n [of b] n [of c] \<open>b \<noteq> c\<close> show False by auto
qed

lemma distinct_insts: "cfg_ok bl \<Longrightarrow> distinct (insts_of bl b)"
  by (auto simp: cfg_ok_def insts_of_def distinct_concat_iff)

lemma path_suffix: "cfg_path bl (xs @ b # ps) \<Longrightarrow> cfg_path bl (b # ps)"
proof (induction xs)
  case (Cons x xs)
  then have "cfg_path bl (x # xs @ b # ps)" by simp
  then have "cfg_path bl (xs @ b # ps)" by (cases rule: cfg_path_ConsE) auto
  then show ?case by (rule Cons.IH)
qed simp

lemma path_bound: "cfg_path bl (b # ps) \<Longrightarrow> b < length bl"
  by (cases rule: cfg_path_ConsE) (auto simp: edge_def)

lemma avail_edge:
  assumes "edge bl p b" "avail bl b i"
  shows "avail_end bl p i"
proof (rule ccontr)
  assume n: "\<not> avail_end bl p i"
  then obtain ps where ps: "cfg_path bl (p # ps)" "\<forall>c \<in> set ps. i \<notin> set (insts_of bl c)"
    by (auto simp: avail_end_def avail_def)
  then have "cfg_path bl (b # p # ps)" using assms(1) by (auto intro: path_step)
  then obtain c where "c \<in> set (p # ps)" "i \<in> set (insts_of bl c)" using assms(2) unfolding avail_def by blast
  with ps n show False by (auto simp: avail_end_def)
qed

lemma avail_trans:
  assumes "cfg_ok bl" "avail bl b p" "sdom bl a p"
  shows "avail bl b a"
  unfolding avail_def
proof (intro allI impI)
  fix ps assume path: "cfg_path bl (b # ps)"
  then obtain c where c: "c \<in> set ps" "p \<in> set (insts_of bl c)" using assms(2) by (auto simp: avail_def)
  then obtain xs ys where ps: "ps = xs @ c # ys" by (meson split_list)
  from assms(3) c(2) have "avail bl c a \<or> a \<in> before (insts_of bl c) p"
    using block_unique [OF assms(1)] by (auto simp: sdom_def)
  then show "\<exists>c \<in> set ps. a \<in> set (insts_of bl c)"
  proof
    assume "avail bl c a"
    moreover have "cfg_path bl (c # ys)" using path_suffix [of bl "b # xs" c ys] path ps by simp
    ultimately show ?thesis using ps by (auto simp: avail_def)
  next
    assume "a \<in> before (insts_of bl c) p"
    then show ?thesis using before_subset c(1) by blast
  qed
qed

lemma avail_end_trans: "cfg_ok bl \<Longrightarrow> avail_end bl b p \<Longrightarrow> sdom bl a p \<Longrightarrow> avail_end bl b a"
  using avail_trans block_unique before_subset unfolding avail_end_def sdom_def by blast

lemma sdom_trans: "cfg_ok bl \<Longrightarrow> sdom bl a p \<Longrightarrow> sdom bl p i \<Longrightarrow> sdom bl a i"
  using avail_trans [of bl _ p a] block_unique [of bl p] before_trans before_subset unfolding sdom_def by (metis subsetD)

text \<open>Dominance is a strict order: a shortest path to one of two blocks does not pass the other.\<close>

definition depth :: "ir_block list \<Rightarrow> nat \<Rightarrow> nat" where
  "depth bl b = (LEAST n. \<exists>ps. cfg_path bl (b # ps) \<and> length ps = n)"

lemma depth_path:
  assumes "cfg_ok bl" "b < length bl"
  shows "\<exists>ps. cfg_path bl (b # ps) \<and> length ps = depth bl b"
  unfolding depth_def by (rule LeastI_ex) (use assms in \<open>auto simp: cfg_ok_def\<close>)

lemma depth_le: "cfg_path bl (b # ps) \<Longrightarrow> depth bl b \<le> length ps"
  unfolding depth_def by (rule Least_le) auto

lemma avail_depth:
  assumes "cfg_ok bl" "b < length bl" "avail bl b a" "a \<in> set (insts_of bl c)"
  shows "depth bl c < depth bl b"
proof -
  obtain ps where ps: "cfg_path bl (b # ps)" "length ps = depth bl b" using depth_path [OF assms(1,2)] by blast
  then obtain d where "d \<in> set ps" "a \<in> set (insts_of bl d)" using assms(3) by (auto simp: avail_def)
  then have "c \<in> set ps" using block_unique [OF assms(1,4)] by simp
  then obtain xs ys where "ps = xs @ c # ys" by (meson split_list)
  then show ?thesis using depth_le [OF path_suffix [of bl "b # xs" c ys]] ps by simp
qed

lemma avail_not_in:
  "cfg_ok bl \<Longrightarrow> b < length bl \<Longrightarrow> avail bl b a \<Longrightarrow> a \<notin> set (insts_of bl b)"
  using avail_depth by blast

lemma sdom_asym:
  assumes "cfg_ok bl" "sdom bl a i" "sdom bl i a"
  shows False
proof -
  obtain b c where b: "i \<in> set (insts_of bl b)" "avail bl b a \<or> a \<in> before (insts_of bl b) i"
    and c: "a \<in> set (insts_of bl c)" "avail bl c i \<or> i \<in> before (insts_of bl c) a"
    using assms(2,3) by (auto simp: sdom_def)
  note bound = insts_of_bound [OF b(1)] insts_of_bound [OF c(1)]
  have le: "depth bl c < depth bl b \<or> c = b \<and> a \<in> before (insts_of bl b) i"
    using b(2) avail_depth [OF assms(1) bound(1) _ c(1)] block_unique [OF assms(1) c(1)] before_subset by blast
  have "depth bl b < depth bl c \<or> b = c \<and> i \<in> before (insts_of bl c) a"
    using c(2) avail_depth [OF assms(1) bound(2) _ b(1)] block_unique [OF assms(1) b(1)] before_subset by blast
  with le before_asym show False by auto
qed

lemma sdom_irrefl: "cfg_ok bl \<Longrightarrow> \<not> sdom bl i i"
  using sdom_asym by blast

lemma sdom_inst:
  assumes "cfg_ok bl" "sdom bl a i"
  shows "\<exists>c. a \<in> set (insts_of bl c)"
proof -
  obtain b where b: "i \<in> set (insts_of bl b)" "avail bl b a \<or> a \<in> before (insts_of bl b) i" using assms(2) by (auto simp: sdom_def)
  obtain ps where "cfg_path bl (b # ps)" using assms(1) insts_of_bound [OF b(1)] by (auto simp: cfg_ok_def)
  then show ?thesis using b(2) before_subset by (auto simp: avail_def)
qed

section \<open>Well-formed graphs\<close>

definition is_phi :: "ir_inst \<Rightarrow> bool" where
  "is_phi n \<longleftrightarrow> n_opcode n = Base Phi"

text \<open>
  The instructions of the graph are those of the blocks; an argument is available where it is
  used, a phi's argument at the end of the predecessor it belongs to; a phi has its arguments
  from exactly the predecessors of its block, and the entry block has none; no argument is empty.
\<close>

definition phi_ok :: "ir_block list \<Rightarrow> nat \<Rightarrow> ir_inst \<Rightarrow> bool" where
  "phi_ok bl i n \<longleftrightarrow> VVoid \<notin> set (n_args n) \<and> length (n_phi_blocks n) = length (n_args n) \<and>
     (\<forall>b. i \<in> set (insts_of bl b) \<longrightarrow> b \<noteq> 0 \<and> set (n_phi_blocks n) = {p. edge bl p b}) \<and>
     (\<forall>k < length (n_args n). \<forall>a. n_args n ! k = VInst a \<longrightarrow> avail_end bl (n_phi_blocks n ! k) a)"

definition inst_ok :: "ir_block list \<Rightarrow> nat \<Rightarrow> ir_inst \<Rightarrow> bool" where
  "inst_ok bl i n \<longleftrightarrow> VVoid \<notin> set (n_args n) \<and> length (n_args n) = NumArgsOf (n_opcode n) \<and> (\<forall>a. VInst a \<in> set (n_args n) \<longrightarrow> sdom bl a i)"

definition ssa_ok :: "ir_block list \<Rightarrow> ir_graph \<Rightarrow> bool" where
  "ssa_ok bl g \<longleftrightarrow> cfg_ok bl \<and> (\<forall>i. g i \<noteq> None \<longleftrightarrow> (\<exists>b. i \<in> set (insts_of bl b))) \<and>
     (\<forall>i n. g i = Some n \<longrightarrow> (if is_phi n then phi_ok bl i n else inst_ok bl i n))"

lemma ssa_okD:
  assumes "ssa_ok bl g"
  shows "cfg_ok bl" "g i = Some n \<Longrightarrow> is_phi n \<Longrightarrow> phi_ok bl i n" "g i = Some n \<Longrightarrow> \<not> is_phi n \<Longrightarrow> inst_ok bl i n"
    "g i = Some n \<Longrightarrow> \<exists>b. i \<in> set (insts_of bl b)" "i \<in> set (insts_of bl b) \<Longrightarrow> \<exists>n. g i = Some n"
  using assms unfolding ssa_ok_def by (metis, metis, metis, metis option.distinct(1), blast)

text \<open>Where \<open>i\<close> is available, so is the value \<open>v\<close>.\<close>

definition value_sdom :: "ir_block list \<Rightarrow> ir_value \<Rightarrow> nat \<Rightarrow> bool" where
  "value_sdom bl v i \<longleftrightarrow> v \<noteq> VVoid \<and> (\<forall>a. v = VInst a \<longrightarrow> sdom bl a i)"

lemma subst_inst_opcode [simp]: "n_opcode (subst_inst i v n) = n_opcode n" "n_flags (subst_inst i v n) = n_flags n"
  by (simp_all add: subst_inst_def)

lemma ssa_ok_replace:
  assumes ok: "ssa_ok bl g" and v: "value_sdom bl v i"
  shows "ssa_ok bl (replace_graph True i v g)"
proof -
  let ?g = "replace_graph True i v g"
  note cfg = ssa_okD(1) [OF ok]
  have nv: "VVoid \<notin> set (n_args n) \<Longrightarrow> VVoid \<notin> set (n_args (subst_inst i v n))" for n
    using v by (auto simp: subst_inst_def subst_value_def value_sdom_def split: if_splits)
  have "if is_phi m then phi_ok bl j m else inst_ok bl j m" if m: "?g j = Some m" for j m
  proof (cases "j = i")
    case True
    then have "m = replaced True v (the (g i))" using m by (auto simp: replace_graph_def)
    then show ?thesis using v True by (auto simp: is_phi_def replaced_def inst_ok_def value_sdom_def)
  next
    case False
    then obtain n where n: "g j = Some n" "m = subst_inst i v n" using m by (auto simp: replace_graph_def)
    show ?thesis
    proof (cases "is_phi n")
      case True
      then have p: "phi_ok bl j n" using ssa_okD(2) [OF ok n(1)] by simp
      have "avail_end bl (n_phi_blocks n ! k) a" if "k < length (n_args n)" "subst_value i v (n_args n ! k) = VInst a" for k a
      proof (cases "n_args n ! k = VInst i")
        case True
        then have "avail_end bl (n_phi_blocks n ! k) i" using p that(1) by (auto simp: phi_ok_def)
        then show ?thesis using avail_end_trans [OF cfg] v that(2) True by (auto simp: subst_value_def value_sdom_def)
      next
        case False
        then show ?thesis using p that by (auto simp: phi_ok_def subst_value_def)
      qed
      then have "phi_ok bl j m" using p nv [of n] by (simp add: phi_ok_def n(2)) (simp add: subst_inst_def)
      then show ?thesis using True by (simp add: is_phi_def n(2))
    next
      case nphi: False
      then have p: "inst_ok bl j n" using ssa_okD(3) [OF ok n(1)] by simp
      have "sdom bl a j" if "VInst a \<in> set (n_args m)" for a
        using that p v sdom_trans [OF cfg] by (auto simp: n(2) subst_inst_def inst_ok_def subst_value_def value_sdom_def split: if_splits)
      then have "inst_ok bl j m" using p nv [of n] by (simp add: inst_ok_def n(2)) (simp add: subst_inst_def)
      then show ?thesis using nphi by (simp add: is_phi_def n(2))
    qed
  qed
  moreover have "?g j \<noteq> None \<longleftrightarrow> g j \<noteq> None" for j by (simp add: replace_graph_def)
  ultimately show ?thesis using ok unfolding ssa_ok_def by blast
qed

section \<open>Runs\<close>

text \<open>Values of all types that an instruction or an operand can have; resources stay opaque.\<close>

datatype sem =
    SVoid
  | SScalarReg u16
  | SVectorReg u16
  | SBool bool
  | S8 u8
  | S16 u16
  | S32 u32
  | S64 u64
  | H16 u16
  | F32 u32
  | S32x2 u32 u32
  | S32x4 u32 u32 u32 u32
  | SOther ir_type nat

type_synonym env = "nat \<Rightarrow> sem"

primrec val :: "env \<Rightarrow> ir_value \<Rightarrow> sem" where
  "val r VVoid = SVoid"
| "val r (VInst i) = r i"
| "val r (VScalarReg x) = SScalarReg x"
| "val r (VVectorReg x) = SVectorReg x"
| "val r (VU1 b) = SBool b"
| "val r (VU8 x) = S8 x"
| "val r (VU16 x) = S16 x"
| "val r (VU32 x) = S32 x"
| "val r (VU64 x) = S64 x"
| "val r (VF16 x) = H16 x"
| "val r (VF32 x) = F32 x"

lemma val_upd: "v \<noteq> VInst i \<Longrightarrow> val (r(i := x)) v = val r v"
  by (cases v) auto

lemma val_cong: "(\<And>i. v = VInst i \<Longrightarrow> r i = s i) \<Longrightarrow> val r v = val s v"
  by (cases v) auto

text \<open>
  The meaning of the opcodes is a parameter: which operands an instruction with an opcode and
  flags accepts, and its result where these determine one.
\<close>

type_synonym opcode_meaning = "value_opcode \<Rightarrow> u64 \<Rightarrow> sem list \<Rightarrow> bool \<times> sem option"

definition yields :: "opcode_meaning \<Rightarrow> env \<Rightarrow> ir_inst \<Rightarrow> sem \<Rightarrow> bool" where
  "yields M r n x \<longleftrightarrow> (let (accepted, result) = M (n_opcode n) (n_flags n) (map (val r) (n_args n)) in
     accepted \<and> (\<forall>y. result = Some y \<longrightarrow> x = y))"

text \<open>
  A state of a run: the block, the instructions of the block that have been computed, the block
  it was entered from with the values at its end, and the values now.
\<close>

type_synonym run_state = "nat \<times> nat list \<times> (nat \<times> env) option \<times> env"

definition phi_yields :: "(nat \<times> env) option \<Rightarrow> ir_inst \<Rightarrow> sem \<Rightarrow> bool" where
  "phi_yields from n x \<longleftrightarrow> (case from of None \<Rightarrow> False | Some (p, r) \<Rightarrow>
     \<exists>k < length (n_args n). n_phi_blocks n ! k = p \<and> x = val r (n_args n ! k))"

definition computes :: "opcode_meaning \<Rightarrow> ir_graph \<Rightarrow> (nat \<times> env) option \<Rightarrow> env \<Rightarrow> nat \<Rightarrow> sem \<Rightarrow> bool" where
  "computes M g from r i x \<longleftrightarrow> (case g i of None \<Rightarrow> False | Some n \<Rightarrow>
     if is_phi n then phi_yields from n x else yields M r n x)"

inductive runs :: "opcode_meaning \<Rightarrow> ir_block list \<Rightarrow> ir_graph \<Rightarrow> run_state list \<Rightarrow> bool" for M bl g where
  run_start: "0 < length bl \<Longrightarrow> runs M bl g [(0, [], None, r)]"
| run_branch: "runs M bl g ((p, insts_of bl p, from, r) # tr) \<Longrightarrow> edge bl p b \<Longrightarrow>
    runs M bl g ((b, [], Some (p, r), r) # (p, insts_of bl p, from, r) # tr)"
| run_inst: "runs M bl g ((b, xs, from, r) # tr) \<Longrightarrow> insts_of bl b = xs @ i # ys \<Longrightarrow> computes M g from r i x \<Longrightarrow>
    runs M bl g ((b, xs @ [i], from, r(i := x)) # (b, xs, from, r) # tr)"

text \<open>What is available at a state.\<close>

definition known :: "ir_block list \<Rightarrow> nat \<Rightarrow> nat list \<Rightarrow> nat set" where
  "known bl b xs = {i. avail bl b i} \<union> set xs"

lemma runs_shape:
  "runs M bl g tr \<Longrightarrow> tr \<noteq> []"
  by (cases rule: runs.cases) auto

lemma runs_state:
  assumes "runs M bl g ((b, xs, from, r) # tr)"
  shows "b < length bl \<and> (\<exists>ys. insts_of bl b = xs @ ys) \<and>
    (case from of None \<Rightarrow> b = 0
     | Some (p, r0) \<Rightarrow> edge bl p b \<and> (\<exists>f tr'. runs M bl g ((p, insts_of bl p, f, r0) # tr') \<and> length tr' < length tr) \<and>
         (\<forall>j. j \<notin> set xs \<longrightarrow> r j = r0 j))"
  using assms
proof (induction "(b, xs, from, r) # tr" arbitrary: b xs "from" r tr rule: runs.induct)
  case (run_start r)
  then show ?case by simp
next
  case (run_branch p f r tr b)
  then show ?case by (auto simp: edge_def)
next
  case (run_inst b xs f r tr i ys x)
  from run_inst.hyps(2,3) show ?case
    by (cases f) (auto intro: less_SucI)
qed

lemma known_inst:
  assumes "cfg_ok bl" "insts_of bl b = xs @ i # ys"
  shows "known bl b xs = {a. sdom bl a i}"
proof -
  have x: "before (insts_of bl b) i = set xs" using before_split distinct_insts [OF assms(1), of b] assms(2) by simp
  have "i \<in> set (insts_of bl b)" using assms(2) by simp
  then have "i \<in> set (insts_of bl c) \<longleftrightarrow> c = b" for c using block_unique [OF assms(1), of i b c] by blast
  then have "sdom bl a i \<longleftrightarrow> avail bl b a \<or> a \<in> set xs" for a unfolding sdom_def using x by simp
  then show ?thesis by (auto simp: known_def)
qed

lemma known_end: "known bl b (insts_of bl b) = {a. avail_end bl b a}"
  by (auto simp: known_def avail_end_def)

lemma known_entry:
  assumes "0 < length bl"
  shows "known bl 0 [] = {}"
proof -
  have "\<not> avail bl 0 i" for i
  proof
    assume "avail bl 0 i"
    from this [unfolded avail_def, rule_format, OF path_entry [OF assms]] show False by simp
  qed
  then show ?thesis by (simp add: known_def)
qed

lemma known_branch: "edge bl p b \<Longrightarrow> known bl b [] \<subseteq> known bl p (insts_of bl p)"
  using avail_edge by (auto simp: known_def avail_end_def)

lemma known_closed:
  assumes "cfg_ok bl" "insts_of bl b = xs @ ys" "i \<in> known bl b xs" "sdom bl a i"
  shows "a \<in> known bl b xs"
proof (cases "avail bl b i")
  case True
  then show ?thesis using avail_trans [OF assms(1) True assms(4)] by (simp add: known_def)
next
  case False
  then have i: "i \<in> set xs" using assms(3) by (simp add: known_def)
  then obtain us vs where xs: "xs = us @ i # vs" by (meson split_list)
  then have "known bl b us = {a. sdom bl a i}" using known_inst [OF assms(1), of b us i "vs @ ys"] assms(2) by simp
  then show ?thesis using assms(4) xs by (auto simp: known_def)
qed

text \<open>A later computation in the block cannot change an operand of a known instruction.\<close>

lemma known_step:
  assumes "cfg_ok bl" "insts_of bl b = xs @ w # ys" "i \<in> known bl b xs"
  shows "\<not> sdom bl w i" "i \<noteq> w"
  using assms known_inst [OF assms(1,2)] sdom_asym [OF assms(1)] sdom_irrefl [OF assms(1)] by auto

lemma yields_cong:
  "(\<And>a. VInst a \<in> set (n_args n) \<Longrightarrow> r a = s a) \<Longrightarrow> yields M r n x \<longleftrightarrow> yields M s n x"
proof -
  assume a: "\<And>a. VInst a \<in> set (n_args n) \<Longrightarrow> r a = s a"
  have "map (val r) (n_args n) = map (val s) (n_args n)" by (rule map_cong) (use a in \<open>auto intro: val_cong\<close>)
  then show ?thesis by (simp only: yields_def)
qed

lemma yields_upd: "VInst w \<notin> set (n_args n) \<Longrightarrow> yields M (r(w := x)) n y \<longleftrightarrow> yields M r n y"
  by (rule yields_cong) auto

text \<open>Every instruction that is known at a state, other than a phi, has the value its operands yield now.\<close>

lemma runs_equations:
  assumes "ssa_ok bl g" "runs M bl g ((b, xs, from, r) # tr)" "i \<in> known bl b xs" "g i = Some n" "\<not> is_phi n"
  shows "yields M r n (r i)"
  using assms(2,3)
proof (induction "(b, xs, from, r) # tr" arbitrary: b xs "from" r tr rule: runs.induct)
  case (run_start r)
  then show ?case by (simp add: known_entry)
next
  case (run_branch p f r tr b)
  then show ?case using known_branch by blast
next
  case (run_inst b xs f r tr w ys x)
  note cfg = ssa_okD(1) [OF assms(1)]
  note n = ssa_okD(3) [OF assms(1,4,5)]
  show ?case
  proof (cases "i = w")
    case True
    then have "yields M r n x" using run_inst.hyps(4) assms(4,5) by (simp add: computes_def)
    moreover have "VInst w \<notin> set (n_args n)" using n sdom_irrefl [OF cfg] True by (auto simp: inst_ok_def)
    ultimately show ?thesis using True by (simp add: yields_upd)
  next
    case False
    then have k: "i \<in> known bl b xs" using run_inst.prems by (auto simp: known_def)
    then have "yields M r n (r i)" using run_inst.hyps(2) by blast
    moreover have "VInst w \<notin> set (n_args n)"
      using n known_step(1) [OF cfg run_inst.hyps(3) k] by (auto simp: inst_ok_def)
    ultimately show ?thesis using False by (simp add: yields_upd)
  qed
qed

section \<open>Replacing an instruction by its value\<close>

text \<open>\<open>same_value M bl g i v\<close>: at every state of every run where \<open>i\<close> is known it has the value of \<open>v\<close>.\<close>

definition same_value :: "opcode_meaning \<Rightarrow> ir_block list \<Rightarrow> ir_graph \<Rightarrow> nat \<Rightarrow> ir_value \<Rightarrow> bool" where
  "same_value M bl g i v \<longleftrightarrow> (\<forall>b xs from r tr. runs M bl g ((b, xs, from, r) # tr) \<longrightarrow> i \<in> known bl b xs \<longrightarrow> r i = val r v)"

locale identity_meaning =
  fixes M :: opcode_meaning
  assumes identity: "M (Base Identity) flags [x] = (True, Some x)"
begin

lemma replace_computes:
  assumes ok: "ssa_ok bl g" and same: "same_value M bl g i v" and v: "value_sdom bl v i"
    and run: "runs M bl g ((b, xs, from, r) # tr)" "insts_of bl b = xs @ w # ys" "computes M g from r w x"
  shows "computes M (replace_graph True i v g) from r w x"
proof -
  let ?g = "replace_graph True i v g"
  note cfg = ssa_okD(1) [OF ok]
  obtain n where n: "g w = Some n" using run(3) by (auto simp: computes_def split: option.splits)
  show ?thesis
  proof (cases "w = i")
    case True
    have next_state: "runs M bl g ((b, xs @ [i], from, r(i := x)) # (b, xs, from, r) # tr)"
      using runs.run_inst [OF run] True by simp
    have vi: "v \<noteq> VInst i" using v sdom_irrefl [OF cfg] by (auto simp: value_sdom_def)
    have "x = val r v"
      using same next_state val_upd [OF vi, of r x] unfolding same_value_def known_def by fastforce
    then show ?thesis using True n identity by (simp add: computes_def replace_graph_def replaced_def is_phi_def yields_def)
  next
    case False
    then have g: "?g w = Some (subst_inst i v n)" using n by (simp add: replace_graph_def)
    show ?thesis
    proof (cases "is_phi n")
      case True
      then obtain p r0 k where k: "from = Some (p, r0)" "k < length (n_args n)" "n_phi_blocks n ! k = p" "x = val r0 (n_args n ! k)"
        using run(3) n by (auto simp: computes_def phi_yields_def split: option.splits)
      obtain f tr' where p: "runs M bl g ((p, insts_of bl p, f, r0) # tr')" using runs_state [OF run(1)] k(1) by auto
      have "val r0 (subst_value i v (n_args n ! k)) = val r0 (n_args n ! k)"
      proof (cases "n_args n ! k = VInst i")
        case a: True
        then have "avail_end bl p i" using ssa_okD(2) [OF ok n True] k by (auto simp: phi_ok_def)
        then have "i \<in> known bl p (insts_of bl p)" by (simp add: known_end)
        then have "r0 i = val r0 v" using same p unfolding same_value_def by blast
        with a show ?thesis by (simp add: subst_value_def)
      qed (simp add: subst_value_def)
      then show ?thesis using True g k by (auto simp: computes_def is_phi_def subst_inst_def phi_yields_def)
    next
      case nphi: False
      have "val r (subst_value i v a) = val r a" if a: "a \<in> set (n_args n)" for a
      proof (cases "a = VInst i")
        case True
        then have "sdom bl i w" using ssa_okD(3) [OF ok n nphi] a by (auto simp: inst_ok_def)
        then have "i \<in> known bl b xs" using known_inst [OF cfg run(2)] by simp
        then have "r i = val r v" using same run(1) unfolding same_value_def by blast
        with True show ?thesis by (simp add: subst_value_def)
      qed (simp add: subst_value_def)
      then have m: "map (val r) (n_args (subst_inst i v n)) = map (val r) (n_args n)" by (simp add: subst_inst_def)
      have "yields M r (subst_inst i v n) x" using nphi n run(3) unfolding yields_def m by (simp add: computes_def yields_def)
      then show ?thesis using nphi g by (simp add: computes_def is_phi_def)
    qed
  qed
qed

theorem replace_keeps_runs:
  assumes "ssa_ok bl g" "same_value M bl g i v" "value_sdom bl v i"
  shows "runs M bl g tr \<Longrightarrow> runs M bl (replace_graph True i v g) tr"
proof (induction rule: runs.induct)
  case (run_start r)
  then show ?case by (rule runs.run_start)
next
  case (run_branch p f r tr b)
  then show ?case by (intro runs.run_branch)
next
  case (run_inst b xs f r tr w ys x)
  then show ?case using replace_computes [OF assms] runs.run_inst by blast
qed

end

section \<open>Chains of identities\<close>

inductive chain :: "ir_graph \<Rightarrow> ir_value \<Rightarrow> ir_value \<Rightarrow> bool" for g where
  chain_end: "chain g v v"
| chain_step: "g j = Some n \<Longrightarrow> n_opcode n = Base Identity \<Longrightarrow> n_args n = [a] \<Longrightarrow> chain g a v \<Longrightarrow> chain g (VInst j) v"

text \<open>The end of a chain from an argument is available where the argument is.\<close>

lemma chain_avail:
  assumes "ssa_ok bl g" "chain g a v" "\<And>i j. i \<in> A \<Longrightarrow> sdom bl j i \<Longrightarrow> j \<in> A" "\<And>j. a = VInst j \<Longrightarrow> j \<in> A"
  shows "v = VInst d \<Longrightarrow> d \<in> A"
  using assms(2,4)
proof (induction rule: chain.induct)
  case (chain_step j n a v)
  have "inst_ok bl j n" using ssa_okD(3) [OF assms(1) chain_step.hyps(1)] chain_step.hyps(2) by (simp add: is_phi_def)
  then have "a = VInst x \<Longrightarrow> x \<in> A" for x using chain_step assms(3) by (auto simp: inst_ok_def)
  then show ?case using chain_step by blast
qed simp

lemma chain_not_void:
  assumes "ssa_ok bl g" "chain g a v" "a \<noteq> VVoid"
  shows "v \<noteq> VVoid"
  using assms(2,3)
proof (induction rule: chain.induct)
  case (chain_step j n a v)
  have "inst_ok bl j n" using ssa_okD(3) [OF assms(1) chain_step.hyps(1)] chain_step.hyps(2) by (simp add: is_phi_def)
  then show ?case using chain_step by (auto simp: inst_ok_def)
qed

lemma chain_sdom: "ssa_ok bl g \<Longrightarrow> chain g a v \<Longrightarrow> value_sdom bl a i \<Longrightarrow> value_sdom bl v i"
  using chain_avail [of bl g a v "{j. sdom bl j i}"] chain_not_void sdom_trans ssa_okD(1) unfolding value_sdom_def by blast

lemma chain_avail_end:
  "ssa_ok bl g \<Longrightarrow> chain g a v \<Longrightarrow> (\<And>j. a = VInst j \<Longrightarrow> avail_end bl p j) \<Longrightarrow> v = VInst d \<Longrightarrow> avail_end bl p d"
  using chain_avail [of bl g a v "{j. avail_end bl p j}"] avail_end_trans ssa_okD(1) by blast

context identity_meaning
begin

lemma chain_val:
  assumes "ssa_ok bl g" "runs M bl g ((b, xs, from, r) # tr)" "chain g a v" "\<And>j. a = VInst j \<Longrightarrow> j \<in> known bl b xs"
  shows "val r a = val r v"
  using assms(3,4)
proof (induction rule: chain.induct)
  case (chain_step j n a v)
  have np: "\<not> is_phi n" using chain_step.hyps(2) by (simp add: is_phi_def)
  have j: "j \<in> known bl b xs" using chain_step.prems by simp
  have "yields M r n (r j)" by (rule runs_equations [OF assms(1,2) j chain_step.hyps(1) np])
  then have "r j = val r a" using chain_step.hyps(2,3) identity by (simp add: yields_def)
  moreover have "x \<in> known bl b xs" if "a = VInst x" for x
  proof -
    have "sdom bl x j" using ssa_okD(3) [OF assms(1) chain_step.hyps(1) np] chain_step.hyps(3) that by (simp add: inst_ok_def)
    moreover obtain ys where "insts_of bl b = xs @ ys" using runs_state [OF assms(2)] by blast
    ultimately show ?thesis using known_closed [OF ssa_okD(1) [OF assms(1)] _ j] by blast
  qed
  ultimately show ?case using chain_step.IH by simp
qed simp

end

section \<open>Trivial phis\<close>

text \<open>A phi each of whose arguments leads to \<open>v\<close> or back to the phi.\<close>

definition trivial_phi :: "ir_graph \<Rightarrow> nat \<Rightarrow> ir_inst \<Rightarrow> ir_value \<Rightarrow> bool" where
  "trivial_phi g i n v \<longleftrightarrow> is_phi n \<and> v \<noteq> VInst i \<and> (\<exists>a \<in> set (n_args n). chain g a v) \<and>
     (\<forall>a \<in> set (n_args n). chain g a v \<or> chain g a (VInst i))"

lemma phi_arg_end:
  assumes "ssa_ok bl g" "g i = Some n" "is_phi n" "k < length (n_args n)" "chain g (n_args n ! k) (VInst d)"
  shows "avail_end bl (n_phi_blocks n ! k) d"
proof (rule chain_avail_end [OF assms(1,5) _ refl])
  show "n_args n ! k = VInst j \<Longrightarrow> avail_end bl (n_phi_blocks n ! k) j" for j
    using ssa_okD(2) [OF assms(1-3)] assms(4) by (auto simp: phi_ok_def)
qed

lemma phi_pred:
  assumes "ssa_ok bl g" "g i = Some n" "is_phi n" "i \<in> set (insts_of bl b)" "edge bl p b"
  shows "\<exists>k < length (n_args n). n_phi_blocks n ! k = p"
proof -
  have "p \<in> set (n_phi_blocks n)" "length (n_phi_blocks n) = length (n_args n)"
    using ssa_okD(2) [OF assms(1-3)] assms(4,5) by (auto simp: phi_ok_def)
  then show ?thesis by (metis in_set_conv_nth)
qed

lemma trivial_phi_avail:
  assumes ok: "ssa_ok bl g" and n: "g i = Some n" "trivial_phi g i n (VInst d)" and b: "i \<in> set (insts_of bl b)"
  shows "avail bl b d"
  unfolding avail_def
proof (intro allI impI)
  note cfg = ssa_okD(1) [OF ok]
  have phi: "is_phi n" using n(2) by (simp add: trivial_phi_def)
  fix ps assume "cfg_path bl (b # ps)"
  then show "\<exists>c \<in> set ps. d \<in> set (insts_of bl c)"
  proof (induction "length ps" arbitrary: ps rule: less_induct)
    case less
    have "b \<noteq> 0" using ssa_okD(2) [OF ok n(1) phi] b by (auto simp: phi_ok_def)
    with less.prems obtain p qs where ps: "ps = p # qs" "cfg_path bl (p # qs)" "edge bl p b" by (cases rule: cfg_path_ConsE) auto
    obtain k where k: "k < length (n_args n)" "n_phi_blocks n ! k = p" using phi_pred [OF ok n(1) phi b ps(3)] by blast
    then have "chain g (n_args n ! k) (VInst d) \<or> chain g (n_args n ! k) (VInst i)" using n(2) by (simp add: trivial_phi_def)
    then have "avail_end bl p d \<or> avail_end bl p i" using phi_arg_end [OF ok n(1) phi k(1)] k(2) by blast
    then show ?case
    proof
      assume "avail_end bl p d"
      then show ?thesis using ps by (auto simp: avail_end_def avail_def)
    next
      assume "avail_end bl p i"
      then obtain c where c: "c \<in> set ps" "i \<in> set (insts_of bl c)" using ps by (auto simp: avail_end_def avail_def)
      then have "b \<in> set ps" using block_unique [OF cfg b] by simp
      then obtain us vs where us: "ps = us @ b # vs" by (meson split_list)
      have "cfg_path bl (b # vs)" using path_suffix [of bl "b # us" b vs] less.prems us by simp
      then have "\<exists>c \<in> set vs. d \<in> set (insts_of bl c)" using less.hyps [of vs] us by simp
      then show ?thesis using us by auto
    qed
  qed
qed

lemma trivial_phi_sdom:
  assumes "ssa_ok bl g" "g i = Some n" "trivial_phi g i n v"
  shows "value_sdom bl v i"
proof -
  obtain a where a: "a \<in> set (n_args n)" "chain g a v" using assms(3) by (auto simp: trivial_phi_def)
  have "phi_ok bl i n" using ssa_okD(2) [OF assms(1,2)] assms(3) by (simp add: trivial_phi_def)
  then have "a \<noteq> VVoid" using a(1) by (auto simp: phi_ok_def)
  then have "v \<noteq> VVoid" using chain_not_void [OF assms(1) a(2)] by simp
  moreover have "v = VInst d \<Longrightarrow> sdom bl d i" for d
    using trivial_phi_avail [OF assms(1,2)] assms(3) ssa_okD(4) [OF assms(1,2)] by (auto simp: sdom_def)
  ultimately show ?thesis by (simp add: value_sdom_def)
qed

context identity_meaning
begin

lemma trivial_phi_run:
  assumes ok: "ssa_ok bl g" and n: "g i = Some n" "trivial_phi g i n v"
  shows "runs M bl g tr \<Longrightarrow> (b, xs, from, r) \<in> set tr \<Longrightarrow> i \<in> known bl b xs \<Longrightarrow> r i = val r v"
proof (induction "length tr" arbitrary: tr b xs "from" r rule: less_induct)
  case less
  note cfg = ssa_okD(1) [OF ok]
  have phi: "is_phi n" and vi: "v \<noteq> VInst i" using n(2) by (auto simp: trivial_phi_def)
  note vdom = trivial_phi_sdom [OF ok n]
  from less.prems(1) show ?case
  proof (cases rule: runs.cases)
    case (run_start r0)
    then show ?thesis using less.prems(2,3) known_entry by auto
  next
    case (run_branch p f r0 tr0 b0)
    have "r' i = val r' v" if "(b', xs', f', r') \<in> set (tl tr)" "i \<in> known bl b' xs'" for b' xs' f' r'
      using less.hyps [of "tl tr", OF _ _ that] run_branch by simp
    note IH = this [of p "insts_of bl p" f r0]
    show ?thesis
    proof (cases "(b, xs, from, r) \<in> set (tl tr)")
      case True
      then show ?thesis using less.hyps [of "tl tr", OF _ _ True less.prems(3)] run_branch by simp
    next
      case False
      then have "b = b0" "xs = []" "r = r0" using less.prems(2) run_branch by auto
      then show ?thesis using IH less.prems(3) known_branch [OF run_branch(3)] run_branch(1) by auto
    qed
  next
    case (run_inst b0 xs0 f r0 tr0 w ys x)
    have IH: "r' i = val r' v" if "(b', xs', f', r') \<in> set (tl tr)" "i \<in> known bl b' xs'" for b' xs' f' r'
      using less.hyps [of "tl tr", OF _ _ that] run_inst by simp
    show ?thesis
    proof (cases "(b, xs, from, r) \<in> set (tl tr)")
      case True
      then show ?thesis using IH less.prems(3) by blast
    next
      case False
      with less.prems(2) run_inst have s: "b = b0" "xs = xs0 @ [w]" "r = r0(w := x)" by auto
      show ?thesis
      proof (cases "w = i")
        case iw: True
        obtain p r1 k where k: "f = Some (p, r1)" "k < length (n_args n)" "n_phi_blocks n ! k = p" "x = val r1 (n_args n ! k)"
          using run_inst(4) n(1) phi iw by (auto simp: computes_def phi_yields_def split: option.splits)
        obtain f1 tr1 where p: "runs M bl g ((p, insts_of bl p, f1, r1) # tr1)" "length tr1 < length tr0" "\<forall>j. j \<notin> set xs0 \<longrightarrow> r0 j = r1 j"
          using runs_state [OF run_inst(2)] k(1) by auto
        have argk: "j \<in> known bl p (insts_of bl p)" if "n_args n ! k = VInst j" for j
          using ssa_okD(2) [OF ok n(1) phi] k that by (auto simp: phi_ok_def known_end)
        have "x = val r1 v"
        proof (cases "chain g (n_args n ! k) v")
          case True
          then show ?thesis using chain_val [OF ok p(1) True argk] k(4) by simp
        next
          case self: False
          then have c: "chain g (n_args n ! k) (VInst i)" using n(2) k(2) by (auto simp: trivial_phi_def)
          then have "x = r1 i" using chain_val [OF ok p(1) c argk] k(4) by simp
          moreover have "i \<in> known bl p (insts_of bl p)" using phi_arg_end [OF ok n(1) phi k(2) c] k(3) by (simp add: known_end)
          ultimately show ?thesis using less.hyps [OF _ p(1), of p "insts_of bl p" f1 r1] p(2) run_inst(1) by simp
        qed
        also have "\<dots> = val r0 v"
        proof (rule val_cong)
          fix a assume a: "v = VInst a"
          have "i \<in> set (insts_of bl b0)" using run_inst(3) iw by simp
          then have "avail bl b0 a" using trivial_phi_avail [OF ok n(1)] n(2) a by simp
          then have "a \<notin> set (insts_of bl b0)" using avail_not_in [OF cfg] runs_state [OF run_inst(2)] by simp
          then show "r1 a = r0 a" using p(3) run_inst(3) by simp
        qed
        finally show ?thesis using s(3) iw val_upd [OF vi] by simp
      next
        case False
        then have k: "i \<in> known bl b0 xs0" using less.prems(3) s by (auto simp: known_def)
        have "r0 i = val r0 v" using IH [of b0 xs0 f r0] run_inst(1) k by simp
        moreover have "v \<noteq> VInst w" using known_step(1) [OF cfg run_inst(3) k] vdom by (auto simp: value_sdom_def)
        ultimately show ?thesis using s(3) False val_upd by simp
      qed
    qed
  qed
qed

lemma trivial_phi_same_value:
  assumes "ssa_ok bl g" "g i = Some n" "trivial_phi g i n v"
  shows "same_value M bl g i v"
  unfolding same_value_def using trivial_phi_run [OF assms] by (meson list.set_intros(1))

end

end
