(* ===== verification/ShaderFold.thy ===== *)
theory ShaderFold
  imports ShaderRuns
begin

text \<open>
  \<open>ConstantPropagation.cpp\<close>: folding of one instruction and the pass over all blocks.  Each
  branch of \<open>FoldInstruction\<close> ends in at most one call of \<open>Replace\<close>; the functions below return
  the value of that call, if there is one, and \<open>FoldInstruction\<close> makes the call.
\<close>

section \<open>Folding rules\<close>

type_synonym fold_result = "ir_value option outcome"

definition Fold_Arg :: "ir_store \<Rightarrow> ir_inst \<Rightarrow> nat \<Rightarrow> ir_value outcome" where
  "Fold_Arg st n index = obind (Inst_Arg n index) (Resolve st)"

text \<open>The second rule is tried when the first one does not apply.\<close>

definition else_fold :: "fold_result \<Rightarrow> fold_result \<Rightarrow> fold_result" where
  "else_fold m m' = obind m (\<lambda>r. case r of Some v \<Rightarrow> Ret (Some v) | None \<Rightarrow> m')"

definition with_args1 :: "ir_store \<Rightarrow> ir_inst \<Rightarrow> (ir_value \<Rightarrow> fold_result) \<Rightarrow> fold_result" where
  "with_args1 st n f = obind (Fold_Arg st n 0) f"

definition with_args2 :: "ir_store \<Rightarrow> ir_inst \<Rightarrow> (ir_value \<Rightarrow> ir_value \<Rightarrow> fold_result) \<Rightarrow> fold_result" where
  "with_args2 st n f = obind (Fold_Arg st n 0) (\<lambda>lhs. obind (Fold_Arg st n 1) (f lhs))"

definition with_args3 :: "ir_store \<Rightarrow> ir_inst \<Rightarrow> (ir_value \<Rightarrow> ir_value \<Rightarrow> ir_value \<Rightarrow> fold_result) \<Rightarrow> fold_result" where
  "with_args3 st n f = with_args2 st n (\<lambda>x y. obind (Fold_Arg st n 2) (f x y))"

definition with_args4 :: "ir_store \<Rightarrow> ir_inst \<Rightarrow> (ir_value \<Rightarrow> ir_value \<Rightarrow> ir_value \<Rightarrow> ir_value \<Rightarrow> fold_result) \<Rightarrow> fold_result" where
  "with_args4 st n f = with_args3 st n (\<lambda>x y z. obind (Fold_Arg st n 3) (f x y z))"

definition FoldU32 :: "ir_store \<Rightarrow> ir_inst \<Rightarrow> (u32 \<Rightarrow> u32 \<Rightarrow> u32) \<Rightarrow> fold_result" where
  "FoldU32 st n f = with_args2 st n (\<lambda>lhs rhs. Ret (case (lhs, rhs) of
     (VU32 a, VU32 b) \<Rightarrow> Some (VU32 (f a b)) | _ \<Rightarrow> None))"

definition FoldU64 :: "ir_store \<Rightarrow> ir_inst \<Rightarrow> (u64 \<Rightarrow> u64 \<Rightarrow> u64) \<Rightarrow> fold_result" where
  "FoldU64 st n f = with_args2 st n (\<lambda>lhs rhs. Ret (case (lhs, rhs) of
     (VU64 a, VU64 b) \<Rightarrow> Some (VU64 (f a b)) | _ \<Rightarrow> None))"

definition FoldU64Shift :: "ir_store \<Rightarrow> ir_inst \<Rightarrow> (u64 \<Rightarrow> u32 \<Rightarrow> u64) \<Rightarrow> fold_result" where
  "FoldU64Shift st n f = with_args2 st n (\<lambda>lhs rhs. Ret (case (lhs, rhs) of
     (VU64 a, VU32 b) \<Rightarrow> Some (VU64 (f a b)) | _ \<Rightarrow> None))"

definition FoldU32Compare :: "ir_store \<Rightarrow> ir_inst \<Rightarrow> (u32 \<Rightarrow> u32 \<Rightarrow> bool) \<Rightarrow> fold_result" where
  "FoldU32Compare st n f = with_args2 st n (\<lambda>lhs rhs. Ret (case (lhs, rhs) of
     (VU32 a, VU32 b) \<Rightarrow> Some (VU1 (f a b)) | _ \<Rightarrow> None))"

definition FoldU64Compare :: "ir_store \<Rightarrow> ir_inst \<Rightarrow> (u64 \<Rightarrow> u64 \<Rightarrow> bool) \<Rightarrow> fold_result" where
  "FoldU64Compare st n f = with_args2 st n (\<lambda>lhs rhs. Ret (case (lhs, rhs) of
     (VU64 a, VU64 b) \<Rightarrow> Some (VU1 (f a b)) | _ \<Rightarrow> None))"

definition FoldLogical :: "ir_store \<Rightarrow> ir_inst \<Rightarrow> (bool \<Rightarrow> bool \<Rightarrow> bool) \<Rightarrow> fold_result" where
  "FoldLogical st n f = with_args2 st n (\<lambda>lhs rhs. Ret (case (lhs, rhs) of
     (VU1 a, VU1 b) \<Rightarrow> Some (VU1 (f a b)) | _ \<Rightarrow> None))"

definition imm_identity :: "ir_type \<Rightarrow> u64 \<Rightarrow> ir_value \<Rightarrow> bool" where
  "imm_identity T identity v \<longleftrightarrow> (case v of
     VU32 a \<Rightarrow> T = T_U32 \<and> ucast a = identity
   | VU64 a \<Rightarrow> T = T_U64 \<and> a = identity
   | _ \<Rightarrow> False)"

definition ReplaceBinaryIdentity :: "ir_store \<Rightarrow> ir_inst \<Rightarrow> ir_type \<Rightarrow> u64 \<Rightarrow> fold_result" where
  "ReplaceBinaryIdentity st n T identity = with_args2 st n (\<lambda>lhs rhs.
     Ret (if imm_identity T identity lhs then Some rhs
       else if imm_identity T identity rhs then Some lhs
       else None))"

definition FoldSelect :: "ir_store \<Rightarrow> ir_inst \<Rightarrow> fold_result" where
  "FoldSelect st n = with_args3 st n (\<lambda>condition true_value false_value. Ret (case condition of
     VU1 c \<Rightarrow> Some (if c then true_value else false_value)
   | _ \<Rightarrow> if true_value = false_value then Some true_value else None))"

fun FoldPhi_loop :: "ir_store \<Rightarrow> nat \<Rightarrow> ir_value list \<Rightarrow> ir_value \<Rightarrow> fold_result" where
  "FoldPhi_loop st this [] same = Ret (if Value_IsEmpty same then None else Some same)"
| "FoldPhi_loop st this (a # as) same = obind (Resolve st a) (\<lambda>v.
     if TryInstruction v = Some this then FoldPhi_loop st this as same
     else if Value_IsEmpty same then FoldPhi_loop st this as v
     else if same \<noteq> v then Ret None
     else FoldPhi_loop st this as same)"

definition FoldPhi :: "ir_store \<Rightarrow> nat \<Rightarrow> ir_inst \<Rightarrow> fold_result" where
  "FoldPhi st this n = FoldPhi_loop st this (n_args n) VVoid"

text \<open>An argument of the instruction that produces a value, if it has the opcode.\<close>

definition producer_arg :: "ir_store \<Rightarrow> ir_value \<Rightarrow> value_opcode \<Rightarrow> nat \<Rightarrow> fold_result" where
  "producer_arg st v opcode index = (case TryInstruction v of
     None \<Rightarrow> Ret None
   | Some p \<Rightarrow> obind (get_inst st p) (\<lambda>producer.
       if n_opcode producer = opcode then omap Some (Inst_Arg producer index) else Ret None))"

definition FoldBitCast :: "ir_store \<Rightarrow> ir_inst \<Rightarrow> value_opcode \<Rightarrow> fold_result" where
  "FoldBitCast st n reverse = with_args1 st n (\<lambda>v. case v of
     VF32 x \<Rightarrow> Ret (if n_opcode n = Cast BitCastU32F32 then Some (VU32 x) else None)
   | VU32 x \<Rightarrow> Ret (if n_opcode n = Cast BitCastF32U32 then Some (VF32 x) else None)
   | VF16 x \<Rightarrow> Ret (if n_opcode n = Cast BitCastU16F16 then Some (VU16 x) else None)
   | VU16 x \<Rightarrow> Ret (if n_opcode n = Cast BitCastF16U16 then Some (VF16 x) else None)
   | _ \<Rightarrow> producer_arg st v reverse 0)"

text \<open>Two arguments of a producer with the opcode, resolved.\<close>

definition producer_args2 :: "ir_store \<Rightarrow> ir_value \<Rightarrow> value_opcode \<Rightarrow> (ir_value \<Rightarrow> ir_value \<Rightarrow> ir_value option) \<Rightarrow> fold_result" where
  "producer_args2 st v opcode f = (case TryInstruction v of
     None \<Rightarrow> Ret None
   | Some p \<Rightarrow> obind (get_inst st p) (\<lambda>producer.
       if n_opcode producer = opcode then
         obind (Fold_Arg st producer 0) (\<lambda>x. obind (Fold_Arg st producer 1) (\<lambda>y. Ret (f x y)))
       else Ret None))"

definition producer_args1 :: "ir_store \<Rightarrow> ir_value \<Rightarrow> value_opcode \<Rightarrow> (ir_value \<Rightarrow> ir_value option) \<Rightarrow> fold_result" where
  "producer_args1 st v opcode f = (case TryInstruction v of
     None \<Rightarrow> Ret None
   | Some p \<Rightarrow> obind (get_inst st p) (\<lambda>producer.
       if n_opcode producer = opcode then obind (Fold_Arg st producer 0) (\<lambda>x. Ret (f x)) else Ret None))"

definition FoldCompositeExtract :: "ir_store \<Rightarrow> ir_inst \<Rightarrow> value_opcode \<Rightarrow> nat \<Rightarrow> fold_result" where
  "FoldCompositeExtract st n construct components = with_args2 st n (\<lambda>composite index. case index of
     VU32 k \<Rightarrow>
       if unat k \<ge> components then Ret None
       else else_fold (producer_arg st composite construct (unat k))
         (else_fold
           (if k < 2 then producer_args2 st composite (Alu IAddCarry32) (\<lambda>lhs rhs. case (lhs, rhs) of
              (VU32 a, VU32 b) \<Rightarrow> let sum = (ucast a + ucast b :: u64) in
                Some (VU32 (if k = 0 then ucast sum else ucast (drop_bit 32 sum)))
            | _ \<Rightarrow> None) else Ret None)
           (if k < 2 then producer_args1 st composite (Cast UnpackUint2x32) (\<lambda>packed. case packed of
              VU64 w \<Rightarrow> Some (VU32 (ucast (drop_bit (unat k * 32) w)))
            | _ \<Rightarrow> None) else Ret None))
   | _ \<Rightarrow> Ret None)"

section \<open>Folding an instruction\<close>

definition popcount :: "'a::len word \<Rightarrow> u32" where
  "popcount w = of_nat (length (filter (bit w) [0..<LENGTH('a)]))"

definition fold_insert :: "u32 \<Rightarrow> u32 \<Rightarrow> u32 \<Rightarrow> u32 \<Rightarrow> u32" where
  "fold_insert base ins offset count =
     (if count = 0 then base
      else let bits = (if count = 32 then - 1 else push_bit (unat offset) (push_bit (unat count) 1 - 1)) in
        (base AND NOT bits) OR (push_bit (unat offset) ins AND bits))"

definition fold_uextract :: "u32 \<Rightarrow> u32 \<Rightarrow> u32 \<Rightarrow> u32" where
  "fold_uextract x offset count =
     (if count = 0 then 0
      else let bits = (if count = 32 then - 1 else push_bit (unat count) 1 - 1) in drop_bit (unat offset) x AND bits)"

definition fold_sextract :: "u32 \<Rightarrow> u32 \<Rightarrow> u32 \<Rightarrow> u32" where
  "fold_sextract x offset count =
     (if count = 0 then 0
      else let left = 32 - offset - count; bits = push_bit (unat left) x in
        signed_drop_bit (unat (left + offset)) bits)"

definition fold_modifier :: "ir_store \<Rightarrow> ir_inst \<Rightarrow> modifier_op \<Rightarrow> fold_result" where
  "fold_modifier st n opcode = (case opcode of
     BitFieldInsert \<Rightarrow> with_args4 st n (\<lambda>base ins offset count. Ret (case (base, ins, offset, count) of
       (VU32 a, VU32 b, VU32 c, VU32 d) \<Rightarrow> if c \<le> 32 \<and> d \<le> 32 - c then Some (VU32 (fold_insert a b c d)) else None
     | _ \<Rightarrow> None))
   | BitFieldUExtract \<Rightarrow> with_args3 st n (\<lambda>value offset count. Ret (case (value, offset, count) of
       (VU32 a, VU32 b, VU32 c) \<Rightarrow> if b > 32 \<or> c > 32 - b then None else Some (VU32 (fold_uextract a b c))
     | _ \<Rightarrow> None))
   | BitFieldSExtract \<Rightarrow> with_args3 st n (\<lambda>value offset count. Ret (case (value, offset, count) of
       (VU32 a, VU32 b, VU32 c) \<Rightarrow> if b > 32 \<or> c > 32 - b then None else Some (VU32 (fold_sextract a b c))
     | _ \<Rightarrow> None))
   | _ \<Rightarrow> Ret None)"

definition fold_cast :: "ir_store \<Rightarrow> ir_inst \<Rightarrow> cast_op \<Rightarrow> fold_result" where
  "fold_cast st n opcode = (case opcode of
     BitCastU16F16 \<Rightarrow> FoldBitCast st n (Cast BitCastF16U16)
   | BitCastF16U16 \<Rightarrow> FoldBitCast st n (Cast BitCastU16F16)
   | BitCastU32F32 \<Rightarrow> FoldBitCast st n (Cast BitCastF32U32)
   | BitCastF32U32 \<Rightarrow> FoldBitCast st n (Cast BitCastU32F32)
   | ConvertU16U32 \<Rightarrow> with_args1 st n (\<lambda>v. Ret (case v of VU32 x \<Rightarrow> Some (VU16 (ucast x)) | _ \<Rightarrow> None))
   | ConvertU32U16 \<Rightarrow> with_args1 st n (\<lambda>v. case v of
       VU16 x \<Rightarrow> Ret (Some (VU32 (ucast x))) | _ \<Rightarrow> producer_arg st v (Cast ConvertU16U32) 0)
   | ConvertU8U32 \<Rightarrow> with_args1 st n (\<lambda>v. Ret (case v of VU32 x \<Rightarrow> Some (VU8 (ucast x)) | _ \<Rightarrow> None))
   | ConvertU32U8 \<Rightarrow> with_args1 st n (\<lambda>v. case v of
       VU8 x \<Rightarrow> Ret (Some (VU32 (ucast x))) | _ \<Rightarrow> producer_arg st v (Cast ConvertU8U32) 0)
   | CompositeExtractU32x2 \<Rightarrow> FoldCompositeExtract st n (Cast CompositeConstructU32x2) 2
   | CompositeExtractU32x4 \<Rightarrow> FoldCompositeExtract st n (Cast CompositeConstructU32x4) 4
   | PackUint2x32 \<Rightarrow> with_args1 st n (\<lambda>v. else_fold (producer_arg st v (Cast UnpackUint2x32) 0)
       (producer_args2 st v (Cast CompositeConstructU32x2) (\<lambda>low high. case (low, high) of
          (VU32 a, VU32 b) \<Rightarrow> Some (VU64 (ucast a OR push_bit 32 (ucast b))) | _ \<Rightarrow> None)))
   | UnpackUint2x32 \<Rightarrow> with_args1 st n (\<lambda>v. producer_arg st v (Cast PackUint2x32) 0)
   | _ \<Rightarrow> Ret None)"

text \<open>The first argument, when the second one is the given immediate.\<close>

definition fold_rhs_u32 :: "ir_store \<Rightarrow> ir_inst \<Rightarrow> (u32 \<Rightarrow> bool) \<Rightarrow> fold_result" where
  "fold_rhs_u32 st n f = obind (Fold_Arg st n 1) (\<lambda>rhs. case rhs of
     VU32 b \<Rightarrow> if f b then omap Some (Fold_Arg st n 0) else Ret None | _ \<Rightarrow> Ret None)"

definition fold_rhs_u64 :: "ir_store \<Rightarrow> ir_inst \<Rightarrow> (u64 \<Rightarrow> bool) \<Rightarrow> fold_result" where
  "fold_rhs_u64 st n f = obind (Fold_Arg st n 1) (\<lambda>rhs. case rhs of
     VU64 b \<Rightarrow> if f b then omap Some (Fold_Arg st n 0) else Ret None | _ \<Rightarrow> Ret None)"

definition fold_alu :: "ir_store \<Rightarrow> ir_inst \<Rightarrow> alu_op \<Rightarrow> fold_result" where
  "fold_alu st n opcode = (case opcode of
     SelectU1 \<Rightarrow> FoldSelect st n
   | SelectF32 \<Rightarrow> FoldSelect st n
   | IAdd32 \<Rightarrow> else_fold (FoldU32 st n (\<lambda>a b. a + b)) (ReplaceBinaryIdentity st n T_U32 0)
   | IAdd64 \<Rightarrow> else_fold (FoldU64 st n (\<lambda>a b. a + b)) (ReplaceBinaryIdentity st n T_U64 0)
   | ISub32 \<Rightarrow> else_fold (FoldU32 st n (\<lambda>a b. a - b)) (fold_rhs_u32 st n (\<lambda>b. b = 0))
   | ISub64 \<Rightarrow> else_fold (FoldU64 st n (\<lambda>a b. a - b)) (fold_rhs_u64 st n (\<lambda>b. b = 0))
   | IMul32 \<Rightarrow> else_fold (FoldU32 st n (\<lambda>a b. a * b)) (ReplaceBinaryIdentity st n T_U32 1)
   | IMul64 \<Rightarrow> else_fold (FoldU64 st n (\<lambda>a b. a * b)) (ReplaceBinaryIdentity st n T_U64 1)
   | UDiv32 \<Rightarrow> obind (Fold_Arg st n 1) (\<lambda>rhs. case rhs of
       VU32 b \<Rightarrow> if b = 1 then omap Some (Fold_Arg st n 0)
         else if b \<noteq> 0 then FoldU32 st n (\<lambda>a b. a div b) else Ret None
     | _ \<Rightarrow> Ret None)
   | SMulHi \<Rightarrow> FoldU32 st n (\<lambda>a b. ucast (drop_bit 32 (scast a * scast b :: u64)))
   | UMulHi \<Rightarrow> FoldU32 st n (\<lambda>a b. ucast (drop_bit 32 (ucast a * ucast b :: u64)))
   | IAbs32 \<Rightarrow> with_args1 st n (\<lambda>v. Ret (case v of
       VU32 x \<Rightarrow> Some (VU32 (if x AND 0x80000000 \<noteq> 0 then 0 - x else x)) | _ \<Rightarrow> None))
   | ShiftLeftLogical32 \<Rightarrow> else_fold (FoldU32 st n (\<lambda>a b. push_bit (unat (b AND 31)) a)) (fold_rhs_u32 st n (\<lambda>b. b AND 31 = 0))
   | ShiftRightLogical32 \<Rightarrow> else_fold (FoldU32 st n (\<lambda>a b. drop_bit (unat (b AND 31)) a)) (fold_rhs_u32 st n (\<lambda>b. b AND 31 = 0))
   | ShiftRightArithmetic32 \<Rightarrow> FoldU32 st n (\<lambda>a b. signed_drop_bit (unat (b AND 31)) a)
   | ShiftLeftLogical64 \<Rightarrow> else_fold (FoldU64Shift st n (\<lambda>a b. push_bit (unat (b AND 63)) a)) (fold_rhs_u32 st n (\<lambda>b. b AND 63 = 0))
   | ShiftRightLogical64 \<Rightarrow> else_fold (FoldU64Shift st n (\<lambda>a b. drop_bit (unat (b AND 63)) a)) (fold_rhs_u32 st n (\<lambda>b. b AND 63 = 0))
   | ShiftRightArithmetic64 \<Rightarrow> FoldU64Shift st n (\<lambda>a b. signed_drop_bit (unat (b AND 63)) a)
   | BitwiseAnd32 \<Rightarrow> else_fold (FoldU32 st n (\<lambda>a b. a AND b)) (ReplaceBinaryIdentity st n T_U32 0xffffffff)
   | BitwiseAnd64 \<Rightarrow> else_fold (FoldU64 st n (\<lambda>a b. a AND b)) (ReplaceBinaryIdentity st n T_U64 (- 1))
   | BitwiseOr32 \<Rightarrow> else_fold (FoldU32 st n (\<lambda>a b. a OR b)) (ReplaceBinaryIdentity st n T_U32 0)
   | BitwiseXor32 \<Rightarrow> else_fold (FoldU32 st n (\<lambda>a b. a XOR b)) (ReplaceBinaryIdentity st n T_U32 0)
   | BitwiseOr64 \<Rightarrow> else_fold (FoldU64 st n (\<lambda>a b. a OR b)) (ReplaceBinaryIdentity st n T_U64 0)
   | BitwiseNot32 \<Rightarrow> with_args1 st n (\<lambda>v. case v of
       VU32 x \<Rightarrow> Ret (Some (VU32 (NOT x))) | _ \<Rightarrow> producer_arg st v (Alu BitwiseNot32) 0)
   | BitCount32 \<Rightarrow> with_args1 st n (\<lambda>v. Ret (case v of VU32 x \<Rightarrow> Some (VU32 (popcount x)) | _ \<Rightarrow> None))
   | BitCount64 \<Rightarrow> with_args1 st n (\<lambda>v. Ret (case v of VU64 x \<Rightarrow> Some (VU32 (popcount x)) | _ \<Rightarrow> None))
   | SMin32 \<Rightarrow> FoldU32 st n (\<lambda>a b. if sint a < sint b then a else b)
   | SMax32 \<Rightarrow> FoldU32 st n (\<lambda>a b. if sint a > sint b then a else b)
   | UMin32 \<Rightarrow> FoldU32 st n (\<lambda>a b. min a b)
   | UMax32 \<Rightarrow> FoldU32 st n (\<lambda>a b. max a b)
   | _ \<Rightarrow> Ret None)"

definition fold_compare :: "ir_store \<Rightarrow> ir_inst \<Rightarrow> compare_op \<Rightarrow> fold_result" where
  "fold_compare st n opcode = (case opcode of
     IEqual32 \<Rightarrow> FoldU32Compare st n (\<lambda>a b. a = b)
   | INotEqual32 \<Rightarrow> FoldU32Compare st n (\<lambda>a b. a \<noteq> b)
   | ULessThan32 \<Rightarrow> FoldU32Compare st n (\<lambda>a b. a < b)
   | ULessThanEqual32 \<Rightarrow> FoldU32Compare st n (\<lambda>a b. a \<le> b)
   | UGreaterThan32 \<Rightarrow> FoldU32Compare st n (\<lambda>a b. a > b)
   | UGreaterThanEqual32 \<Rightarrow> FoldU32Compare st n (\<lambda>a b. a \<ge> b)
   | SLessThan32 \<Rightarrow> FoldU32Compare st n (\<lambda>a b. sint a < sint b)
   | SLessThanEqual32 \<Rightarrow> FoldU32Compare st n (\<lambda>a b. sint a \<le> sint b)
   | SGreaterThan32 \<Rightarrow> FoldU32Compare st n (\<lambda>a b. sint a > sint b)
   | SGreaterThanEqual32 \<Rightarrow> FoldU32Compare st n (\<lambda>a b. sint a \<ge> sint b)
   | IEqual64 \<Rightarrow> FoldU64Compare st n (\<lambda>a b. a = b)
   | INotEqual64 \<Rightarrow> FoldU64Compare st n (\<lambda>a b. a \<noteq> b)
   | ULessThan64 \<Rightarrow> FoldU64Compare st n (\<lambda>a b. a < b)
   | ULessThanEqual64 \<Rightarrow> FoldU64Compare st n (\<lambda>a b. a \<le> b)
   | UGreaterThan64 \<Rightarrow> FoldU64Compare st n (\<lambda>a b. a > b)
   | UGreaterThanEqual64 \<Rightarrow> FoldU64Compare st n (\<lambda>a b. a \<ge> b)
   | SLessThan64 \<Rightarrow> FoldU64Compare st n (\<lambda>a b. sint a < sint b)
   | SLessThanEqual64 \<Rightarrow> FoldU64Compare st n (\<lambda>a b. sint a \<le> sint b)
   | SGreaterThan64 \<Rightarrow> FoldU64Compare st n (\<lambda>a b. sint a > sint b)
   | SGreaterThanEqual64 \<Rightarrow> FoldU64Compare st n (\<lambda>a b. sint a \<ge> sint b)
   | LogicalAnd \<Rightarrow> else_fold (FoldLogical st n (\<lambda>a b. a \<and> b)) (with_args2 st n (\<lambda>lhs rhs. Ret (
       case lhs of VU1 a \<Rightarrow> Some (if a then rhs else lhs)
       | _ \<Rightarrow> (case rhs of VU1 b \<Rightarrow> Some (if b then lhs else rhs) | _ \<Rightarrow> None))))
   | LogicalOr \<Rightarrow> else_fold (FoldLogical st n (\<lambda>a b. a \<or> b)) (with_args2 st n (\<lambda>lhs rhs. Ret (
       case lhs of VU1 a \<Rightarrow> Some (if a then lhs else rhs)
       | _ \<Rightarrow> (case rhs of VU1 b \<Rightarrow> Some (if b then rhs else lhs) | _ \<Rightarrow> None))))
   | LogicalXor \<Rightarrow> else_fold (FoldLogical st n (\<lambda>a b. a \<noteq> b)) (with_args2 st n (\<lambda>lhs rhs. Ret (
       if lhs = VU1 False then Some rhs else if rhs = VU1 False then Some lhs else None)))
   | LogicalNot \<Rightarrow> with_args1 st n (\<lambda>v. case v of
       VU1 a \<Rightarrow> Ret (Some (VU1 (\<not> a))) | _ \<Rightarrow> producer_arg st v (Compare LogicalNot) 0))"

definition fold_rule :: "ir_store \<Rightarrow> nat \<Rightarrow> ir_inst \<Rightarrow> fold_result" where
  "fold_rule st this n = (case n_opcode n of
     Base opcode \<Rightarrow> if opcode = Phi then FoldPhi st this n else Ret None
   | Cast opcode \<Rightarrow> fold_cast st n opcode
   | Modifier opcode \<Rightarrow> fold_modifier st n opcode
   | Alu opcode \<Rightarrow> fold_alu st n opcode
   | Compare opcode \<Rightarrow> fold_compare st n opcode
   | Control opcode \<Rightarrow> if opcode = SelectU32 then FoldSelect st n else Ret None
   | _ \<Rightarrow> Ret None)"

definition FoldInstruction :: "nat \<Rightarrow> ir_store \<Rightarrow> ir_store outcome" where
  "FoldInstruction this st = obind (get_inst st this) (\<lambda>n. obind (fold_rule st this n) (\<lambda>r. case r of
     None \<Rightarrow> Ret st
   | Some v \<Rightarrow> obind (Resolve st v) (\<lambda>v. ReplaceUsesWith this v True st)))"

definition ConstantPropagationPass :: "nat list \<Rightarrow> ir_store \<Rightarrow> ir_store outcome" where
  "ConstantPropagationPass = ofold (\<lambda>block st. obind (get_block st block) (\<lambda>b. ofold FoldInstruction (b_insts b) st))"

end
