(* ===== verification/ShaderMeaning.thy ===== *)
theory ShaderMeaning
  imports ShaderRuns
begin

text \<open>
  What the integer opcodes of the value graph mean, stated over integers and single bits and
  independently of the folding code: the operands that an opcode takes are those of its row in
  the table, and an opcode whose result is not given may have any.
\<close>

section \<open>Kinds of values\<close>

primrec kind :: "sem \<Rightarrow> ir_type" where
  "kind SVoid = T_Void"
| "kind (SScalarReg r) = T_ScalarReg"
| "kind (SVectorReg r) = T_VectorReg"
| "kind (SBool b) = T_U1"
| "kind (S8 x) = T_U8"
| "kind (S16 x) = T_U16"
| "kind (S32 x) = T_U32"
| "kind (S64 x) = T_U64"
| "kind (H16 x) = T_F16"
| "kind (F32 x) = T_F32"
| "kind (S32x2 x y) = T_U32x2"
| "kind (S32x4 x y z w) = T_U32x4"
| "kind (SOther T k) = T"

text \<open>A value of a type that has a constructor of its own is built with it.\<close>

definition proper :: "sem \<Rightarrow> bool" where
  "proper x \<longleftrightarrow> (case x of SOther T k \<Rightarrow>
     T \<notin> {T_Void, T_ScalarReg, T_VectorReg, T_U1, T_U8, T_U16, T_U32, T_U64, T_F16, T_F32, T_U32x2, T_U32x4} | _ \<Rightarrow> True)"

definition takes :: "ir_type \<Rightarrow> sem \<Rightarrow> bool" where
  "takes T x \<longleftrightarrow> proper x \<and> kind x = T"

definition accepts :: "value_opcode \<Rightarrow> sem list \<Rightarrow> bool" where
  "accepts opcode xs \<longleftrightarrow> opcode = Base Identity \<and> length xs = 1 \<or>
     opcode \<noteq> Base Identity \<and> list_all2 takes (snd (MetaTable opcode)) xs"

lemma takes_iff [simp]:
  "takes T_U1 x \<longleftrightarrow> (\<exists>b. x = SBool b)" "takes T_U8 x \<longleftrightarrow> (\<exists>w. x = S8 w)" "takes T_U16 x \<longleftrightarrow> (\<exists>w. x = S16 w)"
  "takes T_U32 x \<longleftrightarrow> (\<exists>w. x = S32 w)" "takes T_U64 x \<longleftrightarrow> (\<exists>w. x = S64 w)" "takes T_F16 x \<longleftrightarrow> (\<exists>w. x = H16 w)"
  "takes T_F32 x \<longleftrightarrow> (\<exists>w. x = F32 w)" "takes T_U32x2 x \<longleftrightarrow> (\<exists>a b. x = S32x2 a b)"
  "takes T_U32x4 x \<longleftrightarrow> (\<exists>a b c d. x = S32x4 a b c d)"
  by (cases x; auto simp: takes_def proper_def type_defs)+

section \<open>Results\<close>

text \<open>The word with the given bits, and the bits as a set.\<close>

definition from_bits :: "(nat \<Rightarrow> bool) \<Rightarrow> 'a::len word" where
  "from_bits f = horner_sum of_bool 2 (map f [0..<LENGTH('a)])"

lemma bit_from_bits [simp]: "bit (from_bits f :: 'a::len word) k \<longleftrightarrow> k < LENGTH('a) \<and> f k"
  by (auto simp: from_bits_def bit_horner_sum_bit_word_iff)

definition ones :: "'a::len word \<Rightarrow> nat" where
  "ones w = card {k. k < LENGTH('a) \<and> bit w k}"

primrec cast_value :: "cast_op \<Rightarrow> sem list \<Rightarrow> sem option" where
  "cast_value BitCastU16F16 xs = (case xs of [H16 x] \<Rightarrow> Some (S16 x) | _ \<Rightarrow> None)"
| "cast_value BitCastF16U16 xs = (case xs of [S16 x] \<Rightarrow> Some (H16 x) | _ \<Rightarrow> None)"
| "cast_value BitCastU32F32 xs = (case xs of [F32 x] \<Rightarrow> Some (S32 x) | _ \<Rightarrow> None)"
| "cast_value BitCastF32U32 xs = (case xs of [S32 x] \<Rightarrow> Some (F32 x) | _ \<Rightarrow> None)"
| "cast_value ConvertU16U32 xs = (case xs of [S32 x] \<Rightarrow> Some (S16 (word_of_int (uint x mod 2 ^ 16))) | _ \<Rightarrow> None)"
| "cast_value ConvertU32U16 xs = (case xs of [S16 x] \<Rightarrow> Some (S32 (word_of_int (uint x))) | _ \<Rightarrow> None)"
| "cast_value ConvertU8U32 xs = (case xs of [S32 x] \<Rightarrow> Some (S8 (word_of_int (uint x mod 2 ^ 8))) | _ \<Rightarrow> None)"
| "cast_value ConvertU32U8 xs = (case xs of [S8 x] \<Rightarrow> Some (S32 (word_of_int (uint x))) | _ \<Rightarrow> None)"
| "cast_value ConvertF32F16 xs = None"
| "cast_value ConvertF16F32 xs = None"
| "cast_value ConvertS32F32 xs = None"
| "cast_value ConvertU32F32 xs = None"
| "cast_value ConvertF32S32 xs = None"
| "cast_value ConvertF32U32 xs = None"
| "cast_value CompositeConstructU32x2 xs = (case xs of [S32 a, S32 b] \<Rightarrow> Some (S32x2 a b) | _ \<Rightarrow> None)"
| "cast_value CompositeConstructF32x2 xs = None"
| "cast_value CompositeConstructU32x4 xs = (case xs of [S32 a, S32 b, S32 c, S32 d] \<Rightarrow> Some (S32x4 a b c d) | _ \<Rightarrow> None)"
| "cast_value CompositeExtractU32x2 xs = (case xs of [S32x2 a b, S32 k] \<Rightarrow>
     if unat k < 2 then Some (S32 ([a, b] ! unat k)) else None | _ \<Rightarrow> None)"
| "cast_value CompositeExtractU32x4 xs = (case xs of [S32x4 a b c d, S32 k] \<Rightarrow>
     if unat k < 4 then Some (S32 ([a, b, c, d] ! unat k)) else None | _ \<Rightarrow> None)"
| "cast_value PackUint2x32 xs = (case xs of [S32x2 a b] \<Rightarrow> Some (S64 (word_of_int (uint a + 2 ^ 32 * uint b))) | _ \<Rightarrow> None)"
| "cast_value UnpackUint2x32 xs = (case xs of [S64 x] \<Rightarrow>
     Some (S32x2 (word_of_int (uint x mod 2 ^ 32)) (word_of_int (uint x div 2 ^ 32))) | _ \<Rightarrow> None)"
| "cast_value PackHalf2x16 xs = None"
| "cast_value PackSnorm2x16 xs = None"
| "cast_value PackUnorm2x16 xs = None"
| "cast_value PackFloat2x16Rtz xs = None"

text \<open>A bit field of \<open>c\<close> bits at position \<open>s\<close>, where it lies inside the word.\<close>

definition bitfield :: "u32 \<Rightarrow> nat \<Rightarrow> nat \<Rightarrow> int" where
  "bitfield x s c = uint x div 2 ^ s mod 2 ^ c"

definition modifier_value :: "modifier_op \<Rightarrow> sem list \<Rightarrow> sem option" where
  "modifier_value opcode xs = (case opcode of
     BitFieldInsert \<Rightarrow> (case xs of [S32 x, S32 y, S32 s, S32 c] \<Rightarrow>
       if unat s + unat c \<le> 32
       then Some (S32 (from_bits (\<lambda>k. if unat s \<le> k \<and> k < unat s + unat c then bit y (k - unat s) else bit x k)))
       else None | _ \<Rightarrow> None)
   | BitFieldUExtract \<Rightarrow> (case xs of [S32 x, S32 s, S32 c] \<Rightarrow>
       if unat s + unat c \<le> 32 then Some (S32 (word_of_int (bitfield x (unat s) (unat c)))) else None | _ \<Rightarrow> None)
   | BitFieldSExtract \<Rightarrow> (case xs of [S32 x, S32 s, S32 c] \<Rightarrow>
       if unat s + unat c \<le> 32 then Some (S32 (word_of_int (
         if 0 < unat c \<and> bitfield x (unat s) (unat c) \<ge> 2 ^ (unat c - 1)
         then bitfield x (unat s) (unat c) - 2 ^ unat c else bitfield x (unat s) (unat c)))) else None | _ \<Rightarrow> None)
   | _ \<Rightarrow> None)"

text \<open>Functions of two words of a width, and comparisons.\<close>

fun on32 :: "(u32 \<Rightarrow> u32 \<Rightarrow> int) \<Rightarrow> sem list \<Rightarrow> sem option" where
  "on32 f [S32 a, S32 b] = Some (S32 (word_of_int (f a b)))"
| "on32 f xs = None"

fun on64 :: "(u64 \<Rightarrow> u64 \<Rightarrow> int) \<Rightarrow> sem list \<Rightarrow> sem option" where
  "on64 f [S64 a, S64 b] = Some (S64 (word_of_int (f a b)))"
| "on64 f xs = None"

fun shift64 :: "(u64 \<Rightarrow> nat \<Rightarrow> int) \<Rightarrow> sem list \<Rightarrow> sem option" where
  "shift64 f [S64 a, S32 b] = Some (S64 (word_of_int (f a (unat b mod 64))))"
| "shift64 f xs = None"

fun cmp32 :: "(u32 \<Rightarrow> u32 \<Rightarrow> bool) \<Rightarrow> sem list \<Rightarrow> sem option" where
  "cmp32 f [S32 a, S32 b] = Some (SBool (f a b))"
| "cmp32 f xs = None"

fun cmp64 :: "(u64 \<Rightarrow> u64 \<Rightarrow> bool) \<Rightarrow> sem list \<Rightarrow> sem option" where
  "cmp64 f [S64 a, S64 b] = Some (SBool (f a b))"
| "cmp64 f xs = None"

fun logic :: "(bool \<Rightarrow> bool \<Rightarrow> bool) \<Rightarrow> sem list \<Rightarrow> sem option" where
  "logic f [SBool a, SBool b] = Some (SBool (f a b))"
| "logic f xs = None"

fun chosen :: "sem list \<Rightarrow> sem option" where
  "chosen [SBool c, x, y] = Some (if c then x else y)"
| "chosen xs = None"

definition alu_value :: "alu_op \<Rightarrow> sem list \<Rightarrow> sem option" where
  "alu_value opcode = (case opcode of
     SelectU1 \<Rightarrow> chosen
   | SelectF32 \<Rightarrow> chosen
   | IAdd32 \<Rightarrow> on32 (\<lambda>a b. uint a + uint b)
   | IAdd64 \<Rightarrow> on64 (\<lambda>a b. uint a + uint b)
   | IAddCarry32 \<Rightarrow> (\<lambda>xs. case xs of [S32 a, S32 b] \<Rightarrow>
       Some (S32x2 (word_of_int ((uint a + uint b) mod 2 ^ 32)) (word_of_int ((uint a + uint b) div 2 ^ 32))) | _ \<Rightarrow> None)
   | ISub32 \<Rightarrow> on32 (\<lambda>a b. uint a - uint b)
   | ISub64 \<Rightarrow> on64 (\<lambda>a b. uint a - uint b)
   | IMul32 \<Rightarrow> on32 (\<lambda>a b. uint a * uint b)
   | IMul64 \<Rightarrow> on64 (\<lambda>a b. uint a * uint b)
   | UDiv32 \<Rightarrow> (\<lambda>xs. if xs \<noteq> [] \<and> last xs = S32 0 then None else on32 (\<lambda>a b. uint a div uint b) xs)
   | SMulHi \<Rightarrow> on32 (\<lambda>a b. (sint a * sint b) div 2 ^ 32)
   | UMulHi \<Rightarrow> on32 (\<lambda>a b. (uint a * uint b) div 2 ^ 32)
   | IAbs32 \<Rightarrow> (\<lambda>xs. case xs of [S32 a] \<Rightarrow> Some (S32 (word_of_int \<bar>sint a\<bar>)) | _ \<Rightarrow> None)
   | ShiftLeftLogical32 \<Rightarrow> on32 (\<lambda>a b. uint a * 2 ^ (unat b mod 32))
   | ShiftRightLogical32 \<Rightarrow> on32 (\<lambda>a b. uint a div 2 ^ (unat b mod 32))
   | ShiftRightArithmetic32 \<Rightarrow> on32 (\<lambda>a b. sint a div 2 ^ (unat b mod 32))
   | ShiftLeftLogical64 \<Rightarrow> shift64 (\<lambda>a k. uint a * 2 ^ k)
   | ShiftRightLogical64 \<Rightarrow> shift64 (\<lambda>a k. uint a div 2 ^ k)
   | ShiftRightArithmetic64 \<Rightarrow> shift64 (\<lambda>a k. sint a div 2 ^ k)
   | BitwiseAnd32 \<Rightarrow> on32 (\<lambda>a b. uint (from_bits (\<lambda>k. bit a k \<and> bit b k) :: u32))
   | BitwiseAnd64 \<Rightarrow> on64 (\<lambda>a b. uint (from_bits (\<lambda>k. bit a k \<and> bit b k) :: u64))
   | BitwiseOr32 \<Rightarrow> on32 (\<lambda>a b. uint (from_bits (\<lambda>k. bit a k \<or> bit b k) :: u32))
   | BitwiseOr64 \<Rightarrow> on64 (\<lambda>a b. uint (from_bits (\<lambda>k. bit a k \<or> bit b k) :: u64))
   | BitwiseXor32 \<Rightarrow> on32 (\<lambda>a b. uint (from_bits (\<lambda>k. bit a k \<noteq> bit b k) :: u32))
   | BitwiseNot32 \<Rightarrow> (\<lambda>xs. case xs of [S32 a] \<Rightarrow> Some (S32 (word_of_int (- uint a - 1))) | _ \<Rightarrow> None)
   | BitCount32 \<Rightarrow> (\<lambda>xs. case xs of [S32 a] \<Rightarrow> Some (S32 (of_nat (ones a))) | _ \<Rightarrow> None)
   | BitCount64 \<Rightarrow> (\<lambda>xs. case xs of [S64 a] \<Rightarrow> Some (S32 (of_nat (ones a))) | _ \<Rightarrow> None)
   | SMin32 \<Rightarrow> on32 (\<lambda>a b. min (sint a) (sint b))
   | SMax32 \<Rightarrow> on32 (\<lambda>a b. max (sint a) (sint b))
   | UMin32 \<Rightarrow> on32 (\<lambda>a b. min (uint a) (uint b))
   | UMax32 \<Rightarrow> on32 (\<lambda>a b. max (uint a) (uint b))
   | _ \<Rightarrow> (\<lambda>xs. None))"

definition compare_value :: "compare_op \<Rightarrow> sem list \<Rightarrow> sem option" where
  "compare_value opcode = (case opcode of
     IEqual32 \<Rightarrow> cmp32 (\<lambda>a b. uint a = uint b)
   | INotEqual32 \<Rightarrow> cmp32 (\<lambda>a b. uint a \<noteq> uint b)
   | ULessThan32 \<Rightarrow> cmp32 (\<lambda>a b. uint a < uint b)
   | ULessThanEqual32 \<Rightarrow> cmp32 (\<lambda>a b. uint a \<le> uint b)
   | UGreaterThan32 \<Rightarrow> cmp32 (\<lambda>a b. uint b < uint a)
   | UGreaterThanEqual32 \<Rightarrow> cmp32 (\<lambda>a b. uint b \<le> uint a)
   | SLessThan32 \<Rightarrow> cmp32 (\<lambda>a b. sint a < sint b)
   | SLessThanEqual32 \<Rightarrow> cmp32 (\<lambda>a b. sint a \<le> sint b)
   | SGreaterThan32 \<Rightarrow> cmp32 (\<lambda>a b. sint b < sint a)
   | SGreaterThanEqual32 \<Rightarrow> cmp32 (\<lambda>a b. sint b \<le> sint a)
   | IEqual64 \<Rightarrow> cmp64 (\<lambda>a b. uint a = uint b)
   | INotEqual64 \<Rightarrow> cmp64 (\<lambda>a b. uint a \<noteq> uint b)
   | ULessThan64 \<Rightarrow> cmp64 (\<lambda>a b. uint a < uint b)
   | ULessThanEqual64 \<Rightarrow> cmp64 (\<lambda>a b. uint a \<le> uint b)
   | UGreaterThan64 \<Rightarrow> cmp64 (\<lambda>a b. uint b < uint a)
   | UGreaterThanEqual64 \<Rightarrow> cmp64 (\<lambda>a b. uint b \<le> uint a)
   | SLessThan64 \<Rightarrow> cmp64 (\<lambda>a b. sint a < sint b)
   | SLessThanEqual64 \<Rightarrow> cmp64 (\<lambda>a b. sint a \<le> sint b)
   | SGreaterThan64 \<Rightarrow> cmp64 (\<lambda>a b. sint b < sint a)
   | SGreaterThanEqual64 \<Rightarrow> cmp64 (\<lambda>a b. sint b \<le> sint a)
   | LogicalAnd \<Rightarrow> logic (\<and>)
   | LogicalOr \<Rightarrow> logic (\<or>)
   | LogicalXor \<Rightarrow> logic (\<noteq>)
   | LogicalNot \<Rightarrow> (\<lambda>xs. case xs of [SBool a] \<Rightarrow> Some (SBool (\<not> a)) | _ \<Rightarrow> None))"

definition opcode_value :: "value_opcode \<Rightarrow> sem list \<Rightarrow> sem option" where
  "opcode_value opcode xs = (case opcode of
     Base x \<Rightarrow> if x = Identity \<and> length xs = 1 then Some (hd xs) else None
   | Cast x \<Rightarrow> cast_value x xs
   | Modifier x \<Rightarrow> modifier_value x xs
   | Alu x \<Rightarrow> alu_value x xs
   | Compare x \<Rightarrow> compare_value x xs
   | Control x \<Rightarrow> if x = SelectU32 then chosen xs else None
   | _ \<Rightarrow> None)"

text \<open>
  With \<open>exact\<close>, a conversion to 8 or 16 bits takes only numbers that fit: for other numbers the
  conversion loses bits, which \<open>ConvertU32U16\<close> and \<open>ConvertU32U8\<close> do not restore.
\<close>

definition fits :: "value_opcode \<Rightarrow> sem list \<Rightarrow> bool" where
  "fits opcode xs \<longleftrightarrow>
     (opcode = Cast ConvertU16U32 \<longrightarrow> (\<forall>x \<in> set xs. case x of S32 w \<Rightarrow> w < 0x10000 | _ \<Rightarrow> True)) \<and>
     (opcode = Cast ConvertU8U32 \<longrightarrow> (\<forall>x \<in> set xs. case x of S32 w \<Rightarrow> w < 0x100 | _ \<Rightarrow> True))"

text \<open>
  Opcodes without a result here, such as those of memory, images, lanes and floating-point
  numbers, mean what a device makes of them; it is a parameter.
\<close>

definition ir_meaning :: "bool \<Rightarrow> opcode_meaning \<Rightarrow> opcode_meaning" where
  "ir_meaning exact device opcode flags xs =
     (let (accepted, result) = (case opcode_value opcode xs of Some x \<Rightarrow> (True, Some x) | None \<Rightarrow> device opcode flags xs) in
       (accepts opcode xs \<and> (exact \<longrightarrow> fits opcode xs) \<and> accepted, result))"

interpretation ir: identity_meaning "ir_meaning exact device" for exact device
  by unfold_locales (simp add: ir_meaning_def accepts_def fits_def opcode_value_def)

end
