(* ===== verification/ShaderWords.thy ===== *)
theory ShaderWords
  imports ShaderFold ShaderMeaning
begin

text \<open>
  The machine arithmetic of the folding code computes the results that \<open>ShaderMeaning\<close> states
  over integers and bits.
\<close>

unbundle bit_operations_syntax

section \<open>Words\<close>

lemma and_31: "unat (b AND 31 :: u32) = unat b mod 32"
proof -
  have "b AND 31 = take_bit 5 b" by (rule bit_word_eqI) (auto simp: bit_simps take_bit_eq_mask mask_eq_exp_minus_1)
  then show ?thesis by (simp add: take_bit_eq_mod unat_mod)
qed

lemma and_63: "unat (b AND 63 :: u32) = unat b mod 64"
proof -
  have "b AND 63 = take_bit 6 b" by (rule bit_word_eqI) (auto simp: bit_simps take_bit_eq_mask mask_eq_exp_minus_1)
  then show ?thesis by (simp add: take_bit_eq_mod unat_mod)
qed

lemma push_word: "push_bit n (a :: 'a::len word) = word_of_int (uint a * 2 ^ n)"
  by transfer (simp add: push_bit_eq_mult take_bit_mult)

lemma drop_word: "drop_bit n (a :: 'a::len word) = word_of_int (uint a div 2 ^ n)"
  by transfer (simp add: drop_bit_eq_div)

lemma sdrop_word: "signed_drop_bit n (a :: 'a::len word) = word_of_int (sint a div 2 ^ n)"
proof -
  have "sint (signed_drop_bit n a) = sint a div 2 ^ n" by (simp only: sint_signed_drop_bit_eq drop_bit_eq_div)
  then have "(word_of_int (sint (signed_drop_bit n a)) :: 'a word) = word_of_int (sint a div 2 ^ n)" by simp
  then show ?thesis by simp
qed

lemma add_word: "a + b = word_of_int (uint a + uint b)" for a b :: "'a::len word"
  by simp

lemma sub_word: "a - b = word_of_int (uint a - uint b)" for a b :: "'a::len word"
  by simp

lemma mult_word: "a * b = word_of_int (uint a * uint b)" for a b :: "'a::len word"
  by simp

lemma div_word: "a div b = word_of_int (uint a div uint b)" for a b :: "'a::len word"
  by (simp add: word_div_def)

lemma not_word: "NOT a = word_of_int (- uint a - 1)" for a :: "'a::len word"
  by (simp add: not_eq_complement)

lemma and_word: "a AND b = from_bits (\<lambda>k. bit a k \<and> bit b k)" for a b :: "'a::len word"
  by (rule bit_word_eqI) (simp add: bit_simps)

lemma or_word: "a OR b = from_bits (\<lambda>k. bit a k \<or> bit b k)" for a b :: "'a::len word"
  by (rule bit_word_eqI) (simp add: bit_simps)

lemma xor_word: "a XOR b = from_bits (\<lambda>k. bit a k \<noteq> bit b k)" for a b :: "'a::len word"
  by (rule bit_word_eqI) (simp add: bit_simps)

lemma high_word: "ucast (drop_bit 32 (word_of_int p :: u64)) = (word_of_int (p div 2 ^ 32) :: u32)"
proof -
  have "p div 2 ^ 32 = drop_bit 32 p" by (simp only: drop_bit_eq_div)
  then have d: "bit (word_of_int (p div 2 ^ 32) :: u32) k \<longleftrightarrow> bit p (32 + k)" if "k < 32" for k
    using that by (simp only: bit_word_of_int_iff bit_drop_bit_eq) simp
  have "bit (ucast (drop_bit 32 (word_of_int p :: u64)) :: u32) k \<longleftrightarrow> bit p (32 + k)" if "k < 32" for k
    using that by (simp add: bit_simps)
  with d show ?thesis by (intro bit_word_eqI) simp
qed

lemma umulhi_word: "ucast (drop_bit 32 (ucast a * ucast b :: u64)) = (word_of_int ((uint a * uint b) div 2 ^ 32) :: u32)"
  for a b :: u32
proof -
  have "(ucast a * ucast b :: u64) = word_of_int (uint a * uint b)" by simp
  then show ?thesis by (simp only: high_word)
qed

lemma smulhi_word: "ucast (drop_bit 32 (scast a * scast b :: u64)) = (word_of_int ((sint a * sint b) div 2 ^ 32) :: u32)"
  for a b :: u32
proof -
  have "(scast a * scast b :: u64) = word_of_int (sint a * sint b)" by simp
  then show ?thesis by (simp only: high_word)
qed

lemma abs_word: "(if x AND 0x80000000 \<noteq> 0 then 0 - x else x) = word_of_int \<bar>sint x\<bar>" for x :: u32
proof -
  have "x AND 0x80000000 \<noteq> 0 \<longleftrightarrow> bit x 31" using and_exp_eq_0_iff_not_bit [of x 31] by simp
  also have "\<dots> \<longleftrightarrow> sint x < 0" using bit_last_iff [of x] by simp
  finally show ?thesis by (simp add: abs_if)
qed

lemma popcount_word: "popcount w = of_nat (ones w)" for w :: "'a::len word"
proof -
  have "ones w = card (set (filter (bit w) [0..<LENGTH('a)]))" by (auto simp: ones_def intro: arg_cong [where f = card])
  also have "\<dots> = length (filter (bit w) [0..<LENGTH('a)])" by (rule distinct_card) simp
  finally show ?thesis by (simp add: popcount_def)
qed


lemma smin_word: "(if sint a < sint b then a else b) = word_of_int (min (sint a) (sint b))" for a b :: "'a::len word"
  by (simp add: min_def)

lemma smax_word: "(if sint a > sint b then a else b) = word_of_int (max (sint a) (sint b))" for a b :: "'a::len word"
  by (simp add: max_def)

lemma umin_word: "min a b = word_of_int (min (uint a) (uint b))" for a b :: "'a::len word"
  by (simp add: min_def word_le_def)

lemma umax_word: "max a b = word_of_int (max (uint a) (uint b))" for a b :: "'a::len word"
  by (simp add: max_def word_le_def)

text \<open>Conversions and pairs.\<close>

lemma mod_word: "n = LENGTH('b) \<Longrightarrow> ucast (x :: 'a::len word) = (word_of_int (uint x mod 2 ^ n) :: 'b::len word)"
  by transfer (simp flip: take_bit_eq_mod)

lemma narrow_word: "ucast (x :: u32) = (word_of_int (uint x mod 2 ^ 16) :: u16)" "ucast (x :: u32) = (word_of_int (uint x mod 2 ^ 8) :: u8)"
  by (rule mod_word, simp)+

lemma low_word: "ucast (word_of_int p :: u64) = (word_of_int (p mod 2 ^ 32) :: u32)"
proof -
  have "p mod 2 ^ 32 = take_bit 32 p" by (simp only: take_bit_eq_mod)
  then have "bit (word_of_int (p mod 2 ^ 32) :: u32) k \<longleftrightarrow> bit p k" if "k < 32" for k
    using that by (simp only: bit_word_of_int_iff bit_take_bit_iff) simp
  moreover have "bit (ucast (word_of_int p :: u64) :: u32) k \<longleftrightarrow> bit p k" if "k < 32" for k
    using that by (simp add: bit_simps)
  ultimately show ?thesis by (intro bit_word_eqI) simp
qed

lemma carry_word: "ucast (ucast a + ucast b :: u64) = (word_of_int ((uint a + uint b) mod 2 ^ 32) :: u32)"
  "ucast (drop_bit 32 (ucast a + ucast b :: u64)) = (word_of_int ((uint a + uint b) div 2 ^ 32) :: u32)" for a b :: u32
proof -
  have "(ucast a + ucast b :: u64) = word_of_int (uint a + uint b)" by simp
  then show "ucast (ucast a + ucast b :: u64) = (word_of_int ((uint a + uint b) mod 2 ^ 32) :: u32)"
    "ucast (drop_bit 32 (ucast a + ucast b :: u64)) = (word_of_int ((uint a + uint b) div 2 ^ 32) :: u32)"
    by (simp_all only: low_word high_word)
qed

lemma unpack_word: "ucast w = (word_of_int (uint w mod 2 ^ 32) :: u32)"
  "ucast (drop_bit 32 w) = (word_of_int (uint w div 2 ^ 32) :: u32)" for w :: u64
  using low_word [of "uint w"] high_word [of "uint w"] by (simp_all only: word_of_int_uint)

lemma pack_word: "ucast a OR push_bit 32 (ucast b) = (word_of_int (uint a + 2 ^ 32 * uint b) :: u64)" for a b :: u32
proof -
  have "(ucast a OR push_bit 32 (ucast b) :: u64) = ucast a + push_bit 32 (ucast b)"
    by (rule disjunctive_add [symmetric]) (auto simp: bit_simps dest: bit_imp_le_length)
  also have "\<dots> = word_of_int (uint a + 2 ^ 32 * uint b)" by (simp add: push_bit_eq_mult)
  finally show ?thesis .
qed

text \<open>Bit fields.\<close>

lemma bit_low: "bit (2 ^ n - 1 :: u32) k \<longleftrightarrow> k < 32 \<and> k < n"
  by (simp add: bit_mask_iff flip: mask_eq_exp_minus_1)

lemma insert_word:
  assumes "unat s + unat c \<le> 32"
  shows "fold_insert x y s c = from_bits (\<lambda>k. if unat s \<le> k \<and> k < unat s + unat c then bit y (k - unat s) else bit x k)"
proof (rule bit_word_eqI)
  fix k assume k: "k < LENGTH(32)"
  then have k32: "k < 32" by simp
  have c: "c = 0 \<longleftrightarrow> unat c = 0" "c = 32 \<longleftrightarrow> unat c = 32" by (simp_all add: word_unat_eq_iff)
  consider "unat c = 0" | "unat c = 32" "unat s = 0" | "0 < unat c" "unat c < 32" using assms by linarith
  then show "bit (fold_insert x y s c) k = bit (from_bits (\<lambda>k. if unat s \<le> k \<and> k < unat s + unat c then bit y (k - unat s) else bit x k) :: u32) k"
  proof cases
    case 1
    then show ?thesis using k by (auto simp: fold_insert_def c)
  next
    case 2
    then show ?thesis using k32 by (auto simp: fold_insert_def c bit_simps)
  next
    case 3
    then have "c \<noteq> 0" "c \<noteq> 32" using c by auto
    then show ?thesis using 3 k32 by (auto simp: fold_insert_def bit_simps bit_low Let_def)
  qed
qed

lemma uextract_word:
  assumes "unat s + unat c \<le> 32"
  shows "fold_uextract x s c = word_of_int (bitfield x (unat s) (unat c))"
proof -
  have f: "bitfield x (unat s) (unat c) = take_bit (unat c) (drop_bit (unat s) (uint x))" by (simp add: bitfield_def take_bit_eq_mod drop_bit_eq_div)
  have c: "c = 0 \<longleftrightarrow> unat c = 0" "c = 32 \<longleftrightarrow> unat c = 32" by (simp_all add: word_unat_eq_iff)
  have "fold_uextract x s c = take_bit (unat c) (drop_bit (unat s) x)"
  proof (cases "unat c = 0 \<or> unat c = 32")
    case True
    then show ?thesis by (intro bit_word_eqI) (auto simp: fold_uextract_def c bit_simps)
  next
    case False
    then have "c \<noteq> 0" "c \<noteq> 32" "unat c < 32" using c assms by auto
    then show ?thesis by (intro bit_word_eqI) (auto simp: fold_uextract_def bit_simps bit_low Let_def)
  qed
  then show ?thesis unfolding f by (intro bit_word_eqI) (auto simp: bit_simps)
qed

lemma high_bit: "2 ^ n \<le> take_bit (Suc n) d \<longleftrightarrow> bit d n" for d :: int
  unfolding take_bit_Suc_from_most by (cases "bit d n") (simp_all add: not_le)

lemma sextract_word:
  assumes "unat s + unat c \<le> 32"
  shows "fold_sextract x s c = word_of_int (if 0 < unat c \<and> bitfield x (unat s) (unat c) \<ge> 2 ^ (unat c - 1)
     then bitfield x (unat s) (unat c) - 2 ^ unat c else bitfield x (unat s) (unat c))"
proof (cases "unat c")
  case 0
  then have "c = 0" by (simp add: word_unat_eq_iff)
  then show ?thesis by (simp add: fold_sextract_def bitfield_def)
next
  case (Suc n)
  then have c: "c \<noteq> 0" by auto
  define d where "d = drop_bit (unat s) (uint x)"
  have f: "bitfield x (unat s) (unat c) = take_bit (Suc n) d" by (simp add: Suc d_def bitfield_def take_bit_eq_mod drop_bit_eq_div)
  have r: "(if 0 < unat c \<and> take_bit (Suc n) d \<ge> 2 ^ (unat c - 1) then take_bit (Suc n) d - 2 ^ unat c else take_bit (Suc n) d) =
    signed_take_bit n d" using high_bit [of n d] by (simp add: Suc signed_take_bit_eq_take_bit_minus)
  have left: "unat (32 - s - c) = 32 - unat s - Suc n" and total: "unat (32 - c) = 32 - Suc n"
  proof -
    have s: "s \<le> 32" "unat (32 - s) = 32 - unat s" using assms by (simp_all add: word_le_nat_alt unat_sub)
    then have "c \<le> 32 - s" using assms by (simp add: word_le_nat_alt)
    then show l: "unat (32 - s - c) = 32 - unat s - Suc n" using s Suc by (simp add: unat_sub)
    have "c \<le> 32" using assms by (simp add: word_le_nat_alt)
    then show "unat (32 - c) = 32 - Suc n" using Suc by (simp add: unat_sub)
  qed
  have "bit (fold_sextract x s c) k \<longleftrightarrow> bit (signed_take_bit n d) k" if "k < 32" for k
    using that c assms unfolding d_def Suc
    by (cases n k rule: linorder_cases; simp add: fold_sextract_def Let_def left total bit_simps min_def;
        auto simp: add.commute [of k])
  then show ?thesis unfolding f r by (intro bit_word_eqI) (simp add: bit_word_of_int_iff)
qed

end
