(* ===== verification/ShaderRules.thy ===== *)
theory ShaderRules
  imports ShaderWords
begin

text \<open>
  Each folding rule gives a value that the instruction has in every assignment of values to the
  instructions it can see, and reads only live instructions on the way.
\<close>

section \<open>What a rule may read\<close>

text \<open>
  \<open>readable st P\<close>: the values in \<open>P\<close> are immediates or live instructions, and with an
  instruction the ends of its identity chain and, unless it is a phi, its arguments are in \<open>P\<close>.
\<close>

definition readable :: "ir_store \<Rightarrow> (ir_value \<Rightarrow> bool) \<Rightarrow> bool" where
  "readable st P \<longleftrightarrow> \<not> P VVoid \<and> (\<forall>v. v \<noteq> VVoid \<and> TryInstruction v = None \<longrightarrow> P v) \<and>
     (\<forall>v. P v \<longrightarrow> (\<exists>w. Resolve st v = Ret w \<and> chain (core st) v w \<and> P w)) \<and>
     (\<forall>j. P (VInst j) \<longrightarrow> (\<exists>m. inst_at st j = Some m \<and>
        (\<not> is_phi m \<longrightarrow> length (n_args m) = NumArgsOf (n_opcode m) \<and> list_all P (n_args m))))"

text \<open>What an instruction of value \<open>x\<close> says of its operands, whatever the device is.\<close>

definition obeys :: "env \<Rightarrow> ir_inst \<Rightarrow> sem \<Rightarrow> bool" where
  "obeys r n x \<longleftrightarrow> (let xs = map (val r) (n_args n) in accepts (n_opcode n) xs \<and>
     fits (n_opcode n) xs \<and> (\<forall>y. opcode_value (n_opcode n) xs = Some y \<longrightarrow> x = y))"

lemma yields_obeys: "yields (ir_meaning True device) r n x \<Longrightarrow> obeys r n x"
  by (auto simp: yields_def obeys_def Let_def ir_meaning_def split: option.splits prod.splits)

text \<open>The assignment \<open>r\<close> agrees with the equations of the instructions in \<open>P\<close>.\<close>

definition solves :: "ir_store \<Rightarrow> (ir_value \<Rightarrow> bool) \<Rightarrow> env \<Rightarrow> bool" where
  "solves st P r \<longleftrightarrow> (\<forall>j m. P (VInst j) \<and> inst_at st j = Some m \<and> \<not> is_phi m \<longrightarrow> obeys r m (r j))"

definition gives :: "ir_store \<Rightarrow> (ir_value \<Rightarrow> bool) \<Rightarrow> value_opcode \<Rightarrow> ir_value list \<Rightarrow> ir_value option \<Rightarrow> bool" where
  "gives st P opcode as res \<longleftrightarrow> (case res of None \<Rightarrow> True | Some v \<Rightarrow> P v \<and>
     (\<forall>r. solves st P r \<longrightarrow> accepts opcode (map (val r) as) \<longrightarrow> fits opcode (map (val r) as) \<longrightarrow>
        opcode_value opcode (map (val r) as) = Some (val r v)))"

lemma readableD:
  assumes "readable st P"
  shows "\<not> P VVoid" "v \<noteq> VVoid \<Longrightarrow> TryInstruction v = None \<Longrightarrow> P v"
    "P v \<Longrightarrow> \<exists>w. Resolve st v = Ret w \<and> chain (core st) v w \<and> P w"
    "P (VInst j) \<Longrightarrow> \<exists>m. inst_at st j = Some m \<and>
        (\<not> is_phi m \<longrightarrow> length (n_args m) = NumArgsOf (n_opcode m) \<and> list_all P (n_args m))"
  using assms unfolding readable_def by blast+

lemma readable_imm [intro]: "readable st P \<Longrightarrow> P (VU1 b)" "readable st P \<Longrightarrow> P (VU8 x)" "readable st P \<Longrightarrow> P (VU16 h)"
  "readable st P \<Longrightarrow> P (VU32 w)" "readable st P \<Longrightarrow> P (VU64 d)" "readable st P \<Longrightarrow> P (VF16 h)" "readable st P \<Longrightarrow> P (VF32 w)"
  by (simp_all add: readableD(2))

lemma solvesD: "solves st P r \<Longrightarrow> P (VInst j) \<Longrightarrow> inst_at st j = Some m \<Longrightarrow> \<not> is_phi m \<Longrightarrow> obeys r m (r j)"
  by (simp add: solves_def)

lemma chain_solves:
  assumes "chain (core st) v w" "P v" "readable st P" "solves st P r"
  shows "val r v = val r w"
  using assms(1,2)
proof (induction rule: chain.induct)
  case (chain_step j n a v)
  then obtain m where m: "inst_at st j = Some m" "n_opcode m = Base Identity" "n_args m = [a]" by (auto simp: core_Some)
  then have np: "\<not> is_phi m" by (simp add: is_phi_def)
  have "obeys r m (r j)" by (rule solvesD [OF assms(4) chain_step.prems m(1) np])
  then have "r j = val r a" by (simp add: obeys_def Let_def m opcode_value_def)
  moreover have "P a" using readableD(4) [OF assms(3) chain_step.prems] m np by simp
  ultimately show ?case using chain_step.IH by simp
qed simp

lemma Fold_Arg_ok:
  assumes "readable st P" "k < length (n_args n)" "P (n_args n ! k)"
  shows "\<exists>w. Fold_Arg st n k = Ret w \<and> P w \<and> (\<forall>r. solves st P r \<longrightarrow> val r (n_args n ! k) = val r w)"
  using readableD(3) [OF assms(1,3)] chain_solves [OF _ assms(3,1)] assms(2) by (auto simp: Fold_Arg_def Inst_Arg_def)

section \<open>Combining rules\<close>

lemma gives_None [simp]: "gives st P opcode as None"
  by (simp add: gives_def)

lemma gives_args:
  "gives st P opcode bs res \<Longrightarrow> (\<And>r. solves st P r \<Longrightarrow> map (val r) as = map (val r) bs) \<Longrightarrow> gives st P opcode as res"
  unfolding gives_def by (cases res) simp_all

lemma else_fold_ok:
  "owp m (gives st P opcode as) False \<Longrightarrow> owp m' (gives st P opcode as) False \<Longrightarrow> owp (else_fold m m') (gives st P opcode as) False"
  by (cases m) (auto simp: else_fold_def split: option.splits)

lemma with_args1_ok:
  assumes "readable st P" "n_args n = [a]" "P a" "\<And>x. P x \<Longrightarrow> owp (f x) (gives st P opcode [x]) False"
  shows "owp (with_args1 st n f) (gives st P opcode [a]) False"
proof -
  obtain x where x: "Fold_Arg st n 0 = Ret x" "P x" "\<And>r. solves st P r \<Longrightarrow> val r a = val r x"
    using Fold_Arg_ok [OF assms(1), of 0 n] assms(2,3) by auto
  show ?thesis unfolding with_args1_def x(1) using assms(4) [OF x(2)] x(3) by (auto elim!: owp_mono gives_args)
qed

lemma with_args2_ok:
  assumes "readable st P" "n_args n = [a, b]" "P a" "P b" "\<And>x y. P x \<Longrightarrow> P y \<Longrightarrow> owp (f x y) (gives st P opcode [x, y]) False"
  shows "owp (with_args2 st n f) (gives st P opcode [a, b]) False"
proof -
  obtain x where x: "Fold_Arg st n 0 = Ret x" "P x" "\<And>r. solves st P r \<Longrightarrow> val r a = val r x"
    using Fold_Arg_ok [OF assms(1), of 0 n] assms(2,3) by auto
  obtain y where y: "Fold_Arg st n 1 = Ret y" "P y" "\<And>r. solves st P r \<Longrightarrow> val r b = val r y"
    using Fold_Arg_ok [OF assms(1), of 1 n] assms(2,4) by auto
  show ?thesis unfolding with_args2_def x(1) y(1) using assms(5) [OF x(2) y(2)] x(3) y(3) by (auto elim!: owp_mono gives_args)
qed

lemma with_args3_ok:
  assumes "readable st P" "n_args n = [a, b, c]" "P a" "P b" "P c"
    "\<And>x y z. P x \<Longrightarrow> P y \<Longrightarrow> P z \<Longrightarrow> owp (f x y z) (gives st P opcode [x, y, z]) False"
  shows "owp (with_args3 st n f) (gives st P opcode [a, b, c]) False"
proof -
  obtain x where x: "Fold_Arg st n 0 = Ret x" "P x" "\<And>r. solves st P r \<Longrightarrow> val r a = val r x"
    using Fold_Arg_ok [OF assms(1), of 0 n] assms(2,3) by auto
  obtain y where y: "Fold_Arg st n 1 = Ret y" "P y" "\<And>r. solves st P r \<Longrightarrow> val r b = val r y"
    using Fold_Arg_ok [OF assms(1), of 1 n] assms(2,4) by auto
  obtain z where z: "Fold_Arg st n 2 = Ret z" "P z" "\<And>r. solves st P r \<Longrightarrow> val r c = val r z"
    using Fold_Arg_ok [OF assms(1), of 2 n] assms(2,5) by auto
  show ?thesis unfolding with_args3_def with_args2_def x(1) y(1) obind.simps z(1)
    using assms(6) [OF x(2) y(2) z(2)] x(3) y(3) z(3) by (auto elim!: owp_mono gives_args)
qed

lemma with_args4_ok:
  assumes "readable st P" "n_args n = [a, b, c, d]" "P a" "P b" "P c" "P d"
    "\<And>x y z w. P x \<Longrightarrow> P y \<Longrightarrow> P z \<Longrightarrow> P w \<Longrightarrow> owp (f x y z w) (gives st P opcode [x, y, z, w]) False"
  shows "owp (with_args4 st n f) (gives st P opcode [a, b, c, d]) False"
proof -
  obtain x where x: "Fold_Arg st n 0 = Ret x" "P x" "\<And>r. solves st P r \<Longrightarrow> val r a = val r x"
    using Fold_Arg_ok [OF assms(1), of 0 n] assms(2,3) by auto
  obtain y where y: "Fold_Arg st n 1 = Ret y" "P y" "\<And>r. solves st P r \<Longrightarrow> val r b = val r y"
    using Fold_Arg_ok [OF assms(1), of 1 n] assms(2,4) by auto
  obtain z where z: "Fold_Arg st n 2 = Ret z" "P z" "\<And>r. solves st P r \<Longrightarrow> val r c = val r z"
    using Fold_Arg_ok [OF assms(1), of 2 n] assms(2,5) by auto
  obtain w where w: "Fold_Arg st n 3 = Ret w" "P w" "\<And>r. solves st P r \<Longrightarrow> val r d = val r w"
    using Fold_Arg_ok [OF assms(1), of 3 n] assms(2,6) by auto
  show ?thesis unfolding with_args4_def with_args3_def with_args2_def x(1) y(1) obind.simps z(1) w(1)
    using assms(7) [OF x(2) y(2) z(2) w(2)] x(3) y(3) z(3) w(3) by (auto elim!: owp_mono gives_args)
qed

section \<open>The helper rules\<close>

lemma FoldU32_ok:
  assumes "readable st P" "n_args n = [a, b]" "P a" "P b"
    "\<And>x y. opcode_value opcode [S32 x, S32 y] = Some (S32 (f x y))"
  shows "owp (FoldU32 st n f) (gives st P opcode [a, b]) False"
  unfolding FoldU32_def using assms by (intro with_args2_ok) (auto simp: gives_def split: ir_value.split)

lemma FoldU64_ok:
  assumes "readable st P" "n_args n = [a, b]" "P a" "P b"
    "\<And>x y. opcode_value opcode [S64 x, S64 y] = Some (S64 (f x y))"
  shows "owp (FoldU64 st n f) (gives st P opcode [a, b]) False"
  unfolding FoldU64_def using assms by (intro with_args2_ok) (auto simp: gives_def split: ir_value.split)

lemma FoldU64Shift_ok:
  assumes "readable st P" "n_args n = [a, b]" "P a" "P b"
    "\<And>x y. opcode_value opcode [S64 x, S32 y] = Some (S64 (f x y))"
  shows "owp (FoldU64Shift st n f) (gives st P opcode [a, b]) False"
  unfolding FoldU64Shift_def using assms by (intro with_args2_ok) (auto simp: gives_def split: ir_value.split)

lemma FoldU32Compare_ok:
  assumes "readable st P" "n_args n = [a, b]" "P a" "P b"
    "\<And>x y. opcode_value opcode [S32 x, S32 y] = Some (SBool (f x y))"
  shows "owp (FoldU32Compare st n f) (gives st P opcode [a, b]) False"
  unfolding FoldU32Compare_def using assms by (intro with_args2_ok) (auto simp: gives_def split: ir_value.split)

lemma FoldU64Compare_ok:
  assumes "readable st P" "n_args n = [a, b]" "P a" "P b"
    "\<And>x y. opcode_value opcode [S64 x, S64 y] = Some (SBool (f x y))"
  shows "owp (FoldU64Compare st n f) (gives st P opcode [a, b]) False"
  unfolding FoldU64Compare_def using assms by (intro with_args2_ok) (auto simp: gives_def split: ir_value.split)

lemma FoldLogical_ok:
  assumes "readable st P" "n_args n = [a, b]" "P a" "P b"
    "\<And>x y. opcode_value opcode [SBool x, SBool y] = Some (SBool (f x y))"
  shows "owp (FoldLogical st n f) (gives st P opcode [a, b]) False"
  unfolding FoldLogical_def using assms by (intro with_args2_ok) (auto simp: gives_def split: ir_value.split)

lemma accepts_row: "opcode \<noteq> Base Identity \<Longrightarrow> MetaTable opcode = (T, Ts) \<Longrightarrow> accepts opcode xs \<longleftrightarrow> list_all2 takes Ts xs"
  by (simp add: accepts_def)

lemma imm_identityE:
  assumes "imm_identity T c v"
  obtains a where "v = VU32 a" "T = T_U32" "ucast a = c" | "v = VU64 c" "T = T_U64"
  using assms by (auto simp: imm_identity_def split: ir_value.splits)

lemma ReplaceBinaryIdentity_ok:
  assumes "readable st P" "n_args n = [a, b]" "P a" "P b" "opcode \<noteq> Base Identity" "MetaTable opcode = (T, [T, T])"
    "\<And>v r x. imm_identity T c v \<Longrightarrow> takes T x \<Longrightarrow> opcode_value opcode [val r v, x] = Some x"
    "\<And>v r x. imm_identity T c v \<Longrightarrow> takes T x \<Longrightarrow> opcode_value opcode [x, val r v] = Some x"
  shows "owp (ReplaceBinaryIdentity st n T c) (gives st P opcode [a, b]) False"
  unfolding ReplaceBinaryIdentity_def using assms
  by (intro with_args2_ok) (auto simp: gives_def accepts_row)

lemma fold_rhs_u32_ok:
  assumes "readable st P" "n_args n = [a, b]" "P a" "P b" "opcode \<noteq> Base Identity" "MetaTable opcode = (T, [T, U])"
    "\<And>x y. f y \<Longrightarrow> takes T x \<Longrightarrow> opcode_value opcode [x, S32 y] = Some x"
  shows "owp (fold_rhs_u32 st n f) (gives st P opcode [a, b]) False"
proof -
  obtain x where x: "Fold_Arg st n 0 = Ret x" "P x" "\<And>r. solves st P r \<Longrightarrow> val r a = val r x"
    using Fold_Arg_ok [OF assms(1), of 0 n] assms(2,3) by auto
  obtain y where y: "Fold_Arg st n 1 = Ret y" "P y" "\<And>r. solves st P r \<Longrightarrow> val r b = val r y"
    using Fold_Arg_ok [OF assms(1), of 1 n] assms(2,4) by auto
  show ?thesis unfolding fold_rhs_u32_def x(1) y(1) using assms(5-7) x(2,3) y(3)
    by (auto simp: gives_def accepts_row split: ir_value.split)
qed

lemma fold_rhs_u64_ok:
  assumes "readable st P" "n_args n = [a, b]" "P a" "P b" "opcode \<noteq> Base Identity" "MetaTable opcode = (T, [T, U])"
    "\<And>x y. f y \<Longrightarrow> takes T x \<Longrightarrow> opcode_value opcode [x, S64 y] = Some x"
  shows "owp (fold_rhs_u64 st n f) (gives st P opcode [a, b]) False"
proof -
  obtain x where x: "Fold_Arg st n 0 = Ret x" "P x" "\<And>r. solves st P r \<Longrightarrow> val r a = val r x"
    using Fold_Arg_ok [OF assms(1), of 0 n] assms(2,3) by auto
  obtain y where y: "Fold_Arg st n 1 = Ret y" "P y" "\<And>r. solves st P r \<Longrightarrow> val r b = val r y"
    using Fold_Arg_ok [OF assms(1), of 1 n] assms(2,4) by auto
  show ?thesis unfolding fold_rhs_u64_def x(1) y(1) using assms(5-7) x(2,3) y(3)
    by (auto simp: gives_def accepts_row split: ir_value.split)
qed

lemma FoldSelect_ok:
  assumes "readable st P" "n_args n = [a, b, c]" "P a" "P b" "P c" "opcode \<noteq> Base Identity" "MetaTable opcode = (T, [T_U1, T, T])"
    "\<And>k x y. opcode_value opcode [SBool k, x, y] = Some (if k then x else y)"
  shows "owp (FoldSelect st n) (gives st P opcode [a, b, c]) False"
  unfolding FoldSelect_def
proof (rule with_args3_ok [OF assms(1-5)])
  fix x y z assume "P x" "P y" "P z"
  then show "owp (Ret (case x of VU1 k \<Rightarrow> Some (if k then y else z) | _ \<Rightarrow> if y = z then Some y else None)) (gives st P opcode [x, y, z]) False"
    using assms(6-8) by (auto simp: gives_def accepts_row split: ir_value.split)
qed

text \<open>The argument of a producer: the opcode undoes the one that it looks for.\<close>

definition undoes :: "value_opcode \<Rightarrow> sem list \<Rightarrow> value_opcode \<Rightarrow> nat \<Rightarrow> bool" where
  "undoes opcode ys other index \<longleftrightarrow> (\<forall>xs z. accepts other xs \<longrightarrow> fits other xs \<longrightarrow>
     (\<forall>y. opcode_value other xs = Some y \<longrightarrow> z = y) \<longrightarrow> accepts opcode (z # ys) \<longrightarrow> opcode_value opcode (z # ys) = Some (xs ! index))"

lemma producer:
  assumes "readable st P" "P (VInst p)" "other \<noteq> Base Phi"
  obtains m where "get_inst st p = Ret m" "n_opcode m = other \<Longrightarrow> length (n_args m) = NumArgsOf other"
    "n_opcode m = other \<Longrightarrow> list_all P (n_args m)" "n_opcode m = other \<Longrightarrow> solves st P r \<Longrightarrow> obeys r m (r p)"
proof -
  obtain m where m: "inst_at st p = Some m"
    "\<not> is_phi m \<longrightarrow> length (n_args m) = NumArgsOf (n_opcode m) \<and> list_all P (n_args m)" using readableD(4) [OF assms(1,2)] by blast
  have np: "n_opcode m = other \<Longrightarrow> \<not> is_phi m" using assms(3) by (simp add: is_phi_def)
  show thesis
    by (rule that [of m]) (use m np solvesD [where P = P, OF _ assms(2) m(1)] in \<open>auto simp: get_inst_Ret\<close>)
qed

lemma producer_arg_ok:
  assumes "readable st P" "P v" "other \<noteq> Base Phi" "index < NumArgsOf other" "\<And>r. undoes opcode (map (val r) ys) other index"
  shows "owp (producer_arg st v other index) (gives st P opcode (v # ys)) False"
proof (cases "TryInstruction v")
  case None
  then show ?thesis by (simp add: producer_arg_def)
next
  case (Some p)
  then have v: "v = VInst p" by (cases v) auto
  obtain m where m: "get_inst st p = Ret m" using producer [OF assms(1) assms(2) [unfolded v] assms(3)] by blast
  show ?thesis
  proof (cases "n_opcode m = other")
    case True
    have l: "length (n_args m) = NumArgsOf other" "list_all P (n_args m)"
      and y: "solves st P r \<Longrightarrow> obeys r m (r p)" for r
      using producer [OF assms(1) assms(2) [unfolded v] assms(3)] m True by (metis outcome.inject)+
    have arg: "P (n_args m ! index)" using l assms(4) by (simp add: list_all_length)
    have "opcode_value opcode (map (val r) (v # ys)) = Some (val r (n_args m ! index))"
      if "solves st P r" "accepts opcode (map (val r) (v # ys))" for r
      using assms(5) [of r, unfolded undoes_def, rule_format, of "map (val r) (n_args m)" "r p"] y [OF that(1)] that(2) l(1) assms(4)
      by (simp add: obeys_def Let_def True v)
    then have "gives st P opcode (v # ys) (Some (n_args m ! index))" using arg by (simp add: gives_def)
    then show ?thesis using l(1) assms(4) by (simp add: producer_arg_def v m True Inst_Arg_def)
  qed (simp add: producer_arg_def v m)
qed

definition undoes_with :: "value_opcode \<Rightarrow> sem list \<Rightarrow> value_opcode \<Rightarrow> sem list \<Rightarrow> sem \<Rightarrow> bool" where
  "undoes_with opcode ys other xs w \<longleftrightarrow> (\<forall>z. accepts other xs \<longrightarrow> fits other xs \<longrightarrow>
     (\<forall>y. opcode_value other xs = Some y \<longrightarrow> z = y) \<longrightarrow> accepts opcode (z # ys) \<longrightarrow> opcode_value opcode (z # ys) = Some w)"

lemma producer_args1_ok:
  assumes "readable st P" "P v" "other \<noteq> Base Phi" "NumArgsOf other = 1"
    "\<And>x w. P x \<Longrightarrow> f x = Some w \<Longrightarrow> P w \<and> (\<forall>r. undoes_with opcode (map (val r) ys) other [val r x] (val r w))"
  shows "owp (producer_args1 st v other f) (gives st P opcode (v # ys)) False"
proof (cases "TryInstruction v")
  case None
  then show ?thesis by (simp add: producer_args1_def)
next
  case (Some p)
  then have v: "v = VInst p" by (cases v) auto
  obtain m where m: "get_inst st p = Ret m" using producer [OF assms(1) assms(2) [unfolded v] assms(3)] by blast
  show ?thesis
  proof (cases "n_opcode m = other")
    case True
    have l: "length (n_args m) = 1" "list_all P (n_args m)" and yld: "solves st P r \<Longrightarrow> obeys r m (r p)" for r
      using producer [OF assms(1) assms(2) [unfolded v] assms(3)] m True assms(4) by (metis outcome.inject)+
    then obtain a where a: "n_args m = [a]" "P a" by (auto simp: length_Suc_conv)
    obtain x where x: "Fold_Arg st m 0 = Ret x" "P x" "\<And>r. solves st P r \<Longrightarrow> val r a = val r x"
      using Fold_Arg_ok [OF assms(1), of 0 m] a by auto
    have "gives st P opcode (v # ys) (f x)"
    proof (cases "f x")
      case (Some w)
      note w = assms(5) [OF x(2) Some]
      have "opcode_value opcode (map (val r) (v # ys)) = Some (val r w)" if "solves st P r" "accepts opcode (map (val r) (v # ys))" for r
        using w [THEN conjunct2, rule_format, of r, unfolded undoes_with_def, rule_format, of "r p"] yld [OF that(1)] that(2) x(3) [OF that(1)]
        by (simp add: obeys_def Let_def True v a(1))
      then show ?thesis using w Some by (simp add: gives_def)
    qed simp
    then show ?thesis by (simp add: producer_args1_def v m True x(1))
  qed (simp add: producer_args1_def v m)
qed

lemma producer_args2_ok:
  assumes "readable st P" "P v" "other \<noteq> Base Phi" "NumArgsOf other = 2"
    "\<And>x y w. P x \<Longrightarrow> P y \<Longrightarrow> f x y = Some w \<Longrightarrow> P w \<and> (\<forall>r. undoes_with opcode (map (val r) ys) other [val r x, val r y] (val r w))"
  shows "owp (producer_args2 st v other f) (gives st P opcode (v # ys)) False"
proof (cases "TryInstruction v")
  case None
  then show ?thesis by (simp add: producer_args2_def)
next
  case (Some p)
  then have v: "v = VInst p" by (cases v) auto
  obtain m where m: "get_inst st p = Ret m" using producer [OF assms(1) assms(2) [unfolded v] assms(3)] by blast
  show ?thesis
  proof (cases "n_opcode m = other")
    case True
    have l: "length (n_args m) = 2" "list_all P (n_args m)" and yld: "solves st P r \<Longrightarrow> obeys r m (r p)" for r
      using producer [OF assms(1) assms(2) [unfolded v] assms(3)] m True assms(4) by (metis outcome.inject)+
    then obtain a b where a: "n_args m = [a, b]" "P a" "P b" by (auto simp: length_Suc_conv numeral_2_eq_2)
    obtain x where x: "Fold_Arg st m 0 = Ret x" "P x" "\<And>r. solves st P r \<Longrightarrow> val r a = val r x"
      using Fold_Arg_ok [OF assms(1), of 0 m] a by auto
    obtain y where y: "Fold_Arg st m 1 = Ret y" "P y" "\<And>r. solves st P r \<Longrightarrow> val r b = val r y"
      using Fold_Arg_ok [OF assms(1), of 1 m] a by auto
    have "gives st P opcode (v # ys) (f x y)"
    proof (cases "f x y")
      case (Some w)
      note w = assms(5) [OF x(2) y(2) Some]
      have "opcode_value opcode (map (val r) (v # ys)) = Some (val r w)" if "solves st P r" "accepts opcode (map (val r) (v # ys))" for r
        using w [THEN conjunct2, rule_format, of r, unfolded undoes_with_def, rule_format, of "r p"] yld [OF that(1)] that(2) x(3) [OF that(1)] y(3) [OF that(1)]
        by (simp add: obeys_def Let_def True v a(1))
      then show ?thesis using w Some by (simp add: gives_def)
    qed simp
    then show ?thesis by (simp add: producer_args2_def v m True x(1) y(1) [simplified])
  qed (simp add: producer_args2_def v m)
qed

end
