(* ===== verification/ShaderFoldOk.thy ===== *)
theory ShaderFoldOk
  imports ShaderRules
begin

text \<open>
  Folding an instruction never fails and finds a value the instruction has whenever its operands
  are what its opcode takes.
\<close>

unbundle bit_operations_syntax

section \<open>The results as the folding code computes them\<close>

named_theorems folds \<open>the result of an opcode in the arithmetic of the folding code\<close>

lemma alu_values [folds]:
  "opcode_value (Alu IAdd32) [S32 x, S32 y] = Some (S32 (x + y))"
  "opcode_value (Alu IAdd64) [S64 z, S64 w] = Some (S64 (z + w))"
  "opcode_value (Alu ISub32) [S32 x, S32 y] = Some (S32 (x - y))"
  "opcode_value (Alu ISub64) [S64 z, S64 w] = Some (S64 (z - w))"
  "opcode_value (Alu IMul32) [S32 x, S32 y] = Some (S32 (x * y))"
  "opcode_value (Alu IMul64) [S64 z, S64 w] = Some (S64 (z * w))"
  "opcode_value (Alu ShiftLeftLogical32) [S32 x, S32 y] = Some (S32 (push_bit (unat (y AND 31)) x))"
  "opcode_value (Alu ShiftRightLogical32) [S32 x, S32 y] = Some (S32 (drop_bit (unat (y AND 31)) x))"
  "opcode_value (Alu ShiftRightArithmetic32) [S32 x, S32 y] = Some (S32 (signed_drop_bit (unat (y AND 31)) x))"
  "opcode_value (Alu ShiftLeftLogical64) [S64 z, S32 y] = Some (S64 (push_bit (unat (y AND 63)) z))"
  "opcode_value (Alu ShiftRightLogical64) [S64 z, S32 y] = Some (S64 (drop_bit (unat (y AND 63)) z))"
  "opcode_value (Alu ShiftRightArithmetic64) [S64 z, S32 y] = Some (S64 (signed_drop_bit (unat (y AND 63)) z))"
  "opcode_value (Alu BitwiseAnd32) [S32 x, S32 y] = Some (S32 (x AND y))"
  "opcode_value (Alu BitwiseAnd64) [S64 z, S64 w] = Some (S64 (z AND w))"
  "opcode_value (Alu BitwiseOr32) [S32 x, S32 y] = Some (S32 (x OR y))"
  "opcode_value (Alu BitwiseOr64) [S64 z, S64 w] = Some (S64 (z OR w))"
  "opcode_value (Alu BitwiseXor32) [S32 x, S32 y] = Some (S32 (x XOR y))"
  "opcode_value (Alu BitwiseNot32) [S32 x] = Some (S32 (NOT x))"
  "opcode_value (Alu BitCount32) [S32 x] = Some (S32 (popcount x))"
  "opcode_value (Alu BitCount64) [S64 z] = Some (S32 (popcount z))"
  "opcode_value (Alu SMin32) [S32 x, S32 y] = Some (S32 (if sint x < sint y then x else y))"
  "opcode_value (Alu SMax32) [S32 x, S32 y] = Some (S32 (if sint x > sint y then x else y))"
  "opcode_value (Alu UMin32) [S32 x, S32 y] = Some (S32 (min x y))"
  "opcode_value (Alu UMax32) [S32 x, S32 y] = Some (S32 (max x y))"
  unfolding opcode_value_def alu_value_def value_opcode.case alu_op.case on32.simps on64.simps shift64.simps
    add_word sub_word mult_word popcount_word smin_word smax_word umin_word umax_word
    and_31 and_63 push_word drop_word sdrop_word not_word and_word [of x y] and_word [of z w] or_word xor_word
  by (simp_all only: list.case sem.case word_of_int_uint)

lemma high_values [folds]:
  "opcode_value (Alu SMulHi) [S32 x, S32 y] = Some (S32 (ucast (drop_bit 32 (scast x * scast y :: u64))))"
  "opcode_value (Alu UMulHi) [S32 x, S32 y] = Some (S32 (ucast (drop_bit 32 (ucast x * ucast y :: u64))))"
  "opcode_value (Alu IAbs32) [S32 x] = Some (S32 (if x AND 0x80000000 \<noteq> 0 then 0 - x else x))"
  by (simp_all only: smulhi_word umulhi_word abs_word opcode_value_def alu_value_def value_opcode.case alu_op.case on32.simps list.case sem.case)

lemma div_value [folds]: "y \<noteq> 0 \<Longrightarrow> opcode_value (Alu UDiv32) [S32 x, S32 y] = Some (S32 (x div y))"
  by (simp add: opcode_value_def alu_value_def div_word)

lemma select_values [folds]:
  "opcode_value (Alu SelectU1) [SBool k, x, y] = Some (if k then x else y)"
  "opcode_value (Alu SelectF32) [SBool k, x, y] = Some (if k then x else y)"
  "opcode_value (Control SelectU32) [SBool k, x, y] = Some (if k then x else y)"
  by (simp_all add: opcode_value_def alu_value_def)

lemma compare_values [folds]:
  "opcode_value (Compare IEqual32) [S32 x, S32 y] = Some (SBool (x = y))"
  "opcode_value (Compare INotEqual32) [S32 x, S32 y] = Some (SBool (x \<noteq> y))"
  "opcode_value (Compare ULessThan32) [S32 x, S32 y] = Some (SBool (x < y))"
  "opcode_value (Compare ULessThanEqual32) [S32 x, S32 y] = Some (SBool (x \<le> y))"
  "opcode_value (Compare UGreaterThan32) [S32 x, S32 y] = Some (SBool (x > y))"
  "opcode_value (Compare UGreaterThanEqual32) [S32 x, S32 y] = Some (SBool (x \<ge> y))"
  "opcode_value (Compare SLessThan32) [S32 x, S32 y] = Some (SBool (sint x < sint y))"
  "opcode_value (Compare SLessThanEqual32) [S32 x, S32 y] = Some (SBool (sint x \<le> sint y))"
  "opcode_value (Compare SGreaterThan32) [S32 x, S32 y] = Some (SBool (sint x > sint y))"
  "opcode_value (Compare SGreaterThanEqual32) [S32 x, S32 y] = Some (SBool (sint x \<ge> sint y))"
  "opcode_value (Compare IEqual64) [S64 z, S64 w] = Some (SBool (z = w))"
  "opcode_value (Compare INotEqual64) [S64 z, S64 w] = Some (SBool (z \<noteq> w))"
  "opcode_value (Compare ULessThan64) [S64 z, S64 w] = Some (SBool (z < w))"
  "opcode_value (Compare ULessThanEqual64) [S64 z, S64 w] = Some (SBool (z \<le> w))"
  "opcode_value (Compare UGreaterThan64) [S64 z, S64 w] = Some (SBool (z > w))"
  "opcode_value (Compare UGreaterThanEqual64) [S64 z, S64 w] = Some (SBool (z \<ge> w))"
  "opcode_value (Compare SLessThan64) [S64 z, S64 w] = Some (SBool (sint z < sint w))"
  "opcode_value (Compare SLessThanEqual64) [S64 z, S64 w] = Some (SBool (sint z \<le> sint w))"
  "opcode_value (Compare SGreaterThan64) [S64 z, S64 w] = Some (SBool (sint z > sint w))"
  "opcode_value (Compare SGreaterThanEqual64) [S64 z, S64 w] = Some (SBool (sint z \<ge> sint w))"
  "opcode_value (Compare LogicalAnd) [SBool a, SBool b] = Some (SBool (a \<and> b))"
  "opcode_value (Compare LogicalOr) [SBool a, SBool b] = Some (SBool (a \<or> b))"
  "opcode_value (Compare LogicalXor) [SBool a, SBool b] = Some (SBool (a \<noteq> b))"
  "opcode_value (Compare LogicalNot) [SBool a] = Some (SBool (\<not> a))"
  by (simp_all add: opcode_value_def compare_value_def word_less_def word_le_def flip: word_uint_eq_iff)

lemma modifier_values [folds]:
  "unat s + unat c \<le> 32 \<Longrightarrow> opcode_value (Modifier BitFieldInsert) [S32 x, S32 y, S32 s, S32 c] = Some (S32 (fold_insert x y s c))"
  "unat s + unat c \<le> 32 \<Longrightarrow> opcode_value (Modifier BitFieldUExtract) [S32 x, S32 s, S32 c] = Some (S32 (fold_uextract x s c))"
  "unat s + unat c \<le> 32 \<Longrightarrow> opcode_value (Modifier BitFieldSExtract) [S32 x, S32 s, S32 c] = Some (S32 (fold_sextract x s c))"
  by (simp_all only: opcode_value_def modifier_value_def value_opcode.case modifier_op.case list.case sem.case if_True
      insert_word uextract_word sextract_word)

lemma cast_values [folds]:
  "opcode_value (Cast ConvertU16U32) [S32 x] = Some (S16 (ucast x))"
  "opcode_value (Cast ConvertU8U32) [S32 x] = Some (S8 (ucast x))"
  "opcode_value (Cast ConvertU32U16) [S16 h] = Some (S32 (ucast h))"
  "opcode_value (Cast ConvertU32U8) [S8 e] = Some (S32 (ucast e))"
  "opcode_value (Cast BitCastU16F16) [H16 h] = Some (S16 h)"
  "opcode_value (Cast BitCastF16U16) [S16 h] = Some (H16 h)"
  "opcode_value (Cast BitCastU32F32) [F32 x] = Some (S32 x)"
  "opcode_value (Cast BitCastF32U32) [S32 x] = Some (F32 x)"
  "opcode_value (Cast CompositeConstructU32x2) [S32 x, S32 y] = Some (S32x2 x y)"
  "opcode_value (Cast CompositeConstructU32x4) [S32 x, S32 y, S32 s, S32 c] = Some (S32x4 x y s c)"
  "opcode_value (Cast CompositeExtractU32x2) [S32x2 x y, S32 s] = (if unat s < 2 then Some (S32 ([x, y] ! unat s)) else None)"
  "opcode_value (Cast CompositeExtractU32x4) [S32x4 x y t c, S32 s] = (if unat s < 4 then Some (S32 ([x, y, t, c] ! unat s)) else None)"
  "opcode_value (Cast PackUint2x32) [S32x2 x y] = Some (S64 (ucast x OR push_bit 32 (ucast y)))"
  by (simp_all only: opcode_value_def value_opcode.case list.case sem.case cast_value.simps narrow_word pack_word) simp_all

lemma pair_values [folds]:
  "opcode_value (Cast UnpackUint2x32) [S64 z] = Some (S32x2 (ucast z) (ucast (drop_bit 32 z)))"
  "opcode_value (Alu IAddCarry32) [S32 x, S32 y] =
     Some (S32x2 (ucast (ucast x + ucast y :: u64)) (ucast (drop_bit 32 (ucast x + ucast y :: u64))))"
  by (simp_all only: opcode_value_def alu_value_def value_opcode.case alu_op.case list.case sem.case cast_value.simps
      unpack_word [of z] carry_word [of x y])

section \<open>Rules of the groups\<close>

lemma args1: "length xs = Suc 0 \<Longrightarrow> list_all P xs \<Longrightarrow> \<exists>a. xs = [a] \<and> P a"
  by (cases xs) auto

lemma args2: "length xs = Suc (Suc 0) \<Longrightarrow> list_all P xs \<Longrightarrow> \<exists>a b. xs = [a, b] \<and> P a \<and> P b"
  by (cases xs) (auto dest: args1)

lemma args3: "length xs = Suc (Suc (Suc 0)) \<Longrightarrow> list_all P xs \<Longrightarrow> \<exists>a b c. xs = [a, b, c] \<and> P a \<and> P b \<and> P c"
  by (cases xs) (auto dest: args2)

lemma args4: "length xs = Suc (Suc (Suc (Suc 0))) \<Longrightarrow> list_all P xs \<Longrightarrow> \<exists>a b c d. xs = [a, b, c, d] \<and> P a \<and> P b \<and> P c \<and> P d"
  by (cases xs) (auto dest: args3)

lemma ucast_inj: "ucast (a :: u32) = (ucast (b :: u32) :: u64) \<longleftrightarrow> a = b"
  by transfer simp

lemma binary_identity32_ok:
  assumes "readable st P" "n_args n = [a, b]" "P a" "P b" "opcode \<noteq> Base Identity" "MetaTable opcode = (T_U32, [T_U32, T_U32])"
    "c = ucast (k :: u32)" "\<And>x. opcode_value opcode [S32 k, S32 x] = Some (S32 x)" "\<And>x. opcode_value opcode [S32 x, S32 k] = Some (S32 x)"
  shows "owp (ReplaceBinaryIdentity st n T_U32 c) (gives st P opcode [a, b]) False"
proof (rule ReplaceBinaryIdentity_ok [OF assms(1-6)])
  have v: "v = VU32 k" if "imm_identity T_U32 c v" for v
    using that assms(7) by (auto elim!: imm_identityE simp: ucast_inj type_defs)
  show "imm_identity T_U32 c v \<Longrightarrow> takes T_U32 x \<Longrightarrow> opcode_value opcode [val r v, x] = Some x" for v r x
    using assms(8) by (auto dest: v)
  show "imm_identity T_U32 c v \<Longrightarrow> takes T_U32 x \<Longrightarrow> opcode_value opcode [x, val r v] = Some x" for v r x
    using assms(9) by (auto dest: v)
qed

lemma binary_identity64_ok:
  assumes "readable st P" "n_args n = [a, b]" "P a" "P b" "opcode \<noteq> Base Identity" "MetaTable opcode = (T_U64, [T_U64, T_U64])"
    "\<And>x. opcode_value opcode [S64 c, S64 x] = Some (S64 x)" "\<And>x. opcode_value opcode [S64 x, S64 c] = Some (S64 x)"
  shows "owp (ReplaceBinaryIdentity st n T_U64 c) (gives st P opcode [a, b]) False"
proof (rule ReplaceBinaryIdentity_ok [OF assms(1-6)])
  have v: "v = VU64 c" if "imm_identity T_U64 c v" for v
    using that by (auto elim!: imm_identityE simp: type_defs)
  show "imm_identity T_U64 c v \<Longrightarrow> takes T_U64 x \<Longrightarrow> opcode_value opcode [val r v, x] = Some x" for v r x
    using assms(7) by (auto dest: v)
  show "imm_identity T_U64 c v \<Longrightarrow> takes T_U64 x \<Longrightarrow> opcode_value opcode [x, val r v] = Some x" for v r x
    using assms(8) by (auto dest: v)
qed

lemma and_all: "(0xffffffff :: u32) AND x = x" "x AND (0xffffffff :: u32) = x"
proof -
  have "(0xffffffff :: u32) = - 1" by simp
  then show "(0xffffffff :: u32) AND x = x" "x AND (0xffffffff :: u32) = x" by (simp_all only: and.left_neutral and.right_neutral)
qed

text \<open>A two-operand opcode that is folded, or replaced by an operand.\<close>

lemma fold_alu_binary:
  assumes "readable st P" "n_args n = [a, b]" "P a" "P b" "length (snd (meta_alu_op opcode)) = 2"
  shows "owp (fold_alu st n opcode) (gives st P (Alu opcode) [a, b]) False"
proof -
  note f = FoldU32_ok [OF assms(1-4)] FoldU64_ok [OF assms(1-4)] FoldU64Shift_ok [OF assms(1-4)]
  note i = binary_identity32_ok [OF assms(1-4)] binary_identity64_ok [OF assms(1-4)]
  note r = fold_rhs_u32_ok [OF assms(1-4)] fold_rhs_u64_ok [OF assms(1-4)]
  have id: "(0 :: u64) = ucast (0 :: u32)" "(1 :: u64) = ucast (1 :: u32)" "(0xffffffff :: u64) = ucast (0xffffffff :: u32)" by simp_all
  consider "opcode \<in> {SMulHi, UMulHi, ShiftRightArithmetic32, ShiftRightArithmetic64, SMin32, SMax32, UMin32, UMax32}"
    | "opcode \<in> {IAdd32, IMul32, BitwiseOr32, BitwiseXor32}" | "opcode = BitwiseAnd32" | "opcode \<in> {IAdd64, IMul64, BitwiseAnd64, BitwiseOr64}"
    | "opcode \<in> {ISub32, ShiftLeftLogical32, ShiftRightLogical32}" | "opcode \<in> {ShiftLeftLogical64, ShiftRightLogical64}" | "opcode = ISub64"
    | "opcode = UDiv32" | "opcode = IAddCarry32"
    using assms(5) by (cases opcode) simp_all
  then show ?thesis
  proof cases
    case 1
    then show ?thesis by - (elim insertE emptyE; simp only: fold_alu_def alu_op.case; rule f; simp only: folds)
  next
    case 2
    then show ?thesis by - (elim insertE emptyE; simp only: fold_alu_def alu_op.case; rule else_fold_ok; (rule f; simp only: folds | rule i(1) [OF _ _ id(1)] i(1) [OF _ _ id(2)]; simp add: folds))
  next
    case 3
    show ?thesis unfolding 3 fold_alu_def alu_op.case
      by (rule else_fold_ok; (rule f; simp only: folds | rule i(1) [OF _ _ id(3)]; simp add: folds and_all))
  next
    case 4
    then show ?thesis by - (elim insertE emptyE; simp only: fold_alu_def alu_op.case; rule else_fold_ok; (rule f; simp only: folds | rule i(2); simp add: folds))
  next
    case 5
    then show ?thesis by - (elim insertE emptyE; simp only: fold_alu_def alu_op.case; rule else_fold_ok; (rule f; simp only: folds | rule r(1) [where T = T_U32 and U = T_U32]; auto simp: folds))
  next
    case 6
    then show ?thesis by - (elim insertE emptyE; simp only: fold_alu_def alu_op.case; rule else_fold_ok; (rule f; simp only: folds | rule r(1) [where T = T_U64 and U = T_U32]; auto simp: folds))
  next
    case 7
    show ?thesis unfolding 7 fold_alu_def alu_op.case
      by (rule else_fold_ok; (rule f; simp only: folds | rule r(2) [where T = T_U64 and U = T_U64]; auto simp: folds))
  next
    case 8
    obtain x where x: "Fold_Arg st n 0 = Ret x" "P x" "\<And>r. solves st P r \<Longrightarrow> val r a = val r x"
      using Fold_Arg_ok [OF assms(1), of 0 n] assms(2,3) by auto
    obtain y where y: "Fold_Arg st n 1 = Ret y" "P y" "\<And>r. solves st P r \<Longrightarrow> val r b = val r y"
      using Fold_Arg_ok [OF assms(1), of 1 n] assms(2,4) by auto
    show ?thesis unfolding 8 fold_alu_def alu_op.case FoldU32_def with_args2_def x(1) y(1) obind.simps
      using readable_imm(4) [OF assms(1)] x(2,3) y(3)
      by (auto simp: gives_def accepts_row folds split: ir_value.split)
  next
    case 9
    show ?thesis by (simp add: fold_alu_def 9)
  qed
qed

lemma fold_alu_ok:
  assumes "readable st P" "length (n_args n) = NumArgsOf (Alu opcode)" "list_all P (n_args n)"
  shows "owp (fold_alu st n opcode) (gives st P (Alu opcode) (n_args n)) False"
proof -
  consider "length (snd (meta_alu_op opcode)) = 2" | "opcode \<in> {SelectU1, SelectF32}" | "opcode \<in> {IAbs32, BitCount32, BitCount64, BitwiseNot32}"
    | "opcode \<in> {BitReverse32, FindUMsb32, FindUMsb64, FindSMsb32, FindILsb32, SMinTri32, UMinTri32, SMaxTri32, UMaxTri32, SMedTri32, UMedTri32}"
    by (cases opcode) simp_all
  then show ?thesis
  proof cases
    case 1
    then obtain a b where n: "n_args n = [a, b]" "P a" "P b" using args2 assms(2,3) by (metis NumArgsOf_def MetaTable.simps(5) numeral_2_eq_2)
    then show ?thesis using fold_alu_binary [OF assms(1) n 1] by simp
  next
    case 2
    then obtain a b c where n: "n_args n = [a, b, c]" "P a" "P b" "P c" using args3 [OF _ assms(3)] assms(2) by (auto simp: NumArgsOf_def)
    show ?thesis using 2 unfolding n(1)
      by - (elim insertE emptyE; simp only: fold_alu_def alu_op.case; rule FoldSelect_ok [OF assms(1) n]; simp add: folds)
  next
    case 3
    then obtain a where n: "n_args n = [a]" "P a" using args1 [OF _ assms(3)] assms(2) by (auto simp: NumArgsOf_def)
    have u: "undoes (Alu BitwiseNot32) (map (val r) []) (Alu BitwiseNot32) 0" for r
      by (auto simp: undoes_def accepts_row folds list_all2_Cons1)
    have not_ok: "owp (producer_arg st x (Alu BitwiseNot32) 0) (gives st P (Alu BitwiseNot32) [x]) False" if "P x" for x
      by (rule producer_arg_ok [OF assms(1) that]) (use u in \<open>auto simp: NumArgsOf_def\<close>)
    show ?thesis using 3 unfolding n(1)
      by - (elim insertE emptyE; simp only: fold_alu_def alu_op.case; rule with_args1_ok [OF assms(1) n];
            auto simp: gives_def folds not_ok split: ir_value.split intro: readable_imm [OF assms(1)])
  next
    case 4
    then show ?thesis by (elim insertE emptyE) (simp_all add: fold_alu_def)
  qed
qed

lemma fold_modifier_ok:
  assumes "readable st P" "length (n_args n) = NumArgsOf (Modifier opcode)" "list_all P (n_args n)"
  shows "owp (fold_modifier st n opcode) (gives st P (Modifier opcode) (n_args n)) False"
proof -
  have inside: "(d :: u32) \<le> 32 - c \<Longrightarrow> c \<le> 32 \<Longrightarrow> unat c + unat d \<le> 32" for c d
    by (simp add: word_le_nat_alt unat_sub)
  consider "opcode = BitFieldInsert" | "opcode \<in> {BitFieldUExtract, BitFieldSExtract}"
    | "opcode \<notin> {BitFieldInsert, BitFieldUExtract, BitFieldSExtract}" by blast
  then show ?thesis
  proof cases
    case 1
    then obtain a b c d where n: "n_args n = [a, b, c, d]" "P a" "P b" "P c" "P d" using args4 [OF _ assms(3)] assms(2) by (auto simp: NumArgsOf_def)
    show ?thesis unfolding n(1) unfolding 1 fold_modifier_def modifier_op.case
      by (rule with_args4_ok [OF assms(1) n])
         (auto simp: gives_def modifier_values inside split: ir_value.split intro: readable_imm [OF assms(1)])
  next
    case 2
    then obtain a b c where n: "n_args n = [a, b, c]" "P a" "P b" "P c" using args3 [OF _ assms(3)] assms(2) by (auto simp: NumArgsOf_def)
    show ?thesis using 2 unfolding n(1)
      by - (elim insertE emptyE; simp only: fold_modifier_def modifier_op.case; rule with_args3_ok [OF assms(1) n];
            auto simp: gives_def modifier_values inside not_less split: ir_value.split intro: readable_imm [OF assms(1)])
  next
    case 3
    then show ?thesis by (cases opcode) (simp_all add: fold_modifier_def)
  qed
qed

lemma fold_compare_ok:
  assumes "readable st P" "length (n_args n) = NumArgsOf (Compare opcode)" "list_all P (n_args n)"
  shows "owp (fold_compare st n opcode) (gives st P (Compare opcode) (n_args n)) False"
proof (cases "opcode = LogicalNot")
  case True
  then obtain a where n: "n_args n = [a]" "P a" using args1 [OF _ assms(3)] assms(2) by (auto simp: NumArgsOf_def)
  have u: "undoes (Compare LogicalNot) (map (val r) []) (Compare LogicalNot) 0" for r
    by (auto simp: undoes_def accepts_row folds list_all2_Cons1)
  have not_ok: "owp (producer_arg st x (Compare LogicalNot) 0) (gives st P (Compare LogicalNot) [x]) False" if "P x" for x
    by (rule producer_arg_ok [OF assms(1) that]) (use u in \<open>auto simp: NumArgsOf_def\<close>)
  show ?thesis unfolding n(1) unfolding True fold_compare_def compare_op.case
    by (rule with_args1_ok [OF assms(1) n]) (auto simp: gives_def folds not_ok split: ir_value.split intro: readable_imm [OF assms(1)])
next
  case False
  then have "NumArgsOf (Compare opcode) = Suc (Suc 0)" by (cases opcode) (simp_all add: NumArgsOf_def)
  then obtain a b where n: "n_args n = [a, b]" "P a" "P b" using args2 [OF _ assms(3)] assms(2) by auto
  note f = FoldU32Compare_ok [OF assms(1) n] FoldU64Compare_ok [OF assms(1) n]
  show ?thesis unfolding n(1)
  proof (cases "opcode \<in> {LogicalAnd, LogicalOr, LogicalXor}")
    case True
    then show "owp (fold_compare st n opcode) (gives st P (Compare opcode) [a, b]) False"
      by - (elim insertE emptyE; simp only: fold_compare_def compare_op.case; rule else_fold_ok;
            (rule FoldLogical_ok [OF assms(1) n]; simp only: folds |
             rule with_args2_ok [OF assms(1) n]; auto simp: gives_def accepts_row folds split: ir_value.split))
  next
    case no: False
    with False show "owp (fold_compare st n opcode) (gives st P (Compare opcode) [a, b]) False"
      by - (cases opcode; (simp; fail | simp only: fold_compare_def compare_op.case; rule f; simp only: folds))
  qed
qed

text \<open>Casts look for the producer that they undo.\<close>

lemma undo_casts:
  "undoes (Cast BitCastU16F16) [] (Cast BitCastF16U16) 0" "undoes (Cast BitCastF16U16) [] (Cast BitCastU16F16) 0"
  "undoes (Cast BitCastU32F32) [] (Cast BitCastF32U32) 0" "undoes (Cast BitCastF32U32) [] (Cast BitCastU32F32) 0"
  by (auto simp: undoes_def accepts_row folds list_all2_Cons1)

lemma narrow_widen: "(w :: u32) < 0x10000 \<Longrightarrow> ucast (ucast w :: u16) = w" "(w :: u32) < 0x100 \<Longrightarrow> ucast (ucast w :: u8) = w"
proof -
  have "ucast (ucast w :: u16) = take_bit 16 w" "ucast (ucast w :: u8) = take_bit 8 w" for w :: u32
    by (rule bit_word_eqI, auto simp: bit_simps)+
  then have "ucast (ucast w :: u16) = w mod 2 ^ 16" "ucast (ucast w :: u8) = w mod 2 ^ 8" for w :: u32
    by (simp_all only: take_bit_eq_mod)
  then show "w < 0x10000 \<Longrightarrow> ucast (ucast w :: u16) = w" "w < 0x100 \<Longrightarrow> ucast (ucast w :: u8) = w"
    by (simp_all add: word_unat_eq_iff unat_mod word_less_nat_alt)
qed

lemma undo_narrow:
  "undoes (Cast ConvertU32U16) [] (Cast ConvertU16U32) 0" "undoes (Cast ConvertU32U8) [] (Cast ConvertU8U32) 0"
  by (auto simp: undoes_def accepts_row folds list_all2_Cons1 fits_def narrow_widen)

lemma pack_unpack: "ucast (ucast z :: u32) OR push_bit 32 (ucast (ucast (drop_bit 32 z) :: u32)) = (z :: u64)"
  "ucast (ucast a OR push_bit 32 (ucast b) :: u64) = (a :: u32)" "ucast (drop_bit 32 (ucast a) OR drop_bit 32 (push_bit 32 (ucast b)) :: u64) = (b :: u32)"
  by (rule bit_word_eqI, auto simp: bit_simps dest: bit_imp_le_length)+

lemma undo_pack:
  "undoes (Cast PackUint2x32) [] (Cast UnpackUint2x32) 0" "undoes (Cast UnpackUint2x32) [] (Cast PackUint2x32) 0"
  by (auto simp: undoes_def accepts_row folds list_all2_Cons1 pack_unpack)

lemma undo_extract:
  "unat k < 2 \<Longrightarrow> undoes (Cast CompositeExtractU32x2) [S32 k] (Cast CompositeConstructU32x2) (unat k)"
  "unat k < 4 \<Longrightarrow> undoes (Cast CompositeExtractU32x4) [S32 k] (Cast CompositeConstructU32x4) (unat k)"
proof -
  have "xs = map S32 ys \<Longrightarrow> unat k < length ys \<Longrightarrow> S32 (ys ! unat k) = xs ! unat k" for xs ys by simp
  note n = this [of _ "[_, _]"] this [of _ "[_, _, _, _]"]
  show "unat k < 2 \<Longrightarrow> undoes (Cast CompositeExtractU32x2) [S32 k] (Cast CompositeConstructU32x2) (unat k)"
    by (auto simp: undoes_def accepts_row folds list_all2_Cons1 intro!: n(1))
  show "unat k < 4 \<Longrightarrow> undoes (Cast CompositeExtractU32x4) [S32 k] (Cast CompositeConstructU32x4) (unat k)"
    by (auto simp: undoes_def accepts_row folds list_all2_Cons1 intro!: n(2))
qed

lemma FoldBitCast_ok:
  assumes "readable st P" "length (n_args n) = 1" "list_all P (n_args n)" "n_opcode n = Cast opcode"
    "(opcode, other) \<in> {(BitCastU16F16, BitCastF16U16), (BitCastF16U16, BitCastU16F16), (BitCastU32F32, BitCastF32U32), (BitCastF32U32, BitCastU32F32)}"
  shows "owp (FoldBitCast st n (Cast other)) (gives st P (Cast opcode) (n_args n)) False"
proof -
  obtain a where n: "n_args n = [a]" "P a" using args1 [OF _ assms(3)] assms(2) by auto
  have "undoes (Cast opcode) (map (val r) []) (Cast other) 0" for r using assms(5) undo_casts by auto
  moreover have "NumArgsOf (Cast other) = 1" using assms(5) by (auto simp: NumArgsOf_def)
  ultimately have p: "owp (producer_arg st x (Cast other) 0) (gives st P (Cast opcode) [x]) False" if "P x" for x
    using producer_arg_ok [OF assms(1) that, of "Cast other" 0 "Cast opcode" "[]"] by simp
  show ?thesis unfolding n(1) FoldBitCast_def
    by (rule with_args1_ok [OF assms(1) n])
       (use assms(5) p in \<open>auto simp: gives_def folds assms(4) split: ir_value.split intro: readable_imm [OF assms(1)]\<close>)
qed

lemma FoldCompositeExtract_ok:
  assumes "readable st P" "length (n_args n) = 2" "list_all P (n_args n)"
    "(opcode, construct, components) \<in> {(CompositeExtractU32x2, CompositeConstructU32x2, 2), (CompositeExtractU32x4, CompositeConstructU32x4, 4)}"
  shows "owp (FoldCompositeExtract st n (Cast construct) components) (gives st P (Cast opcode) (n_args n)) False"
proof -
  obtain a b where n: "n_args n = [a, b]" "P a" "P b" using args2 [OF _ assms(3)] assms(2) by auto
  have k2: "k < 2 \<Longrightarrow> k = 0 \<or> k = 1" for k :: u32 by (auto simp: word_less_nat_alt word_unat_eq_iff)
  have "owp (producer_arg st x (Cast construct) (unat k)) (gives st P (Cast opcode) [x, VU32 k]) False"
    if "P x" "unat k < components" for x k
    by (rule producer_arg_ok [OF assms(1) that(1), where ys = "[VU32 k]"])
       (use assms(4) that(2) undo_extract in \<open>auto simp: NumArgsOf_def\<close>)
  moreover have "owp (producer_args2 st x (Alu IAddCarry32) (\<lambda>lhs rhs. case (lhs, rhs) of
       (VU32 a, VU32 b) \<Rightarrow> let sum = (ucast a + ucast b :: u64) in Some (VU32 (if k = 0 then ucast sum else ucast (drop_bit 32 sum)))
     | _ \<Rightarrow> None)) (gives st P (Cast opcode) [x, VU32 k]) False" if "P x" "k < 2" for x k
    by (rule producer_args2_ok [OF assms(1) that(1)])
       (use assms(4) k2 [OF that(2)] in \<open>auto simp: NumArgsOf_def undoes_with_def accepts_row folds split: ir_value.splits intro: readable_imm [OF assms(1)]\<close>)
  moreover have "owp (producer_args1 st x (Cast UnpackUint2x32) (\<lambda>packed. case packed of
       VU64 w \<Rightarrow> Some (VU32 (ucast (drop_bit (unat k * 32) w))) | _ \<Rightarrow> None)) (gives st P (Cast opcode) [x, VU32 k]) False"
    if "P x" "k < 2" for x k
    by (rule producer_args1_ok [OF assms(1) that(1)])
       (use assms(4) k2 [OF that(2)] in \<open>auto simp: NumArgsOf_def undoes_with_def accepts_row folds split: ir_value.splits intro: readable_imm [OF assms(1)]\<close>)
  ultimately have "owp (case y of VU32 k \<Rightarrow>
       if unat k \<ge> components then Ret None
       else else_fold (producer_arg st x (Cast construct) (unat k))
         (else_fold
           (if k < 2 then producer_args2 st x (Alu IAddCarry32) (\<lambda>lhs rhs. case (lhs, rhs) of
              (VU32 a, VU32 b) \<Rightarrow> let sum = (ucast a + ucast b :: u64) in
                Some (VU32 (if k = 0 then ucast sum else ucast (drop_bit 32 sum)))
            | _ \<Rightarrow> None) else Ret None)
           (if k < 2 then producer_args1 st x (Cast UnpackUint2x32) (\<lambda>packed. case packed of
              VU64 w \<Rightarrow> Some (VU32 (ucast (drop_bit (unat k * 32) w)))
            | _ \<Rightarrow> None) else Ret None))
   | _ \<Rightarrow> Ret None) (gives st P (Cast opcode) [x, y]) False" if "P x" for x y
    using that by (cases y) (auto intro!: else_fold_ok simp: not_le)
  then show ?thesis unfolding n(1) FoldCompositeExtract_def by (intro with_args2_ok [OF assms(1) n])
qed

lemma fold_cast_ok:
  assumes "readable st P" "n_opcode n = Cast opcode" "length (n_args n) = NumArgsOf (Cast opcode)" "list_all P (n_args n)"
  shows "owp (fold_cast st n opcode) (gives st P (Cast opcode) (n_args n)) False"
proof -
  note imm = readable_imm [OF assms(1)]
  consider "opcode \<in> {BitCastU16F16, BitCastF16U16, BitCastU32F32, BitCastF32U32}" | "opcode \<in> {CompositeExtractU32x2, CompositeExtractU32x4}"
    | "opcode \<in> {ConvertU16U32, ConvertU32U16, ConvertU8U32, ConvertU32U8, PackUint2x32, UnpackUint2x32}"
    | "fold_cast st n opcode = Ret None"
    by (cases opcode) (simp_all add: fold_cast_def)
  then show ?thesis
  proof cases
    case 1
    then show ?thesis using FoldBitCast_ok [OF assms(1) _ assms(4,2)] assms(3) by (auto simp: fold_cast_def NumArgsOf_def)
  next
    case 2
    then show ?thesis using FoldCompositeExtract_ok [OF assms(1) _ assms(4)] assms(3) by (auto simp: fold_cast_def NumArgsOf_def)
  next
    case 3
    then obtain a where n: "n_args n = [a]" "P a" using args1 [OF _ assms(4)] assms(3) by (auto simp: NumArgsOf_def)
    have p: "owp (producer_arg st x (Cast other) 0) (gives st P (Cast opcode) [x]) False"
      if "P x" "undoes (Cast opcode) [] (Cast other) 0" "0 < NumArgsOf (Cast other)" for x other opcode
      by (rule producer_arg_ok [OF assms(1) that(1)]) (use that in simp_all)
    have "owp (producer_args2 st x (Cast CompositeConstructU32x2) (\<lambda>low high. case (low, high) of
          (VU32 a, VU32 b) \<Rightarrow> Some (VU64 (ucast a OR push_bit 32 (ucast b))) | _ \<Rightarrow> None)) (gives st P (Cast PackUint2x32) [x]) False"
      if "P x" for x
      by (rule producer_args2_ok [OF assms(1) that])
         (auto simp: NumArgsOf_def undoes_with_def accepts_row folds split: ir_value.splits intro: imm)
    note p2 = else_fold_ok [OF p this [unfolded prod.case]]
    show ?thesis using 3 unfolding n(1)
      by - (elim insertE emptyE; simp only: fold_cast_def cast_op.case; rule with_args1_ok [OF assms(1) n];
            auto simp: gives_def folds undo_narrow undo_pack NumArgsOf_def split: ir_value.split intro: imm intro!: p p2)
  next
    case 4
    then show ?thesis by simp
  qed
qed

end
