(* ===== verification/ShaderChecks.thy ===== *)
theory ShaderChecks
  imports ShaderRuns
begin

text \<open>
  Conditions on a concrete graph that evaluation can check: use lists in step, and SSA form.
\<close>

definition block_of :: "nat list \<Rightarrow> nat list \<Rightarrow> nat list \<Rightarrow> ir_block" where
  "block_of is ps ss = \<lparr>b_insts = is, b_preds = ps, b_succs = ss, b_sealed = True\<rparr>"

definition inst_of :: "value_opcode \<Rightarrow> nat \<Rightarrow> ir_value list \<Rightarrow> nat list \<Rightarrow> (nat \<times> nat) list \<Rightarrow> ir_inst option" where
  "inst_of opcode b args phis uses =
     Some \<lparr>n_opcode = opcode, n_flags = 0, n_parent = Some b, n_args = args, n_phi_blocks = phis, n_uses = uses\<rparr>"

text \<open>The use lists, checked by evaluation.\<close>

definition uses_checked :: "ir_store \<Rightarrow> bool" where
  "uses_checked st \<longleftrightarrow> list_all (\<lambda>d. case inst_at st d of None \<Rightarrow> True | Some u \<Rightarrow>
       distinct (n_uses u) \<and> list_all (\<lambda>(i, k). case inst_at st i of None \<Rightarrow> False | Some n \<Rightarrow>
         k < length (n_args n) \<and> n_args n ! k = VInst d) (n_uses u) \<and>
       list_all (\<lambda>k. case n_args u ! k of VInst e \<Rightarrow> (case inst_at st e of None \<Rightarrow> False | Some n \<Rightarrow> (d, k) \<in> set (n_uses n)) | _ \<Rightarrow> True)
         [0..<length (n_args u)]) [0..<length (st_insts st)]"

lemma uses_check:
  assumes "uses_checked st"
  shows "uses_ok st"
proof -
  have c: "distinct (n_uses u)" "(i, k) \<in> set (n_uses u) \<Longrightarrow> (i, k, d) \<in> refs (inst_at st)"
    "k < length (n_args u) \<Longrightarrow> n_args u ! k = VInst e \<Longrightarrow> \<exists>n. inst_at st e = Some n \<and> (d, k) \<in> set (n_uses n)"
    if "inst_at st d = Some u" for d u i k e
  proof -
    have d: "d \<in> set [0..<length (st_insts st)]" using inst_at_bound [OF that] by simp
    have "distinct (n_uses u) \<and> list_all (\<lambda>(i, k). case inst_at st i of None \<Rightarrow> False | Some n \<Rightarrow>
         k < length (n_args n) \<and> n_args n ! k = VInst d) (n_uses u) \<and>
       list_all (\<lambda>k. case n_args u ! k of VInst e \<Rightarrow> (case inst_at st e of None \<Rightarrow> False | Some n \<Rightarrow> (d, k) \<in> set (n_uses n)) | _ \<Rightarrow> True)
         [0..<length (n_args u)]"
      using assms [unfolded uses_checked_def list_all_iff, rule_format, OF d] that by (simp add: list_all_iff)
    then have q: "distinct (n_uses u)" "\<forall>(i, k) \<in> set (n_uses u). case inst_at st i of None \<Rightarrow> False | Some n \<Rightarrow>
         k < length (n_args n) \<and> n_args n ! k = VInst d"
      "\<forall>k < length (n_args u). case n_args u ! k of VInst e \<Rightarrow> (case inst_at st e of None \<Rightarrow> False | Some n \<Rightarrow> (d, k) \<in> set (n_uses n)) | _ \<Rightarrow> True"
      by (simp_all add: list_all_iff)
    show "distinct (n_uses u)" by (rule q(1))
    show "(i, k) \<in> set (n_uses u) \<Longrightarrow> (i, k, d) \<in> refs (inst_at st)"
      using q(2) by (cases "inst_at st i") (auto simp: refs_def)
    show "k < length (n_args u) \<Longrightarrow> n_args u ! k = VInst e \<Longrightarrow> \<exists>n. inst_at st e = Some n \<and> (d, k) \<in> set (n_uses n)"
      using q(3) by (cases "inst_at st e") auto
  qed
  show ?thesis unfolding uses_ok_def links_def refs_core
  proof (intro conjI allI impI)
    fix d u i k assume u: "inst_at st d = Some u"
    show "distinct (n_uses u)" by (rule c(1) [OF u])
    show "(i, k) \<in> set (n_uses u) \<longleftrightarrow> (i, k, d) \<in> refs (inst_at st)"
    proof
      assume "(i, k, d) \<in> refs (inst_at st)"
      then obtain n where "inst_at st i = Some n" "k < length (n_args n)" "n_args n ! k = VInst d" by (auto simp: refs_def)
      from c(3) [OF this] u show "(i, k) \<in> set (n_uses u)" by simp
    qed (rule c(2) [OF u])
  next
    fix i k d assume "(i, k, d) \<in> refs (inst_at st)"
    then obtain n where "inst_at st i = Some n" "k < length (n_args n)" "n_args n ! k = VInst d" by (auto simp: refs_def)
    from c(3) [OF this] show "inst_at st d \<noteq> None" by auto
  qed
qed

text \<open>
  A form that evaluation can check: arguments are computed earlier in the same block, those of a
  phi in the predecessor they belong to.  \<open>paths\<close> has a path from the entry to each block.
\<close>

fun path_checked :: "ir_block list \<Rightarrow> nat list \<Rightarrow> bool" where
  "path_checked bl [] \<longleftrightarrow> False"
| "path_checked bl [b] \<longleftrightarrow> b = 0 \<and> 0 < length bl"
| "path_checked bl (b # p # ps) \<longleftrightarrow> path_checked bl (p # ps) \<and> edge bl p b"

lemma path_check: "path_checked bl ps \<Longrightarrow> cfg_path bl ps"
  by (induction bl ps rule: path_checked.induct) (auto intro: path_entry path_step)

fun inst_of_value :: "ir_value \<Rightarrow> nat list" where
  "inst_of_value (VInst i) = [i]"
| "inst_of_value _ = []"

definition preds_of :: "ir_block list \<Rightarrow> nat \<Rightarrow> nat list" where
  "preds_of bl b = filter (\<lambda>p. b \<in> set (b_succs (bl ! p))) [0..<length bl]"

definition placed :: "ir_block list \<Rightarrow> nat \<Rightarrow> nat \<Rightarrow> ir_inst \<Rightarrow> bool" where
  "placed bl b i n \<longleftrightarrow> VVoid \<notin> set (n_args n) \<and>
     (if is_phi n then length (n_phi_blocks n) = length (n_args n) \<and> b \<noteq> 0 \<and> set (n_phi_blocks n) = set (preds_of bl b) \<and>
        list_all (\<lambda>k. list_all (\<lambda>a. a \<in> set (insts_of bl (n_phi_blocks n ! k))) (inst_of_value (n_args n ! k))) [0..<length (n_args n)]
      else length (n_args n) = NumArgsOf (n_opcode n) \<and>
        list_all (\<lambda>v. list_all (\<lambda>a. a \<in> before (insts_of bl b) i) (inst_of_value v)) (n_args n))"

definition ssa_checked :: "nat list list \<Rightarrow> ir_store \<Rightarrow> bool" where
  "ssa_checked paths st \<longleftrightarrow> (let bl = st_blocks st in
     distinct (concat (map b_insts bl)) \<and> list_all (\<lambda>b. path_checked bl (b # paths ! b)) [0..<length bl] \<and>
     list_all (\<lambda>i. case inst_at st i of None \<Rightarrow> True | Some n \<Rightarrow> i \<in> set (concat (map b_insts bl))) [0..<length (st_insts st)] \<and>
     list_all (\<lambda>b. list_all (\<lambda>i. case inst_at st i of None \<Rightarrow> False | Some n \<Rightarrow> placed bl b i n) (insts_of bl b)) [0..<length bl])"

lemma ssa_check:
  assumes "ssa_checked paths st"
  shows "ssa_ok (st_blocks st) (core st)"
proof -
  let ?bl = "st_blocks st"
  have c: "distinct (concat (map b_insts ?bl))" "\<forall>b < length ?bl. path_checked ?bl (b # paths ! b)"
    "\<forall>i < length (st_insts st). case inst_at st i of None \<Rightarrow> True | Some n \<Rightarrow> i \<in> set (concat (map b_insts ?bl))"
    "\<forall>b < length ?bl. \<forall>i \<in> set (insts_of ?bl b). case inst_at st i of None \<Rightarrow> False | Some n \<Rightarrow> placed ?bl b i n"
    using assms by (simp_all add: ssa_checked_def Let_def list_all_iff)
  have cfg: "cfg_ok ?bl" using c(1,2) path_check unfolding cfg_ok_def by blast
  have at: "\<exists>n. inst_at st i = Some n \<and> placed ?bl b i n" if "i \<in> set (insts_of ?bl b)" for i b
    using c(4) [rule_format, OF insts_of_bound [OF that] that] by (simp split: option.splits)
  have has: "\<exists>b. i \<in> set (insts_of ?bl b)" if "inst_at st i = Some n" for i n
  proof -
    have "i \<in> set (concat (map b_insts ?bl))" using c(3) [rule_format, OF inst_at_bound [OF that]] that by simp
    then obtain x where "x \<in> set ?bl" "i \<in> set (b_insts x)" by auto
    then obtain b where "b < length ?bl" "?bl ! b = x" by (meson in_set_conv_nth)
    with \<open>i \<in> set (b_insts x)\<close> show ?thesis by (intro exI [of _ b]) (simp add: insts_of_def)
  qed
  have "if is_phi m then phi_ok ?bl i m else inst_ok ?bl i m" if "core st i = Some m" for i m
  proof -
    obtain n where n: "inst_at st i = Some n" "m = n\<lparr>n_uses := []\<rparr>" using \<open>core st i = Some m\<close> by (auto simp: core_Some)
    obtain b where b: "i \<in> set (insts_of ?bl b)" using has [OF n(1)] by blast
    have p: "placed ?bl b i n" using at [OF b] n(1) by simp
    have u: "i \<in> set (insts_of ?bl b') \<longleftrightarrow> b' = b" for b' using block_unique [OF cfg b] b by blast
    show ?thesis
    proof (cases "is_phi m")
      case True
      have "set (preds_of ?bl b) = {p. edge ?bl p b}" using insts_of_bound [OF b] by (auto simp: preds_of_def edge_def)
      moreover have "avail_end ?bl (n_phi_blocks n ! k) a" if "k < length (n_args n)" "n_args n ! k = VInst a" for k a
        using p that True by (auto simp: n(2) placed_def is_phi_def list_all_iff avail_end_def)
      ultimately show ?thesis using p True by (simp add: n(2) placed_def is_phi_def phi_ok_def u)
    next
      case False
      have "sdom ?bl a i" if "VInst a \<in> set (n_args n)" for a
      proof -
        have "\<forall>v \<in> set (n_args n). \<forall>a \<in> set (inst_of_value v). a \<in> before (insts_of ?bl b) i"
          using p False by (simp add: n(2) placed_def is_phi_def list_all_iff)
        then have "a \<in> before (insts_of ?bl b) i" using that by force
        then show ?thesis using b by (auto simp: sdom_def)
      qed
      then show ?thesis using p False by (simp add: n(2) placed_def is_phi_def inst_ok_def)
    qed
  qed
  moreover have "core st i \<noteq> None \<longleftrightarrow> (\<exists>b. i \<in> set (insts_of ?bl b))" for i unfolding core_None using has at by (metis not_None_eq)
  ultimately show ?thesis using cfg unfolding ssa_ok_def by blast
qed

end
