(* ===== verification/ShaderConstants.thy ===== *)
theory ShaderConstants
  imports ShaderFoldOk ShaderChecks
begin

text \<open>
  \<open>ConstantPropagationPass\<close>: on a graph in SSA form with use lists in step it returns, keeps
  the form and the use lists, and keeps what the graph computes.
\<close>

section \<open>Following identities\<close>

lemma sdom_card:
  assumes "ssa_ok bl (core st)" "inst_at st j \<noteq> None"
  shows "finite {x. sdom bl x j}" "Suc (card {x. sdom bl x j}) \<le> length (st_insts st)"
proof -
  note cfg = ssa_okD(1) [OF assms(1)]
  have "x < length (st_insts st)" if "sdom bl x j" for x
  proof -
    from sdom_inst [OF cfg that] obtain b where "x \<in> set (insts_of bl b)" by blast
    then obtain n where "core st x = Some n" using ssa_okD(5) [OF assms(1)] by blast
    then show ?thesis by (auto simp: core_Some dest: inst_at_bound)
  qed
  then have sub: "{x. sdom bl x j} \<subseteq> {..<length (st_insts st)}" by auto
  then show f: "finite {x. sdom bl x j}" by (rule finite_subset) simp
  have "j < length (st_insts st)" using assms(2) by (auto dest: inst_at_bound)
  then have "insert j {x. sdom bl x j} \<subseteq> {..<length (st_insts st)}" using sub by auto
  then have "card (insert j {x. sdom bl x j}) \<le> card {..<length (st_insts st)}" by (intro card_mono) auto
  then show "Suc (card {x. sdom bl x j}) \<le> length (st_insts st)" using f sdom_irrefl [OF cfg] by simp
qed

lemma sdom_live:
  assumes "ssa_ok bl (core st)" "sdom bl x j"
  shows "\<exists>n. inst_at st x = Some n"
proof -
  obtain b where "x \<in> set (insts_of bl b)" using sdom_inst [OF ssa_okD(1) [OF assms(1)] assms(2)] by blast
  then obtain n where "core st x = Some n" using ssa_okD(5) [OF assms(1)] by blast
  then show ?thesis by (auto simp: core_Some)
qed

lemma Resolve_inst:
  assumes "ssa_ok bl (core st)" "inst_at st j \<noteq> None" "card {x. sdom bl x j} + 2 \<le> f"
  shows "\<exists>v. Resolve_fuel f st (VInst j) = Ret v \<and> chain (core st) (VInst j) v"
  using assms(2,3)
proof (induction f arbitrary: j)
  case (Suc f)
  obtain n where n: "inst_at st j = Some n" using Suc.prems(1) by blast
  then have c: "core st j = Some (n\<lparr>n_uses := []\<rparr>)" by (auto simp: core_Some)
  show ?case
  proof (cases "n_opcode n = Base Identity")
    case False
    then show ?thesis by (auto simp: get_inst_Some [OF n] intro: chain_end)
  next
    case True
    then have ok: "inst_ok bl j (n\<lparr>n_uses := []\<rparr>)" using ssa_okD(3) [OF assms(1) c] by (simp add: is_phi_def)
    then obtain a where a: "n_args n = [a]" using True by (auto simp: inst_ok_def length_Suc_conv)
    have step: "chain (core st) a v \<Longrightarrow> chain (core st) (VInst j) v" for v by (rule chain_step [where g = "core st", OF c]) (simp_all add: True a)
    have unfold: "Resolve_fuel (Suc f) st (VInst j) = Resolve_fuel f st a"
      by (simp add: get_inst_Some [OF n] True Inst_Arg_def a)
    show ?thesis
    proof (cases "TryInstruction a")
      case None
      obtain f' where "f = Suc f'" using Suc.prems(2) by (cases f) auto
      then have "Resolve_fuel f st a = Ret a" using None by (cases a) simp_all
      then show ?thesis using step [OF chain_end] unfold by auto
    next
      case (Some x)
      then have x: "a = VInst x" by (cases a) simp_all
      then have d: "sdom bl x j" using ok a by (simp add: inst_ok_def)
      note cfg = ssa_okD(1) [OF assms(1)]
      have "insert x {y. sdom bl y x} \<subseteq> {y. sdom bl y j}" using d sdom_trans [OF cfg] by auto
      moreover have "finite {y. sdom bl y j}" using sdom_card(1) [OF assms(1)] n by simp
      ultimately have le: "card (insert x {y. sdom bl y x}) \<le> card {y. sdom bl y j}" by (rule card_mono [rotated])
      have live: "inst_at st x \<noteq> None" using sdom_live [OF assms(1) d] by auto
      have "Suc (card {y. sdom bl y x}) \<le> card {y. sdom bl y j}"
        using le sdom_card(1) [OF assms(1) live] sdom_irrefl [OF cfg] by simp
      then obtain v where "Resolve_fuel f st (VInst x) = Ret v \<and> chain (core st) (VInst x) v"
        using Suc.IH [OF live] Suc.prems(2) by auto
      then show ?thesis using step unfold x by auto
    qed
  qed
qed simp

lemma Resolve_ok:
  assumes "ssa_ok bl (core st)" "\<And>i. a = VInst i \<Longrightarrow> inst_at st i \<noteq> None"
  shows "\<exists>v. Resolve st a = Ret v \<and> chain (core st) a v"
proof (cases "TryInstruction a")
  case None
  then have "Resolve st a = Ret a" by (cases a) (simp_all add: Resolve_def)
  then show ?thesis by (auto intro: chain_end)
next
  case (Some i)
  then have i: "a = VInst i" by (cases a) simp_all
  show ?thesis unfolding i Resolve_def
    by (rule Resolve_inst [OF assms(1)]) (use assms(2) [OF i] sdom_card(2) [OF assms(1), of i] in simp_all)
qed

lemma live_sdom: "ssa_ok bl (core st) \<Longrightarrow> value_sdom bl v i \<Longrightarrow> v = VInst j \<Longrightarrow> inst_at st j \<noteq> None"
  using sdom_live unfolding value_sdom_def by blast

text \<open>
  The end of a chain is not an identity.  A value is held by an instruction with side effects whose
  only argument ends there, and watched by one when the two have the same end: the conditions that
  blocks branch on are watched by the references that the translation emits for them.
\<close>

definition ends :: "ir_graph \<Rightarrow> ir_value \<Rightarrow> ir_value \<Rightarrow> bool" where
  "ends g v x \<longleftrightarrow> chain g v x \<and> (\<forall>i. x = VInst i \<longrightarrow> (\<exists>n. g i = Some n \<and> n_opcode n \<noteq> Base Identity))"

definition held :: "ir_graph \<Rightarrow> ir_value \<Rightarrow> nat \<Rightarrow> bool" where
  "held g x k \<longleftrightarrow> (\<exists>n a. g k = Some n \<and> HasSideEffects (n_opcode n) \<and> n_args n = [a] \<and> ends g a x)"

definition watched :: "ir_graph \<Rightarrow> ir_value \<Rightarrow> nat \<Rightarrow> bool" where
  "watched g v k \<longleftrightarrow> (\<exists>x. ends g v x \<and> held g x k)"

lemma ends_unique:
  assumes "ends g v x" "ends g v y"
  shows "x = y"
proof -
  have "chain g v x" using assms(1) by (simp add: ends_def)
  then show ?thesis using assms
  proof (induction rule: chain.induct)
    case (chain_end v)
    then show ?case by (auto simp: ends_def elim: chain.cases)
  next
    case (chain_step j n a v)
    have "ends g a z" if z: "ends g (VInst j) z" for z
    proof -
      have "chain g (VInst j) z" "z \<noteq> VInst j" using z chain_step.hyps(1,2) by (auto simp: ends_def)
      then have "chain g a z" by (cases rule: chain.cases) (use chain_step.hyps(1,3) in auto)
      then show ?thesis using z by (simp add: ends_def)
    qed
    then show ?case using chain_step.IH chain_step.prems by blast
  qed
qed

lemma Resolve_fuel_end: "Resolve_fuel f st v = Ret w \<Longrightarrow> w = VInst i \<Longrightarrow> \<exists>n. core st i = Some n \<and> n_opcode n \<noteq> Base Identity"
  by (induction f arbitrary: v)
     (auto simp: obind_Ret_iff get_inst_def core_Some split: ir_value.splits option.splits if_splits)

lemma Resolve_ends:
  assumes "ssa_ok bl (core st)" "\<And>i. a = VInst i \<Longrightarrow> inst_at st i \<noteq> None"
  shows "\<exists>v. Resolve st a = Ret v \<and> ends (core st) a v"
  using Resolve_ok [OF assms] Resolve_fuel_end unfolding Resolve_def ends_def by blast

text \<open>Folding an instruction sends the chains that end there on to its replacement.\<close>

lemma replace_chain:
  assumes "chain g b x" "\<And>n. g i = Some n \<Longrightarrow> n_opcode n \<noteq> Base Identity"
  shows "chain (replace_graph True i w g) (subst_value i w b) (subst_value i w x)"
  using assms
proof (induction rule: chain.induct)
  case (chain_step j n a v)
  then have j: "j \<noteq> i" by auto
  have "replace_graph True i w g j = Some (subst_inst i w n)" using j chain_step.hyps(1) by (simp add: replace_graph_def)
  then have "chain (replace_graph True i w g) (VInst j) (subst_value i w v)"
    by (rule chain.chain_step) (use chain_step in \<open>simp_all add: subst_inst_def\<close>)
  then show ?case using j by (simp add: subst_value_def)
qed (simp add: chain.chain_end)

lemma chain_ends: "chain g a b \<Longrightarrow> ends g b c \<Longrightarrow> ends g a c"
  by (induction rule: chain.induct) (auto simp: ends_def intro: chain.chain_step)

lemma replace_watched:
  assumes w: "watched (core st) v k" and ok: "ssa_ok bl (core st)" and st': "core st' = replace_graph True i w (core st)"
    and wd: "value_sdom bl w i" and n: "core st i = Some n" "\<not> HasSideEffects (n_opcode n)" "n_opcode n \<noteq> Base Identity"
  shows "watched (core st') v k"
proof -
  let ?g = "core st'"
  have dom: "(inst_at st' j = None) \<longleftrightarrow> (inst_at st j = None)" for j
    using st' by (simp add: replace_graph_def flip: core_None)
  have ok': "ssa_ok bl ?g" using ssa_ok_replace [OF ok wd] st' by simp
  obtain x m a where x: "ends (core st) v x" "core st k = Some m" "HasSideEffects (n_opcode m)" "n_args m = [a]" "ends (core st) a x"
    using w by (auto simp: watched_def held_def)
  have "inst_at st' j \<noteq> None" if "subst_value i w x = VInst j" for j
  proof (cases "x = VInst i")
    case True
    then have "w = VInst j" using that by (simp add: subst_value_def)
    then show ?thesis using live_sdom [OF ok wd] dom by auto
  next
    case False
    then have "x = VInst j" using that by (simp add: subst_value_def)
    then have "core st j \<noteq> None" using x(1) by (auto simp: ends_def simp del: core_None)
    then show ?thesis using dom by simp
  qed
  from Resolve_ends [OF ok' this] obtain y where y: "ends ?g (subst_value i w x) y" by blast
  have go: "ends ?g (subst_value i w b) y" if "ends (core st) b x" for b
    using replace_chain [of "core st" b x i w] that n chain_ends [OF _ y] st' by (auto simp: ends_def)
  have "?g i = Some (replaced True w n)" using st' n(1) by (simp add: replace_graph_def)
  then have "chain ?g (VInst i) w" by (rule chain.chain_step) (auto simp: replaced_def intro: chain.chain_end)
  then have "chain ?g v (subst_value i w v)" by (auto simp: subst_value_def chain.chain_end)
  then have "ends ?g v y" using chain_ends go x(1) by blast
  moreover have "k \<noteq> i" using n(1,2) x(2,3) by auto
  then have "?g k = Some (subst_inst i w m)" using st' x(2) by (simp add: replace_graph_def)
  then have "held ?g y k" unfolding held_def using go [OF x(5)] x(3,4) by (intro exI [of _ "subst_inst i w m"]) (simp add: subst_inst_def)
  ultimately show ?thesis by (auto simp: watched_def)
qed

section \<open>Folding one instruction\<close>

lemma readable_sdom:
  assumes "ssa_ok bl (core st)"
  shows "readable st (\<lambda>v. value_sdom bl v i)"
  unfolding readable_def
proof (intro conjI allI impI)
  note cfg = ssa_okD(1) [OF assms]
  show "\<not> value_sdom bl VVoid i" by (simp add: value_sdom_def)
  show "v \<noteq> VVoid \<and> TryInstruction v = None \<Longrightarrow> value_sdom bl v i" for v by (auto simp: value_sdom_def)
  show "\<exists>w. Resolve st v = Ret w \<and> chain (core st) v w \<and> value_sdom bl w i" if "value_sdom bl v i" for v
    using Resolve_ok [OF assms live_sdom [OF assms that]] chain_sdom [OF assms _ that] by blast
  fix j assume "value_sdom bl (VInst j) i"
  then have d: "sdom bl j i" by (simp add: value_sdom_def)
  obtain n where n: "inst_at st j = Some n" using sdom_live [OF assms d] by blast
  then have c: "core st j = Some (n\<lparr>n_uses := []\<rparr>)" by (auto simp: core_Some)
  have "inst_ok bl j (n\<lparr>n_uses := []\<rparr>)" if "\<not> is_phi n" using ssa_okD(3) [OF assms c] that by (simp add: is_phi_def)
  then have "length (n_args n) = NumArgsOf (n_opcode n) \<and> list_all (\<lambda>v. value_sdom bl v i) (n_args n)" if "\<not> is_phi n"
    using that sdom_trans [OF cfg _ d] by (auto simp: inst_ok_def list_all_iff value_sdom_def)
  then show "\<exists>m. inst_at st j = Some m \<and>
      (\<not> is_phi m \<longrightarrow> length (n_args m) = NumArgsOf (n_opcode m) \<and> list_all (\<lambda>v. value_sdom bl v i) (n_args m))" using n by blast
qed

lemma fold_rule_gives:
  assumes "readable st P" "\<not> is_phi n" "length (n_args n) = NumArgsOf (n_opcode n)" "list_all P (n_args n)"
  shows "owp (fold_rule st i n) (gives st P (n_opcode n) (n_args n)) False"
proof (cases "n_opcode n")
  case (Base x)
  then show ?thesis using assms(2) by (simp add: fold_rule_def is_phi_def)
next
  case (Control x)
  show ?thesis
  proof (cases "x = SelectU32")
    case True
    then obtain a b c where n: "n_args n = [a, b, c]" "P a" "P b" "P c" using args3 [OF _ assms(4)] assms(3) Control by (auto simp: NumArgsOf_def)
    show ?thesis using FoldSelect_ok [OF assms(1) n, of "Control SelectU32"] by (simp add: Control True fold_rule_def n(1) folds)
  qed (simp add: Control fold_rule_def)
qed (use assms fold_alu_ok fold_cast_ok fold_compare_ok fold_modifier_ok in \<open>simp_all add: fold_rule_def\<close>)

text \<open>Where an instruction is known, the equations of what it depends on hold.\<close>

lemma runs_solve:
  assumes ok: "ssa_ok bl (core st)" and run: "runs (ir_meaning True device) bl (core st) ((b, xs, from, r) # tr)" "i \<in> known bl b xs"
  shows "solves st (\<lambda>v. value_sdom bl v i) r"
  unfolding solves_def
proof (intro allI impI)
  fix j m assume m: "value_sdom bl (VInst j) i \<and> inst_at st j = Some m \<and> \<not> is_phi m"
  obtain ys where "insts_of bl b = xs @ ys" using runs_state [OF run(1)] by blast
  then have j: "j \<in> known bl b xs" using known_closed [OF ssa_okD(1) [OF ok] _ run(2)] m by (simp add: value_sdom_def)
  have "core st j = Some (m\<lparr>n_uses := []\<rparr>)" using m by (simp add: core_Some)
  from runs_equations [OF ok run(1) j this] m have "yields (ir_meaning True device) r m (r j)" by (simp add: is_phi_def yields_def)
  then show "obeys r m (r j)" by (rule yields_obeys)
qed

lemma fold_rule_ok:
  assumes ok: "ssa_ok bl (core st)" and n: "inst_at st i = Some n" "\<not> is_phi n"
  shows "owp (fold_rule st i n) (\<lambda>res. \<forall>v. res = Some v \<longrightarrow> value_sdom bl v i \<and> (\<forall>device. same_value (ir_meaning True device) bl (core st) i v)) False"
proof -
  have c: "core st i = Some (n\<lparr>n_uses := []\<rparr>)" using n by (simp add: core_Some)
  have io: "inst_ok bl i (n\<lparr>n_uses := []\<rparr>)" using ssa_okD(3) [OF ok c] n(2) by (simp add: is_phi_def)
  then have "owp (fold_rule st i n) (gives st (\<lambda>v. value_sdom bl v i) (n_opcode n) (n_args n)) False"
    by (intro fold_rule_gives readable_sdom [OF ok] n(2)) (auto simp: inst_ok_def list_all_iff value_sdom_def)
  then show ?thesis
  proof (rule owp_mono)
    fix res assume g: "gives st (\<lambda>v. value_sdom bl v i) (n_opcode n) (n_args n) res"
    have "r i = val r v" if "res = Some v" and run: "runs (ir_meaning True device) bl (core st) ((b, xs, from, r) # tr)" "i \<in> known bl b xs" for v b xs "from" r tr device
    proof -
      have "yields (ir_meaning True device) r (n\<lparr>n_uses := []\<rparr>) (r i)"
        by (rule runs_equations [OF ok run c]) (use n(2) in \<open>simp add: is_phi_def\<close>)
      then have "obeys r (n\<lparr>n_uses := []\<rparr>) (r i)" by (rule yields_obeys)
      then show ?thesis using g runs_solve [OF ok run] that(1) by (simp add: gives_def obeys_def Let_def)
    qed
    then show "\<forall>v. res = Some v \<longrightarrow> value_sdom bl v i \<and> (\<forall>device. same_value (ir_meaning True device) bl (core st) i v)"
      using g by (auto simp: same_value_def gives_def)
  qed simp
qed

lemma FoldPhi_loop_ok:
  assumes "\<And>a. a \<in> set as \<Longrightarrow> \<exists>w. Resolve st a = Ret w \<and> chain (core st) a w \<and> w \<noteq> VVoid"
  shows "owp (FoldPhi_loop st i as same) (\<lambda>res. \<forall>v. res = Some v \<longrightarrow> v \<noteq> VVoid \<and>
    (\<forall>a \<in> set as. chain (core st) a v \<or> chain (core st) a (VInst i)) \<and>
    (same = v \<or> same = VVoid \<and> v \<noteq> VInst i \<and> (\<exists>a \<in> set as. chain (core st) a v))) False"
  using assms
proof (induction as arbitrary: same)
  case Nil
  then show ?case by (auto simp: Value_IsEmpty_def)
next
  case (Cons a as)
  obtain w where w: "Resolve st a = Ret w" "chain (core st) a w" "w \<noteq> VVoid" using Cons.prems [of a] by auto
  have IH: "owp (FoldPhi_loop st i as same') (\<lambda>res. \<forall>v. res = Some v \<longrightarrow> v \<noteq> VVoid \<and>
    (\<forall>a \<in> set as. chain (core st) a v \<or> chain (core st) a (VInst i)) \<and>
    (same' = v \<or> same' = VVoid \<and> v \<noteq> VInst i \<and> (\<exists>a \<in> set as. chain (core st) a v))) False" for same'
    by (rule Cons.IH) (use Cons.prems in simp)
  have self: "TryInstruction w = Some i \<longleftrightarrow> w = VInst i" by (cases w) auto
  have empty: "Value_IsEmpty same \<longleftrightarrow> same = VVoid" by (cases same) (simp_all add: Value_IsEmpty_def type_defs)
  consider "w = VInst i" | "w \<noteq> VInst i" "same = VVoid" | "w \<noteq> VInst i" "same \<noteq> VVoid" "same \<noteq> w" | "w \<noteq> VInst i" "same \<noteq> VVoid" "same = w" by blast
  then show ?case
  proof cases
    case 1
    then show ?thesis using w(1,2) by (auto simp: self intro!: owp_mono [OF IH])
  next
    case 2
    then show ?thesis using w by (auto simp: self empty intro!: owp_mono [OF IH])
  next
    case 3
    then show ?thesis using w by (simp add: self empty)
  next
    case 4
    then show ?thesis using w by (auto simp: self empty intro!: owp_mono [OF IH])
  qed
qed

lemma FoldPhi_ok:
  assumes ok: "ssa_ok bl (core st)" and n: "inst_at st i = Some n" "is_phi n"
  shows "owp (fold_rule st i n) (\<lambda>res. \<forall>v. res = Some v \<longrightarrow> value_sdom bl v i \<and> (\<forall>device. same_value (ir_meaning True device) bl (core st) i v)) False"
proof -
  let ?m = "n\<lparr>n_uses := []\<rparr>"
  have c: "core st i = Some ?m" using n by (simp add: core_Some)
  have m: "is_phi ?m" using n(2) by (simp add: is_phi_def)
  have phi: "phi_ok bl i ?m" using ssa_okD(2) [OF ok c m] .
  have args: "\<exists>w. Resolve st a = Ret w \<and> chain (core st) a w \<and> w \<noteq> VVoid" if "a \<in> set (n_args n)" for a
  proof -
    have "inst_at st d \<noteq> None" if d: "a = VInst d" for d
    proof -
      obtain k where k: "k < length (n_args n)" "n_args n ! k = VInst d" using \<open>a \<in> set (n_args n)\<close> d by (metis in_set_conv_nth)
      then have "avail_end bl (n_phi_blocks n ! k) d" using phi by (simp add: phi_ok_def)
      moreover obtain b where b: "i \<in> set (insts_of bl b)" using ssa_okD(4) [OF ok c] by blast
      then have e: "edge bl (n_phi_blocks n ! k) b" using phi k(1) nth_mem [of k "n_phi_blocks n"] by (auto simp: phi_ok_def)
      then obtain ps where "cfg_path bl (n_phi_blocks n ! k # ps)" using ssa_okD(1) [OF ok] by (auto simp: cfg_ok_def edge_def)
      ultimately obtain b' where "d \<in> set (insts_of bl b')" by (auto simp: avail_end_def avail_def)
      then obtain u where "core st d = Some u" using ssa_okD(5) [OF ok] by blast
      then show ?thesis by (auto simp: core_Some)
    qed
    then obtain w where "Resolve st a = Ret w" "chain (core st) a w" using Resolve_ok [OF ok] by blast
    moreover have "a \<noteq> VVoid" using phi that by (auto simp: phi_ok_def)
    ultimately show ?thesis using chain_not_void [OF ok] by blast
  qed
  have rule: "fold_rule st i n = FoldPhi_loop st i (n_args n) VVoid" using n(2) by (simp add: fold_rule_def is_phi_def FoldPhi_def)
  have key: "value_sdom bl v i \<and> (\<forall>device. same_value (ir_meaning True device) bl (core st) i v)"
    if "v \<noteq> VInst i" "\<forall>a \<in> set (n_args n). chain (core st) a v \<or> chain (core st) a (VInst i)" "\<exists>a \<in> set (n_args n). chain (core st) a v" for v
  proof -
    have "trivial_phi (core st) i ?m v" using that m by (simp add: trivial_phi_def)
    then show ?thesis using trivial_phi_sdom [where g = "core st", OF ok c] ir.trivial_phi_same_value [where g = "core st", OF ok c] by blast
  qed
  show ?thesis unfolding rule by (rule owp_mono [OF FoldPhi_loop_ok [OF args]]) (use key in blast)+
qed

lemma effects_not_folded: "HasSideEffects (n_opcode n) \<Longrightarrow> fold_rule st i n = Ret None"
  by (cases "n_opcode n") (auto simp: HasSideEffects_def fold_rule_def)

text \<open>
  What a pass keeps: the blocks, every run, the instructions with side effects, and the watched
  values.
\<close>

definition keeps_runs :: "ir_store \<Rightarrow> ir_store \<Rightarrow> bool" where
  "keeps_runs st st' \<longleftrightarrow> st_blocks st' = st_blocks st \<and>
     (\<forall>device tr. runs (ir_meaning True device) (st_blocks st) (core st) tr \<longrightarrow> runs (ir_meaning True device) (st_blocks st) (core st') tr) \<and>
     (\<forall>i n. core st i = Some n \<longrightarrow> HasSideEffects (n_opcode n) \<longrightarrow> (\<exists>m. core st' i = Some m \<and> n_opcode m = n_opcode n)) \<and>
     (\<forall>v k. watched (core st) v k \<longrightarrow> watched (core st') v k)"

lemma keeps_runs_refl: "keeps_runs st st"
  by (simp add: keeps_runs_def)

definition graph_ok :: "ir_store \<Rightarrow> bool" where
  "graph_ok st \<longleftrightarrow> uses_ok st \<and> ssa_ok (st_blocks st) (core st)"

text \<open>The end of the chain from a value that an instruction may be replaced by will do as well.\<close>

lemma chain_same_value:
  assumes ok: "ssa_ok bl g" and v: "value_sdom bl v i" "same_value M bl g i v" and w: "chain g v w"
    and val: "\<And>b xs from r tr. runs M bl g ((b, xs, from, r) # tr) \<Longrightarrow> (\<And>j. v = VInst j \<Longrightarrow> j \<in> known bl b xs) \<Longrightarrow> val r v = val r w"
  shows "same_value M bl g i w"
  unfolding same_value_def
proof (intro allI impI)
  fix b xs "from" r tr assume run: "runs M bl g ((b, xs, from, r) # tr)" "i \<in> known bl b xs"
  obtain ys where "insts_of bl b = xs @ ys" using runs_state [OF run(1)] by blast
  then have "val r v = val r w" using val [OF run(1)] known_closed [OF ssa_okD(1) [OF ok] _ run(2)] v(1) by (auto simp: value_sdom_def)
  moreover have "r i = val r v" using v(2) run unfolding same_value_def by blast
  ultimately show "r i = val r w" by simp
qed

lemma fold_value_ok:
  assumes g: "graph_ok st" and n: "inst_at st i = Some n"
  shows "fold_rule st i n = Ret None \<or>
    (\<exists>v w. fold_rule st i n = Ret (Some v) \<and> Resolve st v = Ret w \<and> value_sdom (st_blocks st) w i \<and>
      (\<forall>device. same_value (ir_meaning True device) (st_blocks st) (core st) i w))"
proof -
  let ?bl = "st_blocks st"
  have ok: "ssa_ok ?bl (core st)" using g by (simp add: graph_ok_def)
  have "owp (fold_rule st i n) (\<lambda>res. \<forall>v. res = Some v \<longrightarrow> value_sdom ?bl v i \<and> (\<forall>device. same_value (ir_meaning True device) ?bl (core st) i v)) False"
    using FoldPhi_ok [OF ok n] fold_rule_ok [OF ok n] by blast
  then obtain res where res: "fold_rule st i n = Ret res"
    "\<And>v. res = Some v \<Longrightarrow> value_sdom ?bl v i \<and> (\<forall>device. same_value (ir_meaning True device) ?bl (core st) i v)" by (auto simp: owp_total)
  show ?thesis
  proof (cases res)
    case (Some v)
    then have v: "value_sdom ?bl v i" "same_value (ir_meaning True device) ?bl (core st) i v" for device using res(2) by blast+
    obtain w where w: "Resolve st v = Ret w" "chain (core st) v w" using Resolve_ok [OF ok live_sdom [OF ok v(1)]] by blast
    have "same_value (ir_meaning True device) ?bl (core st) i w" for device
      using chain_same_value [OF ok v w(2)] ir.chain_val [OF ok _ w(2)] by blast
    then show ?thesis using res(1) Some w(1) chain_sdom [OF ok w(2) v(1)] by blast
  qed (use res(1) in simp)
qed

lemma FoldInstruction_ok:
  assumes g: "graph_ok st" and i: "i \<in> set (insts_of (st_blocks st) b)"
  shows "\<exists>st'. FoldInstruction i st = Ret st' \<and> graph_ok st' \<and> keeps_runs st st'"
proof -
  let ?bl = "st_blocks st"
  have ok: "ssa_ok ?bl (core st)" and u: "uses_ok st" using g by (simp_all add: graph_ok_def)
  obtain m where c: "core st i = Some m" using ssa_okD(5) [OF ok i] by blast
  then obtain n where n: "inst_at st i = Some n" by (auto simp: core_Some)
  consider "fold_rule st i n = Ret None" | v w where "fold_rule st i n = Ret (Some v)" "Resolve st v = Ret w" "value_sdom ?bl w i"
    "\<forall>device. same_value (ir_meaning True device) ?bl (core st) i w" using fold_value_ok [OF g n] by blast
  then show ?thesis
  proof cases
    case 1
    then show ?thesis using g by (simp add: FoldInstruction_def get_inst_Some [OF n] keeps_runs_refl)
  next
    case 2
    have ne: "w \<noteq> VInst i" using 2(3) sdom_irrefl [OF ssa_okD(1) [OF ok]] by (auto simp: value_sdom_def)
    have lv: "live_value st w" using live_sdom [OF ok 2(3)] by (cases w) (auto simp: live_value_def)
    obtain st' where st': "ReplaceUsesWith i w True st = Ret st'" "uses_ok st'" "core st' = replace_graph True i w (core st)" "frame st st'"
      using ReplaceUsesWith_ok [OF u c lv ne] by blast
    have "n_opcode n \<noteq> Base Identity" using 2(1) by (auto simp: fold_rule_def)
    then have no: "\<not> HasSideEffects (n_opcode m)" "n_opcode m \<noteq> Base Identity"
      using effects_not_folded [of n st i] 2(1) c n by (auto simp: core_Some)
    have "\<exists>m'. core st' j = Some m' \<and> n_opcode m' = n_opcode x" if "core st j = Some x" "HasSideEffects (n_opcode x)" for j x
      using that no(1) c st'(3) by (cases "j = i") (auto simp: replace_graph_def)
    moreover have "runs (ir_meaning True device) ?bl (core st') tr" if "runs (ir_meaning True device) ?bl (core st) tr" for device tr
      using ir.replace_keeps_runs [OF ok _ 2(3) that] 2(4) st'(3) by simp
    ultimately have "keeps_runs st st'" using replace_watched [OF _ ok st'(3) 2(3) c no] st'(4) by (auto simp: keeps_runs_def frame_def)
    moreover have "graph_ok st'" using st' ssa_ok_replace [OF ok 2(3)] by (simp add: graph_ok_def frame_def)
    ultimately show ?thesis using 2(1,2) st'(1) by (simp add: FoldInstruction_def get_inst_Some [OF n])
  qed
qed

lemma keeps_runs_trans: "keeps_runs st st1 \<Longrightarrow> keeps_runs st1 st2 \<Longrightarrow> keeps_runs st st2"
  unfolding keeps_runs_def by (metis (no_types, lifting))

lemma fold_block_ok:
  assumes "graph_ok st" "block < length (st_blocks st)"
  shows "\<exists>st'. obind (get_block st block) (\<lambda>b. ofold FoldInstruction (b_insts b) st) = Ret st' \<and> graph_ok st' \<and> keeps_runs st st'"
proof -
  let ?is = "b_insts (st_blocks st ! block)"
  have "\<exists>st'. ofold FoldInstruction ?is st = Ret st' \<and> (graph_ok st' \<and> keeps_runs st st')"
  proof (rule ofold_total)
    show "graph_ok st \<and> keeps_runs st st" using assms(1) by (simp add: keeps_runs_refl)
    fix i s assume i: "i \<in> set ?is" and s: "graph_ok s \<and> keeps_runs st s"
    then have "i \<in> set (insts_of (st_blocks s) block)" using assms(2) by (simp add: insts_of_def keeps_runs_def)
    then show "\<exists>s'. FoldInstruction i s = Ret s' \<and> (graph_ok s' \<and> keeps_runs st s')"
      using FoldInstruction_ok s keeps_runs_trans by blast
  qed
  then show ?thesis using assms(2) by (simp add: get_block_def)
qed

lemma ConstantPropagation_ok:
  assumes "graph_ok st" "\<forall>b \<in> set order. b < length (st_blocks st)"
  shows "\<exists>st'. ConstantPropagationPass order st = Ret st' \<and> graph_ok st' \<and> keeps_runs st st'"
  unfolding ConstantPropagationPass_def
proof (rule ofold_total)
  show "graph_ok st \<and> keeps_runs st st" using assms(1) by (simp add: keeps_runs_refl)
  fix block s assume b: "block \<in> set order" and s: "graph_ok s \<and> keeps_runs st s"
  then have "block < length (st_blocks s)" using assms(2) by (simp add: keeps_runs_def)
  then show "\<exists>s'. obind (get_block s block) (\<lambda>b. ofold FoldInstruction (b_insts b) s) = Ret s' \<and> (graph_ok s' \<and> keeps_runs st s')"
    using fold_block_ok s keeps_runs_trans by blast
qed

text \<open>
  C10: on a value graph in SSA form with use lists in step, \<open>ConstantPropagationPass\<close> returns: no
  check of the graph editing fails and no erased instruction is read.  The result is again in SSA
  form, over the same blocks, and keeps every run, whatever the device computes for the opcodes
  that are not folded: along any path through the blocks on which the operands are what the
  opcodes take and no conversion to 8 or 16 bits loses bits, the instructions have the values they
  had before, with the folded opcodes read as functions of integers and bits.
\<close>

theorem constant_propagation_keeps_runs:
  assumes "uses_ok st" "ssa_ok (st_blocks st) (core st)" "\<forall>b \<in> set order. b < length (st_blocks st)"
  shows "\<exists>st'. ConstantPropagationPass order st = Ret st' \<and> uses_ok st' \<and> ssa_ok (st_blocks st) (core st') \<and>
    st_blocks st' = st_blocks st \<and>
    (\<forall>device tr. runs (ir_meaning True device) (st_blocks st) (core st) tr \<longrightarrow>
       runs (ir_meaning True device) (st_blocks st) (core st') tr)"
  using ConstantPropagation_ok [of st order] assms by (auto simp: graph_ok_def keeps_runs_def)

section \<open>A program with a loop\<close>

text \<open>
  Block 0 enters block 1, which branches back to itself: a phi of the loop, and a sum with zero.
\<close>

definition loop_program :: ir_store where
  "loop_program = \<lparr>
     st_insts = [inst_of (Regs GetExecLo) 0 [] [] [(1, 0)],
       inst_of (Base Phi) 1 [VInst 0, VInst 1] [0, 1] [(1, 1), (2, 0)],
       inst_of (Alu IAdd32) 1 [VInst 1, VU32 0] [] [(3, 0)],
       inst_of (Base ReferenceU32) 1 [VInst 2] [] []],
     st_blocks = [block_of [0] [] [1], block_of [1, 2, 3] [0, 1] [1]]\<rparr>"

lemma loop_uses: "uses_ok loop_program"
  by (rule uses_check) code_simp

lemma loop_ssa: "ssa_ok (st_blocks loop_program) (core loop_program)"
  by (rule ssa_check [of "[[], [0]]"]) code_simp

text \<open>A run: into the loop, with the phi and the sum computed once.\<close>

definition loop_run :: "run_state list" where
  "loop_run = (let r = (\<lambda>_. SVoid)(0 := S32 7) in
     [(1, [1, 2], Some (0, r), r(1 := S32 7, 2 := S32 7)), (1, [1], Some (0, r), r(1 := S32 7)), (1, [], Some (0, r), r),
      (0, [0], None, r), (0, [], None, \<lambda>_. SVoid)])"

text \<open>A device that accepts everything and determines nothing.\<close>

definition any_device :: opcode_meaning where
  "any_device opcode flags xs = (True, None)"

lemma loop_runs: "runs (ir_meaning True any_device) (st_blocks loop_program) (core loop_program) loop_run"
proof -
  let ?R = "runs (ir_meaning True any_device) (st_blocks loop_program) (core loop_program)"
  define r :: env where "r = (\<lambda>_. SVoid)(0 := S32 7)"
  have c: "core loop_program 0 = map_option (\<lambda>n. n\<lparr>n_uses := []\<rparr>) (inst_of (Regs GetExecLo) 0 [] [] [])"
    "core loop_program 1 = map_option (\<lambda>n. n\<lparr>n_uses := []\<rparr>) (inst_of (Base Phi) 1 [VInst 0, VInst 1] [0, 1] [])"
    "core loop_program 2 = map_option (\<lambda>n. n\<lparr>n_uses := []\<rparr>) (inst_of (Alu IAdd32) 1 [VInst 1, VU32 0] [] [])"
    by (simp_all add: core_def inst_at_def loop_program_def inst_of_def)
  have b: "insts_of (st_blocks loop_program) 0 = [0]" "insts_of (st_blocks loop_program) 1 = [1, 2, 3]"
    by (simp_all add: insts_of_def loop_program_def block_of_def)
  note comp = any_device_def computes_def inst_of_def is_phi_def yields_def ir_meaning_def accepts_def fits_def opcode_value_def alu_value_def phi_yields_def
  have "?R [(0, [], None, \<lambda>_. SVoid)]" by (rule run_start) (simp add: loop_program_def)
  from run_inst [OF this, of 0 "[]" "S32 7"] have "?R [(0, [0], None, r), (0, [], None, \<lambda>_. SVoid)]"
    using b(1) by (simp add: comp c(1) r_def)
  then have "?R ((1, [], Some (0, r), r) # (0, insts_of (st_blocks loop_program) 0, None, r) # [(0, [], None, \<lambda>_. SVoid)])"
    by (intro run_branch) (simp_all add: b(1), simp add: edge_def loop_program_def block_of_def)
  then have "?R [(1, [], Some (0, r), r), (0, [0], None, r), (0, [], None, \<lambda>_. SVoid)]" by (simp only: b(1))
  moreover have phi: "computes (ir_meaning True any_device) (core loop_program) (Some (0, r)) r 1 (S32 7)"
    by (simp add: comp c(2) r_def del: One_nat_def, intro exI [of _ 0], simp)
  ultimately have "?R [(1, [1], Some (0, r), r(1 := S32 7)), (1, [], Some (0, r), r), (0, [0], None, r), (0, [], None, \<lambda>_. SVoid)]"
    using run_inst [of _ _ _ 1 "[]" _ r _ 1 "[2, 3]" "S32 7"] b(2) by simp
  from run_inst [OF this, of 2 "[3]" "S32 7"]
  have "?R [(1, [1, 2], Some (0, r), r(1 := S32 7, 2 := S32 7)), (1, [1], Some (0, r), r(1 := S32 7)), (1, [], Some (0, r), r),
      (0, [0], None, r), (0, [], None, \<lambda>_. SVoid)]"
    using b(2) by (simp add: comp c(3) r_def del: One_nat_def)
  then show ?thesis by (simp add: loop_run_def Let_def r_def)
qed

lemma constant_propagation_witness:
  "\<exists>st'. ConstantPropagationPass [0, 1] loop_program = Ret st' \<and> uses_ok st' \<and> ssa_ok (st_blocks st') (core st') \<and>
     runs (ir_meaning True any_device) (st_blocks st') (core st') loop_run"
proof -
  have "\<forall>b \<in> set [0, 1]. b < length (st_blocks loop_program)" by (simp add: loop_program_def)
  then obtain st' where "ConstantPropagationPass [0, 1] loop_program = Ret st'" "uses_ok st'" "ssa_ok (st_blocks loop_program) (core st')"
    "st_blocks st' = st_blocks loop_program" "runs (ir_meaning True any_device) (st_blocks loop_program) (core st') loop_run"
    using constant_propagation_keeps_runs [OF loop_uses loop_ssa] loop_runs by blast
  then show ?thesis by (intro exI [of _ st']) simp
qed

section \<open>Conversions that lose bits\<close>

text \<open>
  A number is narrowed to 16 bits and widened again.  The pass replaces the pair by the number
  itself, so that the result of the widening has bits it did not have.
\<close>

definition narrow_program :: ir_store where
  "narrow_program = \<lparr>
     st_insts = [inst_of (Regs GetExecLo) 0 [] [] [(1, 0)],
       inst_of (Cast ConvertU16U32) 0 [VInst 0] [] [(2, 0)],
       inst_of (Cast ConvertU32U16) 0 [VInst 1] [] [(3, 0)],
       inst_of (Base ReferenceU32) 0 [VInst 2] [] []],
     st_blocks = [block_of [0, 1, 2, 3] [] []]\<rparr>"

definition use_of_narrow :: "ir_value outcome" where
  "use_of_narrow = obind (ConstantPropagationPass [0] narrow_program) (\<lambda>st. obind (get_inst st 3) (\<lambda>n. Inst_Arg n 0))"

lemma narrowing_is_dropped: "use_of_narrow = Ret (VInst 0)"
  by code_simp

lemma narrow_ssa: "uses_ok narrow_program" "ssa_ok (st_blocks narrow_program) (core narrow_program)"
  by (rule uses_check, code_simp) (rule ssa_check [of "[[]]"], code_simp)

text \<open>A run of the program that is not a run of the result.\<close>

lemma narrowing_changes_a_run:
  "\<exists>st' tr. ConstantPropagationPass [0] narrow_program = Ret st' \<and>
     runs (ir_meaning False any_device) (st_blocks narrow_program) (core narrow_program) tr \<and>
     \<not> runs (ir_meaning False any_device) (st_blocks narrow_program) (core st') tr"
proof -
  let ?bl = "st_blocks narrow_program"
  have "case ConstantPropagationPass [0] narrow_program of Ret st \<Rightarrow>
    (case inst_at st 2 of Some n \<Rightarrow> n_opcode n = Base Identity \<and> n_args n = [VInst 0] | None \<Rightarrow> False) | _ \<Rightarrow> False" by code_simp
  then obtain st' n where st': "ConstantPropagationPass [0] narrow_program = Ret st'" "inst_at st' 2 = Some n"
    "n_opcode n = Base Identity" "n_args n = [VInst 0]" by (auto split: outcome.splits option.splits)
  define r0 :: env where "r0 = (\<lambda>_. SVoid)"
  define r1 where "r1 = r0(0 := S32 0x12345)"
  define r2 where "r2 = r1(1 := S16 0x2345)"
  define r3 where "r3 = r2(2 := S32 0x2345)"
  note r = r0_def r1_def r2_def r3_def
  have c: "core narrow_program 0 = map_option (\<lambda>n. n\<lparr>n_uses := []\<rparr>) (inst_of (Regs GetExecLo) 0 [] [] [])"
    "core narrow_program 1 = map_option (\<lambda>n. n\<lparr>n_uses := []\<rparr>) (inst_of (Cast ConvertU16U32) 0 [VInst 0] [] [])"
    "core narrow_program 2 = map_option (\<lambda>n. n\<lparr>n_uses := []\<rparr>) (inst_of (Cast ConvertU32U16) 0 [VInst 1] [] [])"
    by (simp_all add: core_def inst_at_def narrow_program_def inst_of_def)
  have b: "insts_of ?bl 0 = [0, 1, 2, 3]" by (simp add: insts_of_def narrow_program_def block_of_def)
  note comp = any_device_def computes_def inst_of_def is_phi_def yields_def ir_meaning_def accepts_def opcode_value_def
  let ?R = "runs (ir_meaning False any_device) ?bl (core narrow_program)"
  have "?R [(0, [], None, r0)]" by (rule run_start) (simp add: narrow_program_def)
  from run_inst [OF this, of 0 "[1, 2, 3]" "S32 0x12345"] have "?R [(0, [0], None, r1), (0, [], None, r0)]"
    using b by (simp add: comp c(1) r1_def)
  from run_inst [OF this, of 1 "[2, 3]" "S16 0x2345"] have "?R [(0, [0, 1], None, r2), (0, [0], None, r1), (0, [], None, r0)]"
    using b by (simp add: comp c(2) r del: One_nat_def)
  from run_inst [OF this, of 2 "[3]" "S32 0x2345"]
  have run: "?R [(0, [0, 1, 2], None, r3), (0, [0, 1], None, r2), (0, [0], None, r1), (0, [], None, r0)]" (is "runs _ _ _ ?tr")
    using b by (simp add: comp c(3) r del: One_nat_def)
  have "\<not> computes (ir_meaning False any_device) (core st') None r2 2 (S32 0x2345)"
    using st'(2-4) by (simp add: computes_def core_def is_phi_def yields_def ir_meaning_def opcode_value_def accepts_def any_device_def r)
  moreover have "computes (ir_meaning False any_device) (core st') None r2 2 (S32 0x2345)" if "runs (ir_meaning False any_device) ?bl (core st') ?tr"
    using that by (cases rule: runs.cases) (auto simp: r3_def dest: fun_upd_eqD)
  ultimately show ?thesis using st'(1) run by blast
qed

end
