(* ===== verification/ShaderRestrict.thy ===== *)
theory ShaderRestrict
  imports ShaderMeaning
begin

text \<open>
  Removing instructions from a value graph: when no remaining instruction uses a removed one, the
  graph stays in SSA form and every run goes on without the removed instructions.
\<close>

section \<open>Restriction of a graph\<close>

definition restrict_graph :: "nat set \<Rightarrow> ir_graph \<Rightarrow> ir_graph" where
  "restrict_graph S g i = (if i \<in> S then g i else None)"

definition restrict_blocks :: "nat set \<Rightarrow> ir_block list \<Rightarrow> ir_block list" where
  "restrict_blocks S = map (\<lambda>b. b\<lparr>b_insts := filter (\<lambda>i. i \<in> S) (b_insts b)\<rparr>)"

definition closed_set :: "nat set \<Rightarrow> ir_graph \<Rightarrow> bool" where
  "closed_set S g \<longleftrightarrow> (\<forall>i n a. i \<in> S \<longrightarrow> g i = Some n \<longrightarrow> VInst a \<in> set (n_args n) \<longrightarrow> a \<in> S)"

lemma restrict_twice:
  "restrict_graph S (restrict_graph T g) = restrict_graph (S \<inter> T) g"
  "restrict_blocks S (restrict_blocks T bl) = restrict_blocks (S \<inter> T) bl"
  by (auto simp: restrict_graph_def restrict_blocks_def fun_eq_iff conj_commute)

lemma restrict_UNIV [simp]: "restrict_graph UNIV g = g" "restrict_blocks UNIV bl = bl"
  by (simp_all add: restrict_graph_def restrict_blocks_def fun_eq_iff)

lemma restrict_length [simp]: "length (restrict_blocks S bl) = length bl"
  by (simp add: restrict_blocks_def)

lemma insts_restrict [simp]: "insts_of (restrict_blocks S bl) b = filter (\<lambda>i. i \<in> S) (insts_of bl b)"
  by (simp add: insts_of_def restrict_blocks_def)

lemma edge_restrict [simp]: "edge (restrict_blocks S bl) = edge bl"
  by (auto simp: edge_def restrict_blocks_def fun_eq_iff)

lemma path_restrict [simp]: "cfg_path (restrict_blocks S bl) ps = cfg_path bl ps"
proof
  show "cfg_path (restrict_blocks S bl) ps \<Longrightarrow> cfg_path bl ps"
    by (induction rule: cfg_path.induct) (auto intro: path_entry path_step)
  show "cfg_path bl ps \<Longrightarrow> cfg_path (restrict_blocks S bl) ps"
  proof (induction rule: cfg_path.induct)
    case path_entry
    then show ?case by (intro cfg_path.path_entry) simp
  qed (auto intro: path_step)
qed

lemma avail_restrict: "i \<in> S \<Longrightarrow> avail (restrict_blocks S bl) b i \<longleftrightarrow> avail bl b i"
  by (simp add: avail_def)

lemma avail_end_restrict: "i \<in> S \<Longrightarrow> avail_end (restrict_blocks S bl) b i \<longleftrightarrow> avail_end bl b i"
  by (simp add: avail_end_def avail_restrict)

lemma before_filter: "i \<in> S \<Longrightarrow> before (filter (\<lambda>i. i \<in> S) xs) i = before xs i \<inter> S"
  by (induction xs) (auto simp: before_def)

lemma sdom_restrict: "a \<in> S \<Longrightarrow> i \<in> S \<Longrightarrow> sdom (restrict_blocks S bl) a i \<longleftrightarrow> sdom bl a i"
  by (simp add: sdom_def avail_restrict before_filter)

lemma cfg_restrict: "cfg_ok bl \<Longrightarrow> cfg_ok (restrict_blocks S bl)"
proof -
  assume c: "cfg_ok bl"
  have "map b_insts (restrict_blocks S bl) = map (filter (\<lambda>i. i \<in> S)) (map b_insts bl)" by (simp add: restrict_blocks_def)
  then have "concat (map b_insts (restrict_blocks S bl)) = filter (\<lambda>i. i \<in> S) (concat (map b_insts bl))"
    by (simp only: filter_concat)
  then show ?thesis using c by (simp add: cfg_ok_def)
qed

lemma ssa_ok_restrict:
  assumes ok: "ssa_ok bl g" and S: "closed_set S g"
  shows "ssa_ok (restrict_blocks S bl) (restrict_graph S g)"
proof -
  let ?bl = "restrict_blocks S bl"
  have "if is_phi n then phi_ok ?bl i n else inst_ok ?bl i n" if "restrict_graph S g i = Some n" for i n
  proof -
    have i: "i \<in> S" "g i = Some n" using that by (auto simp: restrict_graph_def split: if_splits)
    have a: "a \<in> S" if "VInst a \<in> set (n_args n)" for a using S i that by (simp add: closed_set_def)
    show ?thesis
    proof (cases "is_phi n")
      case True
      have "avail_end ?bl (n_phi_blocks n ! k) a" if "k < length (n_args n)" "n_args n ! k = VInst a" for k a
        using ssa_okD(2) [OF ok i(2) True] that a [of a] nth_mem [OF that(1)] by (simp add: phi_ok_def avail_end_restrict)
      then show ?thesis using ssa_okD(2) [OF ok i(2) True] True i(1) by (simp add: phi_ok_def)
    next
      case False
      then show ?thesis using ssa_okD(3) [OF ok i(2) False] a i(1) by (simp add: inst_ok_def sdom_restrict)
    qed
  qed
  moreover have "restrict_graph S g i \<noteq> None \<longleftrightarrow> (\<exists>b. i \<in> set (insts_of ?bl b))" for i
    using ok by (auto simp: restrict_graph_def ssa_ok_def)
  ultimately show ?thesis using cfg_restrict [OF ssa_okD(1) [OF ok]] unfolding ssa_ok_def by blast
qed

section \<open>Runs without the removed instructions\<close>

text \<open>
  What is seen of a run, latest event first: the block, and the instruction that was computed
  with its value, or \<open>None\<close> where the block was entered.
\<close>

type_synonym event = "nat \<times> (nat \<times> sem) option"

fun event_of :: "run_state \<Rightarrow> event" where
  "event_of (b, xs, from, r) = (b, if xs = [] then None else Some (last xs, r (last xs)))"

definition events :: "run_state list \<Rightarrow> event list" where
  "events = map event_of"

fun kept_event :: "nat set \<Rightarrow> event \<Rightarrow> bool" where
  "kept_event S (b, None) \<longleftrightarrow> True"
| "kept_event S (b, Some (i, x)) \<longleftrightarrow> i \<in> S"

definition agree :: "nat set \<Rightarrow> env \<Rightarrow> env \<Rightarrow> bool" where
  "agree S r r' \<longleftrightarrow> (\<forall>i \<in> S. r i = r' i)"

fun from_agree :: "nat set \<Rightarrow> (nat \<times> env) option \<Rightarrow> (nat \<times> env) option \<Rightarrow> bool" where
  "from_agree S None None \<longleftrightarrow> True"
| "from_agree S (Some (p, r)) (Some (q, s)) \<longleftrightarrow> p = q \<and> agree S r s"
| "from_agree S _ _ \<longleftrightarrow> False"

lemma agree_val: "agree S r s \<Longrightarrow> (\<And>a. v = VInst a \<Longrightarrow> a \<in> S) \<Longrightarrow> val r v = val s v"
  by (cases v) (auto simp: agree_def)

lemma computes_restrict:
  assumes "computes M g from r i x" "closed_set S g" "i \<in> S" "agree S r s" "from_agree S from from'"
  shows "computes M (restrict_graph S g) from' s i x"
proof -
  obtain n where n: "g i = Some n" using assms(1) by (auto simp: computes_def split: option.splits)
  have args: "val q v = val q' v" if "agree S q q'" "v \<in> set (n_args n)" for q q' v
    using assms(2,3) n that by (intro agree_val) (auto simp: closed_set_def)
  show ?thesis
  proof (cases "is_phi n")
    case True
    then obtain p r0 k where k: "from = Some (p, r0)" "k < length (n_args n)" "n_phi_blocks n ! k = p" "x = val r0 (n_args n ! k)"
      using assms(1) n by (auto simp: computes_def phi_yields_def split: option.splits)
    then obtain s0 where s0: "from' = Some (p, s0)" "agree S r0 s0" using assms(5) by (cases from') auto
    have "x = val s0 (n_args n ! k)" using args [OF s0(2) nth_mem [OF k(2)]] k(4) by simp
    then show ?thesis using True n k s0(1) assms(3) by (auto simp: computes_def restrict_graph_def phi_yields_def)
  next
    case False
    have "map (val r) (n_args n) = map (val s) (n_args n)" using args [OF assms(4)] by simp
    then have "yields M r n x \<longleftrightarrow> yields M s n x" unfolding yields_def by (simp only:)
    then show ?thesis using assms(1,3) n False by (simp add: computes_def restrict_graph_def)
  qed
qed

lemma runs_restrict_state:
  assumes S: "closed_set S g"
  shows "runs M bl g ((b, xs, from, r) # tr) \<Longrightarrow> \<exists>tr' from' r'.
    runs M (restrict_blocks S bl) (restrict_graph S g) ((b, filter (\<lambda>i. i \<in> S) xs, from', r') # tr') \<and>
    agree S r r' \<and> from_agree S from from' \<and>
    events ((b, filter (\<lambda>i. i \<in> S) xs, from', r') # tr') = filter (kept_event S) (events ((b, xs, from, r) # tr))"
proof (induction "(b, xs, from, r) # tr" arbitrary: b xs "from" r tr rule: runs.induct)
  case (run_start r)
  then have "runs M (restrict_blocks S bl) (restrict_graph S g) [(0, [], None, r)]" by (intro runs.run_start) simp
  then show ?case by (intro exI [of _ "[]"] exI [of _ None] exI [of _ r]) (simp add: agree_def events_def)
next
  case (run_branch p f r tr b)
  then obtain tr' f' r' where IH: "runs M (restrict_blocks S bl) (restrict_graph S g) ((p, insts_of (restrict_blocks S bl) p, f', r') # tr')"
    "agree S r r'" "events ((p, insts_of (restrict_blocks S bl) p, f', r') # tr') = filter (kept_event S) (events ((p, insts_of bl p, f, r) # tr))"
    by fastforce
  from runs.run_branch [OF IH(1), of b] run_branch.hyps(3)
  have "runs M (restrict_blocks S bl) (restrict_graph S g) ((b, [], Some (p, r'), r') # (p, insts_of (restrict_blocks S bl) p, f', r') # tr')" by simp
  then show ?case using IH(2,3)
    by (intro exI [of _ "(p, insts_of (restrict_blocks S bl) p, f', r') # tr'"] exI [of _ "Some (p, r')"] exI [of _ r'])
       (simp add: events_def)
next
  case (run_inst b xs f r tr i ys x)
  then obtain tr' f' r' where IH: "runs M (restrict_blocks S bl) (restrict_graph S g) ((b, filter (\<lambda>i. i \<in> S) xs, f', r') # tr')"
    "agree S r r'" "from_agree S f f'"
    "events ((b, filter (\<lambda>i. i \<in> S) xs, f', r') # tr') = filter (kept_event S) (events ((b, xs, f, r) # tr))"
    by blast
  show ?case
  proof (cases "i \<in> S")
    case True
    have c: "computes M (restrict_graph S g) f' r' i x" by (rule computes_restrict [OF run_inst.hyps(4) S True IH(2,3)])
    have "insts_of (restrict_blocks S bl) b = filter (\<lambda>i. i \<in> S) xs @ i # filter (\<lambda>i. i \<in> S) ys" using run_inst.hyps(3) True by simp
    from runs.run_inst [OF IH(1) this c] True IH(4) show ?thesis
      by (intro exI [of _ "(b, filter (\<lambda>i. i \<in> S) xs, f', r') # tr'"] exI [of _ f'] exI [of _ "r'(i := x)"])
         (use IH(2,3) in \<open>simp add: events_def agree_def\<close>)
  next
    case False
    then show ?thesis using IH by (intro exI [of _ tr'] exI [of _ f'] exI [of _ r']) (auto simp: events_def agree_def)
  qed
qed

lemma runs_restrict:
  assumes "closed_set S g" "runs M bl g tr"
  shows "\<exists>tr'. runs M (restrict_blocks S bl) (restrict_graph S g) tr' \<and> events tr' = filter (kept_event S) (events tr)"
proof -
  obtain b xs f r tr0 where "tr = (b, xs, f, r) # tr0" using runs_shape [OF assms(2)] by (cases tr) auto
  then show ?thesis using runs_restrict_state [OF assms(1)] assms(2) by blast
qed

end
