(* ===== verification/ShaderPasses.thy ===== *)
theory ShaderPasses
  imports ShaderConstants ShaderRestrict
begin

text \<open>
  \<open>DeadCodeElimination.cpp\<close>: removal of identities and of instructions without uses.  Both
  passes return, the second after finitely many rounds, and the runs of the result are those of
  the graph without the removed instructions.
\<close>

section \<open>The passes\<close>

definition remove_identity :: "nat \<Rightarrow> nat \<Rightarrow> ir_store \<Rightarrow> ir_store outcome" where
  "remove_identity block inst st = obind (get_inst st inst) (\<lambda>n.
     if n_opcode n \<noteq> Base Identity then Ret st
     else obind (Inst_Arg n 0) (\<lambda>replacement.
       obind (ReplaceUsesWith inst replacement False st) (erase_inst block inst)))"

definition RemoveIdentities :: "nat list \<Rightarrow> ir_store \<Rightarrow> ir_store outcome" where
  "RemoveIdentities = ofold (\<lambda>block st. obind (get_block st block) (\<lambda>b. ofold (remove_identity block) (b_insts b) st))"

text \<open>The loop runs over the instructions of a block from the last to the first.\<close>

definition eliminate_inst :: "nat \<Rightarrow> nat \<Rightarrow> bool \<times> ir_store \<Rightarrow> (bool \<times> ir_store) outcome" where
  "eliminate_inst block inst cs = (case cs of (changed, st) \<Rightarrow> obind (get_inst st inst) (\<lambda>n.
     if Inst_HasUses n \<or> Inst_MayHaveSideEffects n then Ret (changed, st)
     else obind (Invalidate inst st) (\<lambda>st. omap (Pair True) (erase_inst block inst st))))"

definition eliminate_block :: "nat \<Rightarrow> bool \<times> ir_store \<Rightarrow> (bool \<times> ir_store) outcome" where
  "eliminate_block block cs = obind (get_block (snd cs) block) (\<lambda>b. ofold (eliminate_inst block) (rev (b_insts b)) cs)"

text \<open>
  The \<open>do\<close> loop: a round that changes anything erases an instruction, so that one round more than
  there are instructions is never reached.
\<close>

fun EliminateDeadCode_fuel :: "nat \<Rightarrow> nat list \<Rightarrow> ir_store \<Rightarrow> ir_store outcome" where
  "EliminateDeadCode_fuel 0 blocks st = Undef"
| "EliminateDeadCode_fuel (Suc f) blocks st = obind (ofold eliminate_block (rev blocks) (False, st)) (\<lambda>(changed, st).
     if changed then EliminateDeadCode_fuel f blocks st else Ret st)"

definition EliminateDeadCode :: "nat list \<Rightarrow> ir_store \<Rightarrow> ir_store outcome" where
  "EliminateDeadCode blocks st = EliminateDeadCode_fuel (Suc (length (st_insts st))) blocks st"

section \<open>Erasing an instruction\<close>

text \<open>What the passes leave of a graph: the instructions of a set, in the same blocks.\<close>

definition live_set :: "ir_store \<Rightarrow> nat set" where
  "live_set st = {i. inst_at st i \<noteq> None}"

lemma live_set_core: "live_set st = {i. core st i \<noteq> None}"
  by (simp add: live_set_def)

lemma live_finite: "finite (live_set st)" "card (live_set st) \<le> length (st_insts st)"
proof -
  have "live_set st \<subseteq> {..<length (st_insts st)}" by (auto simp: live_set_def dest: inst_at_bound)
  then show "finite (live_set st)" by (rule finite_subset) simp
  from card_mono [OF _ \<open>live_set st \<subseteq> {..<length (st_insts st)}\<close>] show "card (live_set st) \<le> length (st_insts st)" by simp
qed

lemma closed_live: "uses_ok st \<Longrightarrow> closed_set (live_set st) (core st)"
  unfolding closed_set_def live_set_def uses_ok_def links_def refs_def
  by (clarsimp simp: in_set_conv_nth) blast

definition erased :: "nat \<Rightarrow> ir_store \<Rightarrow> ir_store \<Rightarrow> bool" where
  "erased i st st' \<longleftrightarrow> core st' = restrict_graph (- {i}) (core st) \<and> st_blocks st' = restrict_blocks (- {i}) (st_blocks st)"

lemma remove_block:
  assumes "cfg_ok bl" "i \<in> set (insts_of bl b)"
  shows "bl[b := (bl ! b)\<lparr>b_insts := remove1 i (b_insts (bl ! b))\<rparr>] = restrict_blocks (- {i}) bl"
proof (rule nth_equalityI)
  fix c assume "c < length (bl[b := (bl ! b)\<lparr>b_insts := remove1 i (b_insts (bl ! b))\<rparr>])"
  then have c: "c < length bl" by simp
  have ins: "insts_of bl c = b_insts (bl ! c)" if "c < length bl" for c using that by (simp add: insts_of_def)
  have d: "distinct (b_insts (bl ! c))" using distinct_insts [OF assms(1), of c] ins [OF c] by simp
  show "bl[b := (bl ! b)\<lparr>b_insts := remove1 i (b_insts (bl ! b))\<rparr>] ! c = restrict_blocks (- {i}) bl ! c"
  proof (cases "c = b")
    case True
    have "remove1 i (b_insts (bl ! c)) = filter (\<lambda>j. j \<in> - {i}) (b_insts (bl ! c))"
      using d by (simp add: distinct_remove1_removeAll removeAll_filter_not_eq eq_commute [of i])
    then show ?thesis using c True by (simp add: restrict_blocks_def)
  next
    case False
    have "i \<notin> set (insts_of bl c)" using block_unique [OF assms] False by metis
    then have "filter (\<lambda>j. j \<noteq> i) (b_insts (bl ! c)) = b_insts (bl ! c)" using ins [OF c] by (auto simp: filter_id_conv)
    then show ?thesis using False c by (simp add: restrict_blocks_def)
  qed
qed simp

lemma erase_ok:
  assumes "uses_ok st" "core st i = Some n" "cfg_ok (st_blocks st)" "i \<in> set (insts_of (st_blocks st) b)"
    "\<forall>j k. (j, k, i) \<in> refs (core st) \<longrightarrow> j = i"
  shows "\<exists>st'. erase_inst b i st = Ret st' \<and> uses_ok st' \<and> erased i st st'"
proof -
  obtain st' where st': "erase_inst b i st = Ret st'" "uses_ok st'" "core st' = (core st)(i := None)"
    "st_blocks st' = (st_blocks st)[b := (st_blocks st ! b)\<lparr>b_insts := remove1 i (b_insts (st_blocks st ! b))\<rparr>]"
    using erase_inst_ok [OF assms(1,2) insts_of_bound [OF assms(4)] assms(5)] by blast
  then show ?thesis using remove_block [OF assms(3,4)] by (auto simp: erased_def restrict_graph_def fun_eq_iff)
qed

section \<open>A program with dead code\<close>

definition dead_program :: ir_store where
  "dead_program = \<lparr>
     st_insts = [inst_of (Regs GetExecLo) 0 [] [] [(1, 0), (4, 0)],
       inst_of (Alu IAdd32) 0 [VInst 0, VU32 1] [] [(2, 0), (3, 0)],
       inst_of (Alu BitwiseNot32) 0 [VInst 1] [] [],
       inst_of (Base Identity) 0 [VInst 1] [] [],
       inst_of (Base ReferenceU32) 0 [VInst 0] [] []],
     st_blocks = [block_of [0, 1, 2, 3, 4] [] []]\<rparr>"

lemma dead_ok: "uses_ok dead_program" "ssa_ok (st_blocks dead_program) (core dead_program)" "\<forall>b \<in> set [0]. b < length (st_blocks dead_program)"
  by (rule uses_check, code_simp) (rule ssa_check [of "[[]]"], code_simp, simp add: dead_program_def)

section \<open>Dead code\<close>

definition shrinks :: "ir_store \<Rightarrow> nat set \<Rightarrow> ir_store \<Rightarrow> bool" where
  "shrinks st S st' \<longleftrightarrow> core st' = restrict_graph S (core st) \<and> st_blocks st' = restrict_blocks S (st_blocks st) \<and>
     (\<forall>i n. i \<notin> S \<longrightarrow> core st i = Some n \<longrightarrow> \<not> HasSideEffects (n_opcode n))"

lemma shrinks_refl: "shrinks st UNIV st"
  by (simp add: shrinks_def)

lemma shrinks_trans: "shrinks st S st1 \<Longrightarrow> shrinks st1 T st2 \<Longrightarrow> shrinks st (T \<inter> S) st2"
proof -
  assume a: "shrinks st S st1" "shrinks st1 T st2"
  have "\<not> HasSideEffects (n_opcode n)" if "i \<notin> T \<inter> S" "core st i = Some n" for i n
    using a that by (cases "i \<in> S") (simp_all add: shrinks_def restrict_graph_def)
  then show ?thesis using a by (simp add: shrinks_def restrict_twice)
qed

lemma closed_restrict:
  assumes "uses_ok st'" "core st' = restrict_graph S (core st)"
  shows "closed_set S (core st)"
  unfolding closed_set_def
proof (intro allI impI)
  fix i n a assume i: "i \<in> S" "core st i = Some n" "VInst a \<in> set (n_args n)"
  then have "core st' i = Some n" "i \<in> live_set st'" using assms(2) by (auto simp: restrict_graph_def live_set_core)
  then have "a \<in> live_set st'" using closed_live [OF assms(1)] i(3) unfolding closed_set_def by blast
  then show "a \<in> S" using assms(2) by (auto simp: live_set_core restrict_graph_def split: if_splits)
qed

lemma shrinks_graph_ok: "graph_ok st \<Longrightarrow> uses_ok st' \<Longrightarrow> shrinks st S st' \<Longrightarrow> graph_ok st'"
  using ssa_ok_restrict closed_restrict unfolding graph_ok_def shrinks_def by metis

definition needed :: "ir_store \<Rightarrow> nat \<Rightarrow> bool" where
  "needed st i \<longleftrightarrow> (\<exists>n. inst_at st i = Some n \<and> (n_uses n \<noteq> [] \<or> HasSideEffects (n_opcode n)))"

lemma eliminate_inst_ok:
  assumes "graph_ok st" "i \<in> set (insts_of (st_blocks st) block)"
  shows "if needed st i then eliminate_inst block i (c, st) = Ret (c, st)
    else \<exists>st'. eliminate_inst block i (c, st) = Ret (True, st') \<and> uses_ok st' \<and> shrinks st (- {i}) st' \<and> i \<in> live_set st"
proof -
  have ok: "ssa_ok (st_blocks st) (core st)" and u: "uses_ok st" using assms(1) by (simp_all add: graph_ok_def)
  obtain m where m: "core st i = Some m" using ssa_okD(5) [OF ok assms(2)] by blast
  then obtain n where n: "inst_at st i = Some n" "m = n\<lparr>n_uses := []\<rparr>" by (auto simp: core_Some)
  show ?thesis
  proof (cases "needed st i")
    case True
    then show ?thesis using n by (auto simp: needed_def eliminate_inst_def get_inst_Some Inst_HasUses_def Inst_MayHaveSideEffects_def)
  next
    case False
    then have no: "n_uses n = []" "\<not> HasSideEffects (n_opcode n)" using n by (auto simp: needed_def)
    have nr: "(j, k, i) \<notin> refs (core st)" for j k using u n(1) no(1) unfolding uses_ok_def links_def by (metis emptyE set_empty)
    obtain s1 where s1: "Invalidate i st = Ret s1" "uses_ok s1"
      "core s1 = (core st)(i \<mapsto> m\<lparr>n_opcode := Base Void, n_args := [], n_phi_blocks := []\<rparr>)" "frame st s1"
      using Invalidate_ok [OF u m] by blast
    have b: "st_blocks s1 = st_blocks st" using s1(4) by (simp add: frame_def)
    have r1: "\<forall>j k. (j, k, i) \<in> refs (core s1) \<longrightarrow> j = i" using nr unfolding s1(3) by (auto simp: refs_def split: if_splits)
    have c1: "core s1 i = Some (m\<lparr>n_opcode := Base Void, n_args := [], n_phi_blocks := []\<rparr>)" unfolding s1(3) by simp
    obtain st' where st': "erase_inst block i s1 = Ret st'" "uses_ok st'" "erased i s1 st'"
      using erase_ok [OF s1(2) c1 _ _ r1] ssa_okD(1) [OF ok] assms(2) b by auto
    have "shrinks st (- {i}) st'" using st'(3) m n no b s1(3) by (auto simp: shrinks_def erased_def restrict_graph_def fun_eq_iff)
    then show ?thesis using False s1(1) st'(1,2) n no
      by (auto simp: eliminate_inst_def get_inst_Some Inst_HasUses_def Inst_MayHaveSideEffects_def live_set_def)
  qed
qed

text \<open>A sweep over some instructions of a block.\<close>

definition swept :: "nat set \<Rightarrow> bool \<times> ir_store \<Rightarrow> bool \<times> ir_store \<Rightarrow> bool" where
  "swept A cs cs' \<longleftrightarrow> (case (cs, cs') of ((c, st), (c', st')) \<Rightarrow>
     uses_ok st' \<and> (\<exists>S. shrinks st S st' \<and> - S \<subseteq> A) \<and>
     ((c' = c \<and> st' = st \<and> (\<forall>i \<in> A. needed st i)) \<or> (c' \<and> card (live_set st') < card (live_set st))))"

lemma shrinks_live: "shrinks st S st' \<Longrightarrow> live_set st' = live_set st \<inter> S"
  unfolding shrinks_def live_set_core by (auto simp: restrict_graph_def simp del: core_None split: if_splits)

lemma eliminate_list_ok:
  assumes "graph_ok st" "distinct js" "set js \<subseteq> set (insts_of (st_blocks st) block)"
  shows "\<exists>cs'. ofold (eliminate_inst block) js (c, st) = Ret cs' \<and> swept (set js) (c, st) cs'"
  using assms
proof (induction js arbitrary: c st)
  case Nil
  then show ?case using shrinks_refl [of st] by (auto simp: swept_def graph_ok_def)
next
  case (Cons j js)
  have j: "j \<in> set (insts_of (st_blocks st) block)" using Cons.prems(3) by simp
  note step = eliminate_inst_ok [OF Cons.prems(1) j]
  show ?case
  proof (cases "needed st j")
    case True
    obtain cs' where "ofold (eliminate_inst block) js (c, st) = Ret cs'" "swept (set js) (c, st) cs'"
      using Cons.IH [of st c] Cons.prems by auto
    then show ?thesis using step [of c] True by (auto simp: swept_def split: prod.splits)
  next
    case False
    then obtain s1 where s1: "eliminate_inst block j (c, st) = Ret (True, s1)" "uses_ok s1" "shrinks st (- {j}) s1" "j \<in> live_set st"
      using step [of c] by auto
    have "set js \<subseteq> set (insts_of (st_blocks s1) block)" using Cons.prems(2,3) s1(3) by (auto simp: shrinks_def)
    then obtain c' st' where s2: "ofold (eliminate_inst block) js (True, s1) = Ret (c', st')" "swept (set js) (True, s1) (c', st')"
      using Cons.IH [OF shrinks_graph_ok [OF Cons.prems(1) s1(2,3)], of True] Cons.prems(2) by auto
    then obtain S where S: "shrinks s1 S st'" "- S \<subseteq> set js" by (auto simp: swept_def)
    have "live_set s1 = live_set st - {j}" using shrinks_live [OF s1(3)] by auto
    then have less: "card (live_set s1) < card (live_set st)" using s1(4) live_finite(1) by (metis card_Diff1_less)
    have "shrinks st (S \<inter> - {j}) st'" using shrinks_trans [OF s1(3) S(1)] .
    moreover have "- (S \<inter> - {j}) \<subseteq> set (j # js)" using S(2) by auto
    ultimately have "swept (set (j # js)) (c, st) (c', st')" using s2(2) less by (auto simp: swept_def)
    then show ?thesis using s1(1) s2(1) by simp
  qed
qed

lemma eliminate_block_ok:
  assumes "graph_ok st" "b < length (st_blocks st)"
  shows "\<exists>cs'. eliminate_block b (c, st) = Ret cs' \<and> swept (set (insts_of (st_blocks st) b)) (c, st) cs'"
proof -
  have i: "insts_of (st_blocks st) b = b_insts (st_blocks st ! b)" using assms(2) by (simp add: insts_of_def)
  have "distinct (insts_of (st_blocks st) b)" using assms(1) distinct_insts by (auto simp: graph_ok_def dest: ssa_okD(1))
  then show ?thesis using eliminate_list_ok [OF assms(1), of "rev (insts_of (st_blocks st) b)" b c] assms(2)
    by (simp add: eliminate_block_def get_block_def i)
qed

lemma swept_trans:
  "swept A cs cs1 \<Longrightarrow> swept B cs1 cs2 \<Longrightarrow> swept (A \<union> B) cs cs2"
proof -
  assume a: "swept A cs cs1" "swept B cs1 cs2"
  obtain c st c1 st1 c2 st2 where cs: "cs = (c, st)" "cs1 = (c1, st1)" "cs2 = (c2, st2)" by (metis surj_pair)
  obtain S T where S: "shrinks st S st1" "- S \<subseteq> A" "shrinks st1 T st2" "- T \<subseteq> B" using a by (auto simp: swept_def cs)
  then have "shrinks st (T \<inter> S) st2" "- (T \<inter> S) \<subseteq> A \<union> B" using shrinks_trans by auto
  then show ?thesis using a by (auto simp: swept_def cs)
qed

definition insts_in :: "ir_store \<Rightarrow> nat list \<Rightarrow> nat set" where
  "insts_in st order = (\<Union>b \<in> set order. set (insts_of (st_blocks st) b))"

lemma eliminate_round_ok:
  assumes "graph_ok st" "\<forall>b \<in> set order. b < length (st_blocks st)"
  shows "\<exists>cs'. ofold eliminate_block order (c, st) = Ret cs' \<and> swept (insts_in st order) (c, st) cs'"
  using assms
proof (induction order arbitrary: c st)
  case Nil
  then show ?case using shrinks_refl [of st] by (auto simp: swept_def graph_ok_def insts_in_def)
next
  case (Cons b bs)
  obtain c1 s1 where s1: "eliminate_block b (c, st) = Ret (c1, s1)" "swept (set (insts_of (st_blocks st) b)) (c, st) (c1, s1)"
    using eliminate_block_ok [OF Cons.prems(1), of b c] Cons.prems(2) by auto
  then obtain S where S: "shrinks st S s1" "uses_ok s1" by (auto simp: swept_def)
  have bl: "st_blocks s1 = restrict_blocks S (st_blocks st)" using S(1) by (simp add: shrinks_def)
  obtain cs' where s2: "ofold eliminate_block bs (c1, s1) = Ret cs'" "swept (insts_in s1 bs) (c1, s1) cs'"
    using Cons.IH [OF shrinks_graph_ok [OF Cons.prems(1) S(2,1)], of c1] Cons.prems(2) bl by auto
  have sub: "insts_in s1 bs \<subseteq> insts_in st bs" by (auto simp: insts_in_def bl)
  obtain c' st' where cs': "cs' = (c', st')" by fastforce
  have "swept (insts_in st bs) (c1, s1) cs'" if "s1 = st" using s2(2) that by simp
  moreover have "swept (insts_in st (b # bs)) (c, st) cs'" if "s1 \<noteq> st"
  proof -
    have "c1" "card (live_set s1) < card (live_set st)" using s1(2) that by (auto simp: swept_def)
    then have less: "c'" "card (live_set st') < card (live_set st)" using s2(2) by (auto simp: swept_def cs')
    have "swept (set (insts_of (st_blocks st) b) \<union> insts_in s1 bs) (c, st) cs'" by (rule swept_trans [OF s1(2) s2(2)])
    then obtain T where T: "uses_ok st'" "shrinks st T st'" "- T \<subseteq> set (insts_of (st_blocks st) b) \<union> insts_in s1 bs"
      by (auto simp: swept_def cs')
    then have "- T \<subseteq> insts_in st (b # bs)" using sub by (auto simp: insts_in_def)
    then show ?thesis using T less by (auto simp: swept_def cs')
  qed
  ultimately have "swept (insts_in st (b # bs)) (c, st) cs'"
    using swept_trans [OF s1(2), of "insts_in st bs" cs'] by (cases "s1 = st") (auto simp: insts_in_def)
  then show ?case using s1(1) s2(1) by simp
qed

lemma EliminateDeadCode_fuel_ok:
  assumes "graph_ok st" "\<forall>b \<in> set order. b < length (st_blocks st)" "card (live_set st) < f"
  shows "\<exists>st' S. EliminateDeadCode_fuel f order st = Ret st' \<and> uses_ok st' \<and> shrinks st S st' \<and>
    (\<forall>i \<in> insts_in st' order. needed st' i)"
  using assms
proof (induction f arbitrary: st)
  case (Suc f)
  obtain c s1 where s1: "ofold eliminate_block (rev order) (False, st) = Ret (c, s1)" "swept (insts_in st (rev order)) (False, st) (c, s1)"
    using eliminate_round_ok [OF Suc.prems(1), of "rev order" False] Suc.prems(2) by auto
  then obtain S where S: "shrinks st S s1" "uses_ok s1" by (auto simp: swept_def)
  show ?case
  proof (cases c)
    case False
    then have "s1 = st" "\<forall>i \<in> insts_in st order. needed st i" using s1(2) by (auto simp: swept_def insts_in_def)
    then show ?thesis using s1(1) S False by auto
  next
    case True
    then have less: "card (live_set s1) < f" using s1(2) Suc.prems(3) by (auto simp: swept_def)
    have "\<forall>b \<in> set order. b < length (st_blocks s1)" using S(1) Suc.prems(2) by (simp add: shrinks_def)
    from Suc.IH [OF shrinks_graph_ok [OF Suc.prems(1) S(2,1)] this less] obtain st' T where
      st': "EliminateDeadCode_fuel f order s1 = Ret st'" "uses_ok st'" "shrinks s1 T st'" "\<forall>i \<in> insts_in st' order. needed st' i" by blast
    then show ?thesis using shrinks_trans [OF S(1)] s1(1) True by (intro exI [of _ st'] exI [of _ "T \<inter> S"]) auto
  qed
qed simp

text \<open>
  C11: on a value graph in SSA form, the \<open>do\<close> loop of \<open>EliminateDeadCode\<close> ends and no check of
  the graph editing fails.  What it leaves is the graph restricted to some instructions, in the
  same order in the same blocks, again in SSA form with use lists in step: every instruction left
  has a use or a side effect, no instruction with a side effect is removed, and for every run of
  the graph there is a run of the result that enters the same blocks and computes the same values
  in the same order, those of the removed instructions left out.
\<close>

theorem dead_code_elimination:
  assumes "uses_ok st" "ssa_ok (st_blocks st) (core st)" "\<forall>b \<in> set order. b < length (st_blocks st)"
  shows "\<exists>st' S. EliminateDeadCode order st = Ret st' \<and> uses_ok st' \<and> ssa_ok (st_blocks st') (core st') \<and>
    core st' = restrict_graph S (core st) \<and> st_blocks st' = restrict_blocks S (st_blocks st) \<and>
    (\<forall>b \<in> set order. \<forall>i \<in> set (insts_of (st_blocks st') b).
       \<exists>n. inst_at st' i = Some n \<and> (n_uses n \<noteq> [] \<or> HasSideEffects (n_opcode n))) \<and>
    (\<forall>i n. core st i = Some n \<longrightarrow> HasSideEffects (n_opcode n) \<longrightarrow> i \<in> S) \<and>
    (\<forall>exact device tr. runs (ir_meaning exact device) (st_blocks st) (core st) tr \<longrightarrow>
       (\<exists>tr'. runs (ir_meaning exact device) (st_blocks st') (core st') tr' \<and> events tr' = filter (kept_event S) (events tr)))"
proof -
  have g: "graph_ok st" using assms(1,2) by (simp add: graph_ok_def)
  obtain st' S where st': "EliminateDeadCode order st = Ret st'" "uses_ok st'" "shrinks st S st'"
    "\<forall>i \<in> insts_in st' order. needed st' i"
    using EliminateDeadCode_fuel_ok [OF g assms(3), of "Suc (length (st_insts st))"] live_finite(2) [of st]
    by (auto simp: EliminateDeadCode_def simp del: EliminateDeadCode_fuel.simps)
  have "graph_ok st'" by (rule shrinks_graph_ok [OF g st'(2,3)])
  moreover have "closed_set S (core st)" using closed_restrict [OF st'(2)] st'(3) by (simp add: shrinks_def)
  ultimately show ?thesis using st' runs_restrict [of S "core st"]
    by (intro exI [of _ st'] exI [of _ S]) (auto simp: shrinks_def graph_ok_def insts_in_def needed_def)
qed

lemma dead_code_elimination_witness:
  "\<exists>st'. EliminateDeadCode [0] dead_program = Ret st' \<and> uses_ok st' \<and> ssa_ok (st_blocks st') (core st') \<and>
     map (\<lambda>i. inst_at st' i = None) [0, 1, 2, 3, 4] = [False, True, True, True, False]"
proof -
  have "case EliminateDeadCode [0] dead_program of Ret st \<Rightarrow>
    map (\<lambda>i. inst_at st i = None) [0, 1, 2, 3, 4] = [False, True, True, True, False] | _ \<Rightarrow> False" by code_simp
  moreover obtain st' where "EliminateDeadCode [0] dead_program = Ret st'" "uses_ok st'" "ssa_ok (st_blocks st') (core st')"
    using dead_code_elimination [OF dead_ok] by blast
  ultimately show ?thesis by simp
qed

section \<open>Identities\<close>

text \<open>
  The rest of a graph without the instructions outside \<open>S\<close>: the runs go on, instructions keep
  their opcodes, and what instructions with side effects hold is still held.
\<close>

definition carries_on :: "ir_store \<Rightarrow> nat set \<Rightarrow> ir_store \<Rightarrow> bool" where
  "carries_on st S st' \<longleftrightarrow> st_blocks st' = restrict_blocks S (st_blocks st) \<and>
     (\<forall>i. map_option n_opcode (core st' i) = (if i \<in> S then map_option n_opcode (core st i) else None)) \<and>
     (\<forall>exact device tr. runs (ir_meaning exact device) (st_blocks st) (core st) tr \<longrightarrow>
       (\<exists>tr'. runs (ir_meaning exact device) (st_blocks st') (core st') tr' \<and> events tr' = filter (kept_event S) (events tr))) \<and>
     (\<forall>x k. held (core st) x k \<longrightarrow> held (core st') x k)"

lemma kept_UNIV [simp]: "kept_event UNIV e"
  by (cases "(UNIV :: nat set, e)" rule: kept_event.cases) auto

lemma kept_Int: "kept_event (T \<inter> S) e \<longleftrightarrow> kept_event T e \<and> kept_event S e"
  by (cases "(S, e)" rule: kept_event.cases) auto

lemma carries_on_refl: "carries_on st UNIV st"
  by (auto simp: carries_on_def)

lemma carries_on_trans:
  assumes "carries_on st S st1" "carries_on st1 T st2"
  shows "carries_on st (T \<inter> S) st2"
  unfolding carries_on_def
proof (intro conjI allI impI)
  show "st_blocks st2 = restrict_blocks (T \<inter> S) (st_blocks st)" using assms by (simp add: carries_on_def restrict_twice)
  show "map_option n_opcode (core st2 i) = (if i \<in> T \<inter> S then map_option n_opcode (core st i) else None)" for i
    using assms by (simp add: carries_on_def)
  show "held (core st2) x k" if "held (core st) x k" for x k using assms that by (simp add: carries_on_def)
  fix exact device tr assume "runs (ir_meaning exact device) (st_blocks st) (core st) tr"
  then obtain tr1 where tr1: "runs (ir_meaning exact device) (st_blocks st1) (core st1) tr1" "events tr1 = filter (kept_event S) (events tr)"
    using assms(1) unfolding carries_on_def by blast
  then obtain tr2 where "runs (ir_meaning exact device) (st_blocks st2) (core st2) tr2" "events tr2 = filter (kept_event T) (events tr1)"
    using assms(2) unfolding carries_on_def by blast
  then show "\<exists>tr'. runs (ir_meaning exact device) (st_blocks st2) (core st2) tr' \<and> events tr' = filter (kept_event (T \<inter> S)) (events tr)"
    using tr1(2) by (intro exI [of _ tr2]) (auto simp: kept_Int intro: filter_cong)
qed

text \<open>Holding survives the removal of instructions that are not used, and of identities.\<close>

lemma restrict_chain:
  assumes "chain g a x" "closed_set S g" "\<And>i. a = VInst i \<Longrightarrow> i \<in> S"
  shows "chain (restrict_graph S g) a x \<and> (\<forall>i. x = VInst i \<longrightarrow> i \<in> S)"
  using assms
proof (induction rule: chain.induct)
  case (chain_step j n a v)
  have j: "j \<in> S" "restrict_graph S g j = Some n" using chain_step.prems(2) chain_step.hyps(1) by (auto simp: restrict_graph_def)
  have "a = VInst i \<Longrightarrow> i \<in> S" for i using chain_step.prems(1) chain_step.hyps(1,3) j(1) by (auto simp: closed_set_def)
  then show ?case using chain_step j(2) by (auto intro: chain.chain_step)
qed (simp add: chain.chain_end)

lemma restrict_held: "held g x k \<Longrightarrow> closed_set S g \<Longrightarrow> k \<in> S \<Longrightarrow> held (restrict_graph S g) x k"
proof -
  assume a: "held g x k" "closed_set S g" "k \<in> S"
  then obtain n a where n: "g k = Some n" "HasSideEffects (n_opcode n)" "n_args n = [a]" "ends g a x" by (auto simp: held_def)
  then have "a = VInst i \<Longrightarrow> i \<in> S" for i using a(2,3) by (auto simp: closed_set_def)
  then have "ends (restrict_graph S g) a x" using restrict_chain [of g a x S] n(4) a(2) by (auto simp: ends_def restrict_graph_def)
  then show ?thesis using n a(3) by (auto simp: held_def restrict_graph_def)
qed

lemma identity_chain:
  assumes "chain g b x" "x \<noteq> VInst i" "g i = Some m" "n_args m = [a]" "a \<noteq> VInst i"
  shows "chain (replace_graph True i a g) (subst_value i a b) x"
  using assms
proof (induction rule: chain.induct)
  case (chain_end v)
  then show ?case by (simp add: subst_value_def chain.chain_end)
next
  case (chain_step j n c v)
  then have IH: "chain (replace_graph True i a g) (subst_value i a c) v" by blast
  show ?case
  proof (cases "j = i")
    case True
    then show ?thesis using chain_step IH by (auto simp: subst_value_def)
  next
    case False
    then have "replace_graph True i a g j = Some (subst_inst i a n)" using chain_step.hyps(1) by (simp add: replace_graph_def)
    then have "chain (replace_graph True i a g) (VInst j) v"
      by (rule chain.chain_step) (use chain_step.hyps IH in \<open>simp_all add: subst_inst_def\<close>)
    then show ?thesis using False by (simp add: subst_value_def)
  qed
qed

lemma identity_held:
  assumes h: "held g x k" and m: "g i = Some m" "n_opcode m = Base Identity" "n_args m = [a]" "a \<noteq> VInst i"
  shows "k \<noteq> i" "held (replace_graph True i a g) x k"
proof -
  obtain n b where n: "g k = Some n" "HasSideEffects (n_opcode n)" "n_args n = [b]" "ends g b x" using h by (auto simp: held_def)
  show k: "k \<noteq> i" using n(1,2) m(1,2) by (auto simp: HasSideEffects_def)
  have "x \<noteq> VInst i" using n(4) m(1,2) by (auto simp: ends_def)
  then have "ends (replace_graph True i a g) (subst_value i a b) x"
    using identity_chain [of g b x i m a] n(4) m by (auto simp: ends_def replace_graph_def)
  then show "held (replace_graph True i a g) x k" unfolding held_def using n k
    by (intro exI [of _ "subst_inst i a n"]) (simp add: replace_graph_def subst_inst_def)
qed

text \<open>An identity has the value of its argument.\<close>

lemma identity_same_value:
  assumes ok: "ssa_ok bl (core st)" and n: "core st i = Some n" "n_opcode n = Base Identity" "n_args n = [a]"
  shows "value_sdom bl a i" "same_value (ir_meaning exact device) bl (core st) i a"
proof -
  have np: "\<not> is_phi n" using n(2) by (simp add: is_phi_def)
  show "value_sdom bl a i" using ssa_okD(3) [OF ok n(1) np] n(3) by (auto simp: inst_ok_def value_sdom_def)
  show "same_value (ir_meaning exact device) bl (core st) i a"
    unfolding same_value_def
  proof (intro allI impI)
    fix b xs "from" r tr assume run: "runs (ir_meaning exact device) bl (core st) ((b, xs, from, r) # tr)" "i \<in> known bl b xs"
    have "yields (ir_meaning exact device) r n (r i)" by (rule runs_equations [OF ok run n(1) np])
    then show "r i = val r a" using ir.identity n(2,3) by (simp add: yields_def)
  qed
qed

lemma remove_identity_ok:
  assumes g: "graph_ok st" and i: "i \<in> set (insts_of (st_blocks st) block)"
  shows "if map_option n_opcode (core st i) = Some (Base Identity)
    then \<exists>st'. remove_identity block i st = Ret st' \<and> graph_ok st' \<and> carries_on st (- {i}) st'
    else remove_identity block i st = Ret st"
proof -
  let ?bl = "st_blocks st"
  have ok: "ssa_ok ?bl (core st)" and u: "uses_ok st" using g by (simp_all add: graph_ok_def)
  note cfg = ssa_okD(1) [OF ok]
  obtain m where m: "core st i = Some m" using ssa_okD(5) [OF ok i] by blast
  then obtain n where n: "inst_at st i = Some n" "m = n\<lparr>n_uses := []\<rparr>" by (auto simp: core_Some)
  show ?thesis
  proof (cases "n_opcode n = Base Identity")
    case False
    then show ?thesis using m n by (simp add: remove_identity_def get_inst_Some)
  next
    case True
    then have "inst_ok ?bl i m" using ssa_okD(3) [OF ok m] n(2) by (simp add: is_phi_def)
    then obtain a where a: "n_args n = [a]" using n(2) True by (auto simp: inst_ok_def length_Suc_conv)
    have am: "n_opcode m = Base Identity" "n_args m = [a]" using n(2) True a by simp_all
    have ad: "value_sdom ?bl a i" and same: "same_value (ir_meaning exact device) ?bl (core st) i a" for exact device
      using identity_same_value [where st = st, OF ok m am] by blast+
    have ne: "a \<noteq> VInst i" using ad sdom_irrefl [OF cfg] by (auto simp: value_sdom_def)
    have lv: "live_value st a" using live_sdom [OF ok ad] by (cases a) (auto simp: live_value_def)
    obtain s1 where s1: "ReplaceUsesWith i a False st = Ret s1" "uses_ok s1" "core s1 = replace_graph False i a (core st)" "frame st s1"
      using ReplaceUsesWith_ok [OF u m lv ne] by blast
    have b1: "st_blocks s1 = ?bl" using s1(4) by (simp add: frame_def)
    have "VInst i \<notin> set (n_args x)" if "core s1 j = Some x" for j x
      using that ne unfolding s1(3) by (auto simp: replace_graph_def replaced_def subst_inst_def subst_value_def split: if_splits)
    then have nr: "\<forall>j k. (j, k, i) \<in> refs (core s1) \<longrightarrow> j = i" by (auto simp: refs_def) (metis nth_mem)
    have c1: "core s1 i = Some (replaced False a m)" using m unfolding s1(3) by (simp add: replace_graph_def)
    obtain st' where st': "erase_inst block i s1 = Ret st'" "uses_ok st'" "erased i s1 st'"
      using erase_ok [OF s1(2) c1 _ _ nr] cfg i b1 by auto
    let ?g = "replace_graph True i a (core st)"
    have core': "core st' = restrict_graph (- {i}) ?g" using st'(3) unfolding erased_def s1(3)
      by (auto simp: restrict_graph_def replace_graph_def fun_eq_iff)
    have bl': "st_blocks st' = restrict_blocks (- {i}) ?bl" using st'(3) b1 by (simp add: erased_def)
    have closed: "closed_set (- {i}) ?g" using ne by (auto simp: closed_set_def replace_graph_def subst_inst_def subst_value_def split: if_splits)
    have "graph_ok st'" using st'(2) ssa_ok_restrict [OF ssa_ok_replace [OF ok ad] closed] by (simp add: graph_ok_def core' bl')
    moreover have "\<exists>tr'. runs (ir_meaning exact device) (st_blocks st') (core st') tr' \<and> events tr' = filter (kept_event (- {i})) (events tr)"
      if "runs (ir_meaning exact device) ?bl (core st) tr" for exact device tr
      using runs_restrict [OF closed ir.replace_keeps_runs [OF ok same ad that]] by (simp add: core' bl')
    moreover have "held (core st') x k" if "held (core st) x k" for x k
      using identity_held [OF that m am ne] restrict_held [OF _ closed] by (simp add: core')
    ultimately show ?thesis using m n True a s1(1) st'(1) bl'
      by (auto simp: remove_identity_def get_inst_Some Inst_Arg_def carries_on_def core' restrict_graph_def replace_graph_def option.map_comp comp_def)
  qed
qed

definition is_identity :: "ir_store \<Rightarrow> nat \<Rightarrow> bool" where
  "is_identity st i \<longleftrightarrow> map_option n_opcode (core st i) = Some (Base Identity)"

lemma carries_on_identity: "carries_on st S st' \<Longrightarrow> is_identity st' i \<longleftrightarrow> i \<in> S \<and> is_identity st i"
  by (simp add: carries_on_def is_identity_def)

lemma carries_on_insts: "carries_on st S st' \<Longrightarrow> set (insts_of (st_blocks st') b) = set (insts_of (st_blocks st) b) \<inter> S"
  by (auto simp: carries_on_def)

lemma remove_list_ok:
  assumes "graph_ok st" "distinct js" "set js \<subseteq> set (insts_of (st_blocks st) block)"
  shows "\<exists>st'. ofold (remove_identity block) js st = Ret st' \<and> graph_ok st' \<and> carries_on st (- {i \<in> set js. is_identity st i}) st'"
  using assms
proof (induction js arbitrary: st)
  case Nil
  then show ?case using carries_on_refl [of st] by simp
next
  case (Cons j js)
  have j: "j \<in> set (insts_of (st_blocks st) block)" using Cons.prems(3) by simp
  note step = remove_identity_ok [OF Cons.prems(1) j, folded is_identity_def]
  show ?case
  proof (cases "is_identity st j")
    case False
    then have "{i \<in> set (j # js). is_identity st i} = {i \<in> set js. is_identity st i}" by auto
    then show ?thesis using Cons.IH [of st] Cons.prems step False by simp
  next
    case True
    then obtain s1 where s1: "remove_identity block j st = Ret s1" "graph_ok s1" "carries_on st (- {j}) s1" using step by auto
    have "set js \<subseteq> set (insts_of (st_blocks s1) block)" using Cons.prems(2,3) carries_on_insts [OF s1(3)] by auto
    then obtain st' where st': "ofold (remove_identity block) js s1 = Ret st'" "graph_ok st'" "carries_on s1 (- {i \<in> set js. is_identity s1 i}) st'"
      using Cons.IH [OF s1(2)] Cons.prems(2) by auto
    have "- {i \<in> set js. is_identity s1 i} \<inter> - {j} = - {i \<in> set (j # js). is_identity st i}"
      using True carries_on_identity [OF s1(3)] by auto
    then show ?thesis using carries_on_trans [OF s1(3) st'(3)] s1(1) st'(1,2) by auto
  qed
qed

lemma RemoveIdentities_ok:
  assumes "graph_ok st" "\<forall>b \<in> set order. b < length (st_blocks st)"
  shows "\<exists>st'. RemoveIdentities order st = Ret st' \<and> graph_ok st' \<and> carries_on st (- {i \<in> insts_in st order. is_identity st i}) st'"
  using assms unfolding RemoveIdentities_def
proof (induction order arbitrary: st)
  case Nil
  then show ?case using carries_on_refl [of st] by (simp add: insts_in_def)
next
  case (Cons b bs)
  have ins: "insts_of (st_blocks st) b = b_insts (st_blocks st ! b)" using Cons.prems(2) by (simp add: insts_of_def)
  have "distinct (insts_of (st_blocks st) b)" using Cons.prems(1) distinct_insts by (auto simp: graph_ok_def dest: ssa_okD(1))
  then obtain s1 where s1: "ofold (remove_identity b) (b_insts (st_blocks st ! b)) st = Ret s1" "graph_ok s1"
    "carries_on st (- {i \<in> set (insts_of (st_blocks st) b). is_identity st i}) s1"
    using remove_list_ok [OF Cons.prems(1), of "insts_of (st_blocks st) b" b] ins by auto
  have len: "length (st_blocks s1) = length (st_blocks st)" using s1(3) by (simp add: carries_on_def)
  obtain st' where st': "ofold (\<lambda>block st. obind (get_block st block) (\<lambda>b. ofold (remove_identity block) (b_insts b) st)) bs s1 = Ret st'"
    "graph_ok st'" "carries_on s1 (- {i \<in> insts_in s1 bs. is_identity s1 i}) st'"
    using Cons.IH [OF s1(2)] Cons.prems(2) len by auto
  have "- {i \<in> insts_in s1 bs. is_identity s1 i} \<inter> - {i \<in> set (insts_of (st_blocks st) b). is_identity st i} =
      - {i \<in> insts_in st (b # bs). is_identity st i}"
    using carries_on_identity [OF s1(3)] carries_on_insts [OF s1(3)] by (auto simp: insts_in_def)
  then show ?case using carries_on_trans [OF s1(3) st'(3)] s1(1) st'(1,2) Cons.prems(2) by (auto simp: get_block_def)
qed

text \<open>
  On a value graph in SSA form, \<open>RemoveIdentities\<close> returns and removes exactly the
  identities of the blocks it is given; the other instructions keep their opcodes and their order
  in the blocks, the result is in SSA form with use lists in step, and for every run of the graph
  there is a run of the result that computes the same values in the same order, those of the
  removed identities left out.
\<close>

theorem remove_identities:
  assumes "uses_ok st" "ssa_ok (st_blocks st) (core st)" "\<forall>b \<in> set order. b < length (st_blocks st)"
    "S = {i. \<not> ((\<exists>b \<in> set order. i \<in> set (insts_of (st_blocks st) b)) \<and> map_option n_opcode (core st i) = Some (Base Identity))}"
  shows "\<exists>st'. RemoveIdentities order st = Ret st' \<and> uses_ok st' \<and> ssa_ok (st_blocks st') (core st') \<and>
    st_blocks st' = restrict_blocks S (st_blocks st) \<and>
    (\<forall>i. map_option n_opcode (core st' i) = (if i \<in> S then map_option n_opcode (core st i) else None)) \<and>
    (\<forall>exact device tr. runs (ir_meaning exact device) (st_blocks st) (core st) tr \<longrightarrow>
       (\<exists>tr'. runs (ir_meaning exact device) (st_blocks st') (core st') tr' \<and> events tr' = filter (kept_event S) (events tr)))"
proof -
  have S: "S = - {i \<in> insts_in st order. is_identity st i}" using assms(4) by (auto simp: insts_in_def is_identity_def)
  obtain st' where st': "RemoveIdentities order st = Ret st'" "graph_ok st'" "carries_on st S st'"
    using RemoveIdentities_ok [of st order] assms(1-3) unfolding S graph_ok_def by blast
  show ?thesis using st' unfolding graph_ok_def carries_on_def by (intro exI [of _ st']) (elim conjE, intro conjI)
qed

lemma remove_identities_witness:
  "\<exists>st'. RemoveIdentities [0] dead_program = Ret st' \<and> uses_ok st' \<and> ssa_ok (st_blocks st') (core st') \<and>
     st_blocks st' = [block_of [0, 1, 2, 4] [] []]"
proof -
  let ?S = "{i. \<not> ((\<exists>b \<in> set [0]. i \<in> set (insts_of (st_blocks dead_program) b)) \<and>
    map_option n_opcode (core dead_program i) = Some (Base Identity))}"
  have "restrict_blocks ?S (st_blocks dead_program) = [block_of [0, 1, 2, 4] [] []]"
    by (simp add: dead_program_def restrict_blocks_def block_of_def insts_of_def core_def inst_at_def inst_of_def)
  then show ?thesis using remove_identities [OF dead_ok refl] by auto
qed

end
