(* ===== verification/ShaderOptimize.thy ===== *)
theory ShaderOptimize
  imports ShaderPasses
begin

text \<open>
  The passes in the order in which \<open>RecompileShader\<close> (\<open>ShaderRecompiler.cpp\<close>) runs them after
  the construction of the SSA form, with the values that the blocks branch on, which are kept
  beside the graph and resolved before the identities go.
\<close>

section \<open>The passes in sequence\<close>

text \<open>
  \<open>ValueBlockInfo\<close> without its terminator, which names no value and is not touched here; an
  empty condition or target is \<open>VVoid\<close>.
\<close>

record value_block_info =
  bi_id :: "32 word"
  bi_start_pc :: "32 word"
  bi_end_pc :: "32 word"
  bi_condition :: ir_value
  bi_indirect_target :: ir_value

definition resolve_info :: "ir_store \<Rightarrow> value_block_info \<Rightarrow> value_block_info outcome" where
  "resolve_info st info = obind (Resolve st (bi_condition info)) (\<lambda>v.
     let info = info\<lparr>bi_condition := v\<rparr> in
     omap (\<lambda>v. info\<lparr>bi_indirect_target := v\<rparr>) (Resolve st (bi_indirect_target info)))"

fun resolve_infos :: "ir_store \<Rightarrow> value_block_info list \<Rightarrow> value_block_info list outcome" where
  "resolve_infos st [] = Ret []"
| "resolve_infos st (info # infos) = obind (resolve_info st info) (\<lambda>info. omap (Cons info) (resolve_infos st infos))"

definition optimize_values :: "nat list \<Rightarrow> value_block_info list \<Rightarrow> ir_store \<Rightarrow> (value_block_info list \<times> ir_store) outcome" where
  "optimize_values blocks infos st = obind (ConstantPropagationPass blocks st) (\<lambda>st.
     obind (resolve_infos st infos) (\<lambda>infos.
     obind (RemoveIdentities blocks st) (\<lambda>st.
     omap (Pair infos) (EliminateDeadCode blocks st))))"

section \<open>What blocks branch on\<close>

text \<open>
  The translation emits a reference to the value that a block branches on, in that block, so that
  the value is not taken for dead code.  After the construction of the SSA form the two are the
  same up to identities.
\<close>

definition referenced :: "ir_store \<Rightarrow> nat \<Rightarrow> ir_value \<Rightarrow> nat \<Rightarrow> bool" where
  "referenced st b v k \<longleftrightarrow> k \<in> set (insts_of (st_blocks st) b) \<and> value_sdom (st_blocks st) v k \<and> watched (core st) v k"

definition branches_on :: "value_block_info \<Rightarrow> ir_value list" where
  "branches_on info = [bi_condition info, bi_indirect_target info]"

text \<open>
  What becomes of a value: a reference to it is there in the same block and names the new value
  itself, and whenever the reference is computed, the two have the same value.
\<close>

definition still_referenced :: "ir_store \<Rightarrow> nat \<Rightarrow> ir_value \<Rightarrow> ir_store \<Rightarrow> ir_value \<Rightarrow> bool" where
  "still_referenced st b v st' v' \<longleftrightarrow> (\<forall>k. referenced st b v k \<longrightarrow>
     k \<in> set (insts_of (st_blocks st') b) \<and> (\<exists>n. core st' k = Some n \<and> n_args n = [v']) \<and>
     (\<forall>device xs from r tr. runs (ir_meaning True device) (st_blocks st) (core st) ((b, xs, from, r) # tr) \<longrightarrow>
        k \<in> set xs \<longrightarrow> val r v' = val r v))"

lemma watched_Resolve:
  assumes g: "graph_ok st" and k: "referenced st b v k"
  shows "\<exists>x. Resolve st v = Ret x \<and> held (core st) x k \<and>
    (\<forall>device xs from r tr. runs (ir_meaning True device) (st_blocks st) (core st) ((b, xs, from, r) # tr) \<longrightarrow> k \<in> set xs \<longrightarrow> val r x = val r v)"
proof -
  let ?bl = "st_blocks st"
  have ok: "ssa_ok ?bl (core st)" using g by (simp add: graph_ok_def)
  have v: "value_sdom ?bl v k" "watched (core st) v k" using k by (simp_all add: referenced_def)
  obtain x where x: "Resolve st v = Ret x" "ends (core st) v x" using Resolve_ends [OF ok live_sdom [OF ok v(1)]] by blast
  then have "held (core st) x k" using v(2) ends_unique unfolding watched_def by metis
  moreover have "val r x = val r v" if run: "runs (ir_meaning True device) ?bl (core st) ((b, xs, from, r) # tr)" "k \<in> set xs" for device xs "from" r tr
  proof -
    obtain ys where ys: "insts_of ?bl b = xs @ ys" using runs_state [OF run(1)] by blast
    have "v = VInst j \<Longrightarrow> j \<in> known ?bl b xs" for j
      using known_closed [OF ssa_okD(1) [OF ok] ys, of k j] v(1) run(2) by (auto simp: value_sdom_def known_def)
    then show ?thesis using ir.chain_val [OF ok run(1)] x(2) by (metis ends_def)
  qed
  ultimately show ?thesis using x(1) by blast
qed

lemma EliminateDeadCode_ok:
  assumes "graph_ok st" "\<forall>b \<in> set order. b < length (st_blocks st)"
  shows "\<exists>st' S. EliminateDeadCode order st = Ret st' \<and> graph_ok st' \<and> shrinks st S st' \<and> (\<forall>i \<in> insts_in st' order. needed st' i)"
proof -
  obtain st' S where "EliminateDeadCode order st = Ret st'" "uses_ok st'" "shrinks st S st'" "\<forall>i \<in> insts_in st' order. needed st' i"
    using EliminateDeadCode_fuel_ok [OF assms, of "Suc (length (st_insts st))"] live_finite(2) [of st]
    by (auto simp: EliminateDeadCode_def simp del: EliminateDeadCode_fuel.simps)
  then show ?thesis using shrinks_graph_ok [OF assms(1)] by blast
qed

lemma shrinks_carries_on:
  assumes "graph_ok st'" "shrinks st S st'"
  shows "carries_on st S st'"
proof -
  have "closed_set S (core st)" using closed_restrict [of st' S st] assms by (simp add: graph_ok_def shrinks_def)
  moreover have "held (core st') x k" if "held (core st) x k" for x k
    using restrict_held [OF that \<open>closed_set S (core st)\<close>] that assms(2) by (auto simp: shrinks_def held_def)
  ultimately show ?thesis using assms(2) runs_restrict [of S "core st"] by (auto simp: carries_on_def shrinks_def restrict_graph_def)
qed


lemma resolve_infos_ok:
  assumes "\<And>info v. info \<in> set infos \<Longrightarrow> v \<in> set (branches_on info) \<Longrightarrow> \<exists>w. Resolve st v = Ret w"
  shows "\<exists>infos'. resolve_infos st infos = Ret infos' \<and> length infos' = length infos \<and>
    (\<forall>b < length infos. resolve_info st (infos ! b) = Ret (infos' ! b))"
  using assms
proof (induction infos)
  case (Cons info infos)
  obtain c where c: "Resolve st (bi_condition info) = Ret c"
    using Cons.prems [of info "bi_condition info"] by (auto simp: branches_on_def)
  obtain t where "Resolve st (bi_indirect_target info) = Ret t"
    using Cons.prems [of info "bi_indirect_target info"] by (auto simp: branches_on_def)
  then obtain info' where "resolve_info st info = Ret info'" using c by (simp add: resolve_info_def Let_def)
  moreover obtain infos' where "resolve_infos st infos = Ret infos'" "length infos' = length infos"
    "\<forall>b < length infos. resolve_info st (infos ! b) = Ret (infos' ! b)"
    using Cons by auto
  ultimately show ?case by (auto simp: nth_Cons split: nat.splits)
qed simp

lemma resolve_info_values:
  assumes "resolve_info st info = Ret info'"
  shows "list_all2 (\<lambda>v w. Resolve st v = Ret w) (branches_on info) (branches_on info')"
    "bi_id info' = bi_id info" "bi_start_pc info' = bi_start_pc info" "bi_end_pc info' = bi_end_pc info"
  using assms by (auto simp: resolve_info_def branches_on_def Let_def obind_Ret_iff omap_Ret_iff)

text \<open>Where no identity is left, a held value is the operand.\<close>

lemma held_operand:
  assumes "held g x k" "\<And>i. map_option n_opcode (g i) \<noteq> Some (Base Identity)"
  shows "\<exists>n. g k = Some n \<and> n_args n = [x]"
proof -
  obtain n a where n: "g k = Some n" "n_args n = [a]" "chain g a x" using assms(1) by (auto simp: held_def ends_def)
  from n(3) have "a = x" by (cases rule: chain.cases) (use assms(2) in \<open>force+\<close>)
  then show ?thesis using n by blast
qed

text \<open>What the three passes do to the graph, with \<open>s1\<close> the graph after constant propagation.\<close>

lemma passes_ok:
  fixes st :: ir_store
  defines "order \<equiv> [0..<length (st_blocks st)]"
  assumes g: "graph_ok st"
  shows "\<exists>s1 s2 s3 S. ConstantPropagationPass order st = Ret s1 \<and> graph_ok s1 \<and> keeps_runs st s1 \<and>
    RemoveIdentities order s1 = Ret s2 \<and> EliminateDeadCode order s2 = Ret s3 \<and> graph_ok s3 \<and> carries_on s1 S s3 \<and>
    (\<forall>i n. core s1 i = Some n \<longrightarrow> HasSideEffects (n_opcode n) \<longrightarrow> i \<in> S) \<and>
    (\<forall>i. \<not> is_identity s3 i) \<and> (\<forall>i n. inst_at s3 i = Some n \<longrightarrow> needed s3 i)"
proof -
  obtain s1 where s1: "ConstantPropagationPass order st = Ret s1" "graph_ok s1" "keeps_runs st s1"
    using ConstantPropagation_ok [OF g, of order] by (auto simp: order_def)
  have b1: "st_blocks s1 = st_blocks st" using s1(3) by (simp add: keeps_runs_def)
  let ?I = "- {i \<in> insts_in s1 order. is_identity s1 i}"
  obtain s2 where s2: "RemoveIdentities order s1 = Ret s2" "graph_ok s2" "carries_on s1 ?I s2"
    using RemoveIdentities_ok [OF s1(2), of order] b1 by (auto simp: order_def)
  have b2: "length (st_blocks s2) = length (st_blocks st)" using s2(3) b1 by (simp add: carries_on_def)
  obtain s3 S where s3: "EliminateDeadCode order s2 = Ret s3" "graph_ok s3" "shrinks s2 S s3" "\<forall>i \<in> insts_in s3 order. needed s3 i"
    using EliminateDeadCode_ok [OF s2(2), of order] b2 by (auto simp: order_def)
  have b3: "length (st_blocks s3) = length (st_blocks st)" using s3(3) b2 by (simp add: shrinks_def)
  have carry: "carries_on s1 (S \<inter> ?I) s3" using carries_on_trans [OF s2(3) shrinks_carries_on [OF s3(2,3)]] .
  have ins: "i \<in> insts_in s order" if "graph_ok s" "core s i = Some n" "length (st_blocks s) = length (st_blocks st)" for s i n
  proof -
    have "ssa_ok (st_blocks s) (core s)" using that(1) by (simp add: graph_ok_def)
    from ssa_okD(4) [OF this that(2)] obtain b where b: "i \<in> set (insts_of (st_blocks s) b)" by blast
    then show ?thesis using insts_of_bound [OF b] that(3) by (auto simp: insts_in_def order_def)
  qed
  have effects: "i \<in> S \<inter> ?I" if e: "core s1 i = Some n" "HasSideEffects (n_opcode n)" for i n
  proof -
    have I: "i \<in> ?I" using e by (auto simp: is_identity_def HasSideEffects_def)
    then have "map_option n_opcode (core s2 i) = Some (n_opcode n)" using s2(3) e(1) by (simp add: carries_on_def)
    then obtain k where "core s2 i = Some k" "n_opcode k = n_opcode n" by auto
    then show ?thesis using I s3(3) e(2) unfolding shrinks_def by (metis IntI)
  qed
  have "\<not> is_identity s3 i" for i
    using carries_on_identity [OF carry, of i] ins [OF s1(2), of i] b1 by (auto simp: is_identity_def)
  moreover have "needed s3 i" if "inst_at s3 i = Some n" for i n
    using ins [OF s3(2), of i] that b3 s3(4) by (auto simp: core_Some)
  ultimately show ?thesis using s1 s2(1) s3(1,2) carry effects
    by (intro exI [of _ s1] exI [of _ s2] exI [of _ s3] exI [of _ "S \<inter> ?I"]) blast
qed

lemma keeps_referenced: "keeps_runs st s1 \<Longrightarrow> referenced st b v k \<Longrightarrow> referenced s1 b v k"
  by (simp add: keeps_runs_def referenced_def)

lemma still_referenced_ok:
  assumes s1: "keeps_runs st s1" "graph_ok s1" and s3: "carries_on s1 S s3" "\<And>i. \<not> is_identity s3 i"
    and v: "Resolve s1 v = Ret x" "v = VVoid \<or> referenced st b v k"
  shows "(v = VVoid \<longrightarrow> x = VVoid) \<and> still_referenced st b v s3 x"
proof -
  have "x = VVoid" if "v = VVoid" using v(1) that by (simp add: Resolve_def)
  moreover have "j \<in> set (insts_of (st_blocks s3) b) \<and> (\<exists>n. core s3 j = Some n \<and> n_args n = [x])"
    if j: "referenced st b v j" for j
  proof -
    have ref: "referenced s1 b v j" by (rule keeps_referenced [OF s1(1) j])
    then have "held (core s1) x j" using watched_Resolve [OF s1(2) ref] v(1) by auto
    then have "held (core s3) x j" using s3(1) by (simp add: carries_on_def)
    from held_operand [OF this s3(2) [unfolded is_identity_def]] obtain n where n: "core s3 j = Some n" "n_args n = [x]" by blast
    then have "j \<in> S" using s3(1) unfolding carries_on_def by (metis option.distinct(1) option.simps(9))
    then show ?thesis using n carries_on_insts [OF s3(1)] ref by (auto simp: referenced_def)
  qed
  moreover have "val r x = val r v" if j: "referenced st b v j" "j \<in> set xs"
    and run: "runs (ir_meaning True device) (st_blocks st) (core st) ((b, xs, from, r) # tr)" for j device xs "from" r tr
  proof -
    have "runs (ir_meaning True device) (st_blocks s1) (core s1) ((b, xs, from, r) # tr)" using s1(1) run by (simp add: keeps_runs_def)
    moreover obtain y where y: "Resolve s1 v = Ret y"
      "\<forall>device xs from r tr. runs (ir_meaning True device) (st_blocks s1) (core s1) ((b, xs, from, r) # tr) \<longrightarrow> j \<in> set xs \<longrightarrow> val r y = val r v"
      using watched_Resolve [OF s1(2) keeps_referenced [OF s1(1) j(1)]] by blast
    moreover have "y = x" using y(1) v(1) by simp
    ultimately show ?thesis using j(2) by blast
  qed
  ultimately show ?thesis by (auto simp: still_referenced_def)
qed

text \<open>
  C9: the sequence of passes that every shader goes through, constant propagation, resolution of
  the values that the blocks branch on, removal of identities and dead code elimination over all
  blocks, returns on any graph in SSA form in which each of those values is empty or has a
  reference in its block, as the translation leaves them.  Nothing is left that is neither used
  nor has a side effect, every instruction with a side effect is kept with its opcode, and every
  run of the graph in which no narrowing conversion to 8 or 16 bits loses bits has a counterpart
  that enters the same blocks and computes the same values in the same order, with some
  instructions left out, on any device.  The value that a block branches on afterwards is empty
  where it was, is the operand of the reference in that block, so that it is a value of the
  graph that is left, and has the value of the one before on every such run.  Runs with lossy
  narrowing are left out because constant propagation changes some of them.
\<close>

theorem optimize_values_keeps_effects:
  assumes "uses_ok st" "ssa_ok (st_blocks st) (core st)"
    "\<forall>b < length infos. \<forall>v \<in> set (branches_on (infos ! b)). v = VVoid \<or> (\<exists>k. referenced st b v k)"
  shows "\<exists>infos' st' S. optimize_values [0..<length (st_blocks st)] infos st = Ret (infos', st') \<and>
    uses_ok st' \<and> ssa_ok (st_blocks st') (core st') \<and>
    (\<forall>i n. core st i = Some n \<and> HasSideEffects (n_opcode n) \<longrightarrow>
       i \<in> S \<and> map_option n_opcode (core st' i) = Some (n_opcode n)) \<and>
    (\<forall>i n. inst_at st' i = Some n \<longrightarrow> n_uses n \<noteq> [] \<or> HasSideEffects (n_opcode n)) \<and>
    (\<forall>device tr. runs (ir_meaning True device) (st_blocks st) (core st) tr \<longrightarrow>
       (\<exists>tr'. runs (ir_meaning True device) (st_blocks st') (core st') tr' \<and> events tr' = filter (kept_event S) (events tr))) \<and>
    length infos' = length infos \<and>
    (\<forall>b < length infos. list_all2 (\<lambda>v v'. (v = VVoid \<longrightarrow> v' = VVoid) \<and> still_referenced st b v st' v')
       (branches_on (infos ! b)) (branches_on (infos' ! b)))"
proof -
  let ?order = "[0..<length (st_blocks st)]"
  have g: "graph_ok st" using assms by (simp add: graph_ok_def)
  obtain s1 s2 s3 S where s1: "ConstantPropagationPass ?order st = Ret s1" "graph_ok s1" "keeps_runs st s1"
    and s2: "RemoveIdentities ?order s1 = Ret s2"
    and s3: "EliminateDeadCode ?order s2 = Ret s3" "graph_ok s3" "carries_on s1 S s3"
      "\<And>i n. core s1 i = Some n \<Longrightarrow> HasSideEffects (n_opcode n) \<Longrightarrow> i \<in> S"
      "\<And>i. \<not> is_identity s3 i" "\<And>i n. inst_at s3 i = Some n \<Longrightarrow> needed s3 i"
    using passes_ok [OF g] by blast
  have known: "v = VVoid \<or> (\<exists>k. referenced st b v k)" if "b < length infos" "v \<in> set (branches_on (infos ! b))" for b v
    using assms(3) that by blast
  have resolved: "\<exists>w. Resolve s1 v = Ret w" if info: "info \<in> set infos" "v \<in> set (branches_on info)" for info v
  proof -
    obtain b where "b < length infos" "info = infos ! b" using info(1) by (metis in_set_conv_nth)
    then consider "v = VVoid" | k where "referenced s1 b v k" using known [of b v] info(2) keeps_referenced [OF s1(3)] by blast
    then show ?thesis using watched_Resolve [OF s1(2)] by cases (simp add: Resolve_def, blast)
  qed
  obtain infos' where infos': "resolve_infos s1 infos = Ret infos'"
    "length infos' = length infos" "\<forall>b < length infos. resolve_info s1 (infos ! b) = Ret (infos' ! b)"
    using resolve_infos_ok [of infos s1] resolved by blast
  have blocks: "list_all2 (\<lambda>v v'. (v = VVoid \<longrightarrow> v' = VVoid) \<and> still_referenced st b v s3 v') (branches_on (infos ! b)) (branches_on (infos' ! b))"
    if b: "b < length infos" for b
    using resolve_info_values(1) [OF infos'(3) [rule_format, OF b]]
    by (rule list.rel_mono_strong) (use known [OF b] still_referenced_ok [OF s1(3,2) s3(3,5)] in blast)
  have effects: "i \<in> S \<and> map_option n_opcode (core s3 i) = Some (n_opcode n)"
    if e: "core st i = Some n" "HasSideEffects (n_opcode n)" for i n
  proof -
    obtain m where m: "core s1 i = Some m" "n_opcode m = n_opcode n" using s1(3) e unfolding keeps_runs_def by blast
    then show ?thesis using s3(3,4) e(2) by (simp add: carries_on_def)
  qed
  have run: "\<exists>tr'. runs (ir_meaning True device) (st_blocks s3) (core s3) tr' \<and> events tr' = filter (kept_event S) (events tr)"
    if "runs (ir_meaning True device) (st_blocks st) (core st) tr" for device tr
    using s1(3) s3(3) that unfolding keeps_runs_def carries_on_def by metis
  have live: "n_uses n \<noteq> [] \<or> HasSideEffects (n_opcode n)" if "inst_at s3 i = Some n" for i n
    using s3(6) [OF that] that by (simp add: needed_def)
  have "optimize_values ?order infos st = Ret (infos', s3)" using s1(1) s2 s3(1) infos'(1) by (simp add: optimize_values_def)
  then show ?thesis using effects live run blocks infos'(2) s3(2)
    by (intro exI [of _ infos'] exI [of _ s3] exI [of _ S]) (simp add: graph_ok_def)
qed

text \<open>The loop branches on the sum with zero, which its reference names; it becomes the value before the loop.\<close>

definition loop_infos :: "value_block_info list" where
  "loop_infos = [\<lparr>bi_id = 0, bi_start_pc = 0, bi_end_pc = 8, bi_condition = VVoid, bi_indirect_target = VVoid\<rparr>,
     \<lparr>bi_id = 1, bi_start_pc = 8, bi_end_pc = 24, bi_condition = VInst 2, bi_indirect_target = VVoid\<rparr>]"

lemma loop_referenced: "referenced loop_program 1 (VInst 2) 3"
proof -
  have c: "core loop_program 3 = Some \<lparr>n_opcode = Base ReferenceU32, n_flags = 0, n_parent = Some 1, n_args = [VInst 2], n_phi_blocks = [], n_uses = []\<rparr>"
    "core loop_program 2 = Some \<lparr>n_opcode = Alu IAdd32, n_flags = 0, n_parent = Some 1, n_args = [VInst 1, VU32 0], n_phi_blocks = [], n_uses = []\<rparr>"
    by (simp_all add: core_def inst_at_def loop_program_def inst_of_def)
  have i: "insts_of (st_blocks loop_program) 1 = [1, 2, 3]" by (simp add: insts_of_def loop_program_def block_of_def)
  have "ends (core loop_program) (VInst 2) (VInst 2)" using c(2) by (simp add: ends_def chain.chain_end)
  then have "watched (core loop_program) (VInst 2) 3" using c(1) by (auto simp: watched_def held_def HasSideEffects_def)
  moreover have "sdom (st_blocks loop_program) 2 3" unfolding sdom_def using i by (intro exI [of _ 1]) (simp add: before_def)
  ultimately show ?thesis using i by (simp add: referenced_def value_sdom_def)
qed

lemma optimize_values_witness:
  "\<exists>infos' st' S tr'. optimize_values [0, 1] loop_infos loop_program = Ret (infos', st') \<and> uses_ok st' \<and> 3 \<in> S \<and>
     map (\<lambda>i. inst_at st' i = None) [0, 1, 2, 3] = [False, True, True, False] \<and>
     map bi_condition infos' = [VVoid, VInst 0] \<and> still_referenced loop_program 1 (VInst 2) st' (VInst 0) \<and>
     runs (ir_meaning True any_device) (st_blocks st') (core st') tr' \<and> events tr' = filter (kept_event S) (events loop_run)"
proof -
  have l: "[0..<length (st_blocks loop_program)] = [0, 1]" by (simp add: loop_program_def upt_rec)
  have infos: "\<forall>b < length loop_infos. \<forall>v \<in> set (branches_on (loop_infos ! b)). v = VVoid \<or> (\<exists>k. referenced loop_program b v k)"
    using loop_referenced by (auto simp: loop_infos_def branches_on_def less_Suc_eq)
  obtain infos' st' S where st': "optimize_values [0, 1] loop_infos loop_program = Ret (infos', st')" "uses_ok st'"
    "\<forall>i n. core loop_program i = Some n \<and> HasSideEffects (n_opcode n) \<longrightarrow> i \<in> S \<and> map_option n_opcode (core st' i) = Some (n_opcode n)"
    "\<forall>device tr. runs (ir_meaning True device) (st_blocks loop_program) (core loop_program) tr \<longrightarrow>
       (\<exists>tr'. runs (ir_meaning True device) (st_blocks st') (core st') tr' \<and> events tr' = filter (kept_event S) (events tr))"
    "\<forall>b < length loop_infos. list_all2 (\<lambda>v v'. (v = VVoid \<longrightarrow> v' = VVoid) \<and> still_referenced loop_program b v st' v')
       (branches_on (loop_infos ! b)) (branches_on (infos' ! b))"
    using optimize_values_keeps_effects [OF loop_uses loop_ssa infos, unfolded l] by blast
  have "core loop_program 3 = Some \<lparr>n_opcode = Base ReferenceU32, n_flags = 0, n_parent = Some 1, n_args = [VInst 2], n_phi_blocks = [], n_uses = []\<rparr>"
    by (simp add: core_def inst_at_def loop_program_def inst_of_def)
  moreover have "HasSideEffects (Base ReferenceU32)" by (simp add: HasSideEffects_def)
  ultimately have "3 \<in> S" using st'(3) [rule_format, of 3] by simp
  moreover obtain tr' where "runs (ir_meaning True any_device) (st_blocks st') (core st') tr'" "events tr' = filter (kept_event S) (events loop_run)"
    using st'(4) loop_runs by blast
  moreover have "case optimize_values [0, 1] loop_infos loop_program of Ret (infos, st) \<Rightarrow>
    map (\<lambda>i. inst_at st i = None) [0, 1, 2, 3] = [False, True, True, False] \<and> map bi_condition infos = [VVoid, VInst 0] | _ \<Rightarrow> False" by code_simp
  then have "map (\<lambda>i. inst_at st' i = None) [0, 1, 2, 3] = [False, True, True, False]" "map bi_condition infos' = [VVoid, VInst 0]"
    using st'(1) by simp_all
  moreover from this(2) have "bi_condition (infos' ! 1) = VInst 0" by (auto simp: map_eq_Cons_conv)
  then have "still_referenced loop_program 1 (VInst 2) st' (VInst 0)"
    using st'(5) [rule_format, of 1] by (simp add: loop_infos_def branches_on_def)
  ultimately show ?thesis using st'(1,2) by (intro exI [of _ infos'] exI [of _ st'] exI [of _ S] exI [of _ tr']) simp
qed

end
