(* ===== verification/MemoryTypes.thy ===== *)
theory MemoryTypes
  imports RangeSet
begin

text \<open>
  The types and helpers at the head of \<open>src/kernel/memory.cpp\<close>: 64-bit sums of addresses,
  the overlap test, names of ranges, protections and aligned positions.

  Addresses and sizes are naturals up to \<open>u64_max\<close>; where the source adds or subtracts
  without a check the wrap-around is written out by \<open>add64\<close> and \<open>sub64\<close>.
\<close>

section \<open>Unsigned 64-bit sums\<close>

definition add64 :: "nat \<Rightarrow> nat \<Rightarrow> nat" where
  "add64 a b = (a + b) mod 2 ^ 64"

definition sub64 :: "nat \<Rightarrow> nat \<Rightarrow> nat" where
  "sub64 a b = (a + (2 ^ 64 - b mod 2 ^ 64)) mod 2 ^ 64"

lemma u64_max_Suc: "2 ^ 64 = Suc u64_max"
  by (simp add: u64_max_def)

lemma add64_id [simp]: "a + b \<le> u64_max \<Longrightarrow> add64 a b = a + b"
  unfolding add64_def u64_max_Suc by (rule mod_less) simp

lemma add64_le [simp]: "add64 a b \<le> u64_max"
  unfolding add64_def u64_max_Suc by (simp add: less_Suc_eq_le [symmetric])

lemma sub64_le [simp]: "sub64 a b \<le> u64_max"
  unfolding sub64_def u64_max_Suc by (simp add: less_Suc_eq_le [symmetric])

lemma sub64_id [simp]: "b \<le> a \<Longrightarrow> a \<le> u64_max \<Longrightarrow> sub64 a b = a - b"
proof -
  assume a: "b \<le> a" "a \<le> u64_max"
  then have "b mod 2 ^ 64 = b" unfolding u64_max_Suc by simp
  moreover have "a + (Suc u64_max - b) = (a - b) + Suc u64_max" using a by simp
  ultimately have "sub64 a b = ((a - b) + Suc u64_max) mod Suc u64_max"
    unfolding sub64_def u64_max_Suc by (simp only:)
  also have "\<dots> = (a - b) mod Suc u64_max" by (rule mod_add_self2)
  also have "\<dots> = a - b" using a by (intro mod_less) simp
  finally show ?thesis .
qed

section \<open>Ranges, their types and names\<close>

definition VirtualRangesOverlap :: "nat \<Rightarrow> nat \<Rightarrow> nat \<Rightarrow> nat \<Rightarrow> bool" where
  "VirtualRangesOverlap left_start left_size right_start right_size =
     (if left_size = 0 \<or> right_size = 0 then False
      else
        let left_end = (if u64_max - left_start < left_size then u64_max else left_start + left_size);
            right_end = (if u64_max - right_start < right_size then u64_max
                         else right_start + right_size) in
        left_start < right_end \<and> right_start < left_end)"

lemma VirtualRangesOverlap_iff:
  "a + n \<le> u64_max \<Longrightarrow> b + m \<le> u64_max \<Longrightarrow>
   VirtualRangesOverlap a n b m \<longleftrightarrow> {a..<a + n} \<inter> {b..<b + m} \<noteq> {}"
proof -
  assume "a + n \<le> u64_max" "b + m \<le> u64_max"
  then have "VirtualRangesOverlap a n b m \<longleftrightarrow> 0 < n \<and> 0 < m \<and> a < b + m \<and> b < a + n"
    by (auto simp: VirtualRangesOverlap_def Let_def)
  also have "\<dots> \<longleftrightarrow> max a b \<in> {a..<a + n} \<inter> {b..<b + m}"
    by (auto simp: max_def)
  also have "\<dots> \<longleftrightarrow> {a..<a + n} \<inter> {b..<b + m} \<noteq> {}"
    by (auto simp: max_def)
  finally show ?thesis .
qed

datatype VirtualRangeType =
  Reserved | PoolReserved | Direct | Flexible | Pooled | Stack | Code | Runtime

definition IsReservedRangeType :: "VirtualRangeType \<Rightarrow> bool" where
  "IsReservedRangeType t \<longleftrightarrow> t = Reserved \<or> t = PoolReserved"

definition IsPooledRangeType :: "VirtualRangeType \<Rightarrow> bool" where
  "IsPooledRangeType t \<longleftrightarrow> t = Pooled \<or> t = PoolReserved"

definition IsCommittedRangeType :: "VirtualRangeType \<Rightarrow> bool" where
  "IsCommittedRangeType t \<longleftrightarrow> \<not> IsReservedRangeType t"

definition IsPrivateCommittedRangeType :: "VirtualRangeType \<Rightarrow> bool" where
  "IsPrivateCommittedRangeType t \<longleftrightarrow> t = Stack \<or> t = Code \<or> t = Runtime"

text \<open>
  A name is a buffer of 32 characters padded with zeros: the string before the first zero.
  A null pointer is \<open>None\<close>; \<open>strncpy\<close> leaves room for the terminator.
\<close>

definition KERNEL_MAXIMUM_NAME_LENGTH :: nat where
  "KERNEL_MAXIMUM_NAME_LENGTH = 32"

definition CopyVirtualRangeName :: "string option \<Rightarrow> string" where
  "CopyVirtualRangeName name =
     (case name of None \<Rightarrow> []
      | Some s \<Rightarrow> take (KERNEL_MAXIMUM_NAME_LENGTH - 1) (takeWhile (\<lambda>c. c \<noteq> CHR 0x00) s))"

definition name_ok :: "string \<Rightarrow> bool" where
  "name_ok s \<longleftrightarrow> length s < KERNEL_MAXIMUM_NAME_LENGTH \<and> CHR 0x00 \<notin> set s"

lemma CopyVirtualRangeName_ok [simp]: "name_ok (CopyVirtualRangeName name)"
  by (auto simp: CopyVirtualRangeName_def name_ok_def KERNEL_MAXIMUM_NAME_LENGTH_def
      split: option.splits dest: in_set_takeD set_takeWhileD)

lemma CopyVirtualRangeName_id: "name_ok s \<Longrightarrow> CopyVirtualRangeName (Some s) = s"
proof -
  assume s: "name_ok s"
  then have tw: "takeWhile (\<lambda>c. c \<noteq> CHR 0x00) s = s"
    by (auto simp: name_ok_def intro!: takeWhile_eq_all_conv [THEN iffD2])
  have "length s \<le> KERNEL_MAXIMUM_NAME_LENGTH - 1"
    using s unfolding name_ok_def by linarith
  then show ?thesis by (simp only: CopyVirtualRangeName_def option.case tw take_all)
qed

section \<open>Protections\<close>

text \<open>An \<open>int\<close> that carries protection bits is its 32-bit pattern.\<close>

definition PROT_CPU_READ :: u32 where "PROT_CPU_READ = 0x01"
definition PROT_CPU_WRITE :: u32 where "PROT_CPU_WRITE = 0x02"
definition PROT_CPU_EXEC :: u32 where "PROT_CPU_EXEC = 0x04"
definition PROT_GPU_READ :: u32 where "PROT_GPU_READ = 0x10"
definition PROT_GPU_WRITE :: u32 where "PROT_GPU_WRITE = 0x20"

lemmas prot_defs = PROT_CPU_READ_def PROT_CPU_WRITE_def PROT_CPU_EXEC_def PROT_GPU_READ_def
  PROT_GPU_WRITE_def

datatype GpuAccessMode = Gpu_NoAccess | Gpu_Read | Gpu_Write | Gpu_ReadWrite

datatype Mode =
  Mode_NoAccess | Mode_Read | Mode_Write | Mode_ReadWrite | Mode_Execute | Mode_ExecuteRead
| Mode_ExecuteWrite | Mode_ExecuteReadWrite

definition DecodeMemoryProtection :: "u32 \<Rightarrow> (Mode \<times> GpuAccessMode) option" where
  "DecodeMemoryProtection prot =
     (let cpu_read = prot AND PROT_CPU_READ \<noteq> 0;
          cpu_write = prot AND PROT_CPU_WRITE \<noteq> 0;
          cpu_exec = prot AND PROT_CPU_EXEC \<noteq> 0;
          gpu_read = prot AND PROT_GPU_READ \<noteq> 0;
          gpu_write = prot AND PROT_GPU_WRITE \<noteq> 0 in
      if prot AND (PROT_CPU_READ OR PROT_CPU_WRITE OR PROT_CPU_EXEC OR PROT_GPU_READ
           OR PROT_GPU_WRITE) = 0 \<and> prot \<noteq> 0 then None
      else
        let gpu_mode = (if gpu_read \<and> gpu_write then Gpu_ReadWrite
                        else if gpu_read then Gpu_Read
                        else if gpu_write then Gpu_Write
                        else Gpu_NoAccess);
            host_read = (cpu_read \<or> gpu_read);
            host_write = (cpu_write \<or> gpu_write);
            host_read = (if host_write then True else host_read);
            mode = (if cpu_exec then
                      (if host_write then Mode_ExecuteReadWrite
                       else if host_read then Mode_ExecuteRead
                       else Mode_Execute)
                    else if host_write then Mode_ReadWrite
                    else if host_read then Mode_Read
                    else Mode_NoAccess) in
        Some (mode, gpu_mode))"

section \<open>Aligned positions\<close>

text \<open>\<open>None\<close> is the result with \<open>valid\<close> false; the alignment need not be a power of two.\<close>

definition GetAlignedPos :: "nat \<Rightarrow> nat \<Rightarrow> nat option" where
  "GetAlignedPos pos alignment =
     (if alignment = 0 then Some pos
      else
        let remainder = pos mod alignment;
            increment = (if remainder \<noteq> 0 then alignment - remainder else 0) in
        if increment > u64_max - pos then None else Some (pos + increment))"

definition aligned_to :: "nat \<Rightarrow> nat \<Rightarrow> bool" where
  "aligned_to alignment a \<longleftrightarrow> alignment = 0 \<or> alignment dvd a"

text \<open>The aligned position is the least aligned address from the position on, if it fits.\<close>

lemma align_up:
  fixes pos alignment :: nat
  assumes "0 < alignment"
  defines "up \<equiv> pos + (if pos mod alignment \<noteq> 0 then alignment - pos mod alignment else 0)"
  shows "pos \<le> up" "alignment dvd up" "\<And>a. pos \<le> a \<Longrightarrow> alignment dvd a \<Longrightarrow> up \<le> a"
proof -
  show "pos \<le> up" by (simp add: up_def)
  have pos: "pos = pos div alignment * alignment + pos mod alignment" by simp
  have lt: "pos mod alignment < alignment" using assms(1) by simp
  have up: "up = (if pos mod alignment \<noteq> 0 then (pos div alignment + 1) * alignment
      else pos div alignment * alignment)"
  proof (cases "pos mod alignment = 0")
    case False
    with lt have "up = pos - pos mod alignment + alignment" by (simp add: up_def)
    also have "pos - pos mod alignment = pos div alignment * alignment"
      by (rule minus_mod_eq_div_mult)
    finally show ?thesis using False by simp
  next
    case True
    then show ?thesis using pos by (simp add: up_def)
  qed
  then show "alignment dvd up" by simp
  fix a assume a: "pos \<le> a" "alignment dvd a"
  then obtain k where k: "a = alignment * k" by (auto elim: dvdE)
  show "up \<le> a"
  proof (cases "pos mod alignment = 0")
    case True
    then show ?thesis using a(1) by (simp add: up_def)
  next
    case False
    have "pos div alignment < k"
    proof (rule ccontr)
      assume "\<not> pos div alignment < k"
      then have "a \<le> pos div alignment * alignment" by (simp add: k mult.commute)
      moreover have "pos div alignment * alignment < pos"
        using pos False by (metis less_add_same_cancel1 neq0_conv)
      ultimately show False using a(1) by simp
    qed
    then have "(pos div alignment + 1) * alignment \<le> k * alignment"
      by (intro mult_right_mono) auto
    then show ?thesis using False by (simp add: up k mult.commute)
  qed
qed

lemma GetAlignedPos_Some:
  assumes "GetAlignedPos pos alignment = Some p"
  shows "pos \<le> p" "aligned_to alignment p" "\<And>a. pos \<le> a \<Longrightarrow> aligned_to alignment a \<Longrightarrow> p \<le> a"
proof -
  have "pos \<le> p \<and> aligned_to alignment p \<and> (\<forall>a. pos \<le> a \<longrightarrow> aligned_to alignment a \<longrightarrow> p \<le> a)"
  proof (cases "alignment = 0")
    case True
    then show ?thesis using assms by (simp add: GetAlignedPos_def aligned_to_def)
  next
    case False
    then have "p = pos + (if pos mod alignment \<noteq> 0 then alignment - pos mod alignment else 0)"
      using assms unfolding GetAlignedPos_def Let_def
      by (simp only: if_False option.inject split: if_splits)
        (simp_all only: option.distinct option.inject if_True if_False simp_thms)
    with align_up [of alignment pos] False show ?thesis by (simp only: aligned_to_def) simp
  qed
  then show "pos \<le> p" "aligned_to alignment p"
    "\<And>a. pos \<le> a \<Longrightarrow> aligned_to alignment a \<Longrightarrow> p \<le> a" by blast+
qed

lemma GetAlignedPos_None:
  assumes "GetAlignedPos pos alignment = None" "pos \<le> a" "aligned_to alignment a"
  shows "u64_max < a"
proof -
  have al: "alignment \<noteq> 0" and inc: "(if pos mod alignment \<noteq> 0 then alignment - pos mod alignment else 0)
      > u64_max - pos"
    using assms(1) by (auto simp: GetAlignedPos_def Let_def split: if_splits)
  from align_up(3) [of alignment pos a] al assms(2,3)
  have "pos + (if pos mod alignment \<noteq> 0 then alignment - pos mod alignment else 0) \<le> a"
    by (simp add: aligned_to_def)
  with inc show ?thesis by linarith
qed

definition IsAligned :: "u64 \<Rightarrow> u64 \<Rightarrow> bool" where
  "IsAligned v alignment \<longleftrightarrow> alignment = 0 \<or> v AND (alignment - 1) = 0"

definition IsPowerOfTwo :: "u64 \<Rightarrow> bool" where
  "IsPowerOfTwo v \<longleftrightarrow> v \<noteq> 0 \<and> v AND (v - 1) = 0"

definition IsGpuAddressRange :: "nat \<Rightarrow> nat \<Rightarrow> bool" where
  "IsGpuAddressRange vaddr sz \<longleftrightarrow>
     vaddr \<noteq> 0 \<and> sz \<noteq> 0 \<and> vaddr < 2 ^ 40 \<and> sz < 2 ^ 40 - vaddr"

end
