(* ===== verification/FreeRanges.thy ===== *)
theory FreeRanges
  imports MemoryTypes
begin

text \<open>
  The free map that \<open>PhysicalMemory\<close> and \<open>FlexibleMemory\<close> of \<open>src/kernel/memory.cpp\<close> keep:
  a \<open>std::map\<close> from the start of each free range to its size, with the two operations both
  classes declare with the same text. An entry is a pair of start and size.
\<close>

type_synonym free_map = "(nat \<times> nat) list"

definition map_erase :: "nat \<Rightarrow> (nat \<times> 'v) list \<Rightarrow> (nat \<times> 'v) list" where
  "map_erase k m = filter (\<lambda>p. fst p \<noteq> k) m"

definition ConsumeFreeRange :: "free_map \<Rightarrow> nat \<times> nat \<Rightarrow> nat \<Rightarrow> nat \<Rightarrow> free_map" where
  "ConsumeFreeRange m r start sz =
     (let range_start = fst r;
          range_end = add64 (fst r) (snd r);
          m = map_erase range_start m;
          m = (if range_start < start then map_emplace range_start (start - range_start) m else m) in
      if add64 start sz < range_end
      then map_emplace (add64 start sz) (sub64 (sub64 range_end start) sz) m
      else m)"

fun free_merge_loop :: "nat \<Rightarrow> free_map \<Rightarrow> nat \<times> free_map" where
  "free_merge_loop fin [] = (fin, [])"
| "free_merge_loop fin ((s, n) # it) =
     (if s \<le> fin then free_merge_loop (max fin (add64 s n)) it else (fin, (s, n) # it))"

definition AddFreeRange :: "free_map \<Rightarrow> nat \<Rightarrow> nat \<Rightarrow> free_map" where
  "AddFreeRange m start sz =
     (let fin = add64 start sz;
          (before, it) = lower_split start m;
          (start, fin, before) =
            (if before \<noteq> [] \<and> add64 (fst (last before)) (snd (last before)) \<ge> start
             then (fst (last before), max fin (add64 (fst (last before)) (snd (last before))),
               butlast before)
             else (start, fin, before));
          (fin, it) = free_merge_loop fin it in
      map_emplace start (sub64 fin start) (before @ it))"

lemma sorted_wrt_cases:
  "sorted_wrt P xs \<Longrightarrow> x \<in> set xs \<Longrightarrow> y \<in> set xs \<Longrightarrow> x = y \<or> P x y \<or> P y x"
  by (induction xs) auto

section \<open>The set of free bytes\<close>

definition free_bytes :: "free_map \<Rightarrow> nat set" where
  "free_bytes m = (\<Union>(s, n) \<in> set m. {s..<s + n})"

text \<open>Every free range is non-empty, and between two neighbours a byte is missing.\<close>

definition free_inv :: "free_map \<Rightarrow> bool" where
  "free_inv m \<longleftrightarrow> (\<forall>(s, n) \<in> set m. 0 < n \<and> s + n \<le> u64_max) \<and>
     sorted_wrt (\<lambda>p q. fst p + snd p < fst q) m"

lemma free_bytes_simps [simp]:
  "free_bytes [] = {}" "free_bytes ((s, n) # m) = {s..<s + n} \<union> free_bytes m"
  "free_bytes (m @ m') = free_bytes m \<union> free_bytes m'"
  by (auto simp: free_bytes_def)

lemma free_inv_simps [simp]:
  "free_inv []"
  "free_inv ((s, n) # m) \<longleftrightarrow> 0 < n \<and> s + n \<le> u64_max \<and> (\<forall>q \<in> set m. s + n < fst q) \<and> free_inv m"
  "free_inv (m @ m') \<longleftrightarrow>
     free_inv m \<and> free_inv m' \<and> (\<forall>p \<in> set m. \<forall>q \<in> set m'. fst p + snd p < fst q)"
  by (auto simp: free_inv_def sorted_wrt_append)

lemma free_inv_entry: "free_inv m \<Longrightarrow> (s, n) \<in> set m \<Longrightarrow> 0 < n \<and> s + n \<le> u64_max"
  by (auto simp: free_inv_def)

lemma free_inv_sorted: "free_inv m \<Longrightarrow> sorted_wrt (\<lambda>p q. fst p < fst q) m"
  unfolding free_inv_def by (auto elim!: sorted_wrt_mono_rel [rotated])

text \<open>Emplacing between the entries before and behind a key.\<close>

lemma map_emplace_split:
  assumes "\<forall>p \<in> set before. fst p < k" "\<forall>p \<in> set rest. k < fst p"
  shows "map_emplace k v (before @ rest) = before @ (k, v) # rest"
  using assms
proof (induction before)
  case Nil
  then show ?case by (cases rest) auto
qed auto

lemma split_sorted:
  assumes "sorted_wrt (\<lambda>p q. fst p < fst q) m" and mono: "\<And>x y. x < y \<Longrightarrow> P y \<Longrightarrow> P x"
  shows "\<forall>p \<in> set (dropWhile (\<lambda>p. P (fst p)) m). \<not> P (fst p)"
  using assms(1)
proof (induction m)
  case (Cons x m)
  show ?case
  proof (cases "P (fst x)")
    case False
    then have "\<not> P (fst y)" if "y \<in> set m" for y
      using Cons.prems mono that by auto
    with False show ?thesis by auto
  next
    case True
    then have "dropWhile (\<lambda>p. P (fst p)) (x # m) = dropWhile (\<lambda>p. P (fst p)) m" by simp
    moreover have "sorted_wrt (\<lambda>p q. fst p < fst q) m" using Cons.prems by simp
    ultimately show ?thesis using Cons.IH by metis
  qed
qed simp

lemma lower_split_parts:
  assumes "sorted_wrt (\<lambda>p q. fst p < fst q) m" "lower_split a m = (before, it)"
  shows "m = before @ it" "\<forall>p \<in> set before. fst p < a" "\<forall>p \<in> set it. a \<le> fst p"
proof -
  from assms(2) have s: "takeWhile (\<lambda>p. fst p < a) m = before" "dropWhile (\<lambda>p. fst p < a) m = it"
    by (simp_all add: lower_split_def)
  show "m = before @ it" using s by (metis takeWhile_dropWhile_id)
  show "\<forall>p \<in> set before. fst p < a" using s(1) by (auto dest: set_takeWhileD)
  have "\<forall>p \<in> set (dropWhile (\<lambda>p. fst p < a) m). \<not> fst p < a"
    by (rule split_sorted [OF assms(1)]) (rule less_trans)
  then show "\<forall>p \<in> set it. a \<le> fst p" by (simp add: s(2) not_less)
qed

lemma upper_split_parts:
  assumes "sorted_wrt (\<lambda>p q. fst p < fst q) m" "upper_split a m = (before, it)"
  shows "m = before @ it" "\<forall>p \<in> set before. fst p \<le> a" "\<forall>p \<in> set it. a < fst p"
proof -
  from assms(2) have s: "takeWhile (\<lambda>p. fst p \<le> a) m = before" "dropWhile (\<lambda>p. fst p \<le> a) m = it"
    by (simp_all add: upper_split_def)
  show "m = before @ it" using s by (metis takeWhile_dropWhile_id)
  show "\<forall>p \<in> set before. fst p \<le> a" using s(1) by (auto dest: set_takeWhileD)
  have "\<forall>p \<in> set (dropWhile (\<lambda>p. fst p \<le> a) m). \<not> fst p \<le> a"
    by (rule split_sorted [OF assms(1)]) (rule order.strict_implies_order [THEN le_trans])
  then show "\<forall>p \<in> set it. a < fst p" by (simp add: s(2) not_le)
qed

section \<open>Taking and giving back bytes\<close>

lemma ConsumeFreeRange_split:
  assumes inv: "free_inv (pre @ (s, n) # post)" and r: "s \<le> a" "0 < k" "a + k \<le> s + n"
  shows "ConsumeFreeRange (pre @ (s, n) # post) (s, n) a k =
    pre @ (if s < a then [(s, a - s)] else []) @
      (if a + k < s + n then [(a + k, s + n - (a + k))] else []) @ post"
proof -
  have b: "s + n \<le> u64_max" "a + k \<le> u64_max" and post: "\<forall>q \<in> set post. s + n < fst q"
    and gap: "\<forall>p \<in> set pre. fst p + snd p < s"
    using inv r by simp_all
  have pre: "\<forall>p \<in> set pre. fst p < s" using gap add_lessD1 by blast
  have "filter (\<lambda>p. fst p \<noteq> s) pre = pre" "filter (\<lambda>p. fst p \<noteq> s) post = post"
    using pre post by (auto intro!: filter_True)
  then have e: "map_erase s (pre @ (s, n) # post) = pre @ post"
    by (simp add: map_erase_def)
  have sub: "sub64 (sub64 (s + n) a) k = s + n - (a + k)"
    using r b by simp
  let ?left = "if s < a then [(s, a - s)] else []"
  have l: "(if s < a then map_emplace s (a - s) (pre @ post) else pre @ post) = (pre @ ?left) @ post"
  proof -
    have "\<forall>q \<in> set post. s < fst q" using post add_lessD1 by blast
    from map_emplace_split [OF pre this] show ?thesis by simp
  qed
  have "\<forall>p \<in> set (pre @ ?left). fst p < a + k" using pre r by auto
  moreover have "\<forall>p \<in> set post. a + k < fst p" using post r(3) le_less_trans by blast
  ultimately have "map_emplace (a + k) v ((pre @ ?left) @ post) = (pre @ ?left) @ (a + k, v) # post" for v
    by (rule map_emplace_split)
  then show ?thesis
    using b unfolding ConsumeFreeRange_def Let_def e fst_conv snd_conv l by (simp add: sub)
qed

lemma ConsumeFreeRange_ok:
  assumes inv: "free_inv m" and r: "(s, n) \<in> set m" "s \<le> a" "0 < k" "a + k \<le> s + n"
  shows "free_inv (ConsumeFreeRange m (s, n) a k)"
    and "free_bytes (ConsumeFreeRange m (s, n) a k) = free_bytes m - {a..<a + k}"
proof -
  obtain pre post where m: "m = pre @ (s, n) # post"
    using r(1) by (meson split_list)
  note eq = ConsumeFreeRange_split [OF inv [unfolded m] r(2-4), folded m]
  from inv m have i: "free_inv pre" "free_inv post" "\<forall>q \<in> set post. s + n < fst q"
    "\<forall>p \<in> set pre. fst p + snd p < s" "\<forall>p \<in> set pre. \<forall>q \<in> set post. fst p + snd p < fst q"
    "s + n \<le> u64_max"
    by simp_all
  show "free_inv (ConsumeFreeRange m (s, n) a k)"
  proof -
    have "\<forall>p \<in> set pre. \<forall>q \<in> set (if s < a then [(s, a - s)] else []). fst p + snd p < fst q"
      using i(4) by simp
    moreover have "\<forall>p \<in> set pre. fst p + snd p < a + k" using i(4) r(2) by fastforce
    moreover have "\<forall>q \<in> set post. a < fst q" using i(3) r(3,4) by fastforce
    ultimately show ?thesis
      unfolding eq using i r by (simp del: set_simps) simp
  qed
  have "x \<notin> {a..<a + k}" if "x \<in> free_bytes pre" for x
    using i(4) r(2) that unfolding free_bytes_def by fastforce
  moreover have "x \<notin> {a..<a + k}" if "x \<in> free_bytes post" for x
    using i(3) r(4) that unfolding free_bytes_def by fastforce
  moreover have "{s..<s + n} - {a..<a + k} =
      (if s < a then {s..<a} else {}) \<union> (if a + k < s + n then {a + k..<s + n} else {})"
    using r by auto
  ultimately have "free_bytes (pre @ (s, n) # post) - {a..<a + k} = free_bytes pre \<union>
      ((if s < a then {s..<a} else {}) \<union> (if a + k < s + n then {a + k..<s + n} else {})) \<union> free_bytes post"
    unfolding free_bytes_simps by blast
  then show "free_bytes (ConsumeFreeRange m (s, n) a k) = free_bytes m - {a..<a + k}"
    unfolding eq using m r by (simp add: Un_assoc)
qed

lemma free_merge_loop_ok:
  assumes "free_inv it" "lo < fin" "fin \<le> u64_max" "free_merge_loop fin it = (fin', rest)"
    "\<forall>q \<in> set it. lo \<le> fst q"
  shows "fin \<le> fin'" "fin' \<le> u64_max" "free_inv rest" "\<forall>q \<in> set rest. fin' < fst q"
    "{lo..<fin'} \<union> free_bytes rest = {lo..<fin} \<union> free_bytes it"
proof -
  have "fin \<le> fin' \<and> fin' \<le> u64_max \<and> free_inv rest \<and> (\<forall>q \<in> set rest. fin' < fst q) \<and>
    {lo..<fin'} \<union> free_bytes rest = {lo..<fin} \<union> free_bytes it"
    using assms
  proof (induction fin it rule: free_merge_loop.induct)
    case (2 fin s n it)
    show ?case
    proof (cases "s \<le> fin")
      case True
      have b: "0 < n" "s + n \<le> u64_max" "\<forall>q \<in> set it. s + n < fst q" "free_inv it" "lo \<le> s"
        using 2(2,6) by auto
      have "lo < max fin (s + n)" "max fin (s + n) \<le> u64_max" "\<forall>q \<in> set it. lo \<le> fst q"
        using 2(3,4,6) b by auto
      moreover have "free_merge_loop (max fin (s + n)) it = (fin', rest)"
        using 2(5) True b(2) by simp
      ultimately have IH: "max fin (s + n) \<le> fin' \<and> fin' \<le> u64_max \<and> free_inv rest \<and>
        (\<forall>q \<in> set rest. fin' < fst q) \<and>
        {lo..<fin'} \<union> free_bytes rest = {lo..<max fin (s + n)} \<union> free_bytes it"
        using 2(1) [OF True b(4)] b(2) by simp
      moreover have "{lo..<max fin (s + n)} = {lo..<fin} \<union> {s..<s + n}"
        using True 2(3) b by (auto simp: max_def)
      ultimately show ?thesis by (simp add: Un_assoc)
    next
      case False
      then have "fin' = fin" "rest = (s, n) # it" using 2(5) by auto
      moreover have "\<forall>q \<in> set ((s, n) # it). fin < fst q"
        using False 2(2) by (fastforce intro: less_trans)
      ultimately show ?thesis using 2(2,4) by simp
    qed
  qed auto
  then show "fin \<le> fin'" "fin' \<le> u64_max" "free_inv rest" "\<forall>q \<in> set rest. fin' < fst q"
    "{lo..<fin'} \<union> free_bytes rest = {lo..<fin} \<union> free_bytes it" by blast+
qed

text \<open>The last entry before an address ends after every other one before it.\<close>

lemma free_inv_last:
  assumes "free_inv m" "p \<in> set (butlast m)"
  shows "fst p + snd p < fst (last m)"
proof -
  have "m \<noteq> []" using assms(2) by auto
  then have "free_inv (butlast m @ [last m])" using assms(1) by simp
  with assms(2) show ?thesis unfolding free_inv_simps(3) by simp
qed

lemma AddFreeRange_ok:
  assumes inv: "free_inv m" and k: "0 < k" "a + k \<le> u64_max"
  shows "free_inv (AddFreeRange m a k) \<and> free_bytes (AddFreeRange m a k) = free_bytes m \<union> {a..<a + k}"
proof -
  obtain before it where s: "lower_split a m = (before, it)" by (cases "lower_split a m")
  note parts = lower_split_parts [OF free_inv_sorted [OF inv] s]
  have m: "m = before @ it" and ib: "free_inv before" "free_inv it"
    and gap: "\<forall>p \<in> set before. \<forall>q \<in> set it. fst p + snd p < fst q"
    using parts(1) inv by auto
  define joins where "joins \<longleftrightarrow> before \<noteq> [] \<and> fst (last before) + snd (last before) \<ge> a"
  define lo where "lo = (if joins then fst (last before) else a)"
  define hi where "hi = (if joins then max (a + k) (fst (last before) + snd (last before)) else a + k)"
  define pre where "pre = (if joins then butlast before else before)"
  obtain fin rest where ml: "free_merge_loop hi it = (fin, rest)" by (cases "free_merge_loop hi it")
  have last: "fst (last before) + snd (last before) \<le> u64_max" "0 < snd (last before)"
    "fst (last before) < a" if "before \<noteq> []"
    using free_inv_entry [OF ib(1), of "fst (last before)" "snd (last before)"] that parts(2) by auto
  have lohi: "lo < hi" "hi \<le> u64_max" "lo \<le> a" "a + k \<le> hi"
    using k last by (auto simp: lo_def hi_def joins_def)
  have "\<forall>q \<in> set it. lo \<le> fst q" using parts(3) lohi(3) by fastforce
  note fin = free_merge_loop_ok [OF ib(2) lohi(1,2) ml this]
  have pre: "\<forall>p \<in> set pre. fst p + snd p < lo"
  proof (cases joins)
    case False
    have "fst p + snd p < a" if p: "p \<in> set before" for p
    proof -
      have ne: "before \<noteq> []" using p by auto
      then have "p \<in> set (butlast before) \<or> p = last before"
        using p by (metis append_butlast_last_id in_set_conv_decomp set_append Un_iff set_ConsD
            empty_iff empty_set)
      then show ?thesis
        using free_inv_last [OF ib(1)] last(3) False ne by (fastforce simp: joins_def)
    qed
    then show ?thesis using False by (simp add: pre_def lo_def)
  qed (use free_inv_last [OF ib(1)] in \<open>simp add: pre_def lo_def\<close>)
  have ipre: "free_inv pre"
  proof (cases joins)
    case True
    then have "before = butlast before @ [last before]" by (simp add: joins_def)
    with ib(1) have "free_inv (butlast before)" by (metis free_inv_simps(3))
    with True show ?thesis by (simp add: pre_def)
  qed (use ib(1) in \<open>simp add: pre_def\<close>)
  have eq: "AddFreeRange m a k = pre @ (lo, fin - lo) # rest"
  proof -
    have "\<forall>p \<in> set pre. fst p < lo" "\<forall>p \<in> set rest. lo < fst p"
      using pre fin(1,4) lohi(1) by fastforce+
    from map_emplace_split [OF this, of "fin - lo"]
    have em: "map_emplace lo (fin - lo) (pre @ rest) = pre @ (lo, fin - lo) # rest" .
    have "AddFreeRange m a k = map_emplace lo (sub64 fin lo) (pre @ rest)"
    proof (cases joins)
      case True
      then have j: "before \<noteq> []" "a \<le> fst (last before) + snd (last before)"
        and v: "lo = fst (last before)" "hi = max (a + k) (fst (last before) + snd (last before))"
          "pre = butlast before"
        by (simp_all add: joins_def lo_def hi_def pre_def)
      show ?thesis
        using j last(1) [OF j(1)] k(2) ml by (simp add: AddFreeRange_def s v)
    next
      case False
      then have v: "lo = a" "hi = a + k" "pre = before"
        by (simp_all add: lo_def hi_def pre_def)
      from False have "\<not> (before \<noteq> [] \<and> add64 (fst (last before)) (snd (last before)) \<ge> a)"
        using last(1) by (auto simp: joins_def)
      then show ?thesis
        using k(2) ml unfolding AddFreeRange_def s v Let_def
        by (simp only: prod.case if_False add64_id simp_thms)
    qed
    also have "sub64 fin lo = fin - lo" using fin(1,2) lohi(1) by simp
    finally show ?thesis using em by simp
  qed
  have "free_bytes before = free_bytes pre \<union> (if joins then {lo..<fst (last before) + snd (last before)} else {})"
  proof (cases joins)
    case True
    then have "free_bytes before = free_bytes (butlast before @ [last before])" by (simp add: joins_def)
    also have "\<dots> = free_bytes (butlast before) \<union> {fst (last before)..<fst (last before) + snd (last before)}"
      unfolding free_bytes_simps(3) by (simp add: free_bytes_def case_prod_beta)
    finally show ?thesis using True by (simp add: pre_def lo_def)
  qed (simp add: pre_def)
  moreover have "{lo..<hi} = {a..<a + k} \<union> (if joins then {lo..<fst (last before) + snd (last before)} else {})"
    using lohi last by (auto simp: lo_def hi_def joins_def max_def)
  moreover have "lo + (fin - lo) = fin" using lohi(1) fin(1) by simp
  then have "free_bytes (AddFreeRange m a k) = free_bytes pre \<union> ({lo..<fin} \<union> free_bytes rest)"
    unfolding eq free_bytes_simps by simp
  ultimately have "free_bytes (AddFreeRange m a k) = free_bytes m \<union> {a..<a + k}"
    unfolding fin(5) m free_bytes_simps(3) by blast
  moreover have "free_inv (AddFreeRange m a k)"
  proof -
    have "\<forall>q \<in> set rest. lo < fst q" using fin(1,4) lohi(1) by fastforce
    then have "\<forall>p \<in> set pre. \<forall>q \<in> set rest. fst p + snd p < fst q"
      using pre less_trans by blast
    with pre have "\<forall>p \<in> set pre. \<forall>q \<in> set ((lo, fin - lo) # rest). fst p + snd p < fst q" by simp
    moreover have "free_inv ((lo, fin - lo) # rest)" using fin(1-4) lohi(1) by simp
    ultimately show ?thesis unfolding eq free_inv_simps(3) using ipre by blast
  qed
  ultimately show ?thesis by simp
qed

section \<open>What the two memories rely on\<close>

text \<open>Every byte of the whole is free or used, and none is both.\<close>

definition balanced :: "nat set \<Rightarrow> nat set \<Rightarrow> nat set \<Rightarrow> bool" where
  "balanced free used whole \<longleftrightarrow> free \<union> used = whole \<and> free \<inter> used = {}"

text \<open>
  The contract between a free map and the memory that owns the blocks cut from it: taking a
  part of an entry removes exactly those bytes, giving a range back adds exactly its bytes.
\<close>

locale free_store =
  fixes bytes :: "'m \<Rightarrow> nat set"
    and inv :: "'m \<Rightarrow> bool"
    and entries :: "'m \<Rightarrow> (nat \<times> nat) set"
    and take_part :: "'m \<Rightarrow> nat \<times> nat \<Rightarrow> nat \<Rightarrow> nat \<Rightarrow> 'm"
    and give_back :: "'m \<Rightarrow> nat \<Rightarrow> nat \<Rightarrow> 'm"
  assumes entries_bytes: "bytes m = (\<Union>(s, n) \<in> entries m. {s..<s + n})"
    and take_ok: "inv m \<Longrightarrow> (s, n) \<in> entries m \<Longrightarrow> s \<le> a \<Longrightarrow> 0 < k \<Longrightarrow> a + k \<le> s + n \<Longrightarrow>
      inv (take_part m (s, n) a k) \<and> bytes (take_part m (s, n) a k) = bytes m - {a..<a + k}"
    and give_ok: "inv m \<Longrightarrow> 0 < k \<Longrightarrow> a + k \<le> u64_max \<Longrightarrow>
      inv (give_back m a k) \<and> bytes (give_back m a k) = bytes m \<union> {a..<a + k}"
begin

lemma entry_free: "(s, n) \<in> entries m \<Longrightarrow> {s..<s + n} \<subseteq> bytes m"
  unfolding entries_bytes by blast

lemma take_balanced:
  assumes "inv m" "balanced (bytes m) used whole" "(s, n) \<in> entries m" "s \<le> a" "0 < k" "a + k \<le> s + n"
  shows "inv (take_part m (s, n) a k)"
    "balanced (bytes (take_part m (s, n) a k)) (used \<union> {a..<a + k}) whole" "used \<inter> {a..<a + k} = {}"
proof -
  have "{a..<a + k} \<subseteq> {s..<s + n}" using assms(4-6) by auto
  then have sub: "{a..<a + k} \<subseteq> bytes m" using entry_free [OF assms(3)] by blast
  show "inv (take_part m (s, n) a k)" using take_ok [OF assms(1,3-6)] by blast
  show "balanced (bytes (take_part m (s, n) a k)) (used \<union> {a..<a + k}) whole"
    using take_ok [OF assms(1,3-6)] assms(2) sub unfolding balanced_def by blast
  show "used \<inter> {a..<a + k} = {}" using assms(2) sub unfolding balanced_def by blast
qed

lemma give_balanced:
  assumes "inv m" "balanced (bytes m) used whole" "{a..<a + k} \<subseteq> used" "0 < k" "a + k \<le> u64_max"
  shows "inv (give_back m a k)" "balanced (bytes (give_back m a k)) (used - {a..<a + k}) whole"
  using give_ok [OF assms(1,4,5)] assms(2,3) unfolding balanced_def by blast+

text \<open>Bytes that were taken and given back are free as before.\<close>

lemma take_give:
  assumes "inv m" "(s, n) \<in> entries m" "s \<le> a" "0 < k" "a + k \<le> s + n" "s + n \<le> u64_max"
  shows "bytes (give_back (take_part m (s, n) a k) a k) = bytes m"
proof -
  have "{a..<a + k} \<subseteq> {s..<s + n}" using assms(3-5) by auto
  then have sub: "{a..<a + k} \<subseteq> bytes m" using entry_free [OF assms(2)] by blast
  have "a + k \<le> u64_max" using assms(5,6) by simp
  with take_ok [OF assms(1-5)] give_ok [OF _ assms(4)] sub show ?thesis by blast
qed

end

interpretation fr: free_store free_bytes free_inv set ConsumeFreeRange AddFreeRange
proof unfold_locales
  fix m s n a k
  show "free_bytes m = (\<Union>(s, n) \<in> set m. {s..<s + n})" by (rule free_bytes_def)
  show "free_inv m \<Longrightarrow> (s, n) \<in> set m \<Longrightarrow> s \<le> a \<Longrightarrow> 0 < k \<Longrightarrow> a + k \<le> s + n \<Longrightarrow>
      free_inv (ConsumeFreeRange m (s, n) a k) \<and>
      free_bytes (ConsumeFreeRange m (s, n) a k) = free_bytes m - {a..<a + k}"
    using ConsumeFreeRange_ok by blast
  show "free_inv m \<Longrightarrow> 0 < k \<Longrightarrow> a + k \<le> u64_max \<Longrightarrow>
      free_inv (AddFreeRange m a k) \<and> free_bytes (AddFreeRange m a k) = free_bytes m \<union> {a..<a + k}"
    by (rule AddFreeRange_ok)
qed

section \<open>Runs of free bytes\<close>

text \<open>Free ranges are kept apart: free bytes that are neighbours lie in one entry.\<close>

lemma free_run_entry:
  assumes "free_inv m" "0 < k" "{a..<a + k} \<subseteq> free_bytes m"
  obtains s n where "(s, n) \<in> set m" "s \<le> a" "a + k \<le> s + n"
proof -
  have "\<exists>(s, n) \<in> set m. s \<le> a \<and> a + k \<le> s + n"
    using assms(2,3)
  proof (induction k)
    case (Suc k)
    show ?case
    proof (cases "k = 0")
      case True
      then have "a \<in> free_bytes m" using Suc.prems(2) by auto
      then obtain s n where "(s, n) \<in> set m" "s \<le> a" "a < s + n"
        unfolding free_bytes_def by auto
      then show ?thesis using True by (intro bexI [of _ "(s, n)"]) auto
    next
      case False
      then obtain s n where p: "(s, n) \<in> set m" "s \<le> a" "a + k \<le> s + n" using Suc by fastforce
      have "a + k \<in> free_bytes m" using Suc.prems(2) by auto
      then obtain s' n' where q: "(s', n') \<in> set m" "s' \<le> a + k" "a + k < s' + n'"
        unfolding free_bytes_def by auto
      have "(s', n') = (s, n) \<or> s' + n' < s \<or> s + n < s'"
        using sorted_wrt_cases [OF _ p(1) q(1)] assms(1) unfolding free_inv_def by fastforce
      moreover have "\<not> s' + n' < s" using p(2) q(3) by linarith
      moreover have "\<not> s + n < s'" using p(3) q(2) by linarith
      ultimately have "s' = s" "n' = n" by auto
      with p q show ?thesis by (intro bexI [of _ "(s, n)"]) auto
    qed
  qed simp
  with that show ?thesis by blast
qed

end
