(* ===== verification/PhysicalMemory.thy ===== *)
theory PhysicalMemory
  imports FreeRanges
begin

text \<open>
  The class \<open>PhysicalMemory\<close> of \<open>src/kernel/memory.cpp\<close>: the direct memory of the console.
  Its bytes are cut into allocated blocks and free ranges; mappings of the guest's address
  space onto them are kept in a separate vector. The mutex makes every operation one step;
  output pointers are results, and the callers pass none that is null.
\<close>

section \<open>State\<close>

record AllocatedBlock =
  ab_start_addr :: nat
  ab_size :: nat
  ab_map_vaddr :: nat
  ab_map_size :: nat
  ab_host_vaddr :: nat
  ab_host_size :: nat
  ab_prot :: u32
  ab_mode :: Mode
  ab_gpu_mode :: GpuAccessMode
  ab_memory_type :: u32
  ab_pool_expansion :: bool
  ab_name :: string

type_synonym block_map = "(nat \<times> AllocatedBlock) list"

record physical_memory =
  pm_physical :: block_map
  pm_free :: free_map
  pm_mappings :: "AllocatedBlock list"

definition PM_TotalSize :: nat where
  "PM_TotalSize = 13824 * 1024 * 1024"

text \<open>\<open>flexible\<close> is the global \<open>g_flexible_memory_size\<close>, frozen before the classes are built.\<close>

definition PM_Size :: "nat \<Rightarrow> nat outcome" where
  "PM_Size flexible =
     (if flexible \<ge> PM_TotalSize then Exit else Ret (PM_TotalSize - flexible))"

definition PM_new :: "nat \<Rightarrow> physical_memory outcome" where
  "PM_new flexible =
     omap (\<lambda>sz. \<lparr>pm_physical = [], pm_free = map_emplace 0 sz [], pm_mappings = []\<rparr>) (PM_Size flexible)"

section \<open>Allocation\<close>

text \<open>The first position of a free range where the block fits, \<open>None\<close> for \<open>continue\<close>.\<close>

definition alloc_fit :: "nat \<Rightarrow> nat \<Rightarrow> nat \<Rightarrow> nat \<Rightarrow> nat \<times> nat \<Rightarrow> nat option" where
  "alloc_fit search_start search_end len alignment r =
     (let range_end = min (add64 (fst r) (snd r)) search_end;
          lower_bound = max (fst r) search_start in
      case GetAlignedPos lower_bound alignment of
        None \<Rightarrow> None
      | Some free_pos \<Rightarrow>
          if free_pos < lower_bound \<or> free_pos > range_end \<or> len > range_end - free_pos
          then None else Some free_pos)"

fun alloc_loop :: "nat \<Rightarrow> nat \<Rightarrow> nat \<Rightarrow> nat \<Rightarrow> free_map \<Rightarrow> ((nat \<times> nat) \<times> nat) option" where
  "alloc_loop search_start search_end len alignment [] = None"
| "alloc_loop search_start search_end len alignment (r # it) =
     (if fst r < search_end then
        (case alloc_fit search_start search_end len alignment r of
           None \<Rightarrow> alloc_loop search_start search_end len alignment it
         | Some free_pos \<Rightarrow> Some (r, free_pos))
      else None)"

definition PM_Alloc :: "nat \<Rightarrow> physical_memory \<Rightarrow> nat \<Rightarrow> nat \<Rightarrow> nat \<Rightarrow> nat \<Rightarrow> u32 \<Rightarrow> bool \<Rightarrow>
    (nat option \<times> physical_memory) outcome" where
  "PM_Alloc flexible pm search_start search_end len alignment memory_type pool_expansion =
     obind (PM_Size flexible) (\<lambda>sz.
       let search_end = min search_end sz in
       if search_start \<ge> search_end then Ret (None, pm)
       else
         let (before, it) = step_back (\<lambda>_. True) (upper_split search_start (pm_free pm)) in
         case alloc_loop search_start search_end len alignment it of
           None \<Rightarrow> Ret (None, pm)
         | Some (r, free_pos) \<Rightarrow>
             let b = \<lparr>ab_start_addr = free_pos, ab_size = len, ab_map_vaddr = 0, ab_map_size = 0,
                      ab_host_vaddr = 0, ab_host_size = 0, ab_prot = 0, ab_mode = Mode_NoAccess,
                      ab_gpu_mode = Gpu_NoAccess, ab_memory_type = memory_type,
                      ab_pool_expansion = pool_expansion, ab_name = []\<rparr>;
                 free = ConsumeFreeRange (pm_free pm) r free_pos len in
             if free_pos \<in> fst ` set (pm_physical pm) then Exit
             else Ret (Some free_pos,
               pm\<lparr>pm_free := free, pm_physical := map_emplace free_pos b (pm_physical pm)\<rparr>))"

fun available_loop ::
    "nat \<Rightarrow> nat \<Rightarrow> nat \<Rightarrow> free_map \<Rightarrow> nat \<Rightarrow> nat \<Rightarrow> nat \<times> nat" where
  "available_loop search_start search_end alignment [] best_addr best_size = (best_addr, best_size)"
| "available_loop search_start search_end alignment ((s, n) # m) best_addr best_size =
     (if s \<ge> search_end then (best_addr, best_size)
      else
        let range_end = min (add64 s n) search_end;
            lower_bound = max s search_start in
        case GetAlignedPos lower_bound alignment of
          None \<Rightarrow> available_loop search_start search_end alignment m best_addr best_size
        | Some free_pos \<Rightarrow>
            if free_pos \<ge> lower_bound \<and> free_pos < range_end \<and> range_end - free_pos > best_size
            then available_loop search_start search_end alignment m free_pos (range_end - free_pos)
            else available_loop search_start search_end alignment m best_addr best_size)"

definition PM_Available ::
    "nat \<Rightarrow> physical_memory \<Rightarrow> nat \<Rightarrow> nat \<Rightarrow> nat \<Rightarrow> (nat \<times> nat) option outcome" where
  "PM_Available flexible pm search_start search_end alignment =
     obind (PM_Size flexible) (\<lambda>sz.
       let search_end = min search_end sz in
       if search_start \<ge> search_end then Ret None
       else
         let (best_addr, best_size) =
               available_loop search_start search_end alignment (pm_free pm) 0 0 in
         Ret (if best_size = 0 then None else Some (best_addr, best_size)))"

section \<open>Release\<close>

text \<open>Results of \<open>Release\<close>: the mapped address and size of the part and its GPU access.\<close>

definition block_at :: "block_map \<Rightarrow> nat \<Rightarrow> (nat \<times> AllocatedBlock) option" where
  "block_at m addr =
     (let before = fst (upper_split addr m) in if before = [] then None else Some (last before))"

definition map_set :: "nat \<Rightarrow> 'v \<Rightarrow> (nat \<times> 'v) list \<Rightarrow> (nat \<times> 'v) list" where
  "map_set k v m = map (\<lambda>p. if fst p = k then (k, v) else p) m"

definition PM_Release :: "physical_memory \<Rightarrow> nat \<Rightarrow> nat \<Rightarrow>
    (nat \<times> nat \<times> GpuAccessMode) option \<times> physical_memory" where
  "PM_Release pm start len =
     (case block_at (pm_physical pm) start of
        None \<Rightarrow> (None, pm)
      | Some (key, b) \<Rightarrow>
          let b_end = add64 (ab_start_addr b) (ab_size b);
              mapped = ab_map_vaddr b \<noteq> 0 in
          if ab_pool_expansion b \<or> start < ab_start_addr b \<or> start \<ge> b_end \<or>
             len > sub64 b_end start
          then (None, pm)
          else if start = ab_start_addr b \<and> len = ab_size b then
            (Some (ab_map_vaddr b, ab_map_size b, ab_gpu_mode b),
             pm\<lparr>pm_physical := map_erase key (pm_physical pm),
                pm_free := AddFreeRange (pm_free pm) start len\<rparr>)
          else if start > ab_start_addr b \<and> add64 start len < b_end then
            let old_start = ab_start_addr b; old_end = b_end;
                right = b\<lparr>ab_start_addr := add64 start len,
                          ab_size := sub64 old_end (add64 start len)\<rparr>;
                right = (if ab_map_vaddr right \<noteq> 0
                         then right\<lparr>ab_map_vaddr :=
                                add64 (ab_map_vaddr right) (sub64 (ab_start_addr right) old_start),
                              ab_map_size := ab_size right\<rparr>
                         else right);
                left = b\<lparr>ab_size := start - old_start\<rparr>;
                left = (if ab_map_vaddr b \<noteq> 0 then left\<lparr>ab_map_size := ab_size left\<rparr> else left) in
            (Some (if mapped then add64 (ab_map_vaddr b) (start - old_start) else 0,
               if mapped then len else 0, ab_gpu_mode b),
             pm\<lparr>pm_physical := map_emplace (ab_start_addr right) right (map_set key left (pm_physical pm)),
                pm_free := AddFreeRange (pm_free pm) start len\<rparr>)
          else if start = ab_start_addr b \<and> len < ab_size b then
            let remaining = b\<lparr>ab_start_addr := add64 (ab_start_addr b) len,
                              ab_size := ab_size b - len\<rparr>;
                remaining = (if ab_map_vaddr remaining \<noteq> 0
                             then remaining\<lparr>ab_map_vaddr := add64 (ab_map_vaddr remaining) len,
                                  ab_map_size := sub64 (ab_map_size remaining) len\<rparr>
                             else remaining) in
            (Some (ab_map_vaddr b, if mapped then len else 0, ab_gpu_mode b),
             pm\<lparr>pm_physical := map_emplace (ab_start_addr remaining) remaining
                  (map_erase key (pm_physical pm)),
                pm_free := AddFreeRange (pm_free pm) start len\<rparr>)
          else if start > ab_start_addr b \<and> add64 start len = b_end then
            let left = b\<lparr>ab_size := start - ab_start_addr b\<rparr>;
                left = (if ab_map_vaddr b \<noteq> 0 then left\<lparr>ab_map_size := ab_size left\<rparr> else left) in
            (Some (if mapped then add64 (ab_map_vaddr b) (start - ab_start_addr b) else 0,
               if mapped then len else 0, ab_gpu_mode b),
             pm\<lparr>pm_physical := map_set key left (pm_physical pm),
                pm_free := AddFreeRange (pm_free pm) start len\<rparr>)
          else (None, pm))"

definition PM_ReleasePoolExpansion :: "physical_memory \<Rightarrow> nat \<Rightarrow> nat \<Rightarrow> bool \<times> physical_memory" where
  "PM_ReleasePoolExpansion pm phys_addr len =
     (case map_of (pm_physical pm) phys_addr of
        None \<Rightarrow> (False, pm)
      | Some b \<Rightarrow>
          if \<not> ab_pool_expansion b \<or> ab_size b \<noteq> len then (False, pm)
          else (True, pm\<lparr>pm_physical := map_erase phys_addr (pm_physical pm),
                         pm_free := AddFreeRange (pm_free pm) phys_addr len\<rparr>))"

section \<open>Walking over allocated blocks\<close>

text \<open>
  \<open>Map\<close>, \<open>CanMapDirect\<close> and \<open>GetAllocatedSpan\<close> walk from block to block. One step finds the
  block that holds \<open>current\<close>, where the walk goes on, and whether the next block follows it
  without a gap.
\<close>

definition following :: "block_map \<Rightarrow> nat \<Rightarrow> AllocatedBlock option" where
  "following m addr =
     (let it = snd (upper_split addr m) in if it = [] then None else Some (snd (hd it)))"

function walk_blocks :: "block_map \<Rightarrow> nat \<Rightarrow> nat \<Rightarrow> AllocatedBlock list \<Rightarrow> AllocatedBlock list option" where
  "walk_blocks m current fin blocks =
     (if current < fin then
        (case block_at m current of
           None \<Rightarrow> None
         | Some (key, b) \<Rightarrow>
             let block_end = add64 (ab_start_addr b) (ab_size b) in
             if ab_pool_expansion b \<or> current < ab_start_addr b \<or> current \<ge> block_end then None
             else
               let part = b\<lparr>ab_start_addr := current, ab_size := min fin block_end - current\<rparr>;
                   next_pos = min fin block_end in
               if next_pos < fin \<and>
                  (case following m current of None \<Rightarrow> True | Some f \<Rightarrow> ab_start_addr f \<noteq> next_pos)
               then None
               else walk_blocks m next_pos fin (blocks @ [part]))
      else Some blocks)"
  by pat_completeness auto

termination
  by (relation "measure (\<lambda>(m, current, fin, blocks). fin - current)") (auto simp: Let_def)

declare walk_blocks.simps [simp del]

definition PM_CanMapDirect :: "physical_memory \<Rightarrow> nat \<Rightarrow> nat \<Rightarrow> bool" where
  "PM_CanMapDirect pm phys_addr len \<longleftrightarrow>
     \<not> (len = 0 \<or> u64_max - phys_addr < len) \<and>
     walk_blocks (pm_physical pm) phys_addr (phys_addr + len) [] \<noteq> None"

definition PM_GetAllocatedSpan :: "physical_memory \<Rightarrow> nat \<Rightarrow> nat \<Rightarrow> AllocatedBlock list option" where
  "PM_GetAllocatedSpan pm phys_addr len =
     (if len = 0 \<or> u64_max - phys_addr < len then None
      else walk_blocks (pm_physical pm) phys_addr (phys_addr + len) [])"

definition PM_Map :: "physical_memory \<Rightarrow> nat \<Rightarrow> nat \<Rightarrow> nat \<Rightarrow> u32 \<Rightarrow> Mode \<Rightarrow> GpuAccessMode \<Rightarrow>
    bool \<times> physical_memory" where
  "PM_Map pm vaddr phys_addr len prot mode gpu_mode =
     (if len = 0 \<or> u64_max - phys_addr < len then (False, pm)
      else
        case block_at (pm_physical pm) phys_addr of
          None \<Rightarrow> (False, pm)
        | Some (_, first) \<Rightarrow>
            if walk_blocks (pm_physical pm) phys_addr (phys_addr + len) [] = None then (False, pm)
            else
              (True, pm\<lparr>pm_mappings := pm_mappings pm @
                 [first\<lparr>ab_start_addr := phys_addr, ab_size := len, ab_map_vaddr := vaddr,
                        ab_map_size := len, ab_host_vaddr := vaddr, ab_host_size := len,
                        ab_prot := prot, ab_mode := mode, ab_gpu_mode := gpu_mode\<rparr>]\<rparr>))"

section \<open>Mappings\<close>

text \<open>
  The loop of \<open>Unmap\<close>: \<open>done\<close> are the mappings before the current one. The results are the
  GPU access of the mapping, whether a whole mapping went away, and the vector.
\<close>

fun unmap_loop :: "nat \<Rightarrow> nat \<Rightarrow> AllocatedBlock list \<Rightarrow> AllocatedBlock list \<Rightarrow>
    (GpuAccessMode \<times> (nat \<times> nat) option \<times> AllocatedBlock list) option" where
  "unmap_loop vaddr sz done' [] = None"
| "unmap_loop vaddr sz done' (b # bs) =
     (let b_end = add64 (ab_map_vaddr b) (ab_map_size b) in
      if ab_map_vaddr b = vaddr \<and> ab_map_size b = sz then
        Some (ab_gpu_mode b, Some (ab_host_vaddr b, ab_host_size b), done' @ bs)
      else if vaddr > ab_map_vaddr b \<and> add64 vaddr sz < b_end then
        let rest = sub64 b_end (add64 vaddr sz);
            right = b\<lparr>ab_start_addr :=
                        add64 (ab_start_addr b) (sub64 (add64 vaddr sz) (ab_map_vaddr b)),
                      ab_size := rest, ab_map_size := rest, ab_map_vaddr := add64 vaddr sz\<rparr>;
            left = b\<lparr>ab_size := vaddr - ab_map_vaddr b, ab_map_size := vaddr - ab_map_vaddr b\<rparr> in
        Some (ab_gpu_mode b, None, done' @ left # bs @ [right])
      else if vaddr = ab_map_vaddr b \<and> sz < ab_map_size b then
        Some (ab_gpu_mode b, None,
          done' @ b\<lparr>ab_start_addr := add64 (ab_start_addr b) sz, ab_size := sub64 (ab_size b) sz,
                    ab_map_vaddr := add64 (ab_map_vaddr b) sz,
                    ab_map_size := ab_map_size b - sz\<rparr> # bs)
      else if vaddr > ab_map_vaddr b \<and> add64 vaddr sz = b_end then
        Some (ab_gpu_mode b, None,
          done' @ b\<lparr>ab_size := vaddr - ab_map_vaddr b, ab_map_size := vaddr - ab_map_vaddr b\<rparr> # bs)
      else unmap_loop vaddr sz (done' @ [b]) bs)"

text \<open>
  The address to release on the host is reported once no mapping of the same host range is
  left; 0 stands for none.
\<close>

definition host_release :: "AllocatedBlock list \<Rightarrow> nat \<Rightarrow> nat \<Rightarrow> nat" where
  "host_release ms host_vaddr host_size =
     (if host_vaddr = 0 \<or> host_size = 0 then 0
      else if \<exists>b \<in> set ms. ab_host_vaddr b = host_vaddr \<and> ab_host_size b = host_size then 0
      else host_vaddr)"

definition PM_Unmap :: "physical_memory \<Rightarrow> nat \<Rightarrow> nat \<Rightarrow>
    (GpuAccessMode \<times> nat) option \<times> physical_memory" where
  "PM_Unmap pm vaddr sz =
     (case unmap_loop vaddr sz [] (pm_mappings pm) of
        None \<Rightarrow> (None, pm)
      | Some (gpu, host, ms) \<Rightarrow>
          (Some (gpu, case host of None \<Rightarrow> 0 | Some (hv, hs) \<Rightarrow> host_release ms hv hs),
           pm\<lparr>pm_mappings := ms\<rparr>))"

definition protect_pieces ::
    "nat \<Rightarrow> nat \<Rightarrow> u32 \<Rightarrow> Mode \<Rightarrow> GpuAccessMode \<Rightarrow> AllocatedBlock \<Rightarrow> AllocatedBlock list" where
  "protect_pieces vaddr sz prot mode gpu_mode b =
     (let fin = vaddr + sz; block_end = add64 (ab_map_vaddr b) (ab_map_size b) in
      if \<not> VirtualRangesOverlap vaddr sz (ab_map_vaddr b) (ab_map_size b) then [b]
      else
        let overlap_start = max vaddr (ab_map_vaddr b);
            overlap_end = min fin block_end;
            left_size = sub64 overlap_start (ab_map_vaddr b);
            middle_size = sub64 overlap_end overlap_start;
            right_size = sub64 block_end overlap_end in
        (if ab_map_vaddr b < overlap_start
         then [b\<lparr>ab_size := left_size, ab_map_size := left_size\<rparr>] else []) @
        [b\<lparr>ab_start_addr := sub64 (add64 (ab_start_addr b) overlap_start) (ab_map_vaddr b),
           ab_size := middle_size, ab_map_vaddr := overlap_start, ab_map_size := middle_size,
           ab_prot := prot, ab_mode := mode, ab_gpu_mode := gpu_mode\<rparr>] @
        (if overlap_end < block_end
         then [b\<lparr>ab_start_addr := sub64 (add64 (ab_start_addr b) overlap_end) (ab_map_vaddr b),
                 ab_size := right_size, ab_map_vaddr := overlap_end, ab_map_size := right_size\<rparr>]
         else []))"

definition PM_ProtectMapping ::
    "physical_memory \<Rightarrow> nat \<Rightarrow> nat \<Rightarrow> u32 \<Rightarrow> Mode \<Rightarrow> GpuAccessMode \<Rightarrow> physical_memory" where
  "PM_ProtectMapping pm vaddr sz prot mode gpu_mode =
     (if sz = 0 \<or> u64_max - vaddr < sz then pm
      else pm\<lparr>pm_mappings :=
        concat (map (protect_pieces vaddr sz prot mode gpu_mode) (pm_mappings pm))\<rparr>)"

text \<open>The two overloads of \<open>Find\<close>: by physical address and by mapped address.\<close>

definition PM_Find_physical :: "physical_memory \<Rightarrow> nat \<Rightarrow> bool \<Rightarrow> AllocatedBlock option" where
  "PM_Find_physical pm phys_addr next_block =
     (case block_at (pm_physical pm) phys_addr of
        Some (_, b) \<Rightarrow>
          if phys_addr < add64 (ab_start_addr b) (ab_size b) then Some b
          else if next_block then following (pm_physical pm) phys_addr else None
      | None \<Rightarrow> if next_block then following (pm_physical pm) phys_addr else None)"

definition PM_Find_mapping :: "physical_memory \<Rightarrow> nat \<Rightarrow>
    (nat \<times> nat \<times> u32 \<times> Mode \<times> GpuAccessMode) option" where
  "PM_Find_mapping pm vaddr =
     map_option (\<lambda>b. (ab_map_vaddr b, ab_map_size b, ab_prot b, ab_mode b, ab_gpu_mode b))
       (find (\<lambda>b. vaddr \<ge> ab_map_vaddr b \<and> vaddr < add64 (ab_map_vaddr b) (ab_map_size b))
         (pm_mappings pm))"

definition PM_FindMappings :: "physical_memory \<Rightarrow> nat \<Rightarrow> nat \<Rightarrow> AllocatedBlock list" where
  "PM_FindMappings pm phys_addr len =
     sort_key ab_map_vaddr
       (map (\<lambda>m.
          let overlap_start = max phys_addr (ab_start_addr m);
              overlap_end = min (add64 phys_addr len) (add64 (ab_start_addr m) (ab_size m));
              part_size = sub64 overlap_end overlap_start in
          m\<lparr>ab_start_addr := overlap_start, ab_size := part_size,
            ab_map_vaddr := add64 (ab_map_vaddr m) (sub64 overlap_start (ab_start_addr m)),
            ab_map_size := part_size\<rparr>)
        (filter (\<lambda>m. VirtualRangesOverlap phys_addr len (ab_start_addr m) (ab_size m))
          (pm_mappings pm)))"

definition PM_SetVirtualRangeName ::
    "physical_memory \<Rightarrow> nat \<Rightarrow> nat \<Rightarrow> string option \<Rightarrow> physical_memory" where
  "PM_SetVirtualRangeName pm vaddr len name =
     pm\<lparr>pm_mappings := map (\<lambda>b.
        if VirtualRangesOverlap vaddr len (ab_map_vaddr b) (ab_map_size b)
        then b\<lparr>ab_name := CopyVirtualRangeName name\<rparr> else b) (pm_mappings pm)\<rparr>"

definition PM_SetVirtualRangeMemoryType ::
    "physical_memory \<Rightarrow> nat \<Rightarrow> nat \<Rightarrow> u32 \<Rightarrow> physical_memory" where
  "PM_SetVirtualRangeMemoryType pm vaddr len memory_type =
     pm\<lparr>pm_mappings := map (\<lambda>b.
        if VirtualRangesOverlap vaddr len (ab_map_vaddr b) (ab_map_size b)
        then b\<lparr>ab_memory_type := memory_type\<rparr> else b) (pm_mappings pm)\<rparr>"

end
