(* ===== verification/PhysicalBlocks.thy ===== *)
theory PhysicalBlocks
  imports PhysicalMemory
begin

text \<open>
  Correctness of the block and free-range bookkeeping of \<open>PhysicalMemory\<close>: what a search
  for a position returns, and that allocated blocks and free ranges partition the memory.
\<close>

section \<open>Maps of blocks\<close>

definition block_ok :: "nat \<Rightarrow> AllocatedBlock \<Rightarrow> bool" where
  "block_ok k b \<longleftrightarrow> k = ab_start_addr b \<and> 0 < ab_size b \<and> k + ab_size b \<le> u64_max \<and> ab_map_vaddr b = 0"

definition blocks_inv :: "block_map \<Rightarrow> bool" where
  "blocks_inv m \<longleftrightarrow> (\<forall>(k, b) \<in> set m. block_ok k b) \<and>
     sorted_wrt (\<lambda>p q. fst p + ab_size (snd p) \<le> fst q) m"

definition block_bytes :: "block_map \<Rightarrow> nat set" where
  "block_bytes m = (\<Union>(k, b) \<in> set m. {k..<k + ab_size b})"

text \<open>The memory type and the owner (the pool or the guest) of each allocated byte.\<close>

definition byte_owner :: "block_map \<Rightarrow> nat \<Rightarrow> (u32 \<times> bool) option" where
  "byte_owner m a =
     map_option (\<lambda>(k, b). (ab_memory_type b, ab_pool_expansion b))
       (find (\<lambda>(k, b). k \<le> a \<and> a < k + ab_size b) m)"

lemma blocks_inv_simps [simp]:
  "blocks_inv []"
  "blocks_inv ((k, b) # m) \<longleftrightarrow>
     block_ok k b \<and> (\<forall>q \<in> set m. k + ab_size b \<le> fst q) \<and> blocks_inv m"
  by (auto simp: blocks_inv_def)

lemma block_bytes_simps [simp]:
  "block_bytes [] = {}" "block_bytes ((k, b) # m) = {k..<k + ab_size b} \<union> block_bytes m"
  by (auto simp: block_bytes_def)

lemma block_bytes_iff: "a \<in> block_bytes m \<longleftrightarrow> (\<exists>k b. (k, b) \<in> set m \<and> k \<le> a \<and> a < k + ab_size b)"
proof -
  have "a \<in> block_bytes m \<longleftrightarrow> (\<exists>p \<in> set m. a \<in> (case p of (k, b) \<Rightarrow> {k..<k + ab_size b}))"
    unfolding block_bytes_def by blast
  also have "\<dots> \<longleftrightarrow> (\<exists>k b. (k, b) \<in> set m \<and> k \<le> a \<and> a < k + ab_size b)"
    unfolding Bex_def split_paired_Ex by simp
  finally show ?thesis .
qed

lemma blocks_spaced:
  "blocks_inv m \<Longrightarrow> (k, b) \<in> set m \<Longrightarrow> (k', b') \<in> set m \<Longrightarrow>
   (k', b') = (k, b) \<or> k + ab_size b \<le> k' \<or> k' + ab_size b' \<le> k"
  using sorted_wrt_cases [of "\<lambda>p q. fst p + ab_size (snd p) \<le> fst q" m "(k, b)" "(k', b')"]
  unfolding blocks_inv_def by auto

lemma blocks_inv_entry: "blocks_inv m \<Longrightarrow> (k, b) \<in> set m \<Longrightarrow> block_ok k b"
  by (auto simp: blocks_inv_def)

lemma blocks_inv_sorted: "blocks_inv m \<Longrightarrow> sorted_wrt (\<lambda>p q. fst p < fst q) m"
proof (induction m)
  case (Cons p m)
  obtain k b where p: "p = (k, b)" by (cases p)
  from Cons.prems have "0 < ab_size b" by (simp add: p block_ok_def)
  with Cons show ?case by (auto simp: p dest!: bspec)
qed simp

text \<open>Two blocks that share a byte are the same block.\<close>

lemma blocks_unique:
  assumes "blocks_inv m" "(k, b) \<in> set m" "(k', b') \<in> set m"
    "k \<le> a" "a < k + ab_size b" "k' \<le> a" "a < k' + ab_size b'"
  shows "k' = k \<and> b' = b"
  using blocks_spaced [OF assms(1-3)] assms(4-7) by auto

lemma byte_owner_None: "byte_owner m a = None \<longleftrightarrow> a \<notin> block_bytes m"
  unfolding block_bytes_iff byte_owner_def by (auto simp: find_None_iff)

lemma byte_owner_Some:
  assumes "blocks_inv m"
  shows "byte_owner m a = Some x \<longleftrightarrow>
    (\<exists>k b. (k, b) \<in> set m \<and> k \<le> a \<and> a < k + ab_size b \<and> x = (ab_memory_type b, ab_pool_expansion b))"
proof
  assume "byte_owner m a = Some x"
  then show "\<exists>k b. (k, b) \<in> set m \<and> k \<le> a \<and> a < k + ab_size b \<and>
      x = (ab_memory_type b, ab_pool_expansion b)"
    by (auto simp: byte_owner_def find_Some_iff) (metis nth_mem)
next
  assume "\<exists>k b. (k, b) \<in> set m \<and> k \<le> a \<and> a < k + ab_size b \<and>
      x = (ab_memory_type b, ab_pool_expansion b)"
  then obtain k b where kb: "(k, b) \<in> set m" "k \<le> a" "a < k + ab_size b"
    "x = (ab_memory_type b, ab_pool_expansion b)" by blast
  then have "byte_owner m a \<noteq> None" by (auto simp: byte_owner_None block_bytes_iff)
  then obtain k' b' where f: "find (\<lambda>(k, b). k \<le> a \<and> a < k + ab_size b) m = Some (k', b')"
    by (auto simp: byte_owner_def)
  then have "(k', b') \<in> set m" "k' \<le> a" "a < k' + ab_size b'"
    by (auto simp: find_Some_iff) (metis nth_mem)
  from blocks_unique [OF assms kb(1) this(1) kb(2,3) this(2,3)] f kb(4)
  show "byte_owner m a = Some x" by (simp add: byte_owner_def)
qed

section \<open>Insertion and removal of blocks\<close>

lemma map_erase_set: "set (map_erase k m) = {p \<in> set m. fst p \<noteq> k}"
  by (auto simp: map_erase_def)

lemma blocks_inv_erase: "blocks_inv m \<Longrightarrow> blocks_inv (map_erase k m)"
  unfolding blocks_inv_def map_erase_def by (auto intro: sorted_wrt_filter)

lemma block_bytes_disjoint_erase:
  assumes "blocks_inv m" "(k, b) \<in> set m"
  shows "block_bytes (map_erase k m) \<inter> {k..<k + ab_size b} = {}"
proof -
  have "a \<notin> {k..<k + ab_size b}" if "(k', b') \<in> set m" "k' \<noteq> k" "k' \<le> a" "a < k' + ab_size b'" for a k' b'
    using blocks_unique [OF assms(1) assms(2) that(1), of a] that by auto
  then show ?thesis by (auto simp: block_bytes_def map_erase_set)
qed

lemma block_bytes_erase:
  assumes "blocks_inv m" "(k, b) \<in> set m"
  shows "block_bytes (map_erase k m) = block_bytes m - {k..<k + ab_size b}"
proof -
  have same: "b' = b" if "(k, b') \<in> set m" for b'
    using sorted_wrt_cases [OF blocks_inv_sorted [OF assms(1)] assms(2) that] by auto
  have "block_bytes m = block_bytes (map_erase k m) \<union> {k..<k + ab_size b}"
  proof (intro set_eqI iffI)
    fix a assume "a \<in> block_bytes m"
    then obtain k' b' where kb: "(k', b') \<in> set m" "k' \<le> a" "a < k' + ab_size b'"
      unfolding block_bytes_iff by blast
    show "a \<in> block_bytes (map_erase k m) \<union> {k..<k + ab_size b}"
    proof (cases "k' = k")
      case False
      with kb have "a \<in> block_bytes (map_erase k m)" unfolding block_bytes_iff map_erase_set by force
      then show ?thesis by simp
    qed (use same kb in auto)
  qed (use assms(2) in \<open>auto simp: block_bytes_iff map_erase_set\<close>)
  with block_bytes_disjoint_erase [OF assms] show ?thesis by blast
qed

lemma map_emplace_set:
  "k \<notin> fst ` set m \<Longrightarrow> set (map_emplace k v m) = insert (k, v) (set m)"
  by (induction k v m rule: map_emplace.induct) auto

lemma blocks_inv_emplace:
  assumes "blocks_inv m" "block_ok k b" "{k..<k + ab_size b} \<inter> block_bytes m = {}"
  shows "blocks_inv (map_emplace k b m)" "k \<notin> fst ` set m"
    "set (map_emplace k b m) = insert (k, b) (set m)"
proof -
  have pos: "0 < ab_size b" using assms(2) by (simp add: block_ok_def)
  have head: "k \<noteq> a \<and> (k < a \<longrightarrow> k + ab_size b \<le> a) \<and> (a < k \<longrightarrow> a + ab_size c \<le> k)"
    if "(a, c) \<in> set m" for a c
  proof -
    have "0 < ab_size c" using blocks_inv_entry [OF assms(1) that] by (simp add: block_ok_def)
    then have "a < a + ab_size c" by simp
    then have "a \<in> block_bytes m" "k < a + ab_size c \<Longrightarrow> a \<le> k \<Longrightarrow> k \<in> block_bytes m"
      unfolding block_bytes_iff using that by blast+
    moreover have "k \<in> {k..<k + ab_size b}" using pos by simp
    ultimately have "a \<notin> {k..<k + ab_size b}" "k < a + ab_size c \<Longrightarrow> a \<le> k \<Longrightarrow> False"
      using assms(3) by blast+
    then show ?thesis using \<open>0 < ab_size c\<close> by (cases "k < a + ab_size c") auto
  qed
  then show new: "k \<notin> fst ` set m" by (metis imageE prod.collapse)
  then show "set (map_emplace k b m) = insert (k, b) (set m)" by (rule map_emplace_set)
  show "blocks_inv (map_emplace k b m)"
    using assms(1) head new
  proof (induction m)
    case (Cons p m)
    obtain a c where p: "p = (a, c)" by (cases p)
    have h: "k \<noteq> a" "k < a \<Longrightarrow> k + ab_size b \<le> a" "a < k \<Longrightarrow> a + ab_size c \<le> k"
      using Cons.prems(2) [of a c] by (simp_all add: p)
    show ?case
    proof (cases "k < a")
      case True
      have "\<forall>q \<in> set m. k + ab_size b \<le> fst q"
        using Cons.prems(1) h(2) [OF True] by (auto simp: p dest!: bspec)
      with True h(2) Cons.prems(1) assms(2) show ?thesis by (simp add: p)
    next
      case False
      have IH: "blocks_inv (map_emplace k b m)" using Cons by (auto simp: p)
      have "set (map_emplace k b m) = insert (k, b) (set m)"
        using Cons.prems(3) by (intro map_emplace_set) auto
      with IH False h(1,3) Cons.prems(1) show ?thesis by (simp add: p)
    qed
  qed (use assms(2) in simp)
qed

lemma map_set_emplace:
  "sorted_wrt (\<lambda>p q. fst p < fst q) m \<Longrightarrow> k \<in> fst ` set m \<Longrightarrow>
   map_set k v m = map_emplace k v (map_erase k m)"
proof (induction m)
  case (Cons p m)
  obtain a c where p: "p = (a, c)" by (cases p)
  show ?case
  proof (cases "a = k")
    case True
    have gt: "\<forall>q \<in> set m. k < fst q" using Cons.prems(1) by (simp add: p True)
    then have "map_erase k m = m" unfolding map_erase_def by (auto intro!: filter_True)
    moreover have "map (\<lambda>p. if fst p = k then (k, v) else p) m = m"
      using gt by (intro map_idI) auto
    moreover have "map_emplace k v m = (k, v) # m" using gt by (cases m) auto
    ultimately show ?thesis by (simp add: p True map_set_def map_erase_def)
  next
    case False
    then obtain q where "q \<in> set m" "fst q = k" using Cons.prems(2) by (auto simp: p)
    then have "a < k" using Cons.prems(1) by (auto simp: p)
    then show ?thesis using Cons False by (auto simp: p map_set_def map_erase_def)
  qed
qed simp

section \<open>Looking up the block at an address\<close>

lemma block_at_Some:
  assumes "blocks_inv m" "block_at m a = Some (k, b)"
  shows "(k, b) \<in> set m" "k \<le> a" "\<And>k' b'. (k', b') \<in> set m \<Longrightarrow> k' \<le> a \<Longrightarrow> k' \<le> k"
proof -
  obtain before it where s: "upper_split a m = (before, it)" by (cases "upper_split a m")
  note parts = upper_split_parts [OF blocks_inv_sorted [OF assms(1)] s]
  have l: "before \<noteq> []" "last before = (k, b)"
    using assms(2) s by (auto simp: block_at_def split: if_splits)
  then have mem: "(k, b) \<in> set before" by (metis last_in_set)
  then show "(k, b) \<in> set m" "k \<le> a" using parts(1,2) by auto
  fix k' b' assume k': "(k', b') \<in> set m" "k' \<le> a"
  then have b': "(k', b') \<in> set before" using parts(1,3) by auto
  have "before = butlast before @ [(k, b)]" using l by (metis append_butlast_last_id)
  then have "sorted_wrt (\<lambda>p q. fst p < fst q) (butlast before @ [(k, b)])"
    using blocks_inv_sorted [OF assms(1)] parts(1) by (simp add: sorted_wrt_append)
  moreover have "(k', b') \<in> set (butlast before @ [(k, b)])" using b' \<open>before = _\<close> by simp
  ultimately show "k' \<le> k" by (auto simp: sorted_wrt_append)
qed

lemma block_at_None: "blocks_inv m \<Longrightarrow> block_at m a = None \<Longrightarrow> (k, b) \<in> set m \<Longrightarrow> a < k"
proof -
  assume m: "blocks_inv m" "block_at m a = None" "(k, b) \<in> set m"
  obtain before it where s: "upper_split a m = (before, it)" by (cases "upper_split a m")
  note parts = upper_split_parts [OF blocks_inv_sorted [OF m(1)] s]
  have "before = []" using m(2) s by (auto simp: block_at_def split: if_splits)
  with parts m(3) show "a < k" by auto
qed

lemma block_at_holds:
  assumes "blocks_inv m" "(k, b) \<in> set m" "k \<le> a" "a < k + ab_size b"
  shows "block_at m a = Some (k, b)"
proof (cases "block_at m a")
  case None
  from block_at_None [OF assms(1) None assms(2)] assms(3) show ?thesis by simp
next
  case (Some p)
  obtain k' b' where p: "p = (k', b')" by (cases p)
  note at = block_at_Some [OF assms(1) Some [unfolded p]]
  have "k \<le> k'" using at(3) assms(2,3) by blast
  moreover have "k' + ab_size b' \<le> k \<or> k + ab_size b \<le> k' \<or> (k', b') = (k, b)"
    using blocks_spaced [OF assms(1,2) at(1)] by blast
  moreover have "0 < ab_size b'" using blocks_inv_entry [OF assms(1) at(1)] by (simp add: block_ok_def)
  ultimately show ?thesis using Some p at(2) assms(4) by auto
qed

section \<open>The invariant\<close>

definition pm_bytes :: "nat \<Rightarrow> nat set" where
  "pm_bytes flexible = {..<PM_TotalSize - flexible}"

definition pm_inv :: "nat \<Rightarrow> physical_memory \<Rightarrow> bool" where
  "pm_inv flexible pm \<longleftrightarrow>
     flexible < PM_TotalSize \<and> free_inv (pm_free pm) \<and> blocks_inv (pm_physical pm) \<and>
     balanced (free_bytes (pm_free pm)) (block_bytes (pm_physical pm)) (pm_bytes flexible)"

lemma PM_Total_max: "PM_TotalSize \<le> u64_max"
  by (simp add: PM_TotalSize_def u64_max_def)

lemma PM_new_ok: "flexible < PM_TotalSize \<Longrightarrow> \<exists>pm. PM_new flexible = Ret pm \<and> pm_inv flexible pm"
  using PM_Total_max
  by (auto simp: PM_new_def PM_Size_def pm_inv_def balanced_def pm_bytes_def block_bytes_def)

section \<open>Searching\<close>

lemma alloc_fit_Some:
  assumes "s + n \<le> u64_max" "alloc_fit ss se len al (s, n) = Some p"
  shows "max s ss \<le> p" "aligned_to al p" "p + len \<le> s + n" "p + len \<le> se"
    "\<And>a. max s ss \<le> a \<Longrightarrow> aligned_to al a \<Longrightarrow> p \<le> a"
proof -
  from assms have g: "GetAlignedPos (max s ss) al = Some p"
    and p: "p \<le> min (s + n) se" "len \<le> min (s + n) se - p"
    by (auto simp: alloc_fit_def Let_def split: option.splits if_splits)
  from GetAlignedPos_Some [OF g] show "max s ss \<le> p" "aligned_to al p"
    "\<And>a. max s ss \<le> a \<Longrightarrow> aligned_to al a \<Longrightarrow> p \<le> a" by blast+
  from p show "p + len \<le> s + n" "p + len \<le> se" by auto
qed

lemma alloc_fit_None:
  assumes "s + n \<le> u64_max" "alloc_fit ss se len al (s, n) = None"
    "max s ss \<le> a" "aligned_to al a" "a + len \<le> s + n" "a + len \<le> se"
  shows False
proof (cases "GetAlignedPos (max s ss) al")
  case None
  from GetAlignedPos_None [OF None assms(3,4)] assms(1,5) show False by simp
next
  case (Some p)
  note p = GetAlignedPos_Some [OF Some]
  have "p \<le> a" using p(3) assms(3,4) by blast
  moreover have "p > min (s + n) se \<or> len > min (s + n) se - p"
    using assms(1,2) Some p(1) by (auto simp: alloc_fit_def Let_def split: if_splits)
  ultimately show False using assms(5,6) by auto
qed

text \<open>A position where a block of the length may start, in a list of free ranges.\<close>

definition room_at :: "nat \<Rightarrow> nat \<Rightarrow> nat \<Rightarrow> nat \<Rightarrow> free_map \<Rightarrow> nat \<Rightarrow> bool" where
  "room_at ss se len al m a \<longleftrightarrow>
     ss \<le> a \<and> aligned_to al a \<and> a + len \<le> se \<and> (\<exists>(s, n) \<in> set m. s \<le> a \<and> a + len \<le> s + n)"

lemma room_at_Cons:
  "room_at ss se len al ((s, n) # m) a \<longleftrightarrow>
     ss \<le> a \<and> aligned_to al a \<and> a + len \<le> se \<and> s \<le> a \<and> a + len \<le> s + n \<or> room_at ss se len al m a"
  by (auto simp: room_at_def)

lemma alloc_loop_ok:
  assumes "free_inv it"
  shows "case alloc_loop ss se len al it of
      None \<Rightarrow> len = 0 \<or> (\<forall>a. \<not> room_at ss se len al it a)
    | Some ((s, n), p) \<Rightarrow> (s, n) \<in> set it \<and> s \<le> p \<and> p + len \<le> s + n \<and> room_at ss se len al it p \<and>
        (\<forall>a. room_at ss se len al it a \<longrightarrow> p \<le> a)"
  using assms
proof (induction it)
  case Nil
  then show ?case by (simp add: room_at_def)
next
  case (Cons r it)
  obtain s n where r: "r = (s, n)" by (cases r)
  have sn: "0 < n" "s + n \<le> u64_max" "\<forall>q \<in> set it. s + n < fst q" "free_inv it"
    using Cons.prems by (simp_all add: r)
  have later: "s + n < a" if "room_at ss se len al it a" for a
    using that sn(3) unfolding room_at_def by fastforce
  show ?case
  proof (cases "s < se")
    case False
    then have "\<not> (s \<le> a \<and> a + len \<le> se)" if "0 < len" for a using that by auto
    moreover have "\<not> room_at ss se len al it a" if "0 < len" for a
    proof
      assume "room_at ss se len al it a"
      from later [OF this] this that False show False by (simp add: room_at_def)
    qed
    ultimately show ?thesis using False by (auto simp: r room_at_Cons)
  next
    case True
    show ?thesis
    proof (cases "alloc_fit ss se len al (s, n)")
      case None
      have "\<not> (ss \<le> a \<and> aligned_to al a \<and> a + len \<le> se \<and> s \<le> a \<and> a + len \<le> s + n)" for a
        using alloc_fit_None [OF sn(2) None, of a] by auto
      then have "room_at ss se len al ((s, n) # it) a = room_at ss se len al it a" for a
        unfolding room_at_Cons by blast
      with Cons.IH [OF sn(4)] None True show ?thesis
        by (auto simp: r split: option.splits)
    next
      case (Some p)
      note p = alloc_fit_Some [OF sn(2) Some]
      have "p \<le> a" if "room_at ss se len al ((s, n) # it) a" for a
        using that p(5) [of a] later [of a] p(3) unfolding room_at_Cons by auto
      then show ?thesis using True Some p by (auto simp: r room_at_Cons)
    qed
  qed
qed

text \<open>The entries that the search skips end before the place where it starts.\<close>

lemma alloc_start:
  assumes "free_inv m" "step_back (\<lambda>_. True) (upper_split ss m) = (before, it)" "0 < len"
  shows "m = before @ it" "room_at ss se len al it a \<longleftrightarrow> room_at ss se len al m a"
proof -
  obtain xs ys where xy: "upper_split ss m = (xs, ys)" by (cases "upper_split ss m")
  note parts = upper_split_parts [OF free_inv_sorted [OF assms(1)] xy]
  have b: "before = butlast xs" and m: "m = before @ it"
    using assms(2) xy parts(1) by (auto split: if_splits)
  show "m = before @ it" by (rule m)
  have end_before: "s + n < ss" if p: "(s, n) \<in> set before" for s n
  proof -
    have inv: "free_inv xs" using assms(1) parts(1) by simp
    have "xs \<noteq> []" using p b by auto
    then have "fst (last xs) \<le> ss" using parts(2) by simp
    with free_inv_last [OF inv, of "(s, n)"] p b show ?thesis by simp
  qed
  have "\<not> (s \<le> a \<and> a + len \<le> s + n \<and> ss \<le> a)" if "(s, n) \<in> set before" for s n
    using end_before [OF that] by simp
  then show "room_at ss se len al it a \<longleftrightarrow> room_at ss se len al m a"
    unfolding room_at_def m set_append by blast
qed

lemma room_at_free:
  assumes "free_inv m" "0 < len"
  shows "room_at ss se len al m a \<longleftrightarrow>
    ss \<le> a \<and> aligned_to al a \<and> a + len \<le> se \<and> {a..<a + len} \<subseteq> free_bytes m"
proof -
  have "(\<exists>(s, n) \<in> set m. s \<le> a \<and> a + len \<le> s + n) \<longleftrightarrow> {a..<a + len} \<subseteq> free_bytes m"
  proof
    assume "\<exists>(s, n) \<in> set m. s \<le> a \<and> a + len \<le> s + n"
    then obtain s n where "(s, n) \<in> set m" "{a..<a + len} \<subseteq> {s..<s + n}" by auto
    then show "{a..<a + len} \<subseteq> free_bytes m" unfolding free_bytes_def by blast
  next
    assume "{a..<a + len} \<subseteq> free_bytes m"
    from free_run_entry [OF assms this] show "\<exists>(s, n) \<in> set m. s \<le> a \<and> a + len \<le> s + n"
      by blast
  qed
  then show ?thesis by (simp add: room_at_def)
qed

section \<open>Alloc\<close>

definition fits_at :: "nat \<Rightarrow> physical_memory \<Rightarrow> nat \<Rightarrow> nat \<Rightarrow> nat \<Rightarrow> nat \<Rightarrow> nat \<Rightarrow> bool" where
  "fits_at flexible pm search_start search_end len alignment a \<longleftrightarrow>
     search_start \<le> a \<and> aligned_to alignment a \<and> a + len \<le> search_end \<and>
     {a..<a + len} \<subseteq> free_bytes (pm_free pm)"

definition new_block :: "nat \<Rightarrow> nat \<Rightarrow> u32 \<Rightarrow> bool \<Rightarrow> AllocatedBlock" where
  "new_block a len memory_type pool_expansion =
     \<lparr>ab_start_addr = a, ab_size = len, ab_map_vaddr = 0, ab_map_size = 0, ab_host_vaddr = 0,
      ab_host_size = 0, ab_prot = 0, ab_mode = Mode_NoAccess, ab_gpu_mode = Gpu_NoAccess,
      ab_memory_type = memory_type, ab_pool_expansion = pool_expansion, ab_name = []\<rparr>"

lemma room_fits:
  assumes inv: "pm_inv flexible pm" and len: "0 < len"
  shows "room_at ss (min se (PM_TotalSize - flexible)) len al (pm_free pm) a \<longleftrightarrow>
    fits_at flexible pm ss se len al a"
proof -
  have fi: "free_inv (pm_free pm)"
    and bal: "balanced (free_bytes (pm_free pm)) (block_bytes (pm_physical pm)) (pm_bytes flexible)"
    using inv by (simp_all add: pm_inv_def)
  have "a + len \<le> PM_TotalSize - flexible" if "{a..<a + len} \<subseteq> free_bytes (pm_free pm)"
  proof -
    have "a + (len - 1) \<in> {a..<a + len}" using len by auto
    then have "a + (len - 1) \<in> pm_bytes flexible" using that bal unfolding balanced_def by blast
    then show ?thesis using len by (simp add: pm_bytes_def)
  qed
  then show ?thesis by (auto simp: room_at_free [OF fi len] fits_at_def)
qed

lemma PM_Alloc_cases:
  assumes inv: "pm_inv flexible pm" and len: "0 < len"
  shows "(\<exists>a pm'. PM_Alloc flexible pm ss se len al ty pool = Ret (Some a, pm') \<and>
      fits_at flexible pm ss se len al a \<and> (\<forall>a'. fits_at flexible pm ss se len al a' \<longrightarrow> a \<le> a') \<and>
      pm_inv flexible pm' \<and> pm_mappings pm' = pm_mappings pm \<and>
      free_bytes (pm_free pm') = free_bytes (pm_free pm) - {a..<a + len} \<and>
      set (pm_physical pm') = insert (a, new_block a len ty pool) (set (pm_physical pm))) \<or>
    PM_Alloc flexible pm ss se len al ty pool = Ret (None, pm) \<and>
      (\<forall>a. \<not> fits_at flexible pm ss se len al a)"
proof -
  have flex: "flexible < PM_TotalSize" and fi: "free_inv (pm_free pm)"
    and bi: "blocks_inv (pm_physical pm)"
    and bal: "balanced (free_bytes (pm_free pm)) (block_bytes (pm_physical pm)) (pm_bytes flexible)"
    using inv by (simp_all add: pm_inv_def)
  define se' where "se' = min se (PM_TotalSize - flexible)"
  have sz: "PM_Size flexible = Ret (PM_TotalSize - flexible)" using flex by (simp add: PM_Size_def)
  note room = room_fits [OF inv len, of ss se al, folded se'_def]
  show ?thesis
  proof (cases "ss < se'")
    case False
    then have "\<not> room_at ss se' len al (pm_free pm) a" for a using len by (auto simp: room_at_def)
    then show ?thesis using False by (simp add: PM_Alloc_def sz se'_def [symmetric] room)
  next
    case True
    obtain before it where sb: "step_back (\<lambda>_. True) (upper_split ss (pm_free pm)) = (before, it)"
      by (cases "step_back (\<lambda>_. True) (upper_split ss (pm_free pm))")
    note start = alloc_start [OF fi sb len]
    have iit: "free_inv it" using fi start(1) by simp
    note loop = alloc_loop_ok [OF iit, where ss = ss and se = se' and len = len and al = al]
    show ?thesis
    proof (cases "alloc_loop ss se' len al it")
      case None
      with loop len have "\<not> fits_at flexible pm ss se len al a" for a
        using start(2) room by simp
      then show ?thesis using True None sb by (simp add: PM_Alloc_def sz se'_def [symmetric])
    next
      case (Some p)
      obtain s n a where p: "p = ((s, n), a)" by (metis surj_pair)
      from loop Some p have l: "(s, n) \<in> set it" "s \<le> a" "a + len \<le> s + n" "room_at ss se' len al it a"
        "\<forall>a'. room_at ss se' len al it a' \<longrightarrow> a \<le> a'" by auto
      have mem: "(s, n) \<in> set (pm_free pm)" using l(1) start(1) by simp
      note tk = fr.take_balanced [OF fi bal mem l(2) len l(3)]
      have "a + len \<le> u64_max" using free_inv_entry [OF fi mem] l(3) by simp
      then have nb: "block_ok a (new_block a len ty pool)" using len by (simp add: block_ok_def new_block_def)
      have dis: "{a..<a + ab_size (new_block a len ty pool)} \<inter> block_bytes (pm_physical pm) = {}"
        using tk(3) by (auto simp: new_block_def)
      note em = blocks_inv_emplace [OF bi nb dis]
      define pm' where "pm' = pm\<lparr>pm_free := ConsumeFreeRange (pm_free pm) (s, n) a len,
        pm_physical := map_emplace a (new_block a len ty pool) (pm_physical pm)\<rparr>"
      have ret: "PM_Alloc flexible pm ss se len al ty pool = Ret (Some a, pm')"
        using True Some sb em(2) unfolding PM_Alloc_def sz pm'_def
        by (simp add: se'_def [symmetric] p new_block_def)
      have bb: "block_bytes (pm_physical pm') = block_bytes (pm_physical pm) \<union> {a..<a + len}"
        unfolding block_bytes_def pm'_def by (simp add: em(3)) (auto simp: new_block_def)
      have "pm_inv flexible pm'"
        unfolding pm_inv_def bb using flex tk(1,2) em(1) by (simp add: pm'_def)
      moreover have "free_bytes (pm_free pm') = free_bytes (pm_free pm) - {a..<a + len}"
        using fr.take_ok [OF fi mem l(2) len l(3)] by (simp add: pm'_def)
      ultimately show ?thesis
        using ret l(4,5) em(3) unfolding start(2) room by (auto simp: pm'_def)
    qed
  qed
qed

section \<open>Available\<close>

lemma available_loop_ok:
  assumes "free_inv m" "available_loop ss se al m ba bs = (ra, rs)"
  shows "bs \<le> rs" "rs = bs \<and> ra = ba \<or> bs < rs \<and> room_at ss se rs al m ra"
    "\<And>a k. 0 < k \<Longrightarrow> room_at ss se k al m a \<Longrightarrow> k \<le> rs"
proof -
  have "bs \<le> rs \<and> (rs = bs \<and> ra = ba \<or> bs < rs \<and> room_at ss se rs al m ra) \<and>
    (\<forall>a k. 0 < k \<longrightarrow> room_at ss se k al m a \<longrightarrow> k \<le> rs)"
    using assms
  proof (induction m arbitrary: ba bs)
    case Nil
    then show ?case by (simp add: room_at_def)
  next
    case (Cons r m)
    obtain s n where r: "r = (s, n)" by (cases r)
    have sn: "0 < n" "s + n \<le> u64_max" "\<forall>q \<in> set m. s + n < fst q" "free_inv m"
      using Cons.prems by (simp_all add: r)
    show ?case
    proof (cases "s \<ge> se")
      case True
      have "\<not> room_at ss se k al ((s, n) # m) a" if "0 < k" for a k
      proof
        assume a: "room_at ss se k al ((s, n) # m) a"
        then have "s \<le> a" using sn(3) unfolding room_at_def by fastforce
        moreover have "a + k \<le> se" using a by (simp add: room_at_def)
        ultimately show False using True that by simp
      qed
      with True Cons.prems show ?thesis by (auto simp: r)
    next
      case False
      define fin where "fin = min (s + n) se"
      define best where "best = (case GetAlignedPos (max s ss) al of None \<Rightarrow> (ba, bs)
        | Some p \<Rightarrow> if p < fin \<and> fin - p > bs then (p, fin - p) else (ba, bs))"
      have step: "available_loop ss se al m (fst best) (snd best) = (ra, rs)"
      proof (cases "GetAlignedPos (max s ss) al")
        case None
        then show ?thesis using Cons.prems(2) False by (simp add: r best_def)
      next
        case (Some p)
        have "\<not> p < max s ss" using GetAlignedPos_Some(1) [OF Some] by (simp only: not_less)
        then show ?thesis
          using Cons.prems(2) False sn(2) Some by (auto simp: r best_def fin_def not_less Let_def split: if_splits)
      qed
      note IH = Cons.IH [OF sn(4) step]
      have best: "bs \<le> snd best" "best = (ba, bs) \<or> bs < snd best \<and> room_at ss se (snd best) al ((s, n) # m) (fst best)"
      proof -
        have "best = (ba, bs) \<or> bs < snd best \<and> room_at ss se (snd best) al ((s, n) # m) (fst best)"
        proof (cases "GetAlignedPos (max s ss) al")
          case (Some p)
          note p = GetAlignedPos_Some(1,2) [OF Some]
          show ?thesis
          proof (cases "p < fin \<and> fin - p > bs")
            case True
            then have "p + (fin - p) \<le> se" "p + (fin - p) \<le> s + n" by (simp_all add: fin_def)
            with True Some p show ?thesis by (simp add: best_def room_at_Cons)
          qed (use Some in \<open>auto simp: best_def\<close>)
        qed (simp add: best_def)
        then show "bs \<le> snd best"
          "best = (ba, bs) \<or> bs < snd best \<and> room_at ss se (snd best) al ((s, n) # m) (fst best)"
          by auto
      qed
      have here: "k \<le> snd best" if k: "0 < k" "ss \<le> a" "aligned_to al a" "a + k \<le> se" "s \<le> a" "a + k \<le> s + n" for a k
      proof (cases "GetAlignedPos (max s ss) al")
        case None
        from GetAlignedPos_None [OF None _ k(3)] k sn(2) show ?thesis by auto
      next
        case (Some p)
        have "p \<le> a" using GetAlignedPos_Some(3) [OF Some, of a] k by simp
        then have "k \<le> fin - p" "p < fin" using k by (auto simp: fin_def)
        then show ?thesis using Some by (auto simp: best_def)
      qed
      have "k \<le> rs" if "0 < k" "room_at ss se k al ((s, n) # m) a" for a k
        using that here [of k a] IH unfolding room_at_Cons by (meson le_trans)
      moreover have "rs = bs \<and> ra = ba \<or> bs < rs \<and> room_at ss se rs al ((s, n) # m) ra"
        using IH best unfolding room_at_Cons by (auto dest: le_less_trans)
      ultimately show ?thesis using IH best(1) by (auto simp: r)
    qed
  qed
  then show "bs \<le> rs" "rs = bs \<and> ra = ba \<or> bs < rs \<and> room_at ss se rs al m ra"
    "\<And>a k. 0 < k \<Longrightarrow> room_at ss se k al m a \<Longrightarrow> k \<le> rs" by blast+
qed

lemma PM_Available_cases:
  assumes inv: "pm_inv flexible pm"
  shows "(\<exists>a k. PM_Available flexible pm ss se al = Ret (Some (a, k)) \<and> 0 < k \<and>
      fits_at flexible pm ss se k al a \<and> (\<forall>a' k'. 0 < k' \<longrightarrow> fits_at flexible pm ss se k' al a' \<longrightarrow> k' \<le> k)) \<or>
    PM_Available flexible pm ss se al = Ret None \<and> (\<forall>a k. 0 < k \<longrightarrow> \<not> fits_at flexible pm ss se k al a)"
proof -
  have flex: "flexible < PM_TotalSize" and fi: "free_inv (pm_free pm)"
    and bal: "balanced (free_bytes (pm_free pm)) (block_bytes (pm_physical pm)) (pm_bytes flexible)"
    using inv by (simp_all add: pm_inv_def)
  define se' where "se' = min se (PM_TotalSize - flexible)"
  have sz: "PM_Size flexible = Ret (PM_TotalSize - flexible)" using flex by (simp add: PM_Size_def)
  have room: "room_at ss se' k al (pm_free pm) a \<longleftrightarrow> fits_at flexible pm ss se k al a"
    if "0 < k" for a k
    unfolding se'_def by (rule room_fits [OF inv that])
  show ?thesis
  proof (cases "ss < se'")
    case False
    then have "\<not> room_at ss se' k al (pm_free pm) a" if "0 < k" for a k
      using that by (auto simp: room_at_def)
    then show ?thesis using False by (simp add: PM_Available_def sz se'_def [symmetric] room)
  next
    case True
    obtain ra rs where l: "available_loop ss se' al (pm_free pm) 0 0 = (ra, rs)"
      by (cases "available_loop ss se' al (pm_free pm) 0 0")
    note ok = available_loop_ok [OF fi l]
    have ret: "PM_Available flexible pm ss se al = Ret (if rs = 0 then None else Some (ra, rs))"
      using True l by (simp add: PM_Available_def sz se'_def [symmetric])
    have big: "k \<le> rs" if "0 < k" "fits_at flexible pm ss se k al a" for a k
      using ok(3) [of k a] room [of k a] that by simp
    show ?thesis
    proof (cases "rs = 0")
      case True
      have "\<not> fits_at flexible pm ss se k al a" if "0 < k" for a k using big [of k a] that True by auto
      with True show ?thesis by (simp add: ret)
    next
      case False
      then have "room_at ss se' rs al (pm_free pm) ra" using ok(2) by auto
      with False room have "fits_at flexible pm ss se rs al ra" by simp
      with False big show ?thesis by (auto simp: ret)
    qed
  qed
qed

end
