(* ===== verification/PhysicalHistory.thy ===== *)
theory PhysicalHistory
  imports PhysicalBlocks
begin

text \<open>
  Releasing direct memory, and what holds of \<open>PhysicalMemory\<close> after any history of its
  operations.
\<close>

section \<open>Release\<close>

text \<open>What is left of a block when the bytes from \<open>start\<close> on are taken out of it.\<close>

definition left_part :: "nat \<Rightarrow> AllocatedBlock \<Rightarrow> AllocatedBlock" where
  "left_part start b = b\<lparr>ab_size := start - ab_start_addr b\<rparr>"

definition right_part :: "nat \<Rightarrow> AllocatedBlock \<Rightarrow> AllocatedBlock" where
  "right_part fin b =
     b\<lparr>ab_start_addr := fin, ab_size := ab_start_addr b + ab_size b - fin\<rparr>"

definition cut_block :: "block_map \<Rightarrow> nat \<Rightarrow> AllocatedBlock \<Rightarrow> nat \<Rightarrow> nat \<Rightarrow> block_map" where
  "cut_block m k b start fin =
     (let m = map_erase k m;
          m = (if k < start then map_emplace k (left_part start b) m else m) in
      if fin < k + ab_size b then map_emplace fin (right_part fin b) m else m)"

definition cut_entries ::
    "nat \<Rightarrow> AllocatedBlock \<Rightarrow> nat \<Rightarrow> nat \<Rightarrow> (nat \<times> AllocatedBlock) set" where
  "cut_entries k b start fin =
     (if k < start then {(k, left_part start b)} else {}) \<union>
     (if fin < k + ab_size b then {(fin, right_part fin b)} else {})"

lemma cut_block_ok:
  assumes inv: "blocks_inv m" and kb: "(k, b) \<in> set m" and r: "k \<le> start" "start < fin" "fin \<le> k + ab_size b"
  shows "blocks_inv (cut_block m k b start fin)"
    and "set (cut_block m k b start fin) = (set m - {(k, b)}) \<union> cut_entries k b start fin"
    and "block_bytes (cut_block m k b start fin) = block_bytes m - {start..<fin}"
proof -
  have ok: "block_ok k b" using blocks_inv_entry [OF inv kb] .
  then have ks: "ab_start_addr b = k" and max: "k + ab_size b \<le> u64_max" by (simp_all add: block_ok_def)
  let ?e = "map_erase k m"
  have ie: "blocks_inv ?e" by (rule blocks_inv_erase [OF inv])
  have de: "block_bytes ?e \<inter> {k..<k + ab_size b} = {}" by (rule block_bytes_disjoint_erase [OF inv kb])
  have be: "block_bytes ?e = block_bytes m - {k..<k + ab_size b}" by (rule block_bytes_erase [OF inv kb])
  have same: "b' = b" if "(k, b') \<in> set m" for b'
    using sorted_wrt_cases [OF blocks_inv_sorted [OF inv] kb that] by auto
  have "p \<in> set m \<and> fst p \<noteq> k \<longleftrightarrow> p \<in> set m \<and> p \<noteq> (k, b)" for p
    by (cases p) (use same in \<open>simp, blast\<close>)
  then have se: "set ?e = set m - {(k, b)}" unfolding map_erase_set by blast
  define l where "l = (if k < start then map_emplace k (left_part start b) ?e else ?e)"
  have l: "blocks_inv l" "set l = set ?e \<union> (if k < start then {(k, left_part start b)} else {})"
  proof -
    have "block_ok k (left_part start b)" if "k < start"
      using ok that r by (auto simp: block_ok_def left_part_def)
    moreover have "{k..<k + ab_size (left_part start b)} \<inter> block_bytes ?e = {}"
    proof -
      have "{k..<k + ab_size (left_part start b)} \<subseteq> {k..<k + ab_size b}"
        using r by (auto simp: left_part_def ks)
      with de show ?thesis by blast
    qed
    ultimately show "blocks_inv l" "set l = set ?e \<union> (if k < start then {(k, left_part start b)} else {})"
      using blocks_inv_emplace [OF ie, of k "left_part start b"] ie by (auto simp: l_def)
  qed
  have lb: "a \<in> block_bytes l \<longleftrightarrow> a \<in> block_bytes ?e \<or> k \<le> a \<and> a < start" for a
    by (cases "k < start") (auto simp: block_bytes_def l(2) left_part_def ks)
  have c: "cut_block m k b start fin = (if fin < k + ab_size b then map_emplace fin (right_part fin b) l else l)"
    by (simp add: cut_block_def l_def Let_def)
  have right: "block_ok fin (right_part fin b)" "{fin..<fin + ab_size (right_part fin b)} \<inter> block_bytes l = {}"
    if "fin < k + ab_size b"
  proof -
    show "block_ok fin (right_part fin b)" using ok that by (auto simp: block_ok_def right_part_def)
    have "{fin..<fin + ab_size (right_part fin b)} \<subseteq> {k..<k + ab_size b}"
      using r by (auto simp: right_part_def ks)
    moreover have "\<not> (k \<le> a \<and> a < start)" if "a \<in> {fin..<fin + ab_size (right_part fin b)}" for a
      using that r by auto
    ultimately show "{fin..<fin + ab_size (right_part fin b)} \<inter> block_bytes l = {}"
      using de by (auto simp: lb)
  qed
  note em = blocks_inv_emplace [OF l(1) right]
  show "blocks_inv (cut_block m k b start fin)" using em(1) l(1) by (simp add: c)
  show set: "set (cut_block m k b start fin) = (set m - {(k, b)}) \<union> cut_entries k b start fin"
    using em(3) l(2) se by (simp add: c cut_entries_def)
  have "a \<in> block_bytes (cut_block m k b start fin) \<longleftrightarrow> a \<in> block_bytes l \<or> fin \<le> a \<and> a < k + ab_size b" for a
  proof (cases "fin < k + ab_size b")
    case True
    then have "set (cut_block m k b start fin) = insert (fin, right_part fin b) (set l)"
      using em(3) by (simp add: c)
    moreover have "fin + ab_size (right_part fin b) = k + ab_size b"
      using True by (simp add: right_part_def ks)
    ultimately show ?thesis unfolding block_bytes_def by auto
  qed (auto simp: c)
  moreover have "a \<in> block_bytes m" if "k \<le> a" "a < k + ab_size b" for a
    unfolding block_bytes_iff using kb that by blast
  ultimately show "block_bytes (cut_block m k b start fin) = block_bytes m - {start..<fin}"
    using r unfolding lb be by auto
qed

text \<open>
  A part of one block that does not belong to the pool can be released; anything else is
  refused and changes nothing.
\<close>

definition releasable :: "block_map \<Rightarrow> nat \<Rightarrow> nat \<Rightarrow> bool" where
  "releasable m start len \<longleftrightarrow>
     (\<exists>(k, b) \<in> set m. \<not> ab_pool_expansion b \<and> k \<le> start \<and> start + len \<le> k + ab_size b)"

lemma PM_Release_cases:
  assumes inv: "pm_inv flexible pm" and len: "0 < len"
  shows "(\<exists>k b gpu. (k, b) \<in> set (pm_physical pm) \<and> \<not> ab_pool_expansion b \<and> k \<le> start \<and>
      start + len \<le> k + ab_size b \<and>
      PM_Release pm start len = (Some (0, if start = k \<and> len = ab_size b then ab_map_size b else 0, gpu),
        pm\<lparr>pm_physical := cut_block (pm_physical pm) k b start (start + len),
           pm_free := AddFreeRange (pm_free pm) start len\<rparr>)) \<or>
    PM_Release pm start len = (None, pm) \<and> \<not> releasable (pm_physical pm) start len"
proof -
  have bi: "blocks_inv (pm_physical pm)" using inv by (simp add: pm_inv_def)
  show ?thesis
  proof (cases "block_at (pm_physical pm) start")
    case None
    have "\<not> releasable (pm_physical pm) start len"
      using block_at_None [OF bi None] unfolding releasable_def by fastforce
    then show ?thesis using None by (simp add: PM_Release_def)
  next
    case (Some p)
    obtain k b where p: "p = (k, b)" by (cases p)
    note at = block_at_Some [OF bi Some [unfolded p]]
    from blocks_inv_entry [OF bi at(1)] have b: "ab_start_addr b = k" "0 < ab_size b"
      "k + ab_size b \<le> u64_max" "ab_map_vaddr b = 0" by (simp_all add: block_ok_def)
    show ?thesis
    proof (cases "\<not> ab_pool_expansion b \<and> start + len \<le> k + ab_size b")
      case False
      have "(k', b') = (k, b)" if "(k', b') \<in> set (pm_physical pm)" "k' \<le> start" "start + len \<le> k' + ab_size b'" for k' b'
      proof -
        have "start < k' + ab_size b'" using that(3) len by simp
        from block_at_holds [OF bi that(1,2) this] Some p show ?thesis by simp
      qed
      then have "\<not> releasable (pm_physical pm) start len"
        using False unfolding releasable_def by blast
      moreover have "PM_Release pm start len = (None, pm)"
      proof (cases "ab_pool_expansion b \<or> start \<ge> k + ab_size b")
        case True
        then show ?thesis using Some b by (auto simp: PM_Release_def p)
      next
        case notpool: False
        then have "len > sub64 (k + ab_size b) start" using False b(3) by auto
        then show ?thesis using Some b by (simp add: PM_Release_def p)
      qed
      ultimately show ?thesis by blast
    next
      case True
      have lt: "start < k + ab_size b" "start + len \<le> u64_max" using True len b(3) by auto
      have fit: "\<not> (ab_pool_expansion b \<or> start < ab_start_addr b \<or>
          start \<ge> add64 (ab_start_addr b) (ab_size b) \<or>
          len > sub64 (add64 (ab_start_addr b) (ab_size b)) start)"
        using True lt at(2) b by auto
      have key: "k \<in> fst ` set (pm_physical pm)" using at(1) by force
      note mset = map_set_emplace [OF blocks_inv_sorted [OF bi] key]
      have "PM_Release pm start len = (Some (0, if start = k \<and> len = ab_size b then ab_map_size b else 0, ab_gpu_mode b),
          pm\<lparr>pm_physical := cut_block (pm_physical pm) k b start (start + len),
             pm_free := AddFreeRange (pm_free pm) start len\<rparr>)"
      proof -
        have sub: "sub64 (k + ab_size b) (start + len) = k + ab_size b - (start + len)"
          using True b(3) by simp
        consider "start = k" "len = ab_size b" | "k < start" "start + len < k + ab_size b"
          | "start = k" "len < ab_size b" | "k < start" "start + len = k + ab_size b"
          using True at(2) by linarith
        then show ?thesis
          unfolding PM_Release_def Some p option.case prod.case Let_def if_not_P [OF fit]
          by cases (use b lt sub in \<open>simp_all add: cut_block_def left_part_def right_part_def mset Let_def\<close>)
      qed
      with True at show ?thesis by blast
    qed
  qed
qed

text \<open>Only the bytes taken out change their owner.\<close>

lemma byte_owner_cut:
  assumes inv: "blocks_inv m" and kb: "(k, b) \<in> set m" and r: "k \<le> start" "start < fin" "fin \<le> k + ab_size b"
  shows "byte_owner (cut_block m k b start fin) x = (if start \<le> x \<and> x < fin then None else byte_owner m x)"
proof (cases "start \<le> x \<and> x < fin")
  case True
  then have "x \<notin> block_bytes (cut_block m k b start fin)" unfolding cut_block_ok(3) [OF assms] by simp
  with True show ?thesis by (simp add: byte_owner_None)
next
  case False
  have ks: "ab_start_addr b = k" using blocks_inv_entry [OF inv kb] by (simp add: block_ok_def)
  define T where "T b = (ab_memory_type b, ab_pool_expansion b)" for b :: AllocatedBlock
  have T: "T (left_part start b) = T b" "T (right_part fin b) = T b"
    by (simp_all add: T_def left_part_def right_part_def)
  have "(\<exists>k' b'. (k', b') \<in> set (cut_block m k b start fin) \<and> k' \<le> x \<and> x < k' + ab_size b' \<and> y = T b') \<longleftrightarrow>
    (\<exists>k' b'. (k', b') \<in> set m \<and> k' \<le> x \<and> x < k' + ab_size b' \<and> y = T b')" (is "?L = ?R") for y
  proof
    assume ?L
    then obtain k' b' where h: "(k', b') \<in> set (cut_block m k b start fin)" "k' \<le> x" "x < k' + ab_size b'"
      "y = T b'" by blast
    from h(1) consider "(k', b') \<in> set m" | "(k', b') \<in> cut_entries k b start fin"
      unfolding cut_block_ok(2) [OF assms] by blast
    then show ?R
    proof cases
      case 2
      then have "k \<le> x \<and> x < k + ab_size b \<and> y = T b"
        using h r T by (auto simp: cut_entries_def left_part_def right_part_def ks split: if_splits)
      with kb show ?R by blast
    qed (use h in blast)
  next
    assume ?R
    then obtain k' b' where h: "(k', b') \<in> set m" "k' \<le> x" "x < k' + ab_size b'" "y = T b'" by blast
    show ?L
    proof (cases "(k', b') = (k, b)")
      case True
      then have "x < start \<and> k < start \<or> fin \<le> x \<and> fin < k + ab_size b" using False h by auto
      then show ?L
      proof
        assume "x < start \<and> k < start"
        then have "(k, left_part start b) \<in> set (cut_block m k b start fin)" "x < k + ab_size (left_part start b)"
          unfolding cut_block_ok(2) [OF assms] by (auto simp: cut_entries_def left_part_def ks)
        with h T True show ?L by (metis prod.inject)
      next
        assume "fin \<le> x \<and> fin < k + ab_size b"
        then have "(fin, right_part fin b) \<in> set (cut_block m k b start fin)" "fin \<le> x"
          "x < fin + ab_size (right_part fin b)"
          unfolding cut_block_ok(2) [OF assms] using h True by (auto simp: cut_entries_def right_part_def ks)
        with h T True show ?L by (metis prod.inject)
      qed
    qed (use h in \<open>auto simp: cut_block_ok(2) [OF assms]\<close>)
  qed
  then have "byte_owner (cut_block m k b start fin) x = Some y \<longleftrightarrow> byte_owner m x = Some y" for y
    unfolding byte_owner_Some [OF inv] byte_owner_Some [OF cut_block_ok(1) [OF assms]] T_def .
  then have "byte_owner (cut_block m k b start fin) x = byte_owner m x"
    by (metis not_Some_eq)
  with False show ?thesis by auto
qed

lemma byte_owner_add:
  assumes "blocks_inv m" "blocks_inv m'" "set m' = insert (k, b) (set m)"
    "{k..<k + ab_size b} \<inter> block_bytes m = {}"
  shows "byte_owner m' x = (if k \<le> x \<and> x < k + ab_size b then Some (ab_memory_type b, ab_pool_expansion b)
    else byte_owner m x)"
proof (cases "k \<le> x \<and> x < k + ab_size b")
  case True
  then have "byte_owner m' x = Some (ab_memory_type b, ab_pool_expansion b)"
    unfolding byte_owner_Some [OF assms(2)] assms(3) by blast
  with True show ?thesis by simp
next
  case False
  then have "byte_owner m' x = Some y \<longleftrightarrow> byte_owner m x = Some y" for y
    unfolding byte_owner_Some [OF assms(1)] byte_owner_Some [OF assms(2)] assms(3) by blast
  then have "byte_owner m' x = byte_owner m x" by (metis not_Some_eq)
  with False show ?thesis by auto
qed

section \<open>Histories\<close>

text \<open>The calls on the memory; a call answers with an address or refuses.\<close>

datatype pm_op =
  Op_Alloc nat nat nat nat u32 bool
| Op_Release nat nat
| Op_ReleasePool nat nat
| Op_Map nat nat nat u32 Mode GpuAccessMode
| Op_Unmap nat nat
| Op_ProtectMapping nat nat u32 Mode GpuAccessMode
| Op_SetName nat nat "string option"
| Op_SetMemoryType nat nat u32

fun pm_op_valid :: "pm_op \<Rightarrow> bool" where
  "pm_op_valid (Op_Alloc ss se len al ty pool) = (0 < len)"
| "pm_op_valid (Op_Release start len) = (0 < len)"
| "pm_op_valid _ = True"

fun pm_step :: "nat \<Rightarrow> physical_memory \<Rightarrow> pm_op \<Rightarrow> (nat option \<times> physical_memory) outcome" where
  "pm_step flexible pm (Op_Alloc ss se len al ty pool) = PM_Alloc flexible pm ss se len al ty pool"
| "pm_step flexible pm (Op_Release start len) =
     (let (r, pm) = PM_Release pm start len in Ret (map_option (\<lambda>_. start) r, pm))"
| "pm_step flexible pm (Op_ReleasePool start len) =
     (let (r, pm) = PM_ReleasePoolExpansion pm start len in Ret (if r then Some start else None, pm))"
| "pm_step flexible pm (Op_Map vaddr phys len prot mode gpu) =
     (let (r, pm) = PM_Map pm vaddr phys len prot mode gpu in Ret (if r then Some vaddr else None, pm))"
| "pm_step flexible pm (Op_Unmap vaddr sz) =
     (let (r, pm) = PM_Unmap pm vaddr sz in Ret (map_option (\<lambda>_. vaddr) r, pm))"
| "pm_step flexible pm (Op_ProtectMapping vaddr sz prot mode gpu) =
     Ret (Some vaddr, PM_ProtectMapping pm vaddr sz prot mode gpu)"
| "pm_step flexible pm (Op_SetName vaddr len name) =
     Ret (Some vaddr, PM_SetVirtualRangeName pm vaddr len name)"
| "pm_step flexible pm (Op_SetMemoryType vaddr len ty) =
     Ret (Some vaddr, PM_SetVirtualRangeMemoryType pm vaddr len ty)"

fun pm_run :: "nat \<Rightarrow> physical_memory \<Rightarrow> pm_op list \<Rightarrow> (nat option list \<times> physical_memory) outcome" where
  "pm_run flexible pm [] = Ret ([], pm)"
| "pm_run flexible pm (op # ops) =
     obind (pm_step flexible pm op) (\<lambda>(r, pm).
       omap (\<lambda>(rs, pm). (r # rs, pm)) (pm_run flexible pm ops))"

text \<open>
  The abstract memory: who owns each byte. An allocation gives its bytes to the new owner,
  a release takes them away, and nothing else changes an owner.
\<close>

fun owner_step :: "pm_op \<Rightarrow> nat option \<Rightarrow> (nat \<Rightarrow> (u32 \<times> bool) option) \<Rightarrow> nat \<Rightarrow> (u32 \<times> bool) option" where
  "owner_step (Op_Alloc ss se len al ty pool) (Some a) f =
     (\<lambda>x. if a \<le> x \<and> x < a + len then Some (ty, pool) else f x)"
| "owner_step (Op_Release start len) (Some _) f = (\<lambda>x. if start \<le> x \<and> x < start + len then None else f x)"
| "owner_step (Op_ReleasePool start len) (Some _) f = (\<lambda>x. if start \<le> x \<and> x < start + len then None else f x)"
| "owner_step _ _ f = f"

fun owner_run :: "(nat \<Rightarrow> (u32 \<times> bool) option) \<Rightarrow> pm_op list \<Rightarrow> nat option list \<Rightarrow> nat \<Rightarrow> (u32 \<times> bool) option" where
  "owner_run f (op # ops) (r # rs) = owner_run (owner_step op r f) ops rs"
| "owner_run f _ _ = f"

lemma block_part_released:
  assumes inv: "pm_inv flexible pm" and kb: "(k, b) \<in> set (pm_physical pm)"
    and r: "k \<le> start" "0 < len" "start + len \<le> k + ab_size b"
  defines "pm' \<equiv> pm\<lparr>pm_physical := cut_block (pm_physical pm) k b start (start + len),
    pm_free := AddFreeRange (pm_free pm) start len\<rparr>"
  shows "pm_inv flexible pm'" "free_bytes (pm_free pm') = free_bytes (pm_free pm) \<union> {start..<start + len}"
    "byte_owner (pm_physical pm') x =
       (if start \<le> x \<and> x < start + len then None else byte_owner (pm_physical pm) x)"
proof -
  have fi: "free_inv (pm_free pm)" and bi: "blocks_inv (pm_physical pm)"
    and bal: "balanced (free_bytes (pm_free pm)) (block_bytes (pm_physical pm)) (pm_bytes flexible)"
    using inv by (simp_all add: pm_inv_def)
  have max: "start + len \<le> u64_max" using blocks_inv_entry [OF bi kb] r(3) by (simp add: block_ok_def)
  have lt: "start < start + len" using r(2) by simp
  note cut = cut_block_ok [OF bi kb r(1) lt r(3)]
  have "{start..<start + len} \<subseteq> block_bytes (pm_physical pm)"
    using kb r unfolding block_bytes_iff subset_iff by (metis atLeastLessThan_iff le_trans less_le_trans)
  note gb = fr.give_balanced [OF fi bal this r(2) max]
  show "pm_inv flexible pm'"
    using inv gb cut(1,3) by (simp add: pm_inv_def pm'_def)
  show "free_bytes (pm_free pm') = free_bytes (pm_free pm) \<union> {start..<start + len}"
    using fr.give_ok [OF fi r(2) max] by (simp add: pm'_def)
  show "byte_owner (pm_physical pm') x =
       (if start \<le> x \<and> x < start + len then None else byte_owner (pm_physical pm) x)"
    using byte_owner_cut [OF bi kb r(1) lt r(3)] by (simp add: pm'_def)
qed

lemma whole_block_cut: "0 < ab_size b \<Longrightarrow> cut_block m k b k (k + ab_size b) = map_erase k m"
  by (simp add: cut_block_def)

lemma pm_step_ok:
  assumes inv: "pm_inv flexible pm" and valid: "pm_op_valid op"
  shows "\<exists>r pm'. pm_step flexible pm op = Ret (r, pm') \<and> pm_inv flexible pm' \<and>
    byte_owner (pm_physical pm') = owner_step op r (byte_owner (pm_physical pm))"
proof -
  have same: "pm_inv flexible pm'" if "pm_free pm' = pm_free pm" "pm_physical pm' = pm_physical pm" for pm'
    using inv that by (simp add: pm_inv_def)
  have bi: "blocks_inv (pm_physical pm)" using inv by (simp add: pm_inv_def)
  show ?thesis
  proof (cases op)
    case (Op_Alloc ss se len al ty pool)
    then have len: "0 < len" using valid by simp
    from PM_Alloc_cases [OF inv len, of ss se al ty pool] show ?thesis
    proof (elim disjE exE conjE)
      fix a pm' assume a: "PM_Alloc flexible pm ss se len al ty pool = Ret (Some a, pm')"
        "fits_at flexible pm ss se len al a" "pm_inv flexible pm'"
        "set (pm_physical pm') = insert (a, new_block a len ty pool) (set (pm_physical pm))"
      have bal: "balanced (free_bytes (pm_free pm)) (block_bytes (pm_physical pm)) (pm_bytes flexible)"
        using inv by (simp add: pm_inv_def)
      have "{a..<a + ab_size (new_block a len ty pool)} \<inter> block_bytes (pm_physical pm) = {}"
        using a(2) bal unfolding fits_at_def balanced_def new_block_def by auto
      moreover have "blocks_inv (pm_physical pm')" using a(3) by (simp add: pm_inv_def)
      ultimately have "byte_owner (pm_physical pm') x =
          (if a \<le> x \<and> x < a + len then Some (ty, pool) else byte_owner (pm_physical pm) x)" for x
        using byte_owner_add [OF bi _ a(4), of x] by (simp add: new_block_def)
      with a show ?thesis by (auto simp: Op_Alloc)
    qed (use inv in \<open>auto simp: Op_Alloc\<close>)
  next
    case (Op_Release start len)
    then have len: "0 < len" using valid by simp
    from PM_Release_cases [OF inv len, of start] show ?thesis
    proof (elim disjE exE conjE)
      fix k b gpu assume kb: "(k, b) \<in> set (pm_physical pm)" "k \<le> start" "start + len \<le> k + ab_size b"
        "PM_Release pm start len = (Some (0, if start = k \<and> len = ab_size b then ab_map_size b else 0, gpu),
          pm\<lparr>pm_physical := cut_block (pm_physical pm) k b start (start + len),
             pm_free := AddFreeRange (pm_free pm) start len\<rparr>)"
      with block_part_released [OF inv kb(1,2) len kb(3)] show ?thesis by (auto simp: Op_Release)
    qed (use inv in \<open>auto simp: Op_Release\<close>)
  next
    case (Op_ReleasePool start len)
    show ?thesis
    proof (cases "map_of (pm_physical pm) start")
      case (Some b)
      then have kb: "(start, b) \<in> set (pm_physical pm)" by (rule map_of_SomeD)
      have "0 < ab_size b" using blocks_inv_entry [OF bi kb] by (simp add: block_ok_def)
      with block_part_released [OF inv kb, of start "ab_size b"] inv Some show ?thesis
        by (cases "ab_pool_expansion b \<and> ab_size b = len")
          (auto simp: Op_ReleasePool PM_ReleasePoolExpansion_def whole_block_cut)
    qed (use inv in \<open>simp add: Op_ReleasePool PM_ReleasePoolExpansion_def\<close>)
  qed (auto simp: PM_Map_def PM_Unmap_def PM_ProtectMapping_def PM_SetVirtualRangeName_def
      PM_SetVirtualRangeMemoryType_def Let_def intro!: same split: option.splits)
qed

lemma pm_run_ok:
  "pm_inv flexible pm \<Longrightarrow> list_all pm_op_valid ops \<Longrightarrow>
   \<exists>rs pm'. pm_run flexible pm ops = Ret (rs, pm') \<and> pm_inv flexible pm' \<and>
     byte_owner (pm_physical pm') = owner_run (byte_owner (pm_physical pm)) ops rs"
proof (induction ops arbitrary: pm)
  case (Cons op ops)
  from pm_step_ok [OF Cons.prems(1), of op] Cons.prems(2) obtain r pm1 where
    s: "pm_step flexible pm op = Ret (r, pm1)" "pm_inv flexible pm1"
      "byte_owner (pm_physical pm1) = owner_step op r (byte_owner (pm_physical pm))" by auto
  from Cons.IH [OF s(2)] Cons.prems(2) obtain rs pm2 where
    "pm_run flexible pm1 ops = Ret (rs, pm2)" "pm_inv flexible pm2"
    "byte_owner (pm_physical pm2) = owner_run (byte_owner (pm_physical pm1)) ops rs" by auto
  with s show ?case by simp
qed simp

lemma byte_owner_Nil: "byte_owner [] = (\<lambda>_. None)"
  by (simp add: byte_owner_def fun_eq_iff)

lemma pm_inv_free:
  "pm_inv flexible pm \<Longrightarrow>
   free_bytes (pm_free pm) = {a. a < PM_TotalSize - flexible \<and> byte_owner (pm_physical pm) a = None}"
  unfolding pm_inv_def balanced_def pm_bytes_def byte_owner_None by auto

lemma pm_inv_owned:
  "pm_inv flexible pm \<Longrightarrow> byte_owner (pm_physical pm) a \<noteq> None \<Longrightarrow> a < PM_TotalSize - flexible"
  unfolding pm_inv_def balanced_def pm_bytes_def byte_owner_None by auto

section \<open>Properties\<close>

text \<open>
  C13: from the memory as it is built, no history of calls with non-empty ranges ends the
  process; afterwards every byte of the memory has the owner that the answered allocations
  and releases give it, and the free map holds exactly the bytes without an owner.
\<close>

theorem physical_memory_history:
  assumes "flexible < PM_TotalSize" "list_all pm_op_valid ops"
  shows "\<exists>pm0 rs pm. PM_new flexible = Ret pm0 \<and> pm_run flexible pm0 ops = Ret (rs, pm) \<and>
    byte_owner (pm_physical pm) = owner_run (\<lambda>_. None) ops rs \<and>
    free_bytes (pm_free pm) =
      {a. a < PM_TotalSize - flexible \<and> owner_run (\<lambda>_. None) ops rs a = None} \<and>
    (\<forall>a. owner_run (\<lambda>_. None) ops rs a \<noteq> None \<longrightarrow> a < PM_TotalSize - flexible)"
proof -
  obtain pm0 where pm0: "PM_new flexible = Ret pm0" "pm_inv flexible pm0"
    using PM_new_ok [OF assms(1)] by blast
  have "pm_physical pm0 = []" using pm0(1) assms(1) by (auto simp: PM_new_def PM_Size_def)
  then have o0: "byte_owner (pm_physical pm0) = (\<lambda>_. None)" by (simp add: byte_owner_Nil)
  from pm_run_ok [OF pm0(2) assms(2)] obtain rs pm where r: "pm_run flexible pm0 ops = Ret (rs, pm)"
    "pm_inv flexible pm" "byte_owner (pm_physical pm) = owner_run (\<lambda>_. None) ops rs"
    unfolding o0 by blast
  show ?thesis
  proof (intro exI conjI)
    show "free_bytes (pm_free pm) =
        {a. a < PM_TotalSize - flexible \<and> owner_run (\<lambda>_. None) ops rs a = None}"
      using pm_inv_free [OF r(2)] unfolding r(3) .
    show "\<forall>a. owner_run (\<lambda>_. None) ops rs a \<noteq> None \<longrightarrow> a < PM_TotalSize - flexible"
      using pm_inv_owned [OF r(2)] unfolding r(3) by blast
  qed (use pm0(1) r(1,3) in simp_all)
qed

theorem physical_memory_history_witness:
  "\<exists>pm0 rs pm. PM_new 4096 = Ret pm0 \<and>
    pm_run 4096 pm0 [Op_Alloc 0 65536 16384 16384 3 False, Op_Release 4096 64] = Ret (rs, pm) \<and>
    byte_owner (pm_physical pm) =
      owner_run (\<lambda>_. None) [Op_Alloc 0 65536 16384 16384 3 False, Op_Release 4096 64] rs"
  using physical_memory_history
    [of 4096 "[Op_Alloc 0 65536 16384 16384 3 False, Op_Release 4096 64]"]
  by (simp add: PM_TotalSize_def) blast

text \<open>
  C14: an allocation returns the lowest aligned address in the search window from which on
  the whole length is free, and hands exactly these bytes to the new owner; it refuses,
  and changes nothing, only where the window has no such address.
\<close>

theorem alloc_first_fit:
  assumes "pm_inv flexible pm" "0 < len"
  shows "(\<exists>a pm'. PM_Alloc flexible pm ss se len al ty pool = Ret (Some a, pm') \<and>
      fits_at flexible pm ss se len al a \<and> (\<forall>a'. fits_at flexible pm ss se len al a' \<longrightarrow> a \<le> a') \<and>
      pm_inv flexible pm' \<and> (\<forall>x. byte_owner (pm_physical pm') x =
        (if a \<le> x \<and> x < a + len then Some (ty, pool) else byte_owner (pm_physical pm) x))) \<or>
    PM_Alloc flexible pm ss se len al ty pool = Ret (None, pm) \<and>
      (\<forall>a. \<not> fits_at flexible pm ss se len al a)"
proof -
  have "pm_op_valid (Op_Alloc ss se len al ty pool)" using assms(2) by simp
  from pm_step_ok [OF assms(1) this] obtain r pm' where
    s: "PM_Alloc flexible pm ss se len al ty pool = Ret (r, pm')" "pm_inv flexible pm'"
      "byte_owner (pm_physical pm') =
        owner_step (Op_Alloc ss se len al ty pool) r (byte_owner (pm_physical pm))" by auto
  from PM_Alloc_cases [OF assms, of ss se al ty pool] s show ?thesis by auto
qed

theorem alloc_first_fit_witness:
  "\<exists>pm pm'. PM_new (PM_TotalSize - 100) = Ret pm \<and>
    PM_Alloc (PM_TotalSize - 100) pm 10 90 20 16 3 False = Ret (Some 16, pm')"
proof -
  have "PM_TotalSize - 100 < PM_TotalSize" by (simp add: PM_TotalSize_def)
  then obtain pm where pm: "PM_new (PM_TotalSize - 100) = Ret pm" "pm_inv (PM_TotalSize - 100) pm"
    using PM_new_ok by blast
  have fb: "free_bytes (pm_free pm) = {..<100}"
    using pm(1) by (auto simp: PM_new_def PM_Size_def PM_TotalSize_def)
  have fit: "fits_at (PM_TotalSize - 100) pm 10 90 20 16 16"
    by (auto simp: fits_at_def aligned_to_def fb)
  have only: "a = 16" if "fits_at (PM_TotalSize - 100) pm 10 90 20 16 a" "a \<le> 16" for a
    using that by (auto simp: fits_at_def aligned_to_def elim!: dvdE)
  have "(0::nat) < 20" by simp
  from alloc_first_fit [OF pm(2) this, of 10 90 16 3 False] fit
  obtain a pm' where "PM_Alloc (PM_TotalSize - 100) pm 10 90 20 16 3 False = Ret (Some a, pm')"
    "fits_at (PM_TotalSize - 100) pm 10 90 20 16 a" "a \<le> 16" by blast
  with only pm(1) show ?thesis by blast
qed

text \<open>
  \<open>Available\<close> returns an aligned address in the window with the number of free bytes from
  there on, and no aligned address of the window has more; it fails only where no aligned
  byte of the window is free.
\<close>

theorem available_is_largest:
  assumes "pm_inv flexible pm"
  shows "(\<exists>a k. PM_Available flexible pm ss se al = Ret (Some (a, k)) \<and> 0 < k \<and>
      fits_at flexible pm ss se k al a \<and>
      (\<forall>a' k'. 0 < k' \<longrightarrow> fits_at flexible pm ss se k' al a' \<longrightarrow> k' \<le> k)) \<or>
    PM_Available flexible pm ss se al = Ret None \<and>
      (\<forall>a k. 0 < k \<longrightarrow> \<not> fits_at flexible pm ss se k al a)"
  by (rule PM_Available_cases [OF assms])

theorem available_is_largest_witness:
  "\<exists>pm a. PM_new (PM_TotalSize - 100) = Ret pm \<and>
    PM_Available (PM_TotalSize - 100) pm 10 90 16 = Ret (Some (a, 74))"
proof -
  have "PM_TotalSize - 100 < PM_TotalSize" by (simp add: PM_TotalSize_def)
  then obtain pm where pm: "PM_new (PM_TotalSize - 100) = Ret pm" "pm_inv (PM_TotalSize - 100) pm"
    using PM_new_ok by blast
  have fb: "free_bytes (pm_free pm) = {..<100}"
    using pm(1) by (auto simp: PM_new_def PM_Size_def PM_TotalSize_def)
  have fit: "fits_at (PM_TotalSize - 100) pm 10 90 74 16 16"
    by (auto simp: fits_at_def aligned_to_def fb)
  have most: "k \<le> 74" if f: "fits_at (PM_TotalSize - 100) pm 10 90 k 16 a" for a k
  proof -
    from f obtain j where "a = 16 * j" "10 \<le> 16 * j" "16 * j + k \<le> 90"
      by (auto simp: fits_at_def aligned_to_def elim!: dvdE)
    then show ?thesis by presburger
  qed
  have "(0::nat) < 74" by simp
  with available_is_largest [OF pm(2), of 10 90 16] fit
  obtain a k where "PM_Available (PM_TotalSize - 100) pm 10 90 16 = Ret (Some (a, k))"
    "fits_at (PM_TotalSize - 100) pm 10 90 k 16 a" "74 \<le> k" by blast
  with most [of k a] pm(1) show ?thesis by (metis le_antisym)
qed

text \<open>
  A release succeeds exactly when its bytes lie in one block that is not the pool's; it
  frees these bytes, which may split the block in two, and leaves every other byte with
  its owner. A refused release changes nothing.
\<close>

theorem release_frees_exactly:
  assumes "pm_inv flexible pm" "0 < len"
  shows "if releasable (pm_physical pm) start len
    then \<exists>r pm'. PM_Release pm start len = (Some r, pm') \<and> pm_inv flexible pm' \<and>
      free_bytes (pm_free pm') = free_bytes (pm_free pm) \<union> {start..<start + len} \<and>
      (\<forall>x. byte_owner (pm_physical pm') x =
        (if start \<le> x \<and> x < start + len then None else byte_owner (pm_physical pm) x))
    else PM_Release pm start len = (None, pm)"
  using PM_Release_cases [OF assms, of start]
proof (elim disjE exE conjE)
  fix k b gpu assume kb: "(k, b) \<in> set (pm_physical pm)" "\<not> ab_pool_expansion b" "k \<le> start"
    "start + len \<le> k + ab_size b"
    "PM_Release pm start len = (Some (0, if start = k \<and> len = ab_size b then ab_map_size b else 0, gpu),
      pm\<lparr>pm_physical := cut_block (pm_physical pm) k b start (start + len),
         pm_free := AddFreeRange (pm_free pm) start len\<rparr>)"
  then have "releasable (pm_physical pm) start len" unfolding releasable_def by blast
  with kb(5) block_part_released [OF assms(1) kb(1,3) assms(2) kb(4)] show ?thesis by auto
qed simp

end
