(* ===== verification/VirtualRanges.thy ===== *)
theory VirtualRanges
  imports FreeRanges
begin

text \<open>
  The class \<open>VirtualRanges\<close> of \<open>src/kernel/memory.cpp\<close>: what the guest's address space
  holds, as a vector of ranges in increasing order. An iterator into the vector is the
  pair of the ranges before it and the ranges from it on; the mutex makes every operation
  one step.
\<close>

section \<open>Ranges\<close>

record VRange =
  vr_start :: nat
  vr_size :: nat
  vr_offset :: nat
  vr_protection :: u32
  vr_memory_type :: u32
  vr_type :: VirtualRangeType
  vr_disallow_merge :: bool
  vr_name :: string

type_synonym virtual_ranges = "VRange list"

definition vr_End :: "nat \<Rightarrow> nat \<Rightarrow> nat" where
  "vr_End start sz = (if u64_max - start < sz then u64_max else start + sz)"

definition SameMergeKey :: "VRange \<Rightarrow> VRange \<Rightarrow> bool" where
  "SameMergeKey left right =
     (if vr_disallow_merge left \<or> vr_disallow_merge right \<or> vr_type left = Direct \<or>
         vr_type right = Direct then False
      else vr_type left = vr_type right \<and> vr_protection left = vr_protection right \<and>
        vr_memory_type left = vr_memory_type right \<and> vr_name left = vr_name right)"

definition mergeable :: "VRange \<Rightarrow> VRange \<Rightarrow> bool" where
  "mergeable left right \<longleftrightarrow>
     vr_End (vr_start left) (vr_size left) = vr_start right \<and> SameMergeKey left right"

definition absorb :: "VRange \<Rightarrow> VRange \<Rightarrow> VRange" where
  "absorb left right = left\<lparr>vr_size := add64 (vr_size left) (vr_size right)\<rparr>"

text \<open>\<open>AddPiece\<close> appends at most one range to the vector it is given.\<close>

definition AddPiece :: "VRange \<Rightarrow> nat \<Rightarrow> nat \<Rightarrow> VRange list" where
  "AddPiece source start fin =
     (if fin \<le> start then []
      else
        let piece = source\<lparr>vr_start := start, vr_size := fin - start\<rparr> in
        [if vr_type piece = Direct
         then piece\<lparr>vr_offset := add64 (vr_offset piece) (sub64 start (vr_start source))\<rparr>
         else piece])"

section \<open>Searching and merging\<close>

definition vr_lower :: "nat \<Rightarrow> virtual_ranges \<Rightarrow> virtual_ranges \<times> virtual_ranges" where
  "vr_lower start rs =
     (takeWhile (\<lambda>r. vr_start r < start) rs, dropWhile (\<lambda>r. vr_start r < start) rs)"

definition vr_upper :: "nat \<Rightarrow> virtual_ranges \<Rightarrow> virtual_ranges \<times> virtual_ranges" where
  "vr_upper addr rs =
     (takeWhile (\<lambda>r. vr_start r \<le> addr) rs, dropWhile (\<lambda>r. vr_start r \<le> addr) rs)"

definition FindOverlap :: "virtual_ranges \<Rightarrow> nat \<Rightarrow> nat \<Rightarrow> VRange option" where
  "FindOverlap rs start sz =
     (let (before, it) = vr_lower start rs in
      if it \<noteq> [] \<and> VirtualRangesOverlap start sz (vr_start (hd it)) (vr_size (hd it))
      then Some (hd it)
      else if before \<noteq> [] \<and>
        VirtualRangesOverlap start sz (vr_start (last before)) (vr_size (last before))
      then Some (last before)
      else None)"

fun merge_following :: "VRange \<Rightarrow> VRange list \<Rightarrow> VRange list" where
  "merge_following current [] = [current]"
| "merge_following current (next_range # rest) =
     (if \<not> mergeable current next_range then current # next_range # rest
      else merge_following (absorb current next_range) rest)"

definition MergeAroundUnlocked :: "virtual_ranges \<Rightarrow> nat \<Rightarrow> virtual_ranges" where
  "MergeAroundUnlocked rs index =
     (if index \<ge> length rs then rs
      else
        let before = take index rs; current = rs ! index; rest = drop (Suc index) rs in
        if before \<noteq> [] \<and> mergeable (last before) current
        then butlast before @ merge_following (absorb (last before) current) rest
        else before @ merge_following current rest)"

definition merge_into :: "VRange list \<Rightarrow> VRange \<Rightarrow> VRange list" where
  "merge_into merged r =
     (if merged \<noteq> [] \<and> mergeable (last merged) r
      then butlast merged @ [absorb (last merged) r]
      else merged @ [r])"

definition MergeUnlocked :: "virtual_ranges \<Rightarrow> virtual_ranges" where
  "MergeUnlocked rs =
     (if length rs < 2 then rs else foldl merge_into [] (sort_key vr_start rs))"

section \<open>Cutting and editing\<close>

definition remove_pieces :: "nat \<Rightarrow> nat \<Rightarrow> VRange \<Rightarrow> VRange list" where
  "remove_pieces start sz r =
     (let rem_end = vr_End start sz; r_end = vr_End (vr_start r) (vr_size r) in
      if \<not> VirtualRangesOverlap start sz (vr_start r) (vr_size r) then [r]
      else AddPiece r (vr_start r) (max start (vr_start r)) @ AddPiece r (min rem_end r_end) r_end)"

definition RemoveUnlocked :: "virtual_ranges \<Rightarrow> nat \<Rightarrow> nat \<Rightarrow> bool \<times> virtual_ranges" where
  "RemoveUnlocked rs start sz =
     (if sz = 0 then (False, rs)
      else (\<exists>r \<in> set rs. VirtualRangesOverlap start sz (vr_start r) (vr_size r),
        concat (map (remove_pieces start sz) rs)))"

definition edit_pieces :: "(VRange \<Rightarrow> VRange) \<Rightarrow> nat \<Rightarrow> nat \<Rightarrow> VRange \<Rightarrow> VRange list" where
  "edit_pieces edit start sz r =
     (let edit_end = vr_End start sz; r_end = vr_End (vr_start r) (vr_size r) in
      if \<not> VirtualRangesOverlap start sz (vr_start r) (vr_size r) then [r]
      else
        let mid_start = max start (vr_start r); mid_end = min edit_end r_end;
            mid = r\<lparr>vr_start := mid_start, vr_size := sub64 mid_end mid_start\<rparr>;
            mid = (if vr_type mid = Direct
                   then mid\<lparr>vr_offset := add64 (vr_offset mid) (sub64 mid_start (vr_start r))\<rparr>
                   else mid) in
        AddPiece r (vr_start r) mid_start @ [edit mid] @ AddPiece r mid_end r_end)"

definition EditUnlocked :: "virtual_ranges \<Rightarrow> nat \<Rightarrow> nat \<Rightarrow> (VRange \<Rightarrow> VRange) \<Rightarrow> virtual_ranges" where
  "EditUnlocked rs start sz edit =
     (if sz = 0 then rs else MergeUnlocked (concat (map (edit_pieces edit start sz) rs)))"

section \<open>The operations\<close>

definition VR_Add :: "virtual_ranges \<Rightarrow> nat \<Rightarrow> nat \<Rightarrow> nat \<Rightarrow> u32 \<Rightarrow> u32 \<Rightarrow> VirtualRangeType \<Rightarrow>
    string option \<Rightarrow> bool \<Rightarrow> bool \<times> virtual_ranges" where
  "VR_Add rs start sz offset protection memory_type ty name disallow_merge =
     (if start = 0 \<or> sz = 0 then (False, rs)
      else
        let (before, it) = vr_lower start rs in
        if it \<noteq> [] \<and> VirtualRangesOverlap start sz (vr_start (hd it)) (vr_size (hd it)) \<or>
           before \<noteq> [] \<and>
             VirtualRangesOverlap start sz (vr_start (last before)) (vr_size (last before))
        then (False, rs)
        else
          let r = \<lparr>vr_start = start, vr_size = sz, vr_offset = offset, vr_protection = protection,
                   vr_memory_type = memory_type, vr_type = ty, vr_disallow_merge = disallow_merge,
                   vr_name = CopyVirtualRangeName name\<rparr> in
          (True, MergeAroundUnlocked (before @ r # it) (length before)))"

definition VR_Remove :: "virtual_ranges \<Rightarrow> nat \<Rightarrow> nat \<Rightarrow> bool \<times> virtual_ranges" where
  "VR_Remove rs start sz =
     (let (before, it) = vr_lower start rs in
      if it \<noteq> [] \<and> vr_start (hd it) = start \<and> vr_size (hd it) = sz then (True, before @ tl it)
      else
        let (removed, rs) = RemoveUnlocked rs start sz in (removed, MergeUnlocked rs))"

definition VR_HasOverlap :: "virtual_ranges \<Rightarrow> nat \<Rightarrow> nat \<Rightarrow> bool" where
  "VR_HasOverlap rs start sz \<longleftrightarrow> FindOverlap rs start sz \<noteq> None"

definition VR_QueryOverlap :: "virtual_ranges \<Rightarrow> nat \<Rightarrow> nat \<Rightarrow> VRange option" where
  "VR_QueryOverlap rs start sz = FindOverlap rs start sz"

definition VR_ReleaseReserved :: "virtual_ranges \<Rightarrow> nat \<Rightarrow> nat \<Rightarrow> bool \<times> virtual_ranges" where
  "VR_ReleaseReserved rs start sz =
     (case find_index (\<lambda>r. vr_start r = start \<and> vr_size r = sz \<and> IsReservedRangeType (vr_type r)) rs of
        Some index \<Rightarrow> (True, erase_at index rs)
      | None \<Rightarrow> (True, rs))"

definition VR_ConsumeReserved ::
    "virtual_ranges \<Rightarrow> nat \<Rightarrow> nat \<Rightarrow> VirtualRangeType \<Rightarrow> bool \<times> virtual_ranges" where
  "VR_ConsumeReserved rs start sz ty =
     (let fin = vr_End start sz in
      if \<exists>r \<in> set rs. vr_type r = ty \<and> start \<ge> vr_start r \<and> fin \<le> vr_End (vr_start r) (vr_size r)
      then (True, MergeUnlocked (snd (RemoveUnlocked rs start sz)))
      else (False, rs))"

text \<open>
  The walk of \<open>ConsumeReservedSpan\<close>: the ranges met from \<open>current\<close> on, as long as they have
  the type; a candidate always ends behind \<open>current\<close>.
\<close>

definition span_candidate :: "virtual_ranges \<Rightarrow> VirtualRangeType \<Rightarrow> nat \<Rightarrow> VRange option" where
  "span_candidate rs ty current =
     find (\<lambda>r. vr_type r = ty \<and> current \<ge> vr_start r \<and> current < vr_End (vr_start r) (vr_size r)) rs"

function span_walk :: "virtual_ranges \<Rightarrow> VirtualRangeType \<Rightarrow> nat \<Rightarrow> nat \<Rightarrow> bool" where
  "span_walk rs ty current fin =
     (if current < fin then
        (case span_candidate rs ty current of
           None \<Rightarrow> False
         | Some r \<Rightarrow> span_walk rs ty (min fin (vr_End (vr_start r) (vr_size r))) fin)
      else True)"
  by pat_completeness auto

termination
  by (relation "measure (\<lambda>(rs, ty, current, fin). fin - current)")
    (auto simp: span_candidate_def find_Some_iff)

declare span_walk.simps [simp del]

definition VR_ConsumeReservedSpan :: "virtual_ranges \<Rightarrow> nat \<Rightarrow> nat \<Rightarrow> VirtualRangeType \<Rightarrow>
    bool \<times> VRange option \<times> virtual_ranges" where
  "VR_ConsumeReservedSpan rs start sz ty =
     (if sz = 0 then (False, None, rs)
      else
        let fin = vr_End start sz;
            first = (if start < fin then span_candidate rs ty start else None) in
        if span_walk rs ty start fin
        then (True, first, MergeUnlocked (snd (RemoveUnlocked rs start sz)))
        else (False, first, rs))"

definition VR_Rename :: "virtual_ranges \<Rightarrow> nat \<Rightarrow> nat \<Rightarrow> string option \<Rightarrow> virtual_ranges" where
  "VR_Rename rs start sz name =
     (let (before, it) = vr_lower start rs in
      if it \<noteq> [] \<and> vr_start (hd it) = start \<and> vr_size (hd it) = sz
      then MergeAroundUnlocked
        (before @ (hd it)\<lparr>vr_name := CopyVirtualRangeName name\<rparr> # tl it) (length before)
      else EditUnlocked rs start sz (\<lambda>r. r\<lparr>vr_name := CopyVirtualRangeName name\<rparr>))"

definition VR_Protect :: "virtual_ranges \<Rightarrow> nat \<Rightarrow> nat \<Rightarrow> u32 \<Rightarrow> virtual_ranges" where
  "VR_Protect rs start sz protection =
     EditUnlocked rs start sz (\<lambda>r. r\<lparr>vr_protection := protection\<rparr>)"

definition VR_SetMemoryType :: "virtual_ranges \<Rightarrow> nat \<Rightarrow> nat \<Rightarrow> u32 \<Rightarrow> virtual_ranges" where
  "VR_SetMemoryType rs start sz memory_type =
     EditUnlocked rs start sz (\<lambda>r. r\<lparr>vr_memory_type := memory_type\<rparr>)"

definition VR_Query :: "virtual_ranges \<Rightarrow> nat \<Rightarrow> int \<Rightarrow> VRange option" where
  "VR_Query rs addr flags =
     (let (before, it) = vr_upper addr rs in
      if before \<noteq> [] \<and> addr < vr_End (vr_start (last before)) (vr_size (last before))
      then Some (last before)
      else if flags \<noteq> 1 \<or> it = [] then None
      else Some (hd it))"

text \<open>
  The loop of \<open>QuerySpan\<close>, with the parts found so far; \<open>None\<close> is the result false, which
  clears the output.
\<close>

fun query_loop :: "virtual_ranges \<Rightarrow> nat \<Rightarrow> nat \<Rightarrow> VRange list \<Rightarrow> VRange list option" where
  "query_loop [] current fin out = None"
| "query_loop (r # rs) current fin out =
     (let range_end = vr_End (vr_start r) (vr_size r) in
      if range_end \<le> current then query_loop rs current fin out
      else if vr_start r > current then None
      else
        let part = r\<lparr>vr_start := current, vr_size := sub64 (min fin range_end) current\<rparr>;
            part = (if vr_type part = Direct
                    then part\<lparr>vr_offset := add64 (vr_offset part) (sub64 current (vr_start r))\<rparr>
                    else part);
            current = add64 current (vr_size part) in
        if current = fin then Some (out @ [part]) else query_loop rs current fin (out @ [part]))"

definition VR_QuerySpan :: "virtual_ranges \<Rightarrow> nat \<Rightarrow> nat \<Rightarrow> VRange list option" where
  "VR_QuerySpan rs start sz =
     (if start = 0 \<or> sz = 0 \<or> sz > u64_max - start then None
      else query_loop rs start (start + sz) [])"

fun clamp_loop :: "virtual_ranges \<Rightarrow> nat \<Rightarrow> nat \<Rightarrow> nat \<Rightarrow> nat" where
  "clamp_loop [] expected clamped sz = clamped"
| "clamp_loop (vma # rs) expected clamped sz =
     (if vr_start vma = expected \<and> IsCommittedRangeType (vr_type vma) \<and> clamped < sz then
        let chunk = min (sz - clamped) (vr_size vma) in
        clamp_loop rs (add64 expected chunk) (add64 clamped chunk) sz
      else clamped)"

definition VR_ClampRangeSize :: "virtual_ranges \<Rightarrow> nat \<Rightarrow> nat \<Rightarrow> nat" where
  "VR_ClampRangeSize rs virtual_addr sz =
     (if virtual_addr = 0 \<or> sz = 0 \<or> sz > u64_max - virtual_addr then 0
      else
        let (before, it) = vr_upper virtual_addr rs in
        if before = [] then 0
        else
          let vma = last before; vma_end = vr_End (vr_start vma) (vr_size vma) in
          if virtual_addr < vr_start vma \<or> virtual_addr \<ge> vma_end \<or>
             \<not> IsCommittedRangeType (vr_type vma) then 0
          else
            let clamped = min sz (vma_end - virtual_addr) in
            clamp_loop it (add64 virtual_addr clamped) clamped sz)"

definition PAGE_TABLE_GRANULARITY :: nat where
  "PAGE_TABLE_GRANULARITY = 2 * 1024 * 1024"

definition page_table_entries :: "bool \<Rightarrow> VRange \<Rightarrow> nat" where
  "page_table_entries gpu r =
     (if \<not> IsCommittedRangeType (vr_type r) \<or> vr_size r = 0 then 0
      else
        let has_cpu_access =
              vr_protection r AND (PROT_CPU_READ OR PROT_CPU_WRITE OR PROT_CPU_EXEC) \<noteq> 0;
            has_gpu_access = vr_protection r AND (PROT_GPU_READ OR PROT_GPU_WRITE) \<noteq> 0 in
        if (if gpu then \<not> has_gpu_access else \<not> has_cpu_access) then 0
        else
          let fin = vr_End (vr_start r) (vr_size r);
              first_entry = vr_start r div PAGE_TABLE_GRANULARITY;
              last_entry = sub64 fin 1 div PAGE_TABLE_GRANULARITY in
          add64 (sub64 last_entry first_entry) 1)"

definition VR_CountPageTableEntries :: "virtual_ranges \<Rightarrow> bool \<Rightarrow> nat" where
  "VR_CountPageTableEntries rs gpu = foldl (\<lambda>used r. add64 used (page_table_entries gpu r)) 0 rs"

end
