(* ===== verification/VirtualMap.thy ===== *)
theory VirtualMap
  imports VirtualRanges
begin

text \<open>
  What \<open>VirtualRanges\<close> stands for: each byte of the address space is unmapped or has
  attributes. The vector keeps its ranges apart, in order and as large as their attributes
  allow, and every operation changes exactly the bytes it names.
\<close>

section \<open>The attributes of a byte\<close>

record vbyte =
  vb_protection :: u32
  vb_memory_type :: u32
  vb_type :: VirtualRangeType
  vb_disallow_merge :: bool
  vb_name :: string
  vb_backing :: "nat option"

definition covers :: "VRange \<Rightarrow> nat \<Rightarrow> bool" where
  "covers r a \<longleftrightarrow> vr_start r \<le> a \<and> a < vr_start r + vr_size r"

definition byte_of :: "VRange \<Rightarrow> nat \<Rightarrow> vbyte" where
  "byte_of r a = \<lparr>vb_protection = vr_protection r, vb_memory_type = vr_memory_type r,
     vb_type = vr_type r, vb_disallow_merge = vr_disallow_merge r, vb_name = vr_name r,
     vb_backing = (if vr_type r = Direct then Some (add64 (vr_offset r) (a - vr_start r)) else None)\<rparr>"

fun vmap :: "virtual_ranges \<Rightarrow> nat \<Rightarrow> vbyte option" where
  "vmap [] a = None"
| "vmap (r # rs) a = (if covers r a then Some (byte_of r a) else vmap rs a)"

section \<open>Well-formed vectors\<close>

definition vr_ok :: "VRange \<Rightarrow> bool" where
  "vr_ok r \<longleftrightarrow> 0 < vr_start r \<and> 0 < vr_size r \<and> vr_start r + vr_size r \<le> u64_max \<and>
     vr_offset r \<le> u64_max \<and> name_ok (vr_name r)"

definition apart :: "VRange \<Rightarrow> VRange \<Rightarrow> bool" where
  "apart r s \<longleftrightarrow> vr_start r + vr_size r \<le> vr_start s"

definition vr_wf :: "virtual_ranges \<Rightarrow> bool" where
  "vr_wf rs \<longleftrightarrow> list_all vr_ok rs \<and> sorted_wrt apart rs"

text \<open>No range could be merged with the next one.\<close>

definition unmerged :: "virtual_ranges \<Rightarrow> bool" where
  "unmerged rs \<longleftrightarrow> successively (\<lambda>r s. \<not> mergeable r s) rs"

definition vr_inv :: "virtual_ranges \<Rightarrow> bool" where
  "vr_inv rs \<longleftrightarrow> vr_wf rs \<and> unmerged rs"

lemma vr_wf_simps [simp]:
  "vr_wf []"
  "vr_wf (r # rs) \<longleftrightarrow> vr_ok r \<and> (\<forall>s \<in> set rs. apart r s) \<and> vr_wf rs"
  "vr_wf (rs @ ss) \<longleftrightarrow> vr_wf rs \<and> vr_wf ss \<and> (\<forall>r \<in> set rs. \<forall>s \<in> set ss. apart r s)"
  by (auto simp: vr_wf_def sorted_wrt_append)

lemma unmerged_simps [simp]:
  "unmerged []" "unmerged [r]"
  "unmerged (r # s # rs) \<longleftrightarrow> \<not> mergeable r s \<and> unmerged (s # rs)"
  by (simp_all add: unmerged_def)

lemma unmerged_append:
  "unmerged (rs @ ss) \<longleftrightarrow>
     unmerged rs \<and> unmerged ss \<and> (rs \<noteq> [] \<longrightarrow> ss \<noteq> [] \<longrightarrow> \<not> mergeable (last rs) (hd ss))"
  unfolding unmerged_def by (auto simp: successively_append_iff)

lemma vr_wf_ok: "vr_wf rs \<Longrightarrow> r \<in> set rs \<Longrightarrow> vr_ok r"
  by (auto simp: vr_wf_def list_all_iff)

lemma vr_ok_bounds: "vr_ok r \<Longrightarrow> 0 < vr_size r \<and> vr_start r + vr_size r \<le> u64_max \<and> 0 < vr_start r"
  by (simp add: vr_ok_def)

lemma vr_End_id [simp]: "a + n \<le> u64_max \<Longrightarrow> vr_End a n = a + n"
  by (auto simp: vr_End_def)

lemma vr_wf_sorted: "vr_wf rs \<Longrightarrow> sorted_wrt (\<lambda>r s. vr_start r < vr_start s) rs"
proof (induction rs)
  case (Cons r rs)
  then have "0 < vr_size r" by (simp add: vr_ok_def)
  with Cons show ?case by (auto simp: apart_def dest!: bspec)
qed simp

lemma vmap_append: "vmap (rs @ ss) a = (case vmap rs a of None \<Rightarrow> vmap ss a | Some x \<Rightarrow> Some x)"
  by (induction rs) auto

lemma vmap_None: "vmap rs a = None \<longleftrightarrow> (\<forall>r \<in> set rs. \<not> covers r a)"
  by (induction rs) auto

lemma vmap_after: "\<forall>s \<in> set rs. a < vr_start s \<Longrightarrow> vmap rs a = None"
  by (auto simp: vmap_None covers_def)

lemma vmap_covers:
  assumes "vr_wf rs" "r \<in> set rs" "covers r a"
  shows "vmap rs a = Some (byte_of r a)"
  using assms
proof (induction rs)
  case (Cons s rs)
  show ?case
  proof (cases "r = s")
    case False
    then have "r \<in> set rs" using Cons.prems by simp
    then have "apart s r" using Cons.prems by simp
    then have "\<not> covers s a" using Cons.prems(3) by (auto simp: covers_def apart_def)
    with Cons False show ?thesis by simp
  qed (use Cons in simp)
qed simp

lemma vmap_SomeD: "vmap rs a = Some x \<Longrightarrow> \<exists>r \<in> set rs. covers r a \<and> x = byte_of r a"
  by (induction rs) (auto split: if_splits)

section \<open>Replacing every range by pieces of it\<close>

definition inside :: "VRange \<Rightarrow> VRange list \<Rightarrow> bool" where
  "inside r ps \<longleftrightarrow> vr_wf ps \<and>
     (\<forall>p \<in> set ps. vr_start r \<le> vr_start p \<and> vr_start p + vr_size p \<le> vr_start r + vr_size r)"

lemma inside_append:
  "inside r ps \<Longrightarrow> inside r qs \<Longrightarrow> (\<And>p q. p \<in> set ps \<Longrightarrow> q \<in> set qs \<Longrightarrow> apart p q) \<Longrightarrow> inside r (ps @ qs)"
  unfolding inside_def vr_wf_simps(3) set_append by blast

lemma inside_not_covered: "inside r ps \<Longrightarrow> \<not> covers r a \<Longrightarrow> vmap ps a = None"
  unfolding vmap_None inside_def covers_def by fastforce

lemma pieces_wf:
  assumes "vr_wf rs" "\<And>r. r \<in> set rs \<Longrightarrow> inside r (f r)"
  shows "vr_wf (concat (map f rs))"
  using assms
proof (induction rs)
  case (Cons r rs)
  have "apart p q" if p: "p \<in> set (f r)" and q: "q \<in> set (concat (map f rs))" for p q
  proof -
    obtain s where s: "s \<in> set rs" "q \<in> set (f s)" using q by auto
    have "apart r s" using Cons.prems(1) s(1) by simp
    moreover have "inside r (f r)" "inside s (f s)" using Cons.prems(2) s(1) by simp_all
    ultimately show ?thesis using p s(2) unfolding inside_def apart_def by (meson le_trans)
  qed
  moreover have "vr_wf (f r)" using Cons.prems(2) by (simp add: inside_def)
  ultimately show ?case using Cons by simp
qed simp

lemma pieces_vmap:
  assumes "vr_wf rs" "\<And>r. r \<in> set rs \<Longrightarrow> inside r (f r)"
    "\<And>r a. r \<in> set rs \<Longrightarrow> covers r a \<Longrightarrow> vmap (f r) a = h a (byte_of r a)"
  shows "vmap (concat (map f rs)) a = Option.bind (vmap rs a) (h a)"
  using assms
proof (induction rs)
  case (Cons r rs)
  have IH: "vmap (concat (map f rs)) a = Option.bind (vmap rs a) (h a)"
    using Cons by simp
  show ?case
  proof (cases "covers r a")
    case True
    have "\<not> covers s a" if "s \<in> set rs" for s
      using Cons.prems(1) that True by (auto simp: apart_def covers_def)
    then have "vmap rs a = None" by (simp add: vmap_None)
    then have "vmap (concat (map f rs)) a = None" by (simp add: IH)
    with True Cons.prems(3) [of r a] show ?thesis by (simp add: vmap_append split: option.split)
  next
    case False
    have "vmap (f r) a = None" using inside_not_covered [OF Cons.prems(2) False] by simp
    with False IH show ?thesis by (simp add: vmap_append)
  qed
qed simp

lemma add64_add64: "add64 (add64 a b) c = add64 a (b + c)"
  by (simp add: add64_def mod_add_left_eq add.assoc)

lemma AddPiece_ok:
  assumes "vr_ok r" "vr_start r \<le> s" "e \<le> vr_start r + vr_size r"
  shows "inside r (AddPiece r s e)"
    and "vmap (AddPiece r s e) a = (if s \<le> a \<and> a < e then Some (byte_of r a) else None)"
    and "p \<in> set (AddPiece r s e) \<Longrightarrow> vr_start p = s \<and> vr_start p + vr_size p = e"
proof -
  have "sub64 s (vr_start r) = s - vr_start r" if "s < e"
    using assms that by (intro sub64_id) (auto simp: vr_ok_def)
  moreover have "s - vr_start r + (a - s) = a - vr_start r" if "s \<le> a" using assms(2) that by simp
  ultimately show "inside r (AddPiece r s e)"
    "vmap (AddPiece r s e) a = (if s \<le> a \<and> a < e then Some (byte_of r a) else None)"
    using assms by (auto simp: AddPiece_def Let_def inside_def vr_ok_def covers_def byte_of_def add64_add64)
  show "p \<in> set (AddPiece r s e) \<Longrightarrow> vr_start p = s \<and> vr_start p + vr_size p = e"
    by (auto simp: AddPiece_def Let_def split: if_splits)
qed

lemma remove_pieces_ok:
  assumes r: "vr_ok r" and sz: "0 < sz" "start + sz \<le> u64_max"
  shows "inside r (remove_pieces start sz r)"
    and "covers r a \<Longrightarrow> vmap (remove_pieces start sz r) a =
      (if start \<le> a \<and> a < start + sz then None else Some (byte_of r a))"
proof -
  have ends: "vr_End start sz = start + sz" "vr_End (vr_start r) (vr_size r) = vr_start r + vr_size r"
    using assms by (simp_all add: vr_ok_def)
  have ov: "VirtualRangesOverlap start sz (vr_start r) (vr_size r) \<longleftrightarrow>
      {start..<start + sz} \<inter> {vr_start r..<vr_start r + vr_size r} \<noteq> {}"
    using sz r by (intro VirtualRangesOverlap_iff) (simp_all add: vr_ok_def)
  show "inside r (remove_pieces start sz r)"
  proof (cases "VirtualRangesOverlap start sz (vr_start r) (vr_size r)")
    case True
    then have lt: "max start (vr_start r) < min (start + sz) (vr_start r + vr_size r)"
      unfolding ov by auto
    let ?l = "AddPiece r (vr_start r) (max start (vr_start r))"
    let ?r = "AddPiece r (min (start + sz) (vr_start r + vr_size r)) (vr_start r + vr_size r)"
    have l: "max start (vr_start r) \<le> vr_start r + vr_size r" and
      m: "vr_start r \<le> min (start + sz) (vr_start r + vr_size r)" using lt by auto
    have "inside r (?l @ ?r)"
    proof (rule inside_append)
      show "apart p q" if "p \<in> set ?l" "q \<in> set ?r" for p q
      proof -
        have "vr_start p + vr_size p = max start (vr_start r)"
          using AddPiece_ok(3) [OF r le_refl l that(1)] by blast
        also have "\<dots> \<le> min (start + sz) (vr_start r + vr_size r)" using lt by (rule less_imp_le)
        also have "\<dots> = vr_start q" using AddPiece_ok(3) [OF r m le_refl that(2)] by simp
        finally show ?thesis by (simp add: apart_def)
      qed
    qed (rule AddPiece_ok(1) [OF r le_refl l] AddPiece_ok(1) [OF r m le_refl])+
    with True show ?thesis by (simp add: remove_pieces_def ends Let_def)
  qed (use r in \<open>simp add: remove_pieces_def inside_def\<close>)
  assume c: "covers r a"
  show "vmap (remove_pieces start sz r) a =
      (if start \<le> a \<and> a < start + sz then None else Some (byte_of r a))"
  proof (cases "VirtualRangesOverlap start sz (vr_start r) (vr_size r)")
    case True
    then have lt: "max start (vr_start r) < min (start + sz) (vr_start r + vr_size r)"
      unfolding ov by auto
    then have l: "max start (vr_start r) \<le> vr_start r + vr_size r" and
      m: "vr_start r \<le> min (start + sz) (vr_start r + vr_size r)" by auto
    show ?thesis
      using True c lt AddPiece_ok(2) [OF r le_refl l] AddPiece_ok(2) [OF r m le_refl]
      by (auto simp: remove_pieces_def ends Let_def vmap_append covers_def)
  next
    case False
    then have "\<not> (start \<le> a \<and> a < start + sz)" using c unfolding ov covers_def by auto
    with False c show ?thesis by (auto simp: remove_pieces_def)
  qed
qed

text \<open>An edit of a range that changes neither its place nor its backing.\<close>

definition edit_ok :: "(VRange \<Rightarrow> VRange) \<Rightarrow> (vbyte \<Rightarrow> vbyte) \<Rightarrow> bool" where
  "edit_ok edit g \<longleftrightarrow> (\<forall>r. vr_start (edit r) = vr_start r \<and> vr_size (edit r) = vr_size r \<and>
     (vr_ok r \<longrightarrow> vr_ok (edit r)) \<and> (\<forall>a. byte_of (edit r) a = g (byte_of r a)))"

lemma edit_pieces_ok:
  assumes r: "vr_ok r" and sz: "0 < sz" "start + sz \<le> u64_max" and e: "edit_ok edit g"
  shows "inside r (edit_pieces edit start sz r)"
    and "covers r a \<Longrightarrow> vmap (edit_pieces edit start sz r) a =
      Some (if start \<le> a \<and> a < start + sz then g (byte_of r a) else byte_of r a)"
proof -
  have ends: "vr_End start sz = start + sz" "vr_End (vr_start r) (vr_size r) = vr_start r + vr_size r"
    using assms by (simp_all add: vr_ok_def)
  have ov: "VirtualRangesOverlap start sz (vr_start r) (vr_size r) \<longleftrightarrow>
      {start..<start + sz} \<inter> {vr_start r..<vr_start r + vr_size r} \<noteq> {}"
    using sz r by (intro VirtualRangesOverlap_iff) (simp_all add: vr_ok_def)
  define ms where "ms = max start (vr_start r)"
  define me where "me = min (start + sz) (vr_start r + vr_size r)"
  define mid where "mid = hd (AddPiece r ms me)"
  have cut: "edit_pieces edit start sz r =
      AddPiece r (vr_start r) ms @ [edit mid] @ AddPiece r me (vr_start r + vr_size r)"
    and lt: "ms < me" if o: "VirtualRangesOverlap start sz (vr_start r) (vr_size r)"
  proof -
    show lt: "ms < me" using o unfolding ov ms_def me_def by auto
    have "sub64 me ms = me - ms"
      using lt sz r by (intro sub64_id) (auto simp: me_def vr_ok_def)
    then have "(let m = r\<lparr>vr_start := ms, vr_size := sub64 me ms\<rparr> in
        if vr_type m = Direct then m\<lparr>vr_offset := add64 (vr_offset m) (sub64 ms (vr_start r))\<rparr> else m) = mid"
      using lt by (simp add: mid_def AddPiece_def Let_def)
    with o show "edit_pieces edit start sz r =
        AddPiece r (vr_start r) ms @ [edit mid] @ AddPiece r me (vr_start r + vr_size r)"
      unfolding edit_pieces_def ends Let_def ms_def [symmetric] me_def [symmetric]
      by (simp only: not_not if_False simp_thms)
  qed
  have le: "vr_start r \<le> ms" "me \<le> vr_start r + vr_size r" by (simp_all add: ms_def me_def)
  have bnd: "ms \<le> vr_start r + vr_size r" "vr_start r \<le> me" if "ms < me" using that le by auto
  have mp: "AddPiece r ms me = [mid]" if "ms < me" using that by (simp add: AddPiece_def mid_def Let_def)
  have mid: "vr_ok mid" "vr_start mid = ms" "vr_start mid + vr_size mid = me"
      "ms \<le> a \<Longrightarrow> a < me \<Longrightarrow> byte_of mid a = byte_of r a" if "ms < me" for a
    using AddPiece_ok(1) [OF r le] AddPiece_ok(3) [OF r le, of mid] AddPiece_ok(2) [OF r le, where a = a] mp [OF that]
    by (auto simp: inside_def split: if_splits)
  have ed: "vr_start (edit mid) = vr_start mid" "vr_size (edit mid) = vr_size mid"
    "vr_ok mid \<Longrightarrow> vr_ok (edit mid)" "byte_of (edit mid) a = g (byte_of mid a)" for a
    using e by (simp_all add: edit_ok_def)
  show "inside r (edit_pieces edit start sz r)"
  proof (cases "VirtualRangesOverlap start sz (vr_start r) (vr_size r)")
    case True
    note lt = lt [OF True]
    have i: "inside r [edit mid]" using mid(1-3) [OF lt] ed le by (simp add: inside_def)
    show ?thesis unfolding cut [OF True]
    proof (intro inside_append i)
      show "inside r (AddPiece r (vr_start r) ms)" by (rule AddPiece_ok(1) [OF r le_refl bnd(1) [OF lt]])
      show "inside r (AddPiece r me (vr_start r + vr_size r))"
        by (rule AddPiece_ok(1) [OF r bnd(2) [OF lt] le_refl])
    next
      fix p q assume p: "p \<in> set [edit mid]" and q: "q \<in> set (AddPiece r me (vr_start r + vr_size r))"
      have "vr_start q = me" using AddPiece_ok(3) [OF r bnd(2) [OF lt] le_refl q] by simp
      with p show "apart p q" using mid(2,3) [OF lt] ed(1,2) by (simp add: apart_def)
    next
      fix p q assume p: "p \<in> set (AddPiece r (vr_start r) ms)"
        and q: "q \<in> set ([edit mid] @ AddPiece r me (vr_start r + vr_size r))"
      have "ms \<le> vr_start q"
      proof (cases "q = edit mid")
        case True
        then show ?thesis using mid(2) [OF lt] ed(1) by simp
      next
        case False
        then have "q \<in> set (AddPiece r me (vr_start r + vr_size r))" using q by simp
        from AddPiece_ok(3) [OF r bnd(2) [OF lt] le_refl this] lt show ?thesis by simp
      qed
      then show "apart p q"
        using AddPiece_ok(3) [OF r le_refl bnd(1) [OF lt] p] by (simp add: apart_def)
    qed
  qed (use r in \<open>simp add: edit_pieces_def inside_def\<close>)
  assume c: "covers r a"
  show "vmap (edit_pieces edit start sz r) a =
      Some (if start \<le> a \<and> a < start + sz then g (byte_of r a) else byte_of r a)"
  proof (cases "VirtualRangesOverlap start sz (vr_start r) (vr_size r)")
    case True
    note lt = lt [OF True]
    have cv: "covers (edit mid) a \<longleftrightarrow> start \<le> a \<and> a < start + sz"
      using c mid(2,3) [OF lt] ed by (auto simp: covers_def ms_def me_def)
    have in_mid: "start \<le> a \<and> a < start + sz \<longleftrightarrow> ms \<le> a \<and> a < me"
      using c by (auto simp: covers_def ms_def me_def)
    have l: "vmap (AddPiece r (vr_start r) ms) a = (if a < ms then Some (byte_of r a) else None)"
      using AddPiece_ok(2) [OF r le_refl bnd(1) [OF lt], where a = a] c by (simp add: covers_def)
    have u: "vmap (AddPiece r me (vr_start r + vr_size r)) a = (if me \<le> a then Some (byte_of r a) else None)"
      using AddPiece_ok(2) [OF r bnd(2) [OF lt] le_refl, where a = a] c by (simp add: covers_def)
    show ?thesis
    proof (cases "start \<le> a \<and> a < start + sz")
      case True
      then have "ms \<le> a" "a < me" using in_mid by blast+
      with True show ?thesis
        unfolding cut [OF \<open>VirtualRangesOverlap start sz (vr_start r) (vr_size r)\<close>]
        using l cv ed(4) mid(4) [OF lt] by (simp add: vmap_append)
    next
      case False
      then have "a < ms \<or> me \<le> a" using in_mid by auto
      with False show ?thesis
        unfolding cut [OF \<open>VirtualRangesOverlap start sz (vr_start r) (vr_size r)\<close>]
        using l u cv by (auto simp: vmap_append)
    qed
  next
    case False
    then have "\<not> (start \<le> a \<and> a < start + sz)" using c unfolding ov covers_def by auto
    with False c show ?thesis by (auto simp: edit_pieces_def)
  qed
qed

end
