(* ===== verification/VirtualOps.thy ===== *)
theory VirtualOps
  imports VirtualMap
begin

text \<open>
  Merging keeps what a vector of ranges stands for, and the operations of \<open>VirtualRanges\<close>
  change the attributes of exactly the bytes they name.
\<close>

section \<open>Merging\<close>

lemma mergeable_facts:
  assumes "mergeable l r" "vr_ok l"
  shows "vr_start r = vr_start l + vr_size l" "vr_type l \<noteq> Direct" "vr_type r = vr_type l"
    "vr_protection r = vr_protection l" "vr_memory_type r = vr_memory_type l"
    "vr_name r = vr_name l" "\<not> vr_disallow_merge l" "\<not> vr_disallow_merge r"
  using assms by (auto simp: mergeable_def SameMergeKey_def vr_ok_def split: if_splits)

lemma absorb_ok:
  assumes m: "mergeable l r" and ok: "vr_ok l" "vr_ok r"
  shows "vr_ok (absorb l r)" "vr_start (absorb l r) = vr_start l"
    "vr_start (absorb l r) + vr_size (absorb l r) = vr_start r + vr_size r"
    "vmap [absorb l r] a = vmap [l, r] a"
proof -
  note f = mergeable_facts [OF m ok(1)]
  have sz: "add64 (vr_size l) (vr_size r) = vr_size l + vr_size r"
    using ok f(1) by (simp add: vr_ok_def)
  show "vr_ok (absorb l r)" "vr_start (absorb l r) = vr_start l"
    "vr_start (absorb l r) + vr_size (absorb l r) = vr_start r + vr_size r"
    using ok f(1) by (simp_all add: vr_ok_def absorb_def sz)
  have "byte_of (absorb l r) a = byte_of l a" "byte_of r a = byte_of l a"
    using f by (simp_all add: byte_of_def absorb_def)
  then show "vmap [absorb l r] a = vmap [l, r] a"
    using f(1) by (auto simp: covers_def absorb_def sz)
qed

lemma absorb_wf:
  assumes wf: "vr_wf (xs @ l # r # ys)" and m: "mergeable l r"
  shows "vr_wf (xs @ absorb l r # ys)" "vmap (xs @ absorb l r # ys) a = vmap (xs @ l # r # ys) a"
proof -
  have ok: "vr_ok l" "vr_ok r" using wf by simp_all
  note ab = absorb_ok [OF m ok]
  show "vr_wf (xs @ absorb l r # ys)"
    using wf ab(1-3) by (simp add: apart_def)
  have "vmap (absorb l r # ys) a = vmap ([absorb l r] @ ys) a" by simp
  also have "\<dots> = vmap ([l, r] @ ys) a" by (simp only: vmap_append ab(4))
  finally have "vmap (absorb l r # ys) a = vmap (l # r # ys) a" by (simp only: append.simps)
  then show "vmap (xs @ absorb l r # ys) a = vmap (xs @ l # r # ys) a" by (simp only: vmap_append)
qed

lemma mergeable_absorb: "mergeable p (absorb l r) = mergeable p l"
  by (simp add: mergeable_def SameMergeKey_def absorb_def)

lemma unmerged_absorb: "unmerged (xs @ [absorb l r]) \<longleftrightarrow> unmerged (xs @ [l])"
  by (simp add: unmerged_append mergeable_absorb)

lemma merge_into_fold:
  assumes "vr_wf (ms @ rs)" "unmerged ms"
  shows "vr_wf (foldl merge_into ms rs) \<and> unmerged (foldl merge_into ms rs) \<and>
    vmap (foldl merge_into ms rs) = vmap (ms @ rs)"
  using assms
proof (induction rs arbitrary: ms)
  case (Cons r rs)
  show ?case
  proof (cases "ms \<noteq> [] \<and> mergeable (last ms) r")
    case True
    then have ms: "ms = butlast ms @ [last ms]" by simp
    let ?ms = "butlast ms @ [absorb (last ms) r]"
    have wf: "vr_wf (butlast ms @ last ms # r # rs)" using Cons.prems(1) ms
      by (metis append.assoc append_Cons append_Nil)
    have ok: "vr_ok (last ms)" "vr_ok r" using wf by simp_all
    note ab = absorb_wf [OF wf conjunct2 [OF True]]
    have "unmerged ?ms" using unmerged_absorb [of "butlast ms"] Cons.prems(2) ms by metis
    moreover have "vr_wf (?ms @ rs)" using ab(1) by simp
    moreover have "vmap (?ms @ rs) = vmap (ms @ r # rs)"
    proof
      fix a
      have "ms @ r # rs = butlast ms @ last ms # r # rs" using ms by (metis append.assoc append_Cons append_Nil)
      moreover have "?ms @ rs = butlast ms @ absorb (last ms) r # rs" by simp
      ultimately show "vmap (?ms @ rs) a = vmap (ms @ r # rs) a" using ab(2) [of a] by (simp only:)
    qed
    ultimately show ?thesis using Cons.IH [of ?ms] True by (simp add: merge_into_def)
  next
    case False
    then have "unmerged (ms @ [r])" using Cons.prems(2) by (auto simp: unmerged_append)
    moreover have "vr_wf ((ms @ [r]) @ rs)" using Cons.prems(1) by simp
    moreover have "merge_into ms r = ms @ [r]" using False by (auto simp: merge_into_def)
    ultimately show ?thesis using Cons.IH [of "ms @ [r]"] by simp
  qed
qed simp

lemma MergeUnlocked_ok:
  assumes "vr_wf rs"
  shows "vr_inv (MergeUnlocked rs)" "vmap (MergeUnlocked rs) = vmap rs"
proof -
  have "sorted_wrt (\<lambda>r s. vr_start r \<le> vr_start s) rs"
    by (rule sorted_wrt_mono_rel [OF _ vr_wf_sorted [OF assms]]) simp
  then have "sort_key vr_start rs = rs"
    by (intro sort_key_id_if_sorted) (simp add: sorted_wrt_map)
  with merge_into_fold [of "[]" rs] assms
  have *: "vr_inv (MergeUnlocked rs) \<and> vmap (MergeUnlocked rs) = vmap rs"
  proof (cases "length rs < 2")
    case True
    then have "unmerged rs" by (cases rs) auto
    with assms True show ?thesis by (simp add: MergeUnlocked_def vr_inv_def)
  qed (simp add: MergeUnlocked_def vr_inv_def)
  then show "vr_inv (MergeUnlocked rs)" "vmap (MergeUnlocked rs) = vmap rs" by blast+
qed

lemma merge_following_ok:
  assumes "vr_wf (xs @ c # rest)" "unmerged (xs @ [c])" "unmerged rest"
  shows "vr_inv (xs @ merge_following c rest) \<and>
    vmap (xs @ merge_following c rest) = vmap (xs @ c # rest)"
  using assms
proof (induction c rest rule: merge_following.induct)
  case (1 c)
  then show ?case by (simp add: vr_inv_def)
next
  case (2 c n rest)
  show ?case
  proof (cases "mergeable c n")
    case True
    have ok: "vr_ok c" "vr_ok n" using 2(2) by simp_all
    note ab = absorb_wf [OF 2(2) True]
    have "unmerged (xs @ [absorb c n])" using unmerged_absorb 2(3) by simp
    moreover have "unmerged rest" using 2(4) unfolding unmerged_def by (cases rest) simp_all
    ultimately have "vr_inv (xs @ merge_following (absorb c n) rest) \<and>
        vmap (xs @ merge_following (absorb c n) rest) = vmap (xs @ absorb c n # rest)"
      using 2(1) True ab(1) by blast
    with True ab(2) show ?thesis by (simp add: fun_eq_iff)
  next
    case False
    then have "unmerged ((xs @ [c]) @ n # rest)" unfolding unmerged_append using 2(3,4) by (simp add: unmerged_append)
    with False 2(2) show ?thesis by (simp add: vr_inv_def)
  qed
qed

lemma MergeAround_ok:
  assumes wf: "vr_wf (before @ r # rest)" and u: "unmerged before" "unmerged rest"
  shows "vr_inv (MergeAroundUnlocked (before @ r # rest) (length before))"
    "vmap (MergeAroundUnlocked (before @ r # rest) (length before)) = vmap (before @ r # rest)"
proof -
  let ?out = "MergeAroundUnlocked (before @ r # rest) (length before)"
  have "vr_inv ?out \<and> vmap ?out = vmap (before @ r # rest)"
  proof (cases "before \<noteq> [] \<and> mergeable (last before) r")
    case True
    then have b: "before = butlast before @ [last before]" by simp
    have out: "?out = butlast before @ merge_following (absorb (last before) r) rest"
      using True by (simp add: MergeAroundUnlocked_def)
    have wf': "vr_wf (butlast before @ last before # r # rest)"
      using wf b by (metis append.assoc append_Cons append_Nil)
    have ok: "vr_ok (last before)" "vr_ok r" using wf' by simp_all
    note ab = absorb_wf [OF wf' conjunct2 [OF True]]
    have "unmerged (butlast before @ [absorb (last before) r])"
      using unmerged_absorb [of "butlast before"] u(1) b by metis
    from merge_following_ok [OF ab(1) this u(2)] ab(2) show ?thesis
      unfolding out using b by (metis append.assoc append_Cons append_Nil ext)
  next
    case False
    have out: "?out = before @ merge_following r rest"
      using False by (auto simp: MergeAroundUnlocked_def)
    have "unmerged (before @ [r])" using False u(1) by (auto simp: unmerged_append)
    from merge_following_ok [OF wf this u(2)] show ?thesis unfolding out .
  qed
  then show "vr_inv ?out" "vmap ?out = vmap (before @ r # rest)" by blast+
qed

section \<open>Searching\<close>

lemma vr_split_parts:
  assumes "vr_wf rs"
  shows "vr_lower a rs = (xs, ys) \<Longrightarrow> rs = xs @ ys \<and> (\<forall>r \<in> set xs. vr_start r < a) \<and> (\<forall>r \<in> set ys. a \<le> vr_start r)"
    and "vr_upper a rs = (xs, ys) \<Longrightarrow> rs = xs @ ys \<and> (\<forall>r \<in> set xs. vr_start r \<le> a) \<and> (\<forall>r \<in> set ys. a < vr_start r)"
proof -
  have drop: "\<forall>r \<in> set (dropWhile (\<lambda>r. P (vr_start r)) rs). \<not> P (vr_start r)"
    if "\<And>x y. x < y \<Longrightarrow> P y \<Longrightarrow> P x" for P
  proof -
    have s: "sorted_wrt (\<lambda>p q. fst p < fst q) (map (\<lambda>r. (vr_start r, r)) rs)"
      using vr_wf_sorted [OF assms] by (simp add: sorted_wrt_map)
    have eq: "dropWhile (\<lambda>p. P (fst p)) (map (\<lambda>r. (vr_start r, r)) rs) =
        map (\<lambda>r. (vr_start r, r)) (dropWhile (\<lambda>r. P (vr_start r)) rs)"
      by (simp add: dropWhile_map o_def)
    have "\<forall>p \<in> set (dropWhile (\<lambda>p. P (fst p)) (map (\<lambda>r. (vr_start r, r)) rs)). \<not> P (fst p)"
      by (rule split_sorted [OF s that])
    then show ?thesis unfolding eq set_map by (simp only: ball_simps fst_conv)
  qed
  have take: "\<forall>r \<in> set (takeWhile (\<lambda>r. P (vr_start r)) rs). P (vr_start r)" for P
    by (auto dest: set_takeWhileD)
  { assume "vr_lower a rs = (xs, ys)"
    then have xy: "takeWhile (\<lambda>r. vr_start r < a) rs = xs" "dropWhile (\<lambda>r. vr_start r < a) rs = ys"
      by (simp_all add: vr_lower_def)
    have "\<forall>r \<in> set ys. \<not> vr_start r < a"
      using drop [of "\<lambda>x. x < a", unfolded xy] less_trans by blast
    moreover have "rs = xs @ ys" using xy by (metis takeWhile_dropWhile_id)
    ultimately show "rs = xs @ ys \<and> (\<forall>r \<in> set xs. vr_start r < a) \<and> (\<forall>r \<in> set ys. a \<le> vr_start r)"
      using take [of "\<lambda>x. x < a", unfolded xy] by (simp only: not_less simp_thms) }
  { assume "vr_upper a rs = (xs, ys)"
    then have xy: "takeWhile (\<lambda>r. vr_start r \<le> a) rs = xs" "dropWhile (\<lambda>r. vr_start r \<le> a) rs = ys"
      by (simp_all add: vr_upper_def)
    have "x < y \<Longrightarrow> y \<le> a \<Longrightarrow> x \<le> a" for x y :: nat by simp
    then have "\<forall>r \<in> set ys. \<not> vr_start r \<le> a"
      using drop [of "\<lambda>x. x \<le> a", unfolded xy] by blast
    moreover have "rs = xs @ ys" using xy by (metis takeWhile_dropWhile_id)
    ultimately show "rs = xs @ ys \<and> (\<forall>r \<in> set xs. vr_start r \<le> a) \<and> (\<forall>r \<in> set ys. a < vr_start r)"
      using take [of "\<lambda>x. x \<le> a", unfolded xy] by (simp only: not_le simp_thms) }
qed

lemma apart_last:
  assumes "vr_wf xs" "r \<in> set xs" "r \<noteq> last xs"
  shows "apart r (last xs)"
proof -
  have "xs \<noteq> []" using assms(2) by auto
  then have xs: "xs = butlast xs @ [last xs]" by simp
  then have "r \<in> set (butlast xs)" using assms(2,3)
    by (metis Un_iff empty_iff empty_set set_ConsD set_append)
  moreover have "vr_wf (butlast xs @ [last xs])" using assms(1) xs by simp
  ultimately show ?thesis by simp
qed

lemma overlap_covers:
  assumes "vr_ok r" "a + n \<le> u64_max"
  shows "VirtualRangesOverlap a n (vr_start r) (vr_size r) \<longleftrightarrow> (\<exists>x. a \<le> x \<and> x < a + n \<and> covers r x)"
proof -
  have "VirtualRangesOverlap a n (vr_start r) (vr_size r) \<longleftrightarrow>
      {a..<a + n} \<inter> {vr_start r..<vr_start r + vr_size r} \<noteq> {}"
    using assms by (intro VirtualRangesOverlap_iff) (simp_all add: vr_ok_def)
  then show ?thesis unfolding covers_def by (auto simp: set_eq_iff)
qed

lemma FindOverlap_ok:
  assumes wf: "vr_wf rs" and sz: "start + sz \<le> u64_max"
  shows "case FindOverlap rs start sz of
      None \<Rightarrow> \<forall>a. start \<le> a \<and> a < start + sz \<longrightarrow> vmap rs a = None
    | Some r \<Rightarrow> r \<in> set rs \<and> (\<exists>a. start \<le> a \<and> a < start + sz \<and> covers r a)"
proof -
  obtain xs ys where s: "vr_lower start rs = (xs, ys)" by (cases "vr_lower start rs")
  from vr_split_parts(1) [OF wf s] have rs: "rs = xs @ ys" and xs: "\<forall>r \<in> set xs. vr_start r < start"
    and ys: "\<forall>r \<in> set ys. start \<le> vr_start r" by blast+
  have ok: "vr_ok r" if "r \<in> set rs" for r using vr_wf_ok [OF wf that] .
  let ?hit = "\<lambda>r. VirtualRangesOverlap start sz (vr_start r) (vr_size r)"
  have hit: "?hit r \<longleftrightarrow> (\<exists>x. start \<le> x \<and> x < start + sz \<and> covers r x)" if "r \<in> set rs" for r
    by (rule overlap_covers [OF ok [OF that] sz])
  have find: "FindOverlap rs start sz =
      (if ys \<noteq> [] \<and> ?hit (hd ys) then Some (hd ys)
       else if xs \<noteq> [] \<and> ?hit (last xs) then Some (last xs) else None)"
    by (simp add: FindOverlap_def s)
  show ?thesis
  proof (cases "ys \<noteq> [] \<and> ?hit (hd ys) \<or> xs \<noteq> [] \<and> ?hit (last xs)")
    case True
    then obtain r where "FindOverlap rs start sz = Some r" "r \<in> set rs" "?hit r"
      unfolding find by (cases "ys \<noteq> [] \<and> ?hit (hd ys)") (auto simp: rs)
    with hit show ?thesis by simp
  next
    case False
    have "\<not> covers r a" if r: "r \<in> set rs" and a: "start \<le> a" "a < start + sz" for r a
    proof
      assume c: "covers r a"
      consider "r \<in> set ys" | "r \<in> set xs" using r rs by auto
      then show False
      proof cases
        case 1
        then have ne: "ys \<noteq> []" by auto
        have "r = hd ys \<or> apart (hd ys) r" using wf rs 1 by (cases ys) auto
        then have "vr_start (hd ys) \<le> vr_start r"
          using ok [of "hd ys"] rs ne by (auto simp: apart_def)
        moreover have "0 < vr_size (hd ys)" "start \<le> vr_start (hd ys)"
          using ok [of "hd ys"] rs ne ys by (auto simp: vr_ok_def)
        ultimately have "start \<le> vr_start (hd ys) \<and> vr_start (hd ys) < start + sz \<and>
            covers (hd ys) (vr_start (hd ys))"
          using c a by (simp add: covers_def)
        then show False using hit [of "hd ys"] False rs ne by auto
      next
        case 2
        then have ne: "xs \<noteq> []" by auto
        show False
        proof (cases "r = last xs")
          case True
          with hit [of r] False r ne c a show False by auto
        next
          case False
          have "apart r (last xs)" using apart_last [OF _ 2 False] wf rs by simp
          moreover have "vr_start (last xs) < start" using xs ne by simp
          ultimately show False using c a(1) unfolding apart_def covers_def by linarith
        qed
      qed
    qed
    moreover have "FindOverlap rs start sz = None" unfolding find using False by auto
    ultimately show ?thesis by (simp add: vmap_None)
  qed
qed

lemma HasOverlap_iff:
  assumes "vr_wf rs" "start + sz \<le> u64_max"
  shows "VR_HasOverlap rs start sz \<longleftrightarrow> (\<exists>a. start \<le> a \<and> a < start + sz \<and> vmap rs a \<noteq> None)"
  using FindOverlap_ok [OF assms] vmap_covers [OF assms(1)]
  by (cases "FindOverlap rs start sz") (force simp: VR_HasOverlap_def)+

end
