(* ===== verification/VirtualHistory.thy ===== *)
theory VirtualHistory
  imports VirtualOps
begin

text \<open>
  The operations of \<open>VirtualRanges\<close> as updates of the attributes of bytes, and what holds
  after any history of them.
\<close>

section \<open>Operations on the attributes of bytes\<close>

definition in_span :: "nat \<Rightarrow> nat \<Rightarrow> nat \<Rightarrow> bool" where
  "in_span start sz a \<longleftrightarrow> start \<le> a \<and> a < start + sz"

definition clear_span :: "nat \<Rightarrow> nat \<Rightarrow> (nat \<Rightarrow> vbyte option) \<Rightarrow> nat \<Rightarrow> vbyte option" where
  "clear_span start sz f a = (if in_span start sz a then None else f a)"

definition edit_span ::
    "nat \<Rightarrow> nat \<Rightarrow> (vbyte \<Rightarrow> vbyte) \<Rightarrow> (nat \<Rightarrow> vbyte option) \<Rightarrow> nat \<Rightarrow> vbyte option" where
  "edit_span start sz g f a = (if in_span start sz a then map_option g (f a) else f a)"

definition fill_span ::
    "nat \<Rightarrow> nat \<Rightarrow> (nat \<Rightarrow> vbyte) \<Rightarrow> (nat \<Rightarrow> vbyte option) \<Rightarrow> nat \<Rightarrow> vbyte option" where
  "fill_span start sz v f a = (if in_span start sz a then Some (v a) else f a)"

lemma vr_inv_wf: "vr_inv rs \<Longrightarrow> vr_wf rs"
  by (simp add: vr_inv_def)

lemma RemoveUnlocked_ok:
  assumes wf: "vr_wf rs" and sz: "start + sz \<le> u64_max"
  shows "vr_wf (snd (RemoveUnlocked rs start sz))"
    "vmap (snd (RemoveUnlocked rs start sz)) = clear_span start sz (vmap rs)"
    "fst (RemoveUnlocked rs start sz) \<longleftrightarrow> (\<exists>a. in_span start sz a \<and> vmap rs a \<noteq> None)"
proof -
  show "vr_wf (snd (RemoveUnlocked rs start sz))"
  proof (cases "sz = 0")
    case False
    then show ?thesis using pieces_wf [OF wf] remove_pieces_ok(1) [OF vr_wf_ok [OF wf]] sz
      by (simp add: RemoveUnlocked_def)
  qed (use wf in \<open>simp add: RemoveUnlocked_def\<close>)
  show "vmap (snd (RemoveUnlocked rs start sz)) = clear_span start sz (vmap rs)"
  proof (cases "sz = 0")
    case False
    let ?h = "\<lambda>a x. if start \<le> a \<and> a < start + sz then None else Some x"
    have "vmap (concat (map (remove_pieces start sz) rs)) a = Option.bind (vmap rs a) (?h a)" for a
    proof (rule pieces_vmap [OF wf])
      fix r assume r: "r \<in> set rs"
      show "inside r (remove_pieces start sz r)"
        using remove_pieces_ok(1) [OF vr_wf_ok [OF wf r]] False sz by simp
      fix a assume "covers r a"
      then show "vmap (remove_pieces start sz r) a = ?h a (byte_of r a)"
        using remove_pieces_ok(2) [OF vr_wf_ok [OF wf r]] False sz by simp
    qed
    then show ?thesis using False
      by (auto simp: RemoveUnlocked_def clear_span_def in_span_def fun_eq_iff split: option.splits)
  qed (auto simp: RemoveUnlocked_def clear_span_def in_span_def fun_eq_iff)
  have "(\<exists>r \<in> set rs. VirtualRangesOverlap start sz (vr_start r) (vr_size r)) \<longleftrightarrow>
      (\<exists>a. in_span start sz a \<and> vmap rs a \<noteq> None)"
    using overlap_covers [OF vr_wf_ok [OF wf] sz] unfolding in_span_def vmap_None by blast
  then show "fst (RemoveUnlocked rs start sz) \<longleftrightarrow> (\<exists>a. in_span start sz a \<and> vmap rs a \<noteq> None)"
    by (auto simp: RemoveUnlocked_def in_span_def)
qed

lemma EditUnlocked_ok:
  assumes inv: "vr_inv rs" and sz: "start + sz \<le> u64_max" and e: "edit_ok edit g"
  shows "vr_inv (EditUnlocked rs start sz edit)"
    "vmap (EditUnlocked rs start sz edit) = edit_span start sz g (vmap rs)"
proof -
  note wf = vr_inv_wf [OF inv]
  have "vr_inv (EditUnlocked rs start sz edit) \<and>
    vmap (EditUnlocked rs start sz edit) = edit_span start sz g (vmap rs)"
  proof (cases "sz = 0")
    case False
    let ?h = "\<lambda>a x. Some (if start \<le> a \<and> a < start + sz then g x else x)"
    let ?rs = "concat (map (edit_pieces edit start sz) rs)"
    have i: "inside r (edit_pieces edit start sz r)" if "r \<in> set rs" for r
      using edit_pieces_ok(1) [OF vr_wf_ok [OF wf that] _ sz e] False by simp
    have h: "vmap ?rs a = Option.bind (vmap rs a) (?h a)" for a
    proof (rule pieces_vmap [OF wf i])
      fix r a assume "r \<in> set rs" "covers r a"
      then show "vmap (edit_pieces edit start sz r) a = ?h a (byte_of r a)"
        using edit_pieces_ok(2) [OF vr_wf_ok [OF wf] _ sz e] False by simp
    qed
    have "vmap ?rs = edit_span start sz g (vmap rs)"
    proof
      fix a show "vmap ?rs a = edit_span start sz g (vmap rs) a"
        unfolding h by (cases "vmap rs a") (simp_all add: edit_span_def in_span_def)
    qed
    moreover have "vr_wf ?rs" by (rule pieces_wf [OF wf i])
    ultimately show ?thesis using False MergeUnlocked_ok [of ?rs] by (simp add: EditUnlocked_def)
  qed (use inv in \<open>auto simp: EditUnlocked_def edit_span_def in_span_def fun_eq_iff\<close>)
  then show "vr_inv (EditUnlocked rs start sz edit)"
    "vmap (EditUnlocked rs start sz edit) = edit_span start sz g (vmap rs)" by blast+
qed

lemma edit_ok_protect: "edit_ok (\<lambda>r. r\<lparr>vr_protection := p\<rparr>) (\<lambda>v. v\<lparr>vb_protection := p\<rparr>)"
  by (simp add: edit_ok_def vr_ok_def byte_of_def)

lemma edit_ok_memory_type: "edit_ok (\<lambda>r. r\<lparr>vr_memory_type := t\<rparr>) (\<lambda>v. v\<lparr>vb_memory_type := t\<rparr>)"
  by (simp add: edit_ok_def vr_ok_def byte_of_def)

lemma edit_ok_name: "name_ok n \<Longrightarrow> edit_ok (\<lambda>r. r\<lparr>vr_name := n\<rparr>) (\<lambda>v. v\<lparr>vb_name := n\<rparr>)"
  by (simp add: edit_ok_def vr_ok_def byte_of_def)

text \<open>Taking one range out, or putting another in its place.\<close>

lemma vr_split_hd:
  assumes inv: "vr_inv rs" and s: "vr_lower start rs = (before, it)" and ne: "it \<noteq> []"
  shows "rs = before @ hd it # tl it" "unmerged before" "unmerged (tl it)"
    "vr_inv (before @ tl it)"
proof -
  note wf = vr_inv_wf [OF inv]
  have rs: "rs = before @ it" using vr_split_parts(1) [OF wf s] by blast
  then show e: "rs = before @ hd it # tl it" using ne by simp
  have u: "unmerged before" "unmerged (hd it # tl it)"
    using inv unfolding vr_inv_def e by (simp_all add: unmerged_append)
  then show ub: "unmerged before" "unmerged (tl it)"
    by (simp, cases "tl it") simp_all
  have "\<not> mergeable (last before) (hd (tl it))" if n: "before \<noteq> []" "tl it \<noteq> []"
  proof -
    have "vr_ok (last before)" using vr_wf_ok [OF wf] n rs by simp
    moreover have "vr_ok (hd it)" "apart (last before) (hd it)" "apart (hd it) (hd (tl it))"
      using wf n unfolding e by simp_all
    ultimately show ?thesis by (auto simp: apart_def mergeable_def vr_ok_def)
  qed
  then have "unmerged (before @ tl it)" using ub by (simp add: unmerged_append)
  moreover have "vr_wf (before @ tl it)" using wf unfolding e by simp
  ultimately show "vr_inv (before @ tl it)" by (simp add: vr_inv_def)
qed

lemma vmap_middle:
  assumes "vr_wf (xs @ r # ys)"
  shows "vmap (xs @ r # ys) a = (if covers r a then Some (byte_of r a) else vmap (xs @ ys) a)"
    "covers r a \<Longrightarrow> vmap (xs @ ys) a = None"
proof -
  have x: "vmap (xs @ r # ys) a = Some (byte_of r a)" if "covers r a"
    using vmap_covers [OF assms _ that] by simp
  show "vmap (xs @ r # ys) a = (if covers r a then Some (byte_of r a) else vmap (xs @ ys) a)"
    using x by (cases "covers r a") (simp_all add: vmap_append split: option.split)
  show "vmap (xs @ ys) a = None" if c: "covers r a"
  proof -
    have "\<not> covers s a" if s: "s \<in> set (xs @ ys)" for s
    proof -
      have "apart s r \<or> apart r s" using assms s by auto
      with c show ?thesis by (auto simp: apart_def covers_def)
    qed
    then show ?thesis by (simp add: vmap_None)
  qed
qed

lemma VR_Remove_ok:
  assumes inv: "vr_inv rs" and sz: "start + sz \<le> u64_max"
  shows "vr_inv (snd (VR_Remove rs start sz))"
    "vmap (snd (VR_Remove rs start sz)) = clear_span start sz (vmap rs)"
    "fst (VR_Remove rs start sz) \<longleftrightarrow> (\<exists>a. in_span start sz a \<and> vmap rs a \<noteq> None)"
proof -
  note wf = vr_inv_wf [OF inv]
  obtain before it where s: "vr_lower start rs = (before, it)" by (cases "vr_lower start rs")
  have "vr_inv (snd (VR_Remove rs start sz)) \<and>
    vmap (snd (VR_Remove rs start sz)) = clear_span start sz (vmap rs) \<and>
    (fst (VR_Remove rs start sz) \<longleftrightarrow> (\<exists>a. in_span start sz a \<and> vmap rs a \<noteq> None))"
  proof (cases "it \<noteq> [] \<and> vr_start (hd it) = start \<and> vr_size (hd it) = sz")
    case True
    note h = vr_split_hd [OF inv s conjunct1 [OF True]]
    have c: "covers (hd it) a \<longleftrightarrow> in_span start sz a" for a
      using True by (simp add: covers_def in_span_def)
    have wf': "vr_wf (before @ hd it # tl it)" using wf h(1) by metis
    note m = vmap_middle [OF wf', folded h(1)]
    have eq: "VR_Remove rs start sz = (True, before @ tl it)" using True s by (simp add: VR_Remove_def)
    have "vr_ok (hd it)" using wf' unfolding vr_wf_simps by blast
    then have "0 < sz" using True by (simp add: vr_ok_def)
    then have "in_span start sz start" by (simp add: in_span_def)
    then have "\<exists>a. in_span start sz a \<and> vmap rs a \<noteq> None"
      using m(1) [of start] c by auto
    moreover have "vmap (before @ tl it) = clear_span start sz (vmap rs)"
      using m c by (auto simp: clear_span_def fun_eq_iff)
    ultimately show ?thesis unfolding eq using h(4) by simp
  next
    case False
    obtain b rs' where r: "RemoveUnlocked rs start sz = (b, rs')" by (cases "RemoveUnlocked rs start sz")
    have "VR_Remove rs start sz = (b, MergeUnlocked rs')"
      using False s r by (auto simp: VR_Remove_def)
    with RemoveUnlocked_ok [OF wf sz, unfolded r] MergeUnlocked_ok [of rs'] show ?thesis by simp
  qed
  then show "vr_inv (snd (VR_Remove rs start sz))"
    "vmap (snd (VR_Remove rs start sz)) = clear_span start sz (vmap rs)"
    "fst (VR_Remove rs start sz) \<longleftrightarrow> (\<exists>a. in_span start sz a \<and> vmap rs a \<noteq> None)" by blast+
qed

lemma VR_Rename_ok:
  assumes inv: "vr_inv rs" and sz: "start + sz \<le> u64_max"
  shows "vr_inv (VR_Rename rs start sz name)"
    "vmap (VR_Rename rs start sz name) =
      edit_span start sz (\<lambda>v. v\<lparr>vb_name := CopyVirtualRangeName name\<rparr>) (vmap rs)"
proof -
  note wf = vr_inv_wf [OF inv]
  let ?n = "CopyVirtualRangeName name"
  obtain before it where s: "vr_lower start rs = (before, it)" by (cases "vr_lower start rs")
  have "vr_inv (VR_Rename rs start sz name) \<and>
    vmap (VR_Rename rs start sz name) = edit_span start sz (\<lambda>v. v\<lparr>vb_name := ?n\<rparr>) (vmap rs)"
  proof (cases "it \<noteq> [] \<and> vr_start (hd it) = start \<and> vr_size (hd it) = sz")
    case True
    note h = vr_split_hd [OF inv s conjunct1 [OF True]]
    let ?r = "(hd it)\<lparr>vr_name := ?n\<rparr>"
    have wf': "vr_wf (before @ hd it # tl it)" using wf h(1) by metis
    then have wfr: "vr_wf (before @ ?r # tl it)" by (simp add: vr_ok_def apart_def)
    have c: "covers (hd it) a \<longleftrightarrow> in_span start sz a" "covers ?r a \<longleftrightarrow> in_span start sz a" for a
      using True by (simp_all add: covers_def in_span_def)
    have "VR_Rename rs start sz name = MergeAroundUnlocked (before @ ?r # tl it) (length before)"
      using True s by (simp add: VR_Rename_def)
    moreover have "vmap (before @ ?r # tl it) = edit_span start sz (\<lambda>v. v\<lparr>vb_name := ?n\<rparr>) (vmap rs)"
      using vmap_middle(1) [OF wf', folded h(1)] vmap_middle(1) [OF wfr] c
      by (auto simp: edit_span_def fun_eq_iff byte_of_def)
    ultimately show ?thesis using MergeAround_ok [OF wfr h(2,3)] by simp
  next
    case False
    then have "VR_Rename rs start sz name = EditUnlocked rs start sz (\<lambda>r. r\<lparr>vr_name := ?n\<rparr>)"
      using s by (auto simp: VR_Rename_def)
    with EditUnlocked_ok [OF inv sz edit_ok_name [OF CopyVirtualRangeName_ok]] show ?thesis by simp
  qed
  then show "vr_inv (VR_Rename rs start sz name)"
    "vmap (VR_Rename rs start sz name) = edit_span start sz (\<lambda>v. v\<lparr>vb_name := ?n\<rparr>) (vmap rs)" by blast+
qed

text \<open>The attributes of the bytes of a new range.\<close>

definition added_byte ::
    "nat \<Rightarrow> nat \<Rightarrow> u32 \<Rightarrow> u32 \<Rightarrow> VirtualRangeType \<Rightarrow> string option \<Rightarrow> bool \<Rightarrow> nat \<Rightarrow> vbyte" where
  "added_byte start offset protection memory_type ty name disallow_merge a =
     \<lparr>vb_protection = protection, vb_memory_type = memory_type, vb_type = ty,
      vb_disallow_merge = disallow_merge, vb_name = CopyVirtualRangeName name,
      vb_backing = (if ty = Direct then Some (add64 offset (a - start)) else None)\<rparr>"

lemma VR_Add_refuses:
  "VR_Add rs start sz offset prot mt ty name dm =
     (if start = 0 \<or> sz = 0 \<or> VR_HasOverlap rs start sz then (False, rs)
      else VR_Add rs start sz offset prot mt ty name dm)"
  by (cases "vr_lower start rs")
    (auto simp: VR_Add_def VR_HasOverlap_def FindOverlap_def Let_def split: if_splits)

lemma VR_Add_ok:
  assumes inv: "vr_inv rs" and sz: "start + sz \<le> u64_max" and off: "offset \<le> u64_max"
  defines "free \<equiv> 0 < start \<and> 0 < sz \<and> (\<forall>a. in_span start sz a \<longrightarrow> vmap rs a = None)"
  shows "vr_inv (snd (VR_Add rs start sz offset prot mt ty name dm))"
    "fst (VR_Add rs start sz offset prot mt ty name dm) \<longleftrightarrow> free"
    "vmap (snd (VR_Add rs start sz offset prot mt ty name dm)) =
      (if free then fill_span start sz (added_byte start offset prot mt ty name dm) (vmap rs) else vmap rs)"
proof -
  note wf = vr_inv_wf [OF inv]
  let ?add = "VR_Add rs start sz offset prot mt ty name dm"
  have "vr_inv (snd ?add) \<and> (fst ?add \<longleftrightarrow> free) \<and> vmap (snd ?add) =
    (if free then fill_span start sz (added_byte start offset prot mt ty name dm) (vmap rs) else vmap rs)"
  proof (cases free)
    case False
    then have "start = 0 \<or> sz = 0 \<or> VR_HasOverlap rs start sz"
      unfolding free_def HasOverlap_iff [OF wf sz] in_span_def by auto
    then have "?add = (False, rs)" using VR_Add_refuses by metis
    with False inv show ?thesis by simp
  next
    case True
    obtain before it where s: "vr_lower start rs = (before, it)" by (cases "vr_lower start rs")
    from vr_split_parts(1) [OF wf s] have rs: "rs = before @ it"
      and lo: "\<forall>r \<in> set before. vr_start r < start" and hi: "\<forall>r \<in> set it. start \<le> vr_start r" by blast+
    define r where "r = \<lparr>vr_start = start, vr_size = sz, vr_offset = offset, vr_protection = prot,
      vr_memory_type = mt, vr_type = ty, vr_disallow_merge = dm, vr_name = CopyVirtualRangeName name\<rparr>"
    have "\<not> VR_HasOverlap rs start sz"
      using True unfolding free_def HasOverlap_iff [OF wf sz] in_span_def by auto
    then have add: "?add = (True, MergeAroundUnlocked (before @ r # it) (length before))"
      using True by (auto simp: VR_Add_def VR_HasOverlap_def FindOverlap_def s free_def r_def split: if_splits)
    have okr: "vr_ok r" using True sz off by (simp add: vr_ok_def r_def free_def)
    have none: "\<not> covers q a" if "q \<in> set rs" "in_span start sz a" for q a
      using True that unfolding free_def vmap_None by blast
    have "apart q r" if q: "q \<in> set before" for q
    proof -
      have "\<not> covers q start" using none [of q start] q rs True by (simp add: free_def in_span_def)
      then show ?thesis using lo q by (auto simp: apart_def covers_def r_def)
    qed
    moreover have "apart r q" if q: "q \<in> set it" for q
    proof -
      have "0 < vr_size q" using vr_wf_ok [OF wf, of q] q rs by (simp add: vr_ok_def)
      then have "covers q (vr_start q)" by (simp add: covers_def)
      then have "\<not> in_span start sz (vr_start q)" using none [of q] q rs by auto
      then show ?thesis using hi q by (auto simp: apart_def in_span_def r_def)
    qed
    ultimately have wfr: "vr_wf (before @ r # it)"
      using wf okr unfolding rs by simp
    have "unmerged before" "unmerged it" using inv unfolding vr_inv_def rs by (simp_all add: unmerged_append)
    note ma = MergeAround_ok [OF wfr this]
    have cr: "covers r a \<longleftrightarrow> in_span start sz a" "byte_of r a = added_byte start offset prot mt ty name dm a" for a
      by (simp_all add: covers_def in_span_def byte_of_def added_byte_def r_def)
    have "vmap (before @ r # it) = fill_span start sz (added_byte start offset prot mt ty name dm) (vmap rs)"
      using vmap_middle(1) [OF wfr] cr by (auto simp: fill_span_def fun_eq_iff rs)
    with ma True show ?thesis unfolding add by simp
  qed
  then show "vr_inv (snd ?add)" "fst ?add \<longleftrightarrow> free" "vmap (snd ?add) =
    (if free then fill_span start sz (added_byte start offset prot mt ty name dm) (vmap rs) else vmap rs)"
    by blast+
qed

section \<open>Queries\<close>

lemma VR_Query_ok:
  assumes wf: "vr_wf rs"
  shows "case VR_Query rs addr flags of
      Some r \<Rightarrow> r \<in> set rs \<and> (covers r addr \<or> flags = 1 \<and> vmap rs addr = None \<and> addr < vr_start r \<and>
        (\<forall>s \<in> set rs. addr < vr_start s \<longrightarrow> vr_start r \<le> vr_start s))
    | None \<Rightarrow> vmap rs addr = None \<and> (flags = 1 \<longrightarrow> (\<forall>s \<in> set rs. vr_start s \<le> addr))"
proof -
  obtain xs ys where s: "vr_upper addr rs = (xs, ys)" by (cases "vr_upper addr rs")
  from vr_split_parts(2) [OF wf s] have rs: "rs = xs @ ys" and lo: "\<forall>r \<in> set xs. vr_start r \<le> addr"
    and hi: "\<forall>r \<in> set ys. addr < vr_start r" by blast+
  have query: "VR_Query rs addr flags =
      (if xs \<noteq> [] \<and> addr < vr_End (vr_start (last xs)) (vr_size (last xs)) then Some (last xs)
       else if flags \<noteq> 1 \<or> ys = [] then None else Some (hd ys))"
    by (simp add: VR_Query_def s)
  show ?thesis
  proof (cases "xs \<noteq> [] \<and> addr < vr_End (vr_start (last xs)) (vr_size (last xs))")
    case True
    then have m: "last xs \<in> set rs" using rs by simp
    then have "covers (last xs) addr"
      using True lo vr_wf_ok [OF wf m] by (simp add: covers_def vr_ok_def)
    with True m show ?thesis by (simp add: query)
  next
    case False
    have "\<not> covers r addr" if r: "r \<in> set rs" for r
    proof
      assume c: "covers r addr"
      then have x: "r \<in> set xs" using r rs hi by (auto simp: covers_def)
      then have ne: "xs \<noteq> []" by auto
      have lr: "last xs \<in> set rs" using rs ne by simp
      have "\<not> covers (last xs) addr"
        using False ne vr_wf_ok [OF wf lr] by (simp add: covers_def vr_ok_def)
      with c have "apart r (last xs)" using apart_last [OF _ x] wf rs by auto
      moreover have "vr_start (last xs) \<le> addr" using lo ne by simp
      ultimately show False using c unfolding apart_def covers_def by linarith
    qed
    then have none: "vmap rs addr = None" by (simp add: vmap_None)
    show ?thesis
    proof (cases "flags \<noteq> 1 \<or> ys = []")
      case True
      have "VR_Query rs addr flags = None" unfolding query using True False by auto
      moreover have "flags = 1 \<longrightarrow> (\<forall>s \<in> set rs. vr_start s \<le> addr)" using True lo rs by auto
      ultimately show ?thesis using none by simp
    next
      case ys: False
      have "vr_start (hd ys) \<le> vr_start t" if "t \<in> set rs" "addr < vr_start t" for t
      proof -
        have "t \<in> set ys" using that rs lo by auto
        then have "t = hd ys \<or> apart (hd ys) t" using wf rs by (cases ys) auto
        then show ?thesis by (auto simp: apart_def)
      qed
      moreover have "VR_Query rs addr flags = Some (hd ys)" unfolding query using False ys by auto
      moreover have "hd ys \<in> set rs" "addr < vr_start (hd ys)" using ys hi rs by simp_all
      ultimately show ?thesis using ys none by simp
    qed
  qed
qed

text \<open>Parts that follow each other without a gap from one address to another.\<close>

fun tiles :: "nat \<Rightarrow> nat \<Rightarrow> VRange list \<Rightarrow> bool" where
  "tiles s e [] \<longleftrightarrow> s = e"
| "tiles s e (p # ps) \<longleftrightarrow> vr_start p = s \<and> 0 < vr_size p \<and> tiles (s + vr_size p) e ps"

lemma tiles_start: "tiles s e ps \<Longrightarrow> p \<in> set ps \<Longrightarrow> s \<le> vr_start p"
  by (induction s e ps rule: tiles.induct) force+

lemma query_loop_ok:
  assumes "vr_wf rs" "current < fin" "fin \<le> u64_max"
  shows "case query_loop rs current fin out of
      None \<Rightarrow> \<exists>a. current \<le> a \<and> a < fin \<and> vmap rs a = None
    | Some ps \<Rightarrow> \<exists>qs. ps = out @ qs \<and> tiles current fin qs \<and>
        (\<forall>a. current \<le> a \<longrightarrow> a < fin \<longrightarrow> vmap qs a = vmap rs a \<and> vmap rs a \<noteq> None)"
  using assms
proof (induction rs arbitrary: current out)
  case Nil
  then show ?case by auto
next
  case (Cons r rs)
  have r: "vr_ok r" "\<forall>s \<in> set rs. apart r s" "vr_wf rs" using Cons.prems(1) by simp_all
  then have e: "vr_End (vr_start r) (vr_size r) = vr_start r + vr_size r" by (simp add: vr_ok_def)
  show ?case
  proof (cases "vr_start r + vr_size r \<le> current")
    case True
    then have same: "vmap (r # rs) a = vmap rs a" if "current \<le> a" for a using that by (simp add: covers_def)
    have skip: "query_loop (r # rs) current fin out = query_loop rs current fin out"
      using True by (simp add: e Let_def)
    note IH = Cons.IH [OF r(3) Cons.prems(2,3), of out]
    show ?thesis
    proof (cases "query_loop rs current fin out")
      case None
      with IH obtain a where "current \<le> a" "a < fin" "vmap rs a = None" by auto
      with same [of a] show ?thesis unfolding skip None option.case by (metis (no_types))
    next
      case (Some ps)
      with IH obtain qs where "ps = out @ qs" "tiles current fin qs"
        "\<forall>a. current \<le> a \<longrightarrow> a < fin \<longrightarrow> vmap qs a = vmap rs a \<and> vmap rs a \<noteq> None" by auto
      with same show ?thesis unfolding skip Some option.case by (intro exI [of _ qs]) (simp del: vmap.simps)
    qed
  next
    case not_before: False
    show ?thesis
    proof (cases "vr_start r > current")
      case True
      then have "vmap (r # rs) current = None"
        using r(2) by (intro vmap_after) (auto simp: apart_def)
      moreover have "query_loop (r # rs) current fin out = None"
        using True not_before by (simp add: e Let_def)
      ultimately show ?thesis using Cons.prems(2) by (auto simp del: vmap.simps query_loop.simps)
    next
      case False
      let ?e = "min fin (vr_start r + vr_size r)"
      define part where "part = hd (AddPiece r current ?e)"
      have lt: "current < ?e" using not_before Cons.prems(2) by simp
      have sub: "sub64 ?e current = ?e - current"
        using lt Cons.prems(3) by (intro sub64_id) auto
      have nle: "\<not> ?e \<le> current" using lt by (simp only: not_le)
      have ap: "AddPiece r current ?e = [part]"
        unfolding part_def AddPiece_def Let_def by (simp only: nle if_False list.sel)
      have le: "vr_start r \<le> current" "?e \<le> vr_start r + vr_size r" using False by auto
      note ok = AddPiece_ok [OF r(1) le, unfolded ap]
      have part: "vr_start part = current" "current + vr_size part = ?e" using ok(3) [of part] by auto
      have pos: "0 < vr_size part" using part(2) lt by linarith
      have cp: "vmap (part # qs) a = (if current \<le> a \<and> a < ?e then Some (byte_of r a) else vmap qs a)" for qs a
        using ok(2) [of a] vmap_append [of "[part]" qs a] by simp
      have "(let p = r\<lparr>vr_start := current, vr_size := sub64 ?e current\<rparr> in
          if vr_type p = Direct then p\<lparr>vr_offset := add64 (vr_offset p) (sub64 current (vr_start r))\<rparr> else p) = part"
        unfolding part_def AddPiece_def Let_def sub by (simp only: nle if_False list.sel)
      then have loop: "query_loop (r # rs) current fin out =
          (let c = add64 current (vr_size part) in
           if c = fin then Some (out @ [part]) else query_loop rs c fin (out @ [part]))"
        using not_before False unfolding query_loop.simps Let_def e by (simp only: if_False)
      have c: "add64 current (vr_size part) = ?e" using part Cons.prems(3) by simp
      have here: "vmap (r # rs) a = Some (byte_of r a)" if "current \<le> a" "a < ?e" for a
        using that le by (simp add: covers_def)
      show ?thesis
      proof (cases "?e = fin")
        case True
        then have "query_loop (r # rs) current fin out = Some (out @ [part])" by (simp only: loop c Let_def if_True simp_thms)
        moreover have "tiles current fin [part]" using part pos True by simp
        moreover have "vmap [part] a = vmap (r # rs) a \<and> vmap (r # rs) a \<noteq> None"
          if "current \<le> a" "a < fin" for a
        proof -
          have "a < ?e" using True that by (simp only:)
          with cp [of "[]" a] here [of a] that show ?thesis by (simp del: vmap.simps)
        qed
        ultimately show ?thesis by (auto simp del: vmap.simps query_loop.simps)
      next
        case not_fin: False
        then have fe: "?e = vr_start r + vr_size r" "?e < fin" by auto
        have loop': "query_loop (r # rs) current fin out = query_loop rs ?e fin (out @ [part])"
          using not_fin by (simp only: loop c Let_def if_False)
        have later: "vmap (r # rs) a = vmap rs a" if "?e \<le> a" for a
          using that unfolding fe(1) by (simp add: covers_def)
        note IH = Cons.IH [OF r(3) fe(2) Cons.prems(3), of "out @ [part]"]
        show ?thesis
        proof (cases "query_loop rs ?e fin (out @ [part])")
          case None
          with IH obtain a where "?e \<le> a" "a < fin" "vmap rs a = None" by auto
          with later lt have "current \<le> a \<and> a < fin \<and> vmap (r # rs) a = None" by (metis less_imp_le le_trans)
          then show ?thesis unfolding loop' None option.case by blast
        next
          case (Some ps)
          with IH obtain qs where qs: "ps = (out @ [part]) @ qs" "tiles ?e fin qs"
            "\<forall>a. ?e \<le> a \<longrightarrow> a < fin \<longrightarrow> vmap qs a = vmap rs a \<and> vmap rs a \<noteq> None" by auto
          have "tiles current fin (part # qs)" using part pos qs(2) by simp
          moreover have "vmap (part # qs) a = vmap (r # rs) a \<and> vmap (r # rs) a \<noteq> None"
            if "current \<le> a" "a < fin" for a
          proof (cases "a < ?e")
            case True
            then show ?thesis using cp [of qs a] here [OF that(1) True] that(1) by (simp del: vmap.simps)
          next
            case False
            then have "?e \<le> a" by (simp only: not_less)
            moreover have "\<not> (current \<le> a \<and> a < ?e)" using False by blast
            ultimately have "vmap (part # qs) a = vmap qs a" unfolding cp [of qs a] by (simp only: if_False)
            with \<open>?e \<le> a\<close> qs(3) later [of a] that show ?thesis by (simp del: vmap.simps)
          qed
          ultimately show ?thesis unfolding loop' Some option.case using qs(1)
            by (intro exI [of _ "part # qs"]) (simp del: vmap.simps)
        qed
      qed
    qed
  qed
qed

lemma VR_QuerySpan_ok:
  assumes wf: "vr_wf rs" and ok: "0 < start" "0 < sz" "start + sz \<le> u64_max"
  shows "case VR_QuerySpan rs start sz of
      None \<Rightarrow> \<exists>a. in_span start sz a \<and> vmap rs a = None
    | Some ps \<Rightarrow> tiles start (start + sz) ps \<and>
        (\<forall>a. in_span start sz a \<longrightarrow> vmap ps a = vmap rs a \<and> vmap rs a \<noteq> None)"
proof -
  have "VR_QuerySpan rs start sz = query_loop rs start (start + sz) []"
    using ok by (auto simp: VR_QuerySpan_def)
  with query_loop_ok [OF wf _ ok(3), of start "[]"] ok(2) show ?thesis
    by (auto simp: in_span_def split: option.splits)
qed

section \<open>Reserved ranges\<close>

definition all_of_type :: "(nat \<Rightarrow> vbyte option) \<Rightarrow> VirtualRangeType \<Rightarrow> nat \<Rightarrow> nat \<Rightarrow> bool" where
  "all_of_type f ty start sz \<longleftrightarrow> (\<forall>a. in_span start sz a \<longrightarrow> map_option vb_type (f a) = Some ty)"

lemma span_candidate_ok:
  assumes "vr_wf rs"
  shows "span_candidate rs ty a = Some r \<Longrightarrow> r \<in> set rs \<and> covers r a \<and> vr_type r = ty"
    "span_candidate rs ty a = None \<Longrightarrow> map_option vb_type (vmap rs a) \<noteq> Some ty"
proof -
  have e: "vr_End (vr_start r) (vr_size r) = vr_start r + vr_size r" if "r \<in> set rs" for r
    using vr_wf_ok [OF assms that] by (simp add: vr_ok_def)
  show "span_candidate rs ty a = Some r \<Longrightarrow> r \<in> set rs \<and> covers r a \<and> vr_type r = ty"
    using e by (auto simp: span_candidate_def find_Some_iff covers_def)
  show "span_candidate rs ty a = None \<Longrightarrow> map_option vb_type (vmap rs a) \<noteq> Some ty"
    using e by (auto simp: span_candidate_def find_None_iff covers_def byte_of_def dest!: vmap_SomeD)
qed

lemma span_walk_iff:
  assumes "vr_wf rs"
  shows "span_walk rs ty current fin \<longleftrightarrow>
    (\<forall>a. current \<le> a \<longrightarrow> a < fin \<longrightarrow> map_option vb_type (vmap rs a) = Some ty)"
  using assms
proof (induction rs ty current fin rule: span_walk.induct)
  case (1 rs ty current fin)
  show ?case
  proof (cases "current < fin")
    case True
    show ?thesis
    proof (cases "span_candidate rs ty current")
      case None
      then show ?thesis
        using True span_candidate_ok(2) [OF 1(2) None] by (auto simp: span_walk.simps [of rs ty current])
    next
      case (Some r)
      note r = span_candidate_ok(1) [OF 1(2) Some]
      have e: "vr_End (vr_start r) (vr_size r) = vr_start r + vr_size r"
        using vr_wf_ok [OF 1(2), of r] r by (simp add: vr_ok_def)
      have "map_option vb_type (vmap rs a) = Some ty" if "current \<le> a" "a < vr_start r + vr_size r" for a
      proof -
        have "covers r a" using r that by (simp add: covers_def)
        with vmap_covers [OF 1(2) _ this] r show ?thesis by (simp add: byte_of_def)
      qed
      moreover have "span_walk rs ty current fin =
          span_walk rs ty (min fin (vr_start r + vr_size r)) fin"
        using True Some by (subst span_walk.simps) (simp add: e)
      moreover have "span_walk rs ty (min fin (vr_start r + vr_size r)) fin \<longleftrightarrow>
          (\<forall>a. min fin (vr_start r + vr_size r) \<le> a \<longrightarrow> a < fin \<longrightarrow> map_option vb_type (vmap rs a) = Some ty)"
        using 1(1) [OF True Some 1(2)] unfolding e .
      moreover have "current \<le> min fin (vr_start r + vr_size r)" using True r by (simp add: covers_def)
      moreover have "a < vr_start r + vr_size r \<or> min fin (vr_start r + vr_size r) \<le> a" for a by auto
      ultimately show ?thesis by (meson le_trans)
    qed
  qed (simp add: span_walk.simps)
qed

lemma VR_ConsumeReservedSpan_ok:
  fixes ty :: VirtualRangeType
  assumes inv: "vr_inv rs" and sz: "start + sz \<le> u64_max"
  defines "yes \<equiv> 0 < sz \<and> all_of_type (vmap rs) ty start sz"
  shows "fst (VR_ConsumeReservedSpan rs start sz ty) \<longleftrightarrow> yes"
    "vr_inv (snd (snd (VR_ConsumeReservedSpan rs start sz ty)))"
    "vmap (snd (snd (VR_ConsumeReservedSpan rs start sz ty))) =
      (if yes then clear_span start sz (vmap rs) else vmap rs)"
proof -
  note wf = vr_inv_wf [OF inv]
  have e: "vr_End start sz = start + sz" using sz by simp
  have w: "span_walk rs ty start (start + sz) \<longleftrightarrow> all_of_type (vmap rs) ty start sz"
    unfolding span_walk_iff [OF wf] all_of_type_def in_span_def by blast
  note rm = RemoveUnlocked_ok [OF wf sz] MergeUnlocked_ok [OF RemoveUnlocked_ok(1) [OF wf sz]]
  show "fst (VR_ConsumeReservedSpan rs start sz ty) \<longleftrightarrow> yes"
    "vr_inv (snd (snd (VR_ConsumeReservedSpan rs start sz ty)))"
    "vmap (snd (snd (VR_ConsumeReservedSpan rs start sz ty))) =
      (if yes then clear_span start sz (vmap rs) else vmap rs)"
    using rm inv unfolding VR_ConsumeReservedSpan_def yes_def Let_def e w by simp_all
qed

lemma VR_ConsumeReserved_ok:
  assumes inv: "vr_inv rs" and sz: "start + sz \<le> u64_max"
  shows "fst (VR_ConsumeReserved rs start sz ty) \<Longrightarrow> all_of_type (vmap rs) ty start sz"
    "vr_inv (snd (VR_ConsumeReserved rs start sz ty))"
    "vmap (snd (VR_ConsumeReserved rs start sz ty)) =
      (if fst (VR_ConsumeReserved rs start sz ty) then clear_span start sz (vmap rs) else vmap rs)"
proof -
  note wf = vr_inv_wf [OF inv]
  have e: "vr_End start sz = start + sz" using sz by simp
  note rm = RemoveUnlocked_ok [OF wf sz] MergeUnlocked_ok [OF RemoveUnlocked_ok(1) [OF wf sz]]
  show "vr_inv (snd (VR_ConsumeReserved rs start sz ty))"
    "vmap (snd (VR_ConsumeReserved rs start sz ty)) =
      (if fst (VR_ConsumeReserved rs start sz ty) then clear_span start sz (vmap rs) else vmap rs)"
    using rm inv unfolding VR_ConsumeReserved_def Let_def e by auto
  assume "fst (VR_ConsumeReserved rs start sz ty)"
  then obtain r where r: "r \<in> set rs" "vr_type r = ty" "vr_start r \<le> start"
    "start + sz \<le> vr_End (vr_start r) (vr_size r)"
    unfolding VR_ConsumeReserved_def Let_def e by (auto split: if_splits)
  have "map_option vb_type (vmap rs a) = Some ty" if "in_span start sz a" for a
  proof -
    have "covers r a" using r that vr_wf_ok [OF wf r(1)] by (simp add: covers_def in_span_def vr_ok_def)
    from vmap_covers [OF wf r(1) this] r(2) show ?thesis by (simp add: byte_of_def)
  qed
  then show "all_of_type (vmap rs) ty start sz" by (simp add: all_of_type_def)
qed

lemma VR_ReleaseReserved_ok:
  assumes inv: "vr_inv rs"
  shows "vr_inv (snd (VR_ReleaseReserved rs start sz))"
    "\<not> in_span start sz a \<Longrightarrow> vmap (snd (VR_ReleaseReserved rs start sz)) a = vmap rs a"
proof -
  let ?P = "\<lambda>r. vr_start r = start \<and> vr_size r = sz \<and> IsReservedRangeType (vr_type r)"
  note wf = vr_inv_wf [OF inv]
  have "vr_inv (snd (VR_ReleaseReserved rs start sz)) \<and>
    (\<not> in_span start sz a \<longrightarrow> vmap (snd (VR_ReleaseReserved rs start sz)) a = vmap rs a)"
  proof (cases "find_index ?P rs")
    case (Some i)
    from find_index_SomeD [OF Some] have i: "i < length rs" "?P (rs ! i)" by blast+
    have rs: "rs = take i rs @ rs ! i # drop (Suc i) rs" using i(1) by (rule id_take_nth_drop)
    have wf': "vr_wf (take i rs @ rs ! i # drop (Suc i) rs)" using wf rs by metis
    have low: "vr_lower (vr_start (rs ! i)) rs = (take i rs, rs ! i # drop (Suc i) rs)"
    proof -
      have "\<forall>q \<in> set (take i rs). vr_start q < vr_start (rs ! i)"
        using vr_wf_sorted [OF wf'] by (simp add: sorted_wrt_append)
      then have "vr_lower (vr_start (rs ! i)) (take i rs @ rs ! i # drop (Suc i) rs) =
          (take i rs, rs ! i # drop (Suc i) rs)"
        by (simp add: vr_lower_def)
      with rs show ?thesis by metis
    qed
    have "vr_inv (take i rs @ drop (Suc i) rs)" using vr_split_hd(4) [OF inv low] by simp
    moreover have "vmap (take i rs @ drop (Suc i) rs) a = vmap rs a" if "\<not> in_span start sz a"
    proof -
      have "\<not> covers (rs ! i) a" using i(2) that by (simp add: covers_def in_span_def)
      with vmap_middle(1) [OF wf', of a] rs show ?thesis by metis
    qed
    ultimately show ?thesis by (simp add: VR_ReleaseReserved_def Some erase_at_def)
  qed (use inv in \<open>simp add: VR_ReleaseReserved_def del: find_index_None\<close>)
  then show "vr_inv (snd (VR_ReleaseReserved rs start sz))"
    "\<not> in_span start sz a \<Longrightarrow> vmap (snd (VR_ReleaseReserved rs start sz)) a = vmap rs a" by blast+
qed

end
