(* ===== verification/VirtualBorders.thy ===== *)
theory VirtualBorders
  imports VirtualHistory
begin

text \<open>
  Where the ranges of the vector begin and end. Neighbours with equal attributes are merged,
  unless they are direct or must not be merged: between such ranges a border stays where a
  call has put it. A set of these places and the map from bytes to attributes together
  determine every range, and with it the answer of \<open>ConsumeReserved\<close> and of \<open>Query\<close>.
\<close>

section \<open>Borders that stay\<close>

definition sticky :: "VRange \<Rightarrow> bool" where
  "sticky r \<longleftrightarrow> vr_disallow_merge r \<or> vr_type r = Direct"

definition sticky_set :: "virtual_ranges \<Rightarrow> VRange set" where
  "sticky_set rs = {r \<in> set rs. sticky r}"

definition borders_ok :: "VRange set \<Rightarrow> nat set \<Rightarrow> bool" where
  "borders_ok S cuts \<longleftrightarrow>
     (\<forall>r \<in> S. \<forall>b \<in> cuts. \<not> (vr_start r < b \<and> b < vr_start r + vr_size r)) \<and>
     (\<forall>r \<in> S. \<forall>s \<in> S. vr_start s = vr_start r + vr_size r \<longrightarrow> vr_start s \<in> cuts)"

lemma borders_subset: "borders_ok S cuts \<Longrightarrow> T \<subseteq> S \<Longrightarrow> borders_ok T cuts"
  unfolding borders_ok_def by blast

lemma sticky_set_simps [simp]:
  "sticky_set [] = {}" "sticky_set (xs @ ys) = sticky_set xs \<union> sticky_set ys"
  "sticky_set (r # xs) = (if sticky r then insert r (sticky_set xs) else sticky_set xs)"
  by (auto simp: sticky_set_def)

lemma mergeable_not_sticky: "mergeable l r \<Longrightarrow> \<not> sticky l \<and> \<not> sticky r \<and> \<not> sticky (absorb l r)"
  by (auto simp: mergeable_def SameMergeKey_def sticky_def absorb_def split: if_splits)

lemma sticky_last: "xs \<noteq> [] \<Longrightarrow> \<not> sticky (last xs) \<Longrightarrow> sticky_set (butlast xs) = sticky_set xs"
  by (induction xs) auto

lemma sticky_merge_into: "sticky_set (merge_into ms r) = sticky_set (ms @ [r])"
  using mergeable_not_sticky [of "last ms" r] sticky_last [of ms] by (auto simp: merge_into_def)

lemma sticky_fold: "sticky_set (foldl merge_into ms rs) = sticky_set (ms @ rs)"
  by (induction rs arbitrary: ms) (simp_all add: sticky_merge_into Un_assoc del: sticky_set_simps(3) flip: append_Cons,
      auto simp: sticky_set_def)

lemma sticky_MergeUnlocked [simp]: "sticky_set (MergeUnlocked rs) = sticky_set rs"
  by (simp add: MergeUnlocked_def sticky_fold) (simp add: sticky_set_def)

lemma sticky_merge_following: "sticky_set (merge_following c rest) = sticky_set (c # rest)"
  by (induction c rest rule: merge_following.induct) (use mergeable_not_sticky in auto)

lemma sticky_MergeAround [simp]:
  "sticky_set (MergeAroundUnlocked (before @ r # rest) (length before)) = sticky_set (before @ r # rest)"
  using mergeable_not_sticky [of "last before" r] sticky_last [of before]
  by (auto simp: MergeAroundUnlocked_def sticky_merge_following)

section \<open>Cutting ranges into pieces\<close>

text \<open>The pieces of a range, and the borders between them.\<close>

definition cut_ok :: "VRange \<Rightarrow> VRange list \<Rightarrow> nat set \<Rightarrow> bool" where
  "cut_ok r ps new \<longleftrightarrow> inside r ps \<and> (\<forall>p \<in> set ps. sticky p = sticky r) \<and>
     (\<forall>p \<in> set ps. \<forall>b \<in> new. \<not> (vr_start p < b \<and> b < vr_start p + vr_size p)) \<and>
     (\<forall>p \<in> set ps. \<forall>q \<in> set ps. vr_start q = vr_start p + vr_size p \<longrightarrow> vr_start q \<in> new)"

lemma pieces_borders:
  assumes wf: "vr_wf rs" and ok: "borders_ok (sticky_set rs) cuts"
    and f: "\<And>r. r \<in> set rs \<Longrightarrow> cut_ok r (f r) new"
  shows "borders_ok (sticky_set (concat (map f rs))) (cuts \<union> new)"
proof -
  have piece: "vr_start r \<le> vr_start p" "vr_start p + vr_size p \<le> vr_start r + vr_size r" "0 < vr_size p" "sticky p = sticky r"
    if "r \<in> set rs" "p \<in> set (f r)" for r p
    using f [OF that(1)] that(2) vr_wf_ok [of "f r" p] unfolding cut_ok_def inside_def vr_ok_def by blast+
  have apart2: "r = s \<or> apart r s \<or> apart s r" if "r \<in> set rs" "s \<in> set rs" for r s
    using wf that by (induction rs) auto
  show ?thesis
    unfolding borders_ok_def
  proof (intro conjI ballI impI)
    fix p b assume p: "p \<in> sticky_set (concat (map f rs))" and b: "b \<in> cuts \<union> new"
    from p obtain r where r: "r \<in> set rs" "p \<in> set (f r)" "sticky p" by (auto simp: sticky_set_def)
    show "\<not> (vr_start p < b \<and> b < vr_start p + vr_size p)"
    proof (cases "b \<in> new")
      case True
      then show ?thesis using f [OF r(1)] r(2) unfolding cut_ok_def by blast
    next
      case False
      then have "\<not> (vr_start r < b \<and> b < vr_start r + vr_size r)"
        using b ok r piece(4) [OF r(1,2)] unfolding borders_ok_def sticky_set_def by blast
      then show ?thesis using piece(1,2) [OF r(1,2)] by linarith
    qed
  next
    fix p q assume p: "p \<in> sticky_set (concat (map f rs))" and q: "q \<in> sticky_set (concat (map f rs))"
      and e: "vr_start q = vr_start p + vr_size p"
    from p obtain r where r: "r \<in> set rs" "p \<in> set (f r)" "sticky p" by (auto simp: sticky_set_def)
    from q obtain s where s: "s \<in> set rs" "q \<in> set (f s)" "sticky q" by (auto simp: sticky_set_def)
    note pr = piece(1-3) [OF r(1,2)] note qs = piece(1-3) [OF s(1,2)]
    consider "r = s" | "apart r s" | "apart s r" using apart2 [OF r(1) s(1)] by blast
    then show "vr_start q \<in> cuts \<union> new"
    proof cases
      case 1
      then show ?thesis using f [OF r(1)] r(2) s(2) e unfolding cut_ok_def by blast
    next
      case 2
      then have m: "vr_start s = vr_start r + vr_size r" "vr_start q = vr_start s"
        using e pr qs unfolding apart_def by linarith+
      have "r \<in> sticky_set rs" "s \<in> sticky_set rs"
        using r s piece(4) [OF r(1,2)] piece(4) [OF s(1,2)] by (simp_all add: sticky_set_def)
      with m ok show ?thesis unfolding borders_ok_def by auto
    next
      case 3
      then show ?thesis using e pr qs unfolding apart_def by linarith
    qed
  qed
qed

lemma AddPiece_sticky: "p \<in> set (AddPiece r s e) \<Longrightarrow> sticky p = sticky r"
  by (auto simp: AddPiece_def Let_def sticky_def split: if_splits)

lemma AddPiece_bounds: "p \<in> set (AddPiece r s e) \<Longrightarrow> vr_start p = s \<and> vr_start p + vr_size p = e \<and> s < e"
  by (auto simp: AddPiece_def Let_def split: if_splits)

lemma remove_cut:
  assumes r: "vr_ok r" and sz: "0 < sz" "start + sz \<le> u64_max"
  shows "cut_ok r (remove_pieces start sz r) {}"
proof -
  have ends: "vr_End start sz = start + sz" "vr_End (vr_start r) (vr_size r) = vr_start r + vr_size r"
    using assms by (simp_all add: vr_ok_def)
  have ov: "VirtualRangesOverlap start sz (vr_start r) (vr_size r) \<longleftrightarrow>
      {start..<start + sz} \<inter> {vr_start r..<vr_start r + vr_size r} \<noteq> {}"
    using sz r by (intro VirtualRangesOverlap_iff) (simp_all add: vr_ok_def)
  have pieces: "vr_start p < vr_start p + vr_size p \<and> sticky p = sticky r \<and>
      (p = r \<or> vr_start p = vr_start r \<and> vr_start p + vr_size p \<le> start \<or>
       vr_start p + vr_size p = vr_start r + vr_size r \<and> start + sz \<le> vr_start p)"
    if p: "p \<in> set (remove_pieces start sz r)" for p
  proof (cases "VirtualRangesOverlap start sz (vr_start r) (vr_size r)")
    case True
    then have lt: "max start (vr_start r) < min (start + sz) (vr_start r + vr_size r)" unfolding ov by auto
    from p True have "p \<in> set (AddPiece r (vr_start r) (max start (vr_start r))) \<or>
        p \<in> set (AddPiece r (min (start + sz) (vr_start r + vr_size r)) (vr_start r + vr_size r))"
      by (auto simp: remove_pieces_def ends Let_def)
    then show ?thesis using lt by (auto dest: AddPiece_bounds simp: AddPiece_sticky)
  qed (use p r in \<open>simp add: remove_pieces_def vr_ok_def\<close>)
  have "vr_start q \<noteq> vr_start p + vr_size p"
    if "p \<in> set (remove_pieces start sz r)" "q \<in> set (remove_pieces start sz r)" for p q
  proof -
    have "vr_start r \<le> vr_start p" "vr_start q + vr_size q \<le> vr_start r + vr_size r"
      "vr_start p + vr_size p \<le> vr_start r + vr_size r" "vr_start r \<le> vr_start q"
      using remove_pieces_ok(1) [OF r sz] that by (auto simp: inside_def)
    with pieces [OF that(1)] pieces [OF that(2)] sz(1) show ?thesis
      by (elim conjE disjE; hypsubst?; linarith)
  qed
  then show ?thesis using remove_pieces_ok(1) [OF r sz] pieces by (auto simp: cut_ok_def)
qed

lemma edit_cut:
  assumes r: "vr_ok r" and sz: "0 < sz" "start + sz \<le> u64_max" and e: "edit_ok edit g"
    and st: "\<And>r. sticky (edit r) = sticky r"
  shows "cut_ok r (edit_pieces edit start sz r) {start, start + sz}"
proof -
  have ends: "vr_End start sz = start + sz" "vr_End (vr_start r) (vr_size r) = vr_start r + vr_size r"
    using assms by (simp_all add: vr_ok_def)
  have ov: "VirtualRangesOverlap start sz (vr_start r) (vr_size r) \<longleftrightarrow>
      {start..<start + sz} \<inter> {vr_start r..<vr_start r + vr_size r} \<noteq> {}"
    using sz r by (intro VirtualRangesOverlap_iff) (simp_all add: vr_ok_def)
  have edit: "vr_start (edit q) = vr_start q" "vr_size (edit q) = vr_size q" for q
    using e by (simp_all add: edit_ok_def)
  have pieces: "sticky p = sticky r \<and> vr_start p < vr_start p + vr_size p \<and>
      (vr_start p + vr_size p \<le> start \<or> start + sz \<le> vr_start p \<or>
       start \<le> vr_start p \<and> vr_start p + vr_size p \<le> start + sz) \<and>
      (vr_start p + vr_size p \<in> {start, start + sz} \<or> vr_start p + vr_size p = vr_start r + vr_size r)"
    if p: "p \<in> set (edit_pieces edit start sz r)" for p
  proof (cases "VirtualRangesOverlap start sz (vr_start r) (vr_size r)")
    case True
    define ms where "ms = max start (vr_start r)"
    define me where "me = min (start + sz) (vr_start r + vr_size r)"
    have lt: "ms < me" using True unfolding ov ms_def me_def by auto
    then have sub: "sub64 me ms = me - ms" using sz r by (intro sub64_id) (auto simp: me_def vr_ok_def)
    let ?m = "r\<lparr>vr_start := ms, vr_size := me - ms\<rparr>"
    define m where "m = (if vr_type ?m = Direct then ?m\<lparr>vr_offset := add64 (vr_offset ?m) (sub64 ms (vr_start r))\<rparr> else ?m)"
    have m: "vr_start m = ms" "vr_size m = me - ms" "sticky m = sticky r" by (simp_all add: m_def sticky_def)
    have "p \<in> set (AddPiece r (vr_start r) ms) \<or> p \<in> set (AddPiece r me (vr_start r + vr_size r)) \<or> p = edit m"
      using p True unfolding edit_pieces_def ends Let_def ms_def [symmetric] me_def [symmetric] sub m_def [symmetric]
      by (simp only: not_not if_False simp_thms set_append Un_iff set_simps insert_iff empty_iff) blast
    then show ?thesis
    proof (elim disjE)
      assume "p \<in> set (AddPiece r (vr_start r) ms)"
      then have "vr_start p = vr_start r" "vr_start p + vr_size p = ms" "vr_start r < ms" "sticky p = sticky r"
        by (auto dest: AddPiece_bounds simp: AddPiece_sticky)
      moreover from this have "ms = start" by (auto simp: ms_def)
      ultimately show ?thesis by simp
    next
      assume "p \<in> set (AddPiece r me (vr_start r + vr_size r))"
      then have "vr_start p = me" "vr_start p + vr_size p = vr_start r + vr_size r" "me < vr_start r + vr_size r"
        "sticky p = sticky r" by (auto dest: AddPiece_bounds simp: AddPiece_sticky)
      moreover from this have "me = start + sz" by (auto simp: me_def)
      ultimately show ?thesis by simp
    next
      assume "p = edit m"
      then have "vr_start p = ms" "vr_start p + vr_size p = me" "sticky p = sticky r" using m lt edit st by simp_all
      moreover have "me = start + sz \<or> me = vr_start r + vr_size r" "start \<le> ms" "me \<le> start + sz"
        by (auto simp: ms_def me_def)
      ultimately show ?thesis using lt by auto
    qed
  next
    case False
    with p have "p = r" by (simp add: edit_pieces_def Let_def)
    moreover have "0 < vr_size r" using r by (simp add: vr_ok_def)
    moreover have "vr_start r + vr_size r \<le> start \<or> start + sz \<le> vr_start r"
    proof (rule ccontr)
      assume "\<not> (vr_start r + vr_size r \<le> start \<or> start + sz \<le> vr_start r)"
      then have "max start (vr_start r) \<in> {start..<start + sz} \<inter> {vr_start r..<vr_start r + vr_size r}"
        using calculation(2) sz(1) by auto
      with False show False unfolding ov by blast
    qed
    ultimately show ?thesis by auto
  qed
  have "vr_start q \<in> {start, start + sz}"
    if "p \<in> set (edit_pieces edit start sz r)" "q \<in> set (edit_pieces edit start sz r)" "vr_start q = vr_start p + vr_size p" for p q
  proof -
    have "vr_start q + vr_size q \<le> vr_start r + vr_size r"
      using edit_pieces_ok(1) [OF r sz e] that(2) by (auto simp: inside_def)
    then show ?thesis using pieces [OF that(1)] pieces [OF that(2)] that(3) by auto
  qed
  moreover have "\<not> (vr_start p < b \<and> b < vr_start p + vr_size p)"
    if "p \<in> set (edit_pieces edit start sz r)" "b \<in> {start, start + sz}" for p b
    using pieces [OF that(1)] that(2) by auto
  ultimately show ?thesis using edit_pieces_ok(1) [OF r sz e] pieces unfolding cut_ok_def by blast
qed

section \<open>Borders after each operation\<close>

lemma remove_borders:
  assumes wf: "vr_wf rs" and sz: "start + sz \<le> u64_max" and ok: "borders_ok (sticky_set rs) cuts"
  shows "borders_ok (sticky_set (snd (RemoveUnlocked rs start sz))) cuts"
proof (cases "sz = 0")
  case False
  then have "0 < sz" by simp
  from pieces_borders [OF wf ok, of "remove_pieces start sz" "{}"] remove_cut [OF vr_wf_ok [OF wf] this sz] False
  show ?thesis by (simp add: RemoveUnlocked_def)
qed (use ok in \<open>simp add: RemoveUnlocked_def\<close>)

definition span_ends :: "nat \<Rightarrow> nat \<Rightarrow> nat set" where
  "span_ends start sz = (if sz = 0 then {} else {start, start + sz})"

lemma edit_borders:
  assumes wf: "vr_wf rs" and sz: "start + sz \<le> u64_max" and ok: "borders_ok (sticky_set rs) cuts"
    and e: "edit_ok edit g" and st: "\<And>r. sticky (edit r) = sticky r"
  shows "borders_ok (sticky_set (EditUnlocked rs start sz edit)) (cuts \<union> span_ends start sz)"
proof (cases "sz = 0")
  case False
  then have "0 < sz" by simp
  from pieces_borders [OF wf ok, of "edit_pieces edit start sz" "{start, start + sz}"]
    edit_cut [OF vr_wf_ok [OF wf] this sz e st] False
  show ?thesis by (simp add: EditUnlocked_def span_ends_def)
qed (use ok in \<open>simp add: EditUnlocked_def span_ends_def\<close>)

lemma vr_remove_borders:
  assumes inv: "vr_inv rs" and sz: "start + sz \<le> u64_max" and ok: "borders_ok (sticky_set rs) cuts"
  shows "borders_ok (sticky_set (snd (VR_Remove rs start sz))) cuts"
proof -
  note wf = vr_inv_wf [OF inv]
  obtain before it where s: "vr_lower start rs = (before, it)" by (cases "vr_lower start rs")
  show ?thesis
  proof (cases "it \<noteq> [] \<and> vr_start (hd it) = start \<and> vr_size (hd it) = sz")
    case True
    have "rs = before @ hd it # tl it" using vr_split_parts(1) [OF wf s] True by simp
    then have "sticky_set (before @ tl it) \<subseteq> sticky_set rs" by (simp add: sticky_set_def) auto
    with borders_subset [OF ok] True s show ?thesis by (simp add: VR_Remove_def)
  next
    case False
    with s have "snd (VR_Remove rs start sz) = MergeUnlocked (snd (RemoveUnlocked rs start sz))"
      by (auto simp: VR_Remove_def case_prod_beta)
    with remove_borders [OF wf sz ok] show ?thesis by simp
  qed
qed

lemma add_borders:
  assumes inv: "vr_inv rs" and sz: "start + sz \<le> u64_max" and off: "offset \<le> u64_max"
    and ok: "borders_ok (sticky_set rs) cuts" and yes: "fst (VR_Add rs start sz offset prot mt ty name dm)"
  shows "borders_ok (sticky_set (snd (VR_Add rs start sz offset prot mt ty name dm)))
    (cuts - {start<..<start + sz} \<union> {start, start + sz})"
proof -
  note wf = vr_inv_wf [OF inv]
  have free: "0 < start" "0 < sz" "\<And>a. in_span start sz a \<Longrightarrow> vmap rs a = None"
    using VR_Add_ok(2) [OF inv sz off] yes by blast+
  obtain before it where s: "vr_lower start rs = (before, it)" by (cases "vr_lower start rs")
  from vr_split_parts(1) [OF wf s] have rs: "rs = before @ it" by blast
  define r where "r = \<lparr>vr_start = start, vr_size = sz, vr_offset = offset, vr_protection = prot,
      vr_memory_type = mt, vr_type = ty, vr_disallow_merge = dm, vr_name = CopyVirtualRangeName name\<rparr>"
  have "snd (VR_Add rs start sz offset prot mt ty name dm) = MergeAroundUnlocked (before @ r # it) (length before)"
    using yes by (auto simp: VR_Add_def s r_def Let_def split: if_splits)
  then have new: "sticky_set (snd (VR_Add rs start sz offset prot mt ty name dm)) \<subseteq> insert r (sticky_set rs)"
    by (auto simp: rs)
  have sep: "vr_start q + vr_size q \<le> start \<or> start + sz \<le> vr_start q" and pos: "0 < vr_size q" if q: "q \<in> set rs" for q
  proof -
    show pos: "0 < vr_size q" using vr_wf_ok [OF wf q] by (simp add: vr_ok_def)
    have "\<not> covers q a" if "in_span start sz a" for a using free(3) [OF that] q by (simp add: vmap_None)
    from this [of start] this [of "vr_start q"] show "vr_start q + vr_size q \<le> start \<or> start + sz \<le> vr_start q"
      using free(2) pos by (auto simp: in_span_def covers_def)
  qed
  have rr: "vr_start r = start" "vr_size r = sz" by (simp_all add: r_def)
  have "borders_ok (insert r (sticky_set rs)) (cuts - {start<..<start + sz} \<union> {start, start + sz})"
    unfolding borders_ok_def
  proof (intro conjI ballI impI)
    fix q b assume q: "q \<in> insert r (sticky_set rs)" and b: "b \<in> cuts - {start<..<start + sz} \<union> {start, start + sz}"
    show "\<not> (vr_start q < b \<and> b < vr_start q + vr_size q)"
    proof (cases "q = r")
      case True
      then show ?thesis using b rr by auto
    next
      case False
      then have q: "q \<in> sticky_set rs" "q \<in> set rs" using q by (auto simp: sticky_set_def)
      show ?thesis
      proof (cases "b \<in> cuts")
        case True
        then show ?thesis using ok q(1) unfolding borders_ok_def by blast
      next
        case False
        then show ?thesis using b sep [OF q(2)] by auto
      qed
    qed
  next
    fix p q assume p: "p \<in> insert r (sticky_set rs)" and q: "q \<in> insert r (sticky_set rs)"
      and e: "vr_start q = vr_start p + vr_size p"
    show "vr_start q \<in> cuts - {start<..<start + sz} \<union> {start, start + sz}"
    proof (cases "p = r \<or> q = r")
      case True
      then show ?thesis using e rr by auto
    next
      case False
      then have pq: "p \<in> sticky_set rs" "q \<in> sticky_set rs" using p q by auto
      then have "vr_start q \<in> cuts" using ok e unfolding borders_ok_def by blast
      moreover have "vr_start q + vr_size q \<le> start \<or> start + sz \<le> vr_start q" "0 < vr_size q"
        using sep pos pq(2) by (simp_all add: sticky_set_def)
      ultimately show ?thesis by auto
    qed
  qed
  from borders_subset [OF this new] show ?thesis .
qed

lemma rename_borders:
  assumes inv: "vr_inv rs" and sz: "start + sz \<le> u64_max" and ok: "borders_ok (sticky_set rs) cuts"
  shows "borders_ok (sticky_set (VR_Rename rs start sz name)) (cuts \<union> span_ends start sz)"
proof -
  note wf = vr_inv_wf [OF inv]
  obtain before it where s: "vr_lower start rs = (before, it)" by (cases "vr_lower start rs")
  show ?thesis
  proof (cases "it \<noteq> [] \<and> vr_start (hd it) = start \<and> vr_size (hd it) = sz")
    case True
    let ?r = "(hd it)\<lparr>vr_name := CopyVirtualRangeName name\<rparr>"
    have rs: "rs = before @ hd it # tl it" using vr_split_parts(1) [OF wf s] True by simp
    then have h: "hd it \<in> set rs" by (metis in_set_conv_decomp)
    have ren: "VR_Rename rs start sz name = MergeAroundUnlocked (before @ ?r # tl it) (length before)"
      using True s by (simp add: VR_Rename_def)
    have old: "\<exists>r \<in> sticky_set rs. vr_start r = vr_start q \<and> vr_size r = vr_size q"
      if "q \<in> sticky_set (before @ ?r # tl it)" for q
    proof (cases "q = ?r")
      case True
      then have "hd it \<in> sticky_set rs" using that h by (auto simp: sticky_set_def sticky_def)
      with True show ?thesis by auto
    next
      case False
      with that have "q \<in> sticky_set rs" by (subst rs) (auto simp: sticky_set_def split: if_splits)
      then show ?thesis by blast
    qed
    have apart2: "r = hd it \<or> apart r (hd it) \<or> apart (hd it) r" if "r \<in> set rs" for r
    proof -
      have "vr_wf (before @ hd it # tl it)" using wf rs by metis
      moreover have "r \<in> set (before @ hd it # tl it)" using that rs by metis
      ultimately show ?thesis by auto
    qed
    have ends: "\<not> (vr_start r < b \<and> b < vr_start r + vr_size r)" if r: "r \<in> sticky_set rs" and b: "b \<in> cuts \<union> span_ends start sz" for r b
    proof (cases "b \<in> cuts")
      case True
      then show ?thesis using ok r unfolding borders_ok_def by blast
    next
      case False
      then have be: "b = start \<or> b = start + sz" using b by (auto simp: span_ends_def split: if_splits)
      show ?thesis
      proof (cases "r = hd it")
        case True
        then show ?thesis using be \<open>it \<noteq> [] \<and> vr_start (hd it) = start \<and> vr_size (hd it) = sz\<close> by auto
      next
        case ne: False
        have "0 < vr_size r" "0 < vr_size (hd it)" using r h vr_wf_ok [OF wf] by (auto simp: sticky_set_def vr_ok_def)
        moreover have "apart r (hd it) \<or> apart (hd it) r" using apart2 [of r] r ne by (auto simp: sticky_set_def)
        ultimately show ?thesis using be True by (auto simp: apart_def)
      qed
    qed
    have "borders_ok (sticky_set (before @ ?r # tl it)) (cuts \<union> span_ends start sz)"
      unfolding borders_ok_def
    proof (intro conjI ballI impI)
      fix q b assume q: "q \<in> sticky_set (before @ ?r # tl it)" and b: "b \<in> cuts \<union> span_ends start sz"
      from old [OF q] obtain r where "r \<in> sticky_set rs" "vr_start r = vr_start q" "vr_size r = vr_size q" by blast
      with ends [OF _ b] show "\<not> (vr_start q < b \<and> b < vr_start q + vr_size q)" by metis
    next
      fix p q assume p: "p \<in> sticky_set (before @ ?r # tl it)" and q: "q \<in> sticky_set (before @ ?r # tl it)"
        and e: "vr_start q = vr_start p + vr_size p"
      from old [OF p] obtain r1 where r1: "r1 \<in> sticky_set rs" "vr_start r1 = vr_start p" "vr_size r1 = vr_size p" by blast
      from old [OF q] obtain r2 where r2: "r2 \<in> sticky_set rs" "vr_start r2 = vr_start q" by blast
      have "vr_start r2 = vr_start r1 + vr_size r1" using r1 r2 e by simp
      then have "vr_start r2 \<in> cuts" using ok r1(1) r2(1) unfolding borders_ok_def by blast
      then show "vr_start q \<in> cuts \<union> span_ends start sz" using r2(2) by simp
    qed
    then show ?thesis unfolding ren sticky_MergeAround .
  next
    case False
    then have "VR_Rename rs start sz name = EditUnlocked rs start sz (\<lambda>r. r\<lparr>vr_name := CopyVirtualRangeName name\<rparr>)"
      using s by (auto simp: VR_Rename_def)
    with edit_borders [OF wf sz ok edit_ok_name [OF CopyVirtualRangeName_ok]] show ?thesis
      by (simp add: sticky_def)
  qed
qed

section \<open>The ranges, from the map and the borders\<close>

definition same_attributes :: "vbyte \<Rightarrow> vbyte \<Rightarrow> bool" where
  "same_attributes x y \<longleftrightarrow> y\<lparr>vb_backing := vb_backing x\<rparr> = x"

text \<open>The byte before \<open>b\<close> and the byte at \<open>b\<close> lie in one range.\<close>

definition joined :: "(nat \<Rightarrow> vbyte option) \<Rightarrow> nat set \<Rightarrow> nat \<Rightarrow> bool" where
  "joined f cuts b \<longleftrightarrow> 0 < b \<and>
     (case f (b - 1) of None \<Rightarrow> False
      | Some x \<Rightarrow> (case f b of None \<Rightarrow> False
          | Some y \<Rightarrow> same_attributes x y \<and> \<not> ((vb_disallow_merge x \<or> vb_type x = Direct) \<and> b \<in> cuts)))"

lemma unmerged_neighbours:
  assumes inv: "vr_inv rs" and r: "r \<in> set rs" "s \<in> set rs" and e: "vr_start s = vr_start r + vr_size r"
  shows "\<not> mergeable r s"
proof -
  have wf: "vr_wf rs" and u: "unmerged rs" using inv by (simp_all add: vr_inv_def)
  obtain xs ys where rs: "rs = xs @ r # ys" using split_list [OF r(1)] by blast
  have szs: "0 < vr_size r" "0 < vr_size s" using vr_wf_ok [OF wf] r by (simp_all add: vr_ok_def)
  have "s \<notin> set xs" using wf e szs unfolding rs by (auto simp: apart_def dest!: bspec)
  moreover have "s \<noteq> r" using e szs by auto
  ultimately have s: "s \<in> set ys" using r(2) rs by auto
  have hd: "s = hd ys"
  proof (rule ccontr)
    assume "s \<noteq> hd ys"
    then have "apart (hd ys) s" using wf s unfolding rs by (cases ys) auto
    moreover have "apart r (hd ys)" "0 < vr_size (hd ys)" using wf s unfolding rs by (cases ys; auto simp: vr_ok_def)+
    ultimately show False using e unfolding apart_def by linarith
  qed
  have "unmerged (r # ys)" using u unfolding rs by (simp add: unmerged_append)
  then show ?thesis using hd s by (cases ys) simp_all
qed

lemma joined_iff:
  assumes inv: "vr_inv rs" and ok: "borders_ok (sticky_set rs) cuts"
  shows "joined (vmap rs) cuts b \<longleftrightarrow> (\<exists>r \<in> set rs. vr_start r < b \<and> b < vr_start r + vr_size r)"
proof
  note wf = vr_inv_wf [OF inv]
  assume "\<exists>r \<in> set rs. vr_start r < b \<and> b < vr_start r + vr_size r"
  then obtain r where r: "r \<in> set rs" "vr_start r < b" "b < vr_start r + vr_size r" by blast
  then have c: "covers r (b - 1)" "covers r b" by (auto simp: covers_def)
  have "b \<notin> cuts" if "sticky r" using ok r that unfolding borders_ok_def sticky_set_def by blast
  then show "joined (vmap rs) cuts b"
    using r(2) vmap_covers [OF wf r(1) c(1)] vmap_covers [OF wf r(1) c(2)]
    by (auto simp: joined_def same_attributes_def byte_of_def sticky_def)
next
  note wf = vr_inv_wf [OF inv]
  assume j: "joined (vmap rs) cuts b"
  then obtain x y where xy: "0 < b" "vmap rs (b - 1) = Some x" "vmap rs b = Some y" "same_attributes x y"
    "\<not> ((vb_disallow_merge x \<or> vb_type x = Direct) \<and> b \<in> cuts)"
    by (auto simp: joined_def split: option.splits)
  from vmap_SomeD [OF xy(2)] obtain r where r: "r \<in> set rs" "covers r (b - 1)" "x = byte_of r (b - 1)" by blast
  from vmap_SomeD [OF xy(3)] obtain s where s: "s \<in> set rs" "covers s b" "y = byte_of s b" by blast
  have key: "vr_protection s = vr_protection r" "vr_memory_type s = vr_memory_type r" "vr_type s = vr_type r"
    "vr_disallow_merge s = vr_disallow_merge r" "vr_name s = vr_name r"
    using xy(4) r(3) s(3) by (auto simp: same_attributes_def byte_of_def)
  show "\<exists>r \<in> set rs. vr_start r < b \<and> b < vr_start r + vr_size r"
  proof (cases "vr_start s < b")
    case True
    with s show ?thesis by (auto simp: covers_def)
  next
    case False
    then have sb: "vr_start s = b" using s(2) by (simp add: covers_def)
    show ?thesis
    proof (cases "b < vr_start r + vr_size r")
      case True
      then show ?thesis using r xy(1) by (intro bexI [of _ r]) (auto simp: covers_def)
    next
      case False
      then have e: "vr_start s = vr_start r + vr_size r" using r(2) sb xy(1) by (auto simp: covers_def)
      have "sticky r"
      proof (rule ccontr)
        assume ns: "\<not> sticky r"
        have "vr_End (vr_start r) (vr_size r) = vr_start s"
          using e vr_wf_ok [OF wf r(1)] by (simp add: vr_ok_def)
        then have "mergeable r s" using ns key by (auto simp: mergeable_def SameMergeKey_def sticky_def)
        with unmerged_neighbours [OF inv r(1) s(1) e] show False by contradiction
      qed
      then have "r \<in> sticky_set rs" "s \<in> sticky_set rs" using r(1) s(1) key by (simp_all add: sticky_set_def sticky_def)
      with ok e have "b \<in> cuts" unfolding borders_ok_def sb [symmetric] by blast
      moreover have "vb_disallow_merge x \<or> vb_type x = Direct" using \<open>sticky r\<close> r(3) by (simp add: byte_of_def sticky_def)
      ultimately show ?thesis using xy(5) by blast
    qed
  qed
qed

text \<open>
  One range holds the span, and has the type. An empty span is held where it touches a
  range.
\<close>

definition one_range_of_type :: "(nat \<Rightarrow> vbyte option) \<Rightarrow> nat set \<Rightarrow> VirtualRangeType \<Rightarrow> nat \<Rightarrow> nat \<Rightarrow> bool" where
  "one_range_of_type f cuts ty start sz \<longleftrightarrow>
     map_option vb_type (f start) = Some ty \<and> (\<forall>b. start < b \<longrightarrow> b < start + sz \<longrightarrow> joined f cuts b) \<or>
     sz = 0 \<and> 0 < start \<and> map_option vb_type (f (start - 1)) = Some ty"

lemma one_range_of_type_iff:
  assumes inv: "vr_inv rs" and ok: "borders_ok (sticky_set rs) cuts"
  shows "one_range_of_type (vmap rs) cuts ty start sz \<longleftrightarrow>
    (\<exists>r \<in> set rs. vr_type r = ty \<and> vr_start r \<le> start \<and> start + sz \<le> vr_start r + vr_size r)"
proof -
  note wf = vr_inv_wf [OF inv]
  have type_at: "map_option vb_type (vmap rs a) = Some ty \<longleftrightarrow> (\<exists>r \<in> set rs. vr_type r = ty \<and> covers r a)" for a
  proof
    assume "map_option vb_type (vmap rs a) = Some ty"
    then obtain x where "vmap rs a = Some x" "vb_type x = ty" by blast
    then show "\<exists>r \<in> set rs. vr_type r = ty \<and> covers r a" using vmap_SomeD [of rs a x] by (auto simp: byte_of_def)
  qed (use vmap_covers [OF wf] in \<open>auto simp: byte_of_def\<close>)
  show ?thesis
  proof
    assume "\<exists>r \<in> set rs. vr_type r = ty \<and> vr_start r \<le> start \<and> start + sz \<le> vr_start r + vr_size r"
    then obtain r where r: "r \<in> set rs" "vr_type r = ty" "vr_start r \<le> start" "start + sz \<le> vr_start r + vr_size r" by blast
    have pos: "0 < vr_size r" "0 < vr_start r" using vr_wf_ok [OF wf r(1)] by (simp_all add: vr_ok_def)
    show "one_range_of_type (vmap rs) cuts ty start sz"
    proof (cases "start < vr_start r + vr_size r")
      case True
      then have "covers r start" using r(3) by (simp add: covers_def)
      moreover have "joined (vmap rs) cuts b" if "start < b" "b < start + sz" for b
        using r that unfolding joined_iff [OF inv ok] by (intro bexI [of _ r]) auto
      ultimately show ?thesis using r(1,2) unfolding one_range_of_type_def type_at by blast
    next
      case False
      then have "sz = 0" "covers r (start - 1)" "0 < start" using r(3,4) pos by (auto simp: covers_def)
      then show ?thesis using r(1,2) unfolding one_range_of_type_def type_at by blast
    qed
  next
    assume "one_range_of_type (vmap rs) cuts ty start sz"
    then consider (at) "map_option vb_type (vmap rs start) = Some ty" "\<And>b. start < b \<Longrightarrow> b < start + sz \<Longrightarrow> joined (vmap rs) cuts b"
      | (empty) "sz = 0" "0 < start" "map_option vb_type (vmap rs (start - 1)) = Some ty"
      unfolding one_range_of_type_def by blast
    then show "\<exists>r \<in> set rs. vr_type r = ty \<and> vr_start r \<le> start \<and> start + sz \<le> vr_start r + vr_size r"
    proof cases
      case at
      obtain r where r: "r \<in> set rs" "vr_type r = ty" "covers r start" using at(1) unfolding type_at by blast
      have "start + sz \<le> vr_start r + vr_size r"
      proof (rule ccontr)
        let ?e = "vr_start r + vr_size r"
        assume "\<not> start + sz \<le> ?e"
        then have "joined (vmap rs) cuts ?e" using at(2) r(3) by (auto simp: covers_def)
        then obtain s where s: "s \<in> set rs" "vr_start s < ?e" "?e < vr_start s + vr_size s"
          unfolding joined_iff [OF inv ok] by blast
        have "r = s \<or> apart r s \<or> apart s r" using wf r(1) s(1) by (induction rs) auto
        then show False using s r(3) by (auto simp: apart_def covers_def)
      qed
      with r show ?thesis by (auto simp: covers_def)
    next
      case empty
      obtain r where "r \<in> set rs" "vr_type r = ty" "covers r (start - 1)" using empty(3) unfolding type_at by blast
      with empty(1,2) show ?thesis by (intro bexI [of _ r]) (auto simp: covers_def)
    qed
  qed
qed

lemma VR_ConsumeReserved_iff:
  assumes inv: "vr_inv rs" and ok: "borders_ok (sticky_set rs) cuts" and sz: "start + sz \<le> u64_max"
  shows "fst (VR_ConsumeReserved rs start sz ty) \<longleftrightarrow> one_range_of_type (vmap rs) cuts ty start sz"
proof -
  have "vr_End (vr_start r) (vr_size r) = vr_start r + vr_size r" if "r \<in> set rs" for r
    using vr_wf_ok [OF vr_inv_wf [OF inv] that] by (simp add: vr_ok_def)
  then show ?thesis
    using sz unfolding one_range_of_type_iff [OF inv ok] by (auto simp: VR_ConsumeReserved_def Let_def)
qed

text \<open>A range of the vector, as the map and the borders show it.\<close>

definition whole_range :: "(nat \<Rightarrow> vbyte option) \<Rightarrow> nat set \<Rightarrow> VRange \<Rightarrow> bool" where
  "whole_range f cuts r \<longleftrightarrow> 0 < vr_size r \<and> (\<forall>a. covers r a \<longrightarrow> f a = Some (byte_of r a)) \<and>
     (\<forall>b. vr_start r \<le> b \<longrightarrow> b \<le> vr_start r + vr_size r \<longrightarrow>
        joined f cuts b = (vr_start r < b \<and> b < vr_start r + vr_size r))"

lemma whole_range_iff:
  assumes inv: "vr_inv rs" and ok: "borders_ok (sticky_set rs) cuts" and r: "r \<in> set rs"
  shows "whole_range (vmap rs) cuts r"
proof -
  note wf = vr_inv_wf [OF inv]
  have "joined (vmap rs) cuts b = (vr_start r < b \<and> b < vr_start r + vr_size r)"
    if b: "vr_start r \<le> b" "b \<le> vr_start r + vr_size r" for b
  proof -
    have "vr_start r < b \<and> b < vr_start r + vr_size r" if s: "s \<in> set rs" "vr_start s < b" "b < vr_start s + vr_size s" for s
    proof -
      have "r = s \<or> apart r s \<or> apart s r" using wf r s(1) by (induction rs) auto
      then show ?thesis using s b vr_wf_ok [OF wf r] by (auto simp: apart_def vr_ok_def)
    qed
    then show ?thesis using r unfolding joined_iff [OF inv ok] by blast
  qed
  then show ?thesis using vmap_covers [OF wf r] vr_wf_ok [OF wf r] by (simp add: whole_range_def vr_ok_def)
qed

text \<open>The reserved range that lies exactly on the span.\<close>

definition exact_reserved :: "(nat \<Rightarrow> vbyte option) \<Rightarrow> nat set \<Rightarrow> nat \<Rightarrow> nat \<Rightarrow> bool" where
  "exact_reserved f cuts start sz \<longleftrightarrow> 0 < sz \<and>
     (case f start of None \<Rightarrow> False | Some x \<Rightarrow> IsReservedRangeType (vb_type x)) \<and>
     (\<forall>b. start \<le> b \<longrightarrow> b \<le> start + sz \<longrightarrow> joined f cuts b = (start < b \<and> b < start + sz))"

lemma exact_reserved_iff:
  assumes inv: "vr_inv rs" and ok: "borders_ok (sticky_set rs) cuts"
  shows "exact_reserved (vmap rs) cuts start sz \<longleftrightarrow>
    (\<exists>r \<in> set rs. vr_start r = start \<and> vr_size r = sz \<and> IsReservedRangeType (vr_type r))"
proof
  note wf = vr_inv_wf [OF inv]
  assume "\<exists>r \<in> set rs. vr_start r = start \<and> vr_size r = sz \<and> IsReservedRangeType (vr_type r)"
  then obtain r where r: "r \<in> set rs" "vr_start r = start" "vr_size r = sz" "IsReservedRangeType (vr_type r)" by blast
  have w: "whole_range (vmap rs) cuts r" by (rule whole_range_iff [OF inv ok r(1)])
  then have "covers r start" using r by (simp add: covers_def whole_range_def)
  then have "vmap rs start = Some (byte_of r start)" by (rule vmap_covers [OF wf r(1)])
  then show "exact_reserved (vmap rs) cuts start sz"
    using w r unfolding exact_reserved_def whole_range_def by (simp add: byte_of_def)
next
  note wf = vr_inv_wf [OF inv]
  assume e: "exact_reserved (vmap rs) cuts start sz"
  then obtain x where x: "vmap rs start = Some x" "IsReservedRangeType (vb_type x)" "0 < sz"
    by (auto simp: exact_reserved_def split: option.splits)
  have j: "joined (vmap rs) cuts b = (start < b \<and> b < start + sz)" if "start \<le> b" "b \<le> start + sz" for b
    using e that by (simp add: exact_reserved_def)
  from vmap_SomeD [OF x(1)] obtain r where r: "r \<in> set rs" "covers r start" "x = byte_of r start" by blast
  let ?e = "vr_start r + vr_size r"
  have inner: "joined (vmap rs) cuts b" if "vr_start r < b" "b < ?e" for b
    using that r(1) unfolding joined_iff [OF inv ok] by blast
  have "vr_start r = start"
  proof (rule ccontr)
    assume "vr_start r \<noteq> start"
    then have "joined (vmap rs) cuts start" using inner [of start] r(2) by (simp add: covers_def)
    then show False using j [of start] by simp
  qed
  moreover have "?e = start + sz"
  proof (rule ccontr)
    assume ne: "?e \<noteq> start + sz"
    show False
    proof (cases "?e < start + sz")
      case True
      then have "joined (vmap rs) cuts ?e" using j [of ?e] r(2) by (simp add: covers_def)
      then obtain s where s: "s \<in> set rs" "vr_start s < ?e" "?e < vr_start s + vr_size s"
        unfolding joined_iff [OF inv ok] by blast
      have "r = s \<or> apart r s \<or> apart s r" using wf r(1) s(1) by (induction rs) auto
      then show False using s r(2) by (auto simp: apart_def covers_def)
    next
      case False
      then have "joined (vmap rs) cuts (start + sz)" using ne inner [of "start + sz"] r(2) x(3) by (simp add: covers_def)
      then show False using j [of "start + sz"] by simp
    qed
  qed
  ultimately show "\<exists>r \<in> set rs. vr_start r = start \<and> vr_size r = sz \<and> IsReservedRangeType (vr_type r)"
    using r x(2) by (intro bexI [of _ r]) (simp_all add: byte_of_def)
qed

lemma VR_ReleaseReserved_exact:
  assumes inv: "vr_inv rs" and ok: "borders_ok (sticky_set rs) cuts"
  shows "fst (VR_ReleaseReserved rs start sz)"
    "vmap (snd (VR_ReleaseReserved rs start sz)) =
      (if exact_reserved (vmap rs) cuts start sz then clear_span start sz (vmap rs) else vmap rs)"
    "sticky_set (snd (VR_ReleaseReserved rs start sz)) \<subseteq> sticky_set rs"
proof -
  let ?P = "\<lambda>r. vr_start r = start \<and> vr_size r = sz \<and> IsReservedRangeType (vr_type r)"
  note wf = vr_inv_wf [OF inv]
  have "fst (VR_ReleaseReserved rs start sz) \<and> vmap (snd (VR_ReleaseReserved rs start sz)) =
      (if exact_reserved (vmap rs) cuts start sz then clear_span start sz (vmap rs) else vmap rs) \<and>
    sticky_set (snd (VR_ReleaseReserved rs start sz)) \<subseteq> sticky_set rs"
  proof (cases "find_index ?P rs")
    case (Some i)
    from find_index_SomeD [OF Some] have i: "i < length rs" "?P (rs ! i)" by blast+
    have rs: "rs = take i rs @ rs ! i # drop (Suc i) rs" using i(1) by (rule id_take_nth_drop)
    have wf': "vr_wf (take i rs @ rs ! i # drop (Suc i) rs)" using wf rs by metis
    have c: "covers (rs ! i) a \<longleftrightarrow> in_span start sz a" for a using i(2) by (simp add: covers_def in_span_def)
    have ex: "exact_reserved (vmap rs) cuts start sz"
      unfolding exact_reserved_iff [OF inv ok] using i by (intro bexI [of _ "rs ! i"]) auto
    have "vmap (take i rs @ drop (Suc i) rs) a = clear_span start sz (vmap rs) a" for a
      using vmap_middle [OF wf', of a] rs c [of a] by (cases "in_span start sz a") (simp_all add: clear_span_def)
    moreover have "sticky_set (take i rs @ drop (Suc i) rs) \<subseteq> sticky_set rs"
      by (auto simp: sticky_set_def dest: in_set_takeD in_set_dropD)
    ultimately show ?thesis using ex by (simp add: VR_ReleaseReserved_def Some erase_at_def fun_eq_iff)
  next
    case None
    then have "\<not> exact_reserved (vmap rs) cuts start sz" unfolding exact_reserved_iff [OF inv ok] by auto
    with None show ?thesis by (simp add: VR_ReleaseReserved_def del: find_index_None)
  qed
  then show "fst (VR_ReleaseReserved rs start sz)"
    "vmap (snd (VR_ReleaseReserved rs start sz)) =
      (if exact_reserved (vmap rs) cuts start sz then clear_span start sz (vmap rs) else vmap rs)"
    "sticky_set (snd (VR_ReleaseReserved rs start sz)) \<subseteq> sticky_set rs" by blast+
qed

end
