(* ===== verification/VirtualProperties.thy ===== *)
theory VirtualProperties
  imports VirtualBorders
begin

text \<open>
  Histories of \<open>VirtualRanges\<close> against the map from bytes to attributes, the committed part
  of a range, and the properties of the class.
\<close>

section \<open>The committed part of a range\<close>

definition committed :: "virtual_ranges \<Rightarrow> nat \<Rightarrow> bool" where
  "committed rs a \<longleftrightarrow> (case vmap rs a of None \<Rightarrow> False | Some v \<Rightarrow> IsCommittedRangeType (vb_type v))"

lemma committed_Cons:
  "committed (r # rs) a \<longleftrightarrow> (if covers r a then IsCommittedRangeType (vr_type r) else committed rs a)"
  by (simp add: committed_def byte_of_def)

lemma clamp_loop_full: "clamp_loop rs e sz sz = sz"
  by (cases rs) simp_all

lemma clamp_loop_ok:
  assumes "vr_wf rs" "\<forall>r \<in> set rs. e \<le> vr_start r" "c \<le> sz" "e + (sz - c) \<le> u64_max" "sz \<le> u64_max"
  shows "\<exists>k. clamp_loop rs e c sz = c + k \<and> c + k \<le> sz \<and> (\<forall>a. e \<le> a \<longrightarrow> a < e + k \<longrightarrow> committed rs a) \<and>
    (c + k < sz \<longrightarrow> \<not> committed rs (e + k))"
  using assms
proof (induction rs e c sz rule: clamp_loop.induct)
  case (1 e c sz)
  then show ?case by (intro exI [of _ 0]) (simp add: committed_def)
next
  case (2 v rs e c sz)
  have v: "vr_ok v" "\<forall>s \<in> set rs. apart v s" "vr_wf rs" using 2(2) by simp_all
  show ?case
  proof (cases "vr_start v = e \<and> IsCommittedRangeType (vr_type v) \<and> c < sz")
    case False
    have "\<not> committed (v # rs) e" if "c < sz"
    proof (cases "vr_start v = e")
      case True
      with False that v(1) show ?thesis by (simp add: committed_Cons covers_def vr_ok_def)
    next
      case ne: False
      then have "e < vr_start v" using 2(3) by simp
      moreover have "vmap rs e = None"
        using v(2) calculation by (intro vmap_after) (auto simp: apart_def)
      ultimately show ?thesis by (simp add: committed_Cons covers_def committed_def)
    qed
    with False 2(4) show ?thesis by (intro exI [of _ 0]) auto
  next
    case True
    define chunk where "chunk = min (sz - c) (vr_size v)"
    have ch: "0 < chunk" "c + chunk \<le> sz" "e + chunk \<le> u64_max" "c + chunk \<le> u64_max"
      "chunk \<le> vr_size v"
      using True 2(4-6) v(1) by (auto simp: chunk_def vr_ok_def)
    have step: "clamp_loop (v # rs) e c sz = clamp_loop rs (e + chunk) (c + chunk) sz"
      using True ch(3,4) by (simp add: Let_def chunk_def [symmetric])
    have here: "committed (v # rs) a" if "e \<le> a" "a < e + chunk" for a
      using True that ch(5) by (simp add: committed_Cons covers_def)
    have "\<forall>r \<in> set rs. e + chunk \<le> vr_start r"
      using v(2) True ch(5) by (auto simp: apart_def dest!: bspec)
    moreover have "e + chunk + (sz - (c + chunk)) \<le> u64_max" using 2(5) ch(2) by simp
    ultimately obtain k where k: "clamp_loop rs (e + chunk) (c + chunk) sz = c + chunk + k"
      "c + chunk + k \<le> sz" "\<forall>a. e + chunk \<le> a \<longrightarrow> a < e + chunk + k \<longrightarrow> committed rs a"
      "c + chunk + k < sz \<longrightarrow> \<not> committed rs (e + chunk + k)"
      using 2(1) [OF True chunk_def v(3)] ch 2(6) True by auto
    have full: "k = 0" if "chunk < vr_size v"
    proof -
      have "c + chunk = sz" using that True by (auto simp: chunk_def)
      then show ?thesis using k(2) by simp
    qed
    have later: "committed (v # rs) a = committed rs a" if "e + chunk \<le> a" "chunk = vr_size v" for a
      using that True by (simp add: committed_Cons covers_def)
    show ?thesis
    proof (intro exI [of _ "chunk + k"] conjI allI impI)
      show "clamp_loop (v # rs) e c sz = c + (chunk + k)" using step k(1) by simp
      show "c + (chunk + k) \<le> sz" using k(2) by simp
      show "committed (v # rs) a" if a: "e \<le> a" "a < e + (chunk + k)" for a
      proof (cases "a < e + chunk")
        case False
        then have "chunk = vr_size v" using full a(2) ch(5) by (cases "chunk < vr_size v") auto
        with later k(3) a False show ?thesis by simp
      qed (use here a in simp)
      show "\<not> committed (v # rs) (e + (chunk + k))" if "c + (chunk + k) < sz"
      proof -
        have "chunk = vr_size v" using that ch(2) full k(2) True ch(5)
          by (cases "chunk < vr_size v") (auto simp: chunk_def)
        with later [of "e + chunk + k"] k(4) that show ?thesis by (simp add: add.assoc)
      qed
    qed
  qed
qed

lemma VR_ClampRangeSize_ok:
  assumes wf: "vr_wf rs" and ok: "0 < addr" "0 < sz" "addr + sz \<le> u64_max"
  defines "n \<equiv> VR_ClampRangeSize rs addr sz"
  shows "n \<le> sz" "\<And>a. in_span addr n a \<Longrightarrow> committed rs a" "n < sz \<Longrightarrow> \<not> committed rs (addr + n)"
proof -
  obtain xs ys where s: "vr_upper addr rs = (xs, ys)" by (cases "vr_upper addr rs")
  from vr_split_parts(2) [OF wf s] have rs: "rs = xs @ ys" and lo: "\<forall>r \<in> set xs. vr_start r \<le> addr"
    and hi: "\<forall>r \<in> set ys. addr < vr_start r" by blast+
  have none_hi: "vmap ys addr = None" using hi by (intro vmap_after) simp
  have "n \<le> sz \<and> (\<forall>a. in_span addr n a \<longrightarrow> committed rs a) \<and> (n < sz \<longrightarrow> \<not> committed rs (addr + n))"
  proof (cases "xs = []")
    case True
    then have "n = 0" using ok by (simp add: n_def VR_ClampRangeSize_def s)
    with none_hi rs True show ?thesis by (auto simp: in_span_def committed_def)
  next
    case ne: False
    define v where "v = last xs"
    have v: "v \<in> set rs" "vr_ok v" "vr_start v \<le> addr"
      using ne rs lo vr_wf_ok [OF wf] by (simp_all add: v_def)
    then have e: "vr_End (vr_start v) (vr_size v) = vr_start v + vr_size v" by (simp add: vr_ok_def)
    have lastrs: "rs = butlast xs @ v # ys" using rs ne by (simp add: v_def)
    have n: "n = (if addr \<ge> vr_start v + vr_size v \<or> \<not> IsCommittedRangeType (vr_type v) then 0
      else clamp_loop ys (add64 addr (min sz (vr_start v + vr_size v - addr)))
        (min sz (vr_start v + vr_size v - addr)) sz)"
    proof -
      have "\<not> (addr = 0 \<or> sz = 0 \<or> sz > u64_max - addr)" using ok by auto
      then show ?thesis
        using ne v(3) unfolding n_def VR_ClampRangeSize_def by (simp add: s Let_def v_def [symmetric] e)
    qed
    have wf': "vr_wf (butlast xs @ v # ys)" using wf lastrs by simp
    show ?thesis
    proof (cases "covers v addr \<and> IsCommittedRangeType (vr_type v)")
      case False
      have "\<not> committed rs addr"
      proof (cases "covers v addr")
        case True
        with vmap_covers [OF wf v(1) True] False show ?thesis by (simp add: committed_def byte_of_def)
      next
        case nc: False
        have "\<not> covers r addr" if r: "r \<in> set rs" for r
        proof
          assume c: "covers r addr"
          then have x: "r \<in> set xs" using r rs hi by (auto simp: covers_def)
          have "r \<noteq> last xs" using c nc by (auto simp: v_def)
          then have "apart r v" using apart_last [OF _ x] wf rs by (simp add: v_def)
          then show False using c v(3) by (simp add: apart_def covers_def)
        qed
        then have "vmap rs addr = None" by (simp add: vmap_None)
        then show ?thesis by (simp add: committed_def)
      qed
      moreover have "n = 0" using False v(3) by (auto simp: n covers_def)
      ultimately show ?thesis by (auto simp: in_span_def)
    next
      case True
      define c where "c = min sz (vr_start v + vr_size v - addr)"
      have c: "0 < c" "c \<le> sz" "addr + c \<le> vr_start v + vr_size v" "addr + c \<le> u64_max"
        using True ok by (auto simp: c_def covers_def)
      have nl: "n = clamp_loop ys (addr + c) c sz"
        using True c(4) by (simp add: n covers_def c_def [symmetric])
      have here: "committed rs a" if "addr \<le> a" "a < addr + c" for a
      proof -
        have "covers v a" using v(3) that c(3) by (simp add: covers_def)
        with vmap_covers [OF wf v(1) this] True show ?thesis by (simp add: committed_def byte_of_def)
      qed
      have late: "committed rs a = committed ys a" if "addr + c \<le> a" "c = vr_start v + vr_size v - addr" for a
      proof -
        have "vr_start v + vr_size v \<le> a" using that v(3) True by (simp add: covers_def)
        moreover have "\<not> covers q a" if q: "q \<in> set (butlast xs)" for q
        proof -
          have "apart q v" using wf' q by simp
          then show ?thesis using calculation by (auto simp: apart_def covers_def)
        qed
        ultimately have "vmap rs a = vmap ys a"
          unfolding lastrs vmap_append by (simp add: covers_def vmap_None [THEN iffD2])
        then show ?thesis by (simp add: committed_def)
      qed
      show ?thesis
      proof (cases "c = sz")
        case True
        then show ?thesis using here by (simp add: nl clamp_loop_full in_span_def)
      next
        case False
        then have cv: "c = vr_start v + vr_size v - addr" by (auto simp: c_def min_def)
        have "\<forall>r \<in> set ys. addr + c \<le> vr_start r"
          using wf' cv v(3) True by (auto simp: apart_def covers_def)
        moreover have "addr + c + (sz - c) \<le> u64_max" "sz \<le> u64_max" using c(2) ok(3) by simp_all
        ultimately obtain k where k: "n = c + k" "c + k \<le> sz"
          "\<forall>a. addr + c \<le> a \<longrightarrow> a < addr + c + k \<longrightarrow> committed ys a"
          "c + k < sz \<longrightarrow> \<not> committed ys (addr + c + k)"
          using clamp_loop_ok [of ys "addr + c" c sz] wf' c(2) unfolding nl by auto
        have "committed rs a" if "in_span addr n a" for a
        proof (cases "a < addr + c")
          case False
          with late [of a] cv k(1,3) that show ?thesis by (simp add: in_span_def)
        qed (use here that in \<open>simp add: in_span_def\<close>)
        moreover have "\<not> committed rs (addr + n)" if "n < sz"
          using late [of "addr + n"] cv k(1,4) that by (simp add: add.assoc)
        ultimately show ?thesis using k(1,2) by blast
      qed
    qed
  qed
  then show "n \<le> sz" "\<And>a. in_span addr n a \<Longrightarrow> committed rs a" "n < sz \<Longrightarrow> \<not> committed rs (addr + n)"
    by blast+
qed

section \<open>Histories\<close>

text \<open>
  The calls that change the vector, and the queries \<open>HasOverlap\<close> and \<open>Query\<close>, with the
  answer of each.
\<close>

datatype vr_op =
  V_Add nat nat nat u32 u32 VirtualRangeType "string option" bool
| V_Remove nat nat
| V_Rename nat nat "string option"
| V_Protect nat nat u32
| V_SetMemoryType nat nat u32
| V_ReleaseReserved nat nat
| V_ConsumeReserved nat nat VirtualRangeType
| V_ConsumeReservedSpan nat nat VirtualRangeType
| V_HasOverlap nat nat
| V_Query nat int

datatype vr_answer = Done bool | Found "VRange option"

text \<open>Every range lies in the address space and a backing offset is a 64-bit value.\<close>

fun vr_op_valid :: "vr_op \<Rightarrow> bool" where
  "vr_op_valid (V_Add start sz offset prot mt ty name dm) = (start + sz \<le> u64_max \<and> offset \<le> u64_max)"
| "vr_op_valid (V_Remove start sz) = (start + sz \<le> u64_max)"
| "vr_op_valid (V_Rename start sz name) = (start + sz \<le> u64_max)"
| "vr_op_valid (V_Protect start sz prot) = (start + sz \<le> u64_max)"
| "vr_op_valid (V_SetMemoryType start sz mt) = (start + sz \<le> u64_max)"
| "vr_op_valid (V_ReleaseReserved start sz) = (start + sz \<le> u64_max)"
| "vr_op_valid (V_ConsumeReserved start sz ty) = (start + sz \<le> u64_max)"
| "vr_op_valid (V_ConsumeReservedSpan start sz ty) = (start + sz \<le> u64_max)"
| "vr_op_valid (V_HasOverlap start sz) = (start + sz \<le> u64_max)"
| "vr_op_valid (V_Query addr flags) = True"

fun vr_step :: "virtual_ranges \<Rightarrow> vr_op \<Rightarrow> vr_answer \<times> virtual_ranges" where
  "vr_step rs (V_Add start sz offset prot mt ty name dm) = map_prod Done id (VR_Add rs start sz offset prot mt ty name dm)"
| "vr_step rs (V_Remove start sz) = map_prod Done id (VR_Remove rs start sz)"
| "vr_step rs (V_Rename start sz name) = (Done True, VR_Rename rs start sz name)"
| "vr_step rs (V_Protect start sz prot) = (Done True, VR_Protect rs start sz prot)"
| "vr_step rs (V_SetMemoryType start sz mt) = (Done True, VR_SetMemoryType rs start sz mt)"
| "vr_step rs (V_ReleaseReserved start sz) = map_prod Done id (VR_ReleaseReserved rs start sz)"
| "vr_step rs (V_ConsumeReserved start sz ty) = map_prod Done id (VR_ConsumeReserved rs start sz ty)"
| "vr_step rs (V_ConsumeReservedSpan start sz ty) =
     (let (b, _, rs) = VR_ConsumeReservedSpan rs start sz ty in (Done b, rs))"
| "vr_step rs (V_HasOverlap start sz) = (Done (VR_HasOverlap rs start sz), rs)"
| "vr_step rs (V_Query addr flags) = (Found (VR_Query rs addr flags), rs)"

fun vr_run :: "virtual_ranges \<Rightarrow> vr_op list \<Rightarrow> vr_answer list \<times> virtual_ranges" where
  "vr_run rs [] = ([], rs)"
| "vr_run rs (op # ops) =
     (let (b, rs) = vr_step rs op; (bs, rs) = vr_run rs ops in (b # bs, rs))"

text \<open>
  The specification: what an operation answers on a map from bytes to attributes with its
  borders, and the map and the borders it leaves behind. Every answer is determined but for
  the backing offset of a range that is not direct.
\<close>

fun vb_answer :: "(nat \<Rightarrow> vbyte option) \<Rightarrow> nat set \<Rightarrow> vr_op \<Rightarrow> vr_answer \<Rightarrow> bool" where
  "vb_answer f cuts (V_Add start sz offset prot mt ty name dm) b \<longleftrightarrow>
     b = Done (0 < start \<and> 0 < sz \<and> (\<forall>a. in_span start sz a \<longrightarrow> f a = None))"
| "vb_answer f cuts (V_Remove start sz) b \<longleftrightarrow> b = Done (\<exists>a. in_span start sz a \<and> f a \<noteq> None)"
| "vb_answer f cuts (V_ConsumeReserved start sz ty) b \<longleftrightarrow> b = Done (one_range_of_type f cuts ty start sz)"
| "vb_answer f cuts (V_ConsumeReservedSpan start sz ty) b \<longleftrightarrow> b = Done (0 < sz \<and> all_of_type f ty start sz)"
| "vb_answer f cuts (V_HasOverlap start sz) b \<longleftrightarrow> b = Done (\<exists>a. in_span start sz a \<and> f a \<noteq> None)"
| "vb_answer f cuts (V_Query addr flags) b \<longleftrightarrow>
     (case b of
        Done _ \<Rightarrow> False
      | Found None \<Rightarrow> f addr = None \<and> (flags = 1 \<longrightarrow> (\<forall>a > addr. f a = None))
      | Found (Some r) \<Rightarrow> whole_range f cuts r \<and>
          (covers r addr \<or>
           flags = 1 \<and> f addr = None \<and> addr < vr_start r \<and> (\<forall>a. addr < a \<longrightarrow> a < vr_start r \<longrightarrow> f a = None)))"
| "vb_answer f cuts _ b \<longleftrightarrow> b = Done True"

fun vb_step :: "(nat \<Rightarrow> vbyte option) \<Rightarrow> nat set \<Rightarrow> vr_op \<Rightarrow> vr_answer \<Rightarrow> nat \<Rightarrow> vbyte option" where
  "vb_step f cuts (V_Add start sz offset prot mt ty name dm) b =
     (if b = Done True then fill_span start sz (added_byte start offset prot mt ty name dm) f else f)"
| "vb_step f cuts (V_Remove start sz) b = clear_span start sz f"
| "vb_step f cuts (V_Rename start sz name) b =
     edit_span start sz (\<lambda>v. v\<lparr>vb_name := CopyVirtualRangeName name\<rparr>) f"
| "vb_step f cuts (V_Protect start sz prot) b = edit_span start sz (\<lambda>v. v\<lparr>vb_protection := prot\<rparr>) f"
| "vb_step f cuts (V_SetMemoryType start sz mt) b = edit_span start sz (\<lambda>v. v\<lparr>vb_memory_type := mt\<rparr>) f"
| "vb_step f cuts (V_ReleaseReserved start sz) b =
     (if exact_reserved f cuts start sz then clear_span start sz f else f)"
| "vb_step f cuts (V_ConsumeReserved start sz ty) b = (if b = Done True then clear_span start sz f else f)"
| "vb_step f cuts (V_ConsumeReservedSpan start sz ty) b = (if b = Done True then clear_span start sz f else f)"
| "vb_step f cuts _ b = f"

fun cut_step :: "nat set \<Rightarrow> vr_op \<Rightarrow> vr_answer \<Rightarrow> nat set" where
  "cut_step cuts (V_Add start sz offset prot mt ty name dm) b =
     (if b = Done True then cuts - {start<..<start + sz} \<union> {start, start + sz} else cuts)"
| "cut_step cuts (V_Rename start sz name) b = cuts \<union> span_ends start sz"
| "cut_step cuts (V_Protect start sz prot) b = cuts \<union> span_ends start sz"
| "cut_step cuts (V_SetMemoryType start sz mt) b = cuts \<union> span_ends start sz"
| "cut_step cuts _ b = cuts"

fun vb_history :: "(nat \<Rightarrow> vbyte option) \<Rightarrow> nat set \<Rightarrow> vr_op list \<Rightarrow> vr_answer list \<Rightarrow> (nat \<Rightarrow> vbyte option) \<Rightarrow> bool" where
  "vb_history f cuts [] [] g \<longleftrightarrow> g = f"
| "vb_history f cuts (op # ops) (b # bs) g \<longleftrightarrow>
     vb_answer f cuts op b \<and> vb_history (vb_step f cuts op b) (cut_step cuts op b) ops bs g"
| "vb_history f cuts _ _ g \<longleftrightarrow> False"

lemma query_answer:
  assumes inv: "vr_inv rs" and ok: "borders_ok (sticky_set rs) cuts"
  shows "vb_answer (vmap rs) cuts (V_Query addr flags) (Found (VR_Query rs addr flags))"
proof (cases "VR_Query rs addr flags")
  case None
  with VR_Query_ok [OF vr_inv_wf [OF inv], of addr flags]
  have q: "vmap rs addr = None" "flags = 1 \<longrightarrow> (\<forall>s \<in> set rs. vr_start s \<le> addr)" by simp_all
  have "vmap rs a = None" if "flags = 1" "addr < a" for a
  proof -
    have "\<not> covers s a" if s: "s \<in> set rs" for s
    proof
      assume "covers s a"
      then have "covers s addr" using q(2) \<open>flags = 1\<close> \<open>addr < a\<close> s by (auto simp: covers_def)
      then show False using q(1) s by (simp add: vmap_None)
    qed
    then show ?thesis by (simp add: vmap_None)
  qed
  with None q(1) show ?thesis by simp
next
  case (Some r)
  with VR_Query_ok [OF vr_inv_wf [OF inv], of addr flags]
  have q: "r \<in> set rs" "covers r addr \<or> flags = 1 \<and> vmap rs addr = None \<and> addr < vr_start r \<and>
        (\<forall>s \<in> set rs. addr < vr_start s \<longrightarrow> vr_start r \<le> vr_start s)" by simp_all
  have "vmap rs a = None" if n: "vmap rs addr = None" "\<forall>s \<in> set rs. addr < vr_start s \<longrightarrow> vr_start r \<le> vr_start s"
    and a: "addr < a" "a < vr_start r" for a
  proof -
    have "\<not> covers s a" if s: "s \<in> set rs" for s
    proof
      assume c: "covers s a"
      then have "\<not> addr < vr_start s" using n(2) s a by (auto simp: covers_def)
      then have "covers s addr" using c a by (simp add: covers_def)
      then show False using n(1) s by (simp add: vmap_None)
    qed
    then show ?thesis by (simp add: vmap_None)
  qed
  with whole_range_iff [OF inv ok q(1)] q(2) Some show ?thesis by auto
qed

text \<open>Each step keeps the invariant and the borders, and follows the specification.\<close>

definition step_ok :: "virtual_ranges \<Rightarrow> nat set \<Rightarrow> vr_op \<Rightarrow> bool" where
  "step_ok rs cuts op \<longleftrightarrow> (case vr_step rs op of (b, rs') \<Rightarrow>
     vr_inv rs' \<and> borders_ok (sticky_set rs') (cut_step cuts op b) \<and>
     vb_answer (vmap rs) cuts op b \<and> vmap rs' = vb_step (vmap rs) cuts op b)"

lemma consume_ok:
  assumes inv: "vr_inv rs" and ok: "borders_ok (sticky_set rs) cuts" and sz: "start + sz \<le> u64_max"
  shows "step_ok rs cuts (V_ConsumeReserved start sz ty)" "step_ok rs cuts (V_ConsumeReservedSpan start sz ty)"
proof -
  note rb = remove_borders [OF vr_inv_wf [OF inv] sz ok]
  obtain b rs' where c: "VR_ConsumeReserved rs start sz ty = (b, rs')" by (cases "VR_ConsumeReserved rs start sz ty")
  have "borders_ok (sticky_set rs') cuts"
    using c ok rb by (auto simp: VR_ConsumeReserved_def Let_def split: if_splits)
  with c VR_ConsumeReserved_ok(2,3) [OF inv sz, of ty] VR_ConsumeReserved_iff [OF inv ok sz, of ty]
  show "step_ok rs cuts (V_ConsumeReserved start sz ty)" by (simp add: step_ok_def)
  obtain d q rs2 where s: "VR_ConsumeReservedSpan rs start sz ty = (d, q, rs2)"
    by (cases "VR_ConsumeReservedSpan rs start sz ty")
  have "borders_ok (sticky_set rs2) cuts"
    using s ok rb by (auto simp: VR_ConsumeReservedSpan_def Let_def split: if_splits)
  with s VR_ConsumeReservedSpan_ok [OF inv sz, of ty]
  show "step_ok rs cuts (V_ConsumeReservedSpan start sz ty)" by (simp add: step_ok_def)
qed

lemma vr_step_ok:
  assumes inv: "vr_inv rs" and ok: "borders_ok (sticky_set rs) cuts" and valid: "vr_op_valid op"
  shows "step_ok rs cuts op"
proof (cases op)
  case (V_Add start sz offset prot mt ty name dm)
  then have v: "start + sz \<le> u64_max" "offset \<le> u64_max" using valid by simp_all
  let ?add = "VR_Add rs start sz offset prot mt ty name dm"
  have "borders_ok (sticky_set (snd ?add)) (cut_step cuts op (Done (fst ?add)))"
  proof (cases "fst ?add")
    case True
    with add_borders [OF inv v ok] V_Add show ?thesis by simp
  next
    case False
    then have "snd ?add = rs"
      by (auto simp: VR_Add_def Let_def case_prod_beta split: if_splits)
    with False ok V_Add show ?thesis by simp
  qed
  with V_Add VR_Add_ok [OF inv v] show ?thesis by (simp add: step_ok_def map_prod_def case_prod_beta)
next
  case (V_Remove start sz)
  with VR_Remove_ok [OF inv] vr_remove_borders [OF inv _ ok] valid show ?thesis
    by (simp add: step_ok_def map_prod_def case_prod_beta)
next
  case (V_Rename start sz name)
  with VR_Rename_ok [OF inv] rename_borders [OF inv _ ok] valid show ?thesis by (simp add: step_ok_def)
next
  case (V_Protect start sz prot)
  with EditUnlocked_ok [OF inv _ edit_ok_protect] edit_borders [OF vr_inv_wf [OF inv] _ ok edit_ok_protect] valid
  show ?thesis by (simp add: VR_Protect_def step_ok_def sticky_def)
next
  case (V_SetMemoryType start sz mt)
  with EditUnlocked_ok [OF inv _ edit_ok_memory_type] edit_borders [OF vr_inv_wf [OF inv] _ ok edit_ok_memory_type] valid
  show ?thesis by (simp add: VR_SetMemoryType_def step_ok_def sticky_def)
next
  case (V_ReleaseReserved start sz)
  with VR_ReleaseReserved_ok(1) [OF inv] VR_ReleaseReserved_exact [OF inv ok]
    borders_subset [OF ok VR_ReleaseReserved_exact(3) [OF inv ok]] show ?thesis
    by (simp add: step_ok_def map_prod_def case_prod_beta)
next
  case (V_ConsumeReserved start sz ty)
  with consume_ok(1) [OF inv ok] valid show ?thesis by simp
next
  case (V_ConsumeReservedSpan start sz ty)
  with consume_ok(2) [OF inv ok] valid show ?thesis by simp
next
  case (V_HasOverlap start sz)
  with HasOverlap_iff [OF vr_inv_wf [OF inv], of start sz] inv ok valid show ?thesis
    by (simp add: step_ok_def in_span_def conj_assoc)
next
  case (V_Query addr flags)
  with query_answer [OF inv ok, of addr flags] inv ok show ?thesis by (simp add: step_ok_def)
qed

lemma vr_run_ok:
  "vr_inv rs \<Longrightarrow> borders_ok (sticky_set rs) cuts \<Longrightarrow> list_all vr_op_valid ops \<Longrightarrow>
   vr_inv (snd (vr_run rs ops)) \<and>
   vb_history (vmap rs) cuts ops (fst (vr_run rs ops)) (vmap (snd (vr_run rs ops)))"
proof (induction ops arbitrary: rs cuts)
  case (Cons op ops)
  obtain b rs1 where s: "vr_step rs op = (b, rs1)" by (cases "vr_step rs op")
  obtain bs rs2 where r: "vr_run rs1 ops = (bs, rs2)" by (cases "vr_run rs1 ops")
  from vr_step_ok [OF Cons.prems(1,2), of op] Cons.prems(3) s
  have 1: "vr_inv rs1" "borders_ok (sticky_set rs1) (cut_step cuts op b)" "vb_answer (vmap rs) cuts op b"
    "vmap rs1 = vb_step (vmap rs) cuts op b" by (simp_all add: step_ok_def)
  from Cons.IH [OF 1(1,2)] Cons.prems(3) r 1(3,4) show ?case by (simp add: s)
qed simp

lemma no_borders: "borders_ok (sticky_set []) {}"
  by (simp add: borders_ok_def)

section \<open>Properties\<close>

text \<open>
  C16: whatever calls are made on an empty vector, with ranges inside the address space, the
  vector stays well formed: every range is non-empty, has fields of their widths and a
  terminated name, ends at or before the start of the next one, and could not be merged
  with it.
\<close>

theorem virtual_ranges_well_formed:
  assumes "list_all vr_op_valid ops"
  shows "list_all vr_ok (snd (vr_run [] ops)) \<and> sorted_wrt apart (snd (vr_run [] ops)) \<and>
    successively (\<lambda>r s. \<not> mergeable r s) (snd (vr_run [] ops))"
  using vr_run_ok [OF _ no_borders assms] by (simp add: vr_inv_def vr_wf_def unmerged_def)

theorem virtual_ranges_well_formed_witness:
  "list_all vr_ok (snd (vr_run []
    [V_Add 4096 8192 0 3 0 Flexible (Some ''heap'') False, V_Protect 8192 4096 1, V_Remove 4096 100]))"
  using virtual_ranges_well_formed [of
    "[V_Add 4096 8192 0 3 0 Flexible (Some ''heap'') False, V_Protect 8192 4096 1, V_Remove 4096 100]"]
  by (simp add: u64_max_def)

text \<open>
  C15: the vector refines the map from bytes to attributes, with the borders that calls put
  between ranges that are never merged: after any history of the calls that change the vector,
  and of \<open>HasOverlap\<close> and \<open>Query\<close>, each answer is the one the map and its borders give, and the
  ranges stand for exactly the map that results from the calls. In particular \<open>ConsumeReserved\<close>
  succeeds exactly where the bytes of the span belong to one range of the type, \<open>Query\<close> returns
  a whole range, and a byte of a direct mapping keeps its backing address when the range around
  it is cut.
\<close>

theorem virtual_ranges_history:
  assumes "list_all vr_op_valid ops" "vr_run [] ops = (answers, rs)"
  shows "vb_history (\<lambda>_. None) {} ops answers (vmap rs)"
proof -
  have "vmap [] = (\<lambda>_. None)" by auto
  with vr_run_ok [OF _ no_borders assms(1)] assms(2) show ?thesis by (simp add: vr_inv_def)
qed

theorem virtual_ranges_history_witness:
  "vb_history (\<lambda>_. None) {}
    [V_Add 4096 8192 0 3 0 Reserved None False, V_ConsumeReserved 4096 16384 Reserved, V_ConsumeReserved 4096 4096 Reserved,
     V_Query 8192 0]
    [Done True, Done False, Done True, Found (Some \<lparr>vr_start = 8192, vr_size = 4096, vr_offset = 0, vr_protection = 3,
       vr_memory_type = 0, vr_type = Reserved, vr_disallow_merge = False, vr_name = CopyVirtualRangeName None\<rparr>)]
    (vmap [\<lparr>vr_start = 8192, vr_size = 4096, vr_offset = 0, vr_protection = 3,
       vr_memory_type = 0, vr_type = Reserved, vr_disallow_merge = False, vr_name = CopyVirtualRangeName None\<rparr>])"
proof (rule virtual_ranges_history)
  show "list_all vr_op_valid [V_Add 4096 8192 0 3 0 Reserved None False, V_ConsumeReserved 4096 16384 Reserved,
      V_ConsumeReserved 4096 4096 Reserved, V_Query 8192 0]" by (simp add: u64_max_def)
  show "vr_run [] [V_Add 4096 8192 0 3 0 Reserved None False, V_ConsumeReserved 4096 16384 Reserved,
      V_ConsumeReserved 4096 4096 Reserved, V_Query 8192 0] =
    ([Done True, Done False, Done True, Found (Some \<lparr>vr_start = 8192, vr_size = 4096, vr_offset = 0, vr_protection = 3,
       vr_memory_type = 0, vr_type = Reserved, vr_disallow_merge = False, vr_name = CopyVirtualRangeName None\<rparr>)],
     [\<lparr>vr_start = 8192, vr_size = 4096, vr_offset = 0, vr_protection = 3,
       vr_memory_type = 0, vr_type = Reserved, vr_disallow_merge = False, vr_name = CopyVirtualRangeName None\<rparr>])"
    by (simp add: VR_Add_def vr_lower_def MergeAroundUnlocked_def VR_ConsumeReserved_def RemoveUnlocked_def
        remove_pieces_def VirtualRangesOverlap_def AddPiece_def MergeUnlocked_def VR_Query_def vr_upper_def
        vr_End_def u64_max_def Let_def)
qed

text \<open>
  C17: on a well-formed vector \<open>QuerySpan\<close> fails exactly where some byte of the span is not
  mapped; otherwise its parts follow each other without a gap from the start to the end of
  the span, and each byte has in its part the attributes it has in the vector.
\<close>

theorem query_span_tiles:
  assumes "vr_inv rs" "0 < start" "0 < sz" "start + sz \<le> u64_max"
  shows "case VR_QuerySpan rs start sz of
      None \<Rightarrow> \<exists>a. in_span start sz a \<and> vmap rs a = None
    | Some ps \<Rightarrow> tiles start (start + sz) ps \<and>
        (\<forall>a. in_span start sz a \<longrightarrow> vmap ps a = vmap rs a \<and> vmap rs a \<noteq> None)"
  by (rule VR_QuerySpan_ok [OF vr_inv_wf [OF assms(1)] assms(2-4)])

theorem query_span_tiles_witness:
  "\<exists>a. in_span 4096 8192 a \<and> vmap [] a = None"
proof -
  have "vr_inv []" "(0::nat) < 4096" "(0::nat) < 8192" "4096 + 8192 \<le> u64_max"
    by (simp_all add: vr_inv_def u64_max_def)
  from query_span_tiles [OF this] show ?thesis by (simp add: VR_QuerySpan_def u64_max_def)
qed

text \<open>
  \<open>ClampRangeSize\<close> returns how many bytes from the address on are committed without a
  gap, at most the size asked for.
\<close>

theorem clamp_is_committed_run:
  assumes "vr_inv rs" "0 < addr" "0 < sz" "addr + sz \<le> u64_max"
  shows "VR_ClampRangeSize rs addr sz \<le> sz \<and>
    (\<forall>a. in_span addr (VR_ClampRangeSize rs addr sz) a \<longrightarrow> committed rs a) \<and>
    (VR_ClampRangeSize rs addr sz < sz \<longrightarrow> \<not> committed rs (addr + VR_ClampRangeSize rs addr sz))"
  using VR_ClampRangeSize_ok [OF vr_inv_wf [OF assms(1)] assms(2-4)] by blast

theorem clamp_is_committed_run_witness:
  "\<not> committed [] 4096 \<or> VR_ClampRangeSize [] 4096 8192 = 8192"
proof -
  have "vr_inv []" "(0::nat) < 4096" "(0::nat) < 8192" "4096 + 8192 \<le> u64_max"
    by (simp_all add: vr_inv_def u64_max_def)
  from clamp_is_committed_run [OF this] show ?thesis
    by (simp add: VR_ClampRangeSize_def vr_upper_def u64_max_def)
qed

end
