(* ===== verification/FlexibleMemory.thy ===== *)
theory FlexibleMemory
  imports PhysicalMemory
begin

text \<open>
  The class \<open>FlexibleMemory\<close> of \<open>src/kernel/memory.cpp\<close>: memory whose backing lies behind
  the direct memory. A mapping is made of blocks, one for each piece of free backing it uses.

  The address space object maps the host's memory. Its three calls used here are an argument,
  with a state of their own; nothing is assumed of what they answer. The mutex makes every
  operation one step.
\<close>

section \<open>State\<close>

record FlexibleBlock =
  fb_map_vaddr :: nat
  fb_map_size :: nat
  fb_backing_offset :: nat
  fb_host_vaddr :: nat
  fb_host_size :: nat
  fb_prot :: u32
  fb_mode :: Mode
  fb_gpu_mode :: GpuAccessMode
  fb_name :: string

record flexible_memory =
  fm_allocated :: "FlexibleBlock list"
  fm_free :: free_map
  fm_allocated_total :: nat

record 'h address_space =
  ZeroBacking :: "'h \<Rightarrow> nat \<Rightarrow> nat \<Rightarrow> bool \<times> 'h"
  MapBacking :: "'h \<Rightarrow> nat \<Rightarrow> nat \<Rightarrow> nat \<Rightarrow> Mode \<Rightarrow> bool \<times> 'h"
  UnmapBacking :: "'h \<Rightarrow> nat \<Rightarrow> nat \<Rightarrow> bool \<times> 'h"

text \<open>\<open>flexible\<close> is the global \<open>g_flexible_memory_size\<close>, which is what \<open>Size\<close> returns.\<close>

definition FM_new :: "nat \<Rightarrow> flexible_memory outcome" where
  "FM_new flexible =
     omap (\<lambda>sz. \<lparr>fm_allocated = [], fm_free = map_emplace sz flexible [], fm_allocated_total = 0\<rparr>)
       (PM_Size flexible)"

definition FM_Available :: "nat \<Rightarrow> flexible_memory \<Rightarrow> nat" where
  "FM_Available flexible fm =
     (if flexible \<ge> fm_allocated_total fm then flexible - fm_allocated_total fm else 0)"

section \<open>Mapping\<close>

text \<open>The blocks of a mapping, and the bytes for which there is no free backing.\<close>

fun free_chunks :: "FlexibleBlock \<Rightarrow> free_map \<Rightarrow> nat \<Rightarrow> nat \<Rightarrow> FlexibleBlock list \<times> nat" where
  "free_chunks proto [] current remaining = ([], remaining)"
| "free_chunks proto ((backing_offset, free_size) # m) current remaining =
     (if remaining = 0 then ([], remaining)
      else
        let chunk = min remaining free_size;
            block = proto\<lparr>fb_map_vaddr := current, fb_map_size := chunk,
                          fb_backing_offset := backing_offset\<rparr>;
            (blocks, remaining) = free_chunks proto m (add64 current chunk) (remaining - chunk) in
        (block # blocks, remaining))"

text \<open>Undoing the mappings made so far: the last one first, and none may fail.\<close>

fun unmap_all :: "'h address_space \<Rightarrow> 'h \<Rightarrow> FlexibleBlock list \<Rightarrow> 'h outcome" where
  "unmap_all asp h [] = Ret h"
| "unmap_all asp h (b # bs) =
     (let (ok, h) = UnmapBacking asp h (fb_map_vaddr b) (fb_map_size b) in
      if \<not> ok then Exit else unmap_all asp h bs)"

text \<open>\<open>mapped\<close> are the blocks mapped so far; \<open>Restore\<close> keeps the contents of the backing.\<close>

fun map_all :: "'h address_space \<Rightarrow> bool \<Rightarrow> 'h \<Rightarrow> FlexibleBlock list \<Rightarrow> FlexibleBlock list \<Rightarrow>
    (bool \<times> 'h) outcome" where
  "map_all asp zero h mapped [] = Ret (True, h)"
| "map_all asp zero h mapped (b # bs) =
     (let (zeroed, h) = (if zero then ZeroBacking asp h (fb_backing_offset b) (fb_map_size b)
                         else (True, h)) in
      if \<not> zeroed then omap (\<lambda>h. (False, h)) (unmap_all asp h (rev mapped))
      else
        let (ok, h) = MapBacking asp h (fb_map_vaddr b) (fb_map_size b) (fb_backing_offset b) (fb_mode b) in
        if \<not> ok then omap (\<lambda>h. (False, h)) (unmap_all asp h (rev mapped))
        else map_all asp zero h (mapped @ [b]) bs)"

text \<open>The free range that starts at or before an offset.\<close>

definition free_at :: "free_map \<Rightarrow> nat \<Rightarrow> (nat \<times> nat) option" where
  "free_at m off =
     (let before = fst (upper_split off m) in if before = [] then None else Some (last before))"

definition free_holds :: "nat \<times> nat \<Rightarrow> FlexibleBlock \<Rightarrow> bool" where
  "free_holds r b \<longleftrightarrow>
     \<not> (fb_backing_offset b < fst r \<or>
        fb_map_size b > sub64 (add64 (fst r) (snd r)) (fb_backing_offset b))"

text \<open>The loop that takes the backing of the blocks; \<open>Restore\<close> does not check a second time.\<close>

fun take_blocks :: "bool \<Rightarrow> free_map \<Rightarrow> FlexibleBlock list \<Rightarrow> free_map outcome" where
  "take_blocks check m [] = Ret m"
| "take_blocks check m (b # bs) =
     (case free_at m (fb_backing_offset b) of
        None \<Rightarrow> Exit
      | Some r \<Rightarrow>
          if check \<and> \<not> free_holds r b then Exit
          else take_blocks check (ConsumeFreeRange m r (fb_backing_offset b) (fb_map_size b)) bs)"

definition FM_Map :: "nat \<Rightarrow> 'h address_space \<Rightarrow> 'h \<Rightarrow> flexible_memory \<Rightarrow> nat \<Rightarrow> nat \<Rightarrow> u32 \<Rightarrow> Mode \<Rightarrow>
    GpuAccessMode \<Rightarrow> string option \<Rightarrow> (bool \<times> flexible_memory \<times> 'h) outcome" where
  "FM_Map flexible asp h fm vaddr len prot mode gpu_mode name =
     (let available = FM_Available flexible fm in
      if len = 0 \<or> len > available then Ret (False, fm, h)
      else
        let proto = \<lparr>fb_map_vaddr = 0, fb_map_size = 0, fb_backing_offset = 0, fb_host_vaddr = vaddr,
                     fb_host_size = len, fb_prot = prot, fb_mode = mode, fb_gpu_mode = gpu_mode,
                     fb_name = CopyVirtualRangeName name\<rparr>;
            (blocks, remaining) = free_chunks proto (fm_free fm) vaddr len in
        if remaining \<noteq> 0 then Ret (False, fm, h)
        else
          obind (map_all asp True h [] blocks) (\<lambda>(ok, h).
            if \<not> ok then Ret (False, fm, h)
            else
              omap (\<lambda>free. (True,
                  fm\<lparr>fm_allocated := sort_key fb_map_vaddr (fm_allocated fm @ blocks),
                     fm_free := free,
                     fm_allocated_total := add64 (fm_allocated_total fm) len\<rparr>, h))
                (take_blocks True (fm_free fm) blocks)))"

section \<open>Unmapping\<close>

text \<open>How far the blocks cover the span from \<open>current\<close> on, and the GPU access of the first one.\<close>

fun cover_loop :: "FlexibleBlock list \<Rightarrow> nat \<Rightarrow> nat \<Rightarrow> GpuAccessMode option \<Rightarrow>
    nat \<times> GpuAccessMode option" where
  "cover_loop [] current fin gpu = (current, gpu)"
| "cover_loop (b # bs) current fin gpu =
     (let block_end = add64 (fb_map_vaddr b) (fb_map_size b) in
      if block_end \<le> current then cover_loop bs current fin gpu
      else if fb_map_vaddr b > current \<or> fb_map_vaddr b \<ge> fin then (current, gpu)
      else
        let gpu = (if gpu = None then Some (fb_gpu_mode b) else gpu);
            current = min fin block_end in
        if current = fin then (current, gpu) else cover_loop bs current fin gpu)"

text \<open>The parts of a block in front of and behind a cut.\<close>

definition fb_left :: "FlexibleBlock \<Rightarrow> nat \<Rightarrow> FlexibleBlock list" where
  "fb_left b overlap_start =
     (if fb_map_vaddr b < overlap_start
      then [b\<lparr>fb_map_size := overlap_start - fb_map_vaddr b\<rparr>] else [])"

definition fb_right :: "FlexibleBlock \<Rightarrow> nat \<Rightarrow> FlexibleBlock list" where
  "fb_right b overlap_end =
     (let block_end = add64 (fb_map_vaddr b) (fb_map_size b) in
      if overlap_end < block_end
      then [b\<lparr>fb_map_vaddr := overlap_end, fb_map_size := block_end - overlap_end,
              fb_backing_offset := sub64 (add64 (fb_backing_offset b) overlap_end) (fb_map_vaddr b)\<rparr>]
      else [])"

text \<open>The loop of \<open>Unmap\<close>: the blocks that remain, the free map and the bytes removed.\<close>

fun unmap_blocks :: "nat \<Rightarrow> nat \<Rightarrow> FlexibleBlock list \<Rightarrow> free_map \<Rightarrow> nat \<Rightarrow>
    FlexibleBlock list \<times> free_map \<times> nat" where
  "unmap_blocks vaddr sz [] m removed = ([], m, removed)"
| "unmap_blocks vaddr sz (b # bs) m removed =
     (let fin = vaddr + sz; block_end = add64 (fb_map_vaddr b) (fb_map_size b) in
      if \<not> VirtualRangesOverlap vaddr sz (fb_map_vaddr b) (fb_map_size b) then
        let (rest, m, removed) = unmap_blocks vaddr sz bs m removed in (b # rest, m, removed)
      else
        let overlap_start = max vaddr (fb_map_vaddr b);
            overlap_end = min fin block_end;
            overlap_size = sub64 overlap_end overlap_start;
            m = AddFreeRange m (sub64 (add64 (fb_backing_offset b) overlap_start) (fb_map_vaddr b))
                  overlap_size;
            (rest, m, removed) = unmap_blocks vaddr sz bs m (add64 removed overlap_size) in
        (fb_left b overlap_start @ fb_right b overlap_end @ rest, m, removed))"

text \<open>The GPU access is an output also where the call fails later.\<close>

definition FM_Unmap :: "'h address_space \<Rightarrow> 'h \<Rightarrow> flexible_memory \<Rightarrow> nat \<Rightarrow> nat \<Rightarrow>
    (bool \<times> GpuAccessMode option \<times> flexible_memory \<times> 'h) outcome" where
  "FM_Unmap asp h fm vaddr sz =
     (if sz = 0 \<or> u64_max - vaddr < sz then Ret (False, None, fm, h)
      else
        let (current, gpu) = cover_loop (fm_allocated fm) vaddr (vaddr + sz) None in
        if gpu = None \<or> current \<noteq> vaddr + sz then Ret (False, gpu, fm, h)
        else
          let (ok, h) = UnmapBacking asp h vaddr sz in
          if \<not> ok then Ret (False, gpu, fm, h)
          else
            let (rest, free, removed) = unmap_blocks vaddr sz (fm_allocated fm) (fm_free fm) 0 in
            if removed \<noteq> sz \<or> removed > fm_allocated_total fm then Exit
            else Ret (True, gpu,
              fm\<lparr>fm_allocated := rest, fm_free := free,
                 fm_allocated_total := fm_allocated_total fm - removed\<rparr>, h))"

section \<open>Taking a snapshot and putting it back\<close>

fun snapshot_loop :: "FlexibleBlock list \<Rightarrow> nat \<Rightarrow> nat \<Rightarrow> FlexibleBlock list \<Rightarrow>
    FlexibleBlock list option" where
  "snapshot_loop [] current fin out = None"
| "snapshot_loop (b # bs) current fin out =
     (let block_end = add64 (fb_map_vaddr b) (fb_map_size b) in
      if block_end \<le> current then snapshot_loop bs current fin out
      else if fb_map_vaddr b > current \<or> fb_map_vaddr b \<ge> fin then None
      else
        let part_end = min fin block_end;
            part = b\<lparr>fb_map_vaddr := current, fb_map_size := part_end - current,
                     fb_backing_offset :=
                       add64 (fb_backing_offset b) (sub64 current (fb_map_vaddr b))\<rparr> in
        if part_end = fin then Some (out @ [part])
        else snapshot_loop bs part_end fin (out @ [part]))"

definition FM_Snapshot :: "flexible_memory \<Rightarrow> nat \<Rightarrow> nat \<Rightarrow> FlexibleBlock list option" where
  "FM_Snapshot fm vaddr sz =
     (if sz = 0 \<or> u64_max - vaddr < sz then None
      else snapshot_loop (fm_allocated fm) vaddr (vaddr + sz) [])"

definition FM_Restore :: "'h address_space \<Rightarrow> 'h \<Rightarrow> flexible_memory \<Rightarrow> FlexibleBlock list \<Rightarrow>
    (bool \<times> flexible_memory \<times> 'h) outcome" where
  "FM_Restore asp h fm blocks =
     (if blocks = [] then Ret (False, fm, h)
      else if \<not> list_all (\<lambda>b. case free_at (fm_free fm) (fb_backing_offset b) of
          None \<Rightarrow> False | Some r \<Rightarrow> free_holds r b) blocks
      then Ret (False, fm, h)
      else
        obind (map_all asp False h [] blocks) (\<lambda>(ok, h).
          if \<not> ok then Ret (False, fm, h)
          else
            omap (\<lambda>free. (True,
                fm\<lparr>fm_allocated := sort_key fb_map_vaddr (fm_allocated fm @ blocks),
                   fm_free := free,
                   fm_allocated_total :=
                     foldl (\<lambda>n b. add64 n (fb_map_size b)) (fm_allocated_total fm) blocks\<rparr>, h))
              (take_blocks False (fm_free fm) blocks)))"

section \<open>Attributes\<close>

definition fm_protect_pieces ::
    "nat \<Rightarrow> nat \<Rightarrow> u32 \<Rightarrow> Mode \<Rightarrow> GpuAccessMode \<Rightarrow> FlexibleBlock \<Rightarrow> FlexibleBlock list" where
  "fm_protect_pieces vaddr sz prot mode gpu_mode b =
     (let fin = vaddr + sz; block_end = add64 (fb_map_vaddr b) (fb_map_size b) in
      if \<not> VirtualRangesOverlap vaddr sz (fb_map_vaddr b) (fb_map_size b) then [b]
      else
        let overlap_start = max vaddr (fb_map_vaddr b);
            overlap_end = min fin block_end;
            middle = b\<lparr>fb_map_vaddr := overlap_start,
                       fb_map_size := sub64 overlap_end overlap_start,
                       fb_backing_offset :=
                         sub64 (add64 (fb_backing_offset b) overlap_start) (fb_map_vaddr b),
                       fb_prot := prot, fb_mode := mode, fb_gpu_mode := gpu_mode\<rparr> in
        fb_left b overlap_start @ [middle] @ fb_right b overlap_end)"

definition FM_Protect ::
    "flexible_memory \<Rightarrow> nat \<Rightarrow> nat \<Rightarrow> u32 \<Rightarrow> Mode \<Rightarrow> GpuAccessMode \<Rightarrow> flexible_memory" where
  "FM_Protect fm vaddr sz prot mode gpu_mode =
     (if sz = 0 \<or> u64_max - vaddr < sz then fm
      else fm\<lparr>fm_allocated :=
        concat (map (fm_protect_pieces vaddr sz prot mode gpu_mode) (fm_allocated fm))\<rparr>)"

definition FM_Find :: "flexible_memory \<Rightarrow> nat \<Rightarrow>
    (nat \<times> nat \<times> u32 \<times> Mode \<times> GpuAccessMode) option" where
  "FM_Find fm vaddr =
     map_option (\<lambda>b. (fb_map_vaddr b, fb_map_size b, fb_prot b, fb_mode b, fb_gpu_mode b))
       (find (\<lambda>b. vaddr \<ge> fb_map_vaddr b \<and> vaddr < add64 (fb_map_vaddr b) (fb_map_size b))
         (fm_allocated fm))"

definition FM_SetVirtualRangeName ::
    "flexible_memory \<Rightarrow> nat \<Rightarrow> nat \<Rightarrow> string option \<Rightarrow> flexible_memory" where
  "FM_SetVirtualRangeName fm vaddr len name =
     fm\<lparr>fm_allocated := map (\<lambda>b.
        if VirtualRangesOverlap vaddr len (fb_map_vaddr b) (fb_map_size b)
        then b\<lparr>fb_name := CopyVirtualRangeName name\<rparr> else b) (fm_allocated fm)\<rparr>"

end
