(* ===== verification/BlockViews.thy ===== *)
theory BlockViews
  imports FreeRanges "HOL-Library.Multiset"
begin

text \<open>
  Lists of blocks that map guest addresses to backing bytes. The classes \<open>FlexibleMemory\<close>,
  \<open>PooledMemory\<close> and \<open>PhysicalMemory\<close> of \<open>src/kernel/memory.cpp\<close> each keep such a list, with
  a struct of their own; a view names the fields they share. What a list means is the map
  from addresses to the backing byte and the attributes of its block.
\<close>

section \<open>What a list of blocks maps\<close>

record ('b, 'a) block_view =
  bv_start :: "'b \<Rightarrow> nat"
  bv_size :: "'b \<Rightarrow> nat"
  bv_off :: "'b \<Rightarrow> nat"
  bv_attr :: "'b \<Rightarrow> 'a"

definition view_holds :: "('b, 'a) block_view \<Rightarrow> 'b \<Rightarrow> nat \<Rightarrow> bool" where
  "view_holds vw b a \<longleftrightarrow> bv_start vw b \<le> a \<and> a < bv_start vw b + bv_size vw b"

definition view_byte :: "('b, 'a) block_view \<Rightarrow> 'b \<Rightarrow> nat \<Rightarrow> nat \<times> 'a" where
  "view_byte vw b a = (bv_off vw b + (a - bv_start vw b), bv_attr vw b)"

fun view_map :: "('b, 'a) block_view \<Rightarrow> 'b list \<Rightarrow> nat \<Rightarrow> (nat \<times> 'a) option" where
  "view_map vw [] a = None"
| "view_map vw (b # bs) a = (if view_holds vw b a then Some (view_byte vw b a) else view_map vw bs a)"

definition view_ok :: "('b, 'a) block_view \<Rightarrow> 'b \<Rightarrow> bool" where
  "view_ok vw b \<longleftrightarrow> 0 < bv_size vw b \<and> bv_start vw b + bv_size vw b \<le> u64_max \<and>
     bv_off vw b + bv_size vw b \<le> u64_max"

text \<open>Two blocks do not meet in their addresses, or not in their backing.\<close>

definition view_apart :: "('b, 'a) block_view \<Rightarrow> 'b \<Rightarrow> 'b \<Rightarrow> bool" where
  "view_apart vw b c \<longleftrightarrow> bv_start vw b + bv_size vw b \<le> bv_start vw c \<or>
     bv_start vw c + bv_size vw c \<le> bv_start vw b"

definition back_apart :: "('b, 'a) block_view \<Rightarrow> 'b \<Rightarrow> 'b \<Rightarrow> bool" where
  "back_apart vw b c \<longleftrightarrow> bv_off vw b + bv_size vw b \<le> bv_off vw c \<or>
     bv_off vw c + bv_size vw c \<le> bv_off vw b"

definition view_wf :: "('b, 'a) block_view \<Rightarrow> 'b list \<Rightarrow> bool" where
  "view_wf vw bs \<longleftrightarrow> list_all (view_ok vw) bs \<and> sorted_wrt (view_apart vw) bs"

definition view_unshared :: "('b, 'a) block_view \<Rightarrow> 'b list \<Rightarrow> bool" where
  "view_unshared vw bs \<longleftrightarrow> sorted_wrt (back_apart vw) bs"

definition view_backing :: "('b, 'a) block_view \<Rightarrow> 'b list \<Rightarrow> nat set" where
  "view_backing vw bs = (\<Union>b \<in> set bs. {bv_off vw b..<bv_off vw b + bv_size vw b})"

lemma view_wf_simps [simp]:
  "view_wf vw []"
  "view_wf vw (b # bs) \<longleftrightarrow> view_ok vw b \<and> (\<forall>c \<in> set bs. view_apart vw b c) \<and> view_wf vw bs"
  "view_wf vw (bs @ cs) \<longleftrightarrow> view_wf vw bs \<and> view_wf vw cs \<and>
     (\<forall>b \<in> set bs. \<forall>c \<in> set cs. view_apart vw b c)"
  by (auto simp: view_wf_def sorted_wrt_append)

lemma view_unshared_simps [simp]:
  "view_unshared vw []"
  "view_unshared vw (b # bs) \<longleftrightarrow> (\<forall>c \<in> set bs. back_apart vw b c) \<and> view_unshared vw bs"
  "view_unshared vw (bs @ cs) \<longleftrightarrow> view_unshared vw bs \<and> view_unshared vw cs \<and>
     (\<forall>b \<in> set bs. \<forall>c \<in> set cs. back_apart vw b c)"
  by (auto simp: view_unshared_def sorted_wrt_append)

lemma view_backing_simps [simp]:
  "view_backing vw [] = {}"
  "view_backing vw (b # bs) = {bv_off vw b..<bv_off vw b + bv_size vw b} \<union> view_backing vw bs"
  "view_backing vw (bs @ cs) = view_backing vw bs \<union> view_backing vw cs"
  by (auto simp: view_backing_def)

lemma view_apart_sym: "view_apart vw b c \<Longrightarrow> view_apart vw c b"
  by (auto simp: view_apart_def)

lemma back_apart_sym: "back_apart vw b c \<Longrightarrow> back_apart vw c b"
  by (auto simp: back_apart_def)

lemma view_wf_ok: "view_wf vw bs \<Longrightarrow> b \<in> set bs \<Longrightarrow> view_ok vw b"
  by (auto simp: view_wf_def list_all_iff)

lemma view_map_append:
  "view_map vw (bs @ cs) a = (case view_map vw bs a of None \<Rightarrow> view_map vw cs a | Some x \<Rightarrow> Some x)"
  by (induction bs) auto

lemma view_map_None: "view_map vw bs a = None \<longleftrightarrow> (\<forall>b \<in> set bs. \<not> view_holds vw b a)"
  by (induction bs) auto

lemma view_map_Some:
  assumes "view_wf vw bs"
  shows "view_map vw bs a = Some x \<longleftrightarrow> (\<exists>b \<in> set bs. view_holds vw b a \<and> x = view_byte vw b a)"
  using assms
proof (induction bs)
  case (Cons b bs)
  have "\<not> view_holds vw c a" if "view_holds vw b a" "c \<in> set bs" for c
    using Cons.prems that by (auto simp: view_holds_def view_apart_def)
  with Cons show ?case by auto
qed simp

text \<open>The order of the blocks does not matter.\<close>

lemma sorted_wrt_mset:
  assumes "mset xs = mset ys" "\<And>x y. P x y \<Longrightarrow> P y x" "sorted_wrt P xs"
  shows "sorted_wrt P ys"
  using assms(1,3)
proof (induction xs arbitrary: ys)
  case (Cons x xs)
  have "x \<in> set ys" using Cons.prems(1) by (metis list.set_intros(1) mset_eq_setD)
  then obtain us vs where ys: "ys = us @ x # vs" by (meson split_list)
  then have m: "mset xs = mset (us @ vs)" using Cons.prems(1) by simp
  with Cons have s: "sorted_wrt P (us @ vs)" by simp
  have "set xs = set (us @ vs)" using m by (rule mset_eq_setD)
  then have "\<forall>z \<in> set us \<union> set vs. P x z" using Cons.prems(2) by simp
  then show ?case using s assms(2) unfolding ys by (auto simp: sorted_wrt_append)
qed simp

lemma view_wf_mset: "mset bs = mset cs \<Longrightarrow> view_wf vw bs \<Longrightarrow> view_wf vw cs"
  unfolding view_wf_def list_all_iff
  using sorted_wrt_mset [of bs cs "view_apart vw"] view_apart_sym mset_eq_setD by metis

lemma view_unshared_mset: "mset bs = mset cs \<Longrightarrow> view_unshared vw bs \<Longrightarrow> view_unshared vw cs"
  unfolding view_unshared_def
  using sorted_wrt_mset [of bs cs "back_apart vw"] back_apart_sym by metis

lemma view_map_set:
  assumes "view_wf vw bs" "view_wf vw cs" "set bs = set cs"
  shows "view_map vw bs = view_map vw cs"
proof
  fix a
  show "view_map vw bs a = view_map vw cs a"
    using view_map_Some [OF assms(1), of a] view_map_Some [OF assms(2), of a] assms(3)
    by (metis not_None_eq)
qed

lemma view_backing_set: "set bs = set cs \<Longrightarrow> view_backing vw bs = view_backing vw cs"
  by (simp add: view_backing_def)

section \<open>Backing bytes\<close>

lemma view_backing_mapped:
  assumes "view_wf vw bs"
  shows "x \<in> view_backing vw bs \<longleftrightarrow> (\<exists>a y. view_map vw bs a = Some (x, y))"
proof
  assume "x \<in> view_backing vw bs"
  then obtain b where b: "b \<in> set bs" "bv_off vw b \<le> x" "x < bv_off vw b + bv_size vw b"
    by (auto simp: view_backing_def)
  let ?a = "bv_start vw b + (x - bv_off vw b)"
  have "view_holds vw b ?a" "view_byte vw b ?a = (x, bv_attr vw b)"
    using b by (auto simp: view_holds_def view_byte_def)
  then have "view_map vw bs ?a = Some (x, bv_attr vw b)"
    using view_map_Some [OF assms] b(1) by metis
  then show "\<exists>a y. view_map vw bs a = Some (x, y)" by blast
next
  assume "\<exists>a y. view_map vw bs a = Some (x, y)"
  then obtain a y b where "b \<in> set bs" "view_holds vw b a" "(x, y) = view_byte vw b a"
    using view_map_Some [OF assms] by metis
  then show "x \<in> view_backing vw bs"
    by (auto simp: view_holds_def view_byte_def view_backing_def intro!: bexI [of _ b])
qed

text \<open>No backing byte is mapped twice.\<close>

lemma view_unshared_inj:
  assumes "view_wf vw bs" "view_unshared vw bs"
    "view_map vw bs a = Some (x, y)" "view_map vw bs a' = Some (x, y')"
  shows "a = a'"
proof -
  obtain b where b: "b \<in> set bs" "view_holds vw b a" "(x, y) = view_byte vw b a"
    using assms(3) view_map_Some [OF assms(1)] by metis
  obtain c where c: "c \<in> set bs" "view_holds vw c a'" "(x, y') = view_byte vw c a'"
    using assms(4) view_map_Some [OF assms(1)] by metis
  have x: "x = bv_off vw b + (a - bv_start vw b)" "x = bv_off vw c + (a' - bv_start vw c)"
    using b(3) c(3) by (simp_all only: view_byte_def prod.inject)
  have h: "bv_start vw b \<le> a" "a < bv_start vw b + bv_size vw b" "bv_start vw c \<le> a'"
    "a' < bv_start vw c + bv_size vw c"
    using b(2) c(2) by (simp_all add: view_holds_def)
  have "b = c \<or> back_apart vw b c"
    using sorted_wrt_cases [OF assms(2) [unfolded view_unshared_def] b(1) c(1)]
      back_apart_sym [of vw c b] by argo
  moreover have "\<not> back_apart vw b c" using x h unfolding back_apart_def by linarith
  ultimately have "b = c" by blast
  then have "x = bv_off vw b + (a' - bv_start vw b)" "bv_start vw b \<le> a'" using x(2) h(3) by simp_all
  with x(1) h(1) show ?thesis by linarith
qed

section \<open>Replacing every block by pieces of it\<close>

definition view_inside :: "('b, 'a) block_view \<Rightarrow> 'b \<Rightarrow> 'b list \<Rightarrow> bool" where
  "view_inside vw b ps \<longleftrightarrow> view_wf vw ps \<and> view_unshared vw ps \<and>
     (\<forall>p \<in> set ps. bv_start vw b \<le> bv_start vw p \<and>
        bv_start vw p + bv_size vw p \<le> bv_start vw b + bv_size vw b \<and>
        bv_off vw p = bv_off vw b + (bv_start vw p - bv_start vw b))"

lemma view_inside_not_held: "view_inside vw b ps \<Longrightarrow> \<not> view_holds vw b a \<Longrightarrow> view_map vw ps a = None"
  unfolding view_map_None view_inside_def view_holds_def by fastforce

lemma pieces_apart:
  assumes "view_inside vw b ps" "view_inside vw c qs" "p \<in> set ps" "q \<in> set qs"
  shows "view_apart vw b c \<Longrightarrow> view_apart vw p q" "back_apart vw b c \<Longrightarrow> back_apart vw p q"
proof -
  have p: "bv_start vw b \<le> bv_start vw p" "bv_start vw p + bv_size vw p \<le> bv_start vw b + bv_size vw b"
    "bv_off vw p = bv_off vw b + (bv_start vw p - bv_start vw b)"
    using assms(1,3) by (auto simp: view_inside_def)
  have q: "bv_start vw c \<le> bv_start vw q" "bv_start vw q + bv_size vw q \<le> bv_start vw c + bv_size vw c"
    "bv_off vw q = bv_off vw c + (bv_start vw q - bv_start vw c)"
    using assms(2,4) by (auto simp: view_inside_def)
  show "view_apart vw b c \<Longrightarrow> view_apart vw p q" using p(1,2) q(1,2) unfolding view_apart_def by linarith
  show "back_apart vw b c \<Longrightarrow> back_apart vw p q" using p q unfolding back_apart_def by linarith
qed

lemma view_pieces_wf:
  assumes "view_wf vw bs" "\<And>b. b \<in> set bs \<Longrightarrow> view_inside vw b (f b)"
  shows "view_wf vw (concat (map f bs))" "view_unshared vw bs \<Longrightarrow> view_unshared vw (concat (map f bs))"
proof -
  have "view_wf vw (concat (map f bs)) \<and> (view_unshared vw bs \<longrightarrow> view_unshared vw (concat (map f bs)))"
    using assms
  proof (induction bs)
    case (Cons b bs)
    have "view_apart vw p q \<and> (back_apart vw b c \<longrightarrow> back_apart vw p q)"
      if p: "p \<in> set (f b)" and q: "q \<in> set (f c)" and c: "c \<in> set bs" for p q c
    proof -
      have "view_apart vw b c" using Cons.prems(1) c by simp
      then show ?thesis
        using pieces_apart [OF Cons.prems(2) [of b] Cons.prems(2) [of c] p q] c by simp
    qed
    note ap = this
    have "view_wf vw (f b)" "view_unshared vw (f b)" using Cons.prems(2) [of b] by (simp_all add: view_inside_def)
    moreover have "view_wf vw (concat (map f bs)) \<and>
        (view_unshared vw bs \<longrightarrow> view_unshared vw (concat (map f bs)))"
      using Cons by simp
    moreover have "\<forall>p \<in> set (f b). \<forall>q \<in> set (concat (map f bs)). view_apart vw p q" using ap by auto
    moreover have "\<forall>p \<in> set (f b). \<forall>q \<in> set (concat (map f bs)). back_apart vw p q"
      if "\<forall>c \<in> set bs. back_apart vw b c"
      using ap that by auto
    ultimately show ?case by simp
  qed simp
  then show "view_wf vw (concat (map f bs))"
    "view_unshared vw bs \<Longrightarrow> view_unshared vw (concat (map f bs))" by blast+
qed

lemma view_pieces_map:
  assumes "view_wf vw bs" "\<And>b. b \<in> set bs \<Longrightarrow> view_inside vw b (f b)"
    "\<And>b a. b \<in> set bs \<Longrightarrow> view_holds vw b a \<Longrightarrow> view_map vw (f b) a = h a (view_byte vw b a)"
  shows "view_map vw (concat (map f bs)) a = Option.bind (view_map vw bs a) (h a)"
  using assms
proof (induction bs)
  case (Cons b bs)
  have IH: "view_map vw (concat (map f bs)) a = Option.bind (view_map vw bs a) (h a)"
    using Cons by simp
  show ?case
  proof (cases "view_holds vw b a")
    case True
    have "\<not> view_holds vw c a" if "c \<in> set bs" for c
      using Cons.prems(1) that True by (auto simp: view_apart_def view_holds_def)
    then have "view_map vw bs a = None" by (simp add: view_map_None)
    then have "view_map vw (concat (map f bs)) a = None" by (simp add: IH)
    with True Cons.prems(3) [of b a] show ?thesis by (simp add: view_map_append split: option.split)
  next
    case False
    have "view_map vw (f b) a = None" using view_inside_not_held [OF Cons.prems(2) False] by simp
    with False IH show ?thesis by (simp add: view_map_append)
  qed
qed simp

section \<open>Counting mapped bytes\<close>

definition span_mapped :: "('b, 'a) block_view \<Rightarrow> 'b list \<Rightarrow> nat \<Rightarrow> nat \<Rightarrow> nat set" where
  "span_mapped vw bs lo hi = {a. lo \<le> a \<and> a < hi \<and> view_map vw bs a \<noteq> None}"

lemma span_mapped_finite [simp]: "finite (span_mapped vw bs lo hi)"
  by (rule finite_subset [of _ "{lo..<hi}"]) (auto simp: span_mapped_def)

lemma span_mapped_Nil [simp]: "span_mapped vw [] lo hi = {}"
  by (simp add: span_mapped_def)

lemma span_mapped_Cons:
  assumes "view_wf vw (b # bs)"
  shows "card (span_mapped vw (b # bs) lo hi) =
    min hi (bv_start vw b + bv_size vw b) - max lo (bv_start vw b) + card (span_mapped vw bs lo hi)"
proof -
  let ?B = "{max lo (bv_start vw b)..<min hi (bv_start vw b + bv_size vw b)}"
  have "a \<notin> ?B" if "a \<in> span_mapped vw bs lo hi" for a
  proof -
    obtain c where c: "c \<in> set bs" "view_holds vw c a"
      using \<open>a \<in> span_mapped vw bs lo hi\<close> view_map_None [of vw bs a] by (auto simp: span_mapped_def)
    have "view_apart vw b c" using assms c(1) by simp
    with c(2) show ?thesis by (auto simp: view_apart_def view_holds_def)
  qed
  then have "?B \<inter> span_mapped vw bs lo hi = {}" by blast
  moreover have "span_mapped vw (b # bs) lo hi = ?B \<union> span_mapped vw bs lo hi"
    by (auto simp: span_mapped_def view_holds_def)
  ultimately show ?thesis by (simp add: card_Un_disjoint)
qed

lemma span_mapped_le: "card (span_mapped vw bs lo hi) \<le> hi - lo"
proof -
  have "span_mapped vw bs lo hi \<subseteq> {lo..<hi}" by (auto simp: span_mapped_def)
  then show ?thesis using card_mono [of "{lo..<hi}"] by fastforce
qed

lemma span_mapped_full:
  "card (span_mapped vw bs lo hi) = hi - lo \<longleftrightarrow> (\<forall>a. lo \<le> a \<longrightarrow> a < hi \<longrightarrow> view_map vw bs a \<noteq> None)"
proof -
  have sub: "span_mapped vw bs lo hi \<subseteq> {lo..<hi}" by (auto simp: span_mapped_def)
  have "card (span_mapped vw bs lo hi) = hi - lo \<longleftrightarrow> span_mapped vw bs lo hi = {lo..<hi}"
    using card_subset_eq [OF _ sub] by auto
  also have "\<dots> \<longleftrightarrow> (\<forall>a \<in> {lo..<hi}. a \<in> span_mapped vw bs lo hi)" using sub by blast
  finally show ?thesis by (auto simp: span_mapped_def)
qed

text \<open>As many bytes are mapped as the blocks have, and as many of the backing are used.\<close>

definition mapped_bytes :: "('b, 'a) block_view \<Rightarrow> 'b list \<Rightarrow> nat" where
  "mapped_bytes vw bs = sum_list (map (bv_size vw) bs)"

lemma mapped_bytes_span:
  assumes "view_wf vw bs"
  shows "mapped_bytes vw bs = card (span_mapped vw bs 0 (Suc u64_max))"
  using assms
proof (induction bs)
  case (Cons b bs)
  then have "view_ok vw b" by simp
  then have "min (Suc u64_max) (bv_start vw b + bv_size vw b) - max 0 (bv_start vw b) = bv_size vw b"
    by (simp add: view_ok_def)
  with Cons span_mapped_Cons [OF Cons.prems, of 0 "Suc u64_max"] show ?case
    by (simp add: mapped_bytes_def)
qed (simp add: mapped_bytes_def)

lemma mapped_bytes_backing:
  assumes "view_unshared vw bs"
  shows "finite (view_backing vw bs) \<and> card (view_backing vw bs) = mapped_bytes vw bs"
  using assms
proof (induction bs)
  case (Cons b bs)
  have "{bv_off vw b..<bv_off vw b + bv_size vw b} \<inter> view_backing vw bs = {}"
    using Cons.prems by (fastforce simp: view_backing_def back_apart_def)
  with Cons show ?case by (simp add: card_Un_disjoint mapped_bytes_def)
qed (simp add: mapped_bytes_def)

section \<open>Adding blocks, and taking a span away\<close>

lemma view_append_ok:
  assumes bs: "view_wf vw bs" "view_unshared vw bs" and cs: "view_wf vw cs" "view_unshared vw cs"
    and fresh: "\<And>a. view_map vw cs a \<noteq> None \<Longrightarrow> view_map vw bs a = None"
    and dis: "view_backing vw bs \<inter> view_backing vw cs = {}"
  shows "view_wf vw (bs @ cs) \<and> view_unshared vw (bs @ cs)"
proof -
  have ap: "view_apart vw b c \<and> back_apart vw b c" if b: "b \<in> set bs" and c: "c \<in> set cs" for b c
  proof -
    have z: "0 < bv_size vw b" "0 < bv_size vw c"
      using view_wf_ok [OF bs(1) b] view_wf_ok [OF cs(1) c] by (simp_all add: view_ok_def)
    let ?m = "max (bv_start vw b) (bv_start vw c)"
    have "view_apart vw b c"
    proof (rule ccontr)
      assume "\<not> view_apart vw b c"
      then have "view_holds vw b ?m" "view_holds vw c ?m"
        using z by (auto simp: view_apart_def view_holds_def)
      then have h: "view_map vw bs ?m \<noteq> None" "view_map vw cs ?m \<noteq> None"
        using b c unfolding view_map_None by blast+
      from fresh [OF h(2)] h(1) show False by contradiction
    qed
    moreover have "{bv_off vw b..<bv_off vw b + bv_size vw b} \<inter> {bv_off vw c..<bv_off vw c + bv_size vw c} = {}"
      using dis b c by (fastforce simp: view_backing_def)
    then have "max (bv_off vw b) (bv_off vw c) \<notin>
        {bv_off vw b..<bv_off vw b + bv_size vw b} \<inter> {bv_off vw c..<bv_off vw c + bv_size vw c}" by blast
    then have "back_apart vw b c" using z by (auto simp: back_apart_def)
    ultimately show ?thesis by blast
  qed
  then show ?thesis using bs cs by simp
qed

definition in_range :: "nat \<Rightarrow> nat \<Rightarrow> nat \<Rightarrow> bool" where
  "in_range vaddr sz a \<longleftrightarrow> vaddr \<le> a \<and> a < vaddr + sz"

text \<open>The backing bytes of a span.\<close>

definition span_backing :: "('b, 'a) block_view \<Rightarrow> 'b list \<Rightarrow> nat \<Rightarrow> nat \<Rightarrow> nat set" where
  "span_backing vw bs lo hi = {x. \<exists>a y. lo \<le> a \<and> a < hi \<and> view_map vw bs a = Some (x, y)}"

lemma span_backing_Nil [simp]: "span_backing vw [] lo hi = {}"
  by (simp add: span_backing_def)

lemma span_backing_Cons:
  assumes "view_wf vw (b # bs)"
  shows "span_backing vw (b # bs) lo hi =
    (let l = max lo (bv_start vw b); h = min hi (bv_start vw b + bv_size vw b) in
     (if l < h then {bv_off vw b + (l - bv_start vw b)..<bv_off vw b + (l - bv_start vw b) + (h - l)} else {})) \<union>
    span_backing vw bs lo hi"
proof -
  define l where "l = max lo (bv_start vw b)"
  define h where "h = min hi (bv_start vw b + bv_size vw b)"
  have first: "view_map vw (b # bs) a = Some (x, y) \<longleftrightarrow>
      view_holds vw b a \<and> (x, y) = view_byte vw b a \<or> view_map vw bs a = Some (x, y)" for a x y
  proof -
    have "view_wf vw bs" using assms by simp
    with view_map_Some [OF assms, of a] view_map_Some [OF this, of a] show ?thesis by auto
  qed
  have "{x. \<exists>a y. lo \<le> a \<and> a < hi \<and> view_holds vw b a \<and> (x, y) = view_byte vw b a} =
      (if l < h then {bv_off vw b + (l - bv_start vw b)..<bv_off vw b + (l - bv_start vw b) + (h - l)} else {})"
    (is "?L = ?R")
  proof (intro set_eqI iffI)
    fix x assume "x \<in> ?L"
    then obtain a where a: "l \<le> a" "a < h" "x = bv_off vw b + (a - bv_start vw b)"
      by (auto simp: view_holds_def view_byte_def l_def h_def)
    moreover have "bv_start vw b \<le> l" by (simp add: l_def)
    ultimately show "x \<in> ?R" by auto
  next
    fix x assume x: "x \<in> ?R"
    then have lh: "l < h" and x: "bv_off vw b + (l - bv_start vw b) \<le> x"
      "x < bv_off vw b + (l - bv_start vw b) + (h - l)" by (auto split: if_splits)
    have sl: "bv_start vw b \<le> l" by (simp add: l_def)
    let ?a = "l + (x - (bv_off vw b + (l - bv_start vw b)))"
    have a: "l \<le> ?a" "?a < h" "x = bv_off vw b + (?a - bv_start vw b)" using x lh sl by linarith+
    then have "lo \<le> ?a" "?a < hi" "view_holds vw b ?a" by (auto simp: l_def h_def view_holds_def)
    moreover have "(x, bv_attr vw b) = view_byte vw b ?a" unfolding view_byte_def a(3) [symmetric] ..
    ultimately show "x \<in> ?L" by blast
  qed
  moreover have "span_backing vw (b # bs) lo hi =
      {x. \<exists>a y. lo \<le> a \<and> a < hi \<and> view_holds vw b a \<and> (x, y) = view_byte vw b a} \<union> span_backing vw bs lo hi"
    unfolding span_backing_def first by blast
  ultimately show ?thesis by (simp only: Let_def l_def h_def)
qed

text \<open>Without the blocks of a span, the backing of the span is used no more.\<close>

lemma view_cut_backing:
  assumes bs: "view_wf vw bs" "view_unshared vw bs" and rest: "view_wf vw rest"
    and map: "\<And>a. view_map vw rest a = (if in_range vaddr sz a then None else view_map vw bs a)"
  shows "view_backing vw rest = view_backing vw bs - span_backing vw bs vaddr (vaddr + sz) \<and>
    span_backing vw bs vaddr (vaddr + sz) \<subseteq> view_backing vw bs" (is "?R = ?B - ?S \<and> _")
proof (intro conjI set_eqI subsetI iffI)
  fix x assume "x \<in> ?R"
  then obtain a y where a: "view_map vw rest a = Some (x, y)" using view_backing_mapped [OF rest] by blast
  then have b: "\<not> in_range vaddr sz a" "view_map vw bs a = Some (x, y)"
    using map [of a] by (simp_all split: if_splits)
  have "x \<notin> ?S"
    using view_unshared_inj [OF bs b(2)] b(1) by (auto simp: span_backing_def in_range_def)
  moreover have "x \<in> ?B" using view_backing_mapped [OF bs(1)] b(2) by blast
  ultimately show "x \<in> ?B - ?S" by blast
next
  fix x assume x: "x \<in> ?B - ?S"
  then obtain a y where a: "view_map vw bs a = Some (x, y)" using view_backing_mapped [OF bs(1)] by blast
  have "\<not> in_range vaddr sz a"
  proof
    assume "in_range vaddr sz a"
    then have "x \<in> ?S" using a unfolding span_backing_def in_range_def by blast
    with x show False by blast
  qed
  then have "view_map vw rest a = Some (x, y)" using a map by simp
  then show "x \<in> ?R" using view_backing_mapped [OF rest] by blast
next
  fix x assume "x \<in> ?S"
  then obtain a y where "view_map vw bs a = Some (x, y)" unfolding span_backing_def by blast
  then show "x \<in> ?B" using view_backing_mapped [OF bs(1)] by blast
qed

section \<open>Blocks cut from free ranges\<close>

text \<open>
  The loops that cover a span take whole free ranges and then a part of the next one; \<open>mk\<close>
  makes the block from its address, its size and its backing.
\<close>

fun chunks :: "(nat \<Rightarrow> nat \<Rightarrow> nat \<Rightarrow> 'b) \<Rightarrow> free_map \<Rightarrow> nat \<Rightarrow> nat \<Rightarrow> 'b list \<times> nat" where
  "chunks mk [] cur left = ([], left)"
| "chunks mk ((off, n) # m) cur left =
     (if left = 0 then ([], 0)
      else
        let k = min left n; (bs, left) = chunks mk m (cur + k) (left - k) in (mk cur k off # bs, left))"

definition makes_blocks :: "('b, 'a) block_view \<Rightarrow> (nat \<Rightarrow> nat \<Rightarrow> nat \<Rightarrow> 'b) \<Rightarrow> 'a \<Rightarrow> bool" where
  "makes_blocks vw mk y \<longleftrightarrow> (\<forall>c k off. bv_start vw (mk c k off) = c \<and> bv_size vw (mk c k off) = k \<and>
     bv_off vw (mk c k off) = off \<and> bv_attr vw (mk c k off) = y)"

definition in_order :: "('b, 'a) block_view \<Rightarrow> 'b list \<Rightarrow> bool" where
  "in_order vw bs \<longleftrightarrow> sorted_wrt (\<lambda>b c. bv_start vw b + bv_size vw b \<le> bv_start vw c) bs"

lemma in_order_simps [simp]:
  "in_order vw []"
  "in_order vw (b # bs) \<longleftrightarrow> (\<forall>c \<in> set bs. bv_start vw b + bv_size vw b \<le> bv_start vw c) \<and> in_order vw bs"
  by (simp_all add: in_order_def)

definition chunks_for :: "('b, 'a) block_view \<Rightarrow> free_map \<Rightarrow> 'a \<Rightarrow> nat \<Rightarrow> nat \<Rightarrow> 'b list \<Rightarrow> nat \<Rightarrow> bool" where
  "chunks_for vw m y cur want bs left \<longleftrightarrow>
     want = left + mapped_bytes vw bs \<and> (left \<noteq> 0 \<longrightarrow> mapped_bytes vw bs = card (free_bytes m)) \<and>
     list_all (view_ok vw) bs \<and> in_order vw bs \<and> view_unshared vw bs \<and>
     view_backing vw bs \<subseteq> free_bytes m \<and>
     (\<forall>b \<in> set bs. cur \<le> bv_start vw b \<and> bv_start vw b + bv_size vw b \<le> cur + want) \<and>
     (\<forall>a. cur \<le> a \<longrightarrow> a < cur + mapped_bytes vw bs \<longrightarrow> view_map vw bs a \<noteq> None) \<and>
     (\<forall>b \<in> set bs. bv_attr vw b = y)"

lemma chunks_ok:
  assumes mk: "makes_blocks vw mk y" and "free_inv m" "cur + want \<le> u64_max"
    "chunks mk m cur want = (bs, left)"
  shows "chunks_for vw m y cur want bs left"
  using assms(2-4)
proof (induction m arbitrary: cur want bs)
  case Nil
  then show ?case by (simp add: chunks_for_def mapped_bytes_def)
next
  case (Cons r m)
  obtain off n where r: "r = (off, n)" by (cases r)
  show ?case
  proof (cases "want = 0")
    case True
    then show ?thesis using Cons.prems(3) by (simp add: r mapped_bytes_def chunks_for_def)
  next
    case False
    let ?k = "min want n" and ?b = "mk cur (min want n) off"
    have b: "bv_start vw ?b = cur" "bv_size vw ?b = ?k" "bv_off vw ?b = off" "bv_attr vw ?b = y"
      using mk by (simp_all add: makes_blocks_def)
    have f: "0 < n" "off + n \<le> u64_max" "\<forall>q \<in> set m. off + n < fst q" "free_inv m"
      using Cons.prems(1) by (simp_all add: r)
    obtain cs where cs: "chunks mk m (cur + ?k) (want - ?k) = (cs, left)" "bs = ?b # cs"
      using Cons.prems(3) False by (auto simp: r Let_def split: prod.splits)
    have "cur + ?k + (want - ?k) \<le> u64_max" using Cons.prems(2) by simp
    note IH = Cons.IH [OF f(4) this cs(1), unfolded chunks_for_def]
    have fin: "finite (free_bytes m)" by (simp add: free_bytes_def case_prod_beta)
    have dis: "{off..<off + n} \<inter> free_bytes m = {}"
      using f(3) by (fastforce simp: free_bytes_def)
    have mb: "mapped_bytes vw bs = ?k + mapped_bytes vw cs" by (simp add: cs(2) b mapped_bytes_def)
    have full: "mapped_bytes vw bs = card (free_bytes (r # m))" if l: "left \<noteq> 0"
    proof -
      have "want - ?k \<noteq> 0" using IH l by linarith
      then have "?k = n" by linarith
      then show ?thesis using l IH by (simp add: mb r card_Un_disjoint fin dis)
    qed
    have ok: "view_ok vw ?b" using f(1,2) False Cons.prems(2) by (auto simp: view_ok_def b)
    have ap: "back_apart vw ?b c" if c: "c \<in> set cs" for c
    proof -
      have "{bv_off vw c..<bv_off vw c + bv_size vw c} \<subseteq> free_bytes m"
        using IH c by (fastforce simp: view_backing_def)
      moreover have "0 < bv_size vw c" using IH c by (auto simp: list_all_iff view_ok_def)
      ultimately have "bv_off vw c \<in> free_bytes m" by auto
      then have "off + n < bv_off vw c" using f(3) by (fastforce simp: free_bytes_def)
      then show ?thesis by (simp add: back_apart_def b)
    qed
    have mp: "view_map vw bs a \<noteq> None" if "cur \<le> a" "a < cur + mapped_bytes vw bs" for a
    proof (cases "a < cur + ?k")
      case True
      then have "view_holds vw ?b a" using that(1) unfolding view_holds_def b by simp
      then show ?thesis by (simp add: cs(2))
    next
      case out: False
      then have "cur + ?k \<le> a" "a < cur + ?k + mapped_bytes vw cs" using that mb by simp_all
      then have "view_map vw cs a \<noteq> None" using IH by blast
      then show ?thesis by (simp add: cs(2))
    qed
    have rg: "\<forall>c \<in> set cs. cur \<le> bv_start vw c \<and> cur + ?k \<le> bv_start vw c \<and>
        bv_start vw c + bv_size vw c \<le> cur + want"
      using IH by fastforce
    show ?thesis unfolding chunks_for_def
    proof (intro conjI)
      have "want - ?k = left + mapped_bytes vw cs" "?k \<le> want" using IH by simp_all
      then show "want = left + mapped_bytes vw bs" using mb by linarith
      show "left \<noteq> 0 \<longrightarrow> mapped_bytes vw bs = card (free_bytes (r # m))" using full by blast
      show "list_all (view_ok vw) bs" using ok IH by (simp only: cs(2) list.pred_inject)
      show "in_order vw bs" using rg IH by (simp add: cs(2) b)
      show "view_unshared vw bs" using ap IH by (simp only: cs(2) view_unshared_simps) blast
      show "view_backing vw bs \<subseteq> free_bytes (r # m)" using IH by (auto simp: cs(2) r b)
      show "\<forall>a. cur \<le> a \<longrightarrow> a < cur + mapped_bytes vw bs \<longrightarrow> view_map vw bs a \<noteq> None" using mp by blast
      show "\<forall>b \<in> set bs. cur \<le> bv_start vw b \<and> bv_start vw b + bv_size vw b \<le> cur + want"
        using rg by (simp add: cs(2) b)
      show "\<forall>b \<in> set bs. bv_attr vw b = y" using IH b(4) by (simp add: cs(2))
    qed
  qed
qed

text \<open>Chunks that leave nothing cover the span, and nothing else.\<close>

lemma chunks_cover:
  assumes "chunks_for vw m y cur want bs 0"
  shows "view_wf vw bs" "view_map vw bs a \<noteq> None \<longleftrightarrow> in_range cur want a"
proof -
  have c: "list_all (view_ok vw) bs" "in_order vw bs" "mapped_bytes vw bs = want"
    "\<forall>b \<in> set bs. cur \<le> bv_start vw b \<and> bv_start vw b + bv_size vw b \<le> cur + want"
    "\<And>a. cur \<le> a \<Longrightarrow> a < cur + mapped_bytes vw bs \<Longrightarrow> view_map vw bs a \<noteq> None"
    using assms unfolding chunks_for_def by (simp_all only: add_0 simp_thms) blast
  show "view_wf vw bs"
    using c(1,2) by (auto simp: view_wf_def in_order_def view_apart_def elim!: sorted_wrt_mono_rel [rotated])
  show "view_map vw bs a \<noteq> None \<longleftrightarrow> in_range cur want a"
  proof
    assume "view_map vw bs a \<noteq> None"
    then obtain b where "b \<in> set bs" "view_holds vw b a" unfolding view_map_None by blast
    with c(4) show "in_range cur want a" by (fastforce simp: view_holds_def in_range_def)
  next
    assume "in_range cur want a"
    then show "view_map vw bs a \<noteq> None" using c(5) [of a] unfolding c(3) in_range_def by blast
  qed
qed

text \<open>Their bytes have the attributes asked for, and backing that was free.\<close>

lemma chunks_attr:
  assumes "chunks_for vw m y cur want bs 0" "in_range cur want a"
  shows "\<exists>x \<in> free_bytes m. view_map vw bs a = Some (x, y)"
proof -
  note wf = chunks_cover(1) [OF assms(1)]
  have "view_map vw bs a \<noteq> None" using chunks_cover(2) [OF assms(1)] assms(2) by blast
  then obtain x y' where xy: "view_map vw bs a = Some (x, y')" by (cases "view_map vw bs a") auto
  then obtain b where b: "b \<in> set bs" "(x, y') = view_byte vw b a" using view_map_Some [OF wf] by metis
  have "y' = y" using assms(1) b by (simp add: view_byte_def chunks_for_def)
  moreover have "x \<in> view_backing vw bs" using view_backing_mapped [OF wf] xy by blast
  then have "x \<in> free_bytes m" using assms(1) unfolding chunks_for_def by blast
  ultimately show ?thesis using xy by blast
qed

section \<open>Cutting blocks\<close>

text \<open>
  The contract of a struct that can be cut: the part of a block between two addresses, and the
  list of parts that remain outside of a span or are changed inside of it.
\<close>

locale block_cut =
  fixes vw :: "('b, 'a) block_view"
    and part :: "'b \<Rightarrow> nat \<Rightarrow> nat \<Rightarrow> 'b"
  assumes part_start: "bv_start vw (part b x y) = x"
    and part_size: "bv_size vw (part b x y) = y - x"
    and part_off: "bv_off vw (part b x y) = bv_off vw b + (x - bv_start vw b)"
    and part_attr: "bv_attr vw (part b x y) = bv_attr vw b"
begin

lemma part_ok:
  assumes "view_ok vw b" "bv_start vw b \<le> x" "x < y" "y \<le> bv_start vw b + bv_size vw b"
  shows "view_ok vw (part b x y)" "view_holds vw (part b x y) a \<longleftrightarrow> x \<le> a \<and> a < y"
    "x \<le> a \<Longrightarrow> view_byte vw (part b x y) a = view_byte vw b a"
proof -
  show "view_ok vw (part b x y)" using assms by (auto simp: view_ok_def part_start part_size part_off)
  show "view_holds vw (part b x y) a \<longleftrightarrow> x \<le> a \<and> a < y"
    using assms(3) by (auto simp: view_holds_def part_start part_size)
  show "x \<le> a \<Longrightarrow> view_byte vw (part b x y) a = view_byte vw b a"
    using assms(2) by (simp add: view_byte_def part_start part_off part_attr)
qed

lemma parts_apart:
  assumes "bv_start vw b \<le> x" "x < y" "y \<le> x'" "x' < y'"
  shows "view_apart vw (part b x y) (part b x' y')" "back_apart vw (part b x y) (part b x' y')"
  using assms by (auto simp: view_apart_def back_apart_def part_start part_size part_off)

lemma part_within:
  assumes "view_ok vw b" "bv_start vw b \<le> x" "x < y" "y \<le> bv_start vw b + bv_size vw b"
  shows "view_inside vw b [part b x y]"
  using part_ok(1) [OF assms] assms by (simp add: view_inside_def part_start part_size part_off)

lemma outer_parts:
  assumes "view_ok vw b" "bv_start vw b \<le> lo" "lo < hi" "hi \<le> bv_start vw b + bv_size vw b"
  defines "ps \<equiv> (if bv_start vw b < lo then [part b (bv_start vw b) lo] else []) @
    (if hi < bv_start vw b + bv_size vw b then [part b hi (bv_start vw b + bv_size vw b)] else [])"
  shows "view_inside vw b ps"
    and "view_holds vw b a \<Longrightarrow>
      view_map vw ps a = (if lo \<le> a \<and> a < hi then None else Some (view_byte vw b a))"
proof -
  let ?s = "bv_start vw b" and ?e = "bv_start vw b + bv_size vw b"
  have l: "view_ok vw (part b ?s lo)" if "?s < lo"
    using part_ok(1) [OF assms(1) le_refl that] assms(3,4) by simp
  have r: "view_ok vw (part b hi ?e)" if "hi < ?e"
    using part_ok(1) [OF assms(1) _ that le_refl] assms(2,3) by simp
  have lr: "view_apart vw (part b ?s lo) (part b hi ?e)" "back_apart vw (part b ?s lo) (part b hi ?e)"
    if "?s < lo" "hi < ?e"
    using parts_apart [OF le_refl that(1) _ that(2)] assms(3) by simp_all
  show "view_inside vw b ps"
    using l r lr assms(2-4) by (auto simp: view_inside_def ps_def part_start part_size part_off)
  show "view_map vw ps a = (if lo \<le> a \<and> a < hi then None else Some (view_byte vw b a))"
    if h: "view_holds vw b a"
  proof -
    have "view_map vw (if ?s < lo then [part b ?s lo] else []) a =
        (if a < lo then Some (view_byte vw b a) else None)"
      using h part_ok(2,3) [OF assms(1) le_refl, of lo a] assms(3,4) by (auto simp: view_holds_def)
    moreover have "view_map vw (if hi < ?e then [part b hi ?e] else []) a =
        (if hi \<le> a then Some (view_byte vw b a) else None)"
      using h part_ok(2,3) [OF assms(1) _ _ le_refl, of hi a] assms(2,3) by (auto simp: view_holds_def)
    ultimately show ?thesis using assms(3) by (auto simp: ps_def view_map_append)
  qed
qed

text \<open>An edit of the part inside changes its attributes only.\<close>

lemma edited_parts:
  assumes "view_ok vw b" "bv_start vw b \<le> lo" "lo < hi" "hi \<le> bv_start vw b + bv_size vw b"
    and e: "bv_start vw c = lo" "bv_size vw c = hi - lo" "bv_off vw c = bv_off vw b + (lo - bv_start vw b)"
  defines "ps \<equiv> (if bv_start vw b < lo then [part b (bv_start vw b) lo] else []) @ [c] @
    (if hi < bv_start vw b + bv_size vw b then [part b hi (bv_start vw b + bv_size vw b)] else [])"
  shows "view_inside vw b ps"
    and "view_holds vw b a \<Longrightarrow> view_map vw ps a =
      (if lo \<le> a \<and> a < hi then Some (fst (view_byte vw b a), bv_attr vw c) else Some (view_byte vw b a))"
proof -
  let ?s = "bv_start vw b" and ?e = "bv_start vw b + bv_size vw b"
  have l: "view_ok vw (part b ?s lo)" if "?s < lo"
    using part_ok(1) [OF assms(1) le_refl that] assms(3,4) by simp
  have r: "view_ok vw (part b hi ?e)" if "hi < ?e"
    using part_ok(1) [OF assms(1) _ that le_refl] assms(2,3) by simp
  have c: "view_ok vw c" using assms(1-4) e by (auto simp: view_ok_def)
  have ap: "view_apart vw (part b ?s lo) (part b hi ?e)" "back_apart vw (part b ?s lo) (part b hi ?e)"
    if "?s < lo" "hi < ?e"
    using parts_apart [OF le_refl that(1) _ that(2)] assms(3) by simp_all
  show "view_inside vw b ps"
    using l r c ap assms(2-4) e
    by (auto simp: view_inside_def ps_def part_start part_size part_off view_apart_def back_apart_def)
  show "view_map vw ps a = (if lo \<le> a \<and> a < hi then Some (fst (view_byte vw b a), bv_attr vw c)
      else Some (view_byte vw b a))" if h: "view_holds vw b a"
  proof -
    have "view_map vw (if ?s < lo then [part b ?s lo] else []) a =
        (if a < lo then Some (view_byte vw b a) else None)"
      using h part_ok(2,3) [OF assms(1) le_refl, of lo a] assms(3,4) by (auto simp: view_holds_def)
    moreover have "view_map vw (if hi < ?e then [part b hi ?e] else []) a =
        (if hi \<le> a then Some (view_byte vw b a) else None)"
      using h part_ok(2,3) [OF assms(1) _ _ le_refl, of hi a] assms(2,3) by (auto simp: view_holds_def)
    moreover have "view_map vw [c] a =
        (if lo \<le> a \<and> a < hi then Some (fst (view_byte vw b a), bv_attr vw c) else None)"
      using assms(2,3) e by (auto simp: view_holds_def view_byte_def)
    ultimately show ?thesis using assms(3) by (auto simp: ps_def view_map_append)
  qed
qed

end

end
