(* ===== verification/FlexibleBlocks.thy ===== *)
theory FlexibleBlocks
  imports FlexibleMemory BlockViews
begin

text \<open>
  What the operations of \<open>FlexibleMemory\<close> do to the map from guest addresses to backing
  bytes and to the free map.
\<close>

section \<open>Blocks as a map\<close>

definition flex_view :: "(FlexibleBlock, u32 \<times> Mode \<times> GpuAccessMode \<times> string) block_view" where
  "flex_view = \<lparr>bv_start = fb_map_vaddr, bv_size = fb_map_size, bv_off = fb_backing_offset,
     bv_attr = \<lambda>b. (fb_prot b, fb_mode b, fb_gpu_mode b, fb_name b)\<rparr>"

lemma flex_view_simps [simp]:
  "bv_start flex_view = fb_map_vaddr" "bv_size flex_view = fb_map_size"
  "bv_off flex_view = fb_backing_offset"
  "bv_attr flex_view = (\<lambda>b. (fb_prot b, fb_mode b, fb_gpu_mode b, fb_name b))"
  by (simp_all add: flex_view_def)

definition fb_part :: "FlexibleBlock \<Rightarrow> nat \<Rightarrow> nat \<Rightarrow> FlexibleBlock" where
  "fb_part b x y = b\<lparr>fb_map_vaddr := x, fb_map_size := y - x,
     fb_backing_offset := fb_backing_offset b + (x - fb_map_vaddr b)\<rparr>"

interpretation fb: block_cut flex_view fb_part
  by unfold_locales (simp_all add: fb_part_def)

text \<open>A sum that wraps and is brought back by the subtraction.\<close>

lemma sub64_add64:
  assumes "v \<le> w" "v \<le> u64_max" "f + (w - v) \<le> u64_max"
  shows "sub64 (add64 f w) v = f + (w - v)"
proof -
  let ?M = "Suc u64_max"
  have v: "v mod ?M = v" using assms(2) by simp
  have "(f + w) mod ?M + (?M - v) = (f + w) mod ?M + (?M - v)" ..
  then have "sub64 (add64 f w) v = (f + w + (?M - v)) mod ?M"
    unfolding sub64_def add64_def u64_max_Suc v by (simp only: mod_add_left_eq)
  also have "f + w + (?M - v) = (f + (w - v)) + ?M" using assms(1,2) by simp
  also have "\<dots> mod ?M = (f + (w - v)) mod ?M" by (rule mod_add_self2)
  also have "\<dots> = f + (w - v)" using assms(3) by (intro mod_less) simp
  finally show ?thesis .
qed

lemma flex_ok_bounds:
  "view_ok flex_view b \<Longrightarrow> 0 < fb_map_size b \<and> fb_map_vaddr b + fb_map_size b \<le> u64_max \<and>
     fb_backing_offset b + fb_map_size b \<le> u64_max"
  by (simp add: view_ok_def)

lemma fb_left_part: "fb_left b x = (if fb_map_vaddr b < x then [fb_part b (fb_map_vaddr b) x] else [])"
  by (cases b) (simp add: fb_left_def fb_part_def)

lemma fb_right_part:
  assumes "view_ok flex_view b" "fb_map_vaddr b \<le> x"
  shows "fb_right b x = (if x < fb_map_vaddr b + fb_map_size b
    then [fb_part b x (fb_map_vaddr b + fb_map_size b)] else [])"
proof -
  note bd = flex_ok_bounds [OF assms(1)]
  have "sub64 (add64 (fb_backing_offset b) x) (fb_map_vaddr b) = fb_backing_offset b + (x - fb_map_vaddr b)"
    if "x < fb_map_vaddr b + fb_map_size b"
    using that bd assms(2) by (intro sub64_add64) auto
  then show ?thesis using bd unfolding fb_right_def fb_part_def by (simp del: diff_add_assoc)
qed

text \<open>A span that meets a block, and the addresses they share.\<close>

lemma flex_overlap:
  assumes "view_ok flex_view b" "0 < sz" "vaddr + sz \<le> u64_max"
  shows "VirtualRangesOverlap vaddr sz (fb_map_vaddr b) (fb_map_size b) \<longleftrightarrow>
    max vaddr (fb_map_vaddr b) < min (vaddr + sz) (fb_map_vaddr b + fb_map_size b)"
  using flex_ok_bounds [OF assms(1)] assms(2,3) by (auto simp: VirtualRangesOverlap_def Let_def)

definition unmap_pieces :: "nat \<Rightarrow> nat \<Rightarrow> FlexibleBlock \<Rightarrow> FlexibleBlock list" where
  "unmap_pieces vaddr sz b =
     (if VirtualRangesOverlap vaddr sz (fb_map_vaddr b) (fb_map_size b)
      then fb_left b (max vaddr (fb_map_vaddr b)) @
        fb_right b (min (vaddr + sz) (fb_map_vaddr b + fb_map_size b))
      else [b])"

lemma unmap_pieces_ok:
  assumes "view_ok flex_view b" "0 < sz" "vaddr + sz \<le> u64_max"
  shows "view_inside flex_view b (unmap_pieces vaddr sz b)"
    and "view_holds flex_view b a \<Longrightarrow> view_map flex_view (unmap_pieces vaddr sz b) a =
      (if vaddr \<le> a \<and> a < vaddr + sz then None else Some (view_byte flex_view b a))"
proof -
  let ?lo = "max vaddr (fb_map_vaddr b)" and ?hi = "min (vaddr + sz) (fb_map_vaddr b + fb_map_size b)"
  have "view_inside flex_view b (unmap_pieces vaddr sz b) \<and> (view_holds flex_view b a \<longrightarrow>
      view_map flex_view (unmap_pieces vaddr sz b) a =
      (if vaddr \<le> a \<and> a < vaddr + sz then None else Some (view_byte flex_view b a)))"
  proof (cases "?lo < ?hi")
    case True
    have ps: "unmap_pieces vaddr sz b =
        (if fb_map_vaddr b < ?lo then [fb_part b (fb_map_vaddr b) ?lo] else []) @
        (if ?hi < fb_map_vaddr b + fb_map_size b
         then [fb_part b ?hi (fb_map_vaddr b + fb_map_size b)] else [])"
      using True unfolding unmap_pieces_def flex_overlap [OF assms] fb_left_part
      by (subst fb_right_part [OF assms(1)]) auto
    have "(?lo \<le> a \<and> a < ?hi) = (vaddr \<le> a \<and> a < vaddr + sz)" if "view_holds flex_view b a"
      using that by (auto simp: view_holds_def)
    with fb.outer_parts(1) [OF assms(1), of ?lo ?hi] fb.outer_parts(2) [OF assms(1), of ?lo ?hi a] True
    show ?thesis unfolding ps flex_view_simps by simp
  next
    case False
    have "\<not> (vaddr \<le> a \<and> a < vaddr + sz)" if "view_holds flex_view b a"
      using that False by (auto simp: view_holds_def)
    moreover have "unmap_pieces vaddr sz b = [b]"
      using False by (simp only: unmap_pieces_def flex_overlap [OF assms] if_False)
    moreover have "view_inside flex_view b [b]" using assms(1) by (simp add: view_inside_def)
    ultimately show ?thesis by auto
  qed
  then show "view_inside flex_view b (unmap_pieces vaddr sz b)"
    "view_holds flex_view b a \<Longrightarrow> view_map flex_view (unmap_pieces vaddr sz b) a =
      (if vaddr \<le> a \<and> a < vaddr + sz then None else Some (view_byte flex_view b a))" by blast+
qed

lemma fm_protect_pieces_ok:
  assumes "view_ok flex_view b" "0 < sz" "vaddr + sz \<le> u64_max"
  shows "view_inside flex_view b (fm_protect_pieces vaddr sz prot mode gpu b)"
    and "view_holds flex_view b a \<Longrightarrow> view_map flex_view (fm_protect_pieces vaddr sz prot mode gpu b) a =
      (if vaddr \<le> a \<and> a < vaddr + sz
       then Some (fst (view_byte flex_view b a), prot, mode, gpu, fb_name b)
       else Some (view_byte flex_view b a))"
proof -
  let ?lo = "max vaddr (fb_map_vaddr b)" and ?hi = "min (vaddr + sz) (fb_map_vaddr b + fb_map_size b)"
  have "view_inside flex_view b (fm_protect_pieces vaddr sz prot mode gpu b) \<and> (view_holds flex_view b a \<longrightarrow>
      view_map flex_view (fm_protect_pieces vaddr sz prot mode gpu b) a =
      (if vaddr \<le> a \<and> a < vaddr + sz
       then Some (fst (view_byte flex_view b a), prot, mode, gpu, fb_name b)
       else Some (view_byte flex_view b a)))"
  proof (cases "?lo < ?hi")
    case True
    define c where "c = b\<lparr>fb_map_vaddr := ?lo, fb_map_size := ?hi - ?lo,
      fb_backing_offset := fb_backing_offset b + (?lo - fb_map_vaddr b),
      fb_prot := prot, fb_mode := mode, fb_gpu_mode := gpu\<rparr>"
    note bd = flex_ok_bounds [OF assms(1)]
    have "sub64 ?hi ?lo = ?hi - ?lo" using True bd by (intro sub64_id) auto
    moreover have "sub64 (add64 (fb_backing_offset b) ?lo) (fb_map_vaddr b) =
        fb_backing_offset b + (?lo - fb_map_vaddr b)"
      using True bd by (intro sub64_add64) auto
    moreover have "add64 (fb_map_vaddr b) (fb_map_size b) = fb_map_vaddr b + fb_map_size b"
      using bd by simp
    ultimately have ps: "fm_protect_pieces vaddr sz prot mode gpu b =
        (if fb_map_vaddr b < ?lo then [fb_part b (fb_map_vaddr b) ?lo] else []) @ [c] @
        (if ?hi < fb_map_vaddr b + fb_map_size b
         then [fb_part b ?hi (fb_map_vaddr b + fb_map_size b)] else [])"
      using True unfolding fm_protect_pieces_def flex_overlap [OF assms] fb_left_part Let_def c_def
      by (subst fb_right_part [OF assms(1)]) auto
    have e: "bv_start flex_view c = ?lo" "bv_size flex_view c = ?hi - ?lo"
      "bv_off flex_view c = bv_off flex_view b + (?lo - bv_start flex_view b)"
      "bv_attr flex_view c = (prot, mode, gpu, fb_name b)"
      by (simp_all add: c_def)
    have "(?lo \<le> a \<and> a < ?hi) = (vaddr \<le> a \<and> a < vaddr + sz)" if "view_holds flex_view b a"
      using that by (auto simp: view_holds_def)
    with fb.edited_parts(1) [OF assms(1) _ _ _ e(1-3)] fb.edited_parts(2) [OF assms(1) _ _ _ e(1-3), of a]
      True e(4) show ?thesis unfolding ps flex_view_simps by simp
  next
    case False
    have "\<not> (vaddr \<le> a \<and> a < vaddr + sz)" if "view_holds flex_view b a"
      using that False by (auto simp: view_holds_def)
    moreover have "fm_protect_pieces vaddr sz prot mode gpu b = [b]"
      using False by (simp only: fm_protect_pieces_def flex_overlap [OF assms] Let_def if_True simp_thms)
    moreover have "view_inside flex_view b [b]" using assms(1) by (simp add: view_inside_def)
    ultimately show ?thesis by auto
  qed
  then show "view_inside flex_view b (fm_protect_pieces vaddr sz prot mode gpu b)"
    "view_holds flex_view b a \<Longrightarrow> view_map flex_view (fm_protect_pieces vaddr sz prot mode gpu b) a =
      (if vaddr \<le> a \<and> a < vaddr + sz
       then Some (fst (view_byte flex_view b a), prot, mode, gpu, fb_name b)
       else Some (view_byte flex_view b a))" by blast+
qed

section \<open>The loop of Unmap\<close>

lemma unmap_blocks_ok:
  assumes "view_wf flex_view bs" "free_inv m" "0 < sz" "vaddr + sz \<le> u64_max"
    "removed + card (span_mapped flex_view bs vaddr (vaddr + sz)) \<le> u64_max"
    "unmap_blocks vaddr sz bs m removed = (rest, m', removed')"
  shows "rest = concat (map (unmap_pieces vaddr sz) bs) \<and> free_inv m' \<and>
    free_bytes m' = free_bytes m \<union> span_backing flex_view bs vaddr (vaddr + sz) \<and>
    removed' = removed + card (span_mapped flex_view bs vaddr (vaddr + sz))"
  using assms
proof (induction bs arbitrary: m removed rest m' removed')
  case (Cons b bs)
  have ok: "view_ok flex_view b" and wf: "view_wf flex_view bs" using Cons.prems(1) by simp_all
  note bd = flex_ok_bounds [OF ok]
  let ?lo = "max vaddr (fb_map_vaddr b)" and ?hi = "min (vaddr + sz) (fb_map_vaddr b + fb_map_size b)"
  note cnt = span_mapped_Cons [OF Cons.prems(1), of vaddr "vaddr + sz", unfolded flex_view_simps]
  note bck = span_backing_Cons [OF Cons.prems(1), of vaddr "vaddr + sz", unfolded flex_view_simps Let_def]
  have ov: "VirtualRangesOverlap vaddr sz (fb_map_vaddr b) (fb_map_size b) \<longleftrightarrow> ?lo < ?hi"
    using flex_overlap [OF ok Cons.prems(3,4)] .
  show ?case
  proof (cases "?lo < ?hi")
    case True
    have s: "sub64 ?hi ?lo = ?hi - ?lo" using True bd by (intro sub64_id) auto
    have o: "sub64 (add64 (fb_backing_offset b) ?lo) (fb_map_vaddr b) =
        fb_backing_offset b + (?lo - fb_map_vaddr b)"
      using True bd by (intro sub64_add64) auto
    have r: "add64 removed (?hi - ?lo) = removed + (?hi - ?lo)"
      using Cons.prems(5) cnt by (intro add64_id) linarith
    let ?off = "fb_backing_offset b + (?lo - fb_map_vaddr b)"
    have e: "add64 (fb_map_vaddr b) (fb_map_size b) = fb_map_vaddr b + fb_map_size b" using bd by simp
    obtain rest0 m0 n0 where u: "unmap_blocks vaddr sz bs (AddFreeRange m ?off (?hi - ?lo))
        (removed + (?hi - ?lo)) = (rest0, m0, n0)" by (metis prod_cases3)
    have ov1: "VirtualRangesOverlap vaddr sz (fb_map_vaddr b) (fb_map_size b)" using ov True by blast
    have "unmap_blocks vaddr sz (b # bs) m removed = (fb_left b ?lo @ fb_right b ?hi @ rest0, m0, n0)"
      by (simp only: unmap_blocks.simps Let_def e s o r u ov1 not_True_eq_False if_False prod.case)
    then have eq: "rest = fb_left b ?lo @ fb_right b ?hi @ rest0" "m' = m0" "removed' = n0"
      using Cons.prems(6) by (simp_all only: prod.inject)
    have "?off + (?hi - ?lo) \<le> u64_max" using True bd by auto
    from fr.give_ok [OF Cons.prems(2) _ this] True
    have g: "free_inv (AddFreeRange m ?off (?hi - ?lo))"
      "free_bytes (AddFreeRange m ?off (?hi - ?lo)) = free_bytes m \<union> {?off..<?off + (?hi - ?lo)}"
      by simp_all
    have "removed + (?hi - ?lo) + card (span_mapped flex_view bs vaddr (vaddr + sz)) \<le> u64_max"
      using Cons.prems(5) cnt by linarith
    note IH = Cons.IH [OF wf g(1) Cons.prems(3,4) this u]
    have p: "unmap_pieces vaddr sz b = fb_left b ?lo @ fb_right b ?hi"
      using ov1 by (simp add: unmap_pieces_def)
    have bck1: "span_backing flex_view (b # bs) vaddr (vaddr + sz) =
        {?off..<?off + (?hi - ?lo)} \<union> span_backing flex_view bs vaddr (vaddr + sz)"
      using bck True by (simp only: if_True)
    show ?thesis
      unfolding eq using IH by (simp only: p bck1 cnt g(2) list.map concat.simps append_assoc Un_assoc
          add.assoc simp_thms)
  next
    case False
    obtain rest0 m0 n0 where u: "unmap_blocks vaddr sz bs m removed = (rest0, m0, n0)"
      by (metis prod_cases3)
    have eq: "rest = b # rest0" "m' = m0" "removed' = n0"
      using Cons.prems(6) ov False by (simp_all add: Let_def u)
    have z: "?hi - ?lo = 0" using False by linarith
    have "removed + card (span_mapped flex_view bs vaddr (vaddr + sz)) \<le> u64_max"
      using Cons.prems(5) cnt z by linarith
    note IH = Cons.IH [OF wf Cons.prems(2,3,4) this u]
    have "\<not> VirtualRangesOverlap vaddr sz (fb_map_vaddr b) (fb_map_size b)" using ov False by blast
    then have p: "unmap_pieces vaddr sz b = [b]" by (simp add: unmap_pieces_def)
    have bck1: "span_backing flex_view (b # bs) vaddr (vaddr + sz) =
        span_backing flex_view bs vaddr (vaddr + sz)"
      using bck False by (simp only: if_False Un_empty_left)
    show ?thesis
      unfolding eq using IH by (simp only: p bck1 cnt z list.map concat.simps append_Cons append_Nil
          add_0 simp_thms)
  qed
qed simp

section \<open>Walking over the blocks of a span\<close>

text \<open>The vector is kept in the order of the addresses.\<close>

definition flex_sorted :: "FlexibleBlock list \<Rightarrow> bool" where
  "flex_sorted bs \<longleftrightarrow> sorted_wrt (\<lambda>b c. fb_map_vaddr b + fb_map_size b \<le> fb_map_vaddr c) bs"

lemma flex_sorted_simps [simp]:
  "flex_sorted []"
  "flex_sorted (b # bs) \<longleftrightarrow>
     (\<forall>c \<in> set bs. fb_map_vaddr b + fb_map_size b \<le> fb_map_vaddr c) \<and> flex_sorted bs"
  by (simp_all add: flex_sorted_def)

lemma flex_sorted_after:
  "flex_sorted (b # bs) \<Longrightarrow> a < fb_map_vaddr b + fb_map_size b \<Longrightarrow> view_map flex_view bs a = None"
  unfolding view_map_None view_holds_def by fastforce

lemma cover_loop_found: "gpu \<noteq> None \<Longrightarrow> snd (cover_loop bs cur fin gpu) \<noteq> None"
  by (induction bs cur fin gpu rule: cover_loop.induct) (auto simp: Let_def)

lemma cover_loop_ok:
  assumes "flex_sorted bs" "view_wf flex_view bs" "cur < fin" "cover_loop bs cur fin gpu = (c, g)"
  shows "cur \<le> c \<and> c \<le> fin \<and> (\<forall>a. cur \<le> a \<longrightarrow> a < c \<longrightarrow> view_map flex_view bs a \<noteq> None) \<and>
    (c < fin \<longrightarrow> view_map flex_view bs c = None) \<and> (cur < c \<longrightarrow> g \<noteq> None)"
  using assms
proof (induction bs arbitrary: cur gpu)
  case (Cons b bs)
  have ok: "view_ok flex_view b" and wf: "view_wf flex_view bs" and srt: "flex_sorted bs"
    using Cons.prems by simp_all
  let ?e = "fb_map_vaddr b + fb_map_size b"
  have e: "add64 (fb_map_vaddr b) (fb_map_size b) = ?e" using flex_ok_bounds [OF ok] by simp
  consider "?e \<le> cur" | "cur < ?e" "cur < fb_map_vaddr b" | "cur < ?e" "fb_map_vaddr b \<le> cur" "fin \<le> ?e"
    | "cur < ?e" "fb_map_vaddr b \<le> cur" "?e < fin" by linarith
  then show ?case
  proof cases
    case 1
    have "cover_loop bs cur fin gpu = (c, g)" using Cons.prems(4) 1 e by simp
    from Cons.IH [OF srt wf Cons.prems(3) this] 1 show ?thesis by (auto simp: view_holds_def)
  next
    case 2
    have cg: "c = cur" using Cons.prems(4) 2 e by (simp split: if_splits)
    have "view_map flex_view (b # bs) cur = None"
      using flex_sorted_after [OF Cons.prems(1) 2(1)] 2(2) by (simp add: view_holds_def)
    with cg Cons.prems(3) show ?thesis by auto
  next
    case 3
    then have "c = fin" "g \<noteq> None" using Cons.prems(3,4) e by (auto simp: Let_def split: if_splits)
    with 3 Cons.prems(3) show ?thesis by (auto simp: view_holds_def)
  next
    case 4
    obtain g1 where g1: "g1 \<noteq> None" "cover_loop bs ?e fin g1 = (c, g)"
      using Cons.prems(3,4) 4 e by (auto simp: Let_def split: if_splits)
    have IH: "?e \<le> c \<and> c \<le> fin \<and> (\<forall>a. ?e \<le> a \<longrightarrow> a < c \<longrightarrow> view_map flex_view bs a \<noteq> None) \<and>
      (c < fin \<longrightarrow> view_map flex_view bs c = None)"
      using Cons.IH [OF srt wf 4(3) g1(2)] by blast
    have "g \<noteq> None" using cover_loop_found [OF g1(1), of bs ?e fin] g1(2) by simp
    moreover have "view_map flex_view (b # bs) a \<noteq> None" if "cur \<le> a" "a < c" for a
      using that IH 4(2) by (cases "a < ?e") (auto simp: view_holds_def)
    moreover have "view_map flex_view (b # bs) c = None" if "c < fin"
      using that IH by (auto simp: view_holds_def)
    ultimately show ?thesis using IH 4(1) by auto
  qed
qed auto

end
