(* ===== verification/FlexibleOps.thy ===== *)
theory FlexibleOps
  imports FlexibleBlocks PhysicalBlocks
begin

text \<open>
  Each operation of \<open>FlexibleMemory\<close> on a state that satisfies the invariant: what it answers
  and the map it leaves.
\<close>

section \<open>The invariant\<close>

text \<open>The backing of the flexible memory lies behind the direct memory.\<close>

definition flex_backing :: "nat \<Rightarrow> nat set" where
  "flex_backing flexible = {PM_TotalSize - flexible..<PM_TotalSize}"

definition fm_inv :: "nat \<Rightarrow> flexible_memory \<Rightarrow> bool" where
  "fm_inv flexible fm \<longleftrightarrow>
     view_wf flex_view (fm_allocated fm) \<and> view_unshared flex_view (fm_allocated fm) \<and>
     flex_sorted (fm_allocated fm) \<and> free_inv (fm_free fm) \<and>
     balanced (free_bytes (fm_free fm)) (view_backing flex_view (fm_allocated fm)) (flex_backing flexible) \<and>
     fm_allocated_total fm = mapped_bytes flex_view (fm_allocated fm) \<and> flexible \<le> PM_TotalSize"

abbreviation flex_map :: "flexible_memory \<Rightarrow> nat \<Rightarrow> (nat \<times> u32 \<times> Mode \<times> GpuAccessMode \<times> string) option" where
  "flex_map fm \<equiv> view_map flex_view (fm_allocated fm)"

lemma FM_new_ok:
  assumes "0 < flexible" "flexible < PM_TotalSize"
  shows "\<exists>fm. FM_new flexible = Ret fm \<and> fm_inv flexible fm \<and> fm_allocated fm = []"
proof -
  have "PM_TotalSize - flexible + flexible \<le> u64_max" using assms(2) PM_Total_max by simp
  then show ?thesis
    using assms by (auto simp: FM_new_def PM_Size_def fm_inv_def balanced_def flex_backing_def mapped_bytes_def)
qed

lemma fm_inv_counts:
  assumes "fm_inv flexible fm"
  shows "fm_allocated_total fm + card (free_bytes (fm_free fm)) = flexible"
    and "finite (free_bytes (fm_free fm))"
    and "FM_Available flexible fm = card (free_bytes (fm_free fm))"
    and "fm_allocated_total fm \<le> u64_max"
proof -
  let ?F = "free_bytes (fm_free fm)" and ?U = "view_backing flex_view (fm_allocated fm)"
  have b: "?F \<union> ?U = flex_backing flexible" "?F \<inter> ?U = {}"
    using assms by (auto simp: fm_inv_def balanced_def)
  have fin: "finite (flex_backing flexible)" "card (flex_backing flexible) = flexible"
    using assms by (auto simp: flex_backing_def fm_inv_def)
  then show f: "finite ?F" using b(1) by (metis finite_Un)
  have "card (flex_backing flexible) = card ?F + card ?U"
    using b fin(1) by (metis card_Un_disjoint finite_Un)
  moreover have "card ?U = fm_allocated_total fm"
    using assms mapped_bytes_backing [of flex_view "fm_allocated fm"] by (simp add: fm_inv_def)
  ultimately show c: "fm_allocated_total fm + card ?F = flexible" using fin(2) by simp
  then show "FM_Available flexible fm = card ?F" by (auto simp: FM_Available_def)
  have "flexible \<le> PM_TotalSize" using assms by (simp add: fm_inv_def)
  with c PM_Total_max show "fm_allocated_total fm \<le> u64_max" by linarith
qed

section \<open>Taking backing\<close>

lemma free_at_entry:
  assumes "free_inv m" "(s, n) \<in> set m" "s \<le> off" "off < s + n"
  shows "free_at m off = Some (s, n)"
proof -
  obtain before it where sp: "upper_split off m = (before, it)" by (cases "upper_split off m")
  note parts = upper_split_parts [OF free_inv_sorted [OF assms(1)] sp]
  have "(s, n) \<in> set before" using assms(2,3) parts(1,3) by auto
  moreover have "p = (s, n)" if l: "before \<noteq> []" "p = last before" for p
  proof -
    have p: "p \<in> set m" "fst p \<le> off" using l parts(1,2) by auto
    have ib: "free_inv before" using assms(1) parts(1) by simp
    show ?thesis
    proof (rule ccontr)
      assume "p \<noteq> (s, n)"
      with \<open>(s, n) \<in> set before\<close> l have "(s, n) \<in> set (butlast before)"
        by (metis append_butlast_last_id in_set_butlastD in_set_conv_decomp set_append Un_iff set_ConsD
            empty_iff empty_set)
      from free_inv_last [OF ib this] l(2) p(2) assms(4) show False by simp
    qed
  qed
  ultimately show ?thesis by (auto simp: free_at_def sp Let_def)
qed

lemma free_holds_entry:
  assumes "free_inv m" "(s, n) \<in> set m" "s \<le> fb_backing_offset b"
    "fb_backing_offset b + fb_map_size b \<le> s + n"
  shows "free_holds (s, n) b"
proof -
  have "s + n \<le> u64_max" using free_inv_entry [OF assms(1,2)] by simp
  moreover have "fb_backing_offset b \<le> s + n" using assms(4) by simp
  ultimately show ?thesis using assms(3,4) by (auto simp: free_holds_def)
qed

text \<open>Free backing is found and passes the checks.\<close>

lemma free_block:
  assumes "free_inv m" "view_ok flex_view b"
    "{fb_backing_offset b..<fb_backing_offset b + fb_map_size b} \<subseteq> free_bytes m"
  obtains s n where "free_at m (fb_backing_offset b) = Some (s, n)" "free_holds (s, n) b"
    "(s, n) \<in> set m" "s \<le> fb_backing_offset b" "fb_backing_offset b + fb_map_size b \<le> s + n"
proof -
  have z: "0 < fb_map_size b" using flex_ok_bounds [OF assms(2)] by simp
  from free_run_entry [OF assms(1) z assms(3)] obtain s n where
    e: "(s, n) \<in> set m" "s \<le> fb_backing_offset b" "fb_backing_offset b + fb_map_size b \<le> s + n" .
  have "fb_backing_offset b < s + n" using e(3) z by simp
  from that [OF free_at_entry [OF assms(1) e(1,2) this] free_holds_entry [OF assms(1) e] e]
  show ?thesis .
qed

lemma take_blocks_ok:
  assumes "free_inv m" "list_all (view_ok flex_view) bs" "view_unshared flex_view bs"
    "view_backing flex_view bs \<subseteq> free_bytes m"
  shows "\<exists>m'. take_blocks check m bs = Ret m' \<and> free_inv m' \<and>
    free_bytes m' = free_bytes m - view_backing flex_view bs"
  using assms
proof (induction bs arbitrary: m)
  case (Cons b bs)
  let ?B = "{fb_backing_offset b..<fb_backing_offset b + fb_map_size b}"
  have ok: "view_ok flex_view b" using Cons.prems(2) by simp
  have sub: "?B \<subseteq> free_bytes m" using Cons.prems(4) by simp
  from free_block [OF Cons.prems(1) ok sub] obtain s n where
    e: "free_at m (fb_backing_offset b) = Some (s, n)" "free_holds (s, n) b"
      "(s, n) \<in> set m" "s \<le> fb_backing_offset b" "fb_backing_offset b + fb_map_size b \<le> s + n" .
  have z: "0 < fb_map_size b" using flex_ok_bounds [OF ok] by simp
  let ?m = "ConsumeFreeRange m (s, n) (fb_backing_offset b) (fb_map_size b)"
  note t = ConsumeFreeRange_ok [OF Cons.prems(1) e(3,4) z e(5)]
  have "?B \<inter> view_backing flex_view bs = {}"
    using Cons.prems(3) by (fastforce simp: view_backing_def back_apart_def)
  then have "view_backing flex_view bs \<subseteq> free_bytes ?m" using Cons.prems(4) t(2) by auto
  then obtain m' where m': "take_blocks check ?m bs = Ret m'" "free_inv m'"
    "free_bytes m' = free_bytes ?m - view_backing flex_view bs"
    using Cons.IH [OF t(1)] Cons.prems(2,3) by auto
  have "take_blocks check m (b # bs) = Ret m'" using e(1,2) m'(1) by simp
  moreover have "free_bytes m' = free_bytes m - view_backing flex_view (b # bs)"
    using m'(3) t(2) by auto
  ultimately show ?case using m'(2) by blast
qed simp

section \<open>The blocks of a mapping\<close>

lemma free_chunks_eq:
  "cur + want \<le> u64_max \<Longrightarrow> free_chunks proto m cur want =
    chunks (\<lambda>c k off. proto\<lparr>fb_map_vaddr := c, fb_map_size := k, fb_backing_offset := off\<rparr>) m cur want"
proof (induction m arbitrary: cur want)
  case (Cons r m)
  obtain off n where r: "r = (off, n)" by (cases r)
  have "add64 cur (min want n) = cur + min want n" using Cons.prems by (intro add64_id) auto
  moreover have "cur + min want n + (want - min want n) \<le> u64_max" using Cons.prems by simp
  ultimately show ?case using Cons.IH by (simp add: r Let_def)
qed simp

lemma free_chunks_ok:
  assumes "free_inv m" "cur + want \<le> u64_max" "free_chunks proto m cur want = (bs, left)"
  shows "chunks_for flex_view m (bv_attr flex_view proto) cur want bs left"
proof (rule chunks_ok [OF _ assms(1,2)])
  show "makes_blocks flex_view (\<lambda>c k off. proto\<lparr>fb_map_vaddr := c, fb_map_size := k,
      fb_backing_offset := off\<rparr>) (bv_attr flex_view proto)"
    by (simp add: makes_blocks_def)
qed (use assms(3) free_chunks_eq [OF assms(2)] in simp)

end
