(* ===== verification/FlexibleHistory.thy ===== *)
theory FlexibleHistory
  imports FlexibleOps
begin

text \<open>
  The operations of \<open>FlexibleMemory\<close> in any order: the guest's addresses never share backing,
  the accounts are right, and a snapshot can be put back.
\<close>

section \<open>Adding blocks\<close>

lemma view_wf_flex_sorted:
  assumes "view_wf flex_view bs" "sorted (map fb_map_vaddr bs)"
  shows "flex_sorted bs"
  using assms
proof (induction bs)
  case (Cons b bs)
  have "fb_map_vaddr b + fb_map_size b \<le> fb_map_vaddr c" if c: "c \<in> set bs" for c
  proof -
    have "view_apart flex_view b c" "fb_map_vaddr b \<le> fb_map_vaddr c" using Cons.prems c by simp_all
    moreover have "0 < fb_map_size c"
      using flex_ok_bounds view_wf_ok [of flex_view bs c] Cons.prems(1) c by simp
    ultimately show ?thesis by (auto simp: view_apart_def)
  qed
  with Cons show ?case by simp
qed simp

text \<open>Blocks at addresses that are not mapped, on backing that is free.\<close>

definition fits_in :: "flexible_memory \<Rightarrow> FlexibleBlock list \<Rightarrow> bool" where
  "fits_in fm bs \<longleftrightarrow> view_wf flex_view bs \<and> view_unshared flex_view bs \<and>
     (\<forall>a. view_map flex_view bs a \<noteq> None \<longrightarrow> flex_map fm a = None)"

lemma fits_in_append:
  assumes inv: "fm_inv flexible fm" and fit: "fits_in fm bs"
    and sub: "view_backing flex_view bs \<subseteq> free_bytes (fm_free fm)"
  shows "view_wf flex_view (fm_allocated fm @ bs)" "view_unshared flex_view (fm_allocated fm @ bs)"
proof -
  have a: "view_wf flex_view (fm_allocated fm)" "view_unshared flex_view (fm_allocated fm)"
    using inv by (simp_all add: fm_inv_def)
  have f: "view_wf flex_view bs" "view_unshared flex_view bs"
    "\<And>a. view_map flex_view bs a \<noteq> None \<Longrightarrow> flex_map fm a = None"
    using fit unfolding fits_in_def by blast+
  have "view_backing flex_view (fm_allocated fm) \<inter> view_backing flex_view bs = {}"
    using inv sub unfolding fm_inv_def balanced_def by blast
  from view_append_ok [OF a f this]
  show "view_wf flex_view (fm_allocated fm @ bs)" "view_unshared flex_view (fm_allocated fm @ bs)" by blast+
qed

lemma add_blocks_ok:
  assumes inv: "fm_inv flexible fm" and fit: "fits_in fm bs"
    and sub: "view_backing flex_view bs \<subseteq> free_bytes (fm_free fm)"
    and free: "free_inv m" "free_bytes m = free_bytes (fm_free fm) - view_backing flex_view bs"
  defines "fm' \<equiv> fm\<lparr>fm_allocated := sort_key fb_map_vaddr (fm_allocated fm @ bs), fm_free := m,
      fm_allocated_total := fm_allocated_total fm + mapped_bytes flex_view bs\<rparr>"
  shows "fm_inv flexible fm'"
    and "flex_map fm' a = (case flex_map fm a of None \<Rightarrow> view_map flex_view bs a | Some x \<Rightarrow> Some x)"
    and "fm_allocated_total fm + mapped_bytes flex_view bs \<le> u64_max"
proof -
  let ?l = "fm_allocated fm @ bs" and ?s = "sort_key fb_map_vaddr (fm_allocated fm @ bs)"
  note ap = fits_in_append [OF inv fit sub]
  have m: "mset ?l = mset ?s" by simp
  have wf: "view_wf flex_view ?s" using view_wf_mset [OF m ap(1)] .
  have un: "view_unshared flex_view ?s" using view_unshared_mset [OF m ap(2)] .
  have "flex_sorted ?s" using view_wf_flex_sorted [OF wf] by simp
  moreover have bk: "view_backing flex_view ?s = view_backing flex_view ?l"
    by (rule view_backing_set) simp
  have "balanced (free_bytes (fm_free fm)) (view_backing flex_view (fm_allocated fm)) (flex_backing flexible)"
    using inv by (simp add: fm_inv_def)
  then have "balanced (free_bytes m) (view_backing flex_view ?s) (flex_backing flexible)"
    unfolding balanced_def bk free(2) view_backing_simps(3) using sub by blast
  moreover have "mapped_bytes flex_view ?s = mapped_bytes flex_view ?l"
    unfolding mapped_bytes_def by (metis m mset_map sum_mset_sum_list)
  then have "mapped_bytes flex_view ?s = fm_allocated_total fm + mapped_bytes flex_view bs"
    using inv by (simp add: fm_inv_def mapped_bytes_def)
  ultimately show inv': "fm_inv flexible fm'"
    using inv wf un free(1) by (simp add: fm_inv_def fm'_def)
  show "flex_map fm' a = (case flex_map fm a of None \<Rightarrow> view_map flex_view bs a | Some x \<Rightarrow> Some x)"
    unfolding fm'_def using view_map_set [OF wf ap(1)] by (simp add: view_map_append)
  show "fm_allocated_total fm + mapped_bytes flex_view bs \<le> u64_max"
    using fm_inv_counts(4) [OF inv'] by (simp add: fm'_def)
qed

section \<open>The host's answers\<close>

lemma unmap_all_defined: "unmap_all asp h bs \<noteq> Undef"
  by (induction bs arbitrary: h) (auto split: prod.splits)

lemma map_all_defined: "map_all asp zero h mapped bs \<noteq> Undef"
proof (induction bs arbitrary: h mapped)
  case (Cons b bs)
  have "omap f (unmap_all asp h' (rev mapped)) \<noteq> Undef" for f :: "'a \<Rightarrow> bool \<times> 'a" and h'
    using unmap_all_defined [of asp h' "rev mapped"] by (cases "unmap_all asp h' (rev mapped)") auto
  with Cons show ?case by (auto split: prod.splits)
qed simp

section \<open>Mapping\<close>

text \<open>The blocks a mapping will use: they cover the span, on free backing.\<close>

lemma FM_Map_blocks:
  assumes inv: "fm_inv flexible fm" and room: "vaddr + len \<le> u64_max"
    and fresh: "\<forall>a. in_range vaddr len a \<longrightarrow> flex_map fm a = None"
    and len: "len \<noteq> 0" "len \<le> FM_Available flexible fm"
  obtains bs m where "fits_in fm bs" "view_backing flex_view bs \<subseteq> free_bytes (fm_free fm)"
    "take_blocks True (fm_free fm) bs = Ret m" "free_inv m"
    "free_bytes m = free_bytes (fm_free fm) - view_backing flex_view bs"
    "chunks_for flex_view (fm_free fm) (prot, mode, gpu, CopyVirtualRangeName name) vaddr len bs 0"
    "FM_Map flexible asp h fm vaddr len prot mode gpu name =
      obind (map_all asp True h [] bs) (\<lambda>(ok, h). if \<not> ok then Ret (False, fm, h)
        else Ret (True, fm\<lparr>fm_allocated := sort_key fb_map_vaddr (fm_allocated fm @ bs),
          fm_free := m, fm_allocated_total := fm_allocated_total fm + mapped_bytes flex_view bs\<rparr>, h))"
proof -
  define proto where "proto = \<lparr>fb_map_vaddr = 0, fb_map_size = 0, fb_backing_offset = 0,
    fb_host_vaddr = vaddr, fb_host_size = len, fb_prot = prot, fb_mode = mode, fb_gpu_mode = gpu,
    fb_name = CopyVirtualRangeName name\<rparr>"
  obtain bs left where bs: "free_chunks proto (fm_free fm) vaddr len = (bs, left)"
    by (cases "free_chunks proto (fm_free fm) vaddr len")
  have fi: "free_inv (fm_free fm)" using inv by (simp add: fm_inv_def)
  note chf = free_chunks_ok [OF fi room bs]
  then have ch: "len = left + mapped_bytes flex_view bs"
    "left \<noteq> 0 \<Longrightarrow> mapped_bytes flex_view bs = card (free_bytes (fm_free fm))"
    "list_all (view_ok flex_view) bs" "view_unshared flex_view bs"
    "view_backing flex_view bs \<subseteq> free_bytes (fm_free fm)"
    unfolding chunks_for_def by blast+
  have l0: "left = 0"
    using ch(1,2) len fm_inv_counts(3) [OF inv] by (cases "left = 0") auto
  have mb: "mapped_bytes flex_view bs = len" using ch(1) l0 by simp
  note cf = chf [unfolded l0]
  note held = chunks_cover(2) [OF cf]
  have fit: "fits_in fm bs"
    using chunks_cover(1) [OF cf] ch(4) fresh held by (simp add: fits_in_def)
  obtain m where m: "take_blocks True (fm_free fm) bs = Ret m" "free_inv m"
    "free_bytes m = free_bytes (fm_free fm) - view_backing flex_view bs"
    using take_blocks_ok [OF fi ch(3-5)] by blast
  have tot: "add64 (fm_allocated_total fm) len = fm_allocated_total fm + mapped_bytes flex_view bs"
    using add_blocks_ok(3) [OF inv fit ch(5) m(2,3)] mb by simp
  have "FM_Map flexible asp h fm vaddr len prot mode gpu name =
      obind (map_all asp True h [] bs) (\<lambda>(ok, h). if \<not> ok then Ret (False, fm, h)
        else Ret (True, fm\<lparr>fm_allocated := sort_key fb_map_vaddr (fm_allocated fm @ bs),
          fm_free := m, fm_allocated_total := fm_allocated_total fm + mapped_bytes flex_view bs\<rparr>, h))"
    using len l0 by (cases "map_all asp True h [] bs")
      (simp_all add: FM_Map_def Let_def proto_def [symmetric] bs not_less m(1) tot split: prod.split)
  moreover have "chunks_for flex_view (fm_free fm) (prot, mode, gpu, CopyVirtualRangeName name) vaddr len bs 0"
    using cf by (simp add: proto_def)
  ultimately show ?thesis using that [OF fit ch(5) m] by blast
qed

lemma FM_Map_ok:
  assumes inv: "fm_inv flexible fm" and room: "vaddr + len \<le> u64_max"
    and fresh: "\<forall>a. in_range vaddr len a \<longrightarrow> flex_map fm a = None"
  shows "(\<exists>h'. FM_Map flexible asp h fm vaddr len prot mode gpu name = Ret (False, fm, h') \<and>
      (len = 0 \<or> FM_Available flexible fm < len \<or>
        (\<exists>bs. map_all asp True h [] bs = Ret (False, h')))) \<or>
    (\<exists>bs. FM_Map flexible asp h fm vaddr len prot mode gpu name = Exit \<and> map_all asp True h [] bs = Exit) \<or>
    (\<exists>fm' h'. FM_Map flexible asp h fm vaddr len prot mode gpu name = Ret (True, fm', h') \<and>
      fm_inv flexible fm' \<and> (\<forall>a. if in_range vaddr len a
        then \<exists>x \<in> free_bytes (fm_free fm). flex_map fm' a = Some (x, prot, mode, gpu, CopyVirtualRangeName name)
        else flex_map fm' a = flex_map fm a))"
    (is "?refused \<or> ?exit \<or> ?mapped")
proof (cases "len = 0 \<or> FM_Available flexible fm < len")
  case True
  then have ?refused by (auto simp: FM_Map_def Let_def)
  then show ?thesis ..
next
  case False
  then have len: "len \<noteq> 0" "len \<le> FM_Available flexible fm" by auto
  from FM_Map_blocks [OF inv room fresh len, of prot mode gpu name asp h]
  obtain bs m where fit: "fits_in fm bs" and sub: "view_backing flex_view bs \<subseteq> free_bytes (fm_free fm)"
    and m: "take_blocks True (fm_free fm) bs = Ret m" "free_inv m"
      "free_bytes m = free_bytes (fm_free fm) - view_backing flex_view bs"
    and cf: "chunks_for flex_view (fm_free fm) (prot, mode, gpu, CopyVirtualRangeName name) vaddr len bs 0"
    and run: "FM_Map flexible asp h fm vaddr len prot mode gpu name =
      obind (map_all asp True h [] bs) (\<lambda>(ok, h). if \<not> ok then Ret (False, fm, h)
        else Ret (True, fm\<lparr>fm_allocated := sort_key fb_map_vaddr (fm_allocated fm @ bs),
          fm_free := m, fm_allocated_total := fm_allocated_total fm + mapped_bytes flex_view bs\<rparr>, h))" .
  note ad = add_blocks_ok [OF inv fit sub m(2,3)]
  let ?fm = "fm\<lparr>fm_allocated := sort_key fb_map_vaddr (fm_allocated fm @ bs), fm_free := m,
    fm_allocated_total := fm_allocated_total fm + mapped_bytes flex_view bs\<rparr>"
  have new: "if in_range vaddr len a then \<exists>x \<in> free_bytes (fm_free fm).
      flex_map ?fm a = Some (x, prot, mode, gpu, CopyVirtualRangeName name)
    else flex_map ?fm a = flex_map fm a" for a
  proof (cases "in_range vaddr len a")
    case True
    from chunks_attr [OF cf this] show ?thesis using True fresh ad(2) [of a] by auto
  next
    case False
    then have "view_map flex_view bs a = None" using chunks_cover(2) [OF cf] by blast
    then show ?thesis using False ad(2) [of a] by (auto split: option.splits)
  qed
  show ?thesis
  proof (cases "map_all asp True h [] bs")
    case (Ret r)
    obtain ok h' where r: "r = (ok, h')" by (cases r)
    show ?thesis
    proof (cases ok)
      case True
      then have "FM_Map flexible asp h fm vaddr len prot mode gpu name = Ret (True, ?fm, h')"
        unfolding run Ret r by simp
      with ad(1) new show ?thesis by blast
    qed (use run Ret r in auto)
  next
    case Exit
    then show ?thesis using run by auto
  qed (use map_all_defined [of asp True h "[]" bs] in simp)
qed

section \<open>Unmapping\<close>

lemma pieces_sorted:
  assumes "flex_sorted bs" "view_wf flex_view bs"
    "\<And>b. b \<in> set bs \<Longrightarrow> view_inside flex_view b (f b) \<and> flex_sorted (f b)"
  shows "flex_sorted (concat (map f bs))"
  using assms
proof (induction bs)
  case (Cons b bs)
  have "fb_map_vaddr p + fb_map_size p \<le> fb_map_vaddr q"
    if p: "p \<in> set (f b)" and q: "q \<in> set (f c)" "c \<in> set bs" for p q c
  proof -
    have "fb_map_vaddr b + fb_map_size b \<le> fb_map_vaddr c" using Cons.prems(1) q(2) by simp
    moreover have "fb_map_vaddr p + fb_map_size p \<le> fb_map_vaddr b + fb_map_size b"
      using Cons.prems(3) [of b] p by (simp add: view_inside_def)
    moreover have "fb_map_vaddr c \<le> fb_map_vaddr q"
      using Cons.prems(3) [of c] q by (simp add: view_inside_def)
    ultimately show ?thesis by linarith
  qed
  moreover have "flex_sorted (f b)" "flex_sorted (concat (map f bs))" using Cons by simp_all
  ultimately show ?case by (auto simp: flex_sorted_def sorted_wrt_append)
qed simp

lemma unmap_pieces_sorted: "view_ok flex_view b \<Longrightarrow> 0 < sz \<Longrightarrow> vaddr + sz \<le> u64_max \<Longrightarrow>
    flex_sorted (unmap_pieces vaddr sz b)"
  using flex_overlap [of b sz vaddr] flex_ok_bounds [of b]
  by (auto simp: unmap_pieces_def fb_left_def fb_right_def Let_def)

lemma protect_pieces_sorted: "view_ok flex_view b \<Longrightarrow> 0 < sz \<Longrightarrow> vaddr + sz \<le> u64_max \<Longrightarrow>
    flex_sorted (fm_protect_pieces vaddr sz prot mode gpu b)"
  using flex_overlap [of b sz vaddr] flex_ok_bounds [of b]
  by (auto simp: fm_protect_pieces_def fb_left_def fb_right_def Let_def)

lemma span_covered:
  assumes "fm_inv flexible fm" "0 < sz" "vaddr + sz \<le> u64_max"
  shows "(let (c, g) = cover_loop (fm_allocated fm) vaddr (vaddr + sz) None in g = None \<or> c \<noteq> vaddr + sz) \<longleftrightarrow>
    (\<exists>a. in_range vaddr sz a \<and> flex_map fm a = None)"
proof -
  obtain c g where cg: "cover_loop (fm_allocated fm) vaddr (vaddr + sz) None = (c, g)"
    by (cases "cover_loop (fm_allocated fm) vaddr (vaddr + sz) None")
  have "flex_sorted (fm_allocated fm)" "view_wf flex_view (fm_allocated fm)"
    using assms(1) by (simp_all add: fm_inv_def)
  from cover_loop_ok [OF this _ cg] assms(2)
  have c: "vaddr \<le> c" "c \<le> vaddr + sz" "\<And>a. vaddr \<le> a \<Longrightarrow> a < c \<Longrightarrow> flex_map fm a \<noteq> None"
    "c < vaddr + sz \<Longrightarrow> flex_map fm c = None" "vaddr < c \<Longrightarrow> g \<noteq> None" by auto
  show ?thesis
  proof (cases "c = vaddr + sz")
    case True
    then have "g \<noteq> None" using c(5) assms(2) by simp
    moreover have "\<not> (\<exists>a. in_range vaddr sz a \<and> flex_map fm a = None)"
      using c(3) True by (auto simp: in_range_def)
    ultimately show ?thesis using True cg by (simp only: Let_def prod.case) argo
  next
    case False
    then have "in_range vaddr sz c" "flex_map fm c = None" using c by (auto simp: in_range_def)
    then show ?thesis using False cg by auto
  qed
qed

text \<open>What remains after the blocks of a covered span are gone.\<close>

lemma unmapped_blocks:
  assumes inv: "fm_inv flexible fm" and sz: "0 < sz" "vaddr + sz \<le> u64_max"
    and cov: "\<forall>a. in_range vaddr sz a \<longrightarrow> flex_map fm a \<noteq> None"
    and u: "unmap_blocks vaddr sz (fm_allocated fm) (fm_free fm) 0 = (rest, m, removed)"
  defines "fm' \<equiv> fm\<lparr>fm_allocated := rest, fm_free := m, fm_allocated_total := fm_allocated_total fm - removed\<rparr>"
  shows "removed = sz" "removed \<le> fm_allocated_total fm" "fm_inv flexible fm'"
    "flex_map fm' a = (if in_range vaddr sz a then None else flex_map fm a)"
    "free_bytes m = free_bytes (fm_free fm) \<union> span_backing flex_view (fm_allocated fm) vaddr (vaddr + sz)"
proof -
  have f: "view_wf flex_view (fm_allocated fm)" "view_unshared flex_view (fm_allocated fm)"
    "flex_sorted (fm_allocated fm)" "free_inv (fm_free fm)"
    "balanced (free_bytes (fm_free fm)) (view_backing flex_view (fm_allocated fm)) (flex_backing flexible)"
    using inv by (simp_all add: fm_inv_def)
  let ?bs = "fm_allocated fm"
  have card: "card (span_mapped flex_view ?bs vaddr (vaddr + sz)) = sz"
    using span_mapped_full [of flex_view ?bs vaddr "vaddr + sz"] cov by (auto simp: in_range_def)
  then have "0 + card (span_mapped flex_view ?bs vaddr (vaddr + sz)) \<le> u64_max" using sz by simp
  from unmap_blocks_ok [OF f(1,4) sz this u] card
  have r: "rest = concat (map (unmap_pieces vaddr sz) ?bs)" "free_inv m" "removed = sz"
    "free_bytes m = free_bytes (fm_free fm) \<union> span_backing flex_view ?bs vaddr (vaddr + sz)" by simp_all
  show "removed = sz" "free_bytes m = free_bytes (fm_free fm) \<union> span_backing flex_view ?bs vaddr (vaddr + sz)"
    using r by simp_all
  have ins: "view_inside flex_view b (unmap_pieces vaddr sz b)" if "b \<in> set ?bs" for b
    using unmap_pieces_ok(1) [OF view_wf_ok [OF f(1) that] sz] .
  have map: "view_map flex_view rest a = (if in_range vaddr sz a then None else view_map flex_view ?bs a)" for a
  proof -
    have "view_map flex_view rest a = Option.bind (view_map flex_view ?bs a)
        (\<lambda>x. if in_range vaddr sz a then None else Some x)"
      unfolding r(1)
      by (rule view_pieces_map [OF f(1) ins])
        (use unmap_pieces_ok(2) [OF view_wf_ok [OF f(1)] sz] in \<open>simp_all add: in_range_def\<close>)
    then show ?thesis by (cases "view_map flex_view ?bs a") auto
  qed
  then show "flex_map fm' a = (if in_range vaddr sz a then None else flex_map fm a)" by (simp add: fm'_def)
  have wf: "view_wf flex_view rest" unfolding r(1) using view_pieces_wf(1) [OF f(1) ins] .
  have un: "view_unshared flex_view rest" unfolding r(1) using view_pieces_wf(2) [OF f(1) ins f(2)] .
  let ?S = "span_backing flex_view ?bs vaddr (vaddr + sz)"
  note bk = view_cut_backing [OF f(1,2) wf map]
  have bal: "balanced (free_bytes m) (view_backing flex_view rest) (flex_backing flexible)"
    using f(5) bk unfolding balanced_def r(4) by blast
  have srt: "flex_sorted rest" unfolding r(1)
    using pieces_sorted [OF f(3,1)] ins unmap_pieces_sorted [OF view_wf_ok [OF f(1)] sz] by blast
  have cnt: "mapped_bytes flex_view rest = mapped_bytes flex_view ?bs - sz \<and> sz \<le> mapped_bytes flex_view ?bs"
  proof -
    let ?A = "span_mapped flex_view ?bs 0 (Suc u64_max)" and ?C = "span_mapped flex_view ?bs vaddr (vaddr + sz)"
    have "?C \<subseteq> ?A" using sz(2) by (auto simp: span_mapped_def)
    moreover have "span_mapped flex_view rest 0 (Suc u64_max) = ?A - ?C"
      using map by (auto simp: span_mapped_def in_range_def)
    ultimately show ?thesis
      using card mapped_bytes_span [OF wf] mapped_bytes_span [OF f(1)]
      by (metis card_Diff_subset card_mono span_mapped_finite)
  qed
  have tot: "fm_allocated_total fm = mapped_bytes flex_view ?bs" using inv by (simp add: fm_inv_def)
  then show "removed \<le> fm_allocated_total fm" using cnt r(3) by simp
  show "fm_inv flexible fm'"
    using inv wf un srt r(2,3) bal cnt tot by (simp add: fm_inv_def fm'_def)
qed

lemma FM_Unmap_ok:
  assumes inv: "fm_inv flexible fm"
  shows "(\<exists>g h'. FM_Unmap asp h fm vaddr sz = Ret (False, g, fm, h') \<and>
      (sz = 0 \<or> u64_max < vaddr + sz \<or> (\<exists>a. in_range vaddr sz a \<and> flex_map fm a = None) \<or>
        \<not> fst (UnmapBacking asp h vaddr sz))) \<or>
    (\<exists>g fm'. FM_Unmap asp h fm vaddr sz = Ret (True, Some g, fm', snd (UnmapBacking asp h vaddr sz)) \<and>
      fm_inv flexible fm' \<and> fm_allocated_total fm = fm_allocated_total fm' + sz \<and>
      (\<forall>a. in_range vaddr sz a \<longrightarrow> flex_map fm a \<noteq> None) \<and>
      (\<forall>a. flex_map fm' a = (if in_range vaddr sz a then None else flex_map fm a)) \<and>
      free_bytes (fm_free fm') = free_bytes (fm_free fm) \<union>
        span_backing flex_view (fm_allocated fm) vaddr (vaddr + sz))"
    (is "?refused \<or> ?done")
proof (cases "sz = 0 \<or> u64_max < vaddr + sz")
  case True
  then have "sz = 0 \<or> u64_max - vaddr < sz" by linarith
  then have "FM_Unmap asp h fm vaddr sz = Ret (False, None, fm, h)" by (simp add: FM_Unmap_def)
  with True have ?refused by blast
  then show ?thesis ..
next
  case False
  then have sz: "0 < sz" "vaddr + sz \<le> u64_max" and g: "\<not> (sz = 0 \<or> u64_max - vaddr < sz)" by auto
  obtain c gpu where cg: "cover_loop (fm_allocated fm) vaddr (vaddr + sz) None = (c, gpu)"
    by (cases "cover_loop (fm_allocated fm) vaddr (vaddr + sz) None")
  obtain ok h' where un: "UnmapBacking asp h vaddr sz = (ok, h')" by (cases "UnmapBacking asp h vaddr sz")
  note run = FM_Unmap_def [of asp h fm vaddr sz, unfolded cg Let_def un prod.case if_not_P [OF g]]
  have cov: "gpu = None \<or> c \<noteq> vaddr + sz \<longleftrightarrow> (\<exists>a. in_range vaddr sz a \<and> flex_map fm a = None)"
    using span_covered [OF inv sz] by (simp add: cg)
  show ?thesis
  proof (cases "gpu = None \<or> c \<noteq> vaddr + sz")
    case True
    then have "FM_Unmap asp h fm vaddr sz = Ret (False, gpu, fm, h)" unfolding run by (simp only: if_True)
    with True cov have ?refused by blast
    then show ?thesis ..
  next
    case mapped: False
    then obtain g0 where g0: "gpu = Some g0" by auto
    have all: "\<forall>a. in_range vaddr sz a \<longrightarrow> flex_map fm a \<noteq> None"
    proof -
      have "\<not> (\<exists>a. in_range vaddr sz a \<and> flex_map fm a = None)" using mapped unfolding cov .
      then show ?thesis by simp
    qed
    show ?thesis
    proof (cases ok)
      case False
      have "FM_Unmap asp h fm vaddr sz = Ret (False, gpu, fm, h')"
        unfolding run if_not_P [OF mapped] using False by simp
      moreover have "\<not> fst (UnmapBacking asp h vaddr sz)" using False un by simp
      ultimately have ?refused by blast
      then show ?thesis ..
    next
      case True
      obtain rest m removed where u: "unmap_blocks vaddr sz (fm_allocated fm) (fm_free fm) 0 = (rest, m, removed)"
        by (metis prod_cases3)
      note ub = unmapped_blocks [OF inv sz all u]
      let ?fm = "fm\<lparr>fm_allocated := rest, fm_free := m, fm_allocated_total := fm_allocated_total fm - removed\<rparr>"
      have "FM_Unmap asp h fm vaddr sz = Ret (True, Some g0, ?fm, h')"
        unfolding run using mapped True ub(1,2) by (simp add: u g0)
      moreover have "fm_allocated_total fm = fm_allocated_total ?fm + sz" using ub(1,2) by simp
      ultimately have ?done using ub(3,4,5) all by (simp add: un) 
      then show ?thesis ..
    qed
  qed
qed

end
