(* ===== verification/FlexibleProperties.thy ===== *)
theory FlexibleProperties
  imports FlexibleHistory
begin

text \<open>
  Snapshots, attributes and histories of calls of \<open>FlexibleMemory\<close>, and the properties.
\<close>

section \<open>Snapshots\<close>

text \<open>The parts found so far stand for the span up to \<open>cur\<close>.\<close>

definition snapshot_of :: "FlexibleBlock list \<Rightarrow> nat \<Rightarrow> nat \<Rightarrow> FlexibleBlock list \<Rightarrow> bool" where
  "snapshot_of bs lo hi qs \<longleftrightarrow>
     qs \<noteq> [] \<and> view_wf flex_view qs \<and> view_unshared flex_view qs \<and>
     (\<forall>q \<in> set qs. \<exists>b \<in> set bs. view_inside flex_view b [q]) \<and> (\<forall>q \<in> set qs. lo \<le> fb_map_vaddr q) \<and>
     (\<forall>a. view_map flex_view qs a = (if lo \<le> a \<and> a < hi then view_map flex_view bs a else None)) \<and>
     (\<forall>a. lo \<le> a \<longrightarrow> a < hi \<longrightarrow> view_map flex_view bs a \<noteq> None)"

lemma snapshot_of_later:
  assumes "snapshot_of bs lo hi qs" "\<And>a. lo \<le> a \<Longrightarrow> view_map flex_view (b # bs) a = view_map flex_view bs a"
  shows "snapshot_of (b # bs) lo hi qs"
  using assms unfolding snapshot_of_def by (simp del: view_map.simps)

text \<open>A snapshot of the blocks behind a block, and the part of that block in front of it.\<close>

lemma snapshot_cons:
  assumes wf: "view_wf flex_view (b # bs)" and un: "view_unshared flex_view (b # bs)"
    and cur: "fb_map_vaddr b \<le> cur" "cur < fb_map_vaddr b + fb_map_size b"
    and fin: "fb_map_vaddr b + fb_map_size b < fin"
    and qs: "snapshot_of bs (fb_map_vaddr b + fb_map_size b) fin qs"
  shows "snapshot_of (b # bs) cur fin (fb_part b cur (fb_map_vaddr b + fb_map_size b) # qs)"
proof -
  let ?e = "fb_map_vaddr b + fb_map_size b" and ?part = "fb_part b cur (fb_map_vaddr b + fb_map_size b)"
  have ok: "view_ok flex_view b" using wf by simp
  have pin: "view_inside flex_view b [?part]" using fb.part_within [OF ok _ cur(2)] cur(1) by simp
  have pmap: "view_holds flex_view ?part a \<longleftrightarrow> cur \<le> a \<and> a < ?e"
    "cur \<le> a \<Longrightarrow> view_byte flex_view ?part a = view_byte flex_view b a" for a
    using fb.part_ok(2,3) [OF ok _ cur(2), of a] cur(1) by simp_all
  have q: "view_wf flex_view qs" "view_unshared flex_view qs"
    "\<forall>q \<in> set qs. \<exists>c \<in> set bs. view_inside flex_view c [q]" "\<forall>q \<in> set qs. ?e \<le> fb_map_vaddr q"
    "\<And>a. view_map flex_view qs a = (if ?e \<le> a \<and> a < fin then view_map flex_view bs a else None)"
    "\<And>a. ?e \<le> a \<Longrightarrow> a < fin \<Longrightarrow> view_map flex_view bs a \<noteq> None"
    using qs by (auto simp: snapshot_of_def)
  have "back_apart flex_view ?part q \<and> view_apart flex_view ?part q" if m: "q \<in> set qs" for q
  proof -
    obtain c where c: "c \<in> set bs" "view_inside flex_view c [q]" using q(3) m by blast
    have "view_apart flex_view b c" "back_apart flex_view b c" using wf un c(1) by simp_all
    with pieces_apart [OF pin c(2), of ?part q] show ?thesis by simp
  qed
  then have "view_wf flex_view (?part # qs)" "view_unshared flex_view (?part # qs)"
    using q(1,2) pin by (simp_all add: view_inside_def)
  moreover have "view_map flex_view (?part # qs) a =
      (if cur \<le> a \<and> a < fin then view_map flex_view (b # bs) a else None)" for a
  proof (cases "cur \<le> a \<and> a < ?e")
    case True
    then have "view_holds flex_view ?part a" "view_holds flex_view b a" "a < fin"
      using pmap(1) cur(1) fin by (auto simp: view_holds_def)
    then show ?thesis using True pmap(2) [of a] by (simp only: view_map.simps if_True simp_thms)
  next
    case False
    then have "\<not> view_holds flex_view ?part a" using pmap(1) by blast
    then have v: "view_map flex_view (?part # qs) a = view_map flex_view qs a" by simp
    show ?thesis
    proof (cases "?e \<le> a")
      case True
      then have "\<not> view_holds flex_view b a" by (simp add: view_holds_def)
      then show ?thesis unfolding v q(5) using True cur(2) by simp
    next
      case below: False
      then have "\<not> cur \<le> a" using False by simp
      then show ?thesis unfolding v q(5) using below by simp
    qed
  qed
  moreover have "view_map flex_view (b # bs) a \<noteq> None" if "cur \<le> a" "a < fin" for a
    using that cur(1) q(6) [of a] by (cases "a < ?e") (simp_all add: view_holds_def)
  moreover have "\<forall>q \<in> set (?part # qs). \<exists>c \<in> set (b # bs). view_inside flex_view c [q]"
    using q(3) pin by auto
  moreover have "\<forall>q \<in> set (?part # qs). cur \<le> fb_map_vaddr q"
    using q(4) cur(2) by (auto simp: fb_part_def)
  ultimately show ?thesis
    by (simp add: snapshot_of_def del: view_map.simps view_wf_simps view_unshared_simps)
qed

lemma snapshot_loop_ok:
  assumes "flex_sorted bs" "view_wf flex_view bs" "view_unshared flex_view bs" "cur < fin"
  shows "case snapshot_loop bs cur fin out of
      None \<Rightarrow> \<exists>a. cur \<le> a \<and> a < fin \<and> view_map flex_view bs a = None
    | Some ps \<Rightarrow> \<exists>qs. ps = out @ qs \<and> snapshot_of bs cur fin qs"
  using assms
proof (induction bs arbitrary: cur out)
  case (Cons b bs)
  have ok: "view_ok flex_view b" and wf: "view_wf flex_view bs" and srt: "flex_sorted bs"
    and un: "view_unshared flex_view bs" using Cons.prems by simp_all
  let ?e = "fb_map_vaddr b + fb_map_size b"
  have bd: "0 < fb_map_size b" "?e \<le> u64_max" "fb_backing_offset b + fb_map_size b \<le> u64_max"
    using flex_ok_bounds [OF ok] by simp_all
  then have e: "add64 (fb_map_vaddr b) (fb_map_size b) = ?e" by simp
  consider "?e \<le> cur" | "cur < ?e" "cur < fb_map_vaddr b" | "cur < ?e" "fb_map_vaddr b \<le> cur" by linarith
  then show ?case
  proof cases
    case 1
    have "snapshot_loop (b # bs) cur fin out = snapshot_loop bs cur fin out" using 1 e by simp
    moreover have "view_map flex_view (b # bs) a = view_map flex_view bs a" if "cur \<le> a" for a
      using 1 that by (simp add: view_holds_def)
    moreover note Cons.IH [OF srt wf un Cons.prems(4), of out]
    ultimately show ?thesis
      by (cases "snapshot_loop bs cur fin out") (auto simp del: view_map.simps intro: snapshot_of_later)
  next
    case 2
    have "snapshot_loop (b # bs) cur fin out = None" using 2 e by simp
    moreover have "view_map flex_view (b # bs) cur = None"
      using flex_sorted_after [OF Cons.prems(1) 2(1)] 2(2) by (simp add: view_holds_def)
    ultimately show ?thesis using Cons.prems(4) by (auto simp del: view_map.simps snapshot_loop.simps)
  next
    case 3
    let ?m = "min fin ?e"
    let ?part = "fb_part b cur ?m"
    have m: "cur < ?m" "?m \<le> ?e" using 3 Cons.prems(4) by auto
    have off: "add64 (fb_backing_offset b) (sub64 cur (fb_map_vaddr b)) =
        fb_backing_offset b + (cur - fb_map_vaddr b)"
    proof -
      have "sub64 cur (fb_map_vaddr b) = cur - fb_map_vaddr b" using 3 bd(2) by (intro sub64_id) auto
      moreover have "fb_backing_offset b + (cur - fb_map_vaddr b) \<le> u64_max" using 3 bd(3) by linarith
      ultimately show ?thesis by simp
    qed
    have step: "snapshot_loop (b # bs) cur fin out =
        (if ?m = fin then Some (out @ [?part]) else snapshot_loop bs ?m fin (out @ [?part]))"
      using 3 Cons.prems(4) e off by (simp add: Let_def fb_part_def not_le)
    have pin: "view_inside flex_view b [?part]" using fb.part_within [OF ok _ m(1)] 3 m(2) by simp
    have pmap: "view_map flex_view [?part] a =
        (if cur \<le> a \<and> a < ?m then view_map flex_view (b # bs) a else None)" for a
      using fb.part_ok(2,3) [OF ok _ m(1), of a] 3 m(2) by (simp add: view_holds_def)
    show ?thesis
    proof (cases "?m = fin")
      case True
      have "view_map flex_view (b # bs) a \<noteq> None" if "cur \<le> a" "a < fin" for a
      proof -
        have "view_holds flex_view b a" using that True 3 unfolding view_holds_def flex_view_simps by linarith
        then show ?thesis by simp
      qed
      moreover have "view_wf flex_view [?part]" using pin by (simp add: view_inside_def)
      moreover have "cur \<le> fb_map_vaddr ?part" by (simp add: fb_part_def)
      ultimately have "snapshot_of (b # bs) cur fin [?part]"
        using True pin pmap by (simp add: snapshot_of_def view_inside_def)
      then show ?thesis using step True by simp
    next
      case False
      then have me: "?m = ?e" "?e < fin" by auto
      have next_map: "view_map flex_view (b # bs) a = view_map flex_view bs a" if "?e \<le> a" for a
        using that by (simp add: view_holds_def)
      note IH = Cons.IH [OF srt wf un me(2), of "out @ [?part]"]
      show ?thesis
      proof (cases "snapshot_loop bs ?e fin (out @ [?part])")
        case None
        then obtain a where "?e \<le> a" "a < fin" "view_map flex_view bs a = None" using IH by auto
        then have "cur \<le> a \<and> a < fin \<and> view_map flex_view (b # bs) a = None" using next_map 3 by simp
        then show ?thesis
          using step False None me(1) by (auto simp del: view_map.simps snapshot_loop.simps)
      next
        case (Some ps)
        then obtain qs where qs: "ps = (out @ [?part]) @ qs" "snapshot_of bs ?e fin qs"
          using IH by auto
        have "snapshot_of (b # bs) cur fin (?part # qs)"
          using snapshot_cons [OF Cons.prems(2,3) 3(2,1) me(2) qs(2)] me(1) by simp
        moreover have "snapshot_loop (b # bs) cur fin out = Some (out @ (?part # qs))"
          using step False Some qs(1) me(1) by simp
        ultimately show ?thesis by simp
      qed
    qed
  qed
qed auto

lemma FM_Snapshot_ok:
  assumes "fm_inv flexible fm" "FM_Snapshot fm vaddr sz = Some bs"
  shows "0 < sz" "vaddr + sz \<le> u64_max" "snapshot_of (fm_allocated fm) vaddr (vaddr + sz) bs"
proof -
  have g: "\<not> (sz = 0 \<or> u64_max - vaddr < sz)"
    "snapshot_loop (fm_allocated fm) vaddr (vaddr + sz) [] = Some bs"
    using assms(2) by (auto simp: FM_Snapshot_def split: if_splits)
  then show "0 < sz" "vaddr + sz \<le> u64_max" by auto
  have "flex_sorted (fm_allocated fm)" "view_wf flex_view (fm_allocated fm)"
    "view_unshared flex_view (fm_allocated fm)"
    using assms(1) by (simp_all add: fm_inv_def)
  from snapshot_loop_ok [OF this, of vaddr "vaddr + sz" "[]"] g
  show "snapshot_of (fm_allocated fm) vaddr (vaddr + sz) bs" by simp
qed

text \<open>A span that is not mapped as a whole has no snapshot.\<close>

lemma FM_Snapshot_None:
  assumes "fm_inv flexible fm" "0 < sz" "vaddr + sz \<le> u64_max"
    "\<forall>a. in_range vaddr sz a \<longrightarrow> flex_map fm a \<noteq> None"
  shows "FM_Snapshot fm vaddr sz \<noteq> None"
proof
  assume "FM_Snapshot fm vaddr sz = None"
  then have "snapshot_loop (fm_allocated fm) vaddr (vaddr + sz) [] = None"
    using assms(2,3) by (auto simp: FM_Snapshot_def split: if_splits)
  moreover have "flex_sorted (fm_allocated fm)" "view_wf flex_view (fm_allocated fm)"
    "view_unshared flex_view (fm_allocated fm)"
    using assms(1) by (simp_all add: fm_inv_def)
  note snapshot_loop_ok [OF this, of vaddr "vaddr + sz" "[]"]
  ultimately obtain a where a: "vaddr \<le> a" "a < vaddr + sz" "flex_map fm a = None"
    using assms(2) by auto
  then have "flex_map fm a \<noteq> None" using assms(4) unfolding in_range_def by blast
  with a(3) show False by contradiction
qed

section \<open>Restoring\<close>

lemma fold_add64:
  "n + mapped_bytes flex_view bs \<le> u64_max \<Longrightarrow>
   foldl (\<lambda>n b. add64 n (fb_map_size b)) n bs = n + mapped_bytes flex_view bs"
  by (induction bs arbitrary: n) (simp_all add: mapped_bytes_def add.assoc)

lemma FM_Restore_ok:
  assumes inv: "fm_inv flexible fm" and fit: "fits_in fm bs" and ne: "bs \<noteq> []"
    and sub: "view_backing flex_view bs \<subseteq> free_bytes (fm_free fm)"
  shows "(\<exists>h'. FM_Restore asp h fm bs = Ret (False, fm, h') \<and> map_all asp False h [] bs = Ret (False, h')) \<or>
    FM_Restore asp h fm bs = Exit \<and> map_all asp False h [] bs = Exit \<or>
    (\<exists>fm' h'. FM_Restore asp h fm bs = Ret (True, fm', h') \<and> fm_inv flexible fm' \<and>
      (\<forall>a. flex_map fm' a = (case flex_map fm a of None \<Rightarrow> view_map flex_view bs a | Some x \<Rightarrow> Some x)) \<and>
      free_bytes (fm_free fm') = free_bytes (fm_free fm) - view_backing flex_view bs)"
proof -
  have wf: "view_wf flex_view bs" "view_unshared flex_view bs" using fit by (simp_all add: fits_in_def)
  have fi: "free_inv (fm_free fm)" using inv by (simp add: fm_inv_def)
  have la: "list_all (view_ok flex_view) bs" using wf(1) by (simp add: view_wf_def)
  obtain m where m: "take_blocks False (fm_free fm) bs = Ret m" "free_inv m"
    "free_bytes m = free_bytes (fm_free fm) - view_backing flex_view bs"
    using take_blocks_ok [OF fi la wf(2) sub] by blast
  note ad = add_blocks_ok [OF inv fit sub m(2,3)]
  have chk: "list_all (\<lambda>b. case free_at (fm_free fm) (fb_backing_offset b) of
      None \<Rightarrow> False | Some r \<Rightarrow> free_holds r b) bs"
  proof -
    have "case free_at (fm_free fm) (fb_backing_offset b) of None \<Rightarrow> False | Some r \<Rightarrow> free_holds r b"
      if b: "b \<in> set bs" for b
    proof -
      have "{fb_backing_offset b..<fb_backing_offset b + fb_map_size b} \<subseteq> free_bytes (fm_free fm)"
        using sub b by (fastforce simp: view_backing_def)
      from free_block [OF fi view_wf_ok [OF wf(1) b] this] obtain s n where
        "free_at (fm_free fm) (fb_backing_offset b) = Some (s, n)" "free_holds (s, n) b" .
      then show ?thesis by simp
    qed
    then show ?thesis by (simp add: list_all_iff)
  qed
  let ?fm = "fm\<lparr>fm_allocated := sort_key fb_map_vaddr (fm_allocated fm @ bs), fm_free := m,
    fm_allocated_total := fm_allocated_total fm + mapped_bytes flex_view bs\<rparr>"
  have run: "FM_Restore asp h fm bs = obind (map_all asp False h [] bs)
      (\<lambda>(ok, h). if \<not> ok then Ret (False, fm, h) else Ret (True, ?fm, h))"
    using ne chk fold_add64 [OF ad(3)] by (cases "map_all asp False h [] bs")
      (simp_all add: FM_Restore_def m(1) split: prod.split)
  show ?thesis
  proof (cases "map_all asp False h [] bs")
    case (Ret r)
    obtain ok h' where r: "r = (ok, h')" by (cases r)
    have "FM_Restore asp h fm bs = (if ok then Ret (True, ?fm, h') else Ret (False, fm, h'))"
      unfolding run Ret r by simp
    then show ?thesis using Ret r ad(1,2) m(3) by (cases ok) auto
  next
    case Exit
    then show ?thesis using run by simp
  qed (use map_all_defined [of asp False h "[]" bs] in simp)
qed

section \<open>Attributes\<close>

lemma FM_Protect_ok:
  assumes inv: "fm_inv flexible fm" and sz: "0 < sz" "vaddr + sz \<le> u64_max"
  shows "fm_inv flexible (FM_Protect fm vaddr sz prot mode gpu)"
    "flex_map (FM_Protect fm vaddr sz prot mode gpu) a = map_option (\<lambda>(x, p, m, g, n).
      if in_range vaddr sz a then (x, prot, mode, gpu, n) else (x, p, m, g, n)) (flex_map fm a)"
proof -
  let ?bs = "fm_allocated fm" and ?f = "fm_protect_pieces vaddr sz prot mode gpu"
  have f: "view_wf flex_view ?bs" "view_unshared flex_view ?bs" "flex_sorted ?bs"
    using inv by (simp_all add: fm_inv_def)
  have run: "fm_allocated (FM_Protect fm vaddr sz prot mode gpu) = concat (map ?f ?bs)"
    "fm_free (FM_Protect fm vaddr sz prot mode gpu) = fm_free fm"
    "fm_allocated_total (FM_Protect fm vaddr sz prot mode gpu) = fm_allocated_total fm"
    using sz by (auto simp: FM_Protect_def)
  have ins: "view_inside flex_view b (?f b)" if "b \<in> set ?bs" for b
    using fm_protect_pieces_ok(1) [OF view_wf_ok [OF f(1) that] sz] .
  have map: "view_map flex_view (concat (map ?f ?bs)) a = Option.bind (view_map flex_view ?bs a)
      (\<lambda>(x, p, m, g, n). Some (if in_range vaddr sz a then (x, prot, mode, gpu, n) else (x, p, m, g, n)))" for a
    by (rule view_pieces_map [OF f(1) ins])
      (use fm_protect_pieces_ok(2) [OF view_wf_ok [OF f(1)] sz] in \<open>simp_all add: in_range_def view_byte_def\<close>)
  then show "flex_map (FM_Protect fm vaddr sz prot mode gpu) a = map_option (\<lambda>(x, p, m, g, n).
      if in_range vaddr sz a then (x, prot, mode, gpu, n) else (x, p, m, g, n)) (flex_map fm a)"
    unfolding run by (cases "view_map flex_view ?bs a") auto
  have wf: "view_wf flex_view (concat (map ?f ?bs))" using view_pieces_wf(1) [OF f(1) ins] .
  have un: "view_unshared flex_view (concat (map ?f ?bs))" using view_pieces_wf(2) [OF f(1) ins f(2)] .
  have srt: "flex_sorted (concat (map ?f ?bs))"
    using pieces_sorted [OF f(3,1)] ins protect_pieces_sorted [OF view_wf_ok [OF f(1)] sz] by blast
  have bk: "view_backing flex_view (concat (map ?f ?bs)) = view_backing flex_view ?bs"
  proof -
    have "(\<exists>y. view_map flex_view (concat (map ?f ?bs)) a = Some (x, y)) \<longleftrightarrow>
        (\<exists>y. view_map flex_view ?bs a = Some (x, y))" for a x
      unfolding map by (cases "view_map flex_view ?bs a") (auto split: prod.splits)
    then show ?thesis
      using view_backing_mapped [OF wf] view_backing_mapped [OF f(1)] by blast
  qed
  have none: "view_map flex_view (concat (map ?f ?bs)) a = None \<longleftrightarrow> view_map flex_view ?bs a = None" for a
    unfolding map by (cases "view_map flex_view ?bs a") auto
  then have "span_mapped flex_view (concat (map ?f ?bs)) 0 (Suc u64_max) = span_mapped flex_view ?bs 0 (Suc u64_max)"
    unfolding span_mapped_def by (simp only: none)
  then have "mapped_bytes flex_view (concat (map ?f ?bs)) = mapped_bytes flex_view ?bs"
    using mapped_bytes_span [OF wf] mapped_bytes_span [OF f(1)] by simp
  then show "fm_inv flexible (FM_Protect fm vaddr sz prot mode gpu)"
    using inv wf un srt unfolding fm_inv_def run bk by simp
qed

text \<open>Naming changes nothing but the names of the blocks that meet the span.\<close>

lemma renamed_blocks:
  assumes "\<And>b. fb_map_vaddr (f b) = fb_map_vaddr b \<and> fb_map_size (f b) = fb_map_size b \<and>
    fb_backing_offset (f b) = fb_backing_offset b"
  shows "view_wf flex_view (map f bs) = view_wf flex_view bs"
    "view_unshared flex_view (map f bs) = view_unshared flex_view bs"
    "flex_sorted (map f bs) = flex_sorted bs"
    "view_backing flex_view (map f bs) = view_backing flex_view bs"
    "mapped_bytes flex_view (map f bs) = mapped_bytes flex_view bs"
    "map_option fst (view_map flex_view (map f bs) a) = map_option fst (view_map flex_view bs a)"
  using assms
  by (induction bs) (auto simp: view_ok_def view_apart_def back_apart_def mapped_bytes_def
      view_holds_def view_byte_def)

lemma FM_SetVirtualRangeName_ok:
  assumes "fm_inv flexible fm"
  shows "fm_inv flexible (FM_SetVirtualRangeName fm vaddr len name)"
    "map_option fst (flex_map (FM_SetVirtualRangeName fm vaddr len name) a) = map_option fst (flex_map fm a)"
proof -
  let ?f = "\<lambda>b. if VirtualRangesOverlap vaddr len (fb_map_vaddr b) (fb_map_size b)
    then b\<lparr>fb_name := CopyVirtualRangeName name\<rparr> else b"
  have "fb_map_vaddr (?f b) = fb_map_vaddr b \<and> fb_map_size (?f b) = fb_map_size b \<and>
    fb_backing_offset (?f b) = fb_backing_offset b" for b by simp
  note r = renamed_blocks [of ?f, OF this]
  have run: "fm_allocated (FM_SetVirtualRangeName fm vaddr len name) = map ?f (fm_allocated fm)"
    "fm_free (FM_SetVirtualRangeName fm vaddr len name) = fm_free fm"
    "fm_allocated_total (FM_SetVirtualRangeName fm vaddr len name) = fm_allocated_total fm"
    by (simp_all add: FM_SetVirtualRangeName_def)
  show "fm_inv flexible (FM_SetVirtualRangeName fm vaddr len name)"
    using assms unfolding fm_inv_def run r .
  show "map_option fst (flex_map (FM_SetVirtualRangeName fm vaddr len name) a) = map_option fst (flex_map fm a)"
    unfolding run by (rule r(6))
qed

end
