(* ===== verification/FlexibleReach.thy ===== *)
theory FlexibleReach
  imports FlexibleProperties
begin

text \<open>
  Histories of calls of \<open>FlexibleMemory\<close>, on an address space that answers as it likes, and
  what holds after any of them.
\<close>

section \<open>Histories\<close>

text \<open>
  The callers reserve the addresses they map, so a span given to \<open>Map\<close> or \<open>Restore\<close> is not
  mapped, and they restore what a snapshot holds after it was unmapped.
\<close>

inductive fm_reach :: "nat \<Rightarrow> 'h address_space \<Rightarrow> flexible_memory \<Rightarrow> bool"
  for flexible :: nat and asp :: "'h address_space" where
  fm_start: "FM_new flexible = Ret fm \<Longrightarrow> fm_reach flexible asp fm"
| fm_map: "fm_reach flexible asp fm \<Longrightarrow> vaddr + len \<le> u64_max \<Longrightarrow>
    \<forall>a. in_range vaddr len a \<longrightarrow> flex_map fm a = None \<Longrightarrow>
    FM_Map flexible asp h fm vaddr len prot mode gpu name = Ret (r, fm', h') \<Longrightarrow> fm_reach flexible asp fm'"
| fm_unmap: "fm_reach flexible asp fm \<Longrightarrow>
    FM_Unmap asp h fm vaddr sz = Ret (r, g, fm', h') \<Longrightarrow> fm_reach flexible asp fm'"
| fm_restore: "fm_reach flexible asp fm \<Longrightarrow> fits_in fm bs \<Longrightarrow>
    view_backing flex_view bs \<subseteq> free_bytes (fm_free fm) \<Longrightarrow>
    FM_Restore asp h fm bs = Ret (r, fm', h') \<Longrightarrow> fm_reach flexible asp fm'"
| fm_protect: "fm_reach flexible asp fm \<Longrightarrow> fm_reach flexible asp (FM_Protect fm vaddr sz prot mode gpu)"
| fm_rename: "fm_reach flexible asp fm \<Longrightarrow> fm_reach flexible asp (FM_SetVirtualRangeName fm vaddr len name)"

lemma fm_reach_inv:
  assumes "fm_reach flexible asp fm" "0 < flexible" "flexible < PM_TotalSize"
  shows "fm_inv flexible fm"
  using assms(1)
proof induction
  case (fm_start fm)
  then show ?case using FM_new_ok [OF assms(2,3)] by auto
next
  case (fm_map fm vaddr len h prot mode gpu name r fm' h')
  from FM_Map_ok [OF fm_map.IH fm_map.hyps(2,3), of asp h prot mode gpu name] fm_map.hyps(4) fm_map.IH
  show ?case by auto
next
  case (fm_unmap fm h vaddr sz r g fm' h')
  from FM_Unmap_ok [OF fm_unmap.IH, of asp h vaddr sz] fm_unmap.hyps(2) fm_unmap.IH show ?case by auto
next
  case (fm_restore fm bs h r fm' h')
  show ?case
  proof (cases "bs = []")
    case True
    then show ?thesis using fm_restore.hyps(4) fm_restore.IH by (simp add: FM_Restore_def)
  next
    case False
    from FM_Restore_ok [OF fm_restore.IH fm_restore.hyps(2) False fm_restore.hyps(3), of asp h]
      fm_restore.hyps(4) fm_restore.IH show ?thesis by auto
  qed
next
  case (fm_protect fm vaddr sz prot mode gpu)
  show ?case
  proof (cases "sz = 0 \<or> u64_max - vaddr < sz")
    case False
    then have "0 < sz" "vaddr + sz \<le> u64_max" by auto
    from FM_Protect_ok(1) [OF fm_protect.IH this] show ?thesis .
  qed (use fm_protect.IH in \<open>simp add: FM_Protect_def\<close>)
next
  case (fm_rename fm vaddr len name)
  then show ?case using FM_SetVirtualRangeName_ok(1) by blast
qed

section \<open>Properties\<close>

text \<open>
  After any history of calls of the flexible memory, whatever the address space answers,
  two guest bytes never share a backing byte, the backing bytes of the guest and the free ones
  share out the region behind the direct memory, and \<open>Available\<close> is the number of free bytes,
  the configured size less the bytes that are mapped.
\<close>

theorem flexible_memory_accounts:
  assumes "fm_reach flexible asp fm" "0 < flexible" "flexible < PM_TotalSize"
  shows "(\<forall>a a' x y y'. flex_map fm a = Some (x, y) \<longrightarrow> flex_map fm a' = Some (x, y') \<longrightarrow> a = a') \<and>
    free_bytes (fm_free fm) =
      flex_backing flexible - {x. \<exists>a y. flex_map fm a = Some (x, y)} \<and>
    {x. \<exists>a y. flex_map fm a = Some (x, y)} \<subseteq> flex_backing flexible \<and>
    FM_Available flexible fm = card (free_bytes (fm_free fm)) \<and>
    FM_Available flexible fm + card {a. flex_map fm a \<noteq> None} = flexible"
proof -
  have inv: "fm_inv flexible fm" using fm_reach_inv [OF assms] .
  then have f: "view_wf flex_view (fm_allocated fm)" "view_unshared flex_view (fm_allocated fm)"
    "balanced (free_bytes (fm_free fm)) (view_backing flex_view (fm_allocated fm)) (flex_backing flexible)"
    "fm_allocated_total fm = mapped_bytes flex_view (fm_allocated fm)"
    by (simp_all add: fm_inv_def)
  have b: "view_backing flex_view (fm_allocated fm) = {x. \<exists>a y. flex_map fm a = Some (x, y)}"
    using view_backing_mapped [OF f(1)] by blast
  have "a < Suc u64_max" if m: "flex_map fm a \<noteq> None" for a
  proof -
    obtain c where c: "c \<in> set (fm_allocated fm)" "view_holds flex_view c a"
      using m unfolding view_map_None by blast
    then show ?thesis using flex_ok_bounds [OF view_wf_ok [OF f(1) c(1)]] by (simp add: view_holds_def)
  qed
  then have "{a. flex_map fm a \<noteq> None} = span_mapped flex_view (fm_allocated fm) 0 (Suc u64_max)"
    unfolding span_mapped_def by blast
  then have "card {a. flex_map fm a \<noteq> None} = fm_allocated_total fm"
    using mapped_bytes_span [OF f(1)] f(4) by simp
  moreover have "\<forall>a a' x y y'. flex_map fm a = Some (x, y) \<longrightarrow> flex_map fm a' = Some (x, y') \<longrightarrow> a = a'"
    using view_unshared_inj [OF f(1,2)] by blast
  moreover have "free_bytes (fm_free fm) = flex_backing flexible - {x. \<exists>a y. flex_map fm a = Some (x, y)}"
    "{x. \<exists>a y. flex_map fm a = Some (x, y)} \<subseteq> flex_backing flexible"
    using f(3) unfolding b balanced_def by blast+
  ultimately show ?thesis using fm_inv_counts(1,3) [OF inv] by (simp only: simp_thms) simp
qed

definition willing :: "unit address_space" where
  "willing = \<lparr>ZeroBacking = \<lambda>h off n. (True, h), MapBacking = \<lambda>h v n off m. (True, h),
     UnmapBacking = \<lambda>h v n. (True, h)\<rparr>"

lemma willing_maps: "map_all willing zero h mapped bs = Ret (True, h)"
  by (cases zero; induction bs arbitrary: mapped) (simp_all add: willing_def)

lemma mapped_example:
  "\<exists>fm0 fm. FM_new 65536 = Ret fm0 \<and>
    FM_Map 65536 willing () fm0 4096 16384 3 Mode_ReadWrite Gpu_NoAccess None = Ret (True, fm, ()) \<and>
    fm_reach 65536 willing fm \<and> (\<forall>a. in_range 4096 16384 a \<longrightarrow> flex_map fm a \<noteq> None)"
proof -
  define fm0 where "fm0 = \<lparr>fm_allocated = [], fm_free = map_emplace (PM_TotalSize - 65536) 65536 [],
    fm_allocated_total = 0\<rparr>"
  have sz: "(0::nat) < 65536" "65536 < PM_TotalSize" by (simp_all add: PM_TotalSize_def)
  have new: "FM_new 65536 = Ret fm0" using sz(2) by (simp add: FM_new_def PM_Size_def fm0_def)
  then have m: "fm_reach 65536 willing fm0" by (rule fm_start)
  have none: "\<forall>a. in_range 4096 16384 a \<longrightarrow> flex_map fm0 a = None" by (simp add: fm0_def)
  have room: "4096 + 16384 \<le> u64_max" by (simp add: u64_max_def)
  from FM_Map_ok [OF fm_reach_inv [OF m sz] room none, of willing "()" 3 Mode_ReadWrite Gpu_NoAccess None]
  obtain fm where fm: "FM_Map 65536 willing () fm0 4096 16384 3 Mode_ReadWrite Gpu_NoAccess None =
      Ret (True, fm, ())" "\<forall>a. if in_range 4096 16384 a
      then \<exists>x \<in> free_bytes (fm_free fm0). flex_map fm a = Some (x, 3, Mode_ReadWrite, Gpu_NoAccess, CopyVirtualRangeName None)
      else flex_map fm a = flex_map fm0 a"
    by (auto simp: FM_Available_def fm0_def willing_maps)
  have "fm_reach 65536 willing fm" by (rule fm_map [OF m room none fm(1)])
  moreover have "flex_map fm a \<noteq> None" if "in_range 4096 16384 a" for a
    using fm(2) [rule_format, of a] that by auto
  ultimately show ?thesis using new fm(1) by blast
qed

theorem flexible_memory_accounts_witness:
  "\<exists>fm fm'. FM_new 65536 = Ret fm \<and>
    FM_Map 65536 willing () fm 4096 16384 3 Mode_ReadWrite Gpu_NoAccess None = Ret (True, fm', ()) \<and>
    FM_Available 65536 fm' + card {a. flex_map fm' a \<noteq> None} = 65536"
proof -
  have sz: "(0::nat) < 65536" "65536 < PM_TotalSize" by (simp_all add: PM_TotalSize_def)
  from mapped_example obtain fm fm' where fm: "FM_new 65536 = Ret fm"
    "FM_Map 65536 willing () fm 4096 16384 3 Mode_ReadWrite Gpu_NoAccess None = Ret (True, fm', ())"
    "fm_reach 65536 willing fm'" by blast
  from flexible_memory_accounts [OF fm(3) sz] fm(1,2) show ?thesis by blast
qed

text \<open>
  When a span is unmapped after a snapshot was taken, restoring the snapshot ends in one of
  three ways: the address space refuses to map the span and nothing changes, it then refuses to
  undo what it had mapped and the process ends, or the map, the free bytes and the bytes
  available are those at the time of the snapshot.
\<close>

theorem flexible_restore_roundtrip:
  assumes "fm_reach flexible asp fm" "0 < flexible" "flexible < PM_TotalSize"
    and "FM_Snapshot fm vaddr sz = Some bs"
    and "FM_Unmap asp h fm vaddr sz = Ret (True, g, fm1, h1)"
  shows "(\<exists>h3. FM_Restore asp h2 fm1 bs = Ret (False, fm1, h3) \<and> map_all asp False h2 [] bs = Ret (False, h3)) \<or>
    FM_Restore asp h2 fm1 bs = Exit \<and> map_all asp False h2 [] bs = Exit \<or>
    (\<exists>fm2 h3. FM_Restore asp h2 fm1 bs = Ret (True, fm2, h3) \<and> flex_map fm2 = flex_map fm \<and>
      free_bytes (fm_free fm2) = free_bytes (fm_free fm) \<and>
      FM_Available flexible fm2 = FM_Available flexible fm)"
proof -
  have inv: "fm_inv flexible fm" using fm_reach_inv [OF assms(1-3)] .
  then have f: "view_wf flex_view (fm_allocated fm)" "view_unshared flex_view (fm_allocated fm)"
    "free_bytes (fm_free fm) \<inter> view_backing flex_view (fm_allocated fm) = {}"
    by (simp_all add: fm_inv_def balanced_def)
  note sn = FM_Snapshot_ok [OF inv assms(4)]
  have s: "bs \<noteq> []" "view_wf flex_view bs" "view_unshared flex_view bs"
    "\<And>a. view_map flex_view bs a = (if in_range vaddr sz a then flex_map fm a else None)"
    using sn(3) by (auto simp: snapshot_of_def in_range_def)
  have u: "fm_inv flexible fm1" "\<And>a. flex_map fm1 a = (if in_range vaddr sz a then None else flex_map fm a)"
    "free_bytes (fm_free fm1) = free_bytes (fm_free fm) \<union>
      span_backing flex_view (fm_allocated fm) vaddr (vaddr + sz)"
    using FM_Unmap_ok [OF inv, of asp h vaddr sz] assms(5) by auto
  have m: "view_map flex_view bs a = Some (x, y) \<longleftrightarrow> (vaddr \<le> a \<and> a < vaddr + sz) \<and> flex_map fm a = Some (x, y)"
    for a x y by (auto simp: s(4) in_range_def)
  have bk: "view_backing flex_view bs = span_backing flex_view (fm_allocated fm) vaddr (vaddr + sz)"
    using view_backing_mapped [OF s(2)] unfolding m span_backing_def by blast
  have used: "view_backing flex_view bs \<subseteq> view_backing flex_view (fm_allocated fm)"
  proof
    fix x assume "x \<in> view_backing flex_view bs"
    then obtain a y where "flex_map fm a = Some (x, y)" unfolding bk span_backing_def by blast
    then show "x \<in> view_backing flex_view (fm_allocated fm)" using view_backing_mapped [OF f(1)] by blast
  qed
  have fit: "fits_in fm1 bs" using s(2,3,4) u(2) unfolding fits_in_def by (simp split: if_splits)
  have sub: "view_backing flex_view bs \<subseteq> free_bytes (fm_free fm1)" using u(3) bk by simp
  have same: "flex_map fm2 = flex_map fm \<and> free_bytes (fm_free fm2) = free_bytes (fm_free fm) \<and>
      FM_Available flexible fm2 = FM_Available flexible fm"
    if r: "fm_inv flexible fm2"
      "\<forall>a. flex_map fm2 a = (case flex_map fm1 a of None \<Rightarrow> view_map flex_view bs a | Some x \<Rightarrow> Some x)"
      "free_bytes (fm_free fm2) = free_bytes (fm_free fm1) - view_backing flex_view bs" for fm2
  proof -
    have "flex_map fm2 a = flex_map fm a" for a
      using r(2) u(2) s(4) by (auto split: option.split)
    moreover have fb: "free_bytes (fm_free fm2) = free_bytes (fm_free fm)"
      unfolding r(3) u(3) bk [symmetric] using used f(3) by blast
    ultimately show ?thesis using fm_inv_counts(3) [OF r(1)] fm_inv_counts(3) [OF inv] by auto
  qed
  from FM_Restore_ok [OF u(1) fit s(1) sub, of asp h2] show ?thesis
  proof (elim disjE exE conjE)
    fix fm2 h3 assume r: "FM_Restore asp h2 fm1 bs = Ret (True, fm2, h3)" "fm_inv flexible fm2"
      "\<forall>a. flex_map fm2 a = (case flex_map fm1 a of None \<Rightarrow> view_map flex_view bs a | Some x \<Rightarrow> Some x)"
      "free_bytes (fm_free fm2) = free_bytes (fm_free fm1) - view_backing flex_view bs"
    from same [OF r(2-4)] r(1) show ?thesis by blast
  qed auto
qed

theorem flexible_restore_roundtrip_witness:
  "\<exists>fm bs g fm1 fm2. FM_Snapshot fm 4096 16384 = Some bs \<and> flex_map fm 4096 \<noteq> None \<and>
    FM_Unmap willing () fm 4096 16384 = Ret (True, g, fm1, ()) \<and>
    FM_Restore willing () fm1 bs = Ret (True, fm2, ()) \<and> flex_map fm2 = flex_map fm"
proof -
  have sz: "(0::nat) < 65536" "65536 < PM_TotalSize" and n: "(0::nat) < 16384" "4096 + 16384 \<le> u64_max"
    by (simp_all add: PM_TotalSize_def u64_max_def)
  from mapped_example obtain fm where fm: "fm_reach 65536 willing fm"
    "\<forall>a. in_range 4096 16384 a \<longrightarrow> flex_map fm a \<noteq> None" by blast
  have inv: "fm_inv 65536 fm" using fm_reach_inv [OF fm(1) sz] .
  obtain bs where bs: "FM_Snapshot fm 4096 16384 = Some bs"
    using FM_Snapshot_None [OF inv n fm(2)] by blast
  have "\<nexists>a. in_range 4096 16384 a \<and> flex_map fm a = None" using fm(2) by simp
  then obtain g fm1 where un: "FM_Unmap willing () fm 4096 16384 = Ret (True, g, fm1, ())"
    using FM_Unmap_ok [OF inv, of willing "()" 4096 16384] n(2) by (auto simp: willing_def)
  from flexible_restore_roundtrip [OF fm(1) sz bs un, of "()"] obtain fm2 where
    "FM_Restore willing () fm1 bs = Ret (True, fm2, ())" "flex_map fm2 = flex_map fm"
    by (auto simp: willing_maps)
  moreover have "flex_map fm 4096 \<noteq> None" using fm(2) by (simp add: in_range_def)
  ultimately show ?thesis using bs un by blast
qed

text \<open>
  The check of \<open>Restore\<close> alone would not do: the difference it forms wraps around for a block
  that begins behind the free range found for it.
\<close>

lemma restore_check_wraps:
  "free_at [(100, 10)] 200 = Some (100, 10) \<and>
   (fb_backing_offset b = 200 \<longrightarrow> fb_map_size b = 5 \<longrightarrow> free_holds (100, 10) b)"
  by (auto simp: free_at_def upper_split_def free_holds_def sub64_def add64_def)

end
