(* ===== verification/PooledMemory.thy ===== *)
theory PooledMemory
  imports BlockViews
begin

text \<open>
  The class \<open>PooledMemory\<close> of \<open>src/kernel/memory.cpp\<close>: physical ranges a guest has given to the
  memory pool, the part of them that is free, and the mappings made from it. A \<open>PhysicalRange\<close>
  is the pair of its start and its size. The mutex makes every operation one step.
\<close>

record PooledMapping =
  pg_vaddr :: nat
  pg_size :: nat
  pg_phys_addr :: nat
  pg_gpu_mode :: GpuAccessMode

record pooled_memory =
  po_free :: "(nat \<times> nat) list"
  po_expansions :: "(nat \<times> nat) list"
  po_mappings :: "PooledMapping list"

definition PO_new :: pooled_memory where
  "PO_new = \<lparr>po_free = [], po_expansions = [], po_mappings = []\<rparr>"

section \<open>The free ranges\<close>

definition merge_free :: "(nat \<times> nat) list \<Rightarrow> nat \<times> nat \<Rightarrow> (nat \<times> nat) list" where
  "merge_free merged r =
     (if merged \<noteq> [] \<and> fst r \<le> add64 (fst (last merged)) (snd (last merged)) then
        let fin = max (add64 (fst (last merged)) (snd (last merged))) (add64 (fst r) (snd r)) in
        butlast merged @ [(fst (last merged), sub64 fin (fst (last merged)))]
      else merged @ [r])"

definition AddFreeUnlocked :: "(nat \<times> nat) list \<Rightarrow> nat \<Rightarrow> nat \<Rightarrow> (nat \<times> nat) list" where
  "AddFreeUnlocked free start sz =
     (if sz = 0 then free else foldl merge_free [] (sort_key fst (free @ [(start, sz)])))"

definition PO_Expand :: "pooled_memory \<Rightarrow> nat \<Rightarrow> nat \<Rightarrow> pooled_memory" where
  "PO_Expand po phys_addr sz =
     po\<lparr>po_expansions := po_expansions po @ [(phys_addr, sz)],
        po_free := AddFreeUnlocked (po_free po) phys_addr sz\<rparr>"

definition PO_ReleaseExpansion :: "pooled_memory \<Rightarrow> nat \<Rightarrow> nat \<Rightarrow> bool \<times> pooled_memory" where
  "PO_ReleaseExpansion po phys_addr sz =
     (case find_index (\<lambda>r. fst r = phys_addr \<and> snd r = sz) (po_expansions po) of
        None \<Rightarrow> (False, po)
      | Some expansion \<Rightarrow>
          if \<exists>m \<in> set (po_mappings po). VirtualRangesOverlap phys_addr sz (pg_phys_addr m) (pg_size m)
          then (False, po)
          else
            let fin = add64 phys_addr sz in
            case find_index (\<lambda>r. phys_addr \<ge> fst r \<and> fin \<le> add64 (fst r) (snd r)) (po_free po) of
              None \<Rightarrow> (False, po)
            | Some i \<Rightarrow>
                let old = po_free po ! i;
                    old_end = add64 (fst old) (snd old);
                    left_size = sub64 phys_addr (fst old);
                    right_size = sub64 old_end fin;
                    free = erase_at i (po_free po);
                    free = (if left_size \<noteq> 0 then free @ [(fst old, left_size)] else free);
                    free = (if right_size \<noteq> 0 then free @ [(fin, right_size)] else free) in
                (True, po\<lparr>po_free := sort_key fst free,
                          po_expansions := erase_at expansion (po_expansions po)\<rparr>))"

section \<open>Mappings\<close>

text \<open>The loop of \<open>Allocate\<close>: the new mappings, the ranges as it leaves them, and what is missing.\<close>

fun take_free :: "GpuAccessMode \<Rightarrow> (nat \<times> nat) list \<Rightarrow> nat \<Rightarrow> nat \<Rightarrow>
    PooledMapping list \<times> (nat \<times> nat) list \<times> nat" where
  "take_free gpu_mode [] current remaining = ([], [], remaining)"
| "take_free gpu_mode ((start, sz) # rs) current remaining =
     (if remaining = 0 \<or> sz = 0 then
        let (ms, rest, remaining) = take_free gpu_mode rs current remaining in
        (ms, (start, sz) # rest, remaining)
      else
        let part_size = min sz remaining;
            m = \<lparr>pg_vaddr = current, pg_size = part_size, pg_phys_addr = start, pg_gpu_mode = gpu_mode\<rparr>;
            (ms, rest, remaining) =
              take_free gpu_mode rs (add64 current part_size) (remaining - part_size) in
        (m # ms, (add64 start part_size, sz - part_size) # rest, remaining))"

definition PO_Allocate :: "pooled_memory \<Rightarrow> nat \<Rightarrow> nat \<Rightarrow> GpuAccessMode \<Rightarrow>
    PooledMapping list option \<times> pooled_memory" where
  "PO_Allocate po vaddr sz gpu_mode =
     (if vaddr = 0 \<or> sz = 0 \<or> u64_max - vaddr < sz then (None, po)
      else
        let (ms, free, remaining) = take_free gpu_mode (po_free po) vaddr sz in
        if remaining \<noteq> 0 then (None, po)
        else (Some ms, po\<lparr>po_free := filter (\<lambda>r. snd r \<noteq> 0) free,
                          po_mappings := po_mappings po @ ms\<rparr>))"

definition pool_at :: "PooledMapping list \<Rightarrow> nat \<Rightarrow> PooledMapping option" where
  "pool_at ms current = find (\<lambda>m. current \<ge> pg_vaddr m \<and> current < add64 (pg_vaddr m) (pg_size m)) ms"

function pool_walk :: "PooledMapping list \<Rightarrow> nat \<Rightarrow> nat \<Rightarrow> PooledMapping list \<Rightarrow>
    PooledMapping list option" where
  "pool_walk ms current fin out =
     (if current < fin then
        (case pool_at ms current of
           None \<Rightarrow> None
         | Some m \<Rightarrow>
             let part_size = min fin (add64 (pg_vaddr m) (pg_size m)) - current in
             pool_walk ms (current + part_size) fin
               (out @ [\<lparr>pg_vaddr = current, pg_size = part_size,
                  pg_phys_addr = add64 (pg_phys_addr m) (sub64 current (pg_vaddr m)),
                  pg_gpu_mode = pg_gpu_mode m\<rparr>]))
      else Some out)"
  by pat_completeness auto

termination
  by (relation "measure (\<lambda>(ms, current, fin, out). fin - current)") (auto simp: pool_at_def find_Some_iff)

declare pool_walk.simps [simp del]

definition QueryUnlocked :: "PooledMapping list \<Rightarrow> nat \<Rightarrow> nat \<Rightarrow> PooledMapping list option" where
  "QueryUnlocked ms vaddr sz =
     (if vaddr = 0 \<or> sz = 0 \<or> u64_max - vaddr < sz then None
      else pool_walk ms vaddr (vaddr + sz) [])"

definition PO_Query :: "pooled_memory \<Rightarrow> nat \<Rightarrow> nat \<Rightarrow> PooledMapping list option" where
  "PO_Query po vaddr sz = QueryUnlocked (po_mappings po) vaddr sz"

definition keep_pieces :: "nat \<Rightarrow> nat \<Rightarrow> PooledMapping \<Rightarrow> PooledMapping list" where
  "keep_pieces vaddr sz m =
     (let mapping_end = add64 (pg_vaddr m) (pg_size m);
          cut_start = max vaddr (pg_vaddr m);
          cut_end = min (vaddr + sz) mapping_end in
      if cut_start \<ge> cut_end then [m]
      else
        (if pg_vaddr m < cut_start then [m\<lparr>pg_size := cut_start - pg_vaddr m\<rparr>] else []) @
        (if cut_end < mapping_end
         then [m\<lparr>pg_vaddr := cut_end, pg_size := mapping_end - cut_end,
                 pg_phys_addr := add64 (pg_phys_addr m) (sub64 cut_end (pg_vaddr m))\<rparr>]
         else []))"

definition PO_Release :: "pooled_memory \<Rightarrow> nat \<Rightarrow> nat \<Rightarrow> GpuAccessMode option \<times> pooled_memory" where
  "PO_Release po vaddr sz =
     (case QueryUnlocked (po_mappings po) vaddr sz of
        None \<Rightarrow> (None, po)
      | Some released \<Rightarrow>
          (Some (pg_gpu_mode (hd released)),
           po\<lparr>po_mappings := concat (map (keep_pieces vaddr sz) (po_mappings po)),
              po_free := foldl (\<lambda>free m. AddFreeUnlocked free (pg_phys_addr m) (pg_size m))
                (po_free po) released\<rparr>))"

definition PO_Available :: "pooled_memory \<Rightarrow> nat" where
  "PO_Available po = foldl (\<lambda>available r. add64 available (snd r)) 0 (po_free po)"

definition PO_GetMappings :: "pooled_memory \<Rightarrow> PooledMapping list" where
  "PO_GetMappings po = po_mappings po"

end
