(* ===== verification/PooledOps.thy ===== *)
theory PooledOps
  imports PooledMemory
begin

text \<open>
  What the operations of \<open>PooledMemory\<close> do to the free bytes of the pool and to the map from
  guest addresses to physical bytes.
\<close>

section \<open>The free ranges\<close>

lemma merge_free_ok:
  assumes "free_inv m" "0 < n" "s + n \<le> u64_max" "\<forall>p \<in> set m. fst p \<le> s"
  shows "free_inv (merge_free m (s, n)) \<and> free_bytes (merge_free m (s, n)) = free_bytes m \<union> {s..<s + n} \<and>
    (\<forall>p \<in> set (merge_free m (s, n)). fst p \<le> s)"
proof (cases "m = []")
  case True
  then show ?thesis using assms(2,3) by (simp add: merge_free_def)
next
  case False
  define pre l k where "pre = butlast m" and "l = fst (last m)" and "k = snd (last m)"
  have m: "m = pre @ [(l, k)]" using False by (simp add: pre_def l_def k_def)
  have i: "free_inv pre" "0 < k" "l + k \<le> u64_max" "\<forall>p \<in> set pre. fst p + snd p < l"
    using assms(1) unfolding m by auto
  have ls: "l \<le> s" using assms(4) unfolding m by simp
  show ?thesis
  proof (cases "s \<le> l + k")
    case True
    let ?f = "max (l + k) (s + n)"
    have "sub64 ?f l = ?f - l" using i(3) assms(3) by (intro sub64_id) auto
    then have e: "merge_free m (s, n) = pre @ [(l, ?f - l)]"
      using True i(3) assms(3) False unfolding merge_free_def Let_def
      by (simp add: pre_def l_def k_def)
    have "{l..<?f} = {l..<l + k} \<union> {s..<s + n}" using True ls by (auto simp: max_def)
    moreover have "l + (?f - l) = ?f" using ls by simp
    ultimately have "free_bytes (pre @ [(l, ?f - l)]) = free_bytes (pre @ [(l, k)]) \<union> {s..<s + n}"
      by (simp add: Un_assoc)
    then have "free_bytes (merge_free m (s, n)) = free_bytes m \<union> {s..<s + n}"
      unfolding e m [symmetric] .
    moreover have "free_inv (merge_free m (s, n))" unfolding e using i assms(2,3) ls by auto
    moreover have "\<forall>p \<in> set (merge_free m (s, n)). fst p \<le> s"
      unfolding e using assms(4) ls by (auto simp: m)
    ultimately show ?thesis by blast
  next
    case gap: False
    then have e: "merge_free m (s, n) = m @ [(s, n)]"
      using i(3) unfolding merge_free_def by (simp add: l_def k_def)
    have "fst p + snd p < s" if "p \<in> set m" for p
      using that i(4) ls gap unfolding m by fastforce
    then have "free_inv (m @ [(s, n)])" using assms(1-3) by simp
    then show ?thesis unfolding e using assms(4) by auto
  qed
qed

definition ranges_ok :: "(nat \<times> nat) list \<Rightarrow> bool" where
  "ranges_ok rs \<longleftrightarrow> (\<forall>(s, n) \<in> set rs. 0 < n \<and> s + n \<le> u64_max)"

lemma merge_fold_ok:
  assumes "free_inv m" "ranges_ok rs" "sorted (map fst rs)" "\<forall>p \<in> set m. \<forall>r \<in> set rs. fst p \<le> fst r"
  shows "free_inv (foldl merge_free m rs) \<and> free_bytes (foldl merge_free m rs) = free_bytes m \<union> free_bytes rs"
  using assms
proof (induction rs arbitrary: m)
  case (Cons r rs)
  obtain s n where r: "r = (s, n)" by (cases r)
  have sn: "0 < n" "s + n \<le> u64_max" "ranges_ok rs" using Cons.prems(2) by (auto simp: r ranges_ok_def)
  note mf = merge_free_ok [OF Cons.prems(1) sn(1,2)]
  have a: "free_inv (merge_free m r)" "free_bytes (merge_free m r) = free_bytes m \<union> {s..<s + n}"
    "\<forall>p \<in> set (merge_free m r). fst p \<le> s"
    using mf Cons.prems(4) by (auto simp: r)
  have "\<forall>p \<in> set (merge_free m r). \<forall>q \<in> set rs. fst p \<le> fst q"
    using a(3) Cons.prems(3) by (auto simp: r intro: le_trans)
  from Cons.IH [OF a(1) sn(3) _ this] Cons.prems(3) a(2) show ?case by (auto simp: r)
qed simp

lemma free_bytes_set: "set m = set m' \<Longrightarrow> free_bytes m = free_bytes m'"
  by (simp add: free_bytes_def)

lemma AddFreeUnlocked_ok:
  assumes "free_inv free" "0 < k" "a + k \<le> u64_max"
  shows "free_inv (AddFreeUnlocked free a k) \<and> free_bytes (AddFreeUnlocked free a k) = free_bytes free \<union> {a..<a + k}"
proof -
  let ?xs = "sort_key fst (free @ [(a, k)])"
  have "ranges_ok ?xs" using assms by (auto simp: ranges_ok_def free_inv_def)
  from merge_fold_ok [of "[]", OF _ this] have "free_inv (foldl merge_free [] ?xs) \<and>
      free_bytes (foldl merge_free [] ?xs) = free_bytes ?xs" by simp
  moreover have "free_bytes ?xs = free_bytes (free @ [(a, k)])" by (rule free_bytes_set) simp
  ultimately show ?thesis using assms(2) by (simp add: AddFreeUnlocked_def)
qed

text \<open>Ranges in any order, with a gap between any two of them, are in order once sorted.\<close>

definition gap_between :: "nat \<times> nat \<Rightarrow> nat \<times> nat \<Rightarrow> bool" where
  "gap_between p q \<longleftrightarrow> fst p + snd p < fst q \<or> fst q + snd q < fst p"

lemma free_inv_sort:
  assumes "ranges_ok rs" "sorted_wrt gap_between rs"
  shows "free_inv (sort_key fst rs) \<and> free_bytes (sort_key fst rs) = free_bytes rs"
proof -
  let ?s = "sort_key fst rs"
  have g: "sorted_wrt gap_between ?s"
    by (rule sorted_wrt_mset [OF _ _ assms(2)]) (auto simp: gap_between_def)
  have o: "ranges_ok ?s" using assms(1) by (simp add: ranges_ok_def)
  have "free_inv xs" if "sorted_wrt gap_between xs" "ranges_ok xs" "sorted (map fst xs)" for xs
    using that
  proof (induction xs)
    case (Cons x xs)
    have "fst x + snd x < fst q" if "q \<in> set xs" for q
      using Cons.prems(1,3) that by (force simp: gap_between_def)
    with Cons show ?case by (cases x) (auto simp: ranges_ok_def)
  qed simp
  from this [OF g o] show ?thesis using free_bytes_set [of ?s rs] by simp
qed

lemma gap_between_free: "free_inv m \<Longrightarrow> sorted_wrt gap_between m"
  unfolding free_inv_def gap_between_def by (auto elim!: sorted_wrt_mono_rel [rotated])

section \<open>Mappings\<close>

definition pool_view :: "(PooledMapping, GpuAccessMode) block_view" where
  "pool_view = \<lparr>bv_start = pg_vaddr, bv_size = pg_size, bv_off = pg_phys_addr, bv_attr = pg_gpu_mode\<rparr>"

lemma pool_view_simps [simp]:
  "bv_start pool_view = pg_vaddr" "bv_size pool_view = pg_size" "bv_off pool_view = pg_phys_addr"
  "bv_attr pool_view = pg_gpu_mode"
  by (simp_all add: pool_view_def)

definition pg_part :: "PooledMapping \<Rightarrow> nat \<Rightarrow> nat \<Rightarrow> PooledMapping" where
  "pg_part m x y = m\<lparr>pg_vaddr := x, pg_size := y - x, pg_phys_addr := pg_phys_addr m + (x - pg_vaddr m)\<rparr>"

interpretation pg: block_cut pool_view pg_part
  by unfold_locales (simp_all add: pg_part_def)

lemma pool_ok_bounds:
  "view_ok pool_view m \<Longrightarrow> 0 < pg_size m \<and> pg_vaddr m + pg_size m \<le> u64_max \<and>
     pg_phys_addr m + pg_size m \<le> u64_max"
  by (simp add: view_ok_def)

text \<open>The address of a part, computed as the code does.\<close>

lemma pool_part_phys:
  assumes "view_ok pool_view m" "pg_vaddr m \<le> x" "x \<le> pg_vaddr m + pg_size m"
  shows "add64 (pg_phys_addr m) (sub64 x (pg_vaddr m)) = pg_phys_addr m + (x - pg_vaddr m)"
proof -
  note b = pool_ok_bounds [OF assms(1)]
  have "sub64 x (pg_vaddr m) = x - pg_vaddr m" using assms(2,3) b by (intro sub64_id) auto
  moreover have "pg_phys_addr m + (x - pg_vaddr m) \<le> u64_max" using assms(3) b by linarith
  ultimately show ?thesis by simp
qed

lemma keep_pieces_ok:
  assumes "view_ok pool_view m"
  shows "view_inside pool_view m (keep_pieces vaddr sz m)"
    and "view_holds pool_view m a \<Longrightarrow> view_map pool_view (keep_pieces vaddr sz m) a =
      (if in_range vaddr sz a then None else Some (view_byte pool_view m a))"
proof -
  let ?lo = "max vaddr (pg_vaddr m)" and ?hi = "min (vaddr + sz) (pg_vaddr m + pg_size m)"
  note b = pool_ok_bounds [OF assms]
  have e: "add64 (pg_vaddr m) (pg_size m) = pg_vaddr m + pg_size m" using b by simp
  have "view_inside pool_view m (keep_pieces vaddr sz m) \<and> (view_holds pool_view m a \<longrightarrow>
      view_map pool_view (keep_pieces vaddr sz m) a =
      (if in_range vaddr sz a then None else Some (view_byte pool_view m a)))"
  proof (cases "?lo < ?hi")
    case True
    have l: "m\<lparr>pg_size := x - pg_vaddr m\<rparr> = pg_part m (pg_vaddr m) x" for x
      by (cases m) (simp add: pg_part_def)
    have ph: "add64 (pg_phys_addr m) (sub64 ?hi (pg_vaddr m)) = pg_phys_addr m + (?hi - pg_vaddr m)"
      using True by (intro pool_part_phys [OF assms]) auto
    have ps: "keep_pieces vaddr sz m =
        (if pg_vaddr m < ?lo then [pg_part m (pg_vaddr m) ?lo] else []) @
        (if ?hi < pg_vaddr m + pg_size m then [pg_part m ?hi (pg_vaddr m + pg_size m)] else [])"
    proof -
      have "\<not> ?lo \<ge> ?hi" using True by linarith
      then show ?thesis unfolding keep_pieces_def e Let_def l ph by (simp only: if_False) (simp add: pg_part_def)
    qed
    have "(?lo \<le> a \<and> a < ?hi) = in_range vaddr sz a" if "view_holds pool_view m a"
      using that by (auto simp: view_holds_def in_range_def)
    with pg.outer_parts(1) [OF assms, of ?lo ?hi] pg.outer_parts(2) [OF assms, of ?lo ?hi a] True
    show ?thesis unfolding ps pool_view_simps by simp
  next
    case False
    then have "?lo \<ge> ?hi" by linarith
    then have "keep_pieces vaddr sz m = [m]" unfolding keep_pieces_def e Let_def by (simp only: if_True)
    moreover have "\<not> in_range vaddr sz a" if "view_holds pool_view m a"
      using that False by (auto simp: view_holds_def in_range_def)
    moreover have "view_inside pool_view m [m]" using assms by (simp add: view_inside_def)
    ultimately show ?thesis by auto
  qed
  then show "view_inside pool_view m (keep_pieces vaddr sz m)"
    "view_holds pool_view m a \<Longrightarrow> view_map pool_view (keep_pieces vaddr sz m) a =
      (if in_range vaddr sz a then None else Some (view_byte pool_view m a))" by blast+
qed

section \<open>The loop of Allocate\<close>

lemma take_free_none: "take_free gpu rs cur 0 = ([], rs, 0)"
  by (induction rs arbitrary: cur) auto

lemma take_free_chunks:
  assumes "free_inv rs" "cur + want \<le> u64_max" "take_free gpu rs cur want = (ms, rest, left)"
  shows "chunks (\<lambda>c k off. \<lparr>pg_vaddr = c, pg_size = k, pg_phys_addr = off, pg_gpu_mode = gpu\<rparr>) rs cur want =
    (ms, left)"
  using assms
proof (induction rs arbitrary: cur want ms rest)
  case (Cons r rs)
  obtain s n where r: "r = (s, n)" by (cases r)
  have n: "0 < n" "free_inv rs" using Cons.prems(1) by (simp_all add: r)
  show ?case
  proof (cases "want = 0")
    case True
    then show ?thesis using Cons.prems(3) take_free_none [of gpu "r # rs" cur] by (auto simp: r)
  next
    case False
    have c: "add64 cur (min n want) = cur + min want n"
      using Cons.prems(2) by (subst add64_id) (auto simp: min.commute)
    obtain ms0 rest0 where t: "take_free gpu rs (cur + min want n) (want - min want n) = (ms0, rest0, left)"
      "ms = \<lparr>pg_vaddr = cur, pg_size = min want n, pg_phys_addr = s, pg_gpu_mode = gpu\<rparr> # ms0"
      using Cons.prems(3) False n(1) by (auto simp: r Let_def c min.commute split: prod.splits)
    have "cur + min want n + (want - min want n) \<le> u64_max" using Cons.prems(2) by simp
    from Cons.IH [OF n(2) this t(1)] show ?thesis using False by (simp add: r Let_def t(2))
  qed
qed simp

lemma take_free_ok:
  assumes "free_inv rs" "cur + want \<le> u64_max" "take_free gpu rs cur want = (ms, rest, left)"
  shows "chunks_for pool_view rs gpu cur want ms left"
proof (rule chunks_ok [OF _ assms(1,2) take_free_chunks [OF assms]])
  show "makes_blocks pool_view (\<lambda>c k off. \<lparr>pg_vaddr = c, pg_size = k, pg_phys_addr = off, pg_gpu_mode = gpu\<rparr>) gpu"
    by (simp add: makes_blocks_def)
qed

lemma take_free_rest:
  assumes "free_inv rs" "cur + want \<le> u64_max" "take_free gpu rs cur want = (ms, rest, left)"
  shows "free_inv (filter (\<lambda>r. snd r \<noteq> 0) rest) \<and>
    free_bytes (filter (\<lambda>r. snd r \<noteq> 0) rest) = free_bytes rs - view_backing pool_view ms \<and>
    (\<forall>q \<in> set (filter (\<lambda>r. snd r \<noteq> 0) rest). \<exists>p \<in> set rs. fst p \<le> fst q)"
  using assms
proof (induction rs arbitrary: cur want ms rest)
  case (Cons r rs)
  obtain s n where r: "r = (s, n)" by (cases r)
  have n: "0 < n" "s + n \<le> u64_max" "\<forall>q \<in> set rs. s + n < fst q" "free_inv rs"
    using Cons.prems(1) by (simp_all add: r)
  show ?case
  proof (cases "want = 0")
    case True
    then have "ms = []" "rest = r # rs"
      using Cons.prems(3) take_free_none [of gpu "r # rs" cur] by auto
    moreover have "filter (\<lambda>r. snd r \<noteq> 0) (r # rs) = r # rs"
      using Cons.prems(1) by (intro filter_True) (auto simp: free_inv_def)
    ultimately show ?thesis using Cons.prems(1) by auto
  next
    case False
    let ?k = "min n want"
    have c: "add64 cur ?k = cur + ?k" "add64 s ?k = s + ?k"
      using Cons.prems(2) n(2) by (intro add64_id; auto)+
    obtain ms0 rest0 where t: "take_free gpu rs (cur + ?k) (want - ?k) = (ms0, rest0, left)"
      "ms = \<lparr>pg_vaddr = cur, pg_size = ?k, pg_phys_addr = s, pg_gpu_mode = gpu\<rparr> # ms0"
      "rest = (s + ?k, n - ?k) # rest0"
      using Cons.prems(3) False n(1) by (auto simp: r Let_def c split: prod.splits)
    have room: "cur + ?k + (want - ?k) \<le> u64_max" using Cons.prems(2) by simp
    note IH = Cons.IH [OF n(4) room t(1)]
    let ?R = "filter (\<lambda>r. snd r \<noteq> 0) rest0"
    have far: "\<forall>q \<in> set ?R. s + n < fst q" using IH n(3) by fastforce
    have used: "view_backing pool_view ms0 \<subseteq> free_bytes rs"
      using take_free_ok [OF n(4) room t(1)] unfolding chunks_for_def by blast
    have apart: "{s..<s + n} \<inter> free_bytes rs = {}" using n(3) by (fastforce simp: free_bytes_def)
    have bytes: "free_bytes (r # rs) - view_backing pool_view ms =
        ({s..<s + n} - {s..<s + ?k}) \<union> (free_bytes rs - view_backing pool_view ms0)"
    proof -
      have k: "{s..<s + ?k} \<subseteq> {s..<s + n}" by auto
      have b: "view_backing pool_view ms = {s..<s + ?k} \<union> view_backing pool_view ms0"
        "free_bytes (r # rs) = {s..<s + n} \<union> free_bytes rs" by (simp_all add: t(2) r)
      show ?thesis unfolding b using k apart used by blast
    qed
    show ?thesis
    proof (cases "n \<le> want")
      case True
      then have "filter (\<lambda>r. snd r \<noteq> 0) rest = ?R" by (simp add: t(3))
      moreover have "{s..<s + n} - {s..<s + ?k} = {}" using True by auto
      ultimately show ?thesis using IH bytes by (auto simp: r)
    next
      case part: False
      then have f: "filter (\<lambda>r. snd r \<noteq> 0) rest = (s + ?k, n - ?k) # ?R" by (simp add: t(3))
      have "{s..<s + n} - {s..<s + ?k} = {s + ?k..<s + ?k + (n - ?k)}" by auto
      then have "free_bytes (filter (\<lambda>r. snd r \<noteq> 0) rest) = free_bytes (r # rs) - view_backing pool_view ms"
        unfolding f bytes using IH by simp
      moreover have "free_inv ((s + ?k, n - ?k) # ?R)" using IH part n(2) far by auto
      ultimately show ?thesis using IH unfolding f by (auto simp: r)
    qed
  qed
qed simp

end
