(* ===== verification/PooledReach.thy ===== *)
theory PooledReach
  imports PooledOps
begin

text \<open>
  What holds of the free ranges, the expansions and the mappings of \<open>PooledMemory\<close>, and the
  calls that expand it, reduce it and allocate from it.
\<close>

section \<open>The invariant\<close>

definition range_clear :: "nat \<times> nat \<Rightarrow> nat \<times> nat \<Rightarrow> bool" where
  "range_clear p q \<longleftrightarrow> fst p + snd p \<le> fst q \<or> fst q + snd q \<le> fst p"

definition po_inv :: "pooled_memory \<Rightarrow> bool" where
  "po_inv po \<longleftrightarrow>
     view_wf pool_view (po_mappings po) \<and> view_unshared pool_view (po_mappings po) \<and>
     free_inv (po_free po) \<and> ranges_ok (po_expansions po) \<and> sorted_wrt range_clear (po_expansions po) \<and>
     balanced (free_bytes (po_free po)) (view_backing pool_view (po_mappings po))
       (free_bytes (po_expansions po))"

abbreviation pool_map :: "pooled_memory \<Rightarrow> nat \<Rightarrow> (nat \<times> GpuAccessMode) option" where
  "pool_map po \<equiv> view_map pool_view (po_mappings po)"

text \<open>Every physical byte the guest has given to the pool.\<close>

abbreviation pool_bytes :: "pooled_memory \<Rightarrow> nat set" where
  "pool_bytes po \<equiv> free_bytes (po_expansions po)"

lemma PO_new_ok: "po_inv PO_new"
  by (simp add: po_inv_def PO_new_def ranges_ok_def balanced_def)

lemma free_bytes_finite [simp]: "finite (free_bytes m)"
  by (simp add: free_bytes_def case_prod_beta)

lemma free_bytes_card:
  assumes "ranges_ok rs" "sorted_wrt range_clear rs"
  shows "card (free_bytes rs) = sum_list (map snd rs)"
  using assms
proof (induction rs)
  case (Cons r rs)
  obtain s n where r: "r = (s, n)" by (cases r)
  have "{s..<s + n} \<inter> free_bytes rs = {}"
    using Cons.prems(2) by (fastforce simp: r free_bytes_def range_clear_def)
  with Cons show ?case by (auto simp: r card_Un_disjoint ranges_ok_def)
qed simp

lemma free_inv_clear: "free_inv m \<Longrightarrow> ranges_ok m \<and> sorted_wrt range_clear m"
  unfolding free_inv_def range_clear_def ranges_ok_def
  by (auto elim!: sorted_wrt_mono_rel [rotated])

lemma free_sum_le:
  assumes "free_inv m"
  shows "sum_list (map snd m) \<le> u64_max"
proof -
  have "free_bytes m \<subseteq> {..<u64_max}" using assms by (fastforce simp: free_inv_def free_bytes_def)
  then have "card (free_bytes m) \<le> u64_max" using card_mono [of "{..<u64_max}"] by fastforce
  then show ?thesis using free_bytes_card free_inv_clear [OF assms] by simp
qed

lemma add64_sum: "n + sum_list (map snd rs) \<le> u64_max \<Longrightarrow>
    foldl (\<lambda>available r. add64 available (snd r)) n rs = n + sum_list (map snd rs)"
  by (induction rs arbitrary: n) (simp_all add: add.assoc)

lemma PO_Available_ok: "free_inv (po_free po) \<Longrightarrow> PO_Available po = card (free_bytes (po_free po))"
  using add64_sum [of 0 "po_free po"] free_sum_le [of "po_free po"] free_bytes_card [of "po_free po"]
    free_inv_clear [of "po_free po"]
  by (simp add: PO_Available_def)

section \<open>Expansions\<close>

lemma PO_Expand_ok:
  assumes "po_inv po" "0 < n" "p + n \<le> u64_max" "{p..<p + n} \<inter> pool_bytes po = {}"
  shows "po_inv (PO_Expand po p n)" "pool_map (PO_Expand po p n) = pool_map po"
    "pool_bytes (PO_Expand po p n) = pool_bytes po \<union> {p..<p + n}"
proof -
  have i: "free_inv (po_free po)" "ranges_ok (po_expansions po)"
    using assms(1) by (simp_all add: po_inv_def)
  show b: "pool_bytes (PO_Expand po p n) = pool_bytes po \<union> {p..<p + n}" by (simp add: PO_Expand_def)
  note f = AddFreeUnlocked_ok [OF i(1) assms(2,3)]
  have "range_clear q (p, n)" if q: "q \<in> set (po_expansions po)" for q
  proof -
    obtain s k where sk: "q = (s, k)" by (cases q)
    have k: "0 < k" using i(2) q by (auto simp: sk ranges_ok_def)
    have "{s..<s + k} \<subseteq> pool_bytes po" using q by (auto simp: sk free_bytes_def)
    then have "max s p \<notin> {s..<s + k} \<inter> {p..<p + n}" using assms(4) by blast
    then show ?thesis using k assms(2) by (auto simp: sk range_clear_def)
  qed
  moreover have "balanced (free_bytes (AddFreeUnlocked (po_free po) p n))
      (view_backing pool_view (po_mappings po)) (pool_bytes po \<union> {p..<p + n})"
    using assms(1,4) f unfolding po_inv_def balanced_def by blast
  ultimately show "po_inv (PO_Expand po p n)"
    using assms(1-3) f by (simp add: po_inv_def PO_Expand_def sorted_wrt_append ranges_ok_def)
  show "pool_map (PO_Expand po p n) = pool_map po" by (simp add: PO_Expand_def)
qed

lemma erase_at_split:
  assumes "find_index P xs = Some i"
  obtains us vs where "xs = us @ xs ! i # vs" "erase_at i xs = us @ vs" "P (xs ! i)"
proof -
  have i: "i < length xs" "P (xs ! i)" using find_index_SomeD [OF assms] by blast+
  then show thesis using that [of "take i xs" "drop (Suc i) xs"] id_take_nth_drop [OF i(1)]
    by (simp add: erase_at_def)
qed

text \<open>An expansion none of whose bytes is mapped lies in one free range.\<close>

lemma free_expansion:
  assumes inv: "po_inv po" and e: "(p, n) \<in> set (po_expansions po)"
  shows "(\<exists>m \<in> set (po_mappings po). VirtualRangesOverlap p n (pg_phys_addr m) (pg_size m)) \<longleftrightarrow>
      \<not> {p..<p + n} \<subseteq> free_bytes (po_free po)"
proof -
  have wf: "view_wf pool_view (po_mappings po)" using inv by (simp add: po_inv_def)
  have pn: "0 < n" "p + n \<le> u64_max" using inv e by (auto simp: po_inv_def ranges_ok_def)
  have "VirtualRangesOverlap p n (pg_phys_addr m) (pg_size m) \<longleftrightarrow>
      {p..<p + n} \<inter> {pg_phys_addr m..<pg_phys_addr m + pg_size m} \<noteq> {}"
    if "m \<in> set (po_mappings po)" for m
    using pool_ok_bounds [OF view_wf_ok [OF wf that]] pn(2) by (intro VirtualRangesOverlap_iff) auto
  then have "(\<exists>m \<in> set (po_mappings po). VirtualRangesOverlap p n (pg_phys_addr m) (pg_size m)) \<longleftrightarrow>
      {p..<p + n} \<inter> view_backing pool_view (po_mappings po) \<noteq> {}"
    unfolding view_backing_def pool_view_simps by blast
  moreover have "{p..<p + n} \<subseteq> pool_bytes po" using e by (auto simp: free_bytes_def)
  ultimately show ?thesis using inv unfolding po_inv_def balanced_def by blast
qed

lemma sorted_wrt_three:
  "sorted_wrt P xs \<Longrightarrow> sorted_wrt P ys \<Longrightarrow> sorted_wrt P zs \<Longrightarrow> \<forall>x \<in> set xs. \<forall>y \<in> set (ys @ zs). P x y \<Longrightarrow>
   \<forall>y \<in> set ys. \<forall>z \<in> set zs. P y z \<Longrightarrow> sorted_wrt P (xs @ ys @ zs)"
  by (auto simp: sorted_wrt_append)

text \<open>Taking a range out of the free range that holds it.\<close>

lemma cut_free:
  assumes inv: "free_inv (us @ (s, k) # vs)" and r: "s \<le> p" "p + n \<le> s + k" "0 < n"
  defines "rs \<equiv> (us @ vs) @ (if p - s \<noteq> 0 then [(s, p - s)] else []) @
    (if s + k - (p + n) \<noteq> 0 then [(p + n, s + k - (p + n))] else [])"
  shows "free_inv (sort_key fst rs)" "free_bytes (sort_key fst rs) = free_bytes (us @ (s, k) # vs) - {p..<p + n}"
proof -
  have i: "free_inv us" "free_inv vs" "\<forall>q \<in> set us. fst q + snd q < s" "\<forall>q \<in> set vs. s + k < fst q"
    "s + k \<le> u64_max" "\<forall>q \<in> set us. \<forall>q' \<in> set vs. fst q + snd q < fst q'" "free_inv (us @ vs)"
    using inv by auto
  have "ranges_ok rs" using i(5) r free_inv_clear [OF i(7)] by (auto simp: ranges_ok_def rs_def)
  moreover have "sorted_wrt gap_between rs"
  proof -
    let ?L = "if p - s \<noteq> 0 then [(s, p - s)] else []"
    let ?R = "if s + k - (p + n) \<noteq> 0 then [(p + n, s + k - (p + n))] else []"
    have l: "gap_between q (s, p - s) \<and> gap_between q (p + n, s + k - (p + n))" if "q \<in> set (us @ vs)" for q
      using that i(3,4) r by (fastforce simp: gap_between_def)
    have "\<forall>q \<in> set (us @ vs). \<forall>y \<in> set (?L @ ?R). gap_between q y"
    proof (intro ballI)
      fix q y assume q: "q \<in> set (us @ vs)" and y: "y \<in> set (?L @ ?R)"
      from y have "y = (s, p - s) \<or> y = (p + n, s + k - (p + n))" by (auto split: if_splits)
      then show "gap_between q y" using l [OF q] by (elim disjE) simp_all
    qed
    moreover have "\<forall>x \<in> set ?L. \<forall>y \<in> set ?R. gap_between x y" using r by (simp add: gap_between_def)
    moreover have "sorted_wrt gap_between ?L" "sorted_wrt gap_between ?R" by simp_all
    ultimately show ?thesis
      unfolding rs_def using gap_between_free [OF i(7)] by (intro sorted_wrt_three) blast+
  qed
  moreover have "free_bytes rs = free_bytes (us @ (s, k) # vs) - {p..<p + n}"
  proof -
    have "{s..<s + k} - {p..<p + n} = {s..<p} \<union> {p + n..<s + k}" using r by auto
    moreover have "x \<notin> {p..<p + n}" if "x \<in> free_bytes (us @ vs)" for x
      using that i(3,4) r unfolding free_bytes_def by fastforce
    moreover have "free_bytes rs = free_bytes (us @ vs) \<union> ({s..<p} \<union> {p + n..<s + k})"
      using r by (auto simp: rs_def)
    ultimately show ?thesis unfolding free_bytes_simps by blast
  qed
  ultimately show "free_inv (sort_key fst rs)"
    "free_bytes (sort_key fst rs) = free_bytes (us @ (s, k) # vs) - {p..<p + n}"
    using free_inv_sort by metis+
qed

lemma PO_ReleaseExpansion_ok:
  assumes inv: "po_inv po"
  shows "if (p, n) \<in> set (po_expansions po) \<and> {p..<p + n} \<subseteq> free_bytes (po_free po)
    then \<exists>po'. PO_ReleaseExpansion po p n = (True, po') \<and> po_inv po' \<and> pool_map po' = pool_map po \<and>
      pool_bytes po' = pool_bytes po - {p..<p + n} \<and>
      free_bytes (po_free po') = free_bytes (po_free po) - {p..<p + n}
    else PO_ReleaseExpansion po p n = (False, po)"
proof (cases "find_index (\<lambda>r. fst r = p \<and> snd r = n) (po_expansions po)")
  case None
  then have "(p, n) \<notin> set (po_expansions po)" by fastforce
  moreover have "PO_ReleaseExpansion po p n = (False, po)" unfolding PO_ReleaseExpansion_def None by simp
  ultimately show ?thesis by simp
next
  case (Some i)
  obtain us vs where ex: "po_expansions po = us @ (p, n) # vs" "erase_at i (po_expansions po) = us @ vs"
    using erase_at_split [OF Some] by (metis prod.collapse)
  have e: "(p, n) \<in> set (po_expansions po)" using ex by simp
  have pn: "0 < n" "p + n \<le> u64_max" using inv e by (auto simp: po_inv_def ranges_ok_def)
  note ov = free_expansion [OF inv e]
  show ?thesis
  proof (cases "{p..<p + n} \<subseteq> free_bytes (po_free po)")
    case False
    then show ?thesis using Some ov by (simp add: PO_ReleaseExpansion_def)
  next
    case True
    have fi: "free_inv (po_free po)" using inv by (simp add: po_inv_def)
    let ?P = "\<lambda>r. p \<ge> fst r \<and> add64 p n \<le> add64 (fst r) (snd r)"
    have "\<exists>r \<in> set (po_free po). ?P r"
    proof -
      from free_run_entry [OF fi pn(1) True] obtain s k where
        sk: "(s, k) \<in> set (po_free po)" "s \<le> p" "p + n \<le> s + k" .
      then show ?thesis using free_inv_entry [OF fi sk(1)] pn(2) by (intro bexI [of _ "(s, k)"]) auto
    qed
    then obtain j where j: "find_index ?P (po_free po) = Some j" by (metis find_index_None not_Some_eq)
    obtain xs ys where xy: "po_free po = xs @ po_free po ! j # ys" "erase_at j (po_free po) = xs @ ys"
      "?P (po_free po ! j)"
      using erase_at_split [OF j] by metis
    obtain s k where sk: "po_free po ! j = (s, k)" by (cases "po_free po ! j")
    have fr: "po_free po = xs @ (s, k) # ys" using xy(1) sk by simp
    have P: "s \<le> p" "add64 p n \<le> add64 s k" using xy(3) unfolding sk by simp_all
    have "(s, k) \<in> set (po_free po)" unfolding fr by simp
    from free_inv_entry [OF fi this] P pn(2)
    have bd: "s + k \<le> u64_max" "s \<le> p" "p + n \<le> s + k" by simp_all
    have arith: "sub64 p s = p - s" "sub64 (s + k) (p + n) = s + k - (p + n)"
      using bd by (intro sub64_id; simp)+
    note cf = cut_free [OF fi [unfolded fr] bd(2,3) pn(1)]
    let ?po = "po\<lparr>po_free := sort_key fst ((xs @ ys) @ (if p - s \<noteq> 0 then [(s, p - s)] else []) @
        (if s + k - (p + n) \<noteq> 0 then [(p + n, s + k - (p + n))] else [])), po_expansions := us @ vs\<rparr>"
    have run: "PO_ReleaseExpansion po p n = (True, ?po)"
      using Some ov True j pn(2) bd by (simp add: PO_ReleaseExpansion_def Let_def sk xy(2) ex(2) arith)
    have clear: "sorted_wrt range_clear (us @ (p, n) # vs)" "ranges_ok (us @ (p, n) # vs)"
      using inv by (simp_all add: po_inv_def ex(1))
    have "x \<notin> {p..<p + n}" if "x \<in> free_bytes (us @ vs)" for x
      using that clear(1) unfolding free_bytes_def
      by (fastforce simp: sorted_wrt_append range_clear_def)
    then have pb: "free_bytes (us @ vs) = pool_bytes po - {p..<p + n}"
      unfolding ex(1) free_bytes_simps by blast
    have "balanced (free_bytes (po_free ?po)) (view_backing pool_view (po_mappings po)) (free_bytes (us @ vs))"
      using inv cf(2) True unfolding pb po_inv_def balanced_def fr by (simp del: free_bytes_simps) blast
    then have "po_inv ?po"
      using inv cf(1) clear by (simp add: po_inv_def sorted_wrt_append ranges_ok_def)
    then show ?thesis using e True run pb cf(2) fr by simp
  qed
qed

section \<open>Allocating\<close>

lemma PO_Allocate_ok:
  assumes inv: "po_inv po" and fresh: "\<forall>a. in_range vaddr sz a \<longrightarrow> pool_map po a = None"
  shows "if vaddr = 0 \<or> sz = 0 \<or> u64_max < vaddr + sz \<or> PO_Available po < sz
    then PO_Allocate po vaddr sz gpu = (None, po)
    else \<exists>ms po'. PO_Allocate po vaddr sz gpu = (Some ms, po') \<and> po_inv po' \<and>
      pool_bytes po' = pool_bytes po \<and>
      (\<forall>a. if in_range vaddr sz a then \<exists>x \<in> free_bytes (po_free po). pool_map po' a = Some (x, gpu)
        else pool_map po' a = pool_map po a)"
proof (cases "vaddr = 0 \<or> sz = 0 \<or> u64_max < vaddr + sz")
  case True
  then have g: "vaddr = 0 \<or> sz = 0 \<or> u64_max - vaddr < sz" by linarith
  have "PO_Allocate po vaddr sz gpu = (None, po)" unfolding PO_Allocate_def if_P [OF g] ..
  then show ?thesis using True by auto
next
  case False
  then have sz: "vaddr + sz \<le> u64_max" and g: "\<not> (vaddr = 0 \<or> sz = 0 \<or> u64_max - vaddr < sz)" by auto
  have fi: "free_inv (po_free po)" using inv by (simp add: po_inv_def)
  obtain ms rest left where t: "take_free gpu (po_free po) vaddr sz = (ms, rest, left)"
    by (metis prod_cases3)
  note cf = take_free_ok [OF fi sz t] and rest = take_free_rest [OF fi sz t]
  have ch: "sz = left + mapped_bytes pool_view ms"
    "left \<noteq> 0 \<Longrightarrow> mapped_bytes pool_view ms = PO_Available po"
    "view_unshared pool_view ms" "view_backing pool_view ms \<subseteq> free_bytes (po_free po)"
    using cf unfolding chunks_for_def PO_Available_ok [OF fi] by blast+
  have le: "mapped_bytes pool_view ms \<le> PO_Available po"
    using mapped_bytes_backing [OF ch(3)] card_mono [OF free_bytes_finite ch(4)]
    by (simp add: PO_Available_ok [OF fi])
  show ?thesis
  proof (cases "left = 0")
    case nz: False
    then have "PO_Available po < sz" using ch(1,2) by linarith
    moreover have "PO_Allocate po vaddr sz gpu = (None, po)"
      unfolding PO_Allocate_def if_not_P [OF g] t using nz by simp
    ultimately show ?thesis by simp
  next
    case z: True
    note cz = cf [unfolded z]
    note held = chunks_cover(2) [OF cz]
    let ?po = "po\<lparr>po_free := filter (\<lambda>r. snd r \<noteq> 0) rest, po_mappings := po_mappings po @ ms\<rparr>"
    have run: "PO_Allocate po vaddr sz gpu = (Some ms, ?po)"
      unfolding PO_Allocate_def if_not_P [OF g] t using z by simp
    have wf: "view_wf pool_view (po_mappings po)" "view_unshared pool_view (po_mappings po)"
      using inv by (simp_all add: po_inv_def)
    have dis: "view_backing pool_view (po_mappings po) \<inter> view_backing pool_view ms = {}"
      using inv ch(4) unfolding po_inv_def balanced_def by blast
    have new: "view_map pool_view ms a \<noteq> None \<Longrightarrow> pool_map po a = None" for a
      using held fresh by blast
    note ap = view_append_ok [OF wf chunks_cover(1) [OF cz] ch(3) new dis]
    have "balanced (free_bytes (filter (\<lambda>r. snd r \<noteq> 0) rest))
        (view_backing pool_view (po_mappings po @ ms)) (pool_bytes po)"
      using inv rest ch(4) unfolding po_inv_def balanced_def view_backing_simps(3) by blast
    then have ok: "po_inv ?po" using inv ap rest by (simp add: po_inv_def)
    have attr: "if in_range vaddr sz a then \<exists>x \<in> free_bytes (po_free po). pool_map ?po a = Some (x, gpu)
        else pool_map ?po a = pool_map po a" for a
    proof (cases "in_range vaddr sz a")
      case True
      from chunks_attr [OF cz True] show ?thesis using True fresh by (auto simp: view_map_append)
    next
      case False
      then have "view_map pool_view ms a = None" using held by blast
      then show ?thesis using False by (simp add: view_map_append split: option.split)
    qed
    have "\<not> (vaddr = 0 \<or> sz = 0 \<or> u64_max < vaddr + sz \<or> PO_Available po < sz)"
      using le ch(1) z False by simp
    moreover have "pool_bytes ?po = pool_bytes po" by simp
    ultimately show ?thesis using run ok attr by (simp only: if_False) blast
  qed
qed

end
