(* ===== verification/PooledHistory.thy ===== *)
theory PooledHistory
  imports PooledReach
begin

text \<open>
  The walk of \<open>QueryUnlocked\<close>, the release of a span, and what holds after any history of calls
  of \<open>PooledMemory\<close>.
\<close>

section \<open>The parts of a span\<close>

text \<open>Parts that follow each other from \<open>lo\<close> to \<open>hi\<close>, each with the bytes the mappings have there.\<close>

fun pool_tiles :: "PooledMapping list \<Rightarrow> nat \<Rightarrow> nat \<Rightarrow> PooledMapping list \<Rightarrow> bool" where
  "pool_tiles ms lo hi [] \<longleftrightarrow> lo = hi"
| "pool_tiles ms lo hi (q # qs) \<longleftrightarrow> pg_vaddr q = lo \<and> 0 < pg_size q \<and>
     (\<forall>a. lo \<le> a \<longrightarrow> a < lo + pg_size q \<longrightarrow> view_map pool_view ms a = Some (pg_phys_addr q + (a - lo), pg_gpu_mode q)) \<and>
     pool_tiles ms (lo + pg_size q) hi qs"

lemma pool_tiles_le: "pool_tiles ms lo hi qs \<Longrightarrow> lo \<le> hi"
  by (induction qs arbitrary: lo) fastforce+

lemma pool_at_ok:
  assumes "view_wf pool_view ms"
  shows "case pool_at ms a of None \<Rightarrow> view_map pool_view ms a = None
    | Some m \<Rightarrow> m \<in> set ms \<and> view_holds pool_view m a"
proof -
  have h: "view_holds pool_view m a \<longleftrightarrow> a \<ge> pg_vaddr m \<and> a < add64 (pg_vaddr m) (pg_size m)" if "m \<in> set ms" for m
    using pool_ok_bounds [OF view_wf_ok [OF assms that]] by (simp add: view_holds_def)
  show ?thesis
  proof (cases "pool_at ms a")
    case None
    then have "\<not> (a \<ge> pg_vaddr m \<and> a < add64 (pg_vaddr m) (pg_size m))" if "m \<in> set ms" for m
      using that unfolding pool_at_def find_None_iff by blast
    then show ?thesis using None h by (simp add: view_map_None)
  next
    case (Some m)
    then have "m \<in> set ms" "a \<ge> pg_vaddr m \<and> a < add64 (pg_vaddr m) (pg_size m)"
      by (auto simp: pool_at_def find_Some_iff)
    then show ?thesis using Some h by simp
  qed
qed

lemma pool_walk_ok:
  assumes "view_wf pool_view ms" "cur \<le> fin"
  shows "case pool_walk ms cur fin out of None \<Rightarrow> \<exists>a. cur \<le> a \<and> a < fin \<and> view_map pool_view ms a = None
    | Some qs \<Rightarrow> \<exists>ps. qs = out @ ps \<and> pool_tiles ms cur fin ps"
  using assms
proof (induction ms cur fin out rule: pool_walk.induct)
  case (1 ms cur fin out)
  show ?case
  proof (cases "cur < fin")
    case False
    then have "pool_walk ms cur fin out = Some out" by (subst pool_walk.simps) simp
    then show ?thesis using 1(3) False by simp
  next
    case True
    note at = pool_at_ok [OF 1(2), of cur]
    show ?thesis
    proof (cases "pool_at ms cur")
      case None
      then have "pool_walk ms cur fin out = None" using True by (simp add: pool_walk.simps [of ms cur])
      then show ?thesis using at None True by auto
    next
      case (Some m)
      then have m: "m \<in> set ms" "view_holds pool_view m cur" using at by simp_all
      have ok: "view_ok pool_view m" using view_wf_ok [OF 1(2) m(1)] .
      note b = pool_ok_bounds [OF ok]
      have c: "pg_vaddr m \<le> cur" "cur < pg_vaddr m + pg_size m" using m(2) by (simp_all add: view_holds_def)
      let ?k = "min fin (pg_vaddr m + pg_size m) - cur"
      let ?q = "\<lparr>pg_vaddr = cur, pg_size = ?k, pg_phys_addr = pg_phys_addr m + (cur - pg_vaddr m), pg_gpu_mode = pg_gpu_mode m\<rparr>"
      have k: "0 < ?k" "cur + ?k \<le> fin" "cur + ?k \<le> pg_vaddr m + pg_size m" using True c(2) by auto
      have e: "add64 (pg_vaddr m) (pg_size m) = pg_vaddr m + pg_size m" using b by simp
      have ph: "add64 (pg_phys_addr m) (sub64 cur (pg_vaddr m)) = pg_phys_addr m + (cur - pg_vaddr m)"
        using pool_part_phys [OF ok c(1)] c(2) by simp
      have step: "pool_walk ms cur fin out = pool_walk ms (cur + ?k) fin (out @ [?q])"
        using True Some by (simp add: pool_walk.simps [of ms cur] e ph Let_def)
      have bytes: "view_map pool_view ms a = Some (pg_phys_addr ?q + (a - cur), pg_gpu_mode ?q)"
        if "cur \<le> a" "a < cur + ?k" for a
      proof -
        have "view_holds pool_view m a" using that c(1) k(3) by (simp add: view_holds_def)
        then have "view_map pool_view ms a = Some (view_byte pool_view m a)" using view_map_Some [OF 1(2)] m(1) by blast
        then show ?thesis using that(1) c(1) by (simp add: view_byte_def)
      qed
      have IH: "case pool_walk ms (cur + ?k) fin (out @ [?q]) of None \<Rightarrow> \<exists>a. cur + ?k \<le> a \<and> a < fin \<and> view_map pool_view ms a = None
        | Some qs \<Rightarrow> \<exists>ps. qs = (out @ [?q]) @ ps \<and> pool_tiles ms (cur + ?k) fin ps"
        using 1(1) [OF True Some refl 1(2)] k(2) unfolding e ph by blast
      show ?thesis
      proof (cases "pool_walk ms (cur + ?k) fin (out @ [?q])")
        case None
        then obtain a where "cur + ?k \<le> a" "a < fin" "view_map pool_view ms a = None" using IH by auto
        then have "cur \<le> a \<and> a < fin \<and> view_map pool_view ms a = None" by linarith
        then have "\<exists>a. cur \<le> a \<and> a < fin \<and> view_map pool_view ms a = None" by blast
        then show ?thesis using None unfolding step by (simp only: option.case)
      next
        case (Some qs)
        then obtain ps where ps: "qs = (out @ [?q]) @ ps" "pool_tiles ms (cur + ?k) fin ps" using IH by auto
        then have "pool_tiles ms cur fin (?q # ps)" using k(1) bytes by simp
        then show ?thesis using step Some ps(1) by auto
      qed
    qed
  qed
qed

lemma pool_tiles_hd: "pool_tiles ms lo hi qs \<Longrightarrow> lo < hi \<Longrightarrow>
    qs \<noteq> [] \<and> (\<exists>x. view_map pool_view ms lo = Some (x, pg_gpu_mode (hd qs)))"
  by (cases qs) auto

lemma span_backing_split:
  assumes "lo \<le> mid" "mid \<le> hi"
  shows "span_backing vw bs lo hi = span_backing vw bs lo mid \<union> span_backing vw bs mid hi"
proof -
  have "lo \<le> a \<and> a < hi \<longleftrightarrow> lo \<le> a \<and> a < mid \<or> mid \<le> a \<and> a < hi" for a using assms by auto
  then show ?thesis unfolding span_backing_def by blast
qed

text \<open>The bytes of the parts are those of the span.\<close>

lemma pool_tiles_backing:
  assumes "view_wf pool_view ms" "pool_tiles ms lo hi qs"
  shows "view_backing pool_view qs = span_backing pool_view ms lo hi"
    "\<forall>q \<in> set qs. 0 < pg_size q \<and> pg_phys_addr q + pg_size q \<le> u64_max"
  using assms(2)
proof (induction qs arbitrary: lo)
  case Nil
  {
    case 1
    then show ?case by (simp add: span_backing_def)
  next
    case 2
    then show ?case by simp
  }
next
  case (Cons q qs)
  {
    case 1
    then have q: "0 < pg_size q" "pool_tiles ms (lo + pg_size q) hi qs"
      "\<And>a. lo \<le> a \<Longrightarrow> a < lo + pg_size q \<Longrightarrow> view_map pool_view ms a = Some (pg_phys_addr q + (a - lo), pg_gpu_mode q)" by simp_all
    have le: "lo + pg_size q \<le> hi" using pool_tiles_le [OF q(2)] .
    have "span_backing pool_view ms lo hi = span_backing pool_view ms lo (lo + pg_size q) \<union> span_backing pool_view ms (lo + pg_size q) hi"
      using le by (intro span_backing_split) simp_all
    moreover have "span_backing pool_view ms lo (lo + pg_size q) = {pg_phys_addr q..<pg_phys_addr q + pg_size q}"
      unfolding span_backing_def
    proof (intro set_eqI iffI)
      fix x assume x: "x \<in> {pg_phys_addr q..<pg_phys_addr q + pg_size q}"
      let ?a = "lo + (x - pg_phys_addr q)"
      have "lo \<le> ?a" "?a < lo + pg_size q" "pg_phys_addr q + (?a - lo) = x" using x by auto
      with q(3) [of ?a] have "lo \<le> ?a \<and> ?a < lo + pg_size q \<and> view_map pool_view ms ?a = Some (x, pg_gpu_mode q)" by simp
      then show "x \<in> {x. \<exists>a y. lo \<le> a \<and> a < lo + pg_size q \<and> view_map pool_view ms a = Some (x, y)}" by blast
    qed (auto simp: q(3))
    ultimately show ?case using Cons.IH(1) [OF q(2)] by simp
  next
    case 2
    then have q: "0 < pg_size q" "pool_tiles ms (lo + pg_size q) hi qs" and
      bytes: "\<And>a. lo \<le> a \<Longrightarrow> a < lo + pg_size q \<Longrightarrow> view_map pool_view ms a = Some (pg_phys_addr q + (a - lo), pg_gpu_mode q)" by simp_all
    have "view_map pool_view ms (lo + (pg_size q - 1)) = Some (pg_phys_addr q + (lo + (pg_size q - 1) - lo), pg_gpu_mode q)"
      by (rule bytes) (use q(1) in simp_all)
    then have "view_map pool_view ms (lo + (pg_size q - 1)) = Some (pg_phys_addr q + (pg_size q - 1), pg_gpu_mode q)" by simp
    then have "pg_phys_addr q + (pg_size q - 1) \<in> view_backing pool_view ms" using view_backing_mapped [OF assms(1)] by blast
    then obtain m where m: "m \<in> set ms" "pg_phys_addr q + (pg_size q - 1) < pg_phys_addr m + pg_size m"
      unfolding view_backing_def pool_view_simps by auto
    have "pg_phys_addr m + pg_size m \<le> u64_max" using pool_ok_bounds [OF view_wf_ok [OF assms(1) m(1)]] by simp
    then have "pg_phys_addr q + pg_size q \<le> u64_max" using m(2) by linarith
    then show ?case using Cons.IH(2) [OF q(2)] q(1) by simp
  }
qed

section \<open>Querying and releasing a span\<close>

lemma QueryUnlocked_ok:
  assumes "view_wf pool_view ms"
  shows "case QueryUnlocked ms vaddr sz of
      None \<Rightarrow> vaddr = 0 \<or> sz = 0 \<or> u64_max < vaddr + sz \<or> (\<exists>a. in_range vaddr sz a \<and> view_map pool_view ms a = None)
    | Some qs \<Rightarrow> \<not> (vaddr = 0 \<or> sz = 0 \<or> u64_max < vaddr + sz) \<and> pool_tiles ms vaddr (vaddr + sz) qs"
proof (cases "vaddr = 0 \<or> sz = 0 \<or> u64_max - vaddr < sz")
  case True
  then have "QueryUnlocked ms vaddr sz = None" by (simp add: QueryUnlocked_def)
  then show ?thesis using True by auto
next
  case False
  then have "QueryUnlocked ms vaddr sz = pool_walk ms vaddr (vaddr + sz) []" by (simp add: QueryUnlocked_def)
  moreover have "\<not> (vaddr = 0 \<or> sz = 0 \<or> u64_max < vaddr + sz)" using False by linarith
  ultimately show ?thesis using pool_walk_ok [OF assms, of vaddr "vaddr + sz" "[]"]
    by (auto simp: in_range_def split: option.splits)
qed

lemma pool_tiles_mapped: "pool_tiles ms lo hi qs \<Longrightarrow> lo \<le> a \<Longrightarrow> a < hi \<Longrightarrow> view_map pool_view ms a \<noteq> None"
proof (induction qs arbitrary: lo)
  case (Cons q qs)
  then show ?case by (cases "a < lo + pg_size q") auto
qed simp

lemma give_back_ok:
  assumes "free_inv free" "\<forall>q \<in> set qs. 0 < pg_size q \<and> pg_phys_addr q + pg_size q \<le> u64_max"
  shows "free_inv (foldl (\<lambda>free m. AddFreeUnlocked free (pg_phys_addr m) (pg_size m)) free qs) \<and>
    free_bytes (foldl (\<lambda>free m. AddFreeUnlocked free (pg_phys_addr m) (pg_size m)) free qs) =
      free_bytes free \<union> view_backing pool_view qs"
  using assms
proof (induction qs arbitrary: free)
  case (Cons q qs)
  then have "free_inv (AddFreeUnlocked free (pg_phys_addr q) (pg_size q)) \<and>
      free_bytes (AddFreeUnlocked free (pg_phys_addr q) (pg_size q)) = free_bytes free \<union> {pg_phys_addr q..<pg_phys_addr q + pg_size q}"
    by (intro AddFreeUnlocked_ok) simp_all
  with Cons show ?case by auto
qed (simp add: view_backing_def)

lemma PO_Release_ok:
  assumes inv: "po_inv po"
  shows "if vaddr = 0 \<or> sz = 0 \<or> u64_max < vaddr + sz \<or> (\<exists>a. in_range vaddr sz a \<and> pool_map po a = None)
    then PO_Release po vaddr sz = (None, po)
    else \<exists>gpu po' x. PO_Release po vaddr sz = (Some gpu, po') \<and> po_inv po' \<and> pool_bytes po' = pool_bytes po \<and>
      pool_map po vaddr = Some (x, gpu) \<and>
      (\<forall>a. pool_map po' a = (if in_range vaddr sz a then None else pool_map po a)) \<and>
      free_bytes (po_free po') = free_bytes (po_free po) \<union> span_backing pool_view (po_mappings po) vaddr (vaddr + sz)"
proof -
  let ?ms = "po_mappings po" and ?S = "span_backing pool_view (po_mappings po) vaddr (vaddr + sz)"
  have wf: "view_wf pool_view ?ms" "view_unshared pool_view ?ms" and free: "free_inv (po_free po)"
    and bal: "balanced (free_bytes (po_free po)) (view_backing pool_view ?ms) (pool_bytes po)"
    using inv by (simp_all add: po_inv_def)
  show ?thesis
  proof (cases "QueryUnlocked ?ms vaddr sz")
    case None
    then show ?thesis using QueryUnlocked_ok [OF wf(1), of vaddr sz] by (simp add: PO_Release_def)
  next
    case (Some qs)
    then have sz: "\<not> (vaddr = 0 \<or> sz = 0 \<or> u64_max < vaddr + sz)" and t: "pool_tiles ?ms vaddr (vaddr + sz) qs"
      using QueryUnlocked_ok [OF wf(1), of vaddr sz] by simp_all
    note bk = pool_tiles_backing [OF wf(1) t]
    have full: "\<not> (\<exists>a. in_range vaddr sz a \<and> pool_map po a = None)"
      using pool_tiles_mapped [OF t] by (auto simp: in_range_def)
    obtain x where x: "pool_map po vaddr = Some (x, pg_gpu_mode (hd qs))" using pool_tiles_hd [OF t] sz by auto
    let ?kept = "concat (map (keep_pieces vaddr sz) ?ms)"
    let ?free = "foldl (\<lambda>free m. AddFreeUnlocked free (pg_phys_addr m) (pg_size m)) (po_free po) qs"
    note gb = give_back_ok [OF free bk(2), unfolded bk(1)]
    have ins: "view_inside pool_view m (keep_pieces vaddr sz m)" if "m \<in> set ?ms" for m
      using keep_pieces_ok(1) [OF view_wf_ok [OF wf(1) that]] .
    have kept: "view_wf pool_view ?kept" "view_unshared pool_view ?kept"
      using view_pieces_wf [OF wf(1) ins] wf(2) by simp_all
    have map: "view_map pool_view ?kept a = (if in_range vaddr sz a then None else pool_map po a)" for a
    proof -
      have "view_map pool_view ?kept a = Option.bind (pool_map po a) (\<lambda>y. if in_range vaddr sz a then None else Some y)"
        by (rule view_pieces_map [OF wf(1) ins, where h = "\<lambda>a y. if in_range vaddr sz a then None else Some y"])
           (use keep_pieces_ok(2) [OF view_wf_ok [OF wf(1)]] in auto)
      then show ?thesis by (cases "pool_map po a") simp_all
    qed
    note cut = view_cut_backing [OF wf kept(1) map]
    have "balanced (free_bytes ?free) (view_backing pool_view ?kept) (pool_bytes po)"
      using bal gb cut unfolding balanced_def by blast
    then have "po_inv (po\<lparr>po_mappings := ?kept, po_free := ?free\<rparr>)" using inv kept gb by (simp add: po_inv_def)
    moreover have "PO_Release po vaddr sz = (Some (pg_gpu_mode (hd qs)), po\<lparr>po_mappings := ?kept, po_free := ?free\<rparr>)"
      by (simp add: PO_Release_def Some)
    ultimately show ?thesis using sz full x map gb by simp
  qed
qed

section \<open>Histories\<close>

text \<open>
  The callers expand the pool by ranges that are not part of it and allocate at guest addresses
  that are not mapped from it; what they release is arbitrary.
\<close>

inductive po_reach :: "pooled_memory \<Rightarrow> bool" where
  po_start: "po_reach PO_new"
| po_expand: "po_reach po \<Longrightarrow> 0 < n \<Longrightarrow> p + n \<le> u64_max \<Longrightarrow> {p..<p + n} \<inter> pool_bytes po = {} \<Longrightarrow> po_reach (PO_Expand po p n)"
| po_reduce: "po_reach po \<Longrightarrow> po_reach (snd (PO_ReleaseExpansion po p n))"
| po_allocate: "po_reach po \<Longrightarrow> \<forall>a. in_range vaddr sz a \<longrightarrow> pool_map po a = None \<Longrightarrow> po_reach (snd (PO_Allocate po vaddr sz gpu))"
| po_release: "po_reach po \<Longrightarrow> po_reach (snd (PO_Release po vaddr sz))"

lemma po_reach_inv: "po_reach po \<Longrightarrow> po_inv po"
proof (induction rule: po_reach.induct)
  case po_start
  show ?case by (rule PO_new_ok)
next
  case (po_expand po n p)
  then show ?case using PO_Expand_ok(1) by blast
next
  case (po_reduce po p n)
  then show ?case using PO_ReleaseExpansion_ok [of po p n] by (auto split: if_splits)
next
  case (po_allocate po vaddr sz gpu)
  then show ?case using PO_Allocate_ok [of po vaddr sz gpu] by (auto split: if_splits)
next
  case (po_release po vaddr sz)
  then show ?case using PO_Release_ok [of po vaddr sz] by (auto split: if_splits)
qed

text \<open>
  After any history of calls of the memory pool no physical byte is mapped at two guest
  addresses, the free bytes are those given to the pool that are not mapped, and \<open>Available\<close> is
  their number, which with the number of mapped bytes makes the size of the pool.
\<close>

theorem pooled_memory_accounts:
  assumes "po_reach po"
  shows "(\<forall>a a' x y y'. pool_map po a = Some (x, y) \<longrightarrow> pool_map po a' = Some (x, y') \<longrightarrow> a = a') \<and>
    free_bytes (po_free po) = pool_bytes po - {x. \<exists>a y. pool_map po a = Some (x, y)} \<and>
    {x. \<exists>a y. pool_map po a = Some (x, y)} \<subseteq> pool_bytes po \<and>
    PO_Available po = card (free_bytes (po_free po)) \<and>
    PO_Available po + card {a. pool_map po a \<noteq> None} = card (pool_bytes po)"
proof -
  have inv: "po_inv po" using po_reach_inv [OF assms] .
  then have f: "view_wf pool_view (po_mappings po)" "view_unshared pool_view (po_mappings po)" "free_inv (po_free po)"
    and bal: "balanced (free_bytes (po_free po)) (view_backing pool_view (po_mappings po)) (pool_bytes po)"
    by (simp_all add: po_inv_def)
  have b: "view_backing pool_view (po_mappings po) = {x. \<exists>a y. pool_map po a = Some (x, y)}"
    using view_backing_mapped [OF f(1)] by blast
  have av: "PO_Available po = card (free_bytes (po_free po))" by (rule PO_Available_ok [OF f(3)])
  have "a < Suc u64_max" if m: "pool_map po a \<noteq> None" for a
  proof -
    obtain c where c: "c \<in> set (po_mappings po)" "view_holds pool_view c a" using m unfolding view_map_None by blast
    then show ?thesis using pool_ok_bounds [OF view_wf_ok [OF f(1) c(1)]] by (simp add: view_holds_def)
  qed
  then have "{a. pool_map po a \<noteq> None} = span_mapped pool_view (po_mappings po) 0 (Suc u64_max)" unfolding span_mapped_def by blast
  then have "card {a. pool_map po a \<noteq> None} = card (view_backing pool_view (po_mappings po))"
    using mapped_bytes_span [OF f(1)] mapped_bytes_backing [OF f(2)] by simp
  moreover have "card (pool_bytes po) = card (free_bytes (po_free po)) + card (view_backing pool_view (po_mappings po))"
    using bal mapped_bytes_backing [OF f(2)] unfolding balanced_def by (metis card_Un_disjoint free_bytes_finite)
  ultimately have "PO_Available po + card {a. pool_map po a \<noteq> None} = card (pool_bytes po)" using av by simp
  moreover have "free_bytes (po_free po) = pool_bytes po - {x. \<exists>a y. pool_map po a = Some (x, y)}"
    "{x. \<exists>a y. pool_map po a = Some (x, y)} \<subseteq> pool_bytes po" using bal unfolding balanced_def b by blast+
  ultimately show ?thesis using av view_unshared_inj [OF f(1,2)] by blast
qed

end
