(* ===== verification/Spec2Isabelle.thy ===== *)
theory Spec2Isabelle
  imports BitArray RangeSet TrackingSpinLock PageManager RegionManager MemoryTracker LruCache PageTable
    EventFlag KernelSema PosixSem EventQueue StringUtils DateTime Rtc ShaderTypes ShaderValues ShaderOptimize
    PhysicalHistory VirtualProperties FlexibleReach PooledHistory
begin

text \<open>
  MagnusPS5 runs programs of a game console on a host PC.  A guest program is loaded and linked
  (\<open>src/loader\<close>), runs on the host processor, and calls system libraries that the emulator
  provides (\<open>src/libs\<close>, \<open>src/kernel\<close>).  Its graphics packets are interpreted
  (\<open>src/graphics/guest_gpu\<close>), its shaders are recompiled to SPIR-V
  (\<open>src/graphics/shader/recompiler\<close>) and its resources are mirrored in Vulkan objects
  (\<open>src/graphics/host_gpu\<close>).  The development models the parts that decide by themselves what
  the program sees: the tracking of guest memory that keeps the mirrors up to date, the kernel
  objects guest threads block on, the calendar and text routines, and the graph of the shader
  recompiler.  All paths below are under \<open>src/\<close> of the repository.

  \<^bold>\<open>Conventions\<close> (\<open>Prelude\<close>).  A C++ call is a function to \<open>outcome\<close>: \<open>Ret\<close> is its result,
  \<open>Exit\<close> the end of the process by an assertion or a fatal error, \<open>Undef\<close> a step the language
  leaves undefined.  Words have their width; where a source guards its sums the model uses
  naturals with the guard written out.  Host calls that cannot be read from the repository (page
  protection, clocks, the \<open>fmt\<close> library) are arguments of the definitions.

  \<^bold>\<open>Memory tracking\<close> (\<open>graphics/host_gpu\<close>, \<open>common/bitArray.h\<close>).  \<open>BitArray\<close> is the bit set
  over 64-bit words; its range queries find the first and the last maximal run.  \<open>RangeSet\<close> is the
  canonical map of byte ranges; a history of additions and subtractions denotes the set of bytes
  they describe.  \<open>PageManager\<close> counts the watchers of each guest page and drives the host page
  protection; the protection of a page is always the one its counters ask for.  \<open>RegionManager\<close>
  keeps the CPU and GPU dirty bits of one region and adds or removes watchers as they change.
  \<open>MemoryTracker\<close> splits a byte range into regions; its operations are exact updates of two sets
  of pages and a page is protected exactly when its ownership requires it.  \<open>TrackingSpinLock\<close>
  excludes threads from a region: each atomic access of a thread is one step, and a read of the
  relaxed owner word may return any value that its thread may still see.  The theorem on page
  protection is for builds with \<open>MAGNUS_HOT_PAGE\<close> off, and a flush callback of the buffer cache
  is assumed to leave a tracker that satisfies the invariant.  \<open>Interfaces\<close> holds the
  locales between these parts: page bit sets, byte range sets, and operations that are done
  piece by piece; each is interpreted on the model in the theory that provides it.

  \<^bold>\<open>Kernel memory\<close> (\<open>kernel/memory.cpp\<close>).  Addresses are naturals up to the largest 64-bit
  word; where the code adds or subtracts without a check, the wrap-around is written out by
  \<open>add64\<close> and \<open>sub64\<close> of \<open>MemoryTypes\<close>, and the proofs show that it does not happen in
  reachable states.  \<open>FreeRanges\<close> is the map of free ranges, with the interface of a store of
  bytes that are taken and given back.  \<open>PhysicalMemory\<close> has the class of that name;
  \<open>PhysicalBlocks\<close> and \<open>PhysicalHistory\<close> show that its blocks and free ranges always share
  out the direct memory, and that allocation is first fit.  \<open>VirtualRanges\<close> has the vector of
  ranges of the guest's address space, \<open>VirtualMap\<close> reads it as a map from bytes to attributes,
  \<open>VirtualOps\<close>, \<open>VirtualHistory\<close> and \<open>VirtualBorders\<close> have the lemmas for each operation,
  and \<open>VirtualProperties\<close> shows that the vector refines the map together with the set of borders
  that calls leave between ranges which do not merge.  \<open>BlockViews\<close> reads a list of blocks as a
  map from guest addresses to backing bytes, with an interface for cutting blocks;
  \<open>FlexibleMemory\<close> and \<open>PooledMemory\<close> have the classes of those names, \<open>FlexibleBlocks\<close>,
  \<open>FlexibleOps\<close>, \<open>FlexibleHistory\<close>, \<open>FlexibleProperties\<close>, \<open>PooledOps\<close> and \<open>PooledReach\<close>
  their operations, and \<open>FlexibleReach\<close> and \<open>PooledHistory\<close> show that after any history no
  backing byte is mapped twice and that the bytes available are those that are not mapped.  The walk of
  \<open>ConsumeReservedSpan\<close> and of the block lookups ends by its measure, the bytes that are left.

  \<^bold>\<open>Caches\<close> (\<open>common/lruCache.h\<close>, \<open>graphics/host_gpu/renderer/cache/multiLevelPageTable.h\<close>).
  \<open>LruCache\<close> is the doubly linked recency list with a free list, refined to a list of objects and
  ticks; \<open>PageTable\<close> is the two-level page table, refined to a map of pages, with the packed
  owner list, refined to a list without order.

  \<^bold>\<open>Kernel objects\<close> (\<open>kernel\<close>).  \<open>EventFlag\<close>, \<open>KernelSema\<close>, \<open>PosixSem\<close> and \<open>EventQueue\<close>
  split each operation into the segments that the object's lock makes atomic, and interleave the
  segments of all threads.  What is proved: waiters are accounted for and no wakeup is lost, a
  cancelled wait completes, tokens are conserved and granted in queue order, POSIX calls, under
  both sets of names, act on values as specified with every error code, a sleeping thread keeps the
  object it sleeps on, which another call may delete, queued events are delivered once and in order, and a
  deleted queue never comes back under its handle.  \<open>KernelErrors\<close> has the status codes and the
  conversion of timeouts.  A wait is told the elapsed time by an argument of its step.

  \<^bold>\<open>Dates and text\<close> (\<open>common/dateTime.*\<close>, \<open>libs/libRtc.cpp\<close>, \<open>common/stringUtils.h\<close>).
  \<open>Calendar\<close> is the reference: the next day of a date, counted from an origin.  \<open>DateTime\<close>
  and \<open>Rtc\<close> follow it on their whole range, convert back and forth, and RFC 3339 text reads back
  as the tick it was made from.  \<open>StringUtils\<close> has the string helpers; splitting and joining
  are inverse.

  \<^bold>\<open>Shader recompiler\<close> (\<open>graphics/shader/recompiler/ir\<close>).  \<open>ShaderTypes\<close> has the types
  and the opcode table, \<open>ShaderValues\<close> the graph of instructions in an explicit store with the
  operations that edit it, and \<open>ShaderGraph\<close> shows that any history of edits keeps the use lists
  in step with the arguments.  \<open>ShaderRuns\<close> is the reference: a graph is in SSA form when the
  arguments of an instruction are available on every path to it, and a run walks the blocks and
  gives each instruction a value.  \<open>ShaderMeaning\<close> gives the integer opcodes their results over
  integers and bits; the results of all other opcodes are those of a device, which is a parameter.
  \<open>ShaderFold\<close> is constant propagation; \<open>ShaderWords\<close>, \<open>ShaderRules\<close> and \<open>ShaderFoldOk\<close>
  show for each folding rule that it never fails and finds the value the instruction has, and
  \<open>ShaderConstants\<close> that the pass keeps every run.  \<open>ShaderRestrict\<close> and \<open>ShaderPasses\<close> do the
  same for the removal of identities and of dead code, and \<open>ShaderOptimize\<close> for the passes in
  the order \<open>RecompileShader\<close> runs them, with the values that blocks branch on resolved in
  between.  Constant propagation keeps the runs in which no narrowing to 8 or 16 bits loses bits;
  lemma \<open>narrowing_changes_a_run\<close> has one that it changes otherwise.
  \<open>ShaderChecks\<close> checks the form of concrete graphs.  \<open>Resolve\<close> follows \<open>Identity\<close>
  instructions with a fuel of one more than the number of instructions, and \<open>EliminateDeadCode\<close>
  repeats its loop with the same fuel: a graph in SSA form never uses it up, since each instruction
  of a chain dominates the one before it and each round but the last erases an instruction.

  \<^bold>\<open>Not modelled.\<close>  Windows, input, audio and video output, sockets and files are calls of the
  host with little state of their own.  Vulkan objects, pipelines and the recording of command
  buffers (\<open>graphics/host_gpu/renderer\<close>) are effects on the graphics driver.  The packet handlers
  and packet builders (\<open>graphics/guest_gpu\<close>, \<open>libs/agc.cpp\<close>) move fields between hardware
  registers and the renderer.  The host mappings behind guest memory
  (\<open>kernel/memoryAddressSpace.inc\<close>), the system calls of \<open>kernel/memory.cpp\<close> that combine
  them with the bookkeeping above, and threads (\<open>kernel/pthread.cpp\<close>) depend on the host.  The
  loader rewrites machine code.  The codecs belong to external libraries.  What each of these uses
  of the parts above is in their models.
\<close>

end
